(* ===== verification/Prelude.thy ===== *)
theory Prelude
  imports Main "HOL-Library.Word" "HOL-Library.Monad_Syntax"
begin

text \<open>
  Shared vocabulary of the development: the C integer types the library's headers use
  (\<^verbatim>\<open>proj/UPST_LIB/INC/typedef.h\<close>), the reading of a fallible C function, and the generic
  lemmas on words, maps and bounded searches that several components use.

  A C function that may run into undefined behaviour (a dereference outside the objects it
  may touch, a division by zero) or that may not return is modelled in the \<open>option\<close>
  monad: \<open>None\<close> means "no regular return". A NULL result that the code itself produces is
  a value, never \<open>None\<close> of that outer type.
\<close>

section \<open>Integer types\<close>

type_synonym u8 = "8 word"
type_synonym u16 = "16 word"
type_synonym u32 = "32 word"
type_synonym u64 = "64 word"

text \<open>\<open>OFFSET\<close> is \<open>long\<close>: 64 bits on the platform of the code, and every offset is a
  position inside one memory object. Offsets are mathematical integers here.\<close>

type_synonym offset = int

text \<open>\<open>INVALID_ID\<close> of \<^verbatim>\<open>INC/nifo.h\<close>.\<close>

definition INVALID_ID :: u32 where
  "INVALID_ID = 0xFFFFFFFF"

named_theorems wf_simps \<open>the facts that unfold a component's well-formedness\<close>
named_theorems frame_simps \<open>fields an operation leaves alone\<close>

section \<open>Words as counters\<close>

lemma unat_Suc_bounded: "unat (w :: 'a::len word) < unat (v :: 'a word) \<Longrightarrow> unat (w + 1) = Suc (unat w)"
proof -
  assume "unat w < unat v"
  moreover have "unat v < 2 ^ LENGTH('a)" by (rule unsigned_less)
  ultimately have "unat w + 1 < 2 ^ LENGTH('a)" by linarith
  then show ?thesis by (simp add: unat_word_ariths)
qed

lemma unat_pred_pos: "0 < unat (w :: 'a::len word) \<Longrightarrow> unat (w - 1) = unat w - 1"
  by (metis One_nat_def gr_implies_not0 unat_0 unat_minus_one)

lemma uint_pos_iff: "0 < uint (w :: 'a::len word) \<longleftrightarrow> w \<noteq> 0"
  by (metis less_le uint_0_iff uint_ge_0)

section \<open>Modular indices\<close>

text \<open>A cursor that advances by one and wraps at \<open>n\<close>.\<close>

lemma mod_Suc_step:
  assumes "k < n"
  shows "Suc k mod n = (if Suc k = n then 0 else Suc k)"
  using assms by auto

lemma mod_distance:
  fixes j k n :: nat
  assumes "j < n" "k < n"
  shows "(k + (j + n - k) mod n) mod n = j"
proof -
  have "(k + (j + n - k) mod n) mod n = (k + (j + n - k)) mod n"
    by (simp add: mod_add_right_eq)
  also have "\<dots> = j" using assms by simp
  finally show ?thesis .
qed

section \<open>Arithmetic progressions of slots\<close>

text \<open>Every pool of the library lays its nodes out at \<open>start + i * sz\<close>.\<close>

definition slot_at :: "int \<Rightarrow> int \<Rightarrow> nat \<Rightarrow> int" where
  "slot_at start sz i = start + int i * sz"

lemma slot_at_0 [simp]: "slot_at start sz 0 = start"
  by (simp add: slot_at_def)

lemma slot_at_Suc: "slot_at start sz (Suc i) = slot_at start sz i + sz"
  by (simp add: slot_at_def algebra_simps)

lemma slot_at_inj: "0 < sz \<Longrightarrow> slot_at start sz i = slot_at start sz j \<longleftrightarrow> i = j"
  by (simp add: slot_at_def)

lemma slot_at_less: "0 < sz \<Longrightarrow> slot_at start sz i < slot_at start sz j \<longleftrightarrow> i < j"
  by (simp add: slot_at_def)

lemma slot_at_ge: "0 \<le> sz \<Longrightarrow> start \<le> slot_at start sz i"
  by (simp add: slot_at_def)

definition slots :: "int \<Rightarrow> int \<Rightarrow> nat \<Rightarrow> int set" where
  "slots start sz n = slot_at start sz ` {..<n}"

lemma slots_Suc: "slots start sz (Suc n) = insert (slot_at start sz n) (slots start sz n)"
  by (simp add: slots_def lessThan_Suc)

lemma slots_0 [simp]: "slots start sz 0 = {}"
  by (simp add: slots_def)

lemma finite_slots [simp]: "finite (slots start sz n)"
  by (simp add: slots_def)

lemma card_slots: "0 < sz \<Longrightarrow> card (slots start sz n) = n"
  unfolding slots_def by (subst card_image) (auto simp: inj_on_def slot_at_inj)

lemma slot_in_slots [simp]: "i < n \<Longrightarrow> slot_at start sz i \<in> slots start sz n"
  by (simp add: slots_def)

lemma slots_distinct_distance:
  assumes "0 < sz" "p \<in> slots start sz n" "q \<in> slots start sz n" "p < q"
  shows "p + sz \<le> q"
proof -
  from assms(2,3) obtain i j where ij: "p = slot_at start sz i" "q = slot_at start sz j"
    by (auto simp: slots_def)
  with assms(1,4) have "i < j" by (simp add: slot_at_less)
  then have "(int i + 1) * sz \<le> int j * sz"
    using assms(1) by (intro mult_right_mono) auto
  with ij show ?thesis by (simp add: slot_at_def algebra_simps)
qed

section \<open>Option monad\<close>

lemma bind_Some_iff: "Option.bind x f = Some y \<longleftrightarrow> (\<exists>z. x = Some z \<and> f z = Some y)"
  by (cases x) auto

text \<open>The guard that turns a C assertion or a precondition of an access into a fault.\<close>

definition guard_opt :: "bool \<Rightarrow> unit option" where
  "guard_opt b = (if b then Some () else None)"

lemma guard_opt_simps [simp]: "guard_opt True = Some ()" "guard_opt False = None"
  by (simp_all add: guard_opt_def)

end
