(* ===== verification/Pool.thy ===== *)
theory Pool
  imports Prelude
begin

text \<open>
  The interface between a fixed-size node allocator and the containers built on it. The
  client calls \<open>alloc\<close> (which yields a pointer or NULL) and \<open>release\<close> (which answers 0 for a
  node it takes back and something else otherwise); \<open>cells\<close> is the set of node pointers the
  pool can hand out and \<open>live\<close> the set it has handed out. \<open>memg.c\<close> and one zone of
  \<open>mems.c\<close> are the two implementations.
\<close>

locale node_pool =
  fixes inv :: "'s \<Rightarrow> bool"
    and cells :: "'s \<Rightarrow> offset set"
    and live :: "'s \<Rightarrow> offset set"
    and alloc :: "'s \<Rightarrow> ('s \<times> offset option) option"
    and release :: "'s \<Rightarrow> offset \<Rightarrow> ('s \<times> int) option"
  assumes finite_cells: "inv s \<Longrightarrow> finite (cells s)"
    and live_cells: "inv s \<Longrightarrow> live s \<subseteq> cells s"
    and alloc_ok: "inv s \<Longrightarrow> live s \<noteq> cells s \<Longrightarrow>
       \<exists>s' p. alloc s = Some (s', Some p) \<and> p \<in> cells s - live s \<and> inv s' \<and>
              cells s' = cells s \<and> live s' = insert p (live s)"
    and alloc_null: "inv s \<Longrightarrow> live s = cells s \<Longrightarrow>
       \<exists>s'. alloc s = Some (s', None) \<and> inv s' \<and> cells s' = cells s \<and> live s' = live s"
    and release_live: "inv s \<Longrightarrow> p \<in> live s \<Longrightarrow>
       \<exists>s'. release s p = Some (s', 0) \<and> inv s' \<and> cells s' = cells s \<and> live s' = live s - {p}"
    and release_dead: "inv s \<Longrightarrow> p \<in> cells s - live s \<Longrightarrow> release s p = Some (s, 1)"
begin

lemma alloc_SomeD:
  assumes "inv s" "alloc s = Some (s', Some p)"
  shows "p \<in> cells s - live s \<and> inv s' \<and> cells s' = cells s \<and> live s' = insert p (live s)"
proof (cases "live s = cells s")
  case True
  from alloc_null [OF assms(1) this] assms(2) show ?thesis by simp
next
  case False
  from alloc_ok [OF assms(1) this] assms(2) show ?thesis by simp
qed

lemma alloc_NoneD:
  assumes "inv s" "alloc s = Some (s', None)"
  shows "live s = cells s \<and> inv s' \<and> cells s' = cells s \<and> live s' = live s"
proof (cases "live s = cells s")
  case True
  from alloc_null [OF assms(1) this] assms(2) True show ?thesis by simp
next
  case False
  from alloc_ok [OF assms(1) this] assms(2) show ?thesis by simp
qed

lemma finite_live: "inv s \<Longrightarrow> finite (live s)"
  using finite_cells live_cells finite_subset by blast

text \<open>NULL exactly when every node is out.\<close>

lemma alloc_null_iff:
  assumes "inv s"
  shows "(\<exists>s'. alloc s = Some (s', None)) \<longleftrightarrow> card (live s) = card (cells s)"
proof
  assume "\<exists>s'. alloc s = Some (s', None)"
  then obtain s' where "alloc s = Some (s', None)" by blast
  from alloc_NoneD [OF assms this] show "card (live s) = card (cells s)" by simp
next
  assume "card (live s) = card (cells s)"
  then have "live s = cells s"
    by (rule card_subset_eq [OF finite_cells [OF assms] live_cells [OF assms]])
  then show "\<exists>s'. alloc s = Some (s', None)"
    using alloc_null [OF assms] by blast
qed

text \<open>A node that is given back at once leaves the pool as it was, up to the cursor.\<close>

lemma alloc_release:
  assumes "inv s" "alloc s = Some (s', Some p)"
  shows "\<exists>s''. release s' p = Some (s'', 0) \<and> inv s'' \<and> live s'' = live s \<and> cells s'' = cells s"
proof -
  note s' = alloc_SomeD [OF assms]
  then have "p \<in> live s'" by simp
  with release_live [of s' p] s' obtain s'' where
    "release s' p = Some (s'', 0)" "inv s''" "cells s'' = cells s'" "live s'' = live s' - {p}"
    by blast
  with s' show ?thesis by auto
qed

text \<open>The second release of the same pointer is refused.\<close>

lemma double_release:
  assumes "inv s" "p \<in> live s" "release s p = Some (s', r)"
  shows "r = 0 \<and> release s' p = Some (s', 1)"
proof -
  from release_live [OF assms(1,2)] assms(3)
  have s': "r = 0" "inv s'" "cells s' = cells s" "live s' = live s - {p}" by auto
  moreover from assms(1,2) live_cells have "p \<in> cells s" by blast
  ultimately show ?thesis using release_dead [of s' p] by auto
qed

text \<open>\<open>n\<close> allocations in a row.\<close>

primrec alloc_many :: "nat \<Rightarrow> 's \<Rightarrow> ('s \<times> offset option list) option" where
  "alloc_many 0 s = Some (s, [])"
| "alloc_many (Suc n) s =
     (case alloc s of None \<Rightarrow> None
      | Some (s', r) \<Rightarrow>
          (case alloc_many n s' of None \<Rightarrow> None | Some (s'', rs) \<Rightarrow> Some (s'', r # rs)))"

lemma alloc_many_fits:
  assumes "inv s" "card (live s) + n \<le> card (cells s)"
  shows "\<exists>s' ps. alloc_many n s = Some (s', map Some ps) \<and> length ps = n \<and> distinct ps \<and>
           set ps \<inter> live s = {} \<and> live s' = live s \<union> set ps \<and> inv s' \<and> cells s' = cells s"
  using assms
proof (induction n arbitrary: s)
  case 0
  then show ?case by auto
next
  case (Suc n)
  then have "live s \<noteq> cells s" by auto
  then obtain s1 p where 1: "alloc s = Some (s1, Some p)" "p \<in> cells s - live s" "inv s1"
    "cells s1 = cells s" "live s1 = insert p (live s)"
    using alloc_ok [OF Suc.prems(1)] by blast
  have "finite (live s)" using Suc.prems(1) by (rule finite_live)
  with 1(2,4,5) Suc.prems(2) have "card (live s1) + n \<le> card (cells s1)" by simp
  from Suc.IH [OF 1(3) this] obtain s2 ps where
    2: "alloc_many n s1 = Some (s2, map Some ps)" "length ps = n" "distinct ps"
       "set ps \<inter> live s1 = {}" "live s2 = live s1 \<union> set ps" "inv s2" "cells s2 = cells s1"
    by blast
  have "alloc_many (Suc n) s = Some (s2, map Some (p # ps)) \<and> length (p # ps) = Suc n \<and>
      distinct (p # ps) \<and> set (p # ps) \<inter> live s = {} \<and> live s2 = live s \<union> set (p # ps) \<and>
      inv s2 \<and> cells s2 = cells s"
    using 1 2 by auto
  then show ?case by blast
qed

end

end
