(* ===== verification/Memg.thy ===== *)
theory Memg
  imports Pool
begin

text \<open>
  \<^verbatim>\<open>proj/UPST_LIB/SRC/HASHO/memg.c\<close>: a pool of equally sized nodes in one memory block
  (main memory or a shared memory segment), used by the offset hash table.

  Block layout, in offsets from the start of the block: \<open>stMEMGINFO\<close> (64 bytes), the head
  room, then \<open>uiMemNodeTotCnt\<close> nodes, each a header (\<open>stMEMGNODEHDR\<close>, 20 bytes) followed
  by its body. The record \<open>memg\<close> holds the info block, the headers by offset and the
  \<open>OFFSET\<close>-sized cells of the head room by offset. An access at an offset without a header
  is a fault.
\<close>

section \<open>State\<close>

definition MEMG_MAIN_MEM :: u32 where "MEMG_MAIN_MEM = 1"
definition MEMG_SHARED_MEM :: u32 where "MEMG_SHARED_MEM = 2"
definition MEMG_ID :: u32 where "MEMG_ID = 0x10101010"
definition MEMG_FREE :: u8 where "MEMG_FREE = 0"
definition MEMG_ALLOCED :: u8 where "MEMG_ALLOCED = 1"
definition MEMG_MAX_DEBUG_STR :: nat where "MEMG_MAX_DEBUG_STR = 11"

definition stMEMGINFO_SIZE :: int where "stMEMGINFO_SIZE = 64"
definition stMEMGNODEHDR_SIZE :: int where "stMEMGNODEHDR_SIZE = 20"

lemmas memg_const_defs = MEMG_MAIN_MEM_def MEMG_SHARED_MEM_def MEMG_ID_def MEMG_FREE_def
  MEMG_ALLOCED_def MEMG_MAX_DEBUG_STR_def stMEMGINFO_SIZE_def stMEMGNODEHDR_SIZE_def

lemma MEMG_flags_differ [simp]: "MEMG_FREE \<noteq> MEMG_ALLOCED" "MEMG_ALLOCED \<noteq> MEMG_FREE"
  by (simp_all add: memg_const_defs)

record memgnodehdr =
  gh_uiID :: u32
  gh_TimeSec :: int
  gh_ucIsFree :: u8
  gh_DebugStr :: string

record memginfo =
  gi_uiType :: u32
  gi_uiShmKey :: u32
  gi_uiTotMemSize :: u32
  gi_uiHeadRoomSize :: u32
  gi_uiMemNodeHdrSize :: u32
  gi_uiMemNodeBodySize :: u32
  gi_uiMemNodeAllocedCnt :: u32
  gi_uiMemNodeTotCnt :: u32
  gi_offsetHeadRoom :: offset
  gi_offsetNodeStart :: offset
  gi_offsetFreeList :: offset
  gi_offsetNodeEnd :: offset

record memg = memginfo +
  gm_hdr :: "offset \<rightharpoonup> memgnodehdr"
  gm_cell :: "offset \<rightharpoonup> offset"

definition memg_stride :: "'a memginfo_scheme \<Rightarrow> int" where
  "memg_stride m = stMEMGNODEHDR_SIZE + uint (gi_uiMemNodeBodySize m)"

section \<open>Initialisation\<close>

text \<open>\<open>memset\<close> to zero of a byte range, seen through its \<open>OFFSET\<close> cells.\<close>

definition zero_cells :: "(offset \<rightharpoonup> offset) \<Rightarrow> offset \<Rightarrow> int \<Rightarrow> (offset \<rightharpoonup> offset)" where
  "zero_cells c a n = (\<lambda>x. if a \<le> x \<and> x < a + n then Some 0 else c x)"

definition memg_free_hdr :: memgnodehdr where
  "memg_free_hdr = \<lparr>gh_uiID = MEMG_ID, gh_TimeSec = 0, gh_ucIsFree = MEMG_FREE, gh_DebugStr = []\<rparr>"

text \<open>The loop over \<open>iIndex\<close> that writes every node header.\<close>

primrec memg_init_nodes ::
  "int \<Rightarrow> int \<Rightarrow> (offset \<rightharpoonup> memgnodehdr) \<Rightarrow> nat \<Rightarrow> (offset \<rightharpoonup> memgnodehdr)" where
  "memg_init_nodes start sz h 0 = h"
| "memg_init_nodes start sz h (Suc n) =
     (memg_init_nodes start sz h n)(slot_at start sz n \<mapsto> memg_free_hdr)"

text \<open>
  What the operating system answers: whether \<open>malloc\<close> succeeds, the result of the exclusive
  \<open>shmget\<close>, whether the second \<open>shmget\<close> and \<open>shmat\<close> succeed, and the pool another process
  has put into an existing segment. \<open>shmat\<close> on the identifier \<open>-1\<close> fails (\<open>EINVAL\<close>).
\<close>

datatype shm_excl = ShmCreated | ShmExists | ShmOther

record memg_os =
  os_malloc :: bool
  os_shmget :: shm_excl
  os_shmget_again :: bool
  os_shmat :: bool
  os_existing :: memg

definition memg_fresh :: "u32 \<Rightarrow> u32 \<Rightarrow> u32 \<Rightarrow> u32 \<Rightarrow> u32 \<Rightarrow> memg" where
  "memg_fresh uiType uiShmKey uiHeadRoomSize uiMemNodeBodySize uiMemNodeTotCnt =
    (let stride = stMEMGNODEHDR_SIZE + uint uiMemNodeBodySize;
         uiTotMemSize = stMEMGINFO_SIZE + uint uiHeadRoomSize + stride * uint uiMemNodeTotCnt;
         start = stMEMGINFO_SIZE + uint uiHeadRoomSize
     in \<lparr>gi_uiType = uiType, gi_uiShmKey = uiShmKey,
         gi_uiTotMemSize = word_of_int uiTotMemSize,
         gi_uiHeadRoomSize = uiHeadRoomSize,
         gi_uiMemNodeHdrSize = word_of_int stMEMGNODEHDR_SIZE,
         gi_uiMemNodeBodySize = uiMemNodeBodySize,
         gi_uiMemNodeAllocedCnt = 0,
         gi_uiMemNodeTotCnt = uiMemNodeTotCnt,
         gi_offsetHeadRoom = stMEMGINFO_SIZE,
         gi_offsetNodeStart = start,
         gi_offsetFreeList = start,
         gi_offsetNodeEnd = start + stride * uint uiMemNodeTotCnt,
         gm_hdr = memg_init_nodes start stride Map.empty (unat uiMemNodeTotCnt),
         gm_cell = zero_cells Map.empty stMEMGINFO_SIZE (uint uiHeadRoomSize)\<rparr>)"

text \<open>
  \<open>memg_init\<close>: the outer option is the fault of writing through a failed \<open>malloc\<close>, which the
  code does not test; the inner one is the NULL the code returns.
\<close>

definition memg_init ::
  "memg_os \<Rightarrow> u32 \<Rightarrow> u32 \<Rightarrow> u32 \<Rightarrow> u32 \<Rightarrow> u32 \<Rightarrow> memg option option" where
  "memg_init os uiType uiShmKey uiHeadRoomSize uiMemNodeBodySize uiMemNodeTotCnt =
    (let fresh = memg_fresh uiType uiShmKey uiHeadRoomSize uiMemNodeBodySize uiMemNodeTotCnt in
     if uiType = MEMG_MAIN_MEM then (if os_malloc os then Some (Some fresh) else None)
     else if uiType = MEMG_SHARED_MEM then
       (case os_shmget os of
          ShmExists \<Rightarrow>
            if \<not> os_shmget_again os then Some None
            else if \<not> os_shmat os then Some None
            else Some (Some (os_existing os))
        | ShmOther \<Rightarrow> Some None
        | ShmCreated \<Rightarrow> if os_shmat os then Some (Some fresh) else Some None)
     else Some None)"

definition memg_reset :: "memg \<Rightarrow> int \<Rightarrow> memg" where
  "memg_reset m base =
     m\<lparr>gi_uiMemNodeAllocedCnt := 0,
       gi_offsetFreeList := gi_offsetNodeStart m,
       gm_cell := zero_cells (gm_cell m) (gi_offsetHeadRoom m + base)
                    (uint (gi_uiHeadRoomSize m) - base),
       gm_hdr := memg_init_nodes (gi_offsetNodeStart m) (memg_stride m) (gm_hdr m)
                   (unat (gi_uiMemNodeTotCnt m))\<rparr>"

section \<open>Allocation\<close>

text \<open>One turn of the free list cursor.\<close>

definition memg_next_free :: "memg \<Rightarrow> offset" where
  "memg_next_free m =
     (let off = gi_offsetFreeList m + memg_stride m
      in if off = gi_offsetNodeEnd m then gi_offsetNodeStart m else off)"

text \<open>
  The search loop of \<open>memg_alloc\<close>. \<open>iDebug\<close> counts the nodes found in use; it is a \<open>U32\<close>
  in the code and a natural number here (it stays at most \<open>uiMemNodeTotCnt + 1\<close>).
\<close>

function memg_alloc_loop :: "memg \<Rightarrow> string \<Rightarrow> int \<Rightarrow> nat \<Rightarrow> (memg \<times> offset option) option" where
  "memg_alloc_loop m dbg now iDebug =
    (if gi_uiMemNodeAllocedCnt m < gi_uiMemNodeTotCnt m then
       (let pFree = gi_offsetFreeList m;
            m1 = m\<lparr>gi_offsetFreeList := memg_next_free m\<rparr>
        in case gm_hdr m pFree of
             None \<Rightarrow> None
           | Some h \<Rightarrow>
               if gh_ucIsFree h = MEMG_FREE then
                 Some (m1\<lparr>gm_hdr := (gm_hdr m)(pFree \<mapsto>
                              h\<lparr>gh_ucIsFree := MEMG_ALLOCED, gh_TimeSec := now,
                                gh_DebugStr := take (MEMG_MAX_DEBUG_STR - 1) dbg\<rparr>),
                          gi_uiMemNodeAllocedCnt := gi_uiMemNodeAllocedCnt m + 1\<rparr>,
                       Some (pFree + stMEMGNODEHDR_SIZE))
               else if Suc iDebug > unat (gi_uiMemNodeTotCnt m) then Some (m1, None)
               else memg_alloc_loop m1 dbg now (Suc iDebug))
     else Some (m, None))"
  by pat_completeness auto
termination
  by (relation "measure (\<lambda>(m, dbg, now, iDebug). Suc (unat (gi_uiMemNodeTotCnt m)) - iDebug)")
     (auto simp: Let_def)

declare memg_alloc_loop.simps [simp del]

definition memg_alloc :: "memg \<Rightarrow> u32 \<Rightarrow> string \<Rightarrow> int \<Rightarrow> (memg \<times> offset option) option" where
  "memg_alloc m uiSize dbg now =
     (if gi_uiMemNodeBodySize m < uiSize then Some (m, None)
      else memg_alloc_loop m dbg now 0)"

section \<open>Release\<close>

text \<open>\<open>memg_free\<close> returns 0, or 1 and changes nothing when the header is not an allocated one.\<close>

definition memg_free :: "memg \<Rightarrow> offset \<Rightarrow> (memg \<times> int) option" where
  "memg_free m pFree =
     (case gm_hdr m (pFree - stMEMGNODEHDR_SIZE) of
        None \<Rightarrow> None
      | Some h \<Rightarrow>
          if MEMG_ID \<noteq> gh_uiID h \<or> MEMG_ALLOCED \<noteq> gh_ucIsFree h then Some (m, 1)
          else Some (m\<lparr>gm_hdr := (gm_hdr m)(pFree - stMEMGNODEHDR_SIZE \<mapsto>
                           h\<lparr>gh_ucIsFree := MEMG_FREE, gh_DebugStr := []\<rparr>),
                       gi_uiMemNodeAllocedCnt := gi_uiMemNodeAllocedCnt m - 1\<rparr>, 0))"

section \<open>Well-formed pools\<close>

definition memg_nodes :: "'a memginfo_scheme \<Rightarrow> offset set" where
  "memg_nodes m = slots (gi_offsetNodeStart m) (memg_stride m) (unat (gi_uiMemNodeTotCnt m))"

text \<open>The body pointers the pool can hand out, and those it has handed out.\<close>

definition memg_cells :: "'a memginfo_scheme \<Rightarrow> offset set" where
  "memg_cells m = (\<lambda>q. q + stMEMGNODEHDR_SIZE) ` memg_nodes m"

definition memg_live :: "memg \<Rightarrow> offset set" where
  "memg_live m = {p. \<exists>h. gm_hdr m (p - stMEMGNODEHDR_SIZE) = Some h \<and> gh_ucIsFree h = MEMG_ALLOCED}"

definition memg_hdr_ok :: "memgnodehdr \<Rightarrow> bool" where
  "memg_hdr_ok h \<longleftrightarrow> gh_uiID h = MEMG_ID \<and> gh_ucIsFree h \<in> {MEMG_FREE, MEMG_ALLOCED}"

definition memg_wf :: "memg \<Rightarrow> bool" where
  "memg_wf m \<longleftrightarrow>
     gi_offsetHeadRoom m = stMEMGINFO_SIZE \<and>
     gi_offsetNodeStart m = stMEMGINFO_SIZE + uint (gi_uiHeadRoomSize m) \<and>
     gi_offsetNodeEnd m =
       slot_at (gi_offsetNodeStart m) (memg_stride m) (unat (gi_uiMemNodeTotCnt m)) \<and>
     dom (gm_hdr m) = memg_nodes m \<and>
     (\<forall>h \<in> ran (gm_hdr m). memg_hdr_ok h) \<and>
     gi_offsetFreeList m \<in> insert (gi_offsetNodeStart m) (memg_nodes m) \<and>
     unat (gi_uiMemNodeAllocedCnt m) = card (memg_live m)"

text \<open>The fields that place the objects of a pool; no operation after \<open>memg_init\<close> writes them.\<close>

definition memg_geom :: "memg \<Rightarrow> offset \<times> u32 \<times> u32 \<times> u32 \<times> offset \<times> offset" where
  "memg_geom m = (gi_offsetHeadRoom m, gi_uiHeadRoomSize m, gi_uiMemNodeBodySize m,
                  gi_uiMemNodeTotCnt m, gi_offsetNodeStart m, gi_offsetNodeEnd m)"

lemma memg_geomD:
  "memg_geom m' = memg_geom m \<Longrightarrow>
     gi_offsetHeadRoom m' = gi_offsetHeadRoom m \<and> gi_uiHeadRoomSize m' = gi_uiHeadRoomSize m \<and>
     gi_uiMemNodeBodySize m' = gi_uiMemNodeBodySize m \<and>
     gi_uiMemNodeTotCnt m' = gi_uiMemNodeTotCnt m \<and> memg_cells m' = memg_cells m"
  by (auto simp: memg_geom_def memg_cells_def memg_nodes_def memg_stride_def)

lemma memg_stride_pos [simp]: "0 < memg_stride m"
  by (simp add: memg_stride_def memg_const_defs add_pos_nonneg)

lemma memg_stride_update [frame_simps]:
  "memg_stride (m\<lparr>gi_offsetFreeList := f\<rparr>) = memg_stride m"
  "memg_stride (m\<lparr>gi_uiMemNodeAllocedCnt := c\<rparr>) = memg_stride m"
  "memg_stride (m'\<lparr>gm_hdr := hs\<rparr>) = memg_stride m'"
  "memg_stride (m'\<lparr>gm_cell := cs\<rparr>) = memg_stride m'"
  by (simp_all add: memg_stride_def)

lemma memg_nodes_update [frame_simps]:
  "memg_nodes (m\<lparr>gi_offsetFreeList := f\<rparr>) = memg_nodes m"
  "memg_nodes (m\<lparr>gi_uiMemNodeAllocedCnt := c\<rparr>) = memg_nodes m"
  "memg_nodes (m'\<lparr>gm_hdr := hs\<rparr>) = memg_nodes m'"
  "memg_nodes (m'\<lparr>gm_cell := cs\<rparr>) = memg_nodes m'"
  by (simp_all add: memg_nodes_def frame_simps)

lemma memg_cells_update [frame_simps]:
  "memg_cells (m\<lparr>gi_offsetFreeList := f\<rparr>) = memg_cells m"
  "memg_cells (m\<lparr>gi_uiMemNodeAllocedCnt := c\<rparr>) = memg_cells m"
  "memg_cells (m'\<lparr>gm_hdr := hs\<rparr>) = memg_cells m'"
  "memg_cells (m'\<lparr>gm_cell := cs\<rparr>) = memg_cells m'"
  by (simp_all add: memg_cells_def frame_simps)

lemma memg_live_update [frame_simps]:
  "memg_live (m\<lparr>gi_offsetFreeList := f\<rparr>) = memg_live m"
  "memg_live (m\<lparr>gi_uiMemNodeAllocedCnt := c\<rparr>) = memg_live m"
  "memg_live (m\<lparr>gm_cell := cs\<rparr>) = memg_live m"
  by (simp_all add: memg_live_def)

lemma finite_memg_nodes [simp]: "finite (memg_nodes m)"
  by (simp add: memg_nodes_def)

lemma finite_memg_cells [simp]: "finite (memg_cells m)"
  by (simp add: memg_cells_def)

lemma card_memg_cells: "card (memg_cells m) = unat (gi_uiMemNodeTotCnt m)"
  unfolding memg_cells_def memg_nodes_def
  by (subst card_image) (auto simp: inj_on_def card_slots)

lemma memg_live_subset: "memg_wf m \<Longrightarrow> memg_live m \<subseteq> memg_cells m"
proof
  fix p assume wf: "memg_wf m" and "p \<in> memg_live m"
  then have "p - stMEMGNODEHDR_SIZE \<in> dom (gm_hdr m)" by (auto simp: memg_live_def)
  with wf have "p - stMEMGNODEHDR_SIZE \<in> memg_nodes m" by (simp add: memg_wf_def)
  then show "p \<in> memg_cells m"
    unfolding memg_cells_def by (rule rev_image_eqI) simp
qed

lemma finite_memg_live: "memg_wf m \<Longrightarrow> finite (memg_live m)"
  by (rule finite_subset [OF memg_live_subset]) simp_all

lemma memg_init_nodes_apply:
  "memg_init_nodes start sz h n x =
     (if x \<in> slots start sz n then Some memg_free_hdr else h x)"
  by (induction n) (auto simp: slots_Suc)

lemma memg_wf_free_node:
  assumes "memg_wf m" "q \<in> memg_nodes m"
  obtains h where "gm_hdr m q = Some h" "memg_hdr_ok h"
    "gh_ucIsFree h = MEMG_FREE \<longleftrightarrow> q + stMEMGNODEHDR_SIZE \<notin> memg_live m"
proof -
  from assms obtain h where h: "gm_hdr m q = Some h" by (auto simp: memg_wf_def)
  then have "memg_hdr_ok h" using assms(1) by (auto simp: memg_wf_def ran_def)
  moreover from this h have "gh_ucIsFree h = MEMG_FREE \<longleftrightarrow> q + stMEMGNODEHDR_SIZE \<notin> memg_live m"
    by (auto simp: memg_live_def memg_hdr_ok_def)
  ultimately show thesis using h that by blast
qed

section \<open>Initialisation gives a well-formed, empty pool\<close>

lemma memg_fresh_wf:
  "memg_wf (memg_fresh ty key hr body tot) \<and> memg_live (memg_fresh ty key hr body tot) = {}"
proof -
  let ?m = "memg_fresh ty key hr body tot"
  have hdr: "gm_hdr ?m x = (if x \<in> memg_nodes ?m then Some memg_free_hdr else None)" for x
    by (simp add: memg_fresh_def Let_def memg_init_nodes_apply memg_nodes_def memg_stride_def)
  then have live: "memg_live ?m = {}"
    by (auto simp: memg_live_def memg_free_hdr_def split: if_splits)
  have "dom (gm_hdr ?m) = memg_nodes ?m"
    using hdr by (auto simp: dom_def split: if_splits)
  moreover have "\<forall>h \<in> ran (gm_hdr ?m). memg_hdr_ok h"
    using hdr by (auto simp: ran_def memg_hdr_ok_def memg_free_hdr_def split: if_splits)
  ultimately have "memg_wf ?m"
    using live unfolding memg_wf_def
    by (simp add: memg_fresh_def Let_def slot_at_def memg_stride_def mult.commute)
  with live show ?thesis by simp
qed

lemma memg_reset_wf:
  assumes "memg_wf m"
  shows "memg_wf (memg_reset m base) \<and> memg_live (memg_reset m base) = {}"
proof -
  let ?m = "memg_reset m base"
  have nodes: "memg_nodes ?m = memg_nodes m" and stride: "memg_stride ?m = memg_stride m"
    by (simp_all add: memg_reset_def memg_nodes_def memg_stride_def)
  have hdr: "gm_hdr ?m x = (if x \<in> memg_nodes m then Some memg_free_hdr else None)" for x
    using assms
    by (auto simp: memg_reset_def memg_init_nodes_apply memg_nodes_def memg_wf_def)
  then have live: "memg_live ?m = {}"
    by (auto simp: memg_live_def memg_free_hdr_def split: if_splits)
  have "dom (gm_hdr ?m) = memg_nodes ?m"
    using hdr nodes by (auto simp: dom_def split: if_splits)
  moreover have "\<forall>h \<in> ran (gm_hdr ?m). memg_hdr_ok h"
    using hdr by (auto simp: ran_def memg_hdr_ok_def memg_free_hdr_def split: if_splits)
  ultimately have "memg_wf ?m"
    using live assms unfolding memg_wf_def
    by (simp add: nodes stride) (simp add: memg_reset_def)
  with live show ?thesis by simp
qed

section \<open>Allocation and release\<close>

text \<open>The pool after the node at header offset \<open>q\<close> is taken and the cursor is at \<open>f\<close>.\<close>

definition memg_take :: "memg \<Rightarrow> offset \<Rightarrow> memgnodehdr \<Rightarrow> offset \<Rightarrow> string \<Rightarrow> int \<Rightarrow> memg" where
  "memg_take m q h f dbg now =
     m\<lparr>gi_offsetFreeList := f,
       gm_hdr := (gm_hdr m)(q \<mapsto> h\<lparr>gh_ucIsFree := MEMG_ALLOCED, gh_TimeSec := now,
                                 gh_DebugStr := take (MEMG_MAX_DEBUG_STR - 1) dbg\<rparr>),
       gi_uiMemNodeAllocedCnt := gi_uiMemNodeAllocedCnt m + 1\<rparr>"

lemma memg_next_free_slot:
  assumes "memg_wf m" "k < n" "n = unat (gi_uiMemNodeTotCnt m)"
    "gi_offsetFreeList m = slot_at (gi_offsetNodeStart m) (memg_stride m) k"
  shows "memg_next_free m = slot_at (gi_offsetNodeStart m) (memg_stride m) (Suc k mod n)"
proof -
  let ?at = "slot_at (gi_offsetNodeStart m) (memg_stride m)"
  have "gi_offsetFreeList m + memg_stride m = ?at (Suc k)"
    using assms(4) by (simp add: slot_at_Suc)
  moreover have "gi_offsetNodeEnd m = ?at n" using assms(1,3) by (simp add: memg_wf_def)
  ultimately show ?thesis
    using assms(2) by (auto simp: memg_next_free_def slot_at_inj mod_Suc_step)
qed

lemma memg_wf_cursor:
  assumes "memg_wf m" "f \<in> memg_nodes m"
  shows "memg_wf (m\<lparr>gi_offsetFreeList := f\<rparr>)"
  using assms by (simp add: memg_wf_def frame_simps)

text \<open>
  The search: with the cursor at slot \<open>k\<close> and a free node \<open>d\<close> turns ahead, the loop takes a
  free node before its own counter stops it.
\<close>

lemma memg_alloc_loop_found:
  assumes "memg_wf m" "n = unat (gi_uiMemNodeTotCnt m)" "k < n"
    "gi_offsetFreeList m = slot_at (gi_offsetNodeStart m) (memg_stride m) k"
    "gi_uiMemNodeAllocedCnt m < gi_uiMemNodeTotCnt m"
    "slot_at (gi_offsetNodeStart m) (memg_stride m) ((k + d) mod n) + stMEMGNODEHDR_SIZE
       \<notin> memg_live m"
    "iDebug + d < n"
  shows "\<exists>q h f. memg_alloc_loop m dbg now iDebug =
             Some (memg_take m q h f dbg now, Some (q + stMEMGNODEHDR_SIZE)) \<and>
           q \<in> memg_nodes m \<and> f \<in> memg_nodes m \<and> gm_hdr m q = Some h \<and> gh_ucIsFree h = MEMG_FREE"
  using assms
proof (induction d arbitrary: m k iDebug)
  case (0 m k iDebug)
  let ?q = "slot_at (gi_offsetNodeStart m) (memg_stride m) k"
  have q: "?q \<in> memg_nodes m" using 0 by (simp add: memg_nodes_def)
  have f: "memg_next_free m \<in> memg_nodes m"
    using 0 memg_next_free_slot [of m k n] by (auto simp: memg_nodes_def)
  from memg_wf_free_node [OF 0(1) q] obtain h where
    h: "gm_hdr m ?q = Some h" "gh_ucIsFree h = MEMG_FREE"
    using 0 by auto
  have "memg_alloc_loop m dbg now iDebug =
      Some (memg_take m ?q h (memg_next_free m) dbg now, Some (?q + stMEMGNODEHDR_SIZE))"
    using 0(4,5) h by (simp add: memg_alloc_loop.simps [of m] memg_take_def Let_def)
  with q f h show ?case by blast
next
  case (Suc d m k iDebug)
  let ?q = "slot_at (gi_offsetNodeStart m) (memg_stride m) k"
  let ?f = "memg_next_free m"
  let ?m1 = "m\<lparr>gi_offsetFreeList := ?f\<rparr>"
  have q: "?q \<in> memg_nodes m" using Suc.prems by (simp add: memg_nodes_def)
  have fk: "?f = slot_at (gi_offsetNodeStart m) (memg_stride m) (Suc k mod n)"
    using Suc.prems by (intro memg_next_free_slot) auto
  have kn: "Suc k mod n < n" using Suc.prems(3) by simp
  have f: "?f \<in> memg_nodes m" using Suc.prems fk kn by (simp add: memg_nodes_def)
  from memg_wf_free_node [OF Suc.prems(1) q] obtain h where h: "gm_hdr m ?q = Some h" by blast
  show ?case
  proof (cases "gh_ucIsFree h = MEMG_FREE")
    case True
    have "memg_alloc_loop m dbg now iDebug =
        Some (memg_take m ?q h ?f dbg now, Some (?q + stMEMGNODEHDR_SIZE))"
      using Suc.prems(4,5) h True by (simp add: memg_alloc_loop.simps [of m] memg_take_def Let_def)
    with q f h True show ?thesis by blast
  next
    case False
    have step: "memg_alloc_loop m dbg now iDebug = memg_alloc_loop ?m1 dbg now (Suc iDebug)"
      using Suc.prems(2,4,5,7) h False by (simp add: memg_alloc_loop.simps [of m] Let_def)
    have "(Suc k mod n + d) mod n = (k + Suc d) mod n" by (simp add: mod_add_left_eq)
    then have "\<exists>q h f. memg_alloc_loop ?m1 dbg now (Suc iDebug) =
          Some (memg_take ?m1 q h f dbg now, Some (q + stMEMGNODEHDR_SIZE)) \<and>
        q \<in> memg_nodes ?m1 \<and> f \<in> memg_nodes ?m1 \<and> gm_hdr ?m1 q = Some h \<and>
        gh_ucIsFree h = MEMG_FREE"
      using Suc.prems fk kn f
      by (intro Suc.IH [where k = "Suc k mod n"]) (simp_all add: memg_wf_cursor frame_simps)
    then show ?thesis using step by (simp add: frame_simps memg_take_def)
  qed
qed

lemma memg_take_live:
  "memg_live (memg_take m q h f dbg now) = insert (q + stMEMGNODEHDR_SIZE) (memg_live m)"
  by (auto simp: memg_live_def memg_take_def split: if_splits)

lemma memg_take_geom:
  "memg_geom (memg_take m q h f dbg now) = memg_geom m"
  "gm_cell (memg_take m q h f dbg now) = gm_cell m"
  by (simp_all add: memg_take_def memg_geom_def)

lemma memg_take_wf:
  assumes "memg_wf m" "q \<in> memg_nodes m" "f \<in> memg_nodes m" "gm_hdr m q = Some h"
    "gh_ucIsFree h = MEMG_FREE" "gi_uiMemNodeAllocedCnt m < gi_uiMemNodeTotCnt m"
  shows "memg_wf (memg_take m q h f dbg now)"
proof -
  have "q + stMEMGNODEHDR_SIZE \<notin> memg_live m" using assms(4,5) by (simp add: memg_live_def)
  then have "card (memg_live (memg_take m q h f dbg now)) = Suc (card (memg_live m))"
    using assms(1) by (simp add: memg_take_live finite_memg_live)
  moreover have "unat (gi_uiMemNodeAllocedCnt m + 1) = Suc (unat (gi_uiMemNodeAllocedCnt m))"
    using assms(6) by (intro unat_Suc_bounded) (simp add: word_less_nat_alt)
  moreover have "memg_hdr_ok h" using assms(1,4) by (auto simp: memg_wf_def ran_def)
  ultimately show ?thesis
    using assms unfolding memg_wf_def
    by (auto simp: memg_take_def frame_simps memg_hdr_ok_def ran_def split: if_splits)
qed

lemma memg_free_list_slot:
  assumes "memg_wf m" "0 < unat (gi_uiMemNodeTotCnt m)"
  obtains k where "k < unat (gi_uiMemNodeTotCnt m)"
    "gi_offsetFreeList m = slot_at (gi_offsetNodeStart m) (memg_stride m) k"
proof -
  from assms have "gi_offsetFreeList m \<in> memg_nodes m"
    using slot_in_slots [of 0 "unat (gi_uiMemNodeTotCnt m)" "gi_offsetNodeStart m" "memg_stride m"]
    by (auto simp: memg_wf_def memg_nodes_def)
  then show thesis using that by (auto simp: memg_nodes_def slots_def)
qed

text \<open>The allocated count tells exactly whether a node is left.\<close>

lemma memg_room_iff:
  assumes "memg_wf m"
  shows "gi_uiMemNodeAllocedCnt m < gi_uiMemNodeTotCnt m \<longleftrightarrow> memg_live m \<noteq> memg_cells m"
proof -
  have le: "card (memg_live m) \<le> card (memg_cells m)"
    using memg_live_subset [OF assms] by (intro card_mono) simp_all
  have "card (memg_live m) = card (memg_cells m) \<longleftrightarrow> memg_live m = memg_cells m"
    using card_subset_eq [OF finite_memg_cells memg_live_subset [OF assms]] by auto
  moreover have "gi_uiMemNodeAllocedCnt m < gi_uiMemNodeTotCnt m \<longleftrightarrow>
      card (memg_live m) < card (memg_cells m)"
    using assms by (simp add: memg_wf_def word_less_nat_alt card_memg_cells)
  ultimately show ?thesis using le by auto
qed

text \<open>What a successful allocation does to the pool.\<close>

lemma memg_alloc_takes:
  assumes "memg_wf m" "memg_live m \<noteq> memg_cells m" "uiSize \<le> gi_uiMemNodeBodySize m"
  obtains q h f where
    "memg_alloc m uiSize dbg now =
       Some (memg_take m q h f dbg now, Some (q + stMEMGNODEHDR_SIZE))"
    "q \<in> memg_nodes m" "f \<in> memg_nodes m" "gm_hdr m q = Some h" "gh_ucIsFree h = MEMG_FREE"
    "q + stMEMGNODEHDR_SIZE \<in> memg_cells m - memg_live m"
proof -
  let ?n = "unat (gi_uiMemNodeTotCnt m)"
  let ?at = "slot_at (gi_offsetNodeStart m) (memg_stride m)"
  from assms(1,2) have room: "gi_uiMemNodeAllocedCnt m < gi_uiMemNodeTotCnt m"
    by (simp add: memg_room_iff)
  then have pos: "0 < ?n" by (simp add: word_less_nat_alt)
  obtain k where k: "k < ?n" "gi_offsetFreeList m = ?at k"
    using memg_free_list_slot [OF assms(1) pos] .
  from assms(1,2) memg_live_subset obtain p where "p \<in> memg_cells m" "p \<notin> memg_live m" by blast
  then obtain j where j: "j < ?n" "?at j + stMEMGNODEHDR_SIZE \<notin> memg_live m"
    by (auto simp: memg_cells_def memg_nodes_def slots_def)
  let ?d = "(j + ?n - k) mod ?n"
  have "(k + ?d) mod ?n = j" using j(1) k(1) by (rule mod_distance)
  moreover have "0 + ?d < ?n" using pos by simp
  ultimately obtain q h f where
    r: "memg_alloc_loop m dbg now 0 =
          Some (memg_take m q h f dbg now, Some (q + stMEMGNODEHDR_SIZE))"
      "q \<in> memg_nodes m" "f \<in> memg_nodes m" "gm_hdr m q = Some h" "gh_ucIsFree h = MEMG_FREE"
    using memg_alloc_loop_found [OF assms(1) refl k room, of ?d 0] j(2) by metis
  moreover have "memg_alloc m uiSize dbg now = memg_alloc_loop m dbg now 0"
    using leD [OF assms(3)] by (simp add: memg_alloc_def)
  moreover have "q + stMEMGNODEHDR_SIZE \<in> memg_cells m - memg_live m"
    using r by (auto simp: memg_cells_def memg_live_def)
  ultimately show thesis using that by auto
qed

lemma memg_alloc_full:
  assumes "memg_wf m" "memg_live m = memg_cells m"
  shows "memg_alloc m uiSize dbg now = Some (m, None)"
  using memg_room_iff [OF assms(1)] assms(2)
  by (simp add: memg_alloc_def memg_alloc_loop.simps [of m])

lemma memg_alloc_too_big:
  "gi_uiMemNodeBodySize m < uiSize \<Longrightarrow> memg_alloc m uiSize dbg now = Some (m, None)"
  by (simp add: memg_alloc_def)

lemma memg_free_ok:
  assumes "memg_wf m" "p \<in> memg_live m"
  shows "\<exists>m'. memg_free m p = Some (m', 0) \<and> memg_wf m' \<and> memg_live m' = memg_live m - {p} \<and>
           memg_cells m' = memg_cells m \<and> memg_geom m' = memg_geom m \<and> gm_cell m' = gm_cell m"
proof -
  from assms(2) obtain h where h: "gm_hdr m (p - stMEMGNODEHDR_SIZE) = Some h"
      "gh_ucIsFree h = MEMG_ALLOCED" by (auto simp: memg_live_def)
  then have ok: "memg_hdr_ok h" using assms(1) by (auto simp: memg_wf_def ran_def)
  let ?m = "m\<lparr>gm_hdr := (gm_hdr m)(p - stMEMGNODEHDR_SIZE \<mapsto>
                           h\<lparr>gh_ucIsFree := MEMG_FREE, gh_DebugStr := []\<rparr>),
              gi_uiMemNodeAllocedCnt := gi_uiMemNodeAllocedCnt m - 1\<rparr>"
  have free: "memg_free m p = Some (?m, 0)"
    using h ok by (simp add: memg_free_def memg_hdr_ok_def)
  have live: "memg_live ?m = memg_live m - {p}"
    by (auto simp: memg_live_def split: if_splits)
  have "card (memg_live ?m) = card (memg_live m) - 1"
    using assms by (simp add: live card_Diff_singleton)
  moreover have "0 < card (memg_live m)"
    using assms finite_memg_live by (metis card_gt_0_iff empty_iff)
  ultimately have "unat (gi_uiMemNodeAllocedCnt m - 1) = card (memg_live ?m)"
    using assms(1) by (simp add: memg_wf_def unat_pred_pos)
  moreover have "p - stMEMGNODEHDR_SIZE \<in> memg_nodes m"
    using h assms(1) by (auto simp: memg_wf_def)
  ultimately have "memg_wf ?m"
    using assms(1) ok unfolding memg_wf_def
    by (auto simp: frame_simps memg_hdr_ok_def ran_def split: if_splits)
  with free live show ?thesis by (auto simp: frame_simps memg_geom_def)
qed

lemma memg_free_refused:
  assumes "memg_wf m" "p \<in> memg_cells m - memg_live m"
  shows "memg_free m p = Some (m, 1)"
proof -
  from assms(2) have "p - stMEMGNODEHDR_SIZE \<in> memg_nodes m"
    by (auto simp: memg_cells_def)
  then obtain h where "gm_hdr m (p - stMEMGNODEHDR_SIZE) = Some h" "memg_hdr_ok h"
    "gh_ucIsFree h = MEMG_FREE \<longleftrightarrow> p - stMEMGNODEHDR_SIZE + stMEMGNODEHDR_SIZE \<notin> memg_live m"
    using memg_wf_free_node [OF assms(1)] by metis
  with assms(2) show ?thesis by (simp add: memg_free_def)
qed

text \<open>A successful allocation as the clients of the pool see it.\<close>

lemma memg_alloc_fresh:
  assumes "memg_wf m" "memg_live m \<noteq> memg_cells m" "uiSize \<le> gi_uiMemNodeBodySize m"
  obtains m' p where "memg_alloc m uiSize dbg now = Some (m', Some p)" "memg_wf m'"
    "p \<in> memg_cells m - memg_live m" "memg_live m' = insert p (memg_live m)"
    "memg_geom m' = memg_geom m" "gm_cell m' = gm_cell m"
proof -
  obtain q h f where
    r: "memg_alloc m uiSize dbg now = Some (memg_take m q h f dbg now, Some (q + stMEMGNODEHDR_SIZE))"
      "q \<in> memg_nodes m" "f \<in> memg_nodes m" "gm_hdr m q = Some h" "gh_ucIsFree h = MEMG_FREE"
      "q + stMEMGNODEHDR_SIZE \<in> memg_cells m - memg_live m"
    using memg_alloc_takes [OF assms] .
  moreover have "memg_wf (memg_take m q h f dbg now)"
    using r assms by (simp add: memg_take_wf memg_room_iff)
  ultimately show thesis using that by (simp add: memg_take_live memg_take_geom)
qed

text \<open>Two node bodies are at least a node apart.\<close>

lemma memg_cells_apart:
  assumes "p \<in> memg_cells m" "q \<in> memg_cells m" "p \<noteq> q"
  shows "p + memg_stride m \<le> q \<or> q + memg_stride m \<le> p"
proof -
  from assms(1,2) obtain a b where ab: "a \<in> memg_nodes m" "b \<in> memg_nodes m"
    "p = a + stMEMGNODEHDR_SIZE" "q = b + stMEMGNODEHDR_SIZE"
    by (auto simp: memg_cells_def)
  then have "a < b \<or> b < a" using assms(3) by auto
  then show ?thesis
    using slots_distinct_distance [where sz = "memg_stride m" and p = a and q = b]
      slots_distinct_distance [where sz = "memg_stride m" and p = b and q = a] ab
    by (auto simp: memg_nodes_def)
qed

lemma memg_cells_lower:
  "memg_wf m \<Longrightarrow> p \<in> memg_cells m \<Longrightarrow>
   stMEMGINFO_SIZE + uint (gi_uiHeadRoomSize m) + stMEMGNODEHDR_SIZE \<le> p"
  using slot_at_ge [OF less_imp_le [OF memg_stride_pos]]
  by (force simp: memg_wf_def memg_cells_def memg_nodes_def slots_def)

section \<open>The pool as a node allocator\<close>

interpretation memg_pool:
  node_pool "\<lambda>m. memg_wf m \<and> uiSize \<le> gi_uiMemNodeBodySize m" memg_cells memg_live
    "\<lambda>m. memg_alloc m uiSize dbg now" memg_free
  for uiSize dbg now
proof unfold_locales
  fix m assume m: "memg_wf m \<and> uiSize \<le> gi_uiMemNodeBodySize m"
  show "finite (memg_cells m)" by simp
  show "memg_live m \<subseteq> memg_cells m" using m by (simp add: memg_live_subset)
  show "\<exists>s' p. memg_alloc m uiSize dbg now = Some (s', Some p) \<and> p \<in> memg_cells m - memg_live m \<and>
        (memg_wf s' \<and> uiSize \<le> gi_uiMemNodeBodySize s') \<and> memg_cells s' = memg_cells m \<and>
        memg_live s' = insert p (memg_live m)" if ne: "memg_live m \<noteq> memg_cells m"
    using memg_alloc_fresh [of m uiSize dbg now] m ne by (metis memg_geomD)
  show "\<exists>s'. memg_alloc m uiSize dbg now = Some (s', None) \<and>
        (memg_wf s' \<and> uiSize \<le> gi_uiMemNodeBodySize s') \<and> memg_cells s' = memg_cells m \<and>
        memg_live s' = memg_live m" if "memg_live m = memg_cells m"
    using that m by (simp add: memg_alloc_full)
  fix p
  show "\<exists>s'. memg_free m p = Some (s', 0) \<and>
        (memg_wf s' \<and> uiSize \<le> gi_uiMemNodeBodySize s') \<and> memg_cells s' = memg_cells m \<and>
        memg_live s' = memg_live m - {p}" if "p \<in> memg_live m"
  proof -
    from memg_free_ok [of m p] m that obtain m' where
      m': "memg_free m p = Some (m', 0)" "memg_wf m'" "memg_live m' = memg_live m - {p}"
        "memg_cells m' = memg_cells m" "memg_geom m' = memg_geom m"
      by blast
    from m'(5) have "gi_uiMemNodeBodySize m' = gi_uiMemNodeBodySize m"
      by (simp add: memg_geom_def)
    with m' m show ?thesis by simp
  qed
  show "memg_free m p = Some (m, 1)" if "p \<in> memg_cells m - memg_live m"
    using that m by (simp add: memg_free_refused)
qed

section \<open>Properties\<close>

lemma memg_fresh_fields [simp]:
  "gi_offsetHeadRoom (memg_fresh ty key hr body tot) = stMEMGINFO_SIZE"
  "gi_uiHeadRoomSize (memg_fresh ty key hr body tot) = hr"
  "gi_uiMemNodeBodySize (memg_fresh ty key hr body tot) = body"
  "gi_uiMemNodeTotCnt (memg_fresh ty key hr body tot) = tot"
  "gi_uiMemNodeAllocedCnt (memg_fresh ty key hr body tot) = 0"
  "gm_cell (memg_fresh ty key hr body tot) = zero_cells Map.empty stMEMGINFO_SIZE (uint hr)"
  by (simp_all add: memg_fresh_def Let_def)

text \<open>\<open>n\<close> calls of \<open>memg_alloc\<close> in a row, with the pointers they return.\<close>

primrec memg_alloc_many ::
  "nat \<Rightarrow> u32 \<Rightarrow> string \<Rightarrow> int \<Rightarrow> memg \<Rightarrow> (memg \<times> offset option list) option" where
  "memg_alloc_many 0 uiSize dbg now m = Some (m, [])"
| "memg_alloc_many (Suc n) uiSize dbg now m = do {
     (m1, r) \<leftarrow> memg_alloc m uiSize dbg now;
     (m2, rs) \<leftarrow> memg_alloc_many n uiSize dbg now m1;
     Some (m2, r # rs)
   }"

lemma memg_alloc_many_pool:
  "memg_alloc_many n uiSize dbg now m = memg_pool.alloc_many uiSize dbg now n m"
  by (induction n arbitrary: m)
     (auto simp: bind_eq_Some_conv split: option.splits Option.bind_split prod.splits)

text \<open>C23: On a well-formed pool \<open>memg_alloc\<close> always returns and keeps the pool well formed. It gives
  a node that was not in use, inside the block, and marks exactly that node; it answers NULL
  exactly when every node is in use or the request is larger than a node.\<close>

theorem memg_alloc_correct:
  assumes "memg_wf m"
  shows "\<exists>m' r. memg_alloc m uiSize dbg now = Some (m', r) \<and> memg_wf m' \<and>
    memg_geom m' = memg_geom m \<and>
    (case r of
       None \<Rightarrow> memg_live m' = memg_live m \<and>
         (gi_uiMemNodeBodySize m < uiSize \<or> gi_uiMemNodeAllocedCnt m = gi_uiMemNodeTotCnt m)
     | Some p \<Rightarrow> uiSize \<le> gi_uiMemNodeBodySize m \<and> p \<in> memg_cells m - memg_live m \<and>
         memg_live m' = insert p (memg_live m))"
proof (cases "gi_uiMemNodeBodySize m < uiSize")
  case True
  then show ?thesis using assms by (simp add: memg_alloc_too_big)
next
  case size: False
  show ?thesis
  proof (cases "memg_live m = memg_cells m")
    case True
    have "unat (gi_uiMemNodeAllocedCnt m) = unat (gi_uiMemNodeTotCnt m)"
      using assms True card_memg_cells [of m] by (simp add: memg_wf_def)
    then have "gi_uiMemNodeAllocedCnt m = gi_uiMemNodeTotCnt m" by (simp only: word_unat_eq_iff)
    with True assms show ?thesis by (simp add: memg_alloc_full)
  next
    case False
    obtain m' p where "memg_alloc m uiSize dbg now = Some (m', Some p)" "memg_wf m'"
      "p \<in> memg_cells m - memg_live m" "memg_live m' = insert p (memg_live m)"
      "memg_geom m' = memg_geom m" "gm_cell m' = gm_cell m"
      using memg_alloc_fresh [OF assms False leI [OF size], of dbg now] .
    with size show ?thesis by auto
  qed
qed

theorem memg_alloc_correct_witness:
  "\<exists>m' r. memg_alloc (memg_fresh 1 0 16 8 2) 8 ''abc'' 5 = Some (m', r) \<and> memg_wf m'"
  using memg_alloc_correct [of "memg_fresh 1 0 16 8 2"] memg_fresh_wf by blast

text \<open>As long as no more nodes are asked for than are left, a run of allocations never answers
  NULL, and the nodes it gives are pairwise at least a header and a body apart: no two callers
  share memory.\<close>

theorem memg_alloc_many_disjoint:
  assumes "memg_wf m" "uiSize \<le> gi_uiMemNodeBodySize m"
    "unat (gi_uiMemNodeAllocedCnt m) + n \<le> unat (gi_uiMemNodeTotCnt m)"
  shows "\<exists>m' ps. memg_alloc_many n uiSize dbg now m = Some (m', map Some ps) \<and> length ps = n \<and>
    distinct ps \<and> memg_wf m' \<and>
    (\<forall>p \<in> set ps. \<forall>q \<in> set ps \<union> memg_live m. p = q \<or> p + memg_stride m \<le> q \<or> q + memg_stride m \<le> p)"
proof -
  have room: "card (memg_live m) + n \<le> card (memg_cells m)"
    using assms(1,3) by (simp add: card_memg_cells memg_wf_def)
  obtain m' ps where r: "memg_pool.alloc_many uiSize dbg now n m = Some (m', map Some ps)"
    "length ps = n" "distinct ps" "memg_live m' = memg_live m \<union> set ps"
    "memg_wf m'" "memg_cells m' = memg_cells m"
    using memg_pool.alloc_many_fits [of m uiSize n dbg now] assms(1,2) room by blast
  have "set ps \<union> memg_live m \<subseteq> memg_cells m"
    using memg_live_subset [OF r(5)] r(4,6) by auto
  then have "p = q \<or> p + memg_stride m \<le> q \<or> q + memg_stride m \<le> p"
    if "p \<in> set ps" "q \<in> set ps \<union> memg_live m" for p q
    using that memg_cells_apart [of p m q] by blast
  with r show ?thesis unfolding memg_alloc_many_pool by blast
qed

theorem memg_alloc_many_disjoint_witness:
  "\<exists>m' ps. memg_alloc_many 3 8 ''abc'' 5 (memg_fresh 1 0 16 8 3) = Some (m', map Some ps) \<and>
     length ps = 3"
proof -
  have "memg_wf (memg_fresh 1 0 16 8 3)" using memg_fresh_wf by blast
  from memg_alloc_many_disjoint [OF this, of 8 3 "''abc''" 5] show ?thesis by auto
qed

text \<open>C35: Releasing a node in use answers 0, frees exactly that node and keeps the pool well formed;
  releasing it once more is detected: the answer is 1 and nothing changes.\<close>

theorem memg_free_twice:
  assumes "memg_wf m" "p \<in> memg_live m"
  shows "\<exists>m'. memg_free m p = Some (m', 0) \<and> memg_wf m' \<and> memg_live m' = memg_live m - {p} \<and>
    memg_free m' p = Some (m', 1)"
proof -
  obtain m' where m': "memg_free m p = Some (m', 0)" "memg_wf m'" "memg_live m' = memg_live m - {p}"
    using memg_free_ok [OF assms] by blast
  have "memg_free m' p = Some (m', 1)"
    using memg_pool.double_release [of m 0 p m' 0] assms m'(1) by simp
  with m' show ?thesis by blast
qed

theorem memg_free_twice_witness:
  "\<exists>m p m'. memg_alloc (memg_fresh 1 0 16 8 2) 8 ''abc'' 5 = Some (m, Some p) \<and>
     memg_free m p = Some (m', 0) \<and> memg_free m' p = Some (m', 1)"
proof -
  have wf: "memg_wf (memg_fresh 1 0 16 8 2)" and free: "memg_live (memg_fresh 1 0 16 8 2) = {}"
    using memg_fresh_wf by blast+
  have ne: "memg_live (memg_fresh 1 0 16 8 2) \<noteq> memg_cells (memg_fresh 1 0 16 8 2)"
    unfolding memg_room_iff [OF wf, symmetric] by simp
  have sz: "(8 :: u32) \<le> gi_uiMemNodeBodySize (memg_fresh 1 0 16 8 2)" by simp
  show ?thesis
  proof (rule memg_alloc_fresh [OF wf ne sz, of "''abc''" 5])
    fix m p
    assume a: "memg_alloc (memg_fresh 1 0 16 8 2) 8 ''abc'' 5 = Some (m, Some p)" "memg_wf m"
      "memg_live m = insert p (memg_live (memg_fresh 1 0 16 8 2))"
    then have "p \<in> memg_live m" by simp
    from memg_free_twice [OF a(2) this] a(1) show ?thesis by blast
  qed
qed

end
