(* ===== verification/Bytes.thy ===== *)
theory Bytes
  imports Prelude
begin

text \<open>
  Bytes of a shared block by offset: reading and writing of ranges (\<open>memcpy\<close>), and the little-endian
  words the library stores in them.
\<close>

section \<open>Ranges\<close>

definition rd_bytes :: "(offset \<Rightarrow> u8) \<Rightarrow> offset \<Rightarrow> nat \<Rightarrow> u8 list" where
  "rd_bytes mem off n = map (\<lambda>i. mem (off + int i)) [0..<n]"

definition wr_bytes :: "(offset \<Rightarrow> u8) \<Rightarrow> offset \<Rightarrow> u8 list \<Rightarrow> (offset \<Rightarrow> u8)" where
  "wr_bytes mem off bs =
     (\<lambda>x. if off \<le> x \<and> x < off + int (length bs) then bs ! nat (x - off) else mem x)"

lemma length_rd_bytes [simp]: "length (rd_bytes mem off n) = n"
  by (simp add: rd_bytes_def)

lemma rd_bytes_cong:
  "(\<And>x. off \<le> x \<Longrightarrow> x < off + int n \<Longrightarrow> mem x = mem' x) \<Longrightarrow>
   rd_bytes mem off n = rd_bytes mem' off n"
  by (simp add: rd_bytes_def)

lemma rd_wr_other:
  "off + int n \<le> a \<or> a + int (length bs) \<le> off \<Longrightarrow>
   rd_bytes (wr_bytes mem a bs) off n = rd_bytes mem off n"
  by (rule rd_bytes_cong) (auto simp: wr_bytes_def)

lemma rd_wr_same: "rd_bytes (wr_bytes mem off bs) off (length bs) = bs"
  by (rule nth_equalityI) (simp_all add: rd_bytes_def wr_bytes_def)

lemma wr_bytes_other: "x < a \<or> a + int (length bs) \<le> x \<Longrightarrow> wr_bytes mem a bs x = mem x"
  by (auto simp: wr_bytes_def)

lemma rd_bytes_nth [simp]: "i < n \<Longrightarrow> rd_bytes mem off n ! i = mem (off + int i)"
  by (simp add: rd_bytes_def)

lemma rd_bytes_add: "rd_bytes mem off (m + n) = rd_bytes mem off m @ rd_bytes mem (off + int m) n"
proof (rule nth_equalityI)
  fix i assume "i < length (rd_bytes mem off (m + n))"
  then show "rd_bytes mem off (m + n) ! i = (rd_bytes mem off m @ rd_bytes mem (off + int m) n) ! i"
    by (cases "i < m") (simp_all add: nth_append of_nat_diff)
qed simp

lemma rd_bytes_0 [simp]: "rd_bytes mem off 0 = []"
  by (simp add: rd_bytes_def)

lemma take_rd_bytes: "k \<le> n \<Longrightarrow> take k (rd_bytes mem off n) = rd_bytes mem off k"
  by (simp add: rd_bytes_def take_map)

lemma drop_rd_bytes: "k \<le> n \<Longrightarrow> drop k (rd_bytes mem off n) = rd_bytes mem (off + int k) (n - k)"
  using rd_bytes_add [of mem off k "n - k"] by simp

lemma wr_bytes_Nil [simp]: "wr_bytes mem a [] = mem"
  by (rule ext) (auto simp: wr_bytes_def)

section \<open>Words\<close>

text \<open>Little-endian loads, as on the platform of the code.\<close>

definition le16 :: "u8 \<Rightarrow> u8 \<Rightarrow> u32" where
  "le16 a b = ucast a + 256 * ucast b"

definition le32 :: "u8 \<Rightarrow> u8 \<Rightarrow> u8 \<Rightarrow> u8 \<Rightarrow> u32" where
  "le32 a b c d = ucast a + 256 * ucast b + 65536 * ucast c + 16777216 * ucast d"

definition le32_bytes :: "u32 \<Rightarrow> u8 list" where
  "le32_bytes w = [ucast w, ucast (drop_bit 8 w), ucast (drop_bit 16 w), ucast (drop_bit 24 w)]"

definition le16_bytes :: "u16 \<Rightarrow> u8 list" where
  "le16_bytes w = [ucast w, ucast (drop_bit 8 w)]"

definition le32_of :: "u8 list \<Rightarrow> u32" where
  "le32_of bs = le32 (bs ! 0) (bs ! 1) (bs ! 2) (bs ! 3)"

lemma length_le32_bytes [simp]: "length (le32_bytes w) = 4"
  by (simp add: le32_bytes_def)

lemma byte_digits:
  assumes "n < (4294967296 :: nat)"
  shows "n mod 256 + 256 * (n div 256 mod 256) + 65536 * (n div 65536 mod 256) + 16777216 * (n div 16777216 mod 256) = n"
proof -
  have a: "n div 65536 = n div 256 div 256" "n div 16777216 = n div 256 div 256 div 256"
    by (simp_all add: div_mult2_eq [symmetric])
  have "n div 256 div 256 div 256 < 256" using assms by (simp add: div_mult2_eq [symmetric] less_mult_imp_div_less)
  then have b: "n div 256 div 256 div 256 mod 256 = n div 256 div 256 div 256" by simp
  have c: "n div 256 div 256 = n div 256 div 256 mod 256 + 256 * (n div 256 div 256 div 256)" by simp
  have d: "n div 256 = n div 256 mod 256 + 256 * (n div 256 div 256)" by simp
  have e: "n = n mod 256 + 256 * (n div 256)" by simp
  show ?thesis unfolding a b using c d e by linarith
qed

lemma le32_le32_bytes: "le32 (ucast w) (ucast (drop_bit 8 w)) (ucast (drop_bit 16 w)) (ucast (drop_bit 24 w)) = (w :: u32)"
proof -
  have lt: "unat w < 4294967296" using unsigned_less [of w] by simp
  note digits = byte_digits [OF lt]
  have "unat (ucast (ucast (drop_bit k w) :: u8) :: u32) = unat w div 2 ^ k mod 256" for k
  proof -
    have "unat (ucast (ucast (drop_bit k w) :: u8) :: u32) = take_bit 32 (take_bit 8 (drop_bit k (unat w)))"
      using take_bit_nat_eq_self [of "unat w" 32] lt
      by (simp add: unsigned_ucast_eq unsigned_drop_bit_eq unsigned_take_bit_eq)
    also have "\<dots> = drop_bit k (unat w) mod 256" by (simp add: take_bit_eq_mod)
    finally show ?thesis by (simp add: drop_bit_eq_div)
  qed
  from this [of 0] this [of 8] this [of 16] this [of 24]
  have u: "unat (ucast (ucast w :: u8) :: u32) = unat w mod 256"
    "unat (ucast (ucast (drop_bit 8 w) :: u8) :: u32) = unat w div 256 mod 256"
    "unat (ucast (ucast (drop_bit 16 w) :: u8) :: u32) = unat w div 65536 mod 256"
    "unat (ucast (ucast (drop_bit 24 w) :: u8) :: u32) = unat w div 16777216 mod 256"
    by simp_all
  let ?a = "ucast (ucast w :: u8) :: u32" and ?b = "ucast (ucast (drop_bit 8 w) :: u8) :: u32"
    and ?c = "ucast (ucast (drop_bit 16 w) :: u8) :: u32" and ?d = "ucast (ucast (drop_bit 24 w) :: u8) :: u32"
  have "of_nat (unat ?a + 256 * unat ?b + 65536 * unat ?c + 16777216 * unat ?d) = w"
    unfolding u digits by simp
  then show ?thesis by (simp add: le32_def)
qed

lemma le32_of_bytes [simp]: "le32_of (le32_bytes w @ bs) = w"
  by (simp add: le32_of_def le32_bytes_def le32_le32_bytes)

lemma length_le16_bytes [simp]: "length (le16_bytes w) = 2"
  by (simp add: le16_bytes_def)

lemma le32_bytes_inj: "le32_bytes w = le32_bytes v \<longleftrightarrow> w = v"
  by (metis le32_of_bytes)

lemma le16_bytes_inj: "le16_bytes w = le16_bytes v \<longleftrightarrow> w = v"
proof
  assume a: "le16_bytes w = le16_bytes v"
  show "w = v"
  proof (rule bit_word_eqI)
    fix n assume "n < LENGTH(16)"
    have "bit (ucast w :: u8) n = bit (ucast v :: u8) n" "bit (ucast (drop_bit 8 w) :: u8) (n - 8) = bit (ucast (drop_bit 8 v) :: u8) (n - 8)"
      using a by (simp_all add: le16_bytes_def)
    moreover have "n - 8 < 8" using \<open>n < LENGTH(16)\<close> by simp
    ultimately show "bit w n = bit v n" by (cases "n < 8") (simp_all add: bit_ucast_iff bit_drop_bit_eq)
  qed
qed simp

end
