(* ===== verification/KeySum.thy ===== *)
theory KeySum
  imports Bytes
begin

text \<open>
  The arithmetic the default hash functions of \<^verbatim>\<open>hasho.c\<close> and \<^verbatim>\<open>hashg.c\<close> share: both sum the
  key as four-byte words, then at most one two-byte word and one byte.
\<close>

text \<open>
  The key is summed in \<open>U32\<close> arithmetic: \<open>usKeyLen / 4\<close> four-byte words, then one two-byte
  word and one byte as the remainder asks.
\<close>

fun hasho_sum4 :: "nat \<Rightarrow> u8 list \<Rightarrow> u32 \<Rightarrow> u32 \<times> u8 list" where
  "hasho_sum4 (Suc n) (a # b # c # d # pb) acc = hasho_sum4 n pb (acc + le32 a b c d)"
| "hasho_sum4 n pb acc = (acc, pb)"

end
