(* ===== verification/Hasho.thy ===== *)
theory Hasho
  imports Memg KeySum
begin

text \<open>
  \<^verbatim>\<open>proj/UPST_LIB/SRC/HASHO/hasho.c\<close>: the offset hash table. Everything lives in one \<open>memg\<close>
  block, so that it can be shared between processes: the info block \<open>stHASHOINFO\<close> and the
  array of bucket heads are in the head room, the entries are pool nodes. A node body is a
  \<open>stHASHONODE\<close> (four offsets), then the key bytes, then the data bytes. All offsets of the
  table count from \<open>stHASHOINFO\<close>; 0 is the null link.
\<close>

section \<open>State\<close>

definition stHASHONODE_SIZE :: int where "stHASHONODE_SIZE = 32"
definition stHASHOINFO_SIZE :: int where "stHASHOINFO_SIZE = 32"

text \<open>\<open>sizeof(char *)\<close> and \<open>sizeof(OFFSET)\<close>.\<close>

definition PTR_SIZE :: int where "PTR_SIZE = 8"

lemmas hasho_const_defs = stHASHONODE_SIZE_def stHASHOINFO_SIZE_def PTR_SIZE_def

record hashonode =
  offset_next :: offset
  offset_prev :: offset
  offset_Key :: offset
  offset_Data :: offset

record hashoinfo =
  ho_offset_psthashnode :: offset
  ho_usKeyLen :: u16
  ho_usDataLen :: u16
  ho_uiHashSize :: u32
  ho_offset_memginfo :: offset

text \<open>
  \<open>ho_func\<close> is the process-wide function pointer \<open>hasho_func\<close>; \<open>ho_node\<close> are the node
  structures and \<open>ho_mem\<close> the remaining bytes of the block, by table offset.
\<close>

record hasho = hashoinfo +
  ho_func :: "hashoinfo \<Rightarrow> u8 list \<Rightarrow> offset option"
  ho_memg :: memg
  ho_node :: "offset \<rightharpoonup> hashonode"
  ho_mem :: "offset \<Rightarrow> u8"

section \<open>The default hash function\<close>

definition hasho_func_default :: "hashoinfo \<Rightarrow> u8 list \<Rightarrow> offset option" where
  "hasho_func_default info pb =
    (let keylen = unat (ho_usKeyLen info);
         portion4 = keylen div 4; remainder = keylen mod 4;
         portion2 = remainder div 2; portion1 = remainder mod 2;
         (sum4, pb) = hasho_sum4 portion4 pb 0;
         (sum2, pb) = (case (portion2, pb) of
                         (Suc _, a # b # pb') \<Rightarrow> (sum4 + le16 a b, pb')
                       | _ \<Rightarrow> (sum4, pb));
         uiHashIndex = (case (portion1, pb) of
                          (Suc _, a # _) \<Rightarrow> sum2 + ucast a
                        | _ \<Rightarrow> sum2)
     in if ho_uiHashSize info = 0 then None
        else Some (uint (uiHashIndex mod ho_uiHashSize info)))"

section \<open>Initialisation\<close>

text \<open>
  \<open>func = None\<close> is the null pointer. \<open>nodes0\<close> and \<open>mem0\<close> are what the node bodies of the
  block hold: the garbage of a fresh block, or the table another process has built in an
  existing segment. A failed \<open>ASSERT\<close> exits.
\<close>

definition hasho_init ::
  "memg_os \<Rightarrow> (offset \<rightharpoonup> hashonode) \<Rightarrow> (offset \<Rightarrow> u8) \<Rightarrow> u32 \<Rightarrow> u16 \<Rightarrow> u16 \<Rightarrow> u16 \<Rightarrow> u32 \<Rightarrow>
   (hashoinfo \<Rightarrow> u8 list \<Rightarrow> offset option) option \<Rightarrow> hasho option option" where
  "hasho_init os nodes0 mem0 uiShmKey usKeyLen usSortKeyLen usDataLen uiHashSize func =
    (let hasho_func = (case func of None \<Rightarrow> hasho_func_default | Some f \<Rightarrow> f);
         headroom = word_of_int (stHASHOINFO_SIZE + uint uiHashSize * PTR_SIZE);
         body = word_of_int (stHASHONODE_SIZE + uint usKeyLen + uint usDataLen)
     in if \<not> usSortKeyLen \<le> usKeyLen then None
        else Option.bind
          (if uiShmKey = 0
           then memg_init os MEMG_MAIN_MEM 0 headroom body (uiHashSize * 5)
           else memg_init os MEMG_SHARED_MEM uiShmKey headroom body (uiHashSize * 5))
          (\<lambda>r. case r of
             None \<Rightarrow> Some None
           | Some m \<Rightarrow> Some (Some
               \<lparr>ho_offset_psthashnode = stHASHOINFO_SIZE,
                ho_usKeyLen = usKeyLen, ho_usDataLen = usDataLen, ho_uiHashSize = uiHashSize,
                ho_offset_memginfo = - gi_offsetHeadRoom m,
                ho_func = hasho_func, ho_memg = m, ho_node = nodes0, ho_mem = mem0\<rparr>)))"

definition hasho_reset :: "hasho \<Rightarrow> hasho" where
  "hasho_reset h = h\<lparr>ho_memg := memg_reset (ho_memg h) stHASHOINFO_SIZE\<rparr>"

section \<open>Links\<close>

definition hasho_info :: "hasho \<Rightarrow> hashoinfo" where
  "hasho_info h = hashoinfo.truncate h"

text \<open>The address of bucket \<open>idx\<close>, as an offset of the memg block.\<close>

definition hasho_slot :: "hasho \<Rightarrow> offset \<Rightarrow> offset" where
  "hasho_slot h idx = gi_offsetHeadRoom (ho_memg h) + ho_offset_psthashnode h + idx * PTR_SIZE"

definition hasho_head :: "hasho \<Rightarrow> offset \<Rightarrow> offset option" where
  "hasho_head h idx = gm_cell (ho_memg h) (hasho_slot h idx)"

definition hasho_set_head :: "hasho \<Rightarrow> offset \<Rightarrow> offset \<Rightarrow> hasho option" where
  "hasho_set_head h idx v =
     (case hasho_head h idx of
        None \<Rightarrow> None
      | Some _ \<Rightarrow> Some (h\<lparr>ho_memg := (ho_memg h)\<lparr>gm_cell :=
                            (gm_cell (ho_memg h))(hasho_slot h idx \<mapsto> v)\<rparr>\<rparr>))"

definition hasho_upd :: "hasho \<Rightarrow> offset \<Rightarrow> (hashonode \<Rightarrow> hashonode) \<Rightarrow> hasho option" where
  "hasho_upd h p f =
     (case ho_node h p of
        None \<Rightarrow> None
      | Some n \<Rightarrow> Some (h\<lparr>ho_node := (ho_node h)(p \<mapsto> f n)\<rparr>))"

definition hasho_key_at :: "hasho \<Rightarrow> hashonode \<Rightarrow> u8 list" where
  "hasho_key_at h n = rd_bytes (ho_mem h) (offset_Key n) (unat (ho_usKeyLen h))"

definition hasho_link_node :: "hasho \<Rightarrow> offset \<Rightarrow> hasho option" where
  "hasho_link_node h p = do {
     n \<leftarrow> ho_node h p;
     idx \<leftarrow> ho_func h (hasho_info h) (hasho_key_at h n);
     head \<leftarrow> hasho_head h idx;
     if head \<noteq> 0 then do {
       nNext \<leftarrow> ho_node h head;
       h1 \<leftarrow> hasho_upd h p (\<lambda>n. n\<lparr>offset_prev := offset_prev nNext\<rparr>);
       h2 \<leftarrow> hasho_upd h1 head (\<lambda>n. n\<lparr>offset_prev := p\<rparr>);
       h3 \<leftarrow> hasho_upd h2 p (\<lambda>n. n\<lparr>offset_next := head\<rparr>);
       hasho_set_head h3 idx p
     } else hasho_set_head h idx p
   }"

definition hasho_unlink_node :: "hasho \<Rightarrow> offset \<Rightarrow> hasho option" where
  "hasho_unlink_node h p = do {
     n \<leftarrow> ho_node h p;
     idx \<leftarrow> ho_func h (hasho_info h) (hasho_key_at h n);
     h1 \<leftarrow> (if offset_prev n \<noteq> 0
            then hasho_upd h (offset_prev n) (\<lambda>x. x\<lparr>offset_next := offset_next n\<rparr>)
            else hasho_set_head h idx (offset_next n));
     n1 \<leftarrow> ho_node h1 p;
     (if offset_next n1 \<noteq> 0
      then hasho_upd h1 (offset_next n1) (\<lambda>x. x\<lparr>offset_prev := offset_prev n1\<rparr>)
      else Some h1)
   }"

section \<open>Find, add, delete\<close>

partial_function (option) hasho_find_loop :: "hasho \<Rightarrow> u8 list \<Rightarrow> offset \<Rightarrow> offset option option" where
  "hasho_find_loop h pKey pOff =
     (if pOff = 0 then Some None
      else do {
        n \<leftarrow> ho_node h pOff;
        if hasho_key_at h n = pKey then Some (Some pOff)
        else hasho_find_loop h pKey (offset_next n)
      })"

definition hasho_find :: "hasho \<Rightarrow> u8 list \<Rightarrow> offset option option" where
  "hasho_find h pKey = do {
     idx \<leftarrow> ho_func h (hasho_info h) pKey;
     head \<leftarrow> hasho_head h idx;
     hasho_find_loop h pKey head
   }"

definition hasho_node_size :: "hasho \<Rightarrow> int" where
  "hasho_node_size h = stHASHONODE_SIZE + uint (ho_usKeyLen h) + uint (ho_usDataLen h)"

text \<open>The part of \<open>hasho_add\<close> that fills the new node: \<open>bzero\<close>, then the fields and the copies.\<close>

definition hasho_fill :: "hasho \<Rightarrow> offset \<Rightarrow> u8 list \<Rightarrow> u8 list \<Rightarrow> hasho" where
  "hasho_fill h p pKey pData =
    (let zeroed = wr_bytes (ho_mem h) (p + stHASHONODE_SIZE)
                    (replicate (unat (ho_usKeyLen h) + unat (ho_usDataLen h)) 0);
         offK = p + stHASHONODE_SIZE;
         mem1 = wr_bytes zeroed offK pKey;
         offD = offK + uint (ho_usKeyLen h);
         mem2 = wr_bytes mem1 offD pData
     in h\<lparr>ho_node := (ho_node h)(p \<mapsto> \<lparr>offset_next = 0, offset_prev = 0,
                                          offset_Key = offK, offset_Data = offD\<rparr>),
          ho_mem := mem2\<rparr>)"

definition hasho_add :: "int \<Rightarrow> hasho \<Rightarrow> u8 list \<Rightarrow> u8 list \<Rightarrow> (hasho \<times> offset option) option" where
  "hasho_add now h pKey pData = do {
     r \<leftarrow> hasho_find h pKey;
     if r \<noteq> None then Some (h, None)
     else do {
       (m, a) \<leftarrow> memg_alloc (ho_memg h) (word_of_int (hasho_node_size h)) ''hasho_add'' now;
       let h1 = h\<lparr>ho_memg := m\<rparr>;
       case a of
         None \<Rightarrow> Some (h1, None)
       | Some q \<Rightarrow> do {
           let p = q - gi_offsetHeadRoom m;
           h2 \<leftarrow> hasho_link_node (hasho_fill h1 p pKey pData) p;
           Some (h2, Some p)
         }
     }
   }"

definition hasho_del :: "hasho \<Rightarrow> u8 list \<Rightarrow> hasho option" where
  "hasho_del h pKey = do {
     r \<leftarrow> hasho_find h pKey;
     case r of
       None \<Rightarrow> Some h
     | Some p \<Rightarrow> do {
         h1 \<leftarrow> hasho_unlink_node h p;
         (m, _) \<leftarrow> memg_free (ho_memg h1) (p + gi_offsetHeadRoom (ho_memg h1));
         Some (h1\<lparr>ho_memg := m\<rparr>)
       }
   }"

text \<open>Where the clients find the data of a node.\<close>

definition hasho_data_at :: "hasho \<Rightarrow> offset \<Rightarrow> offset option" where
  "hasho_data_at h p = do { n \<leftarrow> ho_node h p; Some (offset_Data n) }"

section \<open>Occupation count\<close>

text \<open>The walk over one chain that counts its nodes.\<close>

partial_function (option) hasho_count_chain :: "hasho \<Rightarrow> offset \<Rightarrow> u32 \<Rightarrow> u32 option" where
  "hasho_count_chain h pOff tot =
     (if pOff = 0 then Some tot
      else do {
        n \<leftarrow> ho_node h pOff;
        hasho_count_chain h (offset_next n) (tot + 1)
      })"

text \<open>The loop over the buckets, from \<open>iIndex\<close>: occupied buckets and nodes.\<close>

fun hasho_count_buckets :: "hasho \<Rightarrow> nat \<Rightarrow> nat \<Rightarrow> u32 \<Rightarrow> u32 \<Rightarrow> (u32 \<times> u32) option" where
  "hasho_count_buckets h iIndex 0 occ tot = Some (occ, tot)"
| "hasho_count_buckets h iIndex (Suc left) occ tot = do {
     head \<leftarrow> hasho_head h (int iIndex);
     if head \<noteq> 0 then do {
       tot' \<leftarrow> hasho_count_chain h head tot;
       hasho_count_buckets h (Suc iIndex) left (occ + 1) tot'
     } else hasho_count_buckets h (Suc iIndex) left occ tot
   }"

text \<open>The function returns the occupied buckets; it prints both counts and a percentage whose
  division faults on an empty bucket array.\<close>

definition hasho_get_occupied_node_count :: "hasho \<Rightarrow> u32 option" where
  "hasho_get_occupied_node_count h = do {
     (occ, tot) \<leftarrow> hasho_count_buckets h 0 (unat (ho_uiHashSize h)) 0 0;
     if ho_uiHashSize h = 0 then None else Some occ
   }"

end
