(* ===== verification/HashoProps.thy ===== *)
theory HashoProps
  imports Hasho
begin

text \<open>
  Correctness of the offset hash table: the chains are doubly linked, every pool node in use
  is on the chain its key hashes to, keys are unique; \<open>hasho_find\<close>, \<open>hasho_add\<close> and
  \<open>hasho_del\<close> are lookup, bounded insertion and deletion on the set of entries.
\<close>

section \<open>Doubly linked chains\<close>

fun dseg :: "(offset \<rightharpoonup> hashonode) \<Rightarrow> offset \<Rightarrow> offset \<Rightarrow> offset list \<Rightarrow> bool" where
  "dseg m prev cur [] \<longleftrightarrow> cur = 0"
| "dseg m prev cur (x # xs) \<longleftrightarrow> cur = x \<and> x \<noteq> 0 \<and>
     (\<exists>n. m x = Some n \<and> offset_prev n = prev \<and> dseg m x (offset_next n) xs)"

lemma dseg_cong: "(\<And>x. x \<in> set xs \<Longrightarrow> m x = m' x) \<Longrightarrow> dseg m prev cur xs = dseg m' prev cur xs"
  by (induction xs arbitrary: prev cur) auto

lemma dseg_upd_other [simp]: "y \<notin> set xs \<Longrightarrow> dseg (m(y := v)) prev cur xs = dseg m prev cur xs"
  by (rule dseg_cong) auto

lemma dseg_cur: "dseg m prev cur xs \<Longrightarrow> cur = (if xs = [] then 0 else hd xs)"
  by (cases xs) auto

lemma dseg_nonzero: "dseg m prev cur xs \<Longrightarrow> 0 \<notin> set xs"
  by (induction xs arbitrary: prev cur) auto

lemma dseg_dom: "dseg m prev cur xs \<Longrightarrow> x \<in> set xs \<Longrightarrow> \<exists>n. m x = Some n"
  by (induction xs arbitrary: prev cur) auto

text \<open>Changing the back link of the first node.\<close>

lemma dseg_relink:
  "dseg m prev x (x # xs) \<Longrightarrow> x \<notin> set xs \<Longrightarrow> m x = Some n \<Longrightarrow>
   dseg (m(x \<mapsto> n\<lparr>offset_prev := q\<rparr>)) q x (x # xs)"
  by simp

text \<open>Pushing a node in front.\<close>

lemma dseg_push:
  assumes "dseg m 0 c xs" "distinct xs" "p \<notin> set xs" "p \<noteq> 0" "c \<noteq> 0" "m c = Some nh"
    "offset_next np = c" "offset_prev np = 0"
  shows "dseg (m(c \<mapsto> nh\<lparr>offset_prev := p\<rparr>, p \<mapsto> np)) 0 p (p # xs)"
proof -
  from assms(1,5) obtain ys where xs: "xs = c # ys" by (cases xs) auto
  let ?m = "m(c \<mapsto> nh\<lparr>offset_prev := p\<rparr>)"
  have "dseg ?m p c (c # ys)"
    using assms(1,2,6) unfolding xs by (intro dseg_relink) auto
  then have "dseg (?m(p \<mapsto> np)) p c (c # ys)" using assms(3) xs by (subst dseg_upd_other) auto
  then show ?thesis unfolding xs using assms by (subst dseg.simps) simp
qed

text \<open>The links of a node inside a chain.\<close>

lemma dseg_mid:
  assumes "dseg m pv cur (as @ p # cs)" "m p = Some n"
  shows "offset_prev n = (if as = [] then pv else last as) \<and>
         offset_next n = (if cs = [] then 0 else hd cs)"
  using assms
proof (induction as arbitrary: pv cur)
  case Nil
  then show ?case using dseg_cur [of m p "offset_next n" cs] by auto
next
  case (Cons a as)
  then obtain na :: hashonode where "dseg m a (offset_next na) (as @ p # cs)" by auto
  from Cons.IH [OF this Cons.prems(2)] show ?case by simp
qed

text \<open>The two writes that take a node out of its chain.\<close>

definition upd_at :: "('a \<rightharpoonup> 'b) \<Rightarrow> 'a \<Rightarrow> ('b \<Rightarrow> 'b) \<Rightarrow> ('a \<rightharpoonup> 'b)" where
  "upd_at m x f = m(x := map_option f (m x))"

lemma upd_at_apply: "upd_at m x f y = map_option (\<lambda>k. if y = x then f k else k) (m y)"
  by (cases "m y") (auto simp: upd_at_def)

definition dseg_cut ::
  "(offset \<rightharpoonup> hashonode) \<Rightarrow> hashonode \<Rightarrow> offset list \<Rightarrow> offset list \<Rightarrow> (offset \<rightharpoonup> hashonode)" where
  "dseg_cut m n as cs =
    (let m1 = (if as = [] then m
               else upd_at m (last as) (\<lambda>x. x\<lparr>offset_next := offset_next n\<rparr>))
     in if cs = [] then m1 else upd_at m1 (hd cs) (\<lambda>x. x\<lparr>offset_prev := offset_prev n\<rparr>))"

definition cut_next :: "hashonode \<Rightarrow> offset list \<Rightarrow> offset \<Rightarrow> hashonode \<Rightarrow> hashonode" where
  "cut_next n as x k = (if as \<noteq> [] \<and> x = last as then k\<lparr>offset_next := offset_next n\<rparr> else k)"

definition cut_prev :: "hashonode \<Rightarrow> offset list \<Rightarrow> offset \<Rightarrow> hashonode \<Rightarrow> hashonode" where
  "cut_prev n cs x k = (if cs \<noteq> [] \<and> x = hd cs then k\<lparr>offset_prev := offset_prev n\<rparr> else k)"

lemma cut_fields [simp]:
  "offset_Key (cut_next n as x k) = offset_Key k" "offset_Data (cut_next n as x k) = offset_Data k"
  "offset_Key (cut_prev n cs x k) = offset_Key k" "offset_Data (cut_prev n cs x k) = offset_Data k"
  "offset_prev (cut_next n as x k) = offset_prev k" "offset_next (cut_prev n cs x k) = offset_next k"
  by (simp_all add: cut_next_def cut_prev_def)

lemma cut_next_other [simp]: "x \<notin> set as \<Longrightarrow> cut_next n as x k = k"
  using last_in_set [of as] by (auto simp: cut_next_def)

lemma cut_prev_other [simp]: "x \<notin> set cs \<Longrightarrow> cut_prev n cs x k = k"
  using hd_in_set [of cs] by (auto simp: cut_prev_def)

lemma dseg_cut_apply:
  "dseg_cut m n as cs x = map_option (\<lambda>k. cut_prev n cs x (cut_next n as x k)) (m x)"
  by (cases "m x"; cases "as = []"; cases "cs = []")
     (simp_all add: dseg_cut_def Let_def upd_at_apply cut_next_def cut_prev_def)

lemma dseg_cut_other: "x \<notin> set as \<Longrightarrow> x \<notin> set cs \<Longrightarrow> dseg_cut m n as cs x = m x"
  by (simp add: dseg_cut_apply option.map_ident)

lemma dseg_cut_Cons: "as \<noteq> [] \<Longrightarrow> dseg_cut m n (a # as) cs = dseg_cut m n as cs"
  by (simp add: dseg_cut_def)

lemma dseg_cut_seg:
  assumes "dseg m pv cur (as @ p # cs)" "distinct (as @ p # cs)" "m p = Some n"
  shows "dseg (dseg_cut m n as cs) pv (if as = [] then offset_next n else cur) (as @ cs)"
  using assms
proof (induction as arbitrary: pv cur)
  case Nil
  then have seg: "dseg m p (offset_next n) cs" and pv: "offset_prev n = pv" by auto
  show ?case
  proof (cases cs)
    case Nil
    with seg show ?thesis by (simp add: dseg_cut_def)
  next
    case (Cons c cs')
    with seg have c: "dseg m p c (c # cs')" "offset_next n = c" by auto
    then obtain nc where "m c = Some nc" by auto
    with c(1) have "dseg (m(c \<mapsto> nc\<lparr>offset_prev := pv\<rparr>)) pv c (c # cs')"
      using Nil.prems(2) Cons by (intro dseg_relink) auto
    moreover have "dseg_cut m n [] cs = m(c \<mapsto> nc\<lparr>offset_prev := pv\<rparr>)"
      using \<open>m c = Some nc\<close> Cons pv by (simp add: dseg_cut_def upd_at_def)
    ultimately show ?thesis using c(2) by (simp only: Cons append.simps if_True simp_thms)
  qed
next
  case (Cons a as)
  then obtain na where na: "cur = a" "a \<noteq> 0" "m a = Some na" "offset_prev na = pv"
    "dseg m a (offset_next na) (as @ p # cs)" by auto
  have a: "a \<notin> set as" "a \<notin> set cs" "a \<noteq> p" using Cons.prems(2) by auto
  have IH: "dseg (dseg_cut m n as cs) a (if as = [] then offset_next n else offset_next na) (as @ cs)"
    using Cons.prems(2,3) by (intro Cons.IH [OF na(5)]) auto
  show ?case
  proof (cases "as = []")
    case False
    have "dseg_cut m n as cs a = m a" using a by (simp add: dseg_cut_other)
    with IH False na show ?thesis by (simp add: dseg_cut_Cons)
  next
    case True
    let ?m = "dseg_cut m n [a] cs"
    have "dseg ?m a (offset_next n) cs = dseg (dseg_cut m n [] cs) a (offset_next n) cs"
    proof (rule dseg_cong)
      fix x assume "x \<in> set cs"
      with a have "x \<noteq> a" by auto
      then show "?m x = dseg_cut m n [] cs x" by (simp add: dseg_cut_apply)
    qed
    then have "dseg ?m a (offset_next n) cs" using IH True by simp
    moreover have "\<exists>k. ?m a = Some k \<and> offset_next k = offset_next n \<and> offset_prev k = pv"
      using na a by (simp add: dseg_cut_apply) (simp add: cut_next_def)
    ultimately show ?thesis using na True by auto
  qed
qed

section \<open>The representation invariant\<close>

definition klen :: "hasho \<Rightarrow> nat" where "klen h = unat (ho_usKeyLen h)"
definition dlen :: "hasho \<Rightarrow> nat" where "dlen h = unat (ho_usDataLen h)"
definition hsize :: "hasho \<Rightarrow> nat" where "hsize h = unat (ho_uiHashSize h)"

definition hkey :: "hasho \<Rightarrow> offset \<Rightarrow> u8 list" where
  "hkey h p = rd_bytes (ho_mem h) (p + stHASHONODE_SIZE) (klen h)"

definition hdata :: "hasho \<Rightarrow> offset \<Rightarrow> u8 list" where
  "hdata h p = rd_bytes (ho_mem h) (p + stHASHONODE_SIZE + int (klen h)) (dlen h)"

text \<open>The pool nodes in use, as table offsets.\<close>

definition hasho_nodes :: "hasho \<Rightarrow> offset set" where
  "hasho_nodes h = {p. p + stMEMGINFO_SIZE \<in> memg_live (ho_memg h)}"

definition hasho_hash :: "hasho \<Rightarrow> u8 list \<Rightarrow> offset option" where
  "hasho_hash h k = ho_func h (hasho_info h) k"

text \<open>The hash function answers for every key of the right length, inside the bucket array.\<close>

definition hash_total :: "hasho \<Rightarrow> bool" where
  "hash_total h \<longleftrightarrow>
     (\<forall>k. length k = klen h \<longrightarrow> (\<exists>i < hsize h. hasho_hash h k = Some (int i)))"

definition hasho_layout :: "hasho \<Rightarrow> bool" where
  "hasho_layout h \<longleftrightarrow>
     memg_wf (ho_memg h) \<and> ho_offset_psthashnode h = stHASHOINFO_SIZE \<and>
     ho_offset_memginfo h = - stMEMGINFO_SIZE \<and>
     uint (gi_uiHeadRoomSize (ho_memg h)) = stHASHOINFO_SIZE + int (hsize h) * PTR_SIZE \<and>
     uint (gi_uiMemNodeBodySize (ho_memg h)) = hasho_node_size h"

definition hasho_node_ok :: "hasho \<Rightarrow> offset \<Rightarrow> bool" where
  "hasho_node_ok h p \<longleftrightarrow> (\<exists>n. ho_node h p = Some n \<and> offset_Key n = p + stHASHONODE_SIZE \<and>
     offset_Data n = p + stHASHONODE_SIZE + int (klen h))"

definition hasho_bucket_ok :: "hasho \<Rightarrow> nat \<Rightarrow> offset list \<Rightarrow> bool" where
  "hasho_bucket_ok h i xs \<longleftrightarrow>
     (\<exists>c. hasho_head h (int i) = Some c \<and> dseg (ho_node h) 0 c xs) \<and> distinct xs \<and>
     (\<forall>p \<in> set xs. p \<in> hasho_nodes h \<and> hasho_node_ok h p \<and> hasho_hash h (hkey h p) = Some (int i))"

definition hasho_rep :: "hasho \<Rightarrow> (nat \<Rightarrow> offset list) \<Rightarrow> bool" where
  "hasho_rep h bs \<longleftrightarrow> hasho_layout h \<and> hash_total h \<and>
     (\<forall>i < hsize h. hasho_bucket_ok h i (bs i)) \<and>
     hasho_nodes h \<subseteq> (\<Union>i < hsize h. set (bs i)) \<and> inj_on (hkey h) (hasho_nodes h)"

definition hasho_wf :: "hasho \<Rightarrow> bool" where
  "hasho_wf h \<longleftrightarrow> (\<exists>bs. hasho_rep h bs)"

text \<open>What the table holds.\<close>

definition hasho_entries :: "hasho \<Rightarrow> (u8 list \<times> u8 list) set" where
  "hasho_entries h = (\<lambda>p. (hkey h p, hdata h p)) ` hasho_nodes h"

definition hasho_cap :: "hasho \<Rightarrow> nat" where
  "hasho_cap h = unat (gi_uiMemNodeTotCnt (ho_memg h))"

lemma hasho_hash_update [simp]:
  "hasho_hash (h\<lparr>ho_memg := m\<rparr>) k = hasho_hash h k"
  "hasho_hash (h\<lparr>ho_node := ns\<rparr>) k = hasho_hash h k"
  "hasho_hash (h\<lparr>ho_mem := mm\<rparr>) k = hasho_hash h k"
  by (simp_all add: hasho_hash_def hasho_info_def hashoinfo.defs)

lemma hasho_sizes_update [simp]:
  "klen (h\<lparr>ho_memg := m\<rparr>) = klen h" "klen (h\<lparr>ho_node := ns\<rparr>) = klen h" "klen (h\<lparr>ho_mem := mm\<rparr>) = klen h"
  "dlen (h\<lparr>ho_memg := m\<rparr>) = dlen h" "dlen (h\<lparr>ho_node := ns\<rparr>) = dlen h" "dlen (h\<lparr>ho_mem := mm\<rparr>) = dlen h"
  "hsize (h\<lparr>ho_memg := m\<rparr>) = hsize h" "hsize (h\<lparr>ho_node := ns\<rparr>) = hsize h" "hsize (h\<lparr>ho_mem := mm\<rparr>) = hsize h"
  "hasho_node_size (h\<lparr>ho_memg := m\<rparr>) = hasho_node_size h"
  "hasho_node_size (h\<lparr>ho_node := ns\<rparr>) = hasho_node_size h"
  "hasho_node_size (h\<lparr>ho_mem := mm\<rparr>) = hasho_node_size h"
  by (simp_all add: klen_def dlen_def hsize_def hasho_node_size_def)

lemma hkey_update [simp]:
  "hkey (h\<lparr>ho_memg := m\<rparr>) p = hkey h p" "hkey (h\<lparr>ho_node := ns\<rparr>) p = hkey h p"
  "hdata (h\<lparr>ho_memg := m\<rparr>) p = hdata h p" "hdata (h\<lparr>ho_node := ns\<rparr>) p = hdata h p"
  by (simp_all add: hkey_def hdata_def)

lemma length_hkey [simp]: "length (hkey h p) = klen h"
  by (simp add: hkey_def)

lemma length_hdata [simp]: "length (hdata h p) = dlen h"
  by (simp add: hdata_def)

lemma hasho_key_at_hkey:
  "offset_Key n = p + stHASHONODE_SIZE \<Longrightarrow> hasho_key_at h n = hkey h p"
  by (simp add: hasho_key_at_def hkey_def klen_def)

section \<open>Find\<close>

declare hasho_find_loop.simps [code]

lemma hasho_find_loop_null: "hasho_find_loop h k 0 = Some None"
  by (subst hasho_find_loop.simps) simp

lemma hasho_find_loop_step:
  "p \<noteq> 0 \<Longrightarrow> ho_node h p = Some n \<Longrightarrow> hasho_find_loop h k p =
     (if hasho_key_at h n = k then Some (Some p) else hasho_find_loop h k (offset_next n))"
  by (subst hasho_find_loop.simps) simp

text \<open>On a well-linked chain the loop returns, with the first node whose key matches.\<close>

lemma hasho_find_loop_chain:
  "dseg (ho_node h) pv cur xs \<Longrightarrow> \<forall>p \<in> set xs. hasho_node_ok h p \<Longrightarrow>
   hasho_find_loop h k cur = Some (List.find (\<lambda>p. hkey h p = k) xs)"
proof (induction xs arbitrary: pv cur)
  case Nil
  then show ?case by (simp add: hasho_find_loop_null)
next
  case (Cons x xs)
  then obtain n where n: "cur = x" "x \<noteq> 0" "ho_node h x = Some n"
    "dseg (ho_node h) x (offset_next n) xs" by auto
  from Cons.prems(2) n(3) have "hasho_key_at h n = hkey h x"
    by (intro hasho_key_at_hkey) (auto simp: hasho_node_ok_def)
  then show ?case
    using Cons.IH [OF n(4)] Cons.prems(2) n by (simp add: hasho_find_loop_step)
qed

lemma hasho_find_bucket:
  assumes "hasho_rep h bs" "hasho_hash h k = Some (int i)" "i < hsize h"
  shows "hasho_find h k = Some (List.find (\<lambda>p. hkey h p = k) (bs i))"
proof -
  from assms have b: "hasho_bucket_ok h i (bs i)" by (simp add: hasho_rep_def)
  then obtain c where "hasho_head h (int i) = Some c" "dseg (ho_node h) 0 c (bs i)"
    by (auto simp: hasho_bucket_ok_def)
  with b hasho_find_loop_chain [of h 0 c "bs i" k] assms(2) show ?thesis
    by (auto simp: hasho_find_def hasho_hash_def hasho_bucket_ok_def)
qed

lemma hasho_node_bucket:
  assumes "hasho_rep h bs" "p \<in> hasho_nodes h"
  obtains i where "i < hsize h" "p \<in> set (bs i)" "hasho_hash h (hkey h p) = Some (int i)"
proof -
  from assms obtain i where "i < hsize h" "p \<in> set (bs i)" by (auto simp: hasho_rep_def)
  moreover from this assms(1) have "hasho_hash h (hkey h p) = Some (int i)"
    by (auto simp: hasho_rep_def hasho_bucket_ok_def)
  ultimately show thesis using that by blast
qed

lemma hasho_find_hit:
  assumes "hasho_rep h bs" "p \<in> hasho_nodes h"
  shows "hasho_find h (hkey h p) = Some (Some p)"
proof -
  from hasho_node_bucket [OF assms] obtain i where
    i: "i < hsize h" "p \<in> set (bs i)" "hasho_hash h (hkey h p) = Some (int i)" .
  from i(2) obtain q where q: "List.find (\<lambda>q. hkey h q = hkey h p) (bs i) = Some q"
    by (metis (mono_tags, lifting) find_None_iff not_None_eq)
  then have "q \<in> set (bs i)" "hkey h q = hkey h p" by (auto simp: find_Some_iff)
  moreover have "set (bs i) \<subseteq> hasho_nodes h"
    using assms(1) i(1) by (auto simp: hasho_rep_def hasho_bucket_ok_def)
  ultimately have "q = p" using assms by (auto simp: hasho_rep_def inj_on_def)
  with q hasho_find_bucket [OF assms(1) i(3,1)] show ?thesis by simp
qed

lemma hasho_find_miss:
  assumes "hasho_rep h bs" "length k = klen h" "k \<notin> hkey h ` hasho_nodes h"
  shows "hasho_find h k = Some None"
proof -
  from assms(1,2) obtain i where i: "i < hsize h" "hasho_hash h k = Some (int i)"
    by (auto simp: hasho_rep_def hash_total_def)
  have "set (bs i) \<subseteq> hasho_nodes h"
    using assms(1) i(1) by (auto simp: hasho_rep_def hasho_bucket_ok_def)
  then have "List.find (\<lambda>p. hkey h p = k) (bs i) = None"
    using assms(3) by (auto simp: find_None_iff)
  with hasho_find_bucket [OF assms(1) i(2,1)] show ?thesis by simp
qed

section \<open>Link and unlink on one chain\<close>

text \<open>The table after the node map is \<open>N\<close> and bucket \<open>i\<close> starts at \<open>v\<close>.\<close>

definition hasho_relinked :: "hasho \<Rightarrow> (offset \<rightharpoonup> hashonode) \<Rightarrow> nat \<Rightarrow> offset \<Rightarrow> hasho" where
  "hasho_relinked h N i v =
     h\<lparr>ho_node := N, ho_memg := (ho_memg h)\<lparr>gm_cell :=
         (gm_cell (ho_memg h))(hasho_slot h (int i) \<mapsto> v)\<rparr>\<rparr>"

lemma hasho_slot_inj: "hasho_slot h i = hasho_slot h j \<longleftrightarrow> i = j"
  by (simp add: hasho_slot_def hasho_const_defs)

lemma hasho_slot_cong:
  "gi_offsetHeadRoom (ho_memg h') = gi_offsetHeadRoom (ho_memg h) \<Longrightarrow>
   ho_offset_psthashnode h' = ho_offset_psthashnode h \<Longrightarrow> hasho_slot h' i = hasho_slot h i"
  by (simp add: hasho_slot_def)

lemma hasho_relinked_head [simp]:
  "hasho_head (hasho_relinked h N i v) (int j) = (if j = i then Some v else hasho_head h (int j))"
  by (simp add: hasho_head_def hasho_relinked_def hasho_slot_def hasho_const_defs)

lemma hasho_relinked_simps [simp]:
  "ho_node (hasho_relinked h N i v) = N" "ho_mem (hasho_relinked h N i v) = ho_mem h"
  "hasho_nodes (hasho_relinked h N i v) = hasho_nodes h"
  "hkey (hasho_relinked h N i v) = hkey h" "hdata (hasho_relinked h N i v) = hdata h"
  "klen (hasho_relinked h N i v) = klen h" "dlen (hasho_relinked h N i v) = dlen h"
  "hsize (hasho_relinked h N i v) = hsize h"
  "hasho_hash (hasho_relinked h N i v) = hasho_hash h"
  "hasho_cap (hasho_relinked h N i v) = hasho_cap h"
  "memg_geom (ho_memg (hasho_relinked h N i v)) = memg_geom (ho_memg h)"
  "memg_live (ho_memg (hasho_relinked h N i v)) = memg_live (ho_memg h)"
  by (rule ext | simp add: hasho_relinked_def hasho_nodes_def frame_simps hkey_def hdata_def
      klen_def dlen_def hsize_def hasho_hash_def hasho_info_def hashoinfo.defs memg_geom_def
      hasho_cap_def)+

lemma memg_wf_cell [simp]: "memg_wf (m\<lparr>gm_cell := c\<rparr>) = memg_wf m"
  by (simp add: memg_wf_def frame_simps)

lemma hasho_relinked_layout [simp]:
  "hasho_layout (hasho_relinked h N i v) = hasho_layout h"
  by (simp add: hasho_layout_def hasho_relinked_def hsize_def hasho_node_size_def)

lemma hasho_relinked_total [simp]:
  "hash_total (hasho_relinked h N i v) = hash_total h"
  by (simp add: hash_total_def)

lemma hasho_link_chain:
  assumes "ho_node h p = Some n" "offset_next n = 0" "offset_prev n = 0"
    "hasho_hash h (hasho_key_at h n) = Some (int i)" "hasho_head h (int i) = Some c"
    "dseg (ho_node h) 0 c xs" "distinct xs" "p \<notin> set xs" "p \<noteq> 0"
  obtains N where "hasho_link_node h p = Some (hasho_relinked h N i p)"
    "dseg N 0 p (p # xs)" "\<And>r. r \<noteq> p \<Longrightarrow> r \<notin> set xs \<Longrightarrow> N r = ho_node h r"
    "\<And>r k. ho_node h r = Some k \<Longrightarrow> \<exists>k'. N r = Some k' \<and> offset_Key k' = offset_Key k \<and>
        offset_Data k' = offset_Data k"
proof (cases "c = 0")
  case True
  then have "xs = []" using assms(6) dseg_nonzero by (cases xs) auto
  moreover have "hasho_link_node h p = Some (hasho_relinked h (ho_node h) i p)"
    using assms True
    by (simp add: hasho_link_node_def hasho_set_head_def hasho_relinked_def hasho_hash_def)
  moreover have "dseg (ho_node h) 0 p [p]" using assms by simp
  ultimately show thesis using that by blast
next
  case False
  then obtain ys where xs: "xs = c # ys" using assms(6) by (cases xs) auto
  then obtain nc where nc: "ho_node h c = Some nc" "offset_prev nc = 0" using assms(6) by auto
  have pc: "p \<noteq> c" using assms(8) xs by simp
  let ?np = "n\<lparr>offset_prev := 0, offset_next := c\<rparr>"
  let ?N = "(ho_node h)(c \<mapsto> nc\<lparr>offset_prev := p\<rparr>, p \<mapsto> ?np)"
  have link: "hasho_link_node h p = Some (hasho_relinked h ?N i p)"
    using assms(1-5) False nc pc
    by (simp add: hasho_link_node_def hasho_set_head_def hasho_upd_def hasho_relinked_def
        hasho_hash_def hasho_head_def hasho_slot_def fun_upd_twist)
  have chain: "dseg ?N 0 p (p # xs)"
    using assms False nc by (intro dseg_push) auto
  have frame: "?N r = ho_node h r" if "r \<noteq> p" "r \<notin> set xs" for r
    using that xs by auto
  have keys: "\<exists>k'. ?N r = Some k' \<and> offset_Key k' = offset_Key k \<and> offset_Data k' = offset_Data k"
    if "ho_node h r = Some k" for r k
    using that nc assms(1) by auto
  show thesis using that [OF link chain frame keys] .
qed

lemma hasho_set_head_eq:
  "hasho_head h (int i) = Some c \<Longrightarrow>
   hasho_set_head h (int i) v = Some (hasho_relinked h (ho_node h) i v)"
  by (simp add: hasho_set_head_def hasho_relinked_def)

text \<open>Unlinking: the bucket head moves only when the node is the first one.\<close>

lemma hasho_node_only:
  "hasho_head h (int i) = Some c \<Longrightarrow> h\<lparr>ho_node := M\<rparr> = hasho_relinked h M i c"
  by (simp add: hasho_relinked_def hasho_head_def map_upd_triv)

lemma hasho_upd_at:
  "ho_node h x = Some l \<Longrightarrow> hasho_upd h x f = Some (h\<lparr>ho_node := upd_at (ho_node h) x f\<rparr>)"
  by (simp add: hasho_upd_def upd_at_def)

text \<open>The forward half: the predecessor, or the bucket head, skips the node.\<close>

lemma hasho_unlink_forward:
  assumes "dseg (ho_node h) 0 c (as @ p # cs)" "hasho_head h (int i) = Some c"
    "offset_prev n = (if as = [] then 0 else last as)"
  shows "(if offset_prev n \<noteq> 0
          then hasho_upd h (offset_prev n) (\<lambda>x. x\<lparr>offset_next := offset_next n\<rparr>)
          else hasho_set_head h (int i) (offset_next n)) =
         Some (hasho_relinked h (dseg_cut (ho_node h) n as []) i
                 (if as = [] then offset_next n else c))"
proof (cases "as = []")
  case True
  with assms show ?thesis by (simp add: hasho_set_head_eq dseg_cut_def)
next
  case False
  then have "last as \<in> set (as @ p # cs)" by simp
  with dseg_nonzero [OF assms(1)] dseg_dom [OF assms(1)]
  obtain l where "last as \<noteq> 0" "ho_node h (last as) = Some l" by metis
  with False assms(2,3) show ?thesis
    by (simp add: hasho_upd_at dseg_cut_def hasho_node_only)
qed

lemma hasho_unlink_chain:
  assumes "ho_node h p = Some n" "hasho_hash h (hasho_key_at h n) = Some (int i)"
    "hasho_head h (int i) = Some c" "dseg (ho_node h) 0 c (as @ p # cs)" "distinct (as @ p # cs)"
  shows "hasho_unlink_node h p = Some (hasho_relinked h (dseg_cut (ho_node h) n as cs) i
           (if as = [] then offset_next n else c))"
proof -
  let ?v = "if as = [] then offset_next n else c"
  let ?m1 = "dseg_cut (ho_node h) n as []"
  have links: "offset_prev n = (if as = [] then 0 else last as)"
      "offset_next n = (if cs = [] then 0 else hd cs)"
    using dseg_mid [OF assms(4,1)] by auto
  have "?m1 p = Some n" using assms(1,5) by (simp add: dseg_cut_other)
  then have "hasho_unlink_node h p = (if offset_next n \<noteq> 0
      then hasho_upd (hasho_relinked h ?m1 i ?v) (offset_next n)
             (\<lambda>x. x\<lparr>offset_prev := offset_prev n\<rparr>)
      else Some (hasho_relinked h ?m1 i ?v))"
    using assms(1,2) hasho_unlink_forward [OF assms(4,3) links(1)]
    by (simp add: hasho_unlink_node_def hasho_hash_def)
  also have "\<dots> = Some (hasho_relinked h (dseg_cut (ho_node h) n as cs) i ?v)"
  proof (cases "cs = []")
    case True
    with links show ?thesis by simp
  next
    case False
    then have "hd cs \<in> set (as @ p # cs)" by simp
    with dseg_nonzero [OF assms(4)] dseg_dom [OF assms(4)]
    obtain l where l: "hd cs \<noteq> 0" "ho_node h (hd cs) = Some l" by metis
    then have "ho_node (hasho_relinked h ?m1 i ?v) (hd cs) = Some (cut_next n as (hd cs) l)"
      by (simp add: dseg_cut_apply cut_prev_def)
    from hasho_upd_at [OF this] False l(1) links(2) show ?thesis
      by (simp add: hasho_relinked_def dseg_cut_def)
  qed
  finally show ?thesis .
qed

section \<open>Filling a node\<close>

lemma uint_klen: "uint (ho_usKeyLen h) = int (klen h)" "uint (ho_usDataLen h) = int (dlen h)"
  by (simp_all add: klen_def dlen_def)

lemma unat_klen: "unat (ho_usKeyLen h) = klen h" "unat (ho_usDataLen h) = dlen h"
  by (simp_all add: klen_def dlen_def)

lemma hasho_node_size_eq: "hasho_node_size h = stHASHONODE_SIZE + int (klen h) + int (dlen h)"
  by (simp add: hasho_node_size_def uint_klen)

lemma hasho_fill_mem_other:
  assumes "length k = klen h" "length d = dlen h" "x < p \<or> p + hasho_node_size h \<le> x"
  shows "ho_mem (hasho_fill h p k d) x = ho_mem h x"
  using assms by (auto simp: hasho_fill_def Let_def wr_bytes_other hasho_node_size_eq uint_klen
      unat_klen stHASHONODE_SIZE_def)

lemma hasho_fill_frame:
  assumes "length k = klen h" "length d = dlen h"
    "r + hasho_node_size h \<le> p \<or> p + hasho_node_size h \<le> r"
  shows "hkey (hasho_fill h p k d) r = hkey h r" "hdata (hasho_fill h p k d) r = hdata h r"
proof -
  have sizes: "klen (hasho_fill h p k d) = klen h" "dlen (hasho_fill h p k d) = dlen h"
    by (simp_all add: hasho_fill_def Let_def klen_def dlen_def)
  have mem: "ho_mem (hasho_fill h p k d) x = ho_mem h x"
    if "r \<le> x" "x < r + hasho_node_size h" for x
    using assms that by (intro hasho_fill_mem_other) auto
  show "hkey (hasho_fill h p k d) r = hkey h r"
    unfolding hkey_def sizes
  proof (rule rd_bytes_cong)
    fix x assume "r + stHASHONODE_SIZE \<le> x" "x < r + stHASHONODE_SIZE + int (klen h)"
    then show "ho_mem (hasho_fill h p k d) x = ho_mem h x"
      by (intro mem) (simp_all add: hasho_node_size_eq stHASHONODE_SIZE_def)
  qed
  show "hdata (hasho_fill h p k d) r = hdata h r"
    unfolding hdata_def sizes
  proof (rule rd_bytes_cong)
    fix x assume "r + stHASHONODE_SIZE + int (klen h) \<le> x"
      "x < r + stHASHONODE_SIZE + int (klen h) + int (dlen h)"
    then show "ho_mem (hasho_fill h p k d) x = ho_mem h x"
      by (intro mem) (simp_all add: hasho_node_size_eq stHASHONODE_SIZE_def)
  qed
qed

lemma hasho_fill_self:
  assumes "length k = klen h" "length d = dlen h"
  shows "hkey (hasho_fill h p k d) p = k" "hdata (hasho_fill h p k d) p = d"
proof -
  have sizes: "klen (hasho_fill h p k d) = klen h" "dlen (hasho_fill h p k d) = dlen h"
    by (simp_all add: hasho_fill_def Let_def klen_def dlen_def)
  show "hkey (hasho_fill h p k d) p = k"
    unfolding hkey_def sizes using assms rd_wr_same [of _ _ k]
    by (simp add: hasho_fill_def Let_def uint_klen rd_wr_other)
  show "hdata (hasho_fill h p k d) p = d"
    unfolding hdata_def sizes using assms rd_wr_same [of _ _ d]
    by (simp add: hasho_fill_def Let_def uint_klen)
qed

lemma hasho_fill_simps [simp]:
  "ho_memg (hasho_fill h p k d) = ho_memg h"
  "ho_node (hasho_fill h p k d) = (ho_node h)(p \<mapsto> \<lparr>offset_next = 0, offset_prev = 0,
     offset_Key = p + stHASHONODE_SIZE, offset_Data = p + stHASHONODE_SIZE + int (klen h)\<rparr>)"
  "klen (hasho_fill h p k d) = klen h" "dlen (hasho_fill h p k d) = dlen h"
  "hsize (hasho_fill h p k d) = hsize h" "hasho_hash (hasho_fill h p k d) = hasho_hash h"
  "hasho_head (hasho_fill h p k d) = hasho_head h"
  "hasho_nodes (hasho_fill h p k d) = hasho_nodes h"
  "hasho_layout (hasho_fill h p k d) = hasho_layout h"
  "hash_total (hasho_fill h p k d) = hash_total h"
  by (rule ext | simp add: hasho_fill_def Let_def klen_def dlen_def hsize_def hasho_hash_def
      hasho_info_def hashoinfo.defs hasho_head_def hasho_slot_def hasho_nodes_def hasho_layout_def
      hasho_node_size_def hash_total_def)+

section \<open>Add\<close>

lemma hasho_nodes_cells:
  "hasho_layout h \<Longrightarrow> p \<in> hasho_nodes h \<Longrightarrow> p + stMEMGINFO_SIZE \<in> memg_cells (ho_memg h)"
  using memg_live_subset [of "ho_memg h"] by (auto simp: hasho_layout_def hasho_nodes_def)

lemma hasho_cells_apart:
  assumes "hasho_layout h" "p + stMEMGINFO_SIZE \<in> memg_cells (ho_memg h)"
    "r + stMEMGINFO_SIZE \<in> memg_cells (ho_memg h)" "r \<noteq> p"
  shows "r + hasho_node_size h \<le> p \<or> p + hasho_node_size h \<le> r"
proof -
  have "memg_stride (ho_memg h) = stMEMGNODEHDR_SIZE + hasho_node_size h"
    using assms(1) by (simp add: memg_stride_def hasho_layout_def)
  with memg_cells_apart [OF assms(3,2)] assms(4) show ?thesis
    by (auto simp: stMEMGNODEHDR_SIZE_def)
qed

lemma hasho_cells_pos:
  "hasho_layout h \<Longrightarrow> p + stMEMGINFO_SIZE \<in> memg_cells (ho_memg h) \<Longrightarrow> 0 < p"
  using memg_cells_lower [of "ho_memg h" "p + stMEMGINFO_SIZE"]
  by (auto simp: hasho_layout_def stMEMGNODEHDR_SIZE_def stHASHOINFO_SIZE_def PTR_SIZE_def)

lemma hasho_bucketD:
  assumes "hasho_rep h bs" "i < hsize h" "p \<in> set (bs i)"
  shows "p \<in> hasho_nodes h" "hasho_node_ok h p" "hasho_hash h (hkey h p) = Some (int i)"
  using assms by (simp_all add: hasho_rep_def hasho_bucket_ok_def)

lemma hasho_buckets_disjoint:
  assumes "hasho_rep h bs" "i < hsize h" "j < hsize h" "i \<noteq> j"
  shows "set (bs i) \<inter> set (bs j) = {}"
proof (rule ccontr)
  assume "set (bs i) \<inter> set (bs j) \<noteq> {}"
  then obtain p where "p \<in> set (bs i)" "p \<in> set (bs j)" by blast
  with assms have "hasho_hash h (hkey h p) = Some (int i)" "hasho_hash h (hkey h p) = Some (int j)"
    using hasho_bucketD(3) by blast+
  with assms(4) show False by simp
qed

lemma hasho_layout_geom:
  assumes "hasho_layout h" "memg_wf m" "memg_geom m = memg_geom (ho_memg h)"
  shows "hasho_layout (h\<lparr>ho_memg := m\<rparr>)"
  using assms memg_geomD [OF assms(3)] by (simp add: hasho_layout_def)

lemma hasho_head_cells:
  "memg_geom m = memg_geom (ho_memg h) \<Longrightarrow> gm_cell m = gm_cell (ho_memg h) \<Longrightarrow>
   hasho_head (h\<lparr>ho_memg := m\<rparr>) i = hasho_head h i"
  by (simp add: hasho_head_def hasho_slot_def memg_geom_def)

text \<open>A bucket is carried over to a table that agrees on its nodes.\<close>

lemma hasho_bucket_cong:
  assumes "hasho_bucket_ok h i xs" "hasho_head h' (int i) = hasho_head h (int i)"
    "\<And>p. p \<in> set xs \<Longrightarrow> ho_node h' p = ho_node h p"
    "\<And>p. p \<in> set xs \<Longrightarrow> p \<in> hasho_nodes h' \<and> hkey h' p = hkey h p"
    "klen h' = klen h" "hasho_hash h' = hasho_hash h"
  shows "hasho_bucket_ok h' i xs"
  using assms dseg_cong [of xs "ho_node h'" "ho_node h"]
  by (auto simp: hasho_bucket_ok_def hasho_node_ok_def)

lemma hasho_wr_size: "hasho_layout h \<Longrightarrow> word_of_int (hasho_node_size h) = gi_uiMemNodeBodySize (ho_memg h)"
  by (metis hasho_layout_def word_of_int_uint)

lemma push_cover:
  assumes "A \<subseteq> (\<Union>j < n. set (bs j))" "i < n"
  shows "insert p A \<subseteq> (\<Union>j < n. set ((bs(i := p # bs i)) j))"
proof
  fix x assume "x \<in> insert p A"
  then consider "x = p" | j where "j < n" "x \<in> set (bs j)" using assms(1) by blast
  then show "x \<in> (\<Union>j < n. set ((bs(i := p # bs i)) j))"
  proof cases
    case 1
    then show ?thesis using assms(2) by (intro UN_I [of i]) auto
  next
    case (2 j)
    then show ?thesis by (intro UN_I [of j]) auto
  qed
qed

lemma inj_on_insert_fresh:
  assumes "inj_on f A" "\<And>x. x \<in> A \<Longrightarrow> g x = f x" "g p \<notin> f ` A"
  shows "inj_on g (insert p A)"
proof -
  have "inj_on g A" using assms(1,2) by (metis inj_on_cong)
  moreover have "g p \<notin> g ` (A - {p})" using assms(2,3) by auto
  ultimately show ?thesis by simp
qed

text \<open>Pushing \<open>p\<close> keeps a bucket well formed.\<close>

lemma hasho_bucket_push:
  assumes old: "hasho_bucket_ok h i xs"
    and links: "hasho_head h' (int i) = Some p" "dseg (ho_node h') 0 p (p # xs)" "p \<notin> set xs"
    and fields: "\<And>r n. ho_node h r = Some n \<Longrightarrow> r \<noteq> p \<Longrightarrow> \<exists>k'. ho_node h' r = Some k' \<and>
        offset_Key k' = offset_Key n \<and> offset_Data k' = offset_Data n"
    and p: "hasho_node_ok h' p" "p \<in> hasho_nodes h'" "hasho_hash h' (hkey h' p) = Some (int i)"
    and keep: "\<And>r. r \<in> hasho_nodes h \<Longrightarrow> r \<in> hasho_nodes h' \<and> hkey h' r = hkey h r"
      "klen h' = klen h" "hasho_hash h' = hasho_hash h"
  shows "hasho_bucket_ok h' i (p # xs)"
proof -
  have "hasho_node_ok h' r \<and> r \<in> hasho_nodes h' \<and> hasho_hash h' (hkey h' r) = Some (int i)"
    if "r \<in> set xs" for r
  proof -
    from old that have r: "hasho_node_ok h r" "r \<in> hasho_nodes h"
      "hasho_hash h (hkey h r) = Some (int i)" by (auto simp: hasho_bucket_ok_def)
    moreover have "r \<noteq> p" using that links(3) by auto
    ultimately have "hasho_node_ok h' r"
      using fields keep(2) by (fastforce simp: hasho_node_ok_def)
    with r keep show ?thesis by simp
  qed
  with p links old show ?thesis by (simp add: hasho_bucket_ok_def)
qed

text \<open>
  The linking step of an insertion, on a table whose pool has one more node \<open>p\<close> in use: the
  node is filled and pushed on the chain of its key.
\<close>

lemma hasho_push_rep:
  assumes rep: "hasho_rep h bs" and len: "length k = klen h" "length d = dlen h"
    and new: "k \<notin> hkey h ` hasho_nodes h"
    and pool: "memg_wf m" "memg_geom m = memg_geom (ho_memg h)" "gm_cell m = gm_cell (ho_memg h)"
      "memg_live m = insert (p + stMEMGINFO_SIZE) (memg_live (ho_memg h))"
      "p + stMEMGINFO_SIZE \<in> memg_cells (ho_memg h) - memg_live (ho_memg h)"
  obtains h' bs' where "hasho_link_node (hasho_fill (h\<lparr>ho_memg := m\<rparr>) p k d) p = Some h'"
    "hasho_rep h' bs'" "hasho_nodes h' = insert p (hasho_nodes h)"
    "hkey h' p = k" "hdata h' p = d" "klen h' = klen h" "dlen h' = dlen h"
    "\<And>r. r \<in> hasho_nodes h \<Longrightarrow> hkey h' r = hkey h r \<and> hdata h' r = hdata h r"
    "memg_geom (ho_memg h') = memg_geom (ho_memg h)"
proof -
  let ?h1 = "h\<lparr>ho_memg := m\<rparr>"
  let ?f = "hasho_fill ?h1 p k d"
  from rep have lay: "hasho_layout h" and tot: "hash_total h" by (simp_all add: hasho_rep_def)
  have pn: "p \<notin> hasho_nodes h" and p0: "p \<noteq> 0"
    using pool(5) hasho_cells_pos [OF lay] by (auto simp: hasho_nodes_def)
  have nodes1: "hasho_nodes ?h1 = insert p (hasho_nodes h)"
    using pool(4) by (auto simp: hasho_nodes_def)
  have keep: "hkey ?f r = hkey h r \<and> hdata ?f r = hdata h r" if "r \<in> hasho_nodes h" for r
  proof -
    have "r \<noteq> p" using pn that by auto
    then have "r + hasho_node_size h \<le> p \<or> p + hasho_node_size h \<le> r"
      using hasho_cells_apart [OF lay _ hasho_nodes_cells [OF lay that]] pool(5) by auto
    then show ?thesis using hasho_fill_frame [of k ?h1 d r p] len by simp
  qed
  have self: "hkey ?f p = k" "hdata ?f p = d" using hasho_fill_self [of k ?h1 d p] len by auto
  obtain i where i: "i < hsize h" "hasho_hash h k = Some (int i)"
    using tot len(1) by (auto simp: hash_total_def)
  have head: "hasho_head ?f j = hasho_head h j" for j
    using hasho_head_cells [OF pool(2,3)] by simp
  from rep i(1) have bi: "hasho_bucket_ok h i (bs i)" by (simp add: hasho_rep_def)
  then obtain c where c: "hasho_head h (int i) = Some c" "dseg (ho_node h) 0 c (bs i)"
    by (auto simp: hasho_bucket_ok_def)
  have pbs: "p \<notin> set (bs j)" if "j < hsize h" for j
    using hasho_bucketD(1) [OF rep that] pn by blast
  have key: "hasho_key_at ?f \<lparr>offset_next = 0, offset_prev = 0, offset_Key = p + stHASHONODE_SIZE,
      offset_Data = p + stHASHONODE_SIZE + int (klen h)\<rparr> = k"
    using self(1) by (subst hasho_key_at_hkey) simp_all
  obtain N where N: "hasho_link_node ?f p = Some (hasho_relinked ?f N i p)"
    "dseg N 0 p (p # bs i)" "\<And>r. r \<noteq> p \<Longrightarrow> r \<notin> set (bs i) \<Longrightarrow> N r = ho_node ?f r"
    "\<And>r n. ho_node ?f r = Some n \<Longrightarrow> \<exists>k'. N r = Some k' \<and> offset_Key k' = offset_Key n \<and>
        offset_Data k' = offset_Data n"
  proof (rule hasho_link_chain [of ?f p _ i c "bs i"])
    show "dseg (ho_node ?f) 0 c (bs i)" using c(2) pbs [OF i(1)] by simp
  qed (use key i c head bi pbs p0 in \<open>auto simp: hasho_bucket_ok_def\<close>)
  let ?h' = "hasho_relinked ?f N i p"
  let ?bs = "bs(i := p # bs i)"
  have keep': "hkey ?h' r = hkey h r \<and> hdata ?h' r = hdata h r" if "r \<in> hasho_nodes h" for r
    using keep [OF that] by simp
  have nodes: "hasho_nodes ?h' = insert p (hasho_nodes h)" using nodes1 by simp
  have "hasho_node_ok ?h' p" using N(4) [of p] by (auto simp: hasho_node_ok_def)
  then have push: "hasho_bucket_ok ?h' i (p # bs i)"
    using N(2) N(4) nodes keep' pbs [OF i(1)] i(2) self(1)
    by (intro hasho_bucket_push [OF bi]) auto
  have "hasho_bucket_ok ?h' j (?bs j)" if j: "j < hsize h" for j
  proof (cases "j = i")
    case False
    with rep j have bj: "hasho_bucket_ok h j (bs j)" by (simp add: hasho_rep_def)
    have "N r = ho_node h r" if "r \<in> set (bs j)" for r
      using that N(3) [of r] hasho_buckets_disjoint [OF rep j i(1) False] pbs [OF j] by auto
    then have "hasho_bucket_ok ?h' j (bs j)"
      using False head keep' nodes hasho_bucketD(1) [OF rep j]
      by (intro hasho_bucket_cong [OF bj]) auto
    then show ?thesis using False by simp
  qed (use push in simp)
  moreover have "hasho_nodes ?h' \<subseteq> (\<Union>j < hsize h. set (?bs j))"
    unfolding nodes using rep i(1) by (intro push_cover) (simp_all add: hasho_rep_def)
  moreover have "inj_on (hkey ?h') (hasho_nodes ?h')"
    unfolding nodes using rep new keep' self(1)
    by (intro inj_on_insert_fresh [where f = "hkey h"]) (simp_all add: hasho_rep_def)
  moreover have "hasho_layout ?h'" "hash_total ?h'"
    using hasho_layout_geom [OF lay pool(1,2)] tot by (simp_all add: hash_total_def)
  ultimately have "hasho_rep ?h' ?bs" by (simp add: hasho_rep_def)
  then show thesis using that [of ?h' ?bs] N(1) nodes self keep' pool(2) by simp
qed

lemma hasho_add_dup:
  assumes "hasho_rep h bs" "k \<in> hkey h ` hasho_nodes h"
  shows "hasho_add now h k d = Some (h, None)"
proof -
  from assms(2) obtain p where "p \<in> hasho_nodes h" "k = hkey h p" by blast
  with hasho_find_hit [OF assms(1)] show ?thesis by (simp add: hasho_add_def)
qed

lemma hasho_nodes_full_iff:
  assumes "hasho_layout h"
  shows "memg_live (ho_memg h) = memg_cells (ho_memg h) \<longleftrightarrow> card (hasho_nodes h) = hasho_cap h"
proof -
  let ?m = "ho_memg h"
  have wf: "memg_wf ?m" using assms by (simp add: hasho_layout_def)
  have "memg_live ?m = (\<lambda>p. p + stMEMGINFO_SIZE) ` hasho_nodes h"
  proof (intro equalityI subsetI)
    fix x assume "x \<in> memg_live ?m"
    then show "x \<in> (\<lambda>p. p + stMEMGINFO_SIZE) ` hasho_nodes h"
      by (intro image_eqI [of _ _ "x - stMEMGINFO_SIZE"]) (simp_all add: hasho_nodes_def)
  qed (auto simp: hasho_nodes_def)
  then have "card (memg_live ?m) = card (hasho_nodes h)"
    by (simp add: card_image inj_on_def)
  moreover have "memg_live ?m = memg_cells ?m \<longleftrightarrow> card (memg_live ?m) = card (memg_cells ?m)"
    using card_subset_eq [OF finite_memg_cells memg_live_subset [OF wf]] by auto
  ultimately show ?thesis by (simp add: card_memg_cells hasho_cap_def)
qed

lemma hasho_add_full:
  assumes "hasho_rep h bs" "length k = klen h" "k \<notin> hkey h ` hasho_nodes h"
    "card (hasho_nodes h) = hasho_cap h"
  shows "hasho_add now h k d = Some (h, None)"
proof -
  have lay: "hasho_layout h" using assms(1) by (simp add: hasho_rep_def)
  have "memg_alloc (ho_memg h) u dbg now = Some (ho_memg h, None)" for u dbg
    using lay assms(4) hasho_nodes_full_iff [OF lay] by (simp add: hasho_layout_def memg_alloc_full)
  with hasho_find_miss [OF assms(1-3)] show ?thesis by (simp add: hasho_add_def)
qed

lemma hasho_add_new:
  assumes "hasho_rep h bs" "length k = klen h" "length d = dlen h"
    "k \<notin> hkey h ` hasho_nodes h" "card (hasho_nodes h) \<noteq> hasho_cap h"
  obtains h' bs' p where "hasho_add now h k d = Some (h', Some p)" "hasho_rep h' bs'"
    "hasho_nodes h' = insert p (hasho_nodes h)" "p \<notin> hasho_nodes h"
    "hkey h' p = k" "hdata h' p = d" "klen h' = klen h" "dlen h' = dlen h"
    "\<And>r. r \<in> hasho_nodes h \<Longrightarrow> hkey h' r = hkey h r \<and> hdata h' r = hdata h r"
    "memg_geom (ho_memg h') = memg_geom (ho_memg h)"
proof -
  let ?m = "ho_memg h"
  let ?sz = "word_of_int (hasho_node_size h) :: u32"
  have lay: "hasho_layout h" using assms(1) by (simp add: hasho_rep_def)
  have wf: "memg_wf ?m" using lay by (simp add: hasho_layout_def)
  have ne: "memg_live ?m \<noteq> memg_cells ?m" using assms(5) hasho_nodes_full_iff [OF lay] by simp
  have sz: "?sz \<le> gi_uiMemNodeBodySize ?m" using hasho_wr_size [OF lay] by simp
  obtain m q where m: "memg_alloc ?m ?sz ''hasho_add'' now = Some (m, Some q)" "memg_wf m"
    "q \<in> memg_cells ?m - memg_live ?m" "memg_live m = insert q (memg_live ?m)"
    "memg_geom m = memg_geom ?m" "gm_cell m = gm_cell ?m"
    using memg_alloc_fresh [OF wf ne sz] .
  define p where "p = q - stMEMGINFO_SIZE"
  then have q: "q = p + stMEMGINFO_SIZE" by simp
  have off: "gi_offsetHeadRoom m = stMEMGINFO_SIZE"
    using wf memg_geomD [OF m(5)] by (simp add: memg_wf_def)
  obtain h' bs' where h': "hasho_link_node (hasho_fill (h\<lparr>ho_memg := m\<rparr>) p k d) p = Some h'"
    "hasho_rep h' bs'" "hasho_nodes h' = insert p (hasho_nodes h)"
    "hkey h' p = k" "hdata h' p = d" "klen h' = klen h" "dlen h' = dlen h"
    "\<And>r. r \<in> hasho_nodes h \<Longrightarrow> hkey h' r = hkey h r \<and> hdata h' r = hdata h r"
    "memg_geom (ho_memg h') = memg_geom ?m"
    using hasho_push_rep [OF assms(1-4) m(2,5,6)] m(3,4) unfolding q by blast
  have "hasho_add now h k d = Some (h', Some p)"
    using hasho_find_miss [OF assms(1,2,4)] m(1) off h'(1) by (simp add: hasho_add_def q)
  moreover have "p \<notin> hasho_nodes h" using m(3) by (simp add: hasho_nodes_def q)
  ultimately show thesis using that h'(2-9) by blast
qed

section \<open>Delete\<close>

lemma hasho_del_miss:
  assumes "hasho_rep h bs" "length k = klen h" "k \<notin> hkey h ` hasho_nodes h"
  shows "hasho_del h k = Some h"
  using hasho_find_miss [OF assms] by (simp add: hasho_del_def)

text \<open>Unlinking \<open>p\<close> keeps the rest of its bucket well formed.\<close>

lemma hasho_bucket_cut:
  assumes old: "hasho_bucket_ok h i (as @ p # cs)" "ho_node h p = Some n"
    and links: "hasho_head h' (int i) = Some (if as = [] then offset_next n else c)"
      "hasho_head h (int i) = Some c" "ho_node h' = dseg_cut (ho_node h) n as cs"
    and keep: "\<And>r. r \<in> hasho_nodes h \<Longrightarrow> r \<noteq> p \<Longrightarrow> r \<in> hasho_nodes h'"
      "hkey h' = hkey h" "klen h' = klen h" "hasho_hash h' = hasho_hash h"
  shows "hasho_bucket_ok h' i (as @ cs)"
proof -
  have seg: "dseg (ho_node h) 0 c (as @ p # cs)" and dist: "distinct (as @ p # cs)"
    using old links(2) by (auto simp: hasho_bucket_ok_def)
  have "dseg (ho_node h') 0 (if as = [] then offset_next n else c) (as @ cs)"
    unfolding links(3) using dseg_cut_seg [OF seg dist old(2)] .
  moreover have "r \<in> hasho_nodes h' \<and> hasho_node_ok h' r \<and> hasho_hash h' (hkey h' r) = Some (int i)"
    if "r \<in> set (as @ cs)" for r
  proof -
    have r: "r \<in> hasho_nodes h" "hasho_node_ok h r" "hasho_hash h (hkey h r) = Some (int i)" "r \<noteq> p"
      using that old(1) dist by (auto simp: hasho_bucket_ok_def)
    moreover from r(2) have "hasho_node_ok h' r"
      using keep(3) by (auto simp: hasho_node_ok_def links(3) dseg_cut_apply)
    ultimately show ?thesis using keep by simp
  qed
  ultimately show ?thesis using links(1) dist by (auto simp: hasho_bucket_ok_def)
qed

text \<open>The node of a stored key sits in the middle of its bucket; the list around it.\<close>

lemma hasho_node_place:
  assumes "hasho_rep h bs" "p \<in> hasho_nodes h"
  obtains i as cs c n where "i < hsize h" "bs i = as @ p # cs" "hasho_bucket_ok h i (as @ p # cs)"
    "hasho_hash h (hkey h p) = Some (int i)" "hasho_head h (int i) = Some c"
    "dseg (ho_node h) 0 c (as @ p # cs)" "distinct (as @ p # cs)"
    "ho_node h p = Some n" "hasho_key_at h n = hkey h p"
proof -
  obtain i where i: "i < hsize h" "p \<in> set (bs i)" "hasho_hash h (hkey h p) = Some (int i)"
    using hasho_node_bucket [OF assms] .
  from split_list [OF i(2)] obtain as cs where bi: "bs i = as @ p # cs" by blast
  from assms(1) i(1) have b: "hasho_bucket_ok h i (bs i)" by (simp add: hasho_rep_def)
  then obtain c where c: "hasho_head h (int i) = Some c" "dseg (ho_node h) 0 c (bs i)"
    by (auto simp: hasho_bucket_ok_def)
  have dist: "distinct (bs i)" using b by (simp add: hasho_bucket_ok_def)
  obtain n where n: "ho_node h p = Some n" "offset_Key n = p + stHASHONODE_SIZE"
    using hasho_bucketD(2) [OF assms(1) i(1,2)] by (auto simp: hasho_node_ok_def)
  show thesis
    using that [OF i(1) bi b [unfolded bi] i(3) c(1) c(2) [unfolded bi] dist [unfolded bi] n(1)
        hasho_key_at_hkey [OF n(2)]] .
qed

lemma hasho_del_hit:
  assumes rep: "hasho_rep h bs" and p: "p \<in> hasho_nodes h"
  obtains h' bs' where "hasho_del h (hkey h p) = Some h'" "hasho_rep h' bs'"
    "hasho_nodes h' = hasho_nodes h - {p}" "hkey h' = hkey h" "hdata h' = hdata h"
    "klen h' = klen h" "dlen h' = dlen h" "memg_geom (ho_memg h') = memg_geom (ho_memg h)"
proof -
  have lay: "hasho_layout h" using rep by (simp add: hasho_rep_def)
  obtain i as cs c n where pl: "i < hsize h" "bs i = as @ p # cs"
    "hasho_bucket_ok h i (as @ p # cs)" "hasho_hash h (hkey h p) = Some (int i)"
    "hasho_head h (int i) = Some c" "dseg (ho_node h) 0 c (as @ p # cs)"
    "distinct (as @ p # cs)" "ho_node h p = Some n" "hasho_key_at h n = hkey h p"
    using hasho_node_place [OF rep p] .
  let ?v = "if as = [] then offset_next n else c"
  let ?u = "hasho_relinked h (dseg_cut (ho_node h) n as cs) i ?v"
  have unlink: "hasho_unlink_node h p = Some ?u"
    using pl by (intro hasho_unlink_chain) simp_all
  have lay': "hasho_layout ?u" using lay by simp
  then have wf: "memg_wf (ho_memg ?u)" by (simp add: hasho_layout_def)
  have off: "gi_offsetHeadRoom (ho_memg ?u) = stMEMGINFO_SIZE"
    using wf by (simp add: memg_wf_def)
  have "p + stMEMGINFO_SIZE \<in> memg_live (ho_memg ?u)" using p by (simp add: hasho_nodes_def)
  from memg_free_ok [OF wf this] obtain m where
    m: "memg_free (ho_memg ?u) (p + stMEMGINFO_SIZE) = Some (m, 0)" "memg_wf m"
      "memg_live m = memg_live (ho_memg ?u) - {p + stMEMGINFO_SIZE}"
      "memg_geom m = memg_geom (ho_memg ?u)" "gm_cell m = gm_cell (ho_memg ?u)"
    by blast
  let ?h' = "?u\<lparr>ho_memg := m\<rparr>"
  have del: "hasho_del h (hkey h p) = Some ?h'"
    using hasho_find_hit [OF rep p] unlink m(1) off by (simp add: hasho_del_def)
  have nodes: "hasho_nodes ?h' = hasho_nodes h - {p}"
    using m(3) by (auto simp: hasho_nodes_def)
  have keys: "hkey ?h' = hkey h" "hdata ?h' = hdata h" by (rule ext, simp)+
  have hash: "hasho_hash ?h' = hasho_hash h" by (rule ext) simp
  have head: "hasho_head ?h' j = hasho_head ?u j" for j
    using hasho_head_cells [OF m(4,5)] by simp
  let ?bs = "bs(i := as @ cs)"
  have cut: "hasho_bucket_ok ?h' i (as @ cs)"
    by (rule hasho_bucket_cut [OF pl(3,8)]) (simp_all add: head pl(5) nodes keys hash)
  have "hasho_bucket_ok ?h' j (?bs j)" if j: "j < hsize h" for j
  proof (cases "j = i")
    case False
    with rep j have bj: "hasho_bucket_ok h j (bs j)" by (simp add: hasho_rep_def)
    have out: "r \<noteq> p \<and> r \<notin> set as \<and> r \<notin> set cs" if "r \<in> set (bs j)" for r
      using that hasho_buckets_disjoint [OF rep j pl(1) False] pl(2) by auto
    have "hasho_bucket_ok ?h' j (bs j)"
      using hasho_bucketD(1) [OF rep j] out False
      by (intro hasho_bucket_cong [OF bj]) (simp_all add: head nodes keys hash dseg_cut_other)
    then show ?thesis using False by simp
  qed (use cut in simp)
  moreover have "hasho_nodes ?h' \<subseteq> (\<Union>j < hsize h. set (?bs j))"
  proof
    fix x assume "x \<in> hasho_nodes ?h'"
    then have x: "x \<in> hasho_nodes h" "x \<noteq> p" using nodes by auto
    obtain j where j: "j < hsize h" "x \<in> set (bs j)" using hasho_node_bucket [OF rep x(1)] .
    then have "x \<in> set (?bs j)" using x(2) pl(2) by (cases "j = i") auto
    with j(1) show "x \<in> (\<Union>j < hsize h. set (?bs j))" by blast
  qed
  moreover have "inj_on (hkey ?h') (hasho_nodes ?h')"
    unfolding nodes keys using rep by (auto simp: hasho_rep_def intro: inj_on_subset)
  moreover have "hasho_layout ?h'" by (rule hasho_layout_geom [OF lay' m(2,4)])
  moreover have "hash_total ?h'" using rep hash by (simp add: hash_total_def hasho_rep_def)
  ultimately have "hasho_rep ?h' ?bs" by (simp add: hasho_rep_def)
  then show thesis using that [OF del _ nodes keys] m(4) by simp
qed

section \<open>The data of a node\<close>

definition hdata_at :: "hasho \<Rightarrow> offset \<Rightarrow> offset" where
  "hdata_at h p = p + stHASHONODE_SIZE + int (klen h)"

lemma hasho_data_node:
  assumes "hasho_wf h" "p \<in> hasho_nodes h"
  shows "hasho_data_at h p = Some (hdata_at h p)"
proof -
  obtain bs where rep: "hasho_rep h bs" using assms(1) by (auto simp: hasho_wf_def)
  obtain i where i: "i < hsize h" "p \<in> set (bs i)" using hasho_node_bucket [OF rep assms(2)] by metis
  show ?thesis
    using hasho_bucketD(2) [OF rep i] by (auto simp: hasho_node_ok_def hasho_data_at_def hdata_at_def)
qed

lemma hdata_at_inj: "hdata_at h p = hdata_at h q \<Longrightarrow> p = q"
  by (simp add: hdata_at_def)

end
