(* ===== verification/Table.thy ===== *)
theory Table
  imports Prelude
begin

text \<open>
  The interface of the two hash tables of the library (\<open>hasho.c\<close>, shared between processes;
  \<open>hashg.c\<close>, in the heap of one process). A client finds, adds and deletes; \<open>view\<close> is the
  finite map the table stands for, \<open>cap\<close> its limit and \<open>room\<close> tells whether an insertion can
  get a node. An insertion answers whether it took place: it is refused when the key is
  present or when there is no room.
\<close>

section \<open>Sequences of calls\<close>

datatype ('k, 'v) table_cmd = CAdd 'k 'v | CDel 'k | CFind 'k

datatype 'v table_reply = RAdd bool | RDel | RFind "'v option"

fun cmd_key :: "('k, 'v) table_cmd \<Rightarrow> 'k" where
  "cmd_key (CAdd k v) = k"
| "cmd_key (CDel k) = k"
| "cmd_key (CFind k) = k"

text \<open>The calls on an implementation, one after the other.\<close>

fun table_step ::
  "('s \<Rightarrow> 'k \<Rightarrow> 'v option option) \<Rightarrow> ('s \<Rightarrow> 'k \<Rightarrow> 'v \<Rightarrow> ('s \<times> bool) option) \<Rightarrow>
   ('s \<Rightarrow> 'k \<Rightarrow> 's option) \<Rightarrow> 's \<Rightarrow> ('k, 'v) table_cmd \<Rightarrow> ('s \<times> 'v table_reply) option" where
  "table_step look add del s (CAdd k v) = do { (s', b) \<leftarrow> add s k v; Some (s', RAdd b) }"
| "table_step look add del s (CDel k) = do { s' \<leftarrow> del s k; Some (s', RDel) }"
| "table_step look add del s (CFind k) = do { r \<leftarrow> look s k; Some (s, RFind r) }"

primrec table_run ::
  "('s \<Rightarrow> ('k, 'v) table_cmd \<Rightarrow> ('s \<times> 'v table_reply) option) \<Rightarrow> 's \<Rightarrow> ('k, 'v) table_cmd list \<Rightarrow>
   ('s \<times> 'v table_reply list) option" where
  "table_run step s [] = Some (s, [])"
| "table_run step s (c # cs) = do {
     (s', r) \<leftarrow> step s c;
     (s'', rs) \<leftarrow> table_run step s' cs;
     Some (s'', r # rs)
   }"

text \<open>The same calls on a map bounded by \<open>cap\<close>.\<close>

fun spec_step :: "nat \<Rightarrow> ('k \<rightharpoonup> 'v) \<Rightarrow> ('k, 'v) table_cmd \<Rightarrow> ('k \<rightharpoonup> 'v) \<times> 'v table_reply" where
  "spec_step cap m (CAdd k v) =
     (if m k = None \<and> card (dom m) < cap then (m(k \<mapsto> v), RAdd True) else (m, RAdd False))"
| "spec_step cap m (CDel k) = (m(k := None), RDel)"
| "spec_step cap m (CFind k) = (m, RFind (m k))"

primrec spec_run ::
  "nat \<Rightarrow> ('k \<rightharpoonup> 'v) \<Rightarrow> ('k, 'v) table_cmd list \<Rightarrow> ('k \<rightharpoonup> 'v) \<times> 'v table_reply list" where
  "spec_run cap m [] = (m, [])"
| "spec_run cap m (c # cs) =
     (let (m', r) = spec_step cap m c; (m'', rs) = spec_run cap m' cs in (m'', r # rs))"

section \<open>The contract\<close>

locale bounded_table =
  fixes inv :: "'s \<Rightarrow> bool"
    and same :: "'s \<Rightarrow> 's \<Rightarrow> bool"
    and cmd_ok :: "'s \<Rightarrow> ('k, 'v) table_cmd \<Rightarrow> bool"
    and view :: "'s \<Rightarrow> 'k \<rightharpoonup> 'v"
    and cap :: "'s \<Rightarrow> nat"
    and room :: "'s \<Rightarrow> bool"
    and look :: "'s \<Rightarrow> 'k \<Rightarrow> 'v option option"
    and add :: "'s \<Rightarrow> 'k \<Rightarrow> 'v \<Rightarrow> ('s \<times> bool) option"
    and del :: "'s \<Rightarrow> 'k \<Rightarrow> 's option"
  assumes same_cmd_ok: "same s s' \<Longrightarrow> cmd_ok s' = cmd_ok s"
    and same_cap: "same s s' \<Longrightarrow> cap s' = cap s"
    and finite_view: "inv s \<Longrightarrow> finite (dom (view s))"
    and room_cap: "inv s \<Longrightarrow> room s \<Longrightarrow> card (dom (view s)) < cap s"
    and find_view: "inv s \<Longrightarrow> cmd_ok s (CFind k) \<Longrightarrow> look s k = Some (view s k)"
    and add_new: "inv s \<Longrightarrow> cmd_ok s (CAdd k v) \<Longrightarrow> view s k = None \<Longrightarrow> room s \<Longrightarrow>
       \<exists>s'. add s k v = Some (s', True) \<and> inv s' \<and> same s s' \<and> view s' = (view s)(k \<mapsto> v)"
    and add_refused: "inv s \<Longrightarrow> cmd_ok s (CAdd k v) \<Longrightarrow> view s k \<noteq> None \<or> \<not> room s \<Longrightarrow>
       add s k v = Some (s, False)"
    and del_key: "inv s \<Longrightarrow> cmd_ok s (CDel k) \<Longrightarrow>
       \<exists>s'. del s k = Some s' \<and> inv s' \<and> same s s' \<and> view s' = (view s)(k := None)"
begin

text \<open>The limit is never exceeded by an insertion that was accepted.\<close>

lemma add_within_cap:
  assumes "inv s" "cmd_ok s (CAdd k v)" "add s k v = Some (s', True)"
  shows "card (dom (view s')) \<le> cap s' \<and> view s' = (view s)(k \<mapsto> v)"
proof (cases "view s k \<noteq> None \<or> \<not> room s")
  case True
  then show ?thesis using add_refused [OF assms(1,2)] assms(3) by simp
next
  case False
  then have new: "view s k = None" "room s" by auto
  from add_new [OF assms(1,2) new] assms(3)
  have s': "same s s'" "view s' = (view s)(k \<mapsto> v)" by auto
  have "card (insert k (dom (view s))) \<le> Suc (card (dom (view s)))"
    using finite_view [OF assms(1)] by (simp add: card_insert_if)
  also have "\<dots> \<le> cap s" using room_cap [OF assms(1) new(2)] by simp
  finally show ?thesis using s' same_cap by simp
qed

text \<open>An insertion followed by a deletion of the same key.\<close>

lemma add_del:
  assumes "inv s" "cmd_ok s (CAdd k v)" "cmd_ok s (CDel k)" "view s k = None" "room s"
  shows "\<exists>s1 s2. add s k v = Some (s1, True) \<and> del s1 k = Some s2 \<and> inv s2 \<and> view s2 = view s"
proof -
  obtain s1 where 1: "add s k v = Some (s1, True)" "inv s1" "same s s1" "view s1 = (view s)(k \<mapsto> v)"
    using add_new [OF assms(1,2,4,5)] by blast
  then have "cmd_ok s1 (CDel k)" using assms(3) same_cmd_ok by simp
  from del_key [OF 1(2) this] obtain s2 where
    2: "del s1 k = Some s2" "inv s2" "view s2 = (view s1)(k := None)" by blast
  have "view s2 = view s" using 1(4) 2(3) assms(4) by (simp add: fun_upd_idem)
  with 1 2 show ?thesis by blast
qed

end

text \<open>The tables whose only reason to refuse a new key is their limit.\<close>

locale exact_table = bounded_table +
  assumes same_trans: "same s s' \<Longrightarrow> same s' s'' \<Longrightarrow> same s s''"
    and same_refl: "same s s"
    and room_iff: "inv s \<Longrightarrow> room s \<longleftrightarrow> card (dom (view s)) < cap s"
begin

lemma step_refines:
  assumes "inv s" "cmd_ok s c"
  shows "\<exists>s'. table_step look add del s c = Some (s', snd (spec_step (cap s) (view s) c)) \<and>
           inv s' \<and> same s s' \<and> view s' = fst (spec_step (cap s) (view s) c)"
proof (cases c)
  case (CAdd k v)
  show ?thesis
  proof (cases "view s k = None \<and> room s")
    case True
    then have new: "view s k = None" "room s" by simp_all
    from add_new [OF assms(1) assms(2) [unfolded CAdd] new] obtain s' where
      s': "add s k v = Some (s', True)" "inv s'" "same s s'" "view s' = (view s)(k \<mapsto> v)"
      by blast
    then show ?thesis using True CAdd room_iff [OF assms(1)] by simp
  next
    case False
    then have "add s k v = Some (s, False)" using add_refused assms CAdd by auto
    then show ?thesis using False CAdd assms(1) room_iff [OF assms(1)] same_refl by auto
  qed
next
  case (CDel k)
  with del_key [OF assms(1), of k] assms(2) obtain s' where
    "del s k = Some s'" "inv s'" "same s s'" "view s' = (view s)(k := None)" by blast
  then show ?thesis using CDel by simp
next
  case (CFind k)
  then show ?thesis using find_view [OF assms(1)] assms same_refl by simp
qed

text \<open>Every sequence of calls answers as the bounded map does.\<close>

lemma run_refines:
  assumes "inv s" "\<And>c. c \<in> set cs \<Longrightarrow> cmd_ok s c"
  shows "\<exists>s'. table_run (table_step look add del) s cs =
             Some (s', snd (spec_run (cap s) (view s) cs)) \<and>
           inv s' \<and> same s s' \<and> view s' = fst (spec_run (cap s) (view s) cs)"
  using assms
proof (induction cs arbitrary: s)
  case Nil
  then show ?case using same_refl by simp
next
  case (Cons c cs)
  obtain s1 where 1: "table_step look add del s c = Some (s1, snd (spec_step (cap s) (view s) c))"
    "inv s1" "same s s1" "view s1 = fst (spec_step (cap s) (view s) c)"
    using step_refines [OF Cons.prems(1)] Cons.prems(2) [of c] by auto
  have "\<And>c. c \<in> set cs \<Longrightarrow> cmd_ok s1 c" using Cons.prems(2) same_cmd_ok [OF 1(3)] by simp
  from Cons.IH [OF 1(2) this] obtain s2 where
    2: "table_run (table_step look add del) s1 cs = Some (s2, snd (spec_run (cap s1) (view s1) cs))"
    "inv s2" "same s1 s2" "view s2 = fst (spec_run (cap s1) (view s1) cs)" by blast
  from 1 2 same_cap [OF 1(3)] same_trans [OF 1(3) 2(3)] show ?case
    by (simp add: case_prod_unfold Let_def)
qed

end

end
