(* ===== verification/HashoTable.thy ===== *)
theory HashoTable
  imports HashoProps Table
begin

text \<open>
  The offset hash table as a bounded map: \<open>hasho_view\<close> reads the table through
  \<open>hasho_find\<close>; insertion, deletion, initialisation, reset and the occupation count are stated
  over it, and the table is an instance of the contract \<open>exact_table\<close>.
\<close>

section \<open>The map the table stands for\<close>

definition hasho_view :: "hasho \<Rightarrow> u8 list \<rightharpoonup> u8 list" where
  "hasho_view h k =
     (if length k = klen h
      then (case hasho_find h k of Some (Some p) \<Rightarrow> Some (hdata h p) | _ \<Rightarrow> None)
      else None)"

text \<open>The calls as the client of a table sees them: what a lookup reads through the node it
  gets, whether an insertion gave a node.\<close>

definition hasho_lookup :: "hasho \<Rightarrow> u8 list \<Rightarrow> u8 list option option" where
  "hasho_lookup h k = do { r \<leftarrow> hasho_find h k; Some (map_option (hdata h) r) }"

definition hasho_insert :: "int \<Rightarrow> hasho \<Rightarrow> u8 list \<Rightarrow> u8 list \<Rightarrow> (hasho \<times> bool) option" where
  "hasho_insert now h k d = do { (h', r) \<leftarrow> hasho_add now h k d; Some (h', r \<noteq> None) }"

definition hasho_same :: "hasho \<Rightarrow> hasho \<Rightarrow> bool" where
  "hasho_same h h' \<longleftrightarrow> klen h' = klen h \<and> dlen h' = dlen h \<and> hasho_cap h' = hasho_cap h"

definition hasho_cmd_ok :: "hasho \<Rightarrow> (u8 list, u8 list) table_cmd \<Rightarrow> bool" where
  "hasho_cmd_ok h c \<longleftrightarrow> length (cmd_key c) = klen h \<and>
     (case c of CAdd k d \<Rightarrow> length d = dlen h | _ \<Rightarrow> True)"

definition hasho_room :: "hasho \<Rightarrow> bool" where
  "hasho_room h \<longleftrightarrow> card (hasho_nodes h) \<noteq> hasho_cap h"

lemma hasho_view_hit:
  "hasho_rep h bs \<Longrightarrow> p \<in> hasho_nodes h \<Longrightarrow> hasho_view h (hkey h p) = Some (hdata h p)"
  by (simp add: hasho_view_def hasho_find_hit)

lemma hasho_view_miss:
  "hasho_rep h bs \<Longrightarrow> k \<notin> hkey h ` hasho_nodes h \<Longrightarrow> hasho_view h k = None"
  by (simp add: hasho_view_def hasho_find_miss)

lemma hasho_view_dom: "hasho_rep h bs \<Longrightarrow> dom (hasho_view h) = hkey h ` hasho_nodes h"
  using hasho_view_hit [of h bs] hasho_view_miss [of h bs] by fastforce

lemma hasho_view_None_iff:
  "hasho_rep h bs \<Longrightarrow> hasho_view h k = None \<longleftrightarrow> k \<notin> hkey h ` hasho_nodes h"
  using hasho_view_dom [of h bs] domIff [of k "hasho_view h"] by simp

lemma hasho_finite_nodes:
  assumes "hasho_rep h bs"
  shows "finite (hasho_nodes h)"
proof (rule finite_subset)
  show "hasho_nodes h \<subseteq> (\<Union>i < hsize h. set (bs i))" using assms by (simp add: hasho_rep_def)
qed simp

lemma hasho_card_dom: "hasho_rep h bs \<Longrightarrow> card (dom (hasho_view h)) = card (hasho_nodes h)"
  using hasho_view_dom [of h bs] card_image [of "hkey h" "hasho_nodes h"]
  by (simp add: hasho_rep_def)

lemma hasho_card_cap:
  assumes "hasho_rep h bs"
  shows "card (hasho_nodes h) \<le> hasho_cap h"
proof -
  let ?m = "ho_memg h"
  have wf: "memg_wf ?m" using assms by (simp add: hasho_rep_def hasho_layout_def)
  have "(\<lambda>p. p + stMEMGINFO_SIZE) ` hasho_nodes h \<subseteq> memg_cells ?m"
    using memg_live_subset [OF wf] by (auto simp: hasho_nodes_def)
  then have "card ((\<lambda>p. p + stMEMGINFO_SIZE) ` hasho_nodes h) \<le> card (memg_cells ?m)"
    by (intro card_mono) simp_all
  then show ?thesis by (simp add: card_image inj_on_def card_memg_cells hasho_cap_def)
qed

text \<open>The view of the table after a push and after a cut.\<close>

lemma hasho_view_push:
  assumes "hasho_rep h bs" "hasho_rep h' bs'" "hasho_nodes h' = insert p (hasho_nodes h)"
    "k \<notin> hkey h ` hasho_nodes h" "hkey h' p = k" "hdata h' p = d"
    "\<And>r. r \<in> hasho_nodes h \<Longrightarrow> hkey h' r = hkey h r \<and> hdata h' r = hdata h r"
  shows "hasho_view h' = (hasho_view h)(k \<mapsto> d)"
proof
  fix x
  consider "x = k" | r where "x \<noteq> k" "r \<in> hasho_nodes h" "x = hkey h r"
    | "x \<noteq> k" "x \<notin> hkey h ` hasho_nodes h" by blast
  then show "hasho_view h' x = ((hasho_view h)(k \<mapsto> d)) x"
  proof cases
    case 1
    then show ?thesis using hasho_view_hit [OF assms(2), of p] assms(3,5,6) by simp
  next
    case (2 r)
    then show ?thesis
      using hasho_view_hit [OF assms(2), of r] hasho_view_hit [OF assms(1), of r] assms(3,7) by simp
  next
    case 3
    have "x \<notin> hkey h' ` hasho_nodes h'" using 3 assms(3,5,7) by auto
    with hasho_view_miss [OF assms(2)] hasho_view_miss [OF assms(1)] 3 show ?thesis by simp
  qed
qed

lemma hasho_view_cut:
  assumes "hasho_rep h bs" "hasho_rep h' bs'" "hasho_nodes h' = hasho_nodes h - {p}"
    "p \<in> hasho_nodes h" "hkey h' = hkey h" "hdata h' = hdata h"
  shows "hasho_view h' = (hasho_view h)(hkey h p := None)"
proof
  fix x
  have inj: "inj_on (hkey h) (hasho_nodes h)" using assms(1) by (simp add: hasho_rep_def)
  consider "x = hkey h p" | r where "x \<noteq> hkey h p" "r \<in> hasho_nodes h" "x = hkey h r"
    | "x \<notin> hkey h ` hasho_nodes h" by blast
  then show "hasho_view h' x = ((hasho_view h)(hkey h p := None)) x"
  proof cases
    case 1
    have "hkey h p \<notin> hkey h' ` hasho_nodes h'"
      unfolding assms(3,5) using inj assms(4) by (auto simp: inj_on_def)
    with hasho_view_miss [OF assms(2)] 1 show ?thesis by simp
  next
    case (2 r)
    then have "r \<in> hasho_nodes h'" using assms(3) by auto
    then have "hasho_view h' x = Some (hdata h r)"
      using hasho_view_hit [OF assms(2), of r] 2(3) assms(5,6) by simp
    then show ?thesis using hasho_view_hit [OF assms(1) 2(2)] 2(1,3) by simp
  next
    case 3
    have "x \<notin> hkey h' ` hasho_nodes h'" using 3 assms(3,5) by auto
    with hasho_view_miss [OF assms(2)] hasho_view_miss [OF assms(1)] 3 show ?thesis by simp
  qed
qed

lemma hasho_cap_geom:
  "memg_geom (ho_memg h') = memg_geom (ho_memg h) \<Longrightarrow> hasho_cap h' = hasho_cap h"
  by (simp add: hasho_cap_def memg_geom_def)

section \<open>The table is a bounded map\<close>

interpretation hasho_table: exact_table hasho_wf hasho_same hasho_cmd_ok hasho_view hasho_cap
  hasho_room hasho_lookup "hasho_insert now" hasho_del for now
proof unfold_locales
  fix h h' h'' :: hasho
  show "hasho_same h h' \<Longrightarrow> hasho_cmd_ok h' = hasho_cmd_ok h"
    by (rule ext) (simp add: hasho_same_def hasho_cmd_ok_def split: table_cmd.split)
  show "hasho_same h h' \<Longrightarrow> hasho_cap h' = hasho_cap h" by (simp add: hasho_same_def)
  show "hasho_same h h' \<Longrightarrow> hasho_same h' h'' \<Longrightarrow> hasho_same h h''"
    by (simp add: hasho_same_def)
  show "hasho_same h h" by (simp add: hasho_same_def)
next
  fix h k d
  assume wf: "hasho_wf h"
  then obtain bs where rep: "hasho_rep h bs" by (auto simp: hasho_wf_def)
  show "finite (dom (hasho_view h))" using rep by (simp add: hasho_view_dom hasho_finite_nodes)
  show room: "hasho_room h \<longleftrightarrow> card (dom (hasho_view h)) < hasho_cap h"
    using hasho_card_cap [OF rep] hasho_card_dom [OF rep] by (auto simp: hasho_room_def)
  show "hasho_room h \<Longrightarrow> card (dom (hasho_view h)) < hasho_cap h" using room by simp
  show "hasho_lookup h k = Some (hasho_view h k)" if "hasho_cmd_ok h (CFind k)"
  proof (cases "k \<in> hkey h ` hasho_nodes h")
    case True
    then show ?thesis
      using hasho_view_hit [OF rep] hasho_find_hit [OF rep] by (auto simp: hasho_lookup_def)
  next
    case False
    then show ?thesis
      using hasho_find_miss [OF rep] hasho_view_miss [OF rep] that
      by (simp add: hasho_lookup_def hasho_cmd_ok_def)
  qed
  show "\<exists>h'. hasho_insert now h k d = Some (h', True) \<and> hasho_wf h' \<and> hasho_same h h' \<and>
      hasho_view h' = (hasho_view h)(k \<mapsto> d)"
    if ok: "hasho_cmd_ok h (CAdd k d)" and new: "hasho_view h k = None" and "hasho_room h"
  proof -
    have k: "k \<notin> hkey h ` hasho_nodes h" "length k = klen h" "length d = dlen h"
      using ok new hasho_view_None_iff [OF rep] by (simp_all add: hasho_cmd_ok_def)
    have free: "card (hasho_nodes h) \<noteq> hasho_cap h" using that(3) by (simp add: hasho_room_def)
    obtain h' bs' p where a: "hasho_add now h k d = Some (h', Some p)" "hasho_rep h' bs'"
      "hasho_nodes h' = insert p (hasho_nodes h)" "p \<notin> hasho_nodes h"
      "hkey h' p = k" "hdata h' p = d" "klen h' = klen h" "dlen h' = dlen h"
      "\<And>r. r \<in> hasho_nodes h \<Longrightarrow> hkey h' r = hkey h r \<and> hdata h' r = hdata h r"
      "memg_geom (ho_memg h') = memg_geom (ho_memg h)"
      by (rule hasho_add_new [OF rep k(2,3,1) free, of now]) (rule that)
    have "hasho_view h' = (hasho_view h)(k \<mapsto> d)"
      using hasho_view_push [OF rep a(2,3) k(1) a(5,6,9)] by simp
    with a(1,2,7,8) hasho_cap_geom [OF a(10)] show ?thesis
      by (auto simp: hasho_insert_def hasho_wf_def hasho_same_def)
  qed
  show "hasho_insert now h k d = Some (h, False)"
    if ok: "hasho_cmd_ok h (CAdd k d)" and refuse: "hasho_view h k \<noteq> None \<or> \<not> hasho_room h"
  proof (cases "k \<in> hkey h ` hasho_nodes h")
    case True
    then show ?thesis using hasho_add_dup [OF rep] by (simp add: hasho_insert_def)
  next
    case False
    then have "card (hasho_nodes h) = hasho_cap h"
      using refuse hasho_view_None_iff [OF rep] by (simp add: hasho_room_def)
    with hasho_add_full [OF rep _ False] ok show ?thesis
      by (simp add: hasho_insert_def hasho_cmd_ok_def)
  qed
  show "\<exists>h'. hasho_del h k = Some h' \<and> hasho_wf h' \<and> hasho_same h h' \<and>
      hasho_view h' = (hasho_view h)(k := None)" if ok: "hasho_cmd_ok h (CDel k)"
  proof (cases "k \<in> hkey h ` hasho_nodes h")
    case False
    then have "hasho_del h k = Some h"
      using hasho_del_miss [OF rep _ False] ok by (simp add: hasho_cmd_ok_def)
    then show ?thesis
      using wf hasho_view_miss [OF rep False] by (simp add: hasho_same_def fun_upd_idem)
  next
    case True
    then obtain p where p: "p \<in> hasho_nodes h" "k = hkey h p" by blast
    obtain h' bs' where d: "hasho_del h (hkey h p) = Some h'" "hasho_rep h' bs'"
      "hasho_nodes h' = hasho_nodes h - {p}" "hkey h' = hkey h" "hdata h' = hdata h"
      "klen h' = klen h" "dlen h' = dlen h" "memg_geom (ho_memg h') = memg_geom (ho_memg h)"
      using hasho_del_hit [OF rep p(1)] .
    have "hasho_view h' = (hasho_view h)(k := None)"
      using hasho_view_cut [OF rep d(2,3) p(1) d(4,5)] p(2) by simp
    with d(1,2,6,7) hasho_cap_geom [OF d(8)] p(2) show ?thesis
      by (auto simp: hasho_wf_def hasho_same_def)
  qed
qed

section \<open>Initialisation\<close>

lemma uint_word_of_int_small: "0 \<le> x \<Longrightarrow> x < 2 ^ LENGTH('a) \<Longrightarrow> uint (word_of_int x :: 'a::len word) = x"
  by (simp add: uint_word_of_int)

text \<open>The default hash function stays inside the bucket array.\<close>

lemma hasho_func_default_range:
  assumes "ho_uiHashSize info \<noteq> 0"
  shows "\<exists>i < unat (ho_uiHashSize info). hasho_func_default info pb = Some (int i)"
proof -
  have "\<exists>w. hasho_func_default info pb = Some (uint (w mod ho_uiHashSize info))"
    using assms by (simp add: hasho_func_default_def Let_def case_prod_unfold) (rule exI, rule refl)
  then obtain w where "hasho_func_default info pb = Some (uint (w mod ho_uiHashSize info))" ..
  moreover have "unat (w mod ho_uiHashSize info) < unat (ho_uiHashSize info)"
    using assms by (simp add: unat_mod_distrib unat_gt_0)
  ultimately show ?thesis by (intro exI [of _ "unat (w mod ho_uiHashSize info)"]) simp
qed

text \<open>A pool whose nodes are all free and whose head room is zeroed is the empty table.\<close>

lemma hasho_empty_rep:
  assumes "hasho_layout h" "hash_total h" "memg_live (ho_memg h) = {}"
    "\<And>i. i < hsize h \<Longrightarrow> hasho_head h (int i) = Some 0"
  shows "hasho_rep h (\<lambda>_. [])"
  using assms by (simp add: hasho_rep_def hasho_bucket_ok_def hasho_nodes_def)

lemma hasho_empty_view:
  assumes "hasho_rep h bs" "memg_live (ho_memg h) = {}"
  shows "hasho_view h = Map.empty"
  by (rule ext) (rule hasho_view_miss [OF assms(1)], simp add: hasho_nodes_def assms(2))

text \<open>Where \<open>hasho_init\<close> gets a fresh block.\<close>

definition memg_os_fresh :: "memg_os \<Rightarrow> u32 \<Rightarrow> bool" where
  "memg_os_fresh os uiShmKey \<longleftrightarrow>
     (if uiShmKey = 0 then os_malloc os else os_shmget os = ShmCreated \<and> os_shmat os)"

definition hasho_made ::
  "(offset \<rightharpoonup> hashonode) \<Rightarrow> (offset \<Rightarrow> u8) \<Rightarrow> u32 \<Rightarrow> u16 \<Rightarrow> u16 \<Rightarrow> u32 \<Rightarrow>
   (hashoinfo \<Rightarrow> u8 list \<Rightarrow> offset option) \<Rightarrow> hasho" where
  "hasho_made nodes0 mem0 uiShmKey usKeyLen usDataLen uiHashSize f =
     \<lparr>ho_offset_psthashnode = stHASHOINFO_SIZE, ho_usKeyLen = usKeyLen, ho_usDataLen = usDataLen,
      ho_uiHashSize = uiHashSize, ho_offset_memginfo = - stMEMGINFO_SIZE, ho_func = f,
      ho_memg = memg_fresh (if uiShmKey = 0 then MEMG_MAIN_MEM else MEMG_SHARED_MEM) uiShmKey
        (word_of_int (stHASHOINFO_SIZE + uint uiHashSize * PTR_SIZE))
        (word_of_int (stHASHONODE_SIZE + uint usKeyLen + uint usDataLen)) (uiHashSize * 5),
      ho_node = nodes0, ho_mem = mem0\<rparr>"

lemma hasho_init_made:
  assumes "memg_os_fresh os uiShmKey" "usSortKeyLen \<le> usKeyLen"
  shows "hasho_init os nodes0 mem0 uiShmKey usKeyLen usSortKeyLen usDataLen uiHashSize func =
    Some (Some (hasho_made nodes0 mem0 uiShmKey usKeyLen usDataLen uiHashSize
      (case func of None \<Rightarrow> hasho_func_default | Some f \<Rightarrow> f)))"
  using assms
  by (simp add: hasho_init_def memg_init_def memg_os_fresh_def hasho_made_def memg_fresh_def
      MEMG_MAIN_MEM_def MEMG_SHARED_MEM_def Let_def split: if_splits)

lemma hasho_made_rep:
  assumes "stHASHOINFO_SIZE + uint uiHashSize * PTR_SIZE < 2 ^ 32"
    "h = hasho_made nodes0 mem0 uiShmKey usKeyLen usDataLen uiHashSize f" "hash_total h"
  shows "hasho_rep h (\<lambda>_. [])" "memg_live (ho_memg h) = {}" "hasho_cap h = unat (uiHashSize * 5)"
proof -
  have hr: "uint (word_of_int (stHASHOINFO_SIZE + uint uiHashSize * PTR_SIZE) :: u32) =
      stHASHOINFO_SIZE + uint uiHashSize * PTR_SIZE"
    using assms(1) by (intro uint_word_of_int_small) (simp_all add: hasho_const_defs)
  have "uint usKeyLen < 2 ^ 16" "uint usDataLen < 2 ^ 16"
    using uint_lt2p [of usKeyLen] uint_lt2p [of usDataLen] by simp_all
  then have body: "uint (word_of_int (stHASHONODE_SIZE + uint usKeyLen + uint usDataLen) :: u32) =
      stHASHONODE_SIZE + uint usKeyLen + uint usDataLen"
    by (intro uint_word_of_int_small) (simp_all add: hasho_const_defs)
  show live: "memg_live (ho_memg h) = {}"
    unfolding assms(2) using memg_fresh_wf by (simp add: hasho_made_def)
  have "hasho_layout h"
    unfolding hasho_layout_def assms(2) using memg_fresh_wf hr body
    by (simp add: hasho_made_def hsize_def hasho_node_size_def)
  moreover have "hasho_head h (int i) = Some 0" if "i < hsize h" for i
  proof -
    have "i < unat uiHashSize" using that unfolding assms(2) by (simp add: hsize_def hasho_made_def)
    then have "int i < uint uiHashSize" by (simp only: uint_nat of_nat_less_iff)
    with hr show ?thesis
      unfolding assms(2)
      by (simp add: hasho_head_def hasho_slot_def hasho_made_def
          zero_cells_def hasho_const_defs stMEMGINFO_SIZE_def)
  qed
  ultimately show "hasho_rep h (\<lambda>_. [])" using assms(3) live by (intro hasho_empty_rep)
  show "hasho_cap h = unat (uiHashSize * 5)"
    unfolding assms(2) by (simp add: hasho_cap_def hasho_made_def)
qed

section \<open>Reset\<close>

lemma hasho_reset_rep:
  assumes "hasho_rep h bs"
  shows "hasho_rep (hasho_reset h) (\<lambda>_. [])" "memg_live (ho_memg (hasho_reset h)) = {}"
    "hasho_same h (hasho_reset h)"
proof -
  let ?h = "hasho_reset h"
  let ?m = "memg_reset (ho_memg h) stHASHOINFO_SIZE"
  have lay: "hasho_layout h" using assms by (simp add: hasho_rep_def)
  have m: "memg_wf ?m" "memg_live ?m = {}"
    using lay memg_reset_wf by (simp_all add: hasho_layout_def)
  have geom: "memg_geom ?m = memg_geom (ho_memg h)"
    by (simp add: memg_reset_def memg_geom_def)
  show live: "memg_live (ho_memg ?h) = {}" using m(2) by (simp add: hasho_reset_def)
  show "hasho_same h ?h"
    using geom by (simp add: hasho_same_def hasho_reset_def hasho_cap_def memg_geom_def)
  have "hasho_head ?h (int i) = Some 0" if "i < hsize h" for i
    using lay that
    by (simp add: hasho_head_def hasho_slot_def hasho_reset_def memg_reset_def zero_cells_def
        hasho_layout_def memg_wf_def hasho_const_defs)
  moreover have "hash_total ?h"
    using assms by (simp add: hash_total_def hasho_rep_def hasho_reset_def)
  moreover have "hasho_layout ?h"
    unfolding hasho_reset_def by (rule hasho_layout_geom [OF lay m(1) geom])
  ultimately show "hasho_rep ?h (\<lambda>_. [])"
    using live by (intro hasho_empty_rep) (simp_all add: hasho_reset_def)
qed

section \<open>The occupation count\<close>

declare hasho_count_chain.simps [code]

lemma hasho_count_chain_seg:
  "dseg (ho_node h) pv cur xs \<Longrightarrow> hasho_count_chain h cur tot = Some (tot + of_nat (length xs))"
proof (induction xs arbitrary: pv cur tot)
  case Nil
  then show ?case by (simp add: hasho_count_chain.simps)
next
  case (Cons x xs)
  then obtain n where n: "cur = x" "x \<noteq> 0" "ho_node h x = Some n"
    "dseg (ho_node h) x (offset_next n) xs" by auto
  then show ?case
    using Cons.IH [OF n(4), of "tot + 1"] by (simp add: hasho_count_chain.simps [of h x] ac_simps)
qed

text \<open>The buckets from \<open>i\<close> on that hold a node, and the nodes they hold.\<close>

lemma hasho_count_buckets_rep:
  assumes "hasho_rep h bs" "i + n = hsize h"
  shows "hasho_count_buckets h i n occ tot =
    Some (occ + of_nat (card {j. i \<le> j \<and> j < hsize h \<and> bs j \<noteq> []}),
          tot + of_nat (\<Sum>j \<in> {i..<hsize h}. length (bs j)))"
  using assms(2)
proof (induction n arbitrary: i occ tot)
  case 0
  then have "{j. i \<le> j \<and> j < hsize h \<and> bs j \<noteq> []} = {}" by auto
  with 0 show ?case by (simp del: Collect_empty_eq)
next
  case (Suc n)
  let ?S = "\<lambda>i. {j. i \<le> j \<and> j < hsize h \<and> bs j \<noteq> []}"
  have i: "i < hsize h" using Suc.prems by simp
  have fin: "finite (?S (Suc i))" by simp
  have split: "?S i = (if bs i = [] then ?S (Suc i) else insert i (?S (Suc i)))"
    using i by (auto simp: Suc_le_eq le_less)
  have sum: "(\<Sum>j \<in> {i..<hsize h}. length (bs j)) =
      length (bs i) + (\<Sum>j \<in> {Suc i..<hsize h}. length (bs j))"
    using i by (simp add: sum.atLeast_Suc_lessThan)
  have "hasho_bucket_ok h i (bs i)" using assms(1) i by (simp add: hasho_rep_def)
  then obtain c where c: "hasho_head h (int i) = Some c" "dseg (ho_node h) 0 c (bs i)"
    by (auto simp: hasho_bucket_ok_def)
  have IH: "hasho_count_buckets h (Suc i) n occ tot =
      Some (occ + of_nat (card (?S (Suc i))), tot + of_nat (\<Sum>j \<in> {Suc i..<hsize h}. length (bs j)))"
    for occ tot
    using Suc.prems by (intro Suc.IH) simp
  show ?case
  proof (cases "bs i = []")
    case True
    with c have "c = 0" by simp
    with True c(1) IH split sum show ?thesis by simp
  next
    case False
    then have c0: "c \<noteq> 0" using c(2) by (cases "bs i") auto
    have "card (?S i) = Suc (card (?S (Suc i)))"
      using False split fin by simp
    with c0 c(1) IH sum hasho_count_chain_seg [OF c(2)] show ?thesis by (simp add: ac_simps)
  qed
qed

text \<open>The returned count is the number of hash values that the stored keys take.\<close>

lemma hasho_occupied_set:
  assumes "hasho_rep h bs"
  shows "{j. j < hsize h \<and> bs j \<noteq> []} = {i. \<exists>k \<in> dom (hasho_view h). hasho_hash h k = Some (int i)}"
    (is "?L = ?R")
proof (intro equalityI subsetI)
  fix j assume "j \<in> ?L"
  then have "j < hsize h" "hd (bs j) \<in> set (bs j)" by auto
  from hasho_bucketD [OF assms this] hasho_view_dom [OF assms] show "j \<in> ?R" by auto
next
  fix j assume "j \<in> ?R"
  then obtain p where p: "p \<in> hasho_nodes h" "hasho_hash h (hkey h p) = Some (int j)"
    using hasho_view_dom [OF assms] by auto
  obtain i where "i < hsize h" "p \<in> set (bs i)" "hasho_hash h (hkey h p) = Some (int i)"
    using hasho_node_bucket [OF assms p(1)] .
  with p(2) show "j \<in> ?L" by auto
qed

lemma hasho_occupied_count:
  assumes "hasho_rep h bs" "ho_uiHashSize h \<noteq> 0"
  shows "hasho_get_occupied_node_count h =
    Some (of_nat (card {i. \<exists>k \<in> dom (hasho_view h). hasho_hash h k = Some (int i)}))"
  using hasho_count_buckets_rep [OF assms(1), of 0 "hsize h" 0 0] assms(2)
    hasho_occupied_set [OF assms(1)]
  by (simp add: hasho_get_occupied_node_count_def hsize_def)

section \<open>Properties\<close>

definition hasho_run ::
  "int \<Rightarrow> hasho \<Rightarrow> (u8 list, u8 list) table_cmd list \<Rightarrow> (hasho \<times> u8 list table_reply list) option" where
  "hasho_run now = table_run (table_step hasho_lookup (hasho_insert now) hasho_del)"

text \<open>The table of the witnesses: two buckets, two-byte keys, one byte of data, empty.\<close>

definition hasho_demo :: hasho where
  "hasho_demo = hasho_made Map.empty (\<lambda>_. 0) 0 2 1 2 hasho_func_default"

lemma hasho_default_total:
  "ho_uiHashSize h \<noteq> 0 \<Longrightarrow> ho_func h = hasho_func_default \<Longrightarrow> hash_total h"
  using hasho_func_default_range [of "hasho_info h"]
  by (simp add: hash_total_def hasho_hash_def hsize_def hasho_info_def hashoinfo.defs)

lemma hasho_demo_rep: "hasho_rep hasho_demo (\<lambda>_. [])"
  by (rule hasho_made_rep [OF _ hasho_demo_def])
     (simp_all add: hasho_const_defs hasho_default_total, simp_all add: hasho_demo_def hasho_made_def hasho_default_total)

lemma hasho_demo_wf: "hasho_wf hasho_demo"
  using hasho_demo_rep by (auto simp: hasho_wf_def)

lemma hasho_demo_sizes [simp]: "klen hasho_demo = 2" "dlen hasho_demo = 1" "hsize hasho_demo = 2"
  "hasho_cap hasho_demo = 10"
  by (simp_all add: klen_def dlen_def hsize_def hasho_cap_def hasho_demo_def hasho_made_def)

text \<open>C1: Any sequence of finds, additions and deletions with keys and data of the table's sizes
  returns, answers call by call exactly as a finite map bounded by the pool size does (an
  addition is refused just when the key is present or the table full), and leaves a well-formed
  table that stands for the map the sequence leaves.\<close>

theorem hasho_run_refines:
  assumes "hasho_wf h" "\<forall>c \<in> set cs. hasho_cmd_ok h c"
  shows "\<exists>h'. hasho_run now h cs = Some (h', snd (spec_run (hasho_cap h) (hasho_view h) cs)) \<and>
           hasho_wf h' \<and> hasho_view h' = fst (spec_run (hasho_cap h) (hasho_view h) cs)"
  using hasho_table.run_refines [of h cs now] assms unfolding hasho_run_def by blast

theorem hasho_run_refines_witness:
  "\<exists>h'. hasho_run 7 hasho_demo [CAdd [1, 2] [3], CAdd [1, 2] [4], CFind [1, 2], CDel [1, 2], CFind [1, 2]] =
     Some (h', [RAdd True, RAdd False, RFind (Some [3]), RDel, RFind None]) \<and> hasho_wf h'"
proof -
  have view: "hasho_view hasho_demo = Map.empty"
    by (rule ext) (rule hasho_view_miss [OF hasho_demo_rep],
        simp add: hasho_nodes_def hasho_demo_def hasho_made_def memg_fresh_wf)
  show ?thesis
    using hasho_run_refines [OF hasho_demo_wf, of "[CAdd [1, 2] [3], CAdd [1, 2] [4],
        CFind [1, 2], CDel [1, 2], CFind [1, 2]]" 7]
    by (auto simp: hasho_cmd_ok_def view)
qed

text \<open>On a well-formed table \<open>hasho_find\<close> returns; a node it gives is in use and holds the
  key, and when it gives none no node in use holds the key.\<close>

theorem hasho_find_correct:
  assumes "hasho_wf h" "length k = klen h"
  shows "\<exists>r. hasho_find h k = Some r \<and>
    (case r of None \<Rightarrow> (\<forall>p \<in> hasho_nodes h. hkey h p \<noteq> k)
     | Some p \<Rightarrow> p \<in> hasho_nodes h \<and> hkey h p = k)"
proof -
  obtain bs where rep: "hasho_rep h bs" using assms(1) by (auto simp: hasho_wf_def)
  show ?thesis
  proof (cases "k \<in> hkey h ` hasho_nodes h")
    case True
    then show ?thesis using hasho_find_hit [OF rep] by auto
  next
    case False
    then show ?thesis using hasho_find_miss [OF rep assms(2)] by auto
  qed
qed

theorem hasho_find_correct_witness: "\<exists>r. hasho_find hasho_demo [1, 2] = Some r"
  using hasho_find_correct [OF hasho_demo_wf, of "[1, 2]"] by auto

text \<open>A fresh table, in main memory or in a newly created segment, whose hash function is the
  default one or stays inside the bucket array, is well formed and empty and holds at most
  \<open>uiHashSize * 5\<close> entries, as long as the bucket array fits the 32-bit head room size.\<close>

theorem hasho_init_empty:
  assumes "memg_os_fresh os uiShmKey" "usSortKeyLen \<le> usKeyLen" "uiHashSize \<noteq> 0"
    "stHASHOINFO_SIZE + uint uiHashSize * PTR_SIZE < 2 ^ 32"
    "\<forall>f info k. func = Some f \<longrightarrow> (\<exists>i < unat uiHashSize. f info k = Some (int i))"
  shows "\<exists>h. hasho_init os nodes0 mem0 uiShmKey usKeyLen usSortKeyLen usDataLen uiHashSize func =
      Some (Some h) \<and> hasho_wf h \<and> hasho_view h = Map.empty \<and> hasho_cap h = unat (uiHashSize * 5) \<and>
    klen h = unat usKeyLen \<and> dlen h = unat usDataLen"
proof -
  let ?f = "case func of None \<Rightarrow> hasho_func_default | Some f \<Rightarrow> f"
  let ?h = "hasho_made nodes0 mem0 uiShmKey usKeyLen usDataLen uiHashSize ?f"
  have tot: "hash_total ?h"
  proof (cases func)
    case None
    then show ?thesis using assms(3) by (intro hasho_default_total) (simp_all add: hasho_made_def)
  next
    case (Some f)
    then show ?thesis
      using assms(5) by (simp add: hash_total_def hasho_hash_def hsize_def hasho_made_def)
  qed
  note rep = hasho_made_rep [OF assms(4) refl tot]
  have "hasho_wf ?h" using rep(1) by (auto simp: hasho_wf_def)
  moreover have "klen ?h = unat usKeyLen" "dlen ?h = unat usDataLen"
    by (simp_all add: klen_def dlen_def hasho_made_def)
  ultimately show ?thesis
    using hasho_init_made [OF assms(1,2)] hasho_empty_view [OF rep(1,2)] rep(3) by blast
qed

theorem hasho_init_empty_witness:
  "\<exists>h. hasho_init \<lparr>os_malloc = True, os_shmget = ShmOther, os_shmget_again = False,
        os_shmat = False, os_existing = memg_fresh 0 0 0 0 0\<rparr> Map.empty (\<lambda>_. 0) 0 4 0 8 16 None =
      Some (Some h) \<and> hasho_wf h \<and> hasho_view h = Map.empty \<and> hasho_cap h = 80"
  using hasho_init_empty [of "\<lparr>os_malloc = True, os_shmget = ShmOther, os_shmget_again = False,
        os_shmat = False, os_existing = memg_fresh 0 0 0 0 0\<rparr>" 0 0 4 16 None Map.empty "\<lambda>_. 0" 8]
  by (auto simp: memg_os_fresh_def hasho_const_defs)

text \<open>Resetting a well-formed table empties it and keeps its sizes, its limit and its
  well-formedness.\<close>

theorem hasho_reset_empties:
  assumes "hasho_wf h"
  shows "hasho_wf (hasho_reset h) \<and> hasho_view (hasho_reset h) = Map.empty \<and>
    hasho_same h (hasho_reset h)"
proof -
  obtain bs where "hasho_rep h bs" using assms by (auto simp: hasho_wf_def)
  note r = hasho_reset_rep [OF this]
  then show ?thesis using hasho_empty_view [OF r(1,2)] by (auto simp: hasho_wf_def)
qed

theorem hasho_reset_empties_witness: "hasho_view (hasho_reset hasho_demo) = Map.empty"
  using hasho_reset_empties [OF hasho_demo_wf] by simp

text \<open>The occupation count returns the number of distinct hash values among the stored keys.\<close>

theorem hasho_occupied_correct:
  assumes "hasho_wf h" "ho_uiHashSize h \<noteq> 0"
  shows "hasho_get_occupied_node_count h =
    Some (of_nat (card {i. \<exists>k \<in> dom (hasho_view h). hasho_hash h k = Some (int i)}))"
  using assms hasho_occupied_count by (auto simp: hasho_wf_def)

theorem hasho_occupied_correct_witness:
  "\<exists>c. hasho_get_occupied_node_count hasho_demo = Some c"
  using hasho_occupied_correct [OF hasho_demo_wf] by (auto simp: hasho_demo_def hasho_made_def)

section \<open>The table by address\<close>

text \<open>Where the data of a key is.\<close>

definition hasho_at :: "hasho \<Rightarrow> u8 list \<rightharpoonup> offset" where
  "hasho_at h k = (if length k = klen h
     then (case hasho_find h k of Some (Some p) \<Rightarrow> Some (hdata_at h p) | _ \<Rightarrow> None) else None)"

lemma hasho_at_node: "hasho_rep h bs \<Longrightarrow> p \<in> hasho_nodes h \<Longrightarrow> hasho_at h (hkey h p) = Some (hdata_at h p)"
  using hasho_find_hit [of h bs p] by (simp add: hasho_at_def)

lemma hasho_at_Some:
  assumes "hasho_rep h bs" "hasho_at h k = Some d"
  obtains p where "p \<in> hasho_nodes h" "k = hkey h p" "d = hdata_at h p"
proof -
  have "k \<in> hkey h ` hasho_nodes h"
    using hasho_find_miss [OF assms(1), of k] assms(2)
    by (cases "k \<in> hkey h ` hasho_nodes h") (auto simp: hasho_at_def split: if_splits)
  then obtain p where "p \<in> hasho_nodes h" "k = hkey h p" by blast
  then show thesis using that hasho_at_node [OF assms(1)] assms(2) by auto
qed

lemma hasho_at_find:
  assumes "hasho_wf h" "length k = klen h"
  shows "hasho_at h k = Some d \<Longrightarrow> \<exists>p. hasho_find h k = Some (Some p) \<and> hasho_data_at h p = Some d"
    "hasho_at h k = None \<Longrightarrow> hasho_find h k = Some None"
proof -
  obtain bs where rep: "hasho_rep h bs" using assms(1) by (auto simp: hasho_wf_def)
  show "hasho_at h k = Some d \<Longrightarrow> \<exists>p. hasho_find h k = Some (Some p) \<and> hasho_data_at h p = Some d"
    by (erule hasho_at_Some [OF rep]) (auto simp: hasho_find_hit [OF rep] hasho_data_node [OF assms(1)])
  show "hasho_at h k = None \<Longrightarrow> hasho_find h k = Some None"
    using hasho_find_miss [OF rep assms(2)] hasho_at_node [OF rep] by fastforce
qed

lemma hasho_at_inj:
  assumes "hasho_wf h" "hasho_at h k = Some d" "hasho_at h k' = Some d"
  shows "k = k'"
proof -
  obtain bs where rep: "hasho_rep h bs" using assms(1) by (auto simp: hasho_wf_def)
  obtain p p' where "k = hkey h p" "d = hdata_at h p" "k' = hkey h p'" "d = hdata_at h p'"
    using hasho_at_Some [OF rep assms(2)] hasho_at_Some [OF rep assms(3)] by metis
  then show ?thesis using hdata_at_inj [of h p p'] by simp
qed

lemma hasho_at_dom: "hasho_rep h bs \<Longrightarrow> dom (hasho_at h) = hkey h ` hasho_nodes h"
  using hasho_at_node [of h bs] by (auto elim: hasho_at_Some)

text \<open>How many keys the table holds.\<close>

lemma hasho_at_card:
  assumes "hasho_wf h"
  shows "card (dom (hasho_at h)) = card (hasho_nodes h)"
proof -
  obtain bs where rep: "hasho_rep h bs" using assms by (auto simp: hasho_wf_def)
  show ?thesis
    unfolding hasho_at_dom [OF rep] using rep by (intro card_image) (simp add: hasho_rep_def)
qed

lemma hasho_at_add:
  assumes wf: "hasho_wf h" and l: "length k = klen h" "length x = dlen h" and new: "hasho_at h k = None"
  shows "card (dom (hasho_at h)) = hasho_cap h \<Longrightarrow> hasho_add now h k x = Some (h, None)"
    "card (dom (hasho_at h)) \<noteq> hasho_cap h \<Longrightarrow> \<exists>h' p d. hasho_add now h k x = Some (h', Some p) \<and>
       hasho_wf h' \<and> klen h' = klen h \<and> dlen h' = dlen h \<and> hasho_cap h' = hasho_cap h \<and>
       hasho_data_at h' p = Some d \<and> hasho_at h' = (hasho_at h)(k \<mapsto> d) \<and> d \<notin> ran (hasho_at h)"
proof -
  obtain bs where rep: "hasho_rep h bs" using wf by (auto simp: hasho_wf_def)
  have k: "k \<notin> hkey h ` hasho_nodes h" using hasho_at_dom [OF rep] new by auto
  show "hasho_add now h k x = Some (h, None)" if "card (dom (hasho_at h)) = hasho_cap h"
    using hasho_add_full [OF rep l(1) k] that hasho_at_card [OF wf] by simp
  assume "card (dom (hasho_at h)) \<noteq> hasho_cap h"
  then have "card (hasho_nodes h) \<noteq> hasho_cap h" using hasho_at_card [OF wf] by simp
  then obtain h' bs' p where a: "hasho_add now h k x = Some (h', Some p)" "hasho_rep h' bs'"
    "hasho_nodes h' = insert p (hasho_nodes h)" "p \<notin> hasho_nodes h" "hkey h' p = k" "klen h' = klen h" "dlen h' = dlen h"
    "\<And>r. r \<in> hasho_nodes h \<Longrightarrow> hkey h' r = hkey h r" "memg_geom (ho_memg h') = memg_geom (ho_memg h)"
    using hasho_add_new [OF rep l k] by metis
  have wf': "hasho_wf h'" using a(2) by (auto simp: hasho_wf_def)
  have at: "hdata_at h' q = hdata_at h q" for q using a(6) by (simp add: hdata_at_def)
  have "hasho_at h' = (hasho_at h)(k \<mapsto> hdata_at h' p)"
  proof
    fix y
    consider "y = k" | r where "y \<noteq> k" "r \<in> hasho_nodes h" "y = hkey h r" | "y \<noteq> k" "y \<notin> hkey h ` hasho_nodes h" by blast
    then show "hasho_at h' y = ((hasho_at h)(k \<mapsto> hdata_at h' p)) y"
    proof cases
      case 1
      then show ?thesis using hasho_at_node [OF a(2), of p] a(3,5) by simp
    next
      case (2 r)
      then show ?thesis using hasho_at_node [OF a(2), of r] hasho_at_node [OF rep, of r] a(3,8) at by simp
    next
      case 3
      then have "y \<notin> hkey h' ` hasho_nodes h'" using a(3,5,8) by auto
      then have "hasho_at h' y = None" "hasho_at h y = None"
        using 3 hasho_at_dom [OF rep] hasho_at_dom [OF a(2)] by (auto simp: domIff)
      then show ?thesis using 3 by simp
    qed
  qed
  moreover have "hdata_at h' p \<notin> ran (hasho_at h)"
  proof
    assume "hdata_at h' p \<in> ran (hasho_at h)"
    then obtain y where "hasho_at h y = Some (hdata_at h p)" by (auto simp: ran_def at)
    then obtain r where "r \<in> hasho_nodes h" "hdata_at h p = hdata_at h r" by (rule hasho_at_Some [OF rep])
    then show False using a(4) hdata_at_inj by blast
  qed
  moreover have "hasho_data_at h' p = Some (hdata_at h' p)" by (rule hasho_data_node [OF wf']) (simp add: a(3))
  ultimately show "\<exists>h' p d. hasho_add now h k x = Some (h', Some p) \<and>
       hasho_wf h' \<and> klen h' = klen h \<and> dlen h' = dlen h \<and> hasho_cap h' = hasho_cap h \<and>
       hasho_data_at h' p = Some d \<and> hasho_at h' = (hasho_at h)(k \<mapsto> d) \<and> d \<notin> ran (hasho_at h)"
    using a(1,6,7) wf' hasho_cap_geom [OF a(9)] by blast
qed

lemma hasho_at_del:
  assumes wf: "hasho_wf h" and k: "hasho_at h k = Some d"
  shows "\<exists>h'. hasho_del h k = Some h' \<and> hasho_wf h' \<and> klen h' = klen h \<and> dlen h' = dlen h \<and> hasho_cap h' = hasho_cap h \<and>
    hasho_at h' = (hasho_at h)(k := None)"
proof -
  obtain bs where rep: "hasho_rep h bs" using wf by (auto simp: hasho_wf_def)
  obtain p where p: "p \<in> hasho_nodes h" "k = hkey h p" by (rule hasho_at_Some [OF rep k])
  obtain h' bs' where a: "hasho_del h (hkey h p) = Some h'" "hasho_rep h' bs'" "hasho_nodes h' = hasho_nodes h - {p}"
    "hkey h' = hkey h" "klen h' = klen h" "dlen h' = dlen h" "memg_geom (ho_memg h') = memg_geom (ho_memg h)"
    using hasho_del_hit [OF rep p(1)] by metis
  have at: "hdata_at h' q = hdata_at h q" for q using a(5) by (simp add: hdata_at_def)
  have inj: "inj_on (hkey h) (hasho_nodes h)" using rep by (simp add: hasho_rep_def)
  have "hasho_at h' = (hasho_at h)(k := None)"
  proof
    fix y
    consider "y = k" | r where "r \<in> hasho_nodes h" "r \<noteq> p" "y = hkey h r" "y \<noteq> k" | "y \<notin> hkey h ` hasho_nodes h" using p(2) by blast
    then show "hasho_at h' y = ((hasho_at h)(k := None)) y"
    proof cases
      case 1
      then have "y \<notin> hkey h' ` hasho_nodes h'" using inj p a(3,4) by (auto simp: inj_on_def)
      then show ?thesis using 1 hasho_at_dom [OF a(2)] by (auto simp: domIff)
    next
      case (2 r)
      then show ?thesis using hasho_at_node [OF a(2), of r] hasho_at_node [OF rep, of r] a(3,4) at by simp
    next
      case 3
      then have "y \<notin> hkey h' ` hasho_nodes h'" using a(3,4) by auto
      then have "hasho_at h' y = None" "hasho_at h y = None"
        using 3 hasho_at_dom [OF rep] hasho_at_dom [OF a(2)] by (auto simp: domIff)
      then show ?thesis by simp
    qed
  qed
  then show ?thesis using a(1,2,5,6) p(2) hasho_cap_geom [OF a(7)] by (auto simp: hasho_wf_def)
qed

end
