(* ===== verification/Hashg.thy ===== *)
theory Hashg
  imports KeySum Table
begin

text \<open>
  \<^verbatim>\<open>proj/UPST_LIB/SRC/TIMERN/hashg.c\<close>: the hash table of one process. The nodes come from
  \<open>malloc\<close>; each keeps a pointer to the next node and, in \<open>prev\<close>, the address of the slot that
  points to it: a bucket of the array or the \<open>next\<close> field of another node. Keys and data are
  values here (the code compares \<open>usKeyLen\<close> bytes and copies \<open>usDataLen\<close> bytes); address 0 is
  NULL.
\<close>

section \<open>State\<close>

type_synonym addr = int

datatype hslot = Bucket nat | NextOf addr

record ('k, 'd) hashgnode =
  hn_next :: addr
  hn_prev :: "hslot option"
  hn_pstKey :: 'k
  hn_pstData :: 'd

text \<open>The hash function is called with the info block, of which the functions of the library read
  the key length and the table size. \<open>hg_bucket\<close> is the array \<open>psthashnode\<close>.\<close>

record ('k, 'd) hashg =
  hg_usKeyLen :: u16
  hg_usDataLen :: u16
  hg_uiHashSize :: u32
  hg_MaxNodeCnt :: u32
  hg_func :: "u16 \<Rightarrow> u32 \<Rightarrow> 'k \<Rightarrow> u32 option"
  hg_uiLinkedCnt :: u32
  hg_bucket :: "nat \<rightharpoonup> addr"
  hg_heap :: "addr \<rightharpoonup> ('k, 'd) hashgnode"

definition hashg_func_default :: "u16 \<Rightarrow> u32 \<Rightarrow> u8 list \<Rightarrow> u32 option" where
  "hashg_func_default usKeyLen uiHashSize pb =
    (let keylen = unat usKeyLen;
         portion4 = keylen div 4; remainder = keylen mod 4;
         portion2 = remainder div 2; portion1 = remainder mod 2;
         (sum4, pb) = hasho_sum4 portion4 pb 0;
         (sum2, pb) = (case (portion2, pb) of
                         (Suc _, a # b # pb') \<Rightarrow> (sum4 + le16 a b, pb')
                       | _ \<Rightarrow> (sum4, pb));
         uiHashIndex = (case (portion1, pb) of
                          (Suc _, a # _) \<Rightarrow> sum2 + ucast a
                        | _ \<Rightarrow> sum2)
     in if uiHashSize = 0 then None else Some (uiHashIndex mod uiHashSize))"

definition hashg_set_MaxNodeCnt :: "('k, 'd) hashg \<Rightarrow> u32 \<Rightarrow> ('k, 'd) hashg" where
  "hashg_set_MaxNodeCnt g n = g\<lparr>hg_MaxNodeCnt := n\<rparr>"

text \<open>\<open>ok1\<close> and \<open>ok2\<close> tell whether the two allocations succeed, in that order.\<close>

definition hashg_init ::
  "bool \<Rightarrow> bool \<Rightarrow> (u16 \<Rightarrow> u32 \<Rightarrow> 'k \<Rightarrow> u32 option) \<Rightarrow> u16 \<Rightarrow> u16 \<Rightarrow> u32 \<Rightarrow> ('k, 'd) hashg option" where
  "hashg_init ok1 ok2 func usKeyLen usDataLen uiHashSize =
     (if \<not> ok1 then None
      else if \<not> ok2 then None
      else Some \<lparr>hg_usKeyLen = usKeyLen, hg_usDataLen = usDataLen, hg_uiHashSize = uiHashSize,
                 hg_MaxNodeCnt = uiHashSize * 10, hg_func = func, hg_uiLinkedCnt = 0,
                 hg_bucket = (\<lambda>i. if i < unat uiHashSize then Some 0 else None),
                 hg_heap = Map.empty\<rparr>)"

text \<open>\<open>func = 0\<close> selects the default hash function.\<close>

definition hashg_pick_func ::
  "(u16 \<Rightarrow> u32 \<Rightarrow> u8 list \<Rightarrow> u32 option) option \<Rightarrow> (u16 \<Rightarrow> u32 \<Rightarrow> u8 list \<Rightarrow> u32 option)" where
  "hashg_pick_func f = (case f of None \<Rightarrow> hashg_func_default | Some f \<Rightarrow> f)"

section \<open>Links\<close>

definition hashg_hash :: "('k, 'd) hashg \<Rightarrow> 'k \<Rightarrow> u32 option" where
  "hashg_hash g k = hg_func g (hg_usKeyLen g) (hg_uiHashSize g) k"

definition hashg_upd ::
  "('k, 'd) hashg \<Rightarrow> addr \<Rightarrow> (('k, 'd) hashgnode \<Rightarrow> ('k, 'd) hashgnode) \<Rightarrow> ('k, 'd) hashg option" where
  "hashg_upd g p f =
     (case hg_heap g p of
        None \<Rightarrow> None
      | Some n \<Rightarrow> Some (g\<lparr>hg_heap := (hg_heap g)(p \<mapsto> f n)\<rparr>))"

text \<open>A write through a pointer to a slot.\<close>

fun hashg_put :: "('k, 'd) hashg \<Rightarrow> hslot \<Rightarrow> addr \<Rightarrow> ('k, 'd) hashg option" where
  "hashg_put g (Bucket i) v =
     (case hg_bucket g i of
        None \<Rightarrow> None
      | Some _ \<Rightarrow> Some (g\<lparr>hg_bucket := (hg_bucket g)(i \<mapsto> v)\<rparr>))"
| "hashg_put g (NextOf q) v = hashg_upd g q (\<lambda>n. n\<lparr>hn_next := v\<rparr>)"

definition hashg_link_node :: "('k, 'd) hashg \<Rightarrow> addr \<Rightarrow> ('k, 'd) hashg option" where
  "hashg_link_node g p = do {
     n \<leftarrow> hg_heap g p;
     idx \<leftarrow> hashg_hash g (hn_pstKey n);
     let pp = unat idx;
     head \<leftarrow> hg_bucket g pp;
     g1 \<leftarrow> hashg_upd g p (\<lambda>n. n\<lparr>hn_next := head\<rparr>);
     g2 \<leftarrow> (if head \<noteq> 0 then hashg_upd g1 head (\<lambda>n. n\<lparr>hn_prev := Some (NextOf p)\<rparr>) else Some g1);
     g3 \<leftarrow> hashg_upd g2 p (\<lambda>n. n\<lparr>hn_prev := Some (Bucket pp)\<rparr>);
     g4 \<leftarrow> hashg_put g3 (Bucket pp) p;
     Some (g4\<lparr>hg_uiLinkedCnt := hg_uiLinkedCnt g4 + 1\<rparr>)
   }"

definition hashg_unlink_node :: "('k, 'd) hashg \<Rightarrow> addr \<Rightarrow> ('k, 'd) hashg option" where
  "hashg_unlink_node g p = do {
     n \<leftarrow> hg_heap g p;
     case hn_prev n of
       None \<Rightarrow> Some g
     | Some pp \<Rightarrow> do {
         g1 \<leftarrow> hashg_put g pp (hn_next n);
         g2 \<leftarrow> (if hn_next n \<noteq> 0 then hashg_upd g1 (hn_next n) (\<lambda>x. x\<lparr>hn_prev := Some pp\<rparr>)
                else Some g1);
         g3 \<leftarrow> hashg_upd g2 p (\<lambda>n. n\<lparr>hn_next := 0, hn_prev := None\<rparr>);
         Some (g3\<lparr>hg_uiLinkedCnt := hg_uiLinkedCnt g3 - 1\<rparr>)
       }
   }"

section \<open>Find, add, delete\<close>

partial_function (option) hashg_find_loop :: "('k, 'd) hashg \<Rightarrow> 'k \<Rightarrow> addr \<Rightarrow> addr option" where
  "hashg_find_loop g pKey p =
     (if p = 0 then Some 0
      else do {
        n \<leftarrow> hg_heap g p;
        if hn_pstKey n \<noteq> pKey then hashg_find_loop g pKey (hn_next n) else Some p
      })"

definition hashg_find :: "('k, 'd) hashg \<Rightarrow> 'k \<Rightarrow> addr option" where
  "hashg_find g pKey = do {
     idx \<leftarrow> hashg_hash g pKey;
     head \<leftarrow> hg_bucket g (unat idx);
     hashg_find_loop g pKey head
   }"

text \<open>\<open>malloc\<close> answers the set of addresses in use with an address, or 0.\<close>

definition hashg_add ::
  "(addr set \<Rightarrow> addr) \<Rightarrow> ('k, 'd) hashg \<Rightarrow> 'k \<Rightarrow> 'd \<Rightarrow> (('k, 'd) hashg \<times> addr) option" where
  "hashg_add malloc g pKey pData =
     (if hg_MaxNodeCnt g \<le> hg_uiLinkedCnt g then Some (g, 0)
      else do {
        p \<leftarrow> hashg_find g pKey;
        if p \<noteq> 0 then Some (g, 0)
        else
          let p = malloc (dom (hg_heap g)) in
          if p = 0 then Some (g, 0)
          else do {
            g' \<leftarrow> hashg_link_node
                   (g\<lparr>hg_heap := (hg_heap g)(p \<mapsto> \<lparr>hn_next = 0, hn_prev = None,
                                                  hn_pstKey = pKey, hn_pstData = pData\<rparr>)\<rparr>) p;
            Some (g', p)
          }
      })"

text \<open>\<open>_FREE\<close>; freeing what is not allocated is a fault.\<close>

definition hashg_free :: "('k, 'd) hashg \<Rightarrow> addr \<Rightarrow> ('k, 'd) hashg option" where
  "hashg_free g p =
     (case hg_heap g p of None \<Rightarrow> None | Some _ \<Rightarrow> Some (g\<lparr>hg_heap := (hg_heap g)(p := None)\<rparr>))"

definition hashg_del_from_key :: "('k, 'd) hashg \<Rightarrow> 'k \<Rightarrow> ('k, 'd) hashg option" where
  "hashg_del_from_key g pKey = do {
     p \<leftarrow> hashg_find g pKey;
     if p = 0 then Some g
     else do { g1 \<leftarrow> hashg_unlink_node g p; hashg_free g1 p }
   }"

definition hashg_del :: "('k, 'd) hashg \<Rightarrow> addr \<Rightarrow> ('k, 'd) hashg option" where
  "hashg_del g p = do { g1 \<leftarrow> hashg_unlink_node g p; hashg_free g1 p }"

text \<open>The loop over the buckets that counts the occupied ones.\<close>

fun hashg_count_buckets :: "('k, 'd) hashg \<Rightarrow> nat \<Rightarrow> nat \<Rightarrow> u32 \<Rightarrow> u32 option" where
  "hashg_count_buckets g iIndex 0 cnt = Some cnt"
| "hashg_count_buckets g iIndex (Suc left) cnt = do {
     p \<leftarrow> hg_bucket g iIndex;
     hashg_count_buckets g (Suc iIndex) left (if p \<noteq> 0 then cnt + 1 else cnt)
   }"

definition hashg_get_occupied_node_count :: "('k, 'd) hashg \<Rightarrow> u32 option" where
  "hashg_get_occupied_node_count g = hashg_count_buckets g 0 (unat (hg_uiHashSize g)) 0"

end
