(* ===== verification/HashgProps.thy ===== *)
theory HashgProps
  imports Hashg
begin

text \<open>
  Correctness of \<^verbatim>\<open>hashg.c\<close>: every linked node is on exactly one chain, each chain is linked in both
  directions through the slots, \<open>uiLinkedCnt\<close> counts the linked nodes; with the keys in the buckets
  they hash to, the table is a bounded map.
\<close>

section \<open>Chains\<close>

fun gseg :: "(addr \<rightharpoonup> ('k, 'd) hashgnode) \<Rightarrow> hslot \<Rightarrow> addr \<Rightarrow> addr list \<Rightarrow> bool" where
  "gseg m s cur [] \<longleftrightarrow> cur = 0"
| "gseg m s cur (x # xs) \<longleftrightarrow> cur = x \<and> x \<noteq> 0 \<and>
     (\<exists>n. m x = Some n \<and> hn_prev n = Some s \<and> gseg m (NextOf x) (hn_next n) xs)"

lemma gseg_cong: "(\<And>x. x \<in> set xs \<Longrightarrow> m x = m' x) \<Longrightarrow> gseg m s cur xs = gseg m' s cur xs"
  by (induction xs arbitrary: s cur) auto

lemma gseg_upd_other [simp]: "y \<notin> set xs \<Longrightarrow> gseg (m(y := v)) s cur xs = gseg m s cur xs"
  by (rule gseg_cong) auto

lemma gseg_nonzero: "gseg m s cur xs \<Longrightarrow> 0 \<notin> set xs"
  by (induction xs arbitrary: s cur) auto

lemma gseg_cur: "gseg m s cur xs \<Longrightarrow> cur = (if xs = [] then 0 else hd xs)"
  by (cases xs) auto

lemma gseg_linked: "gseg m s cur xs \<Longrightarrow> x \<in> set xs \<Longrightarrow> \<exists>n. m x = Some n \<and> hn_prev n \<noteq> None"
  by (induction xs arbitrary: s cur) auto

lemma gseg_relink:
  "gseg m s x (x # xs) \<Longrightarrow> x \<notin> set xs \<Longrightarrow> m x = Some n \<Longrightarrow>
   gseg (m(x \<mapsto> n\<lparr>hn_prev := Some s'\<rparr>)) s' x (x # xs)"
  by simp

text \<open>The slot that points to a node in the middle of a chain, and the node's successor.\<close>

definition pred_slot :: "hslot \<Rightarrow> addr list \<Rightarrow> hslot" where
  "pred_slot s as = (if as = [] then s else NextOf (last as))"

lemma gseg_mid:
  assumes "gseg m s cur (as @ p # cs)" "m p = Some n"
  shows "hn_prev n = Some (pred_slot s as) \<and> hn_next n = (if cs = [] then 0 else hd cs)"
  using assms
proof (induction as arbitrary: s cur)
  case Nil
  then show ?case using gseg_cur [of m "NextOf p" "hn_next n" cs] by (auto simp: pred_slot_def)
next
  case (Cons a as)
  then obtain na :: "('a, 'b) hashgnode" where "gseg m (NextOf a) (hn_next na) (as @ p # cs)" by auto
  from Cons.IH [OF this Cons.prems(2)] show ?case by (auto simp: pred_slot_def)
qed

text \<open>What the writes of an unlink do to the node map, apart from the node itself.\<close>

definition gcut :: "(addr \<rightharpoonup> ('k, 'd) hashgnode) \<Rightarrow> ('k, 'd) hashgnode \<Rightarrow> hslot \<Rightarrow> addr list \<Rightarrow> addr list \<Rightarrow>
    (addr \<rightharpoonup> ('k, 'd) hashgnode)" where
  "gcut m n s as cs = (\<lambda>x. map_option (\<lambda>k.
     (let k1 = (if as \<noteq> [] \<and> x = last as then k\<lparr>hn_next := hn_next n\<rparr> else k)
      in if cs \<noteq> [] \<and> x = hd cs then k1\<lparr>hn_prev := Some (pred_slot s as)\<rparr> else k1)) (m x))"

lemma gcut_other: "x \<notin> set as \<Longrightarrow> x \<notin> set cs \<Longrightarrow> gcut m n s as cs x = m x"
  using last_in_set [of as] hd_in_set [of cs]
  by (cases "m x") (auto simp: gcut_def Let_def)

lemma gcut_seg:
  assumes "gseg m s cur (as @ p # cs)" "distinct (as @ p # cs)" "m p = Some n"
  shows "gseg (gcut m n s as cs) s (if as = [] then hn_next n else cur) (as @ cs)"
  using assms
proof (induction as arbitrary: s cur)
  case Nil
  then have seg: "gseg m (NextOf p) (hn_next n) cs" by auto
  show ?case
  proof (cases cs)
    case Nil
    with seg show ?thesis by simp
  next
    case (Cons c cs')
    with seg obtain nc where c: "gseg m (NextOf c) (hn_next nc) cs'" "hn_next n = c" "c \<noteq> 0"
      "m c = Some nc" by auto
    have "gseg (gcut m n s [] cs) (NextOf c) (hn_next nc) cs' = gseg m (NextOf c) (hn_next nc) cs'"
    proof (rule gseg_cong)
      fix x assume "x \<in> set cs'"
      then have "x \<noteq> c" using Nil.prems(2) Cons by auto
      then show "gcut m n s [] cs x = m x" using Cons by (simp add: gcut_def option.map_ident)
    qed
    with c Cons show ?thesis by (simp add: gcut_def pred_slot_def)
  qed
next
  case (Cons a as)
  then obtain na where na: "cur = a" "a \<noteq> 0" "m a = Some na" "hn_prev na = Some s"
    "gseg m (NextOf a) (hn_next na) (as @ p # cs)" by auto
  have a: "a \<notin> set as" "a \<notin> set cs" "a \<noteq> p" using Cons.prems(2) by auto
  have IH: "gseg (gcut m n (NextOf a) as cs) (NextOf a)
      (if as = [] then hn_next n else hn_next na) (as @ cs)"
    using Cons.prems(2,3) by (intro Cons.IH [OF na(5)]) auto
  have same: "gseg (gcut m n s (a # as) cs) t c (as @ cs) =
      gseg (gcut m n (NextOf a) as cs) t c (as @ cs)" for t c
  proof (rule gseg_cong)
    fix x assume "x \<in> set (as @ cs)"
    with a have "x \<noteq> a" by auto
    moreover have "pred_slot s (a # as) = pred_slot (NextOf a) as" by (simp add: pred_slot_def)
    ultimately show "gcut m n s (a # as) cs x = gcut m n (NextOf a) as cs x"
      unfolding gcut_def by (cases "m x"; cases "as = []") simp_all
  qed
  have "cs \<noteq> [] \<Longrightarrow> a \<noteq> hd cs" using a(2) by auto
  moreover have "as \<noteq> [] \<Longrightarrow> a \<noteq> last as" using a(1) by auto
  ultimately have "gcut m n s (a # as) cs a =
      Some (if as = [] then na\<lparr>hn_next := hn_next n\<rparr> else na)"
    using na(3) by (auto simp: gcut_def)
  with IH na(1,2,4) same show ?case by (cases "as = []") simp_all
qed

section \<open>Well-linked tables\<close>

definition gsize :: "('k, 'd) hashg \<Rightarrow> nat" where
  "gsize g = unat (hg_uiHashSize g)"

text \<open>The nodes that are on a chain; the other nodes of the heap are detached.\<close>

definition hashg_linked :: "('k, 'd) hashg \<Rightarrow> addr set" where
  "hashg_linked g = {p. \<exists>n. hg_heap g p = Some n \<and> hn_prev n \<noteq> None}"

definition hashg_chain :: "('k, 'd) hashg \<Rightarrow> nat \<Rightarrow> addr list \<Rightarrow> bool" where
  "hashg_chain g i xs \<longleftrightarrow>
     (\<exists>c. hg_bucket g i = Some c \<and> gseg (hg_heap g) (Bucket i) c xs) \<and> distinct xs"

definition hashg_links :: "('k, 'd) hashg \<Rightarrow> (nat \<Rightarrow> addr list) \<Rightarrow> bool" where
  "hashg_links g bs \<longleftrightarrow>
     finite (dom (hg_heap g)) \<and> 0 \<notin> dom (hg_heap g) \<and>
     (\<forall>i < gsize g. hashg_chain g i (bs i)) \<and>
     (\<forall>i < gsize g. \<forall>j < gsize g. i \<noteq> j \<longrightarrow> set (bs i) \<inter> set (bs j) = {}) \<and>
     hashg_linked g = (\<Union>i < gsize g. set (bs i)) \<and>
     unat (hg_uiLinkedCnt g) = card (hashg_linked g)"

text \<open>What the link operations never touch: the parameters, and the key and data of a node.\<close>

definition hashg_static :: "('k, 'd) hashg \<Rightarrow> u16 \<times> u16 \<times> u32 \<times> u32 \<times> (u16 \<Rightarrow> u32 \<Rightarrow> 'k \<Rightarrow> u32 option)" where
  "hashg_static g =
     (hg_usKeyLen g, hg_usDataLen g, hg_uiHashSize g, hg_MaxNodeCnt g, hg_func g)"

definition hashg_kd :: "('k, 'd) hashg \<Rightarrow> addr \<Rightarrow> ('k \<times> 'd) option" where
  "hashg_kd g p = map_option (\<lambda>n. (hn_pstKey n, hn_pstData n)) (hg_heap g p)"

lemma hashg_staticD:
  "hashg_static g' = hashg_static g \<Longrightarrow> gsize g' = gsize g \<and> hashg_hash g' = hashg_hash g \<and>
     hg_MaxNodeCnt g' = hg_MaxNodeCnt g"
  by (auto simp: hashg_static_def gsize_def hashg_hash_def fun_eq_iff)

lemma hashg_chain_cong:
  assumes "hashg_chain g i xs" "hg_bucket g' i = hg_bucket g i"
    "\<And>x. x \<in> set xs \<Longrightarrow> hg_heap g' x = hg_heap g x"
  shows "hashg_chain g' i xs"
  using assms gseg_cong [of xs "hg_heap g'" "hg_heap g"] by (simp add: hashg_chain_def)

lemma hashg_chain_linked:
  "hashg_links g bs \<Longrightarrow> i < gsize g \<Longrightarrow> set (bs i) \<subseteq> hashg_linked g"
  by (auto simp: hashg_links_def)

lemma finite_hashg_linked: "hashg_links g bs \<Longrightarrow> finite (hashg_linked g)"
  by (simp add: hashg_links_def)

lemma hashg_linked_bucket:
  assumes "hashg_links g bs" "p \<in> hashg_linked g"
  obtains i as cs where "i < gsize g" "bs i = as @ p # cs"
proof -
  from assms obtain i where "i < gsize g" "p \<in> set (bs i)" by (auto simp: hashg_links_def)
  with split_list [of p "bs i"] that show thesis by blast
qed

text \<open>Changing one bucket keeps the buckets apart.\<close>

lemma upd_disjoint:
  assumes "\<forall>i < n. \<forall>j < n. i \<noteq> j \<longrightarrow> set (bs i) \<inter> set (bs j) = {}" "set xs \<subseteq> A"
    "\<And>j. j < n \<Longrightarrow> j \<noteq> i \<Longrightarrow> A \<inter> set (bs j) = {}"
  shows "\<forall>j < n. \<forall>l < n. j \<noteq> l \<longrightarrow> set ((bs(i := xs)) j) \<inter> set ((bs(i := xs)) l) = {}"
proof (intro allI impI)
  fix j l assume "j < n" "l < n" "j \<noteq> l"
  then show "set ((bs(i := xs)) j) \<inter> set ((bs(i := xs)) l) = {}"
    using assms(1) assms(2) assms(3) [of j] assms(3) [of l]
    by (cases "j = i"; cases "l = i") (simp_all, blast+)
qed

section \<open>Unlink\<close>

text \<open>The whole effect of taking \<open>p\<close> out of the middle of bucket \<open>i\<close>.\<close>

definition hashg_cut ::
  "('k, 'd) hashg \<Rightarrow> addr \<Rightarrow> ('k, 'd) hashgnode \<Rightarrow> nat \<Rightarrow> addr list \<Rightarrow> addr list \<Rightarrow> ('k, 'd) hashg" where
  "hashg_cut g p n i as cs = g\<lparr>
     hg_heap := (gcut (hg_heap g) n (Bucket i) as cs)(p \<mapsto> n\<lparr>hn_next := 0, hn_prev := None\<rparr>),
     hg_bucket := (if as = [] then (hg_bucket g)(i \<mapsto> hn_next n) else hg_bucket g),
     hg_uiLinkedCnt := hg_uiLinkedCnt g - 1\<rparr>"

text \<open>The first write: through the slot that points to the node.\<close>

lemma hashg_put_pred:
  assumes "gseg (hg_heap g) (Bucket i) c (as @ p # cs)" "hg_bucket g i = Some c"
  shows "hashg_put g (pred_slot (Bucket i) as) v = Some (g\<lparr>
     hg_heap := (\<lambda>x. map_option (\<lambda>k. if as \<noteq> [] \<and> x = last as then k\<lparr>hn_next := v\<rparr> else k) (hg_heap g x)),
     hg_bucket := (if as = [] then (hg_bucket g)(i \<mapsto> v) else hg_bucket g)\<rparr>)"
proof (cases "as = []")
  case True
  with assms show ?thesis by (simp add: pred_slot_def option.map_ident)
next
  case False
  then have "last as \<in> set (as @ p # cs)" by simp
  from gseg_linked [OF assms(1) this] obtain l where l: "hg_heap g (last as) = Some l" by blast
  have "(hg_heap g)(last as \<mapsto> l\<lparr>hn_next := v\<rparr>) =
      (\<lambda>x. map_option (\<lambda>k. if x = last as then k\<lparr>hn_next := v\<rparr> else k) (hg_heap g x))"
    using l by (auto simp: fun_eq_iff option.map_ident)
  with False l show ?thesis by (simp add: pred_slot_def hashg_upd_def)
qed

lemma hashg_upd_Some:
  "hg_heap g p = Some n \<Longrightarrow> hashg_upd g p f = Some (g\<lparr>hg_heap := (hg_heap g)(p \<mapsto> f n)\<rparr>)"
  by (simp add: hashg_upd_def)

lemma hashg_unlink_chain:
  assumes "hg_heap g p = Some n" "hg_bucket g i = Some c"
    "gseg (hg_heap g) (Bucket i) c (as @ p # cs)" "distinct (as @ p # cs)"
  shows "hashg_unlink_node g p = Some (hashg_cut g p n i as cs)"
proof -
  let ?s = "pred_slot (Bucket i) as"
  let ?C = "gcut (hg_heap g) n (Bucket i) as cs"
  define H where "H = (\<lambda>x. map_option (\<lambda>k. if as \<noteq> [] \<and> x = last as then k\<lparr>hn_next := hn_next n\<rparr> else k) (hg_heap g x))"
  define B where "B = (if as = [] then (hg_bucket g)(i \<mapsto> hn_next n) else hg_bucket g)"
  let ?g1 = "g\<lparr>hg_heap := H, hg_bucket := B\<rparr>"
  have links: "hn_prev n = Some ?s" "hn_next n = (if cs = [] then 0 else hd cs)"
    using gseg_mid [OF assms(3,1)] by auto
  have put: "hashg_put g ?s (hn_next n) = Some ?g1"
    unfolding H_def B_def by (rule hashg_put_pred [OF assms(3,2)])
  have p: "?C p = Some n" using assms(1,4) by (simp add: gcut_other)
  have step2: "(if hn_next n \<noteq> 0
      then hashg_upd ?g1 (hn_next n) (\<lambda>x. x\<lparr>hn_prev := Some ?s\<rparr>)
      else Some ?g1) = Some (?g1\<lparr>hg_heap := ?C\<rparr>)"
  proof (cases "cs = []")
    case True
    then have "?C = H" by (simp add: gcut_def H_def)
    with True links(2) show ?thesis by simp
  next
    case False
    then have hd: "hd cs \<in> set (as @ p # cs)" "hd cs \<in> set cs" by simp_all
    with gseg_nonzero [OF assms(3)] have h0: "hd cs \<noteq> 0" by metis
    from gseg_linked [OF assms(3) hd(1)] obtain l where l: "hg_heap g (hd cs) = Some l" by blast
    have "set as \<inter> set cs = {}" using assms(4) by auto
    with hd(2) have last: "as \<noteq> [] \<Longrightarrow> hd cs \<noteq> last as"
      using last_in_set [of as] by (metis IntI empty_iff)
    have "H(hd cs \<mapsto> l\<lparr>hn_prev := Some ?s\<rparr>) = ?C"
      using False l last by (auto simp: gcut_def fun_eq_iff Let_def H_def)
    moreover have "hg_heap ?g1 (hd cs) = Some l" using l last by (auto simp: H_def)
    ultimately show ?thesis using False h0 links(2) by (simp add: hashg_upd_Some)
  qed
  have "hashg_unlink_node g p = Some (?g1\<lparr>hg_heap := ?C(p \<mapsto> n\<lparr>hn_next := 0, hn_prev := None\<rparr>),
      hg_uiLinkedCnt := hg_uiLinkedCnt g - 1\<rparr>)"
    using assms(1) links(1) put step2 p by (simp add: hashg_unlink_node_def hashg_upd_Some)
  then show ?thesis by (simp add: hashg_cut_def B_def)
qed

lemma gcut_map:
  "map_option hn_pstKey (gcut m n s as cs x) = map_option hn_pstKey (m x)"
  "map_option hn_pstData (gcut m n s as cs x) = map_option hn_pstData (m x)"
  "gcut m n s as cs x = None \<longleftrightarrow> m x = None"
  by (cases "m x"; simp add: gcut_def Let_def)+

lemma hashg_cut_simps [simp]:
  "hashg_static (hashg_cut g p n i as cs) = hashg_static g"
  "hg_uiLinkedCnt (hashg_cut g p n i as cs) = hg_uiLinkedCnt g - 1"
  "gsize (hashg_cut g p n i as cs) = gsize g"
  by (simp_all add: hashg_cut_def hashg_static_def gsize_def)

lemma hashg_cut_heap:
  "hg_heap (hashg_cut g p n i as cs) x =
     (if x = p then Some (n\<lparr>hn_next := 0, hn_prev := None\<rparr>) else gcut (hg_heap g) n (Bucket i) as cs x)"
  by (simp add: hashg_cut_def)

lemma hashg_cut_kd:
  "hg_heap g p = Some n \<Longrightarrow> hashg_kd (hashg_cut g p n i as cs) = hashg_kd g"
proof
  fix x assume n: "hg_heap g p = Some n"
  show "hashg_kd (hashg_cut g p n i as cs) x = hashg_kd g x"
    using n by (cases "x = p"; cases "hg_heap g x")
      (simp_all add: hashg_kd_def hashg_cut_heap gcut_def Let_def)
qed

lemma hashg_cut_dom: "hg_heap g p = Some n \<Longrightarrow> dom (hg_heap (hashg_cut g p n i as cs)) = dom (hg_heap g)"
  by (auto simp: dom_def hashg_cut_heap gcut_def)

lemma hashg_cut_linked: "hashg_linked (hashg_cut g p n i as cs) = hashg_linked g - {p}" if
  "set as \<subseteq> hashg_linked g" "set cs \<subseteq> hashg_linked g"
proof -
  have "(\<exists>k. gcut (hg_heap g) n (Bucket i) as cs x = Some k \<and> hn_prev k \<noteq> None) \<longleftrightarrow> x \<in> hashg_linked g" for x
  proof (cases "x \<in> set as \<or> x \<in> set cs")
    case True
    with that have "x \<in> hashg_linked g" by auto
    moreover from this obtain k where "hg_heap g x = Some k" "hn_prev k \<noteq> None"
      by (auto simp: hashg_linked_def)
    ultimately show ?thesis by (simp add: gcut_def Let_def)
  next
    case False
    then show ?thesis by (simp add: gcut_other hashg_linked_def)
  qed
  then show ?thesis by (auto simp: hashg_linked_def hashg_cut_heap)
qed

lemma hashg_unlink_links:
  assumes links: "hashg_links g bs" and i: "i < gsize g" "bs i = as @ p # cs"
  obtains n where "hg_heap g p = Some n" "hashg_unlink_node g p = Some (hashg_cut g p n i as cs)"
    "hashg_links (hashg_cut g p n i as cs) (bs(i := as @ cs))"
    "hashg_linked (hashg_cut g p n i as cs) = hashg_linked g - {p}"
proof -
  obtain c where c: "hg_bucket g i = Some c" "gseg (hg_heap g) (Bucket i) c (as @ p # cs)"
    "distinct (as @ p # cs)"
    using links i by (auto simp: hashg_links_def hashg_chain_def)
  from gseg_linked [OF c(2), of p] obtain n where n: "hg_heap g p = Some n" by auto
  let ?g = "hashg_cut g p n i as cs"
  let ?bs = "bs(i := as @ cs)"
  have sub: "set as \<subseteq> hashg_linked g" "set cs \<subseteq> hashg_linked g" "p \<in> hashg_linked g"
    using hashg_chain_linked [OF links i(1)] i(2) by auto
  have linked: "hashg_linked ?g = hashg_linked g - {p}" by (rule hashg_cut_linked [OF sub(1,2)])
  have seg: "gseg (hg_heap ?g) (Bucket i) (if as = [] then hn_next n else c) (as @ cs)"
  proof (subst gseg_cong)
    show "hg_heap ?g x = gcut (hg_heap g) n (Bucket i) as cs x" if "x \<in> set (as @ cs)" for x
      using that c(3) by (auto simp: hashg_cut_heap)
  qed (rule gcut_seg [OF c(2,3) n])
  have "hg_bucket ?g i = Some (if as = [] then hn_next n else c)"
    using c(1) by (simp add: hashg_cut_def)
  with seg c(3) have cut: "hashg_chain ?g i (as @ cs)" by (auto simp: hashg_chain_def)
  have dj: "set (bs i) \<inter> set (bs j) = {}" if "j < gsize g" "j \<noteq> i" for j
    using links i(1) that by (auto simp: hashg_links_def)
  have "hashg_chain ?g j (?bs j)" if j: "j < gsize g" for j
  proof (cases "j = i")
    case False
    have "hashg_chain ?g j (bs j)"
    proof (rule hashg_chain_cong)
      show "hashg_chain g j (bs j)" using links j by (simp add: hashg_links_def)
      show "hg_bucket ?g j = hg_bucket g j" using False by (simp add: hashg_cut_def)
      show "hg_heap ?g x = hg_heap g x" if "x \<in> set (bs j)" for x
      proof -
        have "x \<noteq> p \<and> x \<notin> set as \<and> x \<notin> set cs" using that dj [OF j False] i(2) by auto
        then show ?thesis by (simp add: hashg_cut_heap gcut_other)
      qed
    qed
    then show ?thesis using False by simp
  qed (use cut in simp)
  moreover have "hashg_linked ?g = (\<Union>j < gsize g. set (?bs j))"
  proof -
    have "hashg_linked g = (\<Union>j < gsize g. set (bs j))" using links by (simp add: hashg_links_def)
    also have "\<dots> - {p} = (\<Union>j < gsize g. set (?bs j))"
    proof (intro equalityI subsetI)
      fix x assume "x \<in> (\<Union>j < gsize g. set (bs j)) - {p}"
      then obtain j where "j < gsize g" "x \<in> set (bs j)" "x \<noteq> p" by auto
      then show "x \<in> (\<Union>j < gsize g. set (?bs j))"
        using i(2) by (intro UN_I [of j]) (auto split: if_splits)
    next
      fix x assume "x \<in> (\<Union>j < gsize g. set (?bs j))"
      then obtain j where j: "j < gsize g" "x \<in> set (?bs j)" by auto
      then have "x \<in> set (bs j)" "x \<noteq> p"
        using dj [OF j(1)] i(2) c(3) by (auto split: if_splits)
      with j(1) show "x \<in> (\<Union>j < gsize g. set (bs j)) - {p}" by auto
    qed
    finally show ?thesis using linked by simp
  qed
  moreover have "\<forall>j < gsize g. \<forall>l < gsize g. j \<noteq> l \<longrightarrow> set (?bs j) \<inter> set (?bs l) = {}"
    using links i(2) dj by (intro upd_disjoint [where A = "set (bs i)"]) (auto simp: hashg_links_def)
  moreover have "unat (hg_uiLinkedCnt g - 1) = card (hashg_linked ?g)"
  proof -
    have cnt: "unat (hg_uiLinkedCnt g) = card (hashg_linked g)" using links by (simp add: hashg_links_def)
    moreover have "0 < card (hashg_linked g)"
      using finite_hashg_linked [OF links] sub(3) by (auto simp: card_gt_0_iff)
    ultimately show ?thesis
      using sub(3) by (simp add: linked unat_pred_pos card_Diff_singleton)
  qed
  ultimately have "hashg_links ?g ?bs"
    using links hashg_cut_dom [OF n] by (simp add: hashg_links_def)
  with that [OF n hashg_unlink_chain [OF n c] _ linked] show thesis by simp
qed

section \<open>Link\<close>

text \<open>The whole effect of pushing \<open>p\<close> in front of bucket \<open>i\<close>, whose head was \<open>c\<close>.\<close>

definition hashg_push :: "('k, 'd) hashg \<Rightarrow> addr \<Rightarrow> ('k, 'd) hashgnode \<Rightarrow> nat \<Rightarrow> addr \<Rightarrow> ('k, 'd) hashg" where
  "hashg_push g p n i c = g\<lparr>
     hg_heap := (\<lambda>x. if x = p then Some (n\<lparr>hn_next := c, hn_prev := Some (Bucket i)\<rparr>)
                     else if x = c then map_option (\<lambda>k. k\<lparr>hn_prev := Some (NextOf p)\<rparr>) (hg_heap g x)
                     else hg_heap g x),
     hg_bucket := (hg_bucket g)(i \<mapsto> p),
     hg_uiLinkedCnt := hg_uiLinkedCnt g + 1\<rparr>"

lemma hashg_push_simps [simp]:
  "hashg_static (hashg_push g p n i c) = hashg_static g"
  "hg_uiLinkedCnt (hashg_push g p n i c) = hg_uiLinkedCnt g + 1"
  "gsize (hashg_push g p n i c) = gsize g"
  by (simp_all add: hashg_push_def hashg_static_def gsize_def)

lemma hashg_push_heap:
  "hg_heap (hashg_push g p n i c) x =
     (if x = p then Some (n\<lparr>hn_next := c, hn_prev := Some (Bucket i)\<rparr>)
      else if x = c then map_option (\<lambda>k. k\<lparr>hn_prev := Some (NextOf p)\<rparr>) (hg_heap g x)
      else hg_heap g x)"
  by (simp add: hashg_push_def)

lemma hashg_push_kd: "hg_heap g p = Some n \<Longrightarrow> hashg_kd (hashg_push g p n i c) = hashg_kd g"
proof
  fix x assume n: "hg_heap g p = Some n"
  show "hashg_kd (hashg_push g p n i c) x = hashg_kd g x"
    using n by (cases "x = p"; cases "x = c"; cases "hg_heap g x")
      (simp_all add: hashg_kd_def hashg_push_heap)
qed

lemma hashg_push_dom: "hg_heap g p = Some n \<Longrightarrow> dom (hg_heap (hashg_push g p n i c)) = dom (hg_heap g)"
  by (auto simp: dom_def hashg_push_heap split: if_splits)

lemma hashg_push_linked:
  assumes "c \<in> hashg_linked g \<or> hg_heap g c = None"
  shows "hashg_linked (hashg_push g p n i c) = insert p (hashg_linked g)"
proof (rule set_eqI)
  fix x
  show "x \<in> hashg_linked (hashg_push g p n i c) \<longleftrightarrow> x \<in> insert p (hashg_linked g)"
    using assms by (cases "x = p"; cases "x = c") (auto simp: hashg_linked_def hashg_push_heap)
qed

lemma hashg_link_chain:
  assumes "hg_heap g p = Some n" "hashg_hash g (hn_pstKey n) = Some idx" "i = unat idx"
    "hg_bucket g i = Some c" "c \<noteq> p" "c \<noteq> 0 \<Longrightarrow> hg_heap g c \<noteq> None" "hg_heap g 0 = None"
  shows "hashg_link_node g p = Some (hashg_push g p n i c)"
proof -
  define E where "E = (if c = 0 then (hg_heap g)(p \<mapsto> n\<lparr>hn_next := c, hn_prev := Some (Bucket i)\<rparr>)
    else (hg_heap g)(p \<mapsto> n\<lparr>hn_next := c\<rparr>, c \<mapsto> (the (hg_heap g c))\<lparr>hn_prev := Some (NextOf p)\<rparr>,
                     p \<mapsto> n\<lparr>hn_next := c, hn_prev := Some (Bucket i)\<rparr>))"
  have E: "hg_heap (hashg_push g p n i c) = E"
  proof
    fix x
    show "hg_heap (hashg_push g p n i c) x = E x"
      using assms(5,6,7) by (cases "x = p"; cases "x = c"; cases "c = 0") (auto simp: hashg_push_heap E_def)
  qed
  have "hashg_link_node g p = Some (g\<lparr>hg_heap := E, hg_bucket := (hg_bucket g)(i \<mapsto> p),
      hg_uiLinkedCnt := hg_uiLinkedCnt g + 1\<rparr>)"
    using assms by (cases "c = 0") (auto simp: hashg_link_node_def hashg_upd_Some E_def Let_def)
  also have "g\<lparr>hg_heap := E, hg_bucket := (hg_bucket g)(i \<mapsto> p),
      hg_uiLinkedCnt := hg_uiLinkedCnt g + 1\<rparr> = hashg_push g p n i c"
    unfolding E [symmetric] by (simp add: hashg_push_def)
  finally show ?thesis .
qed

lemma hashg_link_links:
  assumes links: "hashg_links g bs" and p: "hg_heap g p = Some n" "p \<notin> hashg_linked g"
    and h: "hashg_hash g (hn_pstKey n) = Some idx" "unat idx < gsize g"
    and room: "unat (hg_uiLinkedCnt g) < unat (m :: u32)"
  obtains c where "hashg_link_node g p = Some (hashg_push g p n (unat idx) c)"
    "hashg_links (hashg_push g p n (unat idx) c) (bs(unat idx := p # bs (unat idx)))"
    "hashg_linked (hashg_push g p n (unat idx) c) = insert p (hashg_linked g)" "c \<noteq> p"
    "c \<in> insert 0 (hashg_linked g)"
proof -
  let ?i = "unat idx"
  obtain c where c: "hg_bucket g ?i = Some c" "gseg (hg_heap g) (Bucket ?i) c (bs ?i)" "distinct (bs ?i)"
    using links h(2) by (auto simp: hashg_links_def hashg_chain_def)
  have zero: "hg_heap g 0 = None" using links by (auto simp: hashg_links_def)
  have sub: "set (bs ?i) \<subseteq> hashg_linked g" by (rule hashg_chain_linked [OF links h(2)])
  have cur: "c = (if bs ?i = [] then 0 else hd (bs ?i))" by (rule gseg_cur [OF c(2)])
  then have cin: "c \<in> insert 0 (hashg_linked g)" using sub by (cases "bs ?i") auto
  have p0: "p \<noteq> 0" using p(1) zero by auto
  then have cp: "c \<noteq> p" using cin p(2) by auto
  let ?g = "hashg_push g p n ?i c"
  let ?bs = "bs(?i := p # bs ?i)"
  have link: "hashg_link_node g p = Some ?g"
    using cin zero by (intro hashg_link_chain [OF p(1) h(1) refl c(1) cp]) (auto simp: hashg_linked_def)
  have linked: "hashg_linked ?g = insert p (hashg_linked g)"
    using cin zero by (intro hashg_push_linked) auto
  have chain: "hashg_chain ?g ?i (p # bs ?i)"
  proof (cases "bs ?i")
    case Nil
    with cur have "c = 0" by simp
    with Nil p0 show ?thesis by (simp add: hashg_chain_def hashg_push_heap) (simp add: hashg_push_def)
  next
    case (Cons x xs)
    with cur have x: "x = c" by simp
    obtain nc where nc: "hg_heap g c = Some nc" "gseg (hg_heap g) (NextOf c) (hn_next nc) xs" "c \<noteq> 0"
      using c(2) Cons by auto
    have "p \<notin> set (bs ?i)" using sub p(2) by auto
    moreover have "gseg (hg_heap ?g) (NextOf c) (hn_next nc) xs"
    proof (subst gseg_cong)
      show "hg_heap ?g y = hg_heap g y" if "y \<in> set xs" for y
        using that c(3) Cons x calculation by (auto simp: hashg_push_heap)
    qed (rule nc(2))
    ultimately show ?thesis
      using Cons x nc c(3) p0 cp by (simp add: hashg_chain_def hashg_push_heap) (simp add: hashg_push_def)
  qed
  have dj: "set (bs ?i) \<inter> set (bs j) = {}" if "j < gsize g" "j \<noteq> ?i" for j
    using links h(2) that by (auto simp: hashg_links_def)
  have "hashg_chain ?g j (?bs j)" if j: "j < gsize g" for j
  proof (cases "j = ?i")
    case False
    have "hashg_chain ?g j (bs j)"
    proof (rule hashg_chain_cong)
      show "hashg_chain g j (bs j)" using links j by (simp add: hashg_links_def)
      show "hg_bucket ?g j = hg_bucket g j" using False by (simp add: hashg_push_def)
      show "hg_heap ?g x = hg_heap g x" if x: "x \<in> set (bs j)" for x
      proof -
        have "x \<in> hashg_linked g" using x hashg_chain_linked [OF links j] by auto
        moreover have "x \<noteq> 0" using calculation zero by (auto simp: hashg_linked_def)
        moreover have "x \<notin> set (bs ?i)" using x dj [OF j False] by auto
        ultimately have "x \<noteq> p \<and> x \<noteq> c" using p(2) cur hd_in_set [of "bs ?i"] by auto
        then show ?thesis by (simp add: hashg_push_heap)
      qed
    qed
    then show ?thesis using False by simp
  qed (use chain in simp)
  moreover have "hashg_linked ?g = (\<Union>j < gsize g. set (?bs j))"
  proof -
    have "insert p (\<Union>j < gsize g. set (bs j)) = (\<Union>j < gsize g. set (?bs j))"
      using h(2) by (auto split: if_splits)
    then show ?thesis using linked links by (simp add: hashg_links_def)
  qed
  moreover have "\<forall>j < gsize g. \<forall>l < gsize g. j \<noteq> l \<longrightarrow> set (?bs j) \<inter> set (?bs l) = {}"
    using links p(2) dj by (intro upd_disjoint [where A = "insert p (set (bs ?i))"]) (auto simp: hashg_links_def)
  moreover have "unat (hg_uiLinkedCnt g + 1) = card (hashg_linked ?g)"
    using unat_Suc_bounded [OF room] links p(2) finite_hashg_linked [OF links]
    by (simp add: linked hashg_links_def)
  ultimately have "hashg_links ?g ?bs"
    using links hashg_push_dom [OF p(1)] by (simp add: hashg_links_def)
  then show thesis using that [OF link _ linked cp cin] by simp
qed

end
