(* ===== verification/HashgTable.thy ===== *)
theory HashgTable
  imports HashgProps
begin

text \<open>
  \<^verbatim>\<open>hashg.c\<close> as a bounded map: the representation invariant with the keys in place, lookup,
  insertion, unlinking and deletion over it, and the two instances of the table contract: with a
  \<open>malloc\<close> that may fail and with one that does not.
\<close>

section \<open>Tables whose keys are in place\<close>

definition hashg_key :: "('k, 'd) hashg \<Rightarrow> addr \<Rightarrow> 'k" where
  "hashg_key g p = fst (the (hashg_kd g p))"

definition hashg_data :: "('k, 'd) hashg \<Rightarrow> addr \<Rightarrow> 'd" where
  "hashg_data g p = snd (the (hashg_kd g p))"

definition hashg_total :: "('k, 'd) hashg \<Rightarrow> bool" where
  "hashg_total g \<longleftrightarrow> (\<forall>k. \<exists>w. hashg_hash g k = Some w \<and> unat w < gsize g)"

definition hashg_placed :: "('k, 'd) hashg \<Rightarrow> (nat \<Rightarrow> addr list) \<Rightarrow> bool" where
  "hashg_placed g bs \<longleftrightarrow> (\<forall>i < gsize g. \<forall>p \<in> set (bs i).
     \<exists>w. hashg_hash g (hashg_key g p) = Some w \<and> unat w = i)"

definition hashg_rep :: "('k, 'd) hashg \<Rightarrow> (nat \<Rightarrow> addr list) \<Rightarrow> bool" where
  "hashg_rep g bs \<longleftrightarrow> hashg_links g bs \<and> hashg_total g \<and> hashg_placed g bs \<and>
     inj_on (hashg_key g) (hashg_linked g)"

definition hashg_wf :: "('k, 'd) hashg \<Rightarrow> bool" where
  "hashg_wf g \<longleftrightarrow> (\<exists>bs. hashg_rep g bs)"

definition hashg_view :: "('k, 'd) hashg \<Rightarrow> 'k \<rightharpoonup> 'd" where
  "hashg_view g k =
     (case hashg_find g k of
        None \<Rightarrow> None
      | Some p \<Rightarrow> if p = 0 then None else Some (hashg_data g p))"

lemma hashg_key_node: "hg_heap g p = Some n \<Longrightarrow> hashg_key g p = hn_pstKey n \<and> hashg_data g p = hn_pstData n"
  by (simp add: hashg_key_def hashg_data_def hashg_kd_def)

lemma hashg_kd_cong: "hashg_kd g' = hashg_kd g \<Longrightarrow> hashg_key g' = hashg_key g \<and> hashg_data g' = hashg_data g"
  by (simp add: fun_eq_iff hashg_key_def hashg_data_def)

lemma hashg_linked_nonzero: "hashg_links g bs \<Longrightarrow> p \<in> hashg_linked g \<Longrightarrow> p \<noteq> 0"
  by (auto simp: hashg_links_def hashg_linked_def)

section \<open>Find\<close>

declare hashg_find_loop.simps [code]

lemma hashg_find_loop_chain:
  "gseg (hg_heap g) s cur xs \<Longrightarrow>
   hashg_find_loop g k cur = Some (case List.find (\<lambda>p. hashg_key g p = k) xs of None \<Rightarrow> 0 | Some p \<Rightarrow> p)"
proof (induction xs arbitrary: s cur)
  case Nil
  then show ?case by (simp add: hashg_find_loop.simps)
next
  case (Cons x xs)
  then obtain n where n: "cur = x" "x \<noteq> 0" "hg_heap g x = Some n"
    "gseg (hg_heap g) (NextOf x) (hn_next n) xs" by auto
  then show ?case
    using Cons.IH [OF n(4)] hashg_key_node [OF n(3)] by (simp add: hashg_find_loop.simps [of g k x])
qed

lemma hashg_find_bucket:
  assumes "hashg_rep g bs" "hashg_hash g k = Some w" "unat w < gsize g"
  shows "hashg_find g k =
    Some (case List.find (\<lambda>p. hashg_key g p = k) (bs (unat w)) of None \<Rightarrow> 0 | Some p \<Rightarrow> p)"
proof -
  obtain c where "hg_bucket g (unat w) = Some c" "gseg (hg_heap g) (Bucket (unat w)) c (bs (unat w))"
    using assms(1,3) by (auto simp: hashg_rep_def hashg_links_def hashg_chain_def)
  with hashg_find_loop_chain assms(2) show ?thesis by (simp add: hashg_find_def)
qed

lemma hashg_node_bucket:
  assumes "hashg_rep g bs" "p \<in> hashg_linked g"
  obtains w where "hashg_hash g (hashg_key g p) = Some w" "unat w < gsize g" "p \<in> set (bs (unat w))"
proof -
  from assms obtain i where i: "i < gsize g" "p \<in> set (bs i)"
    by (auto simp: hashg_rep_def hashg_links_def)
  moreover from assms(1) i obtain w where "hashg_hash g (hashg_key g p) = Some w" "unat w = i"
    by (auto simp: hashg_rep_def hashg_placed_def)
  ultimately show thesis using that by blast
qed

lemma hashg_find_hit:
  assumes "hashg_rep g bs" "p \<in> hashg_linked g"
  shows "hashg_find g (hashg_key g p) = Some p"
proof -
  obtain w where w: "hashg_hash g (hashg_key g p) = Some w" "unat w < gsize g" "p \<in> set (bs (unat w))"
    using hashg_node_bucket [OF assms] .
  from w(3) obtain q where q: "List.find (\<lambda>q. hashg_key g q = hashg_key g p) (bs (unat w)) = Some q"
    by (metis (mono_tags, lifting) find_None_iff not_None_eq)
  then have "q \<in> set (bs (unat w))" "hashg_key g q = hashg_key g p" by (auto simp: find_Some_iff)
  moreover have "set (bs (unat w)) \<subseteq> hashg_linked g"
    using assms(1) w(2) hashg_chain_linked by (auto simp: hashg_rep_def)
  ultimately have "q = p" using assms by (auto simp: hashg_rep_def inj_on_def)
  with q hashg_find_bucket [OF assms(1) w(1,2)] show ?thesis by simp
qed

lemma hashg_find_miss:
  assumes "hashg_rep g bs" "k \<notin> hashg_key g ` hashg_linked g"
  shows "hashg_find g k = Some 0"
proof -
  from assms(1) obtain w where w: "hashg_hash g k = Some w" "unat w < gsize g"
    by (auto simp: hashg_rep_def hashg_total_def)
  have "set (bs (unat w)) \<subseteq> hashg_linked g"
    using assms(1) w(2) hashg_chain_linked by (auto simp: hashg_rep_def)
  then have "List.find (\<lambda>p. hashg_key g p = k) (bs (unat w)) = None"
    using assms(2) by (auto simp: find_None_iff)
  with hashg_find_bucket [OF assms(1) w] show ?thesis by simp
qed

lemma hashg_view_hit:
  "hashg_rep g bs \<Longrightarrow> p \<in> hashg_linked g \<Longrightarrow> hashg_view g (hashg_key g p) = Some (hashg_data g p)"
  using hashg_linked_nonzero [of g bs p] by (simp add: hashg_view_def hashg_find_hit) (simp add: hashg_rep_def)

lemma hashg_view_miss: "hashg_rep g bs \<Longrightarrow> k \<notin> hashg_key g ` hashg_linked g \<Longrightarrow> hashg_view g k = None"
  by (simp add: hashg_view_def hashg_find_miss)

lemma hashg_view_dom:
  assumes "hashg_rep g bs"
  shows "dom (hashg_view g) = hashg_key g ` hashg_linked g"
proof (intro equalityI subsetI)
  fix k assume "k \<in> dom (hashg_view g)"
  then show "k \<in> hashg_key g ` hashg_linked g"
    using hashg_view_miss [OF assms, of k] by (cases "k \<in> hashg_key g ` hashg_linked g") (simp_all add: domIff)
next
  fix k assume "k \<in> hashg_key g ` hashg_linked g"
  then show "k \<in> dom (hashg_view g)" using hashg_view_hit [OF assms] by auto
qed

lemma hashg_view_eqI:
  assumes "hashg_rep g bs" "\<And>p. p \<in> hashg_linked g \<Longrightarrow> f (hashg_key g p) = Some (hashg_data g p)"
    "\<And>k. k \<notin> hashg_key g ` hashg_linked g \<Longrightarrow> f k = None"
  shows "hashg_view g = f"
proof
  fix k
  show "hashg_view g k = f k"
  proof (cases "k \<in> hashg_key g ` hashg_linked g")
    case True
    then show ?thesis using hashg_view_hit [OF assms(1)] assms(2) by auto
  next
    case False
    then show ?thesis using hashg_view_miss [OF assms(1)] assms(3) by simp
  qed
qed

section \<open>Delete and add\<close>

text \<open>Unlinking a node takes its key out; the node stays in the heap, detached.\<close>

lemma hashg_unlink_rep:
  assumes rep: "hashg_rep g bs" and p: "p \<in> hashg_linked g"
  obtains g' bs' where "hashg_unlink_node g p = Some g'" "hashg_rep g' bs'"
    "hashg_linked g' = hashg_linked g - {p}" "hashg_static g' = hashg_static g"
    "hashg_kd g' = hashg_kd g" "dom (hg_heap g') = dom (hg_heap g)"
    "hashg_view g' = (hashg_view g)(hashg_key g p := None)"
proof -
  have links: "hashg_links g bs" using rep by (simp add: hashg_rep_def)
  obtain i as cs where i: "i < gsize g" "bs i = as @ p # cs" using hashg_linked_bucket [OF links p] .
  obtain n where n: "hg_heap g p = Some n" "hashg_unlink_node g p = Some (hashg_cut g p n i as cs)"
    "hashg_links (hashg_cut g p n i as cs) (bs(i := as @ cs))"
    "hashg_linked (hashg_cut g p n i as cs) = hashg_linked g - {p}"
    using hashg_unlink_links [OF links i] .
  let ?g = "hashg_cut g p n i as cs"
  have kd: "hashg_kd ?g = hashg_kd g" by (rule hashg_cut_kd [OF n(1)])
  note kd' = hashg_kd_cong [OF kd]
  have st: "hashg_static ?g = hashg_static g" by simp
  note st' = hashg_staticD [OF st]
  have "hashg_placed ?g (bs(i := as @ cs))"
    using rep i kd' st' by (auto simp: hashg_rep_def hashg_placed_def)
  moreover have inj: "inj_on (hashg_key g) (hashg_linked g)" using rep by (simp add: hashg_rep_def)
  then have "inj_on (hashg_key ?g) (hashg_linked ?g)"
    using n(4) kd' by (auto intro: inj_on_subset)
  ultimately have rep': "hashg_rep ?g (bs(i := as @ cs))"
    using rep n(3) st' by (simp add: hashg_rep_def hashg_total_def)
  have "hashg_view ?g = (hashg_view g)(hashg_key g p := None)"
  proof (rule hashg_view_eqI [OF rep'])
    fix q assume "q \<in> hashg_linked ?g"
    then have q: "q \<in> hashg_linked g" "q \<noteq> p" using n(4) by auto
    then have "hashg_key g q \<noteq> hashg_key g p" using inj p by (auto simp: inj_on_def)
    then show "((hashg_view g)(hashg_key g p := None)) (hashg_key ?g q) = Some (hashg_data ?g q)"
      using hashg_view_hit [OF rep q(1)] kd' by simp
  next
    fix k assume "k \<notin> hashg_key ?g ` hashg_linked ?g"
    then have "k = hashg_key g p \<or> k \<notin> hashg_key g ` hashg_linked g" using n(4) kd' by auto
    then show "((hashg_view g)(hashg_key g p := None)) k = None" using hashg_view_miss [OF rep] by auto
  qed
  then show thesis using that [OF n(2) rep' n(4) st kd hashg_cut_dom [OF n(1)]] by simp
qed

text \<open>A detached node can be freed.\<close>

lemma hashg_free_rep:
  assumes rep: "hashg_rep g bs" and p: "p \<in> dom (hg_heap g)" "p \<notin> hashg_linked g"
  obtains g' where "hashg_free g p = Some g'" "hashg_rep g' bs" "hashg_linked g' = hashg_linked g"
    "hashg_static g' = hashg_static g" "hashg_view g' = hashg_view g"
    "dom (hg_heap g') = dom (hg_heap g) - {p}" "\<And>q. q \<noteq> p \<Longrightarrow> hg_heap g' q = hg_heap g q"
proof -
  let ?g = "g\<lparr>hg_heap := (hg_heap g)(p := None)\<rparr>"
  have links: "hashg_links g bs" using rep by (simp add: hashg_rep_def)
  have linked: "hashg_linked ?g = hashg_linked g" using p(2) by (auto simp: hashg_linked_def)
  have st: "hashg_static ?g = hashg_static g" by (simp add: hashg_static_def)
  note st' = hashg_staticD [OF st]
  have other: "q \<noteq> p" if "q \<in> hashg_linked g" for q using that p(2) by auto
  have key: "hashg_key ?g q = hashg_key g q" "hashg_data ?g q = hashg_data g q" if "q \<in> hashg_linked g" for q
    using other [OF that] by (simp_all add: hashg_key_def hashg_data_def hashg_kd_def)
  have "hashg_chain ?g i (bs i)" if i: "i < gsize g" for i
  proof (rule hashg_chain_cong [where g = g])
    show "hashg_chain g i (bs i)" using links i by (simp add: hashg_links_def)
    show "hg_heap ?g x = hg_heap g x" if "x \<in> set (bs i)" for x
      using that hashg_chain_linked [OF links i] other [of x] by auto
  qed simp
  then have "hashg_links ?g bs"
    using links linked st' by (simp add: hashg_links_def)
  moreover have "hashg_placed ?g bs"
    unfolding hashg_placed_def
  proof (intro allI ballI impI)
    fix i q assume i: "i < gsize ?g" "q \<in> set (bs i)"
    then have "q \<in> hashg_linked g" using hashg_chain_linked [OF links, of i] st' by auto
    with key(1) have "hashg_key ?g q = hashg_key g q" by simp
    with rep i st' show "\<exists>w. hashg_hash ?g (hashg_key ?g q) = Some w \<and> unat w = i"
      by (simp add: hashg_rep_def hashg_placed_def)
  qed
  moreover have "inj_on (hashg_key ?g) (hashg_linked ?g)"
    unfolding linked using inj_on_cong [of "hashg_linked g" "hashg_key ?g" "hashg_key g"] key(1) rep
    by (simp add: hashg_rep_def)
  ultimately have rep': "hashg_rep ?g bs"
    using rep st' by (simp add: hashg_rep_def hashg_total_def)
  have "hashg_view ?g = hashg_view g"
    using hashg_view_hit [OF rep] hashg_view_miss [OF rep] linked key
    by (intro hashg_view_eqI [OF rep']) auto
  moreover have "hashg_free g p = Some ?g" using p(1) by (auto simp: hashg_free_def)
  ultimately show thesis using that [of ?g] rep' linked st by auto
qed

text \<open>Tables that agree on the linked nodes, the buckets and the parameters stand for the same map;
  the detached nodes do not matter.\<close>

lemma hashg_rep_detached:
  assumes rep: "hashg_rep g bs" and new: "p \<notin> dom (hg_heap g)" "p \<noteq> 0" "hn_prev n = None"
  defines "g' \<equiv> g\<lparr>hg_heap := (hg_heap g)(p \<mapsto> n)\<rparr>"
  shows "hashg_rep g' bs" "hashg_linked g' = hashg_linked g" "hashg_view g' = hashg_view g"
    "hashg_static g' = hashg_static g" "\<And>q. q \<in> hashg_linked g \<Longrightarrow> hashg_key g' q = hashg_key g q"
proof -
  have links: "hashg_links g bs" using rep by (simp add: hashg_rep_def)
  show linked: "hashg_linked g' = hashg_linked g"
    using new by (auto simp: hashg_linked_def g'_def)
  show st: "hashg_static g' = hashg_static g" by (simp add: hashg_static_def g'_def)
  note st' = hashg_staticD [OF st]
  have other: "q \<noteq> p" if "q \<in> hashg_linked g" for q using that new(1) by (auto simp: hashg_linked_def)
  have key: "hashg_key g' q = hashg_key g q" "hashg_data g' q = hashg_data g q" if "q \<in> hashg_linked g" for q
    using other [OF that] by (simp_all add: hashg_key_def hashg_data_def hashg_kd_def g'_def)
  have "hashg_chain g' i (bs i)" if i: "i < gsize g" for i
  proof (rule hashg_chain_cong [where g = g])
    show "hashg_chain g i (bs i)" using links i by (simp add: hashg_links_def)
    show "hg_heap g' x = hg_heap g x" if "x \<in> set (bs i)" for x
      using that hashg_chain_linked [OF links i] other [of x] by (auto simp: g'_def)
  qed (simp add: g'_def)
  then have "hashg_links g' bs"
    using links linked st' new by (simp add: hashg_links_def) (simp add: g'_def)
  moreover have "hashg_placed g' bs"
    unfolding hashg_placed_def
  proof (intro allI ballI impI)
    fix i q assume i: "i < gsize g'" "q \<in> set (bs i)"
    then have "q \<in> hashg_linked g" using hashg_chain_linked [OF links, of i] st' by auto
    with key(1) have "hashg_key g' q = hashg_key g q" by simp
    with rep i st' show "\<exists>w. hashg_hash g' (hashg_key g' q) = Some w \<and> unat w = i"
      by (simp add: hashg_rep_def hashg_placed_def)
  qed
  moreover have "inj_on (hashg_key g') (hashg_linked g')"
    unfolding linked using inj_on_cong [of "hashg_linked g" "hashg_key g'" "hashg_key g"] key(1) rep
    by (simp add: hashg_rep_def)
  ultimately show rep': "hashg_rep g' bs"
    using rep st' by (simp add: hashg_rep_def hashg_total_def)
  show "hashg_view g' = hashg_view g"
    using hashg_view_hit [OF rep] hashg_view_miss [OF rep] linked key
    by (intro hashg_view_eqI [OF rep']) auto
  show "\<And>q. q \<in> hashg_linked g \<Longrightarrow> hashg_key g' q = hashg_key g q" using key by simp
qed

text \<open>Linking a detached node whose key is new inserts its key and data.\<close>

lemma hashg_link_rep:
  assumes rep: "hashg_rep g bs" and p: "hg_heap g p = Some n" "p \<notin> hashg_linked g"
    and new: "hn_pstKey n \<notin> hashg_key g ` hashg_linked g"
    and room: "hg_uiLinkedCnt g < m"
  obtains g' bs' where "hashg_link_node g p = Some g'" "hashg_rep g' bs'"
    "hashg_linked g' = insert p (hashg_linked g)" "hashg_static g' = hashg_static g"
    "hashg_kd g' = hashg_kd g" "dom (hg_heap g') = dom (hg_heap g)"
    "hashg_view g' = (hashg_view g)(hn_pstKey n \<mapsto> hn_pstData n)"
proof -
  have links: "hashg_links g bs" using rep by (simp add: hashg_rep_def)
  obtain w where w: "hashg_hash g (hn_pstKey n) = Some w" "unat w < gsize g"
    using rep by (auto simp: hashg_rep_def hashg_total_def)
  obtain c where l: "hashg_link_node g p = Some (hashg_push g p n (unat w) c)"
    "hashg_links (hashg_push g p n (unat w) c) (bs(unat w := p # bs (unat w)))"
    "hashg_linked (hashg_push g p n (unat w) c) = insert p (hashg_linked g)"
    using hashg_link_links [OF links p w, of m] room by (auto simp: word_less_nat_alt)
  let ?g = "hashg_push g p n (unat w) c"
  have kd: "hashg_kd ?g = hashg_kd g" by (rule hashg_push_kd [OF p(1)])
  note kd' = hashg_kd_cong [OF kd]
  have st: "hashg_static ?g = hashg_static g" by simp
  note st' = hashg_staticD [OF st]
  have pk: "hashg_key g p = hn_pstKey n" "hashg_data g p = hn_pstData n"
    using hashg_key_node [OF p(1)] by auto
  have "hashg_placed ?g (bs(unat w := p # bs (unat w)))"
    using rep w kd' st' pk by (auto simp: hashg_rep_def hashg_placed_def)
  moreover have "inj_on (hashg_key ?g) (hashg_linked ?g)"
    using rep new pk kd' l(3) p(2) by (auto simp: hashg_rep_def)
  ultimately have rep': "hashg_rep ?g (bs(unat w := p # bs (unat w)))"
    using rep l(2) st' by (simp add: hashg_rep_def hashg_total_def)
  have "hashg_view ?g = (hashg_view g)(hn_pstKey n \<mapsto> hn_pstData n)"
  proof (rule hashg_view_eqI [OF rep'])
    fix q assume "q \<in> hashg_linked ?g"
    then consider "q = p" | "q \<in> hashg_linked g" "q \<noteq> p" using l(3) by auto
    then show "((hashg_view g)(hn_pstKey n \<mapsto> hn_pstData n)) (hashg_key ?g q) = Some (hashg_data ?g q)"
    proof cases
      case 1
      then show ?thesis using kd' pk by simp
    next
      case 2
      then have "hashg_key g q \<noteq> hn_pstKey n" using new by (metis imageI)
      then show ?thesis using hashg_view_hit [OF rep 2(1)] kd' by simp
    qed
  next
    fix k assume "k \<notin> hashg_key ?g ` hashg_linked ?g"
    then have "k \<noteq> hn_pstKey n" "k \<notin> hashg_key g ` hashg_linked g" using l(3) kd' pk by auto
    then show "((hashg_view g)(hn_pstKey n \<mapsto> hn_pstData n)) k = None"
      using hashg_view_miss [OF rep] by simp
  qed
  then show thesis using that [OF l(1) rep' l(3) st kd hashg_push_dom [OF p(1)]] by simp
qed

text \<open>\<open>malloc\<close>: NULL, or an address that is not in use.\<close>

definition malloc_sound :: "(addr set \<Rightarrow> addr) \<Rightarrow> bool" where
  "malloc_sound malloc \<longleftrightarrow> (\<forall>A. finite A \<longrightarrow> malloc A = 0 \<or> malloc A \<notin> A)"

definition malloc_total :: "(addr set \<Rightarrow> addr) \<Rightarrow> bool" where
  "malloc_total malloc \<longleftrightarrow> malloc_sound malloc \<and> (\<forall>A. finite A \<longrightarrow> malloc A \<noteq> 0)"

definition hashg_room :: "(addr set \<Rightarrow> addr) \<Rightarrow> ('k, 'd) hashg \<Rightarrow> bool" where
  "hashg_room malloc g \<longleftrightarrow> hg_uiLinkedCnt g < hg_MaxNodeCnt g \<and> malloc (dom (hg_heap g)) \<noteq> 0"

lemma hashg_add_refused:
  assumes "hashg_rep g bs" "hashg_view g k \<noteq> None \<or> \<not> hashg_room malloc g"
  shows "hashg_add malloc g k d = Some (g, 0)"
proof (cases "k \<in> hashg_key g ` hashg_linked g")
  case True
  then obtain p where "p \<in> hashg_linked g" "k = hashg_key g p" by blast
  with hashg_find_hit [OF assms(1)] hashg_linked_nonzero assms(1) show ?thesis
    by (auto simp: hashg_add_def hashg_rep_def)
next
  case False
  then have "\<not> hashg_room malloc g" using assms hashg_view_miss by fastforce
  with hashg_find_miss [OF assms(1) False] show ?thesis
    by (auto simp: hashg_add_def hashg_room_def)
qed

lemma hashg_add_new:
  assumes rep: "hashg_rep g bs" and new: "hashg_view g k = None"
    and mal: "malloc_sound malloc" "hashg_room malloc g"
  obtains g' bs' p where "hashg_add malloc g k d = Some (g', p)" "p \<noteq> 0" "hashg_rep g' bs'"
    "p \<notin> dom (hg_heap g)" "hashg_linked g' = insert p (hashg_linked g)"
    "dom (hg_heap g') = insert p (dom (hg_heap g))" "hashg_static g' = hashg_static g"
    "hashg_view g' = (hashg_view g)(k \<mapsto> d)"
    "\<And>q. q \<in> dom (hg_heap g) \<Longrightarrow> hashg_kd g' q = hashg_kd g q"
proof -
  let ?p = "malloc (dom (hg_heap g))"
  let ?n = "\<lparr>hn_next = 0, hn_prev = None, hn_pstKey = k, hn_pstData = d\<rparr>"
  let ?g = "g\<lparr>hg_heap := (hg_heap g)(?p \<mapsto> ?n)\<rparr>"
  have k: "k \<notin> hashg_key g ` hashg_linked g" using new hashg_view_hit [OF rep] by auto
  have "finite (dom (hg_heap g))" using rep by (simp add: hashg_rep_def hashg_links_def)
  then have p: "?p \<noteq> 0" "?p \<notin> dom (hg_heap g)"
    using mal by (auto simp: malloc_sound_def hashg_room_def)
  have prev: "hn_prev ?n = None" by simp
  note g1 = hashg_rep_detached [OF rep p(2,1) prev]
  have "hn_pstKey ?n \<notin> hashg_key ?g ` hashg_linked ?g" using k g1(2,5) by simp
  moreover have "?p \<notin> hashg_linked ?g" using g1(2) p(2) by (auto simp: hashg_linked_def)
  moreover have "hg_uiLinkedCnt ?g < hg_MaxNodeCnt g" using mal(2) by (simp add: hashg_room_def)
  moreover have "hg_heap ?g ?p = Some ?n" by simp
  ultimately obtain g' bs' where g': "hashg_link_node ?g ?p = Some g'" "hashg_rep g' bs'"
    "hashg_linked g' = insert ?p (hashg_linked ?g)" "hashg_static g' = hashg_static ?g"
    "hashg_kd g' = hashg_kd ?g" "dom (hg_heap g') = dom (hg_heap ?g)"
    "hashg_view g' = (hashg_view ?g)(hn_pstKey ?n \<mapsto> hn_pstData ?n)"
    using hashg_link_rep [OF g1(1)] by metis
  have add: "hashg_add malloc g k d = Some (g', ?p)"
    using g'(1) p(1) mal(2) hashg_find_miss [OF rep k] by (simp add: hashg_add_def hashg_room_def)
  have "hashg_kd g' q = hashg_kd g q" if "q \<in> dom (hg_heap g)" for q
    using that p(2) g'(5) by (auto simp: hashg_kd_def fun_eq_iff)
  then show thesis
    using that [OF add p(1) g'(2) p(2)] g'(3,4,6,7) g1(2,3,4) by auto
qed

lemma hashg_del_rep:
  assumes rep: "hashg_rep g bs" and p: "p \<in> hashg_linked g"
  obtains g' bs' where "hashg_del g p = Some g'" "hashg_rep g' bs'"
    "hashg_linked g' = hashg_linked g - {p}" "hashg_static g' = hashg_static g"
    "dom (hg_heap g') = dom (hg_heap g) - {p}" "hashg_view g' = (hashg_view g)(hashg_key g p := None)"
    "\<And>q. q \<noteq> p \<Longrightarrow> hashg_kd g' q = hashg_kd g q"
proof -
  obtain g1 bs1 where u: "hashg_unlink_node g p = Some g1" "hashg_rep g1 bs1"
    "hashg_linked g1 = hashg_linked g - {p}" "hashg_static g1 = hashg_static g"
    "hashg_kd g1 = hashg_kd g" "dom (hg_heap g1) = dom (hg_heap g)"
    "hashg_view g1 = (hashg_view g)(hashg_key g p := None)"
    using hashg_unlink_rep [OF rep p] .
  have "p \<in> dom (hg_heap g1)" "p \<notin> hashg_linked g1"
    using p u(3,6) by (auto simp: hashg_linked_def)
  then obtain g2 where f: "hashg_free g1 p = Some g2" "hashg_rep g2 bs1"
    "hashg_linked g2 = hashg_linked g1" "hashg_static g2 = hashg_static g1"
    "hashg_view g2 = hashg_view g1" "dom (hg_heap g2) = dom (hg_heap g1) - {p}"
    "\<And>q. q \<noteq> p \<Longrightarrow> hg_heap g2 q = hg_heap g1 q"
    using hashg_free_rep [OF u(2)] by metis
  have "hashg_kd g2 q = hashg_kd g q" if "q \<noteq> p" for q
    using f(7) [OF that] fun_cong [OF u(5), of q] by (simp add: hashg_kd_def)
  moreover have "hashg_del g p = Some g2" using u(1) f(1) by (simp add: hashg_del_def)
  ultimately show thesis using that [of g2 bs1] u f by simp
qed

section \<open>The table is a bounded map\<close>

definition hashg_lookup :: "('k, 'd) hashg \<Rightarrow> 'k \<Rightarrow> 'd option option" where
  "hashg_lookup g k = do { p \<leftarrow> hashg_find g k;
     Some (if p = 0 then None else Some (hashg_data g p)) }"

definition hashg_insert ::
  "(addr set \<Rightarrow> addr) \<Rightarrow> ('k, 'd) hashg \<Rightarrow> 'k \<Rightarrow> 'd \<Rightarrow> (('k, 'd) hashg \<times> bool) option" where
  "hashg_insert malloc g k d = do { (g', p) \<leftarrow> hashg_add malloc g k d; Some (g', p \<noteq> 0) }"

definition hashg_same :: "('k, 'd) hashg \<Rightarrow> ('k, 'd) hashg \<Rightarrow> bool" where
  "hashg_same g g' \<longleftrightarrow> hashg_static g' = hashg_static g"

definition hashg_cap :: "('k, 'd) hashg \<Rightarrow> nat" where
  "hashg_cap g = unat (hg_MaxNodeCnt g)"

lemma hashg_card_dom:
  assumes "hashg_rep g bs"
  shows "card (dom (hashg_view g)) = unat (hg_uiLinkedCnt g)"
proof -
  have "inj_on (hashg_key g) (hashg_linked g)" using assms by (simp add: hashg_rep_def)
  from card_image [OF this] have "card (dom (hashg_view g)) = card (hashg_linked g)"
    by (simp only: hashg_view_dom [OF assms])
  also have "\<dots> = unat (hg_uiLinkedCnt g)"
    using assms unfolding hashg_rep_def hashg_links_def by argo
  finally show ?thesis .
qed

interpretation hashg_bounded: bounded_table "\<lambda>g. hashg_wf g \<and> malloc_sound malloc" hashg_same
  "\<lambda>g c. True" hashg_view hashg_cap "hashg_room malloc" hashg_lookup "hashg_insert malloc"
  hashg_del_from_key for malloc
proof unfold_locales
  fix g g' :: "('a, 'b) hashg"
  show "(\<lambda>c. True) = (\<lambda>c. True)" ..
  show "hashg_same g g' \<Longrightarrow> hashg_cap g' = hashg_cap g"
    using hashg_staticD [of g' g] by (simp add: hashg_same_def hashg_cap_def)
next
  fix g :: "('a, 'b) hashg" and k d
  assume wf: "hashg_wf g \<and> malloc_sound malloc"
  then obtain bs where rep: "hashg_rep g bs" by (auto simp: hashg_wf_def)
  show "finite (dom (hashg_view g))"
    using hashg_view_dom [OF rep] rep finite_hashg_linked [of g bs] by (simp add: hashg_rep_def)
  show "hashg_room malloc g \<Longrightarrow> card (dom (hashg_view g)) < hashg_cap g"
    using hashg_card_dom [OF rep] by (simp add: hashg_room_def hashg_cap_def word_less_nat_alt)
  show "hashg_lookup g k = Some (hashg_view g k)"
  proof (cases "k \<in> hashg_key g ` hashg_linked g")
    case True
    then obtain p where "p \<in> hashg_linked g" "k = hashg_key g p" by blast
    then show ?thesis
      using hashg_find_hit [OF rep, of p] by (simp add: hashg_lookup_def hashg_view_def)
  next
    case False
    then show ?thesis using hashg_find_miss [OF rep False] by (simp add: hashg_lookup_def hashg_view_def)
  qed
  show "\<exists>g'. hashg_insert malloc g k d = Some (g', True) \<and> (hashg_wf g' \<and> malloc_sound malloc) \<and>
      hashg_same g g' \<and> hashg_view g' = (hashg_view g)(k \<mapsto> d)"
    if new: "hashg_view g k = None" and room: "hashg_room malloc g"
  proof -
    have ms: "malloc_sound malloc" using wf ..
    obtain g' bs' p where "hashg_add malloc g k d = Some (g', p)" "p \<noteq> 0" "hashg_rep g' bs'"
      "p \<notin> dom (hg_heap g)" "hashg_linked g' = insert p (hashg_linked g)"
      "dom (hg_heap g') = insert p (dom (hg_heap g))" "hashg_static g' = hashg_static g"
      "hashg_view g' = (hashg_view g)(k \<mapsto> d)"
      "\<And>q. q \<in> dom (hg_heap g) \<Longrightarrow> hashg_kd g' q = hashg_kd g q"
      by (rule hashg_add_new [OF rep new ms room, of d]) (rule that)
    then show ?thesis using ms by (auto simp: hashg_insert_def hashg_wf_def hashg_same_def)
  qed
  show "hashg_insert malloc g k d = Some (g, False)"
    if "hashg_view g k \<noteq> None \<or> \<not> hashg_room malloc g"
    using hashg_add_refused [OF rep that] by (simp add: hashg_insert_def)
  show "\<exists>g'. hashg_del_from_key g k = Some g' \<and> (hashg_wf g' \<and> malloc_sound malloc) \<and>
      hashg_same g g' \<and> hashg_view g' = (hashg_view g)(k := None)"
  proof (cases "k \<in> hashg_key g ` hashg_linked g")
    case False
    then show ?thesis
      using hashg_find_miss [OF rep False] hashg_view_miss [OF rep False] wf
      by (simp add: hashg_del_from_key_def hashg_same_def fun_upd_idem)
  next
    case True
    then obtain p where p: "p \<in> hashg_linked g" "k = hashg_key g p" by blast
    obtain g' bs' where d: "hashg_del g p = Some g'" "hashg_rep g' bs'"
      "hashg_static g' = hashg_static g" "hashg_view g' = (hashg_view g)(hashg_key g p := None)"
      using hashg_del_rep [OF rep p(1)] by metis
    have "p \<noteq> 0" using hashg_linked_nonzero rep p(1) by (auto simp: hashg_rep_def)
    then have "hashg_del_from_key g k = Some g'"
      using hashg_find_hit [OF rep p(1)] p(2) d(1) by (simp add: hashg_del_from_key_def hashg_del_def)
    with d wf p(2) show ?thesis by (auto simp: hashg_wf_def hashg_same_def)
  qed
qed

text \<open>With a \<open>malloc\<close> that does not run out, the only refusals are a present key and the limit.\<close>

interpretation hashg_exact: exact_table "\<lambda>g. hashg_wf g \<and> malloc_total malloc" hashg_same
  "\<lambda>g c. True" hashg_view hashg_cap "hashg_room malloc" hashg_lookup "hashg_insert malloc"
  hashg_del_from_key for malloc
proof (intro exact_table.intro exact_table_axioms.intro)
  have sound: "hashg_wf g \<and> malloc_sound malloc" if "hashg_wf g \<and> malloc_total malloc"
    for g :: "('a, 'b) hashg"
    using that by (simp add: malloc_total_def)
  show "bounded_table (\<lambda>g :: ('a, 'b) hashg. hashg_wf g \<and> malloc_total malloc) hashg_same
      (\<lambda>g c. True) hashg_view hashg_cap (hashg_room malloc) hashg_lookup (hashg_insert malloc)
      hashg_del_from_key"
  proof (unfold_locales, goal_cases)
    case (1 s s')
    then show ?case by simp
  next
    case (2 s s')
    show ?case by (rule hashg_bounded.same_cap [OF 2])
  next
    case (3 s)
    show ?case by (rule hashg_bounded.finite_view [OF sound [OF 3(1)]])
  next
    case (4 s)
    show ?case by (rule hashg_bounded.room_cap [OF sound [OF 4(1)] 4(2)])
  next
    case (5 s k)
    show ?case by (rule hashg_bounded.find_view [OF sound [OF 5(1)] TrueI])
  next
    case (6 s k v)
    obtain s' where "hashg_insert malloc s k v = Some (s', True)" "hashg_wf s'" "hashg_same s s'"
      "hashg_view s' = (hashg_view s)(k \<mapsto> v)"
      using hashg_bounded.add_new [OF sound [OF 6(1)] TrueI 6(3,4)] by blast
    then show ?case using 6(1) by simp
  next
    case (7 s k v)
    show ?case by (rule hashg_bounded.add_refused [OF sound [OF 7(1)] TrueI 7(3)])
  next
    case (8 s k)
    obtain s' where "hashg_del_from_key s k = Some s'" "hashg_wf s'" "hashg_same s s'"
      "hashg_view s' = (hashg_view s)(k := None)"
      using hashg_bounded.del_key [OF sound [OF 8(1)] TrueI] by blast
    then show ?case using 8(1) by simp
  qed
next
  fix g g' g'' :: "('a, 'b) hashg"
  show "hashg_same g g' \<Longrightarrow> hashg_same g' g'' \<Longrightarrow> hashg_same g g''" by (simp add: hashg_same_def)
  show "hashg_same g g" by (simp add: hashg_same_def)
next
  fix g :: "('a, 'b) hashg"
  assume wf: "hashg_wf g \<and> malloc_total malloc"
  then obtain bs where rep: "hashg_rep g bs" by (auto simp: hashg_wf_def)
  then have "malloc (dom (hg_heap g)) \<noteq> 0"
    using wf by (simp add: malloc_total_def hashg_rep_def hashg_links_def)
  then show "hashg_room malloc g \<longleftrightarrow> card (dom (hashg_view g)) < hashg_cap g"
    using hashg_card_dom [OF rep] by (simp add: hashg_room_def hashg_cap_def word_less_nat_alt)
qed

section \<open>Initialisation and the occupation count\<close>

lemma hashg_default_total:
  assumes "uiHashSize \<noteq> 0"
  shows "\<exists>w. hashg_func_default usKeyLen uiHashSize pb = Some w \<and> unat w < unat uiHashSize"
proof -
  have "\<exists>w. hashg_func_default usKeyLen uiHashSize pb = Some (w mod uiHashSize)"
    using assms by (simp add: hashg_func_default_def Let_def case_prod_unfold) (rule exI, rule refl)
  then obtain w where "hashg_func_default usKeyLen uiHashSize pb = Some (w mod uiHashSize)" ..
  moreover have "unat (w mod uiHashSize) < unat uiHashSize"
    using assms by (simp add: unat_mod_distrib unat_gt_0)
  ultimately show ?thesis by simp
qed

lemma hashg_init_rep:
  assumes "hashg_init True True func usKeyLen usDataLen uiHashSize = Some g" "hashg_total g"
  shows "hashg_rep g (\<lambda>_. [])" "hashg_view g = Map.empty"
proof -
  have g: "hg_heap g = Map.empty" "hg_bucket g = (\<lambda>i. if i < gsize g then Some 0 else None)"
    "hg_uiLinkedCnt g = 0"
    using assms(1) by (auto simp: hashg_init_def gsize_def)
  have linked: "hashg_linked g = {}" by (simp add: hashg_linked_def g(1))
  have "hashg_links g (\<lambda>_. [])"
    by (simp add: hashg_links_def hashg_chain_def linked g)
  then show rep: "hashg_rep g (\<lambda>_. [])"
    using assms(2) linked by (simp add: hashg_rep_def hashg_placed_def)
  show "hashg_view g = Map.empty"
    by (rule hashg_view_eqI [OF rep]) (simp_all add: linked)
qed

lemma hashg_set_MaxNodeCnt_rep:
  assumes "hashg_rep g bs"
  shows "hashg_rep (hashg_set_MaxNodeCnt g n) bs" "hashg_view (hashg_set_MaxNodeCnt g n) = hashg_view g"
proof -
  let ?g = "hashg_set_MaxNodeCnt g n"
  have eq: "hg_heap ?g = hg_heap g" "hg_bucket ?g = hg_bucket g" "gsize ?g = gsize g"
    "hashg_hash ?g = hashg_hash g" "hashg_key ?g = hashg_key g" "hashg_data ?g = hashg_data g"
    "hashg_linked ?g = hashg_linked g" "hg_uiLinkedCnt ?g = hg_uiLinkedCnt g"
    by (simp_all add: fun_eq_iff hashg_set_MaxNodeCnt_def gsize_def hashg_hash_def hashg_key_def
        hashg_data_def hashg_kd_def hashg_linked_def)
  have "hashg_chain ?g i xs = hashg_chain g i xs" for i xs by (simp add: hashg_chain_def eq)
  then have "hashg_links ?g bs = hashg_links g bs" by (simp add: hashg_links_def eq)
  then show rep: "hashg_rep ?g bs"
    using assms by (simp add: hashg_rep_def hashg_total_def hashg_placed_def eq)
  show "hashg_view ?g = hashg_view g"
    using hashg_view_hit [OF assms] hashg_view_miss [OF assms]
    by (intro hashg_view_eqI [OF rep]) (simp_all add: eq)
qed

lemma hashg_count_buckets_links:
  assumes "hashg_links g bs" "i + n = gsize g"
  shows "hashg_count_buckets g i n cnt =
    Some (cnt + of_nat (card {j. i \<le> j \<and> j < gsize g \<and> bs j \<noteq> []}))"
  using assms(2)
proof (induction n arbitrary: i cnt)
  case 0
  then have "{j. i \<le> j \<and> j < gsize g \<and> bs j \<noteq> []} = {}" by auto
  with 0 show ?case by (simp del: Collect_empty_eq)
next
  case (Suc n)
  let ?S = "\<lambda>i. {j. i \<le> j \<and> j < gsize g \<and> bs j \<noteq> []}"
  have i: "i < gsize g" using Suc.prems by simp
  have split: "?S i = (if bs i = [] then ?S (Suc i) else insert i (?S (Suc i)))"
    using i by (auto simp: Suc_le_eq le_less)
  obtain c where c: "hg_bucket g i = Some c" "gseg (hg_heap g) (Bucket i) c (bs i)"
    using assms(1) i by (auto simp: hashg_links_def hashg_chain_def)
  have c0: "c \<noteq> 0 \<longleftrightarrow> bs i \<noteq> []" using c(2) by (cases "bs i") auto
  have IH: "hashg_count_buckets g (Suc i) n cnt = Some (cnt + of_nat (card (?S (Suc i))))" for cnt
    using Suc.prems by (intro Suc.IH) simp
  have "card (?S i) = (if bs i = [] then card (?S (Suc i)) else Suc (card (?S (Suc i))))"
    using split by simp
  with c(1) c0 IH show ?case by (auto simp: ac_simps)
qed

lemma hashg_occupied_set:
  assumes "hashg_rep g bs"
  shows "{j. j < gsize g \<and> bs j \<noteq> []} =
    {i. \<exists>k \<in> dom (hashg_view g). \<exists>w. hashg_hash g k = Some w \<and> unat w = i}" (is "?L = ?R")
proof (intro equalityI subsetI)
  fix j assume "j \<in> ?L"
  then have j: "j < gsize g" "hd (bs j) \<in> set (bs j)" by auto
  then have "hd (bs j) \<in> hashg_linked g"
    using assms hashg_chain_linked [of g bs j] by (auto simp: hashg_rep_def)
  moreover obtain w where "hashg_hash g (hashg_key g (hd (bs j))) = Some w" "unat w = j"
    using assms j unfolding hashg_rep_def hashg_placed_def by blast
  ultimately show "j \<in> ?R" using hashg_view_dom [OF assms] by auto
next
  fix j assume "j \<in> ?R"
  then obtain p w where p: "p \<in> hashg_linked g" "hashg_hash g (hashg_key g p) = Some w" "unat w = j"
    using hashg_view_dom [OF assms] by auto
  obtain v where "hashg_hash g (hashg_key g p) = Some v" "unat v < gsize g" "p \<in> set (bs (unat v))"
    using hashg_node_bucket [OF assms p(1)] .
  with p(2,3) show "j \<in> ?L" by auto
qed

section \<open>Properties\<close>

definition hashg_run ::
  "(addr set \<Rightarrow> addr) \<Rightarrow> ('k, 'd) hashg \<Rightarrow> ('k, 'd) table_cmd list \<Rightarrow>
   (('k, 'd) hashg \<times> 'd table_reply list) option" where
  "hashg_run malloc = table_run (table_step hashg_lookup (hashg_insert malloc) hashg_del_from_key)"

text \<open>A bump allocator for the witnesses.\<close>

definition bump_malloc :: "addr set \<Rightarrow> addr" where
  "bump_malloc A = 1 + Max (insert 0 A)"

lemma bump_malloc_total: "malloc_total bump_malloc"
proof -
  have "bump_malloc A \<noteq> 0 \<and> bump_malloc A \<notin> A" if fin: "finite A" for A
  proof
    have "0 \<le> Max (insert 0 A)" using fin by simp
    then show "bump_malloc A \<noteq> 0" by (simp add: bump_malloc_def)
    have "x < bump_malloc A" if "x \<in> A" for x
    proof -
      have "x \<le> Max (insert 0 A)" using fin that by (intro Max_ge) simp_all
      then show ?thesis by (simp only: bump_malloc_def)
    qed
    then show "bump_malloc A \<notin> A" by blast
  qed
  then show ?thesis by (simp add: malloc_total_def malloc_sound_def)
qed

definition hashg_demo :: "(u8 list, nat) hashg" where
  "hashg_demo = the (hashg_init True True hashg_func_default 2 8 4)"

lemma hashg_demo_init: "hashg_init True True hashg_func_default 2 8 4 = Some hashg_demo"
  by (simp add: hashg_demo_def hashg_init_def)

lemma hashg_demo_rep: "hashg_rep hashg_demo (\<lambda>_. [])" "hashg_view hashg_demo = Map.empty"
proof -
  have "hashg_total hashg_demo"
    using hashg_default_total [of "4 :: u32"]
    by (simp add: hashg_total_def hashg_hash_def gsize_def hashg_demo_def hashg_init_def)
  then show "hashg_rep hashg_demo (\<lambda>_. [])" "hashg_view hashg_demo = Map.empty"
    using hashg_init_rep [OF hashg_demo_init] by auto
qed

lemma hashg_demo_wf: "hashg_wf hashg_demo"
  using hashg_demo_rep(1) by (auto simp: hashg_wf_def)

text \<open>C22: Any sequence of finds, additions and deletions by key on a well-formed heap table returns,
  answers exactly as a finite map bounded by \<open>MaxNodeCnt\<close> does when \<open>malloc\<close> does not run out, and
  leaves a well-formed table that stands for the resulting map.\<close>

theorem hashg_run_refines:
  assumes "hashg_wf g" "malloc_total malloc"
  shows "\<exists>g'. hashg_run malloc g cs = Some (g', snd (spec_run (hashg_cap g) (hashg_view g) cs)) \<and>
           hashg_wf g' \<and> hashg_view g' = fst (spec_run (hashg_cap g) (hashg_view g) cs)"
proof -
  have inv: "hashg_wf g \<and> malloc_total malloc" using assms by simp
  show ?thesis unfolding hashg_run_def using hashg_exact.run_refines [OF inv TrueI, of cs] by blast
qed

theorem hashg_run_refines_witness:
  "\<exists>g'. hashg_run bump_malloc hashg_demo [CAdd [1, 2] 7, CAdd [1, 2] 8, CFind [1, 2], CDel [1, 2], CFind [1, 2]] =
     Some (g', [RAdd True, RAdd False, RFind (Some 7), RDel, RFind None]) \<and> hashg_wf g'"
proof -
  have "hashg_cap hashg_demo = 40" by (simp add: hashg_cap_def hashg_demo_def hashg_init_def)
  then show ?thesis
    using hashg_run_refines [OF hashg_demo_wf bump_malloc_total,
        of "[CAdd [1, 2] 7, CAdd [1, 2] 8, CFind [1, 2], CDel [1, 2], CFind [1, 2]]"]
    by (auto simp: hashg_demo_rep(2))
qed

text \<open>When the node limit is reached or \<open>malloc\<close> fails, an addition answers NULL and changes
  nothing; otherwise it answers NULL only for a key that is present.\<close>

theorem hashg_add_null:
  assumes "hashg_wf g" "malloc_sound malloc"
  shows "\<exists>g' p. hashg_add malloc g k d = Some (g', p) \<and>
    (p = 0 \<longleftrightarrow> hashg_view g k \<noteq> None \<or> hg_MaxNodeCnt g \<le> hg_uiLinkedCnt g \<or>
               malloc (dom (hg_heap g)) = 0) \<and> (p = 0 \<longrightarrow> g' = g)"
proof -
  obtain bs where rep: "hashg_rep g bs" using assms(1) by (auto simp: hashg_wf_def)
  show ?thesis
  proof (cases "hashg_view g k \<noteq> None \<or> \<not> hashg_room malloc g")
    case True
    then show ?thesis using hashg_add_refused [OF rep True] by (auto simp: hashg_room_def)
  next
    case False
    then have new: "hashg_view g k = None" "hashg_room malloc g" by auto
    obtain g' p where "hashg_add malloc g k d = Some (g', p)" "p \<noteq> 0"
      using hashg_add_new [OF rep new(1) assms(2) new(2)] by metis
    then show ?thesis using new by (auto simp: hashg_room_def)
  qed
qed

theorem hashg_add_null_witness:
  "\<exists>g' p. hashg_add (\<lambda>_. 0) hashg_demo [1, 2] 7 = Some (g', p) \<and> p = 0"
  using hashg_add_null [OF hashg_demo_wf, of "\<lambda>_. 0" "[1, 2]" 7] by (auto simp: malloc_sound_def)

text \<open>Deleting a node by its pointer removes just the entry of its key, and gives the node's
  memory back: the heap loses that address and no other.\<close>

theorem hashg_del_correct:
  assumes "hashg_wf g" "p \<in> hashg_linked g"
  shows "\<exists>g'. hashg_del g p = Some g' \<and> hashg_wf g' \<and>
    hashg_view g' = (hashg_view g)(hashg_key g p := None) \<and>
    dom (hg_heap g') = dom (hg_heap g) - {p}"
proof -
  obtain bs where rep: "hashg_rep g bs" using assms(1) by (auto simp: hashg_wf_def)
  obtain g' bs' where "hashg_del g p = Some g'" "hashg_rep g' bs'"
    "dom (hg_heap g') = dom (hg_heap g) - {p}" "hashg_view g' = (hashg_view g)(hashg_key g p := None)"
    using hashg_del_rep [OF rep assms(2)] by metis
  then show ?thesis by (auto simp: hashg_wf_def)
qed

theorem hashg_del_correct_witness:
  "\<exists>g p g'. hashg_add bump_malloc hashg_demo [1, 2] 7 = Some (g, p) \<and> hashg_del g p = Some g' \<and>
     hashg_wf g'"
proof -
  have ms: "malloc_sound bump_malloc" using bump_malloc_total by (simp add: malloc_total_def)
  have room: "hashg_room bump_malloc hashg_demo"
    by (simp add: hashg_room_def hashg_demo_def hashg_init_def bump_malloc_def)
  have new: "hashg_view hashg_demo [1, 2] = None" by (simp add: hashg_demo_rep(2))
  obtain g bs p where a: "hashg_add bump_malloc hashg_demo [1, 2] 7 = Some (g, p)" "hashg_rep g bs"
    "hashg_linked g = insert p (hashg_linked hashg_demo)"
    using hashg_add_new [OF hashg_demo_rep(1) new ms room] by metis
  then have "hashg_wf g" "p \<in> hashg_linked g" by (auto simp: hashg_wf_def)
  from hashg_del_correct [OF this] a(1) show ?thesis by blast
qed

text \<open>The occupation count returns the number of distinct hash values among the stored keys.\<close>

theorem hashg_occupied_correct:
  assumes "hashg_wf g"
  shows "hashg_get_occupied_node_count g =
    Some (of_nat (card {i. \<exists>k \<in> dom (hashg_view g). \<exists>w. hashg_hash g k = Some w \<and> unat w = i}))"
proof -
  obtain bs where rep: "hashg_rep g bs" using assms by (auto simp: hashg_wf_def)
  have "hashg_links g bs" using rep by (simp add: hashg_rep_def)
  from hashg_count_buckets_links [OF this, of 0 "gsize g" 0] show ?thesis
    by (simp add: hashg_get_occupied_node_count_def gsize_def [symmetric] hashg_occupied_set [OF rep])
qed

theorem hashg_occupied_correct_witness: "\<exists>c. hashg_get_occupied_node_count hashg_demo = Some c"
  using hashg_occupied_correct [OF hashg_demo_wf] by blast

end
