(* ===== verification/TimerN.thy ===== *)
theory TimerN
  imports HashgTable "HOL-Library.Signed_Division"
begin

text \<open>
  \<^verbatim>\<open>proj/UPST_LIB/SRC/TIMERN/timerN.c\<close>: a timer wheel of one day. A timer is a node of a hash table
  whose hash function is the expiry time modulo the seconds of a day, so that the bucket of a second
  holds the timers that expire then. \<open>timerN_invoke\<close> advances the wheel to the present and fires
  them.

  The functions given to \<open>timerN_add\<close> belong to the client. They are the parameter \<open>call\<close>: the
  effect of the function \<open>f\<close> on an argument, on the world \<open>'w\<close> of the client and on the timer
  table, which it may use.
\<close>

section \<open>State\<close>

definition N_DAY :: int where "N_DAY = 86400"
definition ONE_MINUTE :: int where "ONE_MINUTE = 60"

lemmas timerN_const_defs = N_DAY_def ONE_MINUTE_def

text \<open>\<open>sTimeKey\<close> is a C \<open>int\<close>, read with \<open>sint\<close>.\<close>

record timerNkey =
  tk_uiTimerNIdIndex :: u32
  tk_sTimeKey :: u32

record 'f timerNdata =
  td_invoke_func :: 'f
  td_arg :: "u8 list"

record 'f timerNinfo =
  tn_hash :: "(timerNkey, 'f timerNdata) hashg"
  tn_uiMaxNodeCnt :: u32
  tn_uiNodeCnt :: u32
  tn_uiArgMaxSize :: u32
  tn_uiTimerNIdIndex :: u32
  tn_uiCurrentTime :: int

text \<open>A \<open>TIMERNID\<close> is the key read as one 64-bit word: the index is its low half.\<close>

definition timerN_id :: "timerNkey \<Rightarrow> u64" where
  "timerN_id k = word_cat (tk_sTimeKey k) (tk_uiTimerNIdIndex k)"

definition timerN_key :: "u64 \<Rightarrow> timerNkey" where
  "timerN_key i = (case word_split i of (t, x) \<Rightarrow> \<lparr>tk_uiTimerNIdIndex = x, tk_sTimeKey = t\<rparr>)"

text \<open>\<open>int % U32\<close> is computed in \<open>U32\<close>.\<close>

definition timerN_timeout_func :: "u16 \<Rightarrow> u32 \<Rightarrow> timerNkey \<Rightarrow> u32 option" where
  "timerN_timeout_func usKeyLen uiHashSize k =
     (if uiHashSize = 0 then None else Some (tk_sTimeKey k mod uiHashSize))"

definition stTIMERNKEY_SIZE :: u16 where "stTIMERNKEY_SIZE = 8"
definition stTIMERNDATA_SIZE :: u32 where "stTIMERNDATA_SIZE = 24"

text \<open>\<open>ok0\<close>, \<open>ok1\<close>, \<open>ok2\<close>: whether the three allocations succeed.\<close>

definition timerN_init ::
  "bool \<Rightarrow> bool \<Rightarrow> bool \<Rightarrow> int \<Rightarrow> u32 \<Rightarrow> u32 \<Rightarrow> 'f timerNinfo option" where
  "timerN_init ok0 ok1 ok2 now uiMaxNodeCnt uiArgMaxSize =
     (if \<not> ok0 then None
      else case hashg_init ok1 ok2 timerN_timeout_func stTIMERNKEY_SIZE
                  (ucast (stTIMERNDATA_SIZE + uiArgMaxSize)) (word_of_int N_DAY) of
        None \<Rightarrow> None
      | Some g \<Rightarrow> Some \<lparr>tn_hash = g, tn_uiMaxNodeCnt = uiMaxNodeCnt, tn_uiNodeCnt = 0,
                        tn_uiArgMaxSize = uiArgMaxSize, tn_uiTimerNIdIndex = 1,
                        tn_uiCurrentTime = now\<rparr>)"

section \<open>Add, delete, update\<close>

text \<open>The argument bytes a node keeps: the node has \<open>usDataLen\<close> bytes of data, of which the
  argument starts at offset 16.\<close>

definition timerN_arg_copy :: "'f timerNinfo \<Rightarrow> u8 list \<Rightarrow> u8 list" where
  "timerN_arg_copy t arg = take (unat (hg_usDataLen (tn_hash t)) - 16) arg"

text \<open>The data is first put together in a stack buffer of \<open>BUFSIZ\<close> bytes; a longer argument
  overruns it.\<close>

definition TIMERN_BUF :: nat where "TIMERN_BUF = 8192"

definition timerN_add ::
  "('f \<Rightarrow> u8 list \<Rightarrow> 'w \<times> 'f timerNinfo \<Rightarrow> ('w \<times> 'f timerNinfo) option) \<Rightarrow> (addr set \<Rightarrow> addr) \<Rightarrow>
   'w \<times> 'f timerNinfo \<Rightarrow> 'f \<Rightarrow> u8 list \<Rightarrow> int \<Rightarrow> (('w \<times> 'f timerNinfo) \<times> u64) option" where
  "timerN_add call malloc s invoke_func pArg timeout =
     (let (w, t) = s in
      if timeout \<le> tn_uiCurrentTime t then do {
        s' \<leftarrow> call invoke_func pArg s;
        Some (s', 0)
      } else if length pArg + 16 > TIMERN_BUF then None
      else
        let t1 = t\<lparr>tn_uiTimerNIdIndex := tn_uiTimerNIdIndex t + 1\<rparr>;
            k = \<lparr>tk_uiTimerNIdIndex = tn_uiTimerNIdIndex t1, tk_sTimeKey = word_of_int timeout\<rparr>;
            d = \<lparr>td_invoke_func = invoke_func, td_arg = timerN_arg_copy t pArg\<rparr>
        in if timeout \<le> tn_uiCurrentTime t + N_DAY - ONE_MINUTE then do {
             (g, p) \<leftarrow> hashg_add malloc (tn_hash t1) k d;
             let t2 = t1\<lparr>tn_hash := g\<rparr>;
             if p \<noteq> 0 then Some ((w, t2\<lparr>tn_uiNodeCnt := tn_uiNodeCnt t2 + 1\<rparr>), timerN_id k)
             else Some ((w, t2), 0)
           } else Some ((w, t1), 0))"

definition timerN_del :: "'f timerNinfo \<Rightarrow> u64 \<Rightarrow> 'f timerNinfo option" where
  "timerN_del t timerNid = do {
     p \<leftarrow> hashg_find (tn_hash t) (timerN_key timerNid);
     if p \<noteq> 0 then do {
       g \<leftarrow> hashg_del (tn_hash t) p;
       Some (t\<lparr>tn_hash := g, tn_uiNodeCnt := tn_uiNodeCnt t - 1\<rparr>)
     } else Some t
   }"

text \<open>The node's own function is called with the node still allocated and off its chain; it is freed
  afterwards.\<close>

definition timerN_fire ::
  "('f \<Rightarrow> u8 list \<Rightarrow> 'w \<times> 'f timerNinfo \<Rightarrow> ('w \<times> 'f timerNinfo) option) \<Rightarrow>
   'w \<times> 'f timerNinfo \<Rightarrow> addr \<Rightarrow> ('w \<times> 'f timerNinfo) option" where
  "timerN_fire call s p = do {
     let (w, t) = s;
     let t1 = t\<lparr>tn_uiNodeCnt := tn_uiNodeCnt t - 1\<rparr>;
     g \<leftarrow> hashg_unlink_node (tn_hash t1) p;
     n \<leftarrow> hg_heap g p;
     (w', t2) \<leftarrow> call (td_invoke_func (hn_pstData n)) (td_arg (hn_pstData n)) (w, t1\<lparr>tn_hash := g\<rparr>);
     g' \<leftarrow> hashg_free (tn_hash t2) p;
     Some (w', t2\<lparr>tn_hash := g'\<rparr>)
   }"

definition timerN_update ::
  "('f \<Rightarrow> u8 list \<Rightarrow> 'w \<times> 'f timerNinfo \<Rightarrow> ('w \<times> 'f timerNinfo) option) \<Rightarrow>
   'w \<times> 'f timerNinfo \<Rightarrow> u64 \<Rightarrow> int \<Rightarrow> (('w \<times> 'f timerNinfo) \<times> u64) option" where
  "timerN_update call s timerNid timeout = do {
     let (w, t) = s;
     p \<leftarrow> hashg_find (tn_hash t) (timerN_key timerNid);
     if p = 0 then Some (s, 0)
     else do {
       g \<leftarrow> hashg_upd (tn_hash t) p (\<lambda>n. n\<lparr>hn_pstKey := (hn_pstKey n)\<lparr>tk_sTimeKey := word_of_int timeout\<rparr>\<rparr>);
       n \<leftarrow> hg_heap g p;
       let t1 = t\<lparr>tn_hash := g\<rparr>;
       if timeout \<le> tn_uiCurrentTime t then do {
         s' \<leftarrow> timerN_fire call (w, t1) p;
         Some (s', 0)
       } else if timeout \<le> tn_uiCurrentTime t + N_DAY - ONE_MINUTE then do {
         g1 \<leftarrow> hashg_unlink_node g p;
         g2 \<leftarrow> hashg_link_node g1 p;
         Some ((w, t1\<lparr>tn_hash := g2\<rparr>), timerN_id (hn_pstKey n))
       } else Some ((w, t1), timerN_id (hn_pstKey n))
     }
   }"

section \<open>Invoke\<close>

text \<open>The bucket of the current second.\<close>

definition timerN_due :: "'f timerNinfo \<Rightarrow> addr option" where
  "timerN_due t = (let i = tn_uiCurrentTime t smod N_DAY in
     if i < 0 then None else hg_bucket (tn_hash t) (nat i))"

partial_function (option) timerN_second ::
  "('f \<Rightarrow> u8 list \<Rightarrow> 'w \<times> 'f timerNinfo \<Rightarrow> ('w \<times> 'f timerNinfo) option) \<Rightarrow>
   'w \<times> 'f timerNinfo \<Rightarrow> ('w \<times> 'f timerNinfo) option" where
  "timerN_second call s = do {
     p \<leftarrow> timerN_due (snd s);
     if p = 0 then Some s
     else do { s' \<leftarrow> timerN_fire call s p; timerN_second call s' }
   }"

text \<open>The comparison \<open>uiCurrentTime <= tt\<close> is one of \<open>U32\<close> values.\<close>

partial_function (option) timerN_loop ::
  "('f \<Rightarrow> u8 list \<Rightarrow> 'w \<times> 'f timerNinfo \<Rightarrow> ('w \<times> 'f timerNinfo) option) \<Rightarrow> u32 \<Rightarrow>
   'w \<times> 'f timerNinfo \<Rightarrow> ('w \<times> 'f timerNinfo) option" where
  "timerN_loop call tt s =
     (if word_of_int (tn_uiCurrentTime (snd s)) \<le> tt then do {
        (w, t) \<leftarrow> timerN_second call s;
        timerN_loop call tt (w, t\<lparr>tn_uiCurrentTime := tn_uiCurrentTime t + 1\<rparr>)
      } else Some s)"

definition timerN_invoke ::
  "('f \<Rightarrow> u8 list \<Rightarrow> 'w \<times> 'f timerNinfo \<Rightarrow> ('w \<times> 'f timerNinfo) option) \<Rightarrow> int \<Rightarrow>
   'w \<times> 'f timerNinfo \<Rightarrow> ('w \<times> 'f timerNinfo) option" where
  "timerN_invoke call now s = timerN_loop call (word_of_int now) s"

end
