(* ===== verification/TimerNProps.thy ===== *)
theory TimerNProps
  imports TimerN
begin

text \<open>
  Correctness of the timer wheel: the invariant, the bucket of a second, firing, and the loops of
  \<open>timerN_invoke\<close>, proved for every client function that respects the contract \<open>timer_client\<close>.
\<close>

section \<open>Identifiers\<close>

lemma timerN_key_id [simp]: "timerN_key (timerN_id k) = k"
proof -
  have "word_split (word_cat (tk_sTimeKey k) (tk_uiTimerNIdIndex k) :: u64) =
      (tk_sTimeKey k, tk_uiTimerNIdIndex k)"
    by (rule word_split_cat_alt [OF refl]) (simp add: word_size)
  then show ?thesis by (simp add: timerN_key_def timerN_id_def)
qed

lemma timerN_id_inj: "timerN_id k = timerN_id k' \<longleftrightarrow> k = k'"
  by (metis timerN_key_id)

section \<open>Well-formed wheels\<close>

definition timerN_time :: "timerNkey \<Rightarrow> int" where
  "timerN_time k = sint (tk_sTimeKey k)"

text \<open>The pending timers, by key, and the nodes due in the current second.\<close>

definition timerN_pending :: "'f timerNinfo \<Rightarrow> timerNkey \<rightharpoonup> 'f timerNdata" where
  "timerN_pending t = hashg_view (tn_hash t)"

definition timerN_nodes :: "'f timerNinfo \<Rightarrow> addr set" where
  "timerN_nodes t = hashg_linked (tn_hash t)"

definition timerN_node_time :: "'f timerNinfo \<Rightarrow> addr \<Rightarrow> int" where
  "timerN_node_time t p = timerN_time (hashg_key (tn_hash t) p)"

definition timerN_due_nodes :: "'f timerNinfo \<Rightarrow> addr set" where
  "timerN_due_nodes t = {p \<in> timerN_nodes t. timerN_node_time t p = tn_uiCurrentTime t}"

definition timerN_detached :: "'f timerNinfo \<Rightarrow> addr set" where
  "timerN_detached t = dom (hg_heap (tn_hash t)) - timerN_nodes t"

definition timerN_params :: "'f timerNinfo \<Rightarrow> bool" where
  "timerN_params t \<longleftrightarrow> hg_uiHashSize (tn_hash t) = 86400 \<and> hg_func (tn_hash t) = timerN_timeout_func \<and>
     0 \<le> tn_uiCurrentTime t \<and> tn_uiCurrentTime t + N_DAY < 2 ^ 31"

definition timerN_args_ok :: "'f timerNinfo \<Rightarrow> bool" where
  "timerN_args_ok t \<longleftrightarrow> (\<forall>p \<in> timerN_nodes t.
     length (td_arg (hashg_data (tn_hash t) p)) + 16 \<le> TIMERN_BUF)"

text \<open>All timers expire within the day that starts at the current second.\<close>

definition timerN_window :: "'f timerNinfo \<Rightarrow> bool" where
  "timerN_window t \<longleftrightarrow> (\<forall>p \<in> timerN_nodes t. tn_uiCurrentTime t \<le> timerN_node_time t p \<and>
     timerN_node_time t p < tn_uiCurrentTime t + N_DAY)"

definition timerN_wf :: "'f timerNinfo \<Rightarrow> bool" where
  "timerN_wf t \<longleftrightarrow> hashg_wf (tn_hash t) \<and> timerN_params t \<and> timerN_args_ok t \<and> timerN_window t \<and>
     tn_uiNodeCnt t = hg_uiLinkedCnt (tn_hash t)"

lemma timerN_wf_rep:
  assumes "timerN_wf t"
  obtains bs where "hashg_rep (tn_hash t) bs"
  using assms by (auto simp: timerN_wf_def hashg_wf_def)

section \<open>The bucket of a second\<close>

lemma timerN_gsize: "timerN_params t \<Longrightarrow> gsize (tn_hash t) = 86400"
  by (simp add: timerN_params_def gsize_def)

lemma sint_nonneg_uint: "0 \<le> sint (w :: u32) \<Longrightarrow> uint w = sint w"
  using sint_lt [of w] by (simp add: uint_sint take_bit_int_eq_self)

text \<open>The hash of a timer is its expiry time modulo a day.\<close>

lemma timerN_hash_time:
  assumes "timerN_params t" "hashg_hash (tn_hash t) k = Some w" "0 \<le> timerN_time k"
  shows "int (unat w) = timerN_time k mod N_DAY"
proof -
  have "w = tk_sTimeKey k mod 86400"
    using assms(1,2) by (simp add: timerN_params_def hashg_hash_def timerN_timeout_func_def)
  then have "int (unat w) = uint (tk_sTimeKey k) mod 86400"
    by (simp add: uint_mod flip: uint_nat)
  then show ?thesis using assms(3) by (simp add: timerN_time_def N_DAY_def sint_nonneg_uint)
qed

lemma mod_window:
  fixes c t n :: int
  assumes "c \<le> t" "t < c + n"
  shows "t mod n = c mod n \<longleftrightarrow> t = c"
proof
  assume "t mod n = c mod n"
  then have "n dvd t - c" by (simp add: mod_eq_dvd_iff)
  moreover have "0 \<le> t - c" "t - c < n" using assms by auto
  ultimately show "t = c" using zdvd_not_zless [of "t - c" n] by force
qed simp

lemma smod_nonneg: "0 \<le> a \<Longrightarrow> a smod N_DAY = a mod N_DAY"
  by (simp add: signed_modulo_int_def signed_divide_int_def N_DAY_def sgn_if minus_mult_div_eq_mod
      mult.commute [of "a div 86400"])

text \<open>The head of the current bucket is a timer due now; there is none exactly when no timer is due.\<close>

lemma timerN_due_head:
  assumes "hashg_rep (tn_hash t) bs" "timerN_params t" "timerN_window t"
  shows "timerN_due t = Some (if timerN_due_nodes t = {} then 0
           else hd (bs (nat (tn_uiCurrentTime t mod N_DAY)))) \<and>
         set (bs (nat (tn_uiCurrentTime t mod N_DAY))) = timerN_due_nodes t"
proof -
  let ?g = "tn_hash t"
  let ?c = "tn_uiCurrentTime t"
  let ?i = "nat (?c mod N_DAY)"
  have c0: "0 \<le> ?c" using assms(2) by (simp add: timerN_params_def)
  have i: "?i < gsize ?g" "int ?i = ?c mod N_DAY"
    using timerN_gsize [OF assms(2)] by (simp_all add: N_DAY_def nat_less_iff)
  have links: "hashg_links ?g bs" using assms(1) by (simp add: hashg_rep_def)
  obtain h where h: "hg_bucket ?g ?i = Some h" "gseg (hg_heap ?g) (Bucket ?i) h (bs ?i)"
    using links i(1) by (auto simp: hashg_links_def hashg_chain_def)
  have bucket: "p \<in> set (bs j) \<longleftrightarrow> int j = timerN_node_time t p mod N_DAY"
    if p: "p \<in> timerN_nodes t" and j: "j < gsize ?g" for p j
  proof -
    have "0 \<le> timerN_node_time t p" using assms(3) p c0 by (auto simp: timerN_window_def)
    moreover obtain w where w: "hashg_hash ?g (hashg_key ?g p) = Some w" "unat w < gsize ?g"
      "p \<in> set (bs (unat w))"
      using hashg_node_bucket [OF assms(1)] p by (auto simp: timerN_nodes_def)
    ultimately have wt: "int (unat w) = timerN_node_time t p mod N_DAY"
      using timerN_hash_time [OF assms(2) w(1)] by (simp add: timerN_node_time_def)
    have "p \<in> set (bs j) \<longleftrightarrow> j = unat w"
    proof
      assume "p \<in> set (bs j)"
      with links j w(2,3) show "j = unat w" unfolding hashg_links_def by blast
    qed (use w(3) in simp)
    then show ?thesis by (simp only: wt [symmetric] of_nat_eq_iff)
  qed
  have "set (bs ?i) = timerN_due_nodes t"
  proof (rule set_eqI)
    fix p
    have sub: "p \<in> set (bs ?i) \<Longrightarrow> p \<in> timerN_nodes t"
      using hashg_chain_linked [OF links i(1)] by (auto simp: timerN_nodes_def)
    show "p \<in> set (bs ?i) \<longleftrightarrow> p \<in> timerN_due_nodes t"
    proof (cases "p \<in> timerN_nodes t")
      case True
      then have "?c \<le> timerN_node_time t p" "timerN_node_time t p < ?c + N_DAY"
        using assms(3) by (auto simp: timerN_window_def)
      from mod_window [OF this] bucket [OF True i(1)] i(2) True show ?thesis
        by (auto simp: timerN_due_nodes_def)
    qed (use sub in \<open>auto simp: timerN_due_nodes_def\<close>)
  qed
  moreover have "timerN_due t = Some h"
  proof -
    have "0 \<le> ?c mod N_DAY" by (simp add: N_DAY_def)
    then show ?thesis using h(1) c0 by (simp add: timerN_due_def smod_nonneg Let_def)
  qed
  moreover have "h = (if bs ?i = [] then 0 else hd (bs ?i))" by (rule gseg_cur [OF h(2)])
  ultimately show ?thesis by auto
qed

lemma timerN_due_cases:
  assumes "timerN_wf t"
  obtains "timerN_due t = Some 0" "timerN_due_nodes t = {}"
  | p where "timerN_due t = Some p" "p \<in> timerN_due_nodes t" "p \<noteq> 0"
proof -
  obtain bs where rep: "hashg_rep (tn_hash t) bs" using timerN_wf_rep [OF assms] .
  let ?i = "nat (tn_uiCurrentTime t mod N_DAY)"
  have h: "timerN_due t = Some (if timerN_due_nodes t = {} then 0 else hd (bs ?i))"
    "set (bs ?i) = timerN_due_nodes t"
    using timerN_due_head [OF rep] assms by (simp_all add: timerN_wf_def)
  show thesis
  proof (cases "timerN_due_nodes t = {}")
    case True
    with h that(1) show ?thesis by simp
  next
    case False
    then have "bs ?i \<noteq> []" using h(2) by auto
    then have "hd (bs ?i) \<in> timerN_due_nodes t" using h(2) hd_in_set by blast
    moreover from this have "hd (bs ?i) \<noteq> 0"
      using rep hashg_linked_nonzero by (auto simp: timerN_due_nodes_def timerN_nodes_def hashg_rep_def)
    ultimately show ?thesis using h(1) False that(2) by simp
  qed
qed

section \<open>Firing one timer\<close>

text \<open>Taking a timer off its chain.\<close>

lemma timerN_unlink:
  assumes wf: "timerN_wf t" and p: "p \<in> timerN_nodes t"
  obtains g where "hashg_unlink_node (tn_hash t) p = Some g"
    "timerN_wf (t\<lparr>tn_uiNodeCnt := tn_uiNodeCnt t - 1, tn_hash := g\<rparr>)"
    "hashg_linked g = timerN_nodes t - {p}" "hashg_kd g = hashg_kd (tn_hash t)"
    "dom (hg_heap g) = dom (hg_heap (tn_hash t))"
    "hashg_view g = (timerN_pending t)(hashg_key (tn_hash t) p := None)"
    "hashg_static g = hashg_static (tn_hash t)"
proof -
  obtain bs where rep: "hashg_rep (tn_hash t) bs" using timerN_wf_rep [OF wf] .
  obtain g bs' where g: "hashg_unlink_node (tn_hash t) p = Some g" "hashg_rep g bs'"
    "hashg_linked g = hashg_linked (tn_hash t) - {p}" "hashg_static g = hashg_static (tn_hash t)"
    "hashg_kd g = hashg_kd (tn_hash t)" "dom (hg_heap g) = dom (hg_heap (tn_hash t))"
    "hashg_view g = (hashg_view (tn_hash t))(hashg_key (tn_hash t) p := None)"
    using hashg_unlink_rep [OF rep] p by (metis timerN_nodes_def)
  note kd = hashg_kd_cong [OF g(5)]
  let ?t = "t\<lparr>tn_uiNodeCnt := tn_uiNodeCnt t - 1, tn_hash := g\<rparr>"
  have "unat (hg_uiLinkedCnt g) = card (hashg_linked (tn_hash t)) - 1"
    using g(2,3) p by (simp add: hashg_rep_def hashg_links_def timerN_nodes_def)
  moreover have "unat (hg_uiLinkedCnt (tn_hash t)) = card (hashg_linked (tn_hash t))"
    using rep unfolding hashg_rep_def hashg_links_def by argo
  moreover have "0 < card (hashg_linked (tn_hash t))"
    using p rep finite_hashg_linked [of "tn_hash t" bs]
    by (auto simp: card_gt_0_iff timerN_nodes_def hashg_rep_def)
  ultimately have "unat (hg_uiLinkedCnt g) = unat (hg_uiLinkedCnt (tn_hash t) - 1)"
    by (simp add: unat_pred_pos)
  then have "hg_uiLinkedCnt g = hg_uiLinkedCnt (tn_hash t) - 1" by (simp only: word_unat_eq_iff)
  then have "timerN_wf ?t"
    using wf g(2,3,4) kd
    by (auto simp: timerN_wf_def hashg_wf_def timerN_params_def timerN_args_ok_def timerN_window_def
        timerN_nodes_def timerN_node_time_def hashg_static_def)
  then show thesis using that g by (simp add: timerN_nodes_def timerN_pending_def)
qed

text \<open>Freeing a detached node changes nothing of the wheel.\<close>

lemma timerN_free:
  assumes wf: "timerN_wf t" and p: "p \<in> timerN_detached t"
  obtains g where "hashg_free (tn_hash t) p = Some g" "timerN_wf (t\<lparr>tn_hash := g\<rparr>)"
    "hashg_linked g = timerN_nodes t" "hashg_view g = timerN_pending t"
    "dom (hg_heap g) = dom (hg_heap (tn_hash t)) - {p}"
    "\<And>q. q \<in> timerN_nodes t \<Longrightarrow> hashg_key g q = hashg_key (tn_hash t) q"
proof -
  obtain bs where rep: "hashg_rep (tn_hash t) bs" using timerN_wf_rep [OF wf] .
  obtain g where g: "hashg_free (tn_hash t) p = Some g" "hashg_rep g bs"
    "hashg_linked g = hashg_linked (tn_hash t)" "hashg_static g = hashg_static (tn_hash t)"
    "hashg_view g = hashg_view (tn_hash t)" "dom (hg_heap g) = dom (hg_heap (tn_hash t)) - {p}"
    "\<And>q. q \<noteq> p \<Longrightarrow> hg_heap g q = hg_heap (tn_hash t) q"
    using hashg_free_rep [OF rep, of p] p by (auto simp: timerN_detached_def timerN_nodes_def)
  have kd: "hashg_key g q = hashg_key (tn_hash t) q \<and> hashg_data g q = hashg_data (tn_hash t) q"
    if "q \<in> timerN_nodes t" for q
  proof -
    have "q \<noteq> p" using that p by (auto simp: timerN_detached_def)
    then show ?thesis using g(7) by (simp add: hashg_key_def hashg_data_def hashg_kd_def)
  qed
  have "unat (hg_uiLinkedCnt g) = unat (hg_uiLinkedCnt (tn_hash t))"
    using g(2,3) rep unfolding hashg_rep_def hashg_links_def by argo
  then have "hg_uiLinkedCnt g = hg_uiLinkedCnt (tn_hash t)" by (simp only: word_unat_eq_iff)
  then have "timerN_wf (t\<lparr>tn_hash := g\<rparr>)"
    using wf g(2,3,4) kd
    by (auto simp: timerN_wf_def hashg_wf_def timerN_params_def timerN_args_ok_def timerN_window_def
        timerN_nodes_def timerN_node_time_def hashg_static_def)
  then show thesis using that [of g] g kd by (simp add: timerN_nodes_def timerN_pending_def)
qed

text \<open>The clock may advance when nothing is due.\<close>

lemma timerN_next_second:
  assumes "timerN_wf t" "timerN_due_nodes t = {}" "tn_uiCurrentTime t + 1 + N_DAY < 2 ^ 31"
  shows "timerN_wf (t\<lparr>tn_uiCurrentTime := tn_uiCurrentTime t + 1\<rparr>)"
proof -
  have "tn_uiCurrentTime t + 1 \<le> timerN_node_time t p \<and>
      timerN_node_time t p < tn_uiCurrentTime t + 1 + N_DAY" if p: "p \<in> timerN_nodes t" for p
  proof -
    have "tn_uiCurrentTime t \<le> timerN_node_time t p" "timerN_node_time t p < tn_uiCurrentTime t + N_DAY"
      using assms(1) p by (auto simp: timerN_wf_def timerN_window_def)
    moreover have "timerN_node_time t p \<noteq> tn_uiCurrentTime t"
      using assms(2) p by (auto simp: timerN_due_nodes_def)
    ultimately show ?thesis by simp
  qed
  then show ?thesis
    using assms(1,3)
    by (simp add: timerN_wf_def timerN_params_def timerN_args_ok_def timerN_window_def
        timerN_nodes_def timerN_node_time_def)
qed

lemma timerN_clock_less:
  assumes "0 \<le> a" "a < 2 ^ 32" "0 \<le> b" "b < 2 ^ 32"
  shows "word_of_int a \<le> (word_of_int b :: u32) \<longleftrightarrow> a \<le> b"
proof -
  have "uint (word_of_int a :: u32) = a" "uint (word_of_int b :: u32) = b"
    using assms by (simp_all add: uint_word_of_int)
  then show ?thesis by (simp only: word_le_def)
qed

section \<open>What the wheel keeps\<close>

text \<open>The size of the arguments, which is set at the start, and the next number.\<close>

lemma hashg_upd_len: "hashg_upd g p f = Some g' \<Longrightarrow> hg_usDataLen g' = hg_usDataLen g"
  by (auto simp: hashg_upd_def split: option.splits)

lemma hashg_put_len: "hashg_put g sl v = Some g' \<Longrightarrow> hg_usDataLen g' = hg_usDataLen g"
  by (cases sl) (auto simp: hashg_upd_len split: option.splits)

lemma hashg_link_len: "hashg_link_node g p = Some g' \<Longrightarrow> hg_usDataLen g' = hg_usDataLen g"
  by (auto simp: hashg_link_node_def bind_eq_Some_conv Let_def split: if_splits dest!: hashg_upd_len hashg_put_len simp del: hashg_put.simps)

lemma hashg_unlink_len: "hashg_unlink_node g p = Some g' \<Longrightarrow> hg_usDataLen g' = hg_usDataLen g"
  by (auto simp: hashg_unlink_node_def bind_eq_Some_conv split: option.splits if_splits dest!: hashg_upd_len hashg_put_len simp del: hashg_put.simps)

lemma hashg_free_len: "hashg_free g p = Some g' \<Longrightarrow> hg_usDataLen g' = hg_usDataLen g"
  by (auto simp: hashg_free_def split: option.splits)

definition timerN_grow :: "'f timerNinfo \<Rightarrow> 'f timerNinfo \<Rightarrow> u32 \<Rightarrow> bool" where
  "timerN_grow t t' n \<longleftrightarrow> hg_usDataLen (tn_hash t') = hg_usDataLen (tn_hash t) \<and> tn_uiTimerNIdIndex t' = tn_uiTimerNIdIndex t + n"

lemma timerN_add_grow:
  assumes "timerN_add call malloc (w, t) f arg timeout = Some ((w', t'), i)" "tn_uiCurrentTime t < timeout"
  shows "timerN_grow t t' 1"
  using assms
  by (auto simp: timerN_add_def Let_def bind_eq_Some_conv hashg_add_def timerN_grow_def split: if_splits dest!: hashg_link_len)

lemma timerN_update_grow:
  assumes "timerN_update call (w, t) i timeout = Some ((w', t'), j)" "tn_uiCurrentTime t < timeout"
  shows "timerN_grow t t' 0"
  using assms
  by (auto simp: timerN_update_def Let_def bind_eq_Some_conv timerN_grow_def split: if_splits
      dest!: hashg_link_len hashg_unlink_len hashg_upd_len)

lemma timerN_del_grow:
  assumes "timerN_del t i = Some t'"
  shows "timerN_grow t t' 0"
  using assms
  by (auto simp: timerN_del_def bind_eq_Some_conv hashg_del_def timerN_grow_def split: if_splits
      dest!: hashg_unlink_len hashg_free_len)

lemma timerN_grow_refl: "timerN_grow t t 0"
  and timerN_grow_trans: "timerN_grow t t' 0 \<Longrightarrow> timerN_grow t' t'' 0 \<Longrightarrow> timerN_grow t t'' 0"
  and timerN_grow_clock [simp]: "timerN_grow (t\<lparr>tn_uiCurrentTime := c\<rparr>) t' n = timerN_grow t t' n"
    "timerN_grow t (t'\<lparr>tn_uiCurrentTime := c\<rparr>) n = timerN_grow t t' n"
  by (simp_all add: timerN_grow_def)

section \<open>Clients\<close>

text \<open>
  What the wheel asks of the functions its clients give it: called on a well-formed wheel, with an
  argument that fits, they return; the wheel stays well formed, at the same second, no timer of
  the current second appears, and the memory of nodes that are off the chains is left alone.
\<close>

locale timer_client =
  fixes call :: "'f \<Rightarrow> u8 list \<Rightarrow> 'w \<times> 'f timerNinfo \<Rightarrow> ('w \<times> 'f timerNinfo) option"
  assumes client: "timerN_wf t \<Longrightarrow> length a + 16 \<le> TIMERN_BUF \<Longrightarrow>
    \<exists>w' t'. call f a (w, t) = Some (w', t') \<and> timerN_wf t' \<and>
      tn_uiCurrentTime t' = tn_uiCurrentTime t \<and> timerN_due_nodes t' \<subseteq> timerN_due_nodes t \<and>
      timerN_detached t \<subseteq> timerN_detached t'"
begin

lemma fire_ok:
  assumes wf: "timerN_wf t" and p: "p \<in> timerN_due_nodes t"
  shows "\<exists>w' t'. timerN_fire call (w, t) p = Some (w', t') \<and> timerN_wf t' \<and>
    tn_uiCurrentTime t' = tn_uiCurrentTime t \<and> timerN_due_nodes t' \<subset> timerN_due_nodes t"
proof -
  have pn: "p \<in> timerN_nodes t" using p by (simp add: timerN_due_nodes_def)
  obtain g where g: "hashg_unlink_node (tn_hash t) p = Some g"
    "timerN_wf (t\<lparr>tn_uiNodeCnt := tn_uiNodeCnt t - 1, tn_hash := g\<rparr>)"
    "hashg_linked g = timerN_nodes t - {p}" "hashg_kd g = hashg_kd (tn_hash t)"
    "dom (hg_heap g) = dom (hg_heap (tn_hash t))"
    using timerN_unlink [OF wf pn] by metis
  let ?t1 = "t\<lparr>tn_uiNodeCnt := tn_uiNodeCnt t - 1, tn_hash := g\<rparr>"
  have pd: "p \<in> dom (hg_heap (tn_hash t))" using pn by (auto simp: timerN_nodes_def hashg_linked_def)
  then obtain n where n: "hg_heap g p = Some n" using g(5) by auto
  then have "hashg_data (tn_hash t) p = hn_pstData n"
    using hashg_key_node hashg_kd_cong [OF g(4)] by metis
  then have len: "length (td_arg (hn_pstData n)) + 16 \<le> TIMERN_BUF"
    using wf pn by (auto simp: timerN_wf_def timerN_args_ok_def)
  obtain w2 t2 where c: "call (td_invoke_func (hn_pstData n)) (td_arg (hn_pstData n)) (w, ?t1) = Some (w2, t2)"
    "timerN_wf t2" "tn_uiCurrentTime t2 = tn_uiCurrentTime t"
    "timerN_due_nodes t2 \<subseteq> timerN_due_nodes ?t1" "timerN_detached ?t1 \<subseteq> timerN_detached t2"
    using client [OF g(2) len, of "td_invoke_func (hn_pstData n)" w] by auto
  have "p \<in> timerN_detached ?t1" using pd g(3,5) by (simp add: timerN_detached_def timerN_nodes_def)
  then have "p \<in> timerN_detached t2" using c(5) by blast
  then obtain g2 where f: "hashg_free (tn_hash t2) p = Some g2" "timerN_wf (t2\<lparr>tn_hash := g2\<rparr>)"
    "hashg_linked g2 = timerN_nodes t2"
    "\<And>q. q \<in> timerN_nodes t2 \<Longrightarrow> hashg_key g2 q = hashg_key (tn_hash t2) q"
    using timerN_free [OF c(2)] by metis
  have due1: "timerN_due_nodes ?t1 = timerN_due_nodes t - {p}"
    using g(3) hashg_kd_cong [OF g(4)]
    by (auto simp: timerN_due_nodes_def timerN_nodes_def timerN_node_time_def)
  have "timerN_due_nodes (t2\<lparr>tn_hash := g2\<rparr>) = timerN_due_nodes t2"
    using f(3,4) by (auto simp: timerN_due_nodes_def timerN_nodes_def timerN_node_time_def)
  then have "timerN_due_nodes (t2\<lparr>tn_hash := g2\<rparr>) \<subset> timerN_due_nodes t"
    using c(4) due1 p by auto
  moreover have "timerN_fire call (w, t) p = Some (w2, t2\<lparr>tn_hash := g2\<rparr>)"
    using g(1) n c(1) f(1)
    by (simp add: timerN_fire_def)
  ultimately show ?thesis using f(2) c(3) by auto
qed

text \<open>The inner loop empties the current second, whatever the fired functions add.\<close>

lemma second_ok:
  assumes "timerN_wf t"
  shows "\<exists>w' t'. timerN_second call (w, t) = Some (w', t') \<and> timerN_wf t' \<and>
    tn_uiCurrentTime t' = tn_uiCurrentTime t \<and> timerN_due_nodes t' = {}"
  using assms
proof (induction "card (timerN_due_nodes t)" arbitrary: t w rule: less_induct)
  case less
  obtain bs where rep: "hashg_rep (tn_hash t) bs" using timerN_wf_rep [OF less.prems] .
  have fin: "finite (timerN_due_nodes t)"
    using rep finite_hashg_linked [of "tn_hash t" bs]
    by (simp add: timerN_due_nodes_def timerN_nodes_def hashg_rep_def)
  show ?case
  proof (rule timerN_due_cases [OF less.prems])
    assume "timerN_due t = Some 0" "timerN_due_nodes t = {}"
    then show ?thesis using less.prems by (simp add: timerN_second.simps)
  next
    fix p assume p: "timerN_due t = Some p" "p \<in> timerN_due_nodes t" "p \<noteq> 0"
    obtain w1 t1 where f: "timerN_fire call (w, t) p = Some (w1, t1)" "timerN_wf t1"
      "tn_uiCurrentTime t1 = tn_uiCurrentTime t" "timerN_due_nodes t1 \<subset> timerN_due_nodes t"
      using fire_ok [OF less.prems p(2)] by blast
    have "card (timerN_due_nodes t1) < card (timerN_due_nodes t)"
      using psubset_card_mono [OF fin f(4)] .
    from less.hyps [OF this f(2), of w1] f(1,3) p(1,3) show ?thesis
      by (subst timerN_second.simps) simp
  qed
qed

lemma loop_ok:
  assumes "timerN_wf t" "n = nat (T + 1 - tn_uiCurrentTime t)" "0 \<le> T" "T + 1 + N_DAY < 2 ^ 31"
    "tn_uiCurrentTime t \<le> T + 1"
  shows "\<exists>w' t'. timerN_loop call (word_of_int T) (w, t) = Some (w', t') \<and> timerN_wf t' \<and>
    tn_uiCurrentTime t' = T + 1"
  using assms
proof (induction n arbitrary: t w)
  case 0
  then have "tn_uiCurrentTime t = T + 1" by simp
  moreover have "\<not> word_of_int (T + 1) \<le> (word_of_int T :: u32)"
    using timerN_clock_less [of "T + 1" T] 0(3,4) by (simp add: N_DAY_def del: of_int_add)
  ultimately show ?case using 0(1) by (subst timerN_loop.simps) simp
next
  case (Suc n)
  have c: "0 \<le> tn_uiCurrentTime t" "tn_uiCurrentTime t \<le> T"
    using Suc.prems by (simp_all add: timerN_wf_def timerN_params_def)
  then have le: "word_of_int (tn_uiCurrentTime t) \<le> (word_of_int T :: u32)"
    using Suc.prems(4) timerN_clock_less [of "tn_uiCurrentTime t" T] by (simp add: N_DAY_def del: of_int_add)
  obtain w1 t1 where s: "timerN_second call (w, t) = Some (w1, t1)" "timerN_wf t1"
    "tn_uiCurrentTime t1 = tn_uiCurrentTime t" "timerN_due_nodes t1 = {}"
    using second_ok [OF Suc.prems(1)] by blast
  let ?t = "t1\<lparr>tn_uiCurrentTime := tn_uiCurrentTime t1 + 1\<rparr>"
  have "timerN_wf ?t"
    using timerN_next_second [OF s(2,4)] s(3) c(2) Suc.prems(4) by simp
  moreover have "n = nat (T + 1 - tn_uiCurrentTime ?t)" using Suc.prems(2) s(3) c(2) by simp
  ultimately obtain w' t' where "timerN_loop call (word_of_int T) (w1, ?t) = Some (w', t')" "timerN_wf t'"
    "tn_uiCurrentTime t' = T + 1"
    using Suc.IH [of ?t w1] Suc.prems(3,4) s(3) c(2) by auto
  with s(1) le show ?case by (subst timerN_loop.simps) auto
qed

end

end
