(* ===== verification/TimerNFire.thy ===== *)
theory TimerNFire
  imports TimerNProps
begin

text \<open>
  The operations of the timer wheel on the map of pending timers: addition in its three outcomes,
  deletion, and \<open>timerN_invoke\<close> with functions that leave the wheel alone, which fires what is
  due, once each, in the order of the expiry times.
\<close>

lemma hashg_linked_card: "hashg_rep g bs \<Longrightarrow> unat (hg_uiLinkedCnt g) = card (hashg_linked g)"
  unfolding hashg_rep_def hashg_links_def by (elim conjE)

section \<open>Adding a timer\<close>

definition timerN_new_key :: "'f timerNinfo \<Rightarrow> int \<Rightarrow> timerNkey" where
  "timerN_new_key t timeout =
     \<lparr>tk_uiTimerNIdIndex = tn_uiTimerNIdIndex t + 1, tk_sTimeKey = word_of_int timeout\<rparr>"

definition timerN_new_data :: "'f timerNinfo \<Rightarrow> 'f \<Rightarrow> u8 list \<Rightarrow> 'f timerNdata" where
  "timerN_new_data t f arg = \<lparr>td_invoke_func = f, td_arg = timerN_arg_copy t arg\<rparr>"

lemma sint_word_of_int_small: "- (2 ^ 31) \<le> x \<Longrightarrow> x < 2 ^ 31 \<Longrightarrow> sint (word_of_int x :: u32) = x"
  by transfer (simp add: signed_take_bit_int_eq_self)

lemma timerN_new_key_time:
  "timerN_params t \<Longrightarrow> tn_uiCurrentTime t < timeout \<Longrightarrow> timeout < tn_uiCurrentTime t + N_DAY \<Longrightarrow>
   timerN_time (timerN_new_key t timeout) = timeout"
  by (simp add: timerN_time_def timerN_new_key_def timerN_params_def N_DAY_def sint_word_of_int_small)

lemma timerN_wf_index: "timerN_wf (t\<lparr>tn_uiTimerNIdIndex := i\<rparr>) = timerN_wf t"
  by (simp add: timerN_wf_def timerN_params_def timerN_args_ok_def timerN_window_def timerN_nodes_def
      timerN_node_time_def)

text \<open>The three outcomes of an addition.\<close>

lemma timerN_add_now:
  "timeout \<le> tn_uiCurrentTime t \<Longrightarrow> timerN_add call malloc (w, t) f arg timeout =
     do { s' \<leftarrow> call f arg (w, t); Some (s', 0) }"
  by (simp add: timerN_add_def)

lemma timerN_add_late:
  "tn_uiCurrentTime t + N_DAY - ONE_MINUTE < timeout \<Longrightarrow> length arg + 16 \<le> TIMERN_BUF \<Longrightarrow>
   timerN_add call malloc (w, t) f arg timeout =
     Some ((w, t\<lparr>tn_uiTimerNIdIndex := tn_uiTimerNIdIndex t + 1\<rparr>), 0)"
  by (simp add: timerN_add_def Let_def timerN_const_defs)

lemma timerN_add_refused:
  assumes "timerN_wf t" "tn_uiCurrentTime t < timeout" "timeout \<le> tn_uiCurrentTime t + N_DAY - ONE_MINUTE"
    "length arg + 16 \<le> TIMERN_BUF"
    "timerN_pending t (timerN_new_key t timeout) \<noteq> None \<or> \<not> hashg_room malloc (tn_hash t)"
  shows "timerN_add call malloc (w, t) f arg timeout =
    Some ((w, t\<lparr>tn_uiTimerNIdIndex := tn_uiTimerNIdIndex t + 1\<rparr>), 0)"
proof -
  obtain bs where rep: "hashg_rep (tn_hash t) bs" using timerN_wf_rep [OF assms(1)] .
  have "hashg_add malloc (tn_hash t) (timerN_new_key t timeout) (timerN_new_data t f arg) = Some (tn_hash t, 0)"
    using hashg_add_refused [OF rep] assms(5) by (simp add: timerN_pending_def)
  then show ?thesis
    using assms(2,3,4) by (simp add: timerN_add_def Let_def timerN_new_key_def timerN_new_data_def)
qed

lemma timerN_add_accepted:
  assumes wf: "timerN_wf t" and time: "tn_uiCurrentTime t < timeout"
      "timeout \<le> tn_uiCurrentTime t + N_DAY - ONE_MINUTE"
    and len: "length arg + 16 \<le> TIMERN_BUF"
    and new: "timerN_pending t (timerN_new_key t timeout) = None"
    and room: "malloc_sound malloc" "hashg_room malloc (tn_hash t)"
  obtains t' p where "timerN_add call malloc (w, t) f arg timeout =
      Some ((w, t'), timerN_id (timerN_new_key t timeout))"
    "timerN_wf t'" "tn_uiCurrentTime t' = tn_uiCurrentTime t"
    "timerN_pending t' = (timerN_pending t)(timerN_new_key t timeout \<mapsto> timerN_new_data t f arg)"
    "timerN_nodes t' = insert p (timerN_nodes t)" "p \<notin> dom (hg_heap (tn_hash t))"
    "dom (hg_heap (tn_hash t')) = insert p (dom (hg_heap (tn_hash t)))"
    "timerN_node_time t' p = timeout"
    "\<And>q. q \<in> timerN_nodes t \<Longrightarrow> timerN_node_time t' q = timerN_node_time t q"
proof -
  let ?k = "timerN_new_key t timeout"
  let ?d = "timerN_new_data t f arg"
  obtain bs where rep: "hashg_rep (tn_hash t) bs" using timerN_wf_rep [OF wf] .
  have fresh: "hashg_view (tn_hash t) ?k = None" using new by (simp add: timerN_pending_def)
  obtain g bs' p where a: "hashg_add malloc (tn_hash t) ?k ?d = Some (g, p)" "p \<noteq> 0" "hashg_rep g bs'"
    "p \<notin> dom (hg_heap (tn_hash t))" "hashg_linked g = insert p (hashg_linked (tn_hash t))"
    "dom (hg_heap g) = insert p (dom (hg_heap (tn_hash t)))" "hashg_static g = hashg_static (tn_hash t)"
    "hashg_view g = (hashg_view (tn_hash t))(?k \<mapsto> ?d)"
    "\<And>q. q \<in> dom (hg_heap (tn_hash t)) \<Longrightarrow> hashg_kd g q = hashg_kd (tn_hash t) q"
    by (rule hashg_add_new [OF rep fresh room, of ?d]) (rule that)
  let ?t = "t\<lparr>tn_uiTimerNIdIndex := tn_uiTimerNIdIndex t + 1, tn_hash := g,
              tn_uiNodeCnt := tn_uiNodeCnt t + 1\<rparr>"
  have pl: "p \<in> hashg_linked g" using a(5) by simp
  have "hashg_view g (hashg_key g p) = Some (hashg_data g p)" by (rule hashg_view_hit [OF a(3) pl])
  moreover have pk: "hashg_key g p = ?k"
  proof (rule ccontr)
    assume ne: "hashg_key g p \<noteq> ?k"
    then have "hashg_key g p \<in> dom (hashg_view (tn_hash t))"
      using hashg_view_hit [OF a(3) pl] a(8) by (simp add: domIff)
    then obtain q where q: "q \<in> hashg_linked (tn_hash t)" "hashg_key (tn_hash t) q = hashg_key g p"
      unfolding hashg_view_dom [OF rep] by (metis imageE)
    have "q \<in> dom (hg_heap (tn_hash t))" using q(1) by (auto simp: hashg_linked_def)
    then have qp: "q \<noteq> p" "hashg_key g q = hashg_key g p"
      using a(4,9) q(2) by (auto simp: hashg_key_def)
    have inj: "inj_on (hashg_key g) (hashg_linked g)" using a(3) by (simp add: hashg_rep_def)
    have "q \<in> hashg_linked g" using a(5) q(1) by simp
    from inj_onD [OF inj qp(2) this pl] qp(1) show False by simp
  qed
  ultimately have pd: "hashg_data g p = ?d" using a(8) by simp
  have old: "hashg_key g q = hashg_key (tn_hash t) q \<and> hashg_data g q = hashg_data (tn_hash t) q"
    if "q \<in> timerN_nodes t" for q
  proof -
    have "q \<in> dom (hg_heap (tn_hash t))" using that by (auto simp: timerN_nodes_def hashg_linked_def)
    from a(9) [OF this] show ?thesis by (simp add: hashg_key_def hashg_data_def)
  qed
  have cnt: "hg_uiLinkedCnt g = hg_uiLinkedCnt (tn_hash t) + 1"
  proof -
    have pn: "p \<notin> hashg_linked (tn_hash t)" using a(4) by (auto simp: hashg_linked_def)
    have "finite (hashg_linked (tn_hash t))"
      using rep finite_hashg_linked [of "tn_hash t" bs] by (simp add: hashg_rep_def)
    with hashg_linked_card [OF rep] hashg_linked_card [OF a(3)] have "unat (hg_uiLinkedCnt g) = Suc (unat (hg_uiLinkedCnt (tn_hash t)))"
      using a(5) pn by simp
    also have "\<dots> = unat (hg_uiLinkedCnt (tn_hash t) + 1)"
      using room(2) by (subst unat_Suc_bounded) (auto simp: hashg_room_def word_less_nat_alt)
    finally show ?thesis by (simp only: word_unat_eq_iff)
  qed
  have kt: "timerN_time ?k = timeout"
    using wf time by (intro timerN_new_key_time) (auto simp: timerN_wf_def timerN_const_defs)
  have nodes: "timerN_nodes ?t = insert p (timerN_nodes t)" using a(5) by (simp add: timerN_nodes_def)
  have tq: "timerN_node_time ?t q = timerN_node_time t q" if "q \<in> timerN_nodes t" for q
    using old [OF that] by (simp add: timerN_node_time_def)
  have tp: "timerN_node_time ?t p = timeout" using pk kt by (simp add: timerN_node_time_def)
  have "timerN_window ?t"
    using wf time nodes tp tq by (auto simp: timerN_wf_def timerN_window_def timerN_const_defs)
  moreover have "timerN_args_ok ?t"
    using wf len nodes old pd
    by (auto simp: timerN_wf_def timerN_args_ok_def timerN_new_data_def timerN_arg_copy_def)
  moreover have "timerN_params ?t"
    using wf a(7) by (simp add: timerN_wf_def timerN_params_def hashg_static_def)
  ultimately have wf': "timerN_wf ?t"
    using wf a(3) cnt by (auto simp: timerN_wf_def hashg_wf_def)
  have add: "timerN_add call malloc (w, t) f arg timeout = Some ((w, ?t), timerN_id ?k)"
    using a(1,2) time len by (simp add: timerN_add_def Let_def timerN_new_key_def timerN_new_data_def)
  show thesis using that [OF add wf'] nodes tp tq a(4,6,8) by (simp add: timerN_pending_def)
qed

section \<open>Deleting and moving a timer\<close>

lemma timerN_view_node:
  assumes "timerN_wf t" "timerN_pending t k \<noteq> None"
  obtains p where "p \<in> timerN_nodes t" "hashg_key (tn_hash t) p = k" "hashg_find (tn_hash t) k = Some p"
    "p \<noteq> 0"
proof -
  obtain bs where rep: "hashg_rep (tn_hash t) bs" using timerN_wf_rep [OF assms(1)] .
  have "k \<in> dom (hashg_view (tn_hash t))" using assms(2) by (simp add: domIff timerN_pending_def)
  then obtain p where p: "p \<in> hashg_linked (tn_hash t)" "hashg_key (tn_hash t) p = k"
    unfolding hashg_view_dom [OF rep] by (metis imageE)
  moreover have "p \<noteq> 0" using hashg_linked_nonzero rep p(1) by (auto simp: hashg_rep_def)
  ultimately show thesis using that hashg_find_hit [OF rep p(1)] by (simp add: timerN_nodes_def)
qed

lemma timerN_del_hit:
  assumes wf: "timerN_wf t" and k: "timerN_pending t k \<noteq> None"
  obtains t' where "timerN_del t (timerN_id k) = Some t'" "timerN_wf t'"
    "tn_uiCurrentTime t' = tn_uiCurrentTime t" "timerN_pending t' = (timerN_pending t)(k := None)"
proof -
  obtain p where p: "p \<in> timerN_nodes t" "hashg_key (tn_hash t) p = k"
    "hashg_find (tn_hash t) k = Some p" "p \<noteq> 0"
    using timerN_view_node [OF wf k] .
  obtain g where g: "hashg_unlink_node (tn_hash t) p = Some g"
    "timerN_wf (t\<lparr>tn_uiNodeCnt := tn_uiNodeCnt t - 1, tn_hash := g\<rparr>)"
    "hashg_linked g = timerN_nodes t - {p}" "dom (hg_heap g) = dom (hg_heap (tn_hash t))"
    "hashg_view g = (timerN_pending t)(hashg_key (tn_hash t) p := None)"
    using timerN_unlink [OF wf p(1)] by metis
  let ?t1 = "t\<lparr>tn_uiNodeCnt := tn_uiNodeCnt t - 1, tn_hash := g\<rparr>"
  have "p \<in> timerN_detached ?t1"
    using p(1) g(3,4) by (auto simp: timerN_detached_def timerN_nodes_def hashg_linked_def)
  from timerN_free [OF g(2) this] obtain g' where g': "hashg_free (tn_hash ?t1) p = Some g'"
    "timerN_wf (?t1\<lparr>tn_hash := g'\<rparr>)" "hashg_view g' = timerN_pending ?t1" .
  have "timerN_del t (timerN_id k) = Some (?t1\<lparr>tn_hash := g'\<rparr>)"
    using p(3,4) g(1) g'(1) by (simp add: timerN_del_def hashg_del_def)
  moreover have "timerN_pending (?t1\<lparr>tn_hash := g'\<rparr>) = (timerN_pending t)(k := None)"
    using g'(3) g(5) p(2) by (simp add: timerN_pending_def)
  ultimately show thesis using that g'(2) by simp
qed

lemma timerN_del_miss:
  assumes "timerN_wf t" "timerN_pending t k = None"
  shows "timerN_del t (timerN_id k) = Some t"
proof -
  obtain bs where rep: "hashg_rep (tn_hash t) bs" using timerN_wf_rep [OF assms(1)] .
  have "k \<notin> dom (hashg_view (tn_hash t))" using assms(2) by (simp add: domIff timerN_pending_def)
  then have "hashg_find (tn_hash t) k = Some 0"
    unfolding hashg_view_dom [OF rep] by (rule hashg_find_miss [OF rep])
  then show ?thesis by (simp add: timerN_del_def)
qed

section \<open>Functions that leave the wheel alone\<close>

text \<open>A client function that only acts on the client's world.\<close>

definition timerN_passive ::
  "('f \<Rightarrow> u8 list \<Rightarrow> 'w \<Rightarrow> 'w) \<Rightarrow> 'f \<Rightarrow> u8 list \<Rightarrow> 'w \<times> 'f timerNinfo \<Rightarrow> ('w \<times> 'f timerNinfo) option" where
  "timerN_passive act f a s = Some (act f a (fst s), snd s)"

interpretation passive_client: timer_client "timerN_passive act" for act
  by unfold_locales (simp add: timerN_passive_def)

text \<open>What firing a list of timers does to the world.\<close>

definition timerN_fire_all ::
  "('f \<Rightarrow> u8 list \<Rightarrow> 'w \<Rightarrow> 'w) \<Rightarrow> (timerNkey \<rightharpoonup> 'f timerNdata) \<Rightarrow> timerNkey list \<Rightarrow> 'w \<Rightarrow> 'w" where
  "timerN_fire_all act P ks w =
     fold (\<lambda>k w. act (td_invoke_func (the (P k))) (td_arg (the (P k))) w) ks w"

lemma timerN_fire_all_Nil [simp]: "timerN_fire_all act P [] w = w"
  by (simp add: timerN_fire_all_def)

lemma timerN_fire_all_append:
  "timerN_fire_all act P (ks @ ks') w = timerN_fire_all act P ks' (timerN_fire_all act P ks w)"
  by (simp add: timerN_fire_all_def)

lemma timerN_fire_all_cong:
  "(\<And>k. k \<in> set ks \<Longrightarrow> P k = P' k) \<Longrightarrow> timerN_fire_all act P ks w = timerN_fire_all act P' ks w"
  unfolding timerN_fire_all_def by (rule fold_cong) simp_all

lemma restrict_map_UNIV [simp]: "m |` UNIV = m"
  by (simp add: restrict_map_def)

definition timerN_due_keys :: "'f timerNinfo \<Rightarrow> timerNkey set" where
  "timerN_due_keys t = {k \<in> dom (timerN_pending t). timerN_time k = tn_uiCurrentTime t}"

lemma timerN_pending_node:
  assumes "timerN_wf t" "p \<in> timerN_nodes t"
  shows "timerN_pending t (hashg_key (tn_hash t) p) = Some (hashg_data (tn_hash t) p)"
proof -
  obtain bs where rep: "hashg_rep (tn_hash t) bs" using timerN_wf_rep [OF assms(1)] .
  show ?thesis using hashg_view_hit [OF rep] assms(2) by (simp add: timerN_pending_def timerN_nodes_def)
qed

text \<open>The same of functions that act on the client's world only, as far as the pending timers and the worlds of \<open>J\<close> go.\<close>

definition timerN_acts ::
  "('f \<Rightarrow> u8 list \<Rightarrow> 'w \<times> 'f timerNinfo \<Rightarrow> ('w \<times> 'f timerNinfo) option) \<Rightarrow> ('f \<Rightarrow> u8 list \<Rightarrow> 'w \<Rightarrow> 'w) \<Rightarrow>
   ('w \<Rightarrow> bool) \<Rightarrow> (timerNkey \<rightharpoonup> 'f timerNdata) \<Rightarrow> bool" where
  "timerN_acts call act J P \<longleftrightarrow> (\<forall>w t d. J w \<longrightarrow> d \<in> ran P \<longrightarrow>
     call (td_invoke_func d) (td_arg d) (w, t) = Some (act (td_invoke_func d) (td_arg d) w, t) \<and>
     J (act (td_invoke_func d) (td_arg d) w))"

lemma timerN_acts_passive [simp]: "timerN_acts (timerN_passive act) act (\<lambda>_. True) P"
  by (simp add: timerN_acts_def timerN_passive_def)

lemma timerN_acts_del: "timerN_acts call act J P \<Longrightarrow> timerN_acts call act J (P(k := None))"
  and timerN_acts_restrict: "timerN_acts call act J P \<Longrightarrow> timerN_acts call act J (P |` A)"
  by (fastforce simp: timerN_acts_def ran_def restrict_map_def split: if_splits)+

lemma timerN_acts_all:
  "timerN_acts call act J P \<Longrightarrow> J w \<Longrightarrow> set ks \<subseteq> dom P \<Longrightarrow> J (timerN_fire_all act P ks w)"
  by (induction ks arbitrary: w) (auto simp: timerN_fire_all_def timerN_acts_def ranI)

lemma timerN_fire_acts:
  assumes wf: "timerN_wf t" and p: "p \<in> timerN_nodes t" and acts: "timerN_acts call act J (timerN_pending t)" "J w"
  defines "k \<equiv> hashg_key (tn_hash t) p"
  obtains t' where "timerN_fire call (w, t) p =
      Some (timerN_fire_all act (timerN_pending t) [k] w, t')"
    "timerN_wf t'" "tn_uiCurrentTime t' = tn_uiCurrentTime t"
    "timerN_pending t' = (timerN_pending t)(k := None)" "timerN_grow t t' 0"
proof -
  obtain g where g: "hashg_unlink_node (tn_hash t) p = Some g"
    "timerN_wf (t\<lparr>tn_uiNodeCnt := tn_uiNodeCnt t - 1, tn_hash := g\<rparr>)"
    "hashg_linked g = timerN_nodes t - {p}" "hashg_kd g = hashg_kd (tn_hash t)"
    "dom (hg_heap g) = dom (hg_heap (tn_hash t))"
    "hashg_view g = (timerN_pending t)(hashg_key (tn_hash t) p := None)"
    using timerN_unlink [OF wf p] by metis
  let ?t1 = "t\<lparr>tn_uiNodeCnt := tn_uiNodeCnt t - 1, tn_hash := g\<rparr>"
  have pd: "p \<in> dom (hg_heap (tn_hash t))" using p by (auto simp: timerN_nodes_def hashg_linked_def)
  then obtain n where n: "hg_heap g p = Some n" using g(5) by auto
  then have data: "hashg_data (tn_hash t) p = hn_pstData n"
    using hashg_key_node hashg_kd_cong [OF g(4)] by metis
  have "p \<in> timerN_detached ?t1" using pd g(3,5) by (simp add: timerN_detached_def timerN_nodes_def)
  from timerN_free [OF g(2) this] obtain g' where g': "hashg_free (tn_hash ?t1) p = Some g'"
    "timerN_wf (?t1\<lparr>tn_hash := g'\<rparr>)" "hashg_view g' = timerN_pending ?t1" .
  have "hn_pstData n \<in> ran (timerN_pending t)" using timerN_pending_node [OF wf p] data by (auto simp: ran_def)
  then have "call (td_invoke_func (hn_pstData n)) (td_arg (hn_pstData n)) (w, t') =
      Some (act (td_invoke_func (hn_pstData n)) (td_arg (hn_pstData n)) w, t')" for t'
    using acts by (auto simp: timerN_acts_def)
  then have "timerN_fire call (w, t) p = Some (timerN_fire_all act (timerN_pending t) [k] w, ?t1\<lparr>tn_hash := g'\<rparr>)"
    using g(1) n g'(1) timerN_pending_node [OF wf p] data
    by (simp add: timerN_fire_def timerN_fire_all_def k_def)
  moreover have "timerN_pending (?t1\<lparr>tn_hash := g'\<rparr>) = (timerN_pending t)(k := None)"
    using g'(3) g(6) by (simp add: timerN_pending_def k_def)
  moreover have "timerN_grow t (?t1\<lparr>tn_hash := g'\<rparr>) 0"
    using hashg_unlink_len [OF g(1)] hashg_free_len [OF g'(1)] by (simp add: timerN_grow_def)
  ultimately show thesis using that g'(2) by simp
qed

lemma timerN_pending_time:
  assumes "timerN_wf t" "k \<in> dom (timerN_pending t)"
  shows "tn_uiCurrentTime t \<le> timerN_time k \<and> timerN_time k < tn_uiCurrentTime t + N_DAY"
proof -
  have "timerN_pending t k \<noteq> None" using assms(2) by (simp add: domIff)
  then obtain p where "p \<in> timerN_nodes t" "hashg_key (tn_hash t) p = k"
    using timerN_view_node [OF assms(1)] by metis
  then show ?thesis using assms(1) by (auto simp: timerN_wf_def timerN_window_def timerN_node_time_def)
qed

text \<open>The current second is emptied, every timer of it firing once.\<close>

lemma timerN_second_acts:
  assumes "timerN_wf t" "timerN_acts call act J (timerN_pending t)" "J w"
  shows "\<exists>ks t'. timerN_second call (w, t) =
      Some (timerN_fire_all act (timerN_pending t) ks w, t') \<and> distinct ks \<and>
    set ks = timerN_due_keys t \<and> timerN_wf t' \<and> tn_uiCurrentTime t' = tn_uiCurrentTime t \<and>
    timerN_pending t' = timerN_pending t |` (- set ks) \<and> timerN_due_nodes t' = {} \<and> timerN_grow t t' 0"
  using assms
proof (induction "card (timerN_due_keys t)" arbitrary: t w rule: less_induct)
  case less
  obtain bs where rep: "hashg_rep (tn_hash t) bs" using timerN_wf_rep [OF less.prems(1)] .
  have fin: "finite (timerN_due_nodes t)"
    using rep finite_hashg_linked [of "tn_hash t" bs]
    by (simp add: timerN_due_nodes_def timerN_nodes_def hashg_rep_def)
  have keys: "timerN_due_keys t = hashg_key (tn_hash t) ` timerN_due_nodes t"
    using hashg_view_dom [OF rep]
    by (auto simp: timerN_due_keys_def timerN_due_nodes_def timerN_nodes_def timerN_node_time_def
        timerN_pending_def)
  show ?case
  proof (rule timerN_due_cases [OF less.prems(1)])
    assume z: "timerN_due t = Some 0" "timerN_due_nodes t = {}"
    then have "timerN_second call (w, t) = Some (w, t)"
      by (simp add: timerN_second.simps)
    then show ?thesis using z(2) less.prems keys
      by (intro exI [of _ "[]"]) (simp add: timerN_grow_refl)
  next
    fix p assume p: "timerN_due t = Some p" "p \<in> timerN_due_nodes t" "p \<noteq> 0"
    let ?k = "hashg_key (tn_hash t) p"
    have pn: "p \<in> timerN_nodes t" using p(2) by (simp add: timerN_due_nodes_def)
    obtain t1 where f: "timerN_fire call (w, t) p =
        Some (timerN_fire_all act (timerN_pending t) [?k] w, t1)"
      "timerN_wf t1" "tn_uiCurrentTime t1 = tn_uiCurrentTime t"
      "timerN_pending t1 = (timerN_pending t)(?k := None)" "timerN_grow t t1 0"
      using timerN_fire_acts [OF less.prems(1) pn less.prems(2,3)] .
    let ?w1 = "timerN_fire_all act (timerN_pending t) [?k] w"
    have due1: "timerN_due_keys t1 = timerN_due_keys t - {?k}"
      using f(3,4) by (auto simp: timerN_due_keys_def)
    have "card (timerN_due_keys t1) < card (timerN_due_keys t)"
      unfolding due1 using keys p(2) fin by (intro card_Diff1_less) auto
    moreover have "timerN_acts call act J (timerN_pending t1)" unfolding f(4) by (rule timerN_acts_del) (rule less.prems(2))
    moreover have "?k \<in> dom (timerN_pending t)" using timerN_pending_node [OF less.prems(1) pn] by blast
    then have "J ?w1" by (intro timerN_acts_all [OF less.prems(2,3)]) simp
    ultimately obtain ks t' where
      IH: "timerN_second call (?w1, t1) =
          Some (timerN_fire_all act (timerN_pending t1) ks ?w1, t')" "distinct ks"
        "set ks = timerN_due_keys t1" "timerN_wf t'" "tn_uiCurrentTime t' = tn_uiCurrentTime t1"
        "timerN_pending t' = timerN_pending t1 |` (- set ks)" "timerN_due_nodes t' = {}"
        "timerN_grow t1 t' 0"
      using less.hyps [of t1 ?w1] f(2) by blast
    have "?k \<notin> set ks" using IH(3) due1 by simp
    then have same: "timerN_fire_all act (timerN_pending t1) ks ?w1 =
        timerN_fire_all act (timerN_pending t) (?k # ks) w"
    proof -
      have "timerN_fire_all act (timerN_pending t1) ks ?w1 = timerN_fire_all act (timerN_pending t) ks ?w1"
        using f(4) \<open>?k \<notin> set ks\<close> by (intro timerN_fire_all_cong) auto
      then show ?thesis using timerN_fire_all_append [of act "timerN_pending t" "[?k]" ks w] by simp
    qed
    have "timerN_second call (w, t) =
        Some (timerN_fire_all act (timerN_pending t) (?k # ks) w, t')"
      using p(1,3) f(1) IH(1) same by (subst timerN_second.simps) simp
    moreover have "set (?k # ks) = timerN_due_keys t" using IH(3) due1 keys p(2) by auto
    moreover have "timerN_pending t' = timerN_pending t |` (- set (?k # ks))"
      using IH(6) f(4) by (auto simp: restrict_map_def fun_eq_iff)
    ultimately show ?thesis using IH(2,4,5,7) \<open>?k \<notin> set ks\<close> f(3) timerN_grow_trans [OF f(5) IH(8)]
      by (intro exI [of _ "?k # ks"] exI [of _ t']) simp
  qed
qed

lemma timerN_loop_acts:
  assumes "timerN_wf t" "n = nat (T + 1 - tn_uiCurrentTime t)" "0 \<le> T" "T + 1 + N_DAY < 2 ^ 31"
    "tn_uiCurrentTime t \<le> T + 1" "timerN_acts call act J (timerN_pending t)" "J w"
  shows "\<exists>ks t'. timerN_loop call (word_of_int T) (w, t) =
      Some (timerN_fire_all act (timerN_pending t) ks w, t') \<and> distinct ks \<and>
    set ks = {k \<in> dom (timerN_pending t). timerN_time k \<le> T} \<and> sorted (map timerN_time ks) \<and>
    timerN_wf t' \<and> tn_uiCurrentTime t' = T + 1 \<and> timerN_pending t' = timerN_pending t |` (- set ks) \<and>
    timerN_grow t t' 0"
  using assms
proof (induction n arbitrary: t w)
  case 0
  then have c: "tn_uiCurrentTime t = T + 1" by simp
  moreover have "\<not> word_of_int (T + 1) \<le> (word_of_int T :: u32)"
    using timerN_clock_less [of "T + 1" T] 0(3,4) by (simp add: N_DAY_def del: of_int_add)
  ultimately have "timerN_loop call (word_of_int T) (w, t) = Some (w, t)"
    by (subst timerN_loop.simps) simp
  moreover have "{k \<in> dom (timerN_pending t). timerN_time k \<le> T} = {}"
  proof -
    have "\<not> timerN_time k \<le> T" if "k \<in> dom (timerN_pending t)" for k
      using timerN_pending_time [OF 0(1) that] c by simp
    then show ?thesis by blast
  qed
  ultimately show ?case using 0(1) c by (intro exI [of _ "[]"] exI [of _ t]) (simp add: timerN_grow_refl)
next
  case (Suc n)
  have c: "0 \<le> tn_uiCurrentTime t" "tn_uiCurrentTime t \<le> T"
    using Suc.prems by (simp_all add: timerN_wf_def timerN_params_def)
  then have le: "word_of_int (tn_uiCurrentTime t) \<le> (word_of_int T :: u32)"
    using Suc.prems(4) timerN_clock_less [of "tn_uiCurrentTime t" T] by (simp add: N_DAY_def del: of_int_add)
  let ?P = "timerN_pending t"
  obtain ks t1 where s: "timerN_second call (w, t) = Some (timerN_fire_all act ?P ks w, t1)"
    "distinct ks" "set ks = timerN_due_keys t" "timerN_wf t1" "tn_uiCurrentTime t1 = tn_uiCurrentTime t"
    "timerN_pending t1 = ?P |` (- set ks)" "timerN_due_nodes t1 = {}"
    "timerN_grow t t1 0"
    using timerN_second_acts [OF Suc.prems(1,6,7)] by blast
  let ?w = "timerN_fire_all act ?P ks w"
  let ?t = "t1\<lparr>tn_uiCurrentTime := tn_uiCurrentTime t1 + 1\<rparr>"
  have wf: "timerN_wf ?t"
    using timerN_next_second [OF s(4,7)] s(5) c(2) Suc.prems(4) by simp
  have pend: "timerN_pending ?t = ?P |` (- set ks)" using s(6) by (simp add: timerN_pending_def)
  have "n = nat (T + 1 - tn_uiCurrentTime ?t)" using Suc.prems(2) s(5) c(2) by simp
  moreover have "tn_uiCurrentTime ?t \<le> T + 1" using s(5) c(2) by simp
  moreover have "timerN_acts call act J (timerN_pending ?t)" unfolding pend by (rule timerN_acts_restrict) (rule Suc.prems(6))
  moreover have "J ?w" by (rule timerN_acts_all [OF Suc.prems(6,7)]) (auto simp: s(3) timerN_due_keys_def)
  ultimately obtain ks' t' where
    IH: "timerN_loop call (word_of_int T) (?w, ?t) =
        Some (timerN_fire_all act (timerN_pending ?t) ks' ?w, t')" "distinct ks'"
      "set ks' = {k \<in> dom (timerN_pending ?t). timerN_time k \<le> T}" "sorted (map timerN_time ks')"
      "timerN_wf t'" "tn_uiCurrentTime t' = T + 1" "timerN_pending t' = timerN_pending ?t |` (- set ks')"
      "timerN_grow ?t t' 0"
    using Suc.IH [OF wf _ Suc.prems(3,4), of ?w] by metis
  have apart: "set ks \<inter> set ks' = {}" using IH(3) pend by auto
  have fire: "timerN_fire_all act (timerN_pending ?t) ks' ?w = timerN_fire_all act ?P (ks @ ks') w"
  proof -
    have "timerN_fire_all act (timerN_pending ?t) ks' ?w = timerN_fire_all act ?P ks' ?w"
      using apart pend by (intro timerN_fire_all_cong) (auto simp: restrict_map_def)
    then show ?thesis by (simp only: timerN_fire_all_append)
  qed
  have run: "timerN_loop call (word_of_int T) (w, t) =
      Some (timerN_fire_all act ?P (ks @ ks') w, t')"
    using s(1) le IH(1) fire by (subst timerN_loop.simps) simp
  have sets: "set (ks @ ks') = {k \<in> dom ?P. timerN_time k \<le> T}"
    using s(3) IH(3) pend c(2) by (auto simp: timerN_due_keys_def)
  have "map timerN_time ks = map (\<lambda>_. tn_uiCurrentTime t) ks"
    using s(3) by (simp add: timerN_due_keys_def)
  then have now: "map timerN_time ks = replicate (length ks) (tn_uiCurrentTime t)"
    by (simp only: map_replicate_const)
  have "\<forall>k \<in> set ks'. tn_uiCurrentTime t \<le> timerN_time k"
    using timerN_pending_time [OF Suc.prems(1)] IH(3) pend by auto
  then have srt: "sorted (map timerN_time (ks @ ks'))"
    unfolding map_append now using IH(4) by (simp add: sorted_append)
  have rest: "timerN_pending t' = ?P |` (- set (ks @ ks'))"
    using IH(7) pend by (auto simp: restrict_map_def fun_eq_iff)
  have "timerN_grow t t' 0" using s(8) IH(8) timerN_grow_trans by auto
  moreover have "distinct (ks @ ks')" using s(2) IH(2) apart by simp
  ultimately show ?case using run sets srt IH(5,6) rest by blast
qed

section \<open>Functions that arm their timer again\<close>

text \<open>An allocator made sound: it never hands out an address in use.\<close>

definition sound_malloc :: "(addr set \<Rightarrow> addr) \<Rightarrow> addr set \<Rightarrow> addr" where
  "sound_malloc malloc A = (if malloc A \<in> A then 0 else malloc A)"

lemma sound_malloc_sound [simp]: "malloc_sound (sound_malloc malloc)"
  by (simp add: malloc_sound_def sound_malloc_def)

text \<open>A client function that adds itself again, at most a day less a minute ahead.\<close>

definition timerN_periodic ::
  "(addr set \<Rightarrow> addr) \<Rightarrow> nat \<Rightarrow> 'f \<Rightarrow> u8 list \<Rightarrow> 'w \<times> 'f timerNinfo \<Rightarrow> ('w \<times> 'f timerNinfo) option" where
  "timerN_periodic malloc n f a s = do {
     (s', _) \<leftarrow> timerN_add (\<lambda>_ _. Some) (sound_malloc malloc) s f a
                 (tn_uiCurrentTime (snd s) + 1 + int (n mod 86340));
     Some s'
   }"

interpretation periodic_client: timer_client "timerN_periodic malloc n" for malloc n
proof unfold_locales
  fix t :: "'f timerNinfo" and a :: "u8 list" and f :: 'f and w :: 'w
  assume wf: "timerN_wf t" and len: "length a + 16 \<le> TIMERN_BUF"
  let ?to = "tn_uiCurrentTime t + 1 + int (n mod 86340)"
  have "int (n mod 86340) < int 86340" unfolding of_nat_less_iff by simp
  then have time: "tn_uiCurrentTime t < ?to" "?to \<le> tn_uiCurrentTime t + N_DAY - ONE_MINUTE"
    by (auto simp: timerN_const_defs)
  show "\<exists>w' t'. timerN_periodic malloc n f a (w, t) = Some (w', t') \<and> timerN_wf t' \<and>
      tn_uiCurrentTime t' = tn_uiCurrentTime t \<and> timerN_due_nodes t' \<subseteq> timerN_due_nodes t \<and>
      timerN_detached t \<subseteq> timerN_detached t'"
  proof (cases "timerN_pending t (timerN_new_key t ?to) \<noteq> None \<or>
      \<not> hashg_room (sound_malloc malloc) (tn_hash t)")
    case True
    let ?t = "t\<lparr>tn_uiTimerNIdIndex := tn_uiTimerNIdIndex t + 1\<rparr>"
    have "timerN_periodic malloc n f a (w, t) = Some (w, ?t)"
      using timerN_add_refused [OF wf time len True, of "\<lambda>_ _. Some" w f] by (simp add: timerN_periodic_def)
    moreover have "timerN_due_nodes ?t = timerN_due_nodes t" "timerN_detached ?t = timerN_detached t"
      by (simp_all add: timerN_due_nodes_def timerN_nodes_def timerN_node_time_def timerN_detached_def)
    ultimately show ?thesis using wf timerN_wf_index by fastforce
  next
    case False
    then have new: "timerN_pending t (timerN_new_key t ?to) = None"
      "hashg_room (sound_malloc malloc) (tn_hash t)" by auto
    obtain t' p where a: "timerN_add (\<lambda>_ _. Some) (sound_malloc malloc) (w, t) f a ?to =
        Some ((w, t'), timerN_id (timerN_new_key t ?to))"
      "timerN_wf t'" "tn_uiCurrentTime t' = tn_uiCurrentTime t"
      "timerN_pending t' = (timerN_pending t)(timerN_new_key t ?to \<mapsto> timerN_new_data t f a)"
      "timerN_nodes t' = insert p (timerN_nodes t)" "p \<notin> dom (hg_heap (tn_hash t))"
      "dom (hg_heap (tn_hash t')) = insert p (dom (hg_heap (tn_hash t)))"
      "timerN_node_time t' p = ?to"
      "\<And>q. q \<in> timerN_nodes t \<Longrightarrow> timerN_node_time t' q = timerN_node_time t q"
      by (rule timerN_add_accepted [OF wf time len new(1) sound_malloc_sound new(2),
          of "\<lambda>_ _. Some" w f]) (rule that)
    have "timerN_due_nodes t' \<subseteq> timerN_due_nodes t"
      using a(3,5,8,9) by (auto simp: timerN_due_nodes_def)
    moreover have "timerN_detached t \<subseteq> timerN_detached t'"
      using a(5,6,7) by (auto simp: timerN_detached_def)
    ultimately show ?thesis using a(1,2,3) by (simp add: timerN_periodic_def)
  qed
qed

section \<open>Moving a timer\<close>

text \<open>Writing the key of a linked node leaves the links alone.\<close>

definition hashg_rekey :: "('k, 'd) hashg \<Rightarrow> addr \<Rightarrow> ('k, 'd) hashgnode \<Rightarrow> 'k \<Rightarrow> ('k, 'd) hashg" where
  "hashg_rekey g p n k = g\<lparr>hg_heap := (hg_heap g)(p \<mapsto> n\<lparr>hn_pstKey := k\<rparr>)\<rparr>"

lemma gseg_rekey:
  "m p = Some n \<Longrightarrow> gseg (m(p \<mapsto> n\<lparr>hn_pstKey := k\<rparr>)) s cur xs = gseg m s cur xs"
  by (induction xs arbitrary: s cur) auto

lemma hashg_rekey_links:
  assumes "hg_heap g p = Some n"
  shows "hashg_links (hashg_rekey g p n k) bs = hashg_links g bs"
    "hashg_linked (hashg_rekey g p n k) = hashg_linked g"
    "hashg_static (hashg_rekey g p n k) = hashg_static g"
    "dom (hg_heap (hashg_rekey g p n k)) = dom (hg_heap g)"
    "hashg_kd (hashg_rekey g p n k) = (hashg_kd g)(p \<mapsto> (k, hn_pstData n))"
proof -
  let ?g = "hashg_rekey g p n k"
  show linked: "hashg_linked ?g = hashg_linked g"
    using assms by (auto simp: hashg_linked_def hashg_rekey_def)
  show "hashg_static ?g = hashg_static g" by (simp add: hashg_static_def hashg_rekey_def)
  show dom: "dom (hg_heap ?g) = dom (hg_heap g)" using assms by (auto simp: hashg_rekey_def)
  show "hashg_kd ?g = (hashg_kd g)(p \<mapsto> (k, hn_pstData n))"
    by (rule ext) (simp add: hashg_kd_def hashg_rekey_def)
  have "hashg_chain ?g i xs = hashg_chain g i xs" for i xs
    using assms by (simp add: hashg_chain_def hashg_rekey_def gseg_rekey)
  moreover have "gsize ?g = gsize g" "hg_uiLinkedCnt ?g = hg_uiLinkedCnt g"
    by (simp_all add: gsize_def hashg_rekey_def)
  ultimately show "hashg_links ?g bs = hashg_links g bs"
    using linked dom by (simp add: hashg_links_def)
qed

text \<open>Rekeying, unlinking and linking again moves the entry to its new key.\<close>

lemma hashg_move_rep:
  assumes rep: "hashg_rep g bs" and p: "p \<in> hashg_linked g" "hg_heap g p = Some n"
    and new: "hashg_view g k' = None \<or> k' = hn_pstKey n"
  obtains g1 g2 bs' where "hashg_unlink_node (hashg_rekey g p n k') p = Some g1"
    "hashg_link_node g1 p = Some g2" "hashg_rep g2 bs'" "hashg_linked g2 = hashg_linked g"
    "hashg_static g2 = hashg_static g"
    "hashg_view g2 = (hashg_view g)(hn_pstKey n := None, k' \<mapsto> hn_pstData n)"
    "hashg_kd g2 = (hashg_kd g)(p \<mapsto> (k', hn_pstData n))"
proof -
  let ?g0 = "hashg_rekey g p n k'"
  note r = hashg_rekey_links [OF p(2), of k']
  have links: "hashg_links g bs" using rep by (simp add: hashg_rep_def)
  then have links0: "hashg_links ?g0 bs" using r(1) by simp
  note st0 = hashg_staticD [OF r(3)]
  have key: "hashg_key g p = hn_pstKey n" "hashg_data g p = hn_pstData n"
    using hashg_key_node [OF p(2)] by auto
  have inj: "inj_on (hashg_key g) (hashg_linked g)" using rep by (simp add: hashg_rep_def)
  have p0: "p \<in> hashg_linked ?g0" using p(1) r(2) by simp
  obtain i as cs where i: "i < gsize ?g0" "bs i = as @ p # cs"
    using hashg_linked_bucket [OF links0 p0] .
  obtain n0 where u: "hg_heap ?g0 p = Some n0" "hashg_unlink_node ?g0 p = Some (hashg_cut ?g0 p n0 i as cs)"
    "hashg_links (hashg_cut ?g0 p n0 i as cs) (bs(i := as @ cs))"
    "hashg_linked (hashg_cut ?g0 p n0 i as cs) = hashg_linked ?g0 - {p}"
    using hashg_unlink_links [OF links0 i] .
  let ?g1 = "hashg_cut ?g0 p n0 i as cs"
  have n0: "n0 = n\<lparr>hn_pstKey := k'\<rparr>" using u(1) by (simp add: hashg_rekey_def)
  have kd1: "hashg_kd ?g1 = (hashg_kd g)(p \<mapsto> (k', hn_pstData n))"
    using hashg_cut_kd [OF u(1)] r(5) by simp
  have old: "hashg_key ?g1 q = hashg_key g q" "hashg_data ?g1 q = hashg_data g q" if "q \<noteq> p" for q
    using that kd1 by (simp_all add: hashg_key_def hashg_data_def)
  have st1: "hashg_static ?g1 = hashg_static g" using r(3) by simp
  note st1' = hashg_staticD [OF st1]
  have linked1: "hashg_linked ?g1 = hashg_linked g - {p}" using u(4) r(2) by simp
  have apart: "q \<noteq> p" if "j < gsize g" "q \<in> set ((bs(i := as @ cs)) j)" for j q
    using hashg_chain_linked [OF u(3), of j] that linked1 st1' by auto
  have "hashg_placed ?g1 (bs(i := as @ cs))"
    unfolding hashg_placed_def
  proof (intro allI ballI impI)
    fix j q assume j: "j < gsize ?g1" "q \<in> set ((bs(i := as @ cs)) j)"
    then have "q \<in> set (bs j)" using i(2) by (auto split: if_splits)
    moreover have "hashg_key ?g1 q = hashg_key g q" using old(1) apart j st1' by simp
    ultimately show "\<exists>w. hashg_hash ?g1 (hashg_key ?g1 q) = Some w \<and> unat w = j"
      using rep j(1) st1' by (simp add: hashg_rep_def hashg_placed_def)
  qed
  moreover have inj1: "inj_on (hashg_key ?g1) (hashg_linked ?g1)"
    unfolding linked1 using inj_on_cong [of "hashg_linked g - {p}" "hashg_key ?g1" "hashg_key g"] old(1)
      inj_on_subset [OF inj, of "hashg_linked g - {p}"] by auto
  ultimately have rep1: "hashg_rep ?g1 (bs(i := as @ cs))"
    using rep u(3) st1' by (simp add: hashg_rep_def hashg_total_def)
  have view1: "hashg_view ?g1 = (hashg_view g)(hn_pstKey n := None)"
  proof (rule hashg_view_eqI [OF rep1])
    fix q assume "q \<in> hashg_linked ?g1"
    then have q: "q \<in> hashg_linked g" "q \<noteq> p" using linked1 by auto
    then have "hashg_key g q \<noteq> hn_pstKey n" using inj p(1) key(1) by (metis inj_onD)
    then show "((hashg_view g)(hn_pstKey n := None)) (hashg_key ?g1 q) = Some (hashg_data ?g1 q)"
      using hashg_view_hit [OF rep q(1)] old q(2) by simp
  next
    fix k assume k: "k \<notin> hashg_key ?g1 ` hashg_linked ?g1"
    show "((hashg_view g)(hn_pstKey n := None)) k = None"
    proof (cases "k = hn_pstKey n")
      case False
      have "k \<notin> hashg_key g ` hashg_linked g"
      proof
        assume "k \<in> hashg_key g ` hashg_linked g"
        then obtain q where q: "q \<in> hashg_linked g" "k = hashg_key g q" by blast
        then have "q \<noteq> p" using False key(1) by auto
        then have "q \<in> hashg_linked ?g1" "hashg_key ?g1 q = k" using q linked1 old(1) by auto
        with k show False by blast
      qed
      then show ?thesis using hashg_view_miss [OF rep] by simp
    qed simp
  qed
  have h1: "hg_heap ?g1 p = Some (n0\<lparr>hn_next := 0, hn_prev := None\<rparr>)" by (simp add: hashg_cut_heap)
  have out1: "p \<notin> hashg_linked ?g1" using linked1 by simp
  have fresh: "hn_pstKey (n0\<lparr>hn_next := 0, hn_prev := None\<rparr>) \<notin> hashg_key ?g1 ` hashg_linked ?g1"
  proof -
    have "hashg_view ?g1 k' = None" using new view1 by auto
    then have "k' \<notin> dom (hashg_view ?g1)" by (simp add: domIff)
    then show ?thesis unfolding hashg_view_dom [OF rep1] by (simp add: n0)
  qed
  have "0 < card (hashg_linked g)"
    using p(1) finite_hashg_linked [OF links] by (auto simp: card_gt_0_iff)
  then have "hg_uiLinkedCnt ?g1 < hg_uiLinkedCnt g"
    using hashg_linked_card [OF rep] hashg_linked_card [OF rep1] linked1 p(1)
    by (simp add: word_less_nat_alt)
  from hashg_link_rep [OF rep1 h1 out1 fresh this] obtain g2 bs2 where
    g2: "hashg_link_node ?g1 p = Some g2" "hashg_rep g2 bs2"
      "hashg_linked g2 = insert p (hashg_linked ?g1)" "hashg_static g2 = hashg_static ?g1"
      "hashg_kd g2 = hashg_kd ?g1"
      "hashg_view g2 = (hashg_view ?g1)(hn_pstKey (n0\<lparr>hn_next := 0, hn_prev := None\<rparr>) \<mapsto>
        hn_pstData (n0\<lparr>hn_next := 0, hn_prev := None\<rparr>))" .
  have "hashg_linked g2 = hashg_linked g" using g2(3) linked1 p(1) by auto
  moreover have "hashg_view g2 = (hashg_view g)(hn_pstKey n := None, k' \<mapsto> hn_pstData n)"
    using g2(6) view1 n0 by simp
  moreover have "hashg_static g2 = hashg_static g" using g2(4) st1 by simp
  moreover have "hashg_kd g2 = (hashg_kd g)(p \<mapsto> (k', hn_pstData n))" using g2(5) kd1 by simp
  ultimately show thesis using that [OF u(2) g2(1,2)] by blast
qed

definition timerN_moved_key :: "timerNkey \<Rightarrow> int \<Rightarrow> timerNkey" where
  "timerN_moved_key k timeout = k\<lparr>tk_sTimeKey := word_of_int timeout\<rparr>"

lemma timerN_update_start:
  assumes wf: "timerN_wf t" and k: "timerN_pending t k \<noteq> None"
  obtains p n where "p \<in> timerN_nodes t" "hg_heap (tn_hash t) p = Some n" "hn_pstKey n = k"
    "timerN_pending t k = Some (hn_pstData n)" "p \<noteq> 0" "hashg_find (tn_hash t) k = Some p"
    "hashg_upd (tn_hash t) p (\<lambda>n. n\<lparr>hn_pstKey := (hn_pstKey n)\<lparr>tk_sTimeKey := word_of_int timeout\<rparr>\<rparr>) =
       Some (hashg_rekey (tn_hash t) p n (timerN_moved_key k timeout))"
    "hg_heap (hashg_rekey (tn_hash t) p n (timerN_moved_key k timeout)) p =
       Some (n\<lparr>hn_pstKey := timerN_moved_key k timeout\<rparr>)"
proof -
  obtain p where p: "p \<in> timerN_nodes t" "hashg_key (tn_hash t) p = k"
    "hashg_find (tn_hash t) k = Some p" "p \<noteq> 0"
    using timerN_view_node [OF wf k] .
  then obtain n where n: "hg_heap (tn_hash t) p = Some n" by (auto simp: timerN_nodes_def hashg_linked_def)
  have kn: "hn_pstKey n = k" using hashg_key_node [OF n] p(2) by simp
  have "timerN_pending t k = Some (hn_pstData n)"
    using timerN_pending_node [OF wf p(1)] hashg_key_node [OF n] p(2) by simp
  moreover have "hashg_upd (tn_hash t) p (\<lambda>n. n\<lparr>hn_pstKey := (hn_pstKey n)\<lparr>tk_sTimeKey := word_of_int timeout\<rparr>\<rparr>) =
       Some (hashg_rekey (tn_hash t) p n (timerN_moved_key k timeout))"
    using n kn by (simp add: hashg_upd_def hashg_rekey_def timerN_moved_key_def)
  ultimately show thesis
    using that [OF p(1) n kn] p(3,4) by (simp add: hashg_rekey_def)
qed

lemma timerN_update_in_range:
  assumes wf: "timerN_wf t" and k: "timerN_pending t k = Some d"
    and time: "tn_uiCurrentTime t < timeout" "timeout \<le> tn_uiCurrentTime t + N_DAY - ONE_MINUTE"
    and new: "timerN_pending t (timerN_moved_key k timeout) = None \<or> timerN_moved_key k timeout = k"
  obtains t' where "timerN_update call (w, t) (timerN_id k) timeout =
      Some ((w, t'), timerN_id (timerN_moved_key k timeout))"
    "timerN_wf t'" "tn_uiCurrentTime t' = tn_uiCurrentTime t"
    "timerN_pending t' = (timerN_pending t)(k := None, timerN_moved_key k timeout \<mapsto> d)"
proof -
  let ?k = "timerN_moved_key k timeout"
  have k': "timerN_pending t k \<noteq> None" using k by simp
  obtain p n where p: "p \<in> timerN_nodes t" "hg_heap (tn_hash t) p = Some n" "hn_pstKey n = k"
    "timerN_pending t k = Some (hn_pstData n)" "p \<noteq> 0" "hashg_find (tn_hash t) k = Some p"
    "hashg_upd (tn_hash t) p (\<lambda>n. n\<lparr>hn_pstKey := (hn_pstKey n)\<lparr>tk_sTimeKey := word_of_int timeout\<rparr>\<rparr>) =
       Some (hashg_rekey (tn_hash t) p n ?k)"
    "hg_heap (hashg_rekey (tn_hash t) p n ?k) p = Some (n\<lparr>hn_pstKey := ?k\<rparr>)"
    using timerN_update_start [OF wf k', of timeout] by blast
  have pl: "p \<in> hashg_linked (tn_hash t)" using p(1) by (simp add: timerN_nodes_def)
  have new': "hashg_view (tn_hash t) ?k = None \<or> ?k = hn_pstKey n"
    using new p(3) by (simp add: timerN_pending_def)
  obtain bs where rep: "hashg_rep (tn_hash t) bs" using timerN_wf_rep [OF wf] .
  obtain g1 g2 bs' where g: "hashg_unlink_node (hashg_rekey (tn_hash t) p n ?k) p = Some g1"
    "hashg_link_node g1 p = Some g2" "hashg_rep g2 bs'" "hashg_linked g2 = hashg_linked (tn_hash t)"
    "hashg_static g2 = hashg_static (tn_hash t)"
    "hashg_view g2 = (hashg_view (tn_hash t))(hn_pstKey n := None, ?k \<mapsto> hn_pstData n)"
    "hashg_kd g2 = (hashg_kd (tn_hash t))(p \<mapsto> (?k, hn_pstData n))"
    using hashg_move_rep [OF rep pl p(2) new'] .
  let ?t = "t\<lparr>tn_hash := g2\<rparr>"
  have kt: "timerN_time ?k = timeout"
    using wf time by (simp add: timerN_time_def timerN_moved_key_def timerN_wf_def timerN_params_def
        timerN_const_defs sint_word_of_int_small)
  have key: "hashg_key g2 q = (if q = p then ?k else hashg_key (tn_hash t) q)"
    "hashg_data g2 q = hashg_data (tn_hash t) q" for q
    using g(7) hashg_key_node [OF p(2)] by (simp_all add: hashg_key_def hashg_data_def)
  have nodes: "timerN_nodes ?t = timerN_nodes t" using g(4) by (simp add: timerN_nodes_def)
  have "timerN_window ?t"
    unfolding timerN_window_def
  proof
    fix q assume "q \<in> timerN_nodes ?t"
    then have "tn_uiCurrentTime t \<le> timerN_node_time t q" "timerN_node_time t q < tn_uiCurrentTime t + N_DAY"
      using wf nodes by (auto simp: timerN_wf_def timerN_window_def)
    then show "tn_uiCurrentTime ?t \<le> timerN_node_time ?t q \<and>
        timerN_node_time ?t q < tn_uiCurrentTime ?t + N_DAY"
      using key(1) kt time by (simp add: timerN_node_time_def timerN_const_defs)
  qed
  moreover have "timerN_args_ok ?t"
    using wf nodes key(2) by (simp add: timerN_wf_def timerN_args_ok_def)
  moreover have "timerN_params ?t"
    using wf g(5) by (simp add: timerN_wf_def timerN_params_def hashg_static_def)
  moreover have "hg_uiLinkedCnt g2 = hg_uiLinkedCnt (tn_hash t)"
  proof -
    have "unat (hg_uiLinkedCnt g2) = unat (hg_uiLinkedCnt (tn_hash t))"
      using hashg_linked_card [OF rep] hashg_linked_card [OF g(3)] g(4) by simp
    then show ?thesis by (simp only: word_unat_eq_iff)
  qed
  ultimately have wf': "timerN_wf ?t"
    using wf g(3) by (auto simp: timerN_wf_def hashg_wf_def)
  have "timerN_update call (w, t) (timerN_id k) timeout = Some ((w, ?t), timerN_id ?k)"
    using p(5,6,7,8) time g(1,2) by (simp add: timerN_update_def)
  moreover have "timerN_pending ?t = (timerN_pending t)(k := None, ?k \<mapsto> d)"
    using g(6) p(3,4) k by (simp add: timerN_pending_def)
  ultimately show thesis using that wf' by simp
qed

text \<open>
  A new time beyond the day: the key of the node is overwritten, the node stays on the chain of its
  old time, and the identifier that is returned names nothing.
\<close>

lemma timerN_update_beyond:
  assumes wf: "timerN_wf t" and k: "timerN_pending t k \<noteq> None"
    and time: "tn_uiCurrentTime t + N_DAY - ONE_MINUTE < timeout" "timeout < 2 ^ 31"
      "timeout mod N_DAY \<noteq> timerN_time k mod N_DAY"
    and new: "timerN_pending t (timerN_moved_key k timeout) = None"
  obtains t' where "timerN_update call (w, t) (timerN_id k) timeout =
      Some ((w, t'), timerN_id (timerN_moved_key k timeout))"
    "timerN_nodes t' = timerN_nodes t"
    "timerN_del t' (timerN_id (timerN_moved_key k timeout)) = Some t'"
proof -
  let ?k = "timerN_moved_key k timeout"
  obtain p n where p: "p \<in> timerN_nodes t" "hg_heap (tn_hash t) p = Some n" "hn_pstKey n = k"
    "timerN_pending t k = Some (hn_pstData n)" "p \<noteq> 0" "hashg_find (tn_hash t) k = Some p"
    "hashg_upd (tn_hash t) p (\<lambda>n. n\<lparr>hn_pstKey := (hn_pstKey n)\<lparr>tk_sTimeKey := word_of_int timeout\<rparr>\<rparr>) =
       Some (hashg_rekey (tn_hash t) p n ?k)"
    "hg_heap (hashg_rekey (tn_hash t) p n ?k) p = Some (n\<lparr>hn_pstKey := ?k\<rparr>)"
    using timerN_update_start [OF wf k, of timeout] by blast
  let ?g = "hashg_rekey (tn_hash t) p n ?k"
  let ?t = "t\<lparr>tn_hash := ?g\<rparr>"
  note r = hashg_rekey_links [OF p(2), of ?k]
  note st = hashg_staticD [OF r(3)]
  obtain bs where rep: "hashg_rep (tn_hash t) bs" using timerN_wf_rep [OF wf] .
  have par: "timerN_params t" using wf by (simp add: timerN_wf_def)
  have pl: "p \<in> hashg_linked (tn_hash t)" using p(1) by (simp add: timerN_nodes_def)
  have pk: "hashg_key (tn_hash t) p = k" using hashg_key_node [OF p(2)] p(3) by simp
  have kt: "timerN_time ?k = timeout"
    using par time(1,2) by (simp add: timerN_time_def timerN_moved_key_def timerN_params_def
        timerN_const_defs sint_word_of_int_small)
  obtain v where v: "hashg_hash (tn_hash t) k = Some v" "p \<in> set (bs (unat v))" "unat v < gsize (tn_hash t)"
    using hashg_node_bucket [OF rep pl] pk by metis
  obtain u where u: "hashg_hash (tn_hash t) ?k = Some u" "unat u < gsize (tn_hash t)"
    using rep unfolding hashg_rep_def hashg_total_def by blast
  have "k \<in> dom (timerN_pending t)" using k by (simp add: domIff)
  then have nonneg: "0 \<le> timerN_time k" "0 \<le> timerN_time ?k"
    using timerN_pending_time [OF wf, of k] kt time(1) par
    by (simp_all add: timerN_params_def timerN_const_defs)
  have uv: "unat u \<noteq> unat v"
  proof
    assume "unat u = unat v"
    then have "int (unat u) = int (unat v)" by (simp only:)
    with timerN_hash_time [OF par v(1) nonneg(1)] timerN_hash_time [OF par u(1) nonneg(2)] kt time(3)
    show False by (simp only:)
  qed
  have links: "hashg_links ?g bs" using rep r(1) by (simp add: hashg_rep_def)
  obtain c where c: "hg_bucket ?g (unat u) = Some c" "gseg (hg_heap ?g) (Bucket (unat u)) c (bs (unat u))"
    using links u(2) st by (auto simp: hashg_links_def hashg_chain_def)
  have out: "p \<notin> set (bs (unat u))"
    using links uv u(2) v(2,3) st unfolding hashg_links_def by (metis IntI empty_iff)
  have "hashg_key ?g q \<noteq> ?k" if q: "q \<in> set (bs (unat u))" for q
  proof
    assume eq: "hashg_key ?g q = ?k"
    have "q \<noteq> p" using q out by auto
    then have "hashg_key (tn_hash t) q = ?k" using eq r(5) by (simp add: hashg_key_def)
    moreover have "q \<in> timerN_nodes t"
      using q hashg_chain_linked [OF links, of "unat u"] u(2) st r(2) by (auto simp: timerN_nodes_def)
    ultimately show False using timerN_pending_node [OF wf] new by force
  qed
  then have "List.find (\<lambda>q. hashg_key ?g q = ?k) (bs (unat u)) = None" by (simp add: find_None_iff)
  then have miss: "hashg_find ?g ?k = Some 0"
    using hashg_find_loop_chain [OF c(2), of ?k] c(1) u(1) st by (simp add: hashg_find_def)
  have "\<not> timeout \<le> tn_uiCurrentTime t" "\<not> timeout \<le> tn_uiCurrentTime t + N_DAY - ONE_MINUTE"
    using time(1) by (simp_all add: timerN_const_defs)
  then have "timerN_update call (w, t) (timerN_id k) timeout = Some ((w, ?t), timerN_id ?k)"
    using p(5,6,7,8) by (simp add: timerN_update_def)
  moreover have "timerN_nodes ?t = timerN_nodes t" using r(2) by (simp add: timerN_nodes_def)
  moreover have "timerN_del ?t (timerN_id ?k) = Some ?t" using miss by (simp add: timerN_del_def)
  ultimately show thesis using that by blast
qed

section \<open>Initialisation\<close>

lemma timerN_init_wf:
  assumes "timerN_init True True True now uiMaxNodeCnt uiArgMaxSize = Some t" "0 \<le> now"
    "now + N_DAY < 2 ^ 31"
  shows "timerN_wf t" "timerN_pending t = Map.empty" "tn_uiCurrentTime t = now"
proof -
  let ?len = "ucast (stTIMERNDATA_SIZE + uiArgMaxSize) :: u16"
  obtain g :: "(timerNkey, 'a timerNdata) hashg" where
    g: "hashg_init True True timerN_timeout_func stTIMERNKEY_SIZE ?len (word_of_int N_DAY) = Some g"
    by (simp add: hashg_init_def)
  have t: "tn_hash t = g" "tn_uiCurrentTime t = now" "tn_uiNodeCnt t = 0"
    using assms(1) g by (auto simp: timerN_init_def)
  have gs: "hg_uiHashSize g = 86400" "hg_func g = timerN_timeout_func" "hg_uiLinkedCnt g = 0"
    "hashg_linked g = {}"
    using g by (auto simp: hashg_init_def N_DAY_def hashg_linked_def)
  have "unat (w mod 86400 :: u32) < 86400" for w by (simp add: unat_mod_distrib)
  then have "hashg_total g"
    by (simp add: hashg_total_def hashg_hash_def gsize_def gs timerN_timeout_func_def)
  note rep = hashg_init_rep [OF g this]
  show "timerN_wf t" using rep(1) gs t assms(2,3)
    by (auto simp: timerN_wf_def hashg_wf_def timerN_params_def timerN_args_ok_def timerN_window_def
        timerN_nodes_def)
  show "timerN_pending t = Map.empty" "tn_uiCurrentTime t = now"
    using rep(2) t by (simp_all add: timerN_pending_def)
qed

section \<open>Properties\<close>

text \<open>A wheel for the witnesses, started at second 1000, and a client that logs what fires.\<close>

definition timerN_demo :: "nat timerNinfo" where
  "timerN_demo = the (timerN_init True True True 1000 100 16)"

definition timerN_log :: "nat \<Rightarrow> u8 list \<Rightarrow> (nat \<times> u8 list) list \<Rightarrow> (nat \<times> u8 list) list" where
  "timerN_log f a w = w @ [(f, a)]"

lemma timerN_demo_wf: "timerN_wf timerN_demo" "timerN_pending timerN_demo = Map.empty"
  "tn_uiCurrentTime timerN_demo = 1000"
proof -
  have "timerN_init True True True 1000 100 16 = Some timerN_demo"
    by (simp add: timerN_demo_def timerN_init_def hashg_init_def)
  from timerN_init_wf [OF this] show "timerN_wf timerN_demo"
    "timerN_pending timerN_demo = Map.empty" "tn_uiCurrentTime timerN_demo = 1000"
    by (simp_all add: N_DAY_def)
qed

lemma timerN_demo_room: "hashg_room bump_malloc (tn_hash timerN_demo)"
  by (simp add: hashg_room_def timerN_demo_def timerN_init_def hashg_init_def bump_malloc_def N_DAY_def)

lemma bump_malloc_sound: "malloc_sound bump_malloc"
  using bump_malloc_total by (simp add: malloc_total_def)

text \<open>The wheel with one timer, due at second 1010.\<close>

lemma timerN_demo_one:
  obtains t i where "timerN_add call bump_malloc (w, timerN_demo) 7 [1, 2] 1010 = Some ((w, t), timerN_id i)"
    "timerN_wf t" "tn_uiCurrentTime t = 1000" "timerN_time i = 1010"
    "timerN_pending t = [i \<mapsto> timerN_new_data timerN_demo 7 [1, 2]]"
proof -
  have time: "tn_uiCurrentTime timerN_demo < 1010"
    "1010 \<le> tn_uiCurrentTime timerN_demo + N_DAY - ONE_MINUTE"
    by (simp_all add: timerN_demo_wf(3) timerN_const_defs)
  have len: "length [1 :: u8, 2] + 16 \<le> TIMERN_BUF" by (simp add: TIMERN_BUF_def)
  have new: "timerN_pending timerN_demo (timerN_new_key timerN_demo 1010) = None"
    by (simp add: timerN_demo_wf(2))
  have kt: "timerN_time (timerN_new_key timerN_demo 1010) = 1010"
    using timerN_demo_wf(1) by (intro timerN_new_key_time)
      (simp_all add: timerN_wf_def timerN_demo_wf(3) N_DAY_def)
  show thesis
  proof (rule timerN_add_accepted [OF timerN_demo_wf(1) time len new bump_malloc_sound timerN_demo_room,
        of call w 7])
    fix t p
    assume "timerN_add call bump_malloc (w, timerN_demo) 7 [1, 2] 1010 =
        Some ((w, t), timerN_id (timerN_new_key timerN_demo 1010))" "timerN_wf t"
      "tn_uiCurrentTime t = tn_uiCurrentTime timerN_demo"
      "timerN_pending t = (timerN_pending timerN_demo)
         (timerN_new_key timerN_demo 1010 \<mapsto> timerN_new_data timerN_demo 7 [1, 2])"
    with that [of t "timerN_new_key timerN_demo 1010"] kt show thesis by (simp add: timerN_demo_wf)
  qed
qed

text \<open>C21: Invoking a well-formed wheel at time \<open>now\<close>, with functions that act only on the client's
  world, returns. It fires exactly the pending timers whose time is at most \<open>now\<close>, each once, in the
  order of their times, removes them and no others, and leaves a well-formed wheel one second past
  \<open>now\<close>.\<close>

theorem timerN_invoke_fires:
  assumes "timerN_wf t" "0 \<le> now" "now + 1 + N_DAY < 2 ^ 31" "tn_uiCurrentTime t \<le> now + 1"
  shows "\<exists>ks t'. timerN_invoke (timerN_passive act) now (w, t) =
      Some (timerN_fire_all act (timerN_pending t) ks w, t') \<and> distinct ks \<and>
    set ks = {k \<in> dom (timerN_pending t). timerN_time k \<le> now} \<and> sorted (map timerN_time ks) \<and>
    timerN_wf t' \<and> tn_uiCurrentTime t' = now + 1 \<and>
    timerN_pending t' = timerN_pending t |` (- {k. timerN_time k \<le> now})"
proof -
  obtain ks t' where r: "timerN_loop (timerN_passive act) (word_of_int now) (w, t) =
      Some (timerN_fire_all act (timerN_pending t) ks w, t')" "distinct ks"
    "set ks = {k \<in> dom (timerN_pending t). timerN_time k \<le> now}" "sorted (map timerN_time ks)"
    "timerN_wf t'" "tn_uiCurrentTime t' = now + 1" "timerN_pending t' = timerN_pending t |` (- set ks)"
    using timerN_loop_acts [OF assms(1) refl assms(2,3,4) timerN_acts_passive TrueI, of act w] by blast
  have "timerN_pending t |` (- set ks) = timerN_pending t |` (- {k. timerN_time k \<le> now})"
    unfolding r(3) by (auto simp: restrict_map_def fun_eq_iff)
  with r show ?thesis unfolding timerN_invoke_def by metis
qed

theorem timerN_invoke_fires_witness:
  "\<exists>t i t'. timerN_add (timerN_passive timerN_log) bump_malloc ([], timerN_demo) 7 [1, 2] 1010 =
       Some (([], t), i) \<and>
     timerN_invoke (timerN_passive timerN_log) 1020 ([], t) = Some ([(7, [1, 2])], t') \<and>
     timerN_pending t' = Map.empty"
proof -
  obtain t i where t: "timerN_add (timerN_passive timerN_log) bump_malloc ([], timerN_demo) 7 [1, 2] 1010 =
      Some (([], t), timerN_id i)" "timerN_wf t" "tn_uiCurrentTime t = 1000" "timerN_time i = 1010"
    "timerN_pending t = [i \<mapsto> timerN_new_data timerN_demo 7 [1, 2]]"
    using timerN_demo_one .
  obtain ks t' where r: "timerN_invoke (timerN_passive timerN_log) 1020 ([], t) =
      Some (timerN_fire_all timerN_log (timerN_pending t) ks [], t')" "distinct ks"
    "set ks = {k \<in> dom (timerN_pending t). timerN_time k \<le> 1020}"
    "timerN_pending t' = timerN_pending t |` (- {k. timerN_time k \<le> 1020})"
  proof -
    have "tn_uiCurrentTime t \<le> 1020 + 1" "(0 :: int) \<le> 1020" "1020 + 1 + N_DAY < 2 ^ 31"
      using t(3) by (simp_all add: N_DAY_def)
    from timerN_invoke_fires [OF t(2) this(2,3,1), of timerN_log "[]"] that show thesis by blast
  qed
  have "set ks = {i}" unfolding r(3) t(5) using t(4) by auto
  moreover from this have "length ks = 1" using distinct_card [OF r(2)] by simp
  then obtain x where "ks = [x]" by (cases ks) auto
  ultimately have ks: "ks = [i]" by simp
  have "timerN_fire_all timerN_log (timerN_pending t) ks [] = [(7, [1, 2])]"
    by (simp add: ks timerN_fire_all_def t(5) timerN_new_data_def timerN_log_def timerN_arg_copy_def
        timerN_demo_def timerN_init_def hashg_init_def stTIMERNDATA_SIZE_def)
  moreover have "timerN_pending t' = Map.empty"
    unfolding r(4) t(5) using t(4) by (auto simp: restrict_map_def fun_eq_iff)
  ultimately have "timerN_invoke (timerN_passive timerN_log) 1020 ([], t) = Some ([(7, [1, 2])], t')"
    "timerN_pending t' = Map.empty" using r(1) by simp_all
  with t(1) show ?thesis by blast
qed

text \<open>C32: Invoking also returns when every fired function adds itself to the wheel again, up to a day
  less a minute ahead: no second is refilled while it is being emptied, and nothing that is due by
  \<open>now\<close> is left.\<close>

theorem timerN_invoke_periodic:
  assumes "timerN_wf t" "0 \<le> now" "now + 1 + N_DAY < 2 ^ 31" "tn_uiCurrentTime t \<le> now + 1"
  shows "\<exists>w' t'. timerN_invoke (timerN_periodic malloc n) now (w, t) = Some (w', t') \<and>
    timerN_wf t' \<and> tn_uiCurrentTime t' = now + 1 \<and> (\<forall>k \<in> dom (timerN_pending t'). now < timerN_time k)"
proof -
  obtain w' t' where r: "timerN_loop (timerN_periodic malloc n) (word_of_int now) (w, t) = Some (w', t')"
    "timerN_wf t'" "tn_uiCurrentTime t' = now + 1"
    using periodic_client.loop_ok [OF assms(1) refl assms(2,3,4), of malloc n w] by blast
  have "now < timerN_time k" if "k \<in> dom (timerN_pending t')" for k
    using timerN_pending_time [OF r(2) that] r(3) by simp
  with r show ?thesis unfolding timerN_invoke_def by blast
qed

theorem timerN_invoke_periodic_witness:
  "\<exists>t i w' t'. timerN_add (timerN_periodic bump_malloc 4) bump_malloc ((), timerN_demo) 7 [1, 2] 1010 =
       Some (((), t), i) \<and> timerN_invoke (timerN_periodic bump_malloc 4) 5000 ((), t) = Some (w', t')"
proof -
  obtain t i where t: "timerN_add (timerN_periodic bump_malloc 4) bump_malloc ((), timerN_demo) 7 [1, 2] 1010 =
      Some (((), t), timerN_id i)" "timerN_wf t" "tn_uiCurrentTime t = 1000"
    using timerN_demo_one by metis
  have "tn_uiCurrentTime t \<le> 5000 + 1" "(0 :: int) \<le> 5000" "5000 + 1 + N_DAY < 2 ^ 31"
    using t(3) by (simp_all add: N_DAY_def)
  from timerN_invoke_periodic [OF t(2) this(2,3,1), of bump_malloc 4 "()"] t(1) show ?thesis by blast
qed

text \<open>C33: Adding a timer within the day arms it: the wheel stays well formed, its pending timers gain
  the new key with the function and the argument, and the identifier that is returned is the key's.
  Only when the key is present, the table full or \<open>malloc\<close> exhausted is 0 returned, and then no
  pending timer changes.\<close>

theorem timerN_add_arms:
  assumes "timerN_wf t" "tn_uiCurrentTime t < timeout" "timeout \<le> tn_uiCurrentTime t + N_DAY - ONE_MINUTE"
    "length arg + 16 \<le> TIMERN_BUF" "malloc_sound malloc"
  shows "\<exists>t'. timerN_wf t' \<and> tn_uiCurrentTime t' = tn_uiCurrentTime t \<and>
    (if timerN_pending t (timerN_new_key t timeout) = None \<and> hashg_room malloc (tn_hash t)
     then timerN_add call malloc (w, t) f arg timeout =
            Some ((w, t'), timerN_id (timerN_new_key t timeout)) \<and>
          timerN_pending t' = (timerN_pending t)(timerN_new_key t timeout \<mapsto> timerN_new_data t f arg)
     else timerN_add call malloc (w, t) f arg timeout = Some ((w, t'), 0) \<and>
          timerN_pending t' = timerN_pending t)"
proof (cases "timerN_pending t (timerN_new_key t timeout) = None \<and> hashg_room malloc (tn_hash t)")
  case True
  then have new: "timerN_pending t (timerN_new_key t timeout) = None" "hashg_room malloc (tn_hash t)"
    by simp_all
  show ?thesis
    by (rule timerN_add_accepted [OF assms(1-4) new(1) assms(5) new(2), of call w f]) (use True in auto)
next
  case False
  let ?t = "t\<lparr>tn_uiTimerNIdIndex := tn_uiTimerNIdIndex t + 1\<rparr>"
  have "timerN_add call malloc (w, t) f arg timeout = Some ((w, ?t), 0)"
    using False by (intro timerN_add_refused [OF assms(1-4)]) auto
  moreover have "timerN_wf ?t" using assms(1) by (simp only: timerN_wf_index)
  ultimately show ?thesis using False by (intro exI [of _ ?t]) (auto simp: timerN_pending_def)
qed

theorem timerN_add_arms_witness:
  "\<exists>t. timerN_add (timerN_passive timerN_log) bump_malloc ([], timerN_demo) 7 [1, 2] 1010 =
         Some (([], t), timerN_id (timerN_new_key timerN_demo 1010)) \<and> timerN_wf t"
  using timerN_add_arms [OF timerN_demo_wf(1), of 1010 "[1, 2]" bump_malloc "timerN_passive timerN_log" "[]" 7]
  by (auto simp: timerN_demo_wf timerN_const_defs TIMERN_BUF_def bump_malloc_sound timerN_demo_room)

text \<open>A timer whose time is not in the future fires at once and is not armed; one beyond the day
  less a minute is neither fired nor armed, and the caller gets 0.\<close>

theorem timerN_add_outside:
  assumes "length arg + 16 \<le> TIMERN_BUF"
  shows "(timeout \<le> tn_uiCurrentTime t \<longrightarrow>
      timerN_add (timerN_passive act) malloc (w, t) f arg timeout = Some ((act f arg w, t), 0)) \<and>
    (tn_uiCurrentTime t + N_DAY - ONE_MINUTE < timeout \<longrightarrow>
      timerN_add (timerN_passive act) malloc (w, t) f arg timeout =
        Some ((w, t\<lparr>tn_uiTimerNIdIndex := tn_uiTimerNIdIndex t + 1\<rparr>), 0))"
  using assms by (simp add: timerN_add_now timerN_add_late timerN_passive_def)

theorem timerN_add_outside_witness:
  "timerN_add (timerN_passive timerN_log) bump_malloc ([], timerN_demo) 7 [1] 1000 =
     Some (([(7, [1])], timerN_demo), 0)"
  using timerN_add_outside [of "[1]" 1000 timerN_demo timerN_log bump_malloc "[]" 7]
  by (simp add: TIMERN_BUF_def timerN_demo_wf(3) timerN_log_def)

text \<open>Deleting by identifier removes just the timer of that identifier; an identifier that names
  no pending timer changes nothing.\<close>

theorem timerN_del_correct:
  assumes "timerN_wf t"
  shows "\<exists>t'. timerN_del t (timerN_id k) = Some t' \<and> timerN_wf t' \<and>
    timerN_pending t' = (timerN_pending t)(k := None) \<and> (timerN_pending t k = None \<longrightarrow> t' = t)"
proof (cases "timerN_pending t k")
  case None
  with timerN_del_miss [OF assms None] assms show ?thesis by (simp add: fun_upd_idem)
next
  case (Some d)
  then have "timerN_pending t k \<noteq> None" by simp
  from timerN_del_hit [OF assms this] Some show ?thesis by (metis option.distinct(1))
qed

theorem timerN_del_correct_witness:
  "\<exists>t'. timerN_del timerN_demo (timerN_id (timerN_new_key timerN_demo 1010)) = Some t' \<and> t' = timerN_demo"
  using timerN_del_correct [OF timerN_demo_wf(1), of "timerN_new_key timerN_demo 1010"]
  by (auto simp: timerN_demo_wf(2))

text \<open>Updating a pending timer to a time within the day moves it: its function and argument are
  now pending under the new time, the old identifier is gone, and the new one is returned.\<close>

theorem timerN_update_moves:
  assumes "timerN_wf t" "timerN_pending t k = Some d"
    "tn_uiCurrentTime t < timeout" "timeout \<le> tn_uiCurrentTime t + N_DAY - ONE_MINUTE"
    "timerN_pending t (timerN_moved_key k timeout) = None \<or> timerN_moved_key k timeout = k"
  shows "\<exists>t'. timerN_update call (w, t) (timerN_id k) timeout =
      Some ((w, t'), timerN_id (timerN_moved_key k timeout)) \<and> timerN_wf t' \<and>
    timerN_pending t' = (timerN_pending t)(k := None, timerN_moved_key k timeout \<mapsto> d)"
  using timerN_update_in_range [OF assms, of call w] by metis

theorem timerN_update_moves_witness:
  "\<exists>t i t'. timerN_add (timerN_passive timerN_log) bump_malloc ([], timerN_demo) 7 [1, 2] 1010 =
       Some (([], t), timerN_id i) \<and>
     timerN_update (timerN_passive timerN_log) ([], t) (timerN_id i) 1500 =
       Some (([], t'), timerN_id (timerN_moved_key i 1500))"
proof -
  obtain t i where t: "timerN_add (timerN_passive timerN_log) bump_malloc ([], timerN_demo) 7 [1, 2] 1010 =
      Some (([], t), timerN_id i)" "timerN_wf t" "tn_uiCurrentTime t = 1000" "timerN_time i = 1010"
    "timerN_pending t = [i \<mapsto> timerN_new_data timerN_demo 7 [1, 2]]"
    using timerN_demo_one .
  have time: "tn_uiCurrentTime t < 1500" "1500 \<le> tn_uiCurrentTime t + N_DAY - ONE_MINUTE"
    using t(3) by (simp_all add: timerN_const_defs)
  have pend: "timerN_pending t i = Some (timerN_new_data timerN_demo 7 [1, 2])" using t(5) by simp
  have "timerN_pending t (timerN_moved_key i 1500) = None \<or> timerN_moved_key i 1500 = i"
    using t(5) by simp
  from timerN_update_moves [OF t(2) pend time this, of "timerN_passive timerN_log" "[]"] t(1)
  show ?thesis by blast
qed

text \<open>C40: Updating a pending timer to a time beyond the day loses it for its owner: the call returns
  an identifier, the timer stays linked on the chain of its old second, and deleting the returned
  identifier finds nothing.\<close>

theorem timerN_update_loses:
  assumes "timerN_wf t" "timerN_pending t k \<noteq> None"
    "tn_uiCurrentTime t + N_DAY - ONE_MINUTE < timeout" "timeout < 2 ^ 31"
    "timeout mod N_DAY \<noteq> timerN_time k mod N_DAY"
    "timerN_pending t (timerN_moved_key k timeout) = None"
  shows "\<exists>t'. timerN_update call (w, t) (timerN_id k) timeout =
      Some ((w, t'), timerN_id (timerN_moved_key k timeout)) \<and>
    timerN_nodes t' = timerN_nodes t \<and>
    timerN_del t' (timerN_id (timerN_moved_key k timeout)) = Some t'"
  using timerN_update_beyond [OF assms, of call w] by metis

theorem timerN_update_loses_witness:
  "\<exists>t i t'. timerN_add (timerN_passive timerN_log) bump_malloc ([], timerN_demo) 7 [1, 2] 1010 =
       Some (([], t), timerN_id i) \<and>
     timerN_update (timerN_passive timerN_log) ([], t) (timerN_id i) 200000 =
       Some (([], t'), timerN_id (timerN_moved_key i 200000)) \<and>
     timerN_del t' (timerN_id (timerN_moved_key i 200000)) = Some t'"
proof -
  obtain t i where t: "timerN_add (timerN_passive timerN_log) bump_malloc ([], timerN_demo) 7 [1, 2] 1010 =
      Some (([], t), timerN_id i)" "timerN_wf t" "tn_uiCurrentTime t = 1000" "timerN_time i = 1010"
    "timerN_pending t = [i \<mapsto> timerN_new_data timerN_demo 7 [1, 2]]"
    using timerN_demo_one .
  have time: "tn_uiCurrentTime t + N_DAY - ONE_MINUTE < 200000" "(200000 :: int) < 2 ^ 31"
    "200000 mod N_DAY \<noteq> timerN_time i mod N_DAY"
    using t(3,4) by (simp_all add: timerN_const_defs)
  have pend: "timerN_pending t i \<noteq> None" using t(5) by simp
  have "timerN_time (timerN_moved_key i 200000) = 200000"
    by (simp add: timerN_time_def timerN_moved_key_def)
  then have "timerN_moved_key i 200000 \<noteq> i" using t(4) by auto
  then have "timerN_pending t (timerN_moved_key i 200000) = None" using t(5) by simp
  from timerN_update_loses [OF t(2) pend time this, of "timerN_passive timerN_log" "[]"] t(1)
  show ?thesis by blast
qed

text \<open>A new wheel is well formed, empty and starts at the present second.\<close>

theorem timerN_init_ok:
  assumes "0 \<le> now" "now + N_DAY < 2 ^ 31"
  shows "\<exists>t :: 'f timerNinfo. timerN_init True True True now uiMaxNodeCnt uiArgMaxSize = Some t \<and> timerN_wf t \<and>
    timerN_pending t = Map.empty \<and> tn_uiCurrentTime t = now"
proof -
  obtain t :: "'f timerNinfo" where t: "timerN_init True True True now uiMaxNodeCnt uiArgMaxSize = Some t"
    by (simp add: timerN_init_def hashg_init_def)
  from timerN_init_wf [OF t assms] t show ?thesis by blast
qed

theorem timerN_init_ok_witness: "\<exists>t. timerN_init True True True 1000 100 16 = Some t \<and> timerN_wf t"
  using timerN_init_ok [of 1000 100 16] by (auto simp: N_DAY_def)

end
