(* ===== verification/Mems.thy ===== *)
theory Mems
  imports Pool
begin

text \<open>
  \<^verbatim>\<open>proj/UPST_LIB/SRC/NIFO/mems.c\<close>: the node pools of the messaging library. One block, usually a
  shared memory segment, holds an info block, a head room and up to ten zones of equally sized
  nodes; a zone may be guarded by a semaphore. Offsets count from the start of the block.
\<close>

section \<open>State\<close>

definition MEMS_MAIN_MEM :: u32 where "MEMS_MAIN_MEM = 1"
definition MEMS_SHARED_MEM :: u32 where "MEMS_SHARED_MEM = 2"
definition MEMS_ID :: u32 where "MEMS_ID = 0x10101010"
definition MEMS_FREE :: u8 where "MEMS_FREE = 0"
definition MEMS_ALLOCED :: u8 where "MEMS_ALLOCED = 1"
definition MEMS_SEMA_ON :: u32 where "MEMS_SEMA_ON = 1"
definition MEMS_SHM_SIZE :: int where "MEMS_SHM_SIZE = 1073741824"
definition MAX_MEMSZONE_CNT :: nat where "MAX_MEMSZONE_CNT = 10"
definition stMEMSINFO_SIZE :: int where "stMEMSINFO_SIZE = 4760"
definition stMEMSNODEHDR_SIZE :: int where "stMEMSNODEHDR_SIZE = 36"

lemmas mems_const_defs = MEMS_MAIN_MEM_def MEMS_SHARED_MEM_def MEMS_ID_def MEMS_FREE_def
  MEMS_ALLOCED_def MEMS_SEMA_ON_def MEMS_SHM_SIZE_def MAX_MEMSZONE_CNT_def stMEMSINFO_SIZE_def
  stMEMSNODEHDR_SIZE_def

lemma MEMS_flags_differ [simp]: "MEMS_FREE \<noteq> MEMS_ALLOCED" "MEMS_ALLOCED \<noteq> MEMS_FREE"
  by (simp_all add: mems_const_defs)

record memsnodehdr =
  mh_uiID :: u32
  mh_uiZoneID :: u32
  mh_TimeSec :: int
  mh_ucIsFree :: u8
  mh_DebugStr :: string
  mh_DelStr :: string

record memszone =
  mz_uiSemFlag :: u32
  mz_uiSemKey :: u32
  mz_iSemID :: int
  mz_uiZoneID :: u32
  mz_uiMemNodeBodySize :: u32
  mz_uiMemNodeAllocedCnt :: u32
  mz_uiMemNodeTotCnt :: u32
  mz_offsetNodeStart :: offset
  mz_offsetFreeList :: offset
  mz_offsetNodeEnd :: offset
  mz_createCnt :: u64
  mz_delCnt :: u64

text \<open>\<open>mi_hdr\<close> are the node headers by offset, \<open>mi_sem\<close> the values of the system's semaphores.\<close>

record memsinfo =
  mi_uiType :: u32
  mi_uiShmKey :: u32
  mi_uiTotMemSize :: offset
  mi_uiHeadRoomSize :: u32
  mi_uiMemNodeHdrSize :: u32
  mi_offsetHeadRoom :: offset
  mi_uiZoneCnt :: u32
  mi_stMEMSZONE :: "memszone list"
  mi_uiMatrixZoneID :: "u32 list"

record mems = memsinfo +
  mi_hdr :: "offset \<rightharpoonup> memsnodehdr"
  mi_sem :: "int \<Rightarrow> int"

record memszoneconf =
  zc_uiZoneID :: u32
  zc_uiSemFlag :: u32
  zc_uiSemKey :: u32
  zc_uiMemNodeBodySize :: u32
  zc_uiMemNodeTotCnt :: u32

record memsconf =
  mc_uiType :: u32
  mc_uiShmKey :: u32
  mc_uiHeadRoomSize :: u32
  mc_uiZoneCnt :: u32
  mc_stMEMSZONECONF :: "memszoneconf list"
  mc_uiMatrixZoneID :: "u32 list"

section \<open>Semaphores\<close>

text \<open>
  What \<open>semget\<close> answers for a key: the identifier when the semaphore is created, \<open>SemExists\<close> with
  the answer of the second call when it exists, or another error. \<open>exit\<close> is no return.
\<close>

datatype sem_answer = SemCreated int | SemExists int | SemError

definition mems_sem_init ::
  "(u32 \<Rightarrow> sem_answer) \<Rightarrow> (int \<Rightarrow> bool) \<Rightarrow> (int \<Rightarrow> int) \<Rightarrow> u32 \<Rightarrow> u32 \<Rightarrow> (int \<times> (int \<Rightarrow> int)) option" where
  "mems_sem_init semget setval sem semkey flag =
     (if flag \<noteq> MEMS_SEMA_ON then Some (0, sem)
      else case semget semkey of
        SemError \<Rightarrow> None
      | SemExists semid \<Rightarrow> if semid = -1 then None else Some (semid, sem)
      | SemCreated semid \<Rightarrow>
          if semid = -1 \<or> \<not> setval semid then None else Some (semid, sem(semid := 1)))"

text \<open>\<open>mems_sem_remove\<close>: the answers of \<open>semget\<close> without creation and of \<open>semctl\<close> with \<open>IPC_RMID\<close>,
  where \<open>RmGone\<close> is the error \<open>EIDRM\<close>.\<close>

datatype rmid_answer = RmDone | RmGone | RmError

definition mems_sem_remove :: "(u32 \<Rightarrow> int) \<Rightarrow> (int \<Rightarrow> rmid_answer) \<Rightarrow> u32 \<Rightarrow> u32 \<Rightarrow> int option" where
  "mems_sem_remove semget rmid semkey flag =
     (if flag \<noteq> MEMS_SEMA_ON then Some 0
      else let semid = semget semkey in
        if semid = -1 then Some 1
        else case rmid semid of RmDone \<Rightarrow> Some 0 | RmGone \<Rightarrow> Some 0 | RmError \<Rightarrow> None)"

text \<open>\<open>P\<close> on a semaphore at 0 does not return to its caller until another process has released it;
  in the sequential model it does not return.\<close>

definition mems_P :: "(int \<Rightarrow> int) \<Rightarrow> int \<Rightarrow> u32 \<Rightarrow> (int \<Rightarrow> int) option" where
  "mems_P sem semid flag =
     (if flag \<noteq> MEMS_SEMA_ON then Some sem
      else if sem semid \<le> 0 then None else Some (sem(semid := sem semid - 1)))"

definition mems_V :: "(int \<Rightarrow> int) \<Rightarrow> int \<Rightarrow> u32 \<Rightarrow> (int \<Rightarrow> int) option" where
  "mems_V sem semid flag =
     (if flag \<noteq> MEMS_SEMA_ON then Some sem else Some (sem(semid := sem semid + 1)))"

section \<open>Initialisation\<close>

definition memszone_stride :: "memszone \<Rightarrow> int" where
  "memszone_stride z = stMEMSNODEHDR_SIZE + uint (mz_uiMemNodeBodySize z)"

definition zoneconf_size :: "memszoneconf \<Rightarrow> int" where
  "zoneconf_size c = (stMEMSNODEHDR_SIZE + uint (zc_uiMemNodeBodySize c)) * uint (zc_uiMemNodeTotCnt c)"

definition mems_total_size :: "memsconf \<Rightarrow> int" where
  "mems_total_size conf = stMEMSINFO_SIZE + uint (mc_uiHeadRoomSize conf) +
     sum_list (map zoneconf_size (take (unat (mc_uiZoneCnt conf)) (mc_stMEMSZONECONF conf)))"

text \<open>The loop that lays the zones out one after the other.\<close>

fun mems_init_zones ::
  "(u32 \<Rightarrow> sem_answer) \<Rightarrow> (int \<Rightarrow> bool) \<Rightarrow> (int \<Rightarrow> int) \<Rightarrow> offset \<Rightarrow> memszoneconf list \<Rightarrow>
   (memszone list \<times> (int \<Rightarrow> int)) option" where
  "mems_init_zones semget setval sem offsetNodeStart [] = Some ([], sem)"
| "mems_init_zones semget setval sem offsetNodeStart (c # cs) = do {
     (semid, sem1) \<leftarrow> mems_sem_init semget setval sem (zc_uiSemKey c) (zc_uiSemFlag c);
     let offsetNodeEnd = offsetNodeStart + zoneconf_size c;
     (zs, sem2) \<leftarrow> mems_init_zones semget setval sem1 offsetNodeEnd cs;
     Some (\<lparr>mz_uiSemFlag = zc_uiSemFlag c, mz_uiSemKey = zc_uiSemKey c, mz_iSemID = semid,
            mz_uiZoneID = zc_uiZoneID c, mz_uiMemNodeBodySize = zc_uiMemNodeBodySize c,
            mz_uiMemNodeAllocedCnt = 0, mz_uiMemNodeTotCnt = zc_uiMemNodeTotCnt c,
            mz_offsetNodeStart = offsetNodeStart, mz_offsetFreeList = offsetNodeStart,
            mz_offsetNodeEnd = offsetNodeEnd, mz_createCnt = 0, mz_delCnt = 0\<rparr> # zs, sem2)
   }"

definition mems_free_hdr :: "u32 \<Rightarrow> memsnodehdr" where
  "mems_free_hdr zid = \<lparr>mh_uiID = MEMS_ID, mh_uiZoneID = zid, mh_TimeSec = 0,
     mh_ucIsFree = MEMS_FREE, mh_DebugStr = [], mh_DelStr = []\<rparr>"

text \<open>The loops that write the node headers of one zone and of all zones.\<close>

primrec mems_init_nodes :: "memszone \<Rightarrow> (offset \<rightharpoonup> memsnodehdr) \<Rightarrow> nat \<Rightarrow> (offset \<rightharpoonup> memsnodehdr)" where
  "mems_init_nodes z h 0 = h"
| "mems_init_nodes z h (Suc n) =
     (mems_init_nodes z h n)
       (slot_at (mz_offsetNodeStart z) (memszone_stride z) n \<mapsto> mems_free_hdr (mz_uiZoneID z))"

primrec mems_init_hdrs :: "memszone list \<Rightarrow> (offset \<rightharpoonup> memsnodehdr) \<Rightarrow> (offset \<rightharpoonup> memsnodehdr)" where
  "mems_init_hdrs [] h = h"
| "mems_init_hdrs (z # zs) h =
     mems_init_hdrs zs (mems_init_nodes z h (unat (mz_uiMemNodeTotCnt z)))"

text \<open>
  The answers of the operating system. A zone count beyond the configuration's array reads outside
  it; a failed \<open>malloc\<close> is written through. When the exclusive \<open>shmget\<close> fails for another reason
  than \<open>EEXIST\<close> the identifier is \<open>-1\<close> and \<open>shmat\<close> fails.
\<close>

datatype mems_shmget = MShmCreated | MShmExists | MShmError

record mems_os =
  ms_malloc :: bool
  ms_shmget :: mems_shmget
  ms_shmget_again :: bool
  ms_shmat :: bool
  ms_existing :: mems
  ms_semget :: "u32 \<Rightarrow> sem_answer"
  ms_setval :: "int \<Rightarrow> bool"
  ms_sem :: "int \<Rightarrow> int"

definition mems_fresh :: "mems_os \<Rightarrow> memsconf \<Rightarrow> mems option" where
  "mems_fresh os conf = do {
     (zs, sem) \<leftarrow> mems_init_zones (ms_semget os) (ms_setval os) (ms_sem os)
                   (stMEMSINFO_SIZE + uint (mc_uiHeadRoomSize conf))
                   (take (unat (mc_uiZoneCnt conf)) (mc_stMEMSZONECONF conf));
     Some \<lparr>mi_uiType = mc_uiType conf, mi_uiShmKey = mc_uiShmKey conf,
           mi_uiTotMemSize = mems_total_size conf, mi_uiHeadRoomSize = mc_uiHeadRoomSize conf,
           mi_uiMemNodeHdrSize = word_of_int stMEMSNODEHDR_SIZE,
           mi_offsetHeadRoom = stMEMSINFO_SIZE, mi_uiZoneCnt = mc_uiZoneCnt conf,
           mi_stMEMSZONE = zs, mi_uiMatrixZoneID = mc_uiMatrixZoneID conf,
           mi_hdr = mems_init_hdrs zs Map.empty, mi_sem = sem\<rparr>
   }"

definition mems_init :: "mems_os \<Rightarrow> memsconf \<Rightarrow> mems option option" where
  "mems_init os conf =
    (if length (mc_stMEMSZONECONF conf) < unat (mc_uiZoneCnt conf) then None
     else if MEMS_SHM_SIZE < mems_total_size conf then Some None
     else if mc_uiType conf = MEMS_MAIN_MEM then
       (if ms_malloc os then map_option Some (mems_fresh os conf) else None)
     else if mc_uiType conf = MEMS_SHARED_MEM then
       (case ms_shmget os of
          MShmExists \<Rightarrow>
            if \<not> ms_shmget_again os then Some None
            else if \<not> ms_shmat os then Some None
            else Some (Some (ms_existing os))
        | MShmError \<Rightarrow> Some None
        | MShmCreated \<Rightarrow>
            if ms_shmat os then map_option Some (mems_fresh os conf) else Some None)
     else Some None)"

section \<open>Allocation\<close>

text \<open>The zone at an index; the array has \<open>MAX_MEMSZONE_CNT\<close> entries, of which the list holds the
  configured ones.\<close>

definition mems_zone :: "mems \<Rightarrow> u32 \<Rightarrow> memszone option" where
  "mems_zone m i = (if unat i < length (mi_stMEMSZONE m) then Some (mi_stMEMSZONE m ! unat i) else None)"

definition mems_set_zone :: "mems \<Rightarrow> u32 \<Rightarrow> memszone \<Rightarrow> mems" where
  "mems_set_zone m i z = m\<lparr>mi_stMEMSZONE := (mi_stMEMSZONE m)[unat i := z]\<rparr>"

definition memszone_next :: "memszone \<Rightarrow> offset" where
  "memszone_next z =
     (let off = mz_offsetFreeList z + memszone_stride z
      in if off = mz_offsetNodeEnd z then mz_offsetNodeStart z else off)"

text \<open>The search of \<open>mems_alloc\<close> in one zone. \<open>iDebug\<close> is a \<open>U32\<close> in the code; it stays at most
  \<open>uiMemNodeTotCnt + 1\<close>.\<close>

function mems_alloc_loop ::
  "memszone \<Rightarrow> (offset \<rightharpoonup> memsnodehdr) \<Rightarrow> int \<Rightarrow> nat \<Rightarrow>
   (memszone \<times> (offset \<rightharpoonup> memsnodehdr) \<times> offset option) option" where
  "mems_alloc_loop z hdr now iDebug =
    (let pFree = mz_offsetFreeList z; z1 = z\<lparr>mz_offsetFreeList := memszone_next z\<rparr>
     in case hdr pFree of
          None \<Rightarrow> None
        | Some h \<Rightarrow>
            if mh_ucIsFree h = MEMS_FREE then
              Some (z1\<lparr>mz_createCnt := mz_createCnt z + 1\<rparr>,
                    hdr(pFree \<mapsto> h\<lparr>mh_TimeSec := now, mh_ucIsFree := MEMS_ALLOCED\<rparr>),
                    Some (pFree + stMEMSNODEHDR_SIZE))
            else if Suc iDebug > unat (mz_uiMemNodeTotCnt z) then Some (z1, hdr, None)
            else mems_alloc_loop z1 hdr now (Suc iDebug))"
  by pat_completeness auto
termination
  by (relation "measure (\<lambda>(z, hdr, now, iDebug). Suc (unat (mz_uiMemNodeTotCnt z)) - iDebug)")
     (auto simp: Let_def)

declare mems_alloc_loop.simps [simp del]

definition mems_alloc :: "mems \<Rightarrow> u32 \<Rightarrow> u32 \<Rightarrow> int \<Rightarrow> (mems \<times> offset option) option" where
  "mems_alloc m uiSize uiZoneID now = do {
     z \<leftarrow> mems_zone m uiZoneID;
     if mz_uiMemNodeBodySize z < uiSize then Some (m, None)
     else do {
       sem1 \<leftarrow> mems_P (mi_sem m) (mz_iSemID z) (mz_uiSemFlag z);
       (z', hdr', r) \<leftarrow> mems_alloc_loop z (mi_hdr m) now 0;
       sem2 \<leftarrow> mems_V sem1 (mz_iSemID z') (mz_uiSemFlag z');
       Some ((mems_set_zone m uiZoneID z')\<lparr>mi_hdr := hdr', mi_sem := sem2\<rparr>, r)
     }
   }"

section \<open>Release\<close>

text \<open>The deletion counter is the one of the zone the header names.\<close>

definition mems_free :: "mems \<Rightarrow> offset \<Rightarrow> (mems \<times> int) option" where
  "mems_free m pFree = do {
     h \<leftarrow> mi_hdr m (pFree - stMEMSNODEHDR_SIZE);
     if MEMS_ID \<noteq> mh_uiID h \<or> MEMS_ALLOCED \<noteq> mh_ucIsFree h then Some (m, 1)
     else do {
       z \<leftarrow> mems_zone m (mh_uiZoneID h);
       Some ((mems_set_zone m (mh_uiZoneID h) (z\<lparr>mz_delCnt := mz_delCnt z + 1\<rparr>))
               \<lparr>mi_hdr := (mi_hdr m)(pFree - stMEMSNODEHDR_SIZE \<mapsto> h\<lparr>mh_ucIsFree := MEMS_FREE\<rparr>)\<rparr>, 0)
     }
   }"

section \<open>Counting and collecting\<close>

text \<open>The loop of \<open>mems_alloced_cnt\<close> over the nodes of a zone that starts at \<open>base\<close>.\<close>

fun mems_count_loop :: "(offset \<rightharpoonup> memsnodehdr) \<Rightarrow> offset \<Rightarrow> int \<Rightarrow> nat \<Rightarrow> nat \<Rightarrow> int \<Rightarrow> int option" where
  "mems_count_loop hdr base sz iIndex 0 cnt = Some cnt"
| "mems_count_loop hdr base sz iIndex (Suc left) cnt = do {
     h \<leftarrow> hdr (slot_at base sz iIndex);
     mems_count_loop hdr base sz (Suc iIndex) left
       (if mh_ucIsFree h = MEMS_ALLOCED then cnt + 1 else cnt)
   }"

definition mems_alloced_cnt :: "mems \<Rightarrow> u32 \<Rightarrow> int option" where
  "mems_alloced_cnt m uiZoneID = do {
     z \<leftarrow> mems_zone m uiZoneID;
     mems_count_loop (mi_hdr m) (mz_offsetNodeStart z) (memszone_stride z) 0
       (unat (mz_uiMemNodeTotCnt z)) 0
   }"

text \<open>
  \<open>mems_garbage_collector\<close> frees the nodes that have been out for more than \<open>timegap\<close> seconds. Its
  base pointer is advanced by \<open>offsetNodeStart\<close> of each zone in turn and never reset, so it also looks
  at addresses that are no node: \<open>raw m q\<close> is the header that the bytes at \<open>q\<close> of the block \<open>m\<close> make
  up there, \<open>None\<close> outside the mapped memory, where the read is a fault. The sum \<open>TimeSec + timegap\<close>
  is one of two C ints and wraps. The optional print function is NULL here.
\<close>

type_synonym mems_raw = "mems \<Rightarrow> offset \<Rightarrow> memsnodehdr option"

definition mems_gc_due :: "memsnodehdr \<Rightarrow> int \<Rightarrow> int \<Rightarrow> bool" where
  "mems_gc_due h timegap cur_time \<longleftrightarrow>
     mh_ucIsFree h = MEMS_ALLOCED \<and> sint (word_of_int (mh_TimeSec h + timegap) :: u32) < cur_time"

text \<open>The body of the inner loop at the address \<open>pIndex\<close>. The release of bytes that are no node header
  does nothing when the identifier is not there; when it is, it writes into bytes outside the model.\<close>

definition mems_gc_node :: "mems_raw \<Rightarrow> mems \<Rightarrow> offset \<Rightarrow> int \<Rightarrow> int \<Rightarrow> mems option" where
  "mems_gc_node raw m pIndex timegap cur_time =
     (case mi_hdr m pIndex of
        Some h \<Rightarrow>
          if mems_gc_due h timegap cur_time
          then map_option fst (mems_free m (pIndex + stMEMSNODEHDR_SIZE)) else Some m
      | None \<Rightarrow>
         (case raw m pIndex of
            None \<Rightarrow> None
          | Some h \<Rightarrow>
              if mems_gc_due h timegap cur_time \<and> mh_uiID h = MEMS_ID then None else Some m))"

fun mems_gc_zone ::
  "mems_raw \<Rightarrow> mems \<Rightarrow> offset \<Rightarrow> int \<Rightarrow> int \<Rightarrow> int \<Rightarrow> nat \<Rightarrow> nat \<Rightarrow> mems option" where
  "mems_gc_zone raw m pBase sz timegap cur_time iIndex 0 = Some m"
| "mems_gc_zone raw m pBase sz timegap cur_time iIndex (Suc left) = do {
     m1 \<leftarrow> mems_gc_node raw m (slot_at pBase sz iIndex) timegap cur_time;
     mems_gc_zone raw m1 pBase sz timegap cur_time (Suc iIndex) left
   }"

fun mems_gc_zones :: "mems_raw \<Rightarrow> mems \<Rightarrow> offset \<Rightarrow> int \<Rightarrow> int \<Rightarrow> nat \<Rightarrow> nat \<Rightarrow> mems option" where
  "mems_gc_zones raw m pBase timegap cur_time i 0 = Some m"
| "mems_gc_zones raw m pBase timegap cur_time i (Suc left) = do {
     z \<leftarrow> mems_zone m (of_nat i);
     let pBase' = pBase + mz_offsetNodeStart z;
     m1 \<leftarrow> mems_gc_zone raw m pBase' (memszone_stride z) timegap cur_time 0 (unat (mz_uiMemNodeTotCnt z));
     mems_gc_zones raw m1 pBase' timegap cur_time (Suc i) left
   }"

definition mems_garbage_collector :: "mems_raw \<Rightarrow> mems \<Rightarrow> int \<Rightarrow> int \<Rightarrow> mems option" where
  "mems_garbage_collector raw m timegap cur_time =
     mems_gc_zones raw m 0 timegap cur_time 0 (unat (mi_uiZoneCnt m))"

end
