(* ===== verification/Clist.thy ===== *)
theory Clist
  imports Prelude
begin

text \<open>
  \<^verbatim>\<open>proj/UPST_LIB/INC/clisto.h\<close>: circular doubly linked lists whose links are offsets from the base
  of a shared block. A list head is a pair of links embedded in a node; \<open>clisto_ptr\<close> and
  \<open>clisto_offset\<close> translate between an offset and a pointer, with 0 for NULL, so that a head is
  named by its offset here. The store maps the offsets of the heads to their links; an access
  through NULL or outside the heads is a fault.
\<close>

section \<open>Operations\<close>

record clist_head =
  cl_offset_next :: offset
  cl_offset_prev :: offset

type_synonym clists = "offset \<rightharpoonup> clist_head"

definition clist_set_next :: "clists \<Rightarrow> offset \<Rightarrow> offset \<Rightarrow> clists option" where
  "clist_set_next h p v =
     (case h p of None \<Rightarrow> None | Some c \<Rightarrow> Some (h(p \<mapsto> c\<lparr>cl_offset_next := v\<rparr>)))"

definition clist_set_prev :: "clists \<Rightarrow> offset \<Rightarrow> offset \<Rightarrow> clists option" where
  "clist_set_prev h p v =
     (case h p of None \<Rightarrow> None | Some c \<Rightarrow> Some (h(p \<mapsto> c\<lparr>cl_offset_prev := v\<rparr>)))"

text \<open>\<open>CINIT_LIST_HEAD\<close> writes both links of raw memory.\<close>

definition cinit_list_head :: "clists \<Rightarrow> offset \<Rightarrow> clists" where
  "cinit_list_head h p = h(p \<mapsto> \<lparr>cl_offset_next = p, cl_offset_prev = p\<rparr>)"

text \<open>\<open>__clist_add\<close>, \<open>__clist_del\<close> and the operations on top of them; \<open>new\<close> is \<open>n\<close> here.\<close>

definition clist_add :: "clists \<Rightarrow> offset \<Rightarrow> offset \<Rightarrow> offset \<Rightarrow> clists option" where
  "clist_add h n p q = do {
     h1 \<leftarrow> clist_set_prev h q n;
     h2 \<leftarrow> clist_set_next h1 n q;
     h3 \<leftarrow> clist_set_prev h2 n p;
     clist_set_next h3 p n
   }"

definition clist_add_head :: "clists \<Rightarrow> offset \<Rightarrow> offset \<Rightarrow> clists option" where
  "clist_add_head h n head = do {
     c \<leftarrow> h head;
     clist_add h n head (cl_offset_next c)
   }"

definition clist_add_tail :: "clists \<Rightarrow> offset \<Rightarrow> offset \<Rightarrow> clists option" where
  "clist_add_tail h n head = do {
     c \<leftarrow> h head;
     clist_add h n (cl_offset_prev c) head
   }"

definition clist_del2 :: "clists \<Rightarrow> offset \<Rightarrow> offset \<Rightarrow> clists option" where
  "clist_del2 h p q = do {
     h1 \<leftarrow> clist_set_prev h q p;
     clist_set_next h1 p q
   }"

definition clist_del :: "clists \<Rightarrow> offset \<Rightarrow> clists option" where
  "clist_del h e = do {
     c \<leftarrow> h e;
     h1 \<leftarrow> clist_del2 h (cl_offset_prev c) (cl_offset_next c);
     h2 \<leftarrow> clist_set_prev h1 e 0;
     clist_set_next h2 e 0
   }"

definition clist_del_init :: "clists \<Rightarrow> offset \<Rightarrow> clists option" where
  "clist_del_init h e = do {
     c \<leftarrow> h e;
     h1 \<leftarrow> clist_del2 h (cl_offset_prev c) (cl_offset_next c);
     Some (cinit_list_head h1 e)
   }"

definition clist_empty :: "clists \<Rightarrow> offset \<Rightarrow> bool option" where
  "clist_empty h head = do { c \<leftarrow> h head; Some (cl_offset_next c = head) }"

text \<open>\<open>list\<close> and \<open>head\<close> are the heads of two lists; \<open>l\<close> is the list that is added.\<close>

definition clist_splice :: "clists \<Rightarrow> offset \<Rightarrow> offset \<Rightarrow> clists option" where
  "clist_splice h l head = do {
     cl \<leftarrow> h l;
     ch \<leftarrow> h head;
     let last = cl_offset_prev cl;
     let at = cl_offset_prev ch;
     h1 \<leftarrow> clist_set_prev h head last;
     h2 \<leftarrow> clist_set_next h1 last head;
     h3 \<leftarrow> clist_set_prev h2 l at;
     clist_set_next h3 at l
   }"

section \<open>Links\<close>

definition nxt :: "clists \<Rightarrow> offset \<rightharpoonup> offset" where
  "nxt h p = map_option cl_offset_next (h p)"

definition prv :: "clists \<Rightarrow> offset \<rightharpoonup> offset" where
  "prv h p = map_option cl_offset_prev (h p)"

lemma nxt_dom [simp]: "dom (nxt h) = dom h" and prv_dom [simp]: "dom (prv h) = dom h"
  by (auto simp: nxt_def prv_def dom_def)

lemma clist_eqI: "nxt h = nxt h' \<Longrightarrow> prv h = prv h' \<Longrightarrow> h = h'"
proof
  fix p assume n: "nxt h = nxt h'" and p: "prv h = prv h'"
  show "h p = h' p"
    using fun_cong [OF n, of p] fun_cong [OF p, of p]
    by (cases "h p"; cases "h' p") (auto simp: nxt_def prv_def)
qed

lemma clist_set_next_ok:
  assumes "p \<in> dom h"
  obtains h' where "clist_set_next h p v = Some h'" "nxt h' = (nxt h)(p \<mapsto> v)" "prv h' = prv h" "dom h' = dom h"
proof -
  obtain c where c: "h p = Some c" using assms by blast
  show ?thesis
    by (rule that [of "h(p \<mapsto> c\<lparr>cl_offset_next := v\<rparr>)"])
       (use c in \<open>auto simp: clist_set_next_def nxt_def prv_def\<close>)
qed

lemma clist_set_prev_ok:
  assumes "p \<in> dom h"
  obtains h' where "clist_set_prev h p v = Some h'" "prv h' = (prv h)(p \<mapsto> v)" "nxt h' = nxt h" "dom h' = dom h"
proof -
  obtain c where c: "h p = Some c" using assms by blast
  show ?thesis
    by (rule that [of "h(p \<mapsto> c\<lparr>cl_offset_prev := v\<rparr>)"])
       (use c in \<open>auto simp: clist_set_prev_def nxt_def prv_def\<close>)
qed

lemma cinit_list_head_links [simp]:
  "nxt (cinit_list_head h p) = (nxt h)(p \<mapsto> p)" "prv (cinit_list_head h p) = (prv h)(p \<mapsto> p)"
  "dom (cinit_list_head h p) = insert p (dom h)"
  by (auto simp: cinit_list_head_def nxt_def prv_def)

lemma clist_add_ok:
  assumes "n \<in> dom h" "p \<in> dom h" "q \<in> dom h"
  obtains h' where "clist_add h n p q = Some h'" "nxt h' = (nxt h)(n \<mapsto> q, p \<mapsto> n)"
    "prv h' = (prv h)(q \<mapsto> n, n \<mapsto> p)" "dom h' = dom h"
proof -
  obtain h1 where 1: "clist_set_prev h q n = Some h1" "prv h1 = (prv h)(q \<mapsto> n)" "nxt h1 = nxt h" "dom h1 = dom h"
    by (rule clist_set_prev_ok [OF assms(3)])
  have "n \<in> dom h1" using 1(4) assms(1) by simp
  then obtain h2 where 2: "clist_set_next h1 n q = Some h2" "nxt h2 = (nxt h1)(n \<mapsto> q)" "prv h2 = prv h1" "dom h2 = dom h1"
    by (rule clist_set_next_ok)
  have "n \<in> dom h2" using 1(4) 2(4) assms(1) by simp
  then obtain h3 where 3: "clist_set_prev h2 n p = Some h3" "prv h3 = (prv h2)(n \<mapsto> p)" "nxt h3 = nxt h2" "dom h3 = dom h2"
    by (rule clist_set_prev_ok)
  have "p \<in> dom h3" using 1(4) 2(4) 3(4) assms(2) by simp
  then obtain h4 where 4: "clist_set_next h3 p n = Some h4" "nxt h4 = (nxt h3)(p \<mapsto> n)" "prv h4 = prv h3" "dom h4 = dom h3"
    by (rule clist_set_next_ok)
  show ?thesis
    by (rule that [of h4]) (simp_all add: clist_add_def 1 2 3 4)
qed

lemma clist_del2_ok:
  assumes "p \<in> dom h" "q \<in> dom h"
  obtains h' where "clist_del2 h p q = Some h'" "nxt h' = (nxt h)(p \<mapsto> q)" "prv h' = (prv h)(q \<mapsto> p)" "dom h' = dom h"
proof -
  obtain h1 where 1: "clist_set_prev h q p = Some h1" "prv h1 = (prv h)(q \<mapsto> p)" "nxt h1 = nxt h" "dom h1 = dom h"
    by (rule clist_set_prev_ok [OF assms(2)])
  have "p \<in> dom h1" using 1(4) assms(1) by simp
  then obtain h2 where 2: "clist_set_next h1 p q = Some h2" "nxt h2 = (nxt h1)(p \<mapsto> q)" "prv h2 = prv h1" "dom h2 = dom h1"
    by (rule clist_set_next_ok)
  show ?thesis by (rule that [of h2]) (simp_all add: clist_del2_def 1 2)
qed

section \<open>Rings\<close>

text \<open>\<open>cseg h xs\<close>: neighbours in \<open>xs\<close> point at each other.\<close>

fun cseg :: "clists \<Rightarrow> offset list \<Rightarrow> bool" where
  "cseg h (x # y # xs) \<longleftrightarrow> nxt h x = Some y \<and> prv h y = Some x \<and> cseg h (y # xs)"
| "cseg h xs \<longleftrightarrow> True"

definition cring :: "clists \<Rightarrow> offset list \<Rightarrow> bool" where
  "cring h xs \<longleftrightarrow> xs \<noteq> [] \<and> distinct xs \<and> cseg h xs \<and> nxt h (last xs) = Some (hd xs) \<and> prv h (hd xs) = Some (last xs)"

lemma cseg_append:
  "cseg h (xs @ ys) \<longleftrightarrow> cseg h xs \<and> cseg h ys \<and>
     (xs \<noteq> [] \<longrightarrow> ys \<noteq> [] \<longrightarrow> nxt h (last xs) = Some (hd ys) \<and> prv h (hd ys) = Some (last xs))"
proof (induction xs rule: induct_list012)
  case 1
  then show ?case by simp
next
  case (2 x)
  then show ?case by (cases ys) auto
next
  case (3 x y zs)
  then show ?case by auto
qed

lemma cseg_Cons: "cseg h (x # xs) \<longleftrightarrow> cseg h xs \<and> (xs \<noteq> [] \<longrightarrow> nxt h x = Some (hd xs) \<and> prv h (hd xs) = Some x)"
  by (cases xs) auto

lemma cseg_cong:
  assumes "cseg h xs" "\<And>x. x \<in> set (butlast xs) \<Longrightarrow> nxt h' x = nxt h x" "\<And>x. x \<in> set (tl xs) \<Longrightarrow> prv h' x = prv h x"
  shows "cseg h' xs"
  using assms
proof (induction xs rule: induct_list012)
  case (3 x y zs)
  have "cseg h (y # zs)" using 3(3) by simp
  then have "cseg h' (y # zs)"
  proof (rule 3(2))
    show "nxt h' z = nxt h z" if "z \<in> set (butlast (y # zs))" for z
      using 3(4) [of z] that by simp
    show "prv h' z = prv h z" if "z \<in> set (tl (y # zs))" for z
      using 3(5) [of z] that by simp
  qed
  moreover have "nxt h' x = nxt h x" "prv h' y = prv h y" using 3(4) [of x] 3(5) [of y] by simp_all
  ultimately show ?case using 3(3) by simp
qed simp_all

lemma butlast_neq_last: "distinct zs \<Longrightarrow> y \<in> set (butlast zs) \<Longrightarrow> y \<noteq> last zs"
  by (cases zs rule: rev_cases) auto

lemma clist_eq_at: "nxt h' y = nxt h y \<Longrightarrow> prv h' y = prv h y \<Longrightarrow> h' y = h y"
  by (cases "h y"; cases "h' y") (auto simp: nxt_def prv_def)

lemma cring_nonempty [simp]: "\<not> cring h []"
  by (simp add: cring_def)

lemma cring_distinct: "cring h xs \<Longrightarrow> distinct xs"
  by (simp add: cring_def)

lemma cring_dom: "cring h xs \<Longrightarrow> set xs \<subseteq> dom h"
proof -
  have "cseg h xs \<Longrightarrow> xs \<noteq> [] \<Longrightarrow> set (butlast xs) \<subseteq> dom h" for xs
    by (induction xs rule: induct_list012) (auto simp: nxt_def split: if_splits)
  moreover assume r: "cring h xs"
  ultimately have "set (butlast xs) \<subseteq> dom h" by (simp add: cring_def)
  moreover have "last xs \<in> dom h" using r by (auto simp: cring_def nxt_def)
  moreover have "set xs = insert (last xs) (set (butlast xs))"
  proof -
    have "xs = butlast xs @ [last xs]" using r by (simp add: cring_def)
    from arg_cong [OF this, of set] show ?thesis by simp
  qed
  ultimately show ?thesis by simp
qed

text \<open>A ring that shares no node with what a step writes is kept.\<close>

lemma cring_cong:
  assumes "cring h xs" "\<And>x. x \<in> set xs \<Longrightarrow> h' x = h x"
  shows "cring h' xs"
proof -
  have eq: "nxt h' x = nxt h x" "prv h' x = prv h x" if "x \<in> set xs" for x
    using assms(2) [OF that] by (simp_all add: nxt_def prv_def)
  have ne: "xs \<noteq> []" using assms(1) by (simp add: cring_def)
  have "cseg h' xs"
  proof (rule cseg_cong [of h])
    show "cseg h xs" using assms(1) by (simp add: cring_def)
    show "nxt h' x = nxt h x" if "x \<in> set (butlast xs)" for x
      using eq(1) [OF in_set_butlastD [OF that]] .
    show "prv h' x = prv h x" if "x \<in> set (tl xs)" for x
      using eq(2) [OF list.set_sel(2) [OF ne that]] .
  qed
  moreover have "nxt h' (last xs) = nxt h (last xs)" "prv h' (hd xs) = prv h (hd xs)"
    using eq last_in_set [OF ne] hd_in_set [OF ne] by simp_all
  ultimately show ?thesis using assms(1) by (simp add: cring_def)
qed

lemma cring_rotate: "cring h (xs @ ys) \<Longrightarrow> cring h (ys @ xs)"
  by (cases "xs = []"; cases "ys = []") (auto simp: cring_def cseg_append)

lemma cring_single: "cring (cinit_list_head h p) [p]"
  by (simp add: cring_def)

text \<open>Adding before the head is adding at the end; adding after it, at the second place.\<close>

lemma clist_add_tail_ring:
  assumes "cring h (x # xs)" "n \<notin> set (x # xs)" "n \<in> dom h"
  obtains h' where "clist_add_tail h n x = Some h'" "cring h' (x # xs @ [n])" "dom h' = dom h"
    "\<And>y. y \<notin> set (x # xs @ [n]) \<Longrightarrow> h' y = h y"
proof -
  let ?l = "last (x # xs)"
  have dom: "x \<in> dom h" "?l \<in> dom h" using cring_dom [OF assms(1)] last_in_set [of "x # xs"] by auto
  obtain c where c: "h x = Some c" using dom by blast
  have prev: "cl_offset_prev c = ?l" using assms(1) c by (simp add: cring_def prv_def)
  obtain h' where h': "clist_add h n ?l x = Some h'" "nxt h' = (nxt h)(n \<mapsto> x, ?l \<mapsto> n)"
    "prv h' = (prv h)(x \<mapsto> n, n \<mapsto> ?l)" "dom h' = dom h"
    by (rule clist_add_ok [OF assms(3) dom(2,1)])
  have dist: "distinct (x # xs)" using assms(1) by (simp add: cring_def)
  have ln: "?l \<noteq> n" using assms(2) last_in_set [of "x # xs"] by auto
  have bl: "y \<noteq> ?l" if "y \<in> set (butlast (x # xs))" for y
    by (rule butlast_neq_last [OF dist that])
  have "cseg h' (x # xs)"
  proof (rule cseg_cong [of h])
    show "cseg h (x # xs)" using assms(1) by (simp add: cring_def)
    show "nxt h' y = nxt h y" if y: "y \<in> set (butlast (x # xs))" for y
      using h'(2) bl [OF y] in_set_butlastD [OF y] assms(2) by (metis fun_upd_other)
    show "prv h' y = prv h y" if y: "y \<in> set (tl (x # xs))" for y
      using h'(3) y dist assms(2) by auto
  qed
  then have "cring h' ((x # xs) @ [n])"
    using h'(2,3) ln assms(2) dist unfolding cring_def cseg_append by auto
  moreover have "clist_add_tail h n x = Some h'" using c prev h'(1) by (simp add: clist_add_tail_def)
  moreover have "h' y = h y" if y: "y \<notin> set (x # xs @ [n])" for y
  proof -
    have "y \<noteq> ?l" using y last_in_set [of "x # xs"] by auto
    then have "nxt h' y = nxt h y" "prv h' y = prv h y" using h'(2,3) y by auto
    then show ?thesis by (rule clist_eq_at)
  qed
  ultimately show ?thesis using that h'(4) by simp
qed

lemma clist_add_head_ring:
  assumes "cring h (x # xs)" "n \<notin> set (x # xs)" "n \<in> dom h"
  obtains h' where "clist_add_head h n x = Some h'" "cring h' (x # n # xs)" "dom h' = dom h"
    "\<And>y. y \<notin> set (x # n # xs) \<Longrightarrow> h' y = h y"
proof -
  obtain c where c: "h x = Some c" using cring_dom [OF assms(1)] by auto
  show ?thesis
  proof (cases xs)
    case Nil
    then have "cl_offset_next c = x" "cl_offset_prev c = x" using assms(1) c by (simp_all add: cring_def nxt_def prv_def)
    then have "clist_add_head h n x = clist_add_tail h n x" using c by (simp add: clist_add_head_def clist_add_tail_def)
    then show ?thesis using clist_add_tail_ring [OF assms] that Nil by (metis append_Nil)
  next
    case (Cons y ys)
    have nextc: "cl_offset_next c = y" using assms(1) c Cons by (simp add: cring_def nxt_def)
    have ring: "cring h (y # ys @ [x])" using cring_rotate [of h "[x]" "y # ys"] assms(1) Cons by simp
    have prev: "prv h y = Some x" using assms(1) Cons by (simp add: cring_def)
    then obtain d where d: "h y = Some d" "cl_offset_prev d = x" by (auto simp: prv_def)
    have same: "clist_add_head h n x = clist_add_tail h n y"
      using c d nextc by (simp add: clist_add_head_def clist_add_tail_def)
    obtain h' where h': "clist_add_tail h n y = Some h'" "cring h' (y # (ys @ [x]) @ [n])" "dom h' = dom h"
      "\<And>z. z \<notin> set (y # (ys @ [x]) @ [n]) \<Longrightarrow> h' z = h z"
      by (rule clist_add_tail_ring [OF ring _ assms(3)]) (use assms(2) Cons in auto)
    have "cring h' (x # n # y # ys)" using cring_rotate [of h' "y # ys" "[x, n]"] h'(2) by simp
    then show ?thesis using that [of h'] same h' Cons by auto
  qed
qed

text \<open>\<open>clist_splice\<close> puts the added list behind the other one.\<close>

lemma clist_splice_ring:
  assumes "cring h (x # xs)" "cring h (l # ls)" "set (x # xs) \<inter> set (l # ls) = {}"
  obtains h' where "clist_splice h l x = Some h'" "cring h' (x # xs @ l # ls)" "dom h' = dom h"
    "\<And>y. y \<notin> set (x # xs @ l # ls) \<Longrightarrow> h' y = h y"
proof -
  let ?at = "last (x # xs)" and ?e = "last (l # ls)"
  have at: "?at \<in> set (x # xs)" and e: "?e \<in> set (l # ls)" by (rule last_in_set, simp)+
  have dom: "x \<in> dom h" "l \<in> dom h" "?at \<in> dom h" "?e \<in> dom h"
    using cring_dom [OF assms(1)] cring_dom [OF assms(2)] at e by auto
  obtain cx where cx: "h x = Some cx" using dom by blast
  obtain cl where cl: "h l = Some cl" using dom by blast
  have prevs: "cl_offset_prev cx = ?at" "cl_offset_prev cl = ?e"
    using assms(1,2) cx cl by (simp_all add: cring_def prv_def)
  obtain h1 where 1: "clist_set_prev h x ?e = Some h1" "prv h1 = (prv h)(x \<mapsto> ?e)" "nxt h1 = nxt h" "dom h1 = dom h"
    by (rule clist_set_prev_ok [OF dom(1)])
  have "?e \<in> dom h1" using 1(4) dom(4) by simp
  then obtain h2 where 2: "clist_set_next h1 ?e x = Some h2" "nxt h2 = (nxt h1)(?e \<mapsto> x)" "prv h2 = prv h1" "dom h2 = dom h1"
    by (rule clist_set_next_ok)
  have "l \<in> dom h2" using 1(4) 2(4) dom(2) by simp
  then obtain h3 where 3: "clist_set_prev h2 l ?at = Some h3" "prv h3 = (prv h2)(l \<mapsto> ?at)" "nxt h3 = nxt h2" "dom h3 = dom h2"
    by (rule clist_set_prev_ok)
  have "?at \<in> dom h3" using 1(4) 2(4) 3(4) dom(3) by simp
  then obtain h' where 4: "clist_set_next h3 ?at l = Some h'" "nxt h' = (nxt h3)(?at \<mapsto> l)" "prv h' = prv h3" "dom h' = dom h3"
    by (rule clist_set_next_ok)
  have run: "clist_splice h l x = Some h'"
    using cx cl prevs 1(1) 2(1) 3(1) 4(1) by (simp add: clist_splice_def Let_def)
  have n: "nxt h' = (nxt h)(?e \<mapsto> x, ?at \<mapsto> l)" and p: "prv h' = (prv h)(x \<mapsto> ?e, l \<mapsto> ?at)"
    using 1 2 3 4 by simp_all
  have bl: "y \<noteq> last zs" if "distinct zs" "y \<in> set (butlast zs)" for y and zs :: "offset list"
    by (rule butlast_neq_last [OF that])
  have seg: "cseg h' zs" if "zs = x # xs \<or> zs = l # ls" for zs
  proof (rule cseg_cong [of h])
    have r: "cring h zs" using that assms(1,2) by blast
    then show "cseg h zs" by (simp add: cring_def)
    show "nxt h' y = nxt h y" if y: "y \<in> set (butlast zs)" for y
    proof -
      have "y \<noteq> ?at \<and> y \<noteq> ?e"
        using \<open>zs = x # xs \<or> zs = l # ls\<close>
      proof
        assume z: "zs = x # xs"
        then show ?thesis using bl [OF cring_distinct [OF r] y] in_set_butlastD [OF y] assms(3) e
          by (metis disjoint_iff)
      next
        assume z: "zs = l # ls"
        then show ?thesis using bl [OF cring_distinct [OF r] y] in_set_butlastD [OF y] assms(3) at
          by (metis disjoint_iff)
      qed
      then show ?thesis using n by simp
    qed
    show "prv h' y = prv h y" if y: "y \<in> set (tl zs)" for y
    proof -
      have "y \<in> set zs" "y \<noteq> hd zs" using y cring_distinct [OF r] \<open>zs = x # xs \<or> zs = l # ls\<close> by auto
      then have "y \<noteq> x" "y \<noteq> l" using \<open>zs = x # xs \<or> zs = l # ls\<close> assms(3) by auto
      then show ?thesis using p by simp
    qed
  qed
  have ne: "?e \<noteq> ?at" "x \<noteq> l" using at e assms(3) by auto
  have "cring h' ((x # xs) @ (l # ls))"
    unfolding cring_def cseg_append
    using seg [of "x # xs"] seg [of "l # ls"] n p ne cring_distinct [OF assms(1)] cring_distinct [OF assms(2)] assms(3)
    by (simp add: distinct_append del: last.simps) (use assms(3) in auto)
  moreover have "h' y = h y" if y: "y \<notin> set (x # xs @ l # ls)" for y
  proof -
    have "y \<noteq> ?at" "y \<noteq> ?e" "y \<noteq> x" "y \<noteq> l" using y at e by auto
    then have "nxt h' y = nxt h y" "prv h' y = prv h y" using n p by auto
    then show ?thesis by (rule clist_eq_at)
  qed
  ultimately show ?thesis using that run 1(4) 2(4) 3(4) 4(4) by simp
qed

text \<open>\<open>clist_del_init\<close> leaves the rest as a ring and the node as a ring of its own.\<close>

lemma clist_del_init_ring:
  assumes "cring h (x # xs)"
  obtains h' where "clist_del_init h x = Some h'" "cring h' [x]" "xs \<noteq> [] \<Longrightarrow> cring h' xs" "dom h' = dom h"
    "\<And>y. y \<notin> set (x # xs) \<Longrightarrow> h' y = h y"
proof -
  have dist: "distinct (x # xs)" using assms by (simp add: cring_def)
  have dx: "x \<in> dom h" using cring_dom [OF assms] by auto
  then obtain c where c: "h x = Some c" by blast
  let ?p = "last (x # xs)" and ?q = "if xs = [] then x else hd xs"
  have links: "cl_offset_prev c = ?p" "cl_offset_next c = ?q"
    using assms c by (auto simp: cring_def nxt_def prv_def cseg_Cons)
  have dp: "?p \<in> dom h" using cring_dom [OF assms] last_in_set [of "x # xs"] by auto
  have dq: "?q \<in> dom h" using subsetD [OF cring_dom [OF assms], of ?q] hd_in_set [of xs] by auto
  obtain h1 where h1: "clist_del2 h ?p ?q = Some h1" "nxt h1 = (nxt h)(?p \<mapsto> ?q)" "prv h1 = (prv h)(?q \<mapsto> ?p)" "dom h1 = dom h"
    by (rule clist_del2_ok [OF dp dq])
  let ?h = "cinit_list_head h1 x"
  have n: "nxt ?h = (nxt h)(?p \<mapsto> ?q, x \<mapsto> x)" and p: "prv ?h = (prv h)(?q \<mapsto> ?p, x \<mapsto> x)"
    using h1 by simp_all
  have "clist_del_init h x = Some ?h" using c links h1(1) by (simp add: clist_del_init_def)
  moreover have "cring ?h [x]" by (rule cring_single)
  moreover have "cring ?h xs" if ne: "xs \<noteq> []"
  proof -
    have pq: "?p = last xs" "?q = hd xs" using ne by simp_all
    have lx: "last xs \<in> set xs" "hd xs \<in> set xs" using ne by simp_all
    have segh: "cseg h xs" using assms by (simp add: cring_def cseg_Cons)
    have "cseg ?h xs"
    proof (rule cseg_cong [OF segh])
      fix y assume y: "y \<in> set (butlast xs)"
      have "y \<noteq> last xs" using butlast_neq_last [of xs y] y dist by simp
      moreover have "y \<noteq> x" using in_set_butlastD [OF y] dist by auto
      ultimately show "nxt ?h y = nxt h y" using n pq by simp
    next
      fix y assume y: "y \<in> set (tl xs)"
      have "y \<noteq> hd xs" "y \<noteq> x" using y dist ne by (cases xs; auto)+
      then show "prv ?h y = prv h y" using p pq by simp
    qed
    then show ?thesis using n p pq lx dist ne by (auto simp: cring_def)
  qed
  moreover have "dom ?h = dom h" using h1(4) dx by auto
  moreover have "?h y = h y" if y: "y \<notin> set (x # xs)" for y
  proof -
    have "y \<noteq> ?p" "y \<noteq> ?q" "y \<noteq> x" using y last_in_set [of "x # xs"] hd_in_set [of xs] by auto
    then have "nxt ?h y = nxt h y" "prv ?h y = prv h y" using n p by simp_all
    then show ?thesis by (rule clist_eq_at)
  qed
  ultimately show ?thesis using that by blast
qed

end
