(* ===== verification/Nifo.thy ===== *)
theory Nifo
  imports Mems Clist Bytes
begin

text \<open>
  \<^verbatim>\<open>proj/UPST_LIB/SRC/NIFO/nifo.c\<close>: messages of the analysis processes. A message is a graph of
  nodes of a \<open>mems\<close> block. Each node starts with a \<open>NIFO\<close> structure (64 bytes) that holds two list
  heads: \<open>nont\<close> links the messages of a batch, \<open>cont\<close> the nodes that carry one message on. The
  structure is followed by type-length-value records, which may run over from one node into the
  next. Processes pass a message on by its offset.

  \<open>nf_link\<close> are the list heads by offset, \<open>nf_node\<close> the other fields of the \<open>NIFO\<close> structures and
  \<open>nf_mem\<close> the bytes of the node bodies. \<open>nf_procID\<close>, \<open>nf_create\<close> and \<open>nf_del\<close> are the globals of
  the process. The block is compiled without \<open>NIFO_TEST\<close>.
\<close>

section \<open>State\<close>

definition NIFO_SIZE :: int where "NIFO_SIZE = 64"
definition TLV_SIZE :: int where "TLV_SIZE = 8"
definition NONT_OFF :: int where "NONT_OFF = 0"
definition CONT_OFF :: int where "CONT_OFF = 16"
definition DEF_MEMSET_ON :: int where "DEF_MEMSET_ON = 1"

lemmas nifo_const_defs = NIFO_SIZE_def TLV_SIZE_def NONT_OFF_def CONT_OFF_def

record nifonode =
  nn_from :: u32
  nn_to :: u32
  nn_cnt :: u32
  nn_lastoffset :: offset
  nn_maxoffset :: offset

record nifo =
  nf_mems :: mems
  nf_link :: clists
  nf_node :: "offset \<rightharpoonup> nifonode"
  nf_mem :: "offset \<Rightarrow> u8"
  nf_procID :: nat
  nf_create :: u64
  nf_del :: u64

definition nifo_on_links :: "nifo \<Rightarrow> (clists \<Rightarrow> clists option) \<Rightarrow> nifo option" where
  "nifo_on_links s f = (case f (nf_link s) of None \<Rightarrow> None | Some h \<Rightarrow> Some (s\<lparr>nf_link := h\<rparr>))"

section \<open>Blocks\<close>

text \<open>\<open>nifo_init\<close> sets the process globals and opens the block. The list heads and bodies are what
  the segment holds.\<close>

definition nifo_init ::
  "mems_os \<Rightarrow> clists \<Rightarrow> (offset \<rightharpoonup> nifonode) \<Rightarrow> (offset \<Rightarrow> u8) \<Rightarrow> memsconf \<Rightarrow> nat \<Rightarrow> nifo option option" where
  "nifo_init os links0 nodes0 mem0 conf processID = do {
     r \<leftarrow> mems_init os conf;
     case r of
       None \<Rightarrow> Some None
     | Some m \<Rightarrow> Some (Some \<lparr>nf_mems = m, nf_link = links0, nf_node = nodes0, nf_mem = mem0,
                             nf_procID = processID, nf_create = 0, nf_del = 0\<rparr>)
   }"

text \<open>\<open>nifo_conf_check\<close>: a zone that several processes use needs a semaphore. The counters are an
  array of \<open>MAX_MEMSZONE_CNT\<close> entries; a zone number beyond it is a fault.\<close>

fun nifo_count_procs :: "u32 list \<Rightarrow> nat list \<Rightarrow> nat list option" where
  "nifo_count_procs [] cnt = Some cnt"
| "nifo_count_procs (zoneID # zs) cnt =
     (if zoneID = INVALID_ID then nifo_count_procs zs cnt
      else if unat zoneID < length cnt
        then nifo_count_procs zs (cnt[unat zoneID := Suc (cnt ! unat zoneID)])
      else None)"

text \<open>The zones of the configuration are an array too; its unused entries have no semaphore.\<close>

definition nifo_zone_flag :: "memsconf \<Rightarrow> nat \<Rightarrow> u32" where
  "nifo_zone_flag conf i = (if i < length (mc_stMEMSZONECONF conf)
     then zc_uiSemFlag (mc_stMEMSZONECONF conf ! i) else 0)"

fun nifo_check_zones :: "memsconf \<Rightarrow> nat list \<Rightarrow> nat \<Rightarrow> int \<Rightarrow> int" where
  "nifo_check_zones conf [] i dRet = dRet"
| "nifo_check_zones conf (c # cs) i dRet =
     nifo_check_zones conf cs (Suc i)
       (if c > 1 \<and> nifo_zone_flag conf i \<noteq> MEMS_SEMA_ON then -1 else dRet)"

definition nifo_conf_check :: "memsconf \<Rightarrow> int option" where
  "nifo_conf_check conf = do {
     procCnt \<leftarrow> nifo_count_procs (mc_uiMatrixZoneID conf) (replicate MAX_MEMSZONE_CNT 0);
     Some (nifo_check_zones conf procCnt 0 0)
   }"

text \<open>\<open>nifo_init_zone\<close>, after the configuration file has been read.\<close>

definition nifo_init_zone ::
  "mems_os \<Rightarrow> clists \<Rightarrow> (offset \<rightharpoonup> nifonode) \<Rightarrow> (offset \<Rightarrow> u8) \<Rightarrow> (memsconf + int) \<Rightarrow> nat \<Rightarrow> nifo option option" where
  "nifo_init_zone os links0 nodes0 mem0 conf processID =
     (case conf of
        Inr dRet \<Rightarrow> Some None
      | Inl c \<Rightarrow> do {
          dRet \<leftarrow> nifo_conf_check c;
          if dRet < 0 then Some None else nifo_init os links0 nodes0 mem0 c processID
        })"

text \<open>The offset of the body of the node a pointer falls into, or 0.\<close>

definition nifo_get_offset_node :: "mems \<Rightarrow> offset \<Rightarrow> offset option" where
  "nifo_get_offset_node m base =
     (case List.find (\<lambda>z. mz_offsetNodeStart z \<le> base \<and> base < mz_offsetNodeEnd z)
             (take (unat (mi_uiZoneCnt m)) (mi_stMEMSZONE m)) of
        None \<Rightarrow> Some 0
      | Some z \<Rightarrow>
          (let stride = uint (mi_uiMemNodeHdrSize m + mz_uiMemNodeBodySize z);
               base' = base - mz_offsetNodeStart z
           in if stride = 0 then None
              else let cnt = base' div stride
                in Some (mz_offsetNodeStart z + stride * cnt + uint (mi_uiMemNodeHdrSize m))))"

section \<open>Nodes\<close>

text \<open>\<open>nifo_node_alloc\<close> takes a node of the zone that the matrix gives the process.\<close>

definition nifo_node_alloc :: "nifo \<Rightarrow> int \<Rightarrow> (nifo \<times> offset option) option" where
  "nifo_node_alloc s now =
     (if \<not> nf_procID s < length (mi_uiMatrixZoneID (nf_mems s)) then None
      else let uiZoneID = mi_uiMatrixZoneID (nf_mems s) ! nf_procID s in
        if uiZoneID = INVALID_ID then Some (s, None)
        else do {
          z \<leftarrow> mems_zone (nf_mems s) uiZoneID;
          (m, r) \<leftarrow> mems_alloc (nf_mems s) (mz_uiMemNodeBodySize z) uiZoneID now;
          case r of
            None \<Rightarrow> Some (s\<lparr>nf_mems := m\<rparr>, None)
          | Some p \<Rightarrow> Some
              (s\<lparr>nf_mems := m,
                 nf_link := cinit_list_head (cinit_list_head (nf_link s) (p + NONT_OFF)) (p + CONT_OFF),
                 nf_node := (nf_node s)(p \<mapsto> \<lparr>nn_from = 0, nn_to = 0, nn_cnt = 0,
                    nn_lastoffset = NIFO_SIZE, nn_maxoffset = uint (mz_uiMemNodeBodySize z)\<rparr>),
                 nf_create := nf_create s + 1\<rparr>, Some p)
        })"

definition nifo_node_link_cont_prev :: "nifo \<Rightarrow> offset \<Rightarrow> offset \<Rightarrow> nifo option" where
  "nifo_node_link_cont_prev s pHead pNew =
     nifo_on_links s (\<lambda>h. clist_add_tail h (pNew + CONT_OFF) (pHead + CONT_OFF))"

definition nifo_node_link_cont_next :: "nifo \<Rightarrow> offset \<Rightarrow> offset \<Rightarrow> nifo option" where
  "nifo_node_link_cont_next s pHead pNew =
     nifo_on_links s (\<lambda>h. clist_add_head h (pNew + CONT_OFF) (pHead + CONT_OFF))"

definition nifo_node_link_nont_prev :: "nifo \<Rightarrow> offset \<Rightarrow> offset \<Rightarrow> nifo option" where
  "nifo_node_link_nont_prev s pHead pNew =
     nifo_on_links s (\<lambda>h. clist_add_tail h (pNew + NONT_OFF) (pHead + NONT_OFF))"

definition nifo_node_link_nont_next :: "nifo \<Rightarrow> offset \<Rightarrow> offset \<Rightarrow> nifo option" where
  "nifo_node_link_nont_next s pHead pNew =
     nifo_on_links s (\<lambda>h. clist_add_head h (pNew + NONT_OFF) (pHead + NONT_OFF))"

definition nifo_node_unlink_nont :: "nifo \<Rightarrow> offset \<Rightarrow> nifo option" where
  "nifo_node_unlink_nont s pDel = nifo_on_links s (\<lambda>h. clist_del_init h (pDel + NONT_OFF))"

definition nifo_node_unlink_cont :: "nifo \<Rightarrow> offset \<Rightarrow> nifo option" where
  "nifo_node_unlink_cont s pDel = nifo_on_links s (\<lambda>h. clist_del_init h (pDel + CONT_OFF))"

definition nifo_splice_nont :: "nifo \<Rightarrow> offset \<Rightarrow> offset \<Rightarrow> nifo option" where
  "nifo_splice_nont s pLIST pHEAD =
     nifo_on_links s (\<lambda>h. clist_splice h (pLIST + NONT_OFF) (pHEAD + NONT_OFF))"

definition nifo_splice_cont :: "nifo \<Rightarrow> offset \<Rightarrow> offset \<Rightarrow> nifo option" where
  "nifo_splice_cont s pLIST pHEAD =
     nifo_on_links s (\<lambda>h. clist_splice h (pLIST + CONT_OFF) (pHEAD + CONT_OFF))"

text \<open>\<open>nifo_node_free\<close> raises \<open>SIGSEGV\<close> when \<open>mems_free\<close> refuses: no regular return.\<close>

definition nifo_node_free :: "nifo \<Rightarrow> offset \<Rightarrow> nifo option" where
  "nifo_node_free s pFree = do {
     (m, r) \<leftarrow> mems_free (nf_mems s) pFree;
     if r \<noteq> 0 then None
     else Some (s\<lparr>nf_mems := m, nf_del := nf_del s + 1\<rparr>)
   }"

text \<open>The node whose \<open>cont\<close> or \<open>nont\<close> head the next link of \<open>p\<close> points to (\<open>clist_entry\<close>).\<close>

definition nifo_cont_next :: "nifo \<Rightarrow> offset \<Rightarrow> offset option" where
  "nifo_cont_next s p = do { c \<leftarrow> nf_link s (p + CONT_OFF); Some (cl_offset_next c - CONT_OFF) }"

definition nifo_cont_prev :: "nifo \<Rightarrow> offset \<Rightarrow> offset option" where
  "nifo_cont_prev s p = do { c \<leftarrow> nf_link s (p + CONT_OFF); Some (cl_offset_prev c - CONT_OFF) }"

definition nifo_nont_next :: "nifo \<Rightarrow> offset \<Rightarrow> offset option" where
  "nifo_nont_next s p = do { c \<leftarrow> nf_link s (p + NONT_OFF); Some (cl_offset_next c - NONT_OFF) }"

definition nifo_nont_prev :: "nifo \<Rightarrow> offset \<Rightarrow> offset option" where
  "nifo_nont_prev s p = do { c \<leftarrow> nf_link s (p + NONT_OFF); Some (cl_offset_prev c - NONT_OFF) }"

text \<open>The two deletions answer the next node, or NULL (\<open>None\<close>) when the node was alone.\<close>

definition nifo_cont_delete :: "nifo \<Rightarrow> offset \<Rightarrow> (nifo \<times> offset option) option" where
  "nifo_cont_delete s pDel = do {
     pNext \<leftarrow> nifo_cont_next s pDel;
     s1 \<leftarrow> nifo_node_unlink_cont s pDel;
     s2 \<leftarrow> nifo_node_free s1 pDel;
     Some (s2, if pNext = pDel then None else Some pNext)
   }"

definition nifo_nont_delete :: "nifo \<Rightarrow> offset \<Rightarrow> (nifo \<times> offset option) option" where
  "nifo_nont_delete s pDel = do {
     pNext \<leftarrow> nifo_nont_next s pDel;
     s1 \<leftarrow> nifo_node_unlink_nont s pDel;
     Some (s1, if pNext = pDel then None else Some pNext)
   }"

text \<open>The inner loop of \<open>nifo_node_delete\<close>, and the loop over the batch.\<close>

partial_function (option) nifo_delete_conts :: "nifo \<Rightarrow> offset option \<Rightarrow> nifo option" where
  "nifo_delete_conts s pNode =
     (case pNode of
        None \<Rightarrow> Some s
      | Some p \<Rightarrow> do { (s1, q) \<leftarrow> nifo_cont_delete s p; nifo_delete_conts s1 q })"

partial_function (option) nifo_node_delete :: "nifo \<Rightarrow> offset \<Rightarrow> nifo option" where
  "nifo_node_delete s pNode = do {
     (s1, pNext) \<leftarrow> nifo_nont_delete s pNode;
     s2 \<leftarrow> nifo_delete_conts s1 (Some pNode);
     case pNext of None \<Rightarrow> Some s2 | Some p \<Rightarrow> nifo_node_delete s2 p
   }"

text \<open>\<open>nifo_node_check\<close> visits every node of every message of a batch and stamps it with the time; it
  answers the number of nodes, or -1 at a node that is not in use. \<open>pos\<close> and \<open>head\<close> are nodes.\<close>

definition nifo_stamp :: "nifo \<Rightarrow> offset \<Rightarrow> memsnodehdr \<Rightarrow> int \<Rightarrow> nifo" where
  "nifo_stamp s q h now =
     s\<lparr>nf_mems := (nf_mems s)\<lparr>mi_hdr := (mi_hdr (nf_mems s))(q \<mapsto> h\<lparr>mh_TimeSec := now\<rparr>)\<rparr>\<rparr>"

partial_function (option) nifo_check_conts ::
  "nifo \<Rightarrow> int \<Rightarrow> offset \<Rightarrow> offset \<Rightarrow> int \<Rightarrow> (nifo \<times> int option) option" where
  "nifo_check_conts s now head pos contcnt = do {
     h \<leftarrow> mi_hdr (nf_mems s) (pos - stMEMSNODEHDR_SIZE);
     if mh_uiID h \<noteq> MEMS_ID \<or> mh_ucIsFree h \<noteq> MEMS_ALLOCED then Some (s, None)
     else do {
       let s1 = nifo_stamp s (pos - stMEMSNODEHDR_SIZE) h now;
       q \<leftarrow> nifo_cont_next s1 pos;
       if q = head then Some (s1, Some (contcnt + 1))
       else nifo_check_conts s1 now head q (contcnt + 1)
     }
   }"

partial_function (option) nifo_check_nonts ::
  "nifo \<Rightarrow> int \<Rightarrow> offset \<Rightarrow> offset \<Rightarrow> int \<Rightarrow> (nifo \<times> int) option" where
  "nifo_check_nonts s now head pos contcnt = do {
     (s1, r) \<leftarrow> nifo_check_conts s now pos pos contcnt;
     case r of
       None \<Rightarrow> Some (s1, -1)
     | Some c \<Rightarrow> do {
         q \<leftarrow> nifo_nont_next s1 pos;
         if q = head then Some (s1, c) else nifo_check_nonts s1 now head q c
       }
   }"

definition nifo_node_check :: "nifo \<Rightarrow> int \<Rightarrow> offset \<Rightarrow> (nifo \<times> int) option" where
  "nifo_node_check s now offset = nifo_check_nonts s now offset offset 0"

section \<open>Records within a node\<close>

text \<open>\<open>nifo_tlv_alloc\<close> answers where the value starts, or NULL when the node has no room.\<close>

definition nifo_tlv_alloc :: "nifo \<Rightarrow> offset \<Rightarrow> u32 \<Rightarrow> u32 \<Rightarrow> int \<Rightarrow> (nifo \<times> offset option) option" where
  "nifo_tlv_alloc s pNode type len memsetFlag = do {
     n \<leftarrow> nf_node s pNode;
     if nn_maxoffset n < nn_lastoffset n + TLV_SIZE + uint len then Some (s, None)
     else
       let p = pNode + nn_lastoffset n;
           mem1 = wr_bytes (nf_mem s) p (le32_bytes type @ le32_bytes len);
           mem2 = (if memsetFlag = DEF_MEMSET_ON
                   then wr_bytes mem1 (p + TLV_SIZE) (replicate (unat len) 0) else mem1)
       in Some (s\<lparr>nf_node := (nf_node s)(pNode \<mapsto> n\<lparr>nn_cnt := nn_cnt n + 1,
                     nn_lastoffset := nn_lastoffset n + (TLV_SIZE + uint len)\<rparr>),
                  nf_mem := mem2\<rparr>, Some (p + TLV_SIZE))
   }"

definition nifo_tlv_type :: "nifo \<Rightarrow> offset \<Rightarrow> u32" where
  "nifo_tlv_type s p = le32_of (rd_bytes (nf_mem s) p 4)"

definition nifo_tlv_len :: "nifo \<Rightarrow> offset \<Rightarrow> u32" where
  "nifo_tlv_len s p = le32_of (rd_bytes (nf_mem s) (p + 4) 4)"

text \<open>The search for a type; \<open>nifo_get_value\<close> answers where the value starts, \<open>nifo_get_tlv\<close> where
  the record does.\<close>

lemma TLV_SIZE_add_pos: "0 < TLV_SIZE + uint (l :: u32)"
  unfolding TLV_SIZE_def using uint_ge_0 [of l] by linarith

function nifo_tlv_search :: "nifo \<Rightarrow> offset \<Rightarrow> offset \<Rightarrow> u32 \<Rightarrow> offset \<Rightarrow> offset option" where
  "nifo_tlv_search s pNode lastoffset type curoffset =
     (if curoffset < lastoffset then
        (if nifo_tlv_type s (pNode + curoffset) = type then Some (pNode + curoffset)
         else nifo_tlv_search s pNode lastoffset type
                (curoffset + (TLV_SIZE + uint (nifo_tlv_len s (pNode + curoffset)))))
      else None)"
  by pat_completeness auto
termination
proof (relation "measure (\<lambda>(s, pNode, lastoffset, type, curoffset). nat (lastoffset - curoffset))", goal_cases)
  case (2 s pNode lastoffset type curoffset)
  have "0 < TLV_SIZE + uint (nifo_tlv_len s (pNode + curoffset))"
    by (rule TLV_SIZE_add_pos)
  then show ?case
    using 2 by simp
qed simp

declare nifo_tlv_search.simps [simp del]

definition nifo_get_tlv :: "nifo \<Rightarrow> u32 \<Rightarrow> offset \<Rightarrow> offset option option" where
  "nifo_get_tlv s type offset = do {
     n \<leftarrow> nf_node s offset;
     Some (nifo_tlv_search s offset (nn_lastoffset n) type NIFO_SIZE)
   }"

definition nifo_get_value :: "nifo \<Rightarrow> u32 \<Rightarrow> offset \<Rightarrow> offset option option" where
  "nifo_get_value s type offset = do {
     n \<leftarrow> nf_node s offset;
     Some (map_option (\<lambda>p. p + TLV_SIZE) (nifo_tlv_search s offset (nn_lastoffset n) type NIFO_SIZE))
   }"

section \<open>Records over several nodes\<close>

text \<open>\<open>memcpy\<close> of \<open>k\<close> bytes to the end of a node; a negative size is a fault.\<close>

definition nifo_put :: "nifo \<Rightarrow> offset \<Rightarrow> int \<Rightarrow> u8 list \<Rightarrow> nifo option" where
  "nifo_put s pNode k bs = do {
     n \<leftarrow> nf_node s pNode;
     if k < 0 then None
     else Some (s\<lparr>nf_node := (nf_node s)(pNode \<mapsto> n\<lparr>nn_lastoffset := nn_lastoffset n + k\<rparr>),
                  nf_mem := wr_bytes (nf_mem s) (pNode + nn_lastoffset n) (take (nat k) bs)\<rparr>)
   }"

text \<open>Assignment to an \<open>S32\<close>.\<close>

definition s32 :: "int \<Rightarrow> int" where
  "s32 x = signed_take_bit 31 x"

text \<open>A further node behind \<open>pNode\<close>, or NULL.\<close>

definition nifo_extend :: "nifo \<Rightarrow> int \<Rightarrow> offset \<Rightarrow> (nifo \<times> offset option) option" where
  "nifo_extend s now pNode = do {
     (s1, r) \<leftarrow> nifo_node_alloc s now;
     case r of
       None \<Rightarrow> Some (s1, None)
     | Some q \<Rightarrow> do {
         s2 \<leftarrow> nifo_node_link_cont_next s1 pNode q;
         Some (s2, Some q)
       }
   }"

text \<open>The loop that writes a value which does not fit the node. Each turn copies from the start of
  the value. \<open>copyLen\<close>, \<open>remainSize\<close> and \<open>copySize\<close> are \<open>S32\<close>.\<close>

partial_function (option) nifo_copy_loop ::
  "nifo \<Rightarrow> int \<Rightarrow> u32 \<Rightarrow> u8 list \<Rightarrow> offset \<Rightarrow> u32 \<Rightarrow> (nifo \<times> int) option" where
  "nifo_copy_loop s now len value pNode oldLen =
     (if oldLen < len then do {
        n \<leftarrow> nf_node s pNode;
        let copyLen = sint (len - oldLen);
        let remainSize = s32 (nn_maxoffset n - nn_lastoffset n);
        let copySize = (if copyLen - remainSize > 0 then remainSize else copyLen);
        s1 \<leftarrow> nifo_put s pNode copySize value;
        if copyLen - remainSize > 0 then do {
          (s2, r) \<leftarrow> nifo_extend s1 now pNode;
          case r of
            None \<Rightarrow> Some (s2, -2)
          | Some q \<Rightarrow> nifo_copy_loop s2 now len value q (oldLen + word_of_int copySize)
        } else nifo_copy_loop s1 now len value pNode (oldLen + word_of_int copySize)
      } else Some (s, 0))"

text \<open>\<open>nifo_copy_tlv_cont\<close> appends a record at the last node of the \<open>cont\<close> list of \<open>pHead\<close>, the one
  before the head. The list \<open>value\<close> is the memory the value pointer gives.\<close>

definition nifo_copy_tlv_cont ::
  "nifo \<Rightarrow> int \<Rightarrow> u32 \<Rightarrow> u32 \<Rightarrow> u8 list \<Rightarrow> offset \<Rightarrow> (nifo \<times> int) option" where
  "nifo_copy_tlv_cont s now type len value pHead = do {
     pNode \<leftarrow> nifo_cont_prev s pHead;
     n \<leftarrow> nf_node s pNode;
     let aTLV = le32_bytes type @ le32_bytes len;
     if nn_maxoffset n < nn_lastoffset n + TLV_SIZE + uint len then do {
       (s1, r) \<leftarrow> (if nn_maxoffset n < nn_lastoffset n + TLV_SIZE then do {
           let copySize = s32 (nn_maxoffset n - nn_lastoffset n);
           s1 \<leftarrow> nifo_put s pNode copySize aTLV;
           (s2, r) \<leftarrow> nifo_extend s1 now pNode;
           case r of
             None \<Rightarrow> Some (s2, None)
           | Some q \<Rightarrow> do {
               s3 \<leftarrow> nifo_put s2 q (s32 (TLV_SIZE - copySize)) (drop (nat copySize) aTLV);
               Some (s3, Some q)
             }
         } else do {
           s1 \<leftarrow> nifo_put s pNode TLV_SIZE aTLV;
           Some (s1, Some pNode)
         });
       case r of
         None \<Rightarrow> Some (s1, -1)
       | Some q \<Rightarrow> do {
           n1 \<leftarrow> nf_node s1 q;
           if nn_maxoffset n1 < nn_lastoffset n1 + uint len then nifo_copy_loop s1 now len value q 0
           else do {
             s2 \<leftarrow> nifo_put s1 q (uint len) value;
             Some (s2, 0)
           }
         }
     } else do {
       s1 \<leftarrow> nifo_put s pNode (TLV_SIZE + uint len) (aTLV @ take (unat len) value);
       Some (s1, 0)
     }
   }"

text \<open>The loop that gathers \<open>dLen\<close> bytes into a buffer, over the nodes of the list. All sizes are
  \<open>U32\<close>; a copy beyond the buffer is a fault.\<close>

partial_function (option) nifo_gather ::
  "nifo \<Rightarrow> u32 \<Rightarrow> u32 \<Rightarrow> offset \<Rightarrow> u32 \<Rightarrow> u32 \<Rightarrow> u8 list \<Rightarrow> (offset \<times> u32 \<times> u8 list) option" where
  "nifo_gather s body dLen pSNode dOffset dOldLen buf =
     (if dOldLen < dLen then
        if body < dOffset + dLen - dOldLen then do {
          let dCopySize = body - dOffset;
          if dLen - dOldLen < dCopySize \<or> body = 0 then None
          else do {
            q \<leftarrow> nifo_cont_next s pSNode;
            nifo_gather s body dLen q
              (word_of_int ((uint (dOffset + dCopySize) + NIFO_SIZE) mod uint body)) (dOldLen + dCopySize)
              (buf @ rd_bytes (nf_mem s) (pSNode + uint dOffset) (unat dCopySize))
          }
        } else
          let dCopySize = dLen - dOldLen
          in nifo_gather s body dLen pSNode (dOffset + dCopySize) (dOldLen + dCopySize)
               (buf @ rd_bytes (nf_mem s) (pSNode + uint dOffset) (unat dCopySize))
      else Some (pSNode, dOffset, buf))"

text \<open>A value that lies in one node is given by its place, one that runs over is copied.\<close>

datatype nifo_value = VOrigin offset | VMalloc "u8 list"

datatype nifo_read = ReadFail | ReadTlv u32 u32 nifo_value offset

text \<open>Where the next record starts, or 0 after the last one.\<close>

definition nifo_next_tlv :: "nifo \<Rightarrow> offset \<Rightarrow> offset \<Rightarrow> u32 \<Rightarrow> offset option" where
  "nifo_next_tlv s pHEAD pSNode dOffset = do {
     n \<leftarrow> nf_node s pSNode;
     if nn_lastoffset n \<le> uint dOffset then
       (if nn_lastoffset n = nn_maxoffset n then do {
          q \<leftarrow> nifo_cont_next s pSNode;
          Some (if pHEAD = q then 0 else q)
        } else Some 0)
     else Some (pSNode + uint dOffset)
   }"

text \<open>The header of the record at \<open>dOffset\<close> of a node: the node and the offset behind it, and its bytes.\<close>

definition nifo_read_hdr :: "nifo \<Rightarrow> u32 \<Rightarrow> offset \<Rightarrow> u32 \<Rightarrow> (offset \<times> u32 \<times> u8 list) option" where
  "nifo_read_hdr s body pSNode dOffset =
     (if uint body < uint dOffset + TLV_SIZE
      then nifo_gather s body (word_of_int TLV_SIZE) pSNode dOffset 0 []
      else Some (pSNode, dOffset + word_of_int TLV_SIZE, rd_bytes (nf_mem s) (pSNode + uint dOffset) 8))"

definition nifo_read_tlv_cont :: "bool \<Rightarrow> nifo \<Rightarrow> offset \<Rightarrow> offset \<Rightarrow> nifo_read option" where
  "nifo_read_tlv_cont malloc_ok s pHEAD nexttlv = do {
     h \<leftarrow> mi_hdr (nf_mems s) (pHEAD - stMEMSNODEHDR_SIZE);
     z \<leftarrow> mems_zone (nf_mems s) (mh_uiZoneID h);
     let body = mz_uiMemNodeBodySize z;
     base \<leftarrow> nifo_get_offset_node (nf_mems s) nexttlv;
     if base = 0 then None
     else do {
       let gap = nexttlv - base;
       let dOffset = ((if gap = 0 then word_of_int NIFO_SIZE else word_of_int gap) :: u32);
       (pSNode, dOff, aTLV) \<leftarrow> nifo_read_hdr s body base dOffset;
       let type = le32_of (take 4 aTLV);
       let len = le32_of (drop 4 aTLV);
       if body < dOff + len then
         if \<not> malloc_ok then Some ReadFail
         else do {
           (q, dOff', buf) \<leftarrow> nifo_gather s body len pSNode dOff 0 [];
           next \<leftarrow> nifo_next_tlv s pHEAD q dOff';
           Some (ReadTlv type len (VMalloc buf) next)
         }
       else do {
         next \<leftarrow> nifo_next_tlv s pHEAD pSNode (dOff + len);
         Some (ReadTlv type len (VOrigin (pSNode + uint dOff)) next)
       }
     }
   }"

text \<open>The list of values a reader keeps. \<open>nifo_msg_free\<close> empties one entry or all; the model answers
  the pointers it hands to \<open>free\<close>. An index beyond the list is a fault.\<close>

definition DEF_READ_EMPTY :: int where "DEF_READ_EMPTY = 0"
definition DEF_READ_MALLOC :: int where "DEF_READ_MALLOC = 1"
definition MAX_READVAL_CNT :: nat where "MAX_READVAL_CNT = 100"

record readval =
  rv_init :: int
  rv_memtype :: int
  rv_len :: int
  rv_pVal :: offset

definition readval_empty :: "readval \<Rightarrow> readval" where
  "readval_empty v = v\<lparr>rv_memtype := DEF_READ_EMPTY, rv_len := 0, rv_pVal := 0\<rparr>"

definition readval_freed :: "readval \<Rightarrow> offset list" where
  "readval_freed v = (if rv_memtype v = DEF_READ_MALLOC then [rv_pVal v] else [])"

definition nifo_msg_free :: "readval list \<Rightarrow> u32 \<Rightarrow> (readval list \<times> offset list) option" where
  "nifo_msg_free vals idx =
     (if unat idx = MAX_READVAL_CNT then Some (map readval_empty vals, concat (map readval_freed vals))
      else if unat idx < length vals
        then Some (vals[unat idx := readval_empty (vals ! unat idx)], readval_freed (vals ! unat idx))
      else None)"

section \<open>Message queues\<close>

text \<open>A System V message queue holds messages of at most a fixed number; the body that travels is
  \<open>st_MsgQ_NIFO\<close> and the offset. \<open>IPC_NOWAIT\<close> makes a full queue an error (\<open>-EAGAIN\<close>).\<close>

definition DEF_MSGQ_SVC :: int where "DEF_MSGQ_SVC = 1000"
definition st_MsgQ_NIFO_SIZE :: int where "st_MsgQ_NIFO_SIZE = 16"
definition SIZEOF_OFFSET :: u16 where "SIZEOF_OFFSET = 8"
definition SIZEOF_LONG :: int where "SIZEOF_LONG = 8"

record msgq_nifo =
  mq_mtype :: int
  mq_msgqid :: u32
  mq_len :: u16
  mq_procid :: u16
  mq_offset :: offset
  mq_size :: int

definition nifo_msg_write ::
  "(msgq_nifo \<Rightarrow> msgq_nifo list \<Rightarrow> int + msgq_nifo list) \<Rightarrow> nifo \<Rightarrow> u32 \<Rightarrow> offset \<Rightarrow> msgq_nifo list \<Rightarrow>
   msgq_nifo list \<times> int" where
  "nifo_msg_write msgsnd s uiMsgqID pNode q =
     (let msg = \<lparr>mq_mtype = DEF_MSGQ_SVC, mq_msgqid = uiMsgqID, mq_len = SIZEOF_OFFSET,
                 mq_procid = of_nat (nf_procID s), mq_offset = pNode,
                 mq_size = st_MsgQ_NIFO_SIZE + uint SIZEOF_OFFSET - SIZEOF_LONG\<rparr>
      in case msgsnd msg q of Inl errno \<Rightarrow> (q, - errno) | Inr q' \<Rightarrow> (q', 0))"

text \<open>\<open>msgrcv\<close> answers the size and the message, or an error number; of these \<open>EINTR\<close> and \<open>ENOMSG\<close>
  mean no message. \<open>nifo_create\<close> is advanced by the size that was received. The values of the
  previous message are freed first; \<open>nifo_get_point_all\<close>, whose body is disabled, leaves the list
  empty.\<close>

datatype rcv_error = RcvNone | RcvErrno int

definition nifo_msg_read ::
  "(msgq_nifo list \<Rightarrow> rcv_error + msgq_nifo \<times> msgq_nifo list) \<Rightarrow> nifo \<Rightarrow> msgq_nifo list \<Rightarrow>
   readval list option \<Rightarrow> nifo \<times> msgq_nifo list \<times> readval list option \<times> offset" where
  "nifo_msg_read msgrcv s q vals =
     (let vals1 = map_option (map readval_empty) vals in
      case msgrcv q of
        Inl RcvNone \<Rightarrow> (s, q, vals1, 0)
      | Inl (RcvErrno e) \<Rightarrow> (s, q, vals1, - e)
      | Inr (msg, q') \<Rightarrow>
          if mq_size msg \<noteq> uint (mq_len msg) + st_MsgQ_NIFO_SIZE - SIZEOF_LONG then (s, q', vals1, 0)
          else (s\<lparr>nf_create := nf_create s + word_of_int (mq_size msg)\<rparr>, q', vals1, mq_offset msg))"

end
