(* ===== verification/MemsProps.thy ===== *)
theory MemsProps
  imports Mems
begin

text \<open>
  The zones of \<open>mems.c\<close> are node pools. The file holds the well-formedness of one zone and of the
  whole block, in which the two counters of a zone account for its nodes in use, the search for a
  free node, and the interpretation of the pool interface for each zone.
\<close>

section \<open>Zones\<close>

definition memszone_nodes :: "memszone \<Rightarrow> offset set" where
  "memszone_nodes z = slots (mz_offsetNodeStart z) (memszone_stride z) (unat (mz_uiMemNodeTotCnt z))"

definition mems_hdr_ok :: "nat \<Rightarrow> memsnodehdr \<Rightarrow> bool" where
  "mems_hdr_ok n h \<longleftrightarrow> mh_uiID h = MEMS_ID \<and> mh_ucIsFree h \<in> {MEMS_FREE, MEMS_ALLOCED} \<and>
     mh_uiZoneID h = of_nat n"

definition memszone_wf :: "memszone \<Rightarrow> bool" where
  "memszone_wf z \<longleftrightarrow> 0 < unat (mz_uiMemNodeTotCnt z) \<and>
     mz_offsetNodeEnd z =
       slot_at (mz_offsetNodeStart z) (memszone_stride z) (unat (mz_uiMemNodeTotCnt z)) \<and>
     mz_offsetFreeList z \<in> memszone_nodes z"

definition memszone_busy :: "(offset \<rightharpoonup> memsnodehdr) \<Rightarrow> offset \<Rightarrow> bool" where
  "memszone_busy hdr q \<longleftrightarrow> (\<exists>h. hdr q = Some h \<and> mh_ucIsFree h = MEMS_ALLOCED)"

lemma memszone_stride_pos [simp]: "0 < memszone_stride z"
  by (simp add: memszone_stride_def mems_const_defs add_pos_nonneg)

lemma memszone_update [frame_simps]:
  "memszone_stride (z\<lparr>mz_offsetFreeList := f\<rparr>) = memszone_stride z"
  "memszone_stride (z\<lparr>mz_createCnt := c\<rparr>) = memszone_stride z"
  "memszone_stride (z\<lparr>mz_delCnt := c\<rparr>) = memszone_stride z"
  "memszone_nodes (z\<lparr>mz_offsetFreeList := f\<rparr>) = memszone_nodes z"
  "memszone_nodes (z\<lparr>mz_createCnt := c\<rparr>) = memszone_nodes z"
  "memszone_nodes (z\<lparr>mz_delCnt := c\<rparr>) = memszone_nodes z"
  by (simp_all add: memszone_stride_def memszone_nodes_def)

lemma memszone_wf_cursor: "memszone_wf z \<Longrightarrow> f \<in> memszone_nodes z \<Longrightarrow> memszone_wf (z\<lparr>mz_offsetFreeList := f\<rparr>)"
  by (simp add: memszone_wf_def frame_simps)

lemma finite_memszone_nodes [simp]: "finite (memszone_nodes z)"
  by (simp add: memszone_nodes_def)

lemma memszone_next_slot:
  assumes "memszone_wf z" "n = unat (mz_uiMemNodeTotCnt z)" "k < n"
    "mz_offsetFreeList z = slot_at (mz_offsetNodeStart z) (memszone_stride z) k"
  shows "memszone_next z = slot_at (mz_offsetNodeStart z) (memszone_stride z) (Suc k mod n)"
proof -
  let ?at = "slot_at (mz_offsetNodeStart z) (memszone_stride z)"
  have "mz_offsetFreeList z + memszone_stride z = ?at (Suc k)"
    using assms(4) by (simp add: slot_at_Suc)
  moreover have "mz_offsetNodeEnd z = ?at n" using assms(1,2) by (simp add: memszone_wf_def)
  ultimately show ?thesis
    using assms(3) by (auto simp: memszone_next_def slot_at_inj mod_Suc_step)
qed

lemma memszone_next_in: "memszone_wf z \<Longrightarrow> memszone_next z \<in> memszone_nodes z"
proof -
  assume wf: "memszone_wf z"
  then obtain k where k: "k < unat (mz_uiMemNodeTotCnt z)"
    "mz_offsetFreeList z = slot_at (mz_offsetNodeStart z) (memszone_stride z) k"
    by (auto simp: memszone_wf_def memszone_nodes_def slots_def)
  then have "Suc k mod unat (mz_uiMemNodeTotCnt z) < unat (mz_uiMemNodeTotCnt z)" by simp
  with memszone_next_slot [OF wf refl k] show ?thesis by (simp add: memszone_nodes_def)
qed

text \<open>What a successful search leaves behind: node \<open>q\<close> is taken, the cursor is at \<open>f\<close>.\<close>

definition memszone_take :: "memszone \<Rightarrow> offset \<Rightarrow> memszone" where
  "memszone_take z f = z\<lparr>mz_offsetFreeList := f, mz_createCnt := mz_createCnt z + 1\<rparr>"

definition mems_take_hdr :: "memsnodehdr \<Rightarrow> int \<Rightarrow> memsnodehdr" where
  "mems_take_hdr h now = h\<lparr>mh_TimeSec := now, mh_ucIsFree := MEMS_ALLOCED\<rparr>"

text \<open>A free node \<open>d\<close> slots ahead of the cursor is found before the counter stops the search.\<close>

lemma mems_alloc_loop_found:
  assumes "memszone_wf z" "n = unat (mz_uiMemNodeTotCnt z)" "k < n"
    "mz_offsetFreeList z = slot_at (mz_offsetNodeStart z) (memszone_stride z) k"
    "\<And>q. q \<in> memszone_nodes z \<Longrightarrow> \<exists>h. hdr q = Some h \<and> mems_hdr_ok c h"
    "\<not> memszone_busy hdr (slot_at (mz_offsetNodeStart z) (memszone_stride z) ((k + d) mod n))"
    "iDebug + d < n"
  shows "\<exists>q h f. mems_alloc_loop z hdr now iDebug =
      Some (memszone_take z f, hdr(q \<mapsto> mems_take_hdr h now), Some (q + stMEMSNODEHDR_SIZE)) \<and>
    q \<in> memszone_nodes z \<and> f \<in> memszone_nodes z \<and> hdr q = Some h \<and> mh_ucIsFree h = MEMS_FREE"
  using assms
proof (induction d arbitrary: z k iDebug)
  case (0 z k iDebug)
  let ?q = "mz_offsetFreeList z"
  have q: "?q \<in> memszone_nodes z" using 0(1) by (simp add: memszone_wf_def)
  obtain h where h: "hdr ?q = Some h" "mems_hdr_ok c h" using 0(5) [OF q] by blast
  have "mh_ucIsFree h = MEMS_FREE"
    using 0(3,4,6) h by (auto simp: memszone_busy_def mems_hdr_ok_def)
  moreover from this have "mems_alloc_loop z hdr now iDebug =
      Some (memszone_take z (memszone_next z), hdr(?q \<mapsto> mems_take_hdr h now), Some (?q + stMEMSNODEHDR_SIZE))"
    using h(1) by (simp add: mems_alloc_loop.simps [of z] memszone_take_def mems_take_hdr_def Let_def)
  ultimately show ?case using q h(1) memszone_next_in [OF 0(1)] by blast
next
  case (Suc d z k iDebug)
  let ?q = "mz_offsetFreeList z"
  let ?f = "memszone_next z"
  let ?z1 = "z\<lparr>mz_offsetFreeList := ?f\<rparr>"
  have q: "?q \<in> memszone_nodes z" using Suc.prems(1) by (simp add: memszone_wf_def)
  have f: "?f \<in> memszone_nodes z" by (rule memszone_next_in [OF Suc.prems(1)])
  obtain h where h: "hdr ?q = Some h" using Suc.prems(5) [OF q] by blast
  show ?case
  proof (cases "mh_ucIsFree h = MEMS_FREE")
    case True
    then have "mems_alloc_loop z hdr now iDebug =
        Some (memszone_take z ?f, hdr(?q \<mapsto> mems_take_hdr h now), Some (?q + stMEMSNODEHDR_SIZE))"
      using h by (simp add: mems_alloc_loop.simps [of z] memszone_take_def mems_take_hdr_def Let_def)
    with q f h True show ?thesis by blast
  next
    case False
    have step: "mems_alloc_loop z hdr now iDebug = mems_alloc_loop ?z1 hdr now (Suc iDebug)"
      using h False Suc.prems(2,7) by (simp add: mems_alloc_loop.simps [of z] Let_def)
    have kn: "Suc k mod n < n" using Suc.prems(3) by simp
    have fk: "?f = slot_at (mz_offsetNodeStart z) (memszone_stride z) (Suc k mod n)"
      by (rule memszone_next_slot [OF Suc.prems(1-4)])
    have at: "(Suc k mod n + d) mod n = (k + Suc d) mod n" by (simp add: mod_add_left_eq)
    have "\<exists>q h f. mems_alloc_loop ?z1 hdr now (Suc iDebug) =
        Some (memszone_take ?z1 f, hdr(q \<mapsto> mems_take_hdr h now), Some (q + stMEMSNODEHDR_SIZE)) \<and>
      q \<in> memszone_nodes ?z1 \<and> f \<in> memszone_nodes ?z1 \<and> hdr q = Some h \<and> mh_ucIsFree h = MEMS_FREE"
    proof (rule Suc.IH [where k = "Suc k mod n"])
      show "memszone_wf ?z1" by (rule memszone_wf_cursor [OF Suc.prems(1) f])
      show "\<And>q. q \<in> memszone_nodes ?z1 \<Longrightarrow> \<exists>h. hdr q = Some h \<and> mems_hdr_ok c h"
        using Suc.prems(5) by (simp add: frame_simps)
    qed (use Suc.prems kn fk at in \<open>simp_all add: frame_simps\<close>)
    then obtain q h f where r: "mems_alloc_loop ?z1 hdr now (Suc iDebug) =
        Some (memszone_take ?z1 f, hdr(q \<mapsto> mems_take_hdr h now), Some (q + stMEMSNODEHDR_SIZE))"
      "q \<in> memszone_nodes ?z1" "f \<in> memszone_nodes ?z1" "hdr q = Some h" "mh_ucIsFree h = MEMS_FREE"
      by blast
    have "memszone_take ?z1 f = memszone_take z f" by (simp add: memszone_take_def)
    then have "mems_alloc_loop z hdr now iDebug =
        Some (memszone_take z f, hdr(q \<mapsto> mems_take_hdr h now), Some (q + stMEMSNODEHDR_SIZE))"
      using step r(1) by simp
    then show ?thesis using r(2-5) frame_simps by blast
  qed
qed

text \<open>When every node is out, the search goes round once more and gives up.\<close>

lemma mems_alloc_loop_full:
  assumes "memszone_wf z" "\<And>q. q \<in> memszone_nodes z \<Longrightarrow> memszone_busy hdr q"
    "iDebug \<le> unat (mz_uiMemNodeTotCnt z)"
  shows "\<exists>f. mems_alloc_loop z hdr now iDebug = Some (z\<lparr>mz_offsetFreeList := f\<rparr>, hdr, None) \<and>
    f \<in> memszone_nodes z"
  using assms
proof (induction "unat (mz_uiMemNodeTotCnt z) - iDebug" arbitrary: z iDebug)
  case 0
  let ?q = "mz_offsetFreeList z"
  have "?q \<in> memszone_nodes z" using 0(2) by (simp add: memszone_wf_def)
  then obtain h where "hdr ?q = Some h" "mh_ucIsFree h = MEMS_ALLOCED"
    using 0(3) by (auto simp: memszone_busy_def)
  then have "mems_alloc_loop z hdr now iDebug = Some (z\<lparr>mz_offsetFreeList := memszone_next z\<rparr>, hdr, None)"
    using 0(1,4) by (simp add: mems_alloc_loop.simps [of z] Let_def)
  then show ?case using memszone_next_in [OF 0(2)] by blast
next
  case (Suc m)
  let ?q = "mz_offsetFreeList z"
  let ?z1 = "z\<lparr>mz_offsetFreeList := memszone_next z\<rparr>"
  have f: "memszone_next z \<in> memszone_nodes z" by (rule memszone_next_in [OF Suc.prems(1)])
  have "?q \<in> memszone_nodes z" using Suc.prems(1) by (simp add: memszone_wf_def)
  then obtain h where "hdr ?q = Some h" "mh_ucIsFree h = MEMS_ALLOCED"
    using Suc.prems(2) by (auto simp: memszone_busy_def)
  moreover have "\<not> unat (mz_uiMemNodeTotCnt z) < Suc iDebug" using Suc.hyps(2) by linarith
  ultimately have step: "mems_alloc_loop z hdr now iDebug = mems_alloc_loop ?z1 hdr now (Suc iDebug)"
    by (simp add: mems_alloc_loop.simps [of z] Let_def)
  have "\<exists>f. mems_alloc_loop ?z1 hdr now (Suc iDebug) = Some (?z1\<lparr>mz_offsetFreeList := f\<rparr>, hdr, None) \<and>
      f \<in> memszone_nodes ?z1"
    using Suc.hyps(2) Suc.prems memszone_wf_cursor [OF Suc.prems(1) f]
    by (intro Suc.hyps(1)) (simp_all add: frame_simps)
  then show ?case using step by (simp add: frame_simps)
qed

section \<open>The block\<close>

definition memszone_used :: "(offset \<rightharpoonup> memsnodehdr) \<Rightarrow> memszone \<Rightarrow> offset set" where
  "memszone_used hdr z = {q \<in> memszone_nodes z. memszone_busy hdr q}"

definition memszone_ok :: "(offset \<rightharpoonup> memsnodehdr) \<Rightarrow> nat \<Rightarrow> memszone \<Rightarrow> bool" where
  "memszone_ok hdr i z \<longleftrightarrow> memszone_wf z \<and>
     (\<forall>q \<in> memszone_nodes z. \<exists>h. hdr q = Some h \<and> mems_hdr_ok i h) \<and>
     of_nat (card (memszone_used hdr z)) = mz_createCnt z - mz_delCnt z"

definition mems_ordered :: "memszone list \<Rightarrow> bool" where
  "mems_ordered zs \<longleftrightarrow> sorted_wrt (\<lambda>a b. mz_offsetNodeEnd a \<le> mz_offsetNodeStart b) zs"

definition mems_sem_free :: "(int \<Rightarrow> int) \<Rightarrow> memszone \<Rightarrow> bool" where
  "mems_sem_free sem z \<longleftrightarrow> mz_uiSemFlag z = MEMS_SEMA_ON \<longrightarrow> 0 < sem (mz_iSemID z)"

definition mems_wf :: "mems \<Rightarrow> bool" where
  "mems_wf m \<longleftrightarrow> length (mi_stMEMSZONE m) = unat (mi_uiZoneCnt m) \<and>
     (\<forall>i < length (mi_stMEMSZONE m). memszone_ok (mi_hdr m) i (mi_stMEMSZONE m ! i)) \<and>
     mems_ordered (mi_stMEMSZONE m) \<and> (\<forall>z \<in> set (mi_stMEMSZONE m). mems_sem_free (mi_sem m) z)"

lemma memszone_used_subset: "memszone_used hdr z \<subseteq> memszone_nodes z"
  by (auto simp: memszone_used_def)

lemma finite_memszone_used [simp]: "finite (memszone_used hdr z)"
  by (rule finite_subset [OF memszone_used_subset]) simp

lemma memszone_node_range:
  assumes "memszone_wf z" "q \<in> memszone_nodes z"
  shows "mz_offsetNodeStart z \<le> q" "q + memszone_stride z \<le> mz_offsetNodeEnd z"
proof -
  obtain i where i: "i < unat (mz_uiMemNodeTotCnt z)"
    "q = slot_at (mz_offsetNodeStart z) (memszone_stride z) i"
    using assms(2) by (auto simp: memszone_nodes_def slots_def)
  show "mz_offsetNodeStart z \<le> q" using i(2) by (simp add: slot_at_ge less_imp_le)
  have "slot_at (mz_offsetNodeStart z) (memszone_stride z) (Suc i) \<le> mz_offsetNodeEnd z"
  proof (cases "Suc i = unat (mz_uiMemNodeTotCnt z)")
    case True
    then show ?thesis using assms(1) by (simp add: memszone_wf_def)
  next
    case False
    then have "Suc i < unat (mz_uiMemNodeTotCnt z)" using i(1) by simp
    then have "slot_at (mz_offsetNodeStart z) (memszone_stride z) (Suc i) <
        slot_at (mz_offsetNodeStart z) (memszone_stride z) (unat (mz_uiMemNodeTotCnt z))"
      by (simp add: slot_at_less)
    then show ?thesis using assms(1) by (simp add: memszone_wf_def)
  qed
  then show "q + memszone_stride z \<le> mz_offsetNodeEnd z" using i(2) by (simp add: slot_at_Suc)
qed

lemma memszone_apart:
  assumes "mems_wf m" "i < length (mi_stMEMSZONE m)" "j < length (mi_stMEMSZONE m)" "i < j"
    "p \<in> memszone_nodes (mi_stMEMSZONE m ! i)" "q \<in> memszone_nodes (mi_stMEMSZONE m ! j)"
  shows "p + memszone_stride (mi_stMEMSZONE m ! i) \<le> q"
proof -
  have "memszone_wf (mi_stMEMSZONE m ! i)" "memszone_wf (mi_stMEMSZONE m ! j)"
    using assms(1-3) by (simp_all add: mems_wf_def memszone_ok_def)
  moreover have "mz_offsetNodeEnd (mi_stMEMSZONE m ! i) \<le> mz_offsetNodeStart (mi_stMEMSZONE m ! j)"
    using assms(1,3,4) by (auto simp: mems_wf_def mems_ordered_def sorted_wrt_iff_nth_less)
  ultimately show ?thesis using memszone_node_range assms(5,6) by (meson order_trans)
qed

lemma memszone_nodes_disjoint:
  assumes "mems_wf m" "i < length (mi_stMEMSZONE m)" "j < length (mi_stMEMSZONE m)" "i \<noteq> j"
    "p \<in> memszone_nodes (mi_stMEMSZONE m ! i)"
  shows "p \<notin> memszone_nodes (mi_stMEMSZONE m ! j)"
proof
  assume q: "p \<in> memszone_nodes (mi_stMEMSZONE m ! j)"
  consider "i < j" | "j < i" using assms(4) by linarith
  then show False
  proof cases
    case 1
    from memszone_apart [OF assms(1-3) this assms(5) q]
    show False using memszone_stride_pos [of "mi_stMEMSZONE m ! i"] by linarith
  next
    case 2
    from memszone_apart [OF assms(1,3,2) this q assms(5)]
    show False using memszone_stride_pos [of "mi_stMEMSZONE m ! j"] by linarith
  qed
qed

text \<open>A header that is written in one zone leaves the others as they are.\<close>

lemma memszone_used_other:
  "q \<notin> memszone_nodes z \<Longrightarrow> memszone_used (hdr(q \<mapsto> h)) z = memszone_used hdr z"
  by (auto simp: memszone_used_def memszone_busy_def)

lemma memszone_ok_other:
  "q \<notin> memszone_nodes z \<Longrightarrow> memszone_ok (hdr(q \<mapsto> h)) i z = memszone_ok hdr i z"
  by (auto simp: memszone_ok_def memszone_used_other)

lemma memszone_used_take:
  assumes "q \<in> memszone_nodes z"
  shows "memszone_used (hdr(q \<mapsto> mems_take_hdr h now)) z = insert q (memszone_used hdr z)"
  using assms by (auto simp: memszone_used_def memszone_busy_def mems_take_hdr_def)

lemma memszone_used_release:
  assumes "mh_ucIsFree h = MEMS_FREE"
  shows "memszone_used (hdr(q \<mapsto> h)) z = memszone_used hdr z - {q}"
  using assms by (auto simp: memszone_used_def memszone_busy_def)

lemma memszone_used_fields [frame_simps]:
  "memszone_used hdr (memszone_take z f) = memszone_used hdr z"
  "memszone_used hdr (z\<lparr>mz_delCnt := c\<rparr>) = memszone_used hdr z"
  "memszone_nodes (memszone_take z f) = memszone_nodes z"
  "memszone_stride (memszone_take z f) = memszone_stride z"
  by (simp_all add: memszone_used_def memszone_nodes_def memszone_stride_def memszone_take_def)

lemma memszone_ok_take:
  assumes "memszone_ok hdr i z" "q \<in> memszone_nodes z" "f \<in> memszone_nodes z" "hdr q = Some h"
    "mh_ucIsFree h = MEMS_FREE"
  shows "memszone_ok (hdr(q \<mapsto> mems_take_hdr h now)) i (memszone_take z f)"
proof -
  have "q \<notin> memszone_used hdr z" using assms(4,5) by (simp add: memszone_used_def memszone_busy_def)
  then have "card (memszone_used (hdr(q \<mapsto> mems_take_hdr h now)) (memszone_take z f)) =
      Suc (card (memszone_used hdr z))"
    using assms(2) by (simp add: frame_simps memszone_used_take)
  moreover have "memszone_wf (memszone_take z f)"
    using assms(1,3) by (simp add: memszone_ok_def memszone_wf_def memszone_take_def memszone_nodes_def
        memszone_stride_def)
  moreover have "mems_hdr_ok i (mems_take_hdr h now)"
    using assms(1,2,4) by (auto simp: memszone_ok_def mems_hdr_ok_def mems_take_hdr_def)
  ultimately show ?thesis using assms(1)
    by (simp add: memszone_ok_def frame_simps) (simp add: memszone_take_def)
qed

lemma counter_step:
  fixes x a b :: "'a :: ring_1"
  assumes "1 + x = a - b"
  shows "x = a - (b + 1)"
proof -
  have "x = 1 + x - 1" by simp
  also have "\<dots> = a - b - 1" by (simp only: assms)
  finally show ?thesis by (simp add: diff_diff_eq)
qed

lemma memszone_ok_release:
  assumes "memszone_ok hdr i z" "q \<in> memszone_used hdr z" "hdr q = Some h"
  shows "memszone_ok (hdr(q \<mapsto> h\<lparr>mh_ucIsFree := MEMS_FREE\<rparr>)) i (z\<lparr>mz_delCnt := mz_delCnt z + 1\<rparr>)"
proof -
  have "card (memszone_used hdr z) = Suc (card (memszone_used hdr z - {q}))"
    using card.remove [OF finite_memszone_used assms(2)] .
  moreover have "of_nat (card (memszone_used hdr z)) = mz_createCnt z - mz_delCnt z"
    using assms(1) by (simp add: memszone_ok_def)
  ultimately have "1 + of_nat (card (memszone_used hdr z - {q})) = mz_createCnt z - mz_delCnt z"
    by (simp only: of_nat_Suc)
  then have "(of_nat (card (memszone_used hdr z - {q})) :: u64) = mz_createCnt z - (mz_delCnt z + 1)"
    by (rule counter_step)
  moreover have "memszone_wf (z\<lparr>mz_delCnt := mz_delCnt z + 1\<rparr>)"
    using assms(1) by (simp add: memszone_ok_def memszone_wf_def frame_simps)
  moreover have "q \<in> memszone_nodes z" using assms(2) memszone_used_subset by blast
  then have "mems_hdr_ok i (h\<lparr>mh_ucIsFree := MEMS_FREE\<rparr>)"
    using assms(1,3) by (auto simp: memszone_ok_def mems_hdr_ok_def)
  ultimately show ?thesis using assms(1)
    by (simp add: memszone_ok_def frame_simps memszone_used_release)
qed

section \<open>Steps of one zone\<close>

definition memszone_geom :: "memszone \<Rightarrow> u32 \<times> int \<times> u32 \<times> u32 \<times> offset \<times> offset" where
  "memszone_geom z = (mz_uiSemFlag z, mz_iSemID z, mz_uiMemNodeBodySize z, mz_uiMemNodeTotCnt z,
     mz_offsetNodeStart z, mz_offsetNodeEnd z)"

definition mems_put :: "mems \<Rightarrow> nat \<Rightarrow> memszone \<Rightarrow> (offset \<rightharpoonup> memsnodehdr) \<Rightarrow> mems" where
  "mems_put m i z hdr = m\<lparr>mi_stMEMSZONE := (mi_stMEMSZONE m)[i := z], mi_hdr := hdr\<rparr>"

lemma mems_put_simps [simp]:
  "mi_hdr (mems_put m i z hdr) = hdr"
  "mi_stMEMSZONE (mems_put m i z hdr) = (mi_stMEMSZONE m)[i := z]"
  "mi_uiZoneCnt (mems_put m i z hdr) = mi_uiZoneCnt m"
  "mi_sem (mems_put m i z hdr) = mi_sem m"
  "mi_uiMatrixZoneID (mems_put m i z hdr) = mi_uiMatrixZoneID m"
  "mi_uiMemNodeHdrSize (mems_put m i z hdr) = mi_uiMemNodeHdrSize m"
  by (simp_all add: mems_put_def)

lemma mems_put_eq:
  "(mems_set_zone m zid z)\<lparr>mi_hdr := hdr, mi_sem := mi_sem m\<rparr> = mems_put m (unat zid) z hdr"
  "(mems_set_zone m zid z)\<lparr>mi_hdr := hdr\<rparr> = mems_put m (unat zid) z hdr"
  by (simp_all add: mems_set_zone_def mems_put_def)

lemma memszone_geom_nodes:
  "memszone_geom a = memszone_geom b \<Longrightarrow> memszone_nodes a = memszone_nodes b"
  "memszone_geom a = memszone_geom b \<Longrightarrow> memszone_stride a = memszone_stride b"
  "memszone_geom a = memszone_geom b \<Longrightarrow> mz_uiMemNodeBodySize a = mz_uiMemNodeBodySize b"
  "memszone_geom a = memszone_geom b \<Longrightarrow> memszone_used hdr a = memszone_used hdr b"
  by (simp_all add: memszone_geom_def memszone_nodes_def memszone_stride_def memszone_used_def)

lemma memszone_geom_updates [simp]:
  "memszone_geom (memszone_take z f) = memszone_geom z"
  "memszone_geom (z\<lparr>mz_offsetFreeList := f\<rparr>) = memszone_geom z"
  "memszone_geom (z\<lparr>mz_delCnt := c\<rparr>) = memszone_geom z"
  by (simp_all add: memszone_geom_def memszone_take_def)

lemma mems_put_wf:
  assumes "mems_wf m" "i < length (mi_stMEMSZONE m)" "memszone_ok hdr i z"
    "memszone_geom z = memszone_geom (mi_stMEMSZONE m ! i)"
    "\<And>j. j < length (mi_stMEMSZONE m) \<Longrightarrow> j \<noteq> i \<Longrightarrow> memszone_ok hdr j (mi_stMEMSZONE m ! j)"
  shows "mems_wf (mems_put m i z hdr)"
proof -
  let ?zs = "mi_stMEMSZONE m"
  have geom: "memszone_geom (?zs[i := z] ! j) = memszone_geom (?zs ! j)" if "j < length ?zs" for j
    using assms(2,4) that by (cases "j = i") auto
  have "memszone_ok hdr j (?zs[i := z] ! j)" if "j < length ?zs" for j
    using assms(2,3,5) that by (cases "j = i") auto
  moreover have "mems_ordered (?zs[i := z])"
    unfolding mems_ordered_def sorted_wrt_iff_nth_less
  proof (intro allI impI)
    fix a b assume ab: "a < b" "b < length (?zs[i := z])"
    then have "mz_offsetNodeEnd (?zs ! a) \<le> mz_offsetNodeStart (?zs ! b)"
      using assms(1) by (simp add: mems_wf_def mems_ordered_def sorted_wrt_iff_nth_less)
    then show "mz_offsetNodeEnd (?zs[i := z] ! a) \<le> mz_offsetNodeStart (?zs[i := z] ! b)"
      using geom [of a] geom [of b] ab by (simp add: memszone_geom_def)
  qed
  moreover have "\<forall>y \<in> set (?zs[i := z]). mems_sem_free (mi_sem m) y"
  proof
    fix y assume "y \<in> set (?zs[i := z])"
    then obtain j where j: "j < length ?zs" "y = ?zs[i := z] ! j" by (auto simp: in_set_conv_nth)
    have "mems_sem_free (mi_sem m) (?zs ! j)" using assms(1) j(1) by (simp add: mems_wf_def)
    then show "mems_sem_free (mi_sem m) y"
      using geom [OF j(1)] j(2) by (simp add: mems_sem_free_def memszone_geom_def)
  qed
  ultimately show ?thesis using assms(1) by (simp add: mems_wf_def)
qed

lemma mems_P_V:
  assumes "mems_sem_free sem z"
  shows "\<exists>sem1. mems_P sem (mz_iSemID z) (mz_uiSemFlag z) = Some sem1 \<and>
    mems_V sem1 (mz_iSemID z) (mz_uiSemFlag z) = Some sem"
  using assms by (auto simp: mems_P_def mems_V_def mems_sem_free_def)

lemma mems_alloc_free_node:
  assumes wf: "mems_wf m" and zid: "unat zid < length (mi_stMEMSZONE m)"
    and sz: "uiSize \<le> mz_uiMemNodeBodySize (mi_stMEMSZONE m ! unat zid)"
    and room: "memszone_used (mi_hdr m) (mi_stMEMSZONE m ! unat zid) \<noteq> memszone_nodes (mi_stMEMSZONE m ! unat zid)"
  shows "\<exists>q h f. mems_alloc m uiSize zid now =
      Some (mems_put m (unat zid) (memszone_take (mi_stMEMSZONE m ! unat zid) f)
              ((mi_hdr m)(q \<mapsto> mems_take_hdr h now)), Some (q + stMEMSNODEHDR_SIZE)) \<and>
    q \<in> memszone_nodes (mi_stMEMSZONE m ! unat zid) \<and> f \<in> memszone_nodes (mi_stMEMSZONE m ! unat zid) \<and>
    mi_hdr m q = Some h \<and> mh_ucIsFree h = MEMS_FREE"
proof -
  let ?z = "mi_stMEMSZONE m ! unat zid"
  let ?at = "slot_at (mz_offsetNodeStart ?z) (memszone_stride ?z)"
  let ?n = "unat (mz_uiMemNodeTotCnt ?z)"
  have ok: "memszone_ok (mi_hdr m) (unat zid) ?z" using wf zid by (simp add: mems_wf_def)
  then have wfz: "memszone_wf ?z" by (simp add: memszone_ok_def)
  then obtain k where k: "k < ?n" "mz_offsetFreeList ?z = ?at k"
    by (auto simp: memszone_wf_def memszone_nodes_def slots_def)
  obtain p where "p \<in> memszone_nodes ?z" "\<not> memszone_busy (mi_hdr m) p"
    using room memszone_used_subset by (auto simp: memszone_used_def)
  then obtain j where j: "j < ?n" "\<not> memszone_busy (mi_hdr m) (?at j)"
    by (auto simp: memszone_nodes_def slots_def)
  let ?d = "(j + ?n - k) mod ?n"
  have "(k + ?d) mod ?n = j" by (rule mod_distance [OF j(1) k(1)])
  then have nb: "\<not> memszone_busy (mi_hdr m) (?at ((k + ?d) mod ?n))" using j(2) by simp
  have dn: "0 + ?d < ?n" using k(1) by simp
  have hdrs: "\<And>q. q \<in> memszone_nodes ?z \<Longrightarrow> \<exists>h. mi_hdr m q = Some h \<and> mems_hdr_ok (unat zid) h"
    using ok by (simp add: memszone_ok_def)
  obtain q h f where r: "mems_alloc_loop ?z (mi_hdr m) now 0 =
      Some (memszone_take ?z f, (mi_hdr m)(q \<mapsto> mems_take_hdr h now), Some (q + stMEMSNODEHDR_SIZE))"
    "q \<in> memszone_nodes ?z" "f \<in> memszone_nodes ?z" "mi_hdr m q = Some h" "mh_ucIsFree h = MEMS_FREE"
    using mems_alloc_loop_found [OF wfz refl k hdrs nb dn, of now] by blast
  have "mems_sem_free (mi_sem m) ?z" using wf zid by (simp add: mems_wf_def)
  then obtain sem1 where sem: "mems_P (mi_sem m) (mz_iSemID ?z) (mz_uiSemFlag ?z) = Some sem1"
    "mems_V sem1 (mz_iSemID ?z) (mz_uiSemFlag ?z) = Some (mi_sem m)"
    using mems_P_V by blast
  have fields: "mz_iSemID (memszone_take ?z f) = mz_iSemID ?z"
    "mz_uiSemFlag (memszone_take ?z f) = mz_uiSemFlag ?z"
    by (simp_all add: memszone_take_def)
  have "mems_alloc m uiSize zid now =
      Some (mems_put m (unat zid) (memszone_take ?z f) ((mi_hdr m)(q \<mapsto> mems_take_hdr h now)),
        Some (q + stMEMSNODEHDR_SIZE))"
    using sz zid sem fields r(1)
    by (simp add: mems_alloc_def mems_zone_def mems_put_eq del: fun_upd_apply)
  then show ?thesis using r(2-5) by blast
qed

lemma mems_alloc_no_node:
  assumes wf: "mems_wf m" and zid: "unat zid < length (mi_stMEMSZONE m)"
    and sz: "uiSize \<le> mz_uiMemNodeBodySize (mi_stMEMSZONE m ! unat zid)"
    and full: "memszone_used (mi_hdr m) (mi_stMEMSZONE m ! unat zid) = memszone_nodes (mi_stMEMSZONE m ! unat zid)"
  shows "\<exists>f. mems_alloc m uiSize zid now =
      Some (mems_put m (unat zid) ((mi_stMEMSZONE m ! unat zid)\<lparr>mz_offsetFreeList := f\<rparr>) (mi_hdr m), None) \<and>
    f \<in> memszone_nodes (mi_stMEMSZONE m ! unat zid)"
proof -
  let ?z = "mi_stMEMSZONE m ! unat zid"
  have wfz: "memszone_wf ?z" using wf zid by (simp add: mems_wf_def memszone_ok_def)
  have busy: "\<And>q. q \<in> memszone_nodes ?z \<Longrightarrow> memszone_busy (mi_hdr m) q"
    using full by (auto simp: memszone_used_def)
  obtain f where r: "mems_alloc_loop ?z (mi_hdr m) now 0 =
      Some (?z\<lparr>mz_offsetFreeList := f\<rparr>, mi_hdr m, None)" "f \<in> memszone_nodes ?z"
    using mems_alloc_loop_full [OF wfz busy, of 0 now] by auto
  have "mems_sem_free (mi_sem m) ?z" using wf zid by (simp add: mems_wf_def)
  then obtain sem1 where sem: "mems_P (mi_sem m) (mz_iSemID ?z) (mz_uiSemFlag ?z) = Some sem1"
    "mems_V sem1 (mz_iSemID ?z) (mz_uiSemFlag ?z) = Some (mi_sem m)"
    using mems_P_V by blast
  have "mems_alloc m uiSize zid now =
      Some (mems_put m (unat zid) (?z\<lparr>mz_offsetFreeList := f\<rparr>) (mi_hdr m), None)"
    using sz zid sem r(1) by (simp add: mems_alloc_def mems_zone_def mems_put_eq)
  then show ?thesis using r(2) by blast
qed

section \<open>Every zone is a node pool\<close>

definition mems_cells :: "mems \<Rightarrow> u32 \<Rightarrow> offset set" where
  "mems_cells m zid = (\<lambda>q. q + stMEMSNODEHDR_SIZE) ` memszone_nodes (mi_stMEMSZONE m ! unat zid)"

definition mems_live :: "mems \<Rightarrow> u32 \<Rightarrow> offset set" where
  "mems_live m zid = (\<lambda>q. q + stMEMSNODEHDR_SIZE) ` memszone_used (mi_hdr m) (mi_stMEMSZONE m ! unat zid)"

definition mems_valid :: "mems \<Rightarrow> u32 \<Rightarrow> bool" where
  "mems_valid m zid \<longleftrightarrow> mems_wf m \<and> unat zid < length (mi_stMEMSZONE m)"

definition mems_body :: "mems \<Rightarrow> u32 \<Rightarrow> u32" where
  "mems_body m zid = mz_uiMemNodeBodySize (mi_stMEMSZONE m ! unat zid)"

text \<open>What a step in zone \<open>zid\<close> leaves alone: the semaphores, the layout of every zone and the use of
  every other zone.\<close>

definition mems_frame :: "mems \<Rightarrow> mems \<Rightarrow> u32 \<Rightarrow> bool" where
  "mems_frame m m' zid \<longleftrightarrow> mi_sem m' = mi_sem m \<and> mi_uiMatrixZoneID m' = mi_uiMatrixZoneID m \<and>
     mi_uiMemNodeHdrSize m' = mi_uiMemNodeHdrSize m \<and> mi_uiZoneCnt m' = mi_uiZoneCnt m \<and>
     map memszone_geom (mi_stMEMSZONE m') = map memszone_geom (mi_stMEMSZONE m) \<and>
     (\<forall>k. unat k < length (mi_stMEMSZONE m) \<longrightarrow> k \<noteq> zid \<longrightarrow> mems_live m' k = mems_live m k)"

lemma mems_live_mem: "q + stMEMSNODEHDR_SIZE \<in> mems_live m zid \<longleftrightarrow>
    q \<in> memszone_used (mi_hdr m) (mi_stMEMSZONE m ! unat zid)"
  by (auto simp: mems_live_def)

lemma mems_live_iff: "p \<in> mems_live m zid \<longleftrightarrow>
    p - stMEMSNODEHDR_SIZE \<in> memszone_used (mi_hdr m) (mi_stMEMSZONE m ! unat zid)"
  using mems_live_mem [of "p - stMEMSNODEHDR_SIZE"] by simp

lemma mems_cells_iff: "p \<in> mems_cells m zid \<longleftrightarrow>
    p - stMEMSNODEHDR_SIZE \<in> memszone_nodes (mi_stMEMSZONE m ! unat zid)"
  by (auto simp: mems_cells_def image_iff) (metis add_diff_cancel_right' diff_add_cancel)

lemma mems_live_cells: "mems_live m zid \<subseteq> mems_cells m zid"
  by (simp add: mems_live_def mems_cells_def image_mono memszone_used_subset)

lemma finite_mems_cells [simp]: "finite (mems_cells m zid)"
  by (simp add: mems_cells_def)

lemma mems_live_card: "card (mems_live m zid) = card (memszone_used (mi_hdr m) (mi_stMEMSZONE m ! unat zid))"
  unfolding mems_live_def by (rule card_image) (auto simp: inj_on_def)

lemma mems_cells_full: "mems_live m zid = mems_cells m zid \<longleftrightarrow>
    memszone_used (mi_hdr m) (mi_stMEMSZONE m ! unat zid) = memszone_nodes (mi_stMEMSZONE m ! unat zid)"
  unfolding mems_live_def mems_cells_def by (rule inj_image_eq_iff) (simp add: inj_def)

lemma mems_valid_geom:
  assumes "mems_frame m m' zid"
  shows "mems_cells m' k = mems_cells m k \<or> \<not> unat k < length (mi_stMEMSZONE m)"
    "length (mi_stMEMSZONE m') = length (mi_stMEMSZONE m)"
    "unat k < length (mi_stMEMSZONE m) \<Longrightarrow> mems_body m' k = mems_body m k"
proof -
  have maps: "map memszone_geom (mi_stMEMSZONE m') = map memszone_geom (mi_stMEMSZONE m)"
    using assms by (simp add: mems_frame_def)
  show len: "length (mi_stMEMSZONE m') = length (mi_stMEMSZONE m)" using map_eq_imp_length_eq [OF maps] .
  have geom: "memszone_geom (mi_stMEMSZONE m' ! unat k) = memszone_geom (mi_stMEMSZONE m ! unat k)"
    if "unat k < length (mi_stMEMSZONE m)"
    using arg_cong [OF maps, of "\<lambda>xs. xs ! unat k"] that len by simp
  show "mems_cells m' k = mems_cells m k \<or> \<not> unat k < length (mi_stMEMSZONE m)"
    using memszone_geom_nodes(1) [OF geom] by (auto simp: mems_cells_def)
  show "unat k < length (mi_stMEMSZONE m) \<Longrightarrow> mems_body m' k = mems_body m k"
    using memszone_geom_nodes(3) [OF geom] by (simp add: mems_body_def)
qed

lemma mems_put_frame:
  assumes "mems_valid m zid" "memszone_geom z = memszone_geom (mi_stMEMSZONE m ! unat zid)"
    "\<And>p j. j < length (mi_stMEMSZONE m) \<Longrightarrow> j \<noteq> unat zid \<Longrightarrow>
       p \<in> memszone_nodes (mi_stMEMSZONE m ! j) \<Longrightarrow> hdr p = mi_hdr m p"
  shows "mems_frame m (mems_put m (unat zid) z hdr) zid"
proof -
  have "map memszone_geom ((mi_stMEMSZONE m)[unat zid := z]) = map memszone_geom (mi_stMEMSZONE m)"
    using assms(1,2) by (simp add: map_update mems_valid_def) (metis list_update_id nth_map)
  moreover have "mems_live (mems_put m (unat zid) z hdr) k = mems_live m k"
    if k: "unat k < length (mi_stMEMSZONE m)" "k \<noteq> zid" for k
  proof -
    have ne: "unat k \<noteq> unat zid" using k(2) by (simp add: word_unat_eq_iff)
    have "memszone_used hdr (mi_stMEMSZONE m ! unat k) = memszone_used (mi_hdr m) (mi_stMEMSZONE m ! unat k)"
      using assms(3) [OF k(1) ne] by (auto simp: memszone_used_def memszone_busy_def)
    then show ?thesis using ne by (simp add: mems_live_def)
  qed
  ultimately show ?thesis by (simp add: mems_frame_def)
qed

lemma mems_upd_other:
  assumes "mems_valid m zid" "q \<in> memszone_nodes (mi_stMEMSZONE m ! unat zid)"
    "j < length (mi_stMEMSZONE m)" "j \<noteq> unat zid"
  shows "q \<notin> memszone_nodes (mi_stMEMSZONE m ! j)"
  using assms memszone_nodes_disjoint [of m "unat zid" j q] by (simp add: mems_valid_def)

lemma mems_alloc_ok:
  assumes "mems_valid m zid" "uiSize \<le> mems_body m zid" "mems_live m zid \<noteq> mems_cells m zid"
  shows "\<exists>m' p. mems_alloc m uiSize zid now = Some (m', Some p) \<and> p \<in> mems_cells m zid - mems_live m zid \<and>
    mems_valid m' zid \<and> mems_live m' zid = insert p (mems_live m zid) \<and> mems_frame m m' zid"
proof -
  let ?z = "mi_stMEMSZONE m ! unat zid"
  have v: "mems_wf m" "unat zid < length (mi_stMEMSZONE m)" using assms(1) by (simp_all add: mems_valid_def)
  have sz: "uiSize \<le> mz_uiMemNodeBodySize ?z" using assms(2) by (simp add: mems_body_def)
  have room: "memszone_used (mi_hdr m) ?z \<noteq> memszone_nodes ?z" using assms(3) by (simp add: mems_cells_full)
  obtain q h f where r: "mems_alloc m uiSize zid now =
      Some (mems_put m (unat zid) (memszone_take ?z f) ((mi_hdr m)(q \<mapsto> mems_take_hdr h now)),
        Some (q + stMEMSNODEHDR_SIZE))"
    "q \<in> memszone_nodes ?z" "f \<in> memszone_nodes ?z" "mi_hdr m q = Some h" "mh_ucIsFree h = MEMS_FREE"
    using mems_alloc_free_node [OF v sz room, of now] by blast
  let ?m = "mems_put m (unat zid) (memszone_take ?z f) ((mi_hdr m)(q \<mapsto> mems_take_hdr h now))"
  have ok: "memszone_ok (mi_hdr m) j (mi_stMEMSZONE m ! j)" if "j < length (mi_stMEMSZONE m)" for j
    using v(1) that by (simp add: mems_wf_def)
  have other: "q \<notin> memszone_nodes (mi_stMEMSZONE m ! j)" if "j < length (mi_stMEMSZONE m)" "j \<noteq> unat zid" for j
    using mems_upd_other [OF assms(1) r(2) that] .
  have wf: "mems_wf ?m"
    by (rule mems_put_wf [OF v memszone_ok_take [OF ok [OF v(2)] r(2-5)]])
       (simp_all add: memszone_ok_other other ok)
  have fr: "mems_frame m ?m zid"
    by (rule mems_put_frame [OF assms(1)]) (simp, use other in fastforce)
  have "q + stMEMSNODEHDR_SIZE \<notin> mems_live m zid"
    using r(4,5) by (simp add: mems_live_mem memszone_used_def memszone_busy_def)
  moreover have "q + stMEMSNODEHDR_SIZE \<in> mems_cells m zid" using r(2) by (simp add: mems_cells_def)
  moreover have "mems_live ?m zid = insert (q + stMEMSNODEHDR_SIZE) (mems_live m zid)"
    using v(2) r(2) by (simp add: mems_live_def frame_simps memszone_used_take del: fun_upd_apply)
  ultimately show ?thesis using r(1) wf fr v(2) by (auto simp: mems_valid_def simp del: fun_upd_apply)
qed

lemma mems_alloc_full:
  assumes "mems_valid m zid" "uiSize \<le> mems_body m zid" "mems_live m zid = mems_cells m zid"
  shows "\<exists>m'. mems_alloc m uiSize zid now = Some (m', None) \<and>
    mems_valid m' zid \<and> mems_live m' zid = mems_live m zid \<and> mems_frame m m' zid"
proof -
  let ?z = "mi_stMEMSZONE m ! unat zid"
  have v: "mems_wf m" "unat zid < length (mi_stMEMSZONE m)" using assms(1) by (simp_all add: mems_valid_def)
  have sz: "uiSize \<le> mz_uiMemNodeBodySize ?z" using assms(2) by (simp add: mems_body_def)
  have full: "memszone_used (mi_hdr m) ?z = memszone_nodes ?z" using assms(3) by (simp add: mems_cells_full)
  obtain f where r: "mems_alloc m uiSize zid now =
      Some (mems_put m (unat zid) (?z\<lparr>mz_offsetFreeList := f\<rparr>) (mi_hdr m), None)" "f \<in> memszone_nodes ?z"
    using mems_alloc_no_node [OF v sz full, of now] by blast
  let ?m = "mems_put m (unat zid) (?z\<lparr>mz_offsetFreeList := f\<rparr>) (mi_hdr m)"
  have ok: "memszone_ok (mi_hdr m) j (mi_stMEMSZONE m ! j)" if "j < length (mi_stMEMSZONE m)" for j
    using v(1) that by (simp add: mems_wf_def)
  have geo: "memszone_geom (?z\<lparr>mz_offsetFreeList := f\<rparr>) = memszone_geom ?z" by simp
  have used: "memszone_used (mi_hdr m) (?z\<lparr>mz_offsetFreeList := f\<rparr>) = memszone_used (mi_hdr m) ?z"
    by (rule memszone_geom_nodes(4) [OF geo])
  have "memszone_ok (mi_hdr m) (unat zid) (?z\<lparr>mz_offsetFreeList := f\<rparr>)"
    using ok [OF v(2)] r(2) used
    by (auto simp: memszone_ok_def memszone_wf_def frame_simps)
  then have wf: "mems_wf ?m" by (rule mems_put_wf [OF v _ geo]) (simp add: ok)
  have fr: "mems_frame m ?m zid" by (rule mems_put_frame [OF assms(1) geo]) simp
  have "mems_live ?m zid = mems_live m zid" using v(2) used by (simp add: mems_live_def)
  then show ?thesis using r(1) wf fr v(2) by (auto simp: mems_valid_def)
qed

lemma mems_free_live:
  assumes "mems_valid m zid" "p \<in> mems_live m zid"
  shows "\<exists>m'. mems_free m p = Some (m', 0) \<and> mems_valid m' zid \<and>
    mems_live m' zid = mems_live m zid - {p} \<and> mems_frame m m' zid \<and>
    (\<forall>q. q \<noteq> p - stMEMSNODEHDR_SIZE \<longrightarrow> mi_hdr m' q = mi_hdr m q)"
proof -
  let ?z = "mi_stMEMSZONE m ! unat zid"
  let ?q = "p - stMEMSNODEHDR_SIZE"
  have v: "mems_wf m" "unat zid < length (mi_stMEMSZONE m)" using assms(1) by (simp_all add: mems_valid_def)
  have ok: "memszone_ok (mi_hdr m) j (mi_stMEMSZONE m ! j)" if "j < length (mi_stMEMSZONE m)" for j
    using v(1) that by (simp add: mems_wf_def)
  have used: "?q \<in> memszone_used (mi_hdr m) ?z" using assms(2) by (simp add: mems_live_iff)
  then have q: "?q \<in> memszone_nodes ?z" by (simp add: memszone_used_def)
  obtain h where h: "mi_hdr m ?q = Some h" "mh_ucIsFree h = MEMS_ALLOCED"
    using used by (auto simp: memszone_used_def memszone_busy_def)
  have "mems_hdr_ok (unat zid) h" using ok [OF v(2)] q h(1) by (auto simp: memszone_ok_def)
  then have hok: "mh_uiID h = MEMS_ID" "mh_uiZoneID h = zid" by (simp_all add: mems_hdr_ok_def)
  let ?h = "h\<lparr>mh_ucIsFree := MEMS_FREE\<rparr>"
  let ?z1 = "?z\<lparr>mz_delCnt := mz_delCnt ?z + 1\<rparr>"
  let ?m = "mems_put m (unat zid) ?z1 ((mi_hdr m)(?q \<mapsto> ?h))"
  have r: "mems_free m p = Some (?m, 0)"
    using h hok v(2) by (simp add: mems_free_def mems_zone_def mems_put_eq del: fun_upd_apply)
  have other: "?q \<notin> memszone_nodes (mi_stMEMSZONE m ! j)" if "j < length (mi_stMEMSZONE m)" "j \<noteq> unat zid" for j
    using mems_upd_other [OF assms(1) q that] .
  have geo: "memszone_geom ?z1 = memszone_geom ?z" by simp
  have wf: "mems_wf ?m"
    by (rule mems_put_wf [OF v memszone_ok_release [OF ok [OF v(2)] used h(1)] geo])
       (simp add: memszone_ok_other other ok)
  have fr: "mems_frame m ?m zid"
    by (rule mems_put_frame [OF assms(1) geo]) (use other in fastforce)
  have "mems_live ?m zid = (\<lambda>q. q + stMEMSNODEHDR_SIZE) ` (memszone_used (mi_hdr m) ?z - {?q})"
    using v(2) by (simp add: mems_live_def frame_simps memszone_used_release del: fun_upd_apply)
  also have "\<dots> = mems_live m zid - {p}" by (auto simp: mems_live_def)
  finally have live: "mems_live ?m zid = mems_live m zid - {p}" .
  have "\<forall>q. q \<noteq> ?q \<longrightarrow> mi_hdr ?m q = mi_hdr m q" by simp
  then show ?thesis using r wf fr v(2) live
    by (intro exI [of _ ?m]) (simp add: mems_valid_def del: fun_upd_apply mems_put_simps(1))
qed

lemma mems_free_dead:
  assumes "mems_valid m zid" "p \<in> mems_cells m zid - mems_live m zid"
  shows "mems_free m p = Some (m, 1)"
proof -
  let ?z = "mi_stMEMSZONE m ! unat zid"
  have "memszone_ok (mi_hdr m) (unat zid) ?z" using assms(1) by (simp add: mems_valid_def mems_wf_def)
  moreover have q: "p - stMEMSNODEHDR_SIZE \<in> memszone_nodes ?z" using assms(2) by (simp add: mems_cells_iff)
  ultimately obtain h where h: "mi_hdr m (p - stMEMSNODEHDR_SIZE) = Some h" by (auto simp: memszone_ok_def)
  then have "mh_ucIsFree h \<noteq> MEMS_ALLOCED"
    using assms(2) q by (auto simp: mems_live_iff memszone_used_def memszone_busy_def)
  then show ?thesis using h by (simp add: mems_free_def)
qed

interpretation mems_pool: node_pool
  "\<lambda>m. mems_valid m zid \<and> uiSize \<le> mems_body m zid"
  "\<lambda>m. mems_cells m zid" "\<lambda>m. mems_live m zid"
  "\<lambda>m. mems_alloc m uiSize zid now" mems_free
  for zid uiSize now
proof (unfold_locales, goal_cases)
  case (1 m)
  show ?case by simp
next
  case (2 m)
  show ?case by (rule mems_live_cells)
next
  case (3 m)
  then obtain m' p where r: "mems_alloc m uiSize zid now = Some (m', Some p)"
    "p \<in> mems_cells m zid - mems_live m zid" "mems_valid m' zid"
    "mems_live m' zid = insert p (mems_live m zid)" and fr: "mems_frame m m' zid"
    using mems_alloc_ok [of m zid uiSize now] by blast
  then show ?case using mems_valid_geom(1,3) [OF fr, of zid] 3 by (auto simp: mems_valid_def)
next
  case (4 m)
  then obtain m' where r: "mems_alloc m uiSize zid now = Some (m', None)" "mems_valid m' zid"
    "mems_live m' zid = mems_live m zid" and fr: "mems_frame m m' zid"
    using mems_alloc_full [of m zid uiSize now] by blast
  then show ?case using mems_valid_geom(1,3) [OF fr, of zid] 4 by (auto simp: mems_valid_def)
next
  case (5 m p)
  then obtain m' where r: "mems_free m p = Some (m', 0)" "mems_valid m' zid"
    "mems_live m' zid = mems_live m zid - {p}" and fr: "mems_frame m m' zid"
    using mems_free_live [of m zid p] by blast
  then show ?case using mems_valid_geom(1,3) [OF fr, of zid] 5 by (auto simp: mems_valid_def)
next
  case (6 m p)
  then show ?case using mems_free_dead [of m zid p] by simp
qed

text \<open>Two distinct nodes of the block, in whatever zones, do not overlap.\<close>

lemma mems_cells_apart:
  assumes "mems_wf m" "unat i < length (mi_stMEMSZONE m)" "unat j < length (mi_stMEMSZONE m)"
    "p \<in> mems_cells m i" "q \<in> mems_cells m j" "p \<noteq> q"
  shows "p + uint (mems_body m i) + stMEMSNODEHDR_SIZE \<le> q \<or> q + uint (mems_body m j) + stMEMSNODEHDR_SIZE \<le> p"
proof -
  let ?p = "p - stMEMSNODEHDR_SIZE" and ?q = "q - stMEMSNODEHDR_SIZE"
  have pq: "?p \<in> memszone_nodes (mi_stMEMSZONE m ! unat i)" "?q \<in> memszone_nodes (mi_stMEMSZONE m ! unat j)"
    using assms(4,5) by (simp_all add: mems_cells_iff)
  have stride: "memszone_stride (mi_stMEMSZONE m ! unat k) = stMEMSNODEHDR_SIZE + uint (mems_body m k)" for k
    by (simp add: memszone_stride_def mems_body_def)
  consider "unat i < unat j" | "unat j < unat i" | "unat i = unat j" by linarith
  then show ?thesis
  proof cases
    case 1
    from memszone_apart [OF assms(1-3) 1 pq] show ?thesis by (simp add: stride algebra_simps)
  next
    case 2
    from memszone_apart [OF assms(1,3,2) 2 pq(2,1)] show ?thesis by (simp add: stride algebra_simps)
  next
    case 3
    then have ij: "i = j" by (simp add: word_unat_eq_iff)
    consider "?p < ?q" | "?q < ?p" using assms(6) by linarith
    then show ?thesis
    proof cases
      case 1
      from slots_distinct_distance [OF memszone_stride_pos pq [unfolded memszone_nodes_def ij] 1]
      show ?thesis by (simp add: stride ij algebra_simps)
    next
      case 2
      from slots_distinct_distance [OF memszone_stride_pos pq(2,1) [unfolded memszone_nodes_def ij] 2]
      show ?thesis by (simp add: stride ij algebra_simps)
    qed
  qed
qed

lemma mems_cells_zone:
  assumes "mems_wf m" "unat i < length (mi_stMEMSZONE m)" "unat j < length (mi_stMEMSZONE m)" "p \<in> mems_cells m i" "p \<in> mems_cells m j"
  shows "i = j"
proof -
  let ?p = "p - stMEMSNODEHDR_SIZE"
  have pq: "?p \<in> memszone_nodes (mi_stMEMSZONE m ! unat i)" "?p \<in> memszone_nodes (mi_stMEMSZONE m ! unat j)"
    using assms(4,5) by (simp_all add: mems_cells_iff)
  have "\<not> unat i < unat j"
    using memszone_apart [OF assms(1-3) _ pq] memszone_stride_pos [of "mi_stMEMSZONE m ! unat i"] by auto
  moreover have "\<not> unat j < unat i"
    using memszone_apart [OF assms(1,3,2) _ pq(2,1)] memszone_stride_pos [of "mi_stMEMSZONE m ! unat j"] by auto
  ultimately show ?thesis by (simp add: word_unat_eq_iff)
qed

section \<open>The number of nodes in use\<close>

lemma mems_count_loop_card:
  assumes "\<And>j. j < i + left \<Longrightarrow> hdr (slot_at base sz j) \<noteq> None"
  shows "mems_count_loop hdr base sz i left cnt =
    Some (cnt + int (card {j. i \<le> j \<and> j < i + left \<and> memszone_busy hdr (slot_at base sz j)}))"
  using assms
proof (induction left arbitrary: i cnt)
  case 0
  have "{j. i \<le> j \<and> j < i + 0 \<and> memszone_busy hdr (slot_at base sz j)} = {}" by auto
  then show ?case by simp
next
  case (Suc left)
  let ?S = "\<lambda>i left. {j. i \<le> j \<and> j < i + left \<and> memszone_busy hdr (slot_at base sz j)}"
  obtain h where h: "hdr (slot_at base sz i) = Some h" using Suc.prems [of i] by auto
  have fin: "finite (?S (Suc i) left)" by (rule finite_subset [of _ "{..<Suc i + left}"]) auto
  have split: "?S i (Suc left) = (if mh_ucIsFree h = MEMS_ALLOCED then insert i (?S (Suc i) left) else ?S (Suc i) left)"
    using h by (auto simp: memszone_busy_def Suc_le_eq le_less)
  have "i \<notin> ?S (Suc i) left" by simp
  then have card: "card (?S i (Suc left)) = (if mh_ucIsFree h = MEMS_ALLOCED then 1 else 0) + card (?S (Suc i) left)"
    using fin split by simp
  have pre: "\<And>j. j < Suc i + left \<Longrightarrow> hdr (slot_at base sz j) \<noteq> None" using Suc.prems by simp
  show ?case using h Suc.IH [OF pre] card by simp
qed

lemma mems_alloced_cnt_card:
  assumes "mems_valid m zid"
  shows "mems_alloced_cnt m zid = Some (int (card (mems_live m zid)))"
proof -
  let ?z = "mi_stMEMSZONE m ! unat zid"
  let ?at = "slot_at (mz_offsetNodeStart ?z) (memszone_stride ?z)"
  let ?n = "unat (mz_uiMemNodeTotCnt ?z)"
  have ok: "memszone_ok (mi_hdr m) (unat zid) ?z" using assms by (simp add: mems_valid_def mems_wf_def)
  have "mi_hdr m (?at j) \<noteq> None" if "j < 0 + ?n" for j
  proof -
    have "?at j \<in> memszone_nodes ?z" using that by (simp add: memszone_nodes_def)
    then show ?thesis using ok by (auto simp: memszone_ok_def)
  qed
  note loop = mems_count_loop_card [of 0 ?n "mi_hdr m" "mz_offsetNodeStart ?z" "memszone_stride ?z" 0, OF this]
  have img: "memszone_used (mi_hdr m) ?z = ?at ` {j. j < ?n \<and> memszone_busy (mi_hdr m) (?at j)}"
    by (auto simp: memszone_used_def memszone_nodes_def slots_def)
  have "card (memszone_used (mi_hdr m) ?z) = card {j. j < ?n \<and> memszone_busy (mi_hdr m) (?at j)}"
    unfolding img by (rule card_image) (simp add: inj_on_def slot_at_inj)
  then show ?thesis using loop assms
    by (simp add: mems_alloced_cnt_def mems_zone_def mems_valid_def mems_live_card)
qed

section \<open>A fresh block\<close>

definition memszone_built :: "memszoneconf \<Rightarrow> memszone \<Rightarrow> bool" where
  "memszone_built c z \<longleftrightarrow> mz_uiZoneID z = zc_uiZoneID c \<and> mz_uiMemNodeBodySize z = zc_uiMemNodeBodySize c \<and>
     mz_uiMemNodeTotCnt z = zc_uiMemNodeTotCnt c \<and> mz_offsetFreeList z = mz_offsetNodeStart z \<and>
     mz_offsetNodeEnd z = mz_offsetNodeStart z + zoneconf_size c \<and> mz_createCnt z = 0 \<and> mz_delCnt z = 0"

text \<open>The semaphore a zone asks for can be had and is not held.\<close>

definition mems_sem_had :: "mems_os \<Rightarrow> memszoneconf \<Rightarrow> bool" where
  "mems_sem_had os c \<longleftrightarrow> (zc_uiSemFlag c = MEMS_SEMA_ON \<longrightarrow>
     (case ms_semget os (zc_uiSemKey c) of
        SemCreated s \<Rightarrow> s \<noteq> -1 \<and> ms_setval os s
      | SemExists s \<Rightarrow> s \<noteq> -1 \<and> 0 < ms_sem os s
      | SemError \<Rightarrow> False))"

lemma zoneconf_size_nonneg: "0 \<le> zoneconf_size c"
  by (simp add: zoneconf_size_def mems_const_defs)

lemma mems_sem_init_had:
  assumes "mems_sem_had os c" "\<And>s. 0 < ms_sem os s \<Longrightarrow> 0 < sem s"
  shows "\<exists>semid sem'. mems_sem_init (ms_semget os) (ms_setval os) sem (zc_uiSemKey c) (zc_uiSemFlag c) =
      Some (semid, sem') \<and> (\<forall>s. 0 < sem s \<longrightarrow> 0 < sem' s) \<and>
      (zc_uiSemFlag c = MEMS_SEMA_ON \<longrightarrow> 0 < sem' semid)"
  using assms by (auto simp: mems_sem_init_def mems_sem_had_def split: sem_answer.splits)

lemma mems_init_zones_built:
  assumes "\<forall>c \<in> set cs. mems_sem_had os c" "\<And>s. 0 < ms_sem os s \<Longrightarrow> 0 < sem s"
  shows "\<exists>zs sem'. mems_init_zones (ms_semget os) (ms_setval os) sem start cs = Some (zs, sem') \<and>
    list_all2 memszone_built cs zs \<and> mems_ordered zs \<and> (\<forall>z \<in> set zs. start \<le> mz_offsetNodeStart z) \<and>
    (\<forall>z \<in> set zs. mems_sem_free sem' z) \<and> (\<forall>s. 0 < sem s \<longrightarrow> 0 < sem' s)"
  using assms
proof (induction cs arbitrary: sem start)
  case Nil
  then show ?case by (simp add: mems_ordered_def)
next
  case (Cons c cs)
  have had: "mems_sem_had os c" "\<forall>c \<in> set cs. mems_sem_had os c" using Cons.prems(1) by simp_all
  obtain semid sem1 where s1: "mems_sem_init (ms_semget os) (ms_setval os) sem (zc_uiSemKey c) (zc_uiSemFlag c) =
      Some (semid, sem1)" "\<And>s. 0 < sem s \<Longrightarrow> 0 < sem1 s" "zc_uiSemFlag c = MEMS_SEMA_ON \<Longrightarrow> 0 < sem1 semid"
    using mems_sem_init_had [OF had(1), where sem = sem] Cons.prems(2) by blast
  have pos: "\<And>s. 0 < ms_sem os s \<Longrightarrow> 0 < sem1 s" using Cons.prems(2) s1(2) by blast
  obtain zs sem2 where z: "mems_init_zones (ms_semget os) (ms_setval os) sem1 (start + zoneconf_size c) cs =
      Some (zs, sem2)" "list_all2 memszone_built cs zs" "mems_ordered zs"
    "\<And>z. z \<in> set zs \<Longrightarrow> start + zoneconf_size c \<le> mz_offsetNodeStart z"
    "\<And>z. z \<in> set zs \<Longrightarrow> mems_sem_free sem2 z" "\<And>s. 0 < sem1 s \<Longrightarrow> 0 < sem2 s"
    using Cons.IH [OF had(2), where sem = sem1 and start = "start + zoneconf_size c"] pos by blast
  define z0 where "z0 = \<lparr>mz_uiSemFlag = zc_uiSemFlag c, mz_uiSemKey = zc_uiSemKey c, mz_iSemID = semid,
            mz_uiZoneID = zc_uiZoneID c, mz_uiMemNodeBodySize = zc_uiMemNodeBodySize c,
            mz_uiMemNodeAllocedCnt = 0, mz_uiMemNodeTotCnt = zc_uiMemNodeTotCnt c,
            mz_offsetNodeStart = start, mz_offsetFreeList = start,
            mz_offsetNodeEnd = start + zoneconf_size c, mz_createCnt = 0, mz_delCnt = 0\<rparr>"
  have "mems_init_zones (ms_semget os) (ms_setval os) sem start (c # cs) = Some (z0 # zs, sem2)"
    using s1(1) z(1) by (simp add: z0_def Let_def)
  moreover have "memszone_built c z0" by (simp add: memszone_built_def z0_def)
  moreover have "mems_ordered (z0 # zs)" using z(3,4) by (simp add: mems_ordered_def z0_def)
  moreover have "start \<le> mz_offsetNodeStart z0" by (simp add: z0_def)
  moreover have "start \<le> mz_offsetNodeStart z" if "z \<in> set zs" for z
    using z(4) [OF that] zoneconf_size_nonneg [of c] by linarith
  moreover have "mems_sem_free sem2 z0" using s1(3) z(6) by (simp add: mems_sem_free_def z0_def)
  ultimately show ?case using z(2,5,6) s1(2) by (intro exI [of _ "z0 # zs"] exI [of _ sem2]) auto
qed

lemma memszone_built_wf:
  assumes "memszone_built c z" "zc_uiMemNodeTotCnt c \<noteq> 0"
  shows "memszone_wf z"
proof -
  have tot: "0 < unat (mz_uiMemNodeTotCnt z)" using assms by (simp add: memszone_built_def unat_gt_0)
  have "zoneconf_size c = int (unat (mz_uiMemNodeTotCnt z)) * memszone_stride z"
    using assms(1) by (simp add: memszone_built_def zoneconf_size_def memszone_stride_def)
  then have "mz_offsetNodeEnd z =
      slot_at (mz_offsetNodeStart z) (memszone_stride z) (unat (mz_uiMemNodeTotCnt z))"
    using assms(1) by (simp add: memszone_built_def slot_at_def)
  moreover have "slot_at (mz_offsetNodeStart z) (memszone_stride z) 0 \<in> memszone_nodes z"
    unfolding memszone_nodes_def by (rule slot_in_slots [OF tot])
  ultimately show ?thesis using tot assms(1) by (simp add: memszone_wf_def memszone_built_def)
qed

lemma mems_init_nodes_eq:
  "mems_init_nodes z h n q = (if q \<in> slots (mz_offsetNodeStart z) (memszone_stride z) n
     then Some (mems_free_hdr (mz_uiZoneID z)) else h q)"
  by (induction n) (auto simp: slots_Suc)

lemma mems_init_hdrs_out: "(\<And>z. z \<in> set zs \<Longrightarrow> q \<notin> memszone_nodes z) \<Longrightarrow> mems_init_hdrs zs h q = h q"
  by (induction zs arbitrary: h) (auto simp: mems_init_nodes_eq memszone_nodes_def)

lemma mems_init_hdrs_in:
  assumes "i < length zs" "q \<in> memszone_nodes (zs ! i)"
    "\<And>j. i < j \<Longrightarrow> j < length zs \<Longrightarrow> q \<notin> memszone_nodes (zs ! j)"
  shows "mems_init_hdrs zs h q = Some (mems_free_hdr (mz_uiZoneID (zs ! i)))"
  using assms
proof (induction zs arbitrary: i h)
  case Nil
  then show ?case by simp
next
  case (Cons z zs)
  show ?case
  proof (cases i)
    case 0
    have "q \<notin> memszone_nodes y" if y: "y \<in> set zs" for y
    proof -
      obtain j where j: "j < length zs" "y = zs ! j" using y by (auto simp: in_set_conv_nth)
      show ?thesis using Cons.prems(3) [of "Suc j"] j 0 by simp
    qed
    then show ?thesis using Cons.prems(2) 0
      by (simp add: mems_init_hdrs_out mems_init_nodes_eq memszone_nodes_def)
  next
    case (Suc k)
    show ?thesis unfolding mems_init_hdrs.simps
      using Cons.IH [of k] Cons.prems(1,2) Cons.prems(3) [of "Suc j" for j] Suc by simp
  qed
qed

text \<open>A configuration that gives every zone its own index and at least one node.\<close>

definition memsconf_ok :: "mems_os \<Rightarrow> memsconf \<Rightarrow> bool" where
  "memsconf_ok os conf \<longleftrightarrow> length (mc_stMEMSZONECONF conf) = unat (mc_uiZoneCnt conf) \<and>
     mems_total_size conf \<le> MEMS_SHM_SIZE \<and>
     (\<forall>i < length (mc_stMEMSZONECONF conf). zc_uiZoneID (mc_stMEMSZONECONF conf ! i) = of_nat i \<and>
        zc_uiMemNodeTotCnt (mc_stMEMSZONECONF conf ! i) \<noteq> 0) \<and>
     (\<forall>c \<in> set (mc_stMEMSZONECONF conf). mems_sem_had os c)"

lemma mems_ordered_apart:
  assumes "mems_ordered zs" "i < length zs" "j < length zs" "i < j" "memszone_wf (zs ! i)" "memszone_wf (zs ! j)"
    "q \<in> memszone_nodes (zs ! i)"
  shows "q \<notin> memszone_nodes (zs ! j)"
proof
  assume q: "q \<in> memszone_nodes (zs ! j)"
  have "mz_offsetNodeEnd (zs ! i) \<le> mz_offsetNodeStart (zs ! j)"
    using assms(1,3,4) by (simp add: mems_ordered_def sorted_wrt_iff_nth_less)
  with memszone_node_range [OF assms(5,7)] memszone_node_range [OF assms(6) q]
  show False using memszone_stride_pos [of "zs ! i"] by linarith
qed

lemma mems_fresh_wf:
  assumes "memsconf_ok os conf"
  shows "\<exists>m. mems_fresh os conf = Some m \<and> mems_wf m \<and>
    (\<forall>zid. unat zid < length (mi_stMEMSZONE m) \<longrightarrow> mems_live m zid = {}) \<and>
    mi_uiZoneCnt m = mc_uiZoneCnt conf \<and> dom (mi_hdr m) = (\<Union>z \<in> set (mi_stMEMSZONE m). memszone_nodes z) \<and>
    list_all2 memszone_built (mc_stMEMSZONECONF conf) (mi_stMEMSZONE m)"
proof -
  let ?cs = "mc_stMEMSZONECONF conf"
  have cs: "take (unat (mc_uiZoneCnt conf)) ?cs = ?cs" using assms by (simp add: memsconf_ok_def)
  have had: "\<forall>c \<in> set ?cs. mems_sem_had os c" using assms by (simp add: memsconf_ok_def)
  obtain zs sem where z: "mems_init_zones (ms_semget os) (ms_setval os) (ms_sem os)
      (stMEMSINFO_SIZE + uint (mc_uiHeadRoomSize conf)) ?cs = Some (zs, sem)"
    "list_all2 memszone_built ?cs zs" "mems_ordered zs" "\<forall>z \<in> set zs. mems_sem_free sem z"
    using mems_init_zones_built [OF had, where sem = "ms_sem os" and
        start = "stMEMSINFO_SIZE + uint (mc_uiHeadRoomSize conf)"] by blast
  have len: "length zs = length ?cs" using list_all2_lengthD [OF z(2)] by simp
  have built: "memszone_built (?cs ! i) (zs ! i)" if "i < length zs" for i
    using list_all2_nthD2 [OF z(2) that] .
  have wfz: "memszone_wf (zs ! i)" if "i < length zs" for i
    using memszone_built_wf [OF built [OF that]] assms that len by (simp add: memsconf_ok_def)
  let ?h = "mems_init_hdrs zs Map.empty"
  have hdr: "?h q = Some (mems_free_hdr (of_nat i))" if "i < length zs" "q \<in> memszone_nodes (zs ! i)" for i q
  proof -
    have "q \<notin> memszone_nodes (zs ! j)" if j: "i < j" "j < length zs" for j
      using mems_ordered_apart [OF z(3) \<open>i < length zs\<close> j(2,1) wfz wfz] j(2) that \<open>i < length zs\<close>
        \<open>q \<in> memszone_nodes (zs ! i)\<close> by blast
    then have "?h q = Some (mems_free_hdr (mz_uiZoneID (zs ! i)))" using mems_init_hdrs_in that by blast
    moreover have "mz_uiZoneID (zs ! i) = of_nat i"
      using built [OF that(1)] assms that(1) len by (simp add: memszone_built_def memsconf_ok_def)
    ultimately show ?thesis by simp
  qed
  have used: "memszone_used ?h (zs ! i) = {}" if "i < length zs" for i
    using hdr [OF that] by (auto simp: memszone_used_def memszone_busy_def mems_free_hdr_def)
  have ok: "memszone_ok ?h i (zs ! i)" if "i < length zs" for i
    using wfz [OF that] hdr [OF that] used [OF that] built [OF that]
    by (simp add: memszone_ok_def memszone_built_def mems_hdr_ok_def mems_free_hdr_def)
  have dom: "dom ?h = (\<Union>z \<in> set zs. memszone_nodes z)"
  proof (rule set_eqI)
    fix q
    show "q \<in> dom ?h \<longleftrightarrow> q \<in> (\<Union>z \<in> set zs. memszone_nodes z)"
    proof (cases "\<exists>z \<in> set zs. q \<in> memszone_nodes z")
      case True
      then obtain i where i: "i < length zs" "q \<in> memszone_nodes (zs ! i)" by (auto simp: in_set_conv_nth)
      then have "q \<in> dom ?h" using hdr [OF i] by (simp add: domIff)
      then show ?thesis using True by blast
    next
      case False
      then have "?h q = None" using mems_init_hdrs_out [of zs q Map.empty] by auto
      then show ?thesis using False by (auto simp: domIff)
    qed
  qed
  define m where "m = \<lparr>mi_uiType = mc_uiType conf, mi_uiShmKey = mc_uiShmKey conf,
           mi_uiTotMemSize = mems_total_size conf, mi_uiHeadRoomSize = mc_uiHeadRoomSize conf,
           mi_uiMemNodeHdrSize = word_of_int stMEMSNODEHDR_SIZE,
           mi_offsetHeadRoom = stMEMSINFO_SIZE, mi_uiZoneCnt = mc_uiZoneCnt conf,
           mi_stMEMSZONE = zs, mi_uiMatrixZoneID = mc_uiMatrixZoneID conf,
           mi_hdr = ?h, mi_sem = sem\<rparr>"
  have "mems_fresh os conf = Some m" by (simp add: mems_fresh_def cs z(1) m_def)
  moreover have "mems_wf m"
    using z(3,4) ok len assms by (simp add: mems_wf_def m_def memsconf_ok_def)
  moreover have "mems_live m zid = {}" if "unat zid < length zs" for zid
    using used [OF that] by (simp add: mems_live_def m_def)
  ultimately show ?thesis using z(2) dom by (intro exI [of _ m]) (simp add: m_def)
qed

end
