(* ===== verification/MemsGc.thy ===== *)
theory MemsGc
  imports MemsProps
begin

text \<open>
  The garbage collector of \<open>mems.c\<close> and the properties of the zoned pools.
\<close>

section \<open>Collection\<close>

lemma mems_frame_refl [simp]: "mems_frame m m zid"
  by (simp add: mems_frame_def)

lemma mems_frame_trans:
  assumes "mems_frame a b zid" "mems_frame b c zid"
  shows "mems_frame a c zid"
  using assms mems_valid_geom(2) [OF assms(1)] by (simp add: mems_frame_def)

lemma memszone_geom_fields:
  "memszone_geom a = memszone_geom b \<Longrightarrow> mz_offsetNodeStart a = mz_offsetNodeStart b"
  "memszone_geom a = memszone_geom b \<Longrightarrow> mz_uiMemNodeTotCnt a = mz_uiMemNodeTotCnt b"
  by (simp_all add: memszone_geom_def)

text \<open>The header at \<open>q\<close> is one that the collector releases.\<close>

definition mems_due :: "mems \<Rightarrow> int \<Rightarrow> int \<Rightarrow> offset \<Rightarrow> bool" where
  "mems_due m timegap now q \<longleftrightarrow> (\<exists>h. mi_hdr m q = Some h \<and> mems_gc_due h timegap now)"

text \<open>The bytes that are no header can be read and are never taken for a node in use.\<close>

definition mems_raw_quiet :: "mems_raw \<Rightarrow> bool" where
  "mems_raw_quiet raw \<longleftrightarrow>
     (\<forall>m q. \<exists>h. raw m q = Some h \<and> (mh_ucIsFree h = MEMS_ALLOCED \<longrightarrow> mh_uiID h \<noteq> MEMS_ID))"

definition mems_visitable :: "mems_raw \<Rightarrow> mems \<Rightarrow> offset \<Rightarrow> bool" where
  "mems_visitable raw m q \<longleftrightarrow>
     (\<exists>k < length (mi_stMEMSZONE m). q \<in> memszone_nodes (mi_stMEMSZONE m ! k)) \<or>
     mi_hdr m q = None \<and> mems_raw_quiet raw"

text \<open>\<open>m'\<close> is \<open>m\<close> after the collector has looked at the addresses \<open>V\<close>.\<close>

definition mems_swept :: "int \<Rightarrow> int \<Rightarrow> mems \<Rightarrow> offset set \<Rightarrow> mems \<Rightarrow> bool" where
  "mems_swept timegap now m V m' \<longleftrightarrow> mems_wf m' \<and> mi_uiZoneCnt m' = mi_uiZoneCnt m \<and>
     map memszone_geom (mi_stMEMSZONE m') = map memszone_geom (mi_stMEMSZONE m) \<and>
     dom (mi_hdr m') = dom (mi_hdr m) \<and>
     (\<forall>k. unat k < length (mi_stMEMSZONE m) \<longrightarrow> mems_live m' k =
        {p \<in> mems_live m k. \<not> (p - stMEMSNODEHDR_SIZE \<in> V \<and> mems_due m timegap now (p - stMEMSNODEHDR_SIZE))}) \<and>
     (\<forall>q. mi_hdr m' q = mi_hdr m q \<or> q \<in> V \<and> mems_due m timegap now q)"

lemma mems_index:
  assumes "mems_wf m" "k < length (mi_stMEMSZONE m)"
  shows "unat (of_nat k :: u32) = k"
proof -
  have "length (mi_stMEMSZONE m) = unat (mi_uiZoneCnt m)" using assms(1) by (simp add: mems_wf_def)
  moreover have "unat (mi_uiZoneCnt m) < 2 ^ LENGTH(32)" by (rule unsigned_less)
  ultimately have "k < 2 ^ LENGTH(32)" using assms(2) by linarith
  then show ?thesis by (simp add: unat_of_nat)
qed

lemma mems_swept_refl: "mems_wf m \<Longrightarrow> mems_swept timegap now m {} m"
  by (simp add: mems_swept_def)

lemma mems_swept_len: "mems_swept timegap now m V m' \<Longrightarrow> length (mi_stMEMSZONE m') = length (mi_stMEMSZONE m)"
  unfolding mems_swept_def by (meson map_eq_imp_length_eq)

lemma mems_swept_geom:
  assumes "mems_swept timegap now m V m'" "k < length (mi_stMEMSZONE m)"
  shows "memszone_geom (mi_stMEMSZONE m' ! k) = memszone_geom (mi_stMEMSZONE m ! k)"
proof -
  have "map memszone_geom (mi_stMEMSZONE m') ! k = map memszone_geom (mi_stMEMSZONE m) ! k"
    using assms(1) by (simp add: mems_swept_def)
  then show ?thesis using assms(2) mems_swept_len [OF assms(1)] by simp
qed

lemma mems_swept_trans:
  assumes a: "mems_swept timegap now m V m1" and b: "mems_swept timegap now m1 W m2"
  shows "mems_swept timegap now m (V \<union> W) m2"
proof -
  let ?due = "mems_due m timegap now" and ?h = "\<lambda>p. p - stMEMSNODEHDR_SIZE"
  have same: "mi_hdr m1 q = mi_hdr m q" if "\<not> (q \<in> V \<and> ?due q)" for q
    using a that by (auto simp: mems_swept_def)
  have due: "mems_due m1 timegap now q = ?due q" if "\<not> (q \<in> V \<and> ?due q)" for q
    using same [OF that] by (simp add: mems_due_def)
  have "mems_live m2 k = {p \<in> mems_live m k. \<not> (?h p \<in> V \<union> W \<and> ?due (?h p))}"
    if k: "unat k < length (mi_stMEMSZONE m)" for k
  proof (rule set_eqI)
    fix p
    have 1: "mems_live m1 k = {p \<in> mems_live m k. \<not> (?h p \<in> V \<and> ?due (?h p))}"
      using a k by (simp add: mems_swept_def)
    have 2: "mems_live m2 k = {p \<in> mems_live m1 k. \<not> (?h p \<in> W \<and> mems_due m1 timegap now (?h p))}"
      using b k mems_swept_len [OF a] by (simp add: mems_swept_def)
    show "p \<in> mems_live m2 k \<longleftrightarrow> p \<in> {p \<in> mems_live m k. \<not> (?h p \<in> V \<union> W \<and> ?due (?h p))}"
    proof (cases "?h p \<in> V \<and> ?due (?h p)")
      case True
      then show ?thesis unfolding 1 2 by simp
    next
      case False
      then show ?thesis unfolding 1 2 using due [OF False] by auto
    qed
  qed
  moreover have "mi_hdr m2 q = mi_hdr m q \<or> q \<in> V \<union> W \<and> ?due q" for q
    using b same due unfolding mems_swept_def by (metis UnCI)
  ultimately show ?thesis using a b by (simp add: mems_swept_def)
qed

lemma mems_visitable_swept:
  assumes "mems_swept timegap now m V m'" "mems_visitable raw m q"
  shows "mems_visitable raw m' q"
proof -
  have "mi_hdr m' q = None \<longleftrightarrow> mi_hdr m q = None" using assms(1) unfolding mems_swept_def by (metis domIff)
  moreover have "memszone_nodes (mi_stMEMSZONE m' ! k) = memszone_nodes (mi_stMEMSZONE m ! k)"
    if "k < length (mi_stMEMSZONE m)" for k
    by (rule memszone_geom_nodes(1) [OF mems_swept_geom [OF assms(1) that]])
  ultimately show ?thesis using assms(2) mems_swept_len [OF assms(1)] by (auto simp: mems_visitable_def)
qed

text \<open>One address: a node that is due is released, anything else stays.\<close>

lemma mems_gc_node_release:
  assumes "mems_wf m" "k < length (mi_stMEMSZONE m)" "q \<in> memszone_nodes (mi_stMEMSZONE m ! k)"
    "mi_hdr m q = Some h" "mems_gc_due h timegap now"
  shows "\<exists>m'. mems_gc_node raw m q timegap now = Some m' \<and> mems_swept timegap now m {q} m'"
proof -
  let ?k = "of_nat k :: u32"
  have k: "unat ?k = k" by (rule mems_index [OF assms(1,2)])
  have v: "mems_valid m ?k" using assms(1,2) k by (simp add: mems_valid_def)
  have used: "q \<in> memszone_used (mi_hdr m) (mi_stMEMSZONE m ! k)"
    using assms(3-5) by (simp add: memszone_used_def memszone_busy_def mems_gc_due_def)
  then have live: "q + stMEMSNODEHDR_SIZE \<in> mems_live m ?k" using k by (simp add: mems_live_mem)
  from mems_free_live [OF v live] obtain m' where m':
    "mems_free m (q + stMEMSNODEHDR_SIZE) = Some (m', 0)" "mems_valid m' ?k"
    "mems_live m' ?k = mems_live m ?k - {q + stMEMSNODEHDR_SIZE}" "mems_frame m m' ?k"
    "\<forall>r. r \<noteq> q \<longrightarrow> mi_hdr m' r = mi_hdr m r" by auto
  have due: "mems_due m timegap now q" using assms(4,5) by (simp add: mems_due_def)
  have len': "length (mi_stMEMSZONE m') = length (mi_stMEMSZONE m)" by (rule mems_valid_geom(2) [OF m'(4)])
  have "memszone_nodes (mi_stMEMSZONE m' ! k) = memszone_nodes (mi_stMEMSZONE m ! k)"
    using m'(4) assms(2) len' unfolding mems_frame_def by (metis memszone_geom_nodes(1) nth_map)
  moreover have "memszone_ok (mi_hdr m') k (mi_stMEMSZONE m' ! k)"
    using m'(2) k by (simp add: mems_valid_def mems_wf_def)
  ultimately have "mi_hdr m' q \<noteq> None" using assms(3) by (auto simp: memszone_ok_def)
  then have dom: "dom (mi_hdr m') = dom (mi_hdr m)" using m'(5) assms(4) by (auto simp: domIff)
  have live': "mems_live m' j = {p \<in> mems_live m j. \<not> (p - stMEMSNODEHDR_SIZE \<in> {q} \<and>
      mems_due m timegap now (p - stMEMSNODEHDR_SIZE))}" if j: "unat j < length (mi_stMEMSZONE m)" for j
  proof (cases "j = ?k")
    case True
    have "(p - stMEMSNODEHDR_SIZE \<in> {q} \<and> mems_due m timegap now (p - stMEMSNODEHDR_SIZE)) \<longleftrightarrow>
        p = q + stMEMSNODEHDR_SIZE" for p
    proof (cases "p = q + stMEMSNODEHDR_SIZE")
      case True
      then show ?thesis using due by simp
    next
      case False
      then have "p - stMEMSNODEHDR_SIZE \<noteq> q" by linarith
      then show ?thesis using False by simp
    qed
    then show ?thesis unfolding True m'(3) by blast
  next
    case False
    then have "mems_live m' j = mems_live m j" using m'(4) j by (simp add: mems_frame_def)
    moreover have "q + stMEMSNODEHDR_SIZE \<notin> mems_live m j"
    proof
      assume "q + stMEMSNODEHDR_SIZE \<in> mems_live m j"
      then have "q + stMEMSNODEHDR_SIZE \<in> mems_cells m j" using mems_live_cells by blast
      moreover have "q + stMEMSNODEHDR_SIZE \<in> mems_cells m ?k" using live mems_live_cells by blast
      moreover have "unat ?k < length (mi_stMEMSZONE m)" using k assms(2) by simp
      ultimately show False using mems_cells_zone [OF assms(1) _ j, of ?k] False by blast
    qed
    then have "p - stMEMSNODEHDR_SIZE \<noteq> q" if "p \<in> mems_live m j" for p using that by auto
    ultimately show ?thesis by auto
  qed
  have hdr': "mi_hdr m' r = mi_hdr m r \<or> r \<in> {q} \<and> mems_due m timegap now r" for r
    using m'(5) due by (cases "r = q") simp_all
  have wf': "mems_wf m'" using m'(2) by (simp add: mems_valid_def)
  have layout: "mi_uiZoneCnt m' = mi_uiZoneCnt m"
    "map memszone_geom (mi_stMEMSZONE m') = map memszone_geom (mi_stMEMSZONE m)"
    using m'(4) by (simp_all add: mems_frame_def)
  have "mems_swept timegap now m {q} m'"
    unfolding mems_swept_def by (intro conjI allI impI wf' layout dom live' hdr')
  moreover have "mems_gc_node raw m q timegap now = Some m'"
    using assms(4,5) m'(1) by (simp add: mems_gc_node_def)
  ultimately show ?thesis by blast
qed

lemma mems_gc_node_ok:
  assumes "mems_wf m" "mems_visitable raw m q"
  shows "\<exists>m'. mems_gc_node raw m q timegap now = Some m' \<and> mems_swept timegap now m {q} m'"
proof (cases "mems_due m timegap now q")
  case True
  then obtain h where h: "mi_hdr m q = Some h" "mems_gc_due h timegap now" by (auto simp: mems_due_def)
  with assms(2) obtain k where "k < length (mi_stMEMSZONE m)" "q \<in> memszone_nodes (mi_stMEMSZONE m ! k)"
    by (auto simp: mems_visitable_def)
  from mems_gc_node_release [OF assms(1) this h] show ?thesis .
next
  case False
  have "mems_gc_node raw m q timegap now = Some m"
  proof (cases "mi_hdr m q")
    case None
    have "mi_hdr m q \<noteq> None" if "k < length (mi_stMEMSZONE m)" "q \<in> memszone_nodes (mi_stMEMSZONE m ! k)" for k
    proof -
      have "memszone_ok (mi_hdr m) k (mi_stMEMSZONE m ! k)" using assms(1) that(1) by (simp add: mems_wf_def)
      then show ?thesis using that(2) by (auto simp: memszone_ok_def)
    qed
    with None have "\<nexists>k. k < length (mi_stMEMSZONE m) \<and> q \<in> memszone_nodes (mi_stMEMSZONE m ! k)" by blast
    then have "mems_raw_quiet raw" using assms(2) by (auto simp: mems_visitable_def)
    then obtain h where "raw m q = Some h" "mh_ucIsFree h = MEMS_ALLOCED \<longrightarrow> mh_uiID h \<noteq> MEMS_ID"
      unfolding mems_raw_quiet_def by blast
    then show ?thesis using None by (auto simp: mems_gc_node_def mems_gc_due_def)
  next
    case (Some h)
    then show ?thesis using False by (simp add: mems_gc_node_def mems_due_def)
  qed
  moreover have "mems_swept timegap now m {q} m" using assms(1) False by (auto simp: mems_swept_def)
  ultimately show ?thesis by blast
qed

text \<open>The inner loop, whatever its base.\<close>

lemma mems_gc_zone_ok:
  assumes "mems_wf m" "\<And>j. i \<le> j \<Longrightarrow> j < i + left \<Longrightarrow> mems_visitable raw m (slot_at base sz j)"
  shows "\<exists>m'. mems_gc_zone raw m base sz timegap now i left = Some m' \<and>
    mems_swept timegap now m (slot_at base sz ` {i..<i + left}) m'"
  using assms
proof (induction left arbitrary: m i)
  case 0
  then show ?case by (simp add: mems_swept_refl)
next
  case (Suc left)
  obtain m1 where m1: "mems_gc_node raw m (slot_at base sz i) timegap now = Some m1"
    "mems_swept timegap now m {slot_at base sz i} m1"
    using mems_gc_node_ok [OF Suc.prems(1), of raw "slot_at base sz i"] Suc.prems(2) [of i] by auto
  have wf1: "mems_wf m1" using m1(2) by (simp add: mems_swept_def)
  have vis: "mems_visitable raw m1 (slot_at base sz j)" if "Suc i \<le> j" "j < Suc i + left" for j
    using mems_visitable_swept [OF m1(2) Suc.prems(2)] that by simp
  obtain m' where m': "mems_gc_zone raw m1 base sz timegap now (Suc i) left = Some m'"
    "mems_swept timegap now m1 (slot_at base sz ` {Suc i..<Suc i + left}) m'"
    using Suc.IH [OF wf1 vis] by blast
  have "{i..<i + Suc left} = insert i {Suc i..<Suc i + left}" by auto
  then have "{slot_at base sz i} \<union> slot_at base sz ` {Suc i..<Suc i + left} = slot_at base sz ` {i..<i + Suc left}"
    by simp
  with mems_swept_trans [OF m1(2) m'(2)] m1(1) m'(1) show ?case by auto
qed

text \<open>The addresses the collector looks at: the pass over a zone starts at the sum of the starts of the
  zones up to it.\<close>

fun mems_gc_visits :: "offset \<Rightarrow> memszone list \<Rightarrow> offset set" where
  "mems_gc_visits pBase [] = {}"
| "mems_gc_visits pBase (z # zs) =
     slots (pBase + mz_offsetNodeStart z) (memszone_stride z) (unat (mz_uiMemNodeTotCnt z)) \<union>
     mems_gc_visits (pBase + mz_offsetNodeStart z) zs"

lemma mems_gc_visits_geom:
  "map memszone_geom xs = map memszone_geom ys \<Longrightarrow> mems_gc_visits pBase xs = mems_gc_visits pBase ys"
proof (induction ys arbitrary: xs pBase)
  case Nil
  then show ?case by simp
next
  case (Cons y ys)
  then obtain x xs' where x: "xs = x # xs'" "memszone_geom x = memszone_geom y"
    "map memszone_geom xs' = map memszone_geom ys" by (cases xs) auto
  then show ?case
    using Cons.IH [OF x(3)] memszone_geom_fields [OF x(2)] memszone_geom_nodes(2) [OF x(2)] by simp
qed

lemma mems_gc_zones_ok:
  assumes "mems_wf m" "i + left = length (mi_stMEMSZONE m)"
    "\<And>q. q \<in> mems_gc_visits base (drop i (mi_stMEMSZONE m)) \<Longrightarrow> mems_visitable raw m q"
  shows "\<exists>m'. mems_gc_zones raw m base timegap now i left = Some m' \<and>
    mems_swept timegap now m (mems_gc_visits base (drop i (mi_stMEMSZONE m))) m'"
  using assms
proof (induction left arbitrary: m i base)
  case 0
  then show ?case by (simp add: mems_swept_refl)
next
  case (Suc left)
  let ?z = "mi_stMEMSZONE m ! i"
  let ?base = "base + mz_offsetNodeStart ?z" and ?n = "unat (mz_uiMemNodeTotCnt ?z)"
  have i: "i < length (mi_stMEMSZONE m)" using Suc.prems(2) by simp
  then have z: "mems_zone m (of_nat i) = Some ?z"
    using mems_index [OF Suc.prems(1) i] by (simp add: mems_zone_def)
  have visits: "mems_gc_visits base (drop i (mi_stMEMSZONE m)) =
      slots ?base (memszone_stride ?z) ?n \<union> mems_gc_visits ?base (drop (Suc i) (mi_stMEMSZONE m))"
    using i by (simp add: Cons_nth_drop_Suc [symmetric])
  have "mems_visitable raw m (slot_at ?base (memszone_stride ?z) j)" if "j < 0 + ?n" for j
    using Suc.prems(3) that visits by simp
  then obtain m1 where m1: "mems_gc_zone raw m ?base (memszone_stride ?z) timegap now 0 ?n = Some m1"
    "mems_swept timegap now m (slots ?base (memszone_stride ?z) ?n) m1"
    using mems_gc_zone_ok [OF Suc.prems(1), of 0 ?n raw ?base "memszone_stride ?z" timegap now]
    by (auto simp: slots_def atLeast0LessThan)
  have maps: "map memszone_geom (mi_stMEMSZONE m1) = map memszone_geom (mi_stMEMSZONE m)"
    and wf1: "mems_wf m1" using m1(2) by (simp_all add: mems_swept_def)
  have v1: "mems_gc_visits ?base (drop (Suc i) (mi_stMEMSZONE m1)) =
      mems_gc_visits ?base (drop (Suc i) (mi_stMEMSZONE m))"
    by (rule mems_gc_visits_geom) (simp add: drop_map [symmetric] maps)
  have len1: "Suc i + left = length (mi_stMEMSZONE m1)" using Suc.prems(2) mems_swept_len [OF m1(2)] by simp
  have vis1: "mems_visitable raw m1 q" if "q \<in> mems_gc_visits ?base (drop (Suc i) (mi_stMEMSZONE m1))" for q
    using mems_visitable_swept [OF m1(2) Suc.prems(3)] that v1 visits by simp
  obtain m' where m': "mems_gc_zones raw m1 ?base timegap now (Suc i) left = Some m'"
    "mems_swept timegap now m1 (mems_gc_visits ?base (drop (Suc i) (mi_stMEMSZONE m))) m'"
    using Suc.IH [OF wf1 len1, of ?base] vis1 unfolding v1 by blast
  have "mems_gc_zones raw m base timegap now i (Suc left) = Some m'"
    using z m1(1) m'(1) by (simp add: Let_def)
  then show ?case using mems_swept_trans [OF m1(2) m'(2)] visits by auto
qed

lemma mems_gc_one_zone:
  assumes "mems_wf m" "mi_uiZoneCnt m = 1"
  shows "\<exists>m'. mems_garbage_collector raw m timegap now = Some m' \<and> mems_wf m' \<and>
    mems_live m' 0 = {p \<in> mems_live m 0. \<not> mems_due m timegap now (p - stMEMSNODEHDR_SIZE)}"
proof -
  let ?zs = "mi_stMEMSZONE m"
  have len: "length ?zs = 1" using assms by (simp add: mems_wf_def)
  then obtain z where zs: "?zs = [z]" by (cases ?zs) auto
  have V: "mems_gc_visits 0 (drop 0 ?zs) = memszone_nodes z" by (simp add: zs memszone_nodes_def)
  have "mems_visitable raw m q" if "q \<in> mems_gc_visits 0 (drop 0 ?zs)" for q
    using that V by (auto simp: mems_visitable_def zs)
  moreover have "0 + 1 = length ?zs" using len by simp
  ultimately obtain m' where m': "mems_gc_zones raw m 0 timegap now 0 1 = Some m'"
    "mems_swept timegap now m (memszone_nodes z) m'"
    using mems_gc_zones_ok [OF assms(1), of 0 1 0 raw timegap now] V by metis
  have "mems_live m' 0 = {p \<in> mems_live m 0. \<not> (p - stMEMSNODEHDR_SIZE \<in> memszone_nodes z \<and>
      mems_due m timegap now (p - stMEMSNODEHDR_SIZE))}"
    using m'(2) len by (simp add: mems_swept_def)
  then have "mems_live m' 0 = {p \<in> mems_live m 0. \<not> mems_due m timegap now (p - stMEMSNODEHDR_SIZE)}"
    using zs by (auto simp: mems_live_iff memszone_used_def)
  then show ?thesis using m' assms(2) by (auto simp: mems_garbage_collector_def mems_swept_def)
qed

lemma mems_gc_all_zones:
  assumes "mems_wf m" "dom (mi_hdr m) = (\<Union>z \<in> set (mi_stMEMSZONE m). memszone_nodes z)" "mems_raw_quiet raw"
  shows "\<exists>m'. mems_garbage_collector raw m timegap now = Some m' \<and>
    mems_swept timegap now m (mems_gc_visits 0 (mi_stMEMSZONE m)) m'"
proof -
  have "mems_visitable raw m q" for q
  proof (cases "mi_hdr m q")
    case None
    then show ?thesis using assms(3) by (simp add: mems_visitable_def)
  next
    case (Some h)
    then have "q \<in> (\<Union>z \<in> set (mi_stMEMSZONE m). memszone_nodes z)" using assms(2) by blast
    then obtain z where "z \<in> set (mi_stMEMSZONE m)" "q \<in> memszone_nodes z" by blast
    then show ?thesis unfolding mems_visitable_def in_set_conv_nth by blast
  qed
  moreover have "length (mi_stMEMSZONE m) = unat (mi_uiZoneCnt m)" using assms(1) by (simp add: mems_wf_def)
  ultimately show ?thesis
    using mems_gc_zones_ok [OF assms(1), of 0 "unat (mi_uiZoneCnt m)" 0 raw timegap now]
    by (simp add: mems_garbage_collector_def)
qed

text \<open>From the second pass on, the base is at least the sum of the first two starts.\<close>

lemma mems_gc_visits_ge:
  assumes "\<forall>z \<in> set zs. 0 \<le> mz_offsetNodeStart z" "q \<in> mems_gc_visits base zs"
  shows "base + mz_offsetNodeStart (hd zs) \<le> q"
  using assms
proof (induction zs arbitrary: base)
  case Nil
  then show ?case by simp
next
  case (Cons z zs)
  let ?b = "base + mz_offsetNodeStart z"
  show ?case
  proof (cases "q \<in> slots ?b (memszone_stride z) (unat (mz_uiMemNodeTotCnt z))")
    case True
    then show ?thesis using slot_at_ge [of "memszone_stride z" ?b] memszone_stride_pos [of z]
      by (auto simp: slots_def less_imp_le)
  next
    case False
    then have q: "q \<in> mems_gc_visits ?b zs" using Cons.prems(2) by simp
    then have "zs \<noteq> []" by auto
    then have "0 \<le> mz_offsetNodeStart (hd zs)" using Cons.prems(1) by simp
    moreover have "?b + mz_offsetNodeStart (hd zs) \<le> q" using Cons.IH [OF _ q] Cons.prems(1) by simp
    ultimately show ?thesis by simp
  qed
qed

lemma mems_starts_nonneg:
  assumes "mems_wf m" "0 \<le> mz_offsetNodeStart (hd (mi_stMEMSZONE m))" "z \<in> set (mi_stMEMSZONE m)"
  shows "0 \<le> mz_offsetNodeStart z"
proof -
  let ?zs = "mi_stMEMSZONE m"
  obtain i where i: "i < length ?zs" "z = ?zs ! i" using assms(3) by (auto simp: in_set_conv_nth)
  have hd: "hd ?zs = ?zs ! 0" using i(1) by (intro hd_conv_nth) auto
  show ?thesis
  proof (cases i)
    case 0
    then show ?thesis using i(2) hd assms(2) by simp
  next
    case (Suc j)
    have "0 < length ?zs" using i(1) by linarith
    then have "memszone_ok (mi_hdr m) 0 (?zs ! 0)" using assms(1) unfolding mems_wf_def by blast
    then have "memszone_wf (?zs ! 0)" by (simp add: memszone_ok_def)
    then have "mz_offsetNodeStart (?zs ! 0) \<le> mz_offsetNodeEnd (?zs ! 0)"
      by (simp add: memszone_wf_def slot_at_ge less_imp_le)
    moreover have "mz_offsetNodeEnd (?zs ! 0) \<le> mz_offsetNodeStart z"
      using assms(1) i Suc by (auto simp: mems_wf_def mems_ordered_def sorted_wrt_iff_nth_less)
    ultimately show ?thesis using assms(2) unfolding hd by linarith
  qed
qed

lemma mems_gc_unvisited:
  assumes "mems_wf m" "0 \<le> mz_offsetNodeStart (mi_stMEMSZONE m ! 0)" "0 < k" "k < length (mi_stMEMSZONE m)"
    "q \<in> memszone_nodes (mi_stMEMSZONE m ! k)"
    "q < mz_offsetNodeStart (mi_stMEMSZONE m ! 0) + mz_offsetNodeStart (mi_stMEMSZONE m ! 1)"
  shows "q \<notin> mems_gc_visits 0 (mi_stMEMSZONE m)"
proof
  assume q: "q \<in> mems_gc_visits 0 (mi_stMEMSZONE m)"
  let ?zs = "mi_stMEMSZONE m"
  obtain a b cs where zs: "?zs = a # b # cs" using assms(3,4) by (cases ?zs; cases "tl ?zs") auto
  have "q \<notin> memszone_nodes a"
    using memszone_nodes_disjoint [OF assms(1,4) _ _ assms(5), of 0] assms(3) zs by simp
  then have "q \<in> mems_gc_visits (mz_offsetNodeStart a) (b # cs)"
    using q zs by (simp add: memszone_nodes_def)
  moreover have "\<forall>z \<in> set (b # cs). 0 \<le> mz_offsetNodeStart z"
    using mems_starts_nonneg [OF assms(1)] assms(2) zs by simp
  ultimately show False using mems_gc_visits_ge [of "b # cs" q "mz_offsetNodeStart a"] assms(6) zs by simp
qed

section \<open>Properties\<close>

definition mems_demo_os :: mems_os where
  "mems_demo_os = \<lparr>ms_malloc = True, ms_shmget = MShmCreated, ms_shmget_again = True, ms_shmat = True,
     ms_existing = undefined, ms_semget = (\<lambda>k. SemCreated (uint k)), ms_setval = (\<lambda>_. True), ms_sem = (\<lambda>_. 0)\<rparr>"

definition mems_demo_zone :: "u32 \<Rightarrow> u32 \<Rightarrow> memszoneconf" where
  "mems_demo_zone i flag = \<lparr>zc_uiZoneID = i, zc_uiSemFlag = flag, zc_uiSemKey = 8100 + i,
     zc_uiMemNodeBodySize = 64, zc_uiMemNodeTotCnt = 2\<rparr>"

definition mems_demo_conf :: "memszoneconf list \<Rightarrow> memsconf" where
  "mems_demo_conf zs = \<lparr>mc_uiType = MEMS_SHARED_MEM, mc_uiShmKey = 8001, mc_uiHeadRoomSize = 0,
     mc_uiZoneCnt = of_nat (length zs), mc_stMEMSZONECONF = zs, mc_uiMatrixZoneID = []\<rparr>"

definition mems_demo1 :: mems where
  "mems_demo1 = the (mems_fresh mems_demo_os (mems_demo_conf [mems_demo_zone 0 MEMS_SEMA_ON]))"

definition mems_demo2 :: mems where
  "mems_demo2 = the (mems_fresh mems_demo_os (mems_demo_conf [mems_demo_zone 0 MEMS_SEMA_ON, mems_demo_zone 1 0]))"

lemma mems_demo_conf_ok:
  "memsconf_ok mems_demo_os (mems_demo_conf [mems_demo_zone 0 MEMS_SEMA_ON])"
  "memsconf_ok mems_demo_os (mems_demo_conf [mems_demo_zone 0 MEMS_SEMA_ON, mems_demo_zone 1 0])"
  by (simp_all add: memsconf_ok_def mems_demo_conf_def mems_demo_zone_def mems_demo_os_def mems_sem_had_def
      mems_total_size_def zoneconf_size_def mems_const_defs less_Suc_eq)

lemma mems_demo1_facts: "mems_wf mems_demo1" "mems_live mems_demo1 0 = {}" "mi_uiZoneCnt mems_demo1 = 1"
proof -
  obtain m where m: "mems_fresh mems_demo_os (mems_demo_conf [mems_demo_zone 0 MEMS_SEMA_ON]) = Some m"
    "mems_wf m" "\<forall>zid. unat zid < length (mi_stMEMSZONE m) \<longrightarrow> mems_live m zid = {}"
    "mi_uiZoneCnt m = mc_uiZoneCnt (mems_demo_conf [mems_demo_zone 0 MEMS_SEMA_ON])"
    using mems_fresh_wf [OF mems_demo_conf_ok(1)] by blast
  then have "mems_demo1 = m" by (simp add: mems_demo1_def)
  moreover have cnt: "mi_uiZoneCnt m = 1" using m(4) by (simp add: mems_demo_conf_def)
  moreover have "length (mi_stMEMSZONE m) = 1" using m(2) cnt by (simp add: mems_wf_def)
  ultimately show "mems_wf mems_demo1" "mems_live mems_demo1 0 = {}" "mi_uiZoneCnt mems_demo1 = 1"
    using m(2,3) by simp_all
qed

lemma mems_demo2_facts: "mems_wf mems_demo2" "mems_live mems_demo2 0 = {}" "mems_live mems_demo2 1 = {}"
  "mi_uiZoneCnt mems_demo2 = 2"
  "dom (mi_hdr mems_demo2) = (\<Union>z \<in> set (mi_stMEMSZONE mems_demo2). memszone_nodes z)"
proof -
  let ?c = "mems_demo_conf [mems_demo_zone 0 MEMS_SEMA_ON, mems_demo_zone 1 0]"
  obtain m where m: "mems_fresh mems_demo_os ?c = Some m"
    "mems_wf m" "\<forall>zid. unat zid < length (mi_stMEMSZONE m) \<longrightarrow> mems_live m zid = {}"
    "mi_uiZoneCnt m = mc_uiZoneCnt ?c" "dom (mi_hdr m) = (\<Union>z \<in> set (mi_stMEMSZONE m). memszone_nodes z)"
    using mems_fresh_wf [OF mems_demo_conf_ok(2)] by blast
  then have eq: "mems_demo2 = m" by (simp add: mems_demo2_def)
  have cnt: "mi_uiZoneCnt m = 2" using m(4) by (simp add: mems_demo_conf_def)
  have len: "length (mi_stMEMSZONE m) = 2" using m(2) cnt by (simp add: mems_wf_def)
  show "mems_wf mems_demo2" "mems_live mems_demo2 0 = {}" "mems_live mems_demo2 1 = {}"
    "mi_uiZoneCnt mems_demo2 = 2" using m(2,3) eq cnt len by simp_all
  show "dom (mi_hdr mems_demo2) = (\<Union>z \<in> set (mi_stMEMSZONE mems_demo2). memszone_nodes z)"
    unfolding eq by (rule m(5))
qed

lemma mems_demo2_starts:
  "mz_offsetNodeStart (mi_stMEMSZONE mems_demo2 ! 0) = 4760"
  "mz_offsetNodeStart (mi_stMEMSZONE mems_demo2 ! 1) = 4960"
  "mz_offsetNodeEnd (mi_stMEMSZONE mems_demo2 ! 1) = 5160"
  by (simp_all add: mems_demo2_def mems_fresh_def mems_demo_conf_def mems_demo_zone_def mems_demo_os_def
      mems_sem_init_def zoneconf_size_def mems_const_defs Let_def)

lemma mems_demo_body: "mems_body mems_demo1 0 = 64" "mems_body mems_demo2 0 = 64" "mems_body mems_demo2 1 = 64"
  by (simp_all add: mems_body_def mems_demo1_def mems_demo2_def mems_fresh_def mems_demo_conf_def
      mems_demo_zone_def mems_demo_os_def mems_sem_init_def mems_const_defs Let_def)

lemma mems_alloc_result:
  assumes "mems_wf m" "unat zid < unat (mi_uiZoneCnt m)"
  shows "\<exists>m' r. mems_alloc m uiSize zid now = Some (m', r) \<and> mems_wf m' \<and> mems_frame m m' zid \<and>
    (case r of
       None \<Rightarrow> mems_live m' zid = mems_live m zid \<and>
         (mems_body m zid < uiSize \<or> mems_live m zid = mems_cells m zid)
     | Some p \<Rightarrow> uiSize \<le> mems_body m zid \<and> p \<in> mems_cells m zid - mems_live m zid \<and>
         mems_live m' zid = insert p (mems_live m zid))"
proof -
  have v: "mems_valid m zid" using assms by (simp add: mems_valid_def mems_wf_def)
  have le: "uiSize \<le> mems_body m zid" if "\<not> mems_body m zid < uiSize" using that by simp
  consider "mems_body m zid < uiSize" | "\<not> mems_body m zid < uiSize" "mems_live m zid = mems_cells m zid"
    | "\<not> mems_body m zid < uiSize" "mems_live m zid \<noteq> mems_cells m zid" by blast
  then show ?thesis
  proof cases
    case 1
    then have "mems_alloc m uiSize zid now = Some (m, None)"
      using v by (simp add: mems_alloc_def mems_zone_def mems_valid_def mems_body_def)
    then show ?thesis using assms(1) 1 by (intro exI [of _ m] exI [of _ None]) simp
  next
    case 2
    obtain m' where "mems_alloc m uiSize zid now = Some (m', None)" "mems_valid m' zid"
      "mems_live m' zid = mems_live m zid" "mems_frame m m' zid"
      using mems_alloc_full [OF v le [OF 2(1)] 2(2), of now] by blast
    then show ?thesis using 2(2) by (intro exI [of _ m'] exI [of _ None]) (simp add: mems_valid_def)
  next
    case 3
    obtain m' p where "mems_alloc m uiSize zid now = Some (m', Some p)" "p \<in> mems_cells m zid - mems_live m zid"
      "mems_valid m' zid" "mems_live m' zid = insert p (mems_live m zid)" "mems_frame m m' zid"
      using mems_alloc_ok [OF v le [OF 3(1)] 3(2), of now] by blast
    then show ?thesis using le [OF 3(1)]
      by (intro exI [of _ m'] exI [of _ "Some p"]) (simp add: mems_valid_def)
  qed
qed

text \<open>C24: On a well-formed block \<open>mems_alloc\<close> returns for every zone of the block, keeps the block
  well formed, gives its semaphore back and touches no other zone. It gives a node of the zone that
  was not in use and marks exactly that node; it answers NULL exactly when every node of the zone is
  in use or the request is larger than its nodes.\<close>

theorem mems_alloc_correct:
  assumes "mems_wf m" "unat zid < unat (mi_uiZoneCnt m)"
  shows "\<exists>m' r. mems_alloc m uiSize zid now = Some (m', r) \<and> mems_wf m' \<and> mems_frame m m' zid \<and>
    (case r of
       None \<Rightarrow> mems_live m' zid = mems_live m zid \<and>
         (mems_body m zid < uiSize \<or> mems_live m zid = mems_cells m zid)
     | Some p \<Rightarrow> uiSize \<le> mems_body m zid \<and> p \<in> mems_cells m zid - mems_live m zid \<and>
         mems_live m' zid = insert p (mems_live m zid))"
  by (rule mems_alloc_result [OF assms])

theorem mems_alloc_correct_witness:
  "\<exists>m' r. mems_alloc mems_demo2 64 1 7 = Some (m', r) \<and> mems_wf m' \<and> mems_live m' 0 = {}"
proof -
  obtain m' r where "mems_alloc mems_demo2 64 1 7 = Some (m', r)" "mems_wf m'" "mems_frame mems_demo2 m' 1"
    using mems_alloc_correct [OF mems_demo2_facts(1), of 1 64 7] mems_demo2_facts(4) by auto
  moreover from this(3) have "mems_live m' 0 = {}"
    using mems_demo2_facts(1,2,4) by (simp add: mems_frame_def mems_wf_def)
  ultimately show ?thesis by blast
qed

text \<open>C25: A node that \<open>mems_alloc\<close> gives overlaps no node in use of any zone: header and body of the
  one end before the header of the other begins.\<close>

theorem mems_alloc_disjoint:
  assumes "mems_wf m" "unat zid < unat (mi_uiZoneCnt m)" "mems_alloc m uiSize zid now = Some (m', Some p)"
    "unat k < unat (mi_uiZoneCnt m)" "q \<in> mems_live m k"
  shows "p + uint (mems_body m zid) + stMEMSNODEHDR_SIZE \<le> q \<or> q + uint (mems_body m k) + stMEMSNODEHDR_SIZE \<le> p"
proof -
  have len: "length (mi_stMEMSZONE m) = unat (mi_uiZoneCnt m)" using assms(1) by (simp add: mems_wf_def)
  have p: "p \<in> mems_cells m zid" "p \<notin> mems_live m zid"
    using mems_alloc_result [OF assms(1,2), of uiSize now] assms(3) by auto
  have q: "q \<in> mems_cells m k" using assms(5) mems_live_cells by blast
  have "p \<noteq> q"
  proof
    assume eq: "p = q"
    show False
    proof (cases "k = zid")
      case True
      then show False using p(2) assms(5) eq by simp
    next
      case False
      have "unat zid \<noteq> unat k" using False by (simp add: word_unat_eq_iff)
      then show False
        using memszone_nodes_disjoint [OF assms(1), of "unat zid" "unat k"] p(1) q eq assms(2,4) len
        by (simp add: mems_cells_iff)
    qed
  qed
  then show ?thesis using mems_cells_apart [OF assms(1) _ _ p(1) q] assms(2,4) len by simp
qed

theorem mems_alloc_disjoint_witness:
  "\<exists>m1 p m2 q. mems_alloc mems_demo2 64 0 1 = Some (m1, Some p) \<and> mems_alloc m1 64 1 1 = Some (m2, Some q) \<and>
     (q + 64 + stMEMSNODEHDR_SIZE \<le> p \<or> p + 64 + stMEMSNODEHDR_SIZE \<le> q)"
proof -
  have len: "length (mi_stMEMSZONE mems_demo2) = 2" using mems_demo2_facts(1,4) by (simp add: mems_wf_def)
  have v: "mems_valid mems_demo2 0" "mems_valid mems_demo2 1"
    using mems_demo2_facts(1) len by (simp_all add: mems_valid_def)
  have ne: "mems_cells mems_demo2 i \<noteq> {}" if "mems_valid mems_demo2 i" for i
    using that by (auto simp: mems_valid_def mems_wf_def memszone_ok_def memszone_wf_def mems_cells_def)
  obtain m1 p where 1: "mems_alloc mems_demo2 64 0 1 = Some (m1, Some p)" "mems_valid m1 0"
    "mems_live m1 0 = {p}" "mems_frame mems_demo2 m1 0"
    using mems_alloc_ok [OF v(1), of 64 1] ne [OF v(1)] mems_demo2_facts(2) mems_demo_body(2) by auto
  have len1: "length (mi_stMEMSZONE m1) = 2" using mems_valid_geom(2) [OF 1(4)] len by simp
  have v1: "mems_valid m1 1" using 1(2) len1 by (simp add: mems_valid_def)
  have body: "mems_body m1 i = 64" if "i = 0 \<or> i = 1" for i
    using that mems_valid_geom(3) [OF 1(4), of i] len mems_demo_body by auto
  have cells: "mems_cells m1 1 = mems_cells mems_demo2 1" using mems_valid_geom(1) [OF 1(4), of 1] len by simp
  have "mems_live m1 1 = {}" using 1(4) len mems_demo2_facts(3) by (simp add: mems_frame_def)
  then obtain m2 q where 2: "mems_alloc m1 64 1 1 = Some (m2, Some q)"
    using mems_alloc_ok [OF v1, of 64 1] ne [OF v(2)] cells body by auto
  have wf1: "mems_wf m1" "unat (mi_uiZoneCnt m1) = 2" using 1(2) len1 by (simp_all add: mems_valid_def mems_wf_def)
  have "q + uint (mems_body m1 1) + stMEMSNODEHDR_SIZE \<le> p \<or> p + uint (mems_body m1 0) + stMEMSNODEHDR_SIZE \<le> q"
    by (rule mems_alloc_disjoint [OF wf1(1) _ 2]) (simp_all add: wf1(2) 1(3))
  then show ?thesis using 1(1) 2 body by auto
qed

text \<open>C36: Releasing a node in use answers 0, frees exactly that node and keeps the block well formed,
  whatever zone it is from; releasing it once more answers 1 and changes nothing.\<close>

theorem mems_free_twice:
  assumes "mems_wf m" "unat zid < unat (mi_uiZoneCnt m)" "p \<in> mems_live m zid"
  shows "\<exists>m'. mems_free m p = Some (m', 0) \<and> mems_wf m' \<and> mems_frame m m' zid \<and>
    mems_live m' zid = mems_live m zid - {p} \<and> mems_free m' p = Some (m', 1)"
proof -
  have v: "mems_valid m zid" using assms by (simp add: mems_valid_def mems_wf_def)
  obtain m' where m': "mems_free m p = Some (m', 0)" "mems_valid m' zid"
    "mems_live m' zid = mems_live m zid - {p}" "mems_frame m m' zid"
    using mems_free_live [OF v assms(3)] by blast
  have "mems_free m' p = Some (m', 1)"
    using mems_pool.double_release [of m zid 0 p m' 0] v m'(1) assms(3) by simp
  then show ?thesis using m' by (auto simp: mems_valid_def)
qed

theorem mems_free_twice_witness:
  "\<exists>m p m'. mems_alloc mems_demo1 10 0 5 = Some (m, Some p) \<and> mems_free m p = Some (m', 0) \<and>
     mems_free m' p = Some (m', 1)"
proof -
  have v: "mems_valid mems_demo1 0" using mems_demo1_facts by (simp add: mems_valid_def mems_wf_def)
  have "mems_cells mems_demo1 0 \<noteq> {}"
    using v by (auto simp: mems_valid_def mems_wf_def memszone_ok_def memszone_wf_def mems_cells_def)
  then obtain m p where m: "mems_alloc mems_demo1 10 0 5 = Some (m, Some p)" "mems_valid m 0" "mems_live m 0 = {p}"
    using mems_alloc_ok [OF v, of 10 5] mems_demo1_facts(2) mems_demo_body(1) by auto
  have wf: "mems_wf m" and z0: "unat (0 :: u32) < length (mi_stMEMSZONE m)"
    using m(2) unfolding mems_valid_def by blast+
  have "length (mi_stMEMSZONE m) = unat (mi_uiZoneCnt m)" using wf unfolding mems_wf_def by blast
  then have "unat (0 :: u32) < unat (mi_uiZoneCnt m)" using z0 by (simp only:)
  from mems_free_twice [OF wf this, of p] m show ?thesis by auto
qed

text \<open>The count of a zone is the number of its nodes in use, and it is the difference of the
  zone's two statistics counters.\<close>

theorem mems_alloced_cnt_correct:
  assumes "mems_wf m" "unat zid < unat (mi_uiZoneCnt m)"
  shows "mems_alloced_cnt m zid = Some (int (card (mems_live m zid))) \<and>
    (\<exists>z. mems_zone m zid = Some z \<and> of_nat (card (mems_live m zid)) = mz_createCnt z - mz_delCnt z)"
proof -
  have v: "mems_valid m zid" using assms by (simp add: mems_valid_def mems_wf_def)
  then show ?thesis using mems_alloced_cnt_card [OF v]
    by (simp add: mems_zone_def mems_live_card mems_valid_def mems_wf_def memszone_ok_def)
qed

theorem mems_alloced_cnt_correct_witness: "mems_alloced_cnt mems_demo1 0 = Some 0"
  using mems_alloced_cnt_correct [OF mems_demo1_facts(1), of 0] mems_demo1_facts(2,3) by simp

text \<open>A block that \<open>mems_init\<close> builds from a configuration that gives each zone its own index and
  some nodes, and asks for semaphores that can be had, is well formed and every zone is empty.\<close>

theorem mems_init_ok:
  assumes "memsconf_ok os conf"
    "mc_uiType conf = MEMS_MAIN_MEM \<and> ms_malloc os \<or>
     mc_uiType conf = MEMS_SHARED_MEM \<and> ms_shmget os = MShmCreated \<and> ms_shmat os"
  shows "\<exists>m. mems_init os conf = Some (Some m) \<and> mems_wf m \<and> mi_uiZoneCnt m = mc_uiZoneCnt conf \<and>
    (\<forall>zid. unat zid < unat (mc_uiZoneCnt conf) \<longrightarrow> mems_live m zid = {})"
proof -
  obtain m where m: "mems_fresh os conf = Some m" "mems_wf m" "mi_uiZoneCnt m = mc_uiZoneCnt conf"
    "\<forall>zid. unat zid < length (mi_stMEMSZONE m) \<longrightarrow> mems_live m zid = {}"
    using mems_fresh_wf [OF assms(1)] by blast
  have differ: "MEMS_SHARED_MEM \<noteq> MEMS_MAIN_MEM" by (simp add: mems_const_defs)
  have "\<not> length (mc_stMEMSZONECONF conf) < unat (mc_uiZoneCnt conf)" "\<not> MEMS_SHM_SIZE < mems_total_size conf"
    using assms(1) by (auto simp: memsconf_ok_def)
  then have "mems_init os conf = Some (Some m)"
    using m(1) assms(2) differ by (auto simp: mems_init_def)
  then show ?thesis using m(2-4) by (simp add: mems_wf_def)
qed

theorem mems_init_ok_witness:
  "\<exists>m. mems_init mems_demo_os (mems_demo_conf [mems_demo_zone 0 MEMS_SEMA_ON, mems_demo_zone 1 0]) = Some (Some m) \<and>
     mems_wf m"
  using mems_init_ok [OF mems_demo_conf_ok(2)] by (auto simp: mems_demo_os_def mems_demo_conf_def)

text \<open>The time stamp of the node at \<open>p\<close>, and the clock test without the wrap.\<close>

definition mems_time :: "mems \<Rightarrow> offset \<Rightarrow> int" where
  "mems_time m p = mh_TimeSec (the (mi_hdr m (p - stMEMSNODEHDR_SIZE)))"

lemma mems_due_exact:
  assumes "p \<in> mems_live m zid" "- (2 ^ 31) \<le> mems_time m p + timegap" "mems_time m p + timegap < 2 ^ 31"
  shows "mems_due m timegap now (p - stMEMSNODEHDR_SIZE) \<longleftrightarrow> mems_time m p + timegap < now"
proof -
  obtain h where h: "mi_hdr m (p - stMEMSNODEHDR_SIZE) = Some h" "mh_ucIsFree h = MEMS_ALLOCED"
    using assms(1) by (auto simp: mems_live_iff memszone_used_def memszone_busy_def)
  have "sint (word_of_int (mems_time m p + timegap) :: u32) = mems_time m p + timegap"
    using assms(2,3) by (simp add: signed_of_int signed_take_bit_int_eq_self del: of_int_add)
  then show ?thesis using h by (simp add: mems_due_def mems_gc_due_def mems_time_def)
qed

text \<open>With a sum past the range the test is wrong: a node stamped this very second is due under the
  largest gap.\<close>

lemma mems_gc_due_wraps:
  "mems_gc_due (mems_take_hdr (mems_free_hdr 0) 1700000000) 2147483647 1700000000"
  by (simp add: mems_gc_due_def mems_take_hdr_def)

text \<open>\<open>mems_alloc\<close> stamps the node it gives and no other.\<close>

lemma mems_alloc_time:
  assumes "mems_valid m zid" "mems_alloc m uiSize zid now = Some (m', Some p)"
  shows "mems_time m' p = now" "q \<noteq> p \<Longrightarrow> mems_time m' q = mems_time m q"
    "dom (mi_hdr m') = dom (mi_hdr m)"
proof -
  have v: "mems_wf m" "unat zid < length (mi_stMEMSZONE m)" using assms(1) by (simp_all add: mems_valid_def)
  have res: "uiSize \<le> mems_body m zid" "mems_live m zid \<noteq> mems_cells m zid"
    using mems_alloc_result [OF v(1), of zid uiSize now] v assms(2) by (auto simp: mems_wf_def)
  obtain r h f where r: "mems_alloc m uiSize zid now =
      Some (mems_put m (unat zid) (memszone_take (mi_stMEMSZONE m ! unat zid) f)
              ((mi_hdr m)(r \<mapsto> mems_take_hdr h now)), Some (r + stMEMSNODEHDR_SIZE))" "mi_hdr m r = Some h"
    using mems_alloc_free_node [OF v, of uiSize now] res by (auto simp: mems_body_def mems_cells_full)
  then have p: "p = r + stMEMSNODEHDR_SIZE" "mi_hdr m' = (mi_hdr m)(r \<mapsto> mems_take_hdr h now)"
    using assms(2) by auto
  show "dom (mi_hdr m') = dom (mi_hdr m)" unfolding p using r(2) by auto
  show "mems_time m' p = now" unfolding mems_time_def p by (simp add: mems_take_hdr_def)
  assume "q \<noteq> p"
  then have "q - stMEMSNODEHDR_SIZE \<noteq> r" using p(1) by linarith
  then show "mems_time m' q = mems_time m q" unfolding mems_time_def p(2) by simp
qed

text \<open>C37: With one zone the garbage collector returns, whatever the bytes outside the headers are, and
  releases exactly the nodes that have been out for more than \<open>timegap\<close> seconds, as long as no sum of
  a time stamp in use and \<open>timegap\<close> leaves the range of a C int.\<close>

theorem mems_gc_single:
  assumes "mems_wf m" "mi_uiZoneCnt m = 1"
    "\<And>p. p \<in> mems_live m 0 \<Longrightarrow> - (2 ^ 31) \<le> mems_time m p + timegap \<and> mems_time m p + timegap < 2 ^ 31"
  shows "\<exists>m'. mems_garbage_collector raw m timegap now = Some m' \<and> mems_wf m' \<and>
    mems_live m' 0 = {p \<in> mems_live m 0. now \<le> mems_time m p + timegap}"
proof -
  obtain m' where m': "mems_garbage_collector raw m timegap now = Some m'" "mems_wf m'"
    "mems_live m' 0 = {p \<in> mems_live m 0. \<not> mems_due m timegap now (p - stMEMSNODEHDR_SIZE)}"
    using mems_gc_one_zone [OF assms(1,2)] by blast
  have "mems_due m timegap now (p - stMEMSNODEHDR_SIZE) \<longleftrightarrow> mems_time m p + timegap < now"
    if "p \<in> mems_live m 0" for p
    using mems_due_exact [OF that] assms(3) [OF that] by blast
  then have "mems_live m' 0 = {p \<in> mems_live m 0. now \<le> mems_time m p + timegap}"
    unfolding m'(3) by force
  then show ?thesis using m'(1,2) by blast
qed

text \<open>Two nodes are out, since 5 and since 990; at 1000 with a gap of 60 the second one stays.\<close>

lemma mems_demo1_two:
  "\<exists>m p q. mems_wf m \<and> mi_uiZoneCnt m = 1 \<and> p \<noteq> q \<and> mems_live m 0 = {p, q} \<and>
     mems_time m p = 5 \<and> mems_time m q = 990"
proof -
  have v0: "mems_valid mems_demo1 0" using mems_demo1_facts by (simp add: mems_valid_def mems_wf_def)
  have z0: "unat (0 :: u32) < length (mi_stMEMSZONE mems_demo1)" using v0 by (simp add: mems_valid_def)
  have "card (mems_cells mems_demo1 0) = card (memszone_nodes (mi_stMEMSZONE mems_demo1 ! 0))"
    unfolding mems_cells_def by (subst card_image) (auto simp: inj_on_def)
  also have "\<dots> = unat (mz_uiMemNodeTotCnt (mi_stMEMSZONE mems_demo1 ! 0))"
    unfolding memszone_nodes_def by (rule card_slots [OF memszone_stride_pos])
  also have "mz_uiMemNodeTotCnt (mi_stMEMSZONE mems_demo1 ! 0) = 2"
    by (simp add: mems_demo1_def mems_fresh_def mems_demo_conf_def mems_demo_zone_def mems_demo_os_def
        mems_sem_init_def mems_const_defs Let_def)
  finally have card: "card (mems_cells mems_demo1 0) = 2" by simp
  then have "mems_live mems_demo1 0 \<noteq> mems_cells mems_demo1 0" using mems_demo1_facts(2) by auto
  then obtain m1 p where 1: "mems_alloc mems_demo1 10 0 5 = Some (m1, Some p)" "mems_valid m1 0"
    "mems_live m1 0 = {p}" "mems_frame mems_demo1 m1 0"
    using mems_alloc_ok [OF v0, of 10 5] mems_demo1_facts(2) mems_demo_body(1) by auto
  have cells1: "mems_cells m1 0 = mems_cells mems_demo1 0" using mems_valid_geom(1) [OF 1(4), of 0] z0 by simp
  have body1: "mems_body m1 0 = 64" using mems_valid_geom(3) [OF 1(4) z0] mems_demo_body(1) by simp
  have "mems_live m1 0 \<noteq> mems_cells m1 0" unfolding 1(3) cells1
  proof
    assume "{p} = mems_cells mems_demo1 0"
    then have "card (mems_cells mems_demo1 0) = card {p}" by (simp only:)
    then show False using card by simp
  qed
  then obtain m2 q where 2: "mems_alloc m1 10 0 990 = Some (m2, Some q)" "q \<noteq> p" "mems_valid m2 0"
    "mems_live m2 0 = {q, p}" "mems_frame m1 m2 0"
    using mems_alloc_ok [OF 1(2), of 10 990] 1(3) body1 by auto
  have cnt: "mi_uiZoneCnt m2 = 1" using 1(4) 2(5) mems_demo1_facts(3) by (simp add: mems_frame_def)
  have "mems_time m2 q = 990" "mems_time m2 p = 5"
    using mems_alloc_time(1) [OF 1(2) 2(1)] mems_alloc_time(2) [OF 1(2) 2(1)] mems_alloc_time(1) [OF v0 1(1)] 2(2)
    by simp_all
  then show ?thesis using 2(2-4) cnt by (intro exI [of _ m2] exI [of _ p] exI [of _ q]) (auto simp: mems_valid_def)
qed

theorem mems_gc_single_witness:
  "\<exists>m p q m'. p \<noteq> q \<and> mems_live m 0 = {p, q} \<and>
     mems_garbage_collector (\<lambda>_ _. None) m 60 1000 = Some m' \<and> mems_live m' 0 = {q}"
proof -
  obtain m p q where m: "mems_wf m" "mi_uiZoneCnt m = 1" "p \<noteq> q" "mems_live m 0 = {p, q}"
    "mems_time m p = 5" "mems_time m q = 990" using mems_demo1_two by blast
  have range: "- (2 ^ 31) \<le> mems_time m r + 60 \<and> mems_time m r + 60 < 2 ^ 31" if "r \<in> mems_live m 0" for r
    using that m(4-6) by auto
  from mems_gc_single [OF m(1,2) range, of "\<lambda>_ _. None" 1000] obtain m' where
    m': "mems_garbage_collector (\<lambda>_ _. None) m 60 1000 = Some m'"
      "mems_live m' 0 = {r \<in> mems_live m 0. 1000 \<le> mems_time m r + 60}" by blast
  have "mems_live m' 0 = {q}" unfolding m'(2) m(4) using m(5,6) by auto
  then show ?thesis using m(3,4) m'(1) by blast
qed

text \<open>C39: With several zones the collector takes the sum of the starts of the zones up to a zone for its
  base. Where the bytes that are no header can be read and do not look like a node in use, it returns
  and releases exactly the due nodes whose header is at an address it looks at. So no node of the second
  zone or a later one is ever released, however long it has been out, when its header lies below the
  sum of the starts of the first two zones, as it is for the first node of the second zone.\<close>

theorem mems_gc_several:
  assumes "mems_wf m" "2 \<le> unat (mi_uiZoneCnt m)"
    "dom (mi_hdr m) = (\<Union>z \<in> set (mi_stMEMSZONE m). memszone_nodes z)"
    "0 < mz_offsetNodeStart (mi_stMEMSZONE m ! 0)" "mems_raw_quiet raw"
  shows "\<exists>m'. mems_garbage_collector raw m timegap now = Some m' \<and> mems_wf m' \<and>
    (\<forall>k. unat k < unat (mi_uiZoneCnt m) \<longrightarrow> mems_live m' k = {p \<in> mems_live m k.
       \<not> (p - stMEMSNODEHDR_SIZE \<in> mems_gc_visits 0 (mi_stMEMSZONE m) \<and>
          mems_due m timegap now (p - stMEMSNODEHDR_SIZE))}) \<and>
    (\<forall>k p. 0 < unat k \<and> unat k < unat (mi_uiZoneCnt m) \<and> p \<in> mems_live m k \<and>
       p - stMEMSNODEHDR_SIZE < mz_offsetNodeStart (mi_stMEMSZONE m ! 0) + mz_offsetNodeStart (mi_stMEMSZONE m ! 1)
       \<longrightarrow> p \<in> mems_live m' k)"
proof -
  let ?zs = "mi_stMEMSZONE m"
  have len: "length ?zs = unat (mi_uiZoneCnt m)" using assms(1) by (simp add: mems_wf_def)
  obtain m' where m': "mems_garbage_collector raw m timegap now = Some m'"
    "mems_swept timegap now m (mems_gc_visits 0 ?zs) m'"
    using mems_gc_all_zones [OF assms(1,3,5)] by blast
  have live: "mems_live m' k = {p \<in> mems_live m k. \<not> (p - stMEMSNODEHDR_SIZE \<in> mems_gc_visits 0 ?zs \<and>
      mems_due m timegap now (p - stMEMSNODEHDR_SIZE))}" if "unat k < unat (mi_uiZoneCnt m)" for k
    using m'(2) that len by (simp add: mems_swept_def)
  have kept: "p \<in> mems_live m' k" if k: "0 < unat k" "unat k < unat (mi_uiZoneCnt m)" "p \<in> mems_live m k"
    and low: "p - stMEMSNODEHDR_SIZE < mz_offsetNodeStart (?zs ! 0) + mz_offsetNodeStart (?zs ! 1)" for k p
  proof -
    have "p - stMEMSNODEHDR_SIZE \<in> memszone_nodes (?zs ! unat k)"
      using k(3) by (simp add: mems_live_iff memszone_used_def)
    then have "p - stMEMSNODEHDR_SIZE \<notin> mems_gc_visits 0 ?zs"
      using mems_gc_unvisited [OF assms(1) less_imp_le [OF assms(4)] k(1), of "p - stMEMSNODEHDR_SIZE"] k(2) len low
      by simp
    then show ?thesis using live [OF k(2)] k(3) by simp
  qed
  have "mems_wf m'" using m'(2) by (simp add: mems_swept_def)
  then show ?thesis using m'(1) live kept by blast
qed

lemma mems_two_zones: "length zs = 2 \<Longrightarrow> set zs = {zs ! 0, zs ! 1}"
  by (cases zs; cases "tl zs") auto

definition mems_zero_hdr :: memsnodehdr where
  "mems_zero_hdr = \<lparr>mh_uiID = 0, mh_uiZoneID = 0, mh_TimeSec = 0, mh_ucIsFree = MEMS_FREE,
     mh_DebugStr = [], mh_DelStr = []\<rparr>"

theorem mems_gc_several_witness:
  "\<exists>m p m'. mems_live m 1 = {p} \<and> mems_time m p = 5 \<and>
     mems_garbage_collector (\<lambda>_ _. Some mems_zero_hdr) m 60 1000 = Some m' \<and> p \<in> mems_live m' 1"
proof -
  let ?d = mems_demo2
  have len: "length (mi_stMEMSZONE ?d) = 2" using mems_demo2_facts(1,4) by (simp add: mems_wf_def)
  have v: "mems_valid ?d 1" using mems_demo2_facts(1) len by (simp add: mems_valid_def)
  then have "mems_cells ?d 1 \<noteq> {}"
    by (auto simp: mems_valid_def mems_wf_def memszone_ok_def memszone_wf_def mems_cells_def)
  then obtain m p where m: "mems_alloc ?d 64 1 5 = Some (m, Some p)" "mems_valid m 1" "mems_live m 1 = {p}"
    "mems_frame ?d m 1" "p \<in> mems_cells ?d 1"
    using mems_alloc_ok [OF v, of 64 5] mems_demo2_facts(3) mems_demo_body(3) by auto
  have maps: "map memszone_geom (mi_stMEMSZONE m) = map memszone_geom (mi_stMEMSZONE ?d)"
    and cnt: "mi_uiZoneCnt m = 2" using m(4) mems_demo2_facts(4) by (simp_all add: mems_frame_def)
  have len': "length (mi_stMEMSZONE m) = 2" using map_eq_imp_length_eq [OF maps] len by simp
  have geom: "memszone_geom (mi_stMEMSZONE m ! k) = memszone_geom (mi_stMEMSZONE ?d ! k)" if "k < 2" for k
    using arg_cong [OF maps, of "\<lambda>xs. xs ! k"] that len len' by simp
  note starts = memszone_geom_fields(1) [OF geom, of 0] memszone_geom_fields(1) [OF geom, of 1]
  have "(\<Union>z \<in> set (mi_stMEMSZONE m). memszone_nodes z) = (\<Union>z \<in> set (mi_stMEMSZONE ?d). memszone_nodes z)"
    using memszone_geom_nodes(1) [OF geom] len len' by (simp add: mems_two_zones)
  then have dom: "dom (mi_hdr m) = (\<Union>z \<in> set (mi_stMEMSZONE m). memszone_nodes z)"
    using mems_alloc_time(3) [OF v m(1)] mems_demo2_facts(5) by simp
  have quiet: "mems_raw_quiet (\<lambda>_ _. Some mems_zero_hdr)"
    by (simp add: mems_raw_quiet_def mems_zero_hdr_def)
  have wf: "mems_wf m" using m(2) by (simp add: mems_valid_def)
  have two: "2 \<le> unat (mi_uiZoneCnt m)" "0 < mz_offsetNodeStart (mi_stMEMSZONE m ! 0)"
    using cnt starts mems_demo2_starts by simp_all
  have "p - stMEMSNODEHDR_SIZE \<in> memszone_nodes (mi_stMEMSZONE ?d ! 1)" using m(5) by (simp add: mems_cells_iff)
  moreover have "memszone_wf (mi_stMEMSZONE ?d ! 1)"
    using v by (simp add: mems_valid_def mems_wf_def memszone_ok_def)
  ultimately have "p - stMEMSNODEHDR_SIZE + memszone_stride (mi_stMEMSZONE ?d ! 1) \<le> 5160"
    using memszone_node_range(2) mems_demo2_starts(3) by metis
  then have "p - stMEMSNODEHDR_SIZE < 5160" using memszone_stride_pos [of "mi_stMEMSZONE ?d ! 1"] by linarith
  then have low: "p - stMEMSNODEHDR_SIZE < mz_offsetNodeStart (mi_stMEMSZONE m ! 0) + mz_offsetNodeStart (mi_stMEMSZONE m ! 1)"
    using starts mems_demo2_starts by simp
  obtain m' where m': "mems_garbage_collector (\<lambda>_ _. Some mems_zero_hdr) m 60 1000 = Some m'"
    "\<forall>k p. 0 < unat k \<and> unat k < unat (mi_uiZoneCnt m) \<and> p \<in> mems_live m k \<and>
       p - stMEMSNODEHDR_SIZE < mz_offsetNodeStart (mi_stMEMSZONE m ! 0) + mz_offsetNodeStart (mi_stMEMSZONE m ! 1)
       \<longrightarrow> p \<in> mems_live m' k"
    using mems_gc_several [OF wf two(1) dom two(2) quiet, of 60 1000] by blast
  have "p \<in> mems_live m' 1" using m'(2) m(3) low cnt by simp
  moreover have "mems_time m p = 5" by (rule mems_alloc_time(1) [OF v m(1)])
  ultimately show ?thesis using m(3) m'(1) by blast
qed

end
