(* ===== verification/NifoProps.thy ===== *)
theory NifoProps
  imports Nifo MemsGc
begin

text \<open>
  Messages of \<open>nifo.c\<close> as streams of bytes. A chain of nodes carries the concatenation of its
  payloads; the writer appends a record to that stream and takes nodes as it needs them, and
  changes no other node of the zone.
\<close>

section \<open>Chains\<close>

text \<open>The zone of the process, with nodes that hold a \<open>NIFO\<close> structure and a record header; offset 0
  stands for NULL.\<close>

definition nifo_zone :: "nifo \<Rightarrow> u32 \<Rightarrow> bool" where
  "nifo_zone s zid \<longleftrightarrow> mems_valid (nf_mems s) zid \<and> zid \<noteq> INVALID_ID \<and>
     nf_procID s < length (mi_uiMatrixZoneID (nf_mems s)) \<and> mi_uiMatrixZoneID (nf_mems s) ! nf_procID s = zid \<and>
     mi_uiMemNodeHdrSize (nf_mems s) = word_of_int stMEMSNODEHDR_SIZE \<and>
     (\<forall>p \<in> mems_cells (nf_mems s) zid. 0 < p) \<and>
     NIFO_SIZE + TLV_SIZE \<le> uint (mems_body (nf_mems s) zid) \<and>
     stMEMSNODEHDR_SIZE + uint (mems_body (nf_mems s) zid) < 2 ^ 31"

text \<open>Bytes of payload a node has room for.\<close>

definition nifo_cap :: "nifo \<Rightarrow> u32 \<Rightarrow> nat" where
  "nifo_cap s zid = nat (uint (mems_body (nf_mems s) zid) - NIFO_SIZE)"

definition nifo_node_ok :: "nifo \<Rightarrow> nat \<Rightarrow> offset \<Rightarrow> bool" where
  "nifo_node_ok s cap p \<longleftrightarrow> (\<exists>n. nf_node s p = Some n \<and> nn_maxoffset n = NIFO_SIZE + int cap \<and>
     NIFO_SIZE \<le> nn_lastoffset n \<and> nn_lastoffset n \<le> nn_maxoffset n)"

definition nifo_fill :: "nifo \<Rightarrow> offset \<Rightarrow> nat" where
  "nifo_fill s p = (case nf_node s p of None \<Rightarrow> 0 | Some n \<Rightarrow> nat (nn_lastoffset n - NIFO_SIZE))"

definition nifo_payload :: "nifo \<Rightarrow> offset \<Rightarrow> u8 list" where
  "nifo_payload s p = rd_bytes (nf_mem s) (p + NIFO_SIZE) (nifo_fill s p)"

text \<open>The nodes \<open>ps\<close>, the head first, carry one message: they are linked by \<open>cont\<close>, in use, and all
  but the last are full. The message is the stream of their payloads.\<close>

definition nifo_chain :: "nifo \<Rightarrow> u32 \<Rightarrow> offset list \<Rightarrow> bool" where
  "nifo_chain s zid ps \<longleftrightarrow> cring (nf_link s) (map (\<lambda>p. p + CONT_OFF) ps) \<and>
     set ps \<subseteq> mems_live (nf_mems s) zid \<and> (\<forall>p \<in> set ps. nifo_node_ok s (nifo_cap s zid) p) \<and>
     (\<forall>p \<in> set (butlast ps). nifo_fill s p = nifo_cap s zid)"

definition nifo_stream :: "nifo \<Rightarrow> offset list \<Rightarrow> u8 list" where
  "nifo_stream s ps = concat (map (nifo_payload s) ps)"

lemma length_nifo_payload [simp]: "length (nifo_payload s p) = nifo_fill s p"
  by (simp add: nifo_payload_def)

lemma nifo_stream_simps [simp]:
  "nifo_stream s [] = []" "nifo_stream s (p # ps) = nifo_payload s p @ nifo_stream s ps"
  "nifo_stream s (ps @ qs) = nifo_stream s ps @ nifo_stream s qs"
  by (simp_all add: nifo_stream_def)

lemma nifo_stream_cong: "(\<And>p. p \<in> set ps \<Longrightarrow> nifo_payload s p = nifo_payload s' p) \<Longrightarrow> nifo_stream s ps = nifo_stream s' ps"
  by (induction ps) simp_all

lemma nifo_chain_ne: "nifo_chain s zid ps \<Longrightarrow> ps \<noteq> []"
  by (auto simp: nifo_chain_def)

lemma nifo_chain_distinct: "nifo_chain s zid ps \<Longrightarrow> distinct ps"
  using cring_distinct [of "nf_link s" "map (\<lambda>p. p + CONT_OFF) ps"] by (simp add: nifo_chain_def distinct_map)

lemma nifo_node_okD:
  assumes "nifo_node_ok s cap p"
  obtains n where "nf_node s p = Some n" "nn_maxoffset n = NIFO_SIZE + int cap"
    "nn_lastoffset n = NIFO_SIZE + int (nifo_fill s p)" "nifo_fill s p \<le> cap"
  using assms by (auto simp: nifo_node_ok_def nifo_fill_def nat_le_iff)

lemma nifo_node_ok_fill: "nifo_node_ok s cap p \<Longrightarrow> nifo_fill s p \<le> cap"
  by (auto simp: nifo_node_ok_def nifo_fill_def)

lemma nifo_cap_body: "nifo_zone s zid \<Longrightarrow> NIFO_SIZE + int (nifo_cap s zid) = uint (mems_body (nf_mems s) zid)"
  "nifo_zone s zid \<Longrightarrow> 8 \<le> nifo_cap s zid"
  unfolding nifo_zone_def nifo_cap_def TLV_SIZE_def NIFO_SIZE_def by linarith+

text \<open>Nodes in use are a body apart.\<close>

lemma nifo_apart:
  assumes "mems_valid m zid" "p \<in> mems_live m zid" "q \<in> mems_live m zid" "p \<noteq> q"
  shows "p + uint (mems_body m zid) + stMEMSNODEHDR_SIZE \<le> q \<or> q + uint (mems_body m zid) + stMEMSNODEHDR_SIZE \<le> p"
  using assms mems_live_cells [of m zid] by (intro mems_cells_apart) (auto simp: mems_valid_def)

text \<open>What a step on the chain \<open>ps\<close> does not touch: the other nodes of the zone, and every \<open>nont\<close> link.\<close>

definition nifo_other :: "nifo \<Rightarrow> nifo \<Rightarrow> u32 \<Rightarrow> offset list \<Rightarrow> bool" where
  "nifo_other s s' zid ps \<longleftrightarrow>
     mems_frame (nf_mems s) (nf_mems s') zid \<and> nf_procID s' = nf_procID s \<and>
     (\<forall>q \<in> mems_live (nf_mems s) zid. nf_link s' (q + NONT_OFF) = nf_link s (q + NONT_OFF) \<and>
        (q \<notin> set ps \<longrightarrow> nf_node s' q = nf_node s q \<and> nf_link s' (q + CONT_OFF) = nf_link s (q + CONT_OFF) \<and>
           (nifo_fill s q \<le> nifo_cap s zid \<longrightarrow> nifo_payload s' q = nifo_payload s q)))"

text \<open>A step makes the chain longer by the nodes \<open>qs\<close> and the bytes \<open>bs\<close>.\<close>

definition nifo_grow :: "nifo \<Rightarrow> nifo \<Rightarrow> u32 \<Rightarrow> offset list \<Rightarrow> offset list \<Rightarrow> u8 list \<Rightarrow> bool" where
  "nifo_grow s s' zid ps qs bs \<longleftrightarrow> nifo_zone s' zid \<and> nifo_cap s' zid = nifo_cap s zid \<and>
     nifo_chain s' zid (ps @ qs) \<and> nifo_stream s' (ps @ qs) = nifo_stream s ps @ bs \<and>
     mems_cells (nf_mems s') zid = mems_cells (nf_mems s) zid \<and>
     mems_live (nf_mems s') zid = mems_live (nf_mems s) zid \<union> set qs \<and>
     set qs \<inter> mems_live (nf_mems s) zid = {} \<and> nifo_other s s' zid ps"

lemma nifo_zone_frame:
  assumes "nifo_zone s zid" "mems_valid m' zid" "mems_frame (nf_mems s) m' zid" "nf_mems s' = m'"
    "nf_procID s' = nf_procID s"
  shows "nifo_zone s' zid" "nifo_cap s' zid = nifo_cap s zid" "mems_cells m' zid = mems_cells (nf_mems s) zid"
proof -
  have len: "unat zid < length (mi_stMEMSZONE (nf_mems s))"
    using assms(1) by (simp add: nifo_zone_def mems_valid_def)
  have body: "mems_body m' zid = mems_body (nf_mems s) zid"
    by (rule mems_valid_geom(3) [OF assms(3) len])
  show "nifo_cap s' zid = nifo_cap s zid" using body assms(4) by (simp add: nifo_cap_def)
  show cells: "mems_cells m' zid = mems_cells (nf_mems s) zid"
    using mems_valid_geom(1) [OF assms(3), of zid] len by simp
  have "mi_uiMatrixZoneID m' = mi_uiMatrixZoneID (nf_mems s)" "mi_uiMemNodeHdrSize m' = mi_uiMemNodeHdrSize (nf_mems s)"
    using assms(3) by (simp_all add: mems_frame_def)
  then show "nifo_zone s' zid" using assms body cells by (simp add: nifo_zone_def)
qed

lemma nifo_grow_trans:
  assumes "nifo_grow s s1 zid ps qs bs" "nifo_grow s1 s2 zid (ps @ qs) rs cs"
  shows "nifo_grow s s2 zid ps (qs @ rs) (bs @ cs)"
proof -
  have o1: "nifo_other s s1 zid ps" and o2: "nifo_other s1 s2 zid (ps @ qs)"
    and l1: "mems_live (nf_mems s1) zid = mems_live (nf_mems s) zid \<union> set qs"
    and d1: "set qs \<inter> mems_live (nf_mems s) zid = {}" and cap: "nifo_cap s1 zid = nifo_cap s zid"
    using assms by (simp_all add: nifo_grow_def)
  have "nifo_other s s2 zid ps"
    unfolding nifo_other_def
  proof (intro conjI ballI impI)
    show "mems_frame (nf_mems s) (nf_mems s2) zid"
      using o1 o2 mems_frame_trans by (auto simp: nifo_other_def)
    show "nf_procID s2 = nf_procID s" using o1 o2 by (simp add: nifo_other_def)
    fix q assume q: "q \<in> mems_live (nf_mems s) zid"
    then have q1: "q \<in> mems_live (nf_mems s1) zid" using l1 by simp
    show "nf_link s2 (q + NONT_OFF) = nf_link s (q + NONT_OFF)"
      using o1 o2 q q1 by (simp add: nifo_other_def)
    assume "q \<notin> set ps"
    moreover from this have "q \<notin> set (ps @ qs)" using q d1 by auto
    ultimately show n2: "nf_node s2 q = nf_node s q" "nf_link s2 (q + CONT_OFF) = nf_link s (q + CONT_OFF)"
      and "nifo_fill s q \<le> nifo_cap s zid \<Longrightarrow> nifo_payload s2 q = nifo_payload s q"
      using o1 o2 q q1 cap by (simp_all add: nifo_other_def nifo_fill_def)
  qed
  moreover have "set (qs @ rs) \<inter> mems_live (nf_mems s) zid = {}"
    using assms(2) l1 d1 by (auto simp: nifo_grow_def)
  ultimately show ?thesis using assms by (simp add: nifo_grow_def Un_assoc)
qed

section \<open>Writing at the end\<close>

lemma nifo_body_disjoint:
  assumes "nifo_zone s zid" "p \<in> mems_live (nf_mems s) zid" "q \<in> mems_live (nf_mems s) zid" "p \<noteq> q"
    "a + int m \<le> int (nifo_cap s zid)" "b + int n \<le> int (nifo_cap s zid)" "0 \<le> a" "0 \<le> b"
  shows "p + NIFO_SIZE + a + int m \<le> q + NIFO_SIZE + b \<or> q + NIFO_SIZE + b + int n \<le> p + NIFO_SIZE + a"
proof -
  have v: "mems_valid (nf_mems s) zid" using assms(1) by (simp add: nifo_zone_def)
  have "0 \<le> stMEMSNODEHDR_SIZE" by (simp add: stMEMSNODEHDR_SIZE_def)
  then show ?thesis
    using nifo_apart [OF v assms(2-4)] nifo_cap_body(1) [OF assms(1)] assms(5-8)
    by (simp add: NIFO_SIZE_def) linarith
qed

lemma nifo_put_grow:
  assumes "nifo_zone s zid" "nifo_chain s zid (ps @ [p])" "nat k \<le> length bs" "0 \<le> k"
    "nifo_fill s p + nat k \<le> nifo_cap s zid"
  shows "\<exists>s'. nifo_put s p k bs = Some s' \<and> nifo_grow s s' zid (ps @ [p]) [] (take (nat k) bs) \<and>
    nifo_fill s' p = nifo_fill s p + nat k"
proof -
  have live: "set (ps @ [p]) \<subseteq> mems_live (nf_mems s) zid" and dis: "distinct (ps @ [p])"
    and full: "\<And>q. q \<in> set ps \<Longrightarrow> nifo_fill s q = nifo_cap s zid"
    and oks: "\<And>q. q \<in> set (ps @ [p]) \<Longrightarrow> nifo_node_ok s (nifo_cap s zid) q"
    using assms(2) nifo_chain_distinct [OF assms(2)] by (auto simp: nifo_chain_def)
  have "nifo_node_ok s (nifo_cap s zid) p" using oks by simp
  then obtain n where n: "nf_node s p = Some n" "nn_maxoffset n = NIFO_SIZE + int (nifo_cap s zid)"
    "nn_lastoffset n = NIFO_SIZE + int (nifo_fill s p)"
    by (rule nifo_node_okD)
  define s' where "s' = s\<lparr>nf_node := (nf_node s)(p \<mapsto> n\<lparr>nn_lastoffset := nn_lastoffset n + k\<rparr>),
    nf_mem := wr_bytes (nf_mem s) (p + nn_lastoffset n) (take (nat k) bs)\<rparr>"
  have r: "nifo_put s p k bs = Some s'" using n(1) assms(4) by (simp add: nifo_put_def s'_def)
  have s'[simp]: "nf_mems s' = nf_mems s" "nf_link s' = nf_link s" "nf_procID s' = nf_procID s"
    "nf_node s' p = Some (n\<lparr>nn_lastoffset := nn_lastoffset n + k\<rparr>)"
    "\<And>q. q \<noteq> p \<Longrightarrow> nf_node s' q = nf_node s q"
    by (simp_all add: s'_def)
  have mem: "nf_mem s' = wr_bytes (nf_mem s) (p + NIFO_SIZE + int (nifo_fill s p)) (take (nat k) bs)"
    using n(3) by (simp add: s'_def add.assoc)
  have cap: "nifo_cap s' zid = nifo_cap s zid" by (simp add: nifo_cap_def)
  have zone: "nifo_zone s' zid" using assms(1) by (simp add: nifo_zone_def)
  have "nn_lastoffset n + k - NIFO_SIZE = int (nifo_fill s p) + k" using n(3) by simp
  moreover have "nifo_fill s' p = nat (nn_lastoffset n + k - NIFO_SIZE)" by (simp add: nifo_fill_def)
  ultimately have fp: "nifo_fill s' p = nifo_fill s p + nat k" using assms(4) by (simp add: nat_add_distrib)
  have fq: "nifo_fill s' q = nifo_fill s q" if "q \<noteq> p" for q
    using that by (simp add: nifo_fill_def)
  have pq: "nifo_payload s' q = nifo_payload s q"
    if q: "q \<noteq> p" "q \<in> mems_live (nf_mems s) zid" "nifo_fill s q \<le> nifo_cap s zid" for q
  proof -
    have "p + NIFO_SIZE + int (nifo_fill s p) + int (nat k) \<le> q + NIFO_SIZE + 0 \<or>
        q + NIFO_SIZE + 0 + int (nifo_fill s q) \<le> p + NIFO_SIZE + int (nifo_fill s p)"
      using live q(1,2) assms(5) q(3) by (intro nifo_body_disjoint [OF assms(1)]) auto
    moreover have "int (length (take (nat k) bs)) = int (nat k)" using assms(3) by simp
    ultimately show ?thesis
      unfolding nifo_payload_def fq [OF q(1)] mem by (intro rd_wr_other) linarith
  qed
  have pp: "nifo_payload s' p = nifo_payload s p @ take (nat k) bs"
  proof -
    have len: "length (take (nat k) bs) = nat k" using assms(3) by simp
    show ?thesis
      unfolding nifo_payload_def fp rd_bytes_add mem
      using rd_wr_same [of "nf_mem s" "p + NIFO_SIZE + int (nifo_fill s p)" "take (nat k) bs"] len
      by (simp add: rd_wr_other)
  qed
  have ok: "nifo_node_ok s' (nifo_cap s zid) q" if "q \<in> set (ps @ [p])" for q
  proof (cases "q = p")
    case True
    have "nifo_node_ok s (nifo_cap s zid) p" using oks by simp
    then show ?thesis using n assms(4,5) True by (simp add: nifo_node_ok_def)
  next
    case False
    then show ?thesis using oks [OF that] by (simp add: nifo_node_ok_def)
  qed
  have chain: "nifo_chain s' zid (ps @ [p])"
    unfolding nifo_chain_def cap
  proof (intro conjI ballI)
    show "nifo_fill s' q = nifo_cap s zid" if "q \<in> set (butlast (ps @ [p]))" for q
      using that fq [of q] full [of q] dis by auto
    show "nifo_node_ok s' (nifo_cap s zid) q" if "q \<in> set (ps @ [p])" for q
      using ok [OF that] .
  qed (use assms(2) in \<open>simp_all add: nifo_chain_def\<close>)
  have "nifo_stream s' ps = nifo_stream s ps"
  proof (rule nifo_stream_cong)
    fix q assume "q \<in> set ps"
    then have "q \<noteq> p" "q \<in> mems_live (nf_mems s) zid" "nifo_fill s q \<le> nifo_cap s zid"
      using live dis full by auto
    then show "nifo_payload s' q = nifo_payload s q" by (rule pq)
  qed
  then have stream: "nifo_stream s' (ps @ [p]) = nifo_stream s (ps @ [p]) @ take (nat k) bs"
    using pp by simp
  have "nifo_other s s' zid (ps @ [p])"
    unfolding nifo_other_def using pq by auto
  then have "nifo_grow s s' zid (ps @ [p]) [] (take (nat k) bs)"
    using zone cap chain stream by (simp add: nifo_grow_def)
  then show ?thesis using r fp by blast
qed

text \<open>A new node: linked to itself twice, empty.\<close>

definition nifo_fresh :: "nifo \<Rightarrow> nifo \<Rightarrow> u32 \<Rightarrow> offset \<Rightarrow> bool" where
  "nifo_fresh s s' zid q \<longleftrightarrow> nifo_zone s' zid \<and> nifo_cap s' zid = nifo_cap s zid \<and>
     q \<in> mems_cells (nf_mems s) zid - mems_live (nf_mems s) zid \<and>
     mems_cells (nf_mems s') zid = mems_cells (nf_mems s) zid \<and>
     mems_live (nf_mems s') zid = insert q (mems_live (nf_mems s) zid) \<and>
     mems_frame (nf_mems s) (nf_mems s') zid \<and> nf_procID s' = nf_procID s \<and>
     nf_link s' = cinit_list_head (cinit_list_head (nf_link s) (q + NONT_OFF)) (q + CONT_OFF) \<and>
     nf_node s' = (nf_node s)(q \<mapsto> \<lparr>nn_from = 0, nn_to = 0, nn_cnt = 0, nn_lastoffset = NIFO_SIZE,
        nn_maxoffset = NIFO_SIZE + int (nifo_cap s zid)\<rparr>) \<and> nf_mem s' = nf_mem s \<and>
     nf_create s' = nf_create s + 1 \<and> nf_del s' = nf_del s"

lemma nifo_zone_mems:
  assumes "nifo_zone s zid"
  obtains z where "mems_zone (nf_mems s) zid = Some z" "mz_uiMemNodeBodySize z = mems_body (nf_mems s) zid"
  using assms by (auto simp: nifo_zone_def mems_zone_def mems_valid_def mems_body_def)

lemma nifo_node_alloc_ok:
  assumes "nifo_zone s zid" "mems_live (nf_mems s) zid \<noteq> mems_cells (nf_mems s) zid"
  shows "\<exists>s' q. nifo_node_alloc s now = Some (s', Some q) \<and> nifo_fresh s s' zid q"
proof -
  have v: "mems_valid (nf_mems s) zid" and idx: "\<not> \<not> nf_procID s < length (mi_uiMatrixZoneID (nf_mems s))"
    "mi_uiMatrixZoneID (nf_mems s) ! nf_procID s = zid" "zid \<noteq> INVALID_ID"
    using assms(1) by (simp_all add: nifo_zone_def)
  obtain z where z: "mems_zone (nf_mems s) zid = Some z" "mz_uiMemNodeBodySize z = mems_body (nf_mems s) zid"
    using nifo_zone_mems [OF assms(1)] .
  obtain m' q where m: "mems_alloc (nf_mems s) (mems_body (nf_mems s) zid) zid now = Some (m', Some q)"
    "q \<in> mems_cells (nf_mems s) zid - mems_live (nf_mems s) zid" "mems_valid m' zid"
    "mems_live m' zid = insert q (mems_live (nf_mems s) zid)" "mems_frame (nf_mems s) m' zid"
    using mems_alloc_ok [OF v order_refl assms(2), of now] by blast
  define s' where "s' = s\<lparr>nf_mems := m',
     nf_link := cinit_list_head (cinit_list_head (nf_link s) (q + NONT_OFF)) (q + CONT_OFF),
     nf_node := (nf_node s)(q \<mapsto> \<lparr>nn_from = 0, nn_to = 0, nn_cnt = 0,
        nn_lastoffset = NIFO_SIZE, nn_maxoffset = uint (mems_body (nf_mems s) zid)\<rparr>),
     nf_create := nf_create s + 1\<rparr>"
  have r: "nifo_node_alloc s now = Some (s', Some q)"
    using idx z m(1) by (simp add: nifo_node_alloc_def s'_def)
  have fields: "nf_mems s' = m'" "nf_procID s' = nf_procID s" by (simp_all add: s'_def)
  have "nifo_fresh s s' zid q"
    unfolding nifo_fresh_def
    using nifo_zone_frame [OF assms(1) m(3,5) fields] m(2,4,5) fields nifo_cap_body(1) [OF assms(1)]
    by (simp add: s'_def)
  with r show ?thesis by blast
qed

lemma nifo_node_alloc_full:
  assumes "nifo_zone s zid" "mems_live (nf_mems s) zid = mems_cells (nf_mems s) zid"
  shows "\<exists>m'. nifo_node_alloc s now = Some (s\<lparr>nf_mems := m'\<rparr>, None) \<and> mems_valid m' zid \<and>
    mems_live m' zid = mems_live (nf_mems s) zid \<and> mems_frame (nf_mems s) m' zid"
proof -
  have v: "mems_valid (nf_mems s) zid" and idx: "\<not> \<not> nf_procID s < length (mi_uiMatrixZoneID (nf_mems s))"
    "mi_uiMatrixZoneID (nf_mems s) ! nf_procID s = zid" "zid \<noteq> INVALID_ID"
    using assms(1) by (simp_all add: nifo_zone_def)
  obtain z where z: "mems_zone (nf_mems s) zid = Some z" "mz_uiMemNodeBodySize z = mems_body (nf_mems s) zid"
    using nifo_zone_mems [OF assms(1)] .
  obtain m' where m: "mems_alloc (nf_mems s) (mems_body (nf_mems s) zid) zid now = Some (m', None)"
    "mems_valid m' zid" "mems_live m' zid = mems_live (nf_mems s) zid" "mems_frame (nf_mems s) m' zid"
    using mems_alloc_full [OF v order_refl assms(2), of now] by blast
  show ?thesis
    using idx z m by (intro exI [of _ m']) (simp add: nifo_node_alloc_def)
qed

text \<open>The links of two nodes in use are apart, the two links of a node too.\<close>

lemma nifo_links_apart:
  assumes "nifo_zone s zid" "p \<in> mems_cells (nf_mems s) zid" "q \<in> mems_cells (nf_mems s) zid"
  shows "p + NONT_OFF \<noteq> q + CONT_OFF"
proof (cases "p = q")
  case False
  have "mems_wf (nf_mems s)" "unat zid < length (mi_stMEMSZONE (nf_mems s))"
    using assms(1) by (simp_all add: nifo_zone_def mems_valid_def)
  from mems_cells_apart [OF this(1) this(2) this(2) assms(2,3) False]
  show ?thesis using assms(1)
    by (auto simp: nifo_zone_def NIFO_SIZE_def TLV_SIZE_def NONT_OFF_def CONT_OFF_def stMEMSNODEHDR_SIZE_def)
qed (simp add: NONT_OFF_def CONT_OFF_def)

lemma nifo_extend_full:
  assumes "nifo_zone s zid" "nifo_chain s zid ps" "mems_live (nf_mems s) zid = mems_cells (nf_mems s) zid"
  shows "\<exists>s'. nifo_extend s now p = Some (s', None) \<and> nifo_grow s s' zid ps [] [] \<and>
    mems_live (nf_mems s') zid = mems_cells (nf_mems s') zid"
proof -
  obtain m' where m: "nifo_node_alloc s now = Some (s\<lparr>nf_mems := m'\<rparr>, None)" "mems_valid m' zid"
    "mems_live m' zid = mems_live (nf_mems s) zid" "mems_frame (nf_mems s) m' zid"
    using nifo_node_alloc_full [OF assms(1,3), of now] by blast
  define s' where "s' = s\<lparr>nf_mems := m'\<rparr>"
  have f: "nf_mems s' = m'" "nf_procID s' = nf_procID s" "nf_link s' = nf_link s" "nf_node s' = nf_node s"
    "nf_mem s' = nf_mem s"
    by (simp_all add: s'_def)
  note zone = nifo_zone_frame [OF assms(1) m(2,4) f(1,2)]
  have fill: "nifo_fill s' q = nifo_fill s q" for q using f by (simp add: nifo_fill_def)
  have pay: "nifo_payload s' q = nifo_payload s q" for q using f fill by (simp add: nifo_payload_def)
  have "nifo_chain s' zid ps"
    using assms(2) zone(2) f m(3) fill by (simp add: nifo_chain_def nifo_node_ok_def)
  moreover have "nifo_stream s' ps = nifo_stream s ps" by (rule nifo_stream_cong) (rule pay)
  moreover have "nifo_other s s' zid ps" using f m(4) pay by (simp add: nifo_other_def)
  ultimately have "nifo_grow s s' zid ps [] []" using zone m(3) f(1) by (simp add: nifo_grow_def)
  moreover have "nifo_extend s now p = Some (s', None)" using m(1) by (simp add: nifo_extend_def s'_def)
  ultimately show ?thesis using m(3) zone(3) f(1) assms(3) by auto
qed

lemma nifo_extend_ok:
  assumes "nifo_zone s zid" "nifo_chain s zid (ps @ [p])" "nifo_fill s p = nifo_cap s zid"
    "mems_live (nf_mems s) zid \<noteq> mems_cells (nf_mems s) zid"
  shows "\<exists>s' q. nifo_extend s now p = Some (s', Some q) \<and> nifo_grow s s' zid (ps @ [p]) [q] [] \<and> nifo_fill s' q = 0"
proof -
  let ?on = "\<lambda>r. r + CONT_OFF"
  have live: "set (ps @ [p]) \<subseteq> mems_live (nf_mems s) zid"
    and full: "\<And>r. r \<in> set (ps @ [p]) \<Longrightarrow> nifo_fill s r = nifo_cap s zid"
    and oks: "\<And>r. r \<in> set (ps @ [p]) \<Longrightarrow> nifo_node_ok s (nifo_cap s zid) r"
    and ring: "cring (nf_link s) (map ?on (ps @ [p]))"
    using assms(2,3) by (auto simp: nifo_chain_def)
  have lc: "mems_live (nf_mems s) zid \<subseteq> mems_cells (nf_mems s) zid" by (rule mems_live_cells)
  obtain s1 q where a: "nifo_node_alloc s now = Some (s1, Some q)" "nifo_fresh s s1 zid q"
    using nifo_node_alloc_ok [OF assms(1,4), of now] by blast
  have q: "q \<in> mems_cells (nf_mems s) zid" "q \<notin> mems_live (nf_mems s) zid" using a(2) by (simp_all add: nifo_fresh_def)
  have link1: "nf_link s1 = cinit_list_head (cinit_list_head (nf_link s) (q + NONT_OFF)) (q + CONT_OFF)"
    using a(2) by (simp add: nifo_fresh_def)
  have keep1: "nf_link s1 y = nf_link s y" if "y \<noteq> q + NONT_OFF" "y \<noteq> q + CONT_OFF" for y
    using that link1 by (simp add: cinit_list_head_def)
  have cont_ne: "r + CONT_OFF \<noteq> q + NONT_OFF" "r + CONT_OFF \<noteq> q + CONT_OFF"
    "r + NONT_OFF \<noteq> q + CONT_OFF" "r + NONT_OFF \<noteq> q + NONT_OFF"
    if "r \<in> mems_live (nf_mems s) zid" for r
    using nifo_links_apart [OF assms(1) q(1), of r] nifo_links_apart [OF assms(1) _ q(1), of r] that q(2) lc by auto
  have "cring (nf_link s1) (map ?on (ps @ [p]))"
    by (rule cring_cong [OF ring]) (use live cont_ne keep1 in auto)
  then have "cring (nf_link s1) (map ?on ps @ [?on p])" by simp
  then have ring1: "cring (nf_link s1) (?on p # map ?on ps)" using cring_rotate by fastforce
  have out: "?on q \<notin> set (?on p # map ?on ps)" using live q(2) by auto
  have dom: "?on q \<in> dom (nf_link s1)" using link1 by (simp add: cinit_list_head_def)
  obtain h' where h: "clist_add_head (nf_link s1) (?on q) (?on p) = Some h'"
    "cring h' (?on p # ?on q # map ?on ps)" "dom h' = dom (nf_link s1)"
    "\<And>y. y \<notin> set (?on p # ?on q # map ?on ps) \<Longrightarrow> h' y = nf_link s1 y"
    by (rule clist_add_head_ring [OF ring1 out dom]) (rule that; assumption)
  define s' where "s' = s1\<lparr>nf_link := h'\<rparr>"
  have f: "nf_mems s' = nf_mems s1" "nf_procID s' = nf_procID s1" "nf_link s' = h'" "nf_node s' = nf_node s1"
    "nf_mem s' = nf_mem s1"
    by (simp_all add: s'_def)
  have r: "nifo_extend s now p = Some (s', Some q)"
    using a(1) h(1) by (simp add: nifo_extend_def nifo_node_link_cont_next_def nifo_on_links_def s'_def)
  have "nifo_zone s1 zid" "nifo_cap s1 zid = nifo_cap s zid" using a(2) by (simp_all add: nifo_fresh_def)
  moreover have "nifo_zone s' zid = nifo_zone s1 zid" "nifo_cap s' zid = nifo_cap s1 zid"
    unfolding nifo_cap_def nifo_zone_def f(1,2) by (rule refl)+
  ultimately have cap: "nifo_cap s' zid = nifo_cap s zid" and zone: "nifo_zone s' zid" by simp_all
  have fill: "nifo_fill s' r = nifo_fill s r" and node: "nf_node s' r = nf_node s r" if "r \<noteq> q" for r
    using a(2) f that by (simp_all add: nifo_fill_def nifo_fresh_def)
  have fillq: "nifo_fill s' q = 0" using a(2) f by (simp add: nifo_fill_def nifo_fresh_def)
  have mem: "nf_mem s' = nf_mem s" using a(2) f by (simp add: nifo_fresh_def)
  have pay: "nifo_payload s' r = nifo_payload s r" if "r \<noteq> q" for r
    using fill [OF that] mem by (simp add: nifo_payload_def)
  have nq: "r \<noteq> q" if "r \<in> set (ps @ [p])" for r using that live q(2) by auto
  have ring': "cring h' (map ?on (ps @ [p, q]))"
    using cring_rotate [of h' "[?on p, ?on q]" "map ?on ps"] h(2) by simp
  have "nifo_chain s' zid (ps @ [p] @ [q])"
    unfolding nifo_chain_def cap
  proof (intro conjI ballI)
    show "cring (nf_link s') (map ?on (ps @ [p] @ [q]))" using ring' f by simp
    show "set (ps @ [p] @ [q]) \<subseteq> mems_live (nf_mems s') zid"
      using live a(2) f by (auto simp: nifo_fresh_def)
    show "nifo_node_ok s' (nifo_cap s zid) r" if "r \<in> set (ps @ [p] @ [q])" for r
    proof (cases "r = q")
      case True
      then show ?thesis using a(2) f by (simp add: nifo_node_ok_def nifo_fresh_def)
    next
      case False
      then have "nifo_node_ok s (nifo_cap s zid) r" using oks that by auto
      then show ?thesis using node [OF False] by (simp add: nifo_node_ok_def)
    qed
    show "nifo_fill s' r = nifo_cap s zid" if "r \<in> set (butlast (ps @ [p] @ [q]))" for r
    proof -
      have "butlast (ps @ [p] @ [q]) = ps @ [p]" by (simp add: butlast_append)
      then have "r \<in> set (ps @ [p])" using that by simp
      then show ?thesis using full fill [OF nq] by metis
    qed
  qed
  moreover have "nifo_stream s' ((ps @ [p]) @ [q]) = nifo_stream s (ps @ [p]) @ []"
  proof -
    have "nifo_stream s' (ps @ [p]) = nifo_stream s (ps @ [p])"
      by (rule nifo_stream_cong) (rule pay, rule nq)
    moreover have "nifo_payload s' q = []" using fillq by (simp add: nifo_payload_def)
    ultimately show ?thesis by (simp add: nifo_stream_def)
  qed
  moreover have "nifo_other s s' zid (ps @ [p])"
    unfolding nifo_other_def
  proof (intro conjI ballI impI)
    show "mems_frame (nf_mems s) (nf_mems s') zid" "nf_procID s' = nf_procID s"
      using a(2) f by (simp_all add: nifo_fresh_def)
    fix r assume r: "r \<in> mems_live (nf_mems s) zid"
    have "r + NONT_OFF \<notin> set (?on p # ?on q # map ?on ps)"
      using nifo_links_apart [OF assms(1), of r] live lc r q(1) by auto
    then show "nf_link s' (r + NONT_OFF) = nf_link s (r + NONT_OFF)"
      using h(4) keep1 cont_ne [OF r] f by simp
    assume rp: "r \<notin> set (ps @ [p])"
    have rq: "r \<noteq> q" using r q(2) by auto
    have "r + CONT_OFF \<notin> set (?on p # ?on q # map ?on ps)" using rp rq by auto
    then show "nf_link s' (r + CONT_OFF) = nf_link s (r + CONT_OFF)"
      using h(4) keep1 cont_ne [OF r] f by simp
    show "nf_node s' r = nf_node s r" by (rule node [OF rq])
    show "nifo_payload s' r = nifo_payload s r" by (rule pay [OF rq])
  qed
  ultimately have "nifo_grow s s' zid (ps @ [p]) [q] []"
    using zone cap a(2) f by (simp add: nifo_grow_def nifo_fresh_def)
  then show ?thesis using r fillq by blast
qed

section \<open>Records\<close>

text \<open>The bytes that end up in the nodes for a value of \<open>len\<close> bytes, when the node it starts in has
  room for \<open>rem\<close>: each further node starts with the value's first bytes again.\<close>

function nifo_pieces :: "nat \<Rightarrow> nat \<Rightarrow> nat \<Rightarrow> u8 list \<Rightarrow> u8 list" where
  "nifo_pieces cap rem len v =
     (if len \<le> rem \<or> cap = 0 then take len v else take rem v @ nifo_pieces cap cap (len - rem) v)"
  by pat_completeness auto
termination
  by (relation "measure (\<lambda>(cap, rem, len, v). 2 * len + (if rem = 0 then 1 else 0))") (auto split: if_splits)

declare nifo_pieces.simps [simp del]

lemma nifo_pieces_fit: "len \<le> rem \<Longrightarrow> nifo_pieces cap rem len v = take len v"
  by (subst nifo_pieces.simps) simp

lemma nifo_pieces_split: "rem < len \<Longrightarrow> 0 < cap \<Longrightarrow> nifo_pieces cap rem len v = take rem v @ nifo_pieces cap cap (len - rem) v"
  by (subst nifo_pieces.simps) simp

lemma length_nifo_pieces: "len \<le> length v \<Longrightarrow> length (nifo_pieces cap rem len v) = len"
proof (induction cap rem len v rule: nifo_pieces.induct)
  case (1 cap rem len v)
  show ?case
  proof (cases "len \<le> rem \<or> cap = 0")
    case True
    then show ?thesis using 1(2) by (subst nifo_pieces.simps) simp
  next
    case False
    then have "length (nifo_pieces cap cap (len - rem) v) = len - rem" using 1 by simp
    then show ?thesis using 1(2) False by (subst nifo_pieces.simps) simp
  qed
qed

lemma nifo_stream_length:
  assumes "nifo_chain s zid (ps @ [p])"
  shows "length (nifo_stream s (ps @ [p])) = length ps * nifo_cap s zid + nifo_fill s p"
proof -
  have "\<forall>q \<in> set ps. nifo_fill s q = nifo_cap s zid" using assms by (simp add: nifo_chain_def)
  then have "length (nifo_stream s ps) = length ps * nifo_cap s zid" by (induction ps) simp_all
  then show ?thesis by simp
qed

text \<open>No node beyond the head is empty.\<close>

definition nifo_tight :: "nifo \<Rightarrow> u32 \<Rightarrow> offset list \<Rightarrow> bool" where
  "nifo_tight s zid ps \<longleftrightarrow> length ps \<le> 1 \<or> (length ps - 1) * nifo_cap s zid < length (nifo_stream s ps)"

lemma nifo_tightI: "nifo_chain s zid (ps @ [p]) \<Longrightarrow> 0 < nifo_fill s p \<Longrightarrow> nifo_tight s zid (ps @ [p])"
  using nifo_stream_length [of s zid ps p] by (simp add: nifo_tight_def)

text \<open>The outcome of a write: the bytes are there, or the pool of the zone is exhausted.\<close>

definition nifo_done :: "nifo \<Rightarrow> nifo \<Rightarrow> u32 \<Rightarrow> offset list \<Rightarrow> int \<Rightarrow> int set \<Rightarrow> u8 list \<Rightarrow> bool" where
  "nifo_done s s' zid ps r errs bs \<longleftrightarrow>
     (r = 0 \<and> (\<exists>qs. nifo_grow s s' zid ps qs bs \<and> nifo_tight s' zid (ps @ qs))) \<or>
     (r \<in> errs \<and> mems_live (nf_mems s') zid = mems_cells (nf_mems s') zid \<and>
        (\<exists>qs cs. nifo_grow s s' zid ps qs cs \<and> length cs \<le> length bs))"

lemma nifo_done_trans:
  assumes "nifo_grow s s1 zid ps qs bs" "nifo_done s1 s2 zid (ps @ qs) r errs cs"
  shows "nifo_done s s2 zid ps r errs (bs @ cs)"
  using assms(2) unfolding nifo_done_def
proof (elim disjE conjE exE)
  fix rs assume "r = 0" "nifo_grow s1 s2 zid (ps @ qs) rs cs" "nifo_tight s2 zid ((ps @ qs) @ rs)"
  then show "(r = 0 \<and> (\<exists>qs. nifo_grow s s2 zid ps qs (bs @ cs) \<and> nifo_tight s2 zid (ps @ qs))) \<or>
     (r \<in> errs \<and> mems_live (nf_mems s2) zid = mems_cells (nf_mems s2) zid \<and>
        (\<exists>qs ds. nifo_grow s s2 zid ps qs ds \<and> length ds \<le> length (bs @ cs)))"
    using nifo_grow_trans [OF assms(1)] by auto
next
  fix rs ds assume "r \<in> errs" "mems_live (nf_mems s2) zid = mems_cells (nf_mems s2) zid"
    "nifo_grow s1 s2 zid (ps @ qs) rs ds" "length ds \<le> length cs"
  moreover from this have "nifo_grow s s2 zid ps (qs @ rs) (bs @ ds)" using nifo_grow_trans [OF assms(1)] by simp
  moreover have "length (bs @ ds) \<le> length (bs @ cs)" using calculation(4) by simp
  ultimately show "(r = 0 \<and> (\<exists>qs. nifo_grow s s2 zid ps qs (bs @ cs) \<and> nifo_tight s2 zid (ps @ qs))) \<or>
     (r \<in> errs \<and> mems_live (nf_mems s2) zid = mems_cells (nf_mems s2) zid \<and>
        (\<exists>qs ds. nifo_grow s s2 zid ps qs ds \<and> length ds \<le> length (bs @ cs)))"
    by blast
qed

lemma nifo_done_errs: "nifo_done s s' zid ps r errs bs \<Longrightarrow> errs \<subseteq> errs' \<Longrightarrow> nifo_done s s' zid ps r errs' bs"
  unfolding nifo_done_def by blast

lemma nifo_grow_facts:
  assumes "nifo_grow s s' zid ps qs bs"
  shows "nifo_zone s' zid" "nifo_cap s' zid = nifo_cap s zid" "nifo_chain s' zid (ps @ qs)"
    "nifo_stream s' (ps @ qs) = nifo_stream s ps @ bs"
  using assms by (simp_all add: nifo_grow_def)

text \<open>The last node of a chain as the code sees it.\<close>

lemma nifo_last_node:
  assumes "nifo_chain s zid (ps @ [p])"
  obtains n where "nf_node s p = Some n" "nn_maxoffset n = NIFO_SIZE + int (nifo_cap s zid)"
    "nn_lastoffset n = NIFO_SIZE + int (nifo_fill s p)" "nifo_fill s p \<le> nifo_cap s zid"
proof -
  have "nifo_node_ok s (nifo_cap s zid) p" using assms by (simp add: nifo_chain_def)
  then show ?thesis using that nifo_node_okD by blast
qed

lemma s32_eq: "- (2 ^ 31) \<le> x \<Longrightarrow> x < 2 ^ 31 \<Longrightarrow> s32 x = x"
  unfolding s32_def by (rule signed_take_bit_int_eq_self) simp_all

lemma nifo_cap_s32: "nifo_zone s zid \<Longrightarrow> int (nifo_cap s zid) < 2 ^ 31"
  by (simp add: nifo_zone_def nifo_cap_def NIFO_SIZE_def TLV_SIZE_def stMEMSNODEHDR_SIZE_def)

lemma nifo_left:
  assumes "nifo_zone s zid" "nifo_fill s p \<le> nifo_cap s zid"
  shows "s32 (NIFO_SIZE + int (nifo_cap s zid) - (NIFO_SIZE + int (nifo_fill s p))) = int (nifo_cap s zid - nifo_fill s p)"
proof -
  have eq: "NIFO_SIZE + int (nifo_cap s zid) - (NIFO_SIZE + int (nifo_fill s p)) = int (nifo_cap s zid - nifo_fill s p)"
    using assms(2) by (simp add: of_nat_diff)
  show ?thesis unfolding eq by (rule s32_eq) (use nifo_cap_s32 [OF assms(1)] in linarith)+
qed

lemma nifo_copy_loop_done:
  assumes "nifo_zone s zid" "nifo_chain s zid (ps @ [p])" "oldLen < len"
    "unat len < 2 ^ 31" "unat len \<le> length v"
  shows "\<exists>s' r. nifo_copy_loop s now len v p oldLen = Some (s', r) \<and>
    nifo_done s s' zid (ps @ [p]) r {-2}
      (nifo_pieces (nifo_cap s zid) (nifo_cap s zid - nifo_fill s p) (unat (len - oldLen)) v)"
  using assms
proof (induction "2 * unat (len - oldLen) + (if nifo_fill s p = nifo_cap s zid then 1 else 0)"
    arbitrary: s ps p oldLen rule: less_induct)
  case (less s p oldLen ps)
  define cap where "cap = nifo_cap s zid"
  define R where "R = unat (len - oldLen)"
  define rem where "rem = cap - nifo_fill s p"
  have cap8: "8 \<le> cap" using nifo_cap_body(2) [OF less.prems(1)] by (simp add: cap_def)
  obtain n where n: "nf_node s p = Some n" "nn_maxoffset n = NIFO_SIZE + int (nifo_cap s zid)"
    "nn_lastoffset n = NIFO_SIZE + int (nifo_fill s p)" "nifo_fill s p \<le> nifo_cap s zid"
    using nifo_last_node [OF less.prems(2)] .
  have le: "oldLen \<le> len" using less.prems(3) by simp
  have R: "R = unat len - unat oldLen" "0 < R" "R \<le> unat len"
    using unat_sub [OF le] less.prems(3) by (simp_all add: R_def word_less_nat_alt)
  have R31: "R < 2 ^ 31" using R(3) less.prems(4) by simp
  have copyLen: "sint (len - oldLen) = int R"
  proof -
    have "uint (len - oldLen) = int R" by (simp add: R_def)
    then show ?thesis using R31 by (simp add: sint_uint signed_take_bit_int_eq_self)
  qed
  have remain: "s32 (nn_maxoffset n - nn_lastoffset n) = int rem"
    unfolding n(2,3) rem_def cap_def by (rule nifo_left [OF less.prems(1) n(4)])
  have advance: "unat (oldLen + word_of_int (int k)) = unat oldLen + k" if "k \<le> R" for k
  proof -
    have k: "unat oldLen + k < 2 ^ 32" using that R(1) less.prems(3,4) by (simp add: word_less_nat_alt)
    then have uk: "unat (of_nat k :: u32) = k" by (simp add: unat_of_nat)
    have "unat (oldLen + of_nat k) = (unat oldLen + unat (of_nat k :: u32)) mod 2 ^ 32"
      by (simp add: unat_word_ariths)
    then show ?thesis using uk k by simp
  qed
  show ?case
  proof (cases "R \<le> rem")
    case True
    have fits: "nifo_fill s p + R \<le> nifo_cap s zid" using True n(4) by (simp add: rem_def cap_def)
    obtain s1 where s1: "nifo_put s p (int R) v = Some s1" "nifo_grow s s1 zid (ps @ [p]) [] (take R v)"
      "nifo_fill s1 p = nifo_fill s p + R"
      using nifo_put_grow [OF less.prems(1,2), of "int R" v] fits R(3) less.prems(5) by auto
    have "unat (oldLen + word_of_int (int R)) = unat len"
      using advance [of R] R(1) less.prems(3) by (simp add: word_less_nat_alt)
    then have stop: "\<not> oldLen + word_of_int (int R) < len" by (simp add: word_less_nat_alt)
    have "nifo_copy_loop s1 now len v p (oldLen + word_of_int (int R)) = Some (s1, 0)"
      using stop by (subst nifo_copy_loop.simps) simp
    then have run: "nifo_copy_loop s now len v p oldLen = Some (s1, 0)"
      using less.prems(3) n(1) True copyLen remain s1(1)
      by (subst nifo_copy_loop.simps) (simp add: Let_def)
    have "nifo_tight s1 zid ((ps @ [p]) @ [])"
      using nifo_tightI [of s1 zid ps p] nifo_grow_facts(3) [OF s1(2)] s1(3) R(2) by simp
    then have "nifo_done s s1 zid (ps @ [p]) 0 {-2} (take R v)"
      unfolding nifo_done_def using s1(2) by blast
    then show ?thesis using run True by (simp add: nifo_pieces_fit R_def rem_def cap_def)
  next
    case False
    have fill: "nifo_fill s p + rem = nifo_cap s zid" using n(4) by (simp add: rem_def cap_def)
    obtain s1 where s1: "nifo_put s p (int rem) v = Some s1" "nifo_grow s s1 zid (ps @ [p]) [] (take rem v)"
      "nifo_fill s1 p = nifo_cap s zid"
      using nifo_put_grow [OF less.prems(1,2), of "int rem" v] fill False R(3) less.prems(5) by auto
    note g1 = nifo_grow_facts [OF s1(2)]
    have chain1: "nifo_chain s1 zid (ps @ [p])" using g1(3) by simp
    have full1: "nifo_fill s1 p = nifo_cap s1 zid" using s1(3) g1(2) by simp
    have pieces: "nifo_pieces cap rem R v = take rem v @ nifo_pieces cap cap (R - rem) v"
      using False cap8 by (intro nifo_pieces_split) simp_all
    have unfold: "nifo_copy_loop s now len v p oldLen = do {
        (s2, r) \<leftarrow> nifo_extend s1 now p;
        case r of None \<Rightarrow> Some (s2, -2)
        | Some q \<Rightarrow> nifo_copy_loop s2 now len v q (oldLen + word_of_int (int rem))}"
      using less.prems(3) n(1) False copyLen remain s1(1)
      by (subst nifo_copy_loop.simps) (simp add: Let_def)
    show ?thesis
    proof (cases "mems_live (nf_mems s1) zid = mems_cells (nf_mems s1) zid")
      case True
      obtain s2 where s2: "nifo_extend s1 now p = Some (s2, None)" "nifo_grow s1 s2 zid (ps @ [p]) [] []"
        "mems_live (nf_mems s2) zid = mems_cells (nf_mems s2) zid"
        using nifo_extend_full [OF g1(1) chain1 True, of now p] by blast
      have "nifo_grow s s2 zid (ps @ [p]) [] (take rem v)"
        using nifo_grow_trans [OF s1(2), of s2 "[]" "[]"] s2(2) by simp
      moreover have "length (take rem v) \<le> length (nifo_pieces cap rem R v)" unfolding pieces by simp
      ultimately have "nifo_done s s2 zid (ps @ [p]) (-2) {-2} (nifo_pieces cap rem R v)"
        unfolding nifo_done_def using s2(3) by blast
      then show ?thesis using unfold s2(1) by (simp add: R_def rem_def cap_def)
    next
      case more: False
      obtain s2 q where s2: "nifo_extend s1 now p = Some (s2, Some q)" "nifo_grow s1 s2 zid (ps @ [p]) [q] []"
        "nifo_fill s2 q = 0"
        using nifo_extend_ok [OF g1(1) chain1 full1 more, of now] by blast
      note g2 = nifo_grow_facts [OF s2(2)]
      have chain2: "nifo_chain s2 zid ((ps @ [p]) @ [q])" using g2(3) by simp
      have cap2: "nifo_cap s2 zid = cap" using g1(2) g2(2) by (simp add: cap_def)
      let ?old = "oldLen + word_of_int (int rem)"
      have old: "unat ?old = unat oldLen + rem" using advance [of rem] False by simp
      have lt: "?old < len" using old R(1,2) False less.prems(3) by (simp add: word_less_nat_alt)
      have left: "unat (len - ?old) = R - rem"
        using unat_sub [of ?old len] lt old R(1) by simp
      have dec: "2 * unat (len - ?old) + (if nifo_fill s2 q = nifo_cap s2 zid then 1 else 0) <
          2 * unat (len - oldLen) + (if nifo_fill s p = nifo_cap s zid then 1 else 0)"
      proof -
        have "nifo_fill s2 q \<noteq> nifo_cap s2 zid" using s2(3) cap2 cap8 by simp
        moreover have "rem \<noteq> 0 \<or> nifo_fill s p = nifo_cap s zid" using fill by auto
        ultimately show ?thesis unfolding left using False R(2) by (auto simp: R_def [symmetric])
      qed
      obtain s3 r where s3: "nifo_copy_loop s2 now len v q ?old = Some (s3, r)"
        "nifo_done s2 s3 zid ((ps @ [p]) @ [q]) r {-2} (nifo_pieces cap cap (R - rem) v)"
        using less.hyps [OF dec g2(1) chain2 lt less.prems(4,5)] s2(3) cap2 left by auto
      have "nifo_grow s s2 zid (ps @ [p]) [q] (take rem v)"
        using nifo_grow_trans [OF s1(2), of s2 "[q]" "[]"] s2(2) by simp
      from nifo_done_trans [OF this s3(2)]
      have "nifo_done s s3 zid (ps @ [p]) r {-2} (nifo_pieces cap rem R v)" by (simp add: pieces)
      then show ?thesis using unfold s2(1) s3(1) by (simp add: R_def rem_def cap_def)
    qed
  qed
qed

definition nifo_record :: "nat \<Rightarrow> nat \<Rightarrow> u32 \<Rightarrow> u32 \<Rightarrow> u8 list \<Rightarrow> u8 list" where
  "nifo_record cap rem type len v = le32_bytes type @ le32_bytes len @
     nifo_pieces cap (if 8 \<le> rem then rem - 8 else cap - (8 - rem)) (unat len) v"

lemma nifo_cont_prev_head:
  assumes "nifo_chain s zid ps"
  shows "nifo_cont_prev s (hd ps) = Some (last ps)"
proof -
  have ne: "ps \<noteq> []" by (rule nifo_chain_ne [OF assms])
  have "cring (nf_link s) (map (\<lambda>p. p + CONT_OFF) ps)" using assms by (simp add: nifo_chain_def)
  then have "prv (nf_link s) (hd ps + CONT_OFF) = Some (last ps + CONT_OFF)"
    using ne by (simp add: cring_def hd_map last_map)
  then show ?thesis by (auto simp: nifo_cont_prev_def prv_def)
qed

text \<open>The value, after the header.\<close>

lemma nifo_copy_value_done:
  assumes "nifo_zone s zid" "nifo_chain s zid (ps @ [p])" "unat len < 2 ^ 31" "unat len \<le> length v" "0 < nifo_fill s p"
  shows "\<exists>s' r. do { n \<leftarrow> nf_node s p;
        if nn_maxoffset n < nn_lastoffset n + uint len then nifo_copy_loop s now len v p 0
        else do { s2 \<leftarrow> nifo_put s p (uint len) v; Some (s2, 0) } } = Some (s', r) \<and>
    nifo_done s s' zid (ps @ [p]) r {-2} (nifo_pieces (nifo_cap s zid) (nifo_cap s zid - nifo_fill s p) (unat len) v)"
proof -
  define L where "L = unat len"
  have ulen: "uint len = int L" by (simp add: L_def)
  obtain n where n: "nf_node s p = Some n" "nn_maxoffset n = NIFO_SIZE + int (nifo_cap s zid)"
    "nn_lastoffset n = NIFO_SIZE + int (nifo_fill s p)" "nifo_fill s p \<le> nifo_cap s zid"
    using nifo_last_node [OF assms(2)] .
  have c: "nn_maxoffset n < nn_lastoffset n + uint len \<longleftrightarrow> nifo_cap s zid - nifo_fill s p < L"
    unfolding n(2,3) ulen using n(4) by linarith
  show ?thesis
  proof (cases "nifo_cap s zid - nifo_fill s p < L")
    case True
    then have "0 < len" by (simp add: L_def word_less_nat_alt)
    from nifo_copy_loop_done [OF assms(1,2) this assms(3,4), of now]
    show ?thesis using n(1) c True by simp
  next
    case False
    have fit: "nifo_fill s p + L \<le> nifo_cap s zid" using False n(4) by linarith
    obtain s1 where s1: "nifo_put s p (uint len) v = Some s1" "nifo_grow s s1 zid (ps @ [p]) [] (take L v)"
      "nifo_fill s1 p = nifo_fill s p + L"
      using nifo_put_grow [OF assms(1,2), of "uint len" v] fit assms(4) unfolding ulen by (auto simp: L_def)
    have "nifo_tight s1 zid ((ps @ [p]) @ [])"
      using nifo_tightI [of s1 zid ps p] nifo_grow_facts(3) [OF s1(2)] s1(3) assms(5) by simp
    then have "nifo_done s s1 zid (ps @ [p]) 0 {-2} (take L v)"
      unfolding nifo_done_def using s1(2) by blast
    then show ?thesis using n(1) c False s1(1) by (simp add: nifo_pieces_fit L_def)
  qed
qed

lemma nifo_copy_done:
  assumes "nifo_zone s zid" "nifo_chain s zid ps" "unat len < 2 ^ 31" "unat len \<le> length v"
  shows "\<exists>s' r. nifo_copy_tlv_cont s now type len v (hd ps) = Some (s', r) \<and>
    nifo_done s s' zid ps r {-1, -2} (nifo_record (nifo_cap s zid) (nifo_cap s zid - nifo_fill s (last ps)) type len v)"
proof -
  obtain ps0 p where ps: "ps = ps0 @ [p]" using nifo_chain_ne [OF assms(2)] by (cases ps rule: rev_cases) auto
  have chain: "nifo_chain s zid (ps0 @ [p])" using assms(2) ps by simp
  define cap where "cap = nifo_cap s zid"
  define rem where "rem = cap - nifo_fill s p"
  define hdr where "hdr = le32_bytes type @ le32_bytes len"
  have cap8: "8 \<le> cap" using nifo_cap_body(2) [OF assms(1)] by (simp add: cap_def)
  have hdr8: "length hdr = 8" by (simp add: hdr_def)
  define L where "L = unat len"
  have ulen: "uint len = int L" by (simp add: L_def)
  obtain n where n: "nf_node s p = Some n" "nn_maxoffset n = NIFO_SIZE + int cap"
    "nn_lastoffset n = NIFO_SIZE + int (nifo_fill s p)" "nifo_fill s p \<le> cap"
    using nifo_last_node [OF chain] cap_def by metis
  have prev: "nifo_cont_prev s (hd ps) = Some p" using nifo_cont_prev_head [OF assms(2)] ps by simp
  have remain: "s32 (nn_maxoffset n - nn_lastoffset n) = int rem"
    unfolding n(2,3) rem_def cap_def by (rule nifo_left [OF assms(1)]) (use n(4) cap_def in simp)
  show ?thesis
  proof (cases "8 + L \<le> rem")
    case True
    have c: "\<not> nn_maxoffset n < nn_lastoffset n + TLV_SIZE + uint len"
      unfolding n(2,3) ulen TLV_SIZE_def using True n(4) by (simp add: rem_def)
    have bs: "take (8 + L) (hdr @ take L v) = nifo_record cap rem type len v"
      using True assms(4) hdr8 by (simp add: nifo_record_def nifo_pieces_fit hdr_def L_def)
    have nat8: "nat (TLV_SIZE + uint len) = 8 + L"
      unfolding ulen by (simp add: TLV_SIZE_def nat_add_distrib)
    obtain s1 where s1: "nifo_put s p (TLV_SIZE + uint len) (hdr @ take L v) = Some s1"
      "nifo_grow s s1 zid (ps0 @ [p]) [] (nifo_record cap rem type len v)"
      "nifo_fill s1 p = nifo_fill s p + (8 + L)"
    proof -
      have "nifo_fill s p + (8 + L) \<le> nifo_cap s zid" using True n(4) by (simp add: rem_def cap_def)
      moreover have "8 + L \<le> length (hdr @ take L v)" using assms(4) hdr8 by (simp add: L_def)
      moreover have "0 \<le> TLV_SIZE + uint len" by (simp add: TLV_SIZE_def)
      ultimately show ?thesis
        using nifo_put_grow [OF assms(1) chain, of "TLV_SIZE + uint len" "hdr @ take L v"] that
        unfolding nat8 bs by blast
    qed
    have run: "nifo_copy_tlv_cont s now type len v (hd ps) = Some (s1, 0)"
      using prev n(1) c s1(1) by (simp add: nifo_copy_tlv_cont_def hdr_def Let_def L_def)
    have "nifo_tight s1 zid ((ps0 @ [p]) @ [])"
      using nifo_tightI [of s1 zid ps0 p] nifo_grow_facts(3) [OF s1(2)] s1(3) by simp
    then have "nifo_done s s1 zid ps 0 {-1, -2} (nifo_record cap rem type len v)"
      unfolding nifo_done_def ps using s1(2) by blast
    then show ?thesis using run by (simp add: rem_def cap_def ps)
  next
    case False
    have c: "nn_maxoffset n < nn_lastoffset n + TLV_SIZE + uint len"
      unfolding n(2,3) ulen TLV_SIZE_def using False n(4) by (simp add: rem_def)
    let ?rest = "\<lambda>s1 q. do { n1 \<leftarrow> nf_node s1 q;
        if nn_maxoffset n1 < nn_lastoffset n1 + uint len then nifo_copy_loop s1 now len v q 0
        else do { s2 \<leftarrow> nifo_put s1 q (uint len) v; Some (s2, 0) } }"
    show ?thesis
    proof (cases "8 \<le> rem")
      case True
      have c8: "\<not> nn_maxoffset n < nn_lastoffset n + TLV_SIZE"
        unfolding n(2,3) TLV_SIZE_def using True n(4) by (simp add: rem_def)
      have f8: "nifo_fill s p + 8 \<le> nifo_cap s zid" using True n(4) by (simp add: rem_def cap_def)
      obtain s1 where s1: "nifo_put s p TLV_SIZE hdr = Some s1" "nifo_grow s s1 zid (ps0 @ [p]) [] hdr"
        "nifo_fill s1 p = nifo_fill s p + 8"
        using nifo_put_grow [OF assms(1) chain, of TLV_SIZE hdr] f8 hdr8 by (auto simp: TLV_SIZE_def)
      note g1 = nifo_grow_facts [OF s1(2)]
      have chain1: "nifo_chain s1 zid (ps0 @ [p])" using g1(3) by simp
      have run: "nifo_copy_tlv_cont s now type len v (hd ps) = ?rest s1 p"
        using prev n(1) c c8 s1(1) by (simp add: nifo_copy_tlv_cont_def hdr_def Let_def)
      have rem1: "cap - nifo_fill s1 p = rem - 8" using g1(2) s1(3) by (simp add: rem_def cap_def)
      have cap1: "nifo_cap s1 zid = cap" and pos: "0 < nifo_fill s1 p" using g1(2) s1(3) by (simp_all add: cap_def)
      obtain s2 r where s2: "?rest s1 p = Some (s2, r)"
        "nifo_done s1 s2 zid (ps0 @ [p]) r {-2} (nifo_pieces cap (rem - 8) L v)"
        using nifo_copy_value_done [OF g1(1) chain1 assms(3,4) pos, of now]
        unfolding rem1 cap1 L_def [symmetric] by (elim exE conjE) (rule that; assumption)
      have "nifo_done s s2 zid ps r {-2} (hdr @ nifo_pieces cap (rem - 8) L v)"
        using nifo_done_trans [OF s1(2), of s2 r "{-2}"] s2(2) ps by simp
      from nifo_done_errs [OF this, of "{-1, -2}"]
      have "nifo_done s s2 zid ps r {-1, -2} (nifo_record cap rem type len v)"
        using True by (simp add: nifo_record_def hdr_def L_def)
      then show ?thesis using run s2(1) by (simp add: rem_def cap_def ps)
    next
      case small: False
      have c8: "nn_maxoffset n < nn_lastoffset n + TLV_SIZE"
        unfolding n(2,3) TLV_SIZE_def using small n(4) by (simp add: rem_def)
      have fill: "nifo_fill s p + rem = nifo_cap s zid" using n(4) by (simp add: rem_def cap_def)
      obtain s1 where s1: "nifo_put s p (int rem) hdr = Some s1" "nifo_grow s s1 zid (ps0 @ [p]) [] (take rem hdr)"
        "nifo_fill s1 p = nifo_cap s zid"
        using nifo_put_grow [OF assms(1) chain, of "int rem" hdr] fill small hdr8 by auto
      note g1 = nifo_grow_facts [OF s1(2)]
      have chain1: "nifo_chain s1 zid (ps0 @ [p])" using g1(3) by simp
      have full1: "nifo_fill s1 p = nifo_cap s1 zid" using s1(3) g1(2) by simp
      have rest8: "s32 (TLV_SIZE - int rem) = int (8 - rem)"
        using small by (subst s32_eq) (auto simp: TLV_SIZE_def)
      show ?thesis
      proof (cases "mems_live (nf_mems s1) zid = mems_cells (nf_mems s1) zid")
        case True
        obtain s2 where s2: "nifo_extend s1 now p = Some (s2, None)" "nifo_grow s1 s2 zid (ps0 @ [p]) [] []"
          "mems_live (nf_mems s2) zid = mems_cells (nf_mems s2) zid"
          using nifo_extend_full [OF g1(1) chain1 True, of now p] by blast
        have run: "nifo_copy_tlv_cont s now type len v (hd ps) = Some (s2, -1)"
          using prev n(1) c c8 s1(1) remain s2(1) by (simp add: nifo_copy_tlv_cont_def hdr_def Let_def)
        have "nifo_grow s s2 zid ps [] (take rem hdr)"
          using nifo_grow_trans [OF s1(2), of s2 "[]" "[]"] s2(2) ps by simp
        moreover have "length (take rem hdr) \<le> length (nifo_record cap rem type len v)"
          using hdr8 small by (simp add: nifo_record_def)
        ultimately have "nifo_done s s2 zid ps (-1) {-1, -2} (nifo_record cap rem type len v)"
          unfolding nifo_done_def using s2(3) by blast
        then show ?thesis using run by (simp add: rem_def cap_def ps)
      next
        case more: False
        obtain s2 q where s2: "nifo_extend s1 now p = Some (s2, Some q)" "nifo_grow s1 s2 zid (ps0 @ [p]) [q] []"
          "nifo_fill s2 q = 0"
          using nifo_extend_ok [OF g1(1) chain1 full1 more, of now] by blast
        note g2 = nifo_grow_facts [OF s2(2)]
        obtain s3 where s3: "nifo_put s2 q (int (8 - rem)) (drop rem hdr) = Some s3"
          "nifo_grow s2 s3 zid ((ps0 @ [p]) @ [q]) [] (drop rem hdr)" "nifo_fill s3 q = 8 - rem"
        proof -
          define k where "k = 8 - rem"
          have k: "k \<le> length (drop rem hdr)" "take k (drop rem hdr) = drop rem hdr" "nifo_fill s2 q + k \<le> nifo_cap s2 zid"
            using hdr8 cap8 s2(3) g1(2) g2(2) by (simp_all add: k_def cap_def)
          show ?thesis
            using nifo_put_grow [OF g2(1) g2(3), of "int k" "drop rem hdr"] k s2(3) that by (auto simp: k_def [symmetric])
        qed
        note g3 = nifo_grow_facts [OF s3(2)]
        have chain3: "nifo_chain s3 zid ((ps0 @ [p]) @ [q])" using g3(3) by simp
        have cap3: "nifo_cap s3 zid = cap" using g1(2) g2(2) g3(2) by (simp add: cap_def)
        have run: "nifo_copy_tlv_cont s now type len v (hd ps) = ?rest s3 q"
          using prev n(1) c c8 s1(1) remain s2(1) rest8 s3(1)
          by (simp add: nifo_copy_tlv_cont_def hdr_def Let_def)
        have pos: "0 < nifo_fill s3 q" using s3(3) small by simp
        obtain s4 r where s4: "?rest s3 q = Some (s4, r)"
          "nifo_done s3 s4 zid ((ps0 @ [p]) @ [q]) r {-2} (nifo_pieces cap (cap - (8 - rem)) L v)"
          using nifo_copy_value_done [OF g3(1) chain3 assms(3,4) pos, of now]
          unfolding s3(3) cap3 L_def [symmetric] by (elim exE conjE) (rule that; assumption)
        have "nifo_grow s s2 zid ps [q] (take rem hdr)"
          using nifo_grow_trans [OF s1(2), of s2 "[q]" "[]"] s2(2) ps by simp
        then have "nifo_grow s s3 zid ps [q] hdr"
          using nifo_grow_trans [of s s2 zid ps "[q]" "take rem hdr" s3 "[]" "drop rem hdr"] s3(2) ps by simp
        from nifo_done_trans [OF this, of s4 r "{-2}"] s4(2) ps
        have "nifo_done s s4 zid ps r {-2} (hdr @ nifo_pieces cap (cap - (8 - rem)) L v)" by simp
        from nifo_done_errs [OF this, of "{-1, -2}"]
        have "nifo_done s s4 zid ps r {-1, -2} (nifo_record cap rem type len v)"
          using small by (simp add: nifo_record_def hdr_def L_def)
        then show ?thesis using run s4(1) by (simp add: rem_def cap_def ps)
      qed
    qed
  qed
qed

end
