(* ===== verification/NifoRead.thy ===== *)
theory NifoRead
  imports NifoProps
begin

text \<open>
  Reading the records of a message back: the place of a byte of the stream, the gathering loop of
  \<open>nifo_read_tlv_cont\<close>, and what comes back of what was written.
\<close>

section \<open>Places\<close>

lemma nifo_offset_node:
  assumes "nifo_zone s zid" "p \<in> mems_live (nf_mems s) zid" "0 \<le> k" "k < uint (mems_body (nf_mems s) zid)"
  shows "nifo_get_offset_node (nf_mems s) (p + k) = Some p"
proof -
  define m where "m = nf_mems s"
  define z where "z = mi_stMEMSZONE m ! unat zid"
  define body where "body = uint (mems_body m zid)"
  have v: "mems_wf m" "unat zid < length (mi_stMEMSZONE m)" "length (mi_stMEMSZONE m) = unat (mi_uiZoneCnt m)"
    and hdr: "mi_uiMemNodeHdrSize m = word_of_int stMEMSNODEHDR_SIZE" "stMEMSNODEHDR_SIZE + body < 2 ^ 31"
    using assms(1) by (simp_all add: nifo_zone_def mems_valid_def mems_wf_def m_def body_def)
  have ok: "memszone_wf (mi_stMEMSZONE m ! j)" if "j < length (mi_stMEMSZONE m)" for j
    using v(1) that by (simp add: mems_wf_def memszone_ok_def)
  have wz: "memszone_wf z" using ok v(2) by (simp add: z_def)
  have zb: "mz_uiMemNodeBodySize z = mems_body m zid" by (simp add: mems_body_def z_def)
  have pos: "0 \<le> body" "0 \<le> stMEMSNODEHDR_SIZE" "0 < stMEMSNODEHDR_SIZE"
    by (simp_all add: body_def stMEMSNODEHDR_SIZE_def)
  have stride: "memszone_stride z = stMEMSNODEHDR_SIZE + body" by (simp add: memszone_stride_def zb body_def)
  have q: "p - stMEMSNODEHDR_SIZE \<in> memszone_nodes z"
    using assms(2) by (simp add: mems_live_iff memszone_used_def z_def m_def)
  then obtain i where "p - stMEMSNODEHDR_SIZE = slot_at (mz_offsetNodeStart z) (memszone_stride z) i"
    unfolding memszone_nodes_def slots_def by blast
  then have i: "p - stMEMSNODEHDR_SIZE = mz_offsetNodeStart z + memszone_stride z * int i"
    by (simp add: slot_at_def mult.commute)
  have range: "mz_offsetNodeStart z \<le> p + k" "p + k < mz_offsetNodeEnd z"
    using memszone_node_range [OF wz q] assms(3,4) stride pos by (simp_all add: m_def body_def)
  have other: "\<not> p + k < mz_offsetNodeEnd (mi_stMEMSZONE m ! j)" if "j < unat zid" for j
  proof -
    have "mz_offsetNodeEnd (mi_stMEMSZONE m ! j) \<le> mz_offsetNodeStart z"
      using v(1,2) that by (auto simp: mems_wf_def mems_ordered_def sorted_wrt_iff_nth_less z_def)
    then show ?thesis using range(1) by simp
  qed
  have find: "List.find (\<lambda>z. mz_offsetNodeStart z \<le> p + k \<and> p + k < mz_offsetNodeEnd z)
      (take (unat (mi_uiZoneCnt m)) (mi_stMEMSZONE m)) = Some z"
    unfolding find_Some_iff using v(2,3) range other by (intro exI [of _ "unat zid"]) (auto simp: z_def)
  have ustride: "uint (mi_uiMemNodeHdrSize m + mz_uiMemNodeBodySize z) = memszone_stride z"
    using hdr pos unfolding stride zb
    by (simp add: uint_word_ariths body_def stMEMSNODEHDR_SIZE_def)
  have "p + k - mz_offsetNodeStart z = (stMEMSNODEHDR_SIZE + k) + memszone_stride z * int i"
    using i by simp
  moreover have "0 \<le> stMEMSNODEHDR_SIZE + k" "stMEMSNODEHDR_SIZE + k < memszone_stride z"
    using assms(3,4) stride pos by (simp_all add: body_def m_def)
  ultimately have cnt: "(p + k - mz_offsetNodeStart z) div memszone_stride z = int i"
    by (metis add.commute add_cancel_right_left div_mult_self2 div_pos_pos_trivial memszone_stride_pos order_less_irrefl)
  have uhdr: "uint (mi_uiMemNodeHdrSize m) = stMEMSNODEHDR_SIZE"
    unfolding hdr(1) by (simp add: stMEMSNODEHDR_SIZE_def)
  show ?thesis
    unfolding m_def [symmetric] nifo_get_offset_node_def find
    using cnt ustride less_imp_neq [OF memszone_stride_pos [of z]] uhdr i by (simp add: Let_def)
qed

lemma nifo_cont_next_nth:
  assumes "nifo_chain s zid ps" "i < length ps"
  shows "nifo_cont_next s (ps ! i) = Some (if Suc i < length ps then ps ! Suc i else hd ps)"
proof -
  have ring: "cring (nf_link s) (map (\<lambda>p. p + CONT_OFF) ps)" and ne: "ps \<noteq> []"
    using assms by (auto simp: nifo_chain_def)
  have "nxt (nf_link s) (ps ! i + CONT_OFF) = Some ((if Suc i < length ps then ps ! Suc i else hd ps) + CONT_OFF)"
  proof (cases "Suc i < length ps")
    case True
    have "ps = take i ps @ ps ! i # ps ! Suc i # drop (Suc (Suc i)) ps"
      using True by (simp add: Cons_nth_drop_Suc)
    then have "map (\<lambda>p. p + CONT_OFF) ps =
        map (\<lambda>p. p + CONT_OFF) (take i ps) @ (ps ! i + CONT_OFF) # (ps ! Suc i + CONT_OFF) # map (\<lambda>p. p + CONT_OFF) (drop (Suc (Suc i)) ps)"
      by (metis list.simps(9) map_append)
    then show ?thesis using ring True by (auto simp: cring_def cseg_append)
  next
    case False
    then have "i = length ps - 1" using assms(2) by simp
    then have "ps ! i = last ps" using ne by (simp add: last_conv_nth)
    then show ?thesis using ring ne False by (simp add: cring_def last_map hd_map)
  qed
  then show ?thesis by (auto simp: nifo_cont_next_def nxt_def)
qed

text \<open>The bytes of the stream by place: node \<open>i\<close>, \<open>k\<close> bytes into its payload.\<close>

lemma nifo_full_nth:
  assumes "nifo_chain s zid ps" "Suc i < length ps"
  shows "nifo_fill s (ps ! i) = nifo_cap s zid"
proof -
  have "ps ! i \<in> set (butlast ps)" using assms(2) by (auto simp: in_set_conv_nth nth_butlast intro!: exI [of _ i])
  then show ?thesis using assms(1) by (simp add: nifo_chain_def)
qed

lemma nifo_stream_take:
  assumes "nifo_chain s zid ps" "i < length ps"
  shows "length (nifo_stream s (take i ps)) = i * nifo_cap s zid"
  using assms(2)
proof (induction i)
  case (Suc i)
  have "take (Suc i) ps = take i ps @ [ps ! i]" using Suc.prems by (simp add: take_Suc_conv_app_nth)
  then show ?case using Suc nifo_full_nth [OF assms(1), of i] by simp
qed simp

lemma nifo_stream_at:
  assumes "nifo_chain s zid ps" "i < length ps"
  shows "drop (i * nifo_cap s zid) (nifo_stream s ps) = nifo_payload s (ps ! i) @ nifo_stream s (drop (Suc i) ps)"
    "length (nifo_stream s ps) = i * nifo_cap s zid + nifo_fill s (ps ! i) + length (nifo_stream s (drop (Suc i) ps))"
proof -
  have "ps = take i ps @ ps ! i # drop (Suc i) ps" using assms(2) by (simp add: Cons_nth_drop_Suc)
  then have e: "nifo_stream s ps = nifo_stream s (take i ps) @ nifo_payload s (ps ! i) @ nifo_stream s (drop (Suc i) ps)"
    by (metis nifo_stream_simps(2,3))
  show "drop (i * nifo_cap s zid) (nifo_stream s ps) = nifo_payload s (ps ! i) @ nifo_stream s (drop (Suc i) ps)"
    unfolding e using nifo_stream_take [OF assms] by simp
  show "length (nifo_stream s ps) = i * nifo_cap s zid + nifo_fill s (ps ! i) + length (nifo_stream s (drop (Suc i) ps))"
    unfolding e using nifo_stream_take [OF assms] by simp
qed

lemma nifo_slice:
  assumes "nifo_chain s zid ps" "i < length ps" "k + c \<le> nifo_fill s (ps ! i)"
  shows "rd_bytes (nf_mem s) (ps ! i + NIFO_SIZE + int k) c = take c (drop (i * nifo_cap s zid + k) (nifo_stream s ps))"
proof -
  have "drop (i * nifo_cap s zid + k) (nifo_stream s ps) =
      drop k (nifo_payload s (ps ! i) @ nifo_stream s (drop (Suc i) ps))"
    using nifo_stream_at(1) [OF assms(1,2)] by (metis add.commute drop_drop)
  moreover have "drop k (nifo_payload s (ps ! i)) = rd_bytes (nf_mem s) (ps ! i + NIFO_SIZE + int k) (nifo_fill s (ps ! i) - k)"
    unfolding nifo_payload_def by (rule drop_rd_bytes) (use assms(3) in simp)
  ultimately show ?thesis using assms(3) by (simp add: take_rd_bytes)
qed

text \<open>The bytes from place \<open>(i, k)\<close> that the node still has.\<close>

lemma nifo_room:
  assumes "nifo_chain s zid ps" "i < length ps" "i * nifo_cap s zid + k + n \<le> length (nifo_stream s ps)" "k + n \<le> nifo_cap s zid"
  shows "k + n \<le> nifo_fill s (ps ! i)"
proof (cases "Suc i < length ps")
  case True
  then show ?thesis using nifo_full_nth [OF assms(1)] assms(4) by simp
next
  case False
  then show ?thesis using nifo_stream_at(2) [OF assms(1,2)] assms(2,3) by simp
qed

lemma nifo_more:
  assumes "nifo_chain s zid ps" "i < length ps" "i * nifo_cap s zid + k + n \<le> length (nifo_stream s ps)" "nifo_cap s zid < k + n"
  shows "Suc i < length ps"
proof (rule ccontr)
  assume "\<not> Suc i < length ps"
  then have "length (nifo_stream s ps) = i * nifo_cap s zid + nifo_fill s (ps ! i)"
    using nifo_stream_at(2) [OF assms(1,2)] assms(2) by simp
  moreover have "nifo_fill s (ps ! i) \<le> nifo_cap s zid"
    using assms(1,2) nifo_node_ok_fill by (simp add: nifo_chain_def)
  ultimately show False using assms(3,4) by simp
qed

lemma uint_add_sub:
  assumes "uint a + uint b < 2 ^ 32" "uint (c :: u32) \<le> uint a + uint b"
  shows "uint (a + b - c) = uint a + uint b - uint c"
proof -
  have "(uint a + uint b - uint c) mod 2 ^ 32 = uint a + uint b - uint c"
    by (rule mod_pos_pos_trivial) (use assms uint_ge_0 [of c] in linarith)+
  moreover have "(uint a + uint b) mod 2 ^ 32 = uint a + uint b"
    by (rule mod_pos_pos_trivial) (use assms uint_ge_0 [of a] uint_ge_0 [of b] in linarith)+
  ultimately show ?thesis by (simp add: uint_word_ariths)
qed

lemma uint_add_small: "uint a + uint b < 2 ^ 32 \<Longrightarrow> uint (a + b :: u32) = uint a + uint b"
  using uint_add_sub [of a b 0] by simp

lemma uint_sub_small: "uint b \<le> uint a \<Longrightarrow> uint (a - b :: u32) = uint a - uint b"
  using uint_add_sub [of a 0 b] uint_lt2p [of a] by simp

lemma nifo_gather_ok:
  assumes "nifo_zone s zid" "nifo_chain s zid ps"
  assumes "i < length ps" "k \<le> nifo_cap s zid" "uint dOff = NIFO_SIZE + int k"
    "uint dLen = uint old + int n" "i * nifo_cap s zid + k + n \<le> length (nifo_stream s ps)"
    "uint (mems_body (nf_mems s) zid) + uint dLen < 2 ^ 32"
  shows "\<exists>i' k' dOff'. nifo_gather s (mems_body (nf_mems s) zid) dLen (ps ! i) dOff old buf =
      Some (ps ! i', dOff', buf @ take n (drop (i * nifo_cap s zid + k) (nifo_stream s ps))) \<and>
    i' < length ps \<and> uint dOff' = NIFO_SIZE + int k' \<and> k' \<le> nifo_cap s zid \<and>
    i' * nifo_cap s zid + k' = i * nifo_cap s zid + k + n \<and> (n = 0 \<or> 0 < k')"
  using assms(3-8)
proof (induction "2 * n + (if k = nifo_cap s zid then 1 else 0)" arbitrary: i k n dOff old buf rule: less_induct)
  case (less k n i dOff old buf)
  define cap where "cap = nifo_cap s zid"
  define body where "body = mems_body (nf_mems s) zid"
  define S where "S = nifo_stream s ps"
  have cap: "uint body = NIFO_SIZE + int cap" "8 \<le> cap"
    using nifo_cap_body [OF assms(1)] by (simp_all add: body_def cap_def)
  have k: "k \<le> cap" and dOff: "uint dOff = NIFO_SIZE + int k" and n: "uint dLen = uint old + int n"
    and len: "i * cap + k + n \<le> length S" and w: "uint body + uint dLen < 2 ^ 32"
    using less.prems by (simp_all add: cap_def body_def S_def)
  have lt: "old < dLen \<longleftrightarrow> 0 < n" unfolding word_less_def using n by simp
  have sum: "uint (dOff + dLen - old) = NIFO_SIZE + int k + int n"
    using uint_add_sub [of dOff dLen old] dOff n w cap(1) k uint_ge_0 [of old] by (simp add: NIFO_SIZE_def)
  have left: "uint (dLen - old) = int n" using uint_sub_small [of old dLen] n by simp
  have over: "body < dOff + dLen - old \<longleftrightarrow> cap < k + n" unfolding word_less_def sum cap(1) by linarith
  note slice = nifo_slice [OF assms(2) less.prems(1), folded cap_def S_def]
  have un: "unat (dLen - old) = n" using left by (metis nat_int unat_eq_nat_uint)
  show ?case
    unfolding cap_def [symmetric] body_def [symmetric] S_def [symmetric]
  proof (cases "0 < n")
    case False
    then have "nifo_gather s body dLen (ps ! i) dOff old buf = Some (ps ! i, dOff, buf @ take n (drop (i * cap + k) S))"
      using lt by (subst nifo_gather.simps) simp
    then show "\<exists>i' k' dOff'. nifo_gather s body dLen (ps ! i) dOff old buf =
        Some (ps ! i', dOff', buf @ take n (drop (i * cap + k) S)) \<and>
      i' < length ps \<and> uint dOff' = NIFO_SIZE + int k' \<and> k' \<le> cap \<and> i' * cap + k' = i * cap + k + n \<and> (n = 0 \<or> 0 < k')"
      using False less.prems(1) k dOff by (intro exI [of _ i] exI [of _ k] exI [of _ dOff]) simp
  next
    case pos: True
    show "\<exists>i' k' dOff'. nifo_gather s body dLen (ps ! i) dOff old buf =
        Some (ps ! i', dOff', buf @ take n (drop (i * cap + k) S)) \<and>
      i' < length ps \<and> uint dOff' = NIFO_SIZE + int k' \<and> k' \<le> cap \<and> i' * cap + k' = i * cap + k + n \<and> (n = 0 \<or> 0 < k')"
    proof (cases "cap < k + n")
      case False
      have fill: "k + n \<le> nifo_fill s (ps ! i)"
        using nifo_room [OF assms(2) less.prems(1)] len False by (simp add: cap_def S_def)
      have end1: "\<not> old + (dLen - old) < dLen" by simp
      have off: "uint (dOff + (dLen - old)) = NIFO_SIZE + int (k + n)"
      proof -
        have "int k + int n \<le> int cap" using False by linarith
        then have "uint dOff + uint (dLen - old) < 2 ^ 32"
          unfolding left dOff using cap(1) w uint_ge_0 [of dLen] by linarith
        from uint_add_small [OF this] show ?thesis unfolding left dOff by simp
      qed
      have "nifo_gather s body dLen (ps ! i) dOff old buf = Some (ps ! i, dOff + (dLen - old),
          buf @ rd_bytes (nf_mem s) (ps ! i + NIFO_SIZE + int k) n)"
        using lt pos over False end1 un dOff
        by (subst nifo_gather.simps, subst nifo_gather.simps) (simp add: Let_def add.assoc)
      then show ?thesis
        using slice [OF fill] less.prems(1) off False pos
        by (intro exI [of _ i] exI [of _ "k + n"] exI [of _ "dOff + (dLen - old)"]) simp
    next
      case True
      define c where "c = cap - k"
      have nx: "Suc i < length ps"
        using nifo_more [OF assms(2) less.prems(1)] len True by (simp add: cap_def S_def)
      have fill: "k + c \<le> nifo_fill s (ps ! i)"
        using nifo_full_nth [OF assms(2) nx] k by (simp add: c_def cap_def)
      have copy: "uint (body - dOff) = int c" "unat (body - dOff) = c"
      proof -
        show u: "uint (body - dOff) = int c"
          using uint_sub_small [of dOff body] cap(1) dOff k by (simp add: c_def of_nat_diff)
        then show "unat (body - dOff) = c" by (metis nat_int unat_eq_nat_uint)
      qed
      have small: "\<not> dLen - old < body - dOff"
        unfolding word_less_def left copy using True by (simp add: c_def)
      have b0: "body \<noteq> 0" using cap(1) by (auto simp: NIFO_SIZE_def)
      have off: "uint (dOff + (body - dOff)) = uint body" by simp
      have wrap: "(uint (dOff + (body - dOff)) + NIFO_SIZE) mod uint body = NIFO_SIZE"
      proof -
        have "NIFO_SIZE mod uint body = NIFO_SIZE"
          by (rule mod_pos_pos_trivial) (use cap in \<open>simp_all add: NIFO_SIZE_def\<close>)
        then show ?thesis unfolding off by simp
      qed
      have old': "uint (old + (body - dOff)) = uint old + int c"
      proof -
        have "int c \<le> int n" using True by (simp add: c_def)
        then have "uint old + uint (body - dOff) < 2 ^ 32"
          unfolding copy(1) using n w uint_ge_0 [of body] by linarith
        from uint_add_small [OF this] show ?thesis unfolding copy(1) .
      qed
      have step: "nifo_gather s body dLen (ps ! i) dOff old buf =
        nifo_gather s body dLen (ps ! Suc i) (word_of_int NIFO_SIZE) (old + (body - dOff))
          (buf @ rd_bytes (nf_mem s) (ps ! i + NIFO_SIZE + int k) c)"
        using lt pos over True small b0 copy dOff wrap nifo_cont_next_nth [OF assms(2) less.prems(1)] nx
        by (subst nifo_gather.simps) (simp add: Let_def add.assoc)
      have dec: "2 * (n - c) + (if 0 = nifo_cap s zid then 1 else 0) < 2 * n + (if k = nifo_cap s zid then 1 else 0)"
        using True cap(2) k by (auto simp: c_def cap_def)
      have place: "Suc i * cap + 0 = i * cap + k + c" using k by (simp add: c_def)
      have len': "Suc i * nifo_cap s zid + 0 + (n - c) \<le> length (nifo_stream s ps)"
        using place len True by (simp add: cap_def S_def c_def)
      have n': "uint dLen = uint (old + (body - dOff)) + int (n - c)"
        using n old' True by (simp add: c_def of_nat_diff)
      obtain i' k' dOff' where r: "nifo_gather s body dLen (ps ! Suc i) (word_of_int NIFO_SIZE) (old + (body - dOff))
          (buf @ rd_bytes (nf_mem s) (ps ! i + NIFO_SIZE + int k) c) =
        Some (ps ! i', dOff', (buf @ rd_bytes (nf_mem s) (ps ! i + NIFO_SIZE + int k) c) @
          take (n - c) (drop (Suc i * cap + 0) S))"
        "i' < length ps" "uint dOff' = NIFO_SIZE + int k'" "k' \<le> cap"
        "i' * cap + k' = Suc i * cap + 0 + (n - c)" "n - c = 0 \<or> 0 < k'"
        using less.hyps [OF dec nx _ _ n' len' less.prems(6), where dOff = "word_of_int NIFO_SIZE" and
          buf = "buf @ rd_bytes (nf_mem s) (ps ! i + NIFO_SIZE + int k) c"]
        unfolding cap_def [symmetric] body_def [symmetric] S_def [symmetric]
        by (auto simp: NIFO_SIZE_def)
      have "take n (drop (i * cap + k) S) = take c (drop (i * cap + k) S) @ take (n - c) (drop (Suc i * cap + 0) S)"
      proof -
        have "n = c + (n - c)" using True by (simp add: c_def)
        then have "take n (drop (i * cap + k) S) = take c (drop (i * cap + k) S) @ take (n - c) (drop c (drop (i * cap + k) S))"
          by (metis take_add)
        moreover have "drop c (drop (i * cap + k) S) = drop (Suc i * cap + 0) S"
          unfolding place drop_drop by (simp only: add.commute)
        ultimately show ?thesis by (simp only:)
      qed
      moreover have "0 < n - c" using True k by (simp add: c_def)
      ultimately show ?thesis
        using step r slice [OF fill] place
        by (intro exI [of _ i'] exI [of _ k'] exI [of _ dOff']) (simp add: c_def)
    qed
  qed
qed

section \<open>Reading\<close>

text \<open>The pointer to byte \<open>P\<close> of the stream: the start of a node is given by the node itself. After the
  last byte there is none.\<close>

definition nifo_addr :: "nifo \<Rightarrow> u32 \<Rightarrow> offset list \<Rightarrow> nat \<Rightarrow> offset" where
  "nifo_addr s zid ps P = (let cap = nifo_cap s zid; p = ps ! (P div cap)
     in if P mod cap = 0 then p else p + NIFO_SIZE + int (P mod cap))"

definition nifo_next_at :: "nifo \<Rightarrow> u32 \<Rightarrow> offset list \<Rightarrow> nat \<Rightarrow> offset" where
  "nifo_next_at s zid ps P = (if P = length (nifo_stream s ps) then 0 else nifo_addr s zid ps P)"

fun nifo_content :: "nifo \<Rightarrow> nifo_value \<Rightarrow> nat \<Rightarrow> u8 list" where
  "nifo_content s (VOrigin p) n = rd_bytes (nf_mem s) p n"
| "nifo_content s (VMalloc bs) n = bs"

lemma nifo_next_tlv_ok:
  assumes "nifo_zone s zid" "nifo_chain s zid ps" "nifo_tight s zid ps" "i < length ps" "0 < k" "k \<le> nifo_cap s zid"
    "uint dOff = NIFO_SIZE + int k" "i * nifo_cap s zid + k \<le> length (nifo_stream s ps)"
  shows "nifo_next_tlv s (hd ps) (ps ! i) dOff = Some (nifo_next_at s zid ps (i * nifo_cap s zid + k))"
proof -
  define cap where "cap = nifo_cap s zid"
  have cap8: "8 \<le> cap" using nifo_cap_body(2) [OF assms(1)] by (simp add: cap_def)
  have "nifo_node_ok s cap (ps ! i)" using assms(2,4) by (simp add: nifo_chain_def cap_def)
  then obtain n where n: "nf_node s (ps ! i) = Some n" "nn_maxoffset n = NIFO_SIZE + int cap"
    "nn_lastoffset n = NIFO_SIZE + int (nifo_fill s (ps ! i))" "nifo_fill s (ps ! i) \<le> cap"
    by (rule nifo_node_okD)
  note len = nifo_stream_at(2) [OF assms(2,4), folded cap_def]
  note nx = nifo_cont_next_nth [OF assms(2,4)]
  have P: "i * cap + k \<le> length (nifo_stream s ps)" "0 < k" "k \<le> cap" using assms(5,6,8) by (simp_all add: cap_def)
  have last0: "length (nifo_stream s (drop (Suc i) ps)) = 0" if "\<not> Suc i < length ps"
    using that by simp
  have c: "nn_lastoffset n \<le> uint dOff \<longleftrightarrow> nifo_fill s (ps ! i) \<le> k"
    "nn_lastoffset n = nn_maxoffset n \<longleftrightarrow> nifo_fill s (ps ! i) = cap"
    using n assms(7) by simp_all
  consider "k < nifo_fill s (ps ! i)" | "nifo_fill s (ps ! i) \<le> k" "nifo_fill s (ps ! i) < cap"
    | "nifo_fill s (ps ! i) = cap" "k = cap" "Suc i < length ps"
    | "nifo_fill s (ps ! i) = cap" "k = cap" "\<not> Suc i < length ps"
    using n(4) P(3) by linarith
  then show ?thesis
    unfolding cap_def [symmetric]
  proof cases
    case 1
    have "i * cap + k \<noteq> length (nifo_stream s ps)" using 1 len by linarith
    moreover have "(i * cap + k) div cap = i" "(i * cap + k) mod cap = k" using 1 n(4) by simp_all
    ultimately show "nifo_next_tlv s (hd ps) (ps ! i) dOff = Some (nifo_next_at s zid ps (i * cap + k))"
      using n(1) c(1) 1 P(2) assms(7)
      by (simp add: nifo_next_tlv_def nifo_next_at_def nifo_addr_def cap_def [symmetric] Let_def)
  next
    case 2
    have "\<not> Suc i < length ps"
      using nifo_full_nth [OF assms(2), of i] 2(2) by (auto simp: cap_def)
    then have "i * cap + k = length (nifo_stream s ps)" using len P(1) 2(1) last0 by linarith
    then show "nifo_next_tlv s (hd ps) (ps ! i) dOff = Some (nifo_next_at s zid ps (i * cap + k))"
      using n(1) c 2 by (simp add: nifo_next_tlv_def nifo_next_at_def)
  next
    case 3
    have "ps ! Suc i \<noteq> hd ps"
      using nifo_chain_distinct [OF assms(2)] 3(3) nifo_chain_ne [OF assms(2)]
      by (simp add: hd_conv_nth nth_eq_iff_index_eq)
    moreover have "Suc i * cap < length (nifo_stream s ps)"
    proof -
      have "Suc i * cap \<le> (length ps - 1) * cap" using 3(3) by (intro mult_le_mono1) simp
      also have "\<dots> < length (nifo_stream s ps)" using assms(3) 3(3) by (simp add: nifo_tight_def cap_def)
      finally show ?thesis .
    qed
    moreover have "i * cap + k = Suc i * cap" using 3(2) by simp
    moreover have "(Suc i * cap) div cap = Suc i" "(Suc i * cap) mod cap = 0"
      using cap8 by simp_all
    ultimately show "nifo_next_tlv s (hd ps) (ps ! i) dOff = Some (nifo_next_at s zid ps (i * cap + k))"
      using n(1) c 3 nx
      by (simp add: nifo_next_tlv_def nifo_next_at_def nifo_addr_def cap_def [symmetric] Let_def del: mult_Suc)
  next
    case 4
    have "i * cap + k = length (nifo_stream s ps)" using len last0 4 by simp
    then show "nifo_next_tlv s (hd ps) (ps ! i) dOff = Some (nifo_next_at s zid ps (i * cap + k))"
      using n(1) c 4 nx by (simp add: nifo_next_tlv_def nifo_next_at_def)
  qed
qed

lemma nifo_addr_node:
  assumes "nifo_zone s zid" "nifo_chain s zid ps" "P < length (nifo_stream s ps)"
  shows "P div nifo_cap s zid < length ps"
    "nifo_get_offset_node (nf_mems s) (nifo_addr s zid ps P) = Some (ps ! (P div nifo_cap s zid))"
    "ps ! (P div nifo_cap s zid) \<noteq> 0" "0 < ps ! (P div nifo_cap s zid)"
proof -
  define cap where "cap = nifo_cap s zid"
  have cap: "8 \<le> cap" "NIFO_SIZE + int cap = uint (mems_body (nf_mems s) zid)"
    using nifo_cap_body [OF assms(1)] by (simp_all add: cap_def)
  obtain ps0 p where ps: "ps = ps0 @ [p]" using nifo_chain_ne [OF assms(2)] by (cases ps rule: rev_cases) auto
  have "nifo_fill s p \<le> cap" using assms(2) ps nifo_node_ok_fill by (simp add: nifo_chain_def cap_def)
  then have "length (nifo_stream s ps) \<le> length ps * cap"
    using nifo_stream_length [of s zid ps0 p] assms(2) ps by (simp add: cap_def)
  then have "P < length ps * cap" using assms(3) by simp
  then have i: "P div cap < length ps" using cap(1) by (simp add: less_mult_imp_div_less)
  then show "P div nifo_cap s zid < length ps" by (simp add: cap_def)
  have live: "ps ! (P div cap) \<in> mems_live (nf_mems s) zid" using assms(2) i by (auto simp: nifo_chain_def)
  then have "0 < ps ! (P div cap)"
    using assms(1) mems_live_cells [of "nf_mems s" zid] by (auto simp: nifo_zone_def)
  then show "0 < ps ! (P div nifo_cap s zid)" "ps ! (P div nifo_cap s zid) \<noteq> 0" by (simp_all add: cap_def)
  have "int (P mod cap) < int cap" using cap(1) by simp
  then have b: "NIFO_SIZE + int (P mod cap) < uint (mems_body (nf_mems s) zid)" "0 \<le> NIFO_SIZE + int (P mod cap)"
    "0 < uint (mems_body (nf_mems s) zid)"
    using cap unfolding NIFO_SIZE_def by linarith+
  show "nifo_get_offset_node (nf_mems s) (nifo_addr s zid ps P) = Some (ps ! (P div nifo_cap s zid))"
    using nifo_offset_node [OF assms(1) live b(2,1)] nifo_offset_node [OF assms(1) live order_refl b(3)]
    by (simp add: nifo_addr_def cap_def [symmetric] Let_def add.assoc)
qed

lemma nifo_head_zone:
  assumes "nifo_zone s zid" "p \<in> mems_live (nf_mems s) zid"
  obtains h z where "mi_hdr (nf_mems s) (p - stMEMSNODEHDR_SIZE) = Some h" "mems_zone (nf_mems s) (mh_uiZoneID h) = Some z"
    "mz_uiMemNodeBodySize z = mems_body (nf_mems s) zid"
proof -
  have v: "mems_wf (nf_mems s)" "unat zid < length (mi_stMEMSZONE (nf_mems s))"
    using assms(1) by (simp_all add: nifo_zone_def mems_valid_def)
  have "p - stMEMSNODEHDR_SIZE \<in> memszone_nodes (mi_stMEMSZONE (nf_mems s) ! unat zid)"
    using assms(2) by (simp add: mems_live_iff memszone_used_def)
  moreover have "memszone_ok (mi_hdr (nf_mems s)) (unat zid) (mi_stMEMSZONE (nf_mems s) ! unat zid)"
    using v by (simp add: mems_wf_def)
  ultimately obtain h where h: "mi_hdr (nf_mems s) (p - stMEMSNODEHDR_SIZE) = Some h" "mems_hdr_ok (unat zid) h"
    by (auto simp: memszone_ok_def)
  obtain z where "mems_zone (nf_mems s) zid = Some z" "mz_uiMemNodeBodySize z = mems_body (nf_mems s) zid"
    using nifo_zone_mems [OF assms(1)] .
  then show ?thesis using that h by (simp add: mems_hdr_ok_def)
qed

text \<open>The header and the value, gathered or in place.\<close>

lemma nifo_read_at:
  assumes "nifo_zone s zid" "nifo_chain s zid ps" "nifo_tight s zid ps"
    "nifo_stream s ps = A @ (le32_bytes type @ le32_bytes len) @ V @ C" "length V = unat len"
    "uint (mems_body (nf_mems s) zid) + uint len < 2 ^ 32"
  shows "\<exists>val. nifo_read_tlv_cont True s (hd ps) (nifo_addr s zid ps (length A)) =
      Some (ReadTlv type len val (nifo_next_at s zid ps (length A + 8 + length V))) \<and>
    nifo_content s val (unat len) = V"
proof -
  define cap where "cap = nifo_cap s zid"
  define body where "body = mems_body (nf_mems s) zid"
  define S where "S = nifo_stream s ps"
  define P where "P = length A"
  define L where "L = unat len"
  define hdr where "hdr = le32_bytes type @ le32_bytes len"
  define i where "i = P div cap"
  define k where "k = P mod cap"
  have cap: "uint body = NIFO_SIZE + int cap" "8 \<le> cap" "int cap < 2 ^ 31"
    using nifo_cap_body [OF assms(1)] nifo_cap_s32 [OF assms(1)] by (simp_all add: body_def cap_def)
  have S: "S = A @ hdr @ V @ C" using assms(4) by (simp add: S_def hdr_def)
  have hdr8: "length hdr = 8" by (simp add: hdr_def)
  have lenS: "P + 8 + L \<le> length S" using hdr8 assms(5) by (simp add: S P_def L_def)
  have bits: "take 8 (drop P S) = hdr" "take L (drop (P + 8) S) = V"
    using hdr8 assms(5) by (simp_all add: S P_def L_def)
  have ne: "ps \<noteq> []" by (rule nifo_chain_ne [OF assms(2)])
  have live: "hd ps \<in> mems_live (nf_mems s) zid" using assms(2) ne by (auto simp: nifo_chain_def)
  have lt: "P < length (nifo_stream s ps)" using lenS by (simp add: S_def)
  note node = nifo_addr_node [OF assms(1,2) lt, folded cap_def, folded i_def]
  have Pik: "i * cap + k = P" by (simp add: i_def k_def)
  have kc: "k < cap" using cap(2) by (simp add: k_def)
  obtain h z where hz: "mi_hdr (nf_mems s) (hd ps - stMEMSNODEHDR_SIZE) = Some h"
    "mems_zone (nf_mems s) (mh_uiZoneID h) = Some z" "mz_uiMemNodeBodySize z = body"
    using nifo_head_zone [OF assms(1) live] by (metis body_def)
  define dOff :: u32 where "dOff = (if nifo_addr s zid ps P - ps ! i = 0 then word_of_int NIFO_SIZE
    else word_of_int (nifo_addr s zid ps P - ps ! i))"
  have dOff: "uint dOff = NIFO_SIZE + int k"
  proof -
    have "NIFO_SIZE + int k < 2 ^ 32" "0 \<le> NIFO_SIZE + int k"
      using kc cap(3) by (simp_all add: NIFO_SIZE_def)
    then have "uint (word_of_int (NIFO_SIZE + int k) :: u32) = NIFO_SIZE + int k"
      by (subst uint_word_of_int) (simp add: mod_pos_pos_trivial)
    moreover have "dOff = word_of_int (NIFO_SIZE + int k)"
      by (auto simp: dOff_def nifo_addr_def cap_def [symmetric] i_def [symmetric] k_def [symmetric] Let_def NIFO_SIZE_def)
    ultimately show ?thesis by simp
  qed
  have w8: "uint body + uint (word_of_int TLV_SIZE :: u32) < 2 ^ 32"
    using cap(1,3) by (simp add: TLV_SIZE_def NIFO_SIZE_def)
  obtain i1 k1 dOff1 where hd1: "nifo_read_hdr s body (ps ! i) dOff = Some (ps ! i1, dOff1, hdr)"
    "i1 < length ps" "uint dOff1 = NIFO_SIZE + int k1" "k1 \<le> cap" "i1 * cap + k1 = P + 8" "0 < k1"
  proof (cases "cap < k + 8")
    case True
    have "uint (word_of_int TLV_SIZE :: u32) = uint (0 :: u32) + int 8" by (simp add: TLV_SIZE_def)
    moreover have "i * nifo_cap s zid + k + 8 \<le> length (nifo_stream s ps)"
      using Pik lenS by (simp add: cap_def S_def)
    ultimately obtain i1 k1 dOff1 where r: "nifo_gather s body (word_of_int TLV_SIZE) (ps ! i) dOff 0 [] =
        Some (ps ! i1, dOff1, [] @ take 8 (drop (i * cap + k) S))"
      "i1 < length ps" "uint dOff1 = NIFO_SIZE + int k1" "k1 \<le> cap" "i1 * cap + k1 = i * cap + k + 8" "0 < k1"
      using nifo_gather_ok [OF assms(1,2) node(1) _ dOff, of "word_of_int TLV_SIZE" 0 8 "[]"] kc w8
      unfolding cap_def [symmetric] S_def [symmetric] body_def [symmetric] by auto
    show ?thesis
      by (rule that [of i1 dOff1 k1]) (use r True Pik bits(1) dOff cap(1) in \<open>simp_all add: TLV_SIZE_def nifo_read_hdr_def\<close>)
  next
    case False
    have room: "k + 8 \<le> nifo_fill s (ps ! i)"
      by (rule nifo_room [OF assms(2) node(1)]) (use Pik lenS False in \<open>simp_all add: cap_def S_def\<close>)
    have "rd_bytes (nf_mem s) (ps ! i + uint dOff) 8 = hdr"
      using nifo_slice [OF assms(2) node(1) room] bits(1) Pik dOff by (simp add: cap_def S_def add.assoc)
    moreover have "uint (dOff + word_of_int TLV_SIZE) = NIFO_SIZE + int (k + 8)"
      using uint_add_small [of dOff "word_of_int TLV_SIZE"] dOff kc cap(3) by (simp add: TLV_SIZE_def NIFO_SIZE_def)
    ultimately show ?thesis
      by (intro that [of i "dOff + word_of_int TLV_SIZE" "k + 8"])
         (use False Pik node(1) dOff cap(1) in \<open>simp_all add: TLV_SIZE_def nifo_read_hdr_def\<close>)
  qed
  have decode: "le32_of (take 4 hdr) = type" "le32_of (drop 4 hdr) = len"
    using le32_of_bytes [of type "[]"] le32_of_bytes [of len "[]"] by (simp_all add: hdr_def)
  have ulen: "uint len = int L" by (simp add: L_def)
  have sum: "uint (dOff1 + len) = NIFO_SIZE + int (k1 + L)"
  proof -
    have "uint dOff1 + uint len < 2 ^ 32"
      using assms(6) hd1(3,4) cap(1) unfolding body_def [symmetric] by linarith
    from uint_add_small [OF this] show ?thesis using hd1(3) ulen by simp
  qed
  have over: "body < dOff1 + len \<longleftrightarrow> cap < k1 + L" unfolding word_less_def sum cap(1) by linarith
  let ?fin = "\<lambda>nx val. Some (ReadTlv type len val nx)"
  have run: "nifo_read_tlv_cont True s (hd ps) (nifo_addr s zid ps P) =
      (if body < dOff1 + len then do {
         (q, dOff', buf) \<leftarrow> nifo_gather s body len (ps ! i1) dOff1 0 [];
         nx \<leftarrow> nifo_next_tlv s (hd ps) q dOff';
         ?fin nx (VMalloc buf)
       } else do {
         nx \<leftarrow> nifo_next_tlv s (hd ps) (ps ! i1) (dOff1 + len);
         ?fin nx (VOrigin (ps ! i1 + uint dOff1))
       })"
    unfolding nifo_read_tlv_cont_def
    using hz node(2,3) hd1(1) decode by (simp add: Let_def dOff_def)
  have nxt_at: "nifo_next_tlv s (hd ps) (ps ! j) d = Some (nifo_next_at s zid ps (P + 8 + length V))"
    if "j < length ps" "uint d = NIFO_SIZE + int m" "0 < m" "m \<le> cap" "j * cap + m = P + 8 + L" for j m d
    using nifo_next_tlv_ok [OF assms(1-3) that(1,3), of d] that lenS assms(5)
    by (simp add: cap_def S_def L_def)
  show ?thesis
  proof (cases "cap < k1 + L")
    case True
    have "uint len = uint (0 :: u32) + int L" using ulen by simp
    moreover have "i1 * nifo_cap s zid + k1 + L \<le> length (nifo_stream s ps)"
      using hd1(5) lenS by (simp add: cap_def S_def)
    moreover have "0 < L" using True hd1(4) by simp
    ultimately obtain i2 k2 dOff2 where r: "nifo_gather s body len (ps ! i1) dOff1 0 [] =
        Some (ps ! i2, dOff2, [] @ take L (drop (i1 * cap + k1) S))"
      "i2 < length ps" "uint dOff2 = NIFO_SIZE + int k2" "k2 \<le> cap" "i2 * cap + k2 = i1 * cap + k1 + L" "0 < k2"
      using nifo_gather_ok [OF assms(1,2) hd1(2) _ hd1(3), of len 0 L "[]"] hd1(4) assms(6)
      unfolding cap_def [symmetric] S_def [symmetric] body_def [symmetric] by auto
    have "nifo_next_tlv s (hd ps) (ps ! i2) dOff2 = Some (nifo_next_at s zid ps (P + 8 + length V))"
      using r hd1(5) by (intro nxt_at [of _ _ k2]) simp_all
    then show ?thesis
      using run over True r(1) bits(2) hd1(5) by (simp add: P_def)
  next
    case False
    have room: "k1 + L \<le> nifo_fill s (ps ! i1)"
      by (rule nifo_room [OF assms(2) hd1(2)]) (use hd1(5) lenS False in \<open>simp_all add: cap_def S_def\<close>)
    have V: "rd_bytes (nf_mem s) (ps ! i1 + uint dOff1) L = V"
      using nifo_slice [OF assms(2) hd1(2) room] bits(2) hd1(3,5) by (simp add: cap_def S_def add.assoc)
    have "nifo_next_tlv s (hd ps) (ps ! i1) (dOff1 + len) = Some (nifo_next_at s zid ps (P + 8 + length V))"
      using sum hd1(2,5,6) False by (intro nxt_at [of _ _ "k1 + L"]) simp_all
    then show ?thesis
      using run over False V by (simp add: P_def L_def)
  qed
qed

section \<open>Whole messages\<close>

text \<open>The room for a value that starts at byte \<open>Q\<close> of the stream.\<close>

definition nifo_value_room :: "nat \<Rightarrow> nat \<Rightarrow> nat" where
  "nifo_value_room cap Q = (if Q mod cap = 0 then 0 else cap - Q mod cap)"

lemma nifo_room_after:
  assumes "8 \<le> cap" "f \<le> cap" "n = 0 \<or> 0 < f"
  shows "(if 8 \<le> cap - f then cap - f - 8 else cap - (8 - (cap - f))) = nifo_value_room cap (n * cap + f + 8)"
proof -
  have m: "(n * cap + f + 8) mod cap = (f + 8) mod cap" by (metis add.assoc mod_mult_self3)
  consider "f + 8 < cap" | "f + 8 = cap" | "cap < f + 8" "f + 8 < 2 * cap" | "f + 8 = 2 * cap"
    using assms(1,2) by linarith
  then show ?thesis
  proof cases
    case 3
    have "(f + 8) mod cap = f + 8 - cap"
      using 3 by (metis add_diff_cancel_right' le_add_diff_inverse less_imp_le_nat linorder_not_less mod_add_self1
          mod_less mult_2 nat_add_left_cancel_less)
    then show ?thesis using 3 assms(2) by (auto simp: nifo_value_room_def m)
  next
    case 4
    then have "cap = 8" "f = 8" using assms(1,2) by linarith+
    then show ?thesis by (simp add: nifo_value_room_def m)
  qed (use assms in \<open>simp_all add: nifo_value_room_def m\<close>)
qed

text \<open>A message of several records, as a client writes it, as it lies in the stream, and as a client
  reads it to its end.\<close>

fun nifo_write_all :: "nifo \<Rightarrow> int \<Rightarrow> offset \<Rightarrow> (u32 \<times> u8 list) list \<Rightarrow> (nifo \<times> int) option" where
  "nifo_write_all s now p [] = Some (s, 0)"
| "nifo_write_all s now p ((type, v) # rs) = do {
     (s1, r) \<leftarrow> nifo_copy_tlv_cont s now type (of_nat (length v)) v p;
     if r \<noteq> 0 then Some (s1, r) else nifo_write_all s1 now p rs
   }"

partial_function (option) nifo_read_all :: "nifo \<Rightarrow> offset \<Rightarrow> offset \<Rightarrow> (u32 \<times> u8 list) list option" where
  "nifo_read_all s p nexttlv = do {
     r \<leftarrow> nifo_read_tlv_cont True s p nexttlv;
     case r of
       ReadFail \<Rightarrow> None
     | ReadTlv type len val nx \<Rightarrow>
         if nx = 0 then Some [(type, nifo_content s val (unat len))]
         else do { rs \<leftarrow> nifo_read_all s p nx; Some ((type, nifo_content s val (unat len)) # rs) }
   }"

fun nifo_stored :: "nat \<Rightarrow> nat \<Rightarrow> (u32 \<times> u8 list) list \<Rightarrow> (u32 \<times> u8 list) list" where
  "nifo_stored cap P [] = []"
| "nifo_stored cap P ((type, v) # rs) =
     (type, nifo_pieces cap (nifo_value_room cap (P + 8)) (length v) v) # nifo_stored cap (P + 8 + length v) rs"

definition nifo_encode :: "(u32 \<times> u8 list) list \<Rightarrow> u8 list" where
  "nifo_encode rs = concat (map (\<lambda>(type, v). le32_bytes type @ le32_bytes (of_nat (length v)) @ v) rs)"

lemma nifo_encode_simps [simp]:
  "nifo_encode [] = []"
  "nifo_encode ((type, v) # rs) = le32_bytes type @ le32_bytes (of_nat (length v)) @ v @ nifo_encode rs"
  by (simp_all add: nifo_encode_def)

lemma nifo_stored_Nil [simp]: "nifo_stored cap P rs = [] \<longleftrightarrow> rs = []"
  by (cases rs) auto

lemma nifo_stored_lengths: "(type, w) \<in> set (nifo_stored cap P rs) \<Longrightarrow> \<exists>v. (type, v) \<in> set rs \<and> length w = length v"
  by (induction cap P rs rule: nifo_stored.induct) (auto simp: length_nifo_pieces)

lemma unat_length: "length v < 2 ^ 31 \<Longrightarrow> unat (of_nat (length v) :: u32) = length v"
  by (simp add: unat_of_nat)

lemma nifo_write_all_ok:
  assumes "nifo_zone s zid" "nifo_chain s zid ps" "nifo_tight s zid ps" "\<forall>(type, v) \<in> set rs. length v < 2 ^ 31"
    "nifo_write_all s now (hd ps) rs = Some (s', 0)"
  shows "\<exists>qs. nifo_grow s s' zid ps qs (nifo_encode (nifo_stored (nifo_cap s zid) (length (nifo_stream s ps)) rs)) \<and>
    nifo_tight s' zid (ps @ qs)"
  using assms
proof (induction rs arbitrary: s ps)
  case Nil
  have "nifo_other s s zid ps" by (simp add: nifo_other_def)
  then have "nifo_grow s s zid ps [] []" using Nil.prems(1,2) by (simp add: nifo_grow_def)
  then show ?case using Nil.prems(3,5) by (intro exI [of _ "[]"]) simp
next
  case (Cons rec rs)
  obtain type v where rec: "rec = (type, v)" by fastforce
  let ?len = "of_nat (length v) :: u32"
  define cap where "cap = nifo_cap s zid"
  define P where "P = length (nifo_stream s ps)"
  have len: "length v < 2 ^ 31" using Cons.prems(4) rec by simp
  note ul = unat_length [OF len]
  obtain s1 r where s1: "nifo_copy_tlv_cont s now type ?len v (hd ps) = Some (s1, r)"
    "nifo_done s s1 zid ps r {-1, -2} (nifo_record cap (cap - nifo_fill s (last ps)) type ?len v)"
    using nifo_copy_done [OF Cons.prems(1,2), of ?len v now type] ul len by (auto simp: cap_def)
  have w: "(if r \<noteq> 0 then Some (s1, r) else nifo_write_all s1 now (hd ps) rs) = Some (s', 0)"
    using Cons.prems(5) s1(1) rec by simp
  then have r0: "r = 0" and w1: "nifo_write_all s1 now (hd ps) rs = Some (s', 0)" by (auto split: if_splits)
  obtain qs where g: "nifo_grow s s1 zid ps qs (nifo_record cap (cap - nifo_fill s (last ps)) type ?len v)"
    and t: "nifo_tight s1 zid (ps @ qs)"
    using s1(2) r0 by (auto simp: nifo_done_def)
  have enc: "nifo_record cap (cap - nifo_fill s (last ps)) type ?len v =
      le32_bytes type @ le32_bytes ?len @ nifo_pieces cap (nifo_value_room cap (P + 8)) (length v) v"
  proof -
    obtain ps0 p where ps: "ps = ps0 @ [p]"
      using nifo_chain_ne [OF Cons.prems(2)] by (cases ps rule: rev_cases) auto
    have P: "P = length ps0 * cap + nifo_fill s p"
      using nifo_stream_length [of s zid ps0 p] Cons.prems(2) ps by (simp add: P_def cap_def)
    have "nifo_fill s p \<le> cap" using Cons.prems(2) ps nifo_node_ok_fill by (simp add: nifo_chain_def cap_def)
    moreover have "length ps0 = 0 \<or> 0 < nifo_fill s p"
      using Cons.prems(3) P by (auto simp: nifo_tight_def ps P_def cap_def)
    ultimately have room: "(if 8 \<le> cap - nifo_fill s p then cap - nifo_fill s p - 8 else cap - (8 - (cap - nifo_fill s p))) =
        nifo_value_room cap (P + 8)"
      unfolding P using nifo_cap_body(2) [OF Cons.prems(1)] by (intro nifo_room_after) (simp_all add: cap_def)
    have "last ps = p" using ps by simp
    then show ?thesis by (simp only: nifo_record_def ul room)
  qed
  note gf = nifo_grow_facts [OF g]
  have hd1: "hd (ps @ qs) = hd ps" using nifo_chain_ne [OF Cons.prems(2)] by simp
  have "length (nifo_stream s1 (ps @ qs)) = P + 8 + length v"
    using gf(4) enc len by (simp add: P_def length_nifo_pieces)
  then obtain qs' where g': "nifo_grow s1 s' zid (ps @ qs) qs' (nifo_encode (nifo_stored cap (P + 8 + length v) rs))"
    "nifo_tight s' zid ((ps @ qs) @ qs')"
    using Cons.IH [OF gf(1,3) t _ w1 [folded hd1]] Cons.prems(4) gf(2) by (auto simp: cap_def)
  have "nifo_grow s s' zid ps (qs @ qs') (nifo_encode (nifo_stored cap P (rec # rs)))"
    using nifo_grow_trans [OF g g'(1)] enc rec by (simp add: length_nifo_pieces)
  then show ?case using g'(2) unfolding cap_def P_def by (intro exI [of _ "qs @ qs'"]) simp
qed

lemma nifo_read_all_ok:
  assumes "nifo_zone s zid" "nifo_chain s zid ps" "nifo_tight s zid ps" "rs \<noteq> []"
    "\<forall>(type, v) \<in> set rs. length v < 2 ^ 31" "nifo_stream s ps = A @ nifo_encode rs"
  shows "nifo_read_all s (hd ps) (nifo_addr s zid ps (length A)) = Some rs"
  using assms(4-6)
proof (induction rs arbitrary: A)
  case (Cons rec rs)
  obtain type v where rec: "rec = (type, v)" by fastforce
  let ?len = "of_nat (length v) :: u32"
  have len: "length v < 2 ^ 31" using Cons.prems(2) rec by simp
  note ul = unat_length [OF len]
  have w: "uint (mems_body (nf_mems s) zid) + uint ?len < 2 ^ 32"
  proof -
    have "uint ?len = int (length v)" by (simp only: uint_nat ul)
    moreover have "uint (mems_body (nf_mems s) zid) < 2 ^ 31"
      using assms(1) by (simp add: nifo_zone_def stMEMSNODEHDR_SIZE_def)
    ultimately show ?thesis using len by simp
  qed
  have S: "nifo_stream s ps = A @ (le32_bytes type @ le32_bytes ?len) @ v @ nifo_encode rs"
    using Cons.prems(3) rec by simp
  have lv: "length v = unat ?len" using ul by simp
  obtain val where r: "nifo_read_tlv_cont True s (hd ps) (nifo_addr s zid ps (length A)) =
      Some (ReadTlv type ?len val (nifo_next_at s zid ps (length A + 8 + length v)))"
    "nifo_content s val (length v) = v"
    using nifo_read_at [OF assms(1-3) S lv w] ul by auto
  show ?case
  proof (cases "rs = []")
    case True
    then have "nifo_next_at s zid ps (length A + 8 + length v) = 0" using S by (simp add: nifo_next_at_def)
    then show ?thesis using r ul True rec by (subst nifo_read_all.simps) simp
  next
    case False
    let ?A = "A @ (le32_bytes type @ le32_bytes ?len) @ v"
    have A: "length ?A = length A + 8 + length v" by simp
    have S': "nifo_stream s ps = ?A @ nifo_encode rs" using S by simp
    have "nifo_encode rs \<noteq> []" using False by (cases rs) (auto simp: le32_bytes_def)
    then have lt: "length A + 8 + length v < length (nifo_stream s ps)" using S' by simp
    have at: "nifo_next_at s zid ps (length A + 8 + length v) = nifo_addr s zid ps (length A + 8 + length v)"
      using lt by (simp add: nifo_next_at_def)
    have nz: "nifo_addr s zid ps (length A + 8 + length v) \<noteq> 0"
      using nifo_addr_node(4) [OF assms(1,2) lt] by (simp add: nifo_addr_def Let_def NIFO_SIZE_def)
    have "nifo_read_all s (hd ps) (nifo_addr s zid ps (length A + 8 + length v)) = Some rs"
      unfolding A [symmetric] by (rule Cons.IH [OF False _ S']) (use Cons.prems(2) in auto)
    then show ?thesis using r ul at nz rec by (subst nifo_read_all.simps) simp
  qed
qed simp

section \<open>Records of one node\<close>

lemma nifo_payload_slice:
  assumes "nifo_payload s p = A @ B @ C"
  shows "rd_bytes (nf_mem s) (p + NIFO_SIZE + int (length A)) (length B) = B"
proof -
  have len: "nifo_fill s p = length A + (length B + length C)"
    using arg_cong [OF assms, of length] by simp
  have "drop (length A) (nifo_payload s p) = rd_bytes (nf_mem s) (p + NIFO_SIZE + int (length A)) (length B + length C)"
    unfolding nifo_payload_def by (subst drop_rd_bytes) (simp_all add: len)
  then have "take (length B) (B @ C) = rd_bytes (nf_mem s) (p + NIFO_SIZE + int (length A)) (length B)"
    using assms by (simp add: take_rd_bytes)
  then show ?thesis by simp
qed

lemma nifo_search_ok:
  assumes "nifo_payload s p = A @ nifo_encode rs" "\<forall>(type, v) \<in> set rs. length v < 2 ^ 31"
  shows "case map_of rs type of
      None \<Rightarrow> nifo_tlv_search s p (NIFO_SIZE + int (nifo_fill s p)) type (NIFO_SIZE + int (length A)) = None
    | Some v \<Rightarrow> \<exists>q. nifo_tlv_search s p (NIFO_SIZE + int (nifo_fill s p)) type (NIFO_SIZE + int (length A)) = Some q \<and>
        nifo_tlv_len s q = of_nat (length v) \<and> rd_bytes (nf_mem s) (q + TLV_SIZE) (length v) = v"
  using assms
proof (induction rs arbitrary: A)
  case Nil
  have "nifo_fill s p = length A" using arg_cong [OF Nil.prems(1), of length] by simp
  then show ?case by (subst nifo_tlv_search.simps) simp
next
  case (Cons rec rs)
  obtain t v where rec: "rec = (t, v)" by fastforce
  let ?len = "of_nat (length v) :: u32"
  let ?cur = "NIFO_SIZE + int (length A)"
  have ul: "unat ?len = length v" using Cons.prems(2) rec by (intro unat_length) simp
  have P: "nifo_payload s p = A @ le32_bytes t @ le32_bytes ?len @ v @ nifo_encode rs"
    using Cons.prems(1) rec by simp
  have lt: "?cur < NIFO_SIZE + int (nifo_fill s p)"
    using arg_cong [OF P, of length] by simp
  have ty: "nifo_tlv_type s (p + ?cur) = t"
    using nifo_payload_slice [OF P] le32_of_bytes [of t "[]"] by (simp add: nifo_tlv_type_def add.assoc)
  have ln: "nifo_tlv_len s (p + ?cur) = ?len"
  proof -
    have "nifo_payload s p = (A @ le32_bytes t) @ le32_bytes ?len @ (v @ nifo_encode rs)" using P by simp
    from nifo_payload_slice [OF this] show ?thesis
      using le32_of_bytes [of ?len "[]"] by (simp add: nifo_tlv_len_def add.assoc)
  qed
  show ?case
  proof (cases "t = type")
    case True
    have "nifo_payload s p = (A @ le32_bytes t @ le32_bytes ?len) @ v @ nifo_encode rs" using P by simp
    from nifo_payload_slice [OF this]
    have "rd_bytes (nf_mem s) (p + ?cur + TLV_SIZE) (length v) = v" by (simp add: TLV_SIZE_def add.assoc)
    moreover have "nifo_tlv_search s p (NIFO_SIZE + int (nifo_fill s p)) type ?cur = Some (p + ?cur)"
      using lt ty True by (subst nifo_tlv_search.simps) simp
    ultimately show ?thesis using True rec ln by simp
  next
    case False
    have cur: "?cur + (TLV_SIZE + uint ?len) = NIFO_SIZE + int (length (A @ le32_bytes t @ le32_bytes ?len @ v))"
      unfolding uint_nat ul by (simp add: TLV_SIZE_def)
    have step: "nifo_tlv_search s p (NIFO_SIZE + int (nifo_fill s p)) type ?cur =
        nifo_tlv_search s p (NIFO_SIZE + int (nifo_fill s p)) type
          (NIFO_SIZE + int (length (A @ le32_bytes t @ le32_bytes ?len @ v)))"
      unfolding cur [symmetric] using lt ty False ln by (subst nifo_tlv_search.simps) simp
    have "nifo_payload s p = (A @ le32_bytes t @ le32_bytes ?len @ v) @ nifo_encode rs" using P by simp
    from Cons.IH [OF this] Cons.prems(2) show ?thesis unfolding step using rec False by simp
  qed
qed

lemma nifo_get_value_ok:
  assumes "nifo_node_ok s cap p" "nifo_payload s p = nifo_encode rs" "\<forall>(type, v) \<in> set rs. length v < 2 ^ 31"
  shows "case map_of rs type of
      None \<Rightarrow> nifo_get_value s type p = Some None \<and> nifo_get_tlv s type p = Some None
    | Some v \<Rightarrow> \<exists>q. nifo_get_value s type p = Some (Some (q + TLV_SIZE)) \<and> nifo_get_tlv s type p = Some (Some q) \<and>
        nifo_tlv_len s q = of_nat (length v) \<and> rd_bytes (nf_mem s) (q + TLV_SIZE) (length v) = v"
proof -
  obtain n where n: "nf_node s p = Some n" "nn_lastoffset n = NIFO_SIZE + int (nifo_fill s p)"
    using nifo_node_okD [OF assms(1)] by metis
  have "nifo_payload s p = [] @ nifo_encode rs" using assms(2) by simp
  from nifo_search_ok [OF this assms(3), of type] n show ?thesis
    by (cases "map_of rs type") (auto simp: nifo_get_value_def nifo_get_tlv_def)
qed

lemma nifo_tlv_alloc_ok:
  assumes "nifo_node_ok s cap p" "nifo_fill s p + 8 + unat len \<le> cap"
  shows "\<exists>s' old. nifo_tlv_alloc s p type len flag = Some (s', Some (p + NIFO_SIZE + int (nifo_fill s p) + TLV_SIZE)) \<and>
    nifo_node_ok s' cap p \<and> length old = unat len \<and>
    nifo_payload s' p = nifo_payload s p @ le32_bytes type @ le32_bytes len @
      (if flag = DEF_MEMSET_ON then replicate (unat len) 0 else old)"
proof -
  define L where "L = unat len"
  have ulen: "uint len = int L" by (simp add: L_def)
  obtain n where n: "nf_node s p = Some n" "nn_maxoffset n = NIFO_SIZE + int cap"
    "nn_lastoffset n = NIFO_SIZE + int (nifo_fill s p)"
    using nifo_node_okD [OF assms(1)] by metis
  let ?hdr = "le32_bytes type @ le32_bytes len"
  let ?a = "p + NIFO_SIZE + int (nifo_fill s p)"
  define mem1 where "mem1 = wr_bytes (nf_mem s) ?a ?hdr"
  define old where "old = rd_bytes mem1 (?a + 8) L"
  define mem2 where "mem2 = (if flag = DEF_MEMSET_ON then wr_bytes mem1 (?a + 8) (replicate L 0) else mem1)"
  define s' where "s' = s\<lparr>nf_node := (nf_node s)(p \<mapsto> n\<lparr>nn_cnt := nn_cnt n + 1,
    nn_lastoffset := nn_lastoffset n + (TLV_SIZE + uint len)\<rparr>), nf_mem := mem2\<rparr>"
  have room: "\<not> nn_maxoffset n < nn_lastoffset n + TLV_SIZE + uint len"
    unfolding n(2,3) ulen TLV_SIZE_def using assms(2) unfolding L_def [symmetric] by linarith
  have run: "nifo_tlv_alloc s p type len flag = Some (s', Some (?a + TLV_SIZE))"
    using n(1) room n(3)
    by (simp add: nifo_tlv_alloc_def Let_def s'_def mem2_def mem1_def L_def TLV_SIZE_def add.assoc)
  have last: "nn_lastoffset n + (TLV_SIZE + uint len) = NIFO_SIZE + int (nifo_fill s p + (8 + L))"
    unfolding n(3) ulen by (simp add: TLV_SIZE_def)
  have nd: "nf_node s' p = Some (n\<lparr>nn_cnt := nn_cnt n + 1, nn_lastoffset := nn_lastoffset n + (TLV_SIZE + uint len)\<rparr>)"
    by (simp add: s'_def)
  then have fill: "nifo_fill s' p = nifo_fill s p + (8 + L)"
    unfolding nifo_fill_def [of s'] nd option.case by (simp add: last)
  have ok: "nifo_node_ok s' cap p"
  proof -
    have "int (nifo_fill s p + (8 + L)) \<le> int cap" using assms(2) by (simp add: L_def [symmetric])
    then show ?thesis unfolding nifo_node_ok_def nd using n(2) by (simp add: last)
  qed
  have pay: "nifo_payload s' p = nifo_payload s p @ ?hdr @ (if flag = DEF_MEMSET_ON then replicate L 0 else old)"
  proof -
    have "nf_mem s' = mem2" by (simp add: s'_def)
    then have "nifo_payload s' p = rd_bytes mem2 (p + NIFO_SIZE) (nifo_fill s p) @ rd_bytes mem2 ?a 8 @ rd_bytes mem2 (?a + 8) L"
      unfolding nifo_payload_def fill rd_bytes_add by (simp add: add.assoc)
    moreover have "rd_bytes mem2 (p + NIFO_SIZE) (nifo_fill s p) = nifo_payload s p"
      by (simp add: mem2_def mem1_def rd_wr_other nifo_payload_def)
    moreover have "rd_bytes mem2 ?a 8 = ?hdr"
    proof -
      have "rd_bytes mem2 ?a 8 = rd_bytes mem1 ?a 8" by (simp add: mem2_def rd_wr_other)
      also have "\<dots> = ?hdr" using rd_wr_same [of "nf_mem s" ?a ?hdr] by (simp add: mem1_def)
      finally show ?thesis .
    qed
    moreover have "rd_bytes mem2 (?a + 8) L = (if flag = DEF_MEMSET_ON then replicate L 0 else old)"
      using rd_wr_same [of mem1 "?a + 8" "replicate L 0"] by (simp add: mem2_def old_def)
    ultimately show ?thesis by simp
  qed
  have "length old = L" by (simp add: old_def)
  then show ?thesis using run ok pay by (auto simp: L_def)
qed

end
