(* ===== verification/NifoMsg.thy ===== *)
theory NifoMsg
  imports NifoRead
begin

text \<open>
  Freeing of messages and batches of messages, and the properties of the message library: writing,
  reading back, the search within a node, and the release of a batch.
\<close>

section \<open>Freeing\<close>

text \<open>The nodes in use of all zones.\<close>

definition nifo_used :: "mems \<Rightarrow> offset set" where
  "nifo_used m = (\<Union>k \<in> {k. unat k < length (mi_stMEMSZONE m)}. mems_live m k)"

lemma mems_free_used:
  assumes "mems_wf m" "p \<in> nifo_used m"
  shows "\<exists>m'. mems_free m p = Some (m', 0) \<and> mems_wf m' \<and> nifo_used m' = nifo_used m - {p}"
proof -
  obtain zid where zid: "unat zid < length (mi_stMEMSZONE m)" "p \<in> mems_live m zid"
    using assms(2) by (auto simp: nifo_used_def)
  have v: "mems_valid m zid" using assms(1) zid(1) by (simp add: mems_valid_def)
  obtain m' where m': "mems_free m p = Some (m', 0)" "mems_valid m' zid" "mems_live m' zid = mems_live m zid - {p}"
    "mems_frame m m' zid"
    using mems_free_live [OF v zid(2)] by blast
  have len: "length (mi_stMEMSZONE m') = length (mi_stMEMSZONE m)" by (rule mems_valid_geom(2) [OF m'(4)])
  have one: "mems_live m' k = mems_live m k - {p}" if k: "unat k < length (mi_stMEMSZONE m)" for k
  proof (cases "k = zid")
    case False
    have "p - stMEMSNODEHDR_SIZE \<in> memszone_nodes (mi_stMEMSZONE m ! unat zid)"
      using zid(2) by (simp add: mems_live_iff memszone_used_def)
    then have "p - stMEMSNODEHDR_SIZE \<notin> memszone_nodes (mi_stMEMSZONE m ! unat k)"
      using memszone_nodes_disjoint [OF assms(1) zid(1) k] False by (simp add: word_unat_eq_iff)
    then have "p \<notin> mems_live m k" by (simp add: mems_live_iff memszone_used_def)
    then show ?thesis using m'(4) k False by (simp add: mems_frame_def)
  qed (simp add: m'(3))
  have "nifo_used m' = nifo_used m - {p}" unfolding nifo_used_def len using one by auto
  then show ?thesis using m'(1,2) by (auto simp: mems_valid_def)
qed

lemma nifo_node_free_ok:
  assumes "mems_wf (nf_mems s)" "p \<in> nifo_used (nf_mems s)"
  shows "\<exists>s'. nifo_node_free s p = Some s' \<and> mems_wf (nf_mems s') \<and>
    nifo_used (nf_mems s') = nifo_used (nf_mems s) - {p} \<and> nf_link s' = nf_link s \<and> nf_del s' = nf_del s + 1"
proof -
  obtain m' where "mems_free (nf_mems s) p = Some (m', 0)" "mems_wf m'" "nifo_used m' = nifo_used (nf_mems s) - {p}"
    using mems_free_used [OF assms] by blast
  then show ?thesis by (simp add: nifo_node_free_def)
qed

lemma cring_next:
  assumes "cring h (x # xs)"
  shows "nxt h x = Some (if xs = [] then x else hd xs)"
  using assms by (cases xs) (simp_all add: cring_def)

lemma clist_del_init_first:
  assumes "cring h (x # xs)"
  shows "\<exists>h'. clist_del_init h x = Some h' \<and> (xs \<noteq> [] \<longrightarrow> cring h' xs) \<and> (\<forall>y. y \<notin> set (x # xs) \<longrightarrow> h' y = h y)"
  by (rule clist_del_init_ring [OF assms]) blast

lemma nifo_delete_conts_all:
  assumes "mems_wf (nf_mems s)" "cring (nf_link s) (map (\<lambda>p. p + CONT_OFF) ps)" "set ps \<subseteq> nifo_used (nf_mems s)"
  shows "\<exists>s'. nifo_delete_conts s (Some (hd ps)) = Some s' \<and> mems_wf (nf_mems s') \<and>
    nifo_used (nf_mems s') = nifo_used (nf_mems s) - set ps \<and> nf_del s' = nf_del s + of_nat (length ps) \<and>
    (\<forall>y. y \<notin> (\<lambda>p. p + CONT_OFF) ` set ps \<longrightarrow> nf_link s' y = nf_link s y)"
  using assms
proof (induction ps arbitrary: s)
  case (Cons p ps)
  let ?on = "\<lambda>p. p + CONT_OFF"
  have ring: "cring (nf_link s) (?on p # map ?on ps)" using Cons.prems(2) by simp
  obtain h' where h: "clist_del_init (nf_link s) (?on p) = Some h'" "ps \<noteq> [] \<longrightarrow> cring h' (map ?on ps)"
    "\<forall>y. y \<notin> set (?on p # map ?on ps) \<longrightarrow> h' y = nf_link s y"
    using clist_del_init_first [OF ring] by auto
  have dist: "p \<notin> set ps" using cring_distinct [OF ring] by auto
  have nx: "nifo_cont_next s p = Some (if ps = [] then p else hd ps)"
    using cring_next [OF ring] by (auto simp: nifo_cont_next_def nxt_def hd_map)
  define s0 where "s0 = s\<lparr>nf_link := h'\<rparr>"
  have s0: "nf_mems s0 = nf_mems s" "nf_link s0 = h'" "nf_del s0 = nf_del s" by (simp_all add: s0_def)
  have un: "nifo_node_unlink_cont s p = Some s0"
    using h(1) by (simp add: nifo_node_unlink_cont_def nifo_on_links_def s0_def)
  have "mems_wf (nf_mems s0)" "p \<in> nifo_used (nf_mems s0)" using Cons.prems(1,3) s0 by simp_all
  then obtain s1 where s1: "nifo_node_free s0 p = Some s1" "mems_wf (nf_mems s1)"
    "nifo_used (nf_mems s1) = nifo_used (nf_mems s) - {p}" "nf_link s1 = h'" "nf_del s1 = nf_del s + 1"
    using nifo_node_free_ok [of s0 p] s0 by auto
  have del: "nifo_cont_delete s p = Some (s1, if ps = [] then None else Some (hd ps))"
  proof (cases ps)
    case (Cons q qs)
    then show ?thesis using nx un s1(1) dist by (auto simp: nifo_cont_delete_def)
  qed (use nx un s1(1) in \<open>simp add: nifo_cont_delete_def\<close>)
  have keep: "nf_link s1 y = nf_link s y" if "y \<notin> ?on ` set (p # ps)" for y
  proof -
    have "y \<notin> set (?on p # map ?on ps)" using that by auto
    then show ?thesis using h(3) s1(4) by blast
  qed
  show ?case
  proof (cases "ps = []")
    case True
    have "nifo_delete_conts s (Some p) = Some s1"
      using del True by (subst nifo_delete_conts.simps) (simp, subst nifo_delete_conts.simps, simp)
    then show ?thesis using s1 keep True by (intro exI [of _ s1]) auto
  next
    case False
    have sub: "set ps \<subseteq> nifo_used (nf_mems s1)" using Cons.prems(3) s1(3) dist by auto
    have "cring (nf_link s1) (map ?on ps)" using h(2) False s1(4) by simp
    from Cons.IH [OF s1(2) this sub] obtain s2 where s2:
      "nifo_delete_conts s1 (Some (hd ps)) = Some s2" "mems_wf (nf_mems s2)"
      "nifo_used (nf_mems s2) = nifo_used (nf_mems s1) - set ps" "nf_del s2 = nf_del s1 + of_nat (length ps)"
      "\<forall>y. y \<notin> ?on ` set ps \<longrightarrow> nf_link s2 y = nf_link s1 y"
      by blast
    have "nifo_delete_conts s (Some p) = Some s2"
      using del s2(1) False by (subst nifo_delete_conts.simps) simp
    moreover have "\<forall>y. y \<notin> ?on ` set (p # ps) \<longrightarrow> nf_link s2 y = nf_link s y"
      using s2(5) keep by auto
    moreover have "nifo_used (nf_mems s2) = nifo_used (nf_mems s) - set (p # ps)" using s2(3) s1(3) by auto
    moreover have "nf_del s2 = nf_del s + of_nat (length (p # ps))" using s2(4) s1(5) by (simp add: add.assoc)
    ultimately show ?thesis using s2(2) by (intro exI [of _ s2]) simp
  qed
qed simp

text \<open>A batch of messages: the first nodes are linked by \<open>nont\<close>, each message by \<open>cont\<close>.\<close>

definition nifo_batch :: "nifo \<Rightarrow> offset list list \<Rightarrow> bool" where
  "nifo_batch s cs \<longleftrightarrow> cring (nf_link s) (map (\<lambda>c. hd c + NONT_OFF) cs) \<and>
     (\<forall>c \<in> set cs. cring (nf_link s) (map (\<lambda>p. p + CONT_OFF) c)) \<and> distinct (concat cs) \<and>
     (\<forall>p \<in> set (concat cs). \<forall>q \<in> set (concat cs). p + NONT_OFF \<noteq> q + CONT_OFF)"

lemma nifo_node_delete_batch:
  assumes "mems_wf (nf_mems s)" "nifo_batch s cs" "set (concat cs) \<subseteq> nifo_used (nf_mems s)"
  shows "\<exists>s'. nifo_node_delete s (hd (hd cs)) = Some s' \<and> mems_wf (nf_mems s') \<and>
    nifo_used (nf_mems s') = nifo_used (nf_mems s) - set (concat cs) \<and>
    nf_del s' = nf_del s + of_nat (length (concat cs))"
  using assms
proof (induction cs arbitrary: s)
  case (Cons c cs)
  let ?nt = "\<lambda>c. hd c + NONT_OFF" and ?ct = "\<lambda>p. p + CONT_OFF"
  have ring: "cring (nf_link s) (?nt c # map ?nt cs)"
    and conts: "\<And>d. d \<in> set (c # cs) \<Longrightarrow> cring (nf_link s) (map ?ct d)"
    and dist: "distinct (concat (c # cs))"
    and apart: "\<And>p q. p \<in> set (concat (c # cs)) \<Longrightarrow> q \<in> set (concat (c # cs)) \<Longrightarrow> p + NONT_OFF \<noteq> q + CONT_OFF"
    using Cons.prems(2) unfolding nifo_batch_def by (simp, blast, simp, blast)
  have ne: "d \<noteq> []" if "d \<in> set (c # cs)" for d using conts [OF that] by auto
  then have hds: "hd d \<in> set (concat (c # cs))" if "d \<in> set (c # cs)" for d using that by fastforce
  have off: "?ct q \<noteq> ?nt d" if "d \<in> set (c # cs)" "q \<in> set (concat (c # cs))" for d q
    using apart [OF hds [OF that(1)] that(2)] by simp
  obtain h' where h: "clist_del_init (nf_link s) (?nt c) = Some h'" "cs \<noteq> [] \<longrightarrow> cring h' (map ?nt cs)"
    "\<forall>y. y \<notin> set (?nt c # map ?nt cs) \<longrightarrow> h' y = nf_link s y"
    using clist_del_init_first [OF ring] by auto
  define s0 where "s0 = s\<lparr>nf_link := h'\<rparr>"
  have s0: "nf_mems s0 = nf_mems s" "nf_link s0 = h'" "nf_del s0 = nf_del s" by (simp_all add: s0_def)
  have hdne: "hd (hd cs) \<noteq> hd c" if "cs \<noteq> []"
  proof -
    have m: "hd cs \<in> set cs" using that by simp
    then have "hd (hd cs) \<in> set (concat cs)" using ne [of "hd cs"] by (auto intro!: bexI [of _ "hd cs"])
    moreover have "hd c \<in> set c" using ne [of c] by simp
    moreover have "set c \<inter> set (concat cs) = {}" using dist by simp
    ultimately show ?thesis by (metis disjoint_iff)
  qed
  have del: "nifo_nont_delete s (hd c) = Some (s0, if cs = [] then None else Some (hd (hd cs)))"
    using cring_next [OF ring] h(1) hdne
    by (cases cs) (auto simp: nifo_nont_delete_def nifo_nont_next_def nxt_def nifo_node_unlink_nont_def nifo_on_links_def s0_def)
  have ring0: "cring (nf_link s0) (map ?ct d)" if d: "d \<in> set (c # cs)" for d
  proof (rule cring_cong [OF conts [OF d]])
    fix y assume "y \<in> set (map ?ct d)"
    then obtain q where q: "q \<in> set d" "y = ?ct q" by auto
    have qc: "q \<in> set (concat (c # cs))" using q(1) d by auto
    have "\<forall>e \<in> set (c # cs). y \<noteq> ?nt e" unfolding q(2) using off [OF _ qc] by blast
    then have "y \<notin> set (?nt c # map ?nt cs)" by auto
    then show "nf_link s0 y = nf_link s y" using h(3) s0 by simp
  qed
  have "mems_wf (nf_mems s0)" "set c \<subseteq> nifo_used (nf_mems s0)" using Cons.prems(1,3) s0 by auto
  from nifo_delete_conts_all [OF this(1) ring0 this(2)] obtain s1 where s1:
    "nifo_delete_conts s0 (Some (hd c)) = Some s1" "mems_wf (nf_mems s1)"
    "nifo_used (nf_mems s1) = nifo_used (nf_mems s) - set c" "nf_del s1 = nf_del s + of_nat (length c)"
    "\<forall>y. y \<notin> ?ct ` set c \<longrightarrow> nf_link s1 y = nf_link s0 y"
    using s0 by auto
  show ?case
  proof (cases "cs = []")
    case True
    have "nifo_node_delete s (hd c) = Some s1" using del s1(1) True by (subst nifo_node_delete.simps) simp
    then show ?thesis using s1 True by simp
  next
    case False
    have "nifo_batch s1 cs"
      unfolding nifo_batch_def
    proof (intro conjI ballI)
      show "cring (nf_link s1) (map ?nt cs)"
      proof (rule cring_cong [of h'])
        show "cring h' (map ?nt cs)" using h(2) False by simp
        fix y assume "y \<in> set (map ?nt cs)"
        then obtain d where d: "d \<in> set (c # cs)" "y = ?nt d" by auto
        have "?ct q \<noteq> y" if "q \<in> set c" for q unfolding d(2) by (rule off [OF d(1)]) (use that in simp)
        then have "y \<notin> ?ct ` set c" by auto
        then show "nf_link s1 y = h' y" using s1(5) s0 by simp
      qed
      show "cring (nf_link s1) (map ?ct d)" if d: "d \<in> set cs" for d
      proof (rule cring_cong [OF ring0 [of d]])
        show "d \<in> set (c # cs)" using d by simp
        fix y assume "y \<in> set (map ?ct d)"
        then have "y \<notin> ?ct ` set c" using d dist by auto
        then show "nf_link s1 y = nf_link s0 y" using s1(5) by simp
      qed
      show "distinct (concat cs)" using dist by simp
      show "p + NONT_OFF \<noteq> q + CONT_OFF" if "p \<in> set (concat cs)" "q \<in> set (concat cs)" for p q
        using apart that by simp
    qed
    moreover have "set (concat cs) \<subseteq> nifo_used (nf_mems s1)" using Cons.prems(3) s1(3) dist by auto
    ultimately obtain s2 where s2: "nifo_node_delete s1 (hd (hd cs)) = Some s2" "mems_wf (nf_mems s2)"
      "nifo_used (nf_mems s2) = nifo_used (nf_mems s1) - set (concat cs)"
      "nf_del s2 = nf_del s1 + of_nat (length (concat cs))"
      using Cons.IH [OF s1(2)] by blast
    have "nifo_node_delete s (hd c) = Some s2"
      using del s1(1) s2(1) False by (subst nifo_node_delete.simps) simp
    moreover have "nifo_used (nf_mems s2) = nifo_used (nf_mems s) - set (concat (c # cs))" using s2(3) s1(3) by auto
    moreover have "nf_del s2 = nf_del s + of_nat (length (concat (c # cs)))" using s2(4) s1(4) by (simp add: add.assoc)
    ultimately show ?thesis using s2(2) by simp
  qed
qed (simp add: nifo_batch_def)

section \<open>Room in the pool\<close>

text \<open>The nodes of the zone that are not in use.\<close>

definition nifo_free_nodes :: "nifo \<Rightarrow> u32 \<Rightarrow> nat" where
  "nifo_free_nodes s zid = card (mems_cells (nf_mems s) zid) - card (mems_live (nf_mems s) zid)"

lemma nifo_grow_free:
  assumes "nifo_grow s s' zid ps qs bs"
  shows "length qs + nifo_free_nodes s' zid = nifo_free_nodes s zid"
proof -
  have fin: "finite (mems_cells (nf_mems s) zid)" by simp
  have lc: "mems_live (nf_mems s') zid \<subseteq> mems_cells (nf_mems s) zid"
    using mems_live_cells [of "nf_mems s'" zid] assms by (simp add: nifo_grow_def)
  have "distinct (ps @ qs)" by (rule nifo_chain_distinct [OF nifo_grow_facts(3) [OF assms]])
  then have "card (set qs) = length qs" by (simp add: distinct_card)
  moreover have "card (mems_live (nf_mems s') zid) = card (mems_live (nf_mems s) zid) + card (set qs)"
    using assms mems_live_cells [of "nf_mems s" zid] finite_subset [OF mems_live_cells fin]
    by (simp add: nifo_grow_def card_Un_disjoint Int_commute)
  moreover have "card (mems_live (nf_mems s') zid) \<le> card (mems_cells (nf_mems s) zid)"
    by (rule card_mono [OF fin lc])
  moreover have "mems_cells (nf_mems s') zid = mems_cells (nf_mems s) zid" using assms by (simp add: nifo_grow_def)
  ultimately show ?thesis by (simp add: nifo_free_nodes_def)
qed

lemma nifo_done_room:
  assumes "nifo_done s s' zid ps r errs bs" "nifo_chain s zid ps"
    "length (nifo_stream s ps) + length bs < (length ps + nifo_free_nodes s zid - 1) * nifo_cap s zid"
  shows "r = 0 \<or> r \<in> errs \<and> False"
proof (rule ccontr)
  assume "\<not> ?thesis"
  then obtain qs cs where g: "nifo_grow s s' zid ps qs cs" "length cs \<le> length bs"
    "mems_live (nf_mems s') zid = mems_cells (nf_mems s') zid"
    using assms(1) by (auto simp: nifo_done_def)
  have ne: "ps @ qs \<noteq> []" using nifo_chain_ne [OF assms(2)] by simp
  then obtain rs p where rs: "ps @ qs = rs @ [p]" by (metis rev_exhaust)
  have "nifo_free_nodes s' zid = 0" using g(3) by (simp add: nifo_free_nodes_def)
  then have "length qs = nifo_free_nodes s zid" using nifo_grow_free [OF g(1)] by simp
  then have len: "length rs = length ps + nifo_free_nodes s zid - 1"
    using arg_cong [OF rs, of length] by simp
  have "nifo_chain s' zid (rs @ [p])" using nifo_grow_facts(3) [OF g(1)] rs by simp
  from nifo_stream_length [OF this]
  have "length (nifo_stream s' (rs @ [p])) = length rs * nifo_cap s zid + nifo_fill s' p"
    using nifo_grow_facts(2) [OF g(1)] by simp
  moreover have "length (nifo_stream s' (rs @ [p])) \<le> length (nifo_stream s ps) + length bs"
    using arg_cong [OF nifo_grow_facts(4) [OF g(1)], of length] g(2) unfolding rs by simp
  ultimately show False using assms(3) len by simp
qed

lemma length_nifo_record: "unat len \<le> length v \<Longrightarrow> length (nifo_record cap rem type len v) = 8 + unat len"
  by (simp add: nifo_record_def length_nifo_pieces)

lemma nifo_write_all_room:
  assumes "nifo_zone s zid" "nifo_chain s zid ps" "\<forall>(type, v) \<in> set rs. length v < 2 ^ 31"
    "length (nifo_stream s ps) + length (nifo_encode rs) < (length ps + nifo_free_nodes s zid - 1) * nifo_cap s zid"
  shows "\<exists>s'. nifo_write_all s now (hd ps) rs = Some (s', 0)"
  using assms
proof (induction rs arbitrary: s ps)
  case (Cons rec rs)
  obtain type v where rec: "rec = (type, v)" by fastforce
  let ?len = "of_nat (length v) :: u32"
  have len: "length v < 2 ^ 31" using Cons.prems(3) rec by simp
  note ul = unat_length [OF len]
  obtain s1 r where s1: "nifo_copy_tlv_cont s now type ?len v (hd ps) = Some (s1, r)"
    "nifo_done s s1 zid ps r {-1, -2} (nifo_record (nifo_cap s zid) (nifo_cap s zid - nifo_fill s (last ps)) type ?len v)"
    using nifo_copy_done [OF Cons.prems(1,2), of ?len v now type] ul len by auto
  have r0: "r = 0"
    using nifo_done_room [OF s1(2) Cons.prems(2)] Cons.prems(4) rec ul by (simp add: length_nifo_record)
  obtain qs where g: "nifo_grow s s1 zid ps qs
      (nifo_record (nifo_cap s zid) (nifo_cap s zid - nifo_fill s (last ps)) type ?len v)"
    using s1(2) r0 by (auto simp: nifo_done_def)
  note gf = nifo_grow_facts [OF g]
  have hd1: "hd (ps @ qs) = hd ps" using nifo_chain_ne [OF Cons.prems(2)] by simp
  have "length (nifo_stream s1 (ps @ qs)) + length (nifo_encode rs) =
      length (nifo_stream s ps) + length (nifo_encode (rec # rs))"
    using gf(4) rec ul by (simp add: length_nifo_record)
  moreover have "length (ps @ qs) + nifo_free_nodes s1 zid = length ps + nifo_free_nodes s zid"
    using nifo_grow_free [OF g] by simp
  ultimately have room: "length (nifo_stream s1 (ps @ qs)) + length (nifo_encode rs) <
      (length (ps @ qs) + nifo_free_nodes s1 zid - 1) * nifo_cap s1 zid"
    using Cons.prems(4) gf(2) by (simp only:)
  have "\<forall>(type, v) \<in> set rs. length v < 2 ^ 31" using Cons.prems(3) by simp
  from Cons.IH [OF gf(1,3) this room] obtain s2 where "nifo_write_all s1 now (hd (ps @ qs)) rs = Some (s2, 0)" ..
  then show ?case using s1(1) r0 rec hd1 by simp
qed simp

section \<open>A block for the examples\<close>

lemma nifo_fresh_chain:
  assumes "nifo_fresh s s' zid q"
  shows "nifo_zone s' zid" "nifo_chain s' zid [q]" "nifo_fill s' q = 0" "nifo_stream s' [q] = []" "nifo_tight s' zid [q]"
    "nifo_cap s' zid = nifo_cap s zid"
proof -
  show z: "nifo_zone s' zid" "nifo_cap s' zid = nifo_cap s zid" using assms by (simp_all add: nifo_fresh_def)
  show fill: "nifo_fill s' q = 0" using assms by (simp add: nifo_fresh_def nifo_fill_def)
  then show "nifo_stream s' [q] = []" by (simp add: nifo_payload_def)
  show "nifo_tight s' zid [q]" by (simp add: nifo_tight_def)
  have "cring (nf_link s') [q + CONT_OFF]" using assms by (simp add: nifo_fresh_def cring_single)
  moreover have "nifo_node_ok s' (nifo_cap s' zid) q" using assms by (simp add: nifo_fresh_def nifo_node_ok_def)
  moreover have "q \<in> mems_live (nf_mems s') zid" using assms by (simp add: nifo_fresh_def)
  ultimately show "nifo_chain s' zid [q]" by (simp add: nifo_chain_def)
qed

definition nifo_demo_conf :: memsconf where
  "nifo_demo_conf = \<lparr>mc_uiType = MEMS_SHARED_MEM, mc_uiShmKey = 8001, mc_uiHeadRoomSize = 0,
     mc_uiZoneCnt = 1, mc_stMEMSZONECONF = [\<lparr>zc_uiZoneID = 0, zc_uiSemFlag = MEMS_SEMA_ON, zc_uiSemKey = 8100,
     zc_uiMemNodeBodySize = 80, zc_uiMemNodeTotCnt = 4\<rparr>], mc_uiMatrixZoneID = [0]\<rparr>"

definition nifo_demo :: nifo where
  "nifo_demo = \<lparr>nf_mems = the (mems_fresh mems_demo_os nifo_demo_conf), nf_link = (\<lambda>_. None), nf_node = (\<lambda>_. None),
     nf_mem = (\<lambda>_. 0), nf_procID = 0, nf_create = 0, nf_del = 0\<rparr>"

lemma nifo_demo_mems:
  "mems_wf (nf_mems nifo_demo)" "mems_live (nf_mems nifo_demo) 0 = {}" "length (mi_stMEMSZONE (nf_mems nifo_demo)) = 1"
proof -
  have ok: "memsconf_ok mems_demo_os nifo_demo_conf"
    by (simp add: memsconf_ok_def nifo_demo_conf_def mems_demo_os_def mems_sem_had_def
        mems_total_size_def zoneconf_size_def mems_const_defs less_Suc_eq)
  obtain m where m: "mems_fresh mems_demo_os nifo_demo_conf = Some m" "mems_wf m"
    "\<forall>zid. unat zid < length (mi_stMEMSZONE m) \<longrightarrow> mems_live m zid = {}" "mi_uiZoneCnt m = mc_uiZoneCnt nifo_demo_conf"
    using mems_fresh_wf [OF ok] by blast
  have "length (mi_stMEMSZONE m) = 1" using m(2,4) by (simp add: mems_wf_def nifo_demo_conf_def)
  then show "mems_wf (nf_mems nifo_demo)" "mems_live (nf_mems nifo_demo) 0 = {}"
    "length (mi_stMEMSZONE (nf_mems nifo_demo)) = 1"
    using m(1-3) by (simp_all add: nifo_demo_def)
qed

lemma nifo_demo_zone: "nifo_zone nifo_demo 0" "nifo_cap nifo_demo 0 = 16" "nifo_free_nodes nifo_demo 0 = 4"
proof -
  note defs = nifo_demo_def mems_fresh_def nifo_demo_conf_def mems_demo_os_def mems_sem_init_def mems_const_defs Let_def
  have z: "mz_uiMemNodeBodySize (mi_stMEMSZONE (nf_mems nifo_demo) ! 0) = 80"
    "0 \<le> mz_offsetNodeStart (mi_stMEMSZONE (nf_mems nifo_demo) ! 0)"
    "mz_uiMemNodeTotCnt (mi_stMEMSZONE (nf_mems nifo_demo) ! 0) = 4"
    "mi_uiMatrixZoneID (nf_mems nifo_demo) = [0]"
    "mi_uiMemNodeHdrSize (nf_mems nifo_demo) = word_of_int stMEMSNODEHDR_SIZE" "nf_procID nifo_demo = 0"
    by (simp_all add: defs)
  have pos: "\<forall>p \<in> mems_cells (nf_mems nifo_demo) 0. 0 < p"
    using z(1,2) by (auto simp: mems_cells_def memszone_nodes_def slots_def slot_at_def memszone_stride_def stMEMSNODEHDR_SIZE_def)
  have body: "mems_body (nf_mems nifo_demo) 0 = 80" using z(1) by (simp add: mems_body_def)
  show "nifo_zone nifo_demo 0"
    unfolding nifo_zone_def body mems_valid_def
    using nifo_demo_mems(1,3) z(4-6) pos by (simp add: INVALID_ID_def NIFO_SIZE_def TLV_SIZE_def stMEMSNODEHDR_SIZE_def)
  show "nifo_cap nifo_demo 0 = 16" by (simp add: nifo_cap_def body NIFO_SIZE_def)
  have "card (mems_cells (nf_mems nifo_demo) 0) = 4"
  proof -
    have "card (memszone_nodes (mi_stMEMSZONE (nf_mems nifo_demo) ! 0)) = 4"
      using z(3) by (simp add: memszone_nodes_def card_slots)
    then show ?thesis by (simp add: mems_cells_def card_image)
  qed
  then show "nifo_free_nodes nifo_demo 0 = 4" using nifo_demo_mems(2) by (simp add: nifo_free_nodes_def)
qed

lemma nifo_demo_node:
  obtains s q where "nifo_node_alloc nifo_demo 1 = Some (s, Some q)" "nifo_fresh nifo_demo s 0 q" "nifo_free_nodes s 0 = 3"
proof -
  have "mems_live (nf_mems nifo_demo) 0 \<noteq> mems_cells (nf_mems nifo_demo) 0"
    using nifo_demo_zone(3) by (auto simp: nifo_free_nodes_def)
  then obtain s q where s: "nifo_node_alloc nifo_demo 1 = Some (s, Some q)" "nifo_fresh nifo_demo s 0 q"
    using nifo_node_alloc_ok [OF nifo_demo_zone(1), of 1] by blast
  have "nifo_free_nodes s 0 = 3"
    using s(2) nifo_demo_zone(3) nifo_demo_mems(2) by (simp add: nifo_fresh_def nifo_free_nodes_def)
  then show ?thesis using s that by blast
qed

section \<open>Properties\<close>

text \<open>The records of a message that fit into the node they start in.\<close>

fun nifo_unsplit :: "nat \<Rightarrow> nat \<Rightarrow> (u32 \<times> u8 list) list \<Rightarrow> bool" where
  "nifo_unsplit cap P [] \<longleftrightarrow> True"
| "nifo_unsplit cap P ((type, v) # rs) \<longleftrightarrow>
     length v \<le> nifo_value_room cap (P + 8) \<and> nifo_unsplit cap (P + 8 + length v) rs"

lemma nifo_unsplit_stored: "nifo_unsplit cap P rs \<Longrightarrow> nifo_stored cap P rs = rs"
  by (induction cap P rs rule: nifo_unsplit.induct) (simp_all add: nifo_pieces_fit)

lemma nifo_written_read:
  assumes "nifo_zone s zid" "nifo_chain s zid [p]" "nifo_fill s p = 0" "rs \<noteq> []" "\<forall>(type, v) \<in> set rs. length v < 2 ^ 31"
    "nifo_write_all s now p rs = Some (s', 0)"
  shows "nifo_read_all s' p p = Some (nifo_stored (nifo_cap s zid) 0 rs)"
proof -
  have tight: "nifo_tight s zid [p]" by (simp add: nifo_tight_def)
  have S: "nifo_stream s [p] = []" using assms(3) by (simp add: nifo_payload_def)
  have w: "nifo_write_all s now (hd [p]) rs = Some (s', 0)" using assms(6) by simp
  obtain qs where g: "nifo_grow s s' zid [p] qs (nifo_encode (nifo_stored (nifo_cap s zid) 0 rs))"
    "nifo_tight s' zid ([p] @ qs)"
    using nifo_write_all_ok [OF assms(1,2) tight assms(5) w] unfolding S by auto
  note gf = nifo_grow_facts [OF g(1)]
  have "\<forall>(type, v) \<in> set (nifo_stored (nifo_cap s zid) 0 rs). length v < 2 ^ 31"
    using assms(5) nifo_stored_lengths by fastforce
  from nifo_read_all_ok [OF gf(1,3) g(2) _ this, of "[]"]
  have "nifo_read_all s' (hd ([p] @ qs)) (nifo_addr s' zid ([p] @ qs) 0) = Some (nifo_stored (nifo_cap s zid) 0 rs)"
    using gf(4) S assms(4) by simp
  then show ?thesis by (simp add: nifo_addr_def)
qed

text \<open>C20: \<open>nifo_copy_tlv_cont\<close> returns on every message of the zone. On success the byte stream of the
  message has grown by the record (header, then the value as the loop copies it) and possibly by new
  nodes; it fails only when the zone has no node left. In either case the other nodes of the zone
  keep their fields, links and contents.\<close>

theorem nifo_copy_appends:
  assumes "nifo_zone s zid" "nifo_chain s zid ps" "unat len < 2 ^ 31" "unat len \<le> length v"
  shows "\<exists>s' r. nifo_copy_tlv_cont s now type len v (hd ps) = Some (s', r) \<and> nifo_zone s' zid \<and>
    nifo_other s s' zid ps \<and>
    (if r = 0 then \<exists>qs. nifo_chain s' zid (ps @ qs) \<and> nifo_stream s' (ps @ qs) = nifo_stream s ps @
          nifo_record (nifo_cap s zid) (nifo_cap s zid - nifo_fill s (last ps)) type len v
     else r \<in> {-1, -2} \<and> mems_live (nf_mems s') zid = mems_cells (nf_mems s') zid)"
proof -
  obtain s' r where r: "nifo_copy_tlv_cont s now type len v (hd ps) = Some (s', r)"
    "nifo_done s s' zid ps r {-1, -2} (nifo_record (nifo_cap s zid) (nifo_cap s zid - nifo_fill s (last ps)) type len v)"
    using nifo_copy_done [OF assms, of now type] by blast
  then obtain qs bs where "nifo_grow s s' zid ps qs bs" by (auto simp: nifo_done_def)
  then have "nifo_zone s' zid" "nifo_other s s' zid ps" by (simp_all add: nifo_grow_def)
  moreover have "if r = 0 then \<exists>qs. nifo_chain s' zid (ps @ qs) \<and> nifo_stream s' (ps @ qs) = nifo_stream s ps @
        nifo_record (nifo_cap s zid) (nifo_cap s zid - nifo_fill s (last ps)) type len v
      else r \<in> {-1, -2} \<and> mems_live (nf_mems s') zid = mems_cells (nf_mems s') zid"
  proof (cases "r = 0")
    case True
    then obtain qs where g: "nifo_grow s s' zid ps qs
        (nifo_record (nifo_cap s zid) (nifo_cap s zid - nifo_fill s (last ps)) type len v)"
      using r(2) by (auto simp: nifo_done_def)
    show ?thesis using nifo_grow_facts(3,4) [OF g] True by auto
  qed (use r(2) in \<open>simp add: nifo_done_def\<close>)
  ultimately show ?thesis using r(1) by blast
qed

theorem nifo_copy_appends_witness:
  "\<exists>s q s' r. nifo_node_alloc nifo_demo 1 = Some (s, Some q) \<and>
     nifo_copy_tlv_cont s 1 7 20 (replicate 20 5) q = Some (s', r) \<and> nifo_zone s' 0"
proof -
  obtain s q where s: "nifo_node_alloc nifo_demo 1 = Some (s, Some q)" "nifo_fresh nifo_demo s 0 q"
    using nifo_demo_node by blast
  note f = nifo_fresh_chain [OF s(2)]
  show ?thesis using nifo_copy_appends [OF f(1,2), of 20 "replicate 20 5" 1 7] s(1) by auto
qed

text \<open>C2: A message that \<open>nifo_copy_tlv_cont\<close> has written record by record into a new node, over as many
  nodes as it takes, is read back by \<open>nifo_read_tlv_cont\<close> along its next pointers, to the end and
  with the same types and values, when every value fits into the node it starts in (headers may run
  over).\<close>

theorem nifo_roundtrip:
  assumes "nifo_zone s zid" "nifo_chain s zid [p]" "nifo_fill s p = 0" "rs \<noteq> []"
    "\<forall>(type, v) \<in> set rs. length v < 2 ^ 31" "nifo_unsplit (nifo_cap s zid) 0 rs"
    "nifo_write_all s now p rs = Some (s', 0)"
  shows "nifo_read_all s' p p = Some rs"
  using nifo_written_read [OF assms(1-5,7)] nifo_unsplit_stored [OF assms(6)] by simp

theorem nifo_roundtrip_witness:
  "\<exists>s q s'. nifo_node_alloc nifo_demo 1 = Some (s, Some q) \<and>
     nifo_write_all s 1 q [(7, [1, 2]), (9, [3, 4, 5]), (7, [6])] = Some (s', 0) \<and>
     nifo_read_all s' q q = Some [(7, [1, 2]), (9, [3, 4, 5]), (7, [6])]"
proof -
  obtain s q where s: "nifo_node_alloc nifo_demo 1 = Some (s, Some q)" "nifo_fresh nifo_demo s 0 q" "nifo_free_nodes s 0 = 3"
    using nifo_demo_node by blast
  note f = nifo_fresh_chain [OF s(2)]
  let ?rs = "[(7, [1, 2]), (9, [3, 4, 5]), (7, [6])] :: (u32 \<times> u8 list) list"
  have cap: "nifo_cap s 0 = 16" using f(6) nifo_demo_zone(2) by simp
  have lens: "\<forall>(type, v) \<in> set ?rs. length v < 2 ^ 31" by simp
  obtain s' where w: "nifo_write_all s 1 q ?rs = Some (s', 0)"
    using nifo_write_all_room [OF f(1,2) lens, of 1] f(3,4) cap s(3) by auto
  have "nifo_unsplit (nifo_cap s 0) 0 ?rs" unfolding cap by (simp add: nifo_value_room_def)
  from nifo_roundtrip [OF f(1-3) _ lens this w] show ?thesis using s(1) w by auto
qed

text \<open>C28: A value that does not fit into the node it starts in is not read back: after the part that fits,
  the copy starts over with the first byte of the value.\<close>

theorem nifo_split_value:
  assumes "nifo_zone s zid" "nifo_chain s zid [p]" "nifo_fill s p = 0" "length v < 2 ^ 31"
    "nifo_cap s zid - 8 < length v" "v ! (nifo_cap s zid - 8) \<noteq> v ! 0"
    "nifo_write_all s now p [(type, v)] = Some (s', 0)"
  shows "\<exists>w. nifo_read_all s' p p = Some [(type, w)] \<and> length w = length v \<and> w \<noteq> v \<and>
    w ! (nifo_cap s zid - 8) = v ! 0"
proof -
  define cap where "cap = nifo_cap s zid"
  define w where "w = nifo_pieces cap (nifo_value_room cap 8) (length v) v"
  have cap8: "8 < cap" using nifo_cap_body(2) [OF assms(1)] assms(6) by (cases "cap = 8") (auto simp: cap_def)
  then have room: "nifo_value_room cap 8 = cap - 8" by (simp add: nifo_value_room_def)
  have "nifo_read_all s' p p = Some [(type, w)]"
    using nifo_written_read [OF assms(1-3) _ _ assms(7)] assms(4) by (simp add: w_def cap_def)
  moreover have "length w = length v" by (simp add: w_def length_nifo_pieces)
  moreover have at: "w ! (cap - 8) = v ! 0"
  proof -
    let ?n = "length v - (cap - 8)"
    have w: "w = take (cap - 8) v @ nifo_pieces cap cap ?n v"
      unfolding w_def room by (rule nifo_pieces_split) (use assms(5) cap8 in \<open>simp_all add: cap_def\<close>)
    have "nifo_pieces cap cap ?n v ! 0 = v ! 0"
    proof (cases "?n \<le> cap")
      case True
      then show ?thesis using assms(5) by (simp add: nifo_pieces_fit cap_def)
    next
      case False
      then show ?thesis using assms(5) cap8 by (simp add: nifo_pieces_split nth_append cap_def)
    qed
    then show ?thesis unfolding w using assms(5) by (simp add: nth_append cap_def)
  qed
  ultimately show ?thesis using assms(6) by (intro exI [of _ w]) (auto simp: cap_def)
qed

theorem nifo_split_value_witness:
  "\<exists>s q s' w. nifo_node_alloc nifo_demo 1 = Some (s, Some q) \<and>
     nifo_write_all s 1 q [(7, [1, 2, 3, 4, 5, 6, 7, 8, 9])] = Some (s', 0) \<and>
     nifo_read_all s' q q = Some [(7, w)] \<and> w \<noteq> [1, 2, 3, 4, 5, 6, 7, 8, 9] \<and> w ! 8 = 1"
proof -
  obtain s q where s: "nifo_node_alloc nifo_demo 1 = Some (s, Some q)" "nifo_fresh nifo_demo s 0 q" "nifo_free_nodes s 0 = 3"
    using nifo_demo_node by blast
  note f = nifo_fresh_chain [OF s(2)]
  let ?v = "[1, 2, 3, 4, 5, 6, 7, 8, 9] :: u8 list"
  have cap: "nifo_cap s 0 = 16" using f(6) nifo_demo_zone(2) by simp
  have lens: "\<forall>(type, v) \<in> set [(7 :: u32, ?v)]. length v < 2 ^ 31" by simp
  obtain s' where w: "nifo_write_all s 1 q [(7, ?v)] = Some (s', 0)"
    using nifo_write_all_room [OF f(1,2) lens, of 1] f(3,4) cap s(3) by auto
  have "length ?v < 2 ^ 31" "nifo_cap s 0 - 8 < length ?v" "?v ! (nifo_cap s 0 - 8) \<noteq> ?v ! 0"
    using cap by simp_all
  from nifo_split_value [OF f(1-3) this w] show ?thesis using s(1) w cap by auto
qed

text \<open>C26: \<open>nifo_node_delete\<close> returns on a batch of messages whose nodes may lie in any zone, frees exactly
  the nodes of all messages of the batch, each once, and counts them.\<close>

theorem nifo_node_delete_frees:
  assumes "mems_wf (nf_mems s)" "nifo_batch s cs" "set (concat cs) \<subseteq> nifo_used (nf_mems s)"
  shows "\<exists>s'. nifo_node_delete s (hd (hd cs)) = Some s' \<and> mems_wf (nf_mems s') \<and>
    nifo_used (nf_mems s') = nifo_used (nf_mems s) - set (concat cs) \<and>
    nf_del s' = nf_del s + of_nat (length (concat cs))"
  by (rule nifo_node_delete_batch [OF assms])

theorem nifo_node_delete_frees_witness:
  "\<exists>s q s'. nifo_node_alloc nifo_demo 1 = Some (s, Some q) \<and> nifo_node_delete s q = Some s' \<and>
     q \<notin> nifo_used (nf_mems s')"
proof -
  obtain s q where s: "nifo_node_alloc nifo_demo 1 = Some (s, Some q)" "nifo_fresh nifo_demo s 0 q"
    using nifo_demo_node by blast
  have wf: "mems_wf (nf_mems s)" "q \<in> nifo_used (nf_mems s)"
    using s(2) by (auto simp: nifo_fresh_def nifo_zone_def mems_valid_def nifo_used_def intro!: exI [of _ 0])
  have "nifo_batch s [[q]]"
    using s(2) by (simp add: nifo_batch_def nifo_fresh_def cring_def nxt_def prv_def cinit_list_head_def NONT_OFF_def CONT_OFF_def)
  from nifo_node_delete_frees [OF wf(1) this] wf(2) s(1) show ?thesis by auto
qed

text \<open>In a node whose payload is a sequence of records, \<open>nifo_get_value\<close> and \<open>nifo_get_tlv\<close> give the
  first record of the type, with its length and value, or NULL when there is none.\<close>

theorem nifo_get_value_correct:
  assumes "nifo_node_ok s cap p" "nifo_payload s p = nifo_encode rs" "\<forall>(type, v) \<in> set rs. length v < 2 ^ 31"
  shows "case map_of rs type of
      None \<Rightarrow> nifo_get_value s type p = Some None \<and> nifo_get_tlv s type p = Some None
    | Some v \<Rightarrow> \<exists>q. nifo_get_value s type p = Some (Some (q + TLV_SIZE)) \<and> nifo_get_tlv s type p = Some (Some q) \<and>
        nifo_tlv_len s q = of_nat (length v) \<and> rd_bytes (nf_mem s) (q + TLV_SIZE) (length v) = v"
  by (rule nifo_get_value_ok [OF assms])

theorem nifo_get_value_correct_witness:
  "\<exists>s q s' v r. nifo_node_alloc nifo_demo 1 = Some (s, Some q) \<and> nifo_tlv_alloc s q 7 4 DEF_MEMSET_ON = Some (s', Some v) \<and>
     nifo_get_value s' 7 q = Some (Some r) \<and> rd_bytes (nf_mem s') r 4 = [0, 0, 0, 0] \<and> nifo_get_value s' 8 q = Some None"
proof -
  obtain s q where s: "nifo_node_alloc nifo_demo 1 = Some (s, Some q)" "nifo_fresh nifo_demo s 0 q"
    using nifo_demo_node by blast
  note f = nifo_fresh_chain [OF s(2)]
  have cap: "nifo_cap s 0 = 16" using f(6) nifo_demo_zone(2) by simp
  have ok: "nifo_node_ok s 16 q" using f(2) cap by (simp add: nifo_chain_def)
  obtain s' where a: "nifo_tlv_alloc s q 7 4 DEF_MEMSET_ON = Some (s', Some (q + NIFO_SIZE + int (nifo_fill s q) + TLV_SIZE))"
    "nifo_node_ok s' 16 q" "nifo_payload s' q = nifo_payload s q @ le32_bytes 7 @ le32_bytes 4 @ replicate 4 0"
    using nifo_tlv_alloc_ok [OF ok, of 4 7 DEF_MEMSET_ON] f(3) by auto
  have "nifo_payload s' q = nifo_encode [(7, replicate 4 0)]" using a(3) f(4) by simp
  from nifo_get_value_correct [OF a(2) this, of 7] nifo_get_value_correct [OF a(2) this, of 8]
  obtain r where "nifo_get_value s' 7 q = Some (Some r)" "rd_bytes (nf_mem s') r 4 = replicate 4 0"
    "nifo_get_value s' 8 q = Some None"
    by auto
  then show ?thesis using s(1) a(1) by (auto simp: numeral_eq_Suc)
qed

end
