(* ===== verification/Cifo.thy ===== *)
theory Cifo
  imports Nifo
begin

text \<open>
  \<^verbatim>\<open>proj/UPST_LIB/SRC/CIFO/cifo.c\<close>: channels between processes. A channel is a ring of cells in a
  shared block, each of which holds the offset of a batch of messages of a \<open>mems\<close> block; the batch
  is linked by \<open>nont\<close>. A writer collects \<open>uiWBuffCnt\<close> messages before it fills a cell, a reader
  joins up to \<open>uiRBuffCnt\<close> cells. \<open>ci_mem\<close> are the bytes of the cells. The semaphores of the
  channels are the system's, which the \<open>mems\<close> state holds.
\<close>

section \<open>State\<close>

definition CIFO_SHM_SIZE :: int where "CIFO_SHM_SIZE = 800 * 1024 * 1024"
definition MAX_CHAN_CNT :: nat where "MAX_CHAN_CNT = 1000"
definition CIFO_R_FLAG :: int where "CIFO_R_FLAG = 0"
definition CIFO_W_FLAG :: int where "CIFO_W_FLAG = 1"
definition st_CIFO_SIZE :: offset where "st_CIFO_SIZE = 96040"

record chan =
  ch_uiChID :: u32
  ch_wCellPos :: u32
  ch_rCellPos :: u32
  ch_uiCellCnt :: u32
  ch_uiCellSize :: u32
  ch_cellStartOffset :: offset
  ch_cellEndOffset :: offset
  ch_uiWBuffCnt :: u32
  ch_uiRBuffCnt :: u32
  ch_uiWCnt :: u32
  ch_uiRCnt :: u32
  ch_wOffset :: offset
  ch_rOffset :: offset
  ch_uiWSemFlag :: u32
  ch_uiWSemKey :: u32
  ch_iWSemID :: u32
  ch_uiRSemFlag :: u32
  ch_uiRSemKey :: u32
  ch_iRSemID :: u32

record cifo =
  ci_uiShmKey :: u32
  ci_uiTotMemSize :: offset
  ci_uiHeadRoomSize :: u32
  ci_offsetHeadRoom :: offset
  ci_uiChCnt :: u32
  ci_stCHAN :: "chan list"
  ci_mem :: "offset \<Rightarrow> u8"

record chanconf =
  cc_uiChID :: u32
  cc_uiCellCnt :: u32
  cc_uiCellSize :: u32
  cc_uiWBuffCnt :: u32
  cc_uiRBuffCnt :: u32
  cc_uiWSemFlag :: u32
  cc_uiWSemKey :: u32
  cc_uiRSemFlag :: u32
  cc_uiRSemKey :: u32

record cifoconf =
  cf_uiShmKey :: u32
  cf_uiHeadRoomSize :: u32
  cf_uiChCnt :: u32
  cf_stCHANCONF :: "chanconf list"

section \<open>Initialisation\<close>

text \<open>The size of the cells of a channel is a product of two \<open>U32\<close>.\<close>

definition chanconf_size :: "chanconf \<Rightarrow> offset" where
  "chanconf_size c = uint (cc_uiCellSize c * cc_uiCellCnt c)"

definition cifo_total_size :: "cifoconf \<Rightarrow> offset" where
  "cifo_total_size conf = st_CIFO_SIZE + uint (cf_uiHeadRoomSize conf) +
     sum_list (map chanconf_size (take (unat (cf_uiChCnt conf)) (cf_stCHANCONF conf)))"

text \<open>One channel: what the source assigns; the other fields stay as the segment has them.\<close>

definition cifo_init_chan ::
  "(u32 \<Rightarrow> sem_answer) \<Rightarrow> (int \<Rightarrow> bool) \<Rightarrow> (int \<Rightarrow> int) \<Rightarrow> chanconf \<Rightarrow> offset \<Rightarrow> chan \<Rightarrow> (chan \<times> (int \<Rightarrow> int)) option" where
  "cifo_init_chan semget setval sem c start ch = do {
     (wid, sem1) \<leftarrow> mems_sem_init semget setval sem (cc_uiWSemKey c) (cc_uiWSemFlag c);
     (rid, sem2) \<leftarrow> mems_sem_init semget setval sem1 (cc_uiRSemKey c) (cc_uiRSemFlag c);
     Some (ch\<lparr>ch_uiWSemFlag := cc_uiWSemFlag c, ch_uiWSemKey := cc_uiWSemKey c,
              ch_iWSemID := word_of_int wid, ch_iRSemID := word_of_int rid, ch_uiChID := cc_uiChID c,
              ch_uiCellSize := cc_uiCellSize c, ch_uiCellCnt := cc_uiCellCnt c,
              ch_cellStartOffset := start, ch_cellEndOffset := start + chanconf_size c,
              ch_uiWBuffCnt := cc_uiWBuffCnt c, ch_uiRBuffCnt := cc_uiRBuffCnt c,
              ch_uiWCnt := 0, ch_uiRCnt := 0, ch_wOffset := 0, ch_rOffset := 0\<rparr>, sem2)
   }"

fun cifo_init_chans ::
  "(u32 \<Rightarrow> sem_answer) \<Rightarrow> (int \<Rightarrow> bool) \<Rightarrow> (int \<Rightarrow> int) \<Rightarrow> offset \<Rightarrow> chanconf list \<Rightarrow> chan list \<Rightarrow>
   (chan list \<times> (int \<Rightarrow> int)) option" where
  "cifo_init_chans semget setval sem start [] chs = Some (chs, sem)"
| "cifo_init_chans semget setval sem start (c # cs) [] = None"
| "cifo_init_chans semget setval sem start (c # cs) (ch # chs) = do {
     (ch1, sem1) \<leftarrow> cifo_init_chan semget setval sem c start ch;
     (chs1, sem2) \<leftarrow> cifo_init_chans semget setval sem1 (ch_cellEndOffset ch1) cs chs;
     Some (ch1 # chs1, sem2)
   }"

text \<open>What the system answers: a new segment with its contents, an existing one, or none; \<open>shmat\<close> of
  a failed \<open>shmget\<close> fails too.\<close>

datatype cifo_shm = CShmNew cifo | CShmExists cifo | CShmNone

record cifo_os =
  co_shmget :: cifo_shm
  co_shmat :: bool
  co_semget :: "u32 \<Rightarrow> sem_answer"
  co_setval :: "int \<Rightarrow> bool"

definition cifo_fresh :: "cifo_os \<Rightarrow> (int \<Rightarrow> int) \<Rightarrow> cifoconf \<Rightarrow> cifo \<Rightarrow> (cifo \<times> (int \<Rightarrow> int)) option" where
  "cifo_fresh os sem conf raw =
     (if length (cf_stCHANCONF conf) < unat (cf_uiChCnt conf) then None
      else do {
        (chs, sem1) \<leftarrow> cifo_init_chans (co_semget os) (co_setval os) sem
          (st_CIFO_SIZE + uint (cf_uiHeadRoomSize conf))
          (take (unat (cf_uiChCnt conf)) (cf_stCHANCONF conf)) (ci_stCHAN raw);
        Some (raw\<lparr>ci_uiTotMemSize := cifo_total_size conf, ci_uiShmKey := cf_uiShmKey conf,
                  ci_uiHeadRoomSize := cf_uiHeadRoomSize conf, ci_offsetHeadRoom := st_CIFO_SIZE,
                  ci_uiChCnt := cf_uiChCnt conf, ci_stCHAN := chs,
                  ci_mem := wr_bytes (ci_mem raw) st_CIFO_SIZE (replicate (unat (cf_uiHeadRoomSize conf)) 0)\<rparr>, sem1)
      })"

definition cifo_init :: "cifo_os \<Rightarrow> (int \<Rightarrow> int) \<Rightarrow> cifoconf \<Rightarrow> (cifo \<times> (int \<Rightarrow> int)) option option" where
  "cifo_init os sem conf =
     (if cifo_total_size conf > CIFO_SHM_SIZE then Some None
      else case co_shmget os of
        CShmNone \<Rightarrow> Some None
      | CShmExists c \<Rightarrow> if co_shmat os then Some (Some (c, sem)) else Some None
      | CShmNew raw \<Rightarrow>
          if \<not> co_shmat os then Some None
          else do { r \<leftarrow> cifo_fresh os sem conf raw; Some (Some r) })"

text \<open>\<open>cifo_init_channel\<close>, after the configuration file has been read.\<close>

definition cifo_init_channel ::
  "cifo_os \<Rightarrow> (int \<Rightarrow> int) \<Rightarrow> (cifoconf + int) \<Rightarrow> (cifo \<times> (int \<Rightarrow> int)) option option" where
  "cifo_init_channel os sem conf = (case conf of Inr dRet \<Rightarrow> Some None | Inl c \<Rightarrow> cifo_init os sem c)"

section \<open>Cells\<close>

text \<open>An \<open>OFFSET\<close> in memory: 8 bytes, little-endian.\<close>

definition off_bytes :: "offset \<Rightarrow> u8 list" where
  "off_bytes v = le32_bytes (word_of_int v) @ le32_bytes (word_of_int (v div 2 ^ 32))"

definition off_of :: "u8 list \<Rightarrow> offset" where
  "off_of bs = sint (le32_of (drop 4 bs)) * 2 ^ 32 + uint (le32_of bs)"

definition cifo_next_pos :: "u32 \<Rightarrow> u32 \<Rightarrow> u32 option" where
  "cifo_next_pos curPos cellCnt = (if cellCnt = 0 then None else Some ((curPos + 1) mod cellCnt))"

definition cifo_get_cell :: "chan \<Rightarrow> u32 \<Rightarrow> offset" where
  "cifo_get_cell p pos = ch_cellStartOffset p + uint (pos * ch_uiCellSize p)"

definition cifo_chan :: "cifo \<Rightarrow> u32 \<Rightarrow> chan option" where
  "cifo_chan c uiChID = (if unat uiChID < length (ci_stCHAN c) then Some (ci_stCHAN c ! unat uiChID) else None)"

definition cifo_set_chan :: "cifo \<Rightarrow> u32 \<Rightarrow> chan \<Rightarrow> cifo" where
  "cifo_set_chan c uiChID ch = c\<lparr>ci_stCHAN := (ci_stCHAN c)[unat uiChID := ch]\<rparr>"

definition nifo_P :: "nifo \<Rightarrow> u32 \<Rightarrow> u32 \<Rightarrow> nifo option" where
  "nifo_P s semid flag = do {
     sem \<leftarrow> mems_P (mi_sem (nf_mems s)) (sint semid) flag;
     Some (s\<lparr>nf_mems := (nf_mems s)\<lparr>mi_sem := sem\<rparr>\<rparr>)
   }"

definition nifo_V :: "nifo \<Rightarrow> u32 \<Rightarrow> u32 \<Rightarrow> nifo option" where
  "nifo_V s semid flag = do {
     sem \<leftarrow> mems_V (mi_sem (nf_mems s)) (sint semid) flag;
     Some (s\<lparr>nf_mems := (nf_mems s)\<lparr>mi_sem := sem\<rparr>\<rparr>)
   }"

section \<open>Writing and reading\<close>

text \<open>The part of \<open>cifo_write\<close> between the semaphore operations.\<close>

definition cifo_put :: "nifo \<Rightarrow> cifo \<Rightarrow> u32 \<Rightarrow> chan \<Rightarrow> offset \<Rightarrow> (nifo \<times> cifo \<times> int) option" where
  "cifo_put s c uiChID ch offset = do {
     nextWritePos \<leftarrow> cifo_next_pos (ch_wCellPos ch) (ch_uiCellCnt ch);
     if nextWritePos = ch_rCellPos ch \<and> ch_uiWCnt ch + 1 \<ge> ch_uiWBuffCnt ch then Some (s, c, -2)
     else do {
       (s1, wOffset) \<leftarrow> (if ch_wOffset ch > 0
          then do { s1 \<leftarrow> nifo_splice_nont s offset (ch_wOffset ch); Some (s1, ch_wOffset ch) }
          else Some (s, offset));
       let ch1 = ch\<lparr>ch_wOffset := wOffset, ch_uiWCnt := ch_uiWCnt ch + 1\<rparr>;
       let (input, ch2) = (if ch_uiWCnt ch1 \<ge> ch_uiWBuffCnt ch1
                           then (wOffset, ch1\<lparr>ch_wOffset := 0, ch_uiWCnt := 0\<rparr>) else (0, ch1));
       if input > 0
       then Some (s1, (cifo_set_chan c uiChID (ch2\<lparr>ch_wCellPos := nextWritePos\<rparr>))
                        \<lparr>ci_mem := wr_bytes (ci_mem c) (cifo_get_cell ch (ch_wCellPos ch)) (off_bytes input)\<rparr>, 1)
       else Some (s1, cifo_set_chan c uiChID ch2, 1)
     }
   }"

definition cifo_write :: "nifo \<Rightarrow> cifo \<Rightarrow> u32 \<Rightarrow> offset \<Rightarrow> (nifo \<times> cifo \<times> int) option" where
  "cifo_write s c uiChID offset =
     (if uiChID \<ge> ci_uiChCnt c then Some (s, c, -1)
      else do {
        ch \<leftarrow> cifo_chan c uiChID;
        s1 \<leftarrow> nifo_P s (ch_iWSemID ch) (ch_uiWSemFlag ch);
        (s2, c2, r) \<leftarrow> cifo_put s1 c uiChID ch offset;
        s3 \<leftarrow> nifo_V s2 (ch_iWSemID ch) (ch_uiWSemFlag ch);
        Some (s3, c2, r)
      })"

text \<open>The reading loop; \<open>pHead\<close> is 0 for NULL. The write position was read before the loop.\<close>

fun cifo_read_loop :: "nat \<Rightarrow> nifo \<Rightarrow> (offset \<Rightarrow> u8) \<Rightarrow> u32 \<Rightarrow> chan \<Rightarrow> offset \<Rightarrow> (nifo \<times> chan \<times> offset) option" where
  "cifo_read_loop 0 s mem curWritePos ch pHead = Some (s, ch, pHead)"
| "cifo_read_loop (Suc n) s mem curWritePos ch pHead = do {
     nextReadPos \<leftarrow> cifo_next_pos (ch_rCellPos ch) (ch_uiCellCnt ch);
     if ch_rCellPos ch = curWritePos then Some (s, ch, pHead)
     else do {
       let pNext = off_of (rd_bytes mem (cifo_get_cell ch (ch_rCellPos ch)) 8);
       (s1, pHead1) \<leftarrow> (if pHead = 0 then Some (s, pNext)
         else do { s1 \<leftarrow> nifo_splice_nont s pNext pHead; Some (s1, pHead) });
       cifo_read_loop n s1 mem curWritePos (ch\<lparr>ch_rCellPos := nextReadPos\<rparr>) pHead1
     }
   }"

definition cifo_read :: "nifo \<Rightarrow> cifo \<Rightarrow> u32 \<Rightarrow> (nifo \<times> cifo \<times> offset) option" where
  "cifo_read s c uiChID =
     (if uiChID \<ge> ci_uiChCnt c then Some (s, c, -1)
      else do {
        ch \<leftarrow> cifo_chan c uiChID;
        s1 \<leftarrow> nifo_P s (ch_iRSemID ch) (ch_uiRSemFlag ch);
        (s2, ch2, pHead) \<leftarrow> cifo_read_loop (unat (ch_uiRBuffCnt ch)) s1 (ci_mem c) (ch_wCellPos ch) ch 0;
        s3 \<leftarrow> nifo_V s2 (ch_iRSemID ch) (ch_uiRSemFlag ch);
        Some (s3, cifo_set_chan c uiChID ch2, pHead)
      })"

section \<open>Counts\<close>

definition cifo_get_count :: "int \<Rightarrow> int \<Rightarrow> int \<Rightarrow> u32" where
  "cifo_get_count llWPos llRPos llTotCnt =
     (let llCnt = llWPos - llRPos in if llCnt \<ge> 0 then word_of_int llCnt else word_of_int (llTotCnt + llCnt))"

definition cifo_get_buffcnt :: "cifo \<Rightarrow> u32 \<Rightarrow> int \<Rightarrow> u32 option" where
  "cifo_get_buffcnt c uiChID uiRWFlag =
     (if uiChID = INVALID_ID then Some 0
      else if uiRWFlag = CIFO_R_FLAG then map_option ch_uiRBuffCnt (cifo_chan c uiChID)
      else if uiRWFlag = CIFO_W_FLAG then map_option ch_uiWBuffCnt (cifo_chan c uiChID)
      else Some 0)"

definition cifo_set_buffcnt :: "cifo \<Rightarrow> u32 \<Rightarrow> u32 \<Rightarrow> int \<Rightarrow> (cifo \<times> int) option" where
  "cifo_set_buffcnt c uiChID uiBuffCnt uiRWFlag =
     (if uiBuffCnt = 0 \<or> uiChID = INVALID_ID then Some (c, -1)
      else if uiRWFlag = CIFO_R_FLAG then do {
        ch \<leftarrow> cifo_chan c uiChID; Some (cifo_set_chan c uiChID (ch\<lparr>ch_uiRBuffCnt := uiBuffCnt\<rparr>), 1) }
      else if uiRWFlag = CIFO_W_FLAG then do {
        ch \<leftarrow> cifo_chan c uiChID; Some (cifo_set_chan c uiChID (ch\<lparr>ch_uiWBuffCnt := uiBuffCnt\<rparr>), 1) }
      else Some (c, 0))"

definition cifo_used_count :: "cifo \<Rightarrow> u32 \<Rightarrow> u32 option" where
  "cifo_used_count c uiChID = do {
     ch \<leftarrow> cifo_chan c uiChID;
     Some (cifo_get_count (uint (ch_wCellPos ch)) (uint (ch_rCellPos ch)) (uint (ch_uiCellCnt ch)))
   }"

definition cifo_free_count :: "cifo \<Rightarrow> u32 \<Rightarrow> u32 option" where
  "cifo_free_count c uiChID = do {
     ch \<leftarrow> cifo_chan c uiChID;
     used \<leftarrow> cifo_used_count c uiChID;
     Some (ch_uiCellCnt ch - used)
   }"

definition cifo_max_count :: "cifo \<Rightarrow> u32 \<Rightarrow> u32 option" where
  "cifo_max_count c uiChID = map_option ch_uiCellCnt (cifo_chan c uiChID)"

end
