(* ===== verification/Gifo.thy ===== *)
theory Gifo
  imports Cifo
begin

text \<open>
  \<^verbatim>\<open>proj/UPST_LIB/SRC/GIFO/gifo.c\<close>: the routing of messages between processes over the channels of a
  \<open>cifo\<close> block. A matrix gives the channel from a writing to a reading process, and each reading
  process belongs to a group of channels. The \<open>stGIFO\<close> structure lies in the head room of the block;
  it is an argument of its own here, \<open>None\<close> when \<open>gifo_init\<close> has not copied it.
\<close>

definition MAX_SEQ_PROC_NUM :: nat where "MAX_SEQ_PROC_NUM = 1000"
definition MAX_GROUP_CNT :: nat where "MAX_GROUP_CNT = 100"

text \<open>The size of \<open>stGIFO\<close>: \<open>uiGrCnt\<close>, 100 groups of 1002 words, the two matrices.\<close>

definition stGIFO_SIZE :: int where "stGIFO_SIZE = 4 * (1 + 100 * 1002 + 1000 * 1000 + 1000)"

record group =
  gr_uiGrID :: u32
  gr_uiChCnt :: u32
  gr_uiChID :: "u32 list"

record gifo =
  gi_uiGrCnt :: u32
  gi_stGROUP :: "group list"
  gi_uiMatrixChID :: "u32 list"
  gi_uiMatrixGrID :: "u32 list"

section \<open>Initialisation\<close>

definition gifo_init ::
  "cifo_os \<Rightarrow> (int \<Rightarrow> int) \<Rightarrow> gifo \<Rightarrow> cifoconf \<Rightarrow> (gifo \<times> cifo \<times> (int \<Rightarrow> int)) option option" where
  "gifo_init os sem g conf = do {
     r \<leftarrow> cifo_init os sem conf;
     case r of
       None \<Rightarrow> Some None
     | Some (c, sem1) \<Rightarrow> if uint (ci_uiHeadRoomSize c) < stGIFO_SIZE then Some None else Some (Some (g, c, sem1))
   }"

text \<open>\<open>gifo_conf_check\<close>: a channel that several pairs of processes use needs a write semaphore. The
  counters are an array of \<open>MAX_CHAN_CNT\<close> entries.\<close>

fun gifo_count_chans :: "u32 list \<Rightarrow> nat list \<Rightarrow> nat list option" where
  "gifo_count_chans [] cnt = Some cnt"
| "gifo_count_chans (chID # cs) cnt =
     (if chID = INVALID_ID then gifo_count_chans cs cnt
      else if unat chID < length cnt then gifo_count_chans cs (cnt[unat chID := Suc (cnt ! unat chID)])
      else None)"

definition gifo_chan_flag :: "cifoconf \<Rightarrow> nat \<Rightarrow> u32" where
  "gifo_chan_flag conf i = (if i < length (cf_stCHANCONF conf) then cc_uiWSemFlag (cf_stCHANCONF conf ! i) else 0)"

fun gifo_check_chans :: "cifoconf \<Rightarrow> nat list \<Rightarrow> nat \<Rightarrow> int \<Rightarrow> int" where
  "gifo_check_chans conf [] i dRet = dRet"
| "gifo_check_chans conf (c # cs) i dRet =
     gifo_check_chans conf cs (Suc i) (if c > 1 \<and> gifo_chan_flag conf i \<noteq> MEMS_SEMA_ON then -1 else dRet)"

definition gifo_conf_check :: "gifo \<Rightarrow> cifoconf \<Rightarrow> int option" where
  "gifo_conf_check g conf = do {
     procCnt \<leftarrow> gifo_count_chans (gi_uiMatrixChID g) (replicate MAX_CHAN_CNT 0);
     Some (gifo_check_chans conf procCnt 0 0)
   }"

text \<open>\<open>gifo_init_group\<close>, after the two configuration files have been read.\<close>

definition gifo_init_group ::
  "cifo_os \<Rightarrow> (int \<Rightarrow> int) \<Rightarrow> (cifoconf + int) \<Rightarrow> (gifo + int) \<Rightarrow> (gifo \<times> cifo \<times> (int \<Rightarrow> int)) option option" where
  "gifo_init_group os sem conf gconf =
     (case conf of
        Inr e \<Rightarrow> Some None
      | Inl c \<Rightarrow> (case gconf of
          Inr e \<Rightarrow> Some None
        | Inl g \<Rightarrow> do {
            dRet \<leftarrow> gifo_conf_check g c;
            if dRet < 0 then Some None else gifo_init os sem g c
          }))"

section \<open>Operations\<close>

text \<open>The index into the matrix is computed in \<open>U32\<close>; \<open>gifo_write\<close> does not compare it with the size.\<close>

definition gifo_index :: "u32 \<Rightarrow> u32 \<Rightarrow> u32" where
  "gifo_index uiWProcID uiRProcID = uiWProcID * 1000 + uiRProcID"

definition gifo_matrix :: "gifo \<Rightarrow> u32 \<Rightarrow> u32 option" where
  "gifo_matrix g i = (if unat i < length (gi_uiMatrixChID g) then Some (gi_uiMatrixChID g ! unat i) else None)"

definition gifo_write :: "nifo \<Rightarrow> cifo \<Rightarrow> gifo \<Rightarrow> u32 \<Rightarrow> u32 \<Rightarrow> offset \<Rightarrow> (nifo \<times> cifo \<times> int) option" where
  "gifo_write s c g uiWProcID uiRProcID offset = do {
     chID \<leftarrow> gifo_matrix g (gifo_index uiWProcID uiRProcID);
     cifo_write s c chID offset
   }"

fun gifo_read_loop :: "u32 list \<Rightarrow> nifo \<Rightarrow> cifo \<Rightarrow> offset \<Rightarrow> (nifo \<times> cifo \<times> offset) option" where
  "gifo_read_loop [] s c pHead = Some (s, c, pHead)"
| "gifo_read_loop (chID # chs) s c pHead = do {
     (s1, c1, offset) \<leftarrow> cifo_read s c chID;
     if offset > 0 then
       (if pHead = 0 then gifo_read_loop chs s1 c1 offset
        else do { s2 \<leftarrow> nifo_splice_nont s1 offset pHead; gifo_read_loop chs s2 c1 pHead })
     else gifo_read_loop chs s1 c1 pHead
   }"

definition gifo_read :: "nifo \<Rightarrow> cifo \<Rightarrow> gifo \<Rightarrow> u32 \<Rightarrow> (nifo \<times> cifo \<times> offset) option" where
  "gifo_read s c g uiRProcID =
     (if unat uiRProcID \<ge> MAX_SEQ_PROC_NUM then Some (s, c, -1)
      else if \<not> unat uiRProcID < length (gi_uiMatrixGrID g) then None
      else let uiGID = gi_uiMatrixGrID g ! unat uiRProcID in
        if uiGID = INVALID_ID \<or> uiGID \<ge> gi_uiGrCnt g then Some (s, c, -2)
        else if \<not> unat uiGID < length (gi_stGROUP g) then None
        else let gr = gi_stGROUP g ! unat uiGID in
          if length (gr_uiChID gr) < unat (gr_uiChCnt gr) then None
          else gifo_read_loop (take (unat (gr_uiChCnt gr)) (gr_uiChID gr)) s c 0)"

definition gifo_set_buffcnt :: "cifo \<Rightarrow> gifo \<Rightarrow> u32 \<Rightarrow> u32 \<Rightarrow> u32 \<Rightarrow> int \<Rightarrow> (cifo \<times> int) option" where
  "gifo_set_buffcnt c g uiWProcID uiRProcID uiBuffCnt uiRWFlag =
     (if unat (gifo_index uiWProcID uiRProcID) \<ge> MAX_SEQ_PROC_NUM * MAX_SEQ_PROC_NUM then Some (c, -1)
      else do {
        chID \<leftarrow> gifo_matrix g (gifo_index uiWProcID uiRProcID);
        cifo_set_buffcnt c chID uiBuffCnt uiRWFlag
      })"

definition gifo_get_buffcnt :: "cifo \<Rightarrow> gifo \<Rightarrow> u32 \<Rightarrow> u32 \<Rightarrow> int \<Rightarrow> u32 option" where
  "gifo_get_buffcnt c g uiWProcID uiRProcID uiRWFlag =
     (if unat (gifo_index uiWProcID uiRProcID) \<ge> MAX_SEQ_PROC_NUM * MAX_SEQ_PROC_NUM then Some 0
      else do {
        chID \<leftarrow> gifo_matrix g (gifo_index uiWProcID uiRProcID);
        cifo_get_buffcnt c chID uiRWFlag
      })"

definition gifo_get_channel :: "gifo \<Rightarrow> u32 \<Rightarrow> u32 \<Rightarrow> u32 option" where
  "gifo_get_channel g uiWProcID uiRProcID =
     (if unat (gifo_index uiWProcID uiRProcID) \<ge> MAX_SEQ_PROC_NUM * MAX_SEQ_PROC_NUM then Some INVALID_ID
      else gifo_matrix g (gifo_index uiWProcID uiRProcID))"

end
