(* ===== verification/Channel.thy ===== *)
theory Channel
  imports Prelude
begin

text \<open>
  The interface of a message channel (\<open>cifo.c\<close>; \<open>gifo.c\<close> for a pair of processes with a channel of
  their own). A message is a list of nodes and named by its first. A channel holds \<open>cap - 1\<close>
  cells; a writer collects \<open>wb\<close> messages into a cell, a reader takes up to \<open>rb\<close> cells.
\<close>

section \<open>The abstract channel\<close>

record chanq =
  cq_cells :: "offset list list"
  cq_pend :: "offset list"
  cq_n :: nat

definition chan_content :: "chanq \<Rightarrow> offset list" where
  "chan_content q = concat (cq_cells q) @ cq_pend q"

definition chan_put :: "nat \<Rightarrow> nat \<Rightarrow> chanq \<Rightarrow> offset list \<Rightarrow> chanq \<times> int" where
  "chan_put cap wb q ms =
     (if Suc (length (cq_cells q)) = cap \<and> wb \<le> Suc (cq_n q) then (q, -2)
      else if wb \<le> Suc (cq_n q)
        then (\<lparr>cq_cells = cq_cells q @ [cq_pend q @ ms], cq_pend = [], cq_n = 0\<rparr>, 1)
      else (q\<lparr>cq_pend := cq_pend q @ ms, cq_n := Suc (cq_n q)\<rparr>, 1))"

definition chan_taken :: "nat \<Rightarrow> chanq \<Rightarrow> offset list" where
  "chan_taken rb q = concat (take rb (cq_cells q))"

definition chan_get :: "nat \<Rightarrow> chanq \<Rightarrow> chanq \<times> int" where
  "chan_get rb q = (q\<lparr>cq_cells := drop rb (cq_cells q)\<rparr>, if chan_taken rb q = [] then 0 else hd (chan_taken rb q))"

datatype chan_cmd = CPut "offset list" | CGet

fun chan_step :: "nat \<Rightarrow> nat \<Rightarrow> nat \<Rightarrow> chanq \<Rightarrow> chan_cmd \<Rightarrow> chanq \<times> int" where
  "chan_step cap wb rb q (CPut ms) = chan_put cap wb q ms"
| "chan_step cap wb rb q CGet = chan_get rb q"

text \<open>The messages that a command adds, and those it takes.\<close>

fun chan_added :: "chanq \<Rightarrow> chan_cmd \<Rightarrow> int \<Rightarrow> offset list" where
  "chan_added q (CPut ms) r = (if r = 1 then ms else [])"
| "chan_added q CGet r = []"

fun chan_removed :: "nat \<Rightarrow> chanq \<Rightarrow> chan_cmd \<Rightarrow> offset list" where
  "chan_removed rb q (CPut ms) = []"
| "chan_removed rb q CGet = chan_taken rb q"

text \<open>A sequence of commands: the final channel, the replies, all messages added and all taken.\<close>

primrec chan_run :: "nat \<Rightarrow> nat \<Rightarrow> nat \<Rightarrow> chanq \<Rightarrow> chan_cmd list \<Rightarrow> chanq \<times> int list \<times> offset list \<times> offset list" where
  "chan_run cap wb rb q [] = (q, [], [], [])"
| "chan_run cap wb rb q (c # cs) =
     (let (q1, r) = chan_step cap wb rb q c; (q2, rs, ins, outs) = chan_run cap wb rb q1 cs
      in (q2, r # rs, chan_added q c r @ ins, chan_removed rb q c @ outs))"

lemma chan_step_content:
  assumes "chan_step cap wb rb q c = (q', r)"
  shows "chan_removed rb q c @ chan_content q' = chan_content q @ chan_added q c r"
proof (cases c)
  case (CPut ms)
  then show ?thesis using assms by (auto simp: chan_put_def chan_content_def split: if_splits)
next
  case CGet
  have "concat (take rb (cq_cells q)) @ concat (drop rb (cq_cells q)) = concat (cq_cells q)"
    by (metis append_take_drop_id concat_append)
  then show ?thesis using assms CGet by (auto simp: chan_get_def chan_content_def chan_taken_def)
qed

text \<open>First in, first out, whatever the batching: what was taken and what is left is what was there and
  what was added, in this order.\<close>

lemma chan_run_fifo:
  "chan_run cap wb rb q cs = (q', rs, ins, outs) \<Longrightarrow> outs @ chan_content q' = chan_content q @ ins"
proof (induction cs arbitrary: q rs ins outs)
  case (Cons c cs)
  obtain q1 r where s: "chan_step cap wb rb q c = (q1, r)" by fastforce
  obtain rs2 ins2 outs2 where t: "chan_run cap wb rb q1 cs = (q', rs2, ins2, outs2)"
    and e: "ins = chan_added q c r @ ins2" "outs = chan_removed rb q c @ outs2"
    using Cons.prems s by (auto split: prod.splits)
  have "outs @ chan_content q' = chan_removed rb q c @ chan_content q1 @ ins2"
    using Cons.IH [OF t] e(2) by simp
  then show ?case using chan_step_content [OF s] e(1) by (metis append.assoc)
qed simp

fun chan_puts :: "chan_cmd list \<Rightarrow> offset list list" where
  "chan_puts [] = []"
| "chan_puts (CPut ms # cs) = ms # chan_puts cs"
| "chan_puts (CGet # cs) = chan_puts cs"

section \<open>Implementations\<close>

text \<open>\<open>rep s q fut\<close>: the state \<open>s\<close> holds the channel \<open>q\<close>, and the messages \<open>fut\<close> outside it.\<close>

locale msg_channel =
  fixes rep :: "'s \<Rightarrow> chanq \<Rightarrow> offset list list \<Rightarrow> bool"
    and put :: "'s \<Rightarrow> offset \<Rightarrow> ('s \<times> int) option"
    and get :: "'s \<Rightarrow> ('s \<times> int) option"
    and cap wb rb :: nat
  assumes put_ok: "rep s q (ms # fut) \<Longrightarrow> chan_put cap wb q ms = (q', r) \<Longrightarrow>
      \<exists>s'. put s (hd ms) = Some (s', r) \<and> rep s' q' fut"
    and get_ok: "rep s q fut \<Longrightarrow> chan_get rb q = (q', r) \<Longrightarrow> \<exists>s'. get s = Some (s', r) \<and> rep s' q' fut"

primrec chan_impl_run ::
  "('s \<Rightarrow> offset \<Rightarrow> ('s \<times> int) option) \<Rightarrow> ('s \<Rightarrow> ('s \<times> int) option) \<Rightarrow> 's \<Rightarrow> chan_cmd list \<Rightarrow> ('s \<times> int list) option" where
  "chan_impl_run put get s [] = Some (s, [])"
| "chan_impl_run put get s (c # cs) = do {
     (s1, r) \<leftarrow> (case c of CPut ms \<Rightarrow> put s (hd ms) | CGet \<Rightarrow> get s);
     (s2, rs) \<leftarrow> chan_impl_run put get s1 cs;
     Some (s2, r # rs)
   }"

context msg_channel begin

lemma run_refines:
  assumes "rep s q (chan_puts cs)" "chan_run cap wb rb q cs = (q', rs, ins, outs)"
  shows "\<exists>s'. chan_impl_run put get s cs = Some (s', rs) \<and> rep s' q' []"
  using assms
proof (induction cs arbitrary: s q rs ins outs)
  case (Cons c cs)
  obtain q1 r where st: "chan_step cap wb rb q c = (q1, r)" by fastforce
  obtain rs2 ins2 outs2 where t: "chan_run cap wb rb q1 cs = (q', rs2, ins2, outs2)" and rs: "rs = r # rs2"
    using Cons.prems(2) st by (auto split: prod.splits)
  obtain s1 where s1: "(case c of CPut ms \<Rightarrow> put s (hd ms) | CGet \<Rightarrow> get s) = Some (s1, r)" "rep s1 q1 (chan_puts cs)"
  proof (cases c)
    case (CPut ms)
    then show ?thesis using put_ok [of s q ms "chan_puts cs" q1 r] Cons.prems(1) st that by auto
  next
    case CGet
    then show ?thesis using get_ok [of s q "chan_puts cs" q1 r] Cons.prems(1) st that by auto
  qed
  obtain s2 where "chan_impl_run put get s1 cs = Some (s2, rs2)" "rep s2 q' []"
    using Cons.IH [OF s1(2) t] by blast
  then show ?case using s1(1) rs by simp
qed simp

end

end
