(* ===== verification/CifoProps.thy ===== *)
theory CifoProps
  imports NifoMsg Gifo Channel
begin

text \<open>
  The channels of \<open>cifo\<close> as message channels: a ring of cells over the bytes of the shared block
  represents a queue of batches, a put and a get have the effects of the abstract channel, and the
  block that \<open>cifo_init\<close> builds holds empty channels in cells of their own.
\<close>

section \<open>Offsets in cells\<close>

lemma off_of_bytes:
  assumes "0 \<le> v" "v < 2 ^ 63"
  shows "off_of (off_bytes v) = v"
proof -
  define x where "x = v div 4294967296"
  have "4294967296 * x \<le> v" unfolding x_def by (simp add: minus_mod_eq_mult_div [symmetric])
  then have "x < 2147483648" using assms(2) by simp
  then have hi: "v div 2 ^ 32 < 2 ^ 31" by (simp add: x_def)
  have lo: "0 \<le> v div 2 ^ 32" using assms(1) by (simp add: pos_imp_zdiv_nonneg_iff)
  have "sint (word_of_int (v div 2 ^ 32) :: u32) = v div 2 ^ 32"
    unfolding sint_sbintrunc' by (rule signed_take_bit_int_eq_self) (use hi lo in simp_all)
  moreover have "uint (word_of_int v :: u32) = v mod 2 ^ 32" by (simp add: uint_word_of_int)
  ultimately show ?thesis
    using le32_of_bytes [of "word_of_int (v div 2 ^ 32)" "[]"] by (simp add: off_of_def off_bytes_def)
qed

section \<open>The channel in memory\<close>

text \<open>\<open>fut\<close> are messages outside the channel. Node offsets are positive and below \<open>2 ^ 63\<close>.\<close>

definition nont_ring :: "nifo \<Rightarrow> offset list \<Rightarrow> bool" where
  "nont_ring s ms \<longleftrightarrow> cring (nf_link s) (map (\<lambda>p. p + NONT_OFF) ms)"

definition chan_geom :: "chan \<Rightarrow> bool" where
  "chan_geom ch \<longleftrightarrow> 8 \<le> uint (ch_uiCellSize ch) \<and> uint (ch_uiCellSize ch) * uint (ch_uiCellCnt ch) < 2 ^ 32 \<and>
     0 < unat (ch_uiCellCnt ch) \<and> unat (ch_wCellPos ch) < unat (ch_uiCellCnt ch) \<and>
     unat (ch_rCellPos ch) < unat (ch_uiCellCnt ch)"

definition chan_cell :: "chan \<Rightarrow> nat \<Rightarrow> offset" where
  "chan_cell ch i = ch_cellStartOffset ch + int i * uint (ch_uiCellSize ch)"

definition chan_rep :: "nifo \<Rightarrow> (offset \<Rightarrow> u8) \<Rightarrow> chan \<Rightarrow> chanq \<Rightarrow> offset list list \<Rightarrow> bool" where
  "chan_rep s mem ch q fut \<longleftrightarrow> chan_geom ch \<and> length (cq_cells q) < unat (ch_uiCellCnt ch) \<and>
     unat (ch_wCellPos ch) = (unat (ch_rCellPos ch) + length (cq_cells q)) mod unat (ch_uiCellCnt ch) \<and>
     (\<forall>j < length (cq_cells q). off_of (rd_bytes mem
        (chan_cell ch ((unat (ch_rCellPos ch) + j) mod unat (ch_uiCellCnt ch))) 8) = hd (cq_cells q ! j)) \<and>
     (\<forall>b \<in> set (cq_cells q). nont_ring s b) \<and> (cq_pend q \<noteq> [] \<longrightarrow> nont_ring s (cq_pend q)) \<and>
     ch_wOffset ch = (if cq_pend q = [] then 0 else hd (cq_pend q)) \<and>
     unat (ch_uiWCnt ch) = cq_n q \<and> cq_n q < unat (ch_uiWBuffCnt ch) \<and>
     (\<forall>ms \<in> set fut. nont_ring s ms) \<and> distinct (chan_content q @ concat fut) \<and>
     (\<forall>p \<in> set (chan_content q @ concat fut). 0 < p \<and> p < 2 ^ 63)"

lemma nont_ring_ne: "nont_ring s ms \<Longrightarrow> ms \<noteq> []"
  by (auto simp: nont_ring_def)

lemma nont_ring_cong:
  assumes "nont_ring s ms" "\<And>p. p \<in> set ms \<Longrightarrow> nf_link s' (p + NONT_OFF) = nf_link s (p + NONT_OFF)"
  shows "nont_ring s' ms"
  unfolding nont_ring_def
  by (rule cring_cong [OF assms(1) [unfolded nont_ring_def]]) (use assms(2) in auto)

text \<open>Joining two messages.\<close>

lemma nifo_splice_nont_ok:
  assumes "nont_ring s xs" "nont_ring s ls" "set xs \<inter> set ls = {}"
  shows "\<exists>h. nifo_splice_nont s (hd ls) (hd xs) = Some (s\<lparr>nf_link := h\<rparr>) \<and> nont_ring (s\<lparr>nf_link := h\<rparr>) (xs @ ls) \<and>
    (\<forall>y. y \<notin> set (xs @ ls) \<longrightarrow> h (y + NONT_OFF) = nf_link s (y + NONT_OFF))"
proof -
  let ?on = "\<lambda>p. p + NONT_OFF"
  obtain x xs' l ls' where e: "xs = x # xs'" "ls = l # ls'"
    using nont_ring_ne [OF assms(1)] nont_ring_ne [OF assms(2)] by (cases xs; cases ls) auto
  have r: "cring (nf_link s) (?on x # map ?on xs')" "cring (nf_link s) (?on l # map ?on ls')"
    "set (?on x # map ?on xs') \<inter> set (?on l # map ?on ls') = {}"
    using assms e by (auto simp: nont_ring_def)
  obtain h where h: "clist_splice (nf_link s) (?on l) (?on x) = Some h"
    "cring h (?on x # map ?on xs' @ ?on l # map ?on ls')" "dom h = dom (nf_link s)"
    "\<And>y. y \<notin> set (?on x # map ?on xs' @ ?on l # map ?on ls') \<Longrightarrow> h y = nf_link s y"
    by (rule clist_splice_ring [OF r]) (rule that; assumption)
  have "h (?on y) = nf_link s (?on y)" if "y \<notin> set (xs @ ls)" for y
    by (rule h(4)) (use that e in auto)
  then show ?thesis using h(1,2) e by (auto simp: nifo_splice_nont_def nifo_on_links_def nont_ring_def)
qed

lemma chan_cells_apart:
  assumes "8 \<le> uint (ch_uiCellSize ch)" "i \<noteq> j"
  shows "chan_cell ch i + 8 \<le> chan_cell ch j \<or> chan_cell ch j + 8 \<le> chan_cell ch i"
proof -
  have "a * z + z \<le> b * z" if "a < b" "0 \<le> z" for a b z :: int
    using mult_right_mono [of "a + 1" b z] that by (simp add: distrib_right)
  from this [of "int i" "int j" "uint (ch_uiCellSize ch)"] this [of "int j" "int i" "uint (ch_uiCellSize ch)"]
  show ?thesis using assms by (cases "i < j") (auto simp: chan_cell_def)
qed

lemma cifo_get_cell_eq:
  assumes "chan_geom ch" "unat pos < unat (ch_uiCellCnt ch)"
  shows "cifo_get_cell ch pos = chan_cell ch (unat pos)"
proof -
  have "uint pos \<le> uint (ch_uiCellCnt ch)"
    using less_imp_le [OF assms(2)] by (simp only: uint_nat of_nat_le_iff)
  then have "uint pos * uint (ch_uiCellSize ch) \<le> uint (ch_uiCellCnt ch) * uint (ch_uiCellSize ch)"
    by (intro mult_right_mono) simp_all
  also have "\<dots> < 2 ^ 32" using assms(1) by (simp add: chan_geom_def mult.commute)
  finally have "uint (pos * ch_uiCellSize ch) = uint pos * uint (ch_uiCellSize ch)"
    by (simp add: uint_word_ariths mod_pos_pos_trivial)
  then show ?thesis by (simp add: cifo_get_cell_def chan_cell_def)
qed

lemma cifo_next_pos_eq:
  assumes "unat pos < unat cnt"
  shows "\<exists>n. cifo_next_pos pos cnt = Some n \<and> unat n = Suc (unat pos) mod unat cnt"
proof -
  have "cnt \<noteq> 0" using assms by auto
  moreover have "unat ((pos + 1) mod cnt) = Suc (unat pos) mod unat cnt"
    using unat_Suc_bounded [OF assms] by (simp add: unat_mod)
  ultimately show ?thesis by (simp add: cifo_next_pos_def)
qed

lemma ring_index_inj:
  assumes "i < cap" "j < cap" "(r + i) mod cap = (r + j) mod (cap :: nat)"
  shows "i = j"
  using assms
proof (induction i j rule: linorder_wlog)
  case (le i j)
  then have "cap dvd (r + j) - (r + i)" using mod_eq_dvd_iff_nat [of "r + i" "r + j" cap] by simp
  then have "cap dvd j - i" by simp
  moreover have "j - i < cap" using le by simp
  ultimately have "j - i = 0" using nat_dvd_not_less [of "j - i" cap] by auto
  then show ?case using le by simp
qed simp

lemma ring_full_iff:
  assumes "r < cap" "L < (cap :: nat)"
  shows "Suc ((r + L) mod cap) mod cap = r \<longleftrightarrow> Suc L = cap"
proof -
  have "Suc ((r + L) mod cap) mod cap = (r + Suc L) mod cap" by (simp add: mod_Suc_eq)
  moreover have "(r + Suc L) mod cap = r \<longleftrightarrow> Suc L = cap"
  proof (cases "Suc L = cap")
    case False
    then have "Suc L < cap" using assms(2) by simp
    then have "(r + Suc L) mod cap \<noteq> (r + 0) mod cap" using ring_index_inj [of "Suc L" cap 0 r] by auto
    then show ?thesis using False assms(1) by simp
  qed (use assms(1) in simp)
  ultimately show ?thesis by simp
qed

text \<open>The fields of a channel that the operations leave alone.\<close>

definition chan_fixed :: "chan \<Rightarrow> u32 \<times> u32 \<times> offset \<times> u32 \<times> u32 \<times> u32 \<times> u32 \<times> u32 \<times> u32" where
  "chan_fixed ch = (ch_uiCellCnt ch, ch_uiCellSize ch, ch_cellStartOffset ch, ch_uiWBuffCnt ch, ch_uiRBuffCnt ch,
     ch_uiWSemFlag ch, ch_iWSemID ch, ch_uiRSemFlag ch, ch_iRSemID ch)"

lemma cifo_chan_set [simp]:
  "cifo_chan c k = Some ch \<Longrightarrow> cifo_chan (cifo_set_chan c k ch') k = Some ch'"
  "cifo_chan (c\<lparr>ci_mem := mem\<rparr>) k = cifo_chan c k" "ci_uiChCnt (cifo_set_chan c k ch') = ci_uiChCnt c"
  "ci_mem (cifo_set_chan c k ch') = ci_mem c"
  by (auto simp: cifo_chan_def cifo_set_chan_def split: if_splits)

lemma cifo_put_rep:
  assumes "chan_rep s (ci_mem c) ch q (ms # fut)" "cifo_chan c k = Some ch"
    "chan_put (unat (ch_uiCellCnt ch)) (unat (ch_uiWBuffCnt ch)) q ms = (q', r)"
  shows "\<exists>h c' ch'. cifo_put s c k ch (hd ms) = Some (s\<lparr>nf_link := h\<rparr>, c', r) \<and> cifo_chan c' k = Some ch' \<and>
    chan_rep (s\<lparr>nf_link := h\<rparr>) (ci_mem c') ch' q' fut \<and> chan_fixed ch' = chan_fixed ch \<and> ci_uiChCnt c' = ci_uiChCnt c"
proof -
  let ?cap = "unat (ch_uiCellCnt ch)" and ?wb = "unat (ch_uiWBuffCnt ch)"
  let ?w = "unat (ch_wCellPos ch)" and ?r = "unat (ch_rCellPos ch)" and ?L = "length (cq_cells q)"
  have geom: "chan_geom ch" and L: "?L < ?cap" and w: "?w = (?r + ?L) mod ?cap"
    and cells: "\<And>j. j < ?L \<Longrightarrow> off_of (rd_bytes (ci_mem c) (chan_cell ch ((?r + j) mod ?cap)) 8) = hd (cq_cells q ! j)"
    and rings: "\<And>b. b \<in> set (cq_cells q) \<Longrightarrow> nont_ring s b" "cq_pend q \<noteq> [] \<Longrightarrow> nont_ring s (cq_pend q)"
      "\<And>b. b \<in> set fut \<Longrightarrow> nont_ring s b" "nont_ring s ms"
    and off: "ch_wOffset ch = (if cq_pend q = [] then 0 else hd (cq_pend q))"
    and n: "unat (ch_uiWCnt ch) = cq_n q" "cq_n q < ?wb"
    and dist: "distinct (chan_content q @ ms @ concat fut)"
    and pos: "\<forall>p \<in> set (chan_content q @ ms @ concat fut). 0 < p \<and> p < 2 ^ 63"
    using assms(1) by (auto simp: chan_rep_def)
  have g: "?w < ?cap" "?r < ?cap" "8 \<le> uint (ch_uiCellSize ch)" using geom by (simp_all add: chan_geom_def)
  obtain nx where nx: "cifo_next_pos (ch_wCellPos ch) (ch_uiCellCnt ch) = Some nx" "unat nx = Suc ?w mod ?cap"
    using cifo_next_pos_eq [OF g(1)] by blast
  have full: "nx = ch_rCellPos ch \<longleftrightarrow> Suc ?L = ?cap"
    unfolding word_unat_eq_iff nx(2) w by (rule ring_full_iff [OF g(2) L])
  have n1: "unat (ch_uiWCnt ch + 1) = Suc (cq_n q)"
    using unat_Suc_bounded [of "ch_uiWCnt ch" "ch_uiWBuffCnt ch"] n by simp
  have flush: "ch_uiWBuffCnt ch \<le> ch_uiWCnt ch + 1 \<longleftrightarrow> ?wb \<le> Suc (cq_n q)"
    unfolding word_le_nat_alt n1 ..
  show ?thesis
  proof (cases "Suc ?L = ?cap \<and> ?wb \<le> Suc (cq_n q)")
    case True
    then have q: "q' = q" "r = -2" using assms(3) by (simp_all add: chan_put_def)
    have "cifo_put s c k ch (hd ms) = Some (s, c, -2)"
      using nx(1) full flush True by (simp add: cifo_put_def)
    moreover have "chan_rep s (ci_mem c) ch q fut" using assms(1) by (auto simp: chan_rep_def)
    ultimately show ?thesis using q assms(2) by (intro exI [of _ "nf_link s"] exI [of _ c] exI [of _ ch]) simp
  next
    case go: False
    let ?p = "cq_pend q @ ms"
    have ms: "ms \<noteq> []" using nont_ring_ne [OF rings(4)] .
    obtain h where h: "(if ch_wOffset ch > 0
        then do { s1 \<leftarrow> nifo_splice_nont s (hd ms) (ch_wOffset ch); Some (s1, ch_wOffset ch) }
        else Some (s, hd ms)) = Some (s\<lparr>nf_link := h\<rparr>, hd ?p)"
      "nont_ring (s\<lparr>nf_link := h\<rparr>) ?p" "\<And>y. y \<notin> set ?p \<Longrightarrow> h (y + NONT_OFF) = nf_link s (y + NONT_OFF)"
    proof (cases "cq_pend q = []")
      case True
      then show ?thesis using off rings(4) by (intro that [of "nf_link s"]) simp_all
    next
      case False
      have d: "set (cq_pend q) \<inter> set ms = {}" using dist by (auto simp: chan_content_def)
      obtain h where "nifo_splice_nont s (hd ms) (hd (cq_pend q)) = Some (s\<lparr>nf_link := h\<rparr>)"
        "nont_ring (s\<lparr>nf_link := h\<rparr>) ?p" "\<forall>y. y \<notin> set ?p \<longrightarrow> h (y + NONT_OFF) = nf_link s (y + NONT_OFF)"
        using nifo_splice_nont_ok [OF rings(2) [OF False] rings(4) d] by blast
      moreover have "0 < hd (cq_pend q)" using pos False by (auto simp: chan_content_def)
      ultimately show ?thesis using off False by (intro that [of h]) simp_all
    qed
    define s1 where "s1 = s\<lparr>nf_link := h\<rparr>"
    have keep: "nont_ring s1 b" if b: "nont_ring s b" "set b \<inter> set ?p = {}" for b
      by (rule nont_ring_cong [OF b(1)]) (use h(3) b(2) in \<open>auto simp: s1_def\<close>)
    have cells1: "nont_ring s1 b" if "b \<in> set (cq_cells q)" for b
      using that dist by (intro keep rings(1)) (auto simp: chan_content_def)
    have fut1: "nont_ring s1 b" if "b \<in> set fut" for b
      using that dist by (intro keep rings(3)) (auto simp: chan_content_def)
    have pend1: "nont_ring s1 ?p" using h(2) by (simp add: s1_def)
    have hp: "0 < hd ?p" "hd ?p < 2 ^ 63" using pos ms by (auto simp: chan_content_def hd_append)
    show ?thesis
    proof (cases "?wb \<le> Suc (cq_n q)")
      case True
      then have L1: "Suc ?L < ?cap" using go L by simp
      have q: "q' = \<lparr>cq_cells = cq_cells q @ [?p], cq_pend = [], cq_n = 0\<rparr>" "r = 1"
        using assms(3) True L1 by (simp_all add: chan_put_def)
      define mem' where "mem' = wr_bytes (ci_mem c) (chan_cell ch ?w) (off_bytes (hd ?p))"
      define ch' where "ch' = ch\<lparr>ch_wOffset := 0, ch_uiWCnt := 0, ch_wCellPos := nx\<rparr>"
      have run: "cifo_put s c k ch (hd ms) = Some (s1, (cifo_set_chan c k ch')\<lparr>ci_mem := mem'\<rparr>, 1)"
        using nx(1) full flush True L1 h(1) hp(1) cifo_get_cell_eq [OF geom g(1)]
        by (simp add: cifo_put_def Let_def s1_def ch'_def mem'_def)
      have len8: "length (off_bytes (hd ?p)) = 8" by (simp add: off_bytes_def)
      have cell: "chan_cell ch' = chan_cell ch" by (rule ext) (simp add: chan_cell_def ch'_def)
      have mem: "off_of (rd_bytes mem' (chan_cell ch ((?r + j) mod ?cap)) 8) = hd ((cq_cells q @ [?p]) ! j)"
        if j: "j < Suc ?L" for j
      proof (cases "j = ?L")
        case True
        have "rd_bytes mem' (chan_cell ch ?w) 8 = off_bytes (hd ?p)"
          using rd_wr_same [of "ci_mem c" "chan_cell ch ?w" "off_bytes (hd ?p)"] len8 by (simp add: mem'_def)
        then show ?thesis using True w off_of_bytes hp by simp
      next
        case False
        then have jl: "j < ?L" using j by simp
        have "(?r + j) mod ?cap \<noteq> ?w" using ring_index_inj [of j ?cap ?L ?r] False jl L w by auto
        then have "rd_bytes mem' (chan_cell ch ((?r + j) mod ?cap)) 8 = rd_bytes (ci_mem c) (chan_cell ch ((?r + j) mod ?cap)) 8"
          unfolding mem'_def using chan_cells_apart [OF g(3), of "(?r + j) mod ?cap" ?w] len8
          by (intro rd_wr_other) auto
        then show ?thesis using cells [OF jl] jl by (simp add: nth_append)
      qed
      have "chan_rep s1 mem' ch' q' fut"
        unfolding chan_rep_def q(1) cell
      proof (intro conjI)
        show "chan_geom ch'" using geom nx(2) g(2) by (simp add: chan_geom_def ch'_def)
        show "unat (ch_wCellPos ch') = (unat (ch_rCellPos ch') + length (cq_cells \<lparr>cq_cells = cq_cells q @ [?p], cq_pend = [], cq_n = 0\<rparr>)) mod unat (ch_uiCellCnt ch')"
          using nx(2) w by (simp add: ch'_def mod_Suc_eq)
        show "\<forall>j<length (cq_cells \<lparr>cq_cells = cq_cells q @ [?p], cq_pend = [], cq_n = 0\<rparr>).
           off_of (rd_bytes mem' (chan_cell ch ((unat (ch_rCellPos ch') + j) mod unat (ch_uiCellCnt ch'))) 8) =
           hd (cq_cells \<lparr>cq_cells = cq_cells q @ [?p], cq_pend = [], cq_n = 0\<rparr> ! j)"
          using mem by (simp add: ch'_def)
        show "distinct (chan_content \<lparr>cq_cells = cq_cells q @ [?p], cq_pend = [], cq_n = 0\<rparr> @ concat fut)"
          using dist by (simp add: chan_content_def)
        show "\<forall>p\<in>set (chan_content \<lparr>cq_cells = cq_cells q @ [?p], cq_pend = [], cq_n = 0\<rparr> @ concat fut). 0 < p \<and> p < 2 ^ 63"
          using pos by (auto simp: chan_content_def)
      qed (use L1 cells1 fut1 pend1 n in \<open>auto simp: ch'_def\<close>)
      then show ?thesis using run q(2) assms(2) unfolding s1_def
        by (intro exI [of _ h] exI [of _ "(cifo_set_chan c k ch')\<lparr>ci_mem := mem'\<rparr>"] exI [of _ ch'])
           (simp add: ch'_def chan_fixed_def)
    next
      case False
      have q: "q' = q\<lparr>cq_pend := ?p, cq_n := Suc (cq_n q)\<rparr>" "r = 1"
        using assms(3) False by (simp_all add: chan_put_def)
      define ch' where "ch' = ch\<lparr>ch_wOffset := hd ?p, ch_uiWCnt := ch_uiWCnt ch + 1\<rparr>"
      have run: "cifo_put s c k ch (hd ms) = Some (s1, cifo_set_chan c k ch', 1)"
        using nx(1) flush False h(1) by (simp add: cifo_put_def Let_def s1_def ch'_def)
      have cell: "chan_cell ch' = chan_cell ch" by (rule ext) (simp add: chan_cell_def ch'_def)
      have "chan_rep s1 (ci_mem c) ch' q' fut"
        unfolding chan_rep_def q(1) cell
      proof (intro conjI)
        show "chan_geom ch'" using geom by (simp add: chan_geom_def ch'_def)
        show "distinct (chan_content (q\<lparr>cq_pend := ?p, cq_n := Suc (cq_n q)\<rparr>) @ concat fut)"
          using dist by (simp add: chan_content_def)
        show "\<forall>p\<in>set (chan_content (q\<lparr>cq_pend := ?p, cq_n := Suc (cq_n q)\<rparr>) @ concat fut). 0 < p \<and> p < 2 ^ 63"
          using pos by (auto simp: chan_content_def)
      qed (use L w cells cells1 fut1 pend1 n1 ms False in \<open>auto simp: ch'_def\<close>)
      then show ?thesis using run q(2) assms(2) unfolding s1_def
        by (intro exI [of _ h] exI [of _ "cifo_set_chan c k ch'"] exI [of _ ch'])
           (simp add: ch'_def chan_fixed_def)
    qed
  qed
qed

lemma cifo_read_loop_rep:
  assumes "chan_rep s mem ch q fut" "os \<noteq> [] \<longrightarrow> nont_ring s os" "distinct (os @ chan_content q @ concat fut)"
    "\<forall>p \<in> set os. 0 < p"
  shows "\<exists>h ch'. cifo_read_loop n s mem (ch_wCellPos ch) ch (if os = [] then 0 else hd os) =
      Some (s\<lparr>nf_link := h\<rparr>, ch', if os @ chan_taken n q = [] then 0 else hd (os @ chan_taken n q)) \<and>
    chan_rep (s\<lparr>nf_link := h\<rparr>) mem ch' (q\<lparr>cq_cells := drop n (cq_cells q)\<rparr>) fut \<and> chan_fixed ch' = chan_fixed ch \<and>
    (os @ chan_taken n q \<noteq> [] \<longrightarrow> nont_ring (s\<lparr>nf_link := h\<rparr>) (os @ chan_taken n q))"
  using assms
proof (induction n arbitrary: s ch q os)
  case 0
  then show ?case by (intro exI [of _ "nf_link s"] exI [of _ ch]) (simp add: chan_taken_def)
next
  case (Suc n)
  let ?cap = "unat (ch_uiCellCnt ch)" and ?r = "unat (ch_rCellPos ch)" and ?L = "length (cq_cells q)"
  have geom: "chan_geom ch" and L: "?L < ?cap" and w: "unat (ch_wCellPos ch) = (?r + ?L) mod ?cap"
    and cells: "\<And>j. j < ?L \<Longrightarrow> off_of (rd_bytes mem (chan_cell ch ((?r + j) mod ?cap)) 8) = hd (cq_cells q ! j)"
    and rings: "\<And>b. b \<in> set (cq_cells q) \<Longrightarrow> nont_ring s b" "cq_pend q \<noteq> [] \<Longrightarrow> nont_ring s (cq_pend q)"
      "\<And>b. b \<in> set fut \<Longrightarrow> nont_ring s b"
    and rest: "ch_wOffset ch = (if cq_pend q = [] then 0 else hd (cq_pend q))"
      "unat (ch_uiWCnt ch) = cq_n q" "cq_n q < unat (ch_uiWBuffCnt ch)"
    and pos: "\<forall>p \<in> set (chan_content q @ concat fut). 0 < p \<and> p < 2 ^ 63"
    using Suc.prems(1) by (auto simp: chan_rep_def)
  note dist = Suc.prems(3)
  have g: "?r < ?cap" "8 \<le> uint (ch_uiCellSize ch)" using geom by (simp_all add: chan_geom_def)
  obtain nx where nx: "cifo_next_pos (ch_rCellPos ch) (ch_uiCellCnt ch) = Some nx" "unat nx = Suc ?r mod ?cap"
    using cifo_next_pos_eq [OF g(1)] by blast
  have empty: "ch_rCellPos ch = ch_wCellPos ch \<longleftrightarrow> ?L = 0"
  proof -
    have "?r = (?r + ?L) mod ?cap \<longleftrightarrow> ?L = 0" using ring_index_inj [of 0 ?cap ?L ?r] L g(1) by auto
    then show ?thesis by (simp add: word_unat_eq_iff w)
  qed
  show ?case
  proof (cases "cq_cells q")
    case Nil
    then have eq: "ch_rCellPos ch = ch_wCellPos ch" using empty by simp
    have q0: "q\<lparr>cq_cells := drop (Suc n) (cq_cells q)\<rparr> = q" using Nil by (cases q) simp
    have t0: "chan_taken (Suc n) q = []" using Nil by (simp add: chan_taken_def)
    have "cifo_read_loop (Suc n) s mem (ch_wCellPos ch) ch (if os = [] then 0 else hd os) =
        Some (s\<lparr>nf_link := nf_link s\<rparr>, ch, if os = [] then 0 else hd os)" using nx(1) eq by simp
    moreover have "chan_rep (s\<lparr>nf_link := nf_link s\<rparr>) mem ch q fut" using Suc.prems(1) by simp
    moreover have "os \<noteq> [] \<longrightarrow> nont_ring (s\<lparr>nf_link := nf_link s\<rparr>) os" using Suc.prems(2) by simp
    ultimately show ?thesis unfolding q0 t0 append_Nil2 by blast
  next
    case (Cons b bs)
    have ne: "\<not> ch_rCellPos ch = ch_wCellPos ch" using empty Cons by simp
    have cell: "off_of (rd_bytes mem (cifo_get_cell ch (ch_rCellPos ch)) 8) = hd b"
      using cells [of 0] Cons cifo_get_cell_eq [OF geom g(1)] g(1) by simp
    have b: "nont_ring s b" "b \<noteq> []" using rings(1) [of b] nont_ring_ne [of s b] Cons by simp_all
    let ?os = "os @ b"
    obtain h where h: "(if (if os = [] then 0 else hd os) = 0 then Some (s, hd b)
        else do { s1 \<leftarrow> nifo_splice_nont s (hd b) (if os = [] then 0 else hd os); Some (s1, if os = [] then 0 else hd os) }) =
        Some (s\<lparr>nf_link := h\<rparr>, hd ?os)"
      "nont_ring (s\<lparr>nf_link := h\<rparr>) ?os" "\<And>y. y \<notin> set ?os \<Longrightarrow> h (y + NONT_OFF) = nf_link s (y + NONT_OFF)"
    proof (cases "os = []")
      case True
      then show ?thesis using b by (intro that [of "nf_link s"]) simp_all
    next
      case False
      have d: "set os \<inter> set b = {}" using dist Cons by (auto simp: chan_content_def)
      obtain h where "nifo_splice_nont s (hd b) (hd os) = Some (s\<lparr>nf_link := h\<rparr>)"
        "nont_ring (s\<lparr>nf_link := h\<rparr>) ?os" "\<forall>y. y \<notin> set ?os \<longrightarrow> h (y + NONT_OFF) = nf_link s (y + NONT_OFF)"
        using nifo_splice_nont_ok [OF _ b(1) d] Suc.prems(2) False by blast
      moreover have "hd os \<noteq> 0" using Suc.prems(4) False by (cases os) simp_all
      ultimately show ?thesis using False by (intro that [of h]) simp_all
    qed
    define s1 where "s1 = s\<lparr>nf_link := h\<rparr>"
    define ch1 where "ch1 = ch\<lparr>ch_rCellPos := nx\<rparr>"
    define q1 where "q1 = q\<lparr>cq_cells := bs\<rparr>"
    have keep: "nont_ring s1 d" if d: "nont_ring s d" "set d \<inter> set ?os = {}" for d
      by (rule nont_ring_cong [OF d(1)]) (use h(3) d(2) in \<open>auto simp: s1_def\<close>)
    have cells1: "nont_ring s1 d" if "d \<in> set bs" for d
      using that dist Cons by (intro keep rings(1)) (auto simp: chan_content_def)
    have fut1: "nont_ring s1 d" if "d \<in> set fut" for d
      using that dist Cons by (intro keep rings(3)) (auto simp: chan_content_def)
    have pend1: "nont_ring s1 (cq_pend q)" if "cq_pend q \<noteq> []"
      using that dist Cons by (intro keep rings(2)) (auto simp: chan_content_def)
    have cellfun: "chan_cell ch1 = chan_cell ch" by (rule ext) (simp add: chan_cell_def ch1_def)
    have shift: "(Suc ?r mod ?cap + j) mod ?cap = (?r + Suc j) mod ?cap" for j by (simp add: mod_simps)
    have rep1: "chan_rep s1 mem ch1 q1 fut"
      unfolding chan_rep_def cellfun
    proof (intro conjI)
      show "chan_geom ch1" using geom nx(2) g(1) by (simp add: chan_geom_def ch1_def)
      show "unat (ch_wCellPos ch1) = (unat (ch_rCellPos ch1) + length (cq_cells q1)) mod unat (ch_uiCellCnt ch1)"
        using w nx(2) Cons shift [of "length bs"] by (simp add: ch1_def q1_def)
      show "\<forall>j<length (cq_cells q1). off_of (rd_bytes mem
          (chan_cell ch ((unat (ch_rCellPos ch1) + j) mod unat (ch_uiCellCnt ch1))) 8) = hd (cq_cells q1 ! j)"
      proof (intro allI impI)
        fix j assume "j < length (cq_cells q1)"
        then show "off_of (rd_bytes mem (chan_cell ch ((unat (ch_rCellPos ch1) + j) mod unat (ch_uiCellCnt ch1))) 8) =
            hd (cq_cells q1 ! j)"
          using cells [of "Suc j"] Cons shift [of j] nx(2) by (simp add: q1_def ch1_def)
      qed
      show "distinct (chan_content q1 @ concat fut)" using dist Cons by (simp add: q1_def chan_content_def)
      show "\<forall>p\<in>set (chan_content q1 @ concat fut). 0 < p \<and> p < 2 ^ 63"
        using pos Cons by (simp add: q1_def chan_content_def)
    qed (use L Cons cells1 fut1 pend1 rest in \<open>auto simp: ch1_def q1_def\<close>)
    have os1: "?os \<noteq> [] \<longrightarrow> nont_ring s1 ?os" using h(2) by (simp add: s1_def)
    have dist1: "distinct (?os @ chan_content q1 @ concat fut)"
      using dist Cons by (auto simp: q1_def chan_content_def)
    have pos1: "\<forall>p \<in> set ?os. 0 < p" using Suc.prems(4) pos Cons by (auto simp: chan_content_def)
    obtain h2 ch2 where r: "cifo_read_loop n s1 mem (ch_wCellPos ch1) ch1 (if ?os = [] then 0 else hd ?os) =
        Some (s1\<lparr>nf_link := h2\<rparr>, ch2, if ?os @ chan_taken n q1 = [] then 0 else hd (?os @ chan_taken n q1))"
      "chan_rep (s1\<lparr>nf_link := h2\<rparr>) mem ch2 (q1\<lparr>cq_cells := drop n (cq_cells q1)\<rparr>) fut" "chan_fixed ch2 = chan_fixed ch1"
      "?os @ chan_taken n q1 \<noteq> [] \<longrightarrow> nont_ring (s1\<lparr>nf_link := h2\<rparr>) (?os @ chan_taken n q1)"
      using Suc.IH [OF rep1 os1 dist1 pos1] by blast
    have taken: "os @ chan_taken (Suc n) q = ?os @ chan_taken n q1"
      using Cons by (simp add: chan_taken_def q1_def)
    have step: "cifo_read_loop (Suc n) s mem (ch_wCellPos ch) ch (if os = [] then 0 else hd os) =
        cifo_read_loop n s1 mem (ch_wCellPos ch1) ch1 (if ?os = [] then 0 else hd ?os)"
      using nx(1) ne cell h(1) b(2) by (simp add: Let_def s1_def ch1_def)
    have same: "s1\<lparr>nf_link := h2\<rparr> = s\<lparr>nf_link := h2\<rparr>" by (simp add: s1_def)
    have "q1\<lparr>cq_cells := drop n (cq_cells q1)\<rparr> = q\<lparr>cq_cells := drop (Suc n) (cq_cells q)\<rparr>"
      using Cons by (simp add: q1_def)
    then show ?thesis
      using r unfolding step taken same
      by (intro exI [of _ h2] exI [of _ ch2]) (simp add: chan_fixed_def ch1_def)
  qed
qed

section \<open>The channel as a message channel\<close>

lemma chan_rep_link: "nf_link s = nf_link s' \<Longrightarrow> chan_rep s mem ch q fut = chan_rep s' mem ch q fut"
  by (simp add: chan_rep_def nont_ring_def)

definition chan_sem_free :: "nifo \<Rightarrow> u32 \<Rightarrow> u32 \<Rightarrow> bool" where
  "chan_sem_free s semid flag \<longleftrightarrow> flag = MEMS_SEMA_ON \<longrightarrow> 0 < mi_sem (nf_mems s) (sint semid)"

lemma nifo_P_V:
  assumes "chan_sem_free s semid flag"
  shows "\<exists>s1. nifo_P s semid flag = Some s1 \<and> nf_link s1 = nf_link s \<and>
    (\<forall>h. nifo_V (s1\<lparr>nf_link := h\<rparr>) semid flag = Some (s\<lparr>nf_link := h\<rparr>))"
  using assms by (auto simp: nifo_P_def nifo_V_def mems_P_def mems_V_def chan_sem_free_def)

definition cifo_rep :: "u32 \<Rightarrow> nat \<Rightarrow> nat \<Rightarrow> nat \<Rightarrow> nifo \<times> cifo \<Rightarrow> chanq \<Rightarrow> offset list list \<Rightarrow> bool" where
  "cifo_rep k cap wb rb st q fut \<longleftrightarrow> (case st of (s, c) \<Rightarrow> k < ci_uiChCnt c \<and>
     (\<exists>ch. cifo_chan c k = Some ch \<and> chan_rep s (ci_mem c) ch q fut \<and>
        unat (ch_uiCellCnt ch) = cap \<and> unat (ch_uiWBuffCnt ch) = wb \<and> unat (ch_uiRBuffCnt ch) = rb \<and>
        chan_sem_free s (ch_iWSemID ch) (ch_uiWSemFlag ch) \<and> chan_sem_free s (ch_iRSemID ch) (ch_uiRSemFlag ch)))"

definition cifo_put_call :: "u32 \<Rightarrow> nifo \<times> cifo \<Rightarrow> offset \<Rightarrow> ((nifo \<times> cifo) \<times> int) option" where
  "cifo_put_call k st p = do { (s, c, r) \<leftarrow> cifo_write (fst st) (snd st) k p; Some ((s, c), r) }"

definition cifo_get_call :: "u32 \<Rightarrow> nifo \<times> cifo \<Rightarrow> ((nifo \<times> cifo) \<times> int) option" where
  "cifo_get_call k st = do { (s, c, r) \<leftarrow> cifo_read (fst st) (snd st) k; Some ((s, c), r) }"

lemma cifo_put_ok:
  assumes "cifo_rep k cap wb rb st q (ms # fut)" "chan_put cap wb q ms = (q', r)"
  shows "\<exists>st'. cifo_put_call k st (hd ms) = Some (st', r) \<and> cifo_rep k cap wb rb st' q' fut"
proof -
  obtain s c where st: "st = (s, c)" by fastforce
  obtain ch where k: "k < ci_uiChCnt c" and ch: "cifo_chan c k = Some ch" "chan_rep s (ci_mem c) ch q (ms # fut)"
    and sz: "unat (ch_uiCellCnt ch) = cap" "unat (ch_uiWBuffCnt ch) = wb" "unat (ch_uiRBuffCnt ch) = rb"
    and sem: "chan_sem_free s (ch_iWSemID ch) (ch_uiWSemFlag ch)" "chan_sem_free s (ch_iRSemID ch) (ch_uiRSemFlag ch)"
    using assms(1) by (auto simp: cifo_rep_def st)
  obtain s1 where P: "nifo_P s (ch_iWSemID ch) (ch_uiWSemFlag ch) = Some s1" "nf_link s1 = nf_link s"
    "\<forall>h. nifo_V (s1\<lparr>nf_link := h\<rparr>) (ch_iWSemID ch) (ch_uiWSemFlag ch) = Some (s\<lparr>nf_link := h\<rparr>)"
    using nifo_P_V [OF sem(1)] by blast
  have rep1: "chan_rep s1 (ci_mem c) ch q (ms # fut)" using ch(2) chan_rep_link [OF P(2)] by simp
  obtain h c' ch' where r: "cifo_put s1 c k ch (hd ms) = Some (s1\<lparr>nf_link := h\<rparr>, c', r)" "cifo_chan c' k = Some ch'"
    "chan_rep (s1\<lparr>nf_link := h\<rparr>) (ci_mem c') ch' q' fut" "chan_fixed ch' = chan_fixed ch" "ci_uiChCnt c' = ci_uiChCnt c"
    using cifo_put_rep [OF rep1 ch(1)] assms(2) sz by blast
  have nk: "\<not> ci_uiChCnt c \<le> k" using k by simp
  have "cifo_write s c k (hd ms) = Some (s\<lparr>nf_link := h\<rparr>, c', r)"
    using nk ch(1) P(1,3) r(1) by (simp add: cifo_write_def)
  moreover have "chan_rep (s\<lparr>nf_link := h\<rparr>) (ci_mem c') ch' q' fut"
    using r(3) chan_rep_link [of "s1\<lparr>nf_link := h\<rparr>" "s\<lparr>nf_link := h\<rparr>"] by simp
  ultimately show ?thesis
    using k r(2,4,5) sz sem
    by (intro exI [of _ "(s\<lparr>nf_link := h\<rparr>, c')"]) (simp add: cifo_put_call_def cifo_rep_def st chan_fixed_def chan_sem_free_def)
qed

lemma cifo_get_run:
  assumes "cifo_rep k cap wb rb (s, c) q fut" "chan_get rb q = (q', r)"
  shows "\<exists>h ch'. cifo_read s c k = Some (s\<lparr>nf_link := h\<rparr>, cifo_set_chan c k ch', r) \<and>
    cifo_rep k cap wb rb (s\<lparr>nf_link := h\<rparr>, cifo_set_chan c k ch') q' fut \<and>
    (chan_taken rb q \<noteq> [] \<longrightarrow> nont_ring (s\<lparr>nf_link := h\<rparr>) (chan_taken rb q))"
proof -
  obtain ch where k: "k < ci_uiChCnt c" and ch: "cifo_chan c k = Some ch" "chan_rep s (ci_mem c) ch q fut"
    and sz: "unat (ch_uiCellCnt ch) = cap" "unat (ch_uiWBuffCnt ch) = wb" "unat (ch_uiRBuffCnt ch) = rb"
    and sem: "chan_sem_free s (ch_iWSemID ch) (ch_uiWSemFlag ch)" "chan_sem_free s (ch_iRSemID ch) (ch_uiRSemFlag ch)"
    using assms(1) by (auto simp: cifo_rep_def)
  obtain s1 where P: "nifo_P s (ch_iRSemID ch) (ch_uiRSemFlag ch) = Some s1" "nf_link s1 = nf_link s"
    "\<forall>h. nifo_V (s1\<lparr>nf_link := h\<rparr>) (ch_iRSemID ch) (ch_uiRSemFlag ch) = Some (s\<lparr>nf_link := h\<rparr>)"
    using nifo_P_V [OF sem(2)] by blast
  have rep1: "chan_rep s1 (ci_mem c) ch q fut" using ch(2) chan_rep_link [OF P(2)] by simp
  have dist: "distinct ([] @ chan_content q @ concat fut)" using ch(2) by (simp add: chan_rep_def)
  have os: "[] \<noteq> [] \<longrightarrow> nont_ring s1 []" by simp
  have p0: "\<forall>p \<in> set []. (0::int) < p" by simp
  obtain h ch' where r: "cifo_read_loop rb s1 (ci_mem c) (ch_wCellPos ch) ch 0 =
      Some (s1\<lparr>nf_link := h\<rparr>, ch', if chan_taken rb q = [] then 0 else hd (chan_taken rb q))"
    "chan_rep (s1\<lparr>nf_link := h\<rparr>) (ci_mem c) ch' (q\<lparr>cq_cells := drop rb (cq_cells q)\<rparr>) fut" "chan_fixed ch' = chan_fixed ch"
    "chan_taken rb q \<noteq> [] \<longrightarrow> nont_ring (s1\<lparr>nf_link := h\<rparr>) (chan_taken rb q)"
    using cifo_read_loop_rep [OF rep1 os dist p0, of rb] unfolding append_Nil if_P [OF refl] by blast
  have q': "q' = q\<lparr>cq_cells := drop rb (cq_cells q)\<rparr>" "r = (if chan_taken rb q = [] then 0 else hd (chan_taken rb q))"
    using assms(2) by (simp_all add: chan_get_def)
  have nk: "\<not> ci_uiChCnt c \<le> k" using k by simp
  have "cifo_read s c k = Some (s\<lparr>nf_link := h\<rparr>, cifo_set_chan c k ch', r)"
    using nk ch(1) P(1,3) r(1) sz(3) q'(2) by (simp add: cifo_read_def)
  moreover have "chan_rep (s\<lparr>nf_link := h\<rparr>) (ci_mem c) ch' q' fut"
    using r(2) q'(1) chan_rep_link [of "s1\<lparr>nf_link := h\<rparr>" "s\<lparr>nf_link := h\<rparr>"] by simp
  moreover have "chan_taken rb q \<noteq> [] \<longrightarrow> nont_ring (s\<lparr>nf_link := h\<rparr>) (chan_taken rb q)"
    using r(4) by (simp add: nont_ring_def)
  ultimately show ?thesis
    using k r(3) ch(1) sz sem
    by (intro exI [of _ h] exI [of _ ch']) (simp add: cifo_rep_def chan_fixed_def chan_sem_free_def)
qed

lemma cifo_get_ok:
  assumes "cifo_rep k cap wb rb st q fut" "chan_get rb q = (q', r)"
  shows "\<exists>st'. cifo_get_call k st = Some (st', r) \<and> cifo_rep k cap wb rb st' q' fut \<and>
    (chan_taken rb q \<noteq> [] \<longrightarrow> nont_ring (fst st') (chan_taken rb q))"
proof -
  obtain s c where st: "st = (s, c)" by fastforce
  obtain h ch' where "cifo_read s c k = Some (s\<lparr>nf_link := h\<rparr>, cifo_set_chan c k ch', r)"
    "cifo_rep k cap wb rb (s\<lparr>nf_link := h\<rparr>, cifo_set_chan c k ch') q' fut"
    "chan_taken rb q \<noteq> [] \<longrightarrow> nont_ring (s\<lparr>nf_link := h\<rparr>) (chan_taken rb q)"
    using cifo_get_run [OF assms(1) [unfolded st] assms(2)] by blast
  then show ?thesis unfolding st by (intro exI [of _ "(s\<lparr>nf_link := h\<rparr>, cifo_set_chan c k ch')"]) (simp add: cifo_get_call_def)
qed

interpretation cifo_channel: msg_channel "cifo_rep k cap wb rb" "cifo_put_call k" "cifo_get_call k" cap wb rb
  for k cap wb rb
proof (unfold_locales, goal_cases)
  case (1 st q ms fut q' r)
  then show ?case by (rule cifo_put_ok)
next
  case (2 st q fut q' r)
  then show ?case using cifo_get_ok by blast
qed

section \<open>A new block\<close>

text \<open>What a channel of the configuration needs, its two semaphores included: \<open>semget\<close> answers an \<open>int\<close>.\<close>

definition cifo_sem_had :: "cifo_os \<Rightarrow> (int \<Rightarrow> int) \<Rightarrow> u32 \<Rightarrow> u32 \<Rightarrow> bool" where
  "cifo_sem_had os sem semkey flag \<longleftrightarrow> flag = MEMS_SEMA_ON \<longrightarrow>
     (case co_semget os semkey of
        SemError \<Rightarrow> False
      | SemCreated semid \<Rightarrow> - (2 ^ 31) \<le> semid \<and> semid < 2 ^ 31 \<and> semid \<noteq> -1 \<and> co_setval os semid
      | SemExists semid \<Rightarrow> - (2 ^ 31) \<le> semid \<and> semid < 2 ^ 31 \<and> semid \<noteq> -1 \<and> 0 < sem semid)"

definition chanconf_ok :: "cifo_os \<Rightarrow> (int \<Rightarrow> int) \<Rightarrow> chanconf \<Rightarrow> bool" where
  "chanconf_ok os sem c \<longleftrightarrow> 8 \<le> uint (cc_uiCellSize c) \<and> 0 < unat (cc_uiCellCnt c) \<and> 0 < unat (cc_uiWBuffCnt c) \<and>
     uint (cc_uiCellSize c) * uint (cc_uiCellCnt c) < 2 ^ 32 \<and>
     cifo_sem_had os sem (cc_uiWSemKey c) (cc_uiWSemFlag c) \<and> cifo_sem_had os sem (cc_uiRSemKey c) (cc_uiRSemFlag c)"

definition cifo_conf_ok :: "cifo_os \<Rightarrow> (int \<Rightarrow> int) \<Rightarrow> cifoconf \<Rightarrow> bool" where
  "cifo_conf_ok os sem conf \<longleftrightarrow> unat (cf_uiChCnt conf) \<le> length (cf_stCHANCONF conf) \<and>
     unat (cf_uiChCnt conf) \<le> MAX_CHAN_CNT \<and> cifo_total_size conf \<le> CIFO_SHM_SIZE \<and>
     (\<forall>c \<in> set (take (unat (cf_uiChCnt conf)) (cf_stCHANCONF conf)). chanconf_ok os sem c)"

text \<open>A new shared memory segment is filled with zeros.\<close>

definition chan_zero :: chan where
  "chan_zero = \<lparr>ch_uiChID = 0, ch_wCellPos = 0, ch_rCellPos = 0, ch_uiCellCnt = 0, ch_uiCellSize = 0,
     ch_cellStartOffset = 0, ch_cellEndOffset = 0, ch_uiWBuffCnt = 0, ch_uiRBuffCnt = 0, ch_uiWCnt = 0, ch_uiRCnt = 0,
     ch_wOffset = 0, ch_rOffset = 0, ch_uiWSemFlag = 0, ch_uiWSemKey = 0, ch_iWSemID = 0, ch_uiRSemFlag = 0,
     ch_uiRSemKey = 0, ch_iRSemID = 0\<rparr>"

text \<open>An empty channel as the configuration has it, whose cells begin at \<open>start\<close>. The flag and the key of
  the read semaphore are not stored.\<close>

definition chan_new :: "(int \<Rightarrow> int) \<Rightarrow> chanconf \<Rightarrow> offset \<Rightarrow> chan \<Rightarrow> bool" where
  "chan_new sem c start ch \<longleftrightarrow> ch_wCellPos ch = 0 \<and> ch_rCellPos ch = 0 \<and> ch_uiCellCnt ch = cc_uiCellCnt c \<and>
     ch_uiCellSize ch = cc_uiCellSize c \<and> ch_cellStartOffset ch = start \<and> ch_cellEndOffset ch = start + chanconf_size c \<and>
     ch_uiWBuffCnt ch = cc_uiWBuffCnt c \<and> ch_uiRBuffCnt ch = cc_uiRBuffCnt c \<and> ch_uiWCnt ch = 0 \<and> ch_wOffset ch = 0 \<and>
     ch_uiWSemFlag ch = cc_uiWSemFlag c \<and> ch_uiRSemFlag ch = 0 \<and>
     (ch_uiWSemFlag ch = MEMS_SEMA_ON \<longrightarrow> 0 < sem (sint (ch_iWSemID ch)))"

lemma cifo_sem_init:
  assumes "cifo_sem_had os sem0 semkey flag" "\<forall>i. 0 < sem0 i \<longrightarrow> 0 < sem i"
  shows "\<exists>semid sem'. mems_sem_init (co_semget os) (co_setval os) sem semkey flag = Some (semid, sem') \<and>
    (\<forall>i. 0 < sem i \<longrightarrow> 0 < sem' i) \<and> (flag = MEMS_SEMA_ON \<longrightarrow> 0 < sem' (sint (word_of_int semid :: u32)))"
proof -
  have "sint (word_of_int i :: u32) = i" if "- (2 ^ 31) \<le> i" "i < 2 ^ 31" for i
    unfolding sint_sbintrunc' by (rule signed_take_bit_int_eq_self) (use that in simp_all)
  then show ?thesis using assms by (auto simp: mems_sem_init_def cifo_sem_had_def split: sem_answer.splits)
qed

lemma cifo_init_chan_ok:
  assumes "chanconf_ok os sem0 c" "\<forall>i. 0 < sem0 i \<longrightarrow> 0 < sem i"
  shows "\<exists>ch sem'. cifo_init_chan (co_semget os) (co_setval os) sem c start chan_zero = Some (ch, sem') \<and>
    (\<forall>i. 0 < sem i \<longrightarrow> 0 < sem' i) \<and> chan_new sem' c start ch"
proof -
  have had: "cifo_sem_had os sem0 (cc_uiWSemKey c) (cc_uiWSemFlag c)" "cifo_sem_had os sem0 (cc_uiRSemKey c) (cc_uiRSemFlag c)"
    using assms(1) by (simp_all add: chanconf_ok_def)
  obtain wid sem1 where w: "mems_sem_init (co_semget os) (co_setval os) sem (cc_uiWSemKey c) (cc_uiWSemFlag c) = Some (wid, sem1)"
    "\<forall>i. 0 < sem i \<longrightarrow> 0 < sem1 i" "cc_uiWSemFlag c = MEMS_SEMA_ON \<longrightarrow> 0 < sem1 (sint (word_of_int wid :: u32))"
    using cifo_sem_init [OF had(1) assms(2)] by blast
  have mono: "\<forall>i. 0 < sem0 i \<longrightarrow> 0 < sem1 i" using assms(2) w(2) by blast
  obtain rid sem2 where r: "mems_sem_init (co_semget os) (co_setval os) sem1 (cc_uiRSemKey c) (cc_uiRSemFlag c) = Some (rid, sem2)"
    "\<forall>i. 0 < sem1 i \<longrightarrow> 0 < sem2 i"
    using cifo_sem_init [OF had(2) mono] by blast
  show ?thesis using w r by (simp add: cifo_init_chan_def chan_new_def chan_zero_def)
qed

lemma chan_new_mono: "chan_new sem c start ch \<Longrightarrow> \<forall>i. 0 < sem i \<longrightarrow> 0 < sem' i \<Longrightarrow> chan_new sem' c start ch"
  by (auto simp: chan_new_def)

lemma cifo_init_chans_ok:
  assumes "\<forall>c \<in> set cs. chanconf_ok os sem0 c" "\<forall>i. 0 < sem0 i \<longrightarrow> 0 < sem i"
    "chs = replicate (length cs + n) chan_zero"
  shows "\<exists>chs' sem'. cifo_init_chans (co_semget os) (co_setval os) sem start cs chs = Some (chs', sem') \<and>
    length chs' = length cs + n \<and> (\<forall>i. 0 < sem i \<longrightarrow> 0 < sem' i) \<and>
    (\<forall>i < length cs. chan_new sem' (cs ! i) (start + sum_list (map chanconf_size (take i cs))) (chs' ! i))"
  using assms
proof (induction cs arbitrary: sem start chs)
  case (Cons c cs)
  have ok: "chanconf_ok os sem0 c" "\<forall>c \<in> set cs. chanconf_ok os sem0 c" using Cons.prems(1) by simp_all
  obtain ch sem1 where c: "cifo_init_chan (co_semget os) (co_setval os) sem c start chan_zero = Some (ch, sem1)"
    "\<forall>i. 0 < sem i \<longrightarrow> 0 < sem1 i" "chan_new sem1 c start ch"
    using cifo_init_chan_ok [OF ok(1) Cons.prems(2)] by blast
  have mono: "\<forall>i. 0 < sem0 i \<longrightarrow> 0 < sem1 i" using Cons.prems(2) c(2) by blast
  obtain chs' sem' where r: "cifo_init_chans (co_semget os) (co_setval os) sem1 (ch_cellEndOffset ch) cs
      (replicate (length cs + n) chan_zero) = Some (chs', sem')"
    "length chs' = length cs + n" "\<forall>i. 0 < sem1 i \<longrightarrow> 0 < sem' i"
    "\<forall>i < length cs. chan_new sem' (cs ! i) (ch_cellEndOffset ch + sum_list (map chanconf_size (take i cs))) (chs' ! i)"
    using Cons.IH [OF ok(2) mono refl] by blast
  have run: "cifo_init_chans (co_semget os) (co_setval os) sem start (c # cs) chs = Some (ch # chs', sem')"
    using Cons.prems(3) c(1) r(1) by simp
  have e: "ch_cellEndOffset ch = start + chanconf_size c" using c(3) by (simp add: chan_new_def)
  have "chan_new sem' ((c # cs) ! i) (start + sum_list (map chanconf_size (take i (c # cs)))) ((ch # chs') ! i)"
    if "i < length (c # cs)" for i
  proof (cases i)
    case 0
    then show ?thesis using chan_new_mono [OF c(3) r(3)] by simp
  next
    case (Suc j)
    then show ?thesis using r(4) e that by (simp add: add.assoc)
  qed
  then show ?case using run r(2,3) c(2) by simp
qed simp

lemma chan_new_rep:
  assumes "chanconf_ok os sem0 c" "chan_new sem c start ch"
  shows "chan_rep s mem ch \<lparr>cq_cells = [], cq_pend = [], cq_n = 0\<rparr> []"
  using assms by (simp add: chan_rep_def chan_geom_def chan_content_def chanconf_ok_def chan_new_def)

text \<open>The cells of the channels lie one after the other behind the head room.\<close>

definition cifo_layout :: "cifo \<Rightarrow> bool" where
  "cifo_layout c \<longleftrightarrow> (\<forall>i < unat (ci_uiChCnt c). case ci_stCHAN c ! i of ch \<Rightarrow>
     ci_offsetHeadRoom c + uint (ci_uiHeadRoomSize c) \<le> ch_cellStartOffset ch \<and>
     ch_cellEndOffset ch \<le> ci_uiTotMemSize c \<and>
     (\<forall>j < unat (ch_uiCellCnt ch). chan_cell ch j + uint (ch_uiCellSize ch) \<le> ch_cellEndOffset ch) \<and>
     (\<forall>i' < i. ch_cellEndOffset (ci_stCHAN c ! i') \<le> ch_cellStartOffset ch))"

lemma sum_take_le:
  assumes "\<forall>x \<in> set xs. 0 \<le> f x" "i \<le> j"
  shows "sum_list (map f (take i xs)) \<le> sum_list (map (f :: 'a \<Rightarrow> int) (take j xs))"
proof -
  have "take j xs = take i xs @ take (j - i) (drop i xs)" using assms(2) take_add [of i "j - i" xs] by simp
  moreover have "0 \<le> sum_list (map f (take (j - i) (drop i xs)))"
    by (rule sum_list_nonneg) (use assms(1) in \<open>auto dest!: in_set_takeD in_set_dropD\<close>)
  ultimately show ?thesis by simp
qed

lemma chan_new_cells:
  assumes "chanconf_ok os sem0 c" "chan_new sem c start ch" "j < unat (ch_uiCellCnt ch)"
  shows "chan_cell ch j + uint (ch_uiCellSize ch) \<le> ch_cellEndOffset ch"
proof -
  have lt: "uint (cc_uiCellSize c) * uint (cc_uiCellCnt c) < 2 ^ 32" using assms(1) by (simp add: chanconf_ok_def)
  have "chanconf_size c = uint (cc_uiCellSize c) * uint (cc_uiCellCnt c)"
    unfolding chanconf_size_def uint_word_ariths using lt by (subst mod_pos_pos_trivial) simp_all
  moreover have "int (Suc j) * uint (cc_uiCellSize c) \<le> uint (cc_uiCellCnt c) * uint (cc_uiCellSize c)"
  proof (rule mult_right_mono)
    have "Suc j \<le> unat (cc_uiCellCnt c)" using assms(2,3) by (simp add: chan_new_def)
    then show "int (Suc j) \<le> uint (cc_uiCellCnt c)" by (simp only: uint_nat of_nat_le_iff)
  qed simp
  ultimately show ?thesis using assms(2) by (simp add: chan_new_def chan_cell_def algebra_simps)
qed

lemma cifo_fresh_ok:
  assumes "cifo_conf_ok os sem conf" "ci_stCHAN raw = replicate MAX_CHAN_CNT chan_zero"
  shows "\<exists>c sem'. cifo_fresh os sem conf raw = Some (c, sem') \<and> ci_uiChCnt c = cf_uiChCnt conf \<and> cifo_layout c \<and>
    length (ci_stCHAN c) = MAX_CHAN_CNT \<and>
    (\<forall>i < unat (cf_uiChCnt conf). \<exists>start. chanconf_ok os sem (cf_stCHANCONF conf ! i) \<and>
       chan_new sem' (cf_stCHANCONF conf ! i) start (ci_stCHAN c ! i))"
proof -
  let ?n = "unat (cf_uiChCnt conf)"
  define cs where "cs = take ?n (cf_stCHANCONF conf)"
  define base where "base = st_CIFO_SIZE + uint (cf_uiHeadRoomSize conf)"
  have len: "length cs = ?n" "?n \<le> MAX_CHAN_CNT" and ok: "\<forall>c \<in> set cs. chanconf_ok os sem c"
    using assms(1) by (simp_all add: cifo_conf_ok_def cs_def)
  obtain chs sem' where r: "cifo_init_chans (co_semget os) (co_setval os) sem base cs (ci_stCHAN raw) = Some (chs, sem')"
    "length chs = MAX_CHAN_CNT"
    "\<forall>i < length cs. chan_new sem' (cs ! i) (base + sum_list (map chanconf_size (take i cs))) (chs ! i)"
    using cifo_init_chans_ok [OF ok, of sem "ci_stCHAN raw" "MAX_CHAN_CNT - ?n" base] len assms(2) by auto
  have new: "chan_new sem' (cs ! i) (base + sum_list (map chanconf_size (take i cs))) (chs ! i)"
    "chanconf_ok os sem (cs ! i)" if "i < ?n" for i
    using r(3) ok len that by simp_all
  have nth: "cs ! i = cf_stCHANCONF conf ! i" if "i < ?n" for i using that by (simp add: cs_def)
  define c where "c = raw\<lparr>ci_uiTotMemSize := cifo_total_size conf, ci_uiShmKey := cf_uiShmKey conf,
      ci_uiHeadRoomSize := cf_uiHeadRoomSize conf, ci_offsetHeadRoom := st_CIFO_SIZE,
      ci_uiChCnt := cf_uiChCnt conf, ci_stCHAN := chs,
      ci_mem := wr_bytes (ci_mem raw) st_CIFO_SIZE (replicate (unat (cf_uiHeadRoomSize conf)) 0)\<rparr>"
  have "cifo_fresh os sem conf raw = Some (c, sem')"
    using r(1) assms(1) by (simp add: cifo_fresh_def cifo_conf_ok_def cs_def [symmetric] base_def [symmetric] c_def)
  moreover have "cifo_layout c"
    unfolding cifo_layout_def
  proof (intro allI impI)
    fix i assume "i < unat (ci_uiChCnt c)"
    then have i: "i < ?n" by (simp add: c_def)
    have nonneg: "\<forall>x \<in> set cs. 0 \<le> chanconf_size x" by (simp add: chanconf_size_def)
    have start: "ch_cellStartOffset (chs ! j) = base + sum_list (map chanconf_size (take j cs))"
      "ch_cellEndOffset (chs ! j) = base + sum_list (map chanconf_size (take (Suc j) cs))" if "j < ?n" for j
      using new(1) [OF that] len that by (simp_all add: chan_new_def take_Suc_conv_app_nth)
    have tot: "cifo_total_size conf = base + sum_list (map chanconf_size (take ?n cs))"
      by (simp add: cifo_total_size_def base_def cs_def)
    show "case ci_stCHAN c ! i of ch \<Rightarrow>
        ci_offsetHeadRoom c + uint (ci_uiHeadRoomSize c) \<le> ch_cellStartOffset ch \<and> ch_cellEndOffset ch \<le> ci_uiTotMemSize c \<and>
        (\<forall>j < unat (ch_uiCellCnt ch). chan_cell ch j + uint (ch_uiCellSize ch) \<le> ch_cellEndOffset ch) \<and>
        (\<forall>i' < i. ch_cellEndOffset (ci_stCHAN c ! i') \<le> ch_cellStartOffset ch)"
    proof (intro conjI allI impI)
      show "ci_offsetHeadRoom c + uint (ci_uiHeadRoomSize c) \<le> ch_cellStartOffset (ci_stCHAN c ! i)"
        using sum_take_le [OF nonneg, of 0 i] start(1) [OF i] by (simp add: c_def base_def)
      show "ch_cellEndOffset (ci_stCHAN c ! i) \<le> ci_uiTotMemSize c"
        using sum_take_le [OF nonneg, of "Suc i" ?n] start(2) [OF i] tot i by (simp add: c_def)
      show "chan_cell (ci_stCHAN c ! i) j + uint (ch_uiCellSize (ci_stCHAN c ! i)) \<le> ch_cellEndOffset (ci_stCHAN c ! i)"
        if "j < unat (ch_uiCellCnt (ci_stCHAN c ! i))" for j
        using chan_new_cells [OF new(2,1) [OF i]] that by (simp add: c_def)
      show "ch_cellEndOffset (ci_stCHAN c ! i') \<le> ch_cellStartOffset (ci_stCHAN c ! i)" if "i' < i" for i'
        using sum_take_le [OF nonneg, of "Suc i'" i] start(1) [OF i] start(2) [of i'] that i by (simp add: c_def)
    qed
  qed
  ultimately show ?thesis using new nth r(2) by (intro exI [of _ c] exI [of _ sem']) (auto simp: c_def)
qed

lemma cifo_new_rep:
  assumes "chanconf_ok os sem0 cc" "chan_new sem cc start (ci_stCHAN c ! unat k)" "k < ci_uiChCnt c"
    "unat k < length (ci_stCHAN c)" "mi_sem (nf_mems s) = sem"
  shows "cifo_rep k (unat (cc_uiCellCnt cc)) (unat (cc_uiWBuffCnt cc)) (unat (cc_uiRBuffCnt cc)) (s, c)
    \<lparr>cq_cells = [], cq_pend = [], cq_n = 0\<rparr> []"
  using chan_new_rep [OF assms(1,2), of s "ci_mem c"] assms(2-5)
  by (simp add: cifo_rep_def cifo_chan_def chan_new_def chan_sem_free_def MEMS_SEMA_ON_def)

text \<open>The read semaphore: \<open>uiRSemFlag\<close> keeps what the segment had.\<close>

lemma cifo_init_chans_rflag:
  "cifo_init_chans sg sv sem start cs chs = Some (chs', sem') \<Longrightarrow>
    \<forall>ch \<in> set chs. ch_uiRSemFlag ch = 0 \<Longrightarrow> \<forall>ch \<in> set chs'. ch_uiRSemFlag ch = 0"
proof (induction sg sv sem start cs chs arbitrary: chs' sem' rule: cifo_init_chans.induct)
  case (3 sg sv sem start c cs ch chs)
  obtain ch1 sem1 where c: "cifo_init_chan sg sv sem c start ch = Some (ch1, sem1)"
    using 3(2) by (cases "cifo_init_chan sg sv sem c start ch") auto
  have "ch_uiRSemFlag ch1 = ch_uiRSemFlag ch"
    using c by (auto simp: cifo_init_chan_def split: bind_splits)
  moreover obtain chs1 where r: "cifo_init_chans sg sv sem1 (ch_cellEndOffset ch1) cs chs = Some (chs1, sem')"
    "chs' = ch1 # chs1"
    using 3(2) c by (auto split: bind_splits)
  ultimately show ?case using 3(1) [OF c refl r(1)] 3(3) by auto
qed auto

text \<open>The calls on a block by any number of users; between them the nodes and the semaphores may change in
  any way.\<close>

inductive cifo_step :: "nifo \<times> cifo \<Rightarrow> nifo \<times> cifo \<Rightarrow> bool" where
  put: "cifo_write s c k offset = Some (s', c', r) \<Longrightarrow> cifo_step (s, c) (s', c')"
| get: "cifo_read s c k = Some (s', c', p) \<Longrightarrow> cifo_step (s, c) (s', c')"
| resize: "cifo_set_buffcnt c k n f = Some (c', r) \<Longrightarrow> cifo_step (s, c) (s, c')"
| other: "cifo_step (s, c) (s', c)"

definition cifo_read_free :: "cifo \<Rightarrow> bool" where
  "cifo_read_free c \<longleftrightarrow> (\<forall>ch \<in> set (ci_stCHAN c). ch_uiRSemFlag ch = 0)"

lemma cifo_read_free_set:
  "cifo_read_free c \<Longrightarrow> ch_uiRSemFlag ch = 0 \<Longrightarrow> cifo_read_free (cifo_set_chan c k ch)"
  using set_update_subset_insert [of "ci_stCHAN c" "unat k" ch] by (auto simp: cifo_read_free_def cifo_set_chan_def)

lemma cifo_read_free_mem [simp]: "cifo_read_free (c\<lparr>ci_mem := m\<rparr>) = cifo_read_free c"
  by (simp add: cifo_read_free_def)

lemma cifo_read_free_chan: "cifo_read_free c \<Longrightarrow> cifo_chan c k = Some ch \<Longrightarrow> ch_uiRSemFlag ch = 0"
  by (auto simp: cifo_read_free_def cifo_chan_def split: if_splits)

lemma cifo_put_free:
  assumes "cifo_put s c k ch offset = Some (s', c', r)" "cifo_read_free c" "ch_uiRSemFlag ch = 0"
  shows "cifo_read_free c'"
  using assms by (auto simp: cifo_put_def Let_def cifo_read_free_set split: bind_splits if_splits)

lemma cifo_read_loop_flag:
  "cifo_read_loop n s mem w ch pHead = Some (s', ch', p) \<Longrightarrow> ch_uiRSemFlag ch' = ch_uiRSemFlag ch"
proof (induction n s mem w ch pHead rule: cifo_read_loop.induct)
  case (2 n s mem w ch pHead)
  then show ?case by (fastforce simp: Let_def split: bind_splits if_splits)
qed simp

lemma cifo_read_loop_free:
  assumes "cifo_read_loop n s mem w ch pHead = Some (s', ch', p)" "cifo_read_free c" "cifo_chan c k = Some ch"
  shows "ch_uiRSemFlag ch' = 0"
  using cifo_read_loop_flag [OF assms(1)] cifo_read_free_chan [OF assms(2,3)] by simp

lemma cifo_step_free: "cifo_step (s, c) (s', c') \<Longrightarrow> cifo_read_free c \<Longrightarrow> cifo_read_free c'"
proof (induction "(s, c)" "(s', c')" rule: cifo_step.induct)
  case (put k offset r)
  then show ?case
    by (auto simp: cifo_write_def split: if_splits bind_splits dest: cifo_read_free_chan intro: cifo_put_free)
next
  case (get k p)
  then show ?case
    by (auto simp: cifo_read_def split: if_splits bind_splits intro!: cifo_read_free_set
        intro: cifo_read_loop_free)
next
  case (resize k n f r)
  then show ?case
    by (auto simp: cifo_set_buffcnt_def split: if_splits bind_splits dest: cifo_read_free_chan intro!: cifo_read_free_set)
qed simp

lemma cifo_steps_free: "rtranclp cifo_step st st' \<Longrightarrow> cifo_read_free (snd st) \<Longrightarrow> cifo_read_free (snd st')"
  by (induction rule: rtranclp_induct) (auto dest: cifo_step_free)

lemma cifo_init_free:
  assumes "cifo_init os sem conf = Some (Some (c, sem'))" "co_shmget os = CShmNew raw"
    "ci_stCHAN raw = replicate MAX_CHAN_CNT chan_zero"
  shows "cifo_read_free c"
proof -
  have "cifo_fresh os sem conf raw = Some (c, sem')"
    using assms(1,2) by (auto simp: cifo_init_def split: if_splits bind_splits)
  then obtain chs where chs: "cifo_init_chans (co_semget os) (co_setval os) sem (st_CIFO_SIZE + uint (cf_uiHeadRoomSize conf))
      (take (unat (cf_uiChCnt conf)) (cf_stCHANCONF conf)) (ci_stCHAN raw) = Some (chs, sem')" "ci_stCHAN c = chs"
    by (auto simp: cifo_fresh_def split: if_splits bind_splits)
  show ?thesis unfolding cifo_read_free_def
    using cifo_init_chans_rflag [OF chs(1)] chs(2) assms(3) by (simp add: chan_zero_def)
qed

lemma cifo_read_without_lock:
  assumes "cifo_read_free c" "k < ci_uiChCnt c"
  shows "cifo_read s c k = do {
     ch \<leftarrow> cifo_chan c k;
     (s2, ch2, pHead) \<leftarrow> cifo_read_loop (unat (ch_uiRBuffCnt ch)) s (ci_mem c) (ch_wCellPos ch) ch 0;
     Some (s2, cifo_set_chan c k ch2, pHead)
   }"
proof -
  have lock: "nifo_P t i 0 = Some t" "nifo_V t i 0 = Some t" for t i
    by (simp_all add: nifo_P_def nifo_V_def mems_P_def mems_V_def MEMS_SEMA_ON_def)
  have "\<not> ci_uiChCnt c \<le> k" using assms(2) by simp
  then show ?thesis using cifo_read_free_chan [OF assms(1)] lock
    by (cases "cifo_chan c k") (simp_all add: cifo_read_def)
qed

section \<open>A block to run\<close>

definition cifo_demo_os :: cifo_os where
  "cifo_demo_os = \<lparr>co_shmget = CShmNew \<lparr>ci_uiShmKey = 0, ci_uiTotMemSize = 0, ci_uiHeadRoomSize = 0, ci_offsetHeadRoom = 0,
       ci_uiChCnt = 0, ci_stCHAN = replicate MAX_CHAN_CNT chan_zero, ci_mem = (\<lambda>_. 0)\<rparr>,
     co_shmat = True, co_semget = (\<lambda>_. SemCreated 5), co_setval = (\<lambda>_. True)\<rparr>"

definition cifo_demo_conf :: cifoconf where
  "cifo_demo_conf = \<lparr>cf_uiShmKey = 7001, cf_uiHeadRoomSize = 0, cf_uiChCnt = 1,
     cf_stCHANCONF = [\<lparr>cc_uiChID = 0, cc_uiCellCnt = 3, cc_uiCellSize = 8, cc_uiWBuffCnt = 2, cc_uiRBuffCnt = 2,
       cc_uiWSemFlag = 0, cc_uiWSemKey = 0, cc_uiRSemFlag = 1, cc_uiRSemKey = 9\<rparr>]\<rparr>"

text \<open>A state with the messages 1, 201 and 401, of one node each.\<close>

definition cifo_demo_nifo :: "(int \<Rightarrow> int) \<Rightarrow> nifo" where
  "cifo_demo_nifo sem = nifo_demo\<lparr>nf_mems := (nf_mems nifo_demo)\<lparr>mi_sem := sem\<rparr>,
     nf_link := (\<lambda>x. if x \<in> {1 + NONT_OFF, 201 + NONT_OFF, 401 + NONT_OFF} then Some \<lparr>cl_offset_next = x, cl_offset_prev = x\<rparr> else None)\<rparr>"

lemma cifo_demo_ok: "cifo_conf_ok cifo_demo_os (\<lambda>_. 0) cifo_demo_conf"
  by (simp add: cifo_conf_ok_def cifo_demo_conf_def cifo_demo_os_def chanconf_ok_def cifo_sem_had_def MEMS_SEMA_ON_def
      MAX_CHAN_CNT_def cifo_total_size_def chanconf_size_def st_CIFO_SIZE_def CIFO_SHM_SIZE_def)

lemma cifo_demo_raw:
  obtains raw where "co_shmget cifo_demo_os = CShmNew raw" "co_shmat cifo_demo_os"
    "ci_stCHAN raw = replicate MAX_CHAN_CNT chan_zero"
  by (simp add: cifo_demo_os_def)

lemma cifo_demo_rings: "nont_ring (cifo_demo_nifo sem) [1]" "nont_ring (cifo_demo_nifo sem) [201]" "nont_ring (cifo_demo_nifo sem) [401]"
  by (simp_all add: nont_ring_def cring_def nxt_def prv_def cifo_demo_nifo_def)

lemma cifo_rep_fut:
  assumes "cifo_rep k cap wb rb (s, c) q []" "\<forall>ms \<in> set fut. nont_ring s ms" "distinct (chan_content q @ concat fut)"
    "\<forall>p \<in> set (concat fut). 0 < p \<and> p < 2 ^ 63"
  shows "cifo_rep k cap wb rb (s, c) q fut"
  using assms by (auto simp: cifo_rep_def chan_rep_def)

section \<open>Properties\<close>

text \<open>C3: Whatever sequence of writes and reads on a channel, \<open>cifo_write\<close> and \<open>cifo_read\<close> return and
  answer as the queue of batches does, and the messages that were taken, then those still held, are
  those that were there at first and those accepted, in the order of the writes: none is lost,
  doubled or overtaken, whatever the batch sizes of the writer and the reader.\<close>

theorem cifo_fifo:
  assumes "cifo_rep k cap wb rb st q (chan_puts cs)" "chan_run cap wb rb q cs = (q', rs, ins, outs)"
  shows "(\<exists>st'. chan_impl_run (cifo_put_call k) (cifo_get_call k) st cs = Some (st', rs) \<and> cifo_rep k cap wb rb st' q' []) \<and>
    outs @ chan_content q' = chan_content q @ ins"
  using cifo_channel.run_refines [OF assms] chan_run_fifo [OF assms(2)] by blast

text \<open>C27: A block that \<open>cifo_init\<close> builds in a new segment from a sound configuration has every channel
  of the configuration empty and ready, with its batch sizes, and the cells of the channels lie in the
  segment, behind the head room, without overlap.\<close>

theorem cifo_init_ok:
  assumes "cifo_conf_ok os sem conf" "co_shmget os = CShmNew raw" "co_shmat os"
    "ci_stCHAN raw = replicate MAX_CHAN_CNT chan_zero"
  shows "\<exists>c sem'. cifo_init os sem conf = Some (Some (c, sem')) \<and> cifo_layout c \<and> ci_uiChCnt c = cf_uiChCnt conf \<and>
    (\<forall>k s. k < cf_uiChCnt conf \<longrightarrow> mi_sem (nf_mems s) = sem' \<longrightarrow>
       (case cf_stCHANCONF conf ! unat k of cc \<Rightarrow>
          cifo_rep k (unat (cc_uiCellCnt cc)) (unat (cc_uiWBuffCnt cc)) (unat (cc_uiRBuffCnt cc)) (s, c)
            \<lparr>cq_cells = [], cq_pend = [], cq_n = 0\<rparr> []))"
proof -
  obtain c sem' where c: "cifo_fresh os sem conf raw = Some (c, sem')" "ci_uiChCnt c = cf_uiChCnt conf" "cifo_layout c"
    "length (ci_stCHAN c) = MAX_CHAN_CNT"
    "\<forall>i < unat (cf_uiChCnt conf). \<exists>start. chanconf_ok os sem (cf_stCHANCONF conf ! i) \<and>
       chan_new sem' (cf_stCHANCONF conf ! i) start (ci_stCHAN c ! i)"
    using cifo_fresh_ok [OF assms(1,4)] by blast
  have cnt: "unat (cf_uiChCnt conf) \<le> MAX_CHAN_CNT" using assms(1) by (simp add: cifo_conf_ok_def)
  have "cifo_rep k (unat (cc_uiCellCnt cc)) (unat (cc_uiWBuffCnt cc)) (unat (cc_uiRBuffCnt cc)) (s, c)
      \<lparr>cq_cells = [], cq_pend = [], cq_n = 0\<rparr> []"
    if k: "k < cf_uiChCnt conf" and s: "mi_sem (nf_mems s) = sem'" and cc: "cc = cf_stCHANCONF conf ! unat k" for k s cc
  proof -
    have lt: "unat k < unat (cf_uiChCnt conf)" using k by (simp add: word_less_nat_alt)
    obtain start where "chanconf_ok os sem cc" "chan_new sem' cc start (ci_stCHAN c ! unat k)"
      using c(5) lt cc by blast
    from cifo_new_rep [OF this _ _ s] show ?thesis using k lt cnt c(2,4) by simp
  qed
  moreover have "cifo_init os sem conf = Some (Some (c, sem'))"
    using assms c(1) by (simp add: cifo_init_def cifo_conf_ok_def)
  ultimately show ?thesis using c(2,3) by (intro exI [of _ c] exI [of _ sem']) simp
qed

theorem cifo_init_ok_witness:
  "\<exists>c sem'. cifo_init cifo_demo_os (\<lambda>_. 0) cifo_demo_conf = Some (Some (c, sem')) \<and>
     cifo_rep 0 3 2 2 (cifo_demo_nifo sem', c) \<lparr>cq_cells = [], cq_pend = [], cq_n = 0\<rparr> []"
proof -
  obtain raw where raw: "co_shmget cifo_demo_os = CShmNew raw" "co_shmat cifo_demo_os"
    "ci_stCHAN raw = replicate MAX_CHAN_CNT chan_zero"
    using cifo_demo_raw by blast
  from cifo_init_ok [OF cifo_demo_ok raw] obtain c sem' where
    "cifo_init cifo_demo_os (\<lambda>_. 0) cifo_demo_conf = Some (Some (c, sem'))"
    "\<forall>k s. k < 1 \<longrightarrow> mi_sem (nf_mems s) = sem' \<longrightarrow>
       (case cf_stCHANCONF cifo_demo_conf ! unat k of cc \<Rightarrow>
          cifo_rep k (unat (cc_uiCellCnt cc)) (unat (cc_uiWBuffCnt cc)) (unat (cc_uiRBuffCnt cc)) (s, c)
            \<lparr>cq_cells = [], cq_pend = [], cq_n = 0\<rparr> [])"
    by (auto simp: cifo_demo_conf_def)
  moreover have "mi_sem (nf_mems (cifo_demo_nifo sem')) = sem'" by (simp add: cifo_demo_nifo_def)
  ultimately show ?thesis by (force simp: cifo_demo_conf_def)
qed

lemma cifo_demo_init:
  obtains c sem' where "cifo_init cifo_demo_os (\<lambda>_. 0) cifo_demo_conf = Some (Some (c, sem'))"
    "cifo_rep 0 3 2 2 (cifo_demo_nifo sem', c) \<lparr>cq_cells = [], cq_pend = [], cq_n = 0\<rparr> []"
proof -
  obtain raw where raw: "co_shmget cifo_demo_os = CShmNew raw" "co_shmat cifo_demo_os"
    "ci_stCHAN raw = replicate MAX_CHAN_CNT chan_zero"
    using cifo_demo_raw by blast
  obtain c sem' where c: "cifo_fresh cifo_demo_os (\<lambda>_. 0) cifo_demo_conf raw = Some (c, sem')"
    "ci_uiChCnt c = cf_uiChCnt cifo_demo_conf" "length (ci_stCHAN c) = MAX_CHAN_CNT"
    "\<forall>i < unat (cf_uiChCnt cifo_demo_conf). \<exists>start. chanconf_ok cifo_demo_os (\<lambda>_. 0) (cf_stCHANCONF cifo_demo_conf ! i) \<and>
       chan_new sem' (cf_stCHANCONF cifo_demo_conf ! i) start (ci_stCHAN c ! i)"
    using cifo_fresh_ok [OF cifo_demo_ok raw(3)] by blast
  have init: "cifo_init cifo_demo_os (\<lambda>_. 0) cifo_demo_conf = Some (Some (c, sem'))"
    using raw cifo_demo_ok c(1) by (simp add: cifo_init_def cifo_conf_ok_def)
  let ?cc = "cf_stCHANCONF cifo_demo_conf ! 0"
  obtain start where n: "chanconf_ok cifo_demo_os (\<lambda>_. 0) ?cc" "chan_new sem' ?cc start (ci_stCHAN c ! unat (0 :: u32))"
    using c(4) by (auto simp: cifo_demo_conf_def)
  have "cifo_rep 0 (unat (cc_uiCellCnt ?cc)) (unat (cc_uiWBuffCnt ?cc)) (unat (cc_uiRBuffCnt ?cc))
      (cifo_demo_nifo sem', c) \<lparr>cq_cells = [], cq_pend = [], cq_n = 0\<rparr> []"
    by (rule cifo_new_rep [OF n]) (use c(2,3) in \<open>simp_all add: cifo_demo_conf_def cifo_demo_nifo_def MAX_CHAN_CNT_def\<close>)
  then show ?thesis using that [OF init] by (simp add: cifo_demo_conf_def)
qed

theorem cifo_fifo_witness:
  "\<exists>c sem' st'. cifo_init cifo_demo_os (\<lambda>_. 0) cifo_demo_conf = Some (Some (c, sem')) \<and>
     chan_impl_run (cifo_put_call 0) (cifo_get_call 0) (cifo_demo_nifo sem', c)
       [CPut [1], CGet, CPut [201], CPut [401], CGet] = Some (st', [1, 0, 1, 1, 1])"
proof -
  obtain c sem' where c: "cifo_init cifo_demo_os (\<lambda>_. 0) cifo_demo_conf = Some (Some (c, sem'))"
    "cifo_rep 0 3 2 2 (cifo_demo_nifo sem', c) \<lparr>cq_cells = [], cq_pend = [], cq_n = 0\<rparr> []"
    by (rule cifo_demo_init)
  let ?cs = "[CPut [1], CGet, CPut [201], CPut [401], CGet]"
  have rep: "cifo_rep 0 3 2 2 (cifo_demo_nifo sem', c) \<lparr>cq_cells = [], cq_pend = [], cq_n = 0\<rparr> (chan_puts ?cs)"
    by (rule cifo_rep_fut [OF c(2)]) (simp_all add: cifo_demo_rings chan_content_def)
  have run: "chan_run 3 2 2 \<lparr>cq_cells = [], cq_pend = [], cq_n = 0\<rparr> ?cs =
      (\<lparr>cq_cells = [], cq_pend = [401], cq_n = 1\<rparr>, [1, 0, 1, 1, 1], [1, 201, 401], [1, 201])"
    by (simp add: chan_put_def chan_get_def chan_taken_def)
  from cifo_fifo [OF rep run] show ?thesis using c(1) by blast
qed

text \<open>A read takes the messages of the first \<open>uiRBuffCnt\<close> cells, links them into one ring in their order,
  answers its first node, or NULL when the channel has no filled cell, and leaves the rest.\<close>

theorem cifo_read_joins:
  assumes "cifo_rep k cap wb rb (s, c) q []"
  shows "\<exists>s' c'. cifo_read s c k = Some (s', c', if chan_taken rb q = [] then 0 else hd (chan_taken rb q)) \<and>
    (chan_taken rb q \<noteq> [] \<longrightarrow> nont_ring s' (chan_taken rb q)) \<and>
    cifo_rep k cap wb rb (s', c') (q\<lparr>cq_cells := drop rb (cq_cells q)\<rparr>) []"
proof -
  obtain st' where st: "cifo_get_call k (s, c) = Some (st', if chan_taken rb q = [] then 0 else hd (chan_taken rb q))"
    "cifo_rep k cap wb rb st' (q\<lparr>cq_cells := drop rb (cq_cells q)\<rparr>) []"
    "chan_taken rb q \<noteq> [] \<longrightarrow> nont_ring (fst st') (chan_taken rb q)"
    using cifo_get_ok [OF assms, of "q\<lparr>cq_cells := drop rb (cq_cells q)\<rparr>" "if chan_taken rb q = [] then 0 else hd (chan_taken rb q)"]
    unfolding chan_get_def by blast
  obtain s' c' where e: "st' = (s', c')" by fastforce
  have "cifo_read s c k = Some (s', c', if chan_taken rb q = [] then 0 else hd (chan_taken rb q))"
    using st(1) unfolding cifo_get_call_def e by (auto split: bind_splits)
  then show ?thesis using st(2,3) unfolding e by auto
qed

theorem cifo_read_joins_witness:
  "\<exists>c sem' s' c'. cifo_init cifo_demo_os (\<lambda>_. 0) cifo_demo_conf = Some (Some (c, sem')) \<and>
     cifo_read (cifo_demo_nifo sem') c 0 = Some (s', c', 0)"
proof -
  obtain c sem' where c: "cifo_init cifo_demo_os (\<lambda>_. 0) cifo_demo_conf = Some (Some (c, sem'))"
    "cifo_rep 0 3 2 2 (cifo_demo_nifo sem', c) \<lparr>cq_cells = [], cq_pend = [], cq_n = 0\<rparr> []"
    by (rule cifo_demo_init)
  from cifo_read_joins [OF c(2)] show ?thesis using c(1) by (auto simp: chan_taken_def)
qed

text \<open>C30: The read semaphore of a configuration has no effect: on a block that \<open>cifo_init\<close> builds in a new
  segment, after any calls of \<open>cifo_write\<close>, \<open>cifo_read\<close> and \<open>cifo_set_buffcnt\<close> by any users and whatever
  happens to the nodes and semaphores between them, a read of any channel runs its loop with no
  operation on a semaphore, whatever \<open>uiRSemFlag\<close> the configuration asks for: the flag is never copied
  into the channel, and no call sets it.\<close>

theorem cifo_read_unlocked:
  assumes "cifo_init os sem conf = Some (Some (c0, sem'))" "co_shmget os = CShmNew raw"
    "ci_stCHAN raw = replicate MAX_CHAN_CNT chan_zero" "rtranclp cifo_step (s0, c0) (s, c)" "k < ci_uiChCnt c"
  shows "cifo_read s c k = do {
     ch \<leftarrow> cifo_chan c k;
     (s2, ch2, pHead) \<leftarrow> cifo_read_loop (unat (ch_uiRBuffCnt ch)) s (ci_mem c) (ch_wCellPos ch) ch 0;
     Some (s2, cifo_set_chan c k ch2, pHead)
   }"
proof -
  have "cifo_read_free c" using cifo_steps_free [OF assms(4)] cifo_init_free [OF assms(1-3)] by simp
  then show ?thesis by (rule cifo_read_without_lock [OF _ assms(5)])
qed

text \<open>Two writes fill a cell of a channel whose configuration asks for the read semaphore; with every
  semaphore at 0 the read still answers the message.\<close>

theorem cifo_read_unlocked_witness:
  "\<exists>c0 sem' s1 c1 s2 c2 s3 c3. cifo_init cifo_demo_os (\<lambda>_. 0) cifo_demo_conf = Some (Some (c0, sem')) \<and>
     cc_uiRSemFlag (cf_stCHANCONF cifo_demo_conf ! 0) = MEMS_SEMA_ON \<and>
     cifo_write (cifo_demo_nifo sem') c0 0 1 = Some (s1, c1, 1) \<and> cifo_write s1 c1 0 201 = Some (s2, c2, 1) \<and>
     cifo_read (s2\<lparr>nf_mems := (nf_mems s2)\<lparr>mi_sem := (\<lambda>_. 0)\<rparr>\<rparr>) c2 0 = Some (s3, c3, 1)"
proof -
  obtain c0 sem' where c: "cifo_init cifo_demo_os (\<lambda>_. 0) cifo_demo_conf = Some (Some (c0, sem'))"
    "cifo_rep 0 3 2 2 (cifo_demo_nifo sem', c0) \<lparr>cq_cells = [], cq_pend = [], cq_n = 0\<rparr> []"
    by (rule cifo_demo_init)
  obtain raw where raw: "co_shmget cifo_demo_os = CShmNew raw" "co_shmat cifo_demo_os"
    "ci_stCHAN raw = replicate MAX_CHAN_CNT chan_zero"
    using cifo_demo_raw by blast
  have rep0: "cifo_rep 0 3 2 2 (cifo_demo_nifo sem', c0) \<lparr>cq_cells = [], cq_pend = [], cq_n = 0\<rparr> [[1], [201]]"
    by (rule cifo_rep_fut [OF c(2)]) (simp_all add: cifo_demo_rings chan_content_def)
  have put1: "chan_put 3 2 \<lparr>cq_cells = [], cq_pend = [], cq_n = 0\<rparr> [1] = (\<lparr>cq_cells = [], cq_pend = [1], cq_n = 1\<rparr>, 1)"
    and put2: "chan_put 3 2 \<lparr>cq_cells = [], cq_pend = [1], cq_n = 1\<rparr> [201] = (\<lparr>cq_cells = [[1, 201]], cq_pend = [], cq_n = 0\<rparr>, 1)"
    by (simp_all add: chan_put_def)
  obtain s1 c1 where 1: "cifo_put_call 0 (cifo_demo_nifo sem', c0) 1 = Some ((s1, c1), 1)"
    "cifo_rep 0 3 2 2 (s1, c1) \<lparr>cq_cells = [], cq_pend = [1], cq_n = 1\<rparr> [[201]]"
    using cifo_put_ok [OF rep0 put1] by auto
  obtain s2 c2 where 2: "cifo_put_call 0 (s1, c1) 201 = Some ((s2, c2), 1)"
    "cifo_rep 0 3 2 2 (s2, c2) \<lparr>cq_cells = [[1, 201]], cq_pend = [], cq_n = 0\<rparr> []"
    using cifo_put_ok [OF 1(2) put2] by auto
  have w: "cifo_write (cifo_demo_nifo sem') c0 0 1 = Some (s1, c1, 1)" "cifo_write s1 c1 0 201 = Some (s2, c2, 1)"
    using 1(1) 2(1) by (auto simp: cifo_put_call_def split: bind_splits)
  let ?s = "s2\<lparr>nf_mems := (nf_mems s2)\<lparr>mi_sem := (\<lambda>_. 0)\<rparr>\<rparr>" and ?q = "\<lparr>cq_cells = [[1, 201]], cq_pend = [], cq_n = 0\<rparr>"
  have run: "rtranclp cifo_step (cifo_demo_nifo sem', c0) (?s, c2)"
    using cifo_step.put [OF w(1)] cifo_step.put [OF w(2)] cifo_step.other [of s2 c2 ?s]
    by (meson rtranclp.rtrancl_into_rtrancl rtranclp.rtrancl_refl)
  obtain ch where ch: "cifo_chan c2 0 = Some ch" "chan_rep s2 (ci_mem c2) ch ?q []" "unat (ch_uiRBuffCnt ch) = 2"
    and k: "0 < ci_uiChCnt c2" using 2(2) by (auto simp: cifo_rep_def)
  have rep: "chan_rep ?s (ci_mem c2) ch ?q []" using ch(2) chan_rep_link [of ?s s2] by simp
  have dist: "distinct ([] @ chan_content ?q @ concat [])" by (simp add: chan_content_def)
  obtain h ch' where r: "cifo_read_loop 2 ?s (ci_mem c2) (ch_wCellPos ch) ch 0 = Some (?s\<lparr>nf_link := h\<rparr>, ch', 1)"
    using cifo_read_loop_rep [OF rep, of "[]" 2] dist by (auto simp: chan_taken_def)
  have "cifo_read ?s c2 0 = Some (?s\<lparr>nf_link := h\<rparr>, cifo_set_chan c2 0 ch', 1)"
    using cifo_read_unlocked [OF c(1) raw(1,3) run k] ch(1,3) r by simp
  moreover have "cc_uiRSemFlag (cf_stCHANCONF cifo_demo_conf ! 0) = MEMS_SEMA_ON"
    by (simp add: cifo_demo_conf_def MEMS_SEMA_ON_def)
  ultimately show ?thesis using c(1) w by blast
qed

end
