(* ===== verification/GifoProps.thy ===== *)
theory GifoProps
  imports CifoProps
begin

text \<open>
  The routing of \<open>gifo\<close> over channels: a read of a group joins what its channels hold, a pair of
  processes with a channel of its own is a message channel, and the check of the configuration.
\<close>

section \<open>Groups of channels\<close>

text \<open>Channels \<open>(k, rb, q)\<close> of one block side by side: channel \<open>k\<close>, with reads of \<open>rb\<close> cells, holds \<open>q\<close>;
  \<open>fut\<close> are messages outside all of them.\<close>

definition chan_rings :: "chanq \<Rightarrow> offset list list" where
  "chan_rings q = cq_cells q @ (if cq_pend q = [] then [] else [cq_pend q])"

type_synonym kqs = "(u32 \<times> nat \<times> chanq) list"

definition group_content :: "kqs \<Rightarrow> offset list" where
  "group_content kqs = concat (map (\<lambda>(k, rb, q). chan_content q) kqs)"

definition group_taken :: "kqs \<Rightarrow> offset list" where
  "group_taken kqs = concat (map (\<lambda>(k, rb, q). chan_taken rb q) kqs)"

definition chan_left :: "u32 \<times> nat \<times> chanq \<Rightarrow> u32 \<times> nat \<times> chanq" where
  "chan_left = (\<lambda>(k, rb, q). (k, rb, q\<lparr>cq_cells := drop rb (cq_cells q)\<rparr>))"

definition group_rep :: "nifo \<Rightarrow> cifo \<Rightarrow> kqs \<Rightarrow> offset list list \<Rightarrow> bool" where
  "group_rep s c kqs fut \<longleftrightarrow> distinct (map fst kqs) \<and>
     (\<forall>(k, rb, q) \<in> set kqs. \<exists>cap wb. cifo_rep k cap wb rb (s, c) q []) \<and> (\<forall>ms \<in> set fut. nont_ring s ms) \<and>
     distinct (group_content kqs @ concat fut) \<and> (\<forall>p \<in> set (concat fut). 0 < p \<and> p < 2 ^ 63)"

lemma group_repD:
  "group_rep s c kqs fut \<Longrightarrow> (k, rb, q) \<in> set kqs \<Longrightarrow> \<exists>cap wb. cifo_rep k cap wb rb (s, c) q []"
  unfolding group_rep_def by blast

lemma concat_chan_rings: "concat (chan_rings q) = chan_content q"
  by (simp add: chan_rings_def chan_content_def)

lemma chan_rep_rings:
  "chan_rep s mem ch q fut \<Longrightarrow> \<forall>b \<in> set (chan_rings q). nont_ring s b"
  by (auto simp: chan_rep_def chan_rings_def)

lemma chan_rep_pos: "chan_rep s mem ch q fut \<Longrightarrow> \<forall>p \<in> set (chan_content q). 0 < p \<and> p < 2 ^ 63"
  by (simp add: chan_rep_def)

text \<open>A channel stays what it is when its messages do.\<close>

lemma chan_rep_move:
  "chan_rep s mem ch q [] \<Longrightarrow> \<forall>b \<in> set (chan_rings q). nont_ring s' b \<Longrightarrow> chan_rep s' mem ch q []"
  by (auto simp: chan_rep_def chan_rings_def)

lemma cifo_rep_move:
  assumes "cifo_rep k cap wb rb (s, c) q []" "\<forall>b \<in> set (chan_rings q). nont_ring (s\<lparr>nf_link := h\<rparr>) b"
    "cifo_chan c' k = cifo_chan c k" "ci_mem c' = ci_mem c" "ci_uiChCnt c' = ci_uiChCnt c"
  shows "cifo_rep k cap wb rb (s\<lparr>nf_link := h\<rparr>, c') q []"
  using assms chan_rep_move [OF _ assms(2)] by (auto simp: cifo_rep_def chan_sem_free_def)

lemma cifo_rep_rings: "cifo_rep k cap wb rb (s, c) q fut \<Longrightarrow> \<forall>b \<in> set (chan_rings q). nont_ring s b"
  "cifo_rep k cap wb rb (s, c) q fut \<Longrightarrow> \<forall>b \<in> set fut. nont_ring s b"
  "cifo_rep k cap wb rb (s, c) q fut \<Longrightarrow> \<forall>p \<in> set (chan_content q). 0 < p \<and> p < 2 ^ 63"
  by (auto simp: cifo_rep_def chan_rep_def chan_rings_def)

lemma cifo_chan_other: "unat k \<noteq> unat j \<Longrightarrow> cifo_chan (cifo_set_chan c k ch) j = cifo_chan c j"
  by (simp add: cifo_chan_def cifo_set_chan_def)

lemma group_content_simps [simp]: "group_content [] = []" "group_content (x # xs) = chan_content (snd (snd x)) @ group_content xs"
  "group_content (xs @ ys) = group_content xs @ group_content ys"
  by (simp_all add: group_content_def split: prod.splits)

lemma concat_group_rings: "concat (concat (map (\<lambda>(k, rb, q). chan_rings q) kqs)) = group_content kqs"
  by (induction kqs) (auto simp: concat_chan_rings)

text \<open>Reading one channel of a group.\<close>

lemma group_read_step:
  assumes "group_rep s c (xs @ (k, rb, q) # ys) fut"
  shows "\<exists>h c'. cifo_read s c k = Some (s\<lparr>nf_link := h\<rparr>, c', if chan_taken rb q = [] then 0 else hd (chan_taken rb q)) \<and>
    group_rep (s\<lparr>nf_link := h\<rparr>) c' (xs @ chan_left (k, rb, q) # ys) ((if chan_taken rb q = [] then [] else [chan_taken rb q]) @ fut)"
proof -
  let ?zs = "xs @ ys" and ?q = "q\<lparr>cq_cells := drop rb (cq_cells q)\<rparr>"
  define rest where "rest = concat (map (\<lambda>(k, rb, q). chan_rings q) ?zs)"
  have rep: "\<exists>cap wb. cifo_rep j cap wb rb' (s, c) q' []" if "(j, rb', q') \<in> set ?zs" for j rb' q'
    using group_repD [OF assms] that by auto
  have fut: "\<forall>ms \<in> set fut. nont_ring s ms" "\<forall>p \<in> set (concat fut). 0 < p \<and> p < 2 ^ 63"
    and keys: "k \<notin> fst ` set ?zs" "distinct (map fst (xs @ (k, rb, q) # ys))"
    and dist: "distinct (group_content (xs @ (k, rb, q) # ys) @ concat fut)"
    using assms by (auto simp: group_rep_def)
  obtain cap wb where k: "cifo_rep k cap wb rb (s, c) q []" using assms by (auto simp: group_rep_def)
  have cr: "concat rest = group_content ?zs"
    unfolding rest_def by (rule concat_group_rings)
  have r1: "\<forall>ms \<in> set (rest @ fut). nont_ring s ms"
  proof
    fix ms assume "ms \<in> set (rest @ fut)"
    then consider "ms \<in> set fut" | j rb' q' where "(j, rb', q') \<in> set ?zs" "ms \<in> set (chan_rings q')"
      by (auto simp: rest_def)
    then show "nont_ring s ms"
    proof cases
      case 2
      then show ?thesis using rep [OF 2(1)] cifo_rep_rings(1) by blast
    qed (use fut(1) in blast)
  qed
  have pos1: "\<forall>p \<in> set (concat (rest @ fut)). 0 < p \<and> p < 2 ^ 63"
  proof
    fix p assume "p \<in> set (concat (rest @ fut))"
    then consider "p \<in> set (concat fut)" | j rb' q' where "(j, rb', q') \<in> set ?zs" "p \<in> set (chan_content q')"
      unfolding concat_append cr by (auto simp: group_content_def)
    then show "0 < p \<and> p < 2 ^ 63"
    proof cases
      case 2
      then show ?thesis using rep [OF 2(1)] cifo_rep_rings(3) by blast
    qed (use fut(2) in blast)
  qed
  have d1: "distinct (chan_content q @ concat (rest @ fut))" using dist unfolding concat_append cr by auto
  have k1: "cifo_rep k cap wb rb (s, c) q (rest @ fut)" by (rule cifo_rep_fut [OF k r1 d1 pos1])
  have g: "chan_get rb q = (?q, if chan_taken rb q = [] then 0 else hd (chan_taken rb q))" by (simp add: chan_get_def)
  obtain h ch' where r: "cifo_read s c k = Some (s\<lparr>nf_link := h\<rparr>, cifo_set_chan c k ch', if chan_taken rb q = [] then 0 else hd (chan_taken rb q))"
    "cifo_rep k cap wb rb (s\<lparr>nf_link := h\<rparr>, cifo_set_chan c k ch') ?q (rest @ fut)"
    "chan_taken rb q \<noteq> [] \<longrightarrow> nont_ring (s\<lparr>nf_link := h\<rparr>) (chan_taken rb q)"
    using cifo_get_run [OF k1 g] by blast
  let ?c = "cifo_set_chan c k ch'" and ?s = "s\<lparr>nf_link := h\<rparr>"
  have split: "chan_content q = chan_taken rb q @ chan_content ?q"
    using chan_step_content [of cap wb rb q CGet] g by simp
  have others: "\<exists>cap wb. cifo_rep j cap wb rb' (?s, ?c) q' []" if j: "(j, rb', q') \<in> set ?zs" for j rb' q'
  proof -
    obtain cap wb where "cifo_rep j cap wb rb' (s, c) q' []" using rep [OF j] by blast
    moreover have "\<forall>b \<in> set (chan_rings q'). nont_ring ?s b"
    proof
      fix b assume "b \<in> set (chan_rings q')"
      then have "b \<in> set rest" unfolding rest_def using j by force
      then show "nont_ring ?s b" using cifo_rep_rings(2) [OF r(2)] by simp
    qed
    moreover have "cifo_chan ?c j = cifo_chan c j"
    proof (rule cifo_chan_other)
      have "k \<noteq> j" using keys(1) j by force
      then show "unat k \<noteq> unat j" by (simp add: word_unat_eq_iff)
    qed
    ultimately have "cifo_rep j cap wb rb' (?s, ?c) q' []" by (intro cifo_rep_move) simp_all
    then show ?thesis by blast
  qed
  have kq: "\<exists>cap wb. cifo_rep k cap wb rb (?s, ?c) ?q []"
    using r(2) by (auto simp: cifo_rep_def chan_rep_def)
  have pt: "\<forall>p \<in> set (chan_taken rb q). 0 < p \<and> p < 2 ^ 63" using cifo_rep_rings(3) [OF k] split by simp
  have "group_rep ?s ?c (xs @ chan_left (k, rb, q) # ys) ((if chan_taken rb q = [] then [] else [chan_taken rb q]) @ fut)"
    unfolding group_rep_def
  proof (intro conjI)
    show "distinct (map fst (xs @ chan_left (k, rb, q) # ys))" using keys(2) by (simp add: chan_left_def)
    show "\<forall>(k', rb', q') \<in> set (xs @ chan_left (k, rb, q) # ys). \<exists>cap wb. cifo_rep k' cap wb rb' (?s, ?c) q' []"
      using others kq by (auto simp: chan_left_def)
    show "\<forall>ms \<in> set ((if chan_taken rb q = [] then [] else [chan_taken rb q]) @ fut). nont_ring ?s ms"
      using r(3) cifo_rep_rings(2) [OF r(2)] by auto
    show "distinct (group_content (xs @ chan_left (k, rb, q) # ys) @ concat ((if chan_taken rb q = [] then [] else [chan_taken rb q]) @ fut))"
      using dist split by (auto simp: chan_left_def)
    show "\<forall>p \<in> set (concat ((if chan_taken rb q = [] then [] else [chan_taken rb q]) @ fut)). 0 < p \<and> p < 2 ^ 63"
      using pt fut(2) by auto
  qed
  then show ?thesis using r(1) by blast
qed

lemma group_rep_splice:
  assumes "group_rep s c kqs (t # os # fut)"
  shows "\<exists>h. nifo_splice_nont s (hd t) (hd os) = Some (s\<lparr>nf_link := h\<rparr>) \<and> group_rep (s\<lparr>nf_link := h\<rparr>) c kqs ((os @ t) # fut)"
proof -
  have r: "nont_ring s os" "nont_ring s t" "set os \<inter> set t = {}" using assms by (auto simp: group_rep_def)
  obtain h where h: "nifo_splice_nont s (hd t) (hd os) = Some (s\<lparr>nf_link := h\<rparr>)" "nont_ring (s\<lparr>nf_link := h\<rparr>) (os @ t)"
    "\<forall>y. y \<notin> set (os @ t) \<longrightarrow> h (y + NONT_OFF) = nf_link s (y + NONT_OFF)"
    using nifo_splice_nont_ok [OF r] by blast
  have keep: "nont_ring (s\<lparr>nf_link := h\<rparr>) b" if b: "nont_ring s b" "set b \<inter> set (os @ t) = {}" for b
    by (rule nont_ring_cong [OF b(1)]) (use h(3) b(2) in auto)
  have "\<exists>cap wb. cifo_rep j cap wb rb (s\<lparr>nf_link := h\<rparr>, c) q []" if j: "(j, rb, q) \<in> set kqs" for j rb q
  proof -
    obtain cap wb where rep: "cifo_rep j cap wb rb (s, c) q []" using assms j unfolding group_rep_def by blast
    have sub: "set (chan_content q) \<subseteq> set (group_content kqs)" using j by (force simp: group_content_def)
    have "nont_ring (s\<lparr>nf_link := h\<rparr>) b" if b: "b \<in> set (chan_rings q)" for b
    proof (rule keep)
      show "nont_ring s b" using cifo_rep_rings(1) [OF rep] b by blast
      have "set b \<subseteq> set (chan_content q)" unfolding concat_chan_rings [symmetric] using b by auto
      then show "set b \<inter> set (os @ t) = {}" using sub assms by (auto simp: group_rep_def)
    qed
    then have "cifo_rep j cap wb rb (s\<lparr>nf_link := h\<rparr>, c) q []" by (intro cifo_rep_move [OF rep]) simp_all
    then show ?thesis by blast
  qed
  moreover have "nont_ring (s\<lparr>nf_link := h\<rparr>) b" if "b \<in> set ((os @ t) # fut)" for b
  proof (cases "b = os @ t")
    case False
    then have b: "b \<in> set fut" using that by simp
    show ?thesis by (rule keep) (use assms b in \<open>auto simp: group_rep_def\<close>)
  qed (use h(2) in simp)
  ultimately have "group_rep (s\<lparr>nf_link := h\<rparr>) c kqs ((os @ t) # fut)"
    using assms unfolding group_rep_def by auto
  then show ?thesis using h(1) by blast
qed

section \<open>Reading a group\<close>

lemma gifo_read_loop_ok:
  assumes "group_rep s c (xs @ ys) (if os = [] then [] else [os])"
  shows "\<exists>h c'. gifo_read_loop (map fst ys) s c (if os = [] then 0 else hd os) =
      Some (s\<lparr>nf_link := h\<rparr>, c', if os @ group_taken ys = [] then 0 else hd (os @ group_taken ys)) \<and>
    group_rep (s\<lparr>nf_link := h\<rparr>) c' (xs @ map chan_left ys) (if os @ group_taken ys = [] then [] else [os @ group_taken ys])"
  using assms
proof (induction ys arbitrary: s c xs os)
  case Nil
  then show ?case by (intro exI [of _ "nf_link s"] exI [of _ c]) (simp add: group_taken_def split: if_splits)
next
  case (Cons y ys)
  obtain k rb q where y: "y = (k, rb, q)" by (cases y)
  let ?t = "chan_taken rb q"
  obtain h c' where r: "cifo_read s c k = Some (s\<lparr>nf_link := h\<rparr>, c', if ?t = [] then 0 else hd ?t)"
    "group_rep (s\<lparr>nf_link := h\<rparr>) c' (xs @ chan_left (k, rb, q) # ys) ((if ?t = [] then [] else [?t]) @ (if os = [] then [] else [os]))"
    using group_read_step [OF Cons.prems [unfolded y]] by blast
  have taken: "group_taken (y # ys) = ?t @ group_taken ys" by (simp add: group_taken_def y)
  have pt: "0 < hd ?t" if "?t \<noteq> []"
    using r(2) that hd_in_set [OF that] by (auto simp: group_rep_def split: if_splits)
  have po: "hd os \<noteq> 0" if "os \<noteq> []"
  proof -
    have "\<forall>p \<in> set os. 0 < p" using Cons.prems that by (simp add: group_rep_def)
    then have "0 < hd os" using hd_in_set [OF that] by blast
    then show ?thesis by simp
  qed
  have assoc: "xs @ chan_left (k, rb, q) # ys = (xs @ [chan_left (k, rb, q)]) @ ys" by simp
  obtain h1 where step: "gifo_read_loop (map fst (y # ys)) s c (if os = [] then 0 else hd os) =
      gifo_read_loop (map fst ys) (s\<lparr>nf_link := h1\<rparr>) c' (if os @ ?t = [] then 0 else hd (os @ ?t))"
    "group_rep (s\<lparr>nf_link := h1\<rparr>) c' ((xs @ [chan_left (k, rb, q)]) @ ys) (if os @ ?t = [] then [] else [os @ ?t])"
  proof (cases "os = [] \<or> ?t = []")
    case True
    show ?thesis by (rule that [of h]) (use r True pt po in \<open>auto simp: y\<close>)
  next
    case False
    then have "group_rep (s\<lparr>nf_link := h\<rparr>) c' (xs @ chan_left (k, rb, q) # ys) [?t, os]" using r(2) by simp
    from group_rep_splice [OF this] obtain h1 where h1:
      "nifo_splice_nont (s\<lparr>nf_link := h\<rparr>) (hd ?t) (hd os) = Some (s\<lparr>nf_link := h1\<rparr>)"
      "group_rep (s\<lparr>nf_link := h1\<rparr>) c' (xs @ chan_left (k, rb, q) # ys) [os @ ?t]"
      by auto
    show ?thesis by (rule that [of h1]) (use r(1) h1 False pt po in \<open>simp_all add: y\<close>)
  qed
  have left: "xs @ map chan_left (y # ys) = (xs @ [chan_left (k, rb, q)]) @ map chan_left ys" by (simp add: y)
  have same: "s\<lparr>nf_link := h1\<rparr>\<lparr>nf_link := h2\<rparr> = s\<lparr>nf_link := h2\<rparr>" for h2 by simp
  from Cons.IH [OF step(2)] show ?case unfolding step(1) taken left same append_assoc .
qed

section \<open>Pairs of processes with a channel of their own\<close>

definition gifo_pair :: "gifo \<Rightarrow> u32 \<Rightarrow> u32 \<Rightarrow> u32 \<Rightarrow> bool" where
  "gifo_pair g w r k \<longleftrightarrow> gifo_matrix g (gifo_index w r) = Some k \<and> unat r < MAX_SEQ_PROC_NUM \<and> unat r < length (gi_uiMatrixGrID g) \<and>
     (case gi_uiMatrixGrID g ! unat r of gid \<Rightarrow> gid \<noteq> INVALID_ID \<and> gid < gi_uiGrCnt g \<and> unat gid < length (gi_stGROUP g) \<and>
        gr_uiChCnt (gi_stGROUP g ! unat gid) = 1 \<and> take 1 (gr_uiChID (gi_stGROUP g ! unat gid)) = [k])"

definition gifo_put_call :: "gifo \<Rightarrow> u32 \<Rightarrow> u32 \<Rightarrow> nifo \<times> cifo \<Rightarrow> offset \<Rightarrow> ((nifo \<times> cifo) \<times> int) option" where
  "gifo_put_call g w r st p = do { (s, c, x) \<leftarrow> gifo_write (fst st) (snd st) g w r p; Some ((s, c), x) }"

definition gifo_get_call :: "gifo \<Rightarrow> u32 \<Rightarrow> nifo \<times> cifo \<Rightarrow> ((nifo \<times> cifo) \<times> int) option" where
  "gifo_get_call g r st = do { (s, c, x) \<leftarrow> gifo_read (fst st) (snd st) g r; Some ((s, c), x) }"

definition gifo_rep :: "gifo \<Rightarrow> u32 \<Rightarrow> u32 \<Rightarrow> u32 \<Rightarrow> nat \<Rightarrow> nat \<Rightarrow> nat \<Rightarrow> nifo \<times> cifo \<Rightarrow> chanq \<Rightarrow> offset list list \<Rightarrow> bool" where
  "gifo_rep g w r k cap wb rb st q fut \<longleftrightarrow> gifo_pair g w r k \<and> cifo_rep k cap wb rb st q fut"

lemma gifo_put_eq: "gifo_pair g w r k \<Longrightarrow> gifo_put_call g w r st p = cifo_put_call k st p"
  by (simp add: gifo_pair_def gifo_put_call_def gifo_write_def cifo_put_call_def)

lemma gifo_read_eq:
  assumes "gifo_pair g w r k"
  shows "gifo_read s c g r = gifo_read_loop [k] s c 0"
proof -
  have "length (take 1 (gr_uiChID (gi_stGROUP g ! unat (gi_uiMatrixGrID g ! unat r)))) = 1"
    using assms by (simp add: gifo_pair_def)
  then show ?thesis using assms by (simp add: gifo_pair_def gifo_read_def Let_def not_le [symmetric] min_def split: if_splits)
qed

lemma gifo_get_ok:
  assumes "gifo_rep g w r k cap wb rb st q fut" "chan_get rb q = (q', x)"
  shows "\<exists>st'. gifo_get_call g r st = Some (st', x) \<and> gifo_rep g w r k cap wb rb st' q' fut"
proof -
  have p: "gifo_pair g w r k" and rep: "cifo_rep k cap wb rb st q fut" using assms(1) by (simp_all add: gifo_rep_def)
  obtain s c where st: "st = (s, c)" by fastforce
  obtain h ch' where run: "cifo_read s c k = Some (s\<lparr>nf_link := h\<rparr>, cifo_set_chan c k ch', x)"
    "cifo_rep k cap wb rb (s\<lparr>nf_link := h\<rparr>, cifo_set_chan c k ch') q' fut"
    using cifo_get_run [OF rep [unfolded st] assms(2)] by blast
  have "0 \<le> x"
  proof (cases "chan_taken rb q = []")
    case False
    have "hd (chan_taken rb q) \<in> set (concat (take rb (cq_cells q)))" using hd_in_set [OF False] by (simp add: chan_taken_def)
    then have "hd (chan_taken rb q) \<in> set (chan_content q)" by (auto simp: chan_content_def dest: in_set_takeD)
    then have "0 < hd (chan_taken rb q)" using cifo_rep_rings(3) [OF rep [unfolded st]] by blast
    then show ?thesis using assms(2) by (auto simp: chan_get_def)
  qed (use assms(2) in \<open>simp add: chan_get_def\<close>)
  then have "gifo_get_call g r st = Some ((s\<lparr>nf_link := h\<rparr>, cifo_set_chan c k ch'), x)"
    using run(1) by (simp add: gifo_get_call_def st gifo_read_eq [OF p])
  then show ?thesis using run(2) p by (simp add: gifo_rep_def)
qed

interpretation gifo_channel: msg_channel "gifo_rep g w r k cap wb rb" "gifo_put_call g w r" "gifo_get_call g r" cap wb rb
  for g w r k cap wb rb
proof (unfold_locales, goal_cases)
  case (1 st q ms fut q' x)
  then have p: "gifo_pair g w r k" and rep: "cifo_rep k cap wb rb st q (ms # fut)" by (simp_all add: gifo_rep_def)
  show ?case unfolding gifo_put_eq [OF p] gifo_rep_def using cifo_put_ok [OF rep 1(2)] p by simp
next
  case (2 st q fut q' x)
  then show ?case by (rule gifo_get_ok)
qed

section \<open>The check of the configuration\<close>

lemma gifo_count_chans_ok:
  assumes "\<forall>ch \<in> set chs. ch = INVALID_ID \<or> unat ch < length cnt" "length cnt \<le> 1000"
  shows "\<exists>cnt'. gifo_count_chans chs cnt = Some cnt' \<and> length cnt' = length cnt \<and>
    (\<forall>i < length cnt. cnt' ! i = cnt ! i + count_list (map unat chs) i)"
  using assms
proof (induction chs arbitrary: cnt)
  case (Cons ch chs)
  show ?case
  proof (cases "ch = INVALID_ID")
    case True
    then have "count_list (map unat (ch # chs)) i = count_list (map unat chs) i" if "i < length cnt" for i
      using that Cons.prems(2) by (simp add: INVALID_ID_def)
    then show ?thesis using Cons.IH [of cnt] Cons.prems True by auto
  next
    case False
    then have lt: "unat ch < length cnt" using Cons.prems(1) by simp
    let ?cnt = "cnt[unat ch := Suc (cnt ! unat ch)]"
    obtain cnt' where "gifo_count_chans chs ?cnt = Some cnt'" "length cnt' = length cnt"
      "\<forall>i < length cnt. cnt' ! i = ?cnt ! i + count_list (map unat chs) i"
      using Cons.IH [of ?cnt] Cons.prems by auto
    then show ?thesis using False lt by (intro exI [of _ cnt']) (auto simp: nth_list_update)
  qed
qed simp

lemma gifo_check_chans_eq:
  "gifo_check_chans conf cnt i d =
     (if \<exists>j < length cnt. 1 < cnt ! j \<and> gifo_chan_flag conf (i + j) \<noteq> MEMS_SEMA_ON then -1 else d)"
proof (induction cnt arbitrary: i d)
  case (Cons c cnt)
  have "(\<exists>j < length (c # cnt). 1 < (c # cnt) ! j \<and> gifo_chan_flag conf (i + j) \<noteq> MEMS_SEMA_ON) \<longleftrightarrow>
      1 < c \<and> gifo_chan_flag conf i \<noteq> MEMS_SEMA_ON \<or>
      (\<exists>j < length cnt. 1 < cnt ! j \<and> gifo_chan_flag conf (Suc i + j) \<noteq> MEMS_SEMA_ON)"
    by (simp only: length_Cons less_Suc_eq_0_disj ex_disj_distrib conj_disj_distribR) auto
  then show ?case using Cons.IH by auto
qed simp

definition gifo_demo :: gifo where
  "gifo_demo = \<lparr>gi_uiGrCnt = 1, gi_stGROUP = [\<lparr>gr_uiGrID = 0, gr_uiChCnt = 1, gr_uiChID = [0]\<rparr>],
     gi_uiMatrixChID = [INVALID_ID, 0], gi_uiMatrixGrID = [INVALID_ID, 0]\<rparr>"

lemma gifo_demo_pair: "gifo_pair gifo_demo 0 1 0"
  by (simp add: gifo_pair_def gifo_demo_def gifo_matrix_def gifo_index_def MAX_SEQ_PROC_NUM_def INVALID_ID_def)

text \<open>Two messages in the channel.\<close>

lemma gifo_demo_written:
  obtains s c where "cifo_rep 0 3 2 2 (s, c) \<lparr>cq_cells = [[1, 201]], cq_pend = [], cq_n = 0\<rparr> []"
proof -
  obtain c sem' where c: "cifo_rep 0 3 2 2 (cifo_demo_nifo sem', c) \<lparr>cq_cells = [], cq_pend = [], cq_n = 0\<rparr> []"
    by (rule cifo_demo_init)
  let ?cs = "[CPut [1], CPut [201]]"
  have rep: "cifo_rep 0 3 2 2 (cifo_demo_nifo sem', c) \<lparr>cq_cells = [], cq_pend = [], cq_n = 0\<rparr> (chan_puts ?cs)"
    by (rule cifo_rep_fut [OF c]) (simp_all add: cifo_demo_rings chan_content_def)
  have run: "chan_run 3 2 2 \<lparr>cq_cells = [], cq_pend = [], cq_n = 0\<rparr> ?cs =
      (\<lparr>cq_cells = [[1, 201]], cq_pend = [], cq_n = 0\<rparr>, [1, 1], [1, 201], [])"
    by (simp add: chan_put_def)
  obtain st where "cifo_rep 0 3 2 2 st \<lparr>cq_cells = [[1, 201]], cq_pend = [], cq_n = 0\<rparr> []"
    using cifo_channel.run_refines [OF rep run] by blast
  then show ?thesis using that by (cases st) simp
qed

section \<open>Properties\<close>

text \<open>C18: A read of a process that belongs to a group takes up to \<open>uiRBuffCnt\<close> cells of every channel of the
  group, joins the messages in the order of the channels, and of the writes within a channel, into one
  ring, answers its first node, or NULL when all are empty, and leaves the rest in the channels.\<close>

theorem gifo_read_group:
  assumes "group_rep s c kqs []" "unat uiRProcID < MAX_SEQ_PROC_NUM" "unat uiRProcID < length (gi_uiMatrixGrID g)"
    "gi_uiMatrixGrID g ! unat uiRProcID = gid" "gid \<noteq> INVALID_ID" "gid < gi_uiGrCnt g" "unat gid < length (gi_stGROUP g)"
    "unat (gr_uiChCnt (gi_stGROUP g ! unat gid)) = length kqs"
    "take (length kqs) (gr_uiChID (gi_stGROUP g ! unat gid)) = map fst kqs"
  shows "\<exists>s' c'. gifo_read s c g uiRProcID = Some (s', c', if group_taken kqs = [] then 0 else hd (group_taken kqs)) \<and>
    (group_taken kqs \<noteq> [] \<longrightarrow> nont_ring s' (group_taken kqs)) \<and>
    group_rep s' c' (map chan_left kqs) (if group_taken kqs = [] then [] else [group_taken kqs])"
proof -
  obtain h c' where r: "gifo_read_loop (map fst kqs) s c 0 =
      Some (s\<lparr>nf_link := h\<rparr>, c', if group_taken kqs = [] then 0 else hd (group_taken kqs))"
    "group_rep (s\<lparr>nf_link := h\<rparr>) c' (map chan_left kqs) (if group_taken kqs = [] then [] else [group_taken kqs])"
    using gifo_read_loop_ok [of s c "[]" kqs "[]", unfolded append_Nil if_P [OF refl], OF assms(1)] by blast
  have len: "length kqs \<le> length (gr_uiChID (gi_stGROUP g ! unat gid))"
    using arg_cong [OF assms(9), of length] by simp
  have "gifo_read s c g uiRProcID = gifo_read_loop (map fst kqs) s c 0"
    using assms(2-9) len by (simp add: gifo_read_def Let_def not_le [symmetric])
  moreover have "group_taken kqs \<noteq> [] \<longrightarrow> nont_ring (s\<lparr>nf_link := h\<rparr>) (group_taken kqs)"
    using r(2) by (auto simp: group_rep_def)
  ultimately show ?thesis using r by auto
qed

theorem gifo_read_group_witness:
  "\<exists>s c s' c'. cifo_rep 0 3 2 2 (s, c) \<lparr>cq_cells = [[1, 201]], cq_pend = [], cq_n = 0\<rparr> [] \<and>
     gifo_read s c gifo_demo 1 = Some (s', c', 1) \<and> nont_ring s' [1, 201]"
proof -
  obtain s c where sc: "cifo_rep 0 3 2 2 (s, c) \<lparr>cq_cells = [[1, 201]], cq_pend = [], cq_n = 0\<rparr> []"
    by (rule gifo_demo_written)
  let ?kqs = "[(0, 2, \<lparr>cq_cells = [[1, 201]], cq_pend = [], cq_n = 0\<rparr>)] :: kqs"
  have rep: "group_rep s c ?kqs []" using sc by (auto simp: group_rep_def chan_content_def)
  have taken: "group_taken ?kqs = [1, 201]" by (simp add: group_taken_def chan_taken_def)
  have g: "unat (1 :: u32) < MAX_SEQ_PROC_NUM" "unat (1 :: u32) < length (gi_uiMatrixGrID gifo_demo)"
    "gi_uiMatrixGrID gifo_demo ! unat (1 :: u32) = 0" "0 \<noteq> INVALID_ID" "0 < gi_uiGrCnt gifo_demo"
    "unat (0 :: u32) < length (gi_stGROUP gifo_demo)"
    "unat (gr_uiChCnt (gi_stGROUP gifo_demo ! unat (0 :: u32))) = length ?kqs"
    "take (length ?kqs) (gr_uiChID (gi_stGROUP gifo_demo ! unat (0 :: u32))) = map fst ?kqs"
    by (simp_all add: gifo_demo_def MAX_SEQ_PROC_NUM_def INVALID_ID_def)
  from gifo_read_group [OF rep g] show ?thesis using sc unfolding taken by auto
qed

text \<open>C31: For a writing process and a reading process with a channel of their own, \<open>gifo_write\<close> and
  \<open>gifo_read\<close> behave, over any sequence of calls, as one first-in first-out queue of batches.\<close>

theorem gifo_fifo:
  assumes "gifo_rep g w r k cap wb rb st q (chan_puts cs)" "chan_run cap wb rb q cs = (q', rs, ins, outs)"
  shows "(\<exists>st'. chan_impl_run (gifo_put_call g w r) (gifo_get_call g r) st cs = Some (st', rs) \<and>
      gifo_rep g w r k cap wb rb st' q' []) \<and> outs @ chan_content q' = chan_content q @ ins"
  using gifo_channel.run_refines [OF assms] chan_run_fifo [OF assms(2)] by blast

theorem gifo_fifo_witness:
  "\<exists>s c st'. cifo_rep 0 3 2 2 (s, c) \<lparr>cq_cells = [[1, 201]], cq_pend = [], cq_n = 0\<rparr> [] \<and>
     chan_impl_run (gifo_put_call gifo_demo 0 1) (gifo_get_call gifo_demo 1) (s, c) [CGet, CGet] = Some (st', [1, 0])"
proof -
  obtain s c where sc: "cifo_rep 0 3 2 2 (s, c) \<lparr>cq_cells = [[1, 201]], cq_pend = [], cq_n = 0\<rparr> []"
    by (rule gifo_demo_written)
  have rep: "gifo_rep gifo_demo 0 1 0 3 2 2 (s, c) \<lparr>cq_cells = [[1, 201]], cq_pend = [], cq_n = 0\<rparr> (chan_puts [CGet, CGet])"
    using sc gifo_demo_pair by (simp add: gifo_rep_def)
  have run: "chan_run 3 2 2 \<lparr>cq_cells = [[1, 201]], cq_pend = [], cq_n = 0\<rparr> [CGet, CGet] =
      (\<lparr>cq_cells = [], cq_pend = [], cq_n = 0\<rparr>, [1, 0], [], [1, 201])"
    by (simp add: chan_get_def chan_taken_def)
  from gifo_fifo [OF rep run] show ?thesis using sc by blast
qed

text \<open>\<open>gifo_conf_check\<close> accepts a configuration exactly when every channel that more than one pair of
  processes writes to has its write semaphore switched on.\<close>

theorem gifo_conf_check_correct:
  assumes "\<forall>ch \<in> set (gi_uiMatrixChID g). ch = INVALID_ID \<or> unat ch < MAX_CHAN_CNT"
  shows "gifo_conf_check g conf = Some (if \<forall>i < MAX_CHAN_CNT. 1 < count_list (map unat (gi_uiMatrixChID g)) i \<longrightarrow>
    gifo_chan_flag conf i = MEMS_SEMA_ON then 0 else -1)"
proof -
  obtain cnt where "gifo_count_chans (gi_uiMatrixChID g) (replicate MAX_CHAN_CNT 0) = Some cnt" "length cnt = MAX_CHAN_CNT"
    "\<forall>i < MAX_CHAN_CNT. cnt ! i = count_list (map unat (gi_uiMatrixChID g)) i"
    using gifo_count_chans_ok [of "gi_uiMatrixChID g" "replicate MAX_CHAN_CNT 0"] assms by (auto simp: MAX_CHAN_CNT_def)
  then show ?thesis by (auto simp: gifo_conf_check_def gifo_check_chans_eq)
qed

theorem gifo_conf_check_correct_witness: "gifo_conf_check gifo_demo cifo_demo_conf = Some 0"
proof -
  have "\<forall>ch \<in> set (gi_uiMatrixChID gifo_demo). ch = INVALID_ID \<or> unat ch < MAX_CHAN_CNT"
    by (simp add: gifo_demo_def MAX_CHAN_CNT_def)
  moreover have "\<not> 1 < count_list (map unat (gi_uiMatrixChID gifo_demo)) i" for i
    by (simp add: gifo_demo_def INVALID_ID_def)
  ultimately show ?thesis using gifo_conf_check_correct [of gifo_demo cifo_demo_conf] by simp
qed

end
