(* ===== verification/NifoBatch.thy ===== *)
theory NifoBatch
  imports NifoMsg "HOL-Library.Multiset"
begin

text \<open>
  Lists of messages. Every list links the first nodes of its messages by \<open>nont\<close>, every message its
  nodes by \<open>cont\<close>; the operations of \<open>nifo.c\<close> move messages between lists or release them.
\<close>

abbreviation nont_of :: "offset list \<Rightarrow> offset" where "nont_of c \<equiv> hd c + NONT_OFF"

definition nifo_lists :: "nifo \<Rightarrow> offset list list list \<Rightarrow> bool" where
  "nifo_lists s css \<longleftrightarrow> mems_wf (nf_mems s) \<and>
     (\<forall>cs \<in> set css. cs \<noteq> [] \<longrightarrow> cring (nf_link s) (map nont_of cs)) \<and>
     (\<forall>c \<in> set (concat css). cring (nf_link s) (map (\<lambda>p. p + CONT_OFF) c)) \<and>
     distinct (concat (concat css)) \<and> set (concat (concat css)) \<subseteq> nifo_used (nf_mems s) \<and>
     (\<forall>p \<in> set (concat (concat css)). \<forall>q \<in> set (concat (concat css)). p + NONT_OFF \<noteq> q + CONT_OFF)"

lemma nifo_listsD:
  assumes "nifo_lists s css"
  shows "mems_wf (nf_mems s)" "\<And>cs. cs \<in> set css \<Longrightarrow> cs \<noteq> [] \<Longrightarrow> cring (nf_link s) (map nont_of cs)"
    "\<And>c. c \<in> set (concat css) \<Longrightarrow> cring (nf_link s) (map (\<lambda>p. p + CONT_OFF) c)"
    "distinct (concat (concat css))" "set (concat (concat css)) \<subseteq> nifo_used (nf_mems s)"
    "\<And>p q. p \<in> set (concat (concat css)) \<Longrightarrow> q \<in> set (concat (concat css)) \<Longrightarrow> p + NONT_OFF \<noteq> q + CONT_OFF"
  using assms unfolding nifo_lists_def by (simp, blast, blast, simp, simp, blast)

lemma nifo_lists_ne: "nifo_lists s css \<Longrightarrow> c \<in> set (concat css) \<Longrightarrow> c \<noteq> []"
  using nifo_listsD(3) [of s css c] by auto

lemma hd_in_concat: "c \<in> set cs \<Longrightarrow> c \<noteq> [] \<Longrightarrow> hd c \<in> set (concat cs)"
  using hd_in_set [of c] unfolding set_concat by blast

lemma nifo_lists_hd: "nifo_lists s css \<Longrightarrow> c \<in> set (concat css) \<Longrightarrow> hd c \<in> set (concat (concat css))"
  by (rule hd_in_concat) (assumption, rule nifo_lists_ne)

lemma nifo_lists_heads:
  assumes "nifo_lists s css" "c \<in> set (concat css)" "d \<in> set (concat css)" "hd c = hd d"
  shows "c = d"
proof (rule ccontr)
  assume ne: "c \<noteq> d"
  have "hd c \<in> set c" "hd c \<in> set d"
    using nifo_lists_ne [OF assms(1,2)] nifo_lists_ne [OF assms(1,3)] assms(4) hd_in_set by metis+
  moreover have "set c \<inter> set d = {}"
    using nifo_listsD(4) [OF assms(1)] assms(2,3) ne unfolding distinct_concat_iff by blast
  ultimately show False by blast
qed

lemma nifo_lists_perm:
  assumes "nifo_lists s css" "set css' \<subseteq> set css" "distinct (concat (concat css'))"
  shows "nifo_lists s css'"
proof -
  have "set (concat css') \<subseteq> set (concat css)" "set (concat (concat css')) \<subseteq> set (concat (concat css))"
    using assms(2) by auto
  note sub = this subsetD [OF this(1)] subsetD [OF this(2)] subsetD [OF assms(2)]
  note L = nifo_listsD [OF assms(1)]
  show ?thesis
    unfolding nifo_lists_def
    using L(1) L(2) [OF sub(5)] L(3) [OF sub(3)] assms(3) subset_trans [OF sub(2) L(5)] L(6) [OF sub(4) sub(4)]
    by (intro conjI ballI impI) assumption+
qed

text \<open>A step that links the messages of the lists \<open>xss\<close> anew.\<close>

lemma nifo_lists_relink:
  assumes "nifo_lists s (xss @ rest)" "set (concat yss) = set (concat xss)" "distinct (concat (concat (yss @ rest)))"
    "\<And>cs. cs \<in> set yss \<Longrightarrow> cs \<noteq> [] \<Longrightarrow> cring h (map nont_of cs)"
    "\<And>y. y \<notin> nont_of ` set (concat xss) \<Longrightarrow> h y = nf_link s y"
  shows "nifo_lists (s\<lparr>nf_link := h\<rparr>) (yss @ rest)"
proof -
  note L = nifo_listsD [OF assms(1)]
  have all: "set (concat (concat (yss @ rest))) = set (concat (concat (xss @ rest)))"
    using assms(2) by auto
  have sub: "nont_of ` set (concat xss) \<subseteq> nont_of ` set (concat (xss @ rest))" by auto
  show ?thesis
    unfolding nifo_lists_def
  proof (intro conjI ballI impI)
    fix cs assume cs: "cs \<in> set (yss @ rest)" "cs \<noteq> []"
    show "cring (nf_link (s\<lparr>nf_link := h\<rparr>)) (map nont_of cs)"
    proof (cases "cs \<in> set yss")
      case False
      then have r: "cs \<in> set rest" using cs by simp
      have "cring (nf_link s) (map nont_of cs)" by (rule L(2)) (use r cs in auto)
      then show ?thesis
      proof (rule cring_cong)
        fix y assume "y \<in> set (map nont_of cs)"
        then obtain c where c: "c \<in> set cs" "y = nont_of c" by auto
        have "y \<notin> nont_of ` set (concat xss)"
        proof
          assume "y \<in> nont_of ` set (concat xss)"
          then obtain d where d: "d \<in> set (concat xss)" "hd d = hd c" unfolding c(2) by (elim imageE) simp
          have "d = c" by (rule nifo_lists_heads [OF assms(1)]) (use d c r in auto)
          have cc: "c \<noteq> []" by (rule nifo_lists_ne [OF assms(1)]) (use c r in auto)
          have "set (concat (concat xss)) \<inter> set (concat (concat rest)) = {}" using L(4) by simp
          moreover have "hd c \<in> set (concat (concat xss))" using d \<open>d = c\<close> cc by (intro hd_in_concat) simp_all
          moreover have "hd c \<in> set (concat (concat rest))" using c r cc by (intro hd_in_concat) auto
          ultimately show False by blast
        qed
        then show "nf_link (s\<lparr>nf_link := h\<rparr>) y = nf_link s y" using assms(5) by simp
      qed
    qed (use assms(4) cs in simp)
  next
    fix c assume c: "c \<in> set (concat (yss @ rest))"
    then have c': "c \<in> set (concat (xss @ rest))" using assms(2) by auto
    show "cring (nf_link (s\<lparr>nf_link := h\<rparr>)) (map (\<lambda>p. p + CONT_OFF) c)"
    proof (rule cring_cong [OF L(3) [OF c']])
      fix y assume "y \<in> set (map (\<lambda>p. p + CONT_OFF) c)"
      then obtain p where p: "p \<in> set c" "y = p + CONT_OFF" by auto
      have "y \<notin> nont_of ` set (concat xss)"
      proof
        assume "y \<in> nont_of ` set (concat xss)"
        then obtain d where d: "d \<in> set (concat xss)" "y = hd d + NONT_OFF" by auto
        have "hd d \<in> set (concat (concat (xss @ rest)))"
          by (rule nifo_lists_hd [OF assms(1)]) (use d in auto)
        moreover have "p \<in> set (concat (concat (xss @ rest)))" using p(1) c' by auto
        ultimately show False using L(6) d(2) p(2) by metis
      qed
      then show "nf_link (s\<lparr>nf_link := h\<rparr>) y = nf_link s y" using assms(5) by simp
    qed
  next
    show "set (concat (concat (yss @ rest))) \<subseteq> nifo_used (nf_mems (s\<lparr>nf_link := h\<rparr>))"
      unfolding all using L(5) by simp
    show "p + NONT_OFF \<noteq> q + CONT_OFF"
      if "p \<in> set (concat (concat (yss @ rest)))" "q \<in> set (concat (concat (yss @ rest)))" for p q
      using L(6) that unfolding all .
  qed (simp add: L(1), rule assms(3))
qed

section \<open>Moving messages\<close>

lemma nifo_lists_rotate: "nifo_lists s ((xs @ ys) # rest) \<Longrightarrow> nifo_lists s ((ys @ xs) # rest)"
proof -
  assume a: "nifo_lists s ((xs @ ys) # rest)"
  have "xs @ ys \<noteq> [] \<Longrightarrow> cring (nf_link s) (map nont_of (xs @ ys))" by (rule nifo_listsD(2) [OF a]) simp
  then have "ys @ xs \<noteq> [] \<Longrightarrow> cring (nf_link s) (map nont_of (ys @ xs))"
    using cring_rotate [of "nf_link s" "map nont_of xs" "map nont_of ys"] by auto
  moreover have "distinct (concat (concat [ys @ xs]) @ concat (concat rest))"
    using nifo_listsD(4) [OF a] by (simp add: Int_commute) blast
  ultimately have "nifo_lists (s\<lparr>nf_link := nf_link s\<rparr>) ([ys @ xs] @ rest)"
    using a by (intro nifo_lists_relink [where xss = "[xs @ ys]"]) auto
  then show ?thesis by simp
qed

lemma nifo_lists_disjoint:
  assumes "nifo_lists s (cs # ds # rest)"
  shows "nont_of ` set cs \<inter> nont_of ` set ds = {}"
proof (rule ccontr)
  assume "nont_of ` set cs \<inter> nont_of ` set ds \<noteq> {}"
  then obtain c d where cd: "c \<in> set cs" "d \<in> set ds" "hd c = hd d" by auto
  have eq: "c = d" by (rule nifo_lists_heads [OF assms]) (use cd in simp_all)
  have "c \<noteq> []" by (rule nifo_lists_ne [OF assms]) (use cd in simp)
  then have "hd c \<in> set (concat cs)" "hd c \<in> set (concat ds)"
    using hd_in_concat [of c cs] hd_in_concat [of c ds] cd eq by simp_all
  moreover have "set (concat cs) \<inter> set (concat ds) = {}" using nifo_listsD(4) [OF assms] by auto
  ultimately show False by blast
qed

lemma nifo_lists_dom:
  assumes "nifo_lists s (cs # rest)" "c \<in> set cs"
  shows "nont_of c \<in> dom (nf_link s)"
proof -
  have "cring (nf_link s) (map nont_of cs)" by (rule nifo_listsD(2) [OF assms(1)]) (use assms(2) in auto)
  from cring_dom [OF this] show ?thesis using assms(2) by auto
qed

text \<open>A new message before the first one becomes the first or the last of the ring: both are the same.\<close>

lemma nifo_link_nont_prev_ok:
  assumes "nifo_lists s ((c # ys) # [n] # rest)"
  shows "\<exists>h. nifo_node_link_nont_prev s (hd c) (hd n) = Some (s\<lparr>nf_link := h\<rparr>) \<and>
    nifo_lists (s\<lparr>nf_link := h\<rparr>) ((n # c # ys) # rest)"
proof -
  have ring: "cring (nf_link s) (nont_of c # map nont_of ys)"
    using nifo_listsD(2) [OF assms, of "c # ys"] by simp
  have fresh: "nont_of n \<notin> set (nont_of c # map nont_of ys)" using nifo_lists_disjoint [OF assms] by auto
  have "nifo_lists s ([n] # (c # ys) # rest)" by (rule nifo_lists_perm [OF assms]) (use nifo_listsD(4) [OF assms] in auto)
  then have dom: "nont_of n \<in> dom (nf_link s)" by (rule nifo_lists_dom) simp
  obtain h where h: "clist_add_tail (nf_link s) (nont_of n) (nont_of c) = Some h"
    "cring h (nont_of c # map nont_of ys @ [nont_of n])"
    "\<And>y. y \<notin> set (nont_of c # map nont_of ys @ [nont_of n]) \<Longrightarrow> h y = nf_link s y"
    by (rule clist_add_tail_ring [OF ring fresh dom]) (rule that; assumption)
  have "nifo_lists (s\<lparr>nf_link := h\<rparr>) ([n # c # ys] @ rest)"
  proof (rule nifo_lists_relink [where xss = "[c # ys, [n]]"])
    show "nifo_lists s ([c # ys, [n]] @ rest)" using assms by simp
    show "distinct (concat (concat ([n # c # ys] @ rest)))" using nifo_listsD(4) [OF assms] by auto
    show "cring h (map nont_of cs)" if "cs \<in> set [n # c # ys]" for cs
      using cring_rotate [of h "nont_of c # map nont_of ys" "[nont_of n]"] h(2) that by simp
    show "h y = nf_link s y" if "y \<notin> nont_of ` set (concat [c # ys, [n]])" for y
      by (rule h(3)) (use that in auto)
  qed auto
  then show ?thesis using h(1) by (auto simp: nifo_node_link_nont_prev_def nifo_on_links_def)
qed

lemma nifo_link_nont_next_ok:
  assumes "nifo_lists s ((xs @ c # ys) # [n] # rest)"
  shows "\<exists>h. nifo_node_link_nont_next s (hd c) (hd n) = Some (s\<lparr>nf_link := h\<rparr>) \<and>
    nifo_lists (s\<lparr>nf_link := h\<rparr>) ((xs @ c # n # ys) # rest)"
proof -
  have a: "nifo_lists s ((c # ys @ xs) # [n] # rest)"
    using nifo_lists_rotate [OF assms] by simp
  have ring: "cring (nf_link s) (nont_of c # map nont_of (ys @ xs))"
    using nifo_listsD(2) [OF a, of "c # ys @ xs"] by simp
  have fresh: "nont_of n \<notin> set (nont_of c # map nont_of (ys @ xs))" using nifo_lists_disjoint [OF a] by auto
  have "nifo_lists s ([n] # (c # ys @ xs) # rest)" by (rule nifo_lists_perm [OF a]) (use nifo_listsD(4) [OF a] in auto)
  then have dom: "nont_of n \<in> dom (nf_link s)" by (rule nifo_lists_dom) simp
  obtain h where h: "clist_add_head (nf_link s) (nont_of n) (nont_of c) = Some h"
    "cring h (nont_of c # nont_of n # map nont_of (ys @ xs))"
    "\<And>y. y \<notin> set (nont_of c # nont_of n # map nont_of (ys @ xs)) \<Longrightarrow> h y = nf_link s y"
    by (rule clist_add_head_ring [OF ring fresh dom]) (rule that; assumption)
  have "nifo_lists (s\<lparr>nf_link := h\<rparr>) ([(c # n # ys) @ xs] @ rest)"
  proof (rule nifo_lists_relink [where xss = "[c # ys @ xs, [n]]"])
    show "nifo_lists s ([c # ys @ xs, [n]] @ rest)" using a by simp
    show "distinct (concat (concat ([(c # n # ys) @ xs] @ rest)))" using nifo_listsD(4) [OF a] by auto
    show "cring h (map nont_of cs)" if "cs \<in> set [(c # n # ys) @ xs]" for cs
      using h(2) that by simp
    show "h y = nf_link s y" if "y \<notin> nont_of ` set (concat [c # ys @ xs, [n]])" for y
      by (rule h(3)) (use that in auto)
  qed auto
  then have "nifo_lists (s\<lparr>nf_link := h\<rparr>) ((xs @ c # n # ys) # rest)"
    using nifo_lists_rotate [of "s\<lparr>nf_link := h\<rparr>" "c # n # ys" xs rest] by simp
  then show ?thesis using h(1) by (auto simp: nifo_node_link_nont_next_def nifo_on_links_def)
qed

lemma nifo_unlink_nont_ok:
  assumes "nifo_lists s ((xs @ c # ys) # rest)"
  shows "\<exists>h. nifo_node_unlink_nont s (hd c) = Some (s\<lparr>nf_link := h\<rparr>) \<and>
    nifo_lists (s\<lparr>nf_link := h\<rparr>) ((xs @ ys) # [c] # rest)"
proof -
  have a: "nifo_lists s ((c # ys @ xs) # rest)" using nifo_lists_rotate [OF assms] by simp
  have ring: "cring (nf_link s) (nont_of c # map nont_of (ys @ xs))"
    using nifo_listsD(2) [OF a, of "c # ys @ xs"] by simp
  obtain h where h: "clist_del_init (nf_link s) (nont_of c) = Some h" "cring h [nont_of c]"
    "map nont_of (ys @ xs) \<noteq> [] \<Longrightarrow> cring h (map nont_of (ys @ xs))"
    "\<And>y. y \<notin> set (nont_of c # map nont_of (ys @ xs)) \<Longrightarrow> h y = nf_link s y"
    by (rule clist_del_init_ring [OF ring]) (rule that; assumption)
  have "nifo_lists (s\<lparr>nf_link := h\<rparr>) ([ys @ xs, [c]] @ rest)"
  proof (rule nifo_lists_relink [where xss = "[c # ys @ xs]"])
    show "nifo_lists s ([c # ys @ xs] @ rest)" using a by simp
    show "distinct (concat (concat ([ys @ xs, [c]] @ rest)))" using nifo_listsD(4) [OF a] by auto
    show "cring h (map nont_of cs)" if "cs \<in> set [ys @ xs, [c]]" "cs \<noteq> []" for cs
    proof (cases "cs = [c]")
      case False
      then have "cs = ys @ xs" using that(1) by auto
      then show ?thesis using h(3) that(2) by simp
    qed (use h(2) in simp)
    show "h y = nf_link s y" if "y \<notin> nont_of ` set (concat [c # ys @ xs])" for y
      by (rule h(4)) (use that in auto)
  qed auto
  then have "nifo_lists (s\<lparr>nf_link := h\<rparr>) ((xs @ ys) # [c] # rest)"
    using nifo_lists_rotate [of "s\<lparr>nf_link := h\<rparr>" ys xs "[c] # rest"] by simp
  then show ?thesis using h(1) by (auto simp: nifo_node_unlink_nont_def nifo_on_links_def)
qed

lemma nifo_nont_next_ok:
  assumes "nifo_lists s ((xs @ c # ys) # rest)"
  shows "nifo_nont_next s (hd c) = Some (hd (hd (ys @ xs @ [c])))"
proof -
  have a: "nifo_lists s ((c # ys @ xs) # rest)" using nifo_lists_rotate [OF assms] by simp
  have "cring (nf_link s) (nont_of c # map nont_of (ys @ xs))"
    using nifo_listsD(2) [OF a, of "c # ys @ xs"] by simp
  from cring_next [OF this] show ?thesis
    by (cases ys; cases xs) (auto simp: nifo_nont_next_def nxt_def)
qed

lemma nifo_nont_prev_ok:
  assumes "nifo_lists s ((xs @ c # ys) # rest)"
  shows "\<exists>k. nf_link s (nont_of c) = Some k \<and> cl_offset_prev k = nont_of (last (c # ys @ xs))"
proof -
  have a: "nifo_lists s ((c # ys @ xs) # rest)" using nifo_lists_rotate [OF assms] by simp
  have "cring (nf_link s) (map nont_of (c # ys @ xs))"
    using nifo_listsD(2) [OF a, of "c # ys @ xs"] by simp
  then have "prv (nf_link s) (nont_of c) = Some (last (map nont_of (c # ys @ xs)))"
    unfolding cring_def by simp
  also have "last (map nont_of (c # ys @ xs)) = nont_of (last (c # ys @ xs))"
    by (rule last_map) simp
  finally show ?thesis by (auto simp: prv_def)
qed

text \<open>What the list operations and the release of nodes leave alone.\<close>

definition nifo_same :: "nifo \<Rightarrow> nifo \<Rightarrow> bool" where
  "nifo_same s s' \<longleftrightarrow> nf_node s' = nf_node s \<and> nf_mem s' = nf_mem s \<and> nf_procID s' = nf_procID s \<and>
     map memszone_geom (mi_stMEMSZONE (nf_mems s')) = map memszone_geom (mi_stMEMSZONE (nf_mems s)) \<and>
     mi_uiMatrixZoneID (nf_mems s') = mi_uiMatrixZoneID (nf_mems s) \<and>
     mi_uiMemNodeHdrSize (nf_mems s') = mi_uiMemNodeHdrSize (nf_mems s)"

lemma nifo_same_refl [simp]: "nifo_same s s"
  and nifo_same_link [simp]: "nifo_same s (t\<lparr>nf_link := h\<rparr>) = nifo_same s t"
  and nifo_same_trans: "nifo_same s t \<Longrightarrow> nifo_same t u \<Longrightarrow> nifo_same s u"
  by (simp_all add: nifo_same_def)

lemma nifo_tlv_search_cong: "nf_mem s' = nf_mem s \<Longrightarrow> nifo_tlv_search s' p l t c = nifo_tlv_search s p l t c"
proof (induction s p l t c rule: nifo_tlv_search.induct)
  case (1 s p l t c)
  have e: "nifo_tlv_type s' = nifo_tlv_type s" "nifo_tlv_len s' = nifo_tlv_len s"
    unfolding nifo_tlv_type_def nifo_tlv_len_def 1(2) by (rule refl)+
  show ?case
    unfolding nifo_tlv_search.simps [of s' p l t c] nifo_tlv_search.simps [of s p l t c] e
    by (rule if_cong [OF refl if_cong [OF refl refl 1(1)] refl]) (assumption | rule 1(2))+
qed

lemma nifo_same_value: "nifo_same s s' \<Longrightarrow> nifo_get_value s' t p = nifo_get_value s t p"
  using nifo_tlv_search_cong [of s' s] by (simp add: nifo_same_def nifo_get_value_def)

lemma mems_free_geom:
  assumes "mems_free m p = Some (m', r)"
  shows "map memszone_geom (mi_stMEMSZONE m') = map memszone_geom (mi_stMEMSZONE m)"
    "mi_uiMatrixZoneID m' = mi_uiMatrixZoneID m" "mi_uiMemNodeHdrSize m' = mi_uiMemNodeHdrSize m"
proof -
  show "mi_uiMatrixZoneID m' = mi_uiMatrixZoneID m" "mi_uiMemNodeHdrSize m' = mi_uiMemNodeHdrSize m"
    using assms by (auto simp: mems_free_def mems_set_zone_def bind_eq_Some_conv split: if_splits)
  have upd: "map memszone_geom (xs[i := z]) = map memszone_geom xs" if "memszone_geom z = memszone_geom (xs ! i)" for xs i z
    using that by (cases "i < length xs") (auto intro!: nth_equalityI simp: nth_list_update list_update_beyond)
  show "map memszone_geom (mi_stMEMSZONE m') = map memszone_geom (mi_stMEMSZONE m)"
    using assms
    by (auto simp: mems_free_def mems_set_zone_def mems_zone_def bind_eq_Some_conv split: if_splits
        intro!: upd simp: memszone_geom_def)
qed

lemma nifo_cont_delete_same: "nifo_cont_delete s p = Some (s', r) \<Longrightarrow> nifo_same s s'"
  using mems_free_geom [of "nf_mems s" p]
  by (auto simp: nifo_cont_delete_def nifo_node_unlink_cont_def nifo_on_links_def nifo_node_free_def
      nifo_same_def bind_eq_Some_conv split: option.splits if_splits)

lemma nifo_delete_conts_same:
  assumes "nifo_delete_conts s r = Some s'"
  shows "nifo_same s s'"
proof (rule nifo_delete_conts.raw_induct [OF _ assms, where P = "\<lambda>s r s'. nifo_same s s'"])
  fix f s r s'
  assume IH: "\<And>s r s'. f s r = Some s' \<Longrightarrow> nifo_same s s'"
    and step: "(case r of None \<Rightarrow> Some s | Some p \<Rightarrow> nifo_cont_delete s p \<bind> (\<lambda>(s1, q). f s1 q)) = Some s'"
  show "nifo_same s s'"
  proof (cases r)
    case (Some p)
    then obtain s1 q where s1: "nifo_cont_delete s p = Some (s1, q)" "f s1 q = Some s'"
      using step by (auto simp: bind_eq_Some_conv)
    show ?thesis by (rule nifo_same_trans [OF nifo_cont_delete_same [OF s1(1)] IH [OF s1(2)]])
  qed (use step in simp)
qed

lemma mems_geom_cells:
  assumes "map memszone_geom (mi_stMEMSZONE m') = map memszone_geom (mi_stMEMSZONE m)"
    "unat k < length (mi_stMEMSZONE m)"
  shows "unat k < length (mi_stMEMSZONE m')" "mems_cells m' k = mems_cells m k" "mems_body m' k = mems_body m k"
proof -
  show len: "unat k < length (mi_stMEMSZONE m')" using map_eq_imp_length_eq [OF assms(1)] assms(2) by simp
  have geom: "memszone_geom (mi_stMEMSZONE m' ! unat k) = memszone_geom (mi_stMEMSZONE m ! unat k)"
    using arg_cong [OF assms(1), of "\<lambda>xs. xs ! unat k"] assms(2) len by simp
  show "mems_cells m' k = mems_cells m k" "mems_body m' k = mems_body m k"
    unfolding mems_cells_def mems_body_def memszone_geom_nodes(1) [OF geom] memszone_geom_nodes(3) [OF geom] by (rule refl)+
qed

text \<open>Releasing the nodes of a message that is alone, and a whole batch.\<close>

lemma nifo_delete_conts_ok:
  assumes "nifo_lists s ([c] # rest)"
  shows "\<exists>s'. nifo_delete_conts s (Some (hd c)) = Some s' \<and> nifo_lists s' rest \<and> nifo_same s s' \<and>
    nifo_used (nf_mems s') = nifo_used (nf_mems s) - set c \<and> nf_del s' = nf_del s + of_nat (length c)"
proof -
  note L = nifo_listsD [OF assms]
  have "cring (nf_link s) (map (\<lambda>p. p + CONT_OFF) c)" "set c \<subseteq> nifo_used (nf_mems s)"
    using L(3) [of c] L(5) by auto
  from nifo_delete_conts_all [OF L(1) this] obtain s1 where s1:
    "nifo_delete_conts s (Some (hd c)) = Some s1" "mems_wf (nf_mems s1)"
    "nifo_used (nf_mems s1) = nifo_used (nf_mems s) - set c" "nf_del s1 = nf_del s + of_nat (length c)"
    "\<forall>y. y \<notin> (\<lambda>p. p + CONT_OFF) ` set c \<longrightarrow> nf_link s1 y = nf_link s y"
    by blast
  have keep: "nf_link s1 y = nf_link s y" if "\<And>q. q \<in> set c \<Longrightarrow> y \<noteq> q + CONT_OFF" for y
    using s1(5) that by blast
  have "nifo_lists s1 rest"
    unfolding nifo_lists_def
  proof (intro conjI ballI impI)
    fix cs assume cs: "cs \<in> set rest" "cs \<noteq> []"
    have "cring (nf_link s) (map nont_of cs)" by (rule L(2)) (use cs in simp_all)
    then show "cring (nf_link s1) (map nont_of cs)"
    proof (rule cring_cong)
      fix y assume "y \<in> set (map nont_of cs)"
      then obtain d where d: "d \<in> set cs" "y = nont_of d" by auto
      have "hd d \<in> set (concat (concat ([c] # rest)))"
        by (rule nifo_lists_hd [OF assms]) (use d cs in auto)
      then show "nf_link s1 y = nf_link s y" unfolding d(2) by (intro keep L(6)) simp_all
    qed
  next
    fix d assume d: "d \<in> set (concat rest)"
    have "cring (nf_link s) (map (\<lambda>p. p + CONT_OFF) d)" by (rule L(3)) (use d in simp)
    then show "cring (nf_link s1) (map (\<lambda>p. p + CONT_OFF) d)"
    proof (rule cring_cong)
      fix y assume "y \<in> set (map (\<lambda>p. p + CONT_OFF) d)"
      then obtain p where p: "p \<in> set d" "y = p + CONT_OFF" by auto
      have "p \<notin> set c" using L(4) p d by auto
      then show "nf_link s1 y = nf_link s y" unfolding p(2) by (intro keep) auto
    qed
  next
    show "set (concat (concat rest)) \<subseteq> nifo_used (nf_mems s1)"
      using L(4,5) unfolding s1(3) by simp blast
    show "p + NONT_OFF \<noteq> q + CONT_OFF"
      if "p \<in> set (concat (concat rest))" "q \<in> set (concat (concat rest))" for p q
      by (rule L(6)) (use that in simp_all)
  qed (use s1(2) L(4) in simp_all)
  then show ?thesis using s1 nifo_delete_conts_same [OF s1(1)] by blast
qed

lemma nifo_node_delete_ring:
  assumes "nifo_lists s ((c # cs) # rest)"
  shows "\<exists>s'. nifo_node_delete s (hd c) = Some s' \<and> nifo_lists s' rest \<and> nifo_same s s' \<and>
    nifo_used (nf_mems s') = nifo_used (nf_mems s) - set (concat (c # cs)) \<and>
    nf_del s' = nf_del s + of_nat (length (concat (c # cs)))"
  using assms
proof (induction cs arbitrary: s c)
  case (Nil s c)
  obtain h where h: "nifo_node_unlink_nont s (hd c) = Some (s\<lparr>nf_link := h\<rparr>)"
    "nifo_lists (s\<lparr>nf_link := h\<rparr>) ([] # [c] # rest)"
    using nifo_unlink_nont_ok [of s "[]" c "[]" rest] Nil by auto
  have "nifo_lists (s\<lparr>nf_link := h\<rparr>) ([c] # rest)"
    by (rule nifo_lists_perm [OF h(2)]) (use nifo_listsD(4) [OF h(2)] in auto)
  from nifo_delete_conts_ok [OF this] obtain s1 where s1: "nifo_delete_conts (s\<lparr>nf_link := h\<rparr>) (Some (hd c)) = Some s1"
    "nifo_lists s1 rest" "nifo_same (s\<lparr>nf_link := h\<rparr>) s1" "nifo_used (nf_mems s1) = nifo_used (nf_mems s) - set c"
    "nf_del s1 = nf_del s + of_nat (length c)" by auto
  have "nifo_nont_delete s (hd c) = Some (s\<lparr>nf_link := h\<rparr>, None)"
    using nifo_nont_next_ok [of s "[]" c "[]" rest] Nil h(1) by (simp add: nifo_nont_delete_def)
  then have "nifo_node_delete s (hd c) = Some s1" using s1(1) by (subst nifo_node_delete.simps) simp
  then show ?case using s1 nifo_same_trans [OF _ s1(3), of s] by auto
next
  case (Cons d cs s c)
  obtain h where h: "nifo_node_unlink_nont s (hd c) = Some (s\<lparr>nf_link := h\<rparr>)"
    "nifo_lists (s\<lparr>nf_link := h\<rparr>) ((d # cs) # [c] # rest)"
    using nifo_unlink_nont_ok [of s "[]" c "d # cs" rest] Cons.prems by auto
  have "nifo_lists (s\<lparr>nf_link := h\<rparr>) ([c] # (d # cs) # rest)"
    by (rule nifo_lists_perm [OF h(2)]) (use nifo_listsD(4) [OF h(2)] in auto)
  from nifo_delete_conts_ok [OF this] obtain s1 where s1: "nifo_delete_conts (s\<lparr>nf_link := h\<rparr>) (Some (hd c)) = Some s1"
    "nifo_lists s1 ((d # cs) # rest)" "nifo_same (s\<lparr>nf_link := h\<rparr>) s1"
    "nifo_used (nf_mems s1) = nifo_used (nf_mems s) - set c" "nf_del s1 = nf_del s + of_nat (length c)" by auto
  have "hd d \<noteq> hd c"
    using nifo_lists_heads [OF Cons.prems, of c d] nifo_listsD(4) [OF Cons.prems] nifo_lists_ne [OF Cons.prems, of c] by auto
  then have "nifo_nont_delete s (hd c) = Some (s\<lparr>nf_link := h\<rparr>, Some (hd d))"
    using nifo_nont_next_ok [of s "[]" c "d # cs" rest] Cons.prems h(1) by (simp add: nifo_nont_delete_def)
  then have run: "nifo_node_delete s (hd c) = nifo_node_delete s1 (hd d)" using s1(1) by (subst nifo_node_delete.simps) simp
  obtain s2 where s2: "nifo_node_delete s1 (hd d) = Some s2" "nifo_lists s2 rest" "nifo_same s1 s2"
    "nifo_used (nf_mems s2) = nifo_used (nf_mems s1) - set (concat (d # cs))"
    "nf_del s2 = nf_del s1 + of_nat (length (concat (d # cs)))"
    using Cons.IH [OF s1(2)] by blast
  have "nifo_same s s2" using nifo_same_trans [OF nifo_same_trans [OF _ s1(3)] s2(3)] by simp
  then show ?case unfolding run using s1(4,5) s2 by (intro exI [of _ s2]) auto
qed

lemma nifo_node_delete_ok:
  assumes "nifo_lists s ([c] # rest)"
  shows "\<exists>s'. nifo_node_delete s (hd c) = Some s' \<and> nifo_lists s' rest \<and> nifo_same s s' \<and>
    nifo_used (nf_mems s') = nifo_used (nf_mems s) - set c \<and> nf_del s' = nf_del s + of_nat (length c)"
  using nifo_node_delete_ring [OF assms] by simp

text \<open>What is left alone keeps the zone of the process.\<close>

lemma nifo_same_zone:
  assumes "nifo_same s s'" "mems_wf (nf_mems s')" "nifo_zone s zid"
  shows "nifo_zone s' zid" "nifo_cap s' zid = nifo_cap s zid"
proof -
  have g: "map memszone_geom (mi_stMEMSZONE (nf_mems s')) = map memszone_geom (mi_stMEMSZONE (nf_mems s))"
    using assms(1) by (simp add: nifo_same_def)
  have k: "unat zid < length (mi_stMEMSZONE (nf_mems s))" using assms(3) by (simp add: nifo_zone_def mems_valid_def)
  show "nifo_zone s' zid" "nifo_cap s' zid = nifo_cap s zid"
    using mems_geom_cells [OF g k] assms by (simp_all add: nifo_zone_def nifo_cap_def mems_valid_def nifo_same_def)
qed


section \<open>Nodes apart\<close>

text \<open>A node of some zone with its header in order: what is written into it is not read in another one.\<close>

definition nifo_block :: "nifo \<Rightarrow> offset \<Rightarrow> bool" where
  "nifo_block s p \<longleftrightarrow> (\<exists>k n. unat k < length (mi_stMEMSZONE (nf_mems s)) \<and> p \<in> mems_cells (nf_mems s) k \<and>
     nf_node s p = Some n \<and> NIFO_SIZE \<le> nn_lastoffset n \<and> nn_lastoffset n \<le> nn_maxoffset n \<and>
     nn_maxoffset n = uint (mems_body (nf_mems s) k))"

lemma nifo_block_same:
  assumes "nifo_same s s'" "nifo_block s p"
  shows "nifo_block s' p"
proof -
  have m: "map memszone_geom (mi_stMEMSZONE (nf_mems s')) = map memszone_geom (mi_stMEMSZONE (nf_mems s))"
    and n: "nf_node s' = nf_node s"
    using assms(1) by (simp_all add: nifo_same_def)
  obtain k where "unat k < length (mi_stMEMSZONE (nf_mems s))" "p \<in> mems_cells (nf_mems s) k"
    "\<exists>n. nf_node s p = Some n \<and> NIFO_SIZE \<le> nn_lastoffset n \<and> nn_lastoffset n \<le> nn_maxoffset n \<and>
       nn_maxoffset n = uint (mems_body (nf_mems s) k)"
    using assms(2) unfolding nifo_block_def by blast
  then show ?thesis
    unfolding nifo_block_def n using mems_geom_cells [OF m, of k] by (intro exI [of _ k]) simp
qed

lemma nifo_blocks_apart:
  assumes "mems_wf (nf_mems s)" "nifo_block s p" "nifo_block s q" "p \<noteq> q"
  obtains n m where "nf_node s p = Some n" "nf_node s q = Some m"
    "NIFO_SIZE \<le> nn_lastoffset n" "nn_lastoffset n \<le> nn_maxoffset n"
    "NIFO_SIZE \<le> nn_lastoffset m" "nn_lastoffset m \<le> nn_maxoffset m"
    "p + nn_maxoffset n + 36 \<le> q \<or> q + nn_maxoffset m + 36 \<le> p"
proof -
  obtain k n where k: "unat k < length (mi_stMEMSZONE (nf_mems s))" "p \<in> mems_cells (nf_mems s) k" "nf_node s p = Some n"
    "NIFO_SIZE \<le> nn_lastoffset n" "nn_lastoffset n \<le> nn_maxoffset n" "nn_maxoffset n = uint (mems_body (nf_mems s) k)"
    using assms(2) unfolding nifo_block_def by blast
  obtain l m where l: "unat l < length (mi_stMEMSZONE (nf_mems s))" "q \<in> mems_cells (nf_mems s) l" "nf_node s q = Some m"
    "NIFO_SIZE \<le> nn_lastoffset m" "nn_lastoffset m \<le> nn_maxoffset m" "nn_maxoffset m = uint (mems_body (nf_mems s) l)"
    using assms(3) unfolding nifo_block_def by blast
  show ?thesis
    using mems_cells_apart [OF assms(1) k(1) l(1) k(2) l(2) assms(4)]
    by (intro that [OF k(3) l(3) k(4,5) l(4,5)]) (simp add: k(6) l(6) stMEMSNODEHDR_SIZE_def)
qed

lemma nifo_search_range:
  "nifo_tlv_search s p l t c = Some a \<Longrightarrow> p + c \<le> a \<and> a < p + l"
proof (induction s p l t c rule: nifo_tlv_search.induct)
  case (1 s p l t c)
  show ?case
  proof (cases "c < l \<and> nifo_tlv_type s (p + c) \<noteq> t")
    case True
    have "nifo_tlv_search s p l t (c + (TLV_SIZE + uint (nifo_tlv_len s (p + c)))) = Some a"
      using 1(2) True by (subst (asm) nifo_tlv_search.simps) simp
    from 1(1) [OF _ _ this] True TLV_SIZE_add_pos [of "nifo_tlv_len s (p + c)"] show ?thesis by simp
  next
    case False
    then show ?thesis using 1(2) by (subst (asm) nifo_tlv_search.simps) (auto split: if_splits)
  qed
qed

lemma nifo_search_frame:
  assumes "\<And>a. p + c \<le> a \<Longrightarrow> a < p + l + 8 \<Longrightarrow> nf_mem s' a = nf_mem s a"
  shows "nifo_tlv_search s' p l t c = nifo_tlv_search s p l t c"
  using assms
proof (induction s p l t c rule: nifo_tlv_search.induct)
  case (1 s p l t c)
  show ?case
  proof (cases "c < l")
    case True
    have rd: "rd_bytes (nf_mem s') (p + c + d) 4 = rd_bytes (nf_mem s) (p + c + d) 4" if "d = 0 \<or> d = 4" for d
      unfolding rd_bytes_def by (rule map_cong [OF refl]) (use True that in \<open>auto intro!: 1(2)\<close>)
    have e: "nifo_tlv_type s' (p + c) = nifo_tlv_type s (p + c)" "nifo_tlv_len s' (p + c) = nifo_tlv_len s (p + c)"
      using rd [of 0] rd [of 4] by (simp_all add: nifo_tlv_type_def nifo_tlv_len_def)
    show ?thesis
    proof (cases "nifo_tlv_type s (p + c) = t")
      case False
      have "nifo_tlv_search s' p l t (c + (TLV_SIZE + uint (nifo_tlv_len s (p + c)))) =
          nifo_tlv_search s p l t (c + (TLV_SIZE + uint (nifo_tlv_len s (p + c))))"
        using TLV_SIZE_add_pos [of "nifo_tlv_len s (p + c)"] by (intro 1(1) [OF True False] 1(2)) simp_all
      then show ?thesis
        unfolding nifo_tlv_search.simps [of s' p l t c] nifo_tlv_search.simps [of s p l t c] e by simp
    qed (simp add: nifo_tlv_search.simps [of s' p l t c] nifo_tlv_search.simps [of s p l t c] e)
  qed (simp add: nifo_tlv_search.simps [of s' p l t c] nifo_tlv_search.simps [of s p l t c])
qed

lemma nifo_value_range:
  assumes "nf_node s p = Some n" "nifo_get_value s t p = Some (Some a)"
  shows "p + NIFO_SIZE + 8 \<le> a \<and> a < p + nn_lastoffset n + 8"
  using assms nifo_search_range [of s p "nn_lastoffset n" t NIFO_SIZE]
  by (auto simp: nifo_get_value_def TLV_SIZE_def)

text \<open>Structures in different nodes have different addresses.\<close>

lemma nifo_values_differ:
  assumes "mems_wf (nf_mems s)" "nifo_block s p" "nifo_block s q" "p \<noteq> q"
    "nifo_get_value s t p = Some (Some a)" "nifo_get_value s u q = Some (Some b)"
  shows "a \<noteq> b"
proof -
  obtain n m where nm: "nf_node s p = Some n" "nf_node s q = Some m"
    "nn_lastoffset n \<le> nn_maxoffset n" "nn_lastoffset m \<le> nn_maxoffset m"
    "p + nn_maxoffset n + 36 \<le> q \<or> q + nn_maxoffset m + 36 \<le> p"
    using nifo_blocks_apart [OF assms(1-4)] by metis
  then show ?thesis
    using nifo_value_range [OF nm(1) assms(5)] nifo_value_range [OF nm(2) assms(6)] by (auto simp: NIFO_SIZE_def)
qed

text \<open>\<open>nifo_tlv_alloc\<close> in one node: the other nodes keep their records.\<close>

lemma nifo_tlv_alloc_frame:
  assumes "nifo_lists s css" "nifo_block s p" "nifo_tlv_alloc s p type len flag = Some (s', r)"
  shows "nifo_lists s' css" "nf_mems s' = nf_mems s" "nf_link s' = nf_link s" "nf_procID s' = nf_procID s"
    "nifo_block s q \<Longrightarrow> nifo_block s' q"
    "nifo_block s q \<Longrightarrow> q \<noteq> p \<Longrightarrow> nifo_get_value s' t q = nifo_get_value s t q"
    "nifo_block s q \<Longrightarrow> q \<noteq> p \<Longrightarrow> nf_node s' q = nf_node s q \<and> nifo_payload s' q = nifo_payload s q"
proof -
  obtain n where n: "nf_node s p = Some n" "NIFO_SIZE \<le> nn_lastoffset n" using assms(2) by (auto simp: nifo_block_def)
  have run: "r = None \<and> s' = s \<or> nn_lastoffset n + TLV_SIZE + uint len \<le> nn_maxoffset n \<and>
      nf_node s' = (nf_node s)(p \<mapsto> n\<lparr>nn_cnt := nn_cnt n + 1, nn_lastoffset := nn_lastoffset n + (TLV_SIZE + uint len)\<rparr>) \<and>
      nf_mems s' = nf_mems s \<and> nf_link s' = nf_link s \<and> nf_procID s' = nf_procID s \<and>
      (\<forall>a. a < p + nn_lastoffset n \<or> p + nn_lastoffset n + TLV_SIZE + uint len \<le> a \<longrightarrow> nf_mem s' a = nf_mem s a)"
  proof (cases "nn_maxoffset n < nn_lastoffset n + TLV_SIZE + uint len")
    case False
    have "int (unat len) = uint len" by (rule uint_nat [symmetric])
    moreover have "p + nn_lastoffset n + 8 + uint len \<le> a \<Longrightarrow> \<not> a < p + nn_lastoffset n + 8" for a
      using uint_ge_0 [of len] by linarith
    ultimately show ?thesis
      using assms(3) n False unfolding nifo_tlv_alloc_def
      by (auto simp: Let_def wr_bytes_def TLV_SIZE_def split: if_splits)
  qed (use assms(3) n in \<open>auto simp: nifo_tlv_alloc_def\<close>)
  then show m: "nf_mems s' = nf_mems s" and l: "nf_link s' = nf_link s" and "nf_procID s' = nf_procID s" by auto
  show "nifo_lists s' css" using assms(1) by (simp add: nifo_lists_def m l)
  show blk: "nifo_block s' q" if q: "nifo_block s q"
  proof (cases "q = p")
    case True
    from run show ?thesis
      using assms(2) n TLV_SIZE_add_pos [of len] unfolding True nifo_block_def m by auto
  next
    case False
    from run have "nf_node s' q = nf_node s q" using False by auto
    then show ?thesis using q unfolding nifo_block_def m by simp
  qed
  have other: "\<exists>k. nf_node s q = Some k \<and> nf_node s' q = Some k \<and>
      (\<forall>a. q + NIFO_SIZE \<le> a \<longrightarrow> a < q + nn_lastoffset k + 8 \<longrightarrow> nf_mem s' a = nf_mem s a)"
    if q: "nifo_block s q" "q \<noteq> p"
  proof -
    obtain k where k: "nf_node s q = Some k" "nn_lastoffset k \<le> nn_maxoffset k" "nn_lastoffset n \<le> nn_maxoffset n"
      "p + nn_maxoffset n + 36 \<le> q \<or> q + nn_maxoffset k + 36 \<le> p"
      by (rule nifo_blocks_apart [OF nifo_listsD(1) [OF assms(1)] assms(2) q(1) q(2) [symmetric]])
        (rule that; use n(1) in simp)
    have "nf_node s' q = Some k" using run q(2) k(1) by auto
    moreover have "nf_mem s' a = nf_mem s a" if "q + NIFO_SIZE \<le> a" "a < q + nn_lastoffset k + 8" for a
      using run k(2-) n(2) that by (auto simp: NIFO_SIZE_def)
    ultimately show ?thesis using k(1) by blast
  qed
  show "nifo_get_value s' t q = nifo_get_value s t q" if q: "nifo_block s q" "q \<noteq> p"
  proof -
    obtain k where k: "nf_node s q = Some k" "nf_node s' q = Some k"
      "\<And>a. q + NIFO_SIZE \<le> a \<Longrightarrow> a < q + nn_lastoffset k + 8 \<Longrightarrow> nf_mem s' a = nf_mem s a"
      using other [OF q] by blast
    have "nifo_tlv_search s' q (nn_lastoffset k) t NIFO_SIZE = nifo_tlv_search s q (nn_lastoffset k) t NIFO_SIZE"
      by (rule nifo_search_frame) (rule k(3))
    then show ?thesis using k(1,2) by (simp add: nifo_get_value_def)
  qed
  show "nf_node s' q = nf_node s q \<and> nifo_payload s' q = nifo_payload s q" if q: "nifo_block s q" "q \<noteq> p"
  proof -
    obtain k where k: "nf_node s q = Some k" "nf_node s' q = Some k"
      "\<And>a. q + NIFO_SIZE \<le> a \<Longrightarrow> a < q + nn_lastoffset k + 8 \<Longrightarrow> nf_mem s' a = nf_mem s a"
      using other [OF q] by blast
    then have "nifo_fill s' q = nifo_fill s q" by (simp add: nifo_fill_def)
    moreover have "nf_mem s' (q + NIFO_SIZE + int i) = nf_mem s (q + NIFO_SIZE + int i)" if "i < nifo_fill s q" for i
      using that k(1) by (intro k(3)) (auto simp: nifo_fill_def)
    ultimately show ?thesis using k(1,2) by (simp add: nifo_payload_def rd_bytes_def)
  qed
qed

text \<open>The address of a record of a new type is the one \<open>nifo_tlv_alloc\<close> answers.\<close>

lemma nifo_search_skip:
  assumes "nifo_payload s p = A @ nifo_encode rs @ B" "\<forall>(type, v) \<in> set rs. length v < 2 ^ 31" "t \<notin> fst ` set rs"
  shows "nifo_tlv_search s p (NIFO_SIZE + int (nifo_fill s p)) t (NIFO_SIZE + int (length A)) =
    nifo_tlv_search s p (NIFO_SIZE + int (nifo_fill s p)) t (NIFO_SIZE + int (length (A @ nifo_encode rs)))"
  using assms
proof (induction rs arbitrary: A)
  case (Cons rec rs)
  obtain u v where rec: "rec = (u, v)" by fastforce
  let ?len = "of_nat (length v) :: u32"
  have ul: "unat ?len = length v" using Cons.prems(2) rec by (intro unat_length) simp
  have P: "nifo_payload s p = A @ le32_bytes u @ le32_bytes ?len @ v @ nifo_encode rs @ B"
    using Cons.prems(1) rec by simp
  let ?cur = "NIFO_SIZE + int (length A)"
  have lt: "?cur < NIFO_SIZE + int (nifo_fill s p)" using arg_cong [OF P, of length] by simp
  have ty: "nifo_tlv_type s (p + ?cur) = u"
    using nifo_payload_slice [OF P] le32_of_bytes [of u "[]"] by (simp add: nifo_tlv_type_def add.assoc)
  have "nifo_payload s p = (A @ le32_bytes u) @ le32_bytes ?len @ (v @ nifo_encode rs @ B)" using P by simp
  from nifo_payload_slice [OF this] have ln: "nifo_tlv_len s (p + ?cur) = ?len"
    using le32_of_bytes [of ?len "[]"] by (simp add: nifo_tlv_len_def add.assoc)
  have cur: "?cur + (TLV_SIZE + uint ?len) = NIFO_SIZE + int (length (A @ le32_bytes u @ le32_bytes ?len @ v))"
    unfolding uint_nat ul by (simp add: TLV_SIZE_def)
  have ut: "u \<noteq> t" using Cons.prems(3) rec by auto
  have step: "nifo_tlv_search s p (NIFO_SIZE + int (nifo_fill s p)) t ?cur =
      nifo_tlv_search s p (NIFO_SIZE + int (nifo_fill s p)) t (NIFO_SIZE + int (length (A @ le32_bytes u @ le32_bytes ?len @ v)))"
    unfolding cur [symmetric] using lt ty ut ln by (subst nifo_tlv_search.simps) simp
  have "nifo_payload s p = (A @ le32_bytes u @ le32_bytes ?len @ v) @ nifo_encode rs @ B" using P by simp
  from Cons.IH [OF this] Cons.prems(2,3) show ?case unfolding step using rec by (simp add: add.assoc)
qed simp

lemma nifo_tlv_alloc_value:
  assumes "nifo_node_ok s cap p" "nifo_payload s p = nifo_encode rs" "\<forall>(type, v) \<in> set rs. length v < 2 ^ 31"
    "type \<notin> fst ` set rs" "nifo_fill s p + 8 + unat len \<le> cap" "unat len < 2 ^ 31"
  shows "\<exists>s' v w. nifo_tlv_alloc s p type len flag = Some (s', Some v) \<and> nifo_get_value s' type p = Some (Some v) \<and>
    length w = unat len \<and> nifo_payload s' p = nifo_encode (rs @ [(type, w)]) \<and> nifo_node_ok s' cap p"
proof -
  obtain s' old where a: "nifo_tlv_alloc s p type len flag = Some (s', Some (p + NIFO_SIZE + int (nifo_fill s p) + TLV_SIZE))"
    "nifo_node_ok s' cap p" "length old = unat len"
    "nifo_payload s' p = nifo_payload s p @ le32_bytes type @ le32_bytes len @
      (if flag = DEF_MEMSET_ON then replicate (unat len) 0 else old)"
    using nifo_tlv_alloc_ok [OF assms(1,5)] by blast
  define w where "w = (if flag = DEF_MEMSET_ON then replicate (unat len) 0 else old)"
  have w: "length w = unat len" using a(3) by (simp add: w_def)
  have len: "of_nat (length w) = len" by (simp add: w)
  have B: "nifo_payload s' p = [] @ nifo_encode rs @ (le32_bytes type @ le32_bytes len @ w)"
    using a(4) assms(2) by (simp add: w_def)
  have fill: "nifo_fill s p = length (nifo_encode rs)"
    using arg_cong [OF assms(2), of length] by simp
  have lt: "NIFO_SIZE + int (length (nifo_encode rs)) < NIFO_SIZE + int (nifo_fill s' p)"
    using arg_cong [OF B, of length] by simp
  have "nifo_payload s' p = nifo_encode rs @ le32_bytes type @ (le32_bytes len @ w)" using B by simp
  from nifo_payload_slice [OF this]
  have ty: "nifo_tlv_type s' (p + (NIFO_SIZE + int (length (nifo_encode rs)))) = type"
    using le32_of_bytes [of type "[]"] by (simp add: nifo_tlv_type_def add.assoc)
  have "nifo_tlv_search s' p (NIFO_SIZE + int (nifo_fill s' p)) type NIFO_SIZE = Some (p + (NIFO_SIZE + int (nifo_fill s p)))"
    using nifo_search_skip [OF B assms(3,4)] lt ty by (simp add: fill, subst nifo_tlv_search.simps, simp)
  moreover obtain n where "nf_node s' p = Some n" "nn_lastoffset n = NIFO_SIZE + int (nifo_fill s' p)"
    using nifo_node_okD [OF a(2)] by metis
  ultimately have "nifo_get_value s' type p = Some (Some (p + NIFO_SIZE + int (nifo_fill s p) + TLV_SIZE))"
    by (simp add: nifo_get_value_def add.assoc)
  moreover have "nifo_payload s' p = nifo_encode (rs @ [(type, w)])"
    using B len by (simp add: nifo_encode_def)
  ultimately show ?thesis using a(1,2) w by blast
qed

text \<open>A node that was just allocated is a message of its own.\<close>

lemma nifo_fresh_used:
  assumes "nifo_zone s zid" "nifo_fresh s s' zid q"
  shows "nifo_used (nf_mems s') = insert q (nifo_used (nf_mems s))"
proof -
  have fr: "mems_frame (nf_mems s) (nf_mems s') zid" "mems_live (nf_mems s') zid = insert q (mems_live (nf_mems s) zid)"
    using assms(2) by (simp_all add: nifo_fresh_def)
  have len: "length (mi_stMEMSZONE (nf_mems s')) = length (mi_stMEMSZONE (nf_mems s))"
    using fr(1) unfolding mems_frame_def by (metis length_map)
  have v: "unat zid < length (mi_stMEMSZONE (nf_mems s))" using assms(1) by (simp add: nifo_zone_def mems_valid_def)
  have "mems_live (nf_mems s') k = mems_live (nf_mems s) k" if "unat k < length (mi_stMEMSZONE (nf_mems s))" "k \<noteq> zid" for k
    using fr(1) that by (simp add: mems_frame_def)
  then show ?thesis
    unfolding nifo_used_def len using v fr(2) by (auto split: if_splits)
qed

lemma nifo_fresh_apart:
  assumes "nifo_zone s zid" "nifo_fresh s s' zid q" "p \<in> nifo_used (nf_mems s)"
  shows "p + 36 \<le> q \<or> q + 36 \<le> p"
proof -
  obtain k where k: "unat k < length (mi_stMEMSZONE (nf_mems s))" "p \<in> mems_live (nf_mems s) k"
    using assms(3) by (auto simp: nifo_used_def)
  have z: "mems_wf (nf_mems s)" "unat zid < length (mi_stMEMSZONE (nf_mems s))"
    using assms(1) by (auto simp: nifo_zone_def mems_valid_def)
  have q: "q \<in> mems_cells (nf_mems s) zid" "q \<notin> mems_live (nf_mems s) zid"
    using assms(2) by (simp_all add: nifo_fresh_def)
  have p: "p \<in> mems_cells (nf_mems s) k" using k(2) mems_live_cells by blast
  have ne: "p \<noteq> q"
  proof
    assume "p = q"
    then show False using mems_cells_zone [OF z(1) k(1) z(2), of p] p q k(2) by auto
  qed
  from mems_cells_apart [OF z(1) k(1) z(2) p q(1) ne] show ?thesis
    using uint_ge_0 [of "mems_body (nf_mems s) k"] uint_ge_0 [of "mems_body (nf_mems s) zid"]
    unfolding stMEMSNODEHDR_SIZE_def by linarith
qed

lemma nifo_fresh_lists:
  assumes "nifo_zone s zid" "nifo_fresh s s' zid q" "nifo_lists s css"
  shows "nifo_lists s' ([[q]] # css)"
proof -
  have link: "nf_link s' = cinit_list_head (cinit_list_head (nf_link s) (q + NONT_OFF)) (q + CONT_OFF)"
    and wf: "mems_wf (nf_mems s')"
    using assms(2) by (simp_all add: nifo_fresh_def nifo_zone_def mems_valid_def)
  let ?U = "set (concat (concat css))"
  have apart: "p + 36 \<le> q \<or> q + 36 \<le> p" if "p \<in> ?U" for p
    by (rule nifo_fresh_apart [OF assms(1,2)]) (use nifo_listsD(5) [OF assms(3)] that in blast)
  have keep: "nf_link s' (p + k) = nf_link s (p + k)" if "p \<in> ?U" "k = NONT_OFF \<or> k = CONT_OFF" for p k
    using apart [OF that(1)] that(2) by (auto simp: link cinit_list_head_def NONT_OFF_def CONT_OFF_def)
  have hdU: "hd c \<in> ?U" if "c \<in> set (concat css)" for c by (rule nifo_lists_hd [OF assms(3) that])
  show ?thesis
    unfolding nifo_lists_def
  proof (intro conjI ballI impI)
    fix cs assume "cs \<in> set ([[q]] # css)" "cs \<noteq> []"
    then consider "cs = [[q]]" | "cs \<in> set css" by auto
    then show "cring (nf_link s') (map nont_of cs)"
    proof cases
      case 1
      then show ?thesis by (simp add: link cring_def nxt_def prv_def cinit_list_head_def NONT_OFF_def CONT_OFF_def)
    next
      case 2
      have "nf_link s' (nont_of c) = nf_link s (nont_of c)" if "c \<in> set cs" for c
        by (rule keep [OF hdU]) (use 2 that in auto)
      then show ?thesis
        by (intro cring_cong [OF nifo_listsD(2) [OF assms(3) 2 \<open>cs \<noteq> []\<close>]]) auto
    qed
  next
    fix c assume "c \<in> set (concat ([[q]] # css))"
    then consider "c = [q]" | "c \<in> set (concat css)" by auto
    then show "cring (nf_link s') (map (\<lambda>p. p + CONT_OFF) c)"
    proof cases
      case 1
      then show ?thesis by (simp add: link cring_single)
    next
      case 2
      show ?thesis
        by (rule cring_cong [OF nifo_listsD(3) [OF assms(3) 2]]) (use keep 2 in auto)
    qed
  next
    show "distinct (concat (concat ([[q]] # css)))"
      using nifo_listsD(4) [OF assms(3)] apart [of q] by auto
  next
    show "set (concat (concat ([[q]] # css))) \<subseteq> nifo_used (nf_mems s')"
      using nifo_listsD(5) [OF assms(3)] unfolding nifo_fresh_used [OF assms(1,2)] by auto
  next
    fix p p' assume p: "p \<in> set (concat (concat ([[q]] # css)))" "p' \<in> set (concat (concat ([[q]] # css)))"
    then have "p = q \<or> p \<in> ?U" "p' = q \<or> p' \<in> ?U" by auto
    then show "p + NONT_OFF \<noteq> p' + CONT_OFF"
      using nifo_listsD(6) [OF assms(3), of p p'] apart [of p] apart [of p'] unfolding NONT_OFF_def CONT_OFF_def by linarith
  qed (rule wf)
qed

lemma nifo_fresh_block:
  assumes "nifo_zone s zid" "nifo_fresh s s' zid q"
  shows "nifo_block s' q" "p \<noteq> q \<Longrightarrow> nifo_block s p \<Longrightarrow> nifo_block s' p"
proof -
  have fr: "map memszone_geom (mi_stMEMSZONE (nf_mems s')) = map memszone_geom (mi_stMEMSZONE (nf_mems s))"
    "nf_node s' = (nf_node s)(q \<mapsto> \<lparr>nn_from = 0, nn_to = 0, nn_cnt = 0, nn_lastoffset = NIFO_SIZE,
        nn_maxoffset = NIFO_SIZE + int (nifo_cap s zid)\<rparr>)" "q \<in> mems_cells (nf_mems s) zid"
    using assms(2) by (simp_all add: nifo_fresh_def mems_frame_def)
  have z: "unat zid < length (mi_stMEMSZONE (nf_mems s))" "NIFO_SIZE + TLV_SIZE \<le> uint (mems_body (nf_mems s) zid)"
    using assms(1) by (simp_all add: nifo_zone_def mems_valid_def)
  have cap: "NIFO_SIZE + int (nifo_cap s zid) = uint (mems_body (nf_mems s) zid)"
    using z(2) unfolding nifo_cap_def by (simp add: TLV_SIZE_def)
  show "nifo_block s' q"
    unfolding nifo_block_def using mems_geom_cells [OF fr(1) z(1)] fr(2,3) cap
    by (intro exI [of _ zid]) simp
  assume p: "p \<noteq> q" "nifo_block s p"
  then obtain k where k: "unat k < length (mi_stMEMSZONE (nf_mems s))" "p \<in> mems_cells (nf_mems s) k"
    "\<exists>n. nf_node s p = Some n \<and> NIFO_SIZE \<le> nn_lastoffset n \<and> nn_lastoffset n \<le> nn_maxoffset n \<and>
       nn_maxoffset n = uint (mems_body (nf_mems s) k)"
    unfolding nifo_block_def by blast
  then show "nifo_block s' p"
    unfolding nifo_block_def using mems_geom_cells [OF fr(1) k(1)] fr(2) p(1) by (intro exI [of _ k]) simp
qed

section \<open>Writing into one node\<close>

text \<open>A step that changes no more than the body of the node \<open>q\<close>.\<close>

definition nifo_in :: "offset \<Rightarrow> nifo \<Rightarrow> nifo \<Rightarrow> bool" where
  "nifo_in q s s' \<longleftrightarrow> nf_mems s' = nf_mems s \<and> nf_link s' = nf_link s \<and> nf_procID s' = nf_procID s \<and>
     nifo_block s q \<and> nifo_block s' q \<and> (\<forall>p. p \<noteq> q \<longrightarrow> nf_node s' p = nf_node s p) \<and>
     (\<exists>n n'. nf_node s q = Some n \<and> nf_node s' q = Some n' \<and> nn_maxoffset n' = nn_maxoffset n \<and>
        (\<forall>a. a < q + NIFO_SIZE \<or> q + nn_maxoffset n \<le> a \<longrightarrow> nf_mem s' a = nf_mem s a))"

lemma nifo_in_refl: "nifo_block s q \<Longrightarrow> nifo_in q s s"
  by (auto simp: nifo_in_def nifo_block_def)

lemma nifo_in_trans: "nifo_in q s t \<Longrightarrow> nifo_in q t u \<Longrightarrow> nifo_in q s u"
  unfolding nifo_in_def by (elim conjE exE, intro conjI) (auto simp: all_conj_distrib)

lemma nifo_in_lists: "nifo_in q s s' \<Longrightarrow> nifo_lists s' css = nifo_lists s css"
  by (simp add: nifo_in_def nifo_lists_def)

lemma nifo_in_block: "nifo_in q s s' \<Longrightarrow> nifo_block s p \<Longrightarrow> nifo_block s' p"
  by (cases "p = q") (auto simp: nifo_in_def nifo_block_def)

text \<open>The contents of the other nodes stay.\<close>

lemma nifo_in_other:
  assumes "mems_wf (nf_mems s)" "nifo_in q s s'" "nifo_block s p" "p \<noteq> q"
  obtains k where "nf_node s p = Some k" "nf_node s' p = Some k" "NIFO_SIZE \<le> nn_lastoffset k"
    "nn_lastoffset k \<le> nn_maxoffset k"
    "\<And>a. p + NIFO_SIZE \<le> a \<Longrightarrow> a < p + nn_maxoffset k + 8 \<Longrightarrow> nf_mem s' a = nf_mem s a"
proof -
  have q: "nifo_block s q" using assms(2) by (simp add: nifo_in_def)
  obtain k n where k: "nf_node s p = Some k" "nf_node s q = Some n" "NIFO_SIZE \<le> nn_lastoffset k"
    "nn_lastoffset k \<le> nn_maxoffset k" "NIFO_SIZE \<le> nn_lastoffset n" "nn_lastoffset n \<le> nn_maxoffset n"
    "p + nn_maxoffset k + 36 \<le> q \<or> q + nn_maxoffset n + 36 \<le> p"
    by (rule nifo_blocks_apart [OF assms(1,3) q assms(4)]) (rule that)
  have s': "nf_node s' p = Some k" "\<And>a. a < q + NIFO_SIZE \<or> q + nn_maxoffset n \<le> a \<Longrightarrow> nf_mem s' a = nf_mem s a"
    using assms(2,4) k(1,2) by (auto simp: nifo_in_def)
  have "nf_mem s' a = nf_mem s a" if "p + NIFO_SIZE \<le> a" "a < p + nn_maxoffset k + 8" for a
    by (rule s'(2)) (use k(7) that in \<open>auto simp: NIFO_SIZE_def\<close>)
  then show thesis using that [OF k(1) s'(1) k(3,4)] by blast
qed

lemma nifo_in_value:
  assumes "mems_wf (nf_mems s)" "nifo_in q s s'" "nifo_block s p" "p \<noteq> q"
  shows "nifo_get_value s' t p = nifo_get_value s t p" "nifo_payload s' p = nifo_payload s p"
proof -
  obtain k where k: "nf_node s p = Some k" "nf_node s' p = Some k" "NIFO_SIZE \<le> nn_lastoffset k"
    "nn_lastoffset k \<le> nn_maxoffset k"
    "\<And>a. p + NIFO_SIZE \<le> a \<Longrightarrow> a < p + nn_maxoffset k + 8 \<Longrightarrow> nf_mem s' a = nf_mem s a"
    using nifo_in_other [OF assms] by metis
  have "nifo_tlv_search s' p (nn_lastoffset k) t NIFO_SIZE = nifo_tlv_search s p (nn_lastoffset k) t NIFO_SIZE"
    using k(4) by (intro nifo_search_frame k(5)) simp_all
  then show "nifo_get_value s' t p = nifo_get_value s t p" using k(1,2) by (simp add: nifo_get_value_def)
  have "nifo_fill s' p = nifo_fill s p" using k(1,2) by (simp add: nifo_fill_def)
  moreover have "nf_mem s' (p + NIFO_SIZE + int i) = nf_mem s (p + NIFO_SIZE + int i)" if "i < nifo_fill s p" for i
    using that k(1,4) by (intro k(5)) (auto simp: nifo_fill_def)
  ultimately show "nifo_payload s' p = nifo_payload s p" by (simp add: nifo_payload_def rd_bytes_def)
qed

text \<open>The steps: an allocation in the node, and more bytes for its last record.\<close>

lemma nifo_in_alloc:
  assumes "nifo_block s q" "nifo_tlv_alloc s q type len flag = Some (s', r)"
  shows "nifo_in q s s'"
proof -
  obtain n where n: "nf_node s q = Some n" "NIFO_SIZE \<le> nn_lastoffset n" using assms(1) by (auto simp: nifo_block_def)
  show ?thesis
  proof (cases "nn_maxoffset n < nn_lastoffset n + TLV_SIZE + uint len")
    case True
    then have "s' = s" using assms(2) n(1) by (simp add: nifo_tlv_alloc_def)
    then show ?thesis using nifo_in_refl [OF assms(1)] by simp
  next
    case False
    have len: "int (unat len) = uint len" by (rule uint_nat [symmetric])
    have end_q: "q + nn_maxoffset n \<le> a \<Longrightarrow> \<not> a < q + nn_lastoffset n + 8" for a
      using False uint_ge_0 [of len] unfolding TLV_SIZE_def by linarith
    have s': "s' = s\<lparr>nf_node := (nf_node s)(q \<mapsto> n\<lparr>nn_cnt := nn_cnt n + 1,
        nn_lastoffset := nn_lastoffset n + (TLV_SIZE + uint len)\<rparr>), nf_mem := nf_mem s'\<rparr>"
      and mem: "\<And>a. a < q + NIFO_SIZE \<or> q + nn_maxoffset n \<le> a \<Longrightarrow> nf_mem s' a = nf_mem s a"
      using assms(2) n False len end_q by (auto simp: nifo_tlv_alloc_def Let_def wr_bytes_def TLV_SIZE_def split: if_splits)
    have "nifo_block s' q"
      using assms(1) n False TLV_SIZE_add_pos [of len] by (subst s') (auto simp: nifo_block_def)
    moreover have "nf_mems s' = nf_mems s" "nf_link s' = nf_link s" "nf_procID s' = nf_procID s"
      "\<And>p. p \<noteq> q \<Longrightarrow> nf_node s' p = nf_node s p" "\<exists>n'. nf_node s' q = Some n' \<and> nn_maxoffset n' = nn_maxoffset n"
      by (subst s', simp)+
    ultimately show ?thesis using assms(1) n(1) mem by (auto simp: nifo_in_def)
  qed
qed

definition nifo_extend_last :: "nifo \<Rightarrow> offset \<Rightarrow> offset \<Rightarrow> nifonode \<Rightarrow> u8 list \<Rightarrow> nifo" where
  "nifo_extend_last s q v n bs = s\<lparr>nf_node := (nf_node s)(q \<mapsto> n\<lparr>nn_lastoffset := nn_lastoffset n + int (length bs)\<rparr>),
     nf_mem := wr_bytes (wr_bytes (nf_mem s) (v + uint (nifo_tlv_len s (v - TLV_SIZE))) bs) (v - TLV_SIZE + 4)
       (le32_bytes (nifo_tlv_len s (v - TLV_SIZE) + of_nat (length bs)))\<rparr>"

lemma nifo_extend_last_ok:
  assumes blk: "nifo_block s q" and n: "nf_node s q = Some n" "nn_lastoffset n + int (length bs) \<le> nn_maxoffset n"
    and pay: "nifo_payload s q = A @ le32_bytes t @ le32_bytes (of_nat (length B)) @ B" and B: "length B < 2 ^ 31"
    and v: "v = q + NIFO_SIZE + int (length A) + 8"
  shows "nifo_in q s (nifo_extend_last s q v n bs)"
    "nifo_payload (nifo_extend_last s q v n bs) q = A @ le32_bytes t @ le32_bytes (of_nat (length (B @ bs))) @ B @ bs"
proof -
  let ?s' = "nifo_extend_last s q v n bs"
  let ?base = "q + NIFO_SIZE"
  have last: "NIFO_SIZE \<le> nn_lastoffset n" using blk n(1) by (auto simp: nifo_block_def)
  have fill: "nifo_fill s q = length A + 8 + length B" using arg_cong [OF pay, of length] by simp
  have lastn: "nn_lastoffset n = NIFO_SIZE + int (nifo_fill s q)" using n(1) last by (simp add: nifo_fill_def)
  have "nifo_payload s q = (A @ le32_bytes t) @ le32_bytes (of_nat (length B)) @ B" using pay by simp
  from nifo_payload_slice [OF this] have "rd_bytes (nf_mem s) (?base + int (length A) + 4) 4 = le32_bytes (of_nat (length B))"
    by (simp add: add.assoc)
  then have tl: "nifo_tlv_len s (v - TLV_SIZE) = of_nat (length B)"
    using le32_of_bytes [of "of_nat (length B)" "[]"] by (simp add: nifo_tlv_len_def v TLV_SIZE_def)
  have ub: "uint (of_nat (length B) :: u32) = int (length B)"
    unfolding uint_nat unat_length [OF B] by (rule refl)
  define m1 where "m1 = wr_bytes (nf_mem s) (?base + int (length A) + 8 + int (length B)) bs"
  define w where "w = le32_bytes (of_nat (length (B @ bs)) :: u32)"
  have mem: "nf_mem ?s' = wr_bytes m1 (?base + int (length A) + 4) w"
    unfolding nifo_extend_last_def tl ub by (simp add: m1_def w_def v TLV_SIZE_def add.assoc)
  have node: "nf_node ?s' = (nf_node s)(q \<mapsto> n\<lparr>nn_lastoffset := nn_lastoffset n + int (length bs)\<rparr>)"
    "nf_mems ?s' = nf_mems s" "nf_link ?s' = nf_link s" "nf_procID ?s' = nf_procID s"
    by (simp_all add: nifo_extend_last_def)
  have wl: "length w = 4" by (simp add: w_def)
  have "nifo_block ?s' q" using blk n last by (auto simp: nifo_block_def node)
  moreover have "nf_mem ?s' a = nf_mem s a" if "a < ?base \<or> q + nn_maxoffset n \<le> a" for a
    using that n(2) unfolding mem m1_def lastn fill by (subst wr_bytes_other, use wl in force)+ simp
  ultimately show "nifo_in q s ?s'" using blk n(1) by (auto simp: nifo_in_def node)
  have fill': "nifo_fill ?s' q = length A + (4 + (4 + (length B + length bs)))"
    using last fill lastn by (simp add: nifo_fill_def node)
  have r1: "rd_bytes (nf_mem ?s') ?base (length A) = rd_bytes (nf_mem s) ?base (length A)"
    and r2: "rd_bytes (nf_mem ?s') (?base + int (length A)) 4 = rd_bytes (nf_mem s) (?base + int (length A)) 4"
    and r4: "rd_bytes (nf_mem ?s') (?base + int (length A) + 4 + 4) (length B) = rd_bytes (nf_mem s) (?base + int (length A) + 4 + 4) (length B)"
    by (simp_all add: mem m1_def rd_wr_other wl)
  have r3: "rd_bytes (nf_mem ?s') (?base + int (length A) + 4) 4 = w"
    using rd_wr_same [of m1 "?base + int (length A) + 4" w] wl by (simp add: mem)
  have "rd_bytes (nf_mem ?s') (?base + int (length A) + 4 + 4 + int (length B)) (length bs) =
      rd_bytes m1 (?base + int (length A) + 4 + 4 + int (length B)) (length bs)"
    unfolding mem by (rule rd_wr_other) (simp add: wl)
  also have "\<dots> = bs"
    using rd_wr_same [of "nf_mem s" "?base + int (length A) + 8 + int (length B)" bs] by (simp add: m1_def add.assoc)
  finally have r5: "rd_bytes (nf_mem ?s') (?base + int (length A) + 4 + 4 + int (length B)) (length bs) = bs" .
  have pay': "nifo_payload s q = [] @ A @ le32_bytes t @ le32_bytes (of_nat (length B)) @ B"
    "nifo_payload s q = A @ le32_bytes t @ (le32_bytes (of_nat (length B)) @ B)"
    "nifo_payload s q = (A @ le32_bytes t @ le32_bytes (of_nat (length B))) @ B @ []" using pay by simp_all
  have "nifo_payload ?s' q = A @ le32_bytes t @ w @ B @ bs"
    unfolding nifo_payload_def fill' rd_bytes_add using r1 r2 r3 r4 r5
      nifo_payload_slice [OF pay'(1)] nifo_payload_slice [OF pay'(2)] nifo_payload_slice [OF pay'(3)]
    by (simp add: add.assoc)
  then show "nifo_payload ?s' q = A @ le32_bytes t @ le32_bytes (of_nat (length (B @ bs))) @ B @ bs"
    by (simp add: w_def)
qed

section \<open>Rings and nodes\<close>

text \<open>The rings hold every node that is in use.\<close>

definition nifo_full :: "nifo \<Rightarrow> offset list list list \<Rightarrow> bool" where
  "nifo_full s css \<longleftrightarrow> nifo_lists s css \<and> nifo_used (nf_mems s) = set (concat (concat css))"

lemma mset_concat_cong: "mset xss = mset yss \<Longrightarrow> mset (concat xss) = mset (concat yss)"
  by (metis mset_concat mset_map sum_mset_sum_list)

lemma nifo_lists_mset:
  assumes "nifo_lists s css" "mset css' = mset css"
  shows "nifo_lists s css'"
proof (rule nifo_lists_perm [OF assms(1)])
  show "set css' \<subseteq> set css" using mset_eq_setD [OF assms(2)] by simp
  have "mset (concat (concat css')) = mset (concat (concat css))"
    using assms(2) by (intro mset_concat_cong)
  from mset_eq_imp_distinct_iff [OF this] show "distinct (concat (concat css'))"
    using nifo_listsD(4) [OF assms(1)] by simp
qed

lemma nifo_full_mset:
  assumes "nifo_full s css" "mset css' = mset css"
  shows "nifo_full s css'"
  using nifo_lists_mset [OF _ assms(2)] mset_eq_setD [OF assms(2)] assms(1) by (simp add: nifo_full_def)

lemma nifo_full_delete:
  assumes "nifo_full s ((c # cs) # rest)"
  shows "\<exists>s'. nifo_node_delete s (hd c) = Some s' \<and> nifo_full s' rest \<and> nifo_same s s'"
proof -
  have l: "nifo_lists s ((c # cs) # rest)" using assms by (simp add: nifo_full_def)
  obtain s' where s': "nifo_node_delete s (hd c) = Some s'" "nifo_lists s' rest" "nifo_same s s'"
    "nifo_used (nf_mems s') = nifo_used (nf_mems s) - set (concat (c # cs))"
    using nifo_node_delete_ring [OF l] by blast
  have "distinct (concat (c # cs) @ concat (concat rest))" using nifo_listsD(4) [OF l] by simp
  moreover have "nifo_used (nf_mems s) = set (concat (c # cs)) \<union> set (concat (concat rest))"
    using assms by (simp add: nifo_full_def Un_assoc)
  ultimately have "nifo_full s' rest" using s'(2,4) unfolding nifo_full_def distinct_append by blast
  then show ?thesis using s'(1,3) by blast
qed

lemma nifo_full_alloc:
  assumes "nifo_full s css" "nifo_zone s zid"
  shows "mems_live (nf_mems s) zid \<noteq> mems_cells (nf_mems s) zid \<Longrightarrow>
      \<exists>s' q. nifo_node_alloc s now = Some (s', Some q) \<and> nifo_fresh s s' zid q \<and> nifo_full s' ([[q]] # css)"
    "mems_live (nf_mems s) zid = mems_cells (nf_mems s) zid \<Longrightarrow>
      \<exists>s'. nifo_node_alloc s now = Some (s', None) \<and> nifo_same s s' \<and> nifo_zone s' zid \<and> nifo_full s' css"
proof -
  assume "mems_live (nf_mems s) zid \<noteq> mems_cells (nf_mems s) zid"
  then obtain s' q where a: "nifo_node_alloc s now = Some (s', Some q)" "nifo_fresh s s' zid q"
    using nifo_node_alloc_ok [OF assms(2)] by blast
  have "nifo_full s' ([[q]] # css)"
    using nifo_fresh_lists [OF assms(2) a(2)] nifo_fresh_used [OF assms(2) a(2)] assms(1) by (simp add: nifo_full_def)
  then show "\<exists>s' q. nifo_node_alloc s now = Some (s', Some q) \<and> nifo_fresh s s' zid q \<and> nifo_full s' ([[q]] # css)"
    using a by blast
next
  assume "mems_live (nf_mems s) zid = mems_cells (nf_mems s) zid"
  then obtain m' where m: "nifo_node_alloc s now = Some (s\<lparr>nf_mems := m'\<rparr>, None)" "mems_valid m' zid"
    "mems_live m' zid = mems_live (nf_mems s) zid" "mems_frame (nf_mems s) m' zid"
    using nifo_node_alloc_full [OF assms(2)] by blast
  define s' where "s' = s\<lparr>nf_mems := m'\<rparr>"
  have same: "nifo_same s s'" using m(4) by (simp add: nifo_same_def s'_def mems_frame_def)
  have wf: "mems_wf (nf_mems s')" using m(2) by (simp add: s'_def mems_valid_def)
  have len: "length (mi_stMEMSZONE m') = length (mi_stMEMSZONE (nf_mems s))"
    using m(4) unfolding mems_frame_def by (metis length_map)
  have live: "mems_live m' k = mems_live (nf_mems s) k" if "unat k < length (mi_stMEMSZONE (nf_mems s))" for k
    using m(3,4) that by (cases "k = zid") (simp_all add: mems_frame_def)
  have used: "nifo_used (nf_mems s') = nifo_used (nf_mems s)"
    by (auto simp: nifo_used_def s'_def len live)
  have "nifo_full s' css"
    using assms(1) wf unfolding nifo_full_def used unfolding nifo_lists_def used by (simp add: s'_def)
  then show "\<exists>s'. nifo_node_alloc s now = Some (s', None) \<and> nifo_same s s' \<and> nifo_zone s' zid \<and> nifo_full s' css"
    using m(1) same nifo_same_zone(1) [OF same wf assms(2)] by (auto simp: s'_def)
qed

end
