(* ===== verification/TcpTypes.thy ===== *)
theory TcpTypes
  imports Prelude
begin

text \<open>
  The data of the TCP session analysis \<^verbatim>\<open>proj/UPST_PROJECT/TAF/SRC/A_TCP\<close>: the constants and structures
  of \<^verbatim>\<open>CGALIB/common_stg.pstg\<close> and \<^verbatim>\<open>INC/capdef.h\<close>, with the fields that the analysis uses. The
  sixteen packet counters that \<open>TCP_SESS\<close>, \<open>TCP_INFO\<close> and \<open>LOG_TCP_SESS\<close> share are one record
  \<open>ipcnt\<close> here. \<open>STIME\<close> and \<open>MTIME\<close> are \<open>int\<close>; addresses (\<open>IP4\<close>) are used as 32 bits only.
\<close>

section \<open>Constants\<close>

definition DEF_FROM_CLIENT :: u8 where "DEF_FROM_CLIENT = 1"
definition DEF_FROM_SERVER :: u8 where "DEF_FROM_SERVER = 2"
definition DEF_ARRAY_RTX :: nat where "DEF_ARRAY_RTX = 3"
definition DEF_STATUS_SYN :: u8 where "DEF_STATUS_SYN = 1"
definition DEF_STATUS_SYNACK :: u8 where "DEF_STATUS_SYNACK = 2"
definition DEF_STATUS_ACK :: u8 where "DEF_STATUS_ACK = 4"
definition DEF_FIN_0 :: u8 where "DEF_FIN_0 = 0"
definition DEF_FIN_1 :: u8 where "DEF_FIN_1 = 1"
definition DEF_FIN_2 :: u8 where "DEF_FIN_2 = 2"
definition DEF_FIN_3 :: u8 where "DEF_FIN_3 = 3"
definition DEF_END_NORMAL :: u8 where "DEF_END_NORMAL = 1"
definition DEF_END_ABNORMAL :: u8 where "DEF_END_ABNORMAL = 2"
definition DEF_END_LONGLAST :: u8 where "DEF_END_LONGLAST = 3"
definition DEF_END_RST :: u8 where "DEF_END_RST = 4"
definition SYN_RCV_OFF :: u8 where "SYN_RCV_OFF = 0"
definition SYN_RCV_ON :: u8 where "SYN_RCV_ON = 1"
definition TCP_SUCCESS :: u16 where "TCP_SUCCESS = 0"
definition TCP_NOERR_FIN_E1 :: u16 where "TCP_NOERR_FIN_E1 = 1"
definition TCP_NOERR_FIN_E2 :: u16 where "TCP_NOERR_FIN_E2 = 2"
definition ABNORMAL_TRANS :: u16 where "ABNORMAL_TRANS = 15"
definition LONGLAST_SYN_TRANS :: u16 where "LONGLAST_SYN_TRANS = 31"
definition LONGLAST_SYNACK_TRANS :: u16 where "LONGLAST_SYNACK_TRANS = 32"
definition LONGLAST_NOFIN_TRANS :: u16 where "LONGLAST_NOFIN_TRANS = 33"
definition LONGLAST_FIN_E1 :: u16 where "LONGLAST_FIN_E1 = 34"
definition LONGLAST_FIN_E2 :: u16 where "LONGLAST_FIN_E2 = 35"
definition TCP_ERR_RST_E1_SYN :: u16 where "TCP_ERR_RST_E1_SYN = 41"
definition TCP_ERR_RST_E1_SYNACK :: u16 where "TCP_ERR_RST_E1_SYNACK = 42"
definition TCP_ERR_RST_E1_NOFIN :: u16 where "TCP_ERR_RST_E1_NOFIN = 43"
definition TCP_ERR_RST_E1_FIN_E1 :: u16 where "TCP_ERR_RST_E1_FIN_E1 = 44"
definition TCP_ERR_RST_E1_FIN_E2 :: u16 where "TCP_ERR_RST_E1_FIN_E2 = 45"
definition TCP_ERR_RST_E2_SYN :: u16 where "TCP_ERR_RST_E2_SYN = 51"
definition TCP_ERR_RST_E2_SYNACK :: u16 where "TCP_ERR_RST_E2_SYNACK = 52"
definition TCP_ERR_RST_E2_NOFIN :: u16 where "TCP_ERR_RST_E2_NOFIN = 53"
definition TCP_ERR_RST_E2_FIN_E1 :: u16 where "TCP_ERR_RST_E2_FIN_E1 = 54"
definition TCP_ERR_RST_E2_FIN_E2 :: u16 where "TCP_ERR_RST_E2_FIN_E2 = 55"
definition DEF_CLI_SUCCESS :: u8 where "DEF_CLI_SUCCESS = 0"
definition DEF_CLI_ETC :: u8 where "DEF_CLI_ETC = 99"
definition DEF_CLI_SYN :: u8 where "DEF_CLI_SYN = 11"
definition DEF_CLI_ACK :: u8 where "DEF_CLI_ACK = 12"
definition DEF_CLI_DATA :: u8 where "DEF_CLI_DATA = 23"
definition DEF_CLI_RST :: u8 where "DEF_CLI_RST = 34"
definition DEF_CLI_FIN :: u8 where "DEF_CLI_FIN = 35"
definition DEF_CLI_FINACK :: u8 where "DEF_CLI_FINACK = 36"
definition DEF_SVR_SUCCESS :: u8 where "DEF_SVR_SUCCESS = 0"
definition DEF_SVR_ETC :: u8 where "DEF_SVR_ETC = 99"
definition DEF_SVR_SYNACK :: u8 where "DEF_SVR_SYNACK = 11"
definition DEF_SVR_DATA :: u8 where "DEF_SVR_DATA = 22"
definition DEF_SVR_RST :: u8 where "DEF_SVR_RST = 33"
definition DEF_SVR_FIN :: u8 where "DEF_SVR_FIN = 34"
definition DEF_SVR_FINACK :: u8 where "DEF_SVR_FINACK = 35"
definition DEF_TCP_START :: int where "DEF_TCP_START = 1"
definition DEF_TCP_DATA :: int where "DEF_TCP_DATA = 2"
definition DEF_TCP_END :: int where "DEF_TCP_END = 3"
definition DEF_TCP_UPDATE :: int where "DEF_TCP_UPDATE = 4"
definition DEF_RETRANS_OFF :: int where "DEF_RETRANS_OFF = 0"
definition DEF_PROTOCOL_TCP :: u8 where "DEF_PROTOCOL_TCP = 6"
definition TCP_FIN :: u8 where "TCP_FIN = 0x01"
definition TCP_SYN :: u8 where "TCP_SYN = 0x02"
definition TCP_RST :: u8 where "TCP_RST = 0x04"
definition TCP_ACK :: u8 where "TCP_ACK = 0x10"
definition TCP_SYNACK :: u8 where "TCP_SYNACK = 0x12"
definition CAP_HEADER_NUM :: u32 where "CAP_HEADER_NUM = 1"
definition ETH_DATA_NUM :: u32 where "ETH_DATA_NUM = 2"
definition INFO_ETH_NUM :: u32 where "INFO_ETH_NUM = 3"
definition CLEAR_CALL_NUM :: u32 where "CLEAR_CALL_NUM = 11"

text \<open>\<open>OFFSET_SEQ\<close>: the arithmetic is that of \<open>unsigned int\<close>, in which \<open>MAX_SEQUENCE + 1\<close> is 0.\<close>

definition MAX_SEQUENCE :: u32 where "MAX_SEQUENCE = 0xffffffff"

definition OFFSET_SEQ :: "u32 \<Rightarrow> u32 \<Rightarrow> u32" where
  "OFFSET_SEQ VALID_SEQ NOW_SEQ =
     (if VALID_SEQ \<le> NOW_SEQ then NOW_SEQ - VALID_SEQ else MAX_SEQUENCE + 1 + NOW_SEQ - VALID_SEQ)"

section \<open>Structures\<close>

text \<open>\<open>Capture_Header_Msg\<close> and \<open>INFO_ETH\<close>: what the capture knows of a packet.\<close>

record caphead =
  cp_bRtxType :: u8
  cp_curtime :: int
  cp_ucurtime :: int
  cp_datalen :: int

record infoip =
  ip_wTotalLength :: u16
  ip_wIPHeaderLen :: u16
  ip_ucProtocol :: u8
  ip_usIdent :: u16
  ip_usIPFrag :: u16
  ip_dwSrcIP :: u32
  ip_dwDestIP :: u32

record infoudptcp =
  ut_nControlType :: u8
  ut_wDataLen :: u16
  ut_wSrcPort :: u16
  ut_wDestPort :: u16
  ut_seq :: u32
  ut_ack :: u32
  ut_window :: u32
  ut_mss :: u16

record infoeth =
  ie_usL4Code :: u16
  ie_usL7Code :: u16
  ie_usAppCode :: u16
  ie_stIP :: infoip
  ie_stUDPTCP :: infoudptcp
  ie_offset :: offset

record tcpsesskey =
  sk_uiSIP :: u32
  sk_uiDIP :: u32
  sk_usSPort :: u16
  sk_usDPort :: u16

text \<open>The packet counters of a session since its last message, of a message, of a log.\<close>

record ipcnt =
  cn_uiIPDataUpPktCnt :: u32
  cn_uiIPDataDnPktCnt :: u32
  cn_uiIPTotUpPktCnt :: u32
  cn_uiIPTotDnPktCnt :: u32
  cn_uiIPDataUpRetransCnt :: u32
  cn_uiIPDataDnRetransCnt :: u32
  cn_uiIPTotUpRetransCnt :: u32
  cn_uiIPTotDnRetransCnt :: u32
  cn_uiIPDataUpPktSize :: u32
  cn_uiIPDataDnPktSize :: u32
  cn_uiIPTotUpPktSize :: u32
  cn_uiIPTotDnPktSize :: u32
  cn_uiIPDataUpRetransSize :: u32
  cn_uiIPDataDnRetransSize :: u32
  cn_uiIPTotUpRetransSize :: u32
  cn_uiIPTotDnRetransSize :: u32

definition ipcnt_zero :: ipcnt where
  "ipcnt_zero = \<lparr>cn_uiIPDataUpPktCnt = 0, cn_uiIPDataDnPktCnt = 0, cn_uiIPTotUpPktCnt = 0, cn_uiIPTotDnPktCnt = 0,
     cn_uiIPDataUpRetransCnt = 0, cn_uiIPDataDnRetransCnt = 0, cn_uiIPTotUpRetransCnt = 0, cn_uiIPTotDnRetransCnt = 0,
     cn_uiIPDataUpPktSize = 0, cn_uiIPDataDnPktSize = 0, cn_uiIPTotUpPktSize = 0, cn_uiIPTotDnPktSize = 0,
     cn_uiIPDataUpRetransSize = 0, cn_uiIPDataDnRetransSize = 0, cn_uiIPTotUpRetransSize = 0, cn_uiIPTotDnRetransSize = 0\<rparr>"

record tcpsess =
  ts_uiLastUpdateTime :: int
  ts_uiLastUpdateMTime :: int
  ts_uiSessCreateTime :: int
  ts_uiSessCreateMTime :: int
  ts_uiLastSessUpdateTime :: int
  ts_ucStatus :: u8
  ts_ucFinStatus :: u8
  ts_ucEndStatus :: u8
  ts_ucSynRtx :: u8
  ts_ucFinRtx :: u8
  ts_ucRstRtx :: u8
  ts_ucRcvSyn :: u8
  ts_uiSynSeq :: u32
  ts_uiSynAckSeq :: u32
  ts_uiSynAckAck :: u32
  ts_offset_LOG :: offset
  ts_uiReqCount :: u32
  ts_offset_ReqData :: offset
  ts_uiResCount :: u32
  ts_offset_ResData :: offset
  ts_dSndMsgQ :: int
  ts_uiFinChkSeq :: "u32 list"
  ts_uiFinChkAck :: "u32 list"
  ts_uiLastReqSeq :: u32
  ts_uiLastResSeq :: u32
  ts_uiNextReqSeq :: u32
  ts_uiNextResSeq :: u32
  ts_uiRcvReqAck :: u32
  ts_uiRcvResAck :: u32
  ts_uiRcvReqAckTime :: int
  ts_uiRcvReqAckMTime :: int
  ts_uiRcvResAckTime :: int
  ts_uiRcvResAckMTime :: int
  ts_usL4Code :: u16
  ts_usL7Code :: u16
  ts_usAppCode :: u16
  ts_usL4FailCode :: u16
  ts_timerNID :: u64
  ts_ucTcpClientStatus :: u8
  ts_ucTcpServerStatus :: u8
  ts_cnt :: ipcnt

text \<open>\<open>LOG_TCP_SESS\<close>, with the fields of its common part that are set.\<close>

record tcplog =
  tl_uiCallTime :: int
  tl_uiCallMTime :: int
  tl_uiClientIP :: u32
  tl_uiNASName :: u32
  tl_usPlatformType :: int
  tl_usSvcL4Type :: u16
  tl_ucSubSysNo :: u8
  tl_usClientPort :: u16
  tl_uiServerIP :: u32
  tl_usServerPort :: u16
  tl_uiTcpSynTime :: int
  tl_uiTcpSynMTime :: int
  tl_uiTcpSynAckTime :: int
  tl_uiTcpSynAckMTime :: int
  tl_uiTcpSynAckAckTime :: int
  tl_uiTcpSynAckAckMTime :: int
  tl_llConnSetupGapTime :: int
  tl_uiTcpFinTime :: int
  tl_uiTcpFinMTime :: int
  tl_uiTcpFinAckTime :: int
  tl_uiTcpFinAckMTime :: int
  tl_uiTcpUpLastPktTime :: int
  tl_uiTcpUpLastPktMTime :: int
  tl_uiTcpDnLastPktTime :: int
  tl_uiTcpDnLastPktMTime :: int
  tl_uiTcpLastPktTime :: int
  tl_uiTcpLastPktMTime :: int
  tl_llTcpSessGapTime :: int
  tl_ucTcpClientStatus :: u8
  tl_ucTcpServerStatus :: u8
  tl_usL4FailCode :: u16
  tl_ucTcpSynCnt :: u8
  tl_ucTcpSynAckCnt :: u8
  tl_ucTcpUpFinCnt :: u8
  tl_ucTcpDnFinCnt :: u8
  tl_ucTcpUpRstCnt :: u8
  tl_ucTcpDnRstCnt :: u8
  tl_cnt :: ipcnt
  tl_uiTcpUpBodySize :: u32
  tl_uiTcpDnBodySize :: u32
  tl_uiTcpUpRetransBodySize :: u32
  tl_uiTcpDnRetransBodySize :: u32
  tl_usTcpUpMSS :: u16
  tl_usTcpDnMSS :: u16
  tl_usTcpUpFirstWindowSize :: u16
  tl_usTcpDnFirstWindowSize :: u16
  tl_uiOpStartTime :: int
  tl_uiOpStartMTime :: int
  tl_uiOpEndTime :: int
  tl_uiOpEndMTime :: int

record tcpinfo =
  ti_uiDataSize :: u32
  ti_uiSrvIP :: u32
  ti_uiCliIP :: u32
  ti_usSrvPort :: u16
  ti_usCliPort :: u16
  ti_uiSeqNum :: u32
  ti_uiAckNum :: u32
  ti_uiSOffset :: offset
  ti_uiCapTime :: int
  ti_uiCapMTime :: int
  ti_uiAckTime :: int
  ti_uiAckMTime :: int
  ti_usAppCode :: u16
  ti_usL4Code :: u16
  ti_usL7Code :: u16
  ti_usL4FailCode :: u16
  ti_ucRtx :: u8
  ti_cTcpFlag :: int
  ti_cRetrans :: int
  ti_ucProtocol :: u8
  ti_ucTcpClientStatus :: u8
  ti_ucTcpServerStatus :: u8
  ti_cnt :: ipcnt

end
