(* ===== verification/TcpKeys.thy ===== *)
theory TcpKeys
  imports TcpTypes
begin

text \<open>
  \<^verbatim>\<open>A_TCP/tcp_sess.c\<close>: the keys of the sessions of each client. The table is an array of nodes. The nodes
  that are not in use are linked by \<open>next\<close>, those in use by \<open>next\<close> and \<open>prev\<close>; the nodes of one client are
  linked by \<open>uiTCPNext\<close> and \<open>uiTCPPrev\<close>. The hash table of the clients holds a copy of the first node of
  each, of which only the index is used. Links are indices, 0 is none. Log messages are left out.
\<close>

section \<open>State\<close>

definition MAX_SESSKEY_LIST :: nat where "MAX_SESSKEY_LIST = 20002"

record sesskeylist =
  kl_stSessKey :: tcpsesskey
  kl_next :: u32
  kl_prev :: u32
  kl_uiTCPNext :: u32
  kl_uiTCPPrev :: u32
  kl_uiIndex :: u32
  kl_SessStartTime :: u32

text \<open>\<open>kt_stNode\<close> is the array: it has the indices below \<open>MAX_SESSKEY_LIST\<close>.\<close>

record sesskeytbl =
  kt_uiFreeList :: u32
  kt_uiUsedFirst :: u32
  kt_uiUsedLast :: u32
  kt_uiCurrCount :: u32
  kt_stNode :: "u32 \<rightharpoonup> sesskeylist"

definition tcpsesskey_zero :: tcpsesskey where
  "tcpsesskey_zero = \<lparr>sk_uiSIP = 0, sk_uiDIP = 0, sk_usSPort = 0, sk_usDPort = 0\<rparr>"

definition kt_upd :: "sesskeytbl \<Rightarrow> u32 \<Rightarrow> (sesskeylist \<Rightarrow> sesskeylist) \<Rightarrow> sesskeytbl option" where
  "kt_upd t i f = do { n \<leftarrow> kt_stNode t i; Some (t\<lparr>kt_stNode := (kt_stNode t)(i \<mapsto> f n)\<rparr>) }"

section \<open>Initialisation\<close>

definition key_init_node :: "u32 \<Rightarrow> u32 \<Rightarrow> sesskeylist \<Rightarrow> sesskeylist" where
  "key_init_node i nx n = n\<lparr>kl_prev := 0, kl_next := nx, kl_uiIndex := i, kl_uiTCPNext := 0, kl_uiTCPPrev := 0,
     kl_stSessKey := tcpsesskey_zero\<rparr>"

text \<open>The loop from \<open>i\<close>, \<open>left\<close> turns.\<close>

fun key_init_loop :: "sesskeytbl \<Rightarrow> u32 \<Rightarrow> nat \<Rightarrow> sesskeytbl option" where
  "key_init_loop t i 0 = Some t"
| "key_init_loop t i (Suc left) = do { t1 \<leftarrow> kt_upd t i (key_init_node i (i + 1)); key_init_loop t1 (i + 1) left }"

definition InitTCPKeyList :: "sesskeytbl \<Rightarrow> sesskeytbl option" where
  "InitTCPKeyList t = do {
     let last = of_nat (MAX_SESSKEY_LIST - 1);
     t1 \<leftarrow> key_init_loop t 0 (MAX_SESSKEY_LIST - 1);
     t2 \<leftarrow> kt_upd t1 last (key_init_node last 0);
     Some (t2\<lparr>kt_uiFreeList := 1, kt_uiUsedFirst := 0, kt_uiUsedLast := 0, kt_uiCurrCount := 0\<rparr>)
   }"

section \<open>Taking a node\<close>

definition pGetSessKeyList :: "sesskeytbl \<Rightarrow> (sesskeytbl \<times> u32 option) option" where
  "pGetSessKeyList t = do {
     n \<leftarrow> kt_stNode t (kt_uiFreeList t);
     if kl_next n < 1 then Some (t, None)
     else if kl_uiIndex n \<noteq> kt_uiFreeList t then Some (t, None)
     else do {
       let i = kt_uiFreeList t;
       let t1 = t\<lparr>kt_uiFreeList := kl_next n\<rparr>;
       t2 \<leftarrow> kt_upd t1 i (\<lambda>n. n\<lparr>kl_next := kt_uiUsedFirst t1, kl_prev := 0\<rparr>);
       t3 \<leftarrow> (if kt_uiUsedFirst t2 > 0 then kt_upd t2 (kt_uiUsedFirst t2) (\<lambda>n. n\<lparr>kl_prev := i\<rparr>) else Some t2);
       let t4 = t3\<lparr>kt_uiUsedFirst := i\<rparr>;
       let t5 = (if kt_uiUsedLast t4 = 0 then t4\<lparr>kt_uiUsedLast := i\<rparr> else t4);
       Some (t5\<lparr>kt_uiCurrCount := kt_uiCurrCount t5 + 1\<rparr>, Some i)
     }
   }"

definition dGetSessKeyList :: "sesskeytbl \<Rightarrow> (sesskeytbl \<times> int \<times> u32 option) option" where
  "dGetSessKeyList t = do {
     (t1, r) \<leftarrow> pGetSessKeyList t;
     case r of None \<Rightarrow> Some (t1, -1, None) | Some i \<Rightarrow> Some (t1, 0, Some i)
   }"

text \<open>The caller of \<open>dGetSessKeyList\<close> fills in the session.\<close>

definition key_store :: "sesskeytbl \<Rightarrow> u32 \<Rightarrow> tcpsesskey \<Rightarrow> u32 \<Rightarrow> sesskeytbl option" where
  "key_store t i key start = kt_upd t i (\<lambda>n. n\<lparr>kl_stSessKey := key, kl_SessStartTime := start\<rparr>)"

section \<open>The nodes of a client\<close>

text \<open>\<open>h\<close> is the copy in the hash table, \<open>pAdd\<close> the index of the new node.\<close>

definition dAddSessKeyNext :: "sesskeytbl \<Rightarrow> sesskeylist \<Rightarrow> u32 \<Rightarrow> (sesskeytbl \<times> int) option" where
  "dAddSessKeyNext t h pAdd = do {
     a \<leftarrow> kt_stNode t pAdd;
     if unat (kl_uiIndex a) \<ge> MAX_SESSKEY_LIST \<or> kl_uiIndex a = 0 then Some (t, -1)
     else do {
       let p = kl_uiIndex h;
       n \<leftarrow> kt_stNode t p;
       if kl_stSessKey n = kl_stSessKey a then Some (t, -2)
       else do {
         t1 \<leftarrow> kt_upd t pAdd (\<lambda>a. a\<lparr>kl_uiTCPPrev := kl_uiIndex n, kl_uiTCPNext := kl_uiTCPNext n\<rparr>);
         n1 \<leftarrow> kt_stNode t1 p;
         t2 \<leftarrow> (if kl_uiTCPNext n1 > 0 then do {
                  nx \<leftarrow> kt_stNode t1 (kl_uiTCPNext n1);
                  if kl_uiTCPPrev nx = kl_uiIndex n1
                  then kt_upd t1 (kl_uiTCPNext n1) (\<lambda>x. x\<lparr>kl_uiTCPPrev := kl_uiIndex a\<rparr>) else Some t1
                } else Some t1);
         t3 \<leftarrow> kt_upd t2 p (\<lambda>n. n\<lparr>kl_uiTCPNext := kl_uiIndex a\<rparr>);
         Some (t3, 0)
       }
     }
   }"

definition FreeSessKeyList :: "sesskeytbl \<Rightarrow> u32 \<Rightarrow> sesskeytbl option" where
  "FreeSessKeyList t pos =
     (if unat pos < 1 \<or> unat pos > MAX_SESSKEY_LIST then Some t
      else do {
        n \<leftarrow> kt_stNode t pos;
        t1 \<leftarrow> (if kl_prev n > 0 then do {
                 pn \<leftarrow> kt_stNode t (kl_prev n);
                 if kl_next pn = kl_uiIndex n then kt_upd t (kl_prev n) (\<lambda>x. x\<lparr>kl_next := kl_next n\<rparr>) else Some t
               } else if kl_uiIndex n = kt_uiUsedFirst t then Some (t\<lparr>kt_uiUsedFirst := kl_next n\<rparr>)
               else Some t);
        n1 \<leftarrow> kt_stNode t1 pos;
        t2 \<leftarrow> (if kl_next n1 > 0 then do {
                 nn \<leftarrow> kt_stNode t1 (kl_next n1);
                 if kl_prev nn = kl_uiIndex n1 then kt_upd t1 (kl_next n1) (\<lambda>x. x\<lparr>kl_prev := kl_prev n1\<rparr>) else Some t1
               } else if kl_uiIndex n1 = kt_uiUsedLast t1 then Some (t1\<lparr>kt_uiUsedLast := kl_prev n1\<rparr>)
               else Some t1);
        t3 \<leftarrow> kt_upd t2 pos (\<lambda>x. x\<lparr>kl_prev := 0, kl_next := kt_uiFreeList t2, kl_uiTCPNext := 0, kl_uiTCPPrev := 0,
                                   kl_stSessKey := tcpsesskey_zero\<rparr>);
        n3 \<leftarrow> kt_stNode t3 pos;
        Some (t3\<lparr>kt_uiFreeList := kl_uiIndex n3, kt_uiCurrCount := kt_uiCurrCount t3 - 1\<rparr>)
      })"

text \<open>The walk to the last node of a client, with the number of its nodes.\<close>

partial_function (option) key_walk :: "sesskeytbl \<Rightarrow> u32 \<Rightarrow> nat \<Rightarrow> (u32 \<times> nat) option" where
  "key_walk t i cnt =
     (if i = 0 then Some (i, cnt)
      else do {
        n \<leftarrow> kt_stNode t i;
        if kl_uiTCPNext n > 0 then key_walk t (kl_uiTCPNext n) (cnt + 1) else Some (i, cnt + 1)
      })"

text \<open>A node leaves the list of its client.\<close>

definition key_unchain :: "sesskeytbl \<Rightarrow> u32 \<Rightarrow> sesskeytbl option" where
  "key_unchain t i = do {
     n \<leftarrow> kt_stNode t i;
     t1 \<leftarrow> (if kl_uiTCPPrev n > 0 then do {
              pn \<leftarrow> kt_stNode t (kl_uiTCPPrev n);
              if kl_uiTCPNext pn = kl_uiIndex n
              then kt_upd t (kl_uiTCPPrev n) (\<lambda>x. x\<lparr>kl_uiTCPNext := kl_uiTCPNext n\<rparr>) else Some t
            } else Some t);
     n1 \<leftarrow> kt_stNode t1 i;
     (if kl_uiTCPNext n1 > 0 then do {
        nn \<leftarrow> kt_stNode t1 (kl_uiTCPNext n1);
        if kl_uiTCPPrev nn = kl_uiIndex n1
        then kt_upd t1 (kl_uiTCPNext n1) (\<lambda>x. x\<lparr>kl_uiTCPPrev := kl_uiTCPPrev n1\<rparr>) else Some t1
      } else Some t1)
   }"

text \<open>The loop of both deletions, from the last node to the first: the nodes that \<open>sel\<close> selects are removed,
  the others counted. \<open>act\<close> is what the caller does with the session of a removed node, on its own state
  \<open>w\<close>. When the first node goes, its successor is copied into the hash table.\<close>

fun key_del_loop ::
  "(sesskeylist \<Rightarrow> bool) \<Rightarrow> (tcpsesskey \<Rightarrow> 'w \<Rightarrow> 'w option) \<Rightarrow> nat \<Rightarrow> u32 \<Rightarrow> int \<Rightarrow> 'w \<times> sesskeytbl \<times> sesskeylist \<Rightarrow>
   (('w \<times> sesskeytbl \<times> sesskeylist) \<times> int) option" where
  "key_del_loop sel act 0 i dCurr s = Some (s, dCurr)"
| "key_del_loop sel act (Suc left) i dCurr (w, t, h) =
     (if i = 0 then Some ((w, t, h), dCurr)
      else do {
        n \<leftarrow> kt_stNode t i;
        if sel n then do {
          t1 \<leftarrow> key_unchain t i;
          n1 \<leftarrow> kt_stNode t1 i;
          w1 \<leftarrow> act (kl_stSessKey n1) w;
          h1 \<leftarrow> (if left = 0 \<and> kl_uiTCPNext n1 > 0 then kt_stNode t1 (kl_uiTCPNext n1) else Some h);
          t2 \<leftarrow> FreeSessKeyList t1 i;
          key_del_loop sel act left (kl_uiTCPPrev n) dCurr (w1, t2, h1)
        } else key_del_loop sel act left (kl_uiTCPPrev n) (dCurr + 1) (w, t, h)
      })"

text \<open>For an index out of range both functions print through a pointer that was never set.\<close>

definition key_del ::
  "(sesskeylist \<Rightarrow> bool) \<Rightarrow> (tcpsesskey \<Rightarrow> 'w \<Rightarrow> 'w option) \<Rightarrow> 'w \<times> sesskeytbl \<times> sesskeylist \<Rightarrow>
   (('w \<times> sesskeytbl \<times> sesskeylist) \<times> int) option" where
  "key_del sel act s = (case s of (w, t, h) \<Rightarrow>
     if unat (kl_uiIndex h) \<ge> MAX_SESSKEY_LIST \<or> kl_uiIndex h = 0 then None
     else do { (i, cnt) \<leftarrow> key_walk t (kl_uiIndex h) 0; key_del_loop sel act cnt i 0 s })"

definition dDelSessKeyNext :: "sesskeytbl \<Rightarrow> sesskeylist \<Rightarrow> tcpsesskey \<Rightarrow> (sesskeytbl \<times> sesskeylist \<times> int) option" where
  "dDelSessKeyNext t h key = do {
     ((w, t1, h1), r) \<leftarrow> key_del (\<lambda>n. kl_stSessKey n = key) (\<lambda>k w. Some w) ((), t, h);
     Some (t1, h1, r)
   }"

text \<open>\<open>close\<close> closes the session of a key, when there is one.\<close>

definition dDelSessKeyList ::
  "(tcpsesskey \<Rightarrow> 'w \<Rightarrow> 'w option) \<Rightarrow> u32 \<Rightarrow> 'w \<times> sesskeytbl \<times> sesskeylist \<Rightarrow> (('w \<times> sesskeytbl \<times> sesskeylist) \<times> int) option" where
  "dDelSessKeyList close uiLastLogTime =
     key_del (\<lambda>n. uiLastLogTime = 0 \<or> kl_SessStartTime n < uiLastLogTime) close"

end
