(* ===== verification/TcpKeysProps.thy ===== *)
theory TcpKeysProps
  imports TcpKeys
begin

text \<open>
  The key lists of \<^verbatim>\<open>tcp_sess.c\<close>: the nodes in use are one doubly linked list, those of a client another,
  and both keep their order when a node leaves. The list of free nodes ends in a node that is never used.
\<close>

section \<open>Doubly linked lists of indices\<close>

text \<open>\<open>nx\<close> and \<open>pv\<close> are the two links, \<open>p\<close> what precedes the segment and \<open>q\<close> what follows it.\<close>

fun kseg :: "('n \<Rightarrow> u32) \<Rightarrow> ('n \<Rightarrow> u32) \<Rightarrow> (u32 \<rightharpoonup> 'n) \<Rightarrow> u32 \<Rightarrow> u32 list \<Rightarrow> u32 \<Rightarrow> bool" where
  "kseg nx pv m p [] q \<longleftrightarrow> True"
| "kseg nx pv m p (x # xs) q \<longleftrightarrow>
     (\<exists>n. m x = Some n \<and> pv n = p \<and> nx n = (if xs = [] then q else hd xs)) \<and> kseg nx pv m x xs q"

definition first_of :: "u32 list \<Rightarrow> u32" where "first_of xs = (if xs = [] then 0 else hd xs)"
definition last_of :: "u32 list \<Rightarrow> u32" where "last_of xs = (if xs = [] then 0 else last xs)"

lemma first_of_simps [simp]: "first_of [] = 0" "first_of (x # xs) = x" "last_of [] = 0" "last_of (xs @ [x]) = x"
  "last_of [x] = x"
  by (simp_all add: first_of_def last_of_def)

lemma kseg_append:
  "kseg nx pv m p (xs @ ys) q \<longleftrightarrow>
     kseg nx pv m p xs (if ys = [] then q else hd ys) \<and> kseg nx pv m (if xs = [] then p else last xs) ys q"
  by (induction xs arbitrary: p) auto

lemma kseg_cong:
  "(\<And>x. x \<in> set xs \<Longrightarrow> map_option nx (m' x) = map_option nx (m x) \<and> map_option pv (m' x) = map_option pv (m x)) \<Longrightarrow>
   kseg nx pv m' p xs q = kseg nx pv m p xs q"
proof (induction xs arbitrary: p)
  case (Cons x xs)
  have "(\<exists>n. m' x = Some n \<and> pv n = p \<and> nx n = k) \<longleftrightarrow> (\<exists>n. m x = Some n \<and> pv n = p \<and> nx n = k)" for k
    using Cons.prems [of x] by (cases "m x"; cases "m' x") auto
  then show ?case using Cons by simp
qed simp

lemma kseg_mid:
  assumes "kseg nx pv m 0 (as @ x # bs) 0"
  obtains n where "m x = Some n" "pv n = last_of as" "nx n = first_of bs"
  using assms by (auto simp: kseg_append last_of_def first_of_def split: if_splits)

text \<open>One link of an end written.\<close>

lemma kseg_set_last:
  assumes "kseg nx pv m p (as @ [x]) q" "distinct (as @ [x])" "m x = Some n" "nx n' = q'" "pv n' = pv n"
  shows "kseg nx pv (m(x \<mapsto> n')) p (as @ [x]) q'"
proof -
  have "kseg nx pv (m(x \<mapsto> n')) p as x = kseg nx pv m p as x" by (rule kseg_cong) (use assms(2) in auto)
  then show ?thesis using assms by (simp add: kseg_append)
qed

lemma kseg_set_first:
  assumes "kseg nx pv m p (x # bs) q" "distinct (x # bs)" "m x = Some n" "pv n' = p'" "nx n' = nx n"
  shows "kseg nx pv (m(x \<mapsto> n')) p' (x # bs) q"
proof -
  have "kseg nx pv (m(x \<mapsto> n')) x bs q = kseg nx pv m x bs q" by (rule kseg_cong) (use assms(2) in auto)
  then show ?thesis using assms by auto
qed

text \<open>An element cut out: only the links of its neighbours change.\<close>

definition kseg_cuts :: "('n \<Rightarrow> u32) \<Rightarrow> ('n \<Rightarrow> u32) \<Rightarrow> (u32 \<rightharpoonup> 'n) \<Rightarrow> (u32 \<rightharpoonup> 'n) \<Rightarrow> u32 list \<Rightarrow> u32 list \<Rightarrow> bool" where
  "kseg_cuts nx pv m m' as bs \<longleftrightarrow> (\<forall>y \<in> set (as @ bs). \<exists>n n'. m y = Some n \<and> m' y = Some n' \<and>
     nx n' = (if as \<noteq> [] \<and> y = last as then first_of bs else nx n) \<and>
     pv n' = (if bs \<noteq> [] \<and> y = hd bs then last_of as else pv n))"

lemma kseg_cut:
  assumes "kseg nx pv m 0 (as @ x # bs) 0" "distinct (as @ x # bs)" "kseg_cuts nx pv m m' as bs"
  shows "kseg nx pv m' 0 (as @ bs) 0"
proof -
  have segs: "kseg nx pv m 0 as x" "kseg nx pv m x bs 0" using assms(1) by (simp_all add: kseg_append)
  note cut = bspec [OF assms(3) [unfolded kseg_cuts_def]]
  have A: "kseg nx pv m' 0 as (first_of bs)"
  proof (cases as rule: rev_cases)
    case (snoc as0 l)
    have "kseg nx pv m' 0 as0 l = kseg nx pv m 0 as0 l"
    proof (rule kseg_cong)
      fix y assume y: "y \<in> set as0"
      then have ne: "y \<noteq> last as" "\<not> (bs \<noteq> [] \<and> y = hd bs)"
        using assms(2) snoc by (auto dest: hd_in_set)
      obtain n n' where "m y = Some n" "m' y = Some n'" "nx n' = nx n" "pv n' = pv n"
        using cut [of y] y snoc ne by auto
      then show "map_option nx (m' y) = map_option nx (m y) \<and> map_option pv (m' y) = map_option pv (m y)" by simp
    qed
    moreover have "\<not> (bs \<noteq> [] \<and> l = hd bs)" using assms(2) snoc by (auto dest: hd_in_set)
    then obtain n n' where "m l = Some n" "m' l = Some n'" "nx n' = first_of bs" "pv n' = pv n"
      using cut [of l] snoc by auto
    ultimately show ?thesis using segs(1) snoc by (auto simp: kseg_append)
  qed simp
  have B: "kseg nx pv m' (last_of as) bs 0"
  proof (cases bs)
    case (Cons b bs0)
    have "kseg nx pv m' b bs0 0 = kseg nx pv m b bs0 0"
    proof (rule kseg_cong)
      fix y assume y: "y \<in> set bs0"
      then have ne: "y \<noteq> b" "\<not> (as \<noteq> [] \<and> y = last as)"
        using assms(2) Cons by (auto dest: last_in_set)
      obtain n n' where "m y = Some n" "m' y = Some n'" "nx n' = nx n" "pv n' = pv n"
        using cut [of y] y Cons ne by auto
      then show "map_option nx (m' y) = map_option nx (m y) \<and> map_option pv (m' y) = map_option pv (m y)" by simp
    qed
    moreover have "\<not> (as \<noteq> [] \<and> b = last as)" using assms(2) Cons by (auto dest: last_in_set)
    then obtain n n' where "m b = Some n" "m' b = Some n'" "nx n' = nx n" "pv n' = last_of as"
      using cut [of b] Cons by auto
    ultimately show ?thesis using segs(2) Cons by auto
  qed simp
  show ?thesis using A B by (auto simp: kseg_append first_of_def last_of_def)
qed

section \<open>Nodes\<close>

definition key_own :: "sesskeytbl \<Rightarrow> u32 set \<Rightarrow> bool" where
  "key_own t X \<longleftrightarrow> (\<forall>x \<in> X. x \<noteq> 0 \<and> (\<exists>n. kt_stNode t x = Some n \<and> kl_uiIndex n = x))"

text \<open>A node without its links for the clients, and without its links for the table.\<close>

definition key_core :: "sesskeylist \<Rightarrow> sesskeylist" where
  "key_core n = n\<lparr>kl_uiTCPNext := 0, kl_uiTCPPrev := 0\<rparr>"

definition key_body :: "sesskeylist \<Rightarrow> sesskeylist" where
  "key_body n = n\<lparr>kl_next := 0, kl_prev := 0\<rparr>"

abbreviation key_chain :: "sesskeytbl \<Rightarrow> u32 list \<Rightarrow> bool" where
  "key_chain t c \<equiv> kseg kl_uiTCPNext kl_uiTCPPrev (kt_stNode t) 0 c 0"

text \<open>A step on the links of the clients at the nodes \<open>X\<close>.\<close>

definition key_tcp_step :: "sesskeytbl \<Rightarrow> sesskeytbl \<Rightarrow> u32 set \<Rightarrow> bool" where
  "key_tcp_step t t' X \<longleftrightarrow> t' = t\<lparr>kt_stNode := kt_stNode t'\<rparr> \<and> (\<forall>x. x \<notin> X \<longrightarrow> kt_stNode t' x = kt_stNode t x) \<and>
     (\<forall>x. map_option key_core (kt_stNode t' x) = map_option key_core (kt_stNode t x))"

lemma key_core_same: "map_option key_core a = Some (key_core n) \<Longrightarrow> \<exists>n'. a = Some n' \<and> key_core n' = key_core n"
  by (cases a) auto

lemma key_unchain_ok:
  assumes "key_chain t (as @ i # bs)" "distinct (as @ i # bs)" "key_own t (set (as @ i # bs))"
  shows "\<exists>t'. key_unchain t i = Some t' \<and> key_chain t' (as @ bs) \<and> key_tcp_step t t' (set (as @ bs)) \<and>
    kt_stNode t' i = kt_stNode t i"
proof -
  obtain n where n: "kt_stNode t i = Some n" "kl_uiTCPPrev n = last_of as" "kl_uiTCPNext n = first_of bs"
    by (rule kseg_mid [OF assms(1)])
  have own: "x \<noteq> 0 \<and> (\<exists>n. kt_stNode t x = Some n \<and> kl_uiIndex n = x)" if "x \<in> set (as @ i # bs)" for x
    by (rule bspec [OF assms(3) [unfolded key_own_def] that])
  have ix: "kl_uiIndex n = i" using own [of i] n(1) by simp
  define m1 where "m1 = (if as = [] then kt_stNode t else (kt_stNode t)(last as \<mapsto> (the (kt_stNode t (last as)))\<lparr>kl_uiTCPNext := first_of bs\<rparr>))"
  define m2 where "m2 = (if bs = [] then m1 else m1(hd bs \<mapsto> (the (m1 (hd bs)))\<lparr>kl_uiTCPPrev := last_of as\<rparr>))"
  have d: "set as \<inter> set bs = {}" "i \<notin> set as" "i \<notin> set bs" using assms(2) by auto
  have las: "last as \<noteq> 0 \<and> last as \<noteq> i \<and> last as \<notin> set bs \<and> last as \<in> set as" if "as \<noteq> []"
  proof -
    have l: "last as \<in> set as" using that by (rule last_in_set)
    with own [of "last as"] show ?thesis using d by (metis disjoint_iff Un_iff set_append)
  qed
  have hbs: "hd bs \<noteq> 0 \<and> hd bs \<noteq> i \<and> hd bs \<notin> set as \<and> hd bs \<in> set bs" if "bs \<noteq> []"
  proof -
    have h: "hd bs \<in> set bs" using that by (rule hd_in_set)
    with own [of "hd bs"] show ?thesis using d by (metis disjoint_iff Un_iff set_append list.set_intros(2))
  qed
  have s1: "(if kl_uiTCPPrev n > 0 then do {
              pn \<leftarrow> kt_stNode t (kl_uiTCPPrev n);
              if kl_uiTCPNext pn = kl_uiIndex n
              then kt_upd t (kl_uiTCPPrev n) (\<lambda>x. x\<lparr>kl_uiTCPNext := kl_uiTCPNext n\<rparr>) else Some t
            } else Some t) = Some (t\<lparr>kt_stNode := m1\<rparr>)"
  proof (cases "as = []")
    case False
    then obtain as0 l where as: "as = as0 @ [l]" by (cases as rule: rev_cases) auto
    then have "key_chain t (as0 @ l # i # bs)" using assms(1) by simp
    then obtain pn where "kt_stNode t l = Some pn" "kl_uiTCPNext pn = i"
      by (rule kseg_mid) (rule that; simp)
    then show ?thesis using las [OF False] as n ix by (simp add: m1_def kt_upd_def word_gt_0)
  qed (use n in \<open>simp add: m1_def\<close>)
  have i1: "m1 i = Some n" using n(1) las by (auto simp: m1_def)
  have s2: "(if kl_uiTCPNext n > 0 then do {
        nn \<leftarrow> kt_stNode (t\<lparr>kt_stNode := m1\<rparr>) (kl_uiTCPNext n);
        if kl_uiTCPPrev nn = kl_uiIndex n
        then kt_upd (t\<lparr>kt_stNode := m1\<rparr>) (kl_uiTCPNext n) (\<lambda>x. x\<lparr>kl_uiTCPPrev := kl_uiTCPPrev n\<rparr>) else Some (t\<lparr>kt_stNode := m1\<rparr>)
      } else Some (t\<lparr>kt_stNode := m1\<rparr>)) = Some (t\<lparr>kt_stNode := m2\<rparr>)"
  proof (cases bs)
    case (Cons b bs0)
    then have "key_chain t ((as @ [i]) @ b # bs0)" using assms(1) by simp
    then obtain nn where "kt_stNode t b = Some nn" "kl_uiTCPPrev nn = i"
      by (rule kseg_mid) (rule that; simp)
    moreover have "as \<noteq> [] \<Longrightarrow> b \<noteq> last as" using las Cons by auto
    ultimately show ?thesis using hbs Cons n ix by (auto simp: m1_def m2_def kt_upd_def word_gt_0)
  qed (use n in \<open>simp add: m2_def\<close>)
  have run: "key_unchain t i = Some (t\<lparr>kt_stNode := m2\<rparr>)"
    using s2 unfolding key_unchain_def n(1) Option.bind.simps s1 by (simp add: i1 split del: if_split)
  have look: "\<exists>k. kt_stNode t y = Some k" if "y \<in> set (as @ bs)" for y using own [of y] that by auto
  have "kseg_cuts kl_uiTCPNext kl_uiTCPPrev (kt_stNode t) m2 as bs"
    unfolding kseg_cuts_def
  proof
    fix y assume y: "y \<in> set (as @ bs)"
    obtain k where k: "kt_stNode t y = Some k" using look [OF y] by blast
    have 1: "m1 y = Some (if as \<noteq> [] \<and> y = last as then k\<lparr>kl_uiTCPNext := first_of bs\<rparr> else k)"
      using k by (auto simp: m1_def)
    have 2: "m2 y = Some (if bs \<noteq> [] \<and> y = hd bs then (the (m1 y))\<lparr>kl_uiTCPPrev := last_of as\<rparr> else the (m1 y))"
      using 1 by (auto simp: m2_def)
    show "\<exists>n n'. kt_stNode t y = Some n \<and> m2 y = Some n' \<and>
        kl_uiTCPNext n' = (if as \<noteq> [] \<and> y = last as then first_of bs else kl_uiTCPNext n) \<and>
        kl_uiTCPPrev n' = (if bs \<noteq> [] \<and> y = hd bs then last_of as else kl_uiTCPPrev n)"
      unfolding k 2 1 by simp
  qed
  from kseg_cut [OF assms(1,2) this] have "key_chain (t\<lparr>kt_stNode := m2\<rparr>) (as @ bs)" by simp
  moreover have c1: "map_option key_core (m1 x) = map_option key_core (kt_stNode t x)" for x
  proof (cases "as = []")
    case False
    then obtain k where "kt_stNode t (last as) = Some k" using look [of "last as"] by auto
    then show ?thesis using False by (simp add: m1_def key_core_def)
  qed (simp add: m1_def)
  have "map_option key_core (m2 x) = map_option key_core (m1 x)" for x
  proof (cases "bs = []")
    case False
    then obtain k where "kt_stNode t (hd bs) = Some k" using look [of "hd bs"] by auto
    then have "\<exists>k. m1 (hd bs) = Some k" by (simp add: m1_def)
    then show ?thesis using False by (auto simp: m2_def key_core_def)
  qed (simp add: m2_def)
  then have "map_option key_core (m2 x) = map_option key_core (kt_stNode t x)" for x by (simp add: c1)
  then have "key_tcp_step t (t\<lparr>kt_stNode := m2\<rparr>) (set (as @ bs))"
    using las hbs by (auto simp: key_tcp_step_def m1_def m2_def)
  moreover have "m2 i = kt_stNode t i" using i1 n(1) hbs by (auto simp: m2_def)
  ultimately show ?thesis using run by auto
qed

section \<open>The table\<close>

fun kfree :: "(u32 \<rightharpoonup> sesskeylist) \<Rightarrow> u32 list \<Rightarrow> bool" where
  "kfree m [] \<longleftrightarrow> True"
| "kfree m (x # xs) \<longleftrightarrow>
     (\<exists>n. m x = Some n \<and> kl_next n = first_of xs \<and> kl_uiTCPNext n = 0 \<and> kl_uiTCPPrev n = 0) \<and> kfree m xs"

lemma kfree_cong: "(\<And>x. x \<in> set xs \<Longrightarrow> m' x = m x) \<Longrightarrow> kfree m' xs = kfree m xs"
  by (induction xs) auto

text \<open>\<open>fs\<close> are the nodes not in use, \<open>us\<close> those in use, each in the order of its list.\<close>

definition keys_wf :: "sesskeytbl \<Rightarrow> u32 list \<Rightarrow> u32 list \<Rightarrow> bool" where
  "keys_wf t fs us \<longleftrightarrow> key_own t (set (fs @ us)) \<and> distinct (fs @ us) \<and>
     set (fs @ us) = {x. x \<noteq> 0 \<and> unat x < MAX_SESSKEY_LIST} \<and>
     fs \<noteq> [] \<and> kt_uiFreeList t = hd fs \<and> kfree (kt_stNode t) fs \<and>
     kseg kl_next kl_prev (kt_stNode t) 0 us 0 \<and> kt_uiUsedFirst t = first_of us \<and> kt_uiUsedLast t = last_of us \<and>
     kt_uiCurrCount t = of_nat (length us)"

lemma keys_wfD:
  assumes "keys_wf t fs us"
  shows "key_own t (set (fs @ us))" "distinct (fs @ us)" "set (fs @ us) = {x. x \<noteq> 0 \<and> unat x < MAX_SESSKEY_LIST}"
    "fs \<noteq> []" "kt_uiFreeList t = hd fs" "kfree (kt_stNode t) fs" "kseg kl_next kl_prev (kt_stNode t) 0 us 0"
    "kt_uiUsedFirst t = first_of us" "kt_uiUsedLast t = last_of us" "kt_uiCurrCount t = of_nat (length us)"
  using assms unfolding keys_wf_def by blast+

lemma keys_wf_node:
  assumes "keys_wf t fs us" "x \<in> set us"
  shows "x \<noteq> 0" "unat x < MAX_SESSKEY_LIST" "\<exists>n. kt_stNode t x = Some n \<and> kl_uiIndex n = x"
  using keys_wfD(1,3) [OF assms(1)] assms(2) by (auto simp: key_own_def)

text \<open>A step on the lists of the table leaves the rest of every node but \<open>i\<close> alone.\<close>

definition key_list_step :: "sesskeytbl \<Rightarrow> sesskeytbl \<Rightarrow> u32 \<Rightarrow> bool" where
  "key_list_step t t' i \<longleftrightarrow> (\<forall>x. x \<noteq> i \<longrightarrow> map_option key_body (kt_stNode t' x) = map_option key_body (kt_stNode t x))"

lemma key_body_tcp:
  assumes "map_option key_body a = map_option key_body b"
  shows "map_option kl_uiTCPNext a = map_option kl_uiTCPNext b" "map_option kl_uiTCPPrev a = map_option kl_uiTCPPrev b"
    "map_option kl_stSessKey a = map_option kl_stSessKey b" "map_option kl_SessStartTime a = map_option kl_SessStartTime b"
    "map_option kl_uiIndex a = map_option kl_uiIndex b"
  using assms by (cases a; cases b; auto simp: key_body_def dest: arg_cong [of _ _ kl_uiTCPNext] arg_cong [of _ _ kl_uiTCPPrev]
    arg_cong [of _ _ kl_stSessKey] arg_cong [of _ _ kl_SessStartTime] arg_cong [of _ _ kl_uiIndex])+

lemma key_list_step_chain:
  assumes "key_list_step t t' i" "key_chain t c" "i \<notin> set c"
  shows "key_chain t' c"
  using assms(2)
proof (rule iffD1 [OF kseg_cong, rotated])
  fix x assume "x \<in> set c"
  then have "x \<noteq> i" using assms(3) by auto
  then have "map_option key_body (kt_stNode t' x) = map_option key_body (kt_stNode t x)"
    using assms(1) by (simp add: key_list_step_def)
  from key_body_tcp(1,2) [OF this] show "map_option kl_uiTCPNext (kt_stNode t x) = map_option kl_uiTCPNext (kt_stNode t' x) \<and>
      map_option kl_uiTCPPrev (kt_stNode t x) = map_option kl_uiTCPPrev (kt_stNode t' x)" by simp
qed

lemma FreeSessKeyList_ok:
  assumes "keys_wf t fs (as @ i # bs)"
  shows "\<exists>t'. FreeSessKeyList t i = Some t' \<and> keys_wf t' (i # fs) (as @ bs) \<and> key_list_step t t' i"
proof -
  note W = keys_wfD [OF assms]
  obtain n where n: "kt_stNode t i = Some n" "kl_prev n = last_of as" "kl_next n = first_of bs"
    by (rule kseg_mid [OF W(7)])
  have own: "x \<noteq> 0 \<and> unat x < MAX_SESSKEY_LIST \<and> (\<exists>n. kt_stNode t x = Some n \<and> kl_uiIndex n = x)"
    if "x \<in> set (as @ i # bs)" for x using keys_wf_node [OF assms that] by blast
  have ix: "kl_uiIndex n = i" "i \<noteq> 0" "unat i < MAX_SESSKEY_LIST" using own [of i] n(1) by auto
  have d: "set as \<inter> set bs = {}" "i \<notin> set as" "i \<notin> set bs" using W(2) by auto
  have las: "last as \<noteq> 0 \<and> last as \<noteq> i \<and> last as \<notin> set bs \<and> last as \<in> set as" if "as \<noteq> []"
  proof -
    have l: "last as \<in> set as" using that by (rule last_in_set)
    with own [of "last as"] show ?thesis using d by (metis disjoint_iff Un_iff set_append)
  qed
  have hbs: "hd bs \<noteq> 0 \<and> hd bs \<noteq> i \<and> hd bs \<notin> set as \<and> hd bs \<in> set bs" if "bs \<noteq> []"
  proof -
    have h: "hd bs \<in> set bs" using that by (rule hd_in_set)
    with own [of "hd bs"] show ?thesis using d by (metis disjoint_iff Un_iff set_append list.set_intros(2))
  qed
  define m1 where "m1 = (if as = [] then kt_stNode t else (kt_stNode t)(last as \<mapsto> (the (kt_stNode t (last as)))\<lparr>kl_next := first_of bs\<rparr>))"
  define m2 where "m2 = (if bs = [] then m1 else m1(hd bs \<mapsto> (the (m1 (hd bs)))\<lparr>kl_prev := last_of as\<rparr>))"
  define t1 where "t1 = t\<lparr>kt_stNode := m1, kt_uiUsedFirst := first_of (as @ bs)\<rparr>"
  define t2 where "t2 = t1\<lparr>kt_stNode := m2, kt_uiUsedLast := last_of (as @ bs)\<rparr>"
  have s1: "(if kl_prev n > 0 then do {
                 pn \<leftarrow> kt_stNode t (kl_prev n);
                 if kl_next pn = kl_uiIndex n then kt_upd t (kl_prev n) (\<lambda>x. x\<lparr>kl_next := kl_next n\<rparr>) else Some t
               } else if kl_uiIndex n = kt_uiUsedFirst t then Some (t\<lparr>kt_uiUsedFirst := kl_next n\<rparr>)
               else Some t) = Some t1"
  proof (cases "as = []")
    case True
    then show ?thesis using n W(8) ix by (simp add: t1_def m1_def)
  next
    case False
    then obtain as0 l where as: "as = as0 @ [l]" by (cases as rule: rev_cases) auto
    then have "kseg kl_next kl_prev (kt_stNode t) 0 (as0 @ l # i # bs) 0" using W(7) by simp
    then obtain pn where "kt_stNode t l = Some pn" "kl_next pn = i"
      by (rule kseg_mid) (rule that; simp)
    moreover have "kt_uiUsedFirst t = first_of (as @ bs)" using W(8) False by (simp add: first_of_def)
    ultimately show ?thesis using las [OF False] as n ix by (simp add: t1_def m1_def kt_upd_def word_gt_0)
  qed
  have i1: "kt_stNode t1 i = Some n" using n(1) las by (auto simp: t1_def m1_def)
  have s2: "(if kl_next n > 0 then do {
                 nn \<leftarrow> kt_stNode t1 (kl_next n);
                 if kl_prev nn = kl_uiIndex n then kt_upd t1 (kl_next n) (\<lambda>x. x\<lparr>kl_prev := kl_prev n\<rparr>) else Some t1
               } else if kl_uiIndex n = kt_uiUsedLast t1 then Some (t1\<lparr>kt_uiUsedLast := kl_prev n\<rparr>)
               else Some t1) = Some t2"
  proof (cases bs)
    case Nil
    then have "kt_uiUsedLast t1 = i" using W(9) by (simp add: t1_def)
    then show ?thesis using Nil n ix by (simp add: t2_def m2_def) (simp add: t1_def)
  next
    case (Cons b bs0)
    then have "kseg kl_next kl_prev (kt_stNode t) 0 ((as @ [i]) @ b # bs0) 0" using W(7) by simp
    then obtain nn where nn: "kt_stNode t b = Some nn" "kl_prev nn = i"
      by (rule kseg_mid) (rule that; simp)
    moreover have "as \<noteq> [] \<Longrightarrow> b \<noteq> last as" using las Cons by auto
    ultimately have "kt_stNode t1 b = Some nn" by (auto simp: t1_def m1_def)
    moreover have "kt_uiUsedLast t1 = last_of (as @ bs)" using W(9) Cons by (simp add: t1_def last_of_def)
    ultimately show ?thesis using hbs nn Cons n ix by (simp add: t2_def m2_def kt_upd_def word_gt_0) (simp add: t1_def)
  qed
  have i2: "kt_stNode t2 i = Some n" using i1 hbs by (auto simp: t2_def m2_def t1_def)
  define n3 where "n3 = n\<lparr>kl_prev := 0, kl_next := kt_uiFreeList t2, kl_uiTCPNext := 0, kl_uiTCPPrev := 0, kl_stSessKey := tcpsesskey_zero\<rparr>"
  define t' where "t' = t2\<lparr>kt_stNode := (kt_stNode t2)(i \<mapsto> n3), kt_uiFreeList := i, kt_uiCurrCount := kt_uiCurrCount t2 - 1\<rparr>"
  have bound: "\<not> (unat i < 1 \<or> unat i > MAX_SESSKEY_LIST)" using ix by (simp add: Suc_le_eq unat_gt_0)
  have run: "FreeSessKeyList t i = Some t'"
    using bound s2 unfolding FreeSessKeyList_def n(1) Option.bind.simps s1
    by (simp add: i1 i2 kt_upd_def t'_def n3_def ix(1) split del: if_split)
  have node: "kt_stNode t' = m2(i \<mapsto> n3)" by (simp add: t'_def t2_def)
  have look: "\<exists>k. kt_stNode t y = Some k" if "y \<in> set (as @ bs)" for y using own [of y] that by auto
  have m2: "m2 y = Some (if bs \<noteq> [] \<and> y = hd bs then k1\<lparr>kl_prev := last_of as\<rparr> else k1)"
    if "kt_stNode t y = Some k" "k1 = (if as \<noteq> [] \<and> y = last as then k\<lparr>kl_next := first_of bs\<rparr> else k)" for y k k1
  proof -
    have 1: "m1 y = Some k1" using that by (auto simp: m1_def)
    show ?thesis using 1 by (auto simp: m2_def)
  qed
  have "kseg_cuts kl_next kl_prev (kt_stNode t) (kt_stNode t') as bs"
    unfolding kseg_cuts_def
  proof
    fix y assume y: "y \<in> set (as @ bs)"
    obtain k where k: "kt_stNode t y = Some k" using look [OF y] by blast
    have "y \<noteq> i" using y d by auto
    then show "\<exists>n n'. kt_stNode t y = Some n \<and> kt_stNode t' y = Some n' \<and>
        kl_next n' = (if as \<noteq> [] \<and> y = last as then first_of bs else kl_next n) \<and>
        kl_prev n' = (if bs \<noteq> [] \<and> y = hd bs then last_of as else kl_prev n)"
      using m2 [OF k refl] by (simp add: node k)
  qed
  from kseg_cut [OF W(7) _ this] have used: "kseg kl_next kl_prev (kt_stNode t') 0 (as @ bs) 0" using W(2) by simp
  have body: "map_option key_body (m2 x) = map_option key_body (kt_stNode t x)" for x
  proof (cases "kt_stNode t x")
    case (Some k)
    then show ?thesis using m2 [OF Some refl] by (simp add: key_body_def)
  next
    case None
    then have "as \<noteq> [] \<Longrightarrow> x \<noteq> last as" "bs \<noteq> [] \<Longrightarrow> x \<noteq> hd bs"
      using look [of "last as"] look [of "hd bs"] by fastforce+
    then have "m2 x = kt_stNode t x" by (simp add: m1_def m2_def)
    then show ?thesis by simp
  qed
  then have step: "key_list_step t t' i" by (simp add: key_list_step_def node)
  have index: "\<exists>n. kt_stNode t' x = Some n \<and> kl_uiIndex n = x" if x: "\<exists>n. kt_stNode t x = Some n \<and> kl_uiIndex n = x" for x
  proof (cases "x = i")
    case True
    then show ?thesis using ix by (simp add: node n3_def)
  next
    case False
    then show ?thesis using key_body_tcp(5) [OF body [of x]] x by (cases "m2 x") (auto simp: node)
  qed
  have same: "m2 x = kt_stNode t x" if "x \<in> set fs" for x
  proof -
    have "x \<notin> set as" "x \<notin> set bs" using W(2) that by auto
    then have "as \<noteq> [] \<Longrightarrow> x \<noteq> last as" "bs \<noteq> [] \<Longrightarrow> x \<noteq> hd bs" using las hbs by metis+
    then show ?thesis by (simp add: m1_def m2_def)
  qed
  have "kfree (kt_stNode t') fs"
  proof (rule iffD1 [OF kfree_cong W(6)])
    fix x assume x: "x \<in> set fs"
    then have "x \<noteq> i" using W(2) by auto
    then show "kt_stNode t x = kt_stNode t' x" using same [OF x] by (simp add: node)
  qed
  moreover have "first_of fs = kt_uiFreeList t2" using W(4,5) by (simp add: first_of_def t2_def t1_def)
  ultimately have free: "kfree (kt_stNode t') (i # fs)" by (simp add: node n3_def)
  have cnt: "kt_uiCurrCount t' = of_nat (length (as @ bs))" using W(10) by (simp add: t'_def t2_def t1_def)
  have "key_own t' (set ((i # fs) @ as @ bs))"
    using W(1) index by (auto simp: key_own_def)
  moreover have "set ((i # fs) @ as @ bs) = set (fs @ as @ i # bs)" by auto
  ultimately have "keys_wf t' (i # fs) (as @ bs)"
    unfolding keys_wf_def using W(2,3) free used cnt by (auto simp: t'_def t2_def t1_def)
  then show ?thesis using run step by blast
qed

lemma key_list_step_trans: "key_list_step t u i \<Longrightarrow> key_list_step u v i \<Longrightarrow> key_list_step t v i"
  by (simp add: key_list_step_def)

lemma keys_wf_split:
  assumes "keys_wf t (i # fs) us"
  shows "kt_stNode t i = Some n \<Longrightarrow> kl_uiIndex n = i \<and> kl_next n = first_of fs \<and> kl_uiTCPNext n = 0 \<and> kl_uiTCPPrev n = 0"
    "\<exists>n. kt_stNode t i = Some n" "i \<noteq> 0" "i \<notin> set us" "i \<notin> set fs"
  using keys_wfD(1,2,6) [OF assms] by (auto simp: key_own_def)

lemma first_of_pos: "0 \<notin> set fs \<Longrightarrow> fs \<noteq> [] \<Longrightarrow> first_of fs \<noteq> 0"
  by (cases fs) auto

text \<open>The last node of the list of free nodes is never given out.\<close>

lemma pGetSessKeyList_none:
  assumes "keys_wf t [i] us"
  shows "pGetSessKeyList t = Some (t, None)"
proof -
  obtain n where n: "kt_stNode t i = Some n" using keys_wf_split(2) [OF assms] by blast
  then show ?thesis
    using keys_wf_split(1) [OF assms n] keys_wfD(5) [OF assms] by (simp add: pGetSessKeyList_def)
qed

lemma pGetSessKeyList_ok:
  assumes "keys_wf t (i # fs) us" "fs \<noteq> []"
  shows "\<exists>t'. pGetSessKeyList t = Some (t', Some i) \<and> keys_wf t' fs (i # us) \<and> key_chain t' [i] \<and>
    (\<forall>x. map_option key_body (kt_stNode t' x) = map_option key_body (kt_stNode t x))"
proof -
  note W = keys_wfD [OF assms(1)]
  obtain n where n: "kt_stNode t i = Some n" using keys_wf_split(2) [OF assms(1)] by blast
  note N = keys_wf_split(1) [OF assms(1) n]
  note I = keys_wf_split(3-5) [OF assms(1)]
  have z: "0 \<notin> set fs" "0 \<notin> set us" using W(1) by (auto simp: key_own_def)
  have nx: "\<not> kl_next n < 1" using N first_of_pos [OF z(1) assms(2)] by (simp add: word_less_1)
  have own: "\<exists>n. kt_stNode t x = Some n \<and> kl_uiIndex n = x" if "x \<in> set (fs @ i # us)" for x
    using W(1) that by (auto simp: key_own_def)
  define m1 where "m1 = (kt_stNode t)(i \<mapsto> n\<lparr>kl_next := first_of us, kl_prev := 0\<rparr>)"
  define m2 where "m2 = (if us = [] then m1 else m1(hd us \<mapsto> (the (m1 (hd us)))\<lparr>kl_prev := i\<rparr>))"
  have hu: "hd us \<noteq> 0 \<and> hd us \<noteq> i \<and> hd us \<in> set us" if "us \<noteq> []" using z(2) I hd_in_set [OF that] by metis
  define t' where "t' = t\<lparr>kt_uiFreeList := kl_next n, kt_stNode := m2, kt_uiUsedFirst := i,
     kt_uiUsedLast := last_of (i # us), kt_uiCurrCount := kt_uiCurrCount t + 1\<rparr>"
  have last: "last_of (i # us) = (if kt_uiUsedLast t = 0 then i else kt_uiUsedLast t)"
  proof (cases "us = []")
    case False
    then have "last us \<noteq> 0" using z(2) last_in_set [OF False] by metis
    then show ?thesis using False W(9) by (simp add: last_of_def)
  qed (use W(9) in simp)
  have run: "pGetSessKeyList t = Some (t', Some i)"
  proof (cases us)
    case Nil
    then show ?thesis
      using nx N n W(5,8,9) by (simp add: pGetSessKeyList_def kt_upd_def t'_def m1_def m2_def Let_def)
  next
    case (Cons u us0)
    then have "u \<noteq> 0" "u \<noteq> i" using hu by auto
    moreover obtain k where "kt_stNode t u = Some k" using own [of u] Cons by auto
    ultimately show ?thesis
      using nx N n W(5,8) last Cons
      by (cases "kt_uiUsedLast t = 0") (simp_all add: pGetSessKeyList_def kt_upd_def t'_def m1_def m2_def word_gt_0 Let_def)
  qed
  have node: "kt_stNode t' = m2" by (simp add: t'_def)
  have i': "m2 i = Some (n\<lparr>kl_next := first_of us, kl_prev := 0\<rparr>)" using hu by (auto simp: m1_def m2_def)
  have body: "map_option key_body (m2 x) = map_option key_body (kt_stNode t x)" for x
  proof -
    have 1: "map_option key_body (m1 x) = map_option key_body (kt_stNode t x)" using n by (simp add: m1_def key_body_def)
    have "map_option key_body (m2 x) = map_option key_body (m1 x)"
    proof (cases "us = []")
      case False
      then obtain k where "kt_stNode t (hd us) = Some k" using own [of "hd us"] hu by auto
      then have "m1 (hd us) = Some k" using hu [OF False] by (simp add: m1_def)
      then show ?thesis using False by (simp add: m2_def key_body_def)
    qed (simp add: m2_def)
    then show ?thesis by (simp add: 1)
  qed
  have index: "\<exists>n. m2 x = Some n \<and> kl_uiIndex n = x" if x: "x \<in> set (fs @ i # us)" for x
    using key_body_tcp(5) [OF body [of x]] own [OF x] by (cases "m2 x") auto
  have used: "kseg kl_next kl_prev m2 0 (i # us) 0"
  proof (cases us)
    case Nil
    then show ?thesis using i' by simp
  next
    case (Cons u us0)
    have dd: "u \<noteq> i" "i \<notin> set us0" "u \<notin> set us0" using W(2) Cons by auto
    have "kseg kl_next kl_prev m2 u us0 0 = kseg kl_next kl_prev (kt_stNode t) u us0 0"
      by (rule kseg_cong) (use dd in \<open>auto simp: m1_def m2_def Cons\<close>)
    moreover obtain k where "kt_stNode t u = Some k" "kl_next k = (if us0 = [] then 0 else hd us0)"
      "kseg kl_next kl_prev (kt_stNode t) u us0 0" using W(7) Cons by auto
    ultimately show ?thesis using i' dd Cons by (auto simp: m1_def m2_def)
  qed
  have free: "kfree m2 fs"
  proof (rule iffD1 [OF kfree_cong])
    show "kfree (kt_stNode t) fs" using W(6) by simp
    fix x assume x: "x \<in> set fs"
    have "x \<noteq> i" "us \<noteq> [] \<Longrightarrow> x \<noteq> hd us" using W(2) x hu I(3) by auto
    then show "kt_stNode t x = m2 x" by (simp add: m1_def m2_def)
  qed
  have "kt_uiFreeList t' = hd fs" using N assms(2) by (simp add: t'_def first_of_def)
  moreover have "key_own t' (set (fs @ i # us))" using index W(1) by (simp add: key_own_def node)
  moreover have "set (fs @ i # us) = set ((i # fs) @ us)" by auto
  ultimately have "keys_wf t' fs (i # us)"
    unfolding keys_wf_def using W(2,3,10) used free assms(2) by (auto simp: t'_def)
  moreover have "key_chain t' [i]" using i' N by (simp add: node)
  ultimately show ?thesis using run body by (auto simp: node)
qed

section \<open>Deletion\<close>

lemma key_walk_ok:
  "key_chain t (as @ i # bs) \<Longrightarrow> 0 \<notin> set (i # bs) \<Longrightarrow> key_walk t i cnt = Some (last (i # bs), cnt + length (i # bs))"
proof (induction bs arbitrary: as i cnt)
  case Nil
  from Nil(1) obtain n where "kt_stNode t i = Some n" "kl_uiTCPNext n = first_of []" by (rule kseg_mid) (rule that; simp)
  then show ?case using Nil(2) by (subst key_walk.simps) simp
next
  case (Cons b bs)
  from Cons.prems(1) obtain n where n: "kt_stNode t i = Some n" "kl_uiTCPNext n = first_of (b # bs)" by (rule kseg_mid)
  have "key_chain t ((as @ [i]) @ b # bs)" using Cons.prems(1) by simp
  from Cons.IH [OF this, of "cnt + 1"] show ?case
    using n Cons.prems(2) by (subst key_walk.simps) (simp add: word_gt_0)
qed

text \<open>A choice by the key and the starting time only.\<close>

definition key_sel :: "(sesskeylist \<Rightarrow> bool) \<Rightarrow> bool" where
  "key_sel sel \<longleftrightarrow> (\<forall>n n'. kl_stSessKey n = kl_stSessKey n' \<longrightarrow> kl_SessStartTime n = kl_SessStartTime n' \<longrightarrow> sel n = sel n')"

definition key_hit :: "(sesskeylist \<Rightarrow> bool) \<Rightarrow> sesskeytbl \<Rightarrow> u32 \<Rightarrow> bool" where
  "key_hit sel t x \<longleftrightarrow> (case kt_stNode t x of None \<Rightarrow> False | Some n \<Rightarrow> sel n)"

definition key_of :: "sesskeytbl \<Rightarrow> u32 \<Rightarrow> tcpsesskey" where
  "key_of t x = (case kt_stNode t x of None \<Rightarrow> tcpsesskey_zero | Some n \<Rightarrow> kl_stSessKey n)"

text \<open>What the caller does for each of the keys, in this order.\<close>

fun key_acts :: "(tcpsesskey \<Rightarrow> 'w \<Rightarrow> 'w option) \<Rightarrow> tcpsesskey list \<Rightarrow> 'w \<Rightarrow> 'w option" where
  "key_acts act [] w = Some w"
| "key_acts act (k # ks) w = do { w1 \<leftarrow> act k w; key_acts act ks w1 }"

text \<open>The node \<open>x\<close> keeps its key and starting time.\<close>

definition key_keep :: "sesskeytbl \<Rightarrow> sesskeytbl \<Rightarrow> u32 \<Rightarrow> bool" where
  "key_keep t t' x \<longleftrightarrow> map_option kl_stSessKey (kt_stNode t' x) = map_option kl_stSessKey (kt_stNode t x) \<and>
     map_option kl_SessStartTime (kt_stNode t' x) = map_option kl_SessStartTime (kt_stNode t x)"

lemma key_keep_hit:
  assumes "key_keep t t' x" "key_sel sel"
  shows "key_hit sel t' x = key_hit sel t x" "key_of t' x = key_of t x"
proof -
  show "key_of t' x = key_of t x"
    using assms(1) by (cases "kt_stNode t x"; cases "kt_stNode t' x") (simp_all add: key_keep_def key_of_def)
  show "key_hit sel t' x = key_hit sel t x"
  proof (cases "kt_stNode t x")
    case None
    then show ?thesis using assms(1) by (simp add: key_keep_def key_hit_def)
  next
    case (Some n)
    then obtain n' where n': "kt_stNode t' x = Some n'" "kl_stSessKey n' = kl_stSessKey n" "kl_SessStartTime n' = kl_SessStartTime n"
      using assms(1) by (cases "kt_stNode t' x") (simp_all add: key_keep_def)
    have "sel n' = sel n" using assms(2) n'(2,3) unfolding key_sel_def by blast
    then show ?thesis by (simp add: key_hit_def Some n'(1))
  qed
qed

lemma key_keep_trans: "key_keep t u x \<Longrightarrow> key_keep u v x \<Longrightarrow> key_keep t v x"
  by (simp add: key_keep_def)

lemma key_core_keep:
  assumes "map_option key_core a = map_option key_core b"
  shows "map_option kl_next a = map_option kl_next b" "map_option kl_prev a = map_option kl_prev b"
    "map_option kl_stSessKey a = map_option kl_stSessKey b" "map_option kl_SessStartTime a = map_option kl_SessStartTime b"
    "map_option kl_uiIndex a = map_option kl_uiIndex b"
  using assms by (cases a; cases b; auto simp: key_core_def dest: arg_cong [of _ _ kl_next] arg_cong [of _ _ kl_prev]
    arg_cong [of _ _ kl_stSessKey] arg_cong [of _ _ kl_SessStartTime] arg_cong [of _ _ kl_uiIndex])+

lemma key_tcp_step_wf:
  assumes "key_tcp_step t t' X" "keys_wf t fs us" "X \<inter> set fs = {}"
  shows "keys_wf t' fs us"
proof -
  note W = keys_wfD [OF assms(2)]
  note core = key_core_keep [OF spec [OF conjunct2 [OF conjunct2 [OF assms(1) [unfolded key_tcp_step_def]]]]]
  have t': "t' = t\<lparr>kt_stNode := kt_stNode t'\<rparr>" and out: "\<forall>x. x \<notin> X \<longrightarrow> kt_stNode t' x = kt_stNode t x"
    using assms(1) by (auto simp: key_tcp_step_def)
  have "kseg kl_next kl_prev (kt_stNode t') 0 us 0 = kseg kl_next kl_prev (kt_stNode t) 0 us 0"
    by (rule kseg_cong) (use core(1,2) in blast)
  moreover have "kfree (kt_stNode t') fs = kfree (kt_stNode t) fs"
    by (rule kfree_cong) (use out assms(3) in blast)
  moreover have "\<exists>n. kt_stNode t' x = Some n \<and> kl_uiIndex n = x" if "\<exists>n. kt_stNode t x = Some n \<and> kl_uiIndex n = x" for x
    using core(5) [of x] that by (cases "kt_stNode t' x") auto
  then have "key_own t' (set (fs @ us))" using W(1) by (simp add: key_own_def)
  moreover have "kt_uiFreeList t' = kt_uiFreeList t" "kt_uiUsedFirst t' = kt_uiUsedFirst t" "kt_uiUsedLast t' = kt_uiUsedLast t"
    "kt_uiCurrCount t' = kt_uiCurrCount t"
    by (subst t', simp)+
  ultimately show ?thesis using W by (simp add: keys_wf_def)
qed

lemma keys_own_used: "keys_wf t fs us \<Longrightarrow> set c \<subseteq> set us \<Longrightarrow> key_own t (set c)"
  using keys_wf_node(1,3) [of t fs us] by (auto simp: key_own_def)
text \<open>What a deletion does to the table: the nodes \<open>gone\<close> of the chain \<open>c\<close> are released, the others of \<open>c\<close>
  keep their order, everything else stays.\<close>

definition key_deleted ::
  "sesskeytbl \<Rightarrow> sesskeytbl \<Rightarrow> u32 list \<Rightarrow> u32 list \<Rightarrow> u32 list \<Rightarrow> bool" where
  "key_deleted t t' us c c' \<longleftrightarrow> (\<exists>fs' us'. keys_wf t' fs' us' \<and> set us' = set us - (set c - set c') \<and>
     (\<forall>x \<in> set us'. key_keep t t' x) \<and> key_chain t' c' \<and>
     (\<forall>d. key_chain t d \<longrightarrow> set d \<subseteq> set us - set c \<longrightarrow> key_chain t' d))"

lemma key_deletedI:
  "keys_wf t' fs' us' \<Longrightarrow> set us' = set us - (set c - set c') \<Longrightarrow> (\<And>x. x \<in> set us' \<Longrightarrow> key_keep t t' x) \<Longrightarrow>
   key_chain t' c' \<Longrightarrow> (\<And>d. key_chain t d \<Longrightarrow> set d \<subseteq> set us - set c \<Longrightarrow> key_chain t' d) \<Longrightarrow> key_deleted t t' us c c'"
  unfolding key_deleted_def by blast

lemma key_tcp_step_chain:
  assumes "key_tcp_step t t' X" "key_chain t d" "set d \<inter> X = {}"
  shows "key_chain t' d"
  using assms(2)
  by (rule iffD1 [OF kseg_cong, rotated]) (use assms(1,3) in \<open>auto simp: key_tcp_step_def\<close>)

text \<open>One node taken out of a chain and released.\<close>

lemma key_remove_ok:
  assumes "keys_wf t fs us" "key_chain t (as @ i # bs)" "distinct (as @ i # bs)" "set (as @ i # bs) \<subseteq> set us"
  shows "\<exists>t1 t2 n. kt_stNode t i = Some n \<and> kl_uiTCPPrev n = last_of as \<and> kl_uiTCPNext n = first_of bs \<and>
    key_unchain t i = Some t1 \<and> kt_stNode t1 i = Some n \<and> FreeSessKeyList t1 i = Some t2 \<and>
    (bs \<noteq> [] \<longrightarrow> (\<exists>k. kt_stNode t1 (hd bs) = Some k \<and> kl_uiIndex k = hd bs)) \<and>
    (\<exists>us2. keys_wf t2 (i # fs) us2 \<and> set us2 = set us - {i} \<and> (\<forall>x \<in> set us2. key_keep t t2 x) \<and>
     key_chain t2 (as @ bs) \<and> (\<forall>d. key_chain t d \<longrightarrow> set d \<subseteq> set us - set (as @ i # bs) \<longrightarrow> key_chain t2 d))"
proof -
  note W = keys_wfD [OF assms(1)]
  obtain n where n: "kt_stNode t i = Some n" "kl_uiTCPPrev n = last_of as" "kl_uiTCPNext n = first_of bs"
    by (rule kseg_mid [OF assms(2)])
  have own: "key_own t (set (as @ i # bs))" by (rule keys_own_used [OF assms(1,4)])
  obtain t1 where t1: "key_unchain t i = Some t1" "key_chain t1 (as @ bs)" "key_tcp_step t t1 (set (as @ bs))"
    "kt_stNode t1 i = kt_stNode t i" using key_unchain_ok [OF assms(2,3) own] by blast
  have "set (as @ bs) \<inter> set fs = {}" using W(2) assms(4) by auto
  from key_tcp_step_wf [OF t1(3) assms(1) this] have wf1: "keys_wf t1 fs us" .
  have "i \<in> set us" using assms(4) by auto
  then obtain u1 u2 where us: "us = u1 @ i # u2" by (auto dest: split_list)
  obtain t2 where t2: "FreeSessKeyList t1 i = Some t2" "keys_wf t2 (i # fs) (u1 @ u2)" "key_list_step t1 t2 i"
    using FreeSessKeyList_ok [of t1 fs u1 i u2] wf1 us by blast
  have ui: "set (u1 @ u2) = set us - {i}" using W(2) us by auto
  have keep: "key_keep t t2 x" if "x \<in> set (u1 @ u2)" for x
  proof -
    have "x \<noteq> i" using that ui by auto
    then have "map_option key_body (kt_stNode t2 x) = map_option key_body (kt_stNode t1 x)"
      using t2(3) by (simp add: key_list_step_def)
    moreover have "map_option key_core (kt_stNode t1 x) = map_option key_core (kt_stNode t x)"
      using t1(3) by (simp add: key_tcp_step_def)
    ultimately show ?thesis
      using key_body_tcp(3,4) [of "kt_stNode t2 x" "kt_stNode t1 x"] key_core_keep(3,4) [of "kt_stNode t1 x" "kt_stNode t x"]
      by (simp add: key_keep_def)
  qed
  have ch: "key_chain t2 (as @ bs)" by (rule key_list_step_chain [OF t2(3) t1(2)]) (use assms(3) in auto)
  have others: "key_chain t2 d" if d: "key_chain t d" "set d \<subseteq> set us - set (as @ i # bs)" for d
  proof -
    have "key_chain t1 d" by (rule key_tcp_step_chain [OF t1(3) d(1)]) (use d(2) in auto)
    then show ?thesis by (rule key_list_step_chain [OF t2(3)]) (use d(2) in auto)
  qed
  have nb: "\<exists>k. kt_stNode t1 (hd bs) = Some k \<and> kl_uiIndex k = hd bs" if "bs \<noteq> []"
    by (rule keys_wf_node(3) [OF wf1]) (use hd_in_set [OF that] assms(4) in auto)
  show ?thesis
    by (rule exI [of _ t1], rule exI [of _ t2], rule exI [of _ n], intro conjI impI exI [of _ "u1 @ u2"] allI)
      (use n t1(1,4) t2(1,2) ui ch others nb in \<open>simp_all\<close>, use keep in auto)
qed

lemma key_del_loop_ok:
  assumes "keys_wf t fs us" "key_chain t (as @ bs)" "distinct (as @ bs)" "set (as @ bs) \<subseteq> set us" "key_sel sel"
    "as @ bs \<noteq> [] \<Longrightarrow> kl_uiIndex h = first_of (as @ bs)"
  shows "\<exists>t' h'. (\<forall>w. key_del_loop sel act (length as) (last_of as) (int (length bs)) (w, t, h) =
       do { w' \<leftarrow> key_acts act (map (key_of t) (filter (key_hit sel t) (rev as))) w;
            Some ((w', t', h'), int (length (filter (\<lambda>x. \<not> key_hit sel t x) as @ bs))) }) \<and>
     key_deleted t t' us (as @ bs) (filter (\<lambda>x. \<not> key_hit sel t x) as @ bs) \<and>
     (filter (\<lambda>x. \<not> key_hit sel t x) as @ bs \<noteq> [] \<longrightarrow> kl_uiIndex h' = first_of (filter (\<lambda>x. \<not> key_hit sel t x) as @ bs))"
  using assms
proof (induction as arbitrary: t fs us bs h rule: rev_induct)
  case Nil
  have "key_deleted t t us bs bs"
    by (rule key_deletedI [OF Nil.prems(1)]) (use Nil.prems(2) in \<open>simp_all add: key_keep_def\<close>)
  then show ?case using Nil.prems(6) by (intro exI [of _ t] exI [of _ h]) simp
next
  case (snoc i as)
  let ?hit = "key_hit sel t"
  have ch: "key_chain t (as @ i # bs)" and di: "distinct (as @ i # bs)" and su: "set (as @ i # bs) \<subseteq> set us"
    using snoc.prems(2-4) by simp_all
  obtain t1 t2 n us2 where r0: "kt_stNode t i = Some n" "kl_uiTCPPrev n = last_of as" "kl_uiTCPNext n = first_of bs"
    "key_unchain t i = Some t1" "kt_stNode t1 i = Some n" "FreeSessKeyList t1 i = Some t2"
    "bs \<noteq> [] \<longrightarrow> (\<exists>k. kt_stNode t1 (hd bs) = Some k \<and> kl_uiIndex k = hd bs)"
    "keys_wf t2 (i # fs) us2" "set us2 = set us - {i}" "\<forall>x \<in> set us2. key_keep t t2 x" "key_chain t2 (as @ bs)"
    "\<forall>d. key_chain t d \<longrightarrow> set d \<subseteq> set us - set (as @ i # bs) \<longrightarrow> key_chain t2 d"
    using key_remove_ok [OF snoc.prems(1) ch di su] by (elim exE conjE) (rule that; assumption)
  note r = r0(1-6) r0(7) [rule_format] r0(8,9) r0(10) [rule_format] r0(11) r0(12) [rule_format]
  have i0: "i \<noteq> 0" by (rule keys_wf_node(1) [OF snoc.prems(1)]) (use su in auto)
  have hit: "?hit i = sel n" by (simp add: key_hit_def r(1))
  show ?case
  proof (cases "sel n")
    case False
    have "\<exists>t' h'. (\<forall>w. key_del_loop sel act (length as) (last_of as) (int (length (i # bs))) (w, t, h) =
       do { w' \<leftarrow> key_acts act (map (key_of t) (filter ?hit (rev as))) w;
            Some ((w', t', h'), int (length (filter (\<lambda>x. \<not> ?hit x) as @ i # bs))) }) \<and>
     key_deleted t t' us (as @ i # bs) (filter (\<lambda>x. \<not> ?hit x) as @ i # bs) \<and>
     (filter (\<lambda>x. \<not> ?hit x) as @ i # bs \<noteq> [] \<longrightarrow> kl_uiIndex h' = first_of (filter (\<lambda>x. \<not> ?hit x) as @ i # bs))"
      by (rule snoc.IH [OF snoc.prems(1) ch di su snoc.prems(5)]) (use snoc.prems(6) in simp)
    then show ?thesis using False hit i0 r(1,2) by (simp add: add.commute)
  next
    case True
    obtain h1 where h1: "(if as = [] \<and> bs \<noteq> [] then kt_stNode t1 (hd bs) else Some h) = Some h1"
      "as @ bs \<noteq> [] \<Longrightarrow> kl_uiIndex h1 = first_of (as @ bs)"
    proof (cases "as = [] \<and> bs \<noteq> []")
      case True
      then obtain k where "kt_stNode t1 (hd bs) = Some k" "kl_uiIndex k = hd bs" using r(7) by blast
      then show ?thesis using True that [of k] by (simp add: first_of_def)
    next
      case False
      then show ?thesis using snoc.prems(6) that [of h] by (cases as) auto
    qed
    have su2: "set (as @ bs) \<subseteq> set us2" using su di r(9) by auto
    have same: "key_hit sel t2 x = ?hit x" "key_of t2 x = key_of t x" if "x \<in> set as" for x
      using key_keep_hit [OF r(10) snoc.prems(5)] su2 that by auto
    have f1: "filter (\<lambda>x. \<not> key_hit sel t2 x) as = filter (\<lambda>x. \<not> ?hit x) as"
      and f3: "filter (key_hit sel t2) (rev as) = filter ?hit (rev as)"
      using same(1) by (auto intro!: filter_cong)
    have f2: "map (key_of t2) (filter (key_hit sel t2) (rev as)) = map (key_of t) (filter ?hit (rev as))"
      unfolding f3 using same(2) by (intro map_cong) auto
    obtain t' h' where IH: "\<And>w. key_del_loop sel act (length as) (last_of as) (int (length bs)) (w, t2, h1) =
       do { w' \<leftarrow> key_acts act (map (key_of t) (filter ?hit (rev as))) w;
            Some ((w', t', h'), int (length (filter (\<lambda>x. \<not> ?hit x) as @ bs))) }"
      "key_deleted t2 t' us2 (as @ bs) (filter (\<lambda>x. \<not> ?hit x) as @ bs)"
      "filter (\<lambda>x. \<not> ?hit x) as @ bs \<noteq> [] \<Longrightarrow> kl_uiIndex h' = first_of (filter (\<lambda>x. \<not> ?hit x) as @ bs)"
      using snoc.IH [OF r(8,11) _ su2 snoc.prems(5) h1(2)] di unfolding f1 f2 by auto
    have pos: "kl_uiTCPNext n > 0 \<longleftrightarrow> bs \<noteq> []"
      using r(3) keys_wf_node(1) [OF snoc.prems(1), of "hd bs"] su by (cases bs) (auto simp: word_gt_0)
    have key: "key_of t i = kl_stSessKey n" by (simp add: key_of_def r(1))
    have "key_del_loop sel act (length (as @ [i])) (last_of (as @ [i])) (int (length bs)) (w, t, h) =
       do { w' \<leftarrow> key_acts act (map (key_of t) (filter ?hit (rev (as @ [i])))) w;
            Some ((w', t', h'), int (length (filter (\<lambda>x. \<not> ?hit x) (as @ [i]) @ bs))) }" for w
    proof -
      have "(if length as = 0 \<and> kl_uiTCPNext n > 0 then kt_stNode t1 (kl_uiTCPNext n) else Some h) = Some h1"
        using h1(1) unfolding pos by (cases "as = []"; cases "bs = []") (simp_all add: first_of_def r(3))
      then show ?thesis
        using True hit i0 r(1,2,4,5,6) IH(1) by (simp add: key)
    qed
    moreover obtain fs' us' where D: "keys_wf t' fs' us'" "set us' = set us2 - (set (as @ bs) - set (filter (\<lambda>x. \<not> ?hit x) as @ bs))"
      "\<And>x. x \<in> set us' \<Longrightarrow> key_keep t2 t' x" "key_chain t' (filter (\<lambda>x. \<not> ?hit x) as @ bs)"
      "\<And>d. key_chain t2 d \<Longrightarrow> set d \<subseteq> set us2 - set (as @ bs) \<Longrightarrow> key_chain t' d"
      using IH(2) unfolding key_deleted_def by blast
    have "key_deleted t t' us ((as @ [i]) @ bs) (filter (\<lambda>x. \<not> ?hit x) (as @ [i]) @ bs)"
    proof (rule key_deletedI [OF D(1)])
      show "set us' = set us - (set ((as @ [i]) @ bs) - set (filter (\<lambda>x. \<not> ?hit x) (as @ [i]) @ bs))"
        using D(2) r(9) hit True di su by auto
      show "key_keep t t' x" if "x \<in> set us'" for x
        using key_keep_trans [OF r(10) D(3)] D(2) that by auto
      show "key_chain t' (filter (\<lambda>x. \<not> ?hit x) (as @ [i]) @ bs)" using D(4) hit True by simp
      show "key_chain t' d" if "key_chain t d" "set d \<subseteq> set us - set ((as @ [i]) @ bs)" for d
        by (rule D(5) [OF r(12)]) (use that r(9) in auto)
    qed
    ultimately show ?thesis using IH(3) hit True by (intro exI [of _ t'] exI [of _ h']) simp
  qed
qed

lemma key_del_ok:
  assumes "keys_wf t fs us" "key_chain t c" "c \<noteq> []" "distinct c" "set c \<subseteq> set us" "key_sel sel" "kl_uiIndex h = hd c"
  shows "\<exists>t' h'. (\<forall>w. key_del sel act (w, t, h) =
       do { w' \<leftarrow> key_acts act (map (key_of t) (filter (key_hit sel t) (rev c))) w;
            Some ((w', t', h'), int (length (filter (\<lambda>x. \<not> key_hit sel t x) c))) }) \<and>
     key_deleted t t' us c (filter (\<lambda>x. \<not> key_hit sel t x) c) \<and>
     (filter (\<lambda>x. \<not> key_hit sel t x) c \<noteq> [] \<longrightarrow> kl_uiIndex h' = hd (filter (\<lambda>x. \<not> key_hit sel t x) c))"
proof -
  obtain i cs where c: "c = i # cs" using assms(3) by (cases c) auto
  have i: "i \<noteq> 0" "unat i < MAX_SESSKEY_LIST" using keys_wf_node(1,2) [OF assms(1), of i] assms(5) c by auto
  have "0 \<notin> set (i # cs)" using keys_own_used [OF assms(1,5)] c by (auto simp: key_own_def)
  with key_walk_ok [of t "[]" i cs 0] assms(2) c have walk: "key_walk t i 0 = Some (last c, length c)" by simp
  obtain t' h' where r: "\<And>w. key_del_loop sel act (length c) (last_of c) (int (length ([] :: u32 list))) (w, t, h) =
       do { w' \<leftarrow> key_acts act (map (key_of t) (filter (key_hit sel t) (rev c))) w;
            Some ((w', t', h'), int (length (filter (\<lambda>x. \<not> key_hit sel t x) c @ []))) }"
     "key_deleted t t' us (c @ []) (filter (\<lambda>x. \<not> key_hit sel t x) c @ [])"
     "filter (\<lambda>x. \<not> key_hit sel t x) c @ [] \<noteq> [] \<longrightarrow> kl_uiIndex h' = first_of (filter (\<lambda>x. \<not> key_hit sel t x) c @ [])"
    using key_del_loop_ok [OF assms(1) _ _ _ assms(6), of c "[]" h act] assms(2-5,7) by (simp add: first_of_def) blast
  have "last_of c = last c" using assms(3) by (simp add: last_of_def)
  then have "key_del sel act (w, t, h) =
       do { w' \<leftarrow> key_acts act (map (key_of t) (filter (key_hit sel t) (rev c))) w;
            Some ((w', t', h'), int (length (filter (\<lambda>x. \<not> key_hit sel t x) c))) }" for w
    using i walk r(1) [of w] assms(7) c by (simp add: key_del_def)
  then show ?thesis using r(2,3) by (intro exI [of _ t'] exI [of _ h']) (simp add: first_of_def)
qed

lemma key_acts_unit: "key_acts (\<lambda>k w. Some w) ks w = Some w"
  by (induction ks) simp_all

section \<open>Addition\<close>

lemma dAddSessKeyNext_ok:
  assumes "keys_wf t fs us" "key_chain t (j # cs)" "key_chain t [i]" "distinct (j # cs)" "set (j # cs) \<subseteq> set us"
    "i \<in> set us" "i \<notin> set (j # cs)" "kl_uiIndex h = j"
  shows "if key_of t i = key_of t j then dAddSessKeyNext t h i = Some (t, -2)
    else \<exists>t'. dAddSessKeyNext t h i = Some (t', 0) \<and> key_chain t' (j # i # cs) \<and> key_tcp_step t t' (set (i # j # cs))"
proof -
  have own: "x \<noteq> 0" "unat x < MAX_SESSKEY_LIST" "\<exists>n. kt_stNode t x = Some n \<and> kl_uiIndex n = x" if "x \<in> set (i # j # cs)" for x
    using keys_wf_node [OF assms(1), of x] that assms(5,6) by auto
  obtain a where a: "kt_stNode t i = Some a" "kl_uiIndex a = i" "kl_uiTCPNext a = 0" "kl_uiTCPPrev a = 0"
    using assms(3) own(3) [of i] by auto
  obtain n where n: "kt_stNode t j = Some n" "kl_uiIndex n = j" "kl_uiTCPPrev n = 0" "kl_uiTCPNext n = first_of cs"
    using assms(2) own(3) [of j] by (auto simp: first_of_def)
  have ij: "i \<noteq> j" "i \<noteq> 0" "j \<noteq> 0" "\<not> unat i \<ge> MAX_SESSKEY_LIST" "i \<notin> set cs" "j \<notin> set cs"
    using assms(4,7) own [of i] own(1) [of j] by auto
  have keys: "key_of t i = kl_stSessKey a" "key_of t j = kl_stSessKey n" by (simp_all add: key_of_def a n)
  show ?thesis
  proof (cases "kl_stSessKey n = kl_stSessKey a")
    case True
    then show ?thesis using a n ij keys assms(8) by (simp add: dAddSessKeyNext_def)
  next
    case ne: False
    let ?a = "a\<lparr>kl_uiTCPPrev := j, kl_uiTCPNext := first_of cs\<rparr>" and ?n = "n\<lparr>kl_uiTCPNext := i\<rparr>"
    show ?thesis
    proof (cases cs)
      case Nil
      let ?t = "t\<lparr>kt_stNode := (kt_stNode t)(i \<mapsto> ?a, j \<mapsto> ?n)\<rparr>"
      have "dAddSessKeyNext t h i = Some (?t, 0)"
        using a n ij ne assms(8) Nil by (simp add: dAddSessKeyNext_def kt_upd_def)
      moreover have "key_chain ?t (j # i # cs)" using ij n(3) Nil by simp
      moreover have "key_tcp_step t ?t (set (i # j # cs))"
        using a n by (auto simp: key_tcp_step_def key_core_def)
      ultimately show ?thesis using ne keys by auto
    next
      case (Cons k ks)
      obtain b where b: "kt_stNode t k = Some b" "kl_uiIndex b = k" "kl_uiTCPPrev b = j"
        using assms(2) own(3) [of k] Cons by auto
      have k: "k \<noteq> i" "k \<noteq> j" "k \<noteq> 0" "k \<notin> set ks" using ij Cons assms(4) own(1) [of k] by auto
      let ?b = "b\<lparr>kl_uiTCPPrev := i\<rparr>"
      let ?t = "t\<lparr>kt_stNode := (kt_stNode t)(i \<mapsto> ?a, k \<mapsto> ?b, j \<mapsto> ?n)\<rparr>"
      have "dAddSessKeyNext t h i = Some (?t, 0)"
        using a n b k ij ne assms(8) Cons by (simp add: dAddSessKeyNext_def kt_upd_def word_gt_0)
      moreover have "kseg kl_uiTCPNext kl_uiTCPPrev (kt_stNode ?t) k ks 0 = kseg kl_uiTCPNext kl_uiTCPPrev (kt_stNode t) k ks 0"
        by (rule kseg_cong) (use k ij Cons in auto)
      then have "key_chain ?t (j # i # cs)" using assms(2) ij k n(3) b Cons by auto
      moreover have "key_tcp_step t ?t (set (i # j # cs))"
        using a n b Cons by (auto simp: key_tcp_step_def key_core_def)
      ultimately show ?thesis using ne keys by auto
    qed
  qed
qed

section \<open>The fresh table\<close>

lemma key_init_loop_ok:
  assumes "unat i + left \<le> MAX_SESSKEY_LIST" "\<forall>x. unat x < MAX_SESSKEY_LIST \<longrightarrow> (\<exists>n. kt_stNode t x = Some n)"
  shows "key_init_loop t i left = Some (t\<lparr>kt_stNode := \<lambda>x. if unat i \<le> unat x \<and> unat x < unat i + left
    then map_option (key_init_node x (x + 1)) (kt_stNode t x) else kt_stNode t x\<rparr>)"
  using assms
proof (induction left arbitrary: i t)
  case 0
  have "(\<lambda>x. if unat i \<le> unat x \<and> unat x < unat i + 0 then map_option (key_init_node x (x + 1)) (kt_stNode t x)
      else kt_stNode t x) = kt_stNode t" by (rule ext) auto
  then show ?case by simp
next
  case (Suc left)
  have "unat i < MAX_SESSKEY_LIST" using Suc.prems(1) by simp
  then obtain n where n: "kt_stNode t i = Some n" using Suc.prems(2) by blast
  let ?t = "t\<lparr>kt_stNode := (kt_stNode t)(i \<mapsto> key_init_node i (i + 1) n)\<rparr>"
  have "unat i < 20002" using Suc.prems(1) by (simp add: MAX_SESSKEY_LIST_def)
  then have i1: "unat (i + 1) = unat i + 1" by (simp add: unat_plus_if_size word_size)
  have "key_init_loop t i (Suc left) = key_init_loop ?t (i + 1) left" using n by (simp add: kt_upd_def)
  also have "\<dots> = Some (?t\<lparr>kt_stNode := \<lambda>x. if unat (i + 1) \<le> unat x \<and> unat x < unat (i + 1) + left
      then map_option (key_init_node x (x + 1)) (kt_stNode ?t x) else kt_stNode ?t x\<rparr>)"
    by (rule Suc.IH) (use Suc.prems i1 in auto)
  also have "\<dots> = Some (t\<lparr>kt_stNode := \<lambda>x. if unat i \<le> unat x \<and> unat x < unat i + Suc left
    then map_option (key_init_node x (x + 1)) (kt_stNode t x) else kt_stNode t x\<rparr>)"
  proof -
    have "(if unat (i + 1) \<le> unat x \<and> unat x < unat (i + 1) + left
        then map_option (key_init_node x (x + 1)) (kt_stNode ?t x) else kt_stNode ?t x) =
      (if unat i \<le> unat x \<and> unat x < unat i + Suc left
        then map_option (key_init_node x (x + 1)) (kt_stNode t x) else kt_stNode t x)" for x
    proof (cases "x = i")
      case False
      then have "unat x \<noteq> unat i" by (simp add: word_unat_eq_iff)
      then show ?thesis using False i1 by auto
    qed (use n i1 in simp)
    then show ?thesis by simp
  qed
  finally show ?case .
qed

lemma kfree_range:
  assumes "\<And>k. k \<in> {i..<n} \<Longrightarrow> \<exists>x. m (of_nat k) = Some x \<and> kl_uiTCPNext x = 0 \<and> kl_uiTCPPrev x = 0 \<and>
      kl_next x = (if k + 1 = n then 0 else of_nat (k + 1))"
  shows "kfree m (map of_nat [i..<n])"
  using assms
proof (induction "n - i" arbitrary: i)
  case (Suc d)
  then have "i < n" by simp
  then have "map of_nat [i..<n] = (of_nat i :: u32) # map of_nat [Suc i..<n]" by (simp add: upt_conv_Cons)
  moreover have "kfree m (map of_nat [Suc i..<n])" using Suc by (intro Suc.hyps) auto
  moreover have "first_of (map of_nat [Suc i..<n]) = (if i + 1 = n then 0 else of_nat (i + 1))"
    using \<open>i < n\<close> by (auto simp: first_of_def hd_map)
  ultimately show ?case using Suc.prems [of i] \<open>i < n\<close> by auto
qed simp

lemma InitTCPKeyList_ok:
  assumes "\<forall>x. unat x < MAX_SESSKEY_LIST \<longrightarrow> (\<exists>n. kt_stNode t x = Some n)"
  shows "\<exists>t'. InitTCPKeyList t = Some t' \<and> keys_wf t' (map of_nat [1..<MAX_SESSKEY_LIST]) []"
proof -
  let ?M = MAX_SESSKEY_LIST
  define m1 where "m1 = (\<lambda>x :: u32. if unat x < ?M - 1 then map_option (key_init_node x (x + 1)) (kt_stNode t x) else kt_stNode t x)"
  have M: "?M = 20002" by (simp add: MAX_SESSKEY_LIST_def)
  have l: "key_init_loop t 0 (?M - 1) = Some (t\<lparr>kt_stNode := m1\<rparr>)"
    using key_init_loop_ok [of 0 "?M - 1" t] assms by (simp add: m1_def)
  define last :: u32 where "last = of_nat (?M - 1)"
  have last: "unat last = ?M - 1" by (simp add: last_def M)
  obtain n where n: "kt_stNode t last = Some n" using assms last M by fastforce
  define t' where "t' = t\<lparr>kt_stNode := m1(last \<mapsto> key_init_node last 0 n), kt_uiFreeList := 1, kt_uiUsedFirst := 0,
    kt_uiUsedLast := 0, kt_uiCurrCount := 0\<rparr>"
  have "m1 last = Some n" using n last by (simp add: m1_def)
  then have run: "InitTCPKeyList t = Some t'"
    unfolding InitTCPKeyList_def Let_def l last_def [symmetric] by (simp add: kt_upd_def t'_def)
  have word: "unat (of_nat k :: u32) = k" if "k < ?M" for k using that M by (simp add: unat_of_nat)
  have node: "\<exists>x. kt_stNode t' (of_nat k) = Some x \<and> kl_uiTCPNext x = 0 \<and> kl_uiTCPPrev x = 0 \<and>
      kl_next x = (if k + 1 = ?M then 0 else of_nat (k + 1)) \<and> kl_uiIndex x = of_nat k" if k: "k < ?M" for k
  proof (cases "k + 1 = ?M")
    case True
    then have "k = ?M - 1" by simp
    then have "of_nat k = last" unfolding last_def by (rule arg_cong)
    then show ?thesis using True by (simp add: t'_def key_init_node_def)
  next
    case False
    obtain y where "kt_stNode t (of_nat k) = Some y" using assms word [OF k] k by fastforce
    moreover have "of_nat k \<noteq> last" using word [OF k] last False M by auto
    moreover have "k < ?M - 1" using False k by linarith
    ultimately show ?thesis using False word [OF k] by (simp add: t'_def m1_def key_init_node_def add.commute)
  qed
  have all: "set (map of_nat [1..<?M]) = {x :: u32. x \<noteq> 0 \<and> unat x < ?M}" (is "?A = ?B")
  proof
    show "?A \<subseteq> ?B" using word by (auto simp: word_unat_eq_iff)
    show "?B \<subseteq> ?A"
    proof
      fix x :: u32 assume "x \<in> ?B"
      then have "unat x \<in> {1..<?M}" by (auto simp: unat_gt_0 Suc_le_eq)
      then have "(of_nat (unat x) :: u32) \<in> of_nat ` {1..<?M}" by (rule imageI)
      moreover have "(of_nat (unat x) :: u32) = x" by simp
      ultimately show "x \<in> ?A" by (simp only: set_map set_upt)
    qed
  qed
  have dist: "distinct (map of_nat [1..<?M] :: u32 list)"
    using word by (auto simp: distinct_map inj_on_def) (metis atLeastLessThan_iff)
  have own: "key_own t' (set (map of_nat [1..<?M]))"
    unfolding key_own_def
  proof
    fix x :: u32 assume "x \<in> set (map of_nat [1..<?M])"
    then have x: "x \<noteq> 0" "unat x < ?M" using all by blast+
    then show "x \<noteq> 0 \<and> (\<exists>n. kt_stNode t' x = Some n \<and> kl_uiIndex n = x)" using node [OF x(2)] by auto
  qed
  have free: "kfree (kt_stNode t') (map of_nat [1..<?M])"
    by (rule kfree_range) (use node in fastforce)
  have "[1..<?M] \<noteq> []" "hd (map of_nat [1..<?M]) = (1 :: u32)" using M by (simp_all add: hd_map)
  then have "keys_wf t' (map of_nat [1..<?M]) []"
    unfolding keys_wf_def using all dist own free by (simp add: t'_def)
  then show ?thesis using run by blast
qed

section \<open>A session filled in\<close>

definition key_links :: "sesskeylist \<Rightarrow> u32 list" where
  "key_links n = [kl_next n, kl_prev n, kl_uiTCPNext n, kl_uiTCPPrev n, kl_uiIndex n]"

lemma key_links_same:
  assumes "t' = t\<lparr>kt_stNode := kt_stNode t'\<rparr>" "\<And>x. map_option key_links (kt_stNode t' x) = map_option key_links (kt_stNode t x)"
  shows "key_chain t' c = key_chain t c" "keys_wf t' fs us = keys_wf t fs us"
proof -
  have L: "map_option kl_next (kt_stNode t' x) = map_option kl_next (kt_stNode t x)"
    "map_option kl_prev (kt_stNode t' x) = map_option kl_prev (kt_stNode t x)"
    "map_option kl_uiTCPNext (kt_stNode t' x) = map_option kl_uiTCPNext (kt_stNode t x)"
    "map_option kl_uiTCPPrev (kt_stNode t' x) = map_option kl_uiTCPPrev (kt_stNode t x)"
    "map_option kl_uiIndex (kt_stNode t' x) = map_option kl_uiIndex (kt_stNode t x)" for x
    using assms(2) [of x] by (cases "kt_stNode t x"; cases "kt_stNode t' x"; simp add: key_links_def)+
  show "key_chain t' c = key_chain t c" by (rule kseg_cong) (simp add: L)
  have 1: "kseg kl_next kl_prev (kt_stNode t') 0 us 0 = kseg kl_next kl_prev (kt_stNode t) 0 us 0"
    by (rule kseg_cong) (simp add: L)
  have 2: "kfree (kt_stNode t') xs = kfree (kt_stNode t) xs" for xs
  proof (induction xs)
    case (Cons x xs)
    then show ?case using L(1,3,4) [of x] by (cases "kt_stNode t x"; cases "kt_stNode t' x") auto
  qed simp
  have 3: "(\<exists>n. kt_stNode t' x = Some n \<and> kl_uiIndex n = x) = (\<exists>n. kt_stNode t x = Some n \<and> kl_uiIndex n = x)" for x
    using L(5) [of x] by (cases "kt_stNode t x"; cases "kt_stNode t' x") auto
  have 4: "key_own t' X = key_own t X" for X unfolding key_own_def 3 by (rule refl)
  have "kt_uiFreeList t' = kt_uiFreeList t" "kt_uiUsedFirst t' = kt_uiUsedFirst t" "kt_uiUsedLast t' = kt_uiUsedLast t"
    "kt_uiCurrCount t' = kt_uiCurrCount t"
    by (subst assms(1), simp)+
  then show "keys_wf t' fs us = keys_wf t fs us" by (simp add: keys_wf_def 1 2 4)
qed

lemma key_store_ok:
  assumes "keys_wf t fs us" "i \<in> set us"
  shows "\<exists>t'. key_store t i key start = Some t' \<and> keys_wf t' fs us \<and> (\<forall>c. key_chain t' c = key_chain t c) \<and>
    key_of t' i = key \<and> map_option kl_SessStartTime (kt_stNode t' i) = Some start \<and>
    (\<forall>x. x \<noteq> i \<longrightarrow> kt_stNode t' x = kt_stNode t x)"
proof -
  obtain n where n: "kt_stNode t i = Some n" using keys_wf_node(3) [OF assms] by blast
  let ?t = "t\<lparr>kt_stNode := (kt_stNode t)(i \<mapsto> n\<lparr>kl_stSessKey := key, kl_SessStartTime := start\<rparr>)\<rparr>"
  have "map_option key_links (kt_stNode ?t x) = map_option key_links (kt_stNode t x)" for x
    using n by (simp add: key_links_def)
  note same = key_links_same [of ?t t, OF _ this]
  have "keys_wf ?t fs us" using same(2) assms(1) by simp
  moreover have "key_chain ?t c = key_chain t c" for c by (rule same(1)) simp
  ultimately show ?thesis using n by (simp add: key_store_def kt_upd_def key_of_def)
qed

text \<open>A table with two sessions of one client.\<close>

definition key_demo_key :: "u16 \<Rightarrow> tcpsesskey" where
  "key_demo_key p = \<lparr>sk_uiSIP = 0x0a000001, sk_uiDIP = 0x0a000002, sk_usSPort = p, sk_usDPort = 80\<rparr>"

definition key_demo_raw :: sesskeytbl where
  "key_demo_raw = \<lparr>kt_uiFreeList = 0, kt_uiUsedFirst = 0, kt_uiUsedLast = 0, kt_uiCurrCount = 0,
     kt_stNode = \<lambda>x. if unat x < MAX_SESSKEY_LIST then Some \<lparr>kl_stSessKey = tcpsesskey_zero, kl_next = 0, kl_prev = 0,
       kl_uiTCPNext = 0, kl_uiTCPPrev = 0, kl_uiIndex = 0, kl_SessStartTime = 0\<rparr> else None\<rparr>"

definition key_demo_head :: "u32 \<Rightarrow> sesskeylist" where
  "key_demo_head i = \<lparr>kl_stSessKey = tcpsesskey_zero, kl_next = 0, kl_prev = 0,
     kl_uiTCPNext = 0, kl_uiTCPPrev = 0, kl_uiIndex = i, kl_SessStartTime = 0\<rparr>"

text \<open>Two nodes in the order they were filled in, the second behind the first.\<close>

lemma key_demo:
  obtains t0 fs t us i j where "InitTCPKeyList key_demo_raw = Some t0" "keys_wf t fs us" "set us = {i, j}" "i \<noteq> j"
    "key_chain t [i, j]" "key_of t i = key_demo_key 1" "key_of t j = key_demo_key 2"
    "map_option kl_SessStartTime (kt_stNode t i) = Some 100" "map_option kl_SessStartTime (kt_stNode t j) = Some 200"
proof -
  have M: "MAX_SESSKEY_LIST = 20002" by (simp add: MAX_SESSKEY_LIST_def)
  obtain t0 where t0: "InitTCPKeyList key_demo_raw = Some t0" "keys_wf t0 (map of_nat [1..<MAX_SESSKEY_LIST]) []"
    using InitTCPKeyList_ok [of key_demo_raw] by (auto simp: key_demo_raw_def)
  obtain i j k fs where fs: "map of_nat [1..<MAX_SESSKEY_LIST] = (i :: u32) # j # k # fs"
  proof -
    have "Suc (Suc (Suc 0)) \<le> length (map of_nat [1..<MAX_SESSKEY_LIST] :: u32 list)" using M by simp
    then show ?thesis unfolding Suc_le_length_iff by (elim exE conjE) (rule that, simp)
  qed
  obtain t1 where t1: "keys_wf t1 (j # k # fs) [i]" "key_chain t1 [i]"
    using pGetSessKeyList_ok [of t0 i "j # k # fs" "[]"] t0(2) fs by auto
  obtain t2 where "keys_wf t2 (j # k # fs) [i]" "\<forall>c. key_chain t2 c = key_chain t1 c" "key_of t2 i = key_demo_key 1"
    "map_option kl_SessStartTime (kt_stNode t2 i) = Some 100"
    using key_store_ok [OF t1(1) list.set_intros(1), of "key_demo_key 1" 100] by blast
  note t2 = this(1) iffD2 [OF spec [OF this(2)] t1(2)] this(3,4)
  obtain t3 where t3: "keys_wf t3 (k # fs) [j, i]" "key_chain t3 [j]"
    "\<And>x. map_option key_body (kt_stNode t3 x) = map_option key_body (kt_stNode t2 x)"
    using pGetSessKeyList_ok [of t2 j "k # fs" "[i]"] t2(1) by auto
  have ij: "i \<noteq> j" using keys_wfD(2) [OF t3(1)] by auto
  have ch3: "key_chain t3 [i]"
    by (rule key_list_step_chain [of t2 _ j]) (use t3(3) t2(2) ij in \<open>simp_all add: key_list_step_def\<close>)
  have k3: "key_of t3 i = key_demo_key 1" "map_option kl_SessStartTime (kt_stNode t3 i) = Some 100"
    using key_body_tcp(3,4) [OF t3(3) [of i]] t2(3,4)
    by (cases "kt_stNode t3 i"; cases "kt_stNode t2 i"; simp add: key_of_def)+
  obtain t4 where "keys_wf t4 (k # fs) [j, i]" "\<forall>c. key_chain t4 c = key_chain t3 c" "key_of t4 j = key_demo_key 2"
    "map_option kl_SessStartTime (kt_stNode t4 j) = Some 200" "\<forall>x. x \<noteq> j \<longrightarrow> kt_stNode t4 x = kt_stNode t3 x"
    using key_store_ok [OF t3(1) list.set_intros(1), of "key_demo_key 2" 200] by blast
  note t4 = this(1) iffD2 [OF spec [OF this(2)] t3(2)] iffD2 [OF spec [OF this(2)] ch3] this(3,4) mp [OF spec [OF this(5)] ij]
  have k4: "key_of t4 i = key_demo_key 1" using k3(1) t4(6) by (simp add: key_of_def)
  have "key_of t4 j \<noteq> key_of t4 i" by (simp add: t4(4) k4 key_demo_key_def)
  then obtain t5 where t5: "key_chain t5 [i, j]" "key_tcp_step t4 t5 (set [j, i])"
    using dAddSessKeyNext_ok [OF t4(1) t4(3,2), of "key_demo_head i"] ij by (auto simp: key_demo_head_def)
  have wf: "keys_wf t5 (k # fs) [j, i]"
    by (rule key_tcp_step_wf [OF t5(2) t4(1)]) (use keys_wfD(2) [OF t4(1)] in auto)
  have core: "map_option key_core (kt_stNode t5 x) = map_option key_core (kt_stNode t4 x)" for x
    using t5(2) by (simp add: key_tcp_step_def)
  have k5: "key_of t5 x = key_of t4 x" "map_option kl_SessStartTime (kt_stNode t5 x) = map_option kl_SessStartTime (kt_stNode t4 x)" for x
    using key_core_keep(3,4) [OF core [of x]] by (cases "kt_stNode t5 x"; cases "kt_stNode t4 x"; simp add: key_of_def)+
  show ?thesis
    by (rule that [OF t0(1) wf _ ij t5(1)]) (use k5 k4 k3(2) t4(4-6) in auto)
qed

section \<open>Properties\<close>

definition key_start :: "sesskeytbl \<Rightarrow> u32 \<Rightarrow> u32" where
  "key_start t x = (case kt_stNode t x of None \<Rightarrow> 0 | Some n \<Rightarrow> kl_SessStartTime n)"

lemma key_hit_key:
  assumes "keys_wf t fs us" "x \<in> set us"
  shows "key_hit (\<lambda>n. kl_stSessKey n = key) t x \<longleftrightarrow> key_of t x = key"
    "key_hit (\<lambda>n. lt = 0 \<or> kl_SessStartTime n < lt) t x \<longleftrightarrow> lt = 0 \<or> key_start t x < lt"
  using keys_wf_node(3) [OF assms] by (auto simp: key_hit_def key_of_def key_start_def)

lemma key_kept:
  assumes "keys_wf t fs us" "set c \<subseteq> set us"
  shows "filter (\<lambda>x. \<not> key_hit (\<lambda>n. kl_stSessKey n = key) t x) c = filter (\<lambda>x. key_of t x \<noteq> key) c"
    "filter (\<lambda>x. \<not> key_hit (\<lambda>n. lt = 0 \<or> kl_SessStartTime n < lt) t x) c = filter (\<lambda>x. \<not> (lt = 0 \<or> key_start t x < lt)) c"
    "filter (key_hit (\<lambda>n. lt = 0 \<or> kl_SessStartTime n < lt) t) (rev c) = filter (\<lambda>x. lt = 0 \<or> key_start t x < lt) (rev c)"
proof -
  have in_c: "x \<in> set us" if "x \<in> set c" for x using that assms(2) by blast
  note k = key_hit_key [OF assms(1) in_c]
  show "filter (\<lambda>x. \<not> key_hit (\<lambda>n. kl_stSessKey n = key) t x) c = filter (\<lambda>x. key_of t x \<noteq> key) c"
    by (rule filter_cong [OF refl]) (simp only: k(1))
  show "filter (\<lambda>x. \<not> key_hit (\<lambda>n. lt = 0 \<or> kl_SessStartTime n < lt) t x) c = filter (\<lambda>x. \<not> (lt = 0 \<or> key_start t x < lt)) c"
    by (rule filter_cong [OF refl]) (simp only: k(2))
  show "filter (key_hit (\<lambda>n. lt = 0 \<or> kl_SessStartTime n < lt) t) (rev c) = filter (\<lambda>x. lt = 0 \<or> key_start t x < lt) (rev c)"
    by (rule filter_cong [OF refl]) (simp only: k(2) set_rev)
qed

text \<open>C9: \<open>dDelSessKeyNext\<close> on the nodes \<open>c\<close> of a client, in a table whose lists are in order: it returns,
  releases exactly the nodes with the key and answers the number of nodes that are left. Those keep their
  order, keys and times, and the copy in the hash table names the first of them; the nodes of the other
  clients stay as they are.\<close>

theorem dDelSessKeyNext_correct:
  assumes "keys_wf t fs us" "key_chain t c" "c \<noteq> []" "distinct c" "set c \<subseteq> set us" "kl_uiIndex h = hd c"
    "c' = filter (\<lambda>x. key_of t x \<noteq> key) c"
  shows "\<exists>t' h'. dDelSessKeyNext t h key = Some (t', h', int (length c')) \<and> key_deleted t t' us c c' \<and>
    (c' \<noteq> [] \<longrightarrow> kl_uiIndex h' = hd c')"
proof -
  have sel: "key_sel (\<lambda>n. kl_stSessKey n = key)" by (simp add: key_sel_def)
  have c': "filter (\<lambda>x. \<not> key_hit (\<lambda>n. kl_stSessKey n = key) t x) c = c'" by (simp add: key_kept(1) [OF assms(1,5)] assms(7))
  obtain t' h' where r: "\<forall>w :: unit. key_del (\<lambda>n. kl_stSessKey n = key) (\<lambda>k w. Some w) (w, t, h) =
      do { w' \<leftarrow> key_acts (\<lambda>k w. Some w) (map (key_of t) (filter (key_hit (\<lambda>n. kl_stSessKey n = key) t) (rev c))) w;
           Some ((w', t', h'), int (length c')) }"
    "key_deleted t t' us c c'" "c' \<noteq> [] \<longrightarrow> kl_uiIndex h' = hd c'"
    using key_del_ok [OF assms(1-5) sel assms(6), of "\<lambda>k w. Some w"] unfolding c' by (elim exE conjE) (rule that; assumption)
  have "dDelSessKeyNext t h key = Some (t', h', int (length c'))"
    by (simp add: dDelSessKeyNext_def spec [OF r(1)] key_acts_unit)
  then show ?thesis using r(2,3) by blast
qed

theorem dDelSessKeyNext_correct_witness:
  "\<exists>t t' h' fs us i j. keys_wf t fs us \<and> key_chain t [i, j] \<and>
     dDelSessKeyNext t (key_demo_head i) (key_demo_key 1) = Some (t', h', 1) \<and> key_chain t' [j] \<and> kl_uiIndex h' = j"
proof -
  obtain t fs us i j where d: "keys_wf t fs us" "set us = {i, j}" "i \<noteq> j" "key_chain t [i, j]"
    "key_of t i = key_demo_key 1" "key_of t j = key_demo_key 2" by (rule key_demo) (rule that)
  have c': "[j] = filter (\<lambda>x. key_of t x \<noteq> key_demo_key 1) [i, j]" using d(5,6) by (simp add: key_demo_key_def)
  have "\<exists>t' h'. dDelSessKeyNext t (key_demo_head i) (key_demo_key 1) = Some (t', h', int (length [j])) \<and>
      key_deleted t t' us [i, j] [j] \<and> ([j] \<noteq> [] \<longrightarrow> kl_uiIndex h' = hd [j])"
    by (rule dDelSessKeyNext_correct [OF d(1,4) _ _ _ _ c']) (use d(2,3) in \<open>simp_all add: key_demo_head_def\<close>)
  then obtain t' h' where r: "dDelSessKeyNext t (key_demo_head i) (key_demo_key 1) = Some (t', h', 1)"
    "key_deleted t t' us [i, j] [j]" "kl_uiIndex h' = j" by auto
  have "key_chain t' [j]" using r(2) unfolding key_deleted_def by blast
  then show ?thesis using d(1,4) r(1,3) by blast
qed

text \<open>C10: \<open>dDelSessKeyList\<close>, when a call of a client is cleared: exactly the sessions of the client that started
  before the given time (all of them for 0) are closed, each once and from the last node to the first,
  and their nodes released; the number that stays is answered. When closing faults, so does the call.\<close>

theorem dDelSessKeyList_correct:
  assumes "keys_wf t fs us" "key_chain t c" "c \<noteq> []" "distinct c" "set c \<subseteq> set us" "kl_uiIndex h = hd c"
    "old = (\<lambda>x. lt = 0 \<or> key_start t x < lt)" "c' = filter (\<lambda>x. \<not> old x) c"
  shows "\<exists>t' h'. (\<forall>w. dDelSessKeyList close lt (w, t, h) =
      do { w' \<leftarrow> key_acts close (map (key_of t) (filter old (rev c))) w; Some ((w', t', h'), int (length c')) }) \<and>
    key_deleted t t' us c c' \<and> (c' \<noteq> [] \<longrightarrow> kl_uiIndex h' = hd c')"
proof -
  have sel: "key_sel (\<lambda>n. lt = 0 \<or> kl_SessStartTime n < lt)" by (simp add: key_sel_def)
  have k: "filter (\<lambda>x. \<not> key_hit (\<lambda>n. lt = 0 \<or> kl_SessStartTime n < lt) t x) c = c'"
    "filter (key_hit (\<lambda>n. lt = 0 \<or> kl_SessStartTime n < lt) t) (rev c) = filter old (rev c)"
    unfolding key_kept(2,3) [OF assms(1,5)] assms(7,8) by (rule refl)+
  show ?thesis
    using key_del_ok [OF assms(1-5) sel assms(6), of close] unfolding k dDelSessKeyList_def .
qed

theorem dDelSessKeyList_correct_witness:
  "\<exists>t t' h' fs us i j. keys_wf t fs us \<and> key_chain t [i, j] \<and>
     dDelSessKeyList (\<lambda>k ks. Some (ks @ [k])) 150 ([], t, key_demo_head i) = Some (([key_demo_key 1], t', h'), 1) \<and>
     key_chain t' [j]"
proof -
  obtain t fs us i j where d: "keys_wf t fs us" "set us = {i, j}" "i \<noteq> j" "key_chain t [i, j]"
    "key_of t i = key_demo_key 1" "map_option kl_SessStartTime (kt_stNode t i) = Some 100"
    "map_option kl_SessStartTime (kt_stNode t j) = Some 200" by (rule key_demo) (rule that)
  let ?old = "\<lambda>x. 150 = (0 :: u32) \<or> key_start t x < 150"
  have st: "key_start t i = 100" "key_start t j = 200" using d(6,7) by (auto simp: key_start_def)
  then have c': "[j] = filter (\<lambda>x. \<not> ?old x) [i, j]" by simp
  have o: "map (key_of t) (filter ?old (rev [i, j])) = [key_demo_key 1]" using st d(5) by simp
  have "\<exists>t' h'. (\<forall>w. dDelSessKeyList (\<lambda>k ks. Some (ks @ [k])) 150 (w, t, key_demo_head i) =
      do { w' \<leftarrow> key_acts (\<lambda>k ks. Some (ks @ [k])) (map (key_of t) (filter ?old (rev [i, j]))) w; Some ((w', t', h'), int (length [j])) }) \<and>
    key_deleted t t' us [i, j] [j] \<and> ([j] \<noteq> [] \<longrightarrow> kl_uiIndex h' = hd [j])"
    by (rule dDelSessKeyList_correct [OF d(1,4) _ _ _ _ refl c']) (use d(2,3) in \<open>simp_all add: key_demo_head_def\<close>)
  then obtain t' h' where r: "dDelSessKeyList (\<lambda>k ks. Some (ks @ [k])) 150 ([], t, key_demo_head i) = Some (([key_demo_key 1], t', h'), 1)"
    "key_deleted t t' us [i, j] [j]" unfolding o by auto
  have "key_chain t' [j]" using r(2) unfolding key_deleted_def by blast
  then show ?thesis using d(1,4) r(1) by blast
qed

text \<open>C11: \<open>dGetSessKeyList\<close> takes the first free node into use, alone in its list of a client, and leaves the
  lists and contents of the others; it answers -1 exactly when only one free node is left, so that of the
  20001 nodes of the fresh table the last one is never used.\<close>

theorem dGetSessKeyList_correct:
  assumes "keys_wf t (i # fs) us"
  shows "if fs = [] then dGetSessKeyList t = Some (t, -1, None)
    else \<exists>t'. dGetSessKeyList t = Some (t', 0, Some i) \<and> keys_wf t' fs (i # us) \<and> key_chain t' [i] \<and>
      (\<forall>c. key_chain t c \<longrightarrow> i \<notin> set c \<longrightarrow> key_chain t' c) \<and> (\<forall>x. key_of t' x = key_of t x \<and> key_start t' x = key_start t x)"
proof (cases "fs = []")
  case True
  then show ?thesis using pGetSessKeyList_none assms by (simp add: dGetSessKeyList_def)
next
  case False
  obtain t' where r: "pGetSessKeyList t = Some (t', Some i)" "keys_wf t' fs (i # us)" "key_chain t' [i]"
    "\<forall>x. map_option key_body (kt_stNode t' x) = map_option key_body (kt_stNode t x)"
    using pGetSessKeyList_ok [OF assms False] by blast
  have step: "key_list_step t t' i" using r(4) by (simp add: key_list_step_def)
  have "key_of t' x = key_of t x \<and> key_start t' x = key_start t x" for x
    using key_body_tcp(3,4) [OF spec [OF r(4), of x]]
    by (cases "kt_stNode t x"; cases "kt_stNode t' x") (simp_all add: key_of_def key_start_def)
  then show ?thesis
    using r(1-3) key_list_step_chain [OF step] False by (simp add: dGetSessKeyList_def)
qed

theorem dGetSessKeyList_correct_witness:
  "\<exists>t t'. InitTCPKeyList key_demo_raw = Some t \<and> dGetSessKeyList t = Some (t', 0, Some 1)"
proof -
  obtain t where t: "InitTCPKeyList key_demo_raw = Some t" "keys_wf t (map of_nat [1..<MAX_SESSKEY_LIST]) []"
    using InitTCPKeyList_ok [of key_demo_raw] by (auto simp: key_demo_raw_def)
  have l: "map of_nat [1..<m] = (1 :: u32) # map of_nat [2..<m] \<and> map of_nat [2..<m] \<noteq> ([] :: u32 list)" if "2 < m" for m
    using that upt_conv_Cons [of 1 m] by (simp add: numeral_2_eq_2 del: upt_Suc)
  have M: "2 < MAX_SESSKEY_LIST" by (simp add: MAX_SESSKEY_LIST_def)
  have ne: "map of_nat [2..<MAX_SESSKEY_LIST] \<noteq> ([] :: u32 list)" by (rule conjunct2 [OF l [OF M]])
  then obtain t' where "dGetSessKeyList t = Some (t', 0, Some 1)"
    using dGetSessKeyList_correct [OF t(2) [unfolded conjunct1 [OF l [OF M]]]] unfolding if_not_P [OF ne] by (elim exE conjE) (rule that)
  then show ?thesis using t(1) by blast
qed

end
