(* ===== verification/TcpUtil.thy ===== *)
theory TcpUtil
  imports TcpTypes "HOL-Library.Word"
begin

unbundle bit_operations_syntax

text \<open>
  \<^verbatim>\<open>A_TCP/tcp_util.c\<close>: session keys, control flags, fail codes, the routing to the next process, and the
  comparison of a new segment with an old one. A result through a pointer is part of the value.
\<close>

section \<open>Process numbers\<close>

definition SEQ_PROC_A_SIPT :: int where "SEQ_PROC_A_SIPT = 2"
definition SEQ_PROC_A_SIPM :: int where "SEQ_PROC_A_SIPM = 3"
definition SEQ_PROC_A_JNC :: int where "SEQ_PROC_A_JNC = 4"
definition SEQ_PROC_A_IV :: int where "SEQ_PROC_A_IV = 5"
definition SEQ_PROC_A_ONLINE :: int where "SEQ_PROC_A_ONLINE = 6"
definition SEQ_PROC_A_DNS :: int where "SEQ_PROC_A_DNS = 7"
definition SEQ_PROC_A_FTP :: int where "SEQ_PROC_A_FTP = 8"
definition SEQ_PROC_A_WAP20 :: int where "SEQ_PROC_A_WAP20 = 9"
definition SEQ_PROC_A_WIPI :: int where "SEQ_PROC_A_WIPI = 10"
definition SEQ_PROC_A_2G :: int where "SEQ_PROC_A_2G = 11"
definition SEQ_PROC_A_JAVA :: int where "SEQ_PROC_A_JAVA = 12"
definition SEQ_PROC_A_VOD :: int where "SEQ_PROC_A_VOD = 13"
definition SEQ_PROC_A_MMS :: int where "SEQ_PROC_A_MMS = 14"
definition SEQ_PROC_A_FV :: int where "SEQ_PROC_A_FV = 15"
definition SEQ_PROC_A_EMS :: int where "SEQ_PROC_A_EMS = 16"
definition SEQ_PROC_A_FB :: int where "SEQ_PROC_A_FB = 17"
definition SEQ_PROC_A_XCAP :: int where "SEQ_PROC_A_XCAP = 18"
definition SEQ_PROC_A_WIDGET :: int where "SEQ_PROC_A_WIDGET = 19"
definition SEQ_PROC_A_MSRPM :: int where "SEQ_PROC_A_MSRPM = 20"
definition SEQ_PROC_A_MSRPT :: int where "SEQ_PROC_A_MSRPT = 21"
definition SEQ_PROC_A_VT :: int where "SEQ_PROC_A_VT = 22"
definition SEQ_PROC_A_HTTP :: int where "SEQ_PROC_A_HTTP = 29"
definition SEQ_PROC_A_CALL :: int where "SEQ_PROC_A_CALL = 34"
definition SEQ_PROC_A_TCP0 :: int where "SEQ_PROC_A_TCP0 = 39"

lemmas seq_proc_defs = SEQ_PROC_A_SIPT_def SEQ_PROC_A_SIPM_def SEQ_PROC_A_JNC_def SEQ_PROC_A_IV_def
  SEQ_PROC_A_ONLINE_def SEQ_PROC_A_DNS_def SEQ_PROC_A_FTP_def SEQ_PROC_A_WAP20_def
  SEQ_PROC_A_WIPI_def SEQ_PROC_A_2G_def SEQ_PROC_A_JAVA_def SEQ_PROC_A_VOD_def
  SEQ_PROC_A_MMS_def SEQ_PROC_A_FV_def SEQ_PROC_A_EMS_def SEQ_PROC_A_FB_def
  SEQ_PROC_A_XCAP_def SEQ_PROC_A_WIDGET_def SEQ_PROC_A_MSRPM_def SEQ_PROC_A_MSRPT_def
  SEQ_PROC_A_VT_def SEQ_PROC_A_HTTP_def SEQ_PROC_A_CALL_def SEQ_PROC_A_TCP0_def

section \<open>Keys, flags and codes\<close>

definition MakeTCPHashKey :: "caphead \<Rightarrow> infoeth \<Rightarrow> tcpsesskey" where
  "MakeTCPHashKey cap eth =
     (if cp_bRtxType cap = DEF_FROM_CLIENT
      then \<lparr>sk_uiSIP = ip_dwSrcIP (ie_stIP eth), sk_uiDIP = ip_dwDestIP (ie_stIP eth),
            sk_usSPort = ut_wSrcPort (ie_stUDPTCP eth), sk_usDPort = ut_wDestPort (ie_stUDPTCP eth)\<rparr>
      else \<lparr>sk_uiSIP = ip_dwDestIP (ie_stIP eth), sk_uiDIP = ip_dwSrcIP (ie_stIP eth),
            sk_usSPort = ut_wDestPort (ie_stUDPTCP eth), sk_usDPort = ut_wSrcPort (ie_stUDPTCP eth)\<rparr>)"

definition GetTCPControl :: "u8 \<Rightarrow> u8" where
  "GetTCPControl control =
     (if control AND TCP_SYNACK = TCP_SYNACK then TCP_SYNACK
      else if control AND TCP_SYN = TCP_SYN then TCP_SYN
      else if control AND TCP_RST = TCP_RST then TCP_RST
      else if control AND TCP_FIN = TCP_FIN then TCP_FIN
      else if control AND TCP_ACK = TCP_ACK then TCP_ACK
      else 0)"

text \<open>The code of a finished session; 0 where the source only logs.\<close>

definition GetFailCode :: "tcpsess \<Rightarrow> u16" where
  "GetFailCode s =
     (if ts_ucEndStatus s = DEF_END_NORMAL then
        (if ts_ucFinStatus s = DEF_FIN_3
         then (if ts_ucFinRtx s = DEF_FROM_SERVER then TCP_NOERR_FIN_E2 else TCP_NOERR_FIN_E1)
         else 0)
      else if ts_ucEndStatus s = DEF_END_ABNORMAL then ABNORMAL_TRANS
      else if ts_ucEndStatus s = DEF_END_LONGLAST then
        (if ts_ucFinStatus s = DEF_FIN_0 then
           (if ts_ucStatus s = DEF_STATUS_SYN then LONGLAST_SYN_TRANS
            else if ts_ucStatus s = DEF_STATUS_SYNACK then LONGLAST_SYNACK_TRANS
            else if ts_ucStatus s = DEF_STATUS_ACK then LONGLAST_NOFIN_TRANS
            else 0)
         else if ts_ucFinStatus s = DEF_FIN_1 \<or> ts_ucFinStatus s = DEF_FIN_2
         then (if ts_ucFinRtx s = DEF_FROM_SERVER then LONGLAST_FIN_E2 else LONGLAST_FIN_E1)
         else 0)
      else if ts_ucEndStatus s = DEF_END_RST then
        (if ts_ucFinStatus s = DEF_FIN_0 then
           (if ts_ucStatus s = DEF_STATUS_SYN
            then (if ts_ucRstRtx s = DEF_FROM_SERVER then TCP_ERR_RST_E2_SYN else TCP_ERR_RST_E1_SYN)
            else if ts_ucStatus s = DEF_STATUS_SYNACK
            then (if ts_ucRstRtx s = DEF_FROM_SERVER then TCP_ERR_RST_E2_SYNACK else TCP_ERR_RST_E1_SYNACK)
            else if ts_ucStatus s = DEF_STATUS_ACK
            then (if ts_ucRstRtx s = DEF_FROM_SERVER then TCP_ERR_RST_E2_NOFIN else TCP_ERR_RST_E1_NOFIN)
            else 0)
         else if ts_ucFinStatus s = DEF_FIN_1 \<or> ts_ucFinStatus s = DEF_FIN_2
         then (if ts_ucFinRtx s = DEF_FROM_SERVER
               then (if ts_ucRstRtx s = DEF_FROM_SERVER then TCP_ERR_RST_E2_FIN_E2 else TCP_ERR_RST_E1_FIN_E2)
               else (if ts_ucRstRtx s = DEF_FROM_SERVER then TCP_ERR_RST_E2_FIN_E1 else TCP_ERR_RST_E1_FIN_E1))
         else 0)
      else 0)"

definition GetGapTime :: "int \<Rightarrow> int \<Rightarrow> int \<Rightarrow> int \<Rightarrow> int" where
  "GetGapTime endtime endmtime starttime startmtime =
     (let gapTime = (endtime * 1000000 + endmtime) - (starttime * 1000000 + startmtime)
      in if gapTime < 0 then 0 else gapTime)"

text \<open>\<open>SetData\<close> moves the counters of the session into the message.\<close>

definition SetData :: "tcpsess \<Rightarrow> tcpinfo \<Rightarrow> tcpsess \<times> tcpinfo" where
  "SetData s ti =
     (s\<lparr>ts_cnt := ipcnt_zero\<rparr>,
      ti\<lparr>ti_ucTcpClientStatus := ts_ucTcpClientStatus s, ti_ucTcpServerStatus := ts_ucTcpServerStatus s,
         ti_cnt := ts_cnt s\<rparr>)"

section \<open>Routing\<close>

text \<open>\<open>gACALLCnt\<close> and \<open>gAHTTPCnt\<close> are the numbers of receiving processes; a division by 0 faults.\<close>

definition dGetCALLProcID :: "u32 \<Rightarrow> u32 \<Rightarrow> int option" where
  "dGetCALLProcID gACALLCnt uiClientIP =
     (if gACALLCnt = 0 then None else Some (SEQ_PROC_A_CALL + uint (uiClientIP mod gACALLCnt)))"

definition dGetProcID :: "u32 \<Rightarrow> u32 \<Rightarrow> u16 \<Rightarrow> u32 \<Rightarrow> int option" where
  "dGetProcID gAHTTPCnt gACALLCnt usAppCode uiClientIP =
     (let app = uint usAppCode in
      if app \<in> {SEQ_PROC_A_TCP0, SEQ_PROC_A_JNC, SEQ_PROC_A_IV, SEQ_PROC_A_ONLINE, SEQ_PROC_A_DNS, SEQ_PROC_A_FTP}
      then Some app
      else if app \<in> {SEQ_PROC_A_WAP20, SEQ_PROC_A_WIPI, SEQ_PROC_A_2G, SEQ_PROC_A_JAVA, SEQ_PROC_A_VOD, SEQ_PROC_A_MMS,
                     SEQ_PROC_A_FV, SEQ_PROC_A_EMS, SEQ_PROC_A_FB, SEQ_PROC_A_XCAP, SEQ_PROC_A_WIDGET}
      then (if gAHTTPCnt = 0 then None else Some (SEQ_PROC_A_HTTP + uint (uiClientIP mod gAHTTPCnt)))
      else if app \<in> {SEQ_PROC_A_MSRPM, SEQ_PROC_A_MSRPT} then Some SEQ_PROC_A_MSRPM
      else if app \<in> {SEQ_PROC_A_SIPM, SEQ_PROC_A_SIPT} then Some SEQ_PROC_A_SIPM
      else if app = SEQ_PROC_A_CALL then dGetCALLProcID gACALLCnt uiClientIP
      else Some 0)"

section \<open>Retransmission\<close>

datatype retrans =
  DEF_NORETRANS_OVER | DEF_NORETRANS_UNDER | DEF_RETRANS_OVER | DEF_RETRANS_UNDER | DEF_RETRANS_SUBSET | DEF_RETRANS_RSUBSET

text \<open>The answers on which \<^verbatim>\<open>dInsertTCPData\<close> keeps the new segment behind the old one.\<close>

definition retrans_over :: "retrans \<Rightarrow> bool" where
  "retrans_over r \<longleftrightarrow> r = DEF_NORETRANS_OVER \<or> r = DEF_RETRANS_OVER"

text \<open>The first \<open>n\<close> bytes of a segment taken off.\<close>

definition tcpinfo_skip :: "tcpinfo \<Rightarrow> int \<Rightarrow> tcpinfo" where
  "tcpinfo_skip ti n = ti\<lparr>ti_uiSOffset := ti_uiSOffset ti + n, ti_uiDataSize := ti_uiDataSize ti - word_of_int n,
     ti_uiSeqNum := ti_uiSeqNum ti + word_of_int n\<rparr>"

text \<open>The answer, \<open>*pRetransSize\<close> (an \<open>S32\<close>), and the new segment as it is left.\<close>

definition CalcRetrans :: "tcpinfo \<Rightarrow> u32 \<Rightarrow> u32 \<Rightarrow> u32 \<Rightarrow> retrans \<times> int \<times> tcpinfo" where
  "CalcRetrans pNEW baseSEQ oldSEQ oldDataSize =
     (let newStartSEQ = OFFSET_SEQ baseSEQ (ti_uiSeqNum pNEW);
          newEndSEQ = OFFSET_SEQ baseSEQ (ti_uiSeqNum pNEW) + ti_uiDataSize pNEW - 1;
          oldStartSEQ = OFFSET_SEQ baseSEQ oldSEQ;
          oldEndSEQ = OFFSET_SEQ baseSEQ oldSEQ + oldDataSize - 1 in
      if oldEndSEQ < newStartSEQ then (DEF_NORETRANS_OVER, 0, pNEW)
      else if oldStartSEQ > newEndSEQ then (DEF_NORETRANS_UNDER, 0, pNEW)
      else
        let startGAP = sint (newStartSEQ - oldStartSEQ); endGAP = sint (newEndSEQ - oldEndSEQ) in
        if startGAP = 0 then
          (if endGAP \<le> 0 then (DEF_RETRANS_SUBSET, sint (ti_uiDataSize pNEW), pNEW)
           else let r = sint oldDataSize in (DEF_RETRANS_OVER, r, tcpinfo_skip pNEW r))
        else if startGAP < 0 then
          (if endGAP \<le> 0
           then let r = sint (newEndSEQ - oldStartSEQ + 1)
                in (DEF_RETRANS_UNDER, r, pNEW\<lparr>ti_uiDataSize := ti_uiDataSize pNEW - word_of_int r\<rparr>)
           else (DEF_RETRANS_RSUBSET, sint oldDataSize, pNEW))
        else
          (if endGAP \<le> 0 then (DEF_RETRANS_SUBSET, sint (ti_uiDataSize pNEW), pNEW)
           else let r = sint (oldEndSEQ - newStartSEQ + 1) in (DEF_RETRANS_OVER, r, tcpinfo_skip pNEW r)))"

definition CalcBase :: "tcpinfo \<Rightarrow> u32 \<Rightarrow> u32 \<Rightarrow> u32 \<Rightarrow> retrans \<times> int \<times> tcpinfo" where
  "CalcBase pNEW baseSEQ oldSEQ oldDataSize =
     (let newStartSEQ = OFFSET_SEQ baseSEQ (ti_uiSeqNum pNEW);
          newEndSEQ = OFFSET_SEQ baseSEQ (ti_uiSeqNum pNEW) + ti_uiDataSize pNEW - 1;
          oldStartSEQ = OFFSET_SEQ baseSEQ oldSEQ;
          oldEndSEQ = OFFSET_SEQ baseSEQ oldSEQ + oldDataSize - 1 in
      if oldEndSEQ < newStartSEQ then (DEF_NORETRANS_OVER, 0, pNEW)
      else if oldStartSEQ > newEndSEQ then (DEF_RETRANS_UNDER, sint (ti_uiDataSize pNEW), pNEW)
      else
        let startGAP = sint (newStartSEQ - oldStartSEQ); endGAP = sint (newEndSEQ - oldEndSEQ) in
        if startGAP = 0 then
          (if endGAP \<le> 0 then (DEF_RETRANS_SUBSET, sint (ti_uiDataSize pNEW), pNEW)
           else let r = sint oldDataSize in (DEF_RETRANS_OVER, r, tcpinfo_skip pNEW r))
        else if startGAP < 0 then
          (if endGAP \<le> 0 then (DEF_RETRANS_UNDER, sint (ti_uiDataSize pNEW), pNEW)
           else let r = sint (oldEndSEQ - newStartSEQ + 1) in (DEF_RETRANS_OVER, r, tcpinfo_skip pNEW r))
        else
          (if endGAP \<le> 0 then (DEF_RETRANS_SUBSET, sint (ti_uiDataSize pNEW), pNEW)
           else let r = sint (oldEndSEQ - newStartSEQ + 1) in (DEF_RETRANS_OVER, r, tcpinfo_skip pNEW r)))"

end
