(* ===== verification/TcpData.thy ===== *)
theory TcpData
  imports TcpUtil Gifo
begin

text \<open>
  The data of a TCP session on its way: \<^verbatim>\<open>dInsertTCPData\<close> and \<^verbatim>\<open>dCheckAck\<close> of \<^verbatim>\<open>A_TCP/tcp_func.c\<close> and
  the messages of \<^verbatim>\<open>A_TCP/tcp_msgq.c\<close>. Packets are nodes of the \<open>nifo\<close> block; the packets of one
  direction that wait for their acknowledgement are linked by \<open>nont\<close> in the order of their sequence
  numbers. The structures inside a node are found with \<open>nifo_get_value\<close>; their contents are kept per
  type by the address of the value (\<open>tc_cap\<close>, \<open>tc_eth\<close>, \<open>tc_info\<close>, \<open>tc_log\<close>) rather than as bytes.
  Memory that was never written reads as zeros.
\<close>

section \<open>State\<close>

text \<open>What the process is given: the numbers that the code generator assigns to structures, the
  sizes of the structures, and its configuration.\<close>

record tcp_env =
  en_TCP_INFO_DEF_NUM :: u32
  en_TCP_INFO_SIZE :: u32
  en_LOG_TCP_SESS_DEF_NUM :: u32
  en_LOG_TCP_SESS_SIZE :: u32
  en_gAHTTPCnt :: u32
  en_gACALLCnt :: u32
  en_guiSeqProcID :: u32

record atcp_subinfo =
  as_curSessCnt :: u64
  as_sessCnt :: u64
  as_rcvNodeCnt :: u64
  as_diffSeqCnt :: u64
  as_updateCnt :: u64
  as_rcvSize :: u64
  as_httpSndCnt :: u64
  as_delCnt :: u64
  as_allSndCnt :: u64

record atcp =
  tc_nifo :: nifo
  tc_cifo :: cifo
  tc_gifo :: gifo
  tc_cap :: "offset \<rightharpoonup> caphead"
  tc_eth :: "offset \<rightharpoonup> infoeth"
  tc_info :: "offset \<rightharpoonup> tcpinfo"
  tc_log :: "offset \<rightharpoonup> tcplog"
  tc_sub :: atcp_subinfo

definition tcpinfo_zero :: tcpinfo where
  "tcpinfo_zero = \<lparr>ti_uiDataSize = 0, ti_uiSrvIP = 0, ti_uiCliIP = 0, ti_usSrvPort = 0, ti_usCliPort = 0,
     ti_uiSeqNum = 0, ti_uiAckNum = 0, ti_uiSOffset = 0, ti_uiCapTime = 0, ti_uiCapMTime = 0, ti_uiAckTime = 0,
     ti_uiAckMTime = 0, ti_usAppCode = 0, ti_usL4Code = 0, ti_usL7Code = 0, ti_usL4FailCode = 0, ti_ucRtx = 0,
     ti_cTcpFlag = 0, ti_cRetrans = 0, ti_ucProtocol = 0, ti_ucTcpClientStatus = 0, ti_ucTcpServerStatus = 0,
     ti_cnt = ipcnt_zero\<rparr>"

text \<open>The structure that a fresh, not cleared, piece of a node starts with.\<close>

definition tcpinfo_raw :: "atcp \<Rightarrow> offset \<Rightarrow> tcpinfo" where
  "tcpinfo_raw s v = (case tc_info s v of None \<Rightarrow> tcpinfo_zero | Some ti \<Rightarrow> ti)"

text \<open>The address of a structure in a node; NULL is dereferenced by the callers.\<close>

definition tcp_value :: "atcp \<Rightarrow> u32 \<Rightarrow> offset \<Rightarrow> offset option" where
  "tcp_value s type p = do { r \<leftarrow> nifo_get_value (tc_nifo s) type p; r }"

definition tcp_info_at :: "tcp_env \<Rightarrow> atcp \<Rightarrow> offset \<Rightarrow> (offset \<times> tcpinfo) option" where
  "tcp_info_at e s p = do {
     v \<leftarrow> tcp_value s (en_TCP_INFO_DEF_NUM e) p;
     ti \<leftarrow> tc_info s v;
     Some (v, ti)
   }"

definition tcp_eth_at :: "atcp \<Rightarrow> offset \<Rightarrow> infoeth option" where
  "tcp_eth_at s p = do { v \<leftarrow> tcp_value s INFO_ETH_NUM p; tc_eth s v }"

definition tcp_set_info :: "atcp \<Rightarrow> offset \<Rightarrow> tcpinfo \<Rightarrow> atcp" where
  "tcp_set_info s v ti = s\<lparr>tc_info := (tc_info s)(v \<mapsto> ti)\<rparr>"

definition tcp_on_nifo :: "atcp \<Rightarrow> (nifo \<Rightarrow> nifo option) \<Rightarrow> atcp option" where
  "tcp_on_nifo s f = do { nf \<leftarrow> f (tc_nifo s); Some (s\<lparr>tc_nifo := nf\<rparr>) }"

section \<open>Sending\<close>

text \<open>The counters: the loop over the \<open>A_HTTP\<close> processes meets the receiver at most once.\<close>

definition tcp_count_send :: "tcp_env \<Rightarrow> int \<Rightarrow> atcp_subinfo \<Rightarrow> atcp_subinfo" where
  "tcp_count_send e dSeqProcID sub =
     (let sub1 = (if SEQ_PROC_A_HTTP \<le> dSeqProcID \<and> dSeqProcID < SEQ_PROC_A_HTTP + uint (en_gAHTTPCnt e)
                  then sub\<lparr>as_httpSndCnt := as_httpSndCnt sub + 1, as_allSndCnt := as_allSndCnt sub + 1\<rparr> else sub)
      in if dSeqProcID = SEQ_PROC_A_JNC
         then sub1\<lparr>as_delCnt := as_delCnt sub1 + 1, as_allSndCnt := as_allSndCnt sub1 + 1\<rparr> else sub1)"

definition dSend_TCP_Data :: "tcp_env \<Rightarrow> atcp \<Rightarrow> int \<Rightarrow> offset \<Rightarrow> (atcp \<times> int) option" where
  "dSend_TCP_Data e s dSeqProcID pData =
     (let s1 = s\<lparr>tc_sub := tcp_count_send e dSeqProcID (tc_sub s)\<rparr> in
      if dSeqProcID > 0 then do {
        (nf, cf, dRet) \<leftarrow> gifo_write (tc_nifo s1) (tc_cifo s1) (tc_gifo s1) (en_guiSeqProcID e) (word_of_int dSeqProcID) pData;
        Some (s1\<lparr>tc_nifo := nf, tc_cifo := cf\<rparr>, if dRet < 0 then -1 else 0)
      } else do {
        s2 \<leftarrow> tcp_on_nifo s1 (\<lambda>nf. nifo_node_delete nf pData);
        Some (s2, 0)
      })"

text \<open>The three messages about a session differ in how they fill the structure. \<open>fill\<close> is given the
  structure as the new node has it.\<close>

definition tcp_send_msg ::
  "tcp_env \<Rightarrow> int \<Rightarrow> atcp \<Rightarrow> tcpsess \<Rightarrow> (tcpsess \<Rightarrow> tcpinfo \<Rightarrow> tcpsess \<times> tcpinfo) \<Rightarrow> int option \<Rightarrow> (atcp \<times> tcpsess \<times> int) option" where
  "tcp_send_msg e now s sess fill receiver = do {
     (nf, r) \<leftarrow> nifo_node_alloc (tc_nifo s) now;
     let s1 = s\<lparr>tc_nifo := nf\<rparr>;
     case r of
       None \<Rightarrow> Some (s1, sess, -1)
     | Some pNode \<Rightarrow> do {
         (nf2, v) \<leftarrow> nifo_tlv_alloc (tc_nifo s1) pNode (en_TCP_INFO_DEF_NUM e) (en_TCP_INFO_SIZE e) 0;
         let s2 = s1\<lparr>tc_nifo := nf2\<rparr>;
         case v of
           None \<Rightarrow> do { s3 \<leftarrow> tcp_on_nifo s2 (\<lambda>nf. nifo_node_delete nf pNode); Some (s3, sess, -2) }
         | Some a \<Rightarrow> do {
             let (sess1, ti) = fill sess (tcpinfo_raw s2 a);
             let s3 = tcp_set_info s2 a ti;
             dSeqProcID \<leftarrow> receiver;
             (s4, dRet) \<leftarrow> dSend_TCP_Data e s3 dSeqProcID pNode;
             if dRet < 0 then do {
               s5 \<leftarrow> tcp_on_nifo s4 (\<lambda>nf. nifo_node_delete nf pNode);
               Some (s5, sess1, -3)
             } else Some (s4, sess1, 0)
           }
       }
   }"

definition tcp_fill_start :: "tcpsesskey \<Rightarrow> tcpsess \<Rightarrow> tcpinfo \<Rightarrow> tcpsess \<times> tcpinfo" where
  "tcp_fill_start k sess ti =
     SetData sess (ti\<lparr>ti_uiDataSize := 0, ti_uiSrvIP := sk_uiDIP k, ti_uiCliIP := sk_uiSIP k,
       ti_usSrvPort := sk_usDPort k, ti_usCliPort := sk_usSPort k, ti_uiSeqNum := ts_uiNextReqSeq sess,
       ti_uiAckNum := ts_uiNextResSeq sess, ti_uiSOffset := 0, ti_uiCapTime := ts_uiSessCreateTime sess,
       ti_uiCapMTime := ts_uiSessCreateMTime sess, ti_uiAckTime := 0, ti_uiAckMTime := 0,
       ti_usAppCode := ts_usAppCode sess, ti_usL4Code := ts_usL4Code sess, ti_usL7Code := ts_usL7Code sess,
       ti_usL4FailCode := 0, ti_ucRtx := ts_ucSynRtx sess, ti_cTcpFlag := DEF_TCP_START,
       ti_cRetrans := DEF_RETRANS_OFF, ti_ucProtocol := DEF_PROTOCOL_TCP\<rparr>)"

definition tcp_fill_stop :: "tcpsesskey \<Rightarrow> tcpsess \<Rightarrow> tcpinfo \<Rightarrow> tcpsess \<times> tcpinfo" where
  "tcp_fill_stop k sess ti =
     SetData sess (ti\<lparr>ti_uiDataSize := 0, ti_uiSrvIP := sk_uiDIP k, ti_uiCliIP := sk_uiSIP k,
       ti_usSrvPort := sk_usDPort k, ti_usCliPort := sk_usSPort k, ti_uiSeqNum := 0, ti_uiAckNum := 0,
       ti_uiSOffset := 0, ti_uiCapTime := ts_uiLastUpdateTime sess, ti_uiCapMTime := ts_uiLastUpdateMTime sess,
       ti_uiAckTime := 0, ti_uiAckMTime := 0, ti_usAppCode := ts_usAppCode sess, ti_usL4Code := ts_usL4Code sess,
       ti_usL7Code := ts_usL7Code sess, ti_usL4FailCode := ts_usL4FailCode sess, ti_ucRtx := ts_ucSynRtx sess,
       ti_cTcpFlag := DEF_TCP_END, ti_cRetrans := DEF_RETRANS_OFF, ti_ucProtocol := DEF_PROTOCOL_TCP\<rparr>)"

text \<open>The update message leaves the states and the counters as the memory has them.\<close>

definition tcp_fill_update :: "tcpsesskey \<Rightarrow> tcpsess \<Rightarrow> tcpinfo \<Rightarrow> tcpsess \<times> tcpinfo" where
  "tcp_fill_update k sess ti =
     (sess, ti\<lparr>ti_uiDataSize := 0, ti_uiSrvIP := sk_uiDIP k, ti_uiCliIP := sk_uiSIP k,
       ti_usSrvPort := sk_usDPort k, ti_usCliPort := sk_usSPort k, ti_uiSeqNum := 0, ti_uiAckNum := 0,
       ti_uiSOffset := 0, ti_uiCapTime := 0, ti_uiCapMTime := 0, ti_uiAckTime := 0, ti_uiAckMTime := 0,
       ti_usAppCode := 0, ti_usL4Code := 0, ti_usL7Code := 0, ti_usL4FailCode := 0, ti_ucRtx := 0,
       ti_cTcpFlag := DEF_TCP_UPDATE, ti_cRetrans := DEF_RETRANS_OFF, ti_ucProtocol := DEF_PROTOCOL_TCP\<rparr>)"

definition tcp_receiver :: "tcp_env \<Rightarrow> tcpsesskey \<Rightarrow> tcpsess \<Rightarrow> int option" where
  "tcp_receiver e k sess =
     (if ts_dSndMsgQ sess > 0 then Some (ts_dSndMsgQ sess) else dGetCALLProcID (en_gACALLCnt e) (sk_uiSIP k))"

definition dTCPStartMsg :: "tcp_env \<Rightarrow> int \<Rightarrow> atcp \<Rightarrow> tcpsesskey \<Rightarrow> tcpsess \<Rightarrow> (atcp \<times> tcpsess \<times> int) option" where
  "dTCPStartMsg e now s k sess = tcp_send_msg e now s sess (tcp_fill_start k) (tcp_receiver e k sess)"

definition dTCPStopMsg :: "tcp_env \<Rightarrow> int \<Rightarrow> atcp \<Rightarrow> tcpsesskey \<Rightarrow> tcpsess \<Rightarrow> (atcp \<times> tcpsess \<times> int) option" where
  "dTCPStopMsg e now s k sess = tcp_send_msg e now s sess (tcp_fill_stop k) (tcp_receiver e k sess)"

definition dSessUpdataMsg :: "tcp_env \<Rightarrow> int \<Rightarrow> atcp \<Rightarrow> tcpsesskey \<Rightarrow> tcpsess \<Rightarrow> (atcp \<times> tcpsess \<times> int) option" where
  "dSessUpdataMsg e now s k sess =
     tcp_send_msg e now s sess (tcp_fill_update k) (dGetCALLProcID (en_gACALLCnt e) (sk_uiSIP k))"

section \<open>The two directions\<close>

text \<open>The source has every step twice, for the requests and for the responses of a session.\<close>

datatype tcp_dir = DReq | DRes

definition dir_base :: "tcpsess \<Rightarrow> tcp_dir \<Rightarrow> u32" where
  "dir_base s d = (case d of DReq \<Rightarrow> ts_uiSynSeq s | DRes \<Rightarrow> ts_uiSynAckSeq s)"

definition dir_head :: "tcpsess \<Rightarrow> tcp_dir \<Rightarrow> offset" where
  "dir_head s d = (case d of DReq \<Rightarrow> ts_offset_ReqData s | DRes \<Rightarrow> ts_offset_ResData s)"

definition dir_last :: "tcpsess \<Rightarrow> tcp_dir \<Rightarrow> u32" where
  "dir_last s d = (case d of DReq \<Rightarrow> ts_uiLastReqSeq s | DRes \<Rightarrow> ts_uiLastResSeq s)"

definition dir_next :: "tcpsess \<Rightarrow> tcp_dir \<Rightarrow> u32" where
  "dir_next s d = (case d of DReq \<Rightarrow> ts_uiNextReqSeq s | DRes \<Rightarrow> ts_uiNextResSeq s)"

definition dir_ack :: "tcpsess \<Rightarrow> tcp_dir \<Rightarrow> u32" where
  "dir_ack s d = (case d of DReq \<Rightarrow> ts_uiRcvReqAck s | DRes \<Rightarrow> ts_uiRcvResAck s)"

definition dir_acktime :: "tcpsess \<Rightarrow> tcp_dir \<Rightarrow> int \<times> int" where
  "dir_acktime s d = (case d of DReq \<Rightarrow> (ts_uiRcvReqAckTime s, ts_uiRcvReqAckMTime s)
     | DRes \<Rightarrow> (ts_uiRcvResAckTime s, ts_uiRcvResAckMTime s))"

definition dir_set_head :: "tcpsess \<Rightarrow> tcp_dir \<Rightarrow> offset \<Rightarrow> tcpsess" where
  "dir_set_head s d p = (case d of DReq \<Rightarrow> s\<lparr>ts_offset_ReqData := p\<rparr> | DRes \<Rightarrow> s\<lparr>ts_offset_ResData := p\<rparr>)"

definition dir_set_ack :: "tcpsess \<Rightarrow> tcp_dir \<Rightarrow> u32 \<Rightarrow> int \<Rightarrow> int \<Rightarrow> tcpsess" where
  "dir_set_ack s d ack t m = (case d of
     DReq \<Rightarrow> s\<lparr>ts_uiRcvReqAck := ack, ts_uiRcvReqAckTime := t, ts_uiRcvReqAckMTime := m\<rparr>
   | DRes \<Rightarrow> s\<lparr>ts_uiRcvResAck := ack, ts_uiRcvResAckTime := t, ts_uiRcvResAckMTime := m\<rparr>)"

definition dir_set_sent :: "tcpsess \<Rightarrow> tcp_dir \<Rightarrow> tcpinfo \<Rightarrow> tcpsess" where
  "dir_set_sent s d ti = (case d of
     DReq \<Rightarrow> s\<lparr>ts_uiLastReqSeq := ti_uiSeqNum ti, ts_uiNextReqSeq := ti_uiSeqNum ti + ti_uiDataSize ti\<rparr>
   | DRes \<Rightarrow> s\<lparr>ts_uiLastResSeq := ti_uiSeqNum ti, ts_uiNextResSeq := ti_uiSeqNum ti + ti_uiDataSize ti\<rparr>)"

definition dir_count_down :: "tcpsess \<Rightarrow> tcp_dir \<Rightarrow> tcpsess" where
  "dir_count_down s d = (case d of DReq \<Rightarrow> s\<lparr>ts_uiReqCount := ts_uiReqCount s - 1\<rparr>
     | DRes \<Rightarrow> s\<lparr>ts_uiResCount := ts_uiResCount s - 1\<rparr>)"

definition dir_clear :: "tcpsess \<Rightarrow> tcp_dir \<Rightarrow> tcpsess" where
  "dir_clear s d = (case d of DReq \<Rightarrow> s\<lparr>ts_uiReqCount := 0, ts_offset_ReqData := 0\<rparr>
     | DRes \<Rightarrow> s\<lparr>ts_uiResCount := 0, ts_offset_ResData := 0\<rparr>)"

lemmas dir_defs = dir_base_def dir_head_def dir_last_def dir_next_def dir_ack_def dir_acktime_def
  dir_set_head_def dir_set_ack_def dir_set_sent_def dir_count_down_def dir_clear_def

section \<open>Acknowledgements\<close>

text \<open>The loop stops at the first packet that the acknowledgement does not cover. It compares the data of
  the packet as it was captured.\<close>

partial_function (option) tcp_ack_loop ::
  "tcp_env \<Rightarrow> atcp \<Rightarrow> tcpsess \<Rightarrow> u32 \<Rightarrow> u32 \<Rightarrow> int \<Rightarrow> int \<Rightarrow> offset \<Rightarrow> offset \<Rightarrow> (atcp \<times> tcpsess) option" where
  "tcp_ack_loop e s sess uiBase ack t m pHEAD pData =
     (if pData = 0 then Some (s, sess)
      else do {
        eth \<leftarrow> tcp_eth_at s pData;
        if OFFSET_SEQ uiBase (ut_seq (ie_stUDPTCP eth)) + ucast (ut_wDataLen (ie_stUDPTCP eth)) \<le> OFFSET_SEQ uiBase ack
        then do {
          (v, ti) \<leftarrow> tcp_info_at e s pData;
          let (sess1, ti1) = (if ti_uiAckTime ti = 0 then SetData sess (ti\<lparr>ti_uiAckTime := t, ti_uiAckMTime := m\<rparr>)
                              else (sess, ti));
          let s1 = tcp_set_info s v ti1;
          pNext \<leftarrow> nifo_nont_next (tc_nifo s1) pData;
          tcp_ack_loop e s1 sess1 uiBase ack t m pHEAD (if pHEAD = pNext then 0 else pNext)
        } else Some (s, sess)
      })"

definition dCheckAck :: "tcp_env \<Rightarrow> atcp \<Rightarrow> tcpsess \<Rightarrow> caphead \<Rightarrow> infoeth \<Rightarrow> u8 \<Rightarrow> (atcp \<times> tcpsess) option" where
  "dCheckAck e s sess cap eth ucRtxType =
     (let d = (if ts_ucSynRtx sess \<noteq> ucRtxType then DReq else DRes);
          ack = ut_ack (ie_stUDPTCP eth);
          sess1 = dir_set_ack sess d ack (s32 (cp_curtime cap)) (s32 (cp_ucurtime cap))
      in tcp_ack_loop e s sess1 (dir_base sess d) ack (s32 (cp_curtime cap)) (s32 (cp_ucurtime cap))
           (dir_head sess d) (dir_head sess d))"

section \<open>Insertion of a packet\<close>

definition tcp_fill_data :: "tcpsesskey \<Rightarrow> tcpsess \<Rightarrow> caphead \<Rightarrow> infoeth \<Rightarrow> tcpinfo \<Rightarrow> tcpinfo" where
  "tcp_fill_data k sess cap eth ti =
     ti\<lparr>ti_uiDataSize := ucast (ut_wDataLen (ie_stUDPTCP eth)), ti_uiSrvIP := sk_uiDIP k, ti_uiCliIP := sk_uiSIP k,
       ti_usSrvPort := sk_usDPort k, ti_usCliPort := sk_usSPort k, ti_uiSeqNum := ut_seq (ie_stUDPTCP eth),
       ti_uiAckNum := ut_ack (ie_stUDPTCP eth), ti_uiSOffset := ie_offset eth, ti_uiCapTime := s32 (cp_curtime cap),
       ti_uiCapMTime := s32 (cp_ucurtime cap), ti_uiAckTime := 0, ti_uiAckMTime := 0,
       ti_usAppCode := ts_usAppCode sess, ti_usL4Code := ts_usL4Code sess, ti_usL7Code := ts_usL7Code sess,
       ti_usL4FailCode := 0, ti_ucRtx := cp_bRtxType cap, ti_cTcpFlag := DEF_TCP_DATA,
       ti_cRetrans := DEF_RETRANS_OFF, ti_ucProtocol := DEF_PROTOCOL_TCP, ti_cnt := ipcnt_zero\<rparr>"

text \<open>A segment that an earlier acknowledgement covers gets the time of it.\<close>

definition tcp_acked :: "tcpsess \<Rightarrow> tcp_dir \<Rightarrow> tcpinfo \<Rightarrow> tcpinfo" where
  "tcp_acked sess d ti = (case dir_acktime sess d of (t, m) \<Rightarrow>
     if t > 0 \<and> OFFSET_SEQ (dir_base sess d) (ti_uiSeqNum ti) + ti_uiDataSize ti \<le> OFFSET_SEQ (dir_base sess d) (dir_ack sess d)
     then ti\<lparr>ti_uiAckTime := t, ti_uiAckMTime := m\<rparr> else ti)"

text \<open>An older segment's time of acknowledgement goes over to a segment that reaches below it.\<close>

definition tcp_inherit :: "tcpinfo \<Rightarrow> tcpinfo \<Rightarrow> tcpinfo" where
  "tcp_inherit old ti =
     (if ti_uiAckTime old > 0 \<and> ti_uiAckTime ti = 0
      then ti\<lparr>ti_uiAckTime := ti_uiAckTime old, ti_uiAckMTime := ti_uiAckMTime old\<rparr> else ti)"

definition tcp_calc_base :: "tcpsess \<Rightarrow> tcp_dir \<Rightarrow> tcpinfo \<Rightarrow> retrans \<times> int \<times> tcpinfo" where
  "tcp_calc_base sess d ti =
     CalcBase ti (dir_base sess d) (dir_last sess d) (dir_next sess d - dir_last sess d)"

text \<open>The loop over the waiting packets, from the last to the first: \<open>v\<close> is the address of the new
  packet's structure, \<open>pPrev\<close> the packet that the previous turn left. The answer holds \<open>*delFlag\<close>.\<close>

partial_function (option) tcp_insert_loop ::
  "tcp_env \<Rightarrow> atcp \<Rightarrow> tcpsess \<Rightarrow> tcp_dir \<Rightarrow> offset \<Rightarrow> offset \<Rightarrow> offset \<Rightarrow> offset \<Rightarrow> int \<Rightarrow> (atcp \<times> tcpsess \<times> int) option" where
  "tcp_insert_loop e s sess d pNode v pHead pPrev delFlag = do {
     p \<leftarrow> nifo_nont_prev (tc_nifo s) pPrev;
     (_, pPrevTCP) \<leftarrow> tcp_info_at e s p;
     ti \<leftarrow> tc_info s v;
     let (dRet, retransSize, ti1) = CalcRetrans ti (dir_base sess d) (ti_uiSeqNum pPrevTCP) (ti_uiDataSize pPrevTCP);
     let del1 = delFlag + retransSize;
     if retrans_over dRet then do {
       s1 \<leftarrow> tcp_on_nifo (tcp_set_info s v (tcp_acked sess d ti1)) (\<lambda>nf. nifo_node_link_nont_next nf p pNode);
       Some (s1, sess, del1)
     } else if dRet = DEF_RETRANS_SUBSET then do {
       s1 \<leftarrow> tcp_on_nifo (tcp_set_info s v ti1) (\<lambda>nf. nifo_node_delete nf pNode);
       Some (s1, sess, del1)
     } else
       let ti2 = tcp_inherit pPrevTCP ti1 in
       if dRet = DEF_RETRANS_RSUBSET then
         (if pHead = p then do {
            let (_, retransSize2, ti3) = tcp_calc_base sess d ti2;
            s1 \<leftarrow> tcp_on_nifo (tcp_set_info s v ti3) (\<lambda>nf. nifo_node_link_nont_prev nf pHead pNode);
            s2 \<leftarrow> tcp_on_nifo s1 (\<lambda>nf. nifo_node_unlink_nont nf p);
            s3 \<leftarrow> tcp_on_nifo s2 (\<lambda>nf. nifo_node_delete nf p);
            Some (s3, dir_set_head sess d pNode, del1 + retransSize2)
          } else do {
            pTmp \<leftarrow> nifo_nont_next (tc_nifo s) p;
            s1 \<leftarrow> tcp_on_nifo (tcp_set_info s v ti2) (\<lambda>nf. nifo_node_unlink_nont nf p);
            s2 \<leftarrow> tcp_on_nifo s1 (\<lambda>nf. nifo_node_delete nf p);
            tcp_insert_loop e s2 sess d pNode v pHead pTmp (del1 + retransSize)
          })
       else if pHead = p then do {
         let (dSubRet, retransSize2, ti3) = tcp_calc_base sess d ti2;
         let s1 = tcp_set_info s v ti3;
         if retrans_over dSubRet then do {
           s2 \<leftarrow> tcp_on_nifo s1 (\<lambda>nf. nifo_node_link_nont_prev nf pHead pNode);
           Some (s2, dir_set_head sess d pNode, del1 + retransSize2)
         } else do {
           s2 \<leftarrow> tcp_on_nifo s1 (\<lambda>nf. nifo_node_delete nf pNode);
           Some (s2, sess, del1 + retransSize2)
         }
       } else tcp_insert_loop e (tcp_set_info s v ti2) sess d pNode v pHead p (del1 + retransSize)
   }"

text \<open>\<open>dInsertTCPData\<close> of the packet in \<open>pNode\<close>; \<open>nifo_tlv_alloc\<close> is not checked. \<open>*delFlag\<close> is 0
  before the call.\<close>

definition dInsertTCPData ::
  "tcp_env \<Rightarrow> atcp \<Rightarrow> tcpsesskey \<Rightarrow> tcpsess \<Rightarrow> caphead \<Rightarrow> infoeth \<Rightarrow> offset \<Rightarrow> (atcp \<times> tcpsess \<times> int) option" where
  "dInsertTCPData e s k sess cap eth pNode = do {
     (nf, r) \<leftarrow> nifo_tlv_alloc (tc_nifo s) pNode (en_TCP_INFO_DEF_NUM e) (en_TCP_INFO_SIZE e) 0;
     v \<leftarrow> r;
     let s1 = s\<lparr>tc_nifo := nf\<rparr>;
     let ti = tcp_fill_data k sess cap eth (tcpinfo_raw s1 v);
     let d = (if ts_ucSynRtx sess \<noteq> ti_ucRtx ti then DRes else DReq);
     if dir_head sess d = 0 then do {
       let (dSubRet, retransSize, ti1) = tcp_calc_base sess d ti;
       if retrans_over dSubRet
       then Some (tcp_set_info s1 v (tcp_acked sess d ti1), dir_set_head sess d pNode, retransSize)
       else do {
         s2 \<leftarrow> tcp_on_nifo (tcp_set_info s1 v ti1) (\<lambda>nf. nifo_node_delete nf pNode);
         Some (s2, sess, retransSize)
       }
     } else tcp_insert_loop e (tcp_set_info s1 v ti) sess d pNode v (dir_head sess d) (dir_head sess d) 0
   }"

section \<open>Handing the data on\<close>

text \<open>One direction of \<open>dSendPayLoad\<close>: a packet goes when it is acknowledged and either continues what was
  sent or was acknowledged before the last acknowledgement.\<close>

definition tcp_time :: "int \<Rightarrow> int \<Rightarrow> int" where "tcp_time t m = t * 1000000 + m"

definition tcp_ready :: "tcpsess \<Rightarrow> tcp_dir \<Rightarrow> tcpinfo \<Rightarrow> bool" where
  "tcp_ready sess d ti \<longleftrightarrow> ti_uiAckTime ti > 0 \<and>
     (OFFSET_SEQ (dir_base sess d) (dir_next sess d) = OFFSET_SEQ (dir_base sess d) (ti_uiSeqNum ti) \<or>
      tcp_time (ti_uiAckTime ti) (ti_uiAckMTime ti) < (case dir_acktime sess d of (t, m) \<Rightarrow> tcp_time t m))"

definition tcp_count_diff :: "tcpsess \<Rightarrow> tcp_dir \<Rightarrow> tcpinfo \<Rightarrow> atcp \<Rightarrow> atcp" where
  "tcp_count_diff sess d ti s =
     (if OFFSET_SEQ (dir_base sess d) (dir_next sess d) \<noteq> OFFSET_SEQ (dir_base sess d) (ti_uiSeqNum ti)
      then s\<lparr>tc_sub := (tc_sub s)\<lparr>as_diffSeqCnt := as_diffSeqCnt (tc_sub s) + 1\<rparr>\<rparr> else s)"

partial_function (option) tcp_send_loop ::
  "tcp_env \<Rightarrow> atcp \<Rightarrow> tcpsess \<Rightarrow> tcp_dir \<Rightarrow> offset \<Rightarrow> (atcp \<times> tcpsess) option" where
  "tcp_send_loop e s sess d pData =
     (if pData = 0 then Some (s, sess)
      else do {
        (v, ti) \<leftarrow> tcp_info_at e s pData;
        if tcp_ready sess d ti then do {
          let s1 = tcp_count_diff sess d ti s;
          pNext \<leftarrow> nifo_nont_next (tc_nifo s1) pData;
          s2 \<leftarrow> tcp_on_nifo s1 (\<lambda>nf. nifo_node_unlink_nont nf pData);
          (s3, dRet) \<leftarrow> dSend_TCP_Data e s2 (ts_dSndMsgQ sess) pData;
          let p = (if pData = pNext then 0 else pNext);
          tcp_send_loop e s3 (dir_set_head (dir_count_down (dir_set_sent sess d ti) d) d p) d p
        } else Some (s, sess)
      })"

definition dSendPayLoad :: "tcp_env \<Rightarrow> atcp \<Rightarrow> tcpsess \<Rightarrow> (atcp \<times> tcpsess) option" where
  "dSendPayLoad e s sess = do {
     (s1, sess1) \<leftarrow> tcp_send_loop e s sess DReq (dir_head sess DReq);
     tcp_send_loop e s1 sess1 DRes (dir_head sess1 DRes)
   }"

text \<open>All that is left, at the end of a session. A node that cannot be sent is freed.\<close>

partial_function (option) tcp_flush_loop ::
  "tcp_env \<Rightarrow> atcp \<Rightarrow> tcpsess \<Rightarrow> tcp_dir \<Rightarrow> offset \<Rightarrow> (atcp \<times> tcpsess) option" where
  "tcp_flush_loop e s sess d pNode =
     (if pNode = 0 then Some (s, sess)
      else do {
        pNext \<leftarrow> nifo_nont_next (tc_nifo s) pNode;
        (v, ti) \<leftarrow> tcp_info_at e s pNode;
        let s1 = tcp_count_diff sess d ti (tcp_set_info s v (ti\<lparr>ti_usL4FailCode := ts_usL4FailCode sess\<rparr>));
        s2 \<leftarrow> tcp_on_nifo s1 (\<lambda>nf. nifo_node_unlink_nont nf pNode);
        (s3, dRet) \<leftarrow> dSend_TCP_Data e s2 (ts_dSndMsgQ sess) pNode;
        s4 \<leftarrow> (if dRet < 0 then tcp_on_nifo s3 (\<lambda>nf. nifo_node_free nf pNode) else Some s3);
        tcp_flush_loop e s4 (dir_set_sent sess d ti) d (if pNode = pNext then 0 else pNext)
      })"

definition dSendAllData :: "tcp_env \<Rightarrow> atcp \<Rightarrow> tcpsesskey \<Rightarrow> tcpsess \<Rightarrow> (atcp \<times> tcpsess) option" where
  "dSendAllData e s k sess = do {
     (s1, sess1) \<leftarrow> tcp_flush_loop e s sess DReq (dir_head sess DReq);
     let sess2 = dir_clear sess1 DReq;
     (s3, sess3) \<leftarrow> tcp_flush_loop e s1 sess2 DRes (dir_head sess2 DRes);
     let sess4 = dir_clear sess3 DRes;
     pNode \<leftarrow> nifo_get_offset_node (nf_mems (tc_nifo s3)) (ts_offset_LOG sess4);
     s4 \<leftarrow> tcp_on_nifo s3 (\<lambda>nf. nifo_node_unlink_nont nf pNode);
     receiver \<leftarrow> dGetCALLProcID (en_gACALLCnt e) (sk_uiSIP k);
     (s5, dRet) \<leftarrow> dSend_TCP_Data e s4 receiver pNode;
     s6 \<leftarrow> (if dRet < 0 then tcp_on_nifo s5 (\<lambda>nf. nifo_node_free nf pNode) else Some s5);
     Some (s6, sess4\<lparr>ts_offset_LOG := 0\<rparr>)
   }"

end
