(* ===== verification/TcpPlatform.thy ===== *)
theory TcpPlatform
  imports Prelude
begin

text \<open>
  \<^verbatim>\<open>TAF/LIBSRC/TOOLS/platform_type.c\<close>: the platform of a service,
       from its L4 and L7 codes. The L4
  codes and the platforms are constants of \<^verbatim>\<open>CGALIB/common_stg.pstg\<close>; the two L7 codes are numbered by the
  code generator and are parameters.
\<close>

section \<open>Codes\<close>

definition L4_CORP :: int where "L4_CORP = 16000"
definition L4_WIPI :: int where "L4_WIPI = 2100"
definition L4_FB :: int where "L4_FB = 7100"
definition L4_IV :: int where "L4_IV = 8100"
definition L4_WAP20 :: int where "L4_WAP20 = 1100"
definition L4_DN_2G :: int where "L4_DN_2G = 3100"
definition L4_DN_2G_NODN :: int where "L4_DN_2G_NODN = 3101"
definition L4_DN_JAVA :: int where "L4_DN_JAVA = 3200"
definition L4_DN_VOD :: int where "L4_DN_VOD = 3300"
definition L4_DN_VOD_NODN :: int where "L4_DN_VOD_NODN = 3301"
definition L4_OMA_DN :: int where "L4_OMA_DN = 3400"
definition L4_OMA_DN_2G :: int where "L4_OMA_DN_2G = 3500"
definition L4_OMA_DN_VOD :: int where "L4_OMA_DN_VOD = 3600"
definition L4_OMA_DN_WIPI :: int where "L4_OMA_DN_WIPI = 3700"
definition L4_VOD_STREAM :: int where "L4_VOD_STREAM = 4100"
definition L4_RTS_FB :: int where "L4_RTS_FB = 4200"
definition L4_RTS_WB :: int where "L4_RTS_WB = 4300"
definition L4_MBOX :: int where "L4_MBOX = 12100"
definition L4_MMS_UP :: int where "L4_MMS_UP = 5100"
definition L4_MMS_UP_NODN :: int where "L4_MMS_UP_NODN = 5101"
definition L4_MMS_DN :: int where "L4_MMS_DN = 5200"
definition L4_MMS_DN_NODN :: int where "L4_MMS_DN_NODN = 5201"
definition L4_MMS_NEW :: int where "L4_MMS_NEW = 5300"
definition L4_TODAY :: int where "L4_TODAY = 1200"
definition L4_WIDGET :: int where "L4_WIDGET = 13100"
definition L4_EMS :: int where "L4_EMS = 9100"
definition L4_P_EMS :: int where "L4_P_EMS = 9101"
definition L4_EMS_NO :: int where "L4_EMS_NO = 9102"
definition L4_FV_FB :: int where "L4_FV_FB = 10100"
definition L4_FV_IV :: int where "L4_FV_IV = 10300"
definition L4_FV_EMS :: int where "L4_FV_EMS = 10200"
definition L4_SIP_MS :: int where "L4_SIP_MS = 11100"
definition L4_SIP_VENDOR :: int where "L4_SIP_VENDOR = 11101"
definition L4_SIP_CSCF :: int where "L4_SIP_CSCF = 11102"
definition L4_MSRP_MS :: int where "L4_MSRP_MS = 11200"
definition L4_MSRP_VENDOR :: int where "L4_MSRP_VENDOR = 11201"
definition L4_XCAP :: int where "L4_XCAP = 11300"
definition L4_VT :: int where "L4_VT = 14100"
definition L4_JNC :: int where "L4_JNC = 6100"
definition L4_FTP :: int where "L4_FTP = 15200"
definition L4_DNS :: int where "L4_DNS = 15300"
definition L4_WIPI_ONLINE :: int where "L4_WIPI_ONLINE = 2200"
definition L4_BANKON :: int where "L4_BANKON = 12200"
definition L4_VMBANK :: int where "L4_VMBANK = 12300"
definition L4_INET_TCP :: int where "L4_INET_TCP = 60300"
definition L4_INET_TCP_RECV :: int where "L4_INET_TCP_RECV = 60400"
definition L4_INET_HTTP :: int where "L4_INET_HTTP = 60500"
definition L4_INET_HTTP_RECV :: int where "L4_INET_HTTP_RECV = 60600"
definition DEF_PLATFORM_BANK :: int where "DEF_PLATFORM_BANK = 8000"
definition DEF_PLATFORM_CORP :: int where "DEF_PLATFORM_CORP = 13000"
definition DEF_PLATFORM_DN :: int where "DEF_PLATFORM_DN = 2000"
definition DEF_PLATFORM_EMS :: int where "DEF_PLATFORM_EMS = 7000"
definition DEF_PLATFORM_ETC :: int where "DEF_PLATFORM_ETC = 12000"
definition DEF_PLATFORM_FV :: int where "DEF_PLATFORM_FV = 9000"
definition DEF_PLATFORM_IM :: int where "DEF_PLATFORM_IM = 10000"
definition DEF_PLATFORM_INET :: int where "DEF_PLATFORM_INET = 14000"
definition DEF_PLATFORM_MENU :: int where "DEF_PLATFORM_MENU = 1000"
definition DEF_PLATFORM_MMS :: int where "DEF_PLATFORM_MMS = 4000"
definition DEF_PLATFORM_STREAM :: int where "DEF_PLATFORM_STREAM = 3000"
definition DEF_PLATFORM_VT :: int where "DEF_PLATFORM_VT = 11000"
definition DEF_PLATFORM_WIDGET :: int where "DEF_PLATFORM_WIDGET = 5000"

section \<open>The platform\<close>

definition dGetPlatformType :: "int \<Rightarrow> int \<Rightarrow> int \<Rightarrow> int \<Rightarrow> int" where
  "dGetPlatformType APP_MENU APP_DOWN L4Code L7Code =
     (if L4Code = L4_CORP then DEF_PLATFORM_CORP
     else if L4Code = L4_WIPI
       then (if L7Code = APP_MENU then DEF_PLATFORM_MENU else if L7Code = APP_DOWN then DEF_PLATFORM_DN else 0)
     else if L4Code \<in> {L4_FB, L4_IV, L4_WAP20} then DEF_PLATFORM_MENU
     else if L4Code \<in> {L4_DN_2G, L4_DN_2G_NODN, L4_DN_JAVA, L4_DN_VOD, L4_DN_VOD_NODN, L4_OMA_DN,
       L4_OMA_DN_2G, L4_OMA_DN_VOD, L4_OMA_DN_WIPI}
       then DEF_PLATFORM_DN
     else if L4Code \<in> {L4_VOD_STREAM, L4_RTS_FB, L4_RTS_WB, L4_MBOX} then DEF_PLATFORM_STREAM
     else if L4Code \<in> {L4_MMS_UP, L4_MMS_UP_NODN, L4_MMS_DN, L4_MMS_DN_NODN, L4_MMS_NEW}
       then DEF_PLATFORM_MMS
     else if L4Code \<in> {L4_TODAY, L4_WIDGET} then DEF_PLATFORM_WIDGET
     else if L4Code \<in> {L4_EMS, L4_P_EMS, L4_EMS_NO} then DEF_PLATFORM_EMS
     else if L4Code \<in> {L4_FV_FB, L4_FV_IV, L4_FV_EMS} then DEF_PLATFORM_FV
     else if L4Code \<in> {L4_SIP_MS, L4_SIP_VENDOR, L4_SIP_CSCF, L4_MSRP_MS, L4_MSRP_VENDOR, L4_XCAP}
       then DEF_PLATFORM_IM
     else if L4Code = L4_VT then DEF_PLATFORM_VT
     else if L4Code \<in> {L4_JNC, L4_FTP, L4_DNS, L4_WIPI_ONLINE} then DEF_PLATFORM_ETC
     else if L4Code \<in> {L4_BANKON, L4_VMBANK} then DEF_PLATFORM_BANK
     else if L4Code \<in> {L4_INET_TCP, L4_INET_TCP_RECV, L4_INET_HTTP, L4_INET_HTTP_RECV}
       then DEF_PLATFORM_INET
     else 0)"

end
