(* ===== verification/TcpLife.thy ===== *)
theory TcpLife
  imports TcpUtil TcpPlatform Nifo
begin

text \<open>
  \<^verbatim>\<open>A_TCP/tcp_func.c\<close>: what \<open>pCreateSession\<close>, \<open>dProcTcpSess\<close> and \<open>dCloseSession\<close> write into the two
  structures of a session, \<open>TCP_SESS\<close> and its log. Each function here is the body of one branch, from the
  structures before it to those after it. Where a branch indexes \<open>uiFinChkSeq\<close> or \<open>uiFinChkAck\<close> out of
  its bounds, it faults (\<open>None\<close>).
\<close>

section \<open>A new session\<close>

type_synonym tcppair = "tcpsess \<times> tcplog"

definition tcplog_zero :: tcplog where
  "tcplog_zero = \<lparr>tl_uiCallTime = 0, tl_uiCallMTime = 0, tl_uiClientIP = 0, tl_uiNASName = 0, tl_usPlatformType = 0,
     tl_usSvcL4Type = 0, tl_ucSubSysNo = 0, tl_usClientPort = 0, tl_uiServerIP = 0, tl_usServerPort = 0,
     tl_uiTcpSynTime = 0, tl_uiTcpSynMTime = 0, tl_uiTcpSynAckTime = 0, tl_uiTcpSynAckMTime = 0,
     tl_uiTcpSynAckAckTime = 0, tl_uiTcpSynAckAckMTime = 0, tl_llConnSetupGapTime = 0, tl_uiTcpFinTime = 0,
     tl_uiTcpFinMTime = 0, tl_uiTcpFinAckTime = 0, tl_uiTcpFinAckMTime = 0, tl_uiTcpUpLastPktTime = 0,
     tl_uiTcpUpLastPktMTime = 0, tl_uiTcpDnLastPktTime = 0, tl_uiTcpDnLastPktMTime = 0, tl_uiTcpLastPktTime = 0,
     tl_uiTcpLastPktMTime = 0, tl_llTcpSessGapTime = 0, tl_ucTcpClientStatus = 0, tl_ucTcpServerStatus = 0,
     tl_usL4FailCode = 0, tl_ucTcpSynCnt = 0, tl_ucTcpSynAckCnt = 0, tl_ucTcpUpFinCnt = 0, tl_ucTcpDnFinCnt = 0,
     tl_ucTcpUpRstCnt = 0, tl_ucTcpDnRstCnt = 0, tl_cnt = ipcnt_zero, tl_uiTcpUpBodySize = 0, tl_uiTcpDnBodySize = 0,
     tl_uiTcpUpRetransBodySize = 0, tl_uiTcpDnRetransBodySize = 0, tl_usTcpUpMSS = 0, tl_usTcpDnMSS = 0,
     tl_usTcpUpFirstWindowSize = 0, tl_usTcpDnFirstWindowSize = 0, tl_uiOpStartTime = 0, tl_uiOpStartMTime = 0,
     tl_uiOpEndTime = 0, tl_uiOpEndMTime = 0\<rparr>"

text \<open>\<open>raw\<close> is what the stack holds where \<open>pCreateSession\<close> puts the session together.\<close>

definition tcp_new_sess :: "tcpsess \<Rightarrow> caphead \<Rightarrow> infoeth \<Rightarrow> int \<Rightarrow> int \<Rightarrow> tcpsess" where
  "tcp_new_sess raw cap eth dSndMsgQ tv_sec =
     raw\<lparr>ts_uiLastUpdateTime := s32 (cp_curtime cap), ts_uiLastUpdateMTime := s32 (cp_ucurtime cap),
       ts_uiSessCreateTime := s32 (cp_curtime cap), ts_uiSessCreateMTime := s32 (cp_ucurtime cap),
       ts_uiLastSessUpdateTime := s32 tv_sec,
       ts_uiReqCount := 0, ts_offset_ReqData := 0, ts_uiResCount := 0, ts_offset_ResData := 0,
       ts_dSndMsgQ := dSndMsgQ, ts_ucFinStatus := DEF_FIN_0, ts_ucEndStatus := 0, ts_ucFinRtx := 0, ts_ucRstRtx := 0,
       ts_uiFinChkSeq := replicate DEF_ARRAY_RTX 0, ts_uiFinChkAck := replicate DEF_ARRAY_RTX 0,
       ts_uiRcvReqAck := 0, ts_uiRcvResAck := 0, ts_uiRcvReqAckTime := 0, ts_uiRcvReqAckMTime := 0,
       ts_uiRcvResAckTime := 0, ts_uiRcvResAckMTime := 0,
       ts_usL4Code := ie_usL4Code eth, ts_usL7Code := ie_usL7Code eth, ts_usAppCode := ie_usAppCode eth,
       ts_usL4FailCode := 0, ts_cnt := ipcnt_zero\<rparr>"

definition tcp_new_log :: "int \<Rightarrow> tcpsesskey \<Rightarrow> caphead \<Rightarrow> infoeth \<Rightarrow> u8 \<Rightarrow> int \<Rightarrow> int \<Rightarrow> tcplog" where
  "tcp_new_log platform k cap eth ucRtxType tv_sec tv_usec =
     (let t = s32 (cp_curtime cap); m = s32 (cp_ucurtime cap); ut = ie_stUDPTCP eth;
          log = tcplog_zero\<lparr>tl_uiCallTime := t, tl_uiCallMTime := m, tl_uiClientIP := sk_uiSIP k, tl_uiNASName := 0,
            tl_usPlatformType := platform, tl_usSvcL4Type := ie_usL4Code eth, tl_ucSubSysNo := 1,
            tl_usClientPort := sk_usSPort k, tl_uiServerIP := sk_uiDIP k, tl_usServerPort := sk_usDPort k,
            tl_uiTcpLastPktTime := t, tl_uiTcpLastPktMTime := m,
            tl_uiOpStartTime := s32 tv_sec, tl_uiOpStartMTime := s32 tv_usec\<rparr>
      in if ucRtxType = DEF_FROM_SERVER
         then log\<lparr>tl_uiTcpDnLastPktTime := t, tl_uiTcpDnLastPktMTime := m, tl_usTcpDnMSS := ut_mss ut,
                  tl_usTcpDnFirstWindowSize := ucast (ut_window ut)\<rparr>
         else log\<lparr>tl_uiTcpUpLastPktTime := t, tl_uiTcpUpLastPktMTime := m, tl_usTcpUpMSS := ut_mss ut,
                  tl_usTcpUpFirstWindowSize := ucast (ut_window ut)\<rparr>)"

text \<open>The part that depends on the first packet.\<close>

definition tcp_new_ctl :: "caphead \<Rightarrow> infoeth \<Rightarrow> u8 \<Rightarrow> u8 \<Rightarrow> tcppair \<Rightarrow> tcppair" where
  "tcp_new_ctl cap eth ucRtxType ucControl p = (case p of (sess, log) \<Rightarrow>
     (let t = s32 (cp_curtime cap); m = s32 (cp_ucurtime cap); ut = ie_stUDPTCP eth in
      if ucControl = TCP_SYN then
        (sess\<lparr>ts_ucTcpClientStatus := DEF_CLI_SYN, ts_ucTcpServerStatus := DEF_SVR_ETC,
           ts_ucStatus := DEF_STATUS_SYN, ts_ucSynRtx := ucRtxType, ts_ucRcvSyn := SYN_RCV_ON,
           ts_uiSynSeq := ut_seq ut, ts_uiSynAckSeq := 0, ts_uiSynAckAck := 0, ts_uiLastResSeq := 0, ts_uiNextResSeq := 0,
           ts_uiLastReqSeq := ut_seq ut, ts_uiNextReqSeq := ut_seq ut + 1\<rparr>,
         log\<lparr>tl_uiTcpSynTime := t, tl_uiTcpSynMTime := m, tl_ucTcpClientStatus := DEF_CLI_SYN,
           tl_ucTcpServerStatus := DEF_SVR_ETC, tl_ucTcpSynCnt := 1\<rparr>)
      else if ucControl = TCP_SYNACK then
        (sess\<lparr>ts_ucTcpClientStatus := DEF_CLI_ETC, ts_ucTcpServerStatus := DEF_SVR_SYNACK,
           ts_ucStatus := DEF_STATUS_SYNACK,
           ts_ucSynRtx := (if ucRtxType = DEF_FROM_SERVER then DEF_FROM_CLIENT else DEF_FROM_SERVER),
           ts_ucRcvSyn := SYN_RCV_OFF, ts_uiSynSeq := ut_ack ut - 1, ts_uiSynAckSeq := ut_seq ut,
           ts_uiSynAckAck := ut_ack ut, ts_uiLastResSeq := ut_seq ut, ts_uiNextResSeq := ut_seq ut + 1,
           ts_uiLastReqSeq := ut_ack ut - 1, ts_uiNextReqSeq := ut_ack ut\<rparr>,
         log\<lparr>tl_uiTcpSynAckTime := t, tl_uiTcpSynAckMTime := m, tl_ucTcpClientStatus := DEF_CLI_ETC,
           tl_ucTcpServerStatus := DEF_SVR_SYNACK, tl_ucTcpSynAckCnt := 1\<rparr>)
      else (sess, log)))"

section \<open>The counters\<close>

definition cnt_up_total :: "u16 \<Rightarrow> ipcnt \<Rightarrow> ipcnt" where
  "cnt_up_total len c = c\<lparr>cn_uiIPTotUpPktCnt := cn_uiIPTotUpPktCnt c + 1, cn_uiIPTotUpPktSize := cn_uiIPTotUpPktSize c + ucast len\<rparr>"

definition cnt_dn_total :: "u16 \<Rightarrow> ipcnt \<Rightarrow> ipcnt" where
  "cnt_dn_total len c = c\<lparr>cn_uiIPTotDnPktCnt := cn_uiIPTotDnPktCnt c + 1, cn_uiIPTotDnPktSize := cn_uiIPTotDnPktSize c + ucast len\<rparr>"

definition cnt_up_data :: "u16 \<Rightarrow> ipcnt \<Rightarrow> ipcnt" where
  "cnt_up_data len c = c\<lparr>cn_uiIPDataUpPktCnt := cn_uiIPDataUpPktCnt c + 1, cn_uiIPDataUpPktSize := cn_uiIPDataUpPktSize c + ucast len\<rparr>"

definition cnt_dn_data :: "u16 \<Rightarrow> ipcnt \<Rightarrow> ipcnt" where
  "cnt_dn_data len c = c\<lparr>cn_uiIPDataDnPktCnt := cn_uiIPDataDnPktCnt c + 1, cn_uiIPDataDnPktSize := cn_uiIPDataDnPktSize c + ucast len\<rparr>"

text \<open>A repeated packet of the handshake.\<close>

definition cnt_up_again :: "u16 \<Rightarrow> ipcnt \<Rightarrow> ipcnt" where
  "cnt_up_again len c = c\<lparr>cn_uiIPTotUpRetransCnt := cn_uiIPTotUpRetransCnt c + 1,
     cn_uiIPTotUpRetransSize := cn_uiIPTotUpRetransSize c + ucast len\<rparr>"

definition cnt_dn_again :: "u16 \<Rightarrow> ipcnt \<Rightarrow> ipcnt" where
  "cnt_dn_again len c = c\<lparr>cn_uiIPTotDnRetransCnt := cn_uiIPTotDnRetransCnt c + 1,
     cn_uiIPTotDnRetransSize := cn_uiIPTotDnRetransSize c + ucast len\<rparr>"

text \<open>Repeated data: \<open>delFlag\<close> bytes.\<close>

definition cnt_up_rtx :: "u32 \<Rightarrow> ipcnt \<Rightarrow> ipcnt" where
  "cnt_up_rtx n c = c\<lparr>cn_uiIPDataUpRetransCnt := cn_uiIPDataUpRetransCnt c + 1, cn_uiIPTotUpRetransCnt := cn_uiIPTotUpRetransCnt c + 1,
     cn_uiIPDataUpRetransSize := cn_uiIPDataUpRetransSize c + n, cn_uiIPTotUpRetransSize := cn_uiIPTotUpRetransSize c + n\<rparr>"

definition cnt_dn_rtx :: "u32 \<Rightarrow> ipcnt \<Rightarrow> ipcnt" where
  "cnt_dn_rtx n c = c\<lparr>cn_uiIPDataDnRetransCnt := cn_uiIPDataDnRetransCnt c + 1, cn_uiIPTotDnRetransCnt := cn_uiIPTotDnRetransCnt c + 1,
     cn_uiIPDataDnRetransSize := cn_uiIPDataDnRetransSize c + n, cn_uiIPTotDnRetransSize := cn_uiIPTotDnRetransSize c + n\<rparr>"

definition tcp_cnt_both :: "(ipcnt \<Rightarrow> ipcnt) \<Rightarrow> tcppair \<Rightarrow> tcppair" where
  "tcp_cnt_both f p = (case p of (sess, log) \<Rightarrow> (sess\<lparr>ts_cnt := f (ts_cnt sess)\<rparr>, log\<lparr>tl_cnt := f (tl_cnt log)\<rparr>))"

text \<open>Every packet of an existing or new session.\<close>

definition tcp_count_pkt :: "caphead \<Rightarrow> infoeth \<Rightarrow> u8 \<Rightarrow> tcppair \<Rightarrow> tcppair" where
  "tcp_count_pkt cap eth ucRtxType p = (case p of (sess, log) \<Rightarrow>
     (let t = s32 (cp_curtime cap); m = s32 (cp_ucurtime cap); len = ip_wTotalLength (ie_stIP eth);
          dn = (ucRtxType = DEF_FROM_SERVER);
          sess1 = sess\<lparr>ts_uiLastUpdateTime := t, ts_uiLastUpdateMTime := m\<rparr>;
          p2 = (if ts_ucStatus sess1 = DEF_STATUS_ACK
                then tcp_cnt_both (if dn then cnt_dn_data len else cnt_up_data len) (sess1, log) else (sess1, log));
          (sess3, log3) = tcp_cnt_both (if dn then cnt_dn_total len else cnt_up_total len) p2;
          log4 = (if dn then log3\<lparr>tl_uiTcpDnLastPktTime := t, tl_uiTcpDnLastPktMTime := m\<rparr>
                  else log3\<lparr>tl_uiTcpUpLastPktTime := t, tl_uiTcpUpLastPktMTime := m\<rparr>)
      in (sess3, log4\<lparr>tl_uiTcpLastPktTime := t, tl_uiTcpLastPktMTime := m\<rparr>)))"

definition tcp_count_retrans :: "u8 \<Rightarrow> int \<Rightarrow> tcppair \<Rightarrow> tcppair" where
  "tcp_count_retrans ucRtxType delFlag p = (let n = word_of_int delFlag in
     if ucRtxType = DEF_FROM_SERVER
     then (case p of (sess, log) \<Rightarrow>
       tcp_cnt_both (cnt_dn_rtx n) (sess, log\<lparr>tl_uiTcpDnRetransBodySize := tl_uiTcpDnRetransBodySize log + n\<rparr>))
     else (case p of (sess, log) \<Rightarrow>
       tcp_cnt_both (cnt_up_rtx n) (sess, log\<lparr>tl_uiTcpUpRetransBodySize := tl_uiTcpUpRetransBodySize log + n\<rparr>)))"

section \<open>SYN and SYNACK\<close>

text \<open>The directions as \<open>uiFinChkSeq\<close> has them.\<close>

definition tcp_other :: "u8 \<Rightarrow> u8" where
  "tcp_other rtx = (if rtx = DEF_FROM_SERVER then DEF_FROM_CLIENT else DEF_FROM_SERVER)"

definition tcp_set_server :: "u8 \<Rightarrow> tcppair \<Rightarrow> tcppair" where
  "tcp_set_server st p = (case p of (sess, log) \<Rightarrow> (sess\<lparr>ts_ucTcpServerStatus := st\<rparr>, log\<lparr>tl_ucTcpServerStatus := st\<rparr>))"

definition tcp_set_client :: "u8 \<Rightarrow> tcppair \<Rightarrow> tcppair" where
  "tcp_set_client st p = (case p of (sess, log) \<Rightarrow> (sess\<lparr>ts_ucTcpClientStatus := st\<rparr>, log\<lparr>tl_ucTcpClientStatus := st\<rparr>))"

definition tcp_syn_again :: "infoeth \<Rightarrow> tcppair \<Rightarrow> tcppair" where
  "tcp_syn_again eth p = (case p of (sess, log) \<Rightarrow>
     tcp_cnt_both (cnt_up_again (ip_wTotalLength (ie_stIP eth))) (sess, log\<lparr>tl_ucTcpSynCnt := tl_ucTcpSynCnt log + 1\<rparr>))"

definition tcp_syn_late :: "caphead \<Rightarrow> infoeth \<Rightarrow> tcppair \<Rightarrow> tcppair" where
  "tcp_syn_late cap eth p = (case p of (sess, log) \<Rightarrow>
     tcp_set_client DEF_CLI_SYN
       (sess\<lparr>ts_ucRcvSyn := SYN_RCV_ON\<rparr>,
        log\<lparr>tl_uiTcpSynTime := s32 (cp_curtime cap), tl_uiTcpSynMTime := s32 (cp_ucurtime cap),
            tl_ucTcpSynCnt := tl_ucTcpSynCnt log + 1, tl_usTcpUpMSS := ut_mss (ie_stUDPTCP eth),
            tl_usTcpUpFirstWindowSize := ucast (ut_window (ie_stUDPTCP eth))\<rparr>))"

definition tcp_synack_first :: "caphead \<Rightarrow> infoeth \<Rightarrow> tcppair \<Rightarrow> tcppair" where
  "tcp_synack_first cap eth p = (case p of (sess, log) \<Rightarrow> let ut = ie_stUDPTCP eth in
     tcp_set_server DEF_SVR_SYNACK
       (sess\<lparr>ts_ucStatus := DEF_STATUS_SYNACK, ts_uiSynAckSeq := ut_seq ut, ts_uiSynAckAck := ut_ack ut,
             ts_uiLastResSeq := ut_seq ut, ts_uiNextResSeq := ut_seq ut + 1\<rparr>,
        log\<lparr>tl_uiTcpSynAckTime := s32 (cp_curtime cap), tl_uiTcpSynAckMTime := s32 (cp_ucurtime cap),
            tl_ucTcpSynAckCnt := tl_ucTcpSynAckCnt log + 1, tl_usTcpDnMSS := ut_mss ut,
            tl_usTcpDnFirstWindowSize := ucast (ut_window ut)\<rparr>))"

definition tcp_synack_again :: "infoeth \<Rightarrow> tcppair \<Rightarrow> tcppair" where
  "tcp_synack_again eth p = (case p of (sess, log) \<Rightarrow>
     tcp_cnt_both (cnt_dn_again (ip_wTotalLength (ie_stIP eth))) (sess, log\<lparr>tl_ucTcpSynAckCnt := tl_ucTcpSynAckCnt log + 1\<rparr>))"

text \<open>What the session makes of a SYN or SYNACK: \<open>None\<close> when it does not belong to it, and the session is
  closed and a new one begins.\<close>

definition tcp_on_syn :: "caphead \<Rightarrow> infoeth \<Rightarrow> tcpsess \<Rightarrow> (tcppair \<Rightarrow> tcppair) option" where
  "tcp_on_syn cap eth sess =
     (if ts_ucRcvSyn sess = SYN_RCV_ON then Some (tcp_syn_again eth)
      else if ts_ucRcvSyn sess = SYN_RCV_OFF \<and> ts_uiSynAckAck sess = ut_seq (ie_stUDPTCP eth) + 1
      then Some (tcp_syn_late cap eth)
      else None)"

definition tcp_on_synack :: "caphead \<Rightarrow> infoeth \<Rightarrow> tcpsess \<Rightarrow> (tcppair \<Rightarrow> tcppair) option" where
  "tcp_on_synack cap eth sess =
     (if ts_uiSynAckSeq sess = 0 \<and> ts_uiSynSeq sess + 1 = ut_ack (ie_stUDPTCP eth) then Some (tcp_synack_first cap eth)
      else if ts_uiSynAckSeq sess = ut_seq (ie_stUDPTCP eth) then Some (tcp_synack_again eth)
      else None)"

section \<open>RST and FIN\<close>

definition tcp_on_rst :: "caphead \<Rightarrow> u8 \<Rightarrow> tcppair \<Rightarrow> tcppair" where
  "tcp_on_rst cap ucRtxType p = (case p of (sess, log) \<Rightarrow>
     let sess1 = sess\<lparr>ts_ucEndStatus := DEF_END_RST\<rparr>;
         log1 = log\<lparr>tl_uiTcpFinTime := s32 (cp_curtime cap), tl_uiTcpFinMTime := s32 (cp_ucurtime cap)\<rparr>
     in if ucRtxType = DEF_FROM_SERVER
        then tcp_set_server DEF_SVR_RST
               (sess1\<lparr>ts_ucRstRtx := DEF_FROM_SERVER\<rparr>, log1\<lparr>tl_ucTcpDnRstCnt := tl_ucTcpDnRstCnt log1 + 1\<rparr>)
        else tcp_set_client DEF_CLI_RST
               (sess1\<lparr>ts_ucRstRtx := DEF_FROM_CLIENT\<rparr>, log1\<lparr>tl_ucTcpUpRstCnt := tl_ucTcpUpRstCnt log1 + 1\<rparr>))"

definition chk_get :: "u32 list \<Rightarrow> u8 \<Rightarrow> u32 option" where
  "chk_get xs i = (if unat i < length xs then Some (xs ! unat i) else None)"

definition chk_set :: "u32 list \<Rightarrow> u8 \<Rightarrow> u32 \<Rightarrow> u32 list option" where
  "chk_set xs i v = (if unat i < length xs then Some (xs[unat i := v]) else None)"

definition tcp_fin_end :: "infoeth \<Rightarrow> u32" where
  "tcp_fin_end eth = ut_seq (ie_stUDPTCP eth) + ucast (ut_wDataLen (ie_stUDPTCP eth)) + 1"

definition tcp_count_fin :: "u8 \<Rightarrow> tcplog \<Rightarrow> tcplog" where
  "tcp_count_fin ucRtxType log =
     (if ucRtxType = DEF_FROM_SERVER then log\<lparr>tl_ucTcpDnFinCnt := tl_ucTcpDnFinCnt log + 1\<rparr>
      else log\<lparr>tl_ucTcpUpFinCnt := tl_ucTcpUpFinCnt log + 1\<rparr>)"

definition tcp_set_fin :: "u8 \<Rightarrow> tcppair \<Rightarrow> tcppair" where
  "tcp_set_fin ucRtxType p = (if ucRtxType = DEF_FROM_SERVER then tcp_set_server DEF_SVR_FIN p else tcp_set_client DEF_CLI_FIN p)"

text \<open>The end of the other direction is acknowledged by this packet.\<close>

definition tcp_fin_acked :: "u8 \<Rightarrow> infoeth \<Rightarrow> tcppair \<Rightarrow> (tcppair \<times> bool) option" where
  "tcp_fin_acked ucSubRtxType eth p = (case p of (sess, log) \<Rightarrow> do {
     a \<leftarrow> chk_get (ts_uiFinChkAck sess) ucSubRtxType;
     if a > 0 \<and> a \<le> ut_ack (ie_stUDPTCP eth) then do {
       q \<leftarrow> chk_set (ts_uiFinChkSeq sess) ucSubRtxType (ut_seq (ie_stUDPTCP eth));
       let sess1 = sess\<lparr>ts_uiFinChkSeq := q\<rparr>;
       Some ((if ucSubRtxType = DEF_FROM_SERVER then tcp_set_server DEF_SVR_FINACK (sess1, log)
              else tcp_set_client DEF_CLI_FINACK (sess1, log)), True)
     } else Some (p, False)
   })"

text \<open>A FIN of a direction that already had one: another end forgets the acknowledgement.\<close>

definition tcp_fin_again :: "infoeth \<Rightarrow> u8 \<Rightarrow> tcpsess \<Rightarrow> tcpsess option" where
  "tcp_fin_again eth ucRtxType sess = do {
     a \<leftarrow> chk_get (ts_uiFinChkAck sess) ucRtxType;
     if a \<noteq> tcp_fin_end eth then do {
       xs \<leftarrow> chk_set (ts_uiFinChkAck sess) ucRtxType (tcp_fin_end eth);
       ys \<leftarrow> chk_set (ts_uiFinChkSeq sess) ucRtxType 0;
       Some (sess\<lparr>ts_uiFinChkAck := xs, ts_uiFinChkSeq := ys\<rparr>)
     } else Some sess
   }"

definition tcp_on_fin :: "caphead \<Rightarrow> infoeth \<Rightarrow> u8 \<Rightarrow> tcppair \<Rightarrow> tcppair option" where
  "tcp_on_fin cap eth ucRtxType p = (case p of (sess, log) \<Rightarrow>
     if ts_ucFinStatus sess = DEF_FIN_0 then do {
       xs \<leftarrow> chk_set (ts_uiFinChkAck sess) ucRtxType (tcp_fin_end eth);
       let log1 = log\<lparr>tl_uiTcpFinTime := s32 (cp_curtime cap), tl_uiTcpFinMTime := s32 (cp_ucurtime cap)\<rparr>;
       let sess1 = sess\<lparr>ts_ucFinStatus := DEF_FIN_1, ts_uiFinChkAck := xs,
         ts_ucFinRtx := (if ucRtxType = DEF_FROM_SERVER then DEF_FROM_SERVER else DEF_FROM_CLIENT)\<rparr>;
       Some (tcp_set_fin ucRtxType (sess1, tcp_count_fin ucRtxType log1))
     } else if ts_ucFinStatus sess = DEF_FIN_1 then
       (if ts_ucFinRtx sess = ucRtxType then do {
          sess1 \<leftarrow> tcp_fin_again eth ucRtxType sess;
          Some (sess1, tcp_count_fin ucRtxType log)
        } else do {
          xs \<leftarrow> chk_set (ts_uiFinChkAck sess) ucRtxType (tcp_fin_end eth);
          let sess1 = sess\<lparr>ts_ucFinStatus := DEF_FIN_2, ts_uiFinChkAck := xs\<rparr>;
          ((sess2, log2), _) \<leftarrow> tcp_fin_acked (tcp_other ucRtxType) eth (sess1, log);
          Some (tcp_set_fin ucRtxType (sess2, tcp_count_fin ucRtxType log2))
        })
     else if ts_ucFinStatus sess = DEF_FIN_2 then do {
       sess1 \<leftarrow> tcp_fin_again eth ucRtxType sess;
       Some (sess1, tcp_count_fin ucRtxType log)
     } else Some (sess, log))"

section \<open>ACK\<close>

text \<open>The third packet of the handshake; without a SYNACK the numbers of the server are taken from it.\<close>

definition tcp_ack_start :: "caphead \<Rightarrow> infoeth \<Rightarrow> u8 \<Rightarrow> tcppair \<Rightarrow> tcppair" where
  "tcp_ack_start cap eth ucRtxType p = (case p of (sess, log) \<Rightarrow>
     let ut = ie_stUDPTCP eth;
         p1 = tcp_set_client DEF_CLI_ACK (sess\<lparr>ts_ucStatus := DEF_STATUS_ACK\<rparr>, log);
         log2 = (snd p1)\<lparr>tl_uiTcpSynAckAckTime := s32 (cp_curtime cap), tl_uiTcpSynAckAckMTime := s32 (cp_ucurtime cap)\<rparr>
     in (if ts_uiSynAckSeq sess = 0
         then (if ts_ucSynRtx sess = ucRtxType
               then (fst p1)\<lparr>ts_uiSynAckSeq := ut_ack ut - 1, ts_uiLastResSeq := ut_ack ut - 1, ts_uiNextResSeq := ut_ack ut\<rparr>
               else (fst p1)\<lparr>ts_uiSynAckSeq := ut_seq ut, ts_uiLastResSeq := ut_seq ut,
                      ts_uiNextResSeq := ut_seq ut + ucast (ut_wDataLen ut)\<rparr>)
         else fst p1, log2))"

definition tcp_in_handshake :: "tcpsess \<Rightarrow> bool" where
  "tcp_in_handshake sess \<longleftrightarrow> ts_ucStatus sess = DEF_STATUS_SYN \<or> ts_ucStatus sess = DEF_STATUS_SYNACK"

text \<open>An acknowledgement after a FIN; when both ends are acknowledged the session is over.\<close>

definition tcp_ack_fin :: "caphead \<Rightarrow> infoeth \<Rightarrow> u8 \<Rightarrow> tcppair \<Rightarrow> tcppair option" where
  "tcp_ack_fin cap eth ucRtxType p =
     (if ts_ucFinStatus (fst p) > DEF_FIN_0 then do {
        ((sess, log), hit) \<leftarrow> tcp_fin_acked (tcp_other ucRtxType) eth p;
        if hit then do {
          c \<leftarrow> chk_get (ts_uiFinChkSeq sess) DEF_FROM_CLIENT;
          v \<leftarrow> chk_get (ts_uiFinChkSeq sess) DEF_FROM_SERVER;
          if c > 0 \<and> v > 0
          then Some (sess\<lparr>ts_ucEndStatus := DEF_END_NORMAL, ts_ucFinStatus := DEF_FIN_3\<rparr>,
                     log\<lparr>tl_uiTcpFinAckTime := s32 (cp_curtime cap), tl_uiTcpFinAckMTime := s32 (cp_ucurtime cap)\<rparr>)
          else Some (sess, log)
        } else Some (sess, log)
      } else Some p)"

section \<open>Data\<close>

text \<open>The state of the side that sends data.\<close>

definition tcp_mark_data :: "infoeth \<Rightarrow> u8 \<Rightarrow> tcppair \<Rightarrow> tcppair" where
  "tcp_mark_data eth ucRtxType p = (let n = ucast (ut_wDataLen (ie_stUDPTCP eth)) in
     if ucRtxType = DEF_FROM_SERVER
     then (case (if ts_ucTcpServerStatus (fst p) \<in> {DEF_SVR_SUCCESS, DEF_SVR_ETC, DEF_SVR_SYNACK}
                 then tcp_set_server DEF_SVR_DATA p else p) of
             (sess, log) \<Rightarrow> (sess, log\<lparr>tl_uiTcpDnBodySize := tl_uiTcpDnBodySize log + n\<rparr>))
     else (case (if ts_ucTcpClientStatus (fst p) \<in> {DEF_CLI_SUCCESS, DEF_CLI_ETC, DEF_CLI_SYN, DEF_CLI_ACK}
                 then tcp_set_client DEF_CLI_DATA p else p) of
             (sess, log) \<Rightarrow> (sess, log\<lparr>tl_uiTcpUpBodySize := tl_uiTcpUpBodySize log + n\<rparr>)))"

section \<open>The end\<close>

definition STG_DiffTIME64 :: "int \<Rightarrow> int \<Rightarrow> int \<Rightarrow> int \<Rightarrow> int" where
  "STG_DiffTIME64 ENDT ENDM STARTT STARTM =
     (let r = (ENDT * 1000000 + ENDM) - (STARTT * 1000000 + STARTM)
      in if r > 3600 * 24 * 1000000 then 0 else if r < 0 then 0 else r)"

definition tcp_close_log :: "int \<Rightarrow> int \<Rightarrow> tcpsess \<Rightarrow> tcplog \<Rightarrow> tcplog" where
  "tcp_close_log tv_sec tv_usec sess log =
     (let log1 = log\<lparr>
        tl_llConnSetupGapTime := STG_DiffTIME64 (tl_uiTcpSynAckAckTime log) (tl_uiTcpSynAckAckMTime log) (tl_uiCallTime log) (tl_uiCallMTime log),
        tl_llTcpSessGapTime := STG_DiffTIME64 (tl_uiTcpLastPktTime log) (tl_uiTcpLastPktMTime log) (tl_uiCallTime log) (tl_uiCallMTime log)\<rparr>;
          log2 = (if tl_uiTcpSynTime log1 = 0
                  then log1\<lparr>tl_uiTcpSynTime := tl_uiTcpSynAckTime log1, tl_uiTcpSynMTime := tl_uiTcpSynAckMTime log1\<rparr> else log1)
      in log2\<lparr>tl_usL4FailCode := ts_usL4FailCode sess, tl_uiOpEndTime := s32 tv_sec, tl_uiOpEndMTime := s32 tv_usec\<rparr>)"

end
