(* ===== verification/TcpProc.thy ===== *)
theory TcpProc
  imports TcpData TcpKeys TcpLife Hasho TimerN
begin

text \<open>
  The life of the sessions, \<^verbatim>\<open>A_TCP/tcp_func.c\<close> and \<^verbatim>\<open>A_TCP/tcp_main.c\<close>: the table of the sessions
  (\<open>pTCPHASH\<close>), the timer of each, the lists of the sessions of each client (\<open>pSESSKEYINFO\<close> and the key
  table), the packets and messages. The values of the two hash tables are structures kept by their address
  (\<open>ap_sess\<close>, \<open>ap_keydata\<close>); a node that is released keeps its contents until it is taken again. The only
  function given to the timer is \<open>invoke_del\<close>.
\<close>

section \<open>State\<close>

text \<open>The clock stands still while a packet is handled. \<open>ae_raw\<close> is what the stack holds where
  \<open>pCreateSession\<close> puts a session together; the bytes of the structures are only stored.\<close>

record aproc_env =
  ae_tcp :: tcp_env
  ae_APP_MENU :: int
  ae_APP_DOWN :: int
  ae_PI_TCP_TIMEOUT :: u32
  ae_PI_TCP_RSTWAIT :: u32
  ae_now :: int
  ae_usec :: int
  ae_raw :: tcpsess
  ae_sess_bytes :: "tcpsess \<Rightarrow> u8 list"
  ae_key_bytes :: "sesskeylist \<Rightarrow> u8 list"
  ae_malloc :: "addr set \<Rightarrow> addr"

record aproc =
  ap_tc :: atcp
  ap_hash :: hasho
  ap_sess :: "offset \<rightharpoonup> tcpsess"
  ap_keyhash :: hasho
  ap_keydata :: "offset \<rightharpoonup> sesskeylist"
  ap_keytbl :: sesskeytbl
  ap_call :: "offset \<rightharpoonup> u32 \<times> u32"

datatype tcp_timer_fn = Invoke_del

type_synonym tcpw = "aproc \<times> tcp_timer_fn timerNinfo"

text \<open>The keys as the hash tables store and compare them.\<close>

definition tcp_key_bytes :: "tcpsesskey \<Rightarrow> u8 list" where
  "tcp_key_bytes k = le32_bytes (sk_uiSIP k) @ le32_bytes (sk_uiDIP k) @ le16_bytes (sk_usSPort k) @ le16_bytes (sk_usDPort k)"

definition tcp_key_of :: "u8 list \<Rightarrow> tcpsesskey" where
  "tcp_key_of bs = \<lparr>sk_uiSIP = le32_of bs, sk_uiDIP = le32_of (drop 4 bs),
     sk_usSPort = ucast (le16 (bs ! 8) (bs ! 9)), sk_usDPort = ucast (le16 (bs ! 10) (bs ! 11))\<rparr>"

definition call_key_bytes :: "u32 \<Rightarrow> u8 list" where
  "call_key_bytes uiSrcIP = le32_bytes uiSrcIP @ le32_bytes 0"

definition ae_gv :: "u32 \<Rightarrow> int" where "ae_gv t = sint t"

definition ap_sess_upd :: "aproc \<Rightarrow> offset \<Rightarrow> (tcpsess \<Rightarrow> tcpsess) \<Rightarrow> aproc option" where
  "ap_sess_upd s sp f = do { sess \<leftarrow> ap_sess s sp; Some (s\<lparr>ap_sess := (ap_sess s)(sp \<mapsto> f sess)\<rparr>) }"

definition ap_sub :: "(atcp_subinfo \<Rightarrow> atcp_subinfo) \<Rightarrow> aproc \<Rightarrow> aproc" where
  "ap_sub f s = s\<lparr>ap_tc := (ap_tc s)\<lparr>tc_sub := f (tc_sub (ap_tc s))\<rparr>\<rparr>"

definition ap_node_delete :: "aproc \<Rightarrow> offset \<Rightarrow> aproc option" where
  "ap_node_delete s pNode = do { tc \<leftarrow> tcp_on_nifo (ap_tc s) (\<lambda>nf. nifo_node_delete nf pNode); Some (s\<lparr>ap_tc := tc\<rparr>) }"

text \<open>The log of a session: \<open>nifo_ptr\<close> makes NULL of the offset 0.\<close>

definition tcp_log_at :: "atcp \<Rightarrow> offset \<Rightarrow> tcplog option" where
  "tcp_log_at s off = (if off = 0 then None else tc_log s off)"

definition tcp_set_log :: "atcp \<Rightarrow> offset \<Rightarrow> tcplog \<Rightarrow> atcp" where
  "tcp_set_log s off log = s\<lparr>tc_log := (tc_log s)(off \<mapsto> log)\<rparr>"

text \<open>A branch on the session at \<open>sp\<close> and the log at \<open>lp\<close>.\<close>

definition ap_step :: "aproc \<Rightarrow> offset \<Rightarrow> offset \<Rightarrow> (tcppair \<Rightarrow> tcppair option) \<Rightarrow> aproc option" where
  "ap_step s sp lp f = do {
     sess \<leftarrow> ap_sess s sp;
     log \<leftarrow> tcp_log_at (ap_tc s) lp;
     (sess1, log1) \<leftarrow> f (sess, log);
     Some (s\<lparr>ap_sess := (ap_sess s)(sp \<mapsto> sess1), ap_tc := tcp_set_log (ap_tc s) lp log1\<rparr>)
   }"

section \<open>The end of a session\<close>

definition dCloseSession :: "aproc_env \<Rightarrow> aproc \<Rightarrow> tcpsesskey \<Rightarrow> offset \<Rightarrow> aproc option" where
  "dCloseSession e s key sp = do {
     let s1 = ap_sub (\<lambda>u. u\<lparr>as_curSessCnt := as_curSessCnt u - 1\<rparr>) s;
     sess \<leftarrow> ap_sess s1 sp;
     let sess1 = sess\<lparr>ts_usL4FailCode := GetFailCode sess\<rparr>;
     log \<leftarrow> tcp_log_at (ap_tc s1) (ts_offset_LOG sess1);
     let tc2 = tcp_set_log (ap_tc s1) (ts_offset_LOG sess1) (tcp_close_log (ae_now e) (ae_usec e) sess1 log);
     (tc3, sess3) \<leftarrow> dSendAllData (ae_tcp e) tc2 key sess1;
     (tc4, sess4, _) \<leftarrow> (if ts_ucStatus sess3 = DEF_STATUS_ACK then dTCPStopMsg (ae_tcp e) (ae_now e) tc3 key sess3
                        else Some (tc3, sess3, 0));
     h \<leftarrow> hasho_del (ap_hash s1) (tcp_key_bytes key);
     Some (s1\<lparr>ap_tc := tc4, ap_sess := (ap_sess s1)(sp \<mapsto> sess4), ap_hash := h\<rparr>)
   }"

text \<open>\<open>Delete_SessList\<close>: its answer is not used.\<close>

definition Delete_SessList :: "aproc \<Rightarrow> tcpsesskey \<Rightarrow> aproc option" where
  "Delete_SessList s key = do {
     r \<leftarrow> hasho_find (ap_keyhash s) (call_key_bytes (sk_uiSIP key));
     case r of
       None \<Rightarrow> Some s
     | Some p \<Rightarrow> do {
         a \<leftarrow> hasho_data_at (ap_keyhash s) p;
         h \<leftarrow> ap_keydata s a;
         (kt, h1, dRet) \<leftarrow> dDelSessKeyNext (ap_keytbl s) h key;
         let s1 = s\<lparr>ap_keytbl := kt, ap_keydata := (ap_keydata s)(a \<mapsto> h1)\<rparr>;
         if dRet = 0 then do {
           kh \<leftarrow> hasho_del (ap_keyhash s1) (call_key_bytes (sk_uiSIP key));
           Some (s1\<lparr>ap_keyhash := kh\<rparr>)
         } else Some s1
       }
   }"

text \<open>The timer of a session fires.\<close>

definition invoke_del :: "aproc_env \<Rightarrow> u8 list \<Rightarrow> aproc \<Rightarrow> aproc option" where
  "invoke_del e arg s = do {
     let key = tcp_key_of arg;
     r \<leftarrow> hasho_find (ap_hash s) (tcp_key_bytes key);
     case r of
       None \<Rightarrow> Some s
     | Some p \<Rightarrow> do {
         sp \<leftarrow> hasho_data_at (ap_hash s) p;
         s1 \<leftarrow> ap_sess_upd s sp (\<lambda>sess. if ts_ucEndStatus sess \<noteq> DEF_END_RST
                                        then sess\<lparr>ts_ucEndStatus := DEF_END_LONGLAST\<rparr> else sess);
         s2 \<leftarrow> dCloseSession e s1 key sp;
         Delete_SessList s2 key
       }
   }"

definition tcp_call :: "aproc_env \<Rightarrow> tcp_timer_fn \<Rightarrow> u8 list \<Rightarrow> tcpw \<Rightarrow> tcpw option" where
  "tcp_call e f arg w = (case w of (s, t) \<Rightarrow> case f of Invoke_del \<Rightarrow> map_option (\<lambda>s'. (s', t)) (invoke_del e arg s))"

text \<open>The timer of the session at \<open>sp\<close> is deleted; the session may already be released.\<close>

definition tcp_timer_del :: "tcpw \<Rightarrow> offset \<Rightarrow> tcpw option" where
  "tcp_timer_del w sp = (case w of (s, t) \<Rightarrow> do {
     sess \<leftarrow> ap_sess s sp;
     t1 \<leftarrow> timerN_del t (ts_timerNID sess);
     Some (s, t1)
   })"

section \<open>A new session\<close>

definition pCreateSession ::
  "aproc_env \<Rightarrow> tcpw \<Rightarrow> tcpsesskey \<Rightarrow> caphead \<Rightarrow> infoeth \<Rightarrow> u8 \<Rightarrow> u8 \<Rightarrow> (tcpw \<times> offset option) option" where
  "pCreateSession e w key cap eth ucRtxType ucControl = (case w of (s, t) \<Rightarrow> do {
     let s1 = ap_sub (\<lambda>u. u\<lparr>as_curSessCnt := as_curSessCnt u + 1, as_sessCnt := as_sessCnt u + 1\<rparr>) s;
     q \<leftarrow> dGetProcID (en_gAHTTPCnt (ae_tcp e)) (en_gACALLCnt (ae_tcp e)) (ie_usAppCode eth)
            (if ucRtxType = DEF_FROM_CLIENT then ip_dwSrcIP (ie_stIP eth) else ip_dwDestIP (ie_stIP eth));
     let sess = tcp_new_sess (ae_raw e) cap eth q (ae_now e);
     (nf, r) \<leftarrow> nifo_node_alloc (tc_nifo (ap_tc s1)) (ae_now e);
     let s2 = s1\<lparr>ap_tc := (ap_tc s1)\<lparr>tc_nifo := nf\<rparr>\<rparr>;
     case r of
       None \<Rightarrow> Some ((s2, t), None)
     | Some pLOGNODE \<Rightarrow> do {
         (nf2, v) \<leftarrow> nifo_tlv_alloc nf pLOGNODE (en_LOG_TCP_SESS_DEF_NUM (ae_tcp e)) (en_LOG_TCP_SESS_SIZE (ae_tcp e)) 1;
         let s3 = s2\<lparr>ap_tc := (ap_tc s2)\<lparr>tc_nifo := nf2\<rparr>\<rparr>;
         case v of
           None \<Rightarrow> do { s4 \<leftarrow> ap_node_delete s3 pLOGNODE; Some ((s4, t), None) }
         | Some lp \<Rightarrow> do {
             let platform = dGetPlatformType (ae_APP_MENU e) (ae_APP_DOWN e) (uint (ie_usL4Code eth)) (uint (ie_usL7Code eth));
             let (sess1, log1) = tcp_new_ctl cap eth ucRtxType ucControl
               (sess\<lparr>ts_offset_LOG := lp\<rparr>, tcp_new_log platform key cap eth ucRtxType (ae_now e) (ae_usec e));
             let s4 = s3\<lparr>ap_tc := tcp_set_log (ap_tc s3) lp log1\<rparr>;
             (h, r2) \<leftarrow> hasho_add (ae_now e) (ap_hash s4) (tcp_key_bytes key) (ae_sess_bytes e sess1);
             let s5 = s4\<lparr>ap_hash := h\<rparr>;
             case r2 of
               None \<Rightarrow> do { s6 \<leftarrow> ap_node_delete s5 pLOGNODE; Some ((s6, t), None) }
             | Some p \<Rightarrow> do {
                 sp \<leftarrow> hasho_data_at h p;
                 let s6 = s5\<lparr>ap_sess := (ap_sess s5)(sp \<mapsto> sess1)\<rparr>;
                 ((s7, t1), nid) \<leftarrow> timerN_add (tcp_call e) (ae_malloc e) (s6, t) Invoke_del (tcp_key_bytes key)
                                     (ae_now e + ae_gv (ae_PI_TCP_TIMEOUT e));
                 s8 \<leftarrow> ap_sess_upd s7 sp (\<lambda>sess. sess\<lparr>ts_timerNID := nid\<rparr>);
                 Some ((s8, t1), Some sp)
               }
           }
       }
   })"

text \<open>The session is entered in the list of its client.\<close>

definition dCheckSessKeyList :: "aproc_env \<Rightarrow> aproc \<Rightarrow> tcpsesskey \<Rightarrow> offset \<Rightarrow> (aproc \<times> int) option" where
  "dCheckSessKeyList e s key sp = do {
     r \<leftarrow> hasho_find (ap_keyhash s) (call_key_bytes (sk_uiSIP key));
     (kt1, dRet, new) \<leftarrow> dGetSessKeyList (ap_keytbl s);
     let s1 = s\<lparr>ap_keytbl := kt1\<rparr>;
     case new of
       None \<Rightarrow> Some (s1, if r = None then -1 else -2)
     | Some i \<Rightarrow> do {
         sess \<leftarrow> ap_sess s1 sp;
         kt2 \<leftarrow> key_store kt1 i key (word_of_int (ts_uiSessCreateTime sess));
         let s2 = s1\<lparr>ap_keytbl := kt2\<rparr>;
         case r of
           None \<Rightarrow> do {
             n \<leftarrow> kt_stNode kt2 i;
             (kh, r2) \<leftarrow> hasho_add (ae_now e) (ap_keyhash s2) (call_key_bytes (sk_uiSIP key)) (ae_key_bytes e n);
             let s3 = s2\<lparr>ap_keyhash := kh\<rparr>;
             case r2 of
               None \<Rightarrow> Some (s3, 0)
             | Some p \<Rightarrow> do { a \<leftarrow> hasho_data_at kh p; Some (s3\<lparr>ap_keydata := (ap_keydata s3)(a \<mapsto> n)\<rparr>, 0) }
           }
         | Some p \<Rightarrow> do {
             a \<leftarrow> hasho_data_at (ap_keyhash s2) p;
             h \<leftarrow> ap_keydata s2 a;
             (kt3, dRet) \<leftarrow> dAddSessKeyNext kt2 h i;
             if dRet < 0 then do { kt4 \<leftarrow> FreeSessKeyList kt3 i; Some (s2\<lparr>ap_keytbl := kt4\<rparr>, -3) }
             else Some (s2\<lparr>ap_keytbl := kt3\<rparr>, 0)
           }
       }
   }"

section \<open>A packet\<close>

text \<open>How a part of \<open>dProcTcpSess\<close> ends: it goes on with the session and the log at two addresses, or the
  function returns.\<close>

datatype tcp_turn = TGo offset offset | TEnd int

text \<open>A new session for the packet.\<close>

definition tcp_renew ::
  "aproc_env \<Rightarrow> tcpw \<Rightarrow> tcpsesskey \<Rightarrow> caphead \<Rightarrow> infoeth \<Rightarrow> u8 \<Rightarrow> u8 \<Rightarrow> offset \<Rightarrow> (tcpw \<times> tcp_turn) option" where
  "tcp_renew e w key cap eth ucRtxType ucControl pNode = do {
     ((s1, t1), r) \<leftarrow> pCreateSession e w key cap eth ucRtxType ucControl;
     case r of
       None \<Rightarrow> do { s2 \<leftarrow> ap_node_delete s1 pNode; Some ((s2, t1), TEnd 0) }
     | Some sp \<Rightarrow> do {
         (s2, dRet) \<leftarrow> dCheckSessKeyList e s1 key sp;
         if dRet < 0 then Some ((s2, t1), TEnd (-1))
         else do { sess \<leftarrow> ap_sess s2 sp; Some ((s2, t1), TGo sp (ts_offset_LOG sess)) }
       }
   }"

text \<open>A SYN or SYNACK that does not belong to the session at \<open>sp\<close>: it is closed and a new one begins.\<close>

definition tcp_restart ::
  "aproc_env \<Rightarrow> tcpw \<Rightarrow> tcpsesskey \<Rightarrow> offset \<Rightarrow> caphead \<Rightarrow> infoeth \<Rightarrow> u8 \<Rightarrow> u8 \<Rightarrow> offset \<Rightarrow> (tcpw \<times> tcp_turn) option" where
  "tcp_restart e w key sp cap eth ucRtxType ucControl pNode = (case w of (s, t) \<Rightarrow> do {
     s1 \<leftarrow> ap_sess_upd s sp (\<lambda>sess. sess\<lparr>ts_ucEndStatus := DEF_END_ABNORMAL\<rparr>);
     s2 \<leftarrow> dCloseSession e s1 key sp;
     (s3, t3) \<leftarrow> tcp_timer_del (s2, t) sp;
     s4 \<leftarrow> Delete_SessList s3 key;
     tcp_renew e (s4, t3) key cap eth ucRtxType ucControl pNode
   })"

text \<open>A session that is there: a message to the call analysis from time to time, and the timer starts
  again.\<close>

definition tcp_refresh :: "aproc_env \<Rightarrow> tcpw \<Rightarrow> tcpsesskey \<Rightarrow> offset \<Rightarrow> caphead \<Rightarrow> tcpw option" where
  "tcp_refresh e w key sp cap = (case w of (s, t) \<Rightarrow> do {
     let guiTimerValue = ae_gv (ae_PI_TCP_TIMEOUT e);
     sess \<leftarrow> ap_sess s sp;
     s1 \<leftarrow> (if cp_curtime cap \<ge> ts_uiLastSessUpdateTime sess + guiTimerValue - 10 then do {
              (tc, sess1, _) \<leftarrow> dSessUpdataMsg (ae_tcp e) (ae_now e) (ap_tc s) key sess;
              Some (ap_sub (\<lambda>u. u\<lparr>as_updateCnt := as_updateCnt u + 1\<rparr>)
                (s\<lparr>ap_tc := tc, ap_sess := (ap_sess s)(sp \<mapsto> sess1\<lparr>ts_uiLastSessUpdateTime := s32 (cp_curtime cap)\<rparr>)\<rparr>))
            } else Some s);
     sess1 \<leftarrow> ap_sess s1 sp;
     ((s2, t2), nid) \<leftarrow> timerN_update (tcp_call e) (s1, t) (ts_timerNID sess1) (ae_now e + guiTimerValue);
     s3 \<leftarrow> ap_sess_upd s2 sp (\<lambda>sess. sess\<lparr>ts_timerNID := nid\<rparr>);
     Some (s3, t2)
   })"

text \<open>The third packet of the handshake starts the messages; \<open>dTCPStartMsg\<close> failing is only logged.\<close>

definition tcp_on_ack ::
  "aproc_env \<Rightarrow> aproc \<Rightarrow> tcpsesskey \<Rightarrow> offset \<Rightarrow> offset \<Rightarrow> caphead \<Rightarrow> infoeth \<Rightarrow> u8 \<Rightarrow> aproc option" where
  "tcp_on_ack e s key sp lp cap eth ucRtxType = do {
     sess \<leftarrow> ap_sess s sp;
     if tcp_in_handshake sess then do {
       s1 \<leftarrow> ap_step s sp lp (\<lambda>p. Some (tcp_ack_start cap eth ucRtxType p));
       sess1 \<leftarrow> ap_sess s1 sp;
       (tc, sess2, _) \<leftarrow> dTCPStartMsg (ae_tcp e) (ae_now e) (ap_tc s1) key sess1;
       Some (s1\<lparr>ap_tc := tc, ap_sess := (ap_sess s1)(sp \<mapsto> sess2)\<rparr>)
     } else ap_step s sp lp (tcp_ack_fin cap eth ucRtxType)
   }"

text \<open>The switch on the control flags for a session that is there. \<open>eth\<close> is at the address \<open>ep\<close>: for a
  RST its data length is set to 0.\<close>

definition tcp_control ::
  "aproc_env \<Rightarrow> tcpw \<Rightarrow> tcpsesskey \<Rightarrow> offset \<Rightarrow> caphead \<Rightarrow> infoeth \<Rightarrow> offset \<Rightarrow> u8 \<Rightarrow> u8 \<Rightarrow> offset \<Rightarrow> (tcpw \<times> tcp_turn) option" where
  "tcp_control e w key sp cap eth ep ucRtxType ucControl pNode = (case w of (s, t) \<Rightarrow> do {
     sess \<leftarrow> ap_sess s sp;
     let lp = ts_offset_LOG sess;
     let go = (\<lambda>f. do { s1 \<leftarrow> ap_step s sp lp f; Some ((s1, t), TGo sp lp) });
     if ucControl = TCP_SYN then
       (case tcp_on_syn cap eth sess of
          Some f \<Rightarrow> go (\<lambda>p. Some (f p))
        | None \<Rightarrow> tcp_restart e w key sp cap eth ucRtxType ucControl pNode)
     else if ucControl = TCP_SYNACK then
       (case tcp_on_synack cap eth sess of
          Some f \<Rightarrow> go (\<lambda>p. Some (f p))
        | None \<Rightarrow> tcp_restart e w key sp cap eth ucRtxType ucControl pNode)
     else if ucControl = TCP_RST then do {
       ((s1, t1), r) \<leftarrow> go (\<lambda>p. Some (tcp_on_rst cap ucRtxType p));
       Some ((s1\<lparr>ap_tc := (ap_tc s1)\<lparr>tc_eth := (tc_eth (ap_tc s1))(ep \<mapsto>
                eth\<lparr>ie_stUDPTCP := (ie_stUDPTCP eth)\<lparr>ut_wDataLen := 0\<rparr>\<rparr>)\<rparr>\<rparr>, t1), r)
     }
     else if ucControl = TCP_FIN then go (tcp_on_fin cap eth ucRtxType)
     else if ucControl = TCP_ACK then do {
       s1 \<leftarrow> tcp_on_ack e s key sp lp cap eth ucRtxType;
       Some ((s1, t), TGo sp lp)
     }
     else do { s1 \<leftarrow> ap_node_delete s pNode; Some ((s1, t), TEnd 0) }
   })"

text \<open>What follows for every packet of a session: counters, acknowledgements, data.\<close>

definition tcp_insert ::
  "aproc_env \<Rightarrow> aproc \<Rightarrow> tcpsesskey \<Rightarrow> offset \<Rightarrow> offset \<Rightarrow> caphead \<Rightarrow> infoeth \<Rightarrow> u8 \<Rightarrow> offset \<Rightarrow> aproc option" where
  "tcp_insert e s key sp lp cap eth ucRtxType pNode = do {
     s1 \<leftarrow> ap_step s sp lp (\<lambda>p. Some (tcp_mark_data eth ucRtxType p));
     sess \<leftarrow> ap_sess s1 sp;
     (tc, sess1, delFlag) \<leftarrow> dInsertTCPData (ae_tcp e) (ap_tc s1) key sess cap eth pNode;
     let s2 = s1\<lparr>ap_tc := tc, ap_sess := (ap_sess s1)(sp \<mapsto> sess1)\<rparr>;
     if delFlag > 0 then ap_step s2 sp lp (\<lambda>p. Some (tcp_count_retrans ucRtxType delFlag p)) else Some s2
   }"

definition tcp_packet ::
  "aproc_env \<Rightarrow> aproc \<Rightarrow> tcpsesskey \<Rightarrow> offset \<Rightarrow> offset \<Rightarrow> caphead \<Rightarrow> infoeth \<Rightarrow> u8 \<Rightarrow> offset \<Rightarrow> aproc option" where
  "tcp_packet e s key sp lp cap eth ucRtxType pNode = do {
     s1 \<leftarrow> ap_step s sp lp (\<lambda>p. Some (tcp_count_pkt cap eth ucRtxType p));
     sess \<leftarrow> ap_sess s1 sp;
     (tc, sess1) \<leftarrow> dCheckAck (ae_tcp e) (ap_tc s1) sess cap eth ucRtxType;
     let s2 = s1\<lparr>ap_tc := tc, ap_sess := (ap_sess s1)(sp \<mapsto> sess1)\<rparr>;
     s3 \<leftarrow> (if ut_wDataLen (ie_stUDPTCP eth) > 0 then tcp_insert e s2 key sp lp cap eth ucRtxType pNode
            else ap_node_delete s2 pNode);
     sess3 \<leftarrow> ap_sess s3 sp;
     (tc4, sess4) \<leftarrow> dSendPayLoad (ae_tcp e) (ap_tc s3) sess3;
     Some (s3\<lparr>ap_tc := tc4, ap_sess := (ap_sess s3)(sp \<mapsto> sess4)\<rparr>)
   }"

text \<open>A session that has ended is closed; one that was reset waits for the packets that follow.\<close>

definition tcp_finish :: "aproc_env \<Rightarrow> tcpw \<Rightarrow> tcpsesskey \<Rightarrow> offset \<Rightarrow> tcpw option" where
  "tcp_finish e w key sp = (case w of (s, t) \<Rightarrow> do {
     sess \<leftarrow> ap_sess s sp;
     if ts_ucEndStatus sess = DEF_END_NORMAL then do {
       s1 \<leftarrow> dCloseSession e s key sp;
       (s2, t2) \<leftarrow> tcp_timer_del (s1, t) sp;
       s3 \<leftarrow> Delete_SessList s2 key;
       Some (s3, t2)
     } else if ts_ucEndStatus sess = DEF_END_RST then do {
       ((s1, t1), nid) \<leftarrow> timerN_update (tcp_call e) (s, t) (ts_timerNID sess) (ae_now e + ae_gv (ae_PI_TCP_RSTWAIT e));
       s2 \<leftarrow> ap_sess_upd s1 sp (\<lambda>sess. sess\<lparr>ts_timerNID := nid\<rparr>);
       Some (s2, t1)
     } else Some (s, t)
   })"

definition dProcTcpSess :: "aproc_env \<Rightarrow> tcpw \<Rightarrow> offset \<Rightarrow> offset \<Rightarrow> offset \<Rightarrow> (tcpw \<times> int) option" where
  "dProcTcpSess e w cp ep pNode = (case w of (s, t) \<Rightarrow> do {
     cap \<leftarrow> tc_cap (ap_tc s) cp;
     eth \<leftarrow> tc_eth (ap_tc s) ep;
     let key = MakeTCPHashKey cap eth;
     let ucControl = GetTCPControl (ut_nControlType (ie_stUDPTCP eth));
     let ucRtxType = cp_bRtxType cap;
     let s1 = ap_sub (\<lambda>u. u\<lparr>as_rcvNodeCnt := as_rcvNodeCnt u + 1,
                             as_rcvSize := as_rcvSize u + ucast (ut_wDataLen (ie_stUDPTCP eth))\<rparr>) s;
     r \<leftarrow> hasho_find (ap_hash s1) (tcp_key_bytes key);
     ((s2, t2), turn) \<leftarrow> (case r of
         None \<Rightarrow> (if ucControl = TCP_SYN \<or> ucControl = TCP_SYNACK
                  then tcp_renew e (s1, t) key cap eth ucRtxType ucControl pNode
                  else do { s2 \<leftarrow> ap_node_delete s1 pNode; Some ((s2, t), TEnd 0) })
       | Some p \<Rightarrow> do {
           sp \<leftarrow> hasho_data_at (ap_hash s1) p;
           w1 \<leftarrow> tcp_refresh e (s1, t) key sp cap;
           tcp_control e w1 key sp cap eth ep ucRtxType ucControl pNode
         });
     case turn of
       TEnd dRet \<Rightarrow> Some ((s2, t2), dRet)
     | TGo sp lp \<Rightarrow> do {
         eth2 \<leftarrow> tc_eth (ap_tc s2) ep;
         s3 \<leftarrow> tcp_packet e s2 key sp lp cap eth2 ucRtxType pNode;
         w4 \<leftarrow> tcp_finish e (s3, t2) key sp;
         Some (w4, 0)
       }
   })"

section \<open>A message\<close>

text \<open>A session of a call that is cleared.\<close>

definition tcp_clear_sess :: "aproc_env \<Rightarrow> tcpsesskey \<Rightarrow> tcpw \<Rightarrow> tcpw option" where
  "tcp_clear_sess e key w = (case w of (s, t) \<Rightarrow> do {
     r \<leftarrow> hasho_find (ap_hash s) (tcp_key_bytes key);
     case r of
       None \<Rightarrow> Some (s, t)
     | Some p \<Rightarrow> do {
         sp \<leftarrow> hasho_data_at (ap_hash s) p;
         s1 \<leftarrow> ap_sess_upd s sp (\<lambda>sess. sess\<lparr>ts_ucEndStatus := DEF_END_LONGLAST\<rparr>);
         s2 \<leftarrow> dCloseSession e s1 key sp;
         tcp_timer_del (s2, t) sp
       }
   })"

definition tcp_clear_call :: "aproc_env \<Rightarrow> tcpw \<Rightarrow> offset \<Rightarrow> tcpw option" where
  "tcp_clear_call e w ca = (case w of (s, t) \<Rightarrow> do {
     (uiSrcIP, LastLogTime) \<leftarrow> ap_call s ca;
     let s1 = s\<lparr>ap_call := (ap_call s)(ca \<mapsto> (uiSrcIP, 0))\<rparr>;
     r \<leftarrow> hasho_find (ap_keyhash s1) (call_key_bytes uiSrcIP);
     case r of
       None \<Rightarrow> Some (s1, t)
     | Some p \<Rightarrow> do {
         a \<leftarrow> hasho_data_at (ap_keyhash s1) p;
         h \<leftarrow> ap_keydata s1 a;
         (((s2, t2), kt, h2), dRet) \<leftarrow> dDelSessKeyList (tcp_clear_sess e) LastLogTime ((s1, t), ap_keytbl s1, h);
         let s3 = s2\<lparr>ap_keytbl := kt, ap_keydata := (ap_keydata s2)(a \<mapsto> h2)\<rparr>;
         if dRet = 0 then do {
           kh \<leftarrow> hasho_del (ap_keyhash s3) (call_key_bytes uiSrcIP);
           Some (s3\<lparr>ap_keyhash := kh\<rparr>, t2)
         } else Some (s3, t2)
       }
   })"

definition tcp_pass_on :: "aproc_env \<Rightarrow> aproc \<Rightarrow> int \<Rightarrow> offset \<Rightarrow> aproc option" where
  "tcp_pass_on e s dSeqProcID pNode = do {
     (tc, _) \<leftarrow> dSend_TCP_Data (ae_tcp e) (ap_tc s) dSeqProcID pNode;
     Some (s\<lparr>ap_tc := tc\<rparr>)
   }"

definition tcp_message :: "aproc_env \<Rightarrow> tcpw \<Rightarrow> offset \<Rightarrow> tcpw option" where
  "tcp_message e w pNode = (case w of (s, t) \<Rightarrow> do {
     pCAPHEAD \<leftarrow> nifo_get_value (tc_nifo (ap_tc s)) CAP_HEADER_NUM pNode;
     pINFOETH \<leftarrow> nifo_get_value (tc_nifo (ap_tc s)) INFO_ETH_NUM pNode;
     pCALLKey \<leftarrow> nifo_get_value (tc_nifo (ap_tc s)) CLEAR_CALL_NUM pNode;
     case pCALLKey of
       Some ca \<Rightarrow> do {
         (s1, t1) \<leftarrow> tcp_clear_call e w ca;
         s2 \<leftarrow> ap_node_delete s1 pNode;
         Some (s2, t1)
       }
     | None \<Rightarrow> (case (pCAPHEAD, pINFOETH) of
         (Some cp, Some ep) \<Rightarrow> do {
           cap \<leftarrow> tc_cap (ap_tc s) cp;
           eth \<leftarrow> tc_eth (ap_tc s) ep;
           if uint (ie_usAppCode eth) = SEQ_PROC_A_VT
           then do { s1 \<leftarrow> tcp_pass_on e s SEQ_PROC_A_SIPT pNode; Some (s1, t) }
           else if ip_ucProtocol (ie_stIP eth) = DEF_PROTOCOL_TCP then do {
             ((s1, t1), dRet) \<leftarrow> dProcTcpSess e w cp ep pNode;
             if dRet < 0 then do { s2 \<leftarrow> ap_node_delete s1 pNode; Some (s2, t1) } else Some (s1, t1)
           } else do {
             dSndQID \<leftarrow> dGetProcID (en_gAHTTPCnt (ae_tcp e)) (en_gACALLCnt (ae_tcp e)) (ie_usAppCode eth)
               (if cp_bRtxType cap = DEF_FROM_CLIENT then ip_dwSrcIP (ie_stIP eth) else ip_dwDestIP (ie_stIP eth));
             s1 \<leftarrow> tcp_pass_on e s dSndQID pNode;
             Some (s1, t)
           }
         }
       | _ \<Rightarrow> do { s1 \<leftarrow> ap_node_delete s pNode; Some (s1, t) })
   })"

section \<open>The process\<close>

text \<open>The messages of one turn of the main loop, \<open>left\<close> at most.\<close>

fun tcp_read_loop :: "aproc_env \<Rightarrow> tcpw \<Rightarrow> nat \<Rightarrow> tcpw option" where
  "tcp_read_loop e w 0 = Some w"
| "tcp_read_loop e (s, t) (Suc left) = do {
     (nf, cf, offset) \<leftarrow> gifo_read (tc_nifo (ap_tc s)) (tc_cifo (ap_tc s)) (tc_gifo (ap_tc s)) (en_guiSeqProcID (ae_tcp e));
     let s1 = s\<lparr>ap_tc := (ap_tc s)\<lparr>tc_nifo := nf, tc_cifo := cf\<rparr>\<rparr>;
     if offset > 0 then do {
       w2 \<leftarrow> tcp_message e (s1, t) offset;
       tcp_read_loop e w2 left
     } else Some (s1, t)
   }"

definition tcp_clear_counters :: "atcp_subinfo \<Rightarrow> atcp_subinfo" where
  "tcp_clear_counters u = u\<lparr>as_rcvNodeCnt := 0, as_rcvSize := 0, as_httpSndCnt := 0, as_delCnt := 0, as_allSndCnt := 0,
     as_diffSeqCnt := 0, as_sessCnt := 0, as_updateCnt := 0\<rparr>"

text \<open>One turn; \<open>oldTime\<close> is the time of the last report.\<close>

definition tcp_main_turn :: "aproc_env \<Rightarrow> tcpw \<times> int \<Rightarrow> (tcpw \<times> int) option" where
  "tcp_main_turn e m = (case m of (w, oldTime) \<Rightarrow> do {
     w1 \<leftarrow> timerN_invoke (tcp_call e) (ae_now e) w;
     (s2, t2) \<leftarrow> tcp_read_loop e w1 300;
     if ae_now e \<ge> oldTime + 60 then Some ((ap_sub tcp_clear_counters s2, t2), ae_now e)
     else Some ((s2, t2), oldTime)
   })"

text \<open>After a restart every session of the shared table gets a timer again.\<close>

partial_function (option) tcp_rebuild_chain :: "aproc_env \<Rightarrow> tcpw \<Rightarrow> offset \<Rightarrow> tcpw option" where
  "tcp_rebuild_chain e w offset =
     (if offset = 0 then Some w
      else do {
        n \<leftarrow> ho_node (ap_hash (fst w)) offset;
        hdr \<leftarrow> gm_hdr (ho_memg (ap_hash (fst w))) (offset + gi_offsetHeadRoom (ho_memg (ap_hash (fst w))) - stMEMGNODEHDR_SIZE);
        (s1, t1) \<leftarrow> (if MEMG_ID = gh_uiID hdr \<and> MEMG_ALLOCED = gh_ucIsFree hdr then do {
            ((s1, t1), nid) \<leftarrow> timerN_add (tcp_call e) (ae_malloc e) w Invoke_del (hasho_key_at (ap_hash (fst w)) n)
                                (ae_now e + ae_gv (ae_PI_TCP_TIMEOUT e));
            s2 \<leftarrow> ap_sess_upd s1 (offset_Data n) (\<lambda>sess. sess\<lparr>ts_timerNID := nid\<rparr>);
            Some (s2, t1)
          } else Some w);
        n1 \<leftarrow> ho_node (ap_hash s1) offset;
        tcp_rebuild_chain e (s1, t1) (offset_next n1)
      })"

fun tcp_rebuild_loop :: "aproc_env \<Rightarrow> tcpw \<Rightarrow> nat \<Rightarrow> nat \<Rightarrow> tcpw option" where
  "tcp_rebuild_loop e w i 0 = Some w"
| "tcp_rebuild_loop e w i (Suc left) = do {
     offset \<leftarrow> hasho_head (ap_hash (fst w)) (int i);
     w1 \<leftarrow> tcp_rebuild_chain e w offset;
     tcp_rebuild_loop e w1 (Suc i) left
   }"

definition vTCPTimerReConstruct :: "aproc_env \<Rightarrow> tcpw \<Rightarrow> tcpw option" where
  "vTCPTimerReConstruct e w = tcp_rebuild_loop e w 0 (unat (ho_uiHashSize (ap_hash (fst w))))"

end
