(* ===== verification/TcpSeq.thy ===== *)
theory TcpSeq
  imports TcpUtil
begin

text \<open>
  The comparison of segments: \<^verbatim>\<open>CalcRetrans\<close> and \<^verbatim>\<open>CalcBase\<close> against intervals of positions. The position of
  a sequence number is its distance from the first one of the session, modulo \<open>2 ^ 32\<close>.
\<close>

lemma OFFSET_SEQ_eq [simp]: "OFFSET_SEQ b n = n - b"
  by (simp add: OFFSET_SEQ_def MAX_SEQUENCE_def)

lemma unat_seg_end:
  fixes a b :: u32
  assumes "0 < unat b" "unat a + unat b \<le> 2147483648"
  shows "unat (a + b - 1) = unat a + unat b - 1"
proof -
  have ab: "unat (a + b) = unat a + unat b"
    using assms unat_add_lem [of a b] by simp
  have "1 \<le> a + b" using ab assms by (simp add: word_le_nat_alt)
  then show ?thesis using ab by (simp add: unat_sub)
qed

lemma signed31_id:
  fixes k :: int
  assumes "- 2147483648 \<le> k" "k < 2147483648"
  shows "signed_take_bit 31 k = k"
  using assms by (simp add: signed_take_bit_int_eq_self)

lemma sint_small:
  fixes a :: u32
  assumes "unat a < 2147483648"
  shows "sint a = int (unat a)"
proof -
  have u: "uint a = int (unat a)" by (rule uint_nat)
  have "sint a = signed_take_bit 31 (uint a)" by (simp add: sint_uint)
  also have "\<dots> = uint a" by (rule signed31_id) (use assms u in linarith)+
  finally show ?thesis unfolding u .
qed

lemma sint_gap:
  fixes a b :: u32
  assumes "unat a < 2147483648" "unat b < 2147483648"
  shows "sint (a - b) = int (unat a) - int (unat b)"
proof -
  have "sint (a - b) = signed_take_bit 31 (sint a - sint b)"
    by (simp add: sint_word_ariths)
  also have "\<dots> = signed_take_bit 31 (int (unat a) - int (unat b))"
    unfolding sint_small [OF assms(1)] sint_small [OF assms(2)] ..
  also have "\<dots> = int (unat a) - int (unat b)"
    by (rule signed31_id) (use assms in linarith)+
  finally show ?thesis .
qed

definition seg_start :: "u32 \<Rightarrow> tcpinfo \<Rightarrow> nat" where
  "seg_start base ti = unat (OFFSET_SEQ base (ti_uiSeqNum ti))"

definition seg_len :: "tcpinfo \<Rightarrow> nat" where "seg_len ti = unat (ti_uiDataSize ti)"

text \<open>The comparison of the interval of \<open>nl\<close> positions from \<open>ns\<close> with that of \<open>ol\<close> from \<open>os\<close>, and the
  number of positions they share.\<close>

fun retrans_ref :: "nat \<Rightarrow> nat \<Rightarrow> nat \<Rightarrow> nat \<Rightarrow> retrans \<times> nat" where
  "retrans_ref ns nl os ol =
     (if os + ol \<le> ns then (DEF_NORETRANS_OVER, 0)
      else if ns + nl \<le> os then (DEF_NORETRANS_UNDER, 0)
      else if os \<le> ns then
        (if ns + nl \<le> os + ol then (DEF_RETRANS_SUBSET, nl) else (DEF_RETRANS_OVER, os + ol - ns))
      else if ns + nl \<le> os + ol then (DEF_RETRANS_UNDER, ns + nl - os)
      else (DEF_RETRANS_RSUBSET, ol))"

text \<open>What is left of the new segment.\<close>

definition retrans_cut :: "retrans \<Rightarrow> nat \<Rightarrow> tcpinfo \<Rightarrow> tcpinfo" where
  "retrans_cut r n ti = (case r of
     DEF_RETRANS_OVER \<Rightarrow> tcpinfo_skip ti (int n)
   | DEF_RETRANS_UNDER \<Rightarrow> ti\<lparr>ti_uiDataSize := ti_uiDataSize ti - of_nat n\<rparr>
   | _ \<Rightarrow> ti)"

text \<open>The word comparisons of two segments at \<open>a\<close> and \<open>b\<close> that end below \<open>2 ^ 31\<close>.\<close>

lemma seg_words:
  fixes a b l len :: u32
  assumes A: "0 < unat l" "unat a + unat l < 2147483648" "0 < unat len" "unat b + unat len < 2147483648"
  shows "b + len - 1 < a \<longleftrightarrow> unat b + unat len \<le> unat a"
    and "a + l - 1 < b \<longleftrightarrow> unat a + unat l \<le> unat b"
    and "sint (a - b) = 0 \<longleftrightarrow> unat a = unat b"
    and "sint (a - b) < 0 \<longleftrightarrow> unat a < unat b"
    and "sint (a + l - 1 - (b + len - 1)) \<le> 0 \<longleftrightarrow> unat a + unat l \<le> unat b + unat len"
    and "sint l = int (unat l)" "sint len = int (unat len)"
    and "unat a < unat b + unat len \<Longrightarrow> sint (b + len - 1 - a + 1) = int (unat b + unat len) - int (unat a)"
    and "unat b < unat a + unat l \<Longrightarrow> sint (a + l - 1 - b + 1) = int (unat a + unat l) - int (unat b)"
proof -
  have ea: "unat (a + l - 1) = unat a + unat l - 1" by (rule unat_seg_end [OF A(1)]) (use A in linarith)
  have eb: "unat (b + len - 1) = unat b + unat len - 1" by (rule unat_seg_end [OF A(3)]) (use A in linarith)
  show "b + len - 1 < a \<longleftrightarrow> unat b + unat len \<le> unat a"
    using A eb unfolding word_less_nat_alt by linarith
  show "a + l - 1 < b \<longleftrightarrow> unat a + unat l \<le> unat b"
    using A ea unfolding word_less_nat_alt by linarith
  have g1: "sint (a - b) = int (unat a) - int (unat b)"
    by (rule sint_gap) (use A in linarith)+
  then show "sint (a - b) = 0 \<longleftrightarrow> unat a = unat b" "sint (a - b) < 0 \<longleftrightarrow> unat a < unat b" by linarith+
  have "sint (a + l - 1 - (b + len - 1)) = int (unat a + unat l) - int (unat b + unat len)"
    using sint_gap [of "a + l - 1" "b + len - 1"] A unfolding ea eb by linarith
  then show "sint (a + l - 1 - (b + len - 1)) \<le> 0 \<longleftrightarrow> unat a + unat l \<le> unat b + unat len" by linarith
  show "sint l = int (unat l)" "sint len = int (unat len)"
    by (rule sint_small; use A in linarith)+
  have u: "unat (b + len) = unat b + unat len" "unat (a + l) = unat a + unat l"
    using unat_add_lem [of b len] unat_add_lem [of a l] A by simp_all
  have e: "b + len - 1 - a + 1 = (b + len) - a" "a + l - 1 - b + 1 = (a + l) - b" by simp_all
  show "sint (b + len - 1 - a + 1) = int (unat b + unat len) - int (unat a)" if "unat a < unat b + unat len"
    unfolding e using sint_gap [of "b + len" a] A that unfolding u by linarith
  show "sint (a + l - 1 - b + 1) = int (unat a + unat l) - int (unat b)" if "unat b < unat a + unat l"
    unfolding e using sint_gap [of "a + l" b] A that unfolding u by linarith
qed

lemma retrans_tree:
  fixes na nb nl nn :: nat
  assumes "\<not> nb + nn \<le> na" "\<not> na + nl \<le> nb"
    and "na < nb + nn \<Longrightarrow> r1 = int (nb + nn) - int na" "nb < na + nl \<Longrightarrow> r2 = int (na + nl) - int nb"
  shows "(if na = nb then if na + nl \<le> nb + nn then P else f (int nn)
          else if na < nb then if na + nl \<le> nb + nn then g r2 else R
          else if na + nl \<le> nb + nn then P else f r1) =
    (if nb \<le> na then if na + nl \<le> nb + nn then P else f (int (nb + nn - na))
     else if na + nl \<le> nb + nn then g (int (na + nl - nb)) else R)"
  using assms by (auto simp: of_nat_diff)

lemma base_tree:
  fixes na nb nl nn :: nat
  assumes "\<not> nb + nn \<le> na" "na < nb + nn \<Longrightarrow> r1 = int (nb + nn) - int na" "0 < nl" "0 < nn"
  shows "(if na + nl \<le> nb then P U
          else if na = nb then if na + nl \<le> nb + nn then P S else f (int nn)
          else if na < nb then if na + nl \<le> nb + nn then P U else f r1
          else if na + nl \<le> nb + nn then P S else f r1) =
    (if nb + nn < na + nl then f (int (nb + nn - na)) else P (if nb \<le> na then S else U))"
  using assms by (auto simp: of_nat_diff)

lemma CalcRetrans_eq:
  assumes "0 < seg_len ti" "seg_start base ti + seg_len ti < 2147483648"
    and "0 < unat len" "unat (OFFSET_SEQ base seq) + unat len < 2147483648"
  shows "CalcRetrans ti base seq len =
    (case retrans_ref (seg_start base ti) (seg_len ti) (unat (OFFSET_SEQ base seq)) (unat len) of
       (r, n) \<Rightarrow> (r, int n, retrans_cut r n ti))"
proof -
  define a where "a = ti_uiSeqNum ti - base"
  define b where "b = seq - base"
  define l where "l = ti_uiDataSize ti"
  have "0 < unat l" "unat a + unat l < 2147483648" "0 < unat len" "unat b + unat len < 2147483648"
    using assms by (simp_all add: a_def b_def l_def seg_start_def seg_len_def)
  note W = seg_words [OF this]
  have base: "CalcRetrans ti base seq len =
     (if unat b + unat len \<le> unat a then (DEF_NORETRANS_OVER, 0, ti)
      else if unat a + unat l \<le> unat b then (DEF_NORETRANS_UNDER, 0, ti)
      else if unat b \<le> unat a then
        (if unat a + unat l \<le> unat b + unat len then (DEF_RETRANS_SUBSET, int (unat l), ti)
         else (DEF_RETRANS_OVER, int (unat b + unat len - unat a), tcpinfo_skip ti (int (unat b + unat len - unat a))))
      else if unat a + unat l \<le> unat b + unat len
      then (DEF_RETRANS_UNDER, int (unat a + unat l - unat b),
            ti\<lparr>ti_uiDataSize := l - word_of_int (int (unat a + unat l - unat b))\<rparr>)
      else (DEF_RETRANS_RSUBSET, int (unat len), ti))"
    unfolding CalcRetrans_def Let_def OFFSET_SEQ_eq a_def [symmetric] b_def [symmetric] l_def [symmetric] W(1-7)
    apply (rule if_cong [OF refl refl])
    apply (rule if_cong [OF refl refl])
    apply (rule retrans_tree [where f = "\<lambda>r. (DEF_RETRANS_OVER, r, tcpinfo_skip ti r)"
        and g = "\<lambda>r. (DEF_RETRANS_UNDER, r, ti\<lparr>ti_uiDataSize := l - word_of_int r\<rparr>)"])
    using W(8,9) by simp_all
  show ?thesis
    unfolding base retrans_ref.simps seg_start_def seg_len_def OFFSET_SEQ_eq a_def [symmetric] b_def [symmetric] l_def [symmetric]
    by (simp add: retrans_cut_def l_def)
qed

text \<open>\<open>CalcBase\<close> compares with all that was handed on: up to the end of the last segment.\<close>

lemma CalcBase_eq:
  assumes "0 < seg_len ti" "seg_start base ti + seg_len ti < 2147483648"
    and "0 < unat len" "unat (OFFSET_SEQ base seq) + unat len < 2147483648"
  shows "CalcBase ti base seq len =
    (let ns = seg_start base ti; nl = seg_len ti; os = unat (OFFSET_SEQ base seq); nx = os + unat len in
     if nx \<le> ns then (DEF_NORETRANS_OVER, 0, ti)
     else if nx < ns + nl then (DEF_RETRANS_OVER, int (nx - ns), tcpinfo_skip ti (int (nx - ns)))
     else (if os \<le> ns then DEF_RETRANS_SUBSET else DEF_RETRANS_UNDER, int nl, ti))"
proof -
  define a where "a = ti_uiSeqNum ti - base"
  define b where "b = seq - base"
  define l where "l = ti_uiDataSize ti"
  have A: "0 < unat l" "unat a + unat l < 2147483648" "0 < unat len" "unat b + unat len < 2147483648"
    using assms by (simp_all add: a_def b_def l_def seg_start_def seg_len_def)
  note W = seg_words [OF A]
  show ?thesis
    unfolding CalcBase_def Let_def seg_start_def seg_len_def OFFSET_SEQ_eq a_def [symmetric] b_def [symmetric] l_def [symmetric] W(1-7)
    apply (rule if_cong [OF refl refl])
    apply (rule base_tree [where f = "\<lambda>r. (DEF_RETRANS_OVER, r, tcpinfo_skip ti r)"])
    using W(8) A by simp_all
qed

section \<open>Segments as sets of positions\<close>

definition segment :: "u32 \<Rightarrow> tcpinfo \<Rightarrow> nat set" where
  "segment base ti = {seg_start base ti ..< seg_start base ti + seg_len ti}"

text \<open>Where the captured byte of a position lies.\<close>

definition seg_byte :: "u32 \<Rightarrow> tcpinfo \<Rightarrow> nat \<Rightarrow> offset" where
  "seg_byte base ti p = ti_uiSOffset ti + (int p - int (seg_start base ti))"

lemma unat_of_nat32: "n < 4294967296 \<Longrightarrow> unat (of_nat n :: u32) = n"
  by (simp add: unat_of_nat)

lemma unat_add_of_nat:
  fixes a :: u32
  assumes "unat a + n < 4294967296"
  shows "unat (a + of_nat n) = unat a + n"
  using assms unat_add_lem [of a "of_nat n"] by (simp add: unat_of_nat32)

lemma unat_sub_of_nat:
  fixes a :: u32
  assumes "n \<le> unat a"
  shows "unat (a - of_nat n) = unat a - n"
proof -
  have "n < 4294967296" using assms unsigned_less [of a, where 'a = nat] by simp
  then have "unat (of_nat n :: u32) = n" by (rule unat_of_nat32)
  then show ?thesis using assms by (simp add: unat_sub word_le_nat_alt)
qed

lemma tcpinfo_skip_seg:
  assumes "n \<le> seg_len ti" "seg_start base ti + seg_len ti < 2147483648"
  shows "seg_start base (tcpinfo_skip ti (int n)) = seg_start base ti + n"
    "seg_len (tcpinfo_skip ti (int n)) = seg_len ti - n"
    "seg_byte base (tcpinfo_skip ti (int n)) p = seg_byte base ti p"
proof -
  have e: "ti_uiSeqNum ti + of_nat n - base = (ti_uiSeqNum ti - base) + of_nat n" by simp
  show s: "seg_start base (tcpinfo_skip ti (int n)) = seg_start base ti + n"
    unfolding seg_start_def tcpinfo_skip_def OFFSET_SEQ_eq
    using unat_add_of_nat [of "ti_uiSeqNum ti - base" n] assms by (simp add: e seg_start_def)
  show "seg_len (tcpinfo_skip ti (int n)) = seg_len ti - n"
    using unat_sub_of_nat [of n "ti_uiDataSize ti"] assms by (simp add: seg_len_def tcpinfo_skip_def)
  show "seg_byte base (tcpinfo_skip ti (int n)) p = seg_byte base ti p"
    by (simp add: seg_byte_def s) (simp add: tcpinfo_skip_def)
qed

lemma tcpinfo_cut_seg:
  assumes "n \<le> seg_len ti"
  shows "seg_start base (ti\<lparr>ti_uiDataSize := ti_uiDataSize ti - of_nat n\<rparr>) = seg_start base ti"
    "seg_len (ti\<lparr>ti_uiDataSize := ti_uiDataSize ti - of_nat n\<rparr>) = seg_len ti - n"
    "seg_byte base (ti\<lparr>ti_uiDataSize := ti_uiDataSize ti - of_nat n\<rparr>) p = seg_byte base ti p"
  using unat_sub_of_nat [of n "ti_uiDataSize ti"] assms by (simp_all add: seg_start_def seg_len_def seg_byte_def)

text \<open>A segment that ends below half of the sequence space; the code compares only such ones right.\<close>

definition seg_ok :: "u32 \<Rightarrow> tcpinfo \<Rightarrow> bool" where
  "seg_ok base ti \<longleftrightarrow> 0 < seg_len ti \<and> seg_start base ti + seg_len ti < 2147483648"

text \<open>\<open>CalcRetrans\<close> case by case: what is shared, and what the new segment is left with.\<close>

lemma card_segment_Int:
  "card (segment base ti \<inter> segment base old) =
     min (seg_start base ti + seg_len ti) (seg_start base old + seg_len old) - max (seg_start base ti) (seg_start base old)"
  by (simp add: segment_def)

lemma CalcRetrans_old:
  assumes "seg_ok base ti" "seg_ok base old"
  shows "CalcRetrans ti base (ti_uiSeqNum old) (ti_uiDataSize old) =
    (case retrans_ref (seg_start base ti) (seg_len ti) (seg_start base old) (seg_len old) of
       (r, n) \<Rightarrow> (r, int n, retrans_cut r n ti))"
  using CalcRetrans_eq [of ti base "ti_uiDataSize old" "ti_uiSeqNum old"] assms
  by (simp add: seg_ok_def seg_start_def seg_len_def)

lemma CalcRetrans_segment:
  assumes "seg_ok base ti" "seg_ok base old" "CalcRetrans ti base (ti_uiSeqNum old) (ti_uiDataSize old) = (k, n, ti')"
  shows "n = int (card (segment base ti \<inter> segment base old))"
    and "k = DEF_RETRANS_SUBSET \<longleftrightarrow> segment base ti \<subseteq> segment base old"
    and "k = DEF_RETRANS_RSUBSET \<longleftrightarrow> seg_start base ti < seg_start base old \<and>
       seg_start base old + seg_len old < seg_start base ti + seg_len ti"
    and "k = DEF_RETRANS_SUBSET \<or> k = DEF_RETRANS_RSUBSET \<Longrightarrow> ti' = ti"
    and "k \<noteq> DEF_RETRANS_SUBSET \<Longrightarrow> k \<noteq> DEF_RETRANS_RSUBSET \<Longrightarrow>
       segment base ti' = segment base ti - segment base old \<and> seg_ok base ti' \<and>
       (\<forall>p. seg_byte base ti' p = seg_byte base ti p)"
    and "retrans_over k \<Longrightarrow> seg_start base old + seg_len old \<le> seg_start base ti'"
    and "k = DEF_NORETRANS_UNDER \<or> k = DEF_RETRANS_UNDER \<Longrightarrow> seg_start base ti' + seg_len ti' \<le> seg_start base old"
proof -
  define ns nl os ol where d: "ns = seg_start base ti" "nl = seg_len ti" "os = seg_start base old" "ol = seg_len old"
  have ok: "0 < nl" "ns + nl < 2147483648" "0 < ol" "os + ol < 2147483648"
    using assms(1,2) by (simp_all add: seg_ok_def d)
  obtain r where r: "retrans_ref ns nl os ol = (k, r)" "n = int r" "ti' = retrans_cut k r ti"
    using assms(3) unfolding CalcRetrans_old [OF assms(1,2)] d by (auto split: prod.splits)
  show "n = int (card (segment base ti \<inter> segment base old))"
    using r(1) ok unfolding r(2) card_segment_Int d [symmetric] by (auto split: if_splits)
  have sub: "segment base ti \<subseteq> segment base old \<longleftrightarrow> os \<le> ns \<and> ns + nl \<le> os + ol"
    using ok unfolding segment_def d [symmetric] by (auto simp: atLeastLessThan_subset_iff)
  show "k = DEF_RETRANS_SUBSET \<longleftrightarrow> segment base ti \<subseteq> segment base old"
    using r(1) ok unfolding sub by (auto split: if_splits)
  show "k = DEF_RETRANS_RSUBSET \<longleftrightarrow> seg_start base ti < seg_start base old \<and>
       seg_start base old + seg_len old < seg_start base ti + seg_len ti"
    using r(1) ok unfolding d [symmetric] by (auto split: if_splits)
  show "ti' = ti" if "k = DEF_RETRANS_SUBSET \<or> k = DEF_RETRANS_RSUBSET"
    using that unfolding r(3) by (auto simp: retrans_cut_def)
  have lb: "((k = DEF_NORETRANS_OVER \<and> os + ol \<le> ns \<or> k = DEF_NORETRANS_UNDER \<and> ns + nl \<le> os) \<and> ti' = ti \<or>
      k = DEF_RETRANS_OVER \<and> os \<le> ns \<and> ns < os + ol \<and> os + ol < ns + nl \<and>
        seg_start base ti' = os + ol \<and> seg_len ti' = ns + nl - (os + ol) \<or>
      k = DEF_RETRANS_UNDER \<and> ns < os \<and> os < ns + nl \<and> ns + nl \<le> os + ol \<and> seg_start base ti' = ns \<and> seg_len ti' = os - ns) \<and>
      (\<forall>p. seg_byte base ti' p = seg_byte base ti p)"
    if k: "k \<noteq> DEF_RETRANS_SUBSET" "k \<noteq> DEF_RETRANS_RSUBSET"
  proof -
    consider "k = DEF_NORETRANS_OVER" "os + ol \<le> ns" | "k = DEF_NORETRANS_UNDER" "ns + nl \<le> os"
      | "k = DEF_RETRANS_OVER" "r = os + ol - ns" "os \<le> ns" "ns < os + ol" "os + ol < ns + nl"
      | "k = DEF_RETRANS_UNDER" "r = ns + nl - os" "ns < os" "os < ns + nl" "ns + nl \<le> os + ol"
      using r(1) k by (auto split: if_splits)
    then show ?thesis
    proof cases
      case 3
      have "r \<le> seg_len ti" "seg_start base ti + seg_len ti < 2147483648" using 3 ok d by simp_all
      from tcpinfo_skip_seg [OF this] show ?thesis using 3 d unfolding r(3) by (simp add: retrans_cut_def)
    next
      case 4
      have "r \<le> seg_len ti" using 4 d by simp
      from tcpinfo_cut_seg [OF this] show ?thesis using 4 d unfolding r(3) by (simp add: retrans_cut_def)
    qed (simp_all add: r(3) retrans_cut_def)
  qed
  note left = conjunct1 [OF lb] and bytes = conjunct2 [OF lb]
  show "segment base ti' = segment base ti - segment base old \<and> seg_ok base ti' \<and>
       (\<forall>p. seg_byte base ti' p = seg_byte base ti p)"
    if k: "k \<noteq> DEF_RETRANS_SUBSET" "k \<noteq> DEF_RETRANS_RSUBSET"
    using left [OF k] bytes [OF k] ok unfolding segment_def seg_ok_def by (elim disjE) (auto simp: d)
  show "seg_start base old + seg_len old \<le> seg_start base ti'" if "retrans_over k"
    using left that ok unfolding retrans_over_def by (auto simp: d)
  show "seg_start base ti' + seg_len ti' \<le> seg_start base old" if "k = DEF_NORETRANS_UNDER \<or> k = DEF_RETRANS_UNDER"
    using left that ok by (auto simp: d)
qed

text \<open>\<open>CalcBase\<close> keeps what lies above the end \<open>nx\<close> of the data handed on.\<close>

lemma CalcBase_segment:
  assumes "seg_ok base ti" "0 < unat len" "nx = unat (OFFSET_SEQ base seq) + unat len" "nx < 2147483648"
    "CalcBase ti base seq len = (k, n, ti')"
  shows "n = int (card (segment base ti \<inter> {..<nx}))"
    and "retrans_over k \<longleftrightarrow> \<not> segment base ti \<subseteq> {..<nx}"
    and "retrans_over k \<Longrightarrow> segment base ti' = segment base ti - {..<nx} \<and> seg_ok base ti' \<and> nx \<le> seg_start base ti' \<and>
       (\<forall>p. seg_byte base ti' p = seg_byte base ti p)"
    and "\<not> retrans_over k \<Longrightarrow> ti' = ti"
proof -
  define ns nl where d: "ns = seg_start base ti" "nl = seg_len ti"
  have ok: "0 < nl" "ns + nl < 2147483648" using assms(1) by (simp_all add: seg_ok_def d)
  have run: "(if nx \<le> ns then (DEF_NORETRANS_OVER, 0, ti)
     else if nx < ns + nl then (DEF_RETRANS_OVER, int (nx - ns), tcpinfo_skip ti (int (nx - ns)))
     else (if unat (OFFSET_SEQ base seq) \<le> ns then DEF_RETRANS_SUBSET else DEF_RETRANS_UNDER, int nl, ti)) = (k, n, ti')"
    using CalcBase_eq [of ti base len seq] assms by (simp add: seg_ok_def d Let_def)
  have card: "card (segment base ti \<inter> {..<nx}) = min (ns + nl) nx - ns"
  proof -
    have "segment base ti \<inter> {..<nx} = {ns..<min (ns + nl) nx}" by (auto simp: segment_def d)
    then show ?thesis by simp
  qed
  have sub: "segment base ti \<subseteq> {..<nx} \<longleftrightarrow> ns + nl \<le> nx"
  proof
    assume "segment base ti \<subseteq> {..<nx}"
    then have "ns + nl - 1 \<in> {..<nx}" using ok unfolding segment_def d [symmetric] by (rule_tac subsetD) auto
    then show "ns + nl \<le> nx" by auto
  qed (auto simp: segment_def d)
  show "n = int (card (segment base ti \<inter> {..<nx}))"
    using run ok unfolding card by (auto split: if_splits)
  show "retrans_over k \<longleftrightarrow> \<not> segment base ti \<subseteq> {..<nx}"
    using run ok unfolding sub by (auto simp: retrans_over_def split: if_splits)
  show "ti' = ti" if "\<not> retrans_over k"
    using run that by (auto simp: retrans_over_def split: if_splits)
  show "segment base ti' = segment base ti - {..<nx} \<and> seg_ok base ti' \<and> nx \<le> seg_start base ti' \<and>
       (\<forall>p. seg_byte base ti' p = seg_byte base ti p)" if "retrans_over k"
  proof (cases "nx \<le> ns")
    case True
    then show ?thesis using run assms(1) by (auto simp: segment_def d)
  next
    case False
    then have r: "nx < ns + nl" "ti' = tcpinfo_skip ti (int (nx - ns))"
      using run that by (auto simp: retrans_over_def split: if_splits)
    have "nx - ns \<le> seg_len ti" "seg_start base ti + seg_len ti < 2147483648" using r ok by (simp_all add: d)
    note skip = tcpinfo_skip_seg [OF this]
    have "seg_start base ti' = nx" "seg_len ti' = ns + nl - nx"
      unfolding r(2) skip using False r(1) by (simp_all add: d)
    then show ?thesis using r skip(3) False ok by (auto simp: segment_def seg_ok_def d)
  qed
qed

section \<open>Properties\<close>

text \<open>C8: \<open>CalcRetrans\<close>, with its comparisons of signed gaps, computes the comparison \<open>retrans_ref\<close> of two
  intervals of positions: the kind of overlap, the number of shared positions, and the new segment with
  just those positions taken off (from its front or its end; none when one segment lies in the other),
  wherever the sequence numbers of the session wrap.\<close>

theorem CalcRetrans_intervals:
  assumes "seg_ok base ti" "seg_ok base old"
  shows "\<exists>k ti'. CalcRetrans ti base (ti_uiSeqNum old) (ti_uiDataSize old) = (k, int (card (segment base ti \<inter> segment base old)), ti') \<and>
    k = fst (retrans_ref (seg_start base ti) (seg_len ti) (seg_start base old) (seg_len old)) \<and>
    (k = DEF_RETRANS_SUBSET \<longleftrightarrow> segment base ti \<subseteq> segment base old) \<and>
    (if k = DEF_RETRANS_SUBSET \<or> k = DEF_RETRANS_RSUBSET then ti' = ti
     else segment base ti' = segment base ti - segment base old \<and> seg_ok base ti' \<and> seg_byte base ti' = seg_byte base ti)"
proof -
  obtain k n ti' where c: "CalcRetrans ti base (ti_uiSeqNum old) (ti_uiDataSize old) = (k, n, ti')"
    by (cases "CalcRetrans ti base (ti_uiSeqNum old) (ti_uiDataSize old)") auto
  note C = CalcRetrans_segment [OF assms c]
  have "k = fst (retrans_ref (seg_start base ti) (seg_len ti) (seg_start base old) (seg_len old))"
    using c unfolding CalcRetrans_old [OF assms] by (auto split: prod.splits)
  then show ?thesis
    using C(1,2,4,5) c by (intro exI [of _ k] exI [of _ ti']) (auto simp: fun_eq_iff)
qed

definition seg_demo :: "u32 \<Rightarrow> u32 \<Rightarrow> tcpinfo" where
  "seg_demo n len = \<lparr>ti_uiDataSize = len, ti_uiSrvIP = 0, ti_uiCliIP = 0, ti_usSrvPort = 0, ti_usCliPort = 0,
     ti_uiSeqNum = n, ti_uiAckNum = 0, ti_uiSOffset = 54, ti_uiCapTime = 0, ti_uiCapMTime = 0, ti_uiAckTime = 0,
     ti_uiAckMTime = 0, ti_usAppCode = 0, ti_usL4Code = 0, ti_usL7Code = 0, ti_usL4FailCode = 0, ti_ucRtx = 1,
     ti_cTcpFlag = 0, ti_cRetrans = 0, ti_ucProtocol = 6, ti_ucTcpClientStatus = 0, ti_ucTcpServerStatus = 0,
     ti_cnt = ipcnt_zero\<rparr>"

lemma seg_demo_ok:
  "seg_ok 0xffffffc0 (seg_demo 8 50)" "seg_ok 0xffffffc0 (seg_demo 0xffffffe8 50)"
  "segment 0xffffffc0 (seg_demo 8 50) = {72..<122}" "segment 0xffffffc0 (seg_demo 0xffffffe8 50) = {40..<90}"
  by (simp_all add: seg_ok_def segment_def seg_start_def seg_len_def seg_demo_def)

theorem CalcRetrans_intervals_witness:
  "\<exists>ti'. CalcRetrans (seg_demo 8 50) 0xffffffc0 0xffffffe8 50 = (DEF_RETRANS_OVER, 18, ti') \<and>
     segment 0xffffffc0 ti' = {90..<122}"
proof -
  have r: "fst (retrans_ref (seg_start 0xffffffc0 (seg_demo 8 50)) (seg_len (seg_demo 8 50))
      (seg_start 0xffffffc0 (seg_demo 0xffffffe8 50)) (seg_len (seg_demo 0xffffffe8 50))) = DEF_RETRANS_OVER"
    by (simp add: seg_start_def seg_len_def seg_demo_def)
  have d: "ti_uiSeqNum (seg_demo 0xffffffe8 50) = 0xffffffe8" "ti_uiDataSize (seg_demo 0xffffffe8 50) = 50"
    by (simp_all add: seg_demo_def)
  have s: "{72..<122} \<inter> {40..<90} = {72..<90::nat}" "{72..<122} - {40..<90} = {90..<122::nat}" by auto
  show ?thesis
    using CalcRetrans_intervals [OF seg_demo_ok(1,2)] unfolding r d seg_demo_ok(3,4) s by auto
qed

text \<open>C34: \<open>CalcBase\<close> takes off exactly the positions below the next one to hand on: the count is their number,
  within the size of the segment, the answer says whether positions are left, and the segment that is left
  lies above, with every position at the byte it had.\<close>

theorem CalcBase_bounds:
  assumes "seg_ok base ti" "0 < unat len" "nx = unat (OFFSET_SEQ base seq) + unat len" "nx < 2147483648"
  shows "\<exists>k n ti'. CalcBase ti base seq len = (k, n, ti') \<and> n = int (card (segment base ti \<inter> {..<nx})) \<and>
    0 \<le> n \<and> n \<le> int (seg_len ti) \<and> (retrans_over k \<longleftrightarrow> \<not> segment base ti \<subseteq> {..<nx}) \<and>
    (if retrans_over k then segment base ti' = segment base ti - {..<nx} \<and> nx \<le> seg_start base ti' \<and>
       seg_byte base ti' = seg_byte base ti else ti' = ti)"
proof -
  obtain k n ti' where c: "CalcBase ti base seq len = (k, n, ti')" by (cases "CalcBase ti base seq len") auto
  note C = CalcBase_segment [OF assms c]
  have "card (segment base ti \<inter> {..<nx}) \<le> card (segment base ti)" by (intro card_mono) (auto simp: segment_def)
  then have "n \<le> int (seg_len ti)" using C(1) by (simp add: segment_def)
  then show ?thesis
    using c C by (intro exI [of _ k] exI [of _ n] exI [of _ ti']) (auto simp: fun_eq_iff)
qed

theorem CalcBase_bounds_witness:
  "\<exists>k ti'. CalcBase (seg_demo 0xffffffe8 50) 0xffffffc0 0xfffffff0 10 = (k, 18, ti') \<and> segment 0xffffffc0 ti' = {58..<90}"
proof -
  have n: "(58::nat) = unat (OFFSET_SEQ 0xffffffc0 0xfffffff0) + unat (10 :: u32)" by simp
  have s: "{40..<90} \<inter> {..<58} = {40..<58::nat}" "{40..<90} - {..<58} = {58..<90::nat}" "\<not> {40..<90} \<subseteq> {..<58::nat}"
    using subsetD [of "{40..<90}" "{..<58::nat}" 60] by auto
  show ?thesis
    using CalcBase_bounds [OF seg_demo_ok(2) _ n] s(3) unfolding seg_demo_ok(4) s(1,2) by (auto split: if_splits)
qed

end
