(* ===== verification/TcpPlace.thy ===== *)
theory TcpPlace
  imports TcpSeq TcpData
begin

text \<open>
  The insertion of a packet into the packets that wait: \<^verbatim>\<open>dInsertTCPData\<close> on the linked nodes is an
  insertion \<open>tcp_place\<close> into a list of segments, which keeps the segments apart and in order and adds
  exactly the positions of the new segment that were not handed on yet.
\<close>

section \<open>Insertion into a list\<close>

text \<open>A packet is its message \<open>'a\<close> and its structure. The first argument list is reversed: it holds the
  packets that are still to be compared, the last one first; the second holds those behind them.\<close>

fun tcp_place ::
  "tcpsess \<Rightarrow> tcp_dir \<Rightarrow> 'a \<Rightarrow> tcpinfo \<Rightarrow> ('a \<times> tcpinfo) list \<Rightarrow> ('a \<times> tcpinfo) list \<Rightarrow> int \<Rightarrow> ('a \<times> tcpinfo) list \<times> int" where
  "tcp_place sess d n ti [] post del =
     (let (k, r, ti1) = tcp_calc_base sess d ti in
      (if retrans_over k then (n, tcp_acked sess d ti1) # post else post, del + r))"
| "tcp_place sess d n ti (q # rqs) post del =
     (let (k, r, ti1) = CalcRetrans ti (dir_base sess d) (ti_uiSeqNum (snd q)) (ti_uiDataSize (snd q)) in
      if retrans_over k then (rev rqs @ q # (n, tcp_acked sess d ti1) # post, del + r)
      else if k = DEF_RETRANS_SUBSET then (rev rqs @ q # post, del + r)
      else
        let ti2 = tcp_inherit (snd q) ti1; post1 = (if k = DEF_RETRANS_RSUBSET then post else q # post) in
        if rqs = [] then
          (let (k2, r2, ti3) = tcp_calc_base sess d ti2 in
           (if k = DEF_RETRANS_RSUBSET \<or> retrans_over k2 then (n, ti3) # post1 else post1, del + r + r2))
        else tcp_place sess d n ti2 rqs post1 (del + r + r))"

text \<open>The position up to which the data of a direction was handed on.\<close>

definition dir_pos :: "tcpsess \<Rightarrow> tcp_dir \<Rightarrow> nat" where
  "dir_pos sess d = unat (OFFSET_SEQ (dir_base sess d) (dir_last sess d)) + unat (dir_next sess d - dir_last sess d)"

definition dir_ok :: "tcpsess \<Rightarrow> tcp_dir \<Rightarrow> bool" where
  "dir_ok sess d \<longleftrightarrow> dir_last sess d \<noteq> dir_next sess d \<and> dir_pos sess d < 2147483648"

text \<open>The packets that wait lie above that position, apart and in order.\<close>

definition seg_before :: "u32 \<Rightarrow> tcpinfo \<Rightarrow> tcpinfo \<Rightarrow> bool" where
  "seg_before base t u \<longleftrightarrow> seg_start base t + seg_len t \<le> seg_start base u"

definition tcp_ordered :: "u32 \<Rightarrow> nat \<Rightarrow> ('a \<times> tcpinfo) list \<Rightarrow> bool" where
  "tcp_ordered base nx qs \<longleftrightarrow> (\<forall>t \<in> snd ` set qs. seg_ok base t \<and> nx \<le> seg_start base t) \<and>
     sorted_wrt (\<lambda>p q. seg_before base (snd p) (snd q)) qs"

definition tcp_covered :: "u32 \<Rightarrow> ('a \<times> tcpinfo) list \<Rightarrow> nat set" where
  "tcp_covered base qs = (\<Union>q \<in> set qs. segment base (snd q))"

lemma tcp_covered_simps [simp]:
  "tcp_covered base [] = {}" "tcp_covered base (q # qs) = segment base (snd q) \<union> tcp_covered base qs"
  "tcp_covered base (qs @ rs) = tcp_covered base qs \<union> tcp_covered base rs" "tcp_covered base (rev qs) = tcp_covered base qs"
  by (auto simp: tcp_covered_def)

text \<open>Times of acknowledgement do not matter for the positions.\<close>

lemma tcp_times [simp]:
  "seg_start base (tcp_acked sess d t) = seg_start base t" "seg_len (tcp_acked sess d t) = seg_len t"
  "ti_uiSOffset (tcp_acked sess d t) = ti_uiSOffset t"
  "seg_start base (tcp_inherit u t) = seg_start base t" "seg_len (tcp_inherit u t) = seg_len t"
  "ti_uiSOffset (tcp_inherit u t) = ti_uiSOffset t"
  by (simp_all add: tcp_acked_def tcp_inherit_def seg_start_def seg_len_def split: prod.splits)

lemma tcp_times_seg [simp]:
  "segment base (tcp_acked sess d t) = segment base t" "segment base (tcp_inherit u t) = segment base t"
  "seg_ok base (tcp_acked sess d t) = seg_ok base t" "seg_ok base (tcp_inherit u t) = seg_ok base t"
  "seg_byte base (tcp_acked sess d t) = seg_byte base t" "seg_byte base (tcp_inherit u t) = seg_byte base t"
  "seg_before base (tcp_acked sess d t) = seg_before base t" "seg_before base (tcp_inherit u t) = seg_before base t"
  "seg_before base v (tcp_acked sess d t) = seg_before base v t" "seg_before base v (tcp_inherit u t) = seg_before base v t"
  by (simp_all add: segment_def seg_ok_def seg_byte_def seg_before_def fun_eq_iff)

lemma tcp_calc_base_ok:
  assumes "dir_ok sess d" "seg_ok (dir_base sess d) t" "tcp_calc_base sess d t = (k, r, t')"
  shows "retrans_over k \<longleftrightarrow> \<not> segment (dir_base sess d) t \<subseteq> {..<dir_pos sess d}"
    and "retrans_over k \<Longrightarrow> segment (dir_base sess d) t' = segment (dir_base sess d) t - {..<dir_pos sess d} \<and>
       seg_ok (dir_base sess d) t' \<and> dir_pos sess d \<le> seg_start (dir_base sess d) t' \<and>
       (\<forall>p. seg_byte (dir_base sess d) t' p = seg_byte (dir_base sess d) t p)"
    and "\<not> retrans_over k \<Longrightarrow> t' = t"
proof -
  have "0 < unat (dir_next sess d - dir_last sess d)" using assms(1) by (auto simp: dir_ok_def unat_gt_0)
  note base = CalcBase_segment [OF assms(2) this dir_pos_def, of k r t']
  show "retrans_over k \<longleftrightarrow> \<not> segment (dir_base sess d) t \<subseteq> {..<dir_pos sess d}"
    and "retrans_over k \<Longrightarrow> segment (dir_base sess d) t' = segment (dir_base sess d) t - {..<dir_pos sess d} \<and>
       seg_ok (dir_base sess d) t' \<and> dir_pos sess d \<le> seg_start (dir_base sess d) t' \<and>
       (\<forall>p. seg_byte (dir_base sess d) t' p = seg_byte (dir_base sess d) t p)"
    and "\<not> retrans_over k \<Longrightarrow> t' = t"
    using base assms(1,3) by (simp_all add: dir_ok_def tcp_calc_base_def)
qed

lemma segment_le:
  assumes "seg_ok base t'" "segment base t' \<subseteq> segment base t"
  shows "seg_start base t \<le> seg_start base t'" "seg_start base t' + seg_len t' \<le> seg_start base t + seg_len t"
  using atLeastLessThan_subset_iff [OF assms(2) [unfolded segment_def]] assms(1) by (auto simp: seg_ok_def)

lemma tcp_orderedD:
  assumes "tcp_ordered base nx qs" "q \<in> set qs"
  shows "seg_ok base (snd q)" "nx \<le> seg_start base (snd q)" "segment base (snd q) \<inter> {..<nx} = {}"
  using assms by (auto simp: tcp_ordered_def segment_def)

lemma tcp_ordered_append:
  "tcp_ordered base nx (ps @ qs) \<longleftrightarrow> tcp_ordered base nx ps \<and> tcp_ordered base nx qs \<and>
     (\<forall>p \<in> set ps. \<forall>q \<in> set qs. seg_before base (snd p) (snd q))"
  by (auto simp: tcp_ordered_def sorted_wrt_append)

lemma tcp_ordered_simps [simp]:
  "tcp_ordered base nx []"
  "tcp_ordered base nx (q # qs) \<longleftrightarrow> seg_ok base (snd q) \<and> nx \<le> seg_start base (snd q) \<and>
     (\<forall>p \<in> set qs. seg_before base (snd q) (snd p)) \<and> tcp_ordered base nx qs"
  by (auto simp: tcp_ordered_def)

lemma seg_before_trans: "seg_before base t u \<Longrightarrow> seg_before base u v \<Longrightarrow> seg_before base t v"
  by (simp add: seg_before_def)

lemma seg_before_sub: "seg_ok base t' \<Longrightarrow> segment base t' \<subseteq> segment base t \<Longrightarrow> seg_before base t u \<Longrightarrow> seg_before base t' u"
  using segment_le [of base t' t] by (simp add: seg_before_def)

text \<open>The result of an insertion.\<close>

definition tcp_placed :: "u32 \<Rightarrow> nat \<Rightarrow> 'a \<Rightarrow> tcpinfo \<Rightarrow> ('a \<times> tcpinfo) list \<Rightarrow> ('a \<times> tcpinfo) list \<Rightarrow> bool" where
  "tcp_placed base nx n ti qs qs' \<longleftrightarrow> tcp_ordered base nx qs' \<and>
     tcp_covered base qs' = tcp_covered base qs \<union> (segment base ti - {..<nx}) \<and>
     (\<forall>q \<in> set qs'. q \<in> set qs \<or> fst q = n \<and> segment base (snd q) \<subseteq> segment base ti \<and>
        seg_byte base (snd q) = seg_byte base ti)"

lemma tcp_placed_step:
  assumes "tcp_placed base nx n t' qs qs'" "set qs \<subseteq> set rs" "segment base t' \<subseteq> segment base ti"
    "seg_byte base t' = seg_byte base ti"
    "tcp_covered base qs \<union> (segment base t' - {..<nx}) = tcp_covered base rs \<union> (segment base ti - {..<nx})"
  shows "tcp_placed base nx n ti rs qs'"
  using assms unfolding tcp_placed_def by fastforce

lemma tcp_place_ok:
  assumes "dir_ok sess d" "tcp_ordered (dir_base sess d) (dir_pos sess d) (rev rqs @ post)" "seg_ok (dir_base sess d) ti"
    "\<forall>q \<in> set post. seg_before (dir_base sess d) ti (snd q)"
  shows "tcp_placed (dir_base sess d) (dir_pos sess d) n ti (rev rqs @ post) (fst (tcp_place sess d n ti rqs post del))"
  using assms(2-)
proof (induction rqs arbitrary: ti post del)
  case Nil
  let ?b = "dir_base sess d" and ?nx = "dir_pos sess d"
  obtain k r ti1 where c: "tcp_calc_base sess d ti = (k, r, ti1)" by (cases "tcp_calc_base sess d ti") auto
  note C = tcp_calc_base_ok [OF assms(1) Nil.prems(2) c]
  show ?case
  proof (cases "retrans_over k")
    case True
    note T = C(2) [OF True]
    have "seg_before ?b ti1 (snd q)" if "q \<in> set post" for q
      by (rule seg_before_sub [of _ _ ti]) (use T Nil.prems(3) that in auto)
    then show ?thesis
      using True T Nil.prems c by (auto simp: tcp_placed_def seg_before_def fun_eq_iff)
  next
    case False
    then show ?thesis using C(1) Nil.prems c by (auto simp: tcp_placed_def)
  qed
next
  case (Cons q rqs)
  let ?b = "dir_base sess d" and ?nx = "dir_pos sess d"
  obtain k r ti1 where c: "CalcRetrans ti ?b (ti_uiSeqNum (snd q)) (ti_uiDataSize (snd q)) = (k, r, ti1)"
    by (cases "CalcRetrans ti ?b (ti_uiSeqNum (snd q)) (ti_uiDataSize (snd q))") auto
  have ord: "tcp_ordered ?b ?nx (rev rqs)" "tcp_ordered ?b ?nx post" "seg_ok ?b (snd q)" "?nx \<le> seg_start ?b (snd q)"
    "\<forall>p \<in> set post. seg_before ?b (snd q) (snd p)" "\<forall>p \<in> set rqs. seg_before ?b (snd p) (snd q)"
    "\<forall>p \<in> set rqs. \<forall>p' \<in> set post. seg_before ?b (snd p) (snd p')"
    using Cons.prems(1) by (auto simp: tcp_ordered_append)
  have above: "segment ?b (snd q) \<inter> {..<?nx} = {}" using ord(4) by (auto simp: segment_def)
  note C = CalcRetrans_segment [OF Cons.prems(2) ord(3) c]
  consider (over) "retrans_over k" | (subset) "k = DEF_RETRANS_SUBSET" | (rsubset) "k = DEF_RETRANS_RSUBSET"
    | (under) "k = DEF_NORETRANS_UNDER \<or> k = DEF_RETRANS_UNDER"
    by (cases k) (auto simp: retrans_over_def)
  then show ?case
  proof cases
    case over
    then have T: "segment ?b ti1 = segment ?b ti - segment ?b (snd q)" "seg_ok ?b ti1" "seg_byte ?b ti1 = seg_byte ?b ti"
      "seg_before ?b (snd q) ti1"
      using C(5,6) by (auto simp: retrans_over_def seg_before_def fun_eq_iff)
    have "seg_before ?b ti1 (snd p)" if "p \<in> set post" for p
      by (rule seg_before_sub [of _ _ ti]) (use T Cons.prems(3) that in auto)
    moreover have "seg_before ?b (snd p) ti1" if "p \<in> set rqs" for p
      using seg_before_trans T(4) ord(6) that seg_before_def by (metis add_leE order_trans)
    moreover have nx: "?nx \<le> seg_start ?b ti1" using T(4) ord(4) by (simp add: seg_before_def)
    ultimately have "tcp_ordered ?b ?nx (rev rqs @ q # (n, tcp_acked sess d ti1) # post)"
      using ord T by (auto simp: tcp_ordered_append)
    moreover have "segment ?b ti1 \<inter> {..<?nx} = {}" using nx by (auto simp: segment_def)
    then have "tcp_covered ?b (rev rqs @ q # (n, tcp_acked sess d ti1) # post) =
        tcp_covered ?b (rev (q # rqs) @ post) \<union> (segment ?b ti - {..<?nx})"
      using T(1) above by auto
    ultimately show ?thesis using over c T unfolding tcp_placed_def by auto
  next
    case subset
    then have "\<not> retrans_over k" "segment ?b ti \<subseteq> segment ?b (snd q)" using C(2) by (auto simp: retrans_over_def)
    then show ?thesis using subset c Cons.prems(1) by (auto simp: tcp_placed_def)
  next
    case rsubset
    let ?t = "tcp_inherit (snd q) ti1"
    have T: "ti1 = ti" "segment ?b (snd q) \<subseteq> segment ?b ti" "\<not> retrans_over k"
      using C(3,4) rsubset by (auto simp: retrans_over_def segment_def)
    have ok: "seg_ok ?b ?t" using T(1) Cons.prems(2) by simp
    have cov: "tcp_covered ?b (rev rqs @ post) \<union> (segment ?b ?t - {..<?nx}) =
        tcp_covered ?b (rev (q # rqs) @ post) \<union> (segment ?b ti - {..<?nx})"
      using T(1,2) above by auto
    show ?thesis
    proof (cases "rqs = []")
      case False
      have "tcp_placed ?b ?nx n ?t (rev rqs @ post) (fst (tcp_place sess d n ?t rqs post (del + r + r)))"
        using Cons.prems ord T by (intro Cons.IH) (auto simp: tcp_ordered_append seg_before_def)
      from tcp_placed_step [OF this _ _ _ cov] show ?thesis
        using rsubset c False T by (auto simp: Let_def)
    next
      case True
      obtain k2 r2 ti3 where c2: "tcp_calc_base sess d ?t = (k2, r2, ti3)" by (cases "tcp_calc_base sess d ?t") auto
      note B = tcp_calc_base_ok [OF assms(1) ok c2]
      have "\<not> segment ?b ?t \<subseteq> {..<?nx}"
      proof
        assume "segment ?b ?t \<subseteq> {..<?nx}"
        then have "segment ?b (snd q) = {}" using T above by auto
        then show False using ord(3) by (simp add: segment_def seg_ok_def)
      qed
      then have over: "retrans_over k2" using B(1) by simp
      note B2 = B(2) [OF over]
      have "seg_before ?b ti3 (snd p)" if "p \<in> set post" for p
        by (rule seg_before_sub [of _ _ ti]) (use B2 T Cons.prems(3) that in auto)
      then have "tcp_placed ?b ?nx n ?t post ((n, ti3) # post)"
        using B2 ord by (auto simp: tcp_placed_def fun_eq_iff)
      then show ?thesis
        using tcp_placed_step [OF _ _ _ _ cov, of n "(n, ti3) # post"] rsubset c c2 True T by (auto simp: Let_def)
    qed
  next
    case under
    let ?t = "tcp_inherit (snd q) ti1"
    have T: "segment ?b ti1 = segment ?b ti - segment ?b (snd q)" "seg_ok ?b ti1" "seg_byte ?b ti1 = seg_byte ?b ti"
      "seg_before ?b ti1 (snd q)"
      using C(5,7) under by (auto simp: seg_before_def fun_eq_iff)
    have nk: "\<not> retrans_over k" "k \<noteq> DEF_RETRANS_SUBSET" "k \<noteq> DEF_RETRANS_RSUBSET"
      using under by (auto simp: retrans_over_def)
    have ok: "seg_ok ?b ?t" using T by simp
    have post1: "seg_before ?b ?t (snd p)" if "p \<in> set (q # post)" for p
      using T(4) ord(5) that seg_before_trans [of ?b ti1 "snd q"] by (auto simp: seg_before_def)
    have cov: "tcp_covered ?b (rev rqs @ q # post) \<union> (segment ?b ?t - {..<?nx}) =
        tcp_covered ?b (rev (q # rqs) @ post) \<union> (segment ?b ti - {..<?nx})"
      using T(1) above by auto
    show ?thesis
    proof (cases "rqs = []")
      case False
      have "tcp_placed ?b ?nx n ?t (rev rqs @ q # post) (fst (tcp_place sess d n ?t rqs (q # post) (del + r + r)))"
        using Cons.prems(1) ok post1 by (intro Cons.IH) auto
      from tcp_placed_step [OF this _ _ _ cov] show ?thesis
        using c False T nk by (auto simp: Let_def)
    next
      case True
      obtain k2 r2 ti3 where c2: "tcp_calc_base sess d ?t = (k2, r2, ti3)" by (cases "tcp_calc_base sess d ?t") auto
      note B = tcp_calc_base_ok [OF assms(1) ok c2]
      have "tcp_placed ?b ?nx n ?t (q # post) (if retrans_over k2 then (n, ti3) # q # post else q # post)"
      proof (cases "retrans_over k2")
        case over: True
        note B2 = B(2) [OF over]
        have "seg_before ?b ti3 (snd p)" if "p \<in> set (q # post)" for p
          by (rule seg_before_sub [of _ _ ?t]) (use B2 post1 [OF that] in auto)
        then show ?thesis using over B2 ord by (auto simp: tcp_placed_def fun_eq_iff)
      next
        case False
        then have "segment ?b ?t - {..<?nx} = {}" using B(1) by auto
        then show ?thesis using False ord by (auto simp: tcp_placed_def)
      qed
      then show ?thesis
        using tcp_placed_step [OF _ _ _ _ cov, of n] c c2 True T nk by (auto simp: Let_def)
    qed
  qed
qed


end
