(* ===== verification/TcpInsert.thy ===== *)
theory TcpInsert
  imports TcpPlace NifoBatch
begin

text \<open>
  The pointer code of \<^verbatim>\<open>dInsertTCPData\<close> does what the insertion \<open>tcp_place\<close> into a list of packets does: the
  loop walks the ring of the waiting packets backwards, links the new packet, releases the packets that
  it swallows or the new packet itself, and leaves all other messages of the block as they were.
\<close>

section \<open>The packets in memory\<close>

text \<open>What a step on one packet leaves alone: all but the links, the pool and the structure at \<open>v\<close>.\<close>

definition tcp_same :: "atcp \<Rightarrow> atcp \<Rightarrow> offset \<Rightarrow> bool" where
  "tcp_same s s' v \<longleftrightarrow> nifo_same (tc_nifo s) (tc_nifo s') \<and> tc_cifo s' = tc_cifo s \<and> tc_gifo s' = tc_gifo s \<and>
     tc_cap s' = tc_cap s \<and> tc_eth s' = tc_eth s \<and> tc_log s' = tc_log s \<and> tc_sub s' = tc_sub s \<and>
     (\<forall>a. a \<noteq> v \<longrightarrow> tc_info s' a = tc_info s a)"

lemma tcp_same_refl [simp]: "tcp_same s s v"
  by (simp add: tcp_same_def)

lemma tcp_same_trans: "tcp_same s t v \<Longrightarrow> tcp_same t u v \<Longrightarrow> tcp_same s u v"
  unfolding tcp_same_def by (metis nifo_same_trans)

lemma tcp_same_set_info [simp]: "tcp_same s (tcp_set_info s v t) v"
  by (simp add: tcp_same_def tcp_set_info_def)

lemma tcp_same_nifo: "nifo_same (tc_nifo s) nf \<Longrightarrow> tcp_same s (s\<lparr>tc_nifo := nf\<rparr>) v"
  by (simp add: tcp_same_def)

lemma tcp_same_value: "tcp_same s s' v \<Longrightarrow> tcp_value s' t p = tcp_value s t p"
  using nifo_same_value [of "tc_nifo s" "tc_nifo s'"] by (simp add: tcp_same_def tcp_value_def)

lemma tcp_set_info_simps [simp]:
  "tc_nifo (tcp_set_info s v t) = tc_nifo s" "tc_info (tcp_set_info s v t) v = Some t"
  "a \<noteq> v \<Longrightarrow> tc_info (tcp_set_info s v t) a = tc_info s a" "tcp_value (tcp_set_info s v t) k p = tcp_value s k p"
  by (simp_all add: tcp_set_info_def tcp_value_def)

text \<open>The packets \<open>qs\<close> have their structures, each at an address of its own other than \<open>v\<close>.\<close>

definition tcp_holds :: "tcp_env \<Rightarrow> atcp \<Rightarrow> offset \<Rightarrow> (offset list \<times> tcpinfo) list \<Rightarrow> bool" where
  "tcp_holds e s v qs \<longleftrightarrow>
     (\<forall>q \<in> set qs. \<exists>a. a \<noteq> v \<and> tcp_info_at e s (hd (fst q)) = Some (a, snd q))"

lemma tcp_info_at_same:
  assumes "tcp_same s s' v" "tcp_info_at e s p = Some (a, t)" "a \<noteq> v"
  shows "tcp_info_at e s' p = Some (a, t)"
  using assms tcp_same_value [OF assms(1)]
  by (auto simp: tcp_info_at_def tcp_same_def bind_eq_Some_conv)

lemma tcp_holds_same: "tcp_same s s' v \<Longrightarrow> tcp_holds e s v qs \<Longrightarrow> tcp_holds e s' v qs"
  unfolding tcp_holds_def using tcp_info_at_same by blast

lemma tcp_holds_simps [simp]:
  "tcp_holds e s v []" "tcp_holds e s v (qs @ rs) \<longleftrightarrow> tcp_holds e s v qs \<and> tcp_holds e s v rs"
  "tcp_holds e s v (rev qs) \<longleftrightarrow> tcp_holds e s v qs"
  "tcp_holds e s v (q # qs) \<longleftrightarrow>
     (\<exists>a. a \<noteq> v \<and> tcp_info_at e s (hd (fst q)) = Some (a, snd q)) \<and> tcp_holds e s v qs"
  by (auto simp: tcp_holds_def)

text \<open>The list operations of \<open>nifo\<close> on the state of the process. The messages of the packets \<open>qs\<close> are one
  list of the block, \<open>rest\<close> are other lists.\<close>

abbreviation tcp_lists :: "atcp \<Rightarrow> (offset list \<times> tcpinfo) list \<Rightarrow> offset list list list \<Rightarrow> bool" where
  "tcp_lists s qs rest \<equiv> nifo_lists (tc_nifo s) (map fst qs # rest)"

lemma tcp_link_next_ok:
  assumes "tcp_lists s (ps @ q # qs) ([n] # rest)"
  shows "\<exists>s'. tcp_on_nifo s (\<lambda>nf. nifo_node_link_nont_next nf (hd (fst q)) (hd n)) = Some s' \<and>
    tcp_lists s' (ps @ q # (n, t) # qs) rest \<and> tcp_same s s' v \<and> tc_info s' = tc_info s \<and>
    nf_mems (tc_nifo s') = nf_mems (tc_nifo s)"
proof -
  have "nifo_lists (tc_nifo s) ((map fst ps @ fst q # map fst qs) # [n] # rest)" using assms by simp
  from nifo_link_nont_next_ok [OF this] obtain h where
    "nifo_node_link_nont_next (tc_nifo s) (hd (fst q)) (hd n) = Some (tc_nifo s\<lparr>nf_link := h\<rparr>)"
    "nifo_lists (tc_nifo s\<lparr>nf_link := h\<rparr>) ((map fst ps @ fst q # n # map fst qs) # rest)" by blast
  then show ?thesis by (simp add: tcp_on_nifo_def tcp_same_def)
qed

lemma tcp_link_prev_ok:
  assumes "tcp_lists s (q # qs) ([n] # rest)"
  shows "\<exists>s'. tcp_on_nifo s (\<lambda>nf. nifo_node_link_nont_prev nf (hd (fst q)) (hd n)) = Some s' \<and>
    tcp_lists s' ((n, t) # q # qs) rest \<and> tcp_same s s' v \<and> tc_info s' = tc_info s \<and>
    nf_mems (tc_nifo s') = nf_mems (tc_nifo s)"
proof -
  have "nifo_lists (tc_nifo s) ((fst q # map fst qs) # [n] # rest)" using assms by simp
  from nifo_link_nont_prev_ok [OF this] show ?thesis by (auto simp: tcp_on_nifo_def tcp_same_def)
qed

lemma tcp_delete_ok:
  assumes "nifo_lists (tc_nifo s) ([n] # rest)"
  shows "\<exists>s'. tcp_on_nifo s (\<lambda>nf. nifo_node_delete nf (hd n)) = Some s' \<and> nifo_lists (tc_nifo s') rest \<and>
    tcp_same s s' v \<and> tc_info s' = tc_info s \<and>
    nifo_used (nf_mems (tc_nifo s')) = nifo_used (nf_mems (tc_nifo s)) - set n"
  using nifo_node_delete_ok [OF assms] by (auto simp: tcp_on_nifo_def tcp_same_def)

lemma tcp_unlink_ok:
  assumes "tcp_lists s (ps @ q # qs) rest"
  shows "\<exists>s'. tcp_on_nifo s (\<lambda>nf. nifo_node_unlink_nont nf (hd (fst q))) = Some s' \<and>
    tcp_lists s' (ps @ qs) ([fst q] # rest) \<and> tcp_same s s' v \<and> tc_info s' = tc_info s \<and>
    nf_mems (tc_nifo s') = nf_mems (tc_nifo s)"
proof -
  have "nifo_lists (tc_nifo s) ((map fst ps @ fst q # map fst qs) # rest)" using assms by simp
  from nifo_unlink_nont_ok [OF this] show ?thesis by (auto simp: tcp_on_nifo_def tcp_same_def)
qed

text \<open>A packet that is taken out of the list and released.\<close>

lemma tcp_drop_ok:
  assumes "tcp_lists s (ps @ q # qs) rest"
  shows "\<exists>s1 s'. tcp_on_nifo s (\<lambda>nf. nifo_node_unlink_nont nf (hd (fst q))) = Some s1 \<and>
    tcp_on_nifo s1 (\<lambda>nf. nifo_node_delete nf (hd (fst q))) = Some s' \<and> tcp_lists s' (ps @ qs) rest \<and>
    tcp_same s s' v \<and> tc_info s' = tc_info s \<and>
    nifo_used (nf_mems (tc_nifo s')) = nifo_used (nf_mems (tc_nifo s)) - set (fst q)"
proof -
  obtain s1 where s1: "tcp_on_nifo s (\<lambda>nf. nifo_node_unlink_nont nf (hd (fst q))) = Some s1"
    "tcp_lists s1 (ps @ qs) ([fst q] # rest)" "tcp_same s s1 v" "tc_info s1 = tc_info s"
    "nf_mems (tc_nifo s1) = nf_mems (tc_nifo s)"
    using tcp_unlink_ok [OF assms, of v] by blast
  have "nifo_lists (tc_nifo s1) ([fst q] # map fst (ps @ qs) # rest)"
    by (rule nifo_lists_perm [OF s1(2)]) (use nifo_listsD(4) [OF s1(2)] in auto)
  from tcp_delete_ok [OF this, of v] obtain s2 where s2: "tcp_on_nifo s1 (\<lambda>nf. nifo_node_delete nf (hd (fst q))) = Some s2"
    "tcp_lists s2 (ps @ qs) rest" "tcp_same s1 s2 v" "tc_info s2 = tc_info s1"
    "nifo_used (nf_mems (tc_nifo s2)) = nifo_used (nf_mems (tc_nifo s1)) - set (fst q)"
    by blast
  show ?thesis
    using s1 s2 tcp_same_trans [OF s1(3) s2(3)] by auto
qed


section \<open>The loop\<close>

definition tcp_nodes :: "(offset list \<times> tcpinfo) list \<Rightarrow> offset set" where
  "tcp_nodes qs = set (concat (map fst qs))"

lemma tcp_nodes_simps [simp]:
  "tcp_nodes [] = {}" "tcp_nodes (q # qs) = set (fst q) \<union> tcp_nodes qs" "tcp_nodes (qs @ rs) = tcp_nodes qs \<union> tcp_nodes rs"
  "tcp_nodes (rev qs) = tcp_nodes qs"
  by (auto simp: tcp_nodes_def)

lemma tcp_lists_heads: "tcp_lists s qs rest \<Longrightarrow> distinct (map (\<lambda>q. hd (fst q)) qs)"
proof (cases "qs = []")
  case False
  assume "tcp_lists s qs rest"
  from nifo_listsD(2) [OF this, of "map fst qs"] False
  have "distinct (map nont_of (map fst qs))" by (intro cring_distinct [of "nf_link (tc_nifo s)"]) simp
  then show ?thesis by (simp add: distinct_map inj_on_def)
qed simp

lemma tcp_nodes_used: "tcp_lists s qs rest \<Longrightarrow> tcp_nodes qs \<subseteq> nifo_used (nf_mems (tc_nifo s))"
proof -
  assume "tcp_lists s qs rest"
  from nifo_listsD(5) [OF this] show ?thesis unfolding tcp_nodes_def by simp
qed

lemma tcp_nodes_apart:
  assumes "tcp_lists s (ps @ q # qs) rest"
  shows "set (fst q) \<inter> (tcp_nodes ps \<union> tcp_nodes qs) = {}"
  using nifo_listsD(4) [OF assms] by (auto simp: tcp_nodes_def)

lemma tcp_prev_ok:
  assumes "tcp_lists s (ps @ q # qs) rest"
  shows "nifo_nont_prev (tc_nifo s) (hd (fst q)) = Some (hd (fst (last (q # qs @ ps))))"
proof -
  have "nifo_lists (tc_nifo s) ((map fst ps @ fst q # map fst qs) # rest)" using assms by simp
  from nifo_nont_prev_ok [OF this] obtain k where
    k: "nf_link (tc_nifo s) (nont_of (fst q)) = Some k" "cl_offset_prev k = nont_of (last (fst q # map fst qs @ map fst ps))"
    by blast
  have "last (fst q # map fst qs @ map fst ps) = fst (last (q # qs @ ps))"
    using last_map [of "q # qs @ ps" fst] by simp
  then show ?thesis using k by (simp add: nifo_nont_prev_def)
qed

lemma tcp_next_ok:
  assumes "tcp_lists s (ps @ q # qs) rest"
  shows "nifo_nont_next (tc_nifo s) (hd (fst q)) = Some (hd (fst (hd (qs @ ps @ [q]))))"
proof -
  have "nifo_lists (tc_nifo s) ((map fst ps @ fst q # map fst qs) # rest)" using assms by simp
  from nifo_nont_next_ok [OF this] show ?thesis by (cases qs; cases ps) simp_all
qed

text \<open>The packets \<open>qs\<close> and the message \<open>n\<close> became the packets \<open>qs'\<close>; the other messages are released.\<close>

definition tcp_done ::
  "atcp \<Rightarrow> atcp \<Rightarrow> offset \<Rightarrow> offset list \<Rightarrow> (offset list \<times> tcpinfo) list \<Rightarrow> (offset list \<times> tcpinfo) list \<Rightarrow>
   offset list list list \<Rightarrow> bool" where
  "tcp_done s s' v n qs qs' rest \<longleftrightarrow> tcp_lists s' qs' rest \<and> tcp_same s s' v \<and>
     (\<forall>q \<in> set qs'. q \<in> set qs \<or> fst q = n \<and> tc_info s' v = Some (snd q)) \<and>
     nifo_used (nf_mems (tc_nifo s')) = nifo_used (nf_mems (tc_nifo s)) - (tcp_nodes qs \<union> set n - tcp_nodes qs')"

lemma tcp_done_drop:
  assumes "tcp_done s1 s' v n qs qs' rest" "tcp_same s s1 v" "set qs \<subseteq> set rs" "tcp_nodes rs = tcp_nodes qs \<union> A"
    "nifo_used (nf_mems (tc_nifo s1)) = nifo_used (nf_mems (tc_nifo s)) - A"
  shows "tcp_done s s' v n rs qs' rest"
proof -
  note D = assms(1) [unfolded tcp_done_def]
  have "tcp_nodes qs' \<inter> A = {}"
    using tcp_nodes_used [of s' qs' rest] D assms(5) by blast
  then show ?thesis
    using D tcp_same_trans [OF assms(2)] assms(3-5) unfolding tcp_done_def by auto
qed

lemma tcp_done_info:
  assumes "tcp_done (tcp_set_info s v t) s' v n qs qs' rest"
  shows "tcp_done s s' v n qs qs' rest"
  using assms tcp_same_trans [OF tcp_same_set_info] unfolding tcp_done_def by auto

lemma dir_set_head_simps [simp]:
  "dir_set_head sess d (dir_head sess d) = sess" "dir_head (dir_set_head sess d p) d = p"
  by (cases d; simp add: dir_defs)+

lemma tcp_delete_new_ok:
  assumes "tcp_lists s qs ([n] # rest)"
  shows "\<exists>s'. tcp_on_nifo s (\<lambda>nf. nifo_node_delete nf (hd n)) = Some s' \<and> tcp_done s s' v n qs qs rest"
proof -
  have "nifo_lists (tc_nifo s) ([n] # map fst qs # rest)"
    by (rule nifo_lists_perm [OF assms]) (use nifo_listsD(4) [OF assms] in auto)
  from tcp_delete_ok [OF this, of v] obtain s' where
    "tcp_on_nifo s (\<lambda>nf. nifo_node_delete nf (hd n)) = Some s'" "tcp_lists s' qs rest" "tcp_same s s' v"
    "nifo_used (nf_mems (tc_nifo s')) = nifo_used (nf_mems (tc_nifo s)) - set n" by blast
  moreover have "tcp_nodes qs \<union> set n - tcp_nodes qs = set n"
    using nifo_listsD(4) [OF assms] by (auto simp: tcp_nodes_def)
  ultimately show ?thesis by (auto simp: tcp_done_def)
qed

lemma tcp_insert_loop_ok:
  assumes "tcp_lists s (rev (q # rqs) @ post) ([n] # rest)" "tcp_holds e s v (rev (q # rqs) @ post)"
    "tc_info s v = Some ti" "dir_head sess d = hd (fst (last (q # rqs)))"
    "nifo_nont_prev (tc_nifo s) pPrev = Some (hd (fst q))"
    "tcp_place sess d n ti (q # rqs) post del = (qs', del')"
  shows "\<exists>s'. tcp_insert_loop e s sess d (hd n) v (dir_head sess d) pPrev del =
      Some (s', dir_set_head sess d (hd (fst (hd qs'))), del') \<and>
    tcp_done s s' v n (rev (q # rqs) @ post) qs' rest"
  using assms
proof (induction "length rqs" arbitrary: rqs s q ti post pPrev del rule: less_induct)
  case less
  note H = less.prems
  let ?b = "dir_base sess d" and ?p = "hd (fst q)"
  obtain a where a: "a \<noteq> v" "tcp_info_at e s ?p = Some (a, snd q)" using H(2) by auto
  obtain k r ti1 where c: "CalcRetrans ti ?b (ti_uiSeqNum (snd q)) (ti_uiDataSize (snd q)) = (k, r, ti1)"
    by (cases "CalcRetrans ti ?b (ti_uiSeqNum (snd q)) (ti_uiDataSize (snd q))") auto
  have L: "tcp_lists s (rev rqs @ q # post) ([n] # rest)" using H(1) by simp
  have set: "tcp_lists (tcp_set_info s v t) (rev rqs @ q # post) ([n] # rest)" for t using L by simp
  have dist: "?p \<notin> (\<lambda>q. hd (fst q)) ` set rqs"
    using tcp_lists_heads [OF H(1)] by simp
  have first: "dir_head sess d = ?p \<longleftrightarrow> rqs = []"
  proof (cases "rqs = []")
    case False
    then have "hd (fst (last rqs)) \<in> (\<lambda>q. hd (fst q)) ` set rqs" by simp
    then show ?thesis using dist H(4) False by (metis last_ConsR)
  qed (use H(4) in simp)
  have head: "dir_set_head sess d (hd (fst (last (q # rqs)))) = sess" using H(4) dir_set_head_simps by metis
  note loop = tcp_insert_loop.simps [of e s sess d "hd n" v "dir_head sess d" pPrev del]
  note run = H(3,5) a(2) c
  consider (over) "retrans_over k" | (subset) "k = DEF_RETRANS_SUBSET" | (rsubset) "k = DEF_RETRANS_RSUBSET"
    | (under) "\<not> retrans_over k" "k \<noteq> DEF_RETRANS_SUBSET" "k \<noteq> DEF_RETRANS_RSUBSET"
    by (cases k) (auto simp: retrans_over_def)
  then show ?case
  proof cases
    case over
    have res: "qs' = rev rqs @ q # (n, tcp_acked sess d ti1) # post" "del' = del + r" using H(6) c over by auto
    obtain s' where s': "tcp_on_nifo (tcp_set_info s v (tcp_acked sess d ti1)) (\<lambda>nf. nifo_node_link_nont_next nf ?p (hd n)) = Some s'"
      "tcp_lists s' qs' rest" "tcp_same (tcp_set_info s v (tcp_acked sess d ti1)) s' v"
      "tc_info s' v = Some (tcp_acked sess d ti1)" "nf_mems (tc_nifo s') = nf_mems (tc_nifo s)"
      using tcp_link_next_ok [OF set [of "tcp_acked sess d ti1"], where v = v and t = "tcp_acked sess d ti1"] res by auto
    have "tcp_done s s' v n (rev (q # rqs) @ post) qs' rest"
      using s' tcp_same_trans [OF tcp_same_set_info s'(3)] res by (auto simp: tcp_done_def)
    moreover have "hd qs' = last (q # rqs)" using res by (simp add: hd_append hd_rev)
    ultimately show ?thesis unfolding loop using over s'(1) head res by (simp add: run)
  next
    case subset
    then have no: "\<not> retrans_over k" by (simp add: retrans_over_def)
    have res: "qs' = rev rqs @ q # post" "del' = del + r" using H(6) c subset no by auto
    obtain s' where s': "tcp_on_nifo (tcp_set_info s v ti1) (\<lambda>nf. nifo_node_delete nf (hd n)) = Some s'"
      "tcp_done (tcp_set_info s v ti1) s' v n (rev rqs @ q # post) (rev rqs @ q # post) rest"
      using tcp_delete_new_ok [OF set [of ti1], of v] by blast
    have "hd qs' = last (q # rqs)" using res by (simp add: hd_append hd_rev)
    then show ?thesis unfolding loop using s'(1) tcp_done_info [OF s'(2)] head res subset no by (simp add: run)
  next
    case rsubset
    then have no: "\<not> retrans_over k" by (simp add: retrans_over_def)
    let ?t = "tcp_inherit (snd q) ti1"
    show ?thesis
    proof (cases "rqs = []")
      case True
      obtain k2 r2 ti3 where c2: "tcp_calc_base sess d ?t = (k2, r2, ti3)" by (cases "tcp_calc_base sess d ?t") auto
      have res: "qs' = (n, ti3) # post" "del' = del + r + r2" using H(6) c c2 rsubset no True by (auto simp: Let_def)
      have "tcp_lists (tcp_set_info s v ti3) (q # post) ([n] # rest)" using L True by simp
      from tcp_link_prev_ok [OF this, where t = ti3 and v = v] obtain s1 where s1:
        "tcp_on_nifo (tcp_set_info s v ti3) (\<lambda>nf. nifo_node_link_nont_prev nf ?p (hd n)) = Some s1"
        "tcp_lists s1 ([(n, ti3)] @ q # post) rest" "tcp_same (tcp_set_info s v ti3) s1 v"
        "tc_info s1 v = Some ti3" "nf_mems (tc_nifo s1) = nf_mems (tc_nifo s)" by auto
      from tcp_drop_ok [OF s1(2), of v] obtain s2 s' where s':
        "tcp_on_nifo s1 (\<lambda>nf. nifo_node_unlink_nont nf ?p) = Some s2"
        "tcp_on_nifo s2 (\<lambda>nf. nifo_node_delete nf ?p) = Some s'" "tcp_lists s' qs' rest" "tcp_same s1 s' v"
        "tc_info s' = tc_info s1" "nifo_used (nf_mems (tc_nifo s')) = nifo_used (nf_mems (tc_nifo s)) - set (fst q)"
        using res s1(5) by auto
      have "tcp_same s s' v" using tcp_same_trans [OF tcp_same_set_info tcp_same_trans [OF s1(3) s'(4)]] .
      moreover have "tcp_nodes (q # post) \<union> set n - tcp_nodes qs' = set (fst q)"
        using tcp_nodes_apart [OF s1(2)] res by auto
      ultimately have "tcp_done s s' v n (rev (q # rqs) @ post) qs' rest"
        using s' s1(4) res True by (auto simp: tcp_done_def)
      then show ?thesis unfolding loop using s1(1) s'(1,2) res rsubset no True first c2 by (simp add: run Let_def)
    next
      case False
      then obtain q2 rq where rqs: "rqs = q2 # rq" by (cases rqs) auto
      obtain s1 s2 where s2: "tcp_on_nifo (tcp_set_info s v ?t) (\<lambda>nf. nifo_node_unlink_nont nf ?p) = Some s1"
        "tcp_on_nifo s1 (\<lambda>nf. nifo_node_delete nf ?p) = Some s2" "tcp_lists s2 (rev rqs @ post) ([n] # rest)"
        "tcp_same (tcp_set_info s v ?t) s2 v" "tc_info s2 v = Some ?t"
        "nifo_used (nf_mems (tc_nifo s2)) = nifo_used (nf_mems (tc_nifo s)) - set (fst q)"
        using tcp_drop_ok [OF set [of ?t], of v] by auto
      have same: "tcp_same s s2 v" by (rule tcp_same_trans [OF tcp_same_set_info s2(4)])
      let ?x = "hd (fst (hd (post @ rev rqs @ [q])))"
      have nxt: "nifo_nont_next (tc_nifo s) ?p = Some ?x" by (rule tcp_next_ok [OF L])
      have prev: "nifo_nont_prev (tc_nifo s2) ?x = Some (hd (fst q2))"
      proof (cases post)
        case (Cons p1 ps)
        with tcp_prev_ok [of s2 "rev rqs" p1 ps "[n] # rest"] s2(3) rqs show ?thesis by simp
      next
        case Nil
        obtain f fs where f: "rev rqs = f # fs" using False by (cases "rev rqs") auto
        then have "last (f # fs) = q2" using rqs by (metis last_rev list.sel(1) list.distinct(1))
        with tcp_prev_ok [of s2 "[]" f fs "[n] # rest"] s2(3) f Nil show ?thesis by simp
      qed
      have pl: "tcp_place sess d n ?t (q2 # rq) post (del + r + r) = (qs', del')"
        using H(6) c rsubset no rqs by (simp add: Let_def)
      have holds: "tcp_holds e s2 v (rev (q2 # rq) @ post)"
        by (rule tcp_holds_same [OF same]) (use H(2) rqs in simp)
      have "\<exists>s'. tcp_insert_loop e s2 sess d (hd n) v (dir_head sess d) ?x (del + r + r) =
          Some (s', dir_set_head sess d (hd (fst (hd qs'))), del') \<and>
        tcp_done s2 s' v n (rev (q2 # rq) @ post) qs' rest"
        by (rule less.hyps [OF _ _ holds s2(5) _ prev pl]) (use s2(3) rqs H(4) in simp_all)
      then obtain s' where s': "tcp_insert_loop e s2 sess d (hd n) v (dir_head sess d) ?x (del + r + r) =
          Some (s', dir_set_head sess d (hd (fst (hd qs'))), del')"
        "tcp_done s2 s' v n (rev (q2 # rq) @ post) qs' rest" by blast
      have "tcp_done s s' v n (rev (q # rqs) @ post) qs' rest"
        by (rule tcp_done_drop [OF s'(2) same _ _ s2(6)]) (use rqs in auto)
      then show ?thesis unfolding loop using s'(1) s2(1,2) nxt rsubset no False first by (simp add: run Let_def)
    qed
  next
    case under
    let ?t = "tcp_inherit (snd q) ti1"
    show ?thesis
    proof (cases "rqs = []")
      case True
      obtain k2 r2 ti3 where c2: "tcp_calc_base sess d ?t = (k2, r2, ti3)" by (cases "tcp_calc_base sess d ?t") auto
      have L1: "tcp_lists (tcp_set_info s v ti3) (q # post) ([n] # rest)" using L True by simp
      show ?thesis
      proof (cases "retrans_over k2")
        case over: True
        have res: "qs' = (n, ti3) # q # post" "del' = del + r + r2" using H(6) c c2 under True over by (auto simp: Let_def)
        from tcp_link_prev_ok [OF L1, where t = ti3 and v = v] obtain s1 where s1:
          "tcp_on_nifo (tcp_set_info s v ti3) (\<lambda>nf. nifo_node_link_nont_prev nf ?p (hd n)) = Some s1"
          "tcp_lists s1 qs' rest" "tcp_same (tcp_set_info s v ti3) s1 v"
          "tc_info s1 v = Some ti3" "nf_mems (tc_nifo s1) = nf_mems (tc_nifo s)" using res by auto
        have "tcp_done s s1 v n (rev (q # rqs) @ post) qs' rest"
          using s1 tcp_same_trans [OF tcp_same_set_info s1(3)] res True by (auto simp: tcp_done_def)
        then show ?thesis unfolding loop using s1(1) res under True first c2 over by (simp add: run Let_def)
      next
        case no: False
        have res: "qs' = q # post" "del' = del + r + r2" using H(6) c c2 under True no by (auto simp: Let_def)
        from tcp_delete_new_ok [OF L1, of v] obtain s' where s':
          "tcp_on_nifo (tcp_set_info s v ti3) (\<lambda>nf. nifo_node_delete nf (hd n)) = Some s'"
          "tcp_done (tcp_set_info s v ti3) s' v n (q # post) (q # post) rest" by blast
        show ?thesis unfolding loop using s'(1) tcp_done_info [OF s'(2)] res under True first c2 no head by (simp add: run Let_def)
      qed
    next
      case False
      then obtain q2 rq where rqs: "rqs = q2 # rq" by (cases rqs) auto
      have "tcp_lists s ((rev rq @ [q2]) @ q # post) ([n] # rest)" using L rqs by simp
      from tcp_prev_ok [OF this] have prev: "nifo_nont_prev (tc_nifo (tcp_set_info s v ?t)) ?p = Some (hd (fst q2))" by simp
      have pl: "tcp_place sess d n ?t (q2 # rq) (q # post) (del + r + r) = (qs', del')"
        using H(6) c under rqs by (simp add: Let_def)
      have holds: "tcp_holds e (tcp_set_info s v ?t) v (rev (q2 # rq) @ q # post)"
        by (rule tcp_holds_same [OF tcp_same_set_info]) (use H(2) rqs in simp)
      have "\<exists>s'. tcp_insert_loop e (tcp_set_info s v ?t) sess d (hd n) v (dir_head sess d) ?p (del + r + r) =
          Some (s', dir_set_head sess d (hd (fst (hd qs'))), del') \<and>
        tcp_done (tcp_set_info s v ?t) s' v n (rev (q2 # rq) @ q # post) qs' rest"
        by (rule less.hyps [OF _ _ holds _ _ prev pl]) (use L rqs H(4) in simp_all)
      then obtain s' where s': "tcp_insert_loop e (tcp_set_info s v ?t) sess d (hd n) v (dir_head sess d) ?p (del + r + r) =
          Some (s', dir_set_head sess d (hd (fst (hd qs'))), del')"
        "tcp_done (tcp_set_info s v ?t) s' v n (rev (q2 # rq) @ q # post) qs' rest" by blast
      show ?thesis unfolding loop using s'(1) tcp_done_info [OF s'(2)] rqs under False first by (simp add: run Let_def)
    qed
  qed
qed

section \<open>\<open>dInsertTCPData\<close>\<close>

text \<open>The packets \<open>qs\<close> of a direction wait in the block: a ring of nodes whose first one is the anchor of the
  session, each with its structure, in order and above the position that was handed on.\<close>

definition tcp_waits ::
  "tcp_env \<Rightarrow> atcp \<Rightarrow> tcpsess \<Rightarrow> tcp_dir \<Rightarrow> (offset list \<times> tcpinfo) list \<Rightarrow> offset list list list \<Rightarrow> bool" where
  "tcp_waits e s sess d qs rest \<longleftrightarrow> tcp_lists s qs rest \<and>
     (\<forall>q \<in> set qs. hd (fst q) \<noteq> 0 \<and> nifo_block (tc_nifo s) (hd (fst q)) \<and>
        (\<exists>a. tcp_info_at e s (hd (fst q)) = Some (a, snd q))) \<and>
     tcp_ordered (dir_base sess d) (dir_pos sess d) qs \<and>
     dir_head sess d = (if qs = [] then 0 else hd (fst (hd qs)))"

text \<open>A new node has its records and room for the structure.\<close>

definition tcp_room :: "tcp_env \<Rightarrow> atcp \<Rightarrow> offset \<Rightarrow> bool" where
  "tcp_room e s p \<longleftrightarrow> p \<noteq> 0 \<and> nifo_block (tc_nifo s) p \<and>
     (\<exists>cap rs. nifo_node_ok (tc_nifo s) cap p \<and> nifo_payload (tc_nifo s) p = nifo_encode rs \<and>
        (\<forall>(type, v) \<in> set rs. length v < 2 ^ 31) \<and> en_TCP_INFO_DEF_NUM e \<notin> fst ` set rs \<and>
        unat (en_TCP_INFO_SIZE e) < 2 ^ 31 \<and> nifo_fill (tc_nifo s) p + 8 + unat (en_TCP_INFO_SIZE e) \<le> cap)"

text \<open>The contents of the other nodes.\<close>

definition nifo_keeps :: "nifo \<Rightarrow> nifo \<Rightarrow> offset \<Rightarrow> bool" where
  "nifo_keeps s s' p \<longleftrightarrow> (\<forall>q. nifo_block s q \<longrightarrow> q \<noteq> p \<longrightarrow>
     nifo_block s' q \<and> nf_node s' q = nf_node s q \<and> nifo_payload s' q = nifo_payload s q)"

lemma nifo_keeps_same:
  assumes "nifo_keeps s t p" "nifo_same t u"
  shows "nifo_keeps s u p"
proof -
  have "nifo_payload u q = nifo_payload t q" "nf_node u = nf_node t" for q
    using assms(2) by (simp_all add: nifo_same_def nifo_payload_def nifo_fill_def)
  then show ?thesis using assms(1) nifo_block_same [OF assms(2)] by (simp add: nifo_keeps_def)
qed

lemma nifo_keeps_room:
  assumes "nifo_keeps (tc_nifo s) (tc_nifo s') p" "tcp_room e s q" "q \<noteq> p"
  shows "tcp_room e s' q"
proof -
  have "nifo_block (tc_nifo s') q" "nf_node (tc_nifo s') q = nf_node (tc_nifo s) q"
    "nifo_payload (tc_nifo s') q = nifo_payload (tc_nifo s) q"
    using assms by (simp_all add: nifo_keeps_def tcp_room_def)
  then show ?thesis using assms(2) by (simp add: tcp_room_def nifo_node_ok_def nifo_fill_def)
qed

lemma tcp_new_ok:
  assumes "tcp_waits e s sess d qs ([n] # rest)" "tcp_room e s (hd n)"
  shows "\<exists>nf v. nifo_tlv_alloc (tc_nifo s) (hd n) (en_TCP_INFO_DEF_NUM e) (en_TCP_INFO_SIZE e) 0 = Some (nf, Some v) \<and>
    nf_mems nf = nf_mems (tc_nifo s) \<and> nifo_block nf (hd n) \<and> tcp_waits e (s\<lparr>tc_nifo := nf\<rparr>) sess d qs ([n] # rest) \<and>
    tcp_holds e (s\<lparr>tc_nifo := nf\<rparr>) v qs \<and> nifo_get_value nf (en_TCP_INFO_DEF_NUM e) (hd n) = Some (Some v) \<and>
    nf_procID nf = nf_procID (tc_nifo s) \<and> nifo_keeps (tc_nifo s) nf (hd n)"
proof -
  let ?t = "en_TCP_INFO_DEF_NUM e" and ?l = "en_TCP_INFO_SIZE e" and ?p = "hd n"
  obtain nf v where a: "nifo_tlv_alloc (tc_nifo s) ?p ?t ?l 0 = Some (nf, Some v)" "nifo_get_value nf ?t ?p = Some (Some v)"
    using assms(2) nifo_tlv_alloc_value [of "tc_nifo s" _ ?p _ ?t ?l 0] unfolding tcp_room_def by blast
  note W = assms(1) [unfolded tcp_waits_def]
  have blk: "nifo_block (tc_nifo s) ?p" using assms(2) by (simp add: tcp_room_def)
  note F = nifo_tlv_alloc_frame [OF conjunct1 [OF W] blk a(1)]
  have old: "nifo_block nf (hd (fst q)) \<and> (\<exists>a. a \<noteq> v \<and> tcp_info_at e (s\<lparr>tc_nifo := nf\<rparr>) (hd (fst q)) = Some (a, snd q))"
    if q: "q \<in> set qs" for q
  proof -
    have "fst q \<noteq> n" using nifo_lists_disjoint [OF conjunct1 [OF W]] q by auto
    then have ne: "hd (fst q) \<noteq> ?p" using nifo_lists_heads [OF conjunct1 [OF W], of "fst q" n] q by auto
    have b: "nifo_block (tc_nifo s) (hd (fst q))" using W q by blast
    obtain a where i: "tcp_info_at e s (hd (fst q)) = Some (a, snd q)" using W q by blast
    have g: "nifo_get_value nf ?t (hd (fst q)) = nifo_get_value (tc_nifo s) ?t (hd (fst q))" by (rule F(6) [OF b ne])
    have i': "tcp_info_at e (s\<lparr>tc_nifo := nf\<rparr>) (hd (fst q)) = Some (a, snd q)"
      using i g by (simp add: tcp_info_at_def tcp_value_def)
    have "nifo_get_value nf ?t (hd (fst q)) = Some (Some a)"
      using i g by (auto simp: tcp_info_at_def tcp_value_def bind_eq_Some_conv)
    from nifo_values_differ [OF nifo_listsD(1) [OF F(1)] F(5) [OF b] F(5) [OF blk] ne this a(2)]
    show ?thesis using i' F(5) [OF b] by blast
  qed
  have "tcp_waits e (s\<lparr>tc_nifo := nf\<rparr>) sess d qs ([n] # rest)"
    using W F(1) old unfolding tcp_waits_def by (simp, blast)
  moreover have "tcp_holds e (s\<lparr>tc_nifo := nf\<rparr>) v qs" using old by (simp add: tcp_holds_def)
  moreover have "nifo_keeps (tc_nifo s) nf ?p" using F(5) F(7) by (simp add: nifo_keeps_def)
  ultimately show ?thesis using a F(2) F(4) F(5) [OF blk] by blast
qed

lemma tcp_fill_data_seg [simp]:
  "ti_uiSeqNum (tcp_fill_data k sess cap eth t) = ut_seq (ie_stUDPTCP eth)"
  "ti_uiDataSize (tcp_fill_data k sess cap eth t) = ucast (ut_wDataLen (ie_stUDPTCP eth))"
  "ti_uiSOffset (tcp_fill_data k sess cap eth t) = ie_offset eth"
  "ti_ucRtx (tcp_fill_data k sess cap eth t) = cp_bRtxType cap"
  by (simp_all add: tcp_fill_data_def)

lemma tcp_fill_data_raw:
  "segment base (tcp_fill_data k sess cap eth t) = segment base (tcp_fill_data k sess cap eth u)"
  "seg_ok base (tcp_fill_data k sess cap eth t) = seg_ok base (tcp_fill_data k sess cap eth u)"
  "seg_byte base (tcp_fill_data k sess cap eth t) = seg_byte base (tcp_fill_data k sess cap eth u)"
  by (simp_all add: segment_def seg_ok_def seg_start_def seg_len_def seg_byte_def fun_eq_iff)

lemma dir_pos_set_head [simp]: "dir_base (dir_set_head sess d p) d' = dir_base sess d'" "dir_pos (dir_set_head sess d p) d' = dir_pos sess d'"
  by (cases d; cases d'; simp add: dir_pos_def dir_defs)+

text \<open>What \<open>tcp_done\<close> keeps of \<open>tcp_waits\<close>.\<close>

lemma tcp_done_waits:
  assumes "tcp_done s s' v n qs qs' rest" "tcp_waits e s sess d qs rest'" "tcp_holds e s v qs"
    "nifo_get_value (tc_nifo s) (en_TCP_INFO_DEF_NUM e) (hd n) = Some (Some v)" "nifo_block (tc_nifo s) (hd n)" "hd n \<noteq> 0"
    "tcp_ordered (dir_base sess d) (dir_pos sess d) qs'"
    "dir_head sess' d = (if qs' = [] then 0 else hd (fst (hd qs')))" "dir_base sess' d = dir_base sess d" "dir_pos sess' d = dir_pos sess d"
  shows "tcp_waits e s' sess' d qs' rest"
proof -
  note D = assms(1) [unfolded tcp_done_def]
  have same: "tcp_same s s' v" using D by blast
  have blk: "nifo_block (tc_nifo s) p \<Longrightarrow> nifo_block (tc_nifo s') p" for p
    using nifo_block_same same by (auto simp: tcp_same_def)
  have holds: "tcp_holds e s' v qs" by (rule tcp_holds_same [OF same assms(3)])
  have "hd (fst q) \<noteq> 0 \<and> nifo_block (tc_nifo s') (hd (fst q)) \<and> (\<exists>a. tcp_info_at e s' (hd (fst q)) = Some (a, snd q))"
    if q: "q \<in> set qs'" for q
  proof (cases "q \<in> set qs")
    case True
    then show ?thesis using assms(2) holds blk unfolding tcp_waits_def tcp_holds_def by blast
  next
    case False
    then have "fst q = n" "tc_info s' v = Some (snd q)" using D q by blast+
    moreover have "tcp_value s' (en_TCP_INFO_DEF_NUM e) (hd n) = Some v"
      unfolding tcp_same_value [OF same] using assms(4) by (simp add: tcp_value_def)
    ultimately show ?thesis using assms(5,6) blk by (simp add: tcp_info_at_def)
  qed
  then show ?thesis using D assms(7-10) unfolding tcp_waits_def by simp
qed
definition dir_with :: "tcpsess \<Rightarrow> tcp_dir \<Rightarrow> ('a list \<times> tcpinfo) list \<Rightarrow> offset \<Rightarrow> tcpsess" where
  "dir_with sess d qs p = (if qs = [] then sess else dir_set_head sess d p)"

lemma tcp_place_ne: "fst (tcp_place sess d n ti (q # rqs) post del) \<noteq> []"
proof (induction rqs arbitrary: q ti post del)
  case (Cons q2 rqs)
  show ?case
    unfolding tcp_place.simps(2) [of sess d n ti q "q2 # rqs"] using Cons.IH
    by (simp add: Let_def split: prod.split del: tcp_place.simps)
qed (simp add: Let_def split: prod.split)

lemma tcp_place_rev_ne: "qs \<noteq> [] \<Longrightarrow> fst (tcp_place sess d n ti (rev qs) post del) \<noteq> []"
  by (cases qs rule: rev_cases) (simp_all add: tcp_place_ne del: tcp_place.simps)

lemma tcp_insert_run:
  assumes "tcp_waits e s sess d qs ([n] # rest)" "tcp_holds e s v qs"
    "tcp_place sess d n ti (rev qs) [] 0 = (qs', del)"
  shows "\<exists>s'. (if dir_head sess d = 0 then do {
       let (dSubRet, retransSize, ti1) = tcp_calc_base sess d ti;
       if retrans_over dSubRet
       then Some (tcp_set_info s v (tcp_acked sess d ti1), dir_set_head sess d (hd n), retransSize)
       else do {
         s2 \<leftarrow> tcp_on_nifo (tcp_set_info s v ti1) (\<lambda>nf. nifo_node_delete nf (hd n));
         Some (s2, sess, retransSize)
       }
     } else tcp_insert_loop e (tcp_set_info s v ti) sess d (hd n) v (dir_head sess d) (dir_head sess d) 0) =
      Some (s', dir_with sess d qs' (hd (fst (hd qs'))), del) \<and> tcp_done s s' v n qs qs' rest"
proof (cases "qs = []")
  case True
  obtain k r ti1 where c: "tcp_calc_base sess d ti = (k, r, ti1)" by (cases "tcp_calc_base sess d ti") auto
  have h: "dir_head sess d = 0" and L: "tcp_lists s [] ([n] # rest)" using assms(1) True by (simp_all add: tcp_waits_def)
  show ?thesis
  proof (cases "retrans_over k")
    case over: True
    have res: "qs' = [(n, tcp_acked sess d ti1)]" "del = r" using assms(3) True c over by auto
    have "tcp_lists s qs' rest"
      by (rule nifo_lists_perm [OF L]) (use res nifo_listsD(4) [OF L] in auto)
    then have "tcp_done s (tcp_set_info s v (tcp_acked sess d ti1)) v n qs qs' rest"
      using res True by (auto simp: tcp_done_def)
    then show ?thesis using h c over res by (simp add: dir_with_def)
  next
    case no: False
    have res: "qs' = []" "del = r" using assms(3) True c no by auto
    have "tcp_lists (tcp_set_info s v ti1) [] ([n] # rest)" using L by simp
    from tcp_delete_new_ok [OF this, of v] obtain s' where
      "tcp_on_nifo (tcp_set_info s v ti1) (\<lambda>nf. nifo_node_delete nf (hd n)) = Some s'"
      "tcp_done (tcp_set_info s v ti1) s' v n [] [] rest" by blast
    then show ?thesis using h c no res True tcp_done_info by (auto simp: dir_with_def)
  qed
next
  case False
  then obtain q rqs where q: "rev qs = q # rqs" by (cases "rev qs") auto
  then have qs: "qs = rev (q # rqs)" by (metis rev_rev_ident)
  let ?s = "tcp_set_info s v ti"
  have W: "tcp_lists s qs ([n] # rest)" "hd (fst (hd qs)) \<noteq> 0" "dir_head sess d = hd (fst (hd qs))"
    using assms(1) False by (auto simp: tcp_waits_def)
  have last: "hd qs = last (q # rqs)" using qs by (simp add: hd_rev del: rev.simps)
  obtain f fs where f: "qs = f # fs" using False by (cases qs) auto
  have "last qs = q" using qs by simp
  then have prev: "nifo_nont_prev (tc_nifo ?s) (dir_head sess d) = Some (hd (fst q))"
    using tcp_prev_ok [of s "[]" f fs "[n] # rest"] W(1,3) f by simp
  have L: "tcp_lists ?s (rev (q # rqs) @ []) ([n] # rest)" using W(1) qs by simp
  have H: "tcp_holds e ?s v (rev (q # rqs) @ [])"
    by (rule tcp_holds_same [OF tcp_same_set_info]) (use assms(2) qs in simp)
  have P: "tcp_place sess d n ti (q # rqs) [] 0 = (qs', del)" using assms(3) q by simp
  have D: "dir_head sess d = hd (fst (last (q # rqs)))" using W(3) last by simp
  from tcp_insert_loop_ok [OF L H _ D prev P] obtain s' where
    s': "tcp_insert_loop e ?s sess d (hd n) v (dir_head sess d) (dir_head sess d) 0 =
       Some (s', dir_set_head sess d (hd (fst (hd qs'))), del)"
    "tcp_done ?s s' v n (rev (q # rqs) @ []) qs' rest" by auto
  have "qs' \<noteq> []" using tcp_place_rev_ne [OF False, of sess d n ti "[]" 0] assms(3) by simp
  then show ?thesis using s'(1) W(2,3) tcp_done_info [OF s'(2)] qs by (simp add: dir_with_def)
qed

lemma dInsertTCPData_ok:
  assumes "dir_ok sess d" "tcp_waits e s sess d qs ([n] # rest)" "tcp_room e s (hd n)"
    "d = (if ts_ucSynRtx sess \<noteq> cp_bRtxType cap then DRes else DReq)" "ti = tcp_fill_data k sess cap eth tcpinfo_zero"
    "seg_ok (dir_base sess d) ti"
  shows "\<exists>s' sess' del qs'. dInsertTCPData e s k sess cap eth (hd n) = Some (s', sess', del) \<and>
    tcp_waits e s' sess' d qs' rest \<and> tcp_placed (dir_base sess d) (dir_pos sess d) n ti qs qs' \<and>
    sess' = dir_set_head sess d (dir_head sess' d) \<and> nifo_keeps (tc_nifo s) (tc_nifo s') (hd n) \<and>
    nifo_used (nf_mems (tc_nifo s')) = nifo_used (nf_mems (tc_nifo s)) - (tcp_nodes qs \<union> set n - tcp_nodes qs')"
proof -
  obtain nf v where a: "nifo_tlv_alloc (tc_nifo s) (hd n) (en_TCP_INFO_DEF_NUM e) (en_TCP_INFO_SIZE e) 0 = Some (nf, Some v)"
    "nf_mems nf = nf_mems (tc_nifo s)" "nifo_block nf (hd n)" "tcp_waits e (s\<lparr>tc_nifo := nf\<rparr>) sess d qs ([n] # rest)"
    "tcp_holds e (s\<lparr>tc_nifo := nf\<rparr>) v qs" "nifo_get_value nf (en_TCP_INFO_DEF_NUM e) (hd n) = Some (Some v)"
    "nifo_keeps (tc_nifo s) nf (hd n)"
    using tcp_new_ok [OF assms(2,3)] by blast
  let ?s = "s\<lparr>tc_nifo := nf\<rparr>" and ?b = "dir_base sess d" and ?nx = "dir_pos sess d"
  let ?ti = "tcp_fill_data k sess cap eth (tcpinfo_raw ?s v)"
  obtain qs' del where pl: "tcp_place sess d n ?ti (rev qs) [] 0 = (qs', del)" by fastforce
  obtain s' where run: "(if dir_head sess d = 0 then do {
       let (dSubRet, retransSize, ti1) = tcp_calc_base sess d ?ti;
       if retrans_over dSubRet
       then Some (tcp_set_info ?s v (tcp_acked sess d ti1), dir_set_head sess d (hd n), retransSize)
       else do {
         s2 \<leftarrow> tcp_on_nifo (tcp_set_info ?s v ti1) (\<lambda>nf. nifo_node_delete nf (hd n));
         Some (s2, sess, retransSize)
       }
     } else tcp_insert_loop e (tcp_set_info ?s v ?ti) sess d (hd n) v (dir_head sess d) (dir_head sess d) 0) =
      Some (s', dir_with sess d qs' (hd (fst (hd qs'))), del)"
    and dn: "tcp_done ?s s' v n qs qs' rest"
    using tcp_insert_run [OF a(4,5) pl] by (elim exE conjE) (rule that)
  have dir: "(if ts_ucSynRtx sess \<noteq> ti_ucRtx ?ti then DRes else DReq) = d" using assms(4) by simp
  have s': "dInsertTCPData e s k sess cap eth (hd n) = Some (s', dir_with sess d qs' (hd (fst (hd qs'))), del)"
    using run unfolding dInsertTCPData_def a(1) Let_def by (simp only: prod.case Option.bind.simps dir)
  have ok: "seg_ok ?b ?ti" using assms(5,6) tcp_fill_data_raw(2) by metis
  have ord: "tcp_ordered ?b ?nx qs" using assms(2) by (simp add: tcp_waits_def)
  have "tcp_placed ?b ?nx n ?ti qs qs'"
    using tcp_place_ok [of sess d "rev qs" "[]" ?ti n 0] ord ok assms(1) pl by simp
  moreover have "segment ?b ?ti = segment ?b ti" "seg_byte ?b ?ti = seg_byte ?b ti"
    unfolding assms(5) by (rule tcp_fill_data_raw)+
  ultimately have placed: "tcp_placed ?b ?nx n ti qs qs'" by (simp add: tcp_placed_def)
  let ?sess = "dir_with sess d qs' (hd (fst (hd qs')))"
  have ne: "qs' = [] \<Longrightarrow> qs = []" using tcp_place_rev_ne [of qs sess d n ?ti "[]" 0] pl by auto
  have w: "tcp_waits e s' ?sess d qs' rest"
    by (rule tcp_done_waits [OF dn a(4,5)])
      (use a(3,6) assms(2,3) placed ne in \<open>auto simp: tcp_room_def tcp_placed_def dir_with_def tcp_waits_def\<close>)
  have "tcp_same ?s s' v" "nifo_used (nf_mems (tc_nifo s')) = nifo_used (nf_mems nf) - (tcp_nodes qs \<union> set n - tcp_nodes qs')"
    using dn by (simp_all add: tcp_done_def)
  moreover from this have "nifo_keeps (tc_nifo s) (tc_nifo s') (hd n)"
    by (intro nifo_keeps_same [OF a(7)]) (simp add: tcp_same_def)
  moreover have "?sess = dir_set_head sess d (dir_head ?sess d)" by (simp add: dir_with_def)
  ultimately show ?thesis using s' w placed a(2) by (intro exI [of _ s'] exI [of _ ?sess] exI [of _ del] exI [of _ qs'])
      simp
qed

section \<open>A small example\<close>

definition tcp_demo_env :: tcp_env where
  "tcp_demo_env = \<lparr>en_TCP_INFO_DEF_NUM = 5, en_TCP_INFO_SIZE = 8, en_LOG_TCP_SESS_DEF_NUM = 6, en_LOG_TCP_SESS_SIZE = 8,
     en_gAHTTPCnt = 5, en_gACALLCnt = 5, en_guiSeqProcID = 39\<rparr>"

definition tcpsess_zero :: tcpsess where
  "tcpsess_zero = \<lparr>ts_uiLastUpdateTime = 0, ts_uiLastUpdateMTime = 0, ts_uiSessCreateTime = 0, ts_uiSessCreateMTime = 0,
     ts_uiLastSessUpdateTime = 0, ts_ucStatus = 0, ts_ucFinStatus = 0, ts_ucEndStatus = 0, ts_ucSynRtx = 0, ts_ucFinRtx = 0,
     ts_ucRstRtx = 0, ts_ucRcvSyn = 0, ts_uiSynSeq = 0, ts_uiSynAckSeq = 0, ts_uiSynAckAck = 0, ts_offset_LOG = 0,
     ts_uiReqCount = 0, ts_offset_ReqData = 0, ts_uiResCount = 0, ts_offset_ResData = 0, ts_dSndMsgQ = 0,
     ts_uiFinChkSeq = [0, 0, 0], ts_uiFinChkAck = [0, 0, 0], ts_uiLastReqSeq = 0, ts_uiLastResSeq = 0,
     ts_uiNextReqSeq = 0, ts_uiNextResSeq = 0, ts_uiRcvReqAck = 0, ts_uiRcvResAck = 0, ts_uiRcvReqAckTime = 0,
     ts_uiRcvReqAckMTime = 0, ts_uiRcvResAckTime = 0, ts_uiRcvResAckMTime = 0, ts_usL4Code = 0, ts_usL7Code = 0,
     ts_usAppCode = 0, ts_usL4FailCode = 0, ts_timerNID = 0, ts_ucTcpClientStatus = 0, ts_ucTcpServerStatus = 0,
     ts_cnt = ipcnt_zero\<rparr>"

definition tcp_demo_sess :: tcpsess where
  "tcp_demo_sess = tcpsess_zero\<lparr>ts_ucSynRtx := 1, ts_uiSynSeq := 0xffffffc0, ts_uiLastReqSeq := 0xffffffc0,
     ts_uiNextReqSeq := 0xffffffc1\<rparr>"

definition tcp_demo_key :: tcpsesskey where
  "tcp_demo_key = \<lparr>sk_uiSIP = 0x0a000001, sk_uiDIP = 0x0a000002, sk_usSPort = 1234, sk_usDPort = 80\<rparr>"

definition tcp_demo_cap :: caphead where
  "tcp_demo_cap = \<lparr>cp_bRtxType = 1, cp_curtime = 100, cp_ucurtime = 0, cp_datalen = 100\<rparr>"

definition tcp_demo_eth :: "u32 \<Rightarrow> infoeth" where
  "tcp_demo_eth sq = \<lparr>ie_usL4Code = 0, ie_usL7Code = 0, ie_usAppCode = 0,
     ie_stIP = \<lparr>ip_wTotalLength = 90, ip_wIPHeaderLen = 20, ip_ucProtocol = 6, ip_usIdent = 0, ip_usIPFrag = 0,
       ip_dwSrcIP = 0x0a000001, ip_dwDestIP = 0x0a000002\<rparr>,
     ie_stUDPTCP = \<lparr>ut_nControlType = 0x10, ut_wDataLen = 50, ut_wSrcPort = 1234, ut_wDestPort = 80, ut_seq = sq,
       ut_ack = 0, ut_window = 0, ut_mss = 0\<rparr>, ie_offset = 54\<rparr>"

text \<open>Two packets in a block with two nodes; their numbers pass \<open>MAX_SEQUENCE\<close>.\<close>

lemma tcp_demo_dir:
  "dir_ok tcp_demo_sess DReq" "dir_pos tcp_demo_sess DReq = 1" "dir_base tcp_demo_sess DReq = 0xffffffc0"
  "dir_head tcp_demo_sess DReq = 0"
  by (simp_all add: dir_ok_def dir_pos_def dir_defs tcp_demo_sess_def tcpsess_zero_def)

lemma tcp_demo_seg:
  "segment 0xffffffc0 (tcp_fill_data k sess cap (tcp_demo_eth 0xffffffe8) t) = {40..<90}"
  "segment 0xffffffc0 (tcp_fill_data k sess cap (tcp_demo_eth 8) t) = {72..<122}"
  "seg_ok 0xffffffc0 (tcp_fill_data k sess cap (tcp_demo_eth 0xffffffe8) t)"
  "seg_ok 0xffffffc0 (tcp_fill_data k sess cap (tcp_demo_eth 8) t)"
  by (simp_all add: segment_def seg_ok_def seg_start_def seg_len_def tcp_demo_eth_def)

lemma tcp_demo_block:
  obtains s1 q1 s2 q2 where "nifo_node_alloc nifo_demo 1 = Some (s1, Some q1)" "nifo_node_alloc s1 1 = Some (s2, Some q2)"
    "\<And>s. tc_nifo s = s2 \<Longrightarrow> tcp_waits tcp_demo_env s tcp_demo_sess DReq [] [[[q1]], [[q2]]]"
    "\<And>s. tc_nifo s = s2 \<Longrightarrow> tcp_room tcp_demo_env s q1" "\<And>s. tc_nifo s = s2 \<Longrightarrow> tcp_room tcp_demo_env s q2" "q1 \<noteq> q2"
proof -
  obtain s1 q1 where a: "nifo_node_alloc nifo_demo 1 = Some (s1, Some q1)" "nifo_fresh nifo_demo s1 0 q1" "nifo_free_nodes s1 0 = 3"
    by (rule nifo_demo_node)
  note z = nifo_demo_zone(1) nifo_fresh_chain(1) [OF a(2)]
  have "mems_live (nf_mems s1) 0 \<noteq> mems_cells (nf_mems s1) 0" using a(3) by (auto simp: nifo_free_nodes_def)
  then obtain s2 q2 where b: "nifo_node_alloc s1 1 = Some (s2, Some q2)" "nifo_fresh s1 s2 0 q2"
    using nifo_node_alloc_ok [OF z(2), of 1] by blast
  have L1: "nifo_lists s1 [[[q1]]]"
    using nifo_fresh_lists [OF z(1) a(2), of "[]"] nifo_demo_mems(1) by (simp add: nifo_lists_def)
  have L2: "nifo_lists s2 [[[q2]], [[q1]]]" by (rule nifo_fresh_lists [OF z(2) b(2) L1])
  have ne: "q1 \<noteq> q2" using nifo_listsD(4) [OF L2] by auto
  have "nifo_lists s2 [[[q1]], [[q2]]]" by (rule nifo_lists_perm [OF L2]) (use ne in auto)
  then have L: "nifo_lists s2 [[], [[q1]], [[q2]]]" by (simp add: nifo_lists_def)
  have B: "nifo_block s2 q2" "nifo_block s2 q1"
    using nifo_fresh_block(1) [OF z(2) b(2)] nifo_fresh_block(2) [OF z(2) b(2) ne nifo_fresh_block(1) [OF z(1) a(2)]] .
  have cap: "nifo_cap s1 0 = 16" using nifo_fresh_chain(6) [OF a(2)] nifo_demo_zone(2) by simp
  have node: "nf_node s2 = (nf_node s1)(q2 \<mapsto> \<lparr>nn_from = 0, nn_to = 0, nn_cnt = 0, nn_lastoffset = NIFO_SIZE, nn_maxoffset = NIFO_SIZE + 16\<rparr>)"
    "nf_node s1 q1 = Some \<lparr>nn_from = 0, nn_to = 0, nn_cnt = 0, nn_lastoffset = NIFO_SIZE, nn_maxoffset = NIFO_SIZE + 16\<rparr>"
    using a(2) b(2) cap nifo_demo_zone(2) by (simp_all add: nifo_fresh_def)
  have pos: "q1 \<noteq> 0" "q2 \<noteq> 0" using z a(2) b(2) by (auto simp: nifo_fresh_def nifo_zone_def)
  have "tcp_room tcp_demo_env s q" if "tc_nifo s = s2" "q = q1 \<or> q = q2" for s q
    using that ne node pos B
    by (auto simp: tcp_room_def nifo_node_ok_def nifo_fill_def nifo_payload_def tcp_demo_env_def intro!: exI [of _ 16] exI [of _ "[]"])
  then show ?thesis
    by (intro that [OF a(1) b(1) _ _ _ ne]) (use L in \<open>auto simp: tcp_waits_def tcp_demo_dir\<close>)
qed

section \<open>Properties\<close>

text \<open>C4: \<open>dInsertTCPData\<close> on the linked nodes of the block: when the packets \<open>qs\<close> of the direction wait in a ring of
  their own, apart and in the order of their sequence numbers above what was handed on, and the new packet
  is a message with room for its structure, the call returns and the packets wait again, apart and in
  order. They cover exactly the old positions and those positions of the new segment that were not handed
  on yet. A packet that waits afterwards waited before, or is the new message with a part of its segment,
  every position of it at the byte of the packet it had. Exactly the messages that wait no more are
  released; every other node of the block keeps its contents; of the session only the anchor changes.\<close>

theorem dInsertTCPData_correct:
  assumes "dir_ok sess d" "tcp_waits e s sess d qs ([n] # rest)" "tcp_room e s (hd n)"
    "d = (if ts_ucSynRtx sess \<noteq> cp_bRtxType cap then DRes else DReq)" "base = dir_base sess d"
    "ti = tcp_fill_data k sess cap eth tcpinfo_zero" "seg_ok base ti"
  shows "\<exists>s' sess' del qs'. dInsertTCPData e s k sess cap eth (hd n) = Some (s', sess', del) \<and>
    tcp_waits e s' sess' d qs' rest \<and>
    tcp_covered base qs' = tcp_covered base qs \<union> (segment base ti - {..<dir_pos sess d}) \<and>
    (\<forall>q \<in> set qs'. q \<in> set qs \<or> fst q = n \<and> segment base (snd q) \<subseteq> segment base ti \<and>
       seg_byte base (snd q) = seg_byte base ti) \<and>
    nifo_used (nf_mems (tc_nifo s')) = nifo_used (nf_mems (tc_nifo s)) - (tcp_nodes qs \<union> set n - tcp_nodes qs') \<and>
    sess' = dir_set_head sess d (dir_head sess' d) \<and> nifo_keeps (tc_nifo s) (tc_nifo s') (hd n)"
proof -
  obtain s' sess' del qs' where r: "dInsertTCPData e s k sess cap eth (hd n) = Some (s', sess', del)"
    "tcp_waits e s' sess' d qs' rest" "tcp_placed base (dir_pos sess d) n ti qs qs'"
    "sess' = dir_set_head sess d (dir_head sess' d)" "nifo_keeps (tc_nifo s) (tc_nifo s') (hd n)"
    "nifo_used (nf_mems (tc_nifo s')) = nifo_used (nf_mems (tc_nifo s)) - (tcp_nodes qs \<union> set n - tcp_nodes qs')"
    using dInsertTCPData_ok [OF assms(1-4,6)] assms(5,7) by blast
  show ?thesis
    by (intro exI [of _ s'] exI [of _ sess'] exI [of _ del] exI [of _ qs'] conjI r(1,2,4,5,6))
      (use r(3) in \<open>simp_all add: tcp_placed_def\<close>)
qed

theorem dInsertTCPData_correct_witness:
  "\<exists>s q1 q2 s1 sess1 del1 s2 sess2 del2 qs.
     tcp_waits tcp_demo_env s tcp_demo_sess DReq [] [[[q1]], [[q2]]] \<and>
     dInsertTCPData tcp_demo_env s tcp_demo_key tcp_demo_sess tcp_demo_cap (tcp_demo_eth 0xffffffe8) q1 = Some (s1, sess1, del1) \<and>
     dInsertTCPData tcp_demo_env s1 tcp_demo_key sess1 tcp_demo_cap (tcp_demo_eth 8) q2 = Some (s2, sess2, del2) \<and>
     tcp_waits tcp_demo_env s2 sess2 DReq qs [] \<and> tcp_covered 0xffffffc0 qs = {40..<122}"
proof -
  obtain n1 q1 n2 q2 where b: "nifo_node_alloc nifo_demo 1 = Some (n1, Some q1)" "nifo_node_alloc n1 1 = Some (n2, Some q2)"
    "\<And>s. tc_nifo s = n2 \<Longrightarrow> tcp_waits tcp_demo_env s tcp_demo_sess DReq [] [[[q1]], [[q2]]]"
    "\<And>s. tc_nifo s = n2 \<Longrightarrow> tcp_room tcp_demo_env s q1" "\<And>s. tc_nifo s = n2 \<Longrightarrow> tcp_room tcp_demo_env s q2" "q1 \<noteq> q2"
    by (rule tcp_demo_block) (rule that)
  define s where "s = (undefined :: atcp)\<lparr>tc_nifo := n2\<rparr>"
  have n: "tc_nifo s = n2" by (simp add: s_def)
  have dir: "DReq = (if ts_ucSynRtx sess \<noteq> cp_bRtxType tcp_demo_cap then DRes else DReq)"
    if "ts_ucSynRtx sess = 1" for sess using that by (simp add: tcp_demo_cap_def)
  have syn: "ts_ucSynRtx tcp_demo_sess = 1" by (simp add: tcp_demo_sess_def)
  note D = tcp_demo_dir
  have w: "tcp_waits tcp_demo_env s tcp_demo_sess DReq [] [[[q1]], [[q2]]]" "tcp_room tcp_demo_env s (hd [q1])"
    using b(3,4) n by simp_all
  have ok: "seg_ok 0xffffffc0 (tcp_fill_data tcp_demo_key sess tcp_demo_cap (tcp_demo_eth sq) tcpinfo_zero)"
    if "sq = 0xffffffe8 \<or> sq = 8" for sess sq using that tcp_demo_seg by auto
  from dInsertTCPData_correct [where k = tcp_demo_key, OF D(1) w dir [OF syn] D(3) [symmetric] refl ok [OF disjI1 [OF refl]]]
  obtain s1 sess1 del1 qs1 where r:
    "dInsertTCPData tcp_demo_env s tcp_demo_key tcp_demo_sess tcp_demo_cap (tcp_demo_eth 0xffffffe8) q1 = Some (s1, sess1, del1)"
    "tcp_waits tcp_demo_env s1 sess1 DReq qs1 [[[q2]]]" "tcp_covered 0xffffffc0 qs1 = {40..<90} - {..<1}"
    "sess1 = dir_set_head tcp_demo_sess DReq (dir_head sess1 DReq)" "nifo_keeps (tc_nifo s) (tc_nifo s1) q1"
    by (auto simp: D(2) tcp_demo_seg)
  obtain p where p: "sess1 = dir_set_head tcp_demo_sess DReq p" using r(4) by blast
  have D1: "dir_ok sess1 DReq" "dir_pos sess1 DReq = 1" "dir_base sess1 DReq = 0xffffffc0" "ts_ucSynRtx sess1 = 1"
    using D syn unfolding p by (simp_all add: dir_ok_def dir_pos_def dir_defs)
  have room: "tcp_room tcp_demo_env s1 (hd [q2])"
    using nifo_keeps_room [OF r(5)] b(5) [OF n] b(6) by simp
  from dInsertTCPData_correct [where k = tcp_demo_key, OF D1(1) r(2) room dir [OF D1(4)] D1(3) [symmetric] refl ok [OF disjI2 [OF refl]]]
  obtain s2 sess2 del2 qs2 where r2:
    "dInsertTCPData tcp_demo_env s1 tcp_demo_key sess1 tcp_demo_cap (tcp_demo_eth 8) q2 = Some (s2, sess2, del2)"
    "tcp_waits tcp_demo_env s2 sess2 DReq qs2 []" "tcp_covered 0xffffffc0 qs2 = tcp_covered 0xffffffc0 qs1 \<union> ({72..<122} - {..<1})"
    by (auto simp: D1(2) tcp_demo_seg)
  have "tcp_covered 0xffffffc0 qs2 = {40..<122}" unfolding r2(3) r(3) by auto
  then show ?thesis using w(1) r(1) r2(1,2) by blast
qed

end
