(* ===== verification/TcpLifeProps.thy ===== *)
theory TcpLifeProps
  imports TcpLife TcpInsert
begin

text \<open>
  The end of a TCP session: the FINs and their acknowledgements against a specification of the two ends, a
  session that closes, the codes of ended sessions, and the numbers at which the source goes wrong.
\<close>

section \<open>The end of a session\<close>

text \<open>The directions of the two ends of a session.\<close>

definition tcp_side :: "u8 \<Rightarrow> bool" where
  "tcp_side d \<longleftrightarrow> d = DEF_FROM_CLIENT \<or> d = DEF_FROM_SERVER"

lemma tcp_sideE: "tcp_side d \<Longrightarrow> (d = 1 \<Longrightarrow> P) \<Longrightarrow> (d = 2 \<Longrightarrow> P) \<Longrightarrow> P"
  by (auto simp: tcp_side_def DEF_FROM_CLIENT_def DEF_FROM_SERVER_def)

lemma tcp_other_simps [simp]: "tcp_other 1 = 2" "tcp_other 2 = 1"
  by (simp_all add: tcp_other_def DEF_FROM_CLIENT_def DEF_FROM_SERVER_def)

text \<open>What is known of the end of a direction: the number after its FIN, and whether that was
  acknowledged.\<close>

definition fin_view :: "tcpsess \<Rightarrow> u8 \<Rightarrow> (u32 \<times> bool) option" where
  "fin_view sess d = (if \<not> tcp_side d then None else
     let a = ts_uiFinChkAck sess ! unat d in if a = 0 then None else Some (a, ts_uiFinChkSeq sess ! unat d > 0))"

text \<open>The specification: a FIN tells the end of its direction, an acknowledgement covers the end of the other one.
  The FIN that is the second of the two counts as an acknowledgement too.\<close>

definition view_ack :: "u8 \<Rightarrow> u32 \<Rightarrow> (u8 \<Rightarrow> (u32 \<times> bool) option) \<Rightarrow> (u8 \<Rightarrow> (u32 \<times> bool) option)" where
  "view_ack d ack v = (case v (tcp_other d) of
     Some (y, b) \<Rightarrow> if y \<le> ack then v(tcp_other d := Some (y, True)) else v | None \<Rightarrow> v)"

definition view_fin :: "u8 \<Rightarrow> u32 \<Rightarrow> u32 \<Rightarrow> (u8 \<Rightarrow> (u32 \<times> bool) option) \<Rightarrow> (u8 \<Rightarrow> (u32 \<times> bool) option)" where
  "view_fin d x ack v =
     (let v1 = v(d := Some (x, (case v d of Some (y, b) \<Rightarrow> x = y \<and> b | None \<Rightarrow> False)))
      in if v d = None then view_ack d ack v1 else v1)"

definition view_over :: "(u8 \<Rightarrow> (u32 \<times> bool) option) \<Rightarrow> bool" where
  "view_over v \<longleftrightarrow> map_option snd (v DEF_FROM_CLIENT) = Some True \<and> map_option snd (v DEF_FROM_SERVER) = Some True"

text \<open>The state of a session that is not over: the number of FINs, and whose was the first.\<close>

definition fin_ok :: "tcpsess \<Rightarrow> bool" where
  "fin_ok sess \<longleftrightarrow> length (ts_uiFinChkAck sess) = DEF_ARRAY_RTX \<and> length (ts_uiFinChkSeq sess) = DEF_ARRAY_RTX \<and>
     (\<forall>d. tcp_side d \<longrightarrow> ts_uiFinChkAck sess ! unat d = 0 \<longrightarrow> ts_uiFinChkSeq sess ! unat d = 0) \<and>
     (ts_ucFinStatus sess = DEF_FIN_0 \<and> fin_view sess DEF_FROM_CLIENT = None \<and> fin_view sess DEF_FROM_SERVER = None \<or>
      ts_ucFinStatus sess = DEF_FIN_1 \<and> tcp_side (ts_ucFinRtx sess) \<and> fin_view sess (ts_ucFinRtx sess) \<noteq> None \<and>
        fin_view sess (tcp_other (ts_ucFinRtx sess)) = None \<or>
      ts_ucFinStatus sess = DEF_FIN_2 \<and> tcp_side (ts_ucFinRtx sess) \<and>
        fin_view sess DEF_FROM_CLIENT \<noteq> None \<and> fin_view sess DEF_FROM_SERVER \<noteq> None)"

lemmas fin_consts = DEF_FROM_CLIENT_def DEF_FROM_SERVER_def DEF_FIN_0_def DEF_FIN_1_def DEF_FIN_2_def DEF_FIN_3_def
  DEF_ARRAY_RTX_def tcp_side_def

lemma length_3: "length xs = 3 \<longleftrightarrow> (\<exists>a b c. xs = [a, b, c])"
  by (auto simp: eval_nat_numeral length_Suc_conv)

text \<open>A session by its three FIN fields and the two arrays.\<close>

lemma fin_ok_arrays:
  assumes "fin_ok sess"
  obtains a0 a1 a2 q0 q1 q2 where "ts_uiFinChkAck sess = [a0, a1, a2]" "ts_uiFinChkSeq sess = [q0, q1, q2]"
  using assms unfolding fin_ok_def DEF_ARRAY_RTX_def length_3 by blast

lemma tcp_set_fields [simp]:
  "ts_uiFinChkAck (fst (tcp_set_server st p)) = ts_uiFinChkAck (fst p)" "ts_uiFinChkSeq (fst (tcp_set_server st p)) = ts_uiFinChkSeq (fst p)"
  "ts_ucFinStatus (fst (tcp_set_server st p)) = ts_ucFinStatus (fst p)" "ts_ucFinRtx (fst (tcp_set_server st p)) = ts_ucFinRtx (fst p)"
  "ts_ucEndStatus (fst (tcp_set_server st p)) = ts_ucEndStatus (fst p)"
  "ts_uiFinChkAck (fst (tcp_set_client st p)) = ts_uiFinChkAck (fst p)" "ts_uiFinChkSeq (fst (tcp_set_client st p)) = ts_uiFinChkSeq (fst p)"
  "ts_ucFinStatus (fst (tcp_set_client st p)) = ts_ucFinStatus (fst p)" "ts_ucFinRtx (fst (tcp_set_client st p)) = ts_ucFinRtx (fst p)"
  "ts_ucEndStatus (fst (tcp_set_client st p)) = ts_ucEndStatus (fst p)"
  by (cases p; simp add: tcp_set_server_def tcp_set_client_def)+

lemma tcp_set_fin_fields [simp]:
  "ts_uiFinChkAck (fst (tcp_set_fin d p)) = ts_uiFinChkAck (fst p)" "ts_uiFinChkSeq (fst (tcp_set_fin d p)) = ts_uiFinChkSeq (fst p)"
  "ts_ucFinStatus (fst (tcp_set_fin d p)) = ts_ucFinStatus (fst p)" "ts_ucFinRtx (fst (tcp_set_fin d p)) = ts_ucFinRtx (fst p)"
  "ts_ucEndStatus (fst (tcp_set_fin d p)) = ts_ucEndStatus (fst p)"
  by (simp_all add: tcp_set_fin_def)

text \<open>All that the rules below look at.\<close>

definition fin_part :: "tcpsess \<Rightarrow> u8 \<times> u8 \<times> u8 \<times> u32 list \<times> u32 list" where
  "fin_part sess = (ts_ucFinStatus sess, ts_ucFinRtx sess, ts_ucEndStatus sess, ts_uiFinChkAck sess, ts_uiFinChkSeq sess)"

lemma fin_part_set [simp]:
  "fin_part (fst (tcp_set_server st p)) = fin_part (fst p)" "fin_part (fst (tcp_set_client st p)) = fin_part (fst p)"
  "fin_part (fst (tcp_set_fin d p)) = fin_part (fst p)"
  by (simp_all add: fin_part_def)

lemma tcp_fin_acked_3:
  assumes "ts_uiFinChkAck (fst p) = [a0, a1, a2]" "ts_uiFinChkSeq (fst p) = [q0, q1, q2]" "tcp_side d"
  shows "\<exists>p'. tcp_fin_acked d eth p =
      Some (p', [a0, a1, a2] ! unat d > 0 \<and> [a0, a1, a2] ! unat d \<le> ut_ack (ie_stUDPTCP eth)) \<and>
    fin_part (fst p') = (ts_ucFinStatus (fst p), ts_ucFinRtx (fst p), ts_ucEndStatus (fst p), [a0, a1, a2],
      if [a0, a1, a2] ! unat d > 0 \<and> [a0, a1, a2] ! unat d \<le> ut_ack (ie_stUDPTCP eth)
      then [q0, q1, q2][unat d := ut_seq (ie_stUDPTCP eth)] else [q0, q1, q2])"
proof (cases p)
  case (Pair sess log)
  show ?thesis
    by (rule tcp_sideE [OF assms(3)])
      (use assms(1,2) in \<open>auto simp: Pair Let_def fin_consts tcp_fin_acked_def chk_get_def chk_set_def fin_part_def tcp_set_server_def tcp_set_client_def\<close>)
qed

text \<open>The rule for a FIN on the arrays.\<close>

lemma tcp_on_fin_part:
  assumes "fin_ok (fst p)" "tcp_side d"
    "ts_uiFinChkAck (fst p) = as" "ts_uiFinChkSeq (fst p) = qs" "x = tcp_fin_end eth" "ack = ut_ack (ie_stUDPTCP eth)"
  shows "\<exists>p'. tcp_on_fin cap eth d p = Some p' \<and> fin_part (fst p') =
    (if ts_ucFinStatus (fst p) = DEF_FIN_0 then (DEF_FIN_1, d, ts_ucEndStatus (fst p), as[unat d := x], qs)
     else if ts_ucFinStatus (fst p) = DEF_FIN_1 \<and> ts_ucFinRtx (fst p) \<noteq> d
     then (DEF_FIN_2, ts_ucFinRtx (fst p), ts_ucEndStatus (fst p), as[unat d := x],
           if as ! unat (tcp_other d) > 0 \<and> as ! unat (tcp_other d) \<le> ack
           then qs[unat (tcp_other d) := ut_seq (ie_stUDPTCP eth)] else qs)
     else (ts_ucFinStatus (fst p), ts_ucFinRtx (fst p), ts_ucEndStatus (fst p), as[unat d := x],
           if as ! unat d = x then qs else qs[unat d := 0]))"
proof -
  obtain sess log where p: "p = (sess, log)" by (cases p)
  obtain a0 a1 a2 q0 q1 q2 where arr: "ts_uiFinChkAck sess = [a0, a1, a2]" "ts_uiFinChkSeq sess = [q0, q1, q2]"
    using assms(1) by (auto simp: p elim: fin_ok_arrays)
  have d: "d = 1 \<or> d = 2" using assms(2) by (simp add: fin_consts)
  have st: "ts_ucFinStatus sess = 0 \<or> ts_ucFinStatus sess = 1 \<or> ts_ucFinStatus sess = 2"
    using assms(1) by (auto simp: p fin_ok_def fin_consts)
  show ?thesis
  proof (cases "ts_ucFinStatus sess = 1 \<and> ts_ucFinRtx sess \<noteq> d")
    case True
    let ?p1 = "(sess\<lparr>ts_ucFinStatus := DEF_FIN_2, ts_uiFinChkAck := [a0, a1, a2][unat d := x]\<rparr>, log)"
    have o: "tcp_side (tcp_other d)" using d by (auto simp: fin_consts)
    obtain b0 b1 b2 where b: "[a0, a1, a2][unat d := x] = [b0, b1, b2]" using d by auto
    have same: "[b0, b1, b2] ! unat (tcp_other d) = as ! unat (tcp_other d)"
      using d arr(1) assms(3) unfolding b [symmetric] by (auto simp: p)
    have as: "as = [a0, a1, a2]" and qs: "qs = [q0, q1, q2]" using arr assms(3,4) by (simp_all add: p)
    obtain p2 where p2: "tcp_fin_acked (tcp_other d) eth ?p1 =
        Some (p2, as ! unat (tcp_other d) > 0 \<and> as ! unat (tcp_other d) \<le> ack)"
      "fin_part (fst p2) = (DEF_FIN_2, ts_ucFinRtx sess, ts_ucEndStatus sess, [b0, b1, b2],
        if as ! unat (tcp_other d) > 0 \<and> as ! unat (tcp_other d) \<le> ack
        then qs[unat (tcp_other d) := ut_seq (ie_stUDPTCP eth)] else qs)"
      using tcp_fin_acked_3 [of ?p1 b0 b1 b2 q0 q1 q2 "tcp_other d" eth] o arr(2) b assms(6) same qs by auto
    have "chk_set (ts_uiFinChkAck sess) d (tcp_fin_end eth) = Some ([a0, a1, a2][unat d := x])"
      using d arr(1) assms(5) by (auto simp: chk_set_def)
    then have "tcp_on_fin cap eth d p = Some (tcp_set_fin d (fst p2, tcp_count_fin d (snd p2)))"
      using True p2(1) by (cases p2) (simp add: p tcp_on_fin_def DEF_FIN_0_def DEF_FIN_1_def)
    moreover have "ts_ucFinStatus (fst p) \<noteq> DEF_FIN_0" "ts_ucFinStatus (fst p) = DEF_FIN_1 \<and> ts_ucFinRtx (fst p) \<noteq> d"
      using True by (simp_all add: p DEF_FIN_0_def DEF_FIN_1_def)
    moreover have "as[unat d := x] = [b0, b1, b2]" using b as by simp
    ultimately show ?thesis using p2(2) by (simp add: p)
  next
    case False
    have as: "as = [a0, a1, a2]" and qs: "qs = [q0, q1, q2]" using arr assms(3,4) by (simp_all add: p)
    note defs = p tcp_on_fin_def tcp_fin_again_def chk_get_def chk_set_def fin_consts as qs assms(5)
    show ?thesis
      using d st
    proof (elim disjE)
      assume c: "d = 1" "ts_ucFinStatus sess = 0"
      show ?thesis using c arr False by (simp add: defs, simp add: fin_part_def)
    next
      assume c: "d = 1" "ts_ucFinStatus sess = 1"
      show ?thesis using c arr False by (simp add: defs, simp add: fin_part_def)
    next
      assume c: "d = 1" "ts_ucFinStatus sess = 2"
      show ?thesis using c arr False by (simp add: defs, simp add: fin_part_def)
    next
      assume c: "d = 2" "ts_ucFinStatus sess = 0"
      show ?thesis using c arr False by (simp add: defs, simp add: fin_part_def)
    next
      assume c: "d = 2" "ts_ucFinStatus sess = 1"
      show ?thesis using c arr False by (simp add: defs, simp add: fin_part_def)
    next
      assume c: "d = 2" "ts_ucFinStatus sess = 2"
      show ?thesis using c arr False by (simp add: defs, simp add: fin_part_def)
    qed
  qed
qed

text \<open>What the view and the order of the FINs say in terms of the arrays.\<close>

lemma fin_view_arrays:
  assumes "fin_part sess = (st, r, e, [a0, a1, a2], [q0, q1, q2])"
  shows "fin_view sess 1 = (if a1 = 0 then None else Some (a1, q1 > 0))"
    "fin_view sess 2 = (if a2 = 0 then None else Some (a2, q2 > 0))"
    "d \<noteq> 1 \<Longrightarrow> d \<noteq> 2 \<Longrightarrow> fin_view sess d = None"
proof -
  have f: "ts_uiFinChkAck sess = [a0, a1, a2]" "ts_uiFinChkSeq sess = [q0, q1, q2]"
    using assms by (simp_all add: fin_part_def)
  show "fin_view sess 1 = (if a1 = 0 then None else Some (a1, q1 > 0))"
    by (simp add: fin_view_def f fin_consts)
  show "fin_view sess 2 = (if a2 = 0 then None else Some (a2, q2 > 0))"
    by (simp add: fin_view_def f fin_consts)
  show "d \<noteq> 1 \<Longrightarrow> d \<noteq> 2 \<Longrightarrow> fin_view sess d = None"
    by (simp add: fin_view_def fin_consts)
qed

lemma fin_ok_arrays_iff:
  assumes "fin_part sess = (st, r, e, [a0, a1, a2], [q0, q1, q2])"
  shows "fin_ok sess \<longleftrightarrow> (a1 = 0 \<longrightarrow> q1 = 0) \<and> (a2 = 0 \<longrightarrow> q2 = 0) \<and>
    (st = 0 \<and> a1 = 0 \<and> a2 = 0 \<or> st = 1 \<and> (r = 1 \<and> a1 \<noteq> 0 \<and> a2 = 0 \<or> r = 2 \<and> a2 \<noteq> 0 \<and> a1 = 0) \<or>
     st = 2 \<and> (r = 1 \<or> r = 2) \<and> a1 \<noteq> 0 \<and> a2 \<noteq> 0)"
proof -
  have f: "ts_uiFinChkAck sess = [a0, a1, a2]" "ts_uiFinChkSeq sess = [q0, q1, q2]" "ts_ucFinStatus sess = st" "ts_ucFinRtx sess = r"
    using assms by (simp_all add: fin_part_def)
  show ?thesis
    unfolding fin_ok_def f fin_consts using fin_view_arrays [OF assms] by (auto simp: f split: if_splits)
qed

lemma fin_view_eqI:
  assumes "v 1 = w 1" "v 2 = w 2" "\<And>d. d \<noteq> 1 \<Longrightarrow> d \<noteq> 2 \<Longrightarrow> v d = w d"
  shows "(v :: u8 \<Rightarrow> 'a) = w"
proof
  show "v d = w d" for d using assms by (cases "d = 1"; cases "d = 2") auto
qed

lemma fin_view_out: "d \<noteq> 1 \<Longrightarrow> d \<noteq> 2 \<Longrightarrow> fin_view sess d = None"
  by (simp add: fin_view_def fin_consts)

lemma tcp_on_fin_refines:
  assumes "fin_ok (fst p)" "tcp_side d" "tcp_fin_end eth \<noteq> 0" "ut_seq (ie_stUDPTCP eth) \<noteq> 0"
  shows "\<exists>p'. tcp_on_fin cap eth d p = Some p' \<and> fin_ok (fst p') \<and> ts_ucEndStatus (fst p') = ts_ucEndStatus (fst p) \<and>
    (ts_ucFinStatus (fst p) \<noteq> DEF_FIN_0 \<longrightarrow> ts_ucFinRtx (fst p') = ts_ucFinRtx (fst p)) \<and>
    fin_view (fst p') = view_fin d (tcp_fin_end eth) (ut_ack (ie_stUDPTCP eth)) (fin_view (fst p))"
proof -
  obtain a0 a1 a2 q0 q1 q2 where arr: "ts_uiFinChkAck (fst p) = [a0, a1, a2]" "ts_uiFinChkSeq (fst p) = [q0, q1, q2]"
    by (rule fin_ok_arrays [OF assms(1)])
  obtain st r en where part: "fin_part (fst p) = (st, r, en, [a0, a1, a2], [q0, q1, q2])"
    and f: "ts_ucFinStatus (fst p) = st" "ts_ucFinRtx (fst p) = r" "ts_ucEndStatus (fst p) = en"
    using arr by (simp add: fin_part_def)
  note ok = assms(1) [unfolded fin_ok_arrays_iff [OF part]]
  note v = fin_view_arrays(1,2) [OF part]
  obtain p' where run: "tcp_on_fin cap eth d p = Some p'"
    and p': "fin_part (fst p') =
      (if st = DEF_FIN_0 then (DEF_FIN_1, d, en, [a0, a1, a2][unat d := tcp_fin_end eth], [q0, q1, q2])
       else if st = DEF_FIN_1 \<and> r \<noteq> d
       then (DEF_FIN_2, r, en, [a0, a1, a2][unat d := tcp_fin_end eth],
             if [a0, a1, a2] ! unat (tcp_other d) > 0 \<and> [a0, a1, a2] ! unat (tcp_other d) \<le> ut_ack (ie_stUDPTCP eth)
             then [q0, q1, q2][unat (tcp_other d) := ut_seq (ie_stUDPTCP eth)] else [q0, q1, q2])
       else (st, r, en, [a0, a1, a2][unat d := tcp_fin_end eth],
             if [a0, a1, a2] ! unat d = tcp_fin_end eth then [q0, q1, q2] else [q0, q1, q2][unat d := 0]))"
    using tcp_on_fin_part [OF assms(1,2) arr refl refl, of cap eth] unfolding f by blast
  obtain st' r' b0 b1 b2 c0 c1 c2 where q: "fin_part (fst p') = (st', r', en, [b0, b1, b2], [c0, c1, c2])"
    by (rule tcp_sideE [OF assms(2)]; use p' in \<open>simp split: if_splits\<close>)
  note v' = fin_view_arrays(1,2) [OF q]
  have f': "ts_ucFinRtx (fst p') = r'" "ts_ucEndStatus (fst p') = en" using q by (simp_all add: fin_part_def)
  have "fin_ok (fst p') \<and> fin_view (fst p') = view_fin d (tcp_fin_end eth) (ut_ack (ie_stUDPTCP eth)) (fin_view (fst p)) \<and>
      (st \<noteq> DEF_FIN_0 \<longrightarrow> r' = r)"
  proof (rule tcp_sideE [OF assms(2)])
    assume d: "d = 1"
    have eq: "(st', r', [b0, b1, b2], [c0, c1, c2]) =
        (if st = 0 then (1, 1, [a0, tcp_fin_end eth, a2], [q0, q1, q2])
         else if st = 1 \<and> r \<noteq> 1
         then (2, r, [a0, tcp_fin_end eth, a2],
               if a2 > 0 \<and> a2 \<le> ut_ack (ie_stUDPTCP eth) then [q0, q1, ut_seq (ie_stUDPTCP eth)] else [q0, q1, q2])
         else (st, r, [a0, tcp_fin_end eth, a2], if a1 = tcp_fin_end eth then [q0, q1, q2] else [q0, 0, q2]))"
      using p' unfolding q d by (auto simp: fin_consts split: if_splits)
    have "fin_ok (fst p')" and r: "st \<noteq> 0 \<longrightarrow> r' = r"
      unfolding fin_ok_arrays_iff [OF q] using ok eq assms(3,4) by (auto split: if_splits)
    moreover have "fin_view (fst p') = view_fin d (tcp_fin_end eth) (ut_ack (ie_stUDPTCP eth)) (fin_view (fst p))"
    proof (rule fin_view_eqI)
      show "fin_view (fst p') 1 = view_fin d (tcp_fin_end eth) (ut_ack (ie_stUDPTCP eth)) (fin_view (fst p)) 1"
        unfolding v' view_fin_def view_ack_def d Let_def using ok eq assms(3,4) v by (auto simp: word_gt_0 split: if_splits)
      show "fin_view (fst p') 2 = view_fin d (tcp_fin_end eth) (ut_ack (ie_stUDPTCP eth)) (fin_view (fst p)) 2"
        unfolding v' view_fin_def view_ack_def d Let_def using ok eq assms(3,4) v by (auto simp: word_gt_0 split: if_splits)
      show "x \<noteq> 1 \<Longrightarrow> x \<noteq> 2 \<Longrightarrow> fin_view (fst p') x = view_fin d (tcp_fin_end eth) (ut_ack (ie_stUDPTCP eth)) (fin_view (fst p)) x" for x
        by (simp add: fin_view_out view_fin_def view_ack_def d Let_def split: option.split)
    qed
    ultimately show ?thesis by (simp add: DEF_FIN_0_def)
  next
    assume d: "d = 2"
    have eq: "(st', r', [b0, b1, b2], [c0, c1, c2]) =
        (if st = 0 then (1, 2, [a0, a1, tcp_fin_end eth], [q0, q1, q2])
         else if st = 1 \<and> r \<noteq> 2
         then (2, r, [a0, a1, tcp_fin_end eth],
               if a1 > 0 \<and> a1 \<le> ut_ack (ie_stUDPTCP eth) then [q0, ut_seq (ie_stUDPTCP eth), q2] else [q0, q1, q2])
         else (st, r, [a0, a1, tcp_fin_end eth], if a2 = tcp_fin_end eth then [q0, q1, q2] else [q0, q1, 0]))"
      using p' unfolding q d by (auto simp: fin_consts split: if_splits)
    have "fin_ok (fst p')" and r: "st \<noteq> 0 \<longrightarrow> r' = r"
      unfolding fin_ok_arrays_iff [OF q] using ok eq assms(3,4) by (auto split: if_splits)
    moreover have "fin_view (fst p') = view_fin d (tcp_fin_end eth) (ut_ack (ie_stUDPTCP eth)) (fin_view (fst p))"
    proof (rule fin_view_eqI)
      show "fin_view (fst p') 1 = view_fin d (tcp_fin_end eth) (ut_ack (ie_stUDPTCP eth)) (fin_view (fst p)) 1"
        unfolding v' view_fin_def view_ack_def d Let_def using ok eq assms(3,4) v by (auto simp: word_gt_0 split: if_splits)
      show "fin_view (fst p') 2 = view_fin d (tcp_fin_end eth) (ut_ack (ie_stUDPTCP eth)) (fin_view (fst p)) 2"
        unfolding v' view_fin_def view_ack_def d Let_def using ok eq assms(3,4) v by (auto simp: word_gt_0 split: if_splits)
      show "x \<noteq> 1 \<Longrightarrow> x \<noteq> 2 \<Longrightarrow> fin_view (fst p') x = view_fin d (tcp_fin_end eth) (ut_ack (ie_stUDPTCP eth)) (fin_view (fst p)) x" for x
        by (simp add: fin_view_out view_fin_def view_ack_def d Let_def split: option.split)
    qed
    ultimately show ?thesis by (simp add: DEF_FIN_0_def)
  qed
  then show ?thesis using run f f' by simp
qed

lemma fin_part_cong:
  assumes "fin_part s = fin_part s'"
  shows "fin_view s = fin_view s'" "fin_ok s = fin_ok s'" "ts_ucFinStatus s = ts_ucFinStatus s'"
    "ts_ucFinRtx s = ts_ucFinRtx s'" "ts_ucEndStatus s = ts_ucEndStatus s'"
proof -
  have f: "ts_uiFinChkAck s = ts_uiFinChkAck s'" "ts_uiFinChkSeq s = ts_uiFinChkSeq s'"
    "ts_ucFinStatus s = ts_ucFinStatus s'" "ts_ucFinRtx s = ts_ucFinRtx s'" "ts_ucEndStatus s = ts_ucEndStatus s'"
    using assms by (simp_all add: fin_part_def)
  show v: "fin_view s = fin_view s'" by (rule ext) (simp add: fin_view_def Let_def f)
  show "fin_ok s = fin_ok s'" by (simp add: fin_ok_def f v)
qed (use assms in \<open>simp_all add: fin_part_def\<close>)

text \<open>An acknowledgement is the step of the specification; it ends the session exactly when both ends are
  then acknowledged.\<close>

lemma tcp_ack_fin_refines:
  assumes "fin_ok (fst p)" "tcp_side d" "ut_seq (ie_stUDPTCP eth) \<noteq> 0" "\<not> view_over (fin_view (fst p))"
    "v = view_ack d (ut_ack (ie_stUDPTCP eth)) (fin_view (fst p))"
  shows "\<exists>p'. tcp_ack_fin cap eth d p = Some p' \<and> ts_ucFinRtx (fst p') = ts_ucFinRtx (fst p) \<and> fin_view (fst p') = v \<and>
    (if view_over v then ts_ucEndStatus (fst p') = DEF_END_NORMAL \<and> ts_ucFinStatus (fst p') = DEF_FIN_3
     else fin_ok (fst p') \<and> ts_ucEndStatus (fst p') = ts_ucEndStatus (fst p) \<and> ts_ucFinStatus (fst p') = ts_ucFinStatus (fst p))"
proof -
  let ?ack = "ut_ack (ie_stUDPTCP eth)" and ?seq = "ut_seq (ie_stUDPTCP eth)"
  obtain a0 a1 a2 q0 q1 q2 where arr: "ts_uiFinChkAck (fst p) = [a0, a1, a2]" "ts_uiFinChkSeq (fst p) = [q0, q1, q2]"
    by (rule fin_ok_arrays [OF assms(1)])
  obtain st r en where part: "fin_part (fst p) = (st, r, en, [a0, a1, a2], [q0, q1, q2])"
    and f: "ts_ucFinStatus (fst p) = st" "ts_ucFinRtx (fst p) = r" "ts_ucEndStatus (fst p) = en"
    using arr by (simp add: fin_part_def)
  note ok = assms(1) [unfolded fin_ok_arrays_iff [OF part]]
  note fv = fin_view_arrays(1,2) [OF part]
  have d: "d = 1 \<or> d = 2" and o: "tcp_side (tcp_other d)" using assms(2) by (auto simp: fin_consts)
  define x where "x = [a0, a1, a2] ! unat (tcp_other d)"
  obtain p2 where p2: "tcp_fin_acked (tcp_other d) eth p = Some (p2, x > 0 \<and> x \<le> ?ack)"
    "fin_part (fst p2) = (st, r, en, [a0, a1, a2], if x > 0 \<and> x \<le> ?ack then [q0, q1, q2][unat (tcp_other d) := ?seq] else [q0, q1, q2])"
    using tcp_fin_acked_3 [OF arr o, of eth] unfolding f x_def by blast
  have x: "x = (if d = 1 then a2 else a1)" using d by (auto simp: x_def)
  show ?thesis
  proof (cases "st = 0 \<or> \<not> (x > 0 \<and> x \<le> ?ack)")
    case True
    have v: "fin_view (fst p) = v"
      unfolding assms(5) view_ack_def using True ok d fv x by (auto simp: word_gt_0 split: option.split)
    have "\<exists>p'. tcp_ack_fin cap eth d p = Some p' \<and> fin_part (fst p') = fin_part (fst p)"
    proof (cases "st = 0")
      case True
      then show ?thesis by (simp add: tcp_ack_fin_def f DEF_FIN_0_def)
    next
      case False
      then show ?thesis using True p2 part by (cases p2) (auto simp: tcp_ack_fin_def f DEF_FIN_0_def word_gt_0)
    qed
    then obtain p' where p': "tcp_ack_fin cap eth d p = Some p'" "fin_part (fst p') = fin_part (fst p)" by blast
    show ?thesis
      by (rule exI [of _ p']) (use p'(1) fin_part_cong [OF p'(2)] v assms(1,4) in simp)
  next
    case False
    have hit: "st \<noteq> 0" "x \<noteq> 0" using False by (auto simp: word_gt_0)
    obtain sess2 log2 where s2: "p2 = (sess2, log2)" by (cases p2)
    define c1 where "c1 = (if d = 1 then q1 else ?seq)"
    define c2 where "c2 = (if d = 1 then ?seq else q2)"
    have arr2: "fin_part sess2 = (st, r, en, [a0, a1, a2], [q0, c1, c2])"
      using p2(2) False d by (auto simp: s2 c1_def c2_def)
    have ch: "ts_uiFinChkSeq sess2 = [q0, c1, c2]" using arr2 by (simp add: fin_part_def)
    have v: "v = fin_view sess2"
    proof (rule fin_view_eqI)
      show "v 1 = fin_view sess2 1"
        unfolding assms(5) view_ack_def fin_view_arrays(1) [OF arr2]
        using False d fv x ok assms(3) by (auto simp: c1_def word_gt_0)
      show "v 2 = fin_view sess2 2"
        unfolding assms(5) view_ack_def fin_view_arrays(2) [OF arr2]
        using False d fv x ok assms(3) by (auto simp: c2_def word_gt_0)
      show "y \<noteq> 1 \<Longrightarrow> y \<noteq> 2 \<Longrightarrow> v y = fin_view sess2 y" for y
        unfolding assms(5) view_ack_def using d by (auto simp: fin_view_out split: option.split)
    qed
    have over: "view_over v \<longleftrightarrow> a1 \<noteq> 0 \<and> a2 \<noteq> 0 \<and> c1 > 0 \<and> c2 > 0"
      unfolding v view_over_def using fin_view_arrays(1,2) [OF arr2] by (auto simp: fin_consts)
    have both: "c1 > 0 \<and> c2 > 0 \<Longrightarrow> a1 \<noteq> 0 \<and> a2 \<noteq> 0"
      using False d x ok by (auto simp: c1_def c2_def word_gt_0 split: if_splits)
    have run: "tcp_ack_fin cap eth d p =
      Some (if c1 > 0 \<and> c2 > 0
        then (sess2\<lparr>ts_ucEndStatus := DEF_END_NORMAL, ts_ucFinStatus := DEF_FIN_3\<rparr>,
              log2\<lparr>tl_uiTcpFinAckTime := s32 (cp_curtime cap), tl_uiTcpFinAckMTime := s32 (cp_ucurtime cap)\<rparr>)
        else (sess2, log2))"
      using False p2(1) ok by (auto simp: tcp_ack_fin_def f s2 chk_get_def ch fin_consts word_gt_0)
    show ?thesis
    proof (cases "c1 > 0 \<and> c2 > 0")
      case True
      let ?s = "sess2\<lparr>ts_ucEndStatus := DEF_END_NORMAL, ts_ucFinStatus := DEF_FIN_3\<rparr>"
      have "fin_view ?s = fin_view sess2" by (rule ext) (simp add: fin_view_def Let_def)
      moreover have "ts_ucFinRtx ?s = r" using arr2 by (simp add: fin_part_def)
      ultimately show ?thesis using run True over both v f by simp
    next
      case False
      have "fin_ok sess2"
        unfolding fin_ok_arrays_iff [OF arr2] using ok d hit by (auto simp: c1_def c2_def x)
      moreover have "ts_ucFinRtx sess2 = r" "ts_ucEndStatus sess2 = en" "ts_ucFinStatus sess2 = st"
        using arr2 by (simp_all add: fin_part_def)
      ultimately show ?thesis using run False over v f by auto
    qed
  qed
qed

section \<open>The closing of a session\<close>

type_synonym tcp_pkt = "caphead \<times> infoeth"

definition pkt_side :: "tcp_pkt \<Rightarrow> u8" where "pkt_side q = cp_bRtxType (fst q)"
definition pkt_control :: "tcp_pkt \<Rightarrow> u8" where "pkt_control q = GetTCPControl (ut_nControlType (ie_stUDPTCP (snd q)))"
definition pkt_seq :: "tcp_pkt \<Rightarrow> u32" where "pkt_seq q = ut_seq (ie_stUDPTCP (snd q))"
definition pkt_ack :: "tcp_pkt \<Rightarrow> u32" where "pkt_ack q = ut_ack (ie_stUDPTCP (snd q))"
definition pkt_end :: "tcp_pkt \<Rightarrow> u32" where "pkt_end q = tcp_fin_end (snd q)"

text \<open>What the switch of \<open>dProcTcpSess\<close> does with the FINs and acknowledgements of a session that is
  established; the session is closed with the packet after which its status is \<open>DEF_END_NORMAL\<close>.\<close>

definition tcp_close_step :: "tcp_pkt \<Rightarrow> tcppair \<Rightarrow> tcppair option" where
  "tcp_close_step q p =
     (if pkt_control q = TCP_FIN then tcp_on_fin (fst q) (snd q) (pkt_side q) p
      else tcp_ack_fin (fst q) (snd q) (pkt_side q) p)"

fun tcp_close_run :: "tcp_pkt list \<Rightarrow> tcppair \<Rightarrow> tcppair option" where
  "tcp_close_run [] p = Some p"
| "tcp_close_run (q # qs) p = do {
     p1 \<leftarrow> tcp_close_step q p;
     if ts_ucEndStatus (fst p1) = DEF_END_NORMAL then Some p1 else tcp_close_run qs p1
   }"

text \<open>The packets after both FINs: acknowledgements, and the FINs again.\<close>

definition closing_pkt :: "(u8 \<Rightarrow> u32) \<Rightarrow> tcp_pkt \<Rightarrow> bool" where
  "closing_pkt ends q \<longleftrightarrow> tcp_side (pkt_side q) \<and> pkt_seq q \<noteq> 0 \<and>
     (pkt_control q = TCP_ACK \<or> pkt_control q = TCP_FIN \<and> pkt_end q = ends (pkt_side q))"

text \<open>An acknowledgement of the end of direction \<open>d\<close>.\<close>

definition covers :: "(u8 \<Rightarrow> u32) \<Rightarrow> u8 \<Rightarrow> tcp_pkt \<Rightarrow> bool" where
  "covers ends d q \<longleftrightarrow> pkt_control q = TCP_ACK \<and> pkt_side q = tcp_other d \<and> ends d \<le> pkt_ack q"

definition fin_ends :: "(u8 \<Rightarrow> u32) \<Rightarrow> tcpsess \<Rightarrow> bool" where
  "fin_ends ends sess \<longleftrightarrow> (\<forall>d. tcp_side d \<longrightarrow> map_option fst (fin_view sess d) = Some (ends d))"

definition fin_acked :: "tcpsess \<Rightarrow> u8 \<Rightarrow> bool" where
  "fin_acked sess d \<longleftrightarrow> map_option snd (fin_view sess d) = Some True"

lemma view_over_acked: "view_over (fin_view sess) \<longleftrightarrow> (\<forall>d. tcp_side d \<longrightarrow> fin_acked sess d)"
  by (auto simp: view_over_def fin_acked_def tcp_side_def)

lemma tcp_close_step_ok:
  assumes "fin_ok (fst p)" "fin_ends ends (fst p)" "\<not> view_over (fin_view (fst p))" "closing_pkt ends q"
    "\<forall>d. tcp_side d \<longrightarrow> ends d \<noteq> 0" "ts_ucEndStatus (fst p) \<noteq> DEF_END_NORMAL"
  shows "\<exists>p'. tcp_close_step q p = Some p' \<and> ts_ucFinRtx (fst p') = ts_ucFinRtx (fst p) \<and>
    (if ts_ucEndStatus (fst p') = DEF_END_NORMAL then ts_ucFinStatus (fst p') = DEF_FIN_3
     else fin_ok (fst p') \<and> fin_ends ends (fst p') \<and> \<not> view_over (fin_view (fst p'))) \<and>
    (\<forall>d. tcp_side d \<longrightarrow> fin_acked (fst p) d \<or> covers ends d q \<longrightarrow>
       ts_ucEndStatus (fst p') = DEF_END_NORMAL \<or> fin_acked (fst p') d)"
proof -
  let ?v = "fin_view (fst p)"
  have side: "tcp_side (pkt_side q)" and seq: "ut_seq (ie_stUDPTCP (snd q)) \<noteq> 0"
    using assms(4) by (simp_all add: closing_pkt_def pkt_seq_def)
  have known: "map_option fst (?v d) = Some (ends d)" if "tcp_side d" for d
    using assms(2) that by (simp add: fin_ends_def)
  show ?thesis
  proof (cases "pkt_control q = TCP_FIN")
    case True
    have "closing_pkt ends q" by (rule assms(4))
    moreover have "pkt_control q \<noteq> TCP_ACK" using True by (simp add: TCP_FIN_def TCP_ACK_def)
    ultimately have x: "tcp_fin_end (snd q) = ends (pkt_side q)" by (simp add: closing_pkt_def pkt_end_def)
    obtain b where b: "?v (pkt_side q) = Some (ends (pkt_side q), b)" using known [OF side] by auto
    have same: "view_fin (pkt_side q) (tcp_fin_end (snd q)) (ut_ack (ie_stUDPTCP (snd q))) ?v = ?v"
      using b by (auto simp: view_fin_def x)
    have "ts_ucFinStatus (fst p) \<noteq> DEF_FIN_0"
      using assms(1) known [of DEF_FROM_CLIENT] by (auto simp: fin_ok_def tcp_side_def DEF_FIN_0_def DEF_FIN_1_def DEF_FIN_2_def)
    with tcp_on_fin_refines [OF assms(1) side _ seq, of "fst q"] assms(5) side x same
    obtain p' where p': "tcp_on_fin (fst q) (snd q) (pkt_side q) p = Some p'" "fin_ok (fst p')"
      "ts_ucEndStatus (fst p') = ts_ucEndStatus (fst p)" "ts_ucFinRtx (fst p') = ts_ucFinRtx (fst p)" "fin_view (fst p') = ?v"
      by auto
    have "\<not> covers ends d q" for d using True by (simp add: covers_def TCP_FIN_def TCP_ACK_def)
    then show ?thesis
      using p' assms(2,3,6) True by (simp add: tcp_close_step_def fin_ends_def fin_acked_def)
  next
    case False
    define v where "v = view_ack (pkt_side q) (ut_ack (ie_stUDPTCP (snd q))) ?v"
    obtain p' where p': "tcp_ack_fin (fst q) (snd q) (pkt_side q) p = Some p'" "ts_ucFinRtx (fst p') = ts_ucFinRtx (fst p)"
      "fin_view (fst p') = v"
      "if view_over v then ts_ucEndStatus (fst p') = DEF_END_NORMAL \<and> ts_ucFinStatus (fst p') = DEF_FIN_3
       else fin_ok (fst p') \<and> ts_ucEndStatus (fst p') = ts_ucEndStatus (fst p) \<and> ts_ucFinStatus (fst p') = ts_ucFinStatus (fst p)"
      using tcp_ack_fin_refines [OF assms(1) side seq assms(3) v_def, of "fst q"] by (elim exE conjE) (rule that; assumption)
    have fst_v: "map_option fst (v d) = map_option fst (?v d)" for d
      unfolding v_def view_ack_def by (auto split: option.split)
    have ends': "fin_ends ends (fst p')" using known by (simp add: fin_ends_def p'(3) fst_v)
    have acked: "fin_acked (fst p') d" if d: "tcp_side d" "fin_acked (fst p) d \<or> covers ends d q" for d
    proof -
      obtain b where b: "?v d = Some (ends d, b)" using known [OF d(1)] by auto
      have oo: "tcp_other (tcp_other d) = d" by (rule tcp_sideE [OF d(1)]) simp_all
      show ?thesis
      proof (cases "tcp_other (pkt_side q) = d")
        case True
        then show ?thesis
          using d(2) b by (auto simp: fin_acked_def p'(3) v_def view_ack_def covers_def pkt_ack_def)
      next
        case False
        then have "fin_acked (fst p) d" using d(2) oo by (auto simp: covers_def)
        moreover have "v d = ?v d" using False by (auto simp: v_def view_ack_def split: option.split)
        ultimately show ?thesis by (simp add: fin_acked_def p'(3))
      qed
    qed
    show ?thesis
      using p'(1,2,4) False ends' acked assms(6)
      by (intro exI [of _ p']) (auto simp: tcp_close_step_def p'(3) split: if_splits)
  qed
qed

text \<open>A session with both FINs, then any acknowledgements and repeated FINs among which each end is covered:
  it ends normally.\<close>

lemma tcp_close_run_ends:
  assumes "fin_ok (fst p)" "fin_ends ends (fst p)" "\<not> view_over (fin_view (fst p))" "\<forall>q \<in> set qs. closing_pkt ends q"
    "\<forall>d. tcp_side d \<longrightarrow> ends d \<noteq> 0" "ts_ucEndStatus (fst p) \<noteq> DEF_END_NORMAL"
    "\<forall>d. tcp_side d \<longrightarrow> fin_acked (fst p) d \<or> (\<exists>q \<in> set qs. covers ends d q)"
  shows "\<exists>p'. tcp_close_run qs p = Some p' \<and> ts_ucEndStatus (fst p') = DEF_END_NORMAL \<and>
    ts_ucFinStatus (fst p') = DEF_FIN_3 \<and> ts_ucFinRtx (fst p') = ts_ucFinRtx (fst p)"
  using assms
proof (induction qs arbitrary: p)
  case Nil
  then have "view_over (fin_view (fst p))" by (simp add: view_over_acked)
  with Nil.prems(3) show ?case by blast
next
  case (Cons q qs)
  have q: "closing_pkt ends q" using Cons.prems(4) by simp
  obtain p1 where p1: "tcp_close_step q p = Some p1" "ts_ucFinRtx (fst p1) = ts_ucFinRtx (fst p)"
    "if ts_ucEndStatus (fst p1) = DEF_END_NORMAL then ts_ucFinStatus (fst p1) = DEF_FIN_3
     else fin_ok (fst p1) \<and> fin_ends ends (fst p1) \<and> \<not> view_over (fin_view (fst p1))"
    "\<forall>d. tcp_side d \<longrightarrow> fin_acked (fst p) d \<or> covers ends d q \<longrightarrow> ts_ucEndStatus (fst p1) = DEF_END_NORMAL \<or> fin_acked (fst p1) d"
    using tcp_close_step_ok [OF Cons.prems(1-3) q Cons.prems(5,6)] by (elim exE conjE) (rule that; assumption)
  show ?case
  proof (cases "ts_ucEndStatus (fst p1) = DEF_END_NORMAL")
    case True
    then show ?thesis using p1(1-3) by simp
  next
    case False
    have "\<forall>d. tcp_side d \<longrightarrow> fin_acked (fst p1) d \<or> (\<exists>q \<in> set qs. covers ends d q)"
      using Cons.prems(7) p1(4) False by auto
    moreover have "\<forall>q \<in> set qs. closing_pkt ends q" using Cons.prems(4) by simp
    moreover have "fin_ok (fst p1)" "fin_ends ends (fst p1)" "\<not> view_over (fin_view (fst p1))" using p1(3) False by simp_all
    ultimately show ?thesis using Cons.IH [of p1] Cons.prems(5) False p1(1,2) by simp
  qed
qed

section \<open>The codes of ended sessions\<close>

text \<open>Why a session ended: which side closed first, in which state it stopped, which side reset it.\<close>

datatype tcp_cause = CClosed bool | CAbnormal | CLast u8 | CLastFin bool | CRst u8 bool | CRstFin bool bool

definition tcp_cause :: "tcpsess \<Rightarrow> tcp_cause" where
  "tcp_cause s =
     (let fin = (ts_ucFinRtx s = DEF_FROM_SERVER); rst = (ts_ucRstRtx s = DEF_FROM_SERVER) in
      if ts_ucEndStatus s = DEF_END_NORMAL then CClosed fin
      else if ts_ucEndStatus s = DEF_END_ABNORMAL then CAbnormal
      else if ts_ucEndStatus s = DEF_END_LONGLAST
      then (if ts_ucFinStatus s = DEF_FIN_0 then CLast (ts_ucStatus s) else CLastFin fin)
      else (if ts_ucFinStatus s = DEF_FIN_0 then CRst (ts_ucStatus s) rst else CRstFin fin rst))"

definition tcp_ended :: "tcpsess \<Rightarrow> bool" where
  "tcp_ended s \<longleftrightarrow> ts_ucStatus s \<in> {DEF_STATUS_SYN, DEF_STATUS_SYNACK, DEF_STATUS_ACK} \<and>
     (ts_ucEndStatus s = DEF_END_NORMAL \<and> ts_ucFinStatus s = DEF_FIN_3 \<or>
      ts_ucEndStatus s \<in> {DEF_END_ABNORMAL, DEF_END_LONGLAST, DEF_END_RST} \<and>
      ts_ucFinStatus s \<in> {DEF_FIN_0, DEF_FIN_1, DEF_FIN_2})"

definition tcp_causes :: "tcp_cause set" where
  "tcp_causes = {c. \<forall>st srv. c = CLast st \<or> c = CRst st srv \<longrightarrow> st \<in> {DEF_STATUS_SYN, DEF_STATUS_SYNACK, DEF_STATUS_ACK}}"

fun cause_code :: "tcp_cause \<Rightarrow> u16" where
  "cause_code (CClosed srv) = (if srv then TCP_NOERR_FIN_E2 else TCP_NOERR_FIN_E1)"
| "cause_code CAbnormal = ABNORMAL_TRANS"
| "cause_code (CLast st) = (if st = DEF_STATUS_SYN then LONGLAST_SYN_TRANS
     else if st = DEF_STATUS_SYNACK then LONGLAST_SYNACK_TRANS else LONGLAST_NOFIN_TRANS)"
| "cause_code (CLastFin srv) = (if srv then LONGLAST_FIN_E2 else LONGLAST_FIN_E1)"
| "cause_code (CRst st srv) =
     (if st = DEF_STATUS_SYN then (if srv then TCP_ERR_RST_E2_SYN else TCP_ERR_RST_E1_SYN)
      else if st = DEF_STATUS_SYNACK then (if srv then TCP_ERR_RST_E2_SYNACK else TCP_ERR_RST_E1_SYNACK)
      else (if srv then TCP_ERR_RST_E2_NOFIN else TCP_ERR_RST_E1_NOFIN))"
| "cause_code (CRstFin fin rst) =
     (if fin then (if rst then TCP_ERR_RST_E2_FIN_E2 else TCP_ERR_RST_E1_FIN_E2)
      else (if rst then TCP_ERR_RST_E2_FIN_E1 else TCP_ERR_RST_E1_FIN_E1))"

lemmas end_consts = DEF_STATUS_SYN_def DEF_STATUS_SYNACK_def DEF_STATUS_ACK_def DEF_END_NORMAL_def DEF_END_ABNORMAL_def
  DEF_END_LONGLAST_def DEF_END_RST_def DEF_FIN_0_def DEF_FIN_1_def DEF_FIN_2_def DEF_FIN_3_def

lemmas code_consts = TCP_NOERR_FIN_E1_def TCP_NOERR_FIN_E2_def ABNORMAL_TRANS_def LONGLAST_SYN_TRANS_def
  LONGLAST_SYNACK_TRANS_def LONGLAST_NOFIN_TRANS_def LONGLAST_FIN_E1_def LONGLAST_FIN_E2_def TCP_ERR_RST_E1_SYN_def
  TCP_ERR_RST_E1_SYNACK_def TCP_ERR_RST_E1_NOFIN_def TCP_ERR_RST_E1_FIN_E1_def TCP_ERR_RST_E1_FIN_E2_def
  TCP_ERR_RST_E2_SYN_def TCP_ERR_RST_E2_SYNACK_def TCP_ERR_RST_E2_NOFIN_def TCP_ERR_RST_E2_FIN_E1_def TCP_ERR_RST_E2_FIN_E2_def

lemma GetFailCode_ended:
  assumes "tcp_ended s"
  shows "GetFailCode s = cause_code (tcp_cause s)" "tcp_cause s \<in> tcp_causes"
proof -
  have st: "ts_ucStatus s = 1 \<or> ts_ucStatus s = 2 \<or> ts_ucStatus s = 4"
    and en: "ts_ucEndStatus s = 1 \<and> ts_ucFinStatus s = 3 \<or>
      (ts_ucEndStatus s = 2 \<or> ts_ucEndStatus s = 3 \<or> ts_ucEndStatus s = 4) \<and>
      (ts_ucFinStatus s = 0 \<or> ts_ucFinStatus s = 1 \<or> ts_ucFinStatus s = 2)"
    using assms by (auto simp: tcp_ended_def end_consts)
  show "GetFailCode s = cause_code (tcp_cause s)"
    using en st by (elim disjE conjE) (simp_all add: GetFailCode_def tcp_cause_def end_consts Let_def)
  show "tcp_cause s \<in> tcp_causes"
    using st by (simp add: tcp_causes_def tcp_cause_def end_consts Let_def)
qed

lemma cause_code_inj: "inj_on cause_code tcp_causes"
proof -
  define cs where "cs = [CClosed True, CClosed False, CAbnormal, CLast 1, CLast 2, CLast 4, CLastFin True, CLastFin False,
    CRst 1 True, CRst 1 False, CRst 2 True, CRst 2 False, CRst 4 True, CRst 4 False,
    CRstFin True True, CRstFin True False, CRstFin False True, CRstFin False False]"
  have codes: "map cause_code cs = [2, 1, 15, 31, 32, 33, 35, 34, 51, 41, 52, 42, 53, 43, 55, 45, 54, 44]"
    by (simp add: cs_def code_consts end_consts)
  have "distinct (map cause_code cs)" unfolding codes by simp
  then have "inj_on cause_code (set cs)" unfolding distinct_map by (rule conjunct2)
  moreover have "tcp_causes \<subseteq> set cs"
  proof
    show "c \<in> set cs" if "c \<in> tcp_causes" for c
      using that by (cases c) (auto simp: tcp_causes_def cs_def end_consts)
  qed
  ultimately show ?thesis by (rule inj_on_subset)
qed

lemma cause_code_nonzero: "c \<in> tcp_causes \<Longrightarrow> cause_code c \<noteq> 0"
  by (cases c) (auto simp: code_consts)

section \<open>The number 0\<close>

lemma tcp_fin_at_zero:
  assumes "fin_ok (fst p)" "tcp_side d" "ts_ucFinStatus (fst p) = DEF_FIN_0" "tcp_fin_end eth = 0"
  shows "\<exists>p1. tcp_on_fin cap eth d p = Some p1 \<and> ts_ucFinStatus (fst p1) = DEF_FIN_1 \<and>
    (\<forall>cap' eth'. tcp_ack_fin cap' eth' (tcp_other d) p1 = Some p1)"
proof -
  obtain a0 a1 a2 q0 q1 q2 where arr: "ts_uiFinChkAck (fst p) = [a0, a1, a2]" "ts_uiFinChkSeq (fst p) = [q0, q1, q2]"
    by (rule fin_ok_arrays [OF assms(1)])
  obtain p1 where p1: "tcp_on_fin cap eth d p = Some p1"
    "fin_part (fst p1) = (DEF_FIN_1, d, ts_ucEndStatus (fst p), [a0, a1, a2][unat d := 0], [q0, q1, q2])"
    using tcp_on_fin_part [OF assms(1,2) arr refl refl, of cap eth] assms(3,4) by auto
  have "ts_uiFinChkAck (fst p1) = [a0, a1, a2][unat d := 0]" using p1(2) by (simp add: fin_part_def)
  then have "chk_get (ts_uiFinChkAck (fst p1)) d = Some 0"
    using assms(2) by (auto simp: chk_get_def fin_consts)
  moreover have "tcp_other (tcp_other d) = d" by (rule tcp_sideE [OF assms(2)]) simp_all
  ultimately have "tcp_ack_fin cap' eth' (tcp_other d) p1 = Some p1" for cap' eth'
    by (cases p1) (simp add: tcp_ack_fin_def tcp_fin_acked_def)
  moreover have "ts_ucFinStatus (fst p1) = DEF_FIN_1" using p1(2) by (simp add: fin_part_def)
  ultimately show ?thesis using p1(1) by blast
qed

lemma tcp_ack_at_zero:
  assumes "fin_ok (fst p)" "tcp_side d" "ut_seq (ie_stUDPTCP eth) = 0"
  shows "\<exists>p1. tcp_ack_fin cap eth d p = Some p1 \<and> ts_ucEndStatus (fst p1) = ts_ucEndStatus (fst p)"
proof -
  obtain a0 a1 a2 q0 q1 q2 where arr: "ts_uiFinChkAck (fst p) = [a0, a1, a2]" "ts_uiFinChkSeq (fst p) = [q0, q1, q2]"
    by (rule fin_ok_arrays [OF assms(1)])
  have o: "tcp_other d = 1 \<or> tcp_other d = 2" by (rule tcp_sideE [OF assms(2)]) simp_all
  define x where "x = [a0, a1, a2] ! unat (tcp_other d)"
  have side: "tcp_side (tcp_other d)" using o by (auto simp: fin_consts)
  obtain p2 where p2: "tcp_fin_acked (tcp_other d) eth p = Some (p2, x > 0 \<and> x \<le> ut_ack (ie_stUDPTCP eth))"
    "fin_part (fst p2) = (ts_ucFinStatus (fst p), ts_ucFinRtx (fst p), ts_ucEndStatus (fst p), [a0, a1, a2],
       if x > 0 \<and> x \<le> ut_ack (ie_stUDPTCP eth) then [q0, q1, q2][unat (tcp_other d) := 0] else [q0, q1, q2])"
    using tcp_fin_acked_3 [OF arr side, of eth] unfolding assms(3) x_def by blast
  show ?thesis
  proof (cases "x > 0 \<and> x \<le> ut_ack (ie_stUDPTCP eth)")
    case False
    then show ?thesis using p2 by (cases p2; cases p) (auto simp: tcp_ack_fin_def fin_part_def)
  next
    case True
    have "ts_uiFinChkSeq (fst p2) = [q0, q1, q2][unat (tcp_other d) := 0]" using p2(2) True by (simp add: fin_part_def)
    moreover have "ts_ucEndStatus (fst p2) = ts_ucEndStatus (fst p)" using p2(2) by (simp add: fin_part_def)
    ultimately show ?thesis
      using o p2(1) True by (cases p2; cases p) (auto simp: tcp_ack_fin_def chk_get_def fin_consts)
  qed
qed

section \<open>Properties\<close>

text \<open>C14: A FIN and an acknowledgement of a session that is not over are the steps of the specification \<open>view_fin\<close>
  and \<open>view_ack\<close> on the two ends, and the session ends normally exactly when both ends are acknowledged. The
  numbers 0 are excluded.\<close>

theorem tcp_close_refines:
  assumes "fin_ok (fst p)" "tcp_side d" "\<not> view_over (fin_view (fst p))" "ut_seq (ie_stUDPTCP eth) \<noteq> 0" "tcp_fin_end eth \<noteq> 0"
  shows "(\<exists>p'. tcp_on_fin cap eth d p = Some p' \<and> fin_ok (fst p') \<and> ts_ucEndStatus (fst p') = ts_ucEndStatus (fst p) \<and>
      fin_view (fst p') = view_fin d (tcp_fin_end eth) (ut_ack (ie_stUDPTCP eth)) (fin_view (fst p))) \<and>
    (\<exists>p'. tcp_ack_fin cap eth d p = Some p' \<and>
      fin_view (fst p') = view_ack d (ut_ack (ie_stUDPTCP eth)) (fin_view (fst p)) \<and>
      (if view_over (fin_view (fst p')) then ts_ucEndStatus (fst p') = DEF_END_NORMAL \<and> ts_ucFinStatus (fst p') = DEF_FIN_3
       else fin_ok (fst p') \<and> ts_ucEndStatus (fst p') = ts_ucEndStatus (fst p)))"
proof
  show "\<exists>p'. tcp_on_fin cap eth d p = Some p' \<and> fin_ok (fst p') \<and> ts_ucEndStatus (fst p') = ts_ucEndStatus (fst p) \<and>
      fin_view (fst p') = view_fin d (tcp_fin_end eth) (ut_ack (ie_stUDPTCP eth)) (fin_view (fst p))"
    using tcp_on_fin_refines [OF assms(1,2,5,4)] by blast
  obtain p' where "tcp_ack_fin cap eth d p = Some p'"
    "fin_view (fst p') = view_ack d (ut_ack (ie_stUDPTCP eth)) (fin_view (fst p))"
    "if view_over (view_ack d (ut_ack (ie_stUDPTCP eth)) (fin_view (fst p)))
     then ts_ucEndStatus (fst p') = DEF_END_NORMAL \<and> ts_ucFinStatus (fst p') = DEF_FIN_3
     else fin_ok (fst p') \<and> ts_ucEndStatus (fst p') = ts_ucEndStatus (fst p) \<and> ts_ucFinStatus (fst p') = ts_ucFinStatus (fst p)"
    using tcp_ack_fin_refines [OF assms(1,2,4,3) refl, of cap] by (elim exE conjE) (rule that; assumption)
  then show "\<exists>p'. tcp_ack_fin cap eth d p = Some p' \<and>
      fin_view (fst p') = view_ack d (ut_ack (ie_stUDPTCP eth)) (fin_view (fst p)) \<and>
      (if view_over (fin_view (fst p')) then ts_ucEndStatus (fst p') = DEF_END_NORMAL \<and> ts_ucFinStatus (fst p') = DEF_FIN_3
       else fin_ok (fst p') \<and> ts_ucEndStatus (fst p') = ts_ucEndStatus (fst p))"
    by (intro exI [of _ p']) (simp split: if_splits)
qed

text \<open>Packets of a session: from the client, its end at 501; from the server, its end at 901.\<close>

definition fin_demo_sess :: "u8 \<Rightarrow> u32 \<Rightarrow> u32 \<Rightarrow> tcpsess" where
  "fin_demo_sess st a b = tcpsess_zero\<lparr>ts_ucStatus := DEF_STATUS_ACK, ts_ucFinStatus := st, ts_ucFinRtx := 1,
     ts_uiFinChkAck := [0, a, b], ts_uiFinChkSeq := [0, 0, 0]\<rparr>"

definition fin_demo_pkt :: "u8 \<Rightarrow> u8 \<Rightarrow> u32 \<Rightarrow> u32 \<Rightarrow> tcp_pkt" where
  "fin_demo_pkt d control seq ack =
     (tcp_demo_cap\<lparr>cp_bRtxType := d\<rparr>,
      (tcp_demo_eth 0)\<lparr>ie_stUDPTCP := (ie_stUDPTCP (tcp_demo_eth 0))\<lparr>ut_nControlType := control, ut_seq := seq, ut_ack := ack, ut_wDataLen := 0\<rparr>\<rparr>)"

lemma fin_demo_view: "fin_view (fin_demo_sess st a b) d =
    (if d = 1 \<and> a \<noteq> 0 then Some (a, False) else if d = 2 \<and> b \<noteq> 0 then Some (b, False) else None)"
  by (auto simp: fin_demo_sess_def fin_view_def fin_consts Let_def)

lemma fin_demo_ok: "fin_ok (fin_demo_sess 0 0 0)" "a \<noteq> 0 \<Longrightarrow> b \<noteq> 0 \<Longrightarrow> fin_ok (fin_demo_sess 2 a b)"
  by (auto simp: fin_ok_def fin_demo_view fin_consts) (auto simp: fin_demo_sess_def)

lemma fin_demo_pkt [simp]:
  "pkt_side (fin_demo_pkt d c q a) = d" "pkt_seq (fin_demo_pkt d c q a) = q" "pkt_ack (fin_demo_pkt d c q a) = a"
  "pkt_control (fin_demo_pkt d c q a) = GetTCPControl c" "pkt_end (fin_demo_pkt d c q a) = q + 1"
  by (simp_all add: fin_demo_pkt_def pkt_side_def pkt_seq_def pkt_ack_def pkt_control_def pkt_end_def tcp_fin_end_def)

theorem tcp_close_refines_witness:
  "\<exists>p'. tcp_on_fin tcp_demo_cap (snd (fin_demo_pkt 1 1 500 900)) 1 (fin_demo_sess 0 0 0, tcplog_zero) = Some p' \<and>
     fin_view (fst p') 1 = Some (501, False)"
proof -
  let ?e = "snd (fin_demo_pkt 1 1 500 900)"
  have v: "fin_view (fin_demo_sess 0 0 0) = (\<lambda>d. None)" by (rule ext) (simp add: fin_demo_view)
  have f: "tcp_fin_end ?e = 501" "ut_seq (ie_stUDPTCP ?e) = 500" by (simp_all add: fin_demo_pkt_def tcp_fin_end_def)
  have "\<exists>p'. tcp_on_fin tcp_demo_cap ?e 1 (fin_demo_sess 0 0 0, tcplog_zero) = Some p' \<and> fin_ok (fst p') \<and>
      ts_ucEndStatus (fst p') = ts_ucEndStatus (fin_demo_sess 0 0 0) \<and>
      fin_view (fst p') = view_fin 1 (tcp_fin_end ?e) (ut_ack (ie_stUDPTCP ?e)) (fin_view (fin_demo_sess 0 0 0))"
    using tcp_close_refines [of "(fin_demo_sess 0 0 0, tcplog_zero)" 1 ?e tcp_demo_cap] fin_demo_ok(1) f v
    by (simp add: fin_consts view_over_def)
  then show ?thesis by (elim exE conjE) (rule exI, rule conjI, assumption, simp add: v f view_fin_def view_ack_def)
qed

text \<open>C15: Once both sides of a session have sent their FIN, any acknowledgements and repeated FINs among which
  each end is acknowledged by the other side bring it to its normal end, and the code tells who closed first.\<close>

theorem tcp_close_ends:
  assumes "fin_ok (fst p)" "fin_ends ends (fst p)" "\<not> view_over (fin_view (fst p))" "\<forall>q \<in> set qs. closing_pkt ends q"
    "ends DEF_FROM_CLIENT \<noteq> 0" "ends DEF_FROM_SERVER \<noteq> 0" "ts_ucEndStatus (fst p) \<noteq> DEF_END_NORMAL"
    "\<exists>q \<in> set qs. covers ends DEF_FROM_CLIENT q" "\<exists>q \<in> set qs. covers ends DEF_FROM_SERVER q"
  shows "\<exists>p'. tcp_close_run qs p = Some p' \<and> ts_ucEndStatus (fst p') = DEF_END_NORMAL \<and>
    GetFailCode (fst p') = (if ts_ucFinRtx (fst p) = DEF_FROM_SERVER then TCP_NOERR_FIN_E2 else TCP_NOERR_FIN_E1)"
proof -
  obtain p' where p': "tcp_close_run qs p = Some p'" "ts_ucEndStatus (fst p') = DEF_END_NORMAL"
    "ts_ucFinStatus (fst p') = DEF_FIN_3" "ts_ucFinRtx (fst p') = ts_ucFinRtx (fst p)"
    using tcp_close_run_ends [OF assms(1-4) _ assms(7)] assms(5,6,8,9) by (auto simp: tcp_side_def)
  then show ?thesis by (simp add: GetFailCode_def)
qed

theorem tcp_close_ends_witness:
  "\<exists>p'. tcp_close_run [fin_demo_pkt 2 16 900 501, fin_demo_pkt 1 1 500 900, fin_demo_pkt 1 16 501 901]
      (fin_demo_sess 2 501 901, tcplog_zero) = Some p' \<and> GetFailCode (fst p') = TCP_NOERR_FIN_E1"
proof -
  let ?qs = "[fin_demo_pkt 2 16 900 501, fin_demo_pkt 1 1 500 900, fin_demo_pkt 1 16 501 901]"
  let ?ends = "\<lambda>d :: u8. if d = 1 then 501 else 901 :: u32"
  have c: "GetTCPControl 16 = TCP_ACK" "GetTCPControl 1 = TCP_FIN"
    by (simp_all add: GetTCPControl_def TCP_SYNACK_def TCP_SYN_def TCP_RST_def TCP_FIN_def TCP_ACK_def)
  have "\<exists>p'. tcp_close_run ?qs (fin_demo_sess 2 501 901, tcplog_zero) = Some p' \<and>
      ts_ucEndStatus (fst p') = DEF_END_NORMAL \<and>
      GetFailCode (fst p') = (if ts_ucFinRtx (fst (fin_demo_sess 2 501 901, tcplog_zero)) = DEF_FROM_SERVER
        then TCP_NOERR_FIN_E2 else TCP_NOERR_FIN_E1)"
  proof (rule tcp_close_ends [where ends = ?ends])
    show "fin_ok (fst (fin_demo_sess 2 501 901, tcplog_zero))" using fin_demo_ok(2) by simp
    show "fin_ends ?ends (fst (fin_demo_sess 2 501 901, tcplog_zero))"
      by (auto simp: fin_ends_def fin_demo_view fin_consts)
    show "\<not> view_over (fin_view (fst (fin_demo_sess 2 501 901, tcplog_zero)))"
      by (simp add: view_over_def fin_demo_view fin_consts)
    show "\<forall>q \<in> set ?qs. closing_pkt ?ends q" by (simp add: closing_pkt_def c fin_consts)
    show "ts_ucEndStatus (fst (fin_demo_sess 2 501 901, tcplog_zero)) \<noteq> DEF_END_NORMAL"
      by (simp add: fin_demo_sess_def tcpsess_zero_def DEF_END_NORMAL_def)
    show "\<exists>q \<in> set ?qs. covers ?ends DEF_FROM_CLIENT q" "\<exists>q \<in> set ?qs. covers ?ends DEF_FROM_SERVER q"
      by (simp_all add: covers_def c fin_consts)
  qed simp_all
  moreover have "ts_ucFinRtx (fst (fin_demo_sess 2 501 901, tcplog_zero)) \<noteq> DEF_FROM_SERVER"
    by (simp add: fin_demo_sess_def fin_consts)
  ultimately show ?thesis by (simp only: if_False) blast
qed

text \<open>C17: The code of a session that ended is never 0 and tells its cause: two ended sessions have the same code
  exactly when they ended for the same reason, in the same state, by the same sides.\<close>

theorem GetFailCode_tells_cause:
  assumes "tcp_ended s" "tcp_ended s'"
  shows "GetFailCode s \<noteq> 0 \<and> (GetFailCode s = GetFailCode s' \<longleftrightarrow> tcp_cause s = tcp_cause s')"
  using cause_code_nonzero GetFailCode_ended [OF assms(1)] GetFailCode_ended [OF assms(2)] inj_on_eq_iff [OF cause_code_inj]
  by simp

theorem GetFailCode_tells_cause_witness:
  "GetFailCode (fin_demo_sess 2 501 901\<lparr>ts_ucEndStatus := DEF_END_LONGLAST\<rparr>) \<noteq>
   GetFailCode (fin_demo_sess 0 0 0\<lparr>ts_ucEndStatus := DEF_END_LONGLAST\<rparr>)"
proof -
  let ?s = "fin_demo_sess 2 501 901\<lparr>ts_ucEndStatus := DEF_END_LONGLAST\<rparr>"
  let ?t = "fin_demo_sess 0 0 0\<lparr>ts_ucEndStatus := DEF_END_LONGLAST\<rparr>"
  have "tcp_ended ?s" "tcp_ended ?t" by (simp_all add: tcp_ended_def fin_demo_sess_def end_consts)
  moreover have "tcp_cause ?s \<noteq> tcp_cause ?t" by (simp add: tcp_cause_def fin_demo_sess_def end_consts Let_def)
  ultimately show ?thesis using GetFailCode_tells_cause by blast
qed

text \<open>C38: The source marks with 0 what it does not know, and 0 is a sequence number. A first FIN whose end is
  the number 0 can never be acknowledged, and an acknowledgement that carries the number 0 never ends a
  session.\<close>

theorem tcp_number_zero:
  assumes "fin_ok (fst p)" "tcp_side d"
  shows "(ts_ucFinStatus (fst p) = DEF_FIN_0 \<longrightarrow> tcp_fin_end eth = 0 \<longrightarrow>
      (\<exists>p1. tcp_on_fin cap eth d p = Some p1 \<and> ts_ucFinStatus (fst p1) = DEF_FIN_1 \<and>
         (\<forall>cap' eth'. tcp_ack_fin cap' eth' (tcp_other d) p1 = Some p1))) \<and>
    (ut_seq (ie_stUDPTCP eth) = 0 \<longrightarrow>
      (\<exists>p1. tcp_ack_fin cap eth d p = Some p1 \<and> ts_ucEndStatus (fst p1) = ts_ucEndStatus (fst p)))"
  using tcp_fin_at_zero [OF assms] tcp_ack_at_zero [OF assms] by blast

theorem tcp_number_zero_witness:
  "\<exists>p1. tcp_on_fin tcp_demo_cap (snd (fin_demo_pkt 1 1 0xffffffff 900)) 1 (fin_demo_sess 0 0 0, tcplog_zero) = Some p1 \<and>
     (\<forall>cap' eth'. tcp_ack_fin cap' eth' 2 p1 = Some p1)"
proof -
  let ?e = "snd (fin_demo_pkt 1 1 0xffffffff 900)"
  have "tcp_fin_end ?e = 0" by (simp add: fin_demo_pkt_def tcp_fin_end_def)
  moreover have "ts_ucFinStatus (fin_demo_sess 0 0 0) = DEF_FIN_0" by (simp add: fin_demo_sess_def DEF_FIN_0_def)
  ultimately show ?thesis
    using tcp_number_zero [of "(fin_demo_sess 0 0 0, tcplog_zero)" 1 ?e tcp_demo_cap] fin_demo_ok(1)
    by (auto simp: fin_consts)
qed

end
