(* ===== verification/Ensures.thy ===== *)
theory Ensures
  imports Prelude
begin

text \<open>
  Invariants of fallible calls: \<open>ensures x P\<close> says that \<open>P\<close> holds of the result of \<open>x\<close>, when there is
  one. The rules follow the shape of a definition from its end to its start, so that an invariant of a
  composed operation is shown by the facts about its parts.
\<close>

definition ensures :: "'a option \<Rightarrow> ('a \<Rightarrow> bool) \<Rightarrow> bool" where
  "ensures x P \<longleftrightarrow> (\<forall>y. x = Some y \<longrightarrow> P y)"

lemma ensuresD: "ensures x P \<Longrightarrow> x = Some y \<Longrightarrow> P y"
  by (simp add: ensures_def)

lemma ensuresI: "(\<And>y. x = Some y \<Longrightarrow> P y) \<Longrightarrow> ensures x P"
  by (simp add: ensures_def)

lemma ensures_any: "(\<And>y. P y) \<Longrightarrow> ensures x P"
  by (simp add: ensures_def)

lemma ensures_Some: "P y \<Longrightarrow> ensures (Some y) P"
  by (simp add: ensures_def)

lemma ensures_None: "ensures None P"
  by (simp add: ensures_def)

lemma ensures_bind: "ensures x (\<lambda>y. ensures (f y) P) \<Longrightarrow> ensures (x \<bind> f) P"
  by (cases x) (simp_all add: ensures_def)

lemma ensures_bindE: "(\<And>y. x = Some y \<Longrightarrow> ensures (f y) P) \<Longrightarrow> ensures (x \<bind> f) P"
  by (cases x) (simp_all add: ensures_def)

lemma ensures_if: "(b \<Longrightarrow> ensures x P) \<Longrightarrow> (\<not> b \<Longrightarrow> ensures y P) \<Longrightarrow> ensures (if b then x else y) P"
  by simp

lemma ensures_option:
  "(x = None \<Longrightarrow> ensures a P) \<Longrightarrow> (\<And>y. x = Some y \<Longrightarrow> ensures (f y) P) \<Longrightarrow>
   ensures (case x of None \<Rightarrow> a | Some y \<Rightarrow> f y) P"
  by (cases x) simp_all

lemma ensures_prod: "(\<And>a b. x = (a, b) \<Longrightarrow> ensures (f a b) P) \<Longrightarrow> ensures (case x of (a, b) \<Rightarrow> f a b) P"
  by (cases x) simp

lemma ensures_let: "(\<And>y. y = x \<Longrightarrow> ensures (f y) P) \<Longrightarrow> ensures (Let x f) P"
  by simp

lemma ensures_map: "ensures x (\<lambda>y. P (f y)) \<Longrightarrow> ensures (map_option f x) P"
  by (cases x) (simp_all add: ensures_def)

text \<open>The same for the predicates that the rule for a bind leaves.\<close>

lemma all_prod: "(\<And>a b. P (a, b)) \<Longrightarrow> (P :: 'a \<times> 'b \<Rightarrow> bool) y"
  by (cases y) simp

lemma ensures_mono: "ensures x P \<Longrightarrow> (\<And>y. P y \<Longrightarrow> Q y) \<Longrightarrow> ensures x Q"
  by (simp add: ensures_def)

lemmas ensures_intros = ensures_bind ensures_if ensures_option ensures_prod ensures_let ensures_map ensures_Some ensures_None

end
