(* ===== verification/TcpKeep.thy ===== *)
theory TcpKeep
  imports TcpData Ensures
begin

text \<open>
  What the handling of data leaves alone in a session: everything that belongs to its life cycle,
  \<open>sess_kind\<close>. The loops are treated by induction on their calls, their bodies with the rules of \<open>ensures\<close>.
\<close>

section \<open>The life cycle part of a session\<close>

definition sess_kind :: "tcpsess \<Rightarrow> (u8 \<times> u8 \<times> u8 \<times> u8 \<times> u8 \<times> u8 \<times> u8) \<times> (u32 list \<times> u32 list) \<times> u8 \<times> u8" where
  "sess_kind s = ((ts_ucStatus s, ts_ucFinStatus s, ts_ucEndStatus s, ts_ucSynRtx s, ts_ucFinRtx s, ts_ucRstRtx s, ts_ucRcvSyn s),
     (ts_uiFinChkSeq s, ts_uiFinChkAck s), ts_ucTcpClientStatus s, ts_ucTcpServerStatus s)"

lemma sess_kind_simps [simp]:
  "sess_kind (dir_set_head sess d p) = sess_kind sess" "sess_kind (dir_set_ack sess d a t m) = sess_kind sess"
  "sess_kind (dir_set_sent sess d ti) = sess_kind sess" "sess_kind (dir_count_down sess d) = sess_kind sess"
  "sess_kind (dir_clear sess d) = sess_kind sess" "sess_kind (sess\<lparr>ts_usL4FailCode := c\<rparr>) = sess_kind sess"
  "sess_kind (sess\<lparr>ts_offset_LOG := o'\<rparr>) = sess_kind sess" "sess_kind (sess\<lparr>ts_timerNID := n\<rparr>) = sess_kind sess"
  "sess_kind (sess\<lparr>ts_uiLastSessUpdateTime := z\<rparr>) = sess_kind sess" "sess_kind (sess\<lparr>ts_cnt := cn\<rparr>) = sess_kind sess"
  "sess_kind (fst (SetData sess ti)) = sess_kind sess"
  by (cases d; simp add: sess_kind_def dir_defs SetData_def)+

definition kinds :: "tcpsess \<Rightarrow> 'a \<times> tcpsess \<Rightarrow> bool" where
  "kinds sess y \<longleftrightarrow> sess_kind (snd y) = sess_kind sess"

lemma SetData_kind: "(if c then SetData sess ti else (sess, ti')) = (sess1, ti1) \<Longrightarrow> sess_kind sess1 = sess_kind sess"
  using sess_kind_simps(11) [of sess ti] by (cases "SetData sess ti") (auto split: if_splits)

lemma kinds_rec:
  assumes "\<And>y. x = Some y \<Longrightarrow> kinds sess1 y" "sess_kind sess1 = sess_kind sess"
  shows "ensures x (kinds sess)"
  by (rule ensuresI) (use assms in \<open>simp add: kinds_def\<close>)

lemma kinds_pair [simp]: "kinds sess (a, sess') \<longleftrightarrow> sess_kind sess' = sess_kind sess"
  by (simp add: kinds_def)

definition kinds3 :: "tcpsess \<Rightarrow> 'a \<times> tcpsess \<times> 'b \<Rightarrow> bool" where
  "kinds3 sess y \<longleftrightarrow> sess_kind (fst (snd y)) = sess_kind sess"

lemma kinds3_triple [simp]: "kinds3 sess (a, sess', r) \<longleftrightarrow> sess_kind sess' = sess_kind sess"
  by (simp add: kinds3_def)

lemma kinds3_rec:
  assumes "\<And>y. x = Some y \<Longrightarrow> kinds3 sess1 y" "sess_kind sess1 = sess_kind sess"
  shows "ensures x (kinds3 sess)"
  by (rule ensuresI) (use assms in \<open>simp add: kinds3_def\<close>)

lemma kinds_call:
  "ensures x (kinds sess1) \<Longrightarrow> sess_kind sess1 = sess_kind sess \<Longrightarrow> ensures x (kinds sess)"
  "ensures y (kinds3 sess1) \<Longrightarrow> sess_kind sess1 = sess_kind sess \<Longrightarrow> ensures y (kinds3 sess)"
  by (simp_all add: ensures_def kinds_def kinds3_def)

lemma kinds_after:
  assumes "ensures x (kinds sess1)" "sess_kind sess1 = sess_kind sess" "\<And>a b. sess_kind b = sess_kind sess \<Longrightarrow> Q (a, b)"
  shows "ensures x Q"
  using assms by (force simp: ensures_def kinds_def)

lemma kinds3_after:
  assumes "ensures x (kinds3 sess1)" "sess_kind sess1 = sess_kind sess" "\<And>a b r. sess_kind b = sess_kind sess \<Longrightarrow> Q (a, b, r)"
  shows "ensures x Q"
  using assms by (force simp: ensures_def kinds3_def)

lemmas ensures_flow = ensures_if ensures_bind ensures_option ensures_prod ensures_let ensures_Some

section \<open>Calls\<close>

lemma tcp_ack_loop_kind: "ensures (tcp_ack_loop e s sess b ack t m ph pd) (kinds sess)"
proof (rule ensuresI)
  fix y assume ret: "tcp_ack_loop e s sess b ack t m ph pd = Some y"
  show "kinds sess y"
  proof (rule tcp_ack_loop.raw_induct [OF _ ret, where P = "\<lambda>e s sess b ack t m ph pd y. kinds sess y"], goal_cases)
    case (1 f e s sess b ack t m ph pd y)
    show ?case
      by (rule ensuresD [OF _ 1(2)])
        (rule ensures_flow kinds_rec [OF 1(1)] SetData_kind | assumption | simp split del: if_split | rule ensures_any)+
  qed
qed

lemma dCheckAck_kind: "ensures (dCheckAck e s sess cap eth d) (kinds sess)"
  unfolding dCheckAck_def Let_def
  by (rule kinds_call(1) [OF tcp_ack_loop_kind]) simp

lemma tcp_insert_loop_kind: "ensures (tcp_insert_loop e s sess d pn v ph pp del) (kinds3 sess)"
proof (rule ensuresI)
  fix y assume ret: "tcp_insert_loop e s sess d pn v ph pp del = Some y"
  show "kinds3 sess y"
  proof (rule tcp_insert_loop.raw_induct [OF _ ret, where P = "\<lambda>e s sess d pn v ph pp del y. kinds3 sess y"], goal_cases)
    case (1 f e s sess d pn v ph pp del y)
    show ?case
      by (rule ensuresD [OF _ 1(2)])
        (rule ensures_flow kinds3_rec [OF 1(1)] | assumption | simp split del: if_split | rule ensures_any)+
  qed
qed

lemma dInsertTCPData_kind: "ensures (dInsertTCPData e s k sess cap eth p) (kinds3 sess)"
  unfolding dInsertTCPData_def Let_def
  by (rule ensures_flow kinds_call(2) [OF tcp_insert_loop_kind] | assumption | simp split del: if_split | rule ensures_any)+

lemma tcp_send_loop_kind: "ensures (tcp_send_loop e s sess d p) (kinds sess)"
proof (rule ensuresI)
  fix y assume ret: "tcp_send_loop e s sess d p = Some y"
  show "kinds sess y"
  proof (rule tcp_send_loop.raw_induct [OF _ ret, where P = "\<lambda>e s sess d p y. kinds sess y"], goal_cases)
    case (1 f e s sess d p y)
    show ?case
      by (rule ensuresD [OF _ 1(2)])
        (rule ensures_flow kinds_rec [OF 1(1)] | assumption | simp split del: if_split | rule ensures_any)+
  qed
qed

lemma dSendPayLoad_kind: "ensures (dSendPayLoad e s sess) (kinds sess)"
  unfolding dSendPayLoad_def
  by (rule ensures_bind, rule kinds_after [OF tcp_send_loop_kind refl], simp)
    (rule kinds_call(1) [OF tcp_send_loop_kind], simp)

lemma tcp_flush_loop_kind: "ensures (tcp_flush_loop e s sess d p) (kinds sess)"
proof (rule ensuresI)
  fix y assume ret: "tcp_flush_loop e s sess d p = Some y"
  show "kinds sess y"
  proof (rule tcp_flush_loop.raw_induct [OF _ ret, where P = "\<lambda>e s sess d p y. kinds sess y"], goal_cases)
    case (1 f e s sess d p y)
    show ?case
      by (rule ensuresD [OF _ 1(2)])
        (rule ensures_flow kinds_rec [OF 1(1)] | assumption | simp split del: if_split | rule ensures_any)+
  qed
qed

lemma tcp_send_msg_kind:
  assumes "\<And>ti. sess_kind (fst (fill sess ti)) = sess_kind sess"
  shows "ensures (tcp_send_msg e now s sess fill r) (kinds3 sess)"
proof -
  have f: "sess_kind a = sess_kind sess" if "fill sess ti = (a, b)" for ti a b
    using assms [of ti] that by simp
  show ?thesis
    unfolding tcp_send_msg_def Let_def
    by (rule ensures_flow f | assumption | simp split del: if_split | rule ensures_any)+
qed

lemma tcp_fill_kind [simp]:
  "sess_kind (fst (tcp_fill_start k sess ti)) = sess_kind sess"
  "sess_kind (fst (tcp_fill_update k sess ti)) = sess_kind sess"
  by (simp_all add: tcp_fill_start_def tcp_fill_update_def)

lemma dTCPStartMsg_kind: "ensures (dTCPStartMsg e now s k sess) (kinds3 sess)"
  unfolding dTCPStartMsg_def by (rule tcp_send_msg_kind) simp

lemma dSessUpdataMsg_kind: "ensures (dSessUpdataMsg e now s k sess) (kinds3 sess)"
  unfolding dSessUpdataMsg_def by (rule tcp_send_msg_kind) simp

end
