(* ===== verification/TcpOpen.thy ===== *)
theory TcpOpen
  imports TcpLifeProps TcpKeep
begin

text \<open>
  What holds of every session in the table between two packets (\<open>sess_open\<close>) and of the session of a packet
  until it is looked at for the end (\<open>sess_ok\<close>), and that each branch of \<open>TcpLife\<close> keeps it.
\<close>

section \<open>Sessions that make sense\<close>

text \<open>The states of the handshake and of the two sides, and the FINs: which side was the first, that the other
  one has announced no end yet, that only an announced end is acknowledged, and that a session ends normally
  only when both ends are acknowledged.\<close>

definition sess_fins :: "u8 \<Rightarrow> u8 \<Rightarrow> u8 \<Rightarrow> u32 list \<Rightarrow> u32 list \<Rightarrow> bool" where
  "sess_fins fin rtx en as qs \<longleftrightarrow> length as = DEF_ARRAY_RTX \<and> length qs = DEF_ARRAY_RTX \<and>
     (\<forall>d. tcp_side d \<longrightarrow> as ! unat d = 0 \<longrightarrow> qs ! unat d = 0) \<and>
     (fin = DEF_FIN_0 \<and> as ! unat DEF_FROM_CLIENT = 0 \<and> as ! unat DEF_FROM_SERVER = 0 \<and> en \<noteq> DEF_END_NORMAL \<or>
      fin = DEF_FIN_1 \<and> tcp_side rtx \<and> as ! unat (tcp_other rtx) = 0 \<and> en \<noteq> DEF_END_NORMAL \<or>
      fin = DEF_FIN_2 \<and> tcp_side rtx \<and> en \<noteq> DEF_END_NORMAL \<or>
      fin = DEF_FIN_3 \<and> tcp_side rtx \<and> en = DEF_END_NORMAL \<and>
        qs ! unat DEF_FROM_CLIENT > 0 \<and> qs ! unat DEF_FROM_SERVER > 0)"

definition cli_state :: "u8 \<Rightarrow> bool" where
  "cli_state st \<longleftrightarrow> st \<in> {DEF_CLI_ETC, DEF_CLI_SYN, DEF_CLI_ACK, DEF_CLI_DATA, DEF_CLI_RST, DEF_CLI_FIN, DEF_CLI_FINACK}"

definition svr_state :: "u8 \<Rightarrow> bool" where
  "svr_state st \<longleftrightarrow> st \<in> {DEF_SVR_ETC, DEF_SVR_SYNACK, DEF_SVR_DATA, DEF_SVR_RST, DEF_SVR_FIN, DEF_SVR_FINACK}"

definition sess_rest :: "tcpsess \<Rightarrow> bool" where
  "sess_rest s \<longleftrightarrow>
     (ts_ucStatus s = DEF_STATUS_SYN \<and> ts_ucRcvSyn s = SYN_RCV_ON \<or>
      ts_ucStatus s \<in> {DEF_STATUS_SYNACK, DEF_STATUS_ACK} \<and> ts_ucRcvSyn s \<in> {SYN_RCV_ON, SYN_RCV_OFF}) \<and>
     cli_state (ts_ucTcpClientStatus s) \<and> svr_state (ts_ucTcpServerStatus s) \<and>
     ts_ucEndStatus s \<in> {0, DEF_END_NORMAL, DEF_END_RST} \<and> (ts_ucEndStatus s = DEF_END_RST \<longrightarrow> tcp_side (ts_ucRstRtx s))"

definition sess_ok :: "tcpsess \<Rightarrow> bool" where
  "sess_ok s \<longleftrightarrow> sess_rest s \<and>
     sess_fins (ts_ucFinStatus s) (ts_ucFinRtx s) (ts_ucEndStatus s) (ts_uiFinChkAck s) (ts_uiFinChkSeq s)"

definition sess_open :: "tcpsess \<Rightarrow> bool" where
  "sess_open s \<longleftrightarrow> sess_ok s \<and> ts_ucEndStatus s \<noteq> DEF_END_NORMAL"

lemmas sess_consts = DEF_STATUS_SYN_def DEF_STATUS_SYNACK_def DEF_STATUS_ACK_def SYN_RCV_ON_def SYN_RCV_OFF_def
  DEF_END_NORMAL_def DEF_END_RST_def
  DEF_CLI_ETC_def DEF_CLI_SYN_def DEF_CLI_ACK_def DEF_CLI_DATA_def DEF_CLI_RST_def DEF_CLI_FIN_def DEF_CLI_FINACK_def
  DEF_SVR_ETC_def DEF_SVR_SYNACK_def DEF_SVR_DATA_def DEF_SVR_RST_def DEF_SVR_FIN_def DEF_SVR_FINACK_def

lemma sess_ok_kind: "sess_kind a = sess_kind b \<Longrightarrow> sess_ok a = sess_ok b"
  by (simp add: sess_kind_def sess_ok_def sess_rest_def)

lemma sess_open_kind: "sess_kind a = sess_kind b \<Longrightarrow> sess_open a = sess_open b"
  using sess_ok_kind [of a b] by (simp add: sess_kind_def sess_open_def)

lemma sess_open_ok: "sess_open s \<Longrightarrow> sess_ok s"
  by (simp add: sess_open_def)

text \<open>A session that is closed in any of the four ways has ended in the sense of the codes.\<close>

lemma sess_open_ended:
  assumes "sess_open s"
  shows "tcp_ended (s\<lparr>ts_ucEndStatus := DEF_END_ABNORMAL\<rparr>)" "tcp_ended (s\<lparr>ts_ucEndStatus := DEF_END_LONGLAST\<rparr>)"
    "ts_ucEndStatus s = DEF_END_RST \<Longrightarrow> tcp_ended s"
  using assms by (auto simp: sess_open_def sess_ok_def sess_rest_def sess_fins_def tcp_ended_def)

lemma sess_ok_ended: "sess_ok s \<Longrightarrow> ts_ucEndStatus s = DEF_END_NORMAL \<Longrightarrow> tcp_ended s"
  by (auto simp: sess_ok_def sess_rest_def sess_fins_def tcp_ended_def)

section \<open>The branches\<close>

lemma tcp_side_ite [simp]: "tcp_side (if b then DEF_FROM_SERVER else DEF_FROM_CLIENT)"
  by (simp add: tcp_side_def)

lemma tcp_cnt_both_kind [simp]: "sess_kind (fst (tcp_cnt_both f p)) = sess_kind (fst p)"
  by (cases p) (simp add: tcp_cnt_both_def)

lemma tcp_count_pkt_kind: "sess_kind (fst (tcp_count_pkt cap eth d p)) = sess_kind (fst p)"
  by (cases p) (simp add: tcp_count_pkt_def Let_def tcp_cnt_both_def sess_kind_def)

lemma tcp_count_retrans_kind: "sess_kind (fst (tcp_count_retrans d n p)) = sess_kind (fst p)"
  by (cases p) (simp add: tcp_count_retrans_def Let_def)

lemma tcp_syn_again_kind: "sess_kind (fst (tcp_syn_again eth p)) = sess_kind (fst p)"
  by (cases p) (simp add: tcp_syn_again_def)

lemma tcp_synack_again_kind: "sess_kind (fst (tcp_synack_again eth p)) = sess_kind (fst p)"
  by (cases p) (simp add: tcp_synack_again_def)

lemmas sess_keeps = sess_ok_kind [THEN iffD2, OF tcp_count_pkt_kind] sess_ok_kind [THEN iffD2, OF tcp_count_retrans_kind]

lemma cli_states [simp]: "cli_state DEF_CLI_ETC" "cli_state DEF_CLI_SYN" "cli_state DEF_CLI_ACK" "cli_state DEF_CLI_DATA"
    "cli_state DEF_CLI_RST" "cli_state DEF_CLI_FIN" "cli_state DEF_CLI_FINACK"
  by (simp_all add: cli_state_def)

lemma svr_states [simp]: "svr_state DEF_SVR_ETC" "svr_state DEF_SVR_SYNACK" "svr_state DEF_SVR_DATA" "svr_state DEF_SVR_RST"
    "svr_state DEF_SVR_FIN" "svr_state DEF_SVR_FINACK"
  by (simp_all add: svr_state_def)

lemma sess_ok_client: "sess_ok (fst p) \<Longrightarrow> cli_state st \<Longrightarrow> sess_ok (fst (tcp_set_client st p))"
  by (cases p) (simp add: tcp_set_client_def sess_ok_def sess_rest_def)

lemma sess_ok_server: "sess_ok (fst p) \<Longrightarrow> svr_state st \<Longrightarrow> sess_ok (fst (tcp_set_server st p))"
  by (cases p) (simp add: tcp_set_server_def sess_ok_def sess_rest_def)

lemma sess_ok_hs:
  "sess_ok s \<Longrightarrow> sess_ok (s\<lparr>ts_ucRcvSyn := SYN_RCV_ON\<rparr>)"
  "sess_ok s \<Longrightarrow> sess_ok (s\<lparr>ts_ucStatus := DEF_STATUS_ACK\<rparr>)"
  "sess_ok s \<Longrightarrow> sess_ok (s\<lparr>ts_ucStatus := DEF_STATUS_SYNACK, ts_uiSynAckSeq := a, ts_uiSynAckAck := b,
     ts_uiLastResSeq := c, ts_uiNextResSeq := d\<rparr>)"
  by (auto simp: sess_ok_def sess_rest_def)

lemma tcp_syn_late_ok: "sess_ok (fst p) \<Longrightarrow> sess_ok (fst (tcp_syn_late cap eth p))"
  by (cases p) (simp add: tcp_syn_late_def sess_ok_client sess_ok_hs)

lemma tcp_synack_first_ok: "sess_ok (fst p) \<Longrightarrow> sess_ok (fst (tcp_synack_first cap eth p))"
  by (cases p) (simp add: tcp_synack_first_def Let_def sess_ok_server sess_ok_hs)

lemma sess_ok_numbers [simp]:
  "sess_ok (s\<lparr>ts_uiSynAckSeq := a, ts_uiLastResSeq := b, ts_uiNextResSeq := c\<rparr>) = sess_ok s"
  by (rule sess_ok_kind) (simp add: sess_kind_def)

lemma tcp_ack_start_ok: "sess_ok (fst p) \<Longrightarrow> sess_ok (fst (tcp_ack_start cap eth d p))"
  by (cases p) (simp add: tcp_ack_start_def Let_def sess_ok_hs sess_ok_client)

lemma case_pair_fst: "fst (case p of (a, b) \<Rightarrow> (a, f a b)) = fst p"
  by (cases p) simp

lemma tcp_mark_data_ok: "sess_ok (fst p) \<Longrightarrow> sess_ok (fst (tcp_mark_data eth d p))"
  by (simp add: tcp_mark_data_def Let_def case_pair_fst sess_ok_client sess_ok_server)

lemma sess_fins_rst: "sess_fins fin rtx en as qs \<Longrightarrow> en \<noteq> DEF_END_NORMAL \<Longrightarrow> sess_fins fin rtx DEF_END_RST as qs"
  by (auto simp: sess_fins_def sess_consts)

lemma sess_ok_rst:
  assumes "sess_open s" "tcp_side d"
  shows "sess_ok (s\<lparr>ts_ucEndStatus := DEF_END_RST, ts_ucRstRtx := d\<rparr>)"
proof -
  have "sess_fins (ts_ucFinStatus s) (ts_ucFinRtx s) DEF_END_RST (ts_uiFinChkAck s) (ts_uiFinChkSeq s)"
    using assms(1) by (intro sess_fins_rst [of _ _ "ts_ucEndStatus s"]) (simp_all add: sess_open_def sess_ok_def sess_rest_def)
  then show ?thesis using assms by (simp add: sess_open_def sess_ok_def sess_rest_def)
qed

lemma tcp_on_rst_ok: "sess_open (fst p) \<Longrightarrow> sess_ok (fst (tcp_on_rst cap d p))"
  by (cases p) (simp add: tcp_on_rst_def Let_def sess_ok_client sess_ok_server sess_ok_rst tcp_side_def)

lemma tcp_on_syn_ok:
  assumes "tcp_on_syn cap eth sess = Some f" "sess_ok (fst p)"
  shows "sess_ok (fst (f p))"
  using assms(1)
  by (auto simp: tcp_on_syn_def assms(2) tcp_syn_late_ok sess_ok_kind [OF tcp_syn_again_kind] split: if_splits)

lemma tcp_on_synack_ok:
  assumes "tcp_on_synack cap eth sess = Some f" "sess_ok (fst p)"
  shows "sess_ok (fst (f p))"
  using assms(1)
  by (auto simp: tcp_on_synack_def assms(2) tcp_synack_first_ok sess_ok_kind [OF tcp_synack_again_kind] split: if_splits)

lemma sess_fins_new: "sess_fins DEF_FIN_0 0 0 (replicate DEF_ARRAY_RTX 0) (replicate DEF_ARRAY_RTX 0)"
  by (auto simp: sess_fins_def tcp_side_def DEF_ARRAY_RTX_def DEF_FROM_CLIENT_def DEF_FROM_SERVER_def DEF_END_NORMAL_def)

lemma tcp_new_ctl_ok:
  assumes "c = TCP_SYN \<or> c = TCP_SYNACK"
  shows "sess_open (fst (tcp_new_ctl cap eth d c (tcp_new_sess raw cap eth q now\<lparr>ts_offset_LOG := lp\<rparr>, log)))"
  using assms sess_fins_new
  by (auto simp: tcp_new_ctl_def tcp_new_sess_def Let_def sess_open_def sess_ok_def sess_rest_def TCP_SYN_def TCP_SYNACK_def
      DEF_END_NORMAL_def DEF_END_RST_def)

section \<open>FIN and its acknowledgement\<close>

lemma sess_fins_arrays:
  assumes "sess_fins fin rtx en as qs"
  obtains a0 a1 a2 q0 q1 q2 where "as = [a0, a1, a2]" "qs = [q0, q1, q2]"
  using assms unfolding sess_fins_def DEF_ARRAY_RTX_def length_3 by blast

lemma all_sides: "(\<forall>d. tcp_side d \<longrightarrow> P d) \<longleftrightarrow> P 1 \<and> P 2"
  by (auto simp: tcp_side_def DEF_FROM_CLIENT_def DEF_FROM_SERVER_def)

lemma sess_fins_3:
  "sess_fins fin rtx en [a0, a1, a2] [q0, q1, q2] \<longleftrightarrow> (a1 = 0 \<longrightarrow> q1 = 0) \<and> (a2 = 0 \<longrightarrow> q2 = 0) \<and>
     (fin = 0 \<and> a1 = 0 \<and> a2 = 0 \<and> en \<noteq> DEF_END_NORMAL \<or>
      fin = 1 \<and> (rtx = 1 \<and> a2 = 0 \<or> rtx = 2 \<and> a1 = 0) \<and> en \<noteq> DEF_END_NORMAL \<or>
      fin = 2 \<and> (rtx = 1 \<or> rtx = 2) \<and> en \<noteq> DEF_END_NORMAL \<or>
      fin = 3 \<and> (rtx = 1 \<or> rtx = 2) \<and> en = DEF_END_NORMAL \<and> q1 \<noteq> 0 \<and> q2 \<noteq> 0)"
proof -
  have "tcp_side rtx \<and> [a0, a1, a2] ! unat (tcp_other rtx) = 0 \<longleftrightarrow> rtx = 1 \<and> a2 = 0 \<or> rtx = 2 \<and> a1 = 0"
    by (auto simp: tcp_side_def DEF_FROM_CLIENT_def DEF_FROM_SERVER_def)
  moreover have "tcp_side rtx \<longleftrightarrow> rtx = 1 \<or> rtx = 2" by (simp add: tcp_side_def DEF_FROM_CLIENT_def DEF_FROM_SERVER_def)
  ultimately show ?thesis
    unfolding sess_fins_def all_sides DEF_FIN_0_def DEF_FIN_1_def DEF_FIN_2_def DEF_FIN_3_def
    by (simp add: DEF_ARRAY_RTX_def DEF_FROM_CLIENT_def DEF_FROM_SERVER_def word_gt_0) blast
qed

lemma u8_below_3:
  assumes "unat (d :: u8) < 3" "d = 0 \<Longrightarrow> P" "d = 1 \<Longrightarrow> P" "d = 2 \<Longrightarrow> P"
  shows P
proof -
  have d: "d = word_of_nat (unat d)" by simp
  consider "unat d = 0" | "unat d = 1" | "unat d = 2" using assms(1) by linarith
  then have "d = 0 \<or> d = 1 \<or> d = 2" by cases (use d in simp_all)
  then show P using assms(2-4) by blast
qed

lemma sess_fins_first:
  assumes "sess_fins DEF_FIN_0 rtx en as qs" "unat d < length as"
  shows "sess_fins DEF_FIN_1 (if d = DEF_FROM_SERVER then DEF_FROM_SERVER else DEF_FROM_CLIENT) en (as[unat d := x]) qs"
proof -
  obtain a0 a1 a2 q0 q1 q2 where l: "as = [a0, a1, a2]" "qs = [q0, q1, q2]" using assms(1) by (rule sess_fins_arrays)
  then have d: "unat d < 3" using assms(2) by simp
  show ?thesis by (rule u8_below_3 [OF d]) (use assms(1) l in \<open>auto simp: sess_fins_3 fin_consts word_gt_0\<close>)
qed

lemma sess_fins_again:
  assumes "sess_fins fin rtx en as qs" "fin = DEF_FIN_1 \<and> rtx = d \<or> fin = DEF_FIN_2" "unat d < length as"
  shows "sess_fins fin rtx en (as[unat d := x]) (qs[unat d := 0])"
proof -
  obtain a0 a1 a2 q0 q1 q2 where l: "as = [a0, a1, a2]" "qs = [q0, q1, q2]" using assms(1) by (rule sess_fins_arrays)
  then have d: "unat d < 3" using assms(3) by simp
  show ?thesis by (rule u8_below_3 [OF d]) (use assms(1,2) l in \<open>auto simp: sess_fins_3 fin_consts word_gt_0\<close>)
qed

lemma sess_fins_second:
  assumes "sess_fins DEF_FIN_1 rtx en as qs" "rtx \<noteq> d" "unat d < length as"
  shows "sess_fins DEF_FIN_2 rtx en (as[unat d := x]) qs"
proof -
  obtain a0 a1 a2 q0 q1 q2 where l: "as = [a0, a1, a2]" "qs = [q0, q1, q2]" using assms(1) by (rule sess_fins_arrays)
  then have d: "unat d < 3" using assms(3) by simp
  show ?thesis by (rule u8_below_3 [OF d]) (use assms(1,2) l in \<open>auto simp: sess_fins_3 fin_consts word_gt_0\<close>)
qed

lemma sess_fins_acked:
  assumes "sess_fins fin rtx en as qs" "fin = DEF_FIN_1 \<or> fin = DEF_FIN_2" "as ! unat (d :: u8) > 0" "unat d < length as"
  shows "sess_fins fin rtx en as (qs[unat d := y])"
proof -
  obtain a0 a1 a2 q0 q1 q2 where l: "as = [a0, a1, a2]" "qs = [q0, q1, q2]" using assms(1) by (rule sess_fins_arrays)
  then have d: "unat d < 3" using assms(4) by simp
  show ?thesis by (rule u8_below_3 [OF d]) (use assms(1-3) l in \<open>auto simp: sess_fins_3 fin_consts word_gt_0\<close>)
qed

lemma sess_fins_over:
  assumes "sess_fins fin rtx en as qs" "fin > DEF_FIN_0" "qs ! unat DEF_FROM_CLIENT > 0" "qs ! unat DEF_FROM_SERVER > 0"
  shows "sess_fins DEF_FIN_3 rtx DEF_END_NORMAL as qs"
proof -
  obtain a0 a1 a2 q0 q1 q2 where l: "as = [a0, a1, a2]" "qs = [q0, q1, q2]" using assms(1) by (rule sess_fins_arrays)
  with assms show ?thesis by (auto simp: sess_fins_3 fin_consts word_gt_0)
qed

lemma sess_rest_simps [simp]:
  "sess_rest (s\<lparr>ts_ucFinStatus := a\<rparr>) = sess_rest s" "sess_rest (s\<lparr>ts_ucFinRtx := a\<rparr>) = sess_rest s"
  "sess_rest (s\<lparr>ts_uiFinChkAck := xs\<rparr>) = sess_rest s" "sess_rest (s\<lparr>ts_uiFinChkSeq := xs\<rparr>) = sess_rest s"
  by (simp_all add: sess_rest_def)

lemma sess_rest_normal: "sess_rest s \<Longrightarrow> sess_rest (s\<lparr>ts_ucEndStatus := DEF_END_NORMAL\<rparr>)"
  by (auto simp: sess_rest_def sess_consts)

lemma tcp_set_fin_ok: "sess_ok (fst p) \<Longrightarrow> sess_ok (fst (tcp_set_fin d p))"
  by (simp add: tcp_set_fin_def sess_ok_client sess_ok_server)

lemma chk_set_Some: "chk_set xs i v = Some ys \<longleftrightarrow> unat i < length xs \<and> ys = xs[unat i := v]"
  by (auto simp: chk_set_def)

lemma chk_get_Some: "chk_get xs i = Some v \<longleftrightarrow> unat i < length xs \<and> v = xs ! unat i"
  by (auto simp: chk_get_def)

lemma tcp_fin_again_ok:
  assumes "sess_ok s" "ts_ucFinStatus s = DEF_FIN_1 \<and> ts_ucFinRtx s = d \<or> ts_ucFinStatus s = DEF_FIN_2"
    "tcp_fin_again eth d s = Some s'"
  shows "sess_ok s'"
proof (cases "s' = s")
  case False
  let ?x = "tcp_fin_end eth"
  have "s' = s\<lparr>ts_uiFinChkAck := (ts_uiFinChkAck s)[unat d := ?x], ts_uiFinChkSeq := (ts_uiFinChkSeq s)[unat d := 0]\<rparr>"
    "unat d < length (ts_uiFinChkAck s)"
    using assms(3) False by (auto simp: tcp_fin_again_def chk_set_Some chk_get_Some bind_eq_Some_conv split: if_splits)
  then show ?thesis using assms(1) sess_fins_again [OF _ assms(2), of "ts_ucEndStatus s" "ts_uiFinChkAck s" "ts_uiFinChkSeq s" ?x]
    by (simp add: sess_ok_def)
qed (use assms(1) in simp)

lemma tcp_fin_acked_ok:
  assumes "sess_ok (fst p)" "ts_ucFinStatus (fst p) = DEF_FIN_1 \<or> ts_ucFinStatus (fst p) = DEF_FIN_2"
    "tcp_fin_acked d eth p = Some (p', hit)"
  shows "sess_ok (fst p') \<and> ts_ucFinStatus (fst p') = ts_ucFinStatus (fst p)"
proof (cases hit)
  case True
  obtain sess log where p: "p = (sess, log)" by (cases p)
  let ?s = "sess\<lparr>ts_uiFinChkSeq := (ts_uiFinChkSeq sess)[unat d := ut_seq (ie_stUDPTCP eth)]\<rparr>"
  have p': "p' = (if d = DEF_FROM_SERVER then tcp_set_server DEF_SVR_FINACK (?s, log) else tcp_set_client DEF_CLI_FINACK (?s, log))"
    and a: "unat d < length (ts_uiFinChkAck sess)" "ts_uiFinChkAck sess ! unat d > 0"
    using assms(3) True
    by (auto simp: p tcp_fin_acked_def chk_set_Some chk_get_Some bind_eq_Some_conv Let_def split: if_splits)
  have ok: "sess_ok (fst (?s, log))"
    using assms(1,2) sess_fins_acked [OF _ _ a(2,1)] by (simp add: p sess_ok_def)
  show ?thesis
    using sess_ok_server [OF ok, of DEF_SVR_FINACK] sess_ok_client [OF ok, of DEF_CLI_FINACK] by (auto simp: p' p)
next
  case False
  then have "p' = p"
    using assms(3) by (cases p) (auto simp: tcp_fin_acked_def bind_eq_Some_conv Let_def split: if_splits)
  then show ?thesis using assms(1) by simp
qed

lemma tcp_ack_fin_ok:
  assumes "sess_open (fst p)" "tcp_ack_fin cap eth d p = Some p'"
  shows "sess_ok (fst p')"
proof (cases "ts_ucFinStatus (fst p) > DEF_FIN_0")
  case False
  then show ?thesis using assms by (simp add: tcp_ack_fin_def sess_open_ok)
next
  case True
  have ok: "sess_ok (fst p)" using assms(1) by (rule sess_open_ok)
  have fin: "ts_ucFinStatus (fst p) = DEF_FIN_1 \<or> ts_ucFinStatus (fst p) = DEF_FIN_2"
    using assms(1) True by (auto simp: sess_open_def sess_ok_def sess_rest_def sess_fins_def DEF_FIN_0_def)
  obtain sess log hit where r: "tcp_fin_acked (tcp_other d) eth p = Some ((sess, log), hit)"
    using assms(2) True by (auto simp: tcp_ack_fin_def bind_eq_Some_conv)
  have s: "sess_ok sess" "ts_ucFinStatus sess = ts_ucFinStatus (fst p)"
    using tcp_fin_acked_ok [OF ok fin r] by simp_all
  have over: "sess_ok (sess\<lparr>ts_ucEndStatus := DEF_END_NORMAL, ts_ucFinStatus := DEF_FIN_3\<rparr>)"
    if "ts_uiFinChkSeq sess ! unat DEF_FROM_CLIENT > 0" "ts_uiFinChkSeq sess ! unat DEF_FROM_SERVER > 0"
  proof -
    have "sess_fins DEF_FIN_3 (ts_ucFinRtx sess) DEF_END_NORMAL (ts_uiFinChkAck sess) (ts_uiFinChkSeq sess)"
      by (rule sess_fins_over [OF _ _ that, of "ts_ucFinStatus sess" _ "ts_ucEndStatus sess"])
        (use s True in \<open>simp_all add: sess_ok_def\<close>)
    then show ?thesis using s(1) sess_rest_normal by (simp add: sess_ok_def)
  qed
  show ?thesis
    using assms(2) True r over s(1)
    by (auto simp: tcp_ack_fin_def bind_eq_Some_conv chk_get_Some split: if_splits)
qed

lemma tcp_on_fin_ok:
  assumes "sess_ok (fst p)" "tcp_on_fin cap eth d p = Some p'"
  shows "sess_ok (fst p')"
proof -
  obtain sess log where p: "p = (sess, log)" by (cases p)
  let ?as = "(ts_uiFinChkAck sess)[unat d := tcp_fin_end eth]"
  have ok: "sess_ok sess" using assms(1) by (simp add: p)
  consider "ts_ucFinStatus sess = DEF_FIN_0" | "ts_ucFinStatus sess = DEF_FIN_1" "ts_ucFinRtx sess = d"
    | "ts_ucFinStatus sess = DEF_FIN_1" "ts_ucFinRtx sess \<noteq> d" | "ts_ucFinStatus sess = DEF_FIN_2"
    | "ts_ucFinStatus sess \<notin> {DEF_FIN_0, DEF_FIN_1, DEF_FIN_2}" by blast
  then show ?thesis
  proof cases
    case 1
    let ?s = "sess\<lparr>ts_ucFinStatus := DEF_FIN_1, ts_uiFinChkAck := ?as,
      ts_ucFinRtx := (if d = DEF_FROM_SERVER then DEF_FROM_SERVER else DEF_FROM_CLIENT)\<rparr>"
    obtain l where l: "unat d < length (ts_uiFinChkAck sess)" "p' = tcp_set_fin d (?s, l)"
      using assms(2) 1 by (auto simp: p tcp_on_fin_def chk_set_Some bind_eq_Some_conv Let_def)
    have "sess_ok ?s"
      using ok 1 sess_fins_first [OF _ l(1), of "ts_ucFinRtx sess" "ts_ucEndStatus sess" "ts_uiFinChkSeq sess" "tcp_fin_end eth"]
      unfolding sess_ok_def by simp
    then show ?thesis unfolding l(2) by (intro tcp_set_fin_ok) simp
  next
    case 3
    let ?s = "sess\<lparr>ts_ucFinStatus := DEF_FIN_2, ts_uiFinChkAck := ?as\<rparr>"
    obtain p2 hit l where a: "unat d < length (ts_uiFinChkAck sess)" "tcp_fin_acked (tcp_other d) eth (?s, log) = Some (p2, hit)"
      "p' = tcp_set_fin d (fst p2, l)"
      using assms(2) 3 by (auto simp: p tcp_on_fin_def chk_set_Some bind_eq_Some_conv Let_def DEF_FIN_0_def DEF_FIN_1_def)
    have "sess_ok ?s" using ok 3 sess_fins_second [OF _ 3(2) a(1)] by (simp add: sess_ok_def)
    then have "sess_ok (fst p2)" using tcp_fin_acked_ok [OF _ _ a(2)] by simp
    then show ?thesis by (simp add: a(3) tcp_set_fin_ok)
  qed (use assms(2) ok tcp_fin_again_ok in \<open>auto simp: p tcp_on_fin_def bind_eq_Some_conv DEF_FIN_0_def DEF_FIN_1_def DEF_FIN_2_def\<close>)
qed

section \<open>The codes of an open session\<close>

lemma ended_code:
  assumes "tcp_ended a" "tcp_ended b" "tcp_cause a \<noteq> tcp_cause b"
  shows "GetFailCode a \<noteq> 0" "GetFailCode a \<noteq> GetFailCode b"
  using assms(3) cause_code_nonzero GetFailCode_ended [OF assms(1)] GetFailCode_ended [OF assms(2)] inj_on_eq_iff [OF cause_code_inj]
  by simp_all

lemma sess_open_codes:
  assumes s: "sess_open s"
  defines "abn \<equiv> GetFailCode (s\<lparr>ts_ucEndStatus := DEF_END_ABNORMAL\<rparr>)"
    and "late \<equiv> GetFailCode (s\<lparr>ts_ucEndStatus := DEF_END_LONGLAST\<rparr>)"
  shows "abn \<noteq> 0" "late \<noteq> 0" "abn \<noteq> late" "ts_ucEndStatus s = DEF_END_RST \<Longrightarrow> GetFailCode s \<notin> {0, abn, late}"
proof -
  let ?a = "s\<lparr>ts_ucEndStatus := DEF_END_ABNORMAL\<rparr>" and ?l = "s\<lparr>ts_ucEndStatus := DEF_END_LONGLAST\<rparr>"
  note e = sess_open_ended [OF s]
  have a: "tcp_cause ?a = CAbnormal" by (simp add: tcp_cause_def end_consts Let_def)
  have l: "tcp_cause ?l = (if ts_ucFinStatus s = DEF_FIN_0 then CLast (ts_ucStatus s) else CLastFin (ts_ucFinRtx s = DEF_FROM_SERVER))"
    by (simp add: tcp_cause_def end_consts Let_def)
  have al: "tcp_cause ?a \<noteq> tcp_cause ?l" "tcp_cause ?l \<noteq> tcp_cause ?a" by (simp_all add: a l)
  show "abn \<noteq> 0" "abn \<noteq> late" unfolding abn_def late_def using ended_code [OF e(1,2) al(1)] .
  show "late \<noteq> 0" unfolding late_def using ended_code(1) [OF e(2,1) al(2)] .
  assume rst: "ts_ucEndStatus s = DEF_END_RST"
  have "tcp_cause s \<noteq> tcp_cause ?a" "tcp_cause s \<noteq> tcp_cause ?l"
    unfolding a l using rst by (simp_all add: tcp_cause_def end_consts Let_def)
  then show "GetFailCode s \<notin> {0, abn, late}"
    unfolding abn_def late_def using ended_code [OF e(3) [OF rst] e(1)] ended_code(2) [OF e(3) [OF rst] e(2)] by simp
qed

end
