(* ===== verification/TimerNWorld.thy ===== *)
theory TimerNWorld
  imports TimerN Ensures
begin

text \<open>
  What the operations of the wheel do to the state of their client: no more than the functions that the client
  has given to it.
\<close>

text \<open>A property \<open>keep\<close> of the client's own state that every function it gives to the wheel keeps.\<close>

locale timer_world =
  fixes call :: "'f \<Rightarrow> u8 list \<Rightarrow> 'w \<times> 'f timerNinfo \<Rightarrow> ('w \<times> 'f timerNinfo) option"
    and keep :: "'w \<Rightarrow> bool"
  assumes call_keep: "keep w \<Longrightarrow> ensures (call f arg (w, t)) (\<lambda>r. keep (fst r))"
begin

lemma call_then: "keep w \<Longrightarrow> (\<And>w' t'. keep w' \<Longrightarrow> Q (w', t')) \<Longrightarrow> ensures (call f arg (w, t)) Q"
  using call_keep [of w f arg t] by (force simp: ensures_def)

lemma fire_keep:
  assumes "keep (fst s)"
  shows "ensures (timerN_fire call s p) (\<lambda>r. keep (fst r))"
proof -
  obtain w t where s: "s = (w, t)" by (cases s)
  have w: "keep w" using assms by (simp add: s)
  show ?thesis
    unfolding timerN_fire_def Let_def s
    by (rule ensures_prod ensures_bind ensures_Some call_then w | assumption | simp add: w | rule ensures_any)+
qed

lemma add_keep:
  assumes "keep (fst s)"
  shows "ensures (timerN_add call malloc s f arg timeout) (\<lambda>r. keep (fst (fst r)))"
proof -
  obtain w t where s: "s = (w, t)" by (cases s)
  have w: "keep w" using assms by (simp add: s)
  show ?thesis
    unfolding timerN_add_def Let_def s
    by (rule ensures_prod ensures_if ensures_bind ensures_Some ensures_None call_then w | assumption | simp add: w split del: if_split | rule ensures_any)+
qed

lemma update_keep:
  assumes "keep (fst s)"
  shows "ensures (timerN_update call s i timeout) (\<lambda>r. keep (fst (fst r)))"
proof -
  obtain w t where s: "s = (w, t)" by (cases s)
  have w: "keep w" using assms by (simp add: s)
  have fire: "ensures (timerN_fire call (w, t') p) (\<lambda>s'. ensures (Some (s', j)) (\<lambda>r. keep (fst (fst r))))" for t' p and j :: u64
    using fire_keep [of "(w, t')" p] w by (simp add: ensures_def)
  show ?thesis
    unfolding timerN_update_def Let_def s
    by (rule ensures_prod ensures_if ensures_bind fire ensures_Some ensures_None | assumption | simp add: w split del: if_split | rule ensures_any)+
qed

lemma second_keep: "keep (fst s) \<Longrightarrow> ensures (timerN_second call s) (\<lambda>r. keep (fst r))"
proof (rule ensuresI)
  fix r assume k: "keep (fst s)" and ret: "timerN_second call s = Some r"
  have "(keep (fst s) \<longrightarrow> keep (fst r))"
  proof (rule timerN_second.raw_induct [OF _ ret, where P = "\<lambda>c s r. c = call \<longrightarrow> keep (fst s) \<longrightarrow> keep (fst r)", THEN mp, OF _ refl], goal_cases)
    case (1 f c s r)
    show ?case
    proof (intro impI)
      assume c: "c = call" and k: "keep (fst s)"
      show "keep (fst r)"
      proof (rule ensuresD [OF _ 1(2)], rule ensures_bind, rule ensures_any, rule ensures_if)
        show "ensures (Some s) (\<lambda>r. keep (fst r))" by (rule ensures_Some) (rule k)
        fix p
        show "ensures (timerN_fire c s p \<bind> f c) (\<lambda>r. keep (fst r))"
          unfolding c
        proof (rule ensures_bind, rule ensures_mono [OF fire_keep [OF k]])
          fix y :: "'w \<times> 'f timerNinfo" assume "keep (fst y)"
          then show "ensures (f call y) (\<lambda>r. keep (fst r))" using 1(1) [of call y] by (intro ensuresI) simp
        qed
      qed
    qed
  qed
  with k show "keep (fst r)" by simp
qed

lemma loop_keep: "keep (fst s) \<Longrightarrow> ensures (timerN_loop call tt s) (\<lambda>r. keep (fst r))"
proof (rule ensuresI)
  fix r assume k: "keep (fst s)" and ret: "timerN_loop call tt s = Some r"
  have "(keep (fst s) \<longrightarrow> keep (fst r))"
  proof (rule timerN_loop.raw_induct [OF _ ret, where P = "\<lambda>c tt s r. c = call \<longrightarrow> keep (fst s) \<longrightarrow> keep (fst r)", THEN mp, OF _ refl], goal_cases)
    case (1 f c tt s r)
    show ?case
    proof (intro impI)
      assume c: "c = call" and k: "keep (fst s)"
      show "keep (fst r)"
      proof (rule ensuresD [OF _ 1(2)], rule ensures_if)
        show "ensures (Some s) (\<lambda>r. keep (fst r))" by (rule ensures_Some) (rule k)
        show "ensures (timerN_second c s \<bind> (\<lambda>(w, t). f c tt (w, t\<lparr>tn_uiCurrentTime := tn_uiCurrentTime t + 1\<rparr>))) (\<lambda>r. keep (fst r))"
          unfolding c
        proof (rule ensures_bind, rule ensures_mono [OF second_keep [OF k]], rule ensures_prod)
          fix y :: "'w \<times> 'f timerNinfo" and w t assume "keep (fst y)" "y = (w, t)"
          then show "ensures (f call tt (w, t\<lparr>tn_uiCurrentTime := tn_uiCurrentTime t + 1\<rparr>)) (\<lambda>r. keep (fst r))"
            using 1(1) [of call tt "(w, t\<lparr>tn_uiCurrentTime := tn_uiCurrentTime t + 1\<rparr>)"] by (intro ensuresI) simp
        qed
      qed
    qed
  qed
  with k show "keep (fst r)" by simp
qed

lemma invoke_keep: "keep (fst s) \<Longrightarrow> ensures (timerN_invoke call now s) (\<lambda>r. keep (fst r))"
  unfolding timerN_invoke_def by (rule loop_keep)

end

end
