(* ===== verification/TcpTable.thy ===== *)
theory TcpTable
  imports TcpProc TcpOpen TimerNWorld HashoTable
begin

text \<open>
  The table of the sessions: \<open>ap_all R\<close> says that \<open>R\<close> holds of every session in it. What writing, adding and
  deleting do to it, and that closing sessions, in whatever way, keeps it. With that \<open>invoke_del\<close> is a client of
  the wheel (interpretation \<open>tw\<close>).
\<close>

section \<open>The table of the sessions\<close>

text \<open>A property of all sessions in the table: of the address, the bytes of the key, and the session.\<close>

definition ap_all :: "(offset \<Rightarrow> u8 list \<Rightarrow> tcpsess \<Rightarrow> bool) \<Rightarrow> aproc_env \<Rightarrow> aproc \<Rightarrow> bool" where
  "ap_all R e s \<longleftrightarrow> hasho_wf (ap_hash s) \<and> klen (ap_hash s) = 12 \<and>
     (\<forall>x. length (ae_sess_bytes e x) = dlen (ap_hash s)) \<and>
     (\<forall>p \<in> hasho_nodes (ap_hash s). \<exists>sess. ap_sess s (hdata_at (ap_hash s) p) = Some sess \<and>
        R (hdata_at (ap_hash s) p) (hkey (ap_hash s) p) sess)"

lemma ap_all_frame [simp]:
  "ap_all R e (s\<lparr>ap_tc := tc\<rparr>) = ap_all R e s" "ap_all R e (s\<lparr>ap_keyhash := kh\<rparr>) = ap_all R e s"
  "ap_all R e (s\<lparr>ap_keydata := kd\<rparr>) = ap_all R e s" "ap_all R e (s\<lparr>ap_keytbl := kt\<rparr>) = ap_all R e s"
  "ap_all R e (s\<lparr>ap_call := c\<rparr>) = ap_all R e s" "ap_all R e (ap_sub g s) = ap_all R e s"
  by (simp_all add: ap_all_def ap_sub_def)

lemma ap_all_mono: "ap_all R e s \<Longrightarrow> (\<And>a k x. R a k x \<Longrightarrow> R' a k x) \<Longrightarrow> ap_all R' e s"
  by (fastforce simp: ap_all_def)

lemma length_tcp_key_bytes [simp]: "length (tcp_key_bytes k) = 12"
  by (simp add: tcp_key_bytes_def le32_bytes_def le16_bytes_def)

text \<open>A key that is found, and the session of its node.\<close>

lemma ap_find:
  assumes "ap_all R e s" "hasho_find (ap_hash s) (tcp_key_bytes key) = Some (Some p)"
  shows "p \<in> hasho_nodes (ap_hash s)" "hkey (ap_hash s) p = tcp_key_bytes key"
proof -
  obtain bs where rep: "hasho_rep (ap_hash s) bs" using assms(1) by (auto simp: ap_all_def hasho_wf_def)
  have "tcp_key_bytes key \<in> hkey (ap_hash s) ` hasho_nodes (ap_hash s)"
    using hasho_find_miss [OF rep, of "tcp_key_bytes key"] assms by (auto simp: ap_all_def)
  then obtain q where q: "q \<in> hasho_nodes (ap_hash s)" "tcp_key_bytes key = hkey (ap_hash s) q" by blast
  then have "q = p" using hasho_find_hit [OF rep q(1)] assms(2) by simp
  then show "p \<in> hasho_nodes (ap_hash s)" "hkey (ap_hash s) p = tcp_key_bytes key" using q by simp_all
qed

lemma ap_data:
  "ap_all R e s \<Longrightarrow> p \<in> hasho_nodes (ap_hash s) \<Longrightarrow> hasho_data_at (ap_hash s) p = Some (hdata_at (ap_hash s) p)"
  by (simp add: ap_all_def hasho_data_node)

text \<open>Writing a session.\<close>

lemma ap_all_write:
  assumes "ap_all R e s" "ap_sess s sp = Some sess" "\<And>k. R sp k sess \<Longrightarrow> R' sp k sess'"
    "\<And>a k x. a \<noteq> sp \<Longrightarrow> R a k x \<Longrightarrow> R' a k x"
  shows "ap_all R' e (s\<lparr>ap_sess := (ap_sess s)(sp \<mapsto> sess')\<rparr>)"
  using assms by (fastforce simp: ap_all_def)

text \<open>A session whose key is deleted may be overwritten.\<close>

lemma ap_all_del:
  assumes all: "ap_all R' e s" and key: "\<And>k x. R' sp k x \<Longrightarrow> k = tcp_key_bytes key"
    and R: "\<And>a k x. a \<noteq> sp \<Longrightarrow> R' a k x \<Longrightarrow> R a k x" and del: "hasho_del (ap_hash s) (tcp_key_bytes key) = Some h"
  shows "ap_all R e (s\<lparr>ap_sess := (ap_sess s)(sp \<mapsto> sess), ap_hash := h\<rparr>)"
proof -
  let ?h = "ap_hash s"
  obtain bs where rep: "hasho_rep ?h bs" using all by (auto simp: ap_all_def hasho_wf_def)
  have kl: "length (tcp_key_bytes key) = klen ?h" using all by (simp add: ap_all_def)
  have at: "\<exists>x. ap_sess s (hdata_at ?h q) = Some x \<and> R' (hdata_at ?h q) (hkey ?h q) x" if "q \<in> hasho_nodes ?h" for q
    using all that by (simp add: ap_all_def)
  have new: "ap_all R e (s\<lparr>ap_sess := (ap_sess s)(sp \<mapsto> sess), ap_hash := h\<rparr>)"
    if h: "hasho_wf h" "klen h = klen ?h" "dlen h = dlen ?h" "hkey h = hkey ?h" and n: "hasho_nodes h \<subseteq> hasho_nodes ?h"
      and ne: "\<And>q. q \<in> hasho_nodes h \<Longrightarrow> hkey ?h q \<noteq> tcp_key_bytes key"
    unfolding ap_all_def
  proof (intro conjI ballI allI)
    fix q assume q: "q \<in> hasho_nodes (ap_hash (s\<lparr>ap_sess := (ap_sess s)(sp \<mapsto> sess), ap_hash := h\<rparr>))"
    then obtain x where x: "ap_sess s (hdata_at ?h q) = Some x" "R' (hdata_at ?h q) (hkey ?h q) x" using at n by auto
    have "hdata_at ?h q \<noteq> sp" using key x(2) ne q by auto
    then show "\<exists>x. ap_sess (s\<lparr>ap_sess := (ap_sess s)(sp \<mapsto> sess), ap_hash := h\<rparr>)
        (hdata_at (ap_hash (s\<lparr>ap_sess := (ap_sess s)(sp \<mapsto> sess), ap_hash := h\<rparr>)) q) = Some x \<and>
        R (hdata_at (ap_hash (s\<lparr>ap_sess := (ap_sess s)(sp \<mapsto> sess), ap_hash := h\<rparr>)) q)
          (hkey (ap_hash (s\<lparr>ap_sess := (ap_sess s)(sp \<mapsto> sess), ap_hash := h\<rparr>)) q) x"
      using x R h(2,4) by (simp add: hdata_at_def)
  qed (use all h in \<open>simp_all add: ap_all_def\<close>)
  show ?thesis
  proof (cases "tcp_key_bytes key \<in> hkey ?h ` hasho_nodes ?h")
    case False
    then have "h = ?h" using hasho_del_miss [OF rep kl False] del by simp
    moreover have "hkey ?h q \<noteq> tcp_key_bytes key" if "q \<in> hasho_nodes ?h" for q
      using False that by (metis image_eqI)
    ultimately show ?thesis using all by (intro new) (auto simp: ap_all_def)
  next
    case True
    then obtain p where p: "p \<in> hasho_nodes ?h" "tcp_key_bytes key = hkey ?h p" by blast
    obtain h' bs' where d: "hasho_del ?h (hkey ?h p) = Some h'" "hasho_rep h' bs'" "hasho_nodes h' = hasho_nodes ?h - {p}"
      "hkey h' = hkey ?h" "klen h' = klen ?h" "dlen h' = dlen ?h"
      using hasho_del_hit [OF rep p(1)] by metis
    have "h' = h" using d(1) del p(2) by simp
    moreover have "inj_on (hkey ?h) (hasho_nodes ?h)" using rep by (simp add: hasho_rep_def)
    ultimately show ?thesis
      using d p by (intro new) (auto simp: hasho_wf_def inj_on_def)
  qed
qed

text \<open>A new session: \<open>None\<close> changes nothing.\<close>

lemma ap_all_add:
  assumes all: "ap_all R e s" and add: "hasho_add now (ap_hash s) (tcp_key_bytes key) (ae_sess_bytes e x) = Some (h, r)"
  shows "r = None \<Longrightarrow> h = ap_hash s"
    "r = Some p \<Longrightarrow> hasho_data_at h p = Some (hdata_at h p)"
    "r = Some p \<Longrightarrow> R' (hdata_at h p) (tcp_key_bytes key) y \<Longrightarrow> (\<And>a k x. a \<noteq> hdata_at h p \<Longrightarrow> R a k x \<Longrightarrow> R' a k x) \<Longrightarrow>
      ap_all R' e (s\<lparr>ap_hash := h, ap_sess := (ap_sess s)(hdata_at h p \<mapsto> y)\<rparr>)"
proof -
  let ?h = "ap_hash s"
  obtain bs where rep: "hasho_rep ?h bs" using all by (auto simp: ap_all_def hasho_wf_def)
  have l: "length (tcp_key_bytes key) = klen ?h" "length (ae_sess_bytes e x) = dlen ?h"
    using all by (simp_all add: ap_all_def)
  consider (refused) "h = ?h" "r = None" | (made) bs' p' where "r = Some p'" "hasho_rep h bs'"
    "hasho_nodes h = insert p' (hasho_nodes ?h)" "p' \<notin> hasho_nodes ?h" "hkey h p' = tcp_key_bytes key"
    "klen h = klen ?h" "dlen h = dlen ?h" "\<And>q. q \<in> hasho_nodes ?h \<Longrightarrow> hkey h q = hkey ?h q"
  proof (cases "tcp_key_bytes key \<in> hkey ?h ` hasho_nodes ?h")
    case True
    then show thesis using hasho_add_dup [OF rep True] add refused by simp
  next
    case False
    show thesis
    proof (cases "card (hasho_nodes ?h) = hasho_cap ?h")
      case True
      then show thesis using hasho_add_full [OF rep l(1) False True] add refused by simp
    next
      case ne: False
      obtain h' bs' p' where a: "hasho_add now ?h (tcp_key_bytes key) (ae_sess_bytes e x) = Some (h', Some p')" "hasho_rep h' bs'"
        "hasho_nodes h' = insert p' (hasho_nodes ?h)" "p' \<notin> hasho_nodes ?h" "hkey h' p' = tcp_key_bytes key"
        "klen h' = klen ?h" "dlen h' = dlen ?h" "\<And>q. q \<in> hasho_nodes ?h \<Longrightarrow> hkey h' q = hkey ?h q"
        using hasho_add_new [OF rep l False ne] by metis
      have h': "h' = h" "r = Some p'" using a(1) add by simp_all
      show thesis using made [of p' bs'] a(2-) h' by simp
    qed
  qed
  note cs = this
  show "r = None \<Longrightarrow> h = ap_hash s" using cs by cases simp_all
  show "r = Some p \<Longrightarrow> hasho_data_at h p = Some (hdata_at h p)"
    using cs by cases (auto simp: hasho_wf_def intro!: hasho_data_node)
  show "ap_all R' e (s\<lparr>ap_hash := h, ap_sess := (ap_sess s)(hdata_at h p \<mapsto> y)\<rparr>)"
    if p: "r = Some p" and y: "R' (hdata_at h p) (tcp_key_bytes key) y" and R: "\<And>a k x. a \<noteq> hdata_at h p \<Longrightarrow> R a k x \<Longrightarrow> R' a k x"
    using cs
  proof cases
    case refused
    then show ?thesis using p by simp
  next
    case (made bs' p')
    have p': "p' = p" using made(1) p by simp
    show ?thesis
      unfolding ap_all_def
    proof (intro conjI ballI allI)
      fix q assume "q \<in> hasho_nodes (ap_hash (s\<lparr>ap_hash := h, ap_sess := (ap_sess s)(hdata_at h p \<mapsto> y)\<rparr>))"
      then consider "q = p" | "q \<in> hasho_nodes ?h" "q \<noteq> p" using made(3,4) p' by auto
      then show "\<exists>z. ap_sess (s\<lparr>ap_hash := h, ap_sess := (ap_sess s)(hdata_at h p \<mapsto> y)\<rparr>)
          (hdata_at (ap_hash (s\<lparr>ap_hash := h, ap_sess := (ap_sess s)(hdata_at h p \<mapsto> y)\<rparr>)) q) = Some z \<and>
          R' (hdata_at (ap_hash (s\<lparr>ap_hash := h, ap_sess := (ap_sess s)(hdata_at h p \<mapsto> y)\<rparr>)) q)
            (hkey (ap_hash (s\<lparr>ap_hash := h, ap_sess := (ap_sess s)(hdata_at h p \<mapsto> y)\<rparr>)) q) z"
      proof cases
        case 1
        then show ?thesis using y made(5) p' by simp
      next
        case 2
        have ne: "hdata_at h q \<noteq> hdata_at h p" using 2(2) hdata_at_inj by blast
        obtain z where "ap_sess s (hdata_at ?h q) = Some z" "R (hdata_at ?h q) (hkey ?h q) z"
          using all 2(1) by (auto simp: ap_all_def)
        moreover have "hdata_at ?h q = hdata_at h q" using made(6) by (simp add: hdata_at_def)
        ultimately show ?thesis using ne R made(8) [OF 2(1)] by simp
      qed
    qed (use all made in \<open>simp_all add: ap_all_def hasho_wf_def, blast?\<close>)
  qed
qed

section \<open>Properties that only look at the life cycle\<close>

definition kindly :: "(offset \<Rightarrow> u8 list \<Rightarrow> tcpsess \<Rightarrow> bool) \<Rightarrow> bool" where
  "kindly R \<longleftrightarrow> (\<forall>a k x y. sess_kind x = sess_kind y \<longrightarrow> R a k x = R a k y)"

lemma kindlyD: "kindly R \<Longrightarrow> sess_kind y = sess_kind x \<Longrightarrow> R a k x \<Longrightarrow> R a k y"
  unfolding kindly_def by metis

lemma ap_all_kind:
  assumes "ap_all R e s" "kindly R" "ap_sess s sp = Some sess" "sess_kind sess' = sess_kind sess"
  shows "ap_all R e (s\<lparr>ap_sess := (ap_sess s)(sp \<mapsto> sess')\<rparr>)"
  using assms(1,3) by (rule ap_all_write) (use kindlyD [OF assms(2,4)] in simp_all)

lemma ap_sess_upd_kind:
  assumes "ap_all R e s" "kindly R" "\<And>x. sess_kind (f x) = sess_kind x"
  shows "ensures (ap_sess_upd s sp f) (ap_all R e)"
  unfolding ap_sess_upd_def
  by (rule ensuresI) (use assms ap_all_kind in \<open>auto simp: bind_eq_Some_conv\<close>)

lemma ap_node_delete_all: "ap_all R e s \<Longrightarrow> ensures (ap_node_delete s p) (ap_all R e)"
  unfolding ap_node_delete_def by (rule ensuresI) (auto simp: bind_eq_Some_conv)

lemma Delete_SessList_all: "ap_all R e s \<Longrightarrow> ensures (Delete_SessList s key) (ap_all R e)"
  unfolding Delete_SessList_def Let_def
  by (rule ensures_flow ensures_Some | assumption | simp split del: if_split | rule ensures_any)+

lemma dCheckSessKeyList_all: "ap_all R e s \<Longrightarrow> ensures (dCheckSessKeyList e s key sp) (\<lambda>r. ap_all R e (fst r))"
  unfolding dCheckSessKeyList_def Let_def
  by (rule ensures_flow ensures_Some | assumption | simp split del: if_split | rule ensures_any)+

lemma tcp_timer_del_all: "ap_all R e (fst w) \<Longrightarrow> ensures (tcp_timer_del w sp) (\<lambda>w'. ap_all R e (fst w'))"
  unfolding tcp_timer_del_def
  by (cases w) (auto simp: bind_eq_Some_conv intro!: ensuresI)

section \<open>Closing\<close>

lemma dCloseSession_all:
  assumes all: "ap_all R' e s" and key: "\<And>k x. R' sp k x \<Longrightarrow> k = tcp_key_bytes key"
    and R: "\<And>a k x. a \<noteq> sp \<Longrightarrow> R' a k x \<Longrightarrow> R a k x"
  shows "ensures (dCloseSession e s key sp) (ap_all R e)"
proof (rule ensuresI)
  fix s' assume "dCloseSession e s key sp = Some s'"
  then obtain tc sess h where h: "hasho_del (ap_hash s) (tcp_key_bytes key) = Some h"
    and s': "s' = (ap_sub (\<lambda>u. u\<lparr>as_curSessCnt := as_curSessCnt u - 1\<rparr>) s)
      \<lparr>ap_tc := tc, ap_sess := (ap_sess s)(sp \<mapsto> sess), ap_hash := h\<rparr>"
    by (auto simp: dCloseSession_def Let_def bind_eq_Some_conv ap_sub_def)
  have "ap_all R e ((s\<lparr>ap_sess := (ap_sess s)(sp \<mapsto> sess), ap_hash := h\<rparr>)\<lparr>ap_tc := tc\<rparr>)"
    using ap_all_del [OF all key R h] by simp
  moreover have "s' = (s\<lparr>ap_sess := (ap_sess s)(sp \<mapsto> sess), ap_hash := h\<rparr>)\<lparr>ap_tc := tc\<rparr>" by (simp add: s' ap_sub_def)
  ultimately show "ap_all R e s'" by simp
qed

text \<open>A session whose timer fires is closed whatever holds of the sessions.\<close>

definition but_at :: "offset \<Rightarrow> tcpsesskey \<Rightarrow> (offset \<Rightarrow> u8 list \<Rightarrow> tcpsess \<Rightarrow> bool) \<Rightarrow> offset \<Rightarrow> u8 list \<Rightarrow> tcpsess \<Rightarrow> bool" where
  "but_at sp key R a k x \<longleftrightarrow> (if a = sp then k = tcp_key_bytes key else R a k x)"

lemma ap_but_at:
  assumes "ap_all R e s" "hasho_find (ap_hash s) (tcp_key_bytes key) = Some (Some p)" "hasho_data_at (ap_hash s) p = Some sp"
  shows "ap_all (but_at sp key R) e s"
proof -
  have p: "p \<in> hasho_nodes (ap_hash s)" "hkey (ap_hash s) p = tcp_key_bytes key" using ap_find [OF assms(1,2)] .
  have sp: "sp = hdata_at (ap_hash s) p" using ap_data [OF assms(1) p(1)] assms(3) by simp
  have "but_at sp key R (hdata_at (ap_hash s) q) (hkey (ap_hash s) q) x"
    if "R (hdata_at (ap_hash s) q) (hkey (ap_hash s) q) x" for q x
    using that p(2) hdata_at_inj [of "ap_hash s" q p] by (auto simp: but_at_def sp)
  then show ?thesis using assms(1) by (fastforce simp: ap_all_def)
qed

lemma but_at_close: "ap_all (but_at sp key R) e s \<Longrightarrow> ensures (dCloseSession e s key sp) (ap_all R e)"
  by (rule dCloseSession_all [where R' = "but_at sp key R"]) (simp_all add: but_at_def)

lemma but_at_write: "ap_all (but_at sp key R) e s \<Longrightarrow> ensures (ap_sess_upd s sp f) (ap_all (but_at sp key R) e)"
  unfolding ap_sess_upd_def
  by (rule ensuresI) (auto simp: bind_eq_Some_conv but_at_def elim!: ap_all_write)

lemma invoke_del_all:
  assumes "ap_all R e s"
  shows "ensures (invoke_del e arg s) (ap_all R e)"
  unfolding invoke_del_def Let_def
proof (rule ensures_bind, rule ensuresI, rule ensures_option)
  show "ensures (Some s) (ap_all R e)" using assms by (rule ensures_Some)
  fix r p assume "hasho_find (ap_hash s) (tcp_key_bytes (tcp_key_of arg)) = Some r" "r = Some p"
  then have f: "hasho_find (ap_hash s) (tcp_key_bytes (tcp_key_of arg)) = Some (Some p)" by simp
  show "ensures (hasho_data_at (ap_hash s) p \<bind> (\<lambda>sp. ap_sess_upd s sp (\<lambda>sess. if ts_ucEndStatus sess \<noteq> DEF_END_RST
        then sess\<lparr>ts_ucEndStatus := DEF_END_LONGLAST\<rparr> else sess) \<bind>
      (\<lambda>s1. dCloseSession e s1 (tcp_key_of arg) sp \<bind> (\<lambda>s2. Delete_SessList s2 (tcp_key_of arg))))) (ap_all R e)"
  proof (rule ensures_bind, rule ensuresI)
    fix sp assume sp: "hasho_data_at (ap_hash s) p = Some sp"
    show "ensures (ap_sess_upd s sp (\<lambda>sess. if ts_ucEndStatus sess \<noteq> DEF_END_RST
        then sess\<lparr>ts_ucEndStatus := DEF_END_LONGLAST\<rparr> else sess) \<bind>
      (\<lambda>s1. dCloseSession e s1 (tcp_key_of arg) sp \<bind> (\<lambda>s2. Delete_SessList s2 (tcp_key_of arg)))) (ap_all R e)"
      by (rule ensures_bind, rule ensures_mono [OF but_at_write [OF ap_but_at [OF assms f sp]]],
          rule ensures_bind, rule ensures_mono [OF but_at_close], assumption, rule Delete_SessList_all)
  qed
qed

interpretation tw: timer_world "tcp_call e" "ap_all R e" for R e
proof
  show "ensures (tcp_call e f arg (w, t)) (\<lambda>r. ap_all R e (fst r))" if "ap_all R e w" for w f arg and t :: "tcp_timer_fn timerNinfo"
    using invoke_del_all [OF that, of arg] by (cases f) (auto simp: tcp_call_def ensures_def)
qed

lemma tcp_clear_sess_all:
  assumes "ap_all R e (fst w)"
  shows "ensures (tcp_clear_sess e key w) (\<lambda>w'. ap_all R e (fst w'))"
proof (cases w)
  case (Pair s t)
  have all: "ap_all R e s" using assms by (simp add: Pair)
  show ?thesis
    unfolding tcp_clear_sess_def Pair prod.case
  proof (rule ensures_bind, rule ensuresI, rule ensures_option)
    show "ensures (Some (s, t)) (\<lambda>w'. ap_all R e (fst w'))" using all by (intro ensures_Some) simp
    fix r p assume "hasho_find (ap_hash s) (tcp_key_bytes key) = Some r" "r = Some p"
    then have f: "hasho_find (ap_hash s) (tcp_key_bytes key) = Some (Some p)" by simp
    show "ensures (hasho_data_at (ap_hash s) p \<bind> (\<lambda>sp. ap_sess_upd s sp (\<lambda>sess. sess\<lparr>ts_ucEndStatus := DEF_END_LONGLAST\<rparr>) \<bind>
        (\<lambda>s1. dCloseSession e s1 key sp \<bind> (\<lambda>s2. tcp_timer_del (s2, t) sp)))) (\<lambda>w'. ap_all R e (fst w'))"
    proof (rule ensures_bind, rule ensuresI)
      fix sp assume sp: "hasho_data_at (ap_hash s) p = Some sp"
      show "ensures (ap_sess_upd s sp (\<lambda>sess. sess\<lparr>ts_ucEndStatus := DEF_END_LONGLAST\<rparr>) \<bind>
        (\<lambda>s1. dCloseSession e s1 key sp \<bind> (\<lambda>s2. tcp_timer_del (s2, t) sp))) (\<lambda>w'. ap_all R e (fst w'))"
        by (rule ensures_bind, rule ensures_mono [OF but_at_write [OF ap_but_at [OF all f sp]]],
            rule ensures_bind, rule ensures_mono [OF but_at_close], assumption, rule tcp_timer_del_all) simp
    qed
  qed
qed

text \<open>The clearing of a call closes sessions and nothing else.\<close>

lemma key_del_loop_keep:
  assumes act: "\<And>k w. I w \<Longrightarrow> ensures (act k w) I"
  shows "I (fst s) \<Longrightarrow> ensures (key_del_loop sel act n i d s) (\<lambda>r. I (fst (fst r)))"
proof (induction n arbitrary: s i d)
  case 0
  then show ?case by (auto intro: ensures_Some)
next
  case (Suc n)
  obtain w t h where s: "s = (w, t, h)" by (cases s)
  have w: "I w" using Suc.prems by (simp add: s)
  have step: "ensures (act k w) (\<lambda>w1. ensures (h1 \<bind> (\<lambda>h1. t2 \<bind> (\<lambda>t2. key_del_loop sel act n i' d' (w1, t2, h1)))) (\<lambda>r. I (fst (fst r))))"
    for k i' d' and h1 :: "sesskeylist option" and t2 :: "sesskeytbl option"
  proof (rule ensures_mono [OF act [OF w]])
    fix w1 assume w1: "I w1"
    show "ensures (h1 \<bind> (\<lambda>h1. t2 \<bind> (\<lambda>t2. key_del_loop sel act n i' d' (w1, t2, h1)))) (\<lambda>r. I (fst (fst r)))"
      by (rule ensures_bind Suc.IH | simp add: w1 | rule ensures_any)+
  qed
  show ?case
    unfolding s key_del_loop.simps
    by (rule ensures_if ensures_bind ensures_Some step Suc.IH | simp add: w split del: if_split | rule ensures_any)+
qed

lemma key_del_keep:
  assumes act: "\<And>k w. I w \<Longrightarrow> ensures (act k w) I" and "I (fst s)"
  shows "ensures (key_del sel act s) (\<lambda>r. I (fst (fst r)))"
proof (cases s)
  case (fields w t h)
  show ?thesis
    unfolding key_del_def fields prod.case
  proof (rule ensures_if, rule ensures_None, rule ensures_bind, rule ensures_any, rule ensures_prod)
    fix i cnt
    show "ensures (key_del_loop sel act cnt i 0 (w, t, h)) (\<lambda>r. I (fst (fst r)))"
      by (rule key_del_loop_keep) (use act assms(2) fields in simp_all)
  qed
qed

lemma tcp_clear_call_all:
  assumes "ap_all R e (fst w)"
  shows "ensures (tcp_clear_call e w ca) (\<lambda>w'. ap_all R e (fst w'))"
proof (cases w)
  case (Pair s t)
  have all: "ap_all R e s" using assms by (simp add: Pair)
  have del: "ensures (dDelSessKeyList (tcp_clear_sess e) n ((s1, t1), kt, h)) (\<lambda>r. ap_all R e (fst (fst (fst r))))"
    if "ap_all R e s1" for n s1 t1 kt h
    unfolding dDelSessKeyList_def
    by (rule key_del_keep [where I = "\<lambda>w. ap_all R e (fst w)"]) (use that tcp_clear_sess_all in simp_all)
  have cont: "ensures (dDelSessKeyList (tcp_clear_sess e) n ((s1, t1), kt, h)) Q"
    if "ap_all R e s1" "\<And>s2 t2 kt h2 d. ap_all R e s2 \<Longrightarrow> Q (((s2, t2), kt, h2), d)" for n s1 t1 kt h Q
    using del [OF that(1), of n t1 kt h] that(2) by (force simp: ensures_def)
  show ?thesis
    unfolding tcp_clear_call_def Pair prod.case Let_def
    by (simp only: prod.case | rule ensures_if ensures_bind ensures_prod ensures_option cont ensures_Some | assumption | simp add: all split del: if_split | rule ensures_any)+
qed

end
