(* ===== verification/TcpPacket.thy ===== *)
theory TcpPacket
  imports TcpTable
begin

text \<open>
  A packet and the table of the sessions: between two packets every session is open, the parts of
  \<open>dProcTcpSess\<close> keep that of all sessions but the one of the packet, and \<open>tcp_finish\<close> restores it.
\<close>

section \<open>Between two packets, and during a packet\<close>

text \<open>Between two packets every session in the table is open. During a packet this is so for all sessions but
  the one of the packet, at \<open>sp\<close>, of which \<open>Q\<close> holds if it is in the table.\<close>

definition ap_ok :: "aproc_env \<Rightarrow> aproc \<Rightarrow> bool" where
  "ap_ok = ap_all (\<lambda>a k x. sess_open x)"

definition ap_at :: "(tcpsess \<Rightarrow> bool) \<Rightarrow> tcpsesskey \<Rightarrow> offset \<Rightarrow> aproc_env \<Rightarrow> aproc \<Rightarrow> bool" where
  "ap_at Q key sp = ap_all (\<lambda>a k x. if a = sp then k = tcp_key_bytes key \<and> Q x else sess_open x)"

lemma ap_frame [simp]:
  "ap_ok e (s\<lparr>ap_tc := tc\<rparr>) = ap_ok e s" "ap_ok e (s\<lparr>ap_call := c\<rparr>) = ap_ok e s" "ap_ok e (ap_sub g s) = ap_ok e s"
  "ap_at Q key sp e (s\<lparr>ap_tc := tc\<rparr>) = ap_at Q key sp e s" "ap_at Q key sp e (ap_sub g s) = ap_at Q key sp e s"
  by (simp_all add: ap_ok_def ap_at_def)

lemma kindly_open [simp]: "kindly (\<lambda>a k x. sess_open x)"
  unfolding kindly_def using sess_open_kind by blast

lemma kindly_at: "(\<And>x y. sess_kind x = sess_kind y \<Longrightarrow> Q x = Q y) \<Longrightarrow>
    kindly (\<lambda>a k x. if a = sp then k = tcp_key_bytes key \<and> Q x else sess_open x)"
  unfolding kindly_def using sess_open_kind by (metis (full_types))

lemmas kindly_ok_open [simp] = kindly_at [of sess_ok, OF sess_ok_kind] kindly_at [of sess_open, OF sess_open_kind]

lemma ap_at_mono: "ap_at Q key sp e s \<Longrightarrow> (\<And>x. Q x \<Longrightarrow> Q' x) \<Longrightarrow> ap_at Q' key sp e s"
  unfolding ap_at_def by (erule ap_all_mono) (simp split: if_splits)

lemma ap_at_ok: "ap_at sess_open key sp e s \<Longrightarrow> ap_ok e s"
  unfolding ap_at_def ap_ok_def by (erule ap_all_mono) (simp split: if_splits)

lemma ap_ok_at:
  assumes "ap_ok e s" "hasho_find (ap_hash s) (tcp_key_bytes key) = Some (Some p)" "hasho_data_at (ap_hash s) p = Some sp"
  shows "ap_at sess_open key sp e s"
proof -
  have all: "ap_all (\<lambda>a k x. sess_open x) e s" using assms(1) by (simp add: ap_ok_def)
  have p: "p \<in> hasho_nodes (ap_hash s)" "hkey (ap_hash s) p = tcp_key_bytes key" using ap_find [OF all assms(2)] .
  have sp: "sp = hdata_at (ap_hash s) p" using ap_data [OF all p(1)] assms(3) by simp
  have "hkey (ap_hash s) q = tcp_key_bytes key" if "hdata_at (ap_hash s) q = sp" for q
    using that p(2) hdata_at_inj unfolding sp by blast
  then show ?thesis using all by (fastforce simp: ap_all_def ap_at_def)
qed

text \<open>A step on the session of the packet.\<close>

lemma ap_at_write:
  assumes "ap_at Q key sp e s" "ap_sess s sp = Some sess" "Q sess \<Longrightarrow> Q' sess'"
  shows "ap_at Q' key sp e (s\<lparr>ap_sess := (ap_sess s)(sp \<mapsto> sess')\<rparr>)"
  using assms(1,2) unfolding ap_at_def by (rule ap_all_write) (use assms(3) in simp_all)

lemma ap_at_kind:
  assumes "ap_at Q key sp e s" "ap_sess s sp = Some sess" "sess_kind sess' = sess_kind sess"
    "\<And>x y. sess_kind x = sess_kind y \<Longrightarrow> Q x = Q y"
  shows "ap_at Q key sp e (s\<lparr>ap_sess := (ap_sess s)(sp \<mapsto> sess')\<rparr>)"
  by (rule ap_at_write [OF assms(1,2)]) (use assms(3,4) in blast)

lemma ap_step_at:
  assumes "ap_at Q key sp e s" "\<And>p p'. Q (fst p) \<Longrightarrow> f p = Some p' \<Longrightarrow> Q' (fst p')"
  shows "ensures (ap_step s sp lp f) (ap_at Q' key sp e)"
proof (rule ensuresI)
  fix s' assume "ap_step s sp lp f = Some s'"
  then obtain sess log sess1 log1 where r: "ap_sess s sp = Some sess" "f (sess, log) = Some (sess1, log1)"
    "s' = (s\<lparr>ap_sess := (ap_sess s)(sp \<mapsto> sess1)\<rparr>)\<lparr>ap_tc := tcp_set_log (ap_tc s) lp log1\<rparr>"
    by (auto simp: ap_step_def bind_eq_Some_conv)
  show "ap_at Q' key sp e s'"
    unfolding r(3) using ap_at_write [OF assms(1) r(1), of Q' sess1] assms(2) [OF _ r(2)] by simp
qed

lemma ap_at_close: "ap_at Q key sp e s \<Longrightarrow> ensures (dCloseSession e s key sp) (ap_ok e)"
  unfolding ap_at_def ap_ok_def by (erule dCloseSession_all) simp_all

lemma ap_node_delete_ok: "ap_ok e s \<Longrightarrow> ensures (ap_node_delete s p) (ap_ok e)"
  and Delete_SessList_ok: "ap_ok e s \<Longrightarrow> ensures (Delete_SessList s key) (ap_ok e)"
  and tcp_timer_del_ok: "ap_ok e (fst w) \<Longrightarrow> ensures (tcp_timer_del w sp) (\<lambda>w'. ap_ok e (fst w'))"
  unfolding ap_ok_def by (fact ap_node_delete_all Delete_SessList_all tcp_timer_del_all)+

text \<open>The answer of a part that may go on with a session.\<close>

definition turn_ok :: "(tcpsess \<Rightarrow> bool) \<Rightarrow> tcpsesskey \<Rightarrow> aproc_env \<Rightarrow> tcpw \<times> tcp_turn \<Rightarrow> bool" where
  "turn_ok Q key e r \<longleftrightarrow> (case r of ((s, t), TGo sp lp) \<Rightarrow> ap_at Q key sp e s | ((s, t), TEnd d) \<Rightarrow> ap_ok e s)"

lemma turn_ok_simps [simp]:
  "turn_ok Q key e ((s, t), TGo sp lp) = ap_at Q key sp e s" "turn_ok Q key e ((s, t), TEnd d) = ap_ok e s"
  by (simp_all add: turn_ok_def)

lemma turn_ok_mono: "turn_ok Q key e r \<Longrightarrow> (\<And>x. Q x \<Longrightarrow> Q' x) \<Longrightarrow> turn_ok Q' key e r"
  unfolding turn_ok_def by (auto split: prod.splits tcp_turn.splits intro: ap_at_mono)

section \<open>The parts of a packet\<close>

lemma pCreateSession_made:
  assumes ok: "ap_ok e s" and add: "hasho_add n (ap_hash s) (tcp_key_bytes key) (ae_sess_bytes e x) = Some (h, Some p)"
    and sp: "hasho_data_at h p = Some sp" and y: "sess_open y"
    and t: "timerN_add (tcp_call e) (ae_malloc e) (s\<lparr>ap_hash := h, ap_sess := (ap_sess s)(sp \<mapsto> y)\<rparr>, t) Invoke_del
        (tcp_key_bytes key) tm = Some ((s1, t1), nid)"
    and u: "ap_sess_upd s1 sp (\<lambda>sess. sess\<lparr>ts_timerNID := nid\<rparr>) = Some s2"
  shows "ap_at sess_open key sp e s2"
proof -
  let ?R = "\<lambda>a k x. if a = sp then k = tcp_key_bytes key \<and> sess_open x else sess_open x"
  have "sp = hdata_at h p" using ap_all_add(2) [OF ok [unfolded ap_ok_def] add] sp by simp
  then have "ap_all ?R e (s\<lparr>ap_hash := h, ap_sess := (ap_sess s)(sp \<mapsto> y)\<rparr>)"
    using ap_all_add(3) [OF ok [unfolded ap_ok_def] add refl, of ?R y] y by simp
  then have "ap_all ?R e s1" using ensuresD [OF tw.add_keep t] by simp
  then show ?thesis
    unfolding ap_at_def using ensuresD [OF ap_sess_upd_kind u] by simp
qed

text \<open>The end of \<open>pCreateSession\<close>, from the addition to the table.\<close>

lemma pCreateSession_tail:
  assumes ok: "ap_ok e s" and y: "sess_open y"
  shows "ensures (do {
      (h, r2) \<leftarrow> hasho_add n (ap_hash s) (tcp_key_bytes key) (ae_sess_bytes e x);
      case r2 of
        None \<Rightarrow> do { s6 \<leftarrow> ap_node_delete (s\<lparr>ap_hash := h\<rparr>) pLOGNODE; Some ((s6, t), None) }
      | Some p \<Rightarrow> do {
          sp \<leftarrow> hasho_data_at h p;
          ((s7, t1), nid) \<leftarrow> timerN_add (tcp_call e) (ae_malloc e)
            (s\<lparr>ap_hash := h, ap_sess := (ap_sess (s\<lparr>ap_hash := h\<rparr>))(sp \<mapsto> y)\<rparr>, t) Invoke_del (tcp_key_bytes key) tm;
          s8 \<leftarrow> ap_sess_upd s7 sp (\<lambda>sess. sess\<lparr>ts_timerNID := nid\<rparr>);
          Some ((s8, t1), Some sp)
        }
    }) (\<lambda>(w, r). case r of None \<Rightarrow> ap_ok e (fst w) | Some sp \<Rightarrow> ap_at sess_open key sp e (fst w))"
proof (rule ensures_bindE, rule ensures_prod, rule ensures_option)
  fix z h r2 assume z: "hasho_add n (ap_hash s) (tcp_key_bytes key) (ae_sess_bytes e x) = Some z" "z = (h, r2)"
  show "ensures (ap_node_delete (s\<lparr>ap_hash := h\<rparr>) pLOGNODE \<bind> (\<lambda>s6. Some ((s6, t), None)))
      (\<lambda>(w, r). case r of None \<Rightarrow> ap_ok e (fst w) | Some sp \<Rightarrow> ap_at sess_open key sp e (fst w))" if "r2 = None"
  proof -
    have "h = ap_hash s" using ap_all_add(1) [OF ok [unfolded ap_ok_def]] z that by simp
    then have "ap_ok e (s\<lparr>ap_hash := h\<rparr>)" using ok by simp
    then show ?thesis
      by (intro ensures_bind ensures_mono [OF ap_node_delete_ok] ensures_Some) simp_all
  qed
  show "ensures (hasho_data_at h p \<bind> (\<lambda>sp. timerN_add (tcp_call e) (ae_malloc e)
            (s\<lparr>ap_hash := h, ap_sess := (ap_sess (s\<lparr>ap_hash := h\<rparr>))(sp \<mapsto> y)\<rparr>, t) Invoke_del (tcp_key_bytes key) tm \<bind>
          (\<lambda>(a, nid). (case a of (s7, t1) \<Rightarrow> \<lambda>nid. ap_sess_upd s7 sp (\<lambda>sess. sess\<lparr>ts_timerNID := nid\<rparr>) \<bind>
            (\<lambda>s8. Some ((s8, t1), Some sp))) nid)))
      (\<lambda>(w, r). case r of None \<Rightarrow> ap_ok e (fst w) | Some sp \<Rightarrow> ap_at sess_open key sp e (fst w))" if "r2 = Some p" for p
  proof (rule ensuresI, goal_cases)
    case (1 res)
    then show ?case
      using pCreateSession_made [OF ok z(1) [unfolded z(2) that] _ y] by (auto simp: bind_eq_Some_conv)
  qed
qed

lemma pCreateSession_ok:
  assumes ok: "ap_ok e s" and c: "c = TCP_SYN \<or> c = TCP_SYNACK"
  shows "ensures (pCreateSession e (s, t) key cap eth d c)
    (\<lambda>(w, r). case r of None \<Rightarrow> ap_ok e (fst w) | Some sp \<Rightarrow> ap_at sess_open key sp e (fst w))"
proof -
  have new: "sess_open y" if "tcp_new_ctl cap eth d c (tcp_new_sess raw cap eth q now\<lparr>ts_offset_LOG := lp\<rparr>, log) = (y, log1)"
    for raw q now lp log y log1
    using tcp_new_ctl_ok [OF c, of cap eth d lp raw q now log] that by simp
  have del: "ensures (ap_node_delete s0 p \<bind> (\<lambda>s'. Some ((s', t), None)))
      (\<lambda>(w, r). case r of None \<Rightarrow> ap_ok e (fst w) | Some sp \<Rightarrow> ap_at sess_open key sp e (fst w))" if "ap_ok e s0" for s0 p
    by (rule ensures_bind, rule ensures_mono [OF ap_node_delete_ok [OF that]], rule ensures_Some) simp
  show ?thesis
    unfolding pCreateSession_def prod.case Let_def
    by (rule pCreateSession_tail del ensures_bindE ensures_prod ensures_option ensures_Some | erule new | simp add: ok)+
qed

lemma ap_node_delete_end: "ap_ok e s \<Longrightarrow> ensures (ap_node_delete s p \<bind> (\<lambda>s'. Some ((s', t), TEnd d))) (turn_ok Q key e)"
  by (intro ensures_bind ensures_mono [OF ap_node_delete_ok] ensures_Some) simp_all

lemma tcp_renew_ok:
  assumes "ap_ok e s" "c = TCP_SYN \<or> c = TCP_SYNACK"
  shows "ensures (tcp_renew e (s, t) key cap eth d c pNode) (turn_ok sess_open key e)"
  unfolding tcp_renew_def
proof (rule ensures_bind, rule ensures_mono [OF pCreateSession_ok [OF assms]], goal_cases)
  case (1 y)
  obtain s1 t1 r where y: "y = ((s1, t1), r)" by (cases y) auto
  show ?case
  proof (cases r)
    case None
    then show ?thesis using 1 ap_node_delete_end by (simp add: y)
  next
    case (Some sp)
    have at: "ap_at sess_open key sp e s1" using 1 by (simp add: y Some)
    have k: "ensures (dCheckSessKeyList e s1 key sp) (\<lambda>r. ap_at sess_open key sp e (fst r))"
      using at unfolding ap_at_def by (rule dCheckSessKeyList_all)
    show ?thesis
      unfolding y Some prod.case option.case
    proof (rule ensures_bind, rule ensures_mono [OF k], rule ensures_prod)
      fix y :: "aproc \<times> int" and s2 dRet assume "ap_at sess_open key sp e (fst y)" "y = (s2, dRet)"
      then have at: "ap_at sess_open key sp e s2" by simp
      show "ensures (if dRet < 0 then Some ((s2, t1), TEnd (- 1))
          else ap_sess s2 sp \<bind> (\<lambda>sess. Some ((s2, t1), TGo sp (ts_offset_LOG sess)))) (turn_ok sess_open key e)"
        by (rule ensures_if ensures_bind ensures_any ensures_Some | simp add: at ap_at_ok [OF at])+
    qed
  qed
qed

lemma tcp_restart_ok:
  assumes "ap_at Q key sp e s" "c = TCP_SYN \<or> c = TCP_SYNACK"
  shows "ensures (tcp_restart e (s, t) key sp cap eth d c pNode) (turn_ok sess_open key e)"
  unfolding tcp_restart_def prod.case
proof (rule ensures_bind, rule ensuresI)
  fix s1 assume "ap_sess_upd s sp (\<lambda>sess. sess\<lparr>ts_ucEndStatus := DEF_END_ABNORMAL\<rparr>) = Some s1"
  then obtain x y where "ap_sess s sp = Some x" "s1 = s\<lparr>ap_sess := (ap_sess s)(sp \<mapsto> y)\<rparr>"
    by (auto simp: ap_sess_upd_def bind_eq_Some_conv)
  then have at: "ap_at (\<lambda>_. True) key sp e s1" using ap_at_write [OF assms(1), of x "\<lambda>_. True" y] by simp
  show "ensures (dCloseSession e s1 key sp \<bind> (\<lambda>s2. tcp_timer_del (s2, t) sp \<bind> (\<lambda>(s3, t3). Delete_SessList s3 key \<bind>
      (\<lambda>s4. tcp_renew e (s4, t3) key cap eth d c pNode)))) (turn_ok sess_open key e)"
  proof (rule ensures_bind, rule ensures_mono [OF ap_at_close [OF at]], rule ensures_bind, rule ensures_mono [OF tcp_timer_del_ok])
    fix s2 y assume "ap_ok e s2" then show "ap_ok e (fst (s2, t))" by simp
  next
    fix y :: tcpw assume "ap_ok e (fst y)"
    then show "ensures (case y of (s3, t3) \<Rightarrow> Delete_SessList s3 key \<bind> (\<lambda>s4. tcp_renew e (s4, t3) key cap eth d c pNode))
        (turn_ok sess_open key e)"
      by (cases y) (simp, intro ensures_bind ensures_mono [OF Delete_SessList_ok] tcp_renew_ok, simp_all add: assms(2))
  qed
qed

lemma tcp_refresh_ok:
  assumes at: "ap_at sess_open key sp e s"
  shows "ensures (tcp_refresh e (s, t) key sp cap) (\<lambda>w. ap_at sess_open key sp e (fst w))"
  unfolding tcp_refresh_def prod.case Let_def
proof (rule ensures_bindE, rule ensures_bind)
  fix sess assume sess: "ap_sess s sp = Some sess"
  let ?upd = "\<lambda>s1. ensures (ap_sess s1 sp \<bind> (\<lambda>sess1. timerN_update (tcp_call e) (s1, t) (ts_timerNID sess1) (ae_now e + ae_gv (ae_PI_TCP_TIMEOUT e)) \<bind>
      (\<lambda>(a, nid). (case a of (s2, t2) \<Rightarrow> \<lambda>nid. ap_sess_upd s2 sp (\<lambda>sess. sess\<lparr>ts_timerNID := nid\<rparr>) \<bind> (\<lambda>s3. Some (s3, t2))) nid)))
      (\<lambda>w. ap_at sess_open key sp e (fst w))"
  have upd: "?upd s1" if "ap_at sess_open key sp e s1" for s1
  proof -
    have u: "ensures (timerN_update (tcp_call e) (s1, t) i tm) (\<lambda>r. ap_at sess_open key sp e (fst (fst r)))" for i tm
      using that unfolding ap_at_def by (intro tw.update_keep) simp
    have w: "ensures (ap_sess_upd s2 sp (\<lambda>sess. sess\<lparr>ts_timerNID := nid\<rparr>)) (ap_at sess_open key sp e)"
      if "ap_at sess_open key sp e s2" for s2 nid
      using that unfolding ap_at_def by (intro ap_sess_upd_kind) simp_all
    show ?thesis
    proof (rule ensures_bind, rule ensures_any, rule ensures_bind, rule ensures_mono [OF u], goal_cases)
      case (1 sess1 y)
      obtain s2 t2 nid where y: "y = ((s2, t2), nid)" by (cases y) auto
      then show ?case using 1 by (simp, intro ensures_bind ensures_mono [OF w] ensures_Some) simp_all
    qed
  qed
  show "ensures (if ts_uiLastSessUpdateTime sess + ae_gv (ae_PI_TCP_TIMEOUT e) - 10 \<le> cp_curtime cap
      then dSessUpdataMsg (ae_tcp e) (ae_now e) (ap_tc s) key sess \<bind> (\<lambda>(tc, sess1, _).
        Some (ap_sub (\<lambda>u. u\<lparr>as_updateCnt := as_updateCnt u + 1\<rparr>)
          (s\<lparr>ap_tc := tc, ap_sess := (ap_sess s)(sp \<mapsto> sess1\<lparr>ts_uiLastSessUpdateTime := s32 (cp_curtime cap)\<rparr>)\<rparr>)))
      else Some s) ?upd"
  proof (rule ensures_if, rule ensures_bind, rule kinds3_after [OF dSessUpdataMsg_kind refl])
    fix tc :: atcp and sess1 r assume k: "sess_kind sess1 = sess_kind sess"
    have "ap_at sess_open key sp e (s\<lparr>ap_tc := tc, ap_sess := (ap_sess s)(sp \<mapsto> sess1\<lparr>ts_uiLastSessUpdateTime := s32 (cp_curtime cap)\<rparr>)\<rparr>)"
      using ap_at_kind [of sess_open key sp e "s\<lparr>ap_tc := tc\<rparr>" sess, OF _ _ _ sess_open_kind] at sess k by simp
    then show "ensures (case (tc, sess1, r) of (tc, sess1, _) \<Rightarrow> Some (ap_sub (\<lambda>u. u\<lparr>as_updateCnt := as_updateCnt u + 1\<rparr>)
          (s\<lparr>ap_tc := tc, ap_sess := (ap_sess s)(sp \<mapsto> sess1\<lparr>ts_uiLastSessUpdateTime := s32 (cp_curtime cap)\<rparr>)\<rparr>))) ?upd"
      unfolding prod.case by (intro ensures_Some) (rule upd, simp)
  next
    show "ensures (Some s) ?upd" by (rule ensures_Some) (rule upd [OF at])
  qed
qed

text \<open>A call that handles the data of the session of the packet.\<close>

lemma ap_at_call:
  assumes at: "ap_at sess_ok key sp e s" and sess: "ap_sess s sp = Some sess"
  shows "ensures x (kinds sess) \<Longrightarrow>
      (\<And>tc sess1. ap_at sess_ok key sp e (s\<lparr>ap_tc := tc, ap_sess := (ap_sess s)(sp \<mapsto> sess1)\<rparr>) \<Longrightarrow> P (tc, sess1)) \<Longrightarrow> ensures x P"
    "ensures y (kinds3 sess) \<Longrightarrow>
      (\<And>tc sess1 r. ap_at sess_ok key sp e (s\<lparr>ap_tc := tc, ap_sess := (ap_sess s)(sp \<mapsto> sess1)\<rparr>) \<Longrightarrow> P' (tc, sess1, r)) \<Longrightarrow> ensures y P'"
proof -
  have k: "ap_at sess_ok key sp e (s\<lparr>ap_tc := tc, ap_sess := (ap_sess s)(sp \<mapsto> sess1)\<rparr>)" if "sess_kind sess1 = sess_kind sess" for tc sess1
    using ap_at_kind [of sess_ok key sp e "s\<lparr>ap_tc := tc\<rparr>" sess sess1, OF _ _ that sess_ok_kind] at sess by simp
  show "ensures x (kinds sess) \<Longrightarrow>
      (\<And>tc sess1. ap_at sess_ok key sp e (s\<lparr>ap_tc := tc, ap_sess := (ap_sess s)(sp \<mapsto> sess1)\<rparr>) \<Longrightarrow> P (tc, sess1)) \<Longrightarrow> ensures x P"
    by (erule kinds_after [OF _ refl]) (use k in blast)
  show "ensures y (kinds3 sess) \<Longrightarrow>
      (\<And>tc sess1 r. ap_at sess_ok key sp e (s\<lparr>ap_tc := tc, ap_sess := (ap_sess s)(sp \<mapsto> sess1)\<rparr>) \<Longrightarrow> P' (tc, sess1, r)) \<Longrightarrow> ensures y P'"
    by (erule kinds3_after [OF _ refl]) (use k in blast)
qed

lemma tcp_on_ack_ok:
  assumes at: "ap_at sess_open key sp e s"
  shows "ensures (tcp_on_ack e s key sp lp cap eth d) (ap_at sess_ok key sp e)"
  unfolding tcp_on_ack_def
proof (rule ensures_bind, rule ensures_any, rule ensures_if, rule ensures_bind)
  have a: "ensures (ap_step s sp lp (\<lambda>p. Some (tcp_ack_start cap eth d p))) (ap_at sess_ok key sp e)"
  proof (rule ap_step_at [OF at])
    fix p p' assume "sess_open (fst p)" "Some (tcp_ack_start cap eth d p) = Some p'"
    then show "sess_ok (fst p')" using tcp_ack_start_ok [OF sess_open_ok, of p cap eth d] by simp
  qed
  show "ensures (ap_step s sp lp (\<lambda>p. Some (tcp_ack_start cap eth d p))) (\<lambda>s1. ensures (ap_sess s1 sp \<bind> (\<lambda>sess1.
      dTCPStartMsg (ae_tcp e) (ae_now e) (ap_tc s1) key sess1 \<bind> (\<lambda>(tc, sess2, _).
        Some (s1\<lparr>ap_tc := tc, ap_sess := (ap_sess s1)(sp \<mapsto> sess2)\<rparr>)))) (ap_at sess_ok key sp e))"
  proof (rule ensures_mono [OF a], rule ensures_bindE, rule ensures_bind)
    fix s1 sess1 assume s1: "ap_at sess_ok key sp e s1" "ap_sess s1 sp = Some sess1"
    show "ensures (dTCPStartMsg (ae_tcp e) (ae_now e) (ap_tc s1) key sess1) (\<lambda>y. ensures (case y of (tc, sess2, _) \<Rightarrow>
        Some (s1\<lparr>ap_tc := tc, ap_sess := (ap_sess s1)(sp \<mapsto> sess2)\<rparr>)) (ap_at sess_ok key sp e))"
      by (rule ap_at_call(2) [OF s1 dTCPStartMsg_kind]) (simp add: ensures_Some)
  qed
next
  show "ensures (ap_step s sp lp (tcp_ack_fin cap eth d)) (ap_at sess_ok key sp e)"
    by (rule ap_step_at [OF at]) (use tcp_ack_fin_ok in blast)
qed

lemma tcp_control_ok:
  assumes at: "ap_at sess_open key sp e s"
  shows "ensures (tcp_control e (s, t) key sp cap eth ep d c pNode) (turn_ok sess_ok key e)"
proof -
  have go: "ensures (ap_step s sp lp f \<bind> (\<lambda>s1. Some ((s1, t), TGo sp lp))) (turn_ok sess_ok key e)"
    if "\<And>p p'. sess_open (fst p) \<Longrightarrow> f p = Some p' \<Longrightarrow> sess_ok (fst p')" for lp f
  proof (rule ensures_bind, rule ensures_mono)
    show "ensures (ap_step s sp lp f) (ap_at sess_ok key sp e)" using at that by (rule ap_step_at)
  qed (simp add: ensures_Some)
  have re: "ensures (tcp_restart e (s, t) key sp cap eth d c pNode) (turn_ok sess_ok key e)" if "c = TCP_SYN \<or> c = TCP_SYNACK"
    by (rule ensures_mono [OF tcp_restart_ok [OF at that]]) (erule turn_ok_mono, rule sess_open_ok)
  have syn: "sess_ok (fst p')" if "tcp_on_syn cap eth sess = Some f" "sess_open (fst p)" "Some (f p) = Some p'" for sess f p p'
    using tcp_on_syn_ok [OF that(1) sess_open_ok [OF that(2)]] that(3) by simp
  have synack: "sess_ok (fst p')" if "tcp_on_synack cap eth sess = Some f" "sess_open (fst p)" "Some (f p) = Some p'" for sess f p p'
    using tcp_on_synack_ok [OF that(1) sess_open_ok [OF that(2)]] that(3) by simp
  have rst: "ensures (ap_step s sp lp (\<lambda>p. Some (tcp_on_rst cap d p)) \<bind> (\<lambda>s1. Some ((s1, t), TGo sp lp)) \<bind>
      (\<lambda>(a, r). (case a of (s1, t1) \<Rightarrow> \<lambda>r. Some ((s1\<lparr>ap_tc := (ap_tc s1)\<lparr>tc_eth := (tc_eth (ap_tc s1))(ep \<mapsto> eth')\<rparr>\<rparr>, t1), r)) r))
      (turn_ok sess_ok key e)" for lp eth'
  proof (rule ensures_bind, rule ensures_mono [OF go])
    fix y assume "turn_ok sess_ok key e y"
    then show "ensures (case y of (a, r) \<Rightarrow> (case a of (s1, t1) \<Rightarrow>
        \<lambda>r. Some ((s1\<lparr>ap_tc := (ap_tc s1)\<lparr>tc_eth := (tc_eth (ap_tc s1))(ep \<mapsto> eth')\<rparr>\<rparr>, t1), r)) r) (turn_ok sess_ok key e)"
      by (auto simp: turn_ok_def intro!: ensures_Some split: prod.splits tcp_turn.splits)
  next
    fix p p' assume "sess_open (fst p)" "Some (tcp_on_rst cap d p) = Some p'"
    then show "sess_ok (fst p')" using tcp_on_rst_ok [of p cap d] by simp
  qed
  have ack: "ensures (tcp_on_ack e s key sp lp cap eth d \<bind> (\<lambda>s1. Some ((s1, t), TGo sp lp))) (turn_ok sess_ok key e)" for lp
    by (rule ensures_bind, rule ensures_mono [OF tcp_on_ack_ok [OF at]]) (simp add: ensures_Some)
  have fin: "sess_ok (fst p')" if "sess_open (fst p)" "tcp_on_fin cap eth d p = Some p'" for p p'
    using tcp_on_fin_ok [OF sess_open_ok [OF that(1)] that(2)] .
  have drop: "ensures (ap_node_delete s pNode \<bind> (\<lambda>s1. Some ((s1, t), TEnd 0))) (turn_ok sess_ok key e)"
    using ap_node_delete_end [OF ap_at_ok [OF at]] .
  show ?thesis
    unfolding tcp_control_def prod.case Let_def
    by (rule ensures_bind, rule ensures_any)
      (rule ensures_if ensures_option go re rst ack drop | erule syn synack fin | assumption | simp)+
qed

lemma ap_step_ok:
  assumes "ap_at sess_ok key sp e s" "\<And>p. sess_ok (fst p) \<Longrightarrow> sess_ok (fst (f p))"
  shows "ensures (ap_step s sp lp (\<lambda>p. Some (f p))) (ap_at sess_ok key sp e)"
  by (rule ap_step_at [OF assms(1)]) (use assms(2) in \<open>metis option.inject\<close>)

lemma tcp_insert_ok:
  assumes "ap_at sess_ok key sp e s"
  shows "ensures (tcp_insert e s key sp lp cap eth d pNode) (ap_at sess_ok key sp e)"
  unfolding tcp_insert_def Let_def
proof (rule ensures_bind, rule ensures_mono [OF ap_step_ok [OF assms tcp_mark_data_ok]], assumption, rule ensures_bindE, rule ensures_bind)
  fix s1 sess assume s1: "ap_at sess_ok key sp e s1" "ap_sess s1 sp = Some sess"
  show "ensures (dInsertTCPData (ae_tcp e) (ap_tc s1) key sess cap eth pNode) (\<lambda>y. ensures (case y of (tc, sess1, delFlag) \<Rightarrow>
      if 0 < delFlag then ap_step (s1\<lparr>ap_tc := tc, ap_sess := (ap_sess s1)(sp \<mapsto> sess1)\<rparr>) sp lp (\<lambda>p. Some (tcp_count_retrans d delFlag p))
      else Some (s1\<lparr>ap_tc := tc, ap_sess := (ap_sess s1)(sp \<mapsto> sess1)\<rparr>)) (ap_at sess_ok key sp e))"
  proof (rule ap_at_call(2) [OF s1 dInsertTCPData_kind])
    fix tc sess1 r assume at: "ap_at sess_ok key sp e (s1\<lparr>ap_tc := tc, ap_sess := (ap_sess s1)(sp \<mapsto> sess1)\<rparr>)"
    show "ensures (case (tc, sess1, r) of (tc, sess1, delFlag) \<Rightarrow>
      if 0 < delFlag then ap_step (s1\<lparr>ap_tc := tc, ap_sess := (ap_sess s1)(sp \<mapsto> sess1)\<rparr>) sp lp (\<lambda>p. Some (tcp_count_retrans d delFlag p))
      else Some (s1\<lparr>ap_tc := tc, ap_sess := (ap_sess s1)(sp \<mapsto> sess1)\<rparr>)) (ap_at sess_ok key sp e)"
      unfolding prod.case
      by (rule ensures_if, rule ap_step_ok [OF at], erule sess_keeps(2), rule ensures_Some, rule at)
  qed
qed

lemma ap_node_delete_at: "ap_at Q key sp e s \<Longrightarrow> ensures (ap_node_delete s p) (ap_at Q key sp e)"
  unfolding ap_at_def by (rule ap_node_delete_all)

lemma tcp_packet_ok:
  assumes "ap_at sess_ok key sp e s"
  shows "ensures (tcp_packet e s key sp lp cap eth d pNode) (ap_at sess_ok key sp e)"
  unfolding tcp_packet_def Let_def
proof (rule ensures_bind, rule ensures_mono [OF ap_step_ok [OF assms]], erule sess_keeps(1), rule ensures_bindE, rule ensures_bind)
  fix s1 sess assume s1: "ap_at sess_ok key sp e s1" "ap_sess s1 sp = Some sess"
  let ?rest = "\<lambda>s2. (if ut_wDataLen (ie_stUDPTCP eth) > 0 then tcp_insert e s2 key sp lp cap eth d pNode else ap_node_delete s2 pNode) \<bind>
      (\<lambda>s3. ap_sess s3 sp \<bind> (\<lambda>sess3. dSendPayLoad (ae_tcp e) (ap_tc s3) sess3 \<bind>
        (\<lambda>(tc4, sess4). Some (s3\<lparr>ap_tc := tc4, ap_sess := (ap_sess s3)(sp \<mapsto> sess4)\<rparr>))))"
  have rest: "ensures (?rest s2) (ap_at sess_ok key sp e)" if at: "ap_at sess_ok key sp e s2" for s2
  proof (rule ensures_bind, rule ensures_mono)
    show "ensures (if ut_wDataLen (ie_stUDPTCP eth) > 0 then tcp_insert e s2 key sp lp cap eth d pNode else ap_node_delete s2 pNode)
        (ap_at sess_ok key sp e)"
      by (rule ensures_if) (rule tcp_insert_ok [OF at] ap_node_delete_at [OF at])+
    fix s3 assume at3: "ap_at sess_ok key sp e s3"
    show "ensures (ap_sess s3 sp \<bind> (\<lambda>sess3. dSendPayLoad (ae_tcp e) (ap_tc s3) sess3 \<bind>
        (\<lambda>(tc4, sess4). Some (s3\<lparr>ap_tc := tc4, ap_sess := (ap_sess s3)(sp \<mapsto> sess4)\<rparr>)))) (ap_at sess_ok key sp e)"
    proof (rule ensures_bindE, rule ensures_bind)
      fix sess3 assume sess3: "ap_sess s3 sp = Some sess3"
      show "ensures (dSendPayLoad (ae_tcp e) (ap_tc s3) sess3) (\<lambda>y. ensures (case y of (tc4, sess4) \<Rightarrow>
          Some (s3\<lparr>ap_tc := tc4, ap_sess := (ap_sess s3)(sp \<mapsto> sess4)\<rparr>)) (ap_at sess_ok key sp e))"
        by (rule ap_at_call(1) [OF at3 sess3 dSendPayLoad_kind]) (simp add: ensures_Some)
    qed
  qed
  show "ensures (dCheckAck (ae_tcp e) (ap_tc s1) sess cap eth d) (\<lambda>y. ensures (case y of (tc, sess1) \<Rightarrow>
      ?rest (s1\<lparr>ap_tc := tc, ap_sess := (ap_sess s1)(sp \<mapsto> sess1)\<rparr>)) (ap_at sess_ok key sp e))"
    by (rule ap_at_call(1) [OF s1 dCheckAck_kind]) (simp only: prod.case, erule rest)
qed

lemma tcp_finish_ok:
  assumes at: "ap_at sess_ok key sp e s"
  shows "ensures (tcp_finish e (s, t) key sp) (\<lambda>w. ap_ok e (fst w))"
  unfolding tcp_finish_def prod.case
proof (rule ensures_bindE, rule ensures_if, goal_cases)
  case (1 sess)
  show ?case
    by (intro ensures_bind ensures_mono [OF ap_at_close [OF at]] ensures_mono [OF tcp_timer_del_ok] ensures_prod
        ensures_mono [OF Delete_SessList_ok] ensures_Some) simp_all
next
  case (2 sess)
  have "ap_at sess_open key sp e (s\<lparr>ap_sess := (ap_sess s)(sp \<mapsto> sess)\<rparr>)"
    using ap_at_write [OF at 2(1), of sess_open sess] 2(2) by (simp add: sess_open_def)
  moreover have "s\<lparr>ap_sess := (ap_sess s)(sp \<mapsto> sess)\<rparr> = s" using 2(1) by (simp add: fun_upd_idem)
  ultimately have ok: "ap_ok e s" using ap_at_ok by simp
  have u: "ensures (timerN_update (tcp_call e) (s, t) i tm) (\<lambda>r. ap_ok e (fst (fst r)))" for i tm
    using ok unfolding ap_ok_def by (intro tw.update_keep) simp
  have w: "ensures (ap_sess_upd s2 sp (\<lambda>sess. sess\<lparr>ts_timerNID := nid\<rparr>)) (ap_ok e)" if "ap_ok e s2" for s2 nid
    using that unfolding ap_ok_def by (intro ap_sess_upd_kind) simp_all
  show ?case
  proof (rule ensures_if, rule ensures_bind, rule ensures_mono [OF u], goal_cases)
    case (1 y)
    obtain s2 t2 nid where y: "y = ((s2, t2), nid)" by (cases y) auto
    then show ?case using 1 by (simp, intro ensures_bind ensures_mono [OF w] ensures_Some) simp_all
  next
    case 2
    then show ?case using ok by (simp add: ensures_Some)
  qed
qed

lemma dProcTcpSess_ok:
  assumes ok: "ap_ok e s"
  shows "ensures (dProcTcpSess e (s, t) cp ep pNode) (\<lambda>r. ap_ok e (fst (fst r)))"
proof -
  let ?s1 = "\<lambda>eth. ap_sub (\<lambda>u. u\<lparr>as_rcvNodeCnt := as_rcvNodeCnt u + 1,
      as_rcvSize := as_rcvSize u + ucast (ut_wDataLen (ie_stUDPTCP eth))\<rparr>) s"
  have first: "ensures (case r of
         None \<Rightarrow> (if c = TCP_SYN \<or> c = TCP_SYNACK then tcp_renew e (?s1 eth, t) key cap eth d c pNode
                  else ap_node_delete (?s1 eth) pNode \<bind> (\<lambda>s2. Some ((s2, t), TEnd 0)))
       | Some p \<Rightarrow> hasho_data_at (ap_hash (?s1 eth)) p \<bind> (\<lambda>sp. tcp_refresh e (?s1 eth, t) key sp cap \<bind>
           (\<lambda>w1. tcp_control e w1 key sp cap eth ep d c pNode))) (turn_ok sess_ok key e)"
    if f: "hasho_find (ap_hash (?s1 eth)) (tcp_key_bytes key) = Some r" for r c eth key cap d
  proof -
    have ok1: "ap_ok e (?s1 eth)" using ok by simp
    show ?thesis
    proof (cases r)
      case None
      show ?thesis
        unfolding None option.case
        by (rule ensures_if, rule ensures_mono [OF tcp_renew_ok [OF ok1]], assumption, erule turn_ok_mono, erule sess_open_ok)
          (rule ap_node_delete_end [OF ok1])
    next
      case (Some p)
      show ?thesis
        unfolding Some option.case
      proof (rule ensures_bindE, rule ensures_bind)
        fix sp assume sp: "hasho_data_at (ap_hash (?s1 eth)) p = Some sp"
        have at: "ap_at sess_open key sp e (?s1 eth)" using ap_ok_at [OF ok1 _ sp] f Some by simp
        show "ensures (tcp_refresh e (?s1 eth, t) key sp cap)
            (\<lambda>y. ensures (tcp_control e y key sp cap eth ep d c pNode) (turn_ok sess_ok key e))"
        proof (rule ensures_mono [OF tcp_refresh_ok [OF at]])
          fix y :: tcpw assume "ap_at sess_open key sp e (fst y)"
          then show "ensures (tcp_control e y key sp cap eth ep d c pNode) (turn_ok sess_ok key e)"
            using tcp_control_ok by (cases y) simp
        qed
      qed
    qed
  qed
  have second: "ensures (case turn of TGo sp lp \<Rightarrow> tc_eth (ap_tc s2) ep \<bind> (\<lambda>eth2. tcp_packet e s2 key sp lp cap eth2 d pNode \<bind>
        (\<lambda>s3. tcp_finish e (s3, t2) key sp \<bind> (\<lambda>w4. Some (w4, 0)))) | TEnd dRet \<Rightarrow> Some ((s2, t2), dRet))
      (\<lambda>r. ap_ok e (fst (fst r)))" if "turn_ok sess_ok key e ((s2, t2), turn)" for s2 t2 turn key cap d
  proof (cases turn)
    case (TGo sp lp)
    have at: "ap_at sess_ok key sp e s2" using that by (simp add: TGo)
    show ?thesis
      unfolding TGo tcp_turn.case
      by (rule ensures_bind, rule ensures_any, rule ensures_bind, rule ensures_mono [OF tcp_packet_ok [OF at]],
          rule ensures_bind, rule ensures_mono [OF tcp_finish_ok], assumption, rule ensures_Some, simp)
  next
    case (TEnd dRet)
    then show ?thesis using that by (simp add: ensures_Some)
  qed
  show ?thesis
    unfolding dProcTcpSess_def prod.case Let_def
  proof (rule ensures_bind, rule ensures_any, rule ensures_bind, rule ensures_any, rule ensures_bindE, rule ensures_bind,
      rule ensures_mono [OF first], assumption, goal_cases)
    case (1 cap eth r y)
    obtain s2 t2 turn where y: "y = ((s2, t2), turn)" by (cases y) auto
    show ?case unfolding y prod.case by (rule second) (use 1 y in simp)
  qed
qed

end
