(* ===== verification/TcpRun.thy ===== *)
theory TcpRun
  imports TcpPacket TcpKeysProps
begin

text \<open>
  The messages, the main loop and the reconstruction of the timers keep the sessions open; the process as a
  relation, whatever other processes write.
\<close>

section \<open>The process\<close>

lemma ap_node_delete_pair: "ap_ok e s \<Longrightarrow> ensures (ap_node_delete s p \<bind> (\<lambda>s'. Some (s', t))) (\<lambda>w. ap_ok e (fst w))"
  by (intro ensures_bind ensures_mono [OF ap_node_delete_ok] ensures_Some) simp_all

lemma tcp_pass_on_ok: "ap_ok e s \<Longrightarrow> ensures (tcp_pass_on e s q p \<bind> (\<lambda>s'. Some (s', t))) (\<lambda>w. ap_ok e (fst w))"
  unfolding tcp_pass_on_def
  by (rule ensuresI) (auto simp: bind_eq_Some_conv)

lemma tcp_clear_call_ok: "ap_ok e (fst w) \<Longrightarrow> ensures (tcp_clear_call e w ca) (\<lambda>w'. ap_ok e (fst w'))"
  unfolding ap_ok_def by (rule tcp_clear_call_all)

lemma tcp_message_ok:
  assumes ok: "ap_ok e (fst w)"
  shows "ensures (tcp_message e w pNode) (\<lambda>w'. ap_ok e (fst w'))"
proof (cases w)
  case (Pair s t)
  have s: "ap_ok e s" using ok by (simp add: Pair)
  have clear: "ensures (tcp_clear_call e (s, t) ca \<bind> (\<lambda>(s1, t1). ap_node_delete s1 pNode \<bind> (\<lambda>s2. Some (s2, t1)))) (\<lambda>w. ap_ok e (fst w))" for ca
  proof (rule ensures_bind, rule ensures_mono [OF tcp_clear_call_ok])
    show "ap_ok e (fst (s, t))" using s by simp
    fix y :: tcpw assume "ap_ok e (fst y)"
    then show "ensures (case y of (s1, t1) \<Rightarrow> ap_node_delete s1 pNode \<bind> (\<lambda>s2. Some (s2, t1))) (\<lambda>w. ap_ok e (fst w))"
      using ap_node_delete_pair by (cases y) simp
  qed
  have tcp: "ensures (dProcTcpSess e (s, t) cp ep pNode \<bind> (\<lambda>(a, dRet). (case a of (s1, t1) \<Rightarrow> \<lambda>dRet.
      if dRet < 0 then ap_node_delete s1 pNode \<bind> (\<lambda>s2. Some (s2, t1)) else Some (s1, t1)) dRet)) (\<lambda>w. ap_ok e (fst w))" for cp ep
  proof (rule ensures_bind, rule ensures_mono [OF dProcTcpSess_ok [OF s]])
    fix y :: "tcpw \<times> int" assume "ap_ok e (fst (fst y))"
    then show "ensures (case y of (a, dRet) \<Rightarrow> (case a of (s1, t1) \<Rightarrow> \<lambda>dRet.
        if dRet < 0 then ap_node_delete s1 pNode \<bind> (\<lambda>s2. Some (s2, t1)) else Some (s1, t1)) dRet) (\<lambda>w. ap_ok e (fst w))"
      using ap_node_delete_pair by (auto simp: split: prod.splits intro: ensures_Some)
  qed
  show ?thesis
    unfolding tcp_message_def Pair prod.case
    by (rule ensures_option ensures_prod ensures_if clear tcp tcp_pass_on_ok [OF s] ap_node_delete_pair [OF s] ensures_bind | rule ensures_any)+
qed

lemma tcp_read_loop_ok: "ap_ok e (fst w) \<Longrightarrow> ensures (tcp_read_loop e w n) (\<lambda>w'. ap_ok e (fst w'))"
proof (induction n arbitrary: w)
  case 0
  then show ?case by (simp add: ensures_Some)
next
  case (Suc n)
  obtain s t where w: "w = (s, t)" by (cases w)
  show ?case
    unfolding w tcp_read_loop.simps Let_def
  proof (rule ensures_bind, rule ensures_any, rule ensures_prod, rule ensures_prod, rule ensures_if, rule ensures_bind, rule ensures_mono [OF tcp_message_ok])
    fix nf cf y and offset :: int
    show "ap_ok e (fst (s\<lparr>ap_tc := ap_tc s\<lparr>tc_nifo := nf, tc_cifo := cf\<rparr>\<rparr>, t))" using Suc.prems by (simp add: w)
    then show "ensures (Some (s\<lparr>ap_tc := ap_tc s\<lparr>tc_nifo := nf, tc_cifo := cf\<rparr>\<rparr>, t)) (\<lambda>w'. ap_ok e (fst w'))" by (rule ensures_Some)
    show "ensures (tcp_read_loop e y n) (\<lambda>w'. ap_ok e (fst w'))" if "ap_ok e (fst y)" for y using that by (rule Suc.IH)
  qed
qed

lemma tcp_main_turn_ok: "ap_ok e (fst w) \<Longrightarrow> ensures (tcp_main_turn e (w, oldTime)) (\<lambda>r. ap_ok e (fst (fst r)))"
  unfolding tcp_main_turn_def prod.case
proof (rule ensures_bind, rule ensures_mono [where P = "\<lambda>w. ap_ok e (fst w)"])
  show "ensures (timerN_invoke (tcp_call e) (ae_now e) w) (\<lambda>w. ap_ok e (fst w))" if "ap_ok e (fst w)"
    using that unfolding ap_ok_def by (rule tw.invoke_keep)
  fix w1 :: tcpw assume w1: "ap_ok e (fst w1)"
  show "ensures (tcp_read_loop e w1 300 \<bind> (\<lambda>(s2, t2). if oldTime + 60 \<le> ae_now e
      then Some ((ap_sub tcp_clear_counters s2, t2), ae_now e) else Some ((s2, t2), oldTime))) (\<lambda>r. ap_ok e (fst (fst r)))"
    by (rule ensures_bind, rule ensures_mono [OF tcp_read_loop_ok [OF w1]]) (auto simp: ensures_def split: if_splits)
qed

lemma tcp_rebuild_chain_ok:
  "ap_ok e (fst w) \<Longrightarrow> ensures (tcp_rebuild_chain e w p) (\<lambda>w'. ap_ok e (fst w'))"
proof (rule ensuresI)
  fix y assume k: "ap_ok e (fst w)" and ret: "tcp_rebuild_chain e w p = Some y"
  have "ap_ok e (fst w) \<longrightarrow> ap_ok e (fst y)"
  proof (rule tcp_rebuild_chain.raw_induct [OF _ ret, where P = "\<lambda>e w p y. ap_ok e (fst w) \<longrightarrow> ap_ok e (fst y)"], goal_cases)
    case (1 f e w p y)
    have rec: "ensures (f e w' q) (\<lambda>y. ap_ok e (fst y))" if "ap_ok e (fst w')" for w' q
      using 1(1) that by (intro ensuresI) blast
    show ?case
    proof (intro impI, rule ensuresD [OF _ 1(2)], rule ensures_if)
      assume ok: "ap_ok e (fst w)"
      then show "ensures (Some w) (\<lambda>y. ap_ok e (fst y))" by (rule ensures_Some)
      have add: "ensures (timerN_add (tcp_call e) (ae_malloc e) w Invoke_del k tm) (\<lambda>r. ap_ok e (fst (fst r)))" for k tm
        using ok unfolding ap_ok_def by (rule tw.add_keep)
      have upd: "ensures (ap_sess_upd s a (\<lambda>sess. sess\<lparr>ts_timerNID := nid\<rparr>)) (ap_ok e)" if "ap_ok e s" for s a nid
        using that unfolding ap_ok_def by (intro ap_sess_upd_kind) simp_all
      have step: "ensures (if b then timerN_add (tcp_call e) (ae_malloc e) w Invoke_del k tm \<bind> (\<lambda>(a, nid).
            (case a of (s1, t1) \<Rightarrow> \<lambda>nid. ap_sess_upd s1 d (\<lambda>sess. sess\<lparr>ts_timerNID := nid\<rparr>) \<bind> (\<lambda>s2. Some (s2, t1))) nid)
          else Some w) (\<lambda>y. ap_ok e (fst y))" for b k tm d
      proof (rule ensures_if, rule ensures_bind, rule ensures_mono [OF add], goal_cases)
        case (1 y)
        obtain s2 t2 nid where y: "y = ((s2, t2), nid)" by (cases y) auto
        then show ?case using 1 by (simp, intro ensures_bind ensures_mono [OF upd] ensures_Some) simp_all
      next
        case 2
        show ?case using ok by (rule ensures_Some)
      qed
      show "ensures (ho_node (ap_hash (fst w)) p \<bind> (\<lambda>n. gm_hdr (ho_memg (ap_hash (fst w)))
            (p + gi_offsetHeadRoom (ho_memg (ap_hash (fst w))) - stMEMGNODEHDR_SIZE) \<bind> (\<lambda>hdr.
          (if MEMG_ID = gh_uiID hdr \<and> MEMG_ALLOCED = gh_ucIsFree hdr
           then timerN_add (tcp_call e) (ae_malloc e) w Invoke_del (hasho_key_at (ap_hash (fst w)) n)
                  (ae_now e + ae_gv (ae_PI_TCP_TIMEOUT e)) \<bind> (\<lambda>(a, nid). (case a of (s1, t1) \<Rightarrow> \<lambda>nid.
                ap_sess_upd s1 (offset_Data n) (\<lambda>sess. sess\<lparr>ts_timerNID := nid\<rparr>) \<bind> (\<lambda>s2. Some (s2, t1))) nid)
           else Some w) \<bind> (\<lambda>(s1, t1). ho_node (ap_hash s1) p \<bind> (\<lambda>n1. f e (s1, t1) (offset_next n1))))))
          (\<lambda>y. ap_ok e (fst y))"
      proof (rule ensures_bind, rule ensures_any, rule ensures_bind, rule ensures_any, rule ensures_bind,
          rule ensures_mono [OF step], rule ensures_prod, rule ensures_bind, rule ensures_any, rule rec, goal_cases)
        case (1 n hdr y s1 t1 n1)
        then show ?case by simp
      qed
    qed
  qed
  with k show "ap_ok e (fst y)" by simp
qed

lemma tcp_rebuild_loop_ok: "ap_ok e (fst w) \<Longrightarrow> ensures (tcp_rebuild_loop e w i n) (\<lambda>w'. ap_ok e (fst w'))"
proof (induction n arbitrary: w i)
  case 0
  then show ?case by (simp add: ensures_Some)
next
  case (Suc n)
  show ?case
    unfolding tcp_rebuild_loop.simps
    by (rule ensures_bind, rule ensures_any, rule ensures_bind, rule ensures_mono [OF tcp_rebuild_chain_ok [OF Suc.prems]], rule Suc.IH)
qed

lemma vTCPTimerReConstruct_ok: "ap_ok e (fst w) \<Longrightarrow> ensures (vTCPTimerReConstruct e w) (\<lambda>w'. ap_ok e (fst w'))"
  unfolding vTCPTimerReConstruct_def by (rule tcp_rebuild_loop_ok)

section \<open>The life of the process\<close>

text \<open>What the process does, from a start \<open>m\<close>: the timers are set up again after a restart, other processes write
  into the messaging block, and the main loop turns. The clock may have any time.\<close>

inductive tcp_run :: "aproc_env \<Rightarrow> tcpw \<times> int \<Rightarrow> tcpw \<times> int \<Rightarrow> bool" for e m where
  start: "tcp_run e m m"
| rebuild: "tcp_run e m (w, z) \<Longrightarrow> vTCPTimerReConstruct (e\<lparr>ae_now := now\<rparr>) w = Some w' \<Longrightarrow> tcp_run e m (w', z)"
| others: "tcp_run e m ((s, t), z) \<Longrightarrow> tcp_run e m ((s\<lparr>ap_tc := tc, ap_call := calls\<rparr>, t), z)"
| turn: "tcp_run e m m1 \<Longrightarrow> tcp_main_turn (e\<lparr>ae_now := now, ae_usec := usec, ae_raw := raw\<rparr>) m1 = Some m2 \<Longrightarrow> tcp_run e m m2"

lemma ap_ok_clock [simp]:
  "ap_ok (e\<lparr>ae_now := now\<rparr>) s = ap_ok e s" "ap_ok (e\<lparr>ae_now := now, ae_usec := usec, ae_raw := raw\<rparr>) s = ap_ok e s"
  by (simp_all add: ap_ok_def ap_all_def)

lemma tcp_run_ok: "tcp_run e m m' \<Longrightarrow> ap_ok e (fst (fst m)) \<Longrightarrow> ap_ok e (fst (fst m'))"
proof (induction rule: tcp_run.induct)
  case start
  then show ?case .
next
  case (rebuild w z now w')
  then show ?case using ensuresD [OF vTCPTimerReConstruct_ok, of "e\<lparr>ae_now := now\<rparr>" w w'] by simp
next
  case (others s t z tc calls)
  then show ?case by simp
next
  case (turn m1 raw usec now m2)
  then show ?case
    using ensuresD [OF tcp_main_turn_ok, of "e\<lparr>ae_now := now, ae_usec := usec, ae_raw := raw\<rparr>" "fst m1" "snd m1" m2] by simp
qed

lemma ap_ok_found:
  assumes "ap_ok e s" "hasho_find (ap_hash s) (tcp_key_bytes key) = Some (Some p)"
  shows "\<exists>sp sess. hasho_data_at (ap_hash s) p = Some sp \<and> ap_sess s sp = Some sess \<and> sess_open sess"
proof -
  have all: "ap_all (\<lambda>a k x. sess_open x) e s" using assms(1) by (simp add: ap_ok_def)
  have p: "p \<in> hasho_nodes (ap_hash s)" using ap_find(1) [OF all assms(2)] .
  obtain sess where "ap_sess s (hdata_at (ap_hash s) p) = Some sess" "sess_open sess" using all p by (auto simp: ap_all_def)
  then show ?thesis using ap_data [OF all p] by blast
qed

text \<open>A table that was just set up.\<close>

lemma ap_ok_empty:
  assumes "hasho_wf (ap_hash s)" "klen (ap_hash s) = 12" "\<And>x. length (ae_sess_bytes e x) = dlen (ap_hash s)"
    "hasho_nodes (ap_hash s) = {}"
  shows "ap_ok e s"
  using assms by (simp add: ap_ok_def ap_all_def)

text \<open>C6: Whatever the process does, with whatever the other processes write into the messaging block, every session
  that its table finds is there and is well typed: its states of the handshake, of the two sides and of the FINs
  are ones that the source defines and agree with each other, and it is not at its end.\<close>

theorem tcp_sessions_open:
  assumes "ap_ok e s" "tcp_run e ((s, t), z) ((s', t'), z')" "hasho_find (ap_hash s') (tcp_key_bytes key) = Some (Some p)"
  shows "\<exists>sp sess. hasho_data_at (ap_hash s') p = Some sp \<and> ap_sess s' sp = Some sess \<and> sess_open sess"
  using ap_ok_found [OF _ assms(3)] tcp_run_ok [OF assms(2)] assms(1) by simp

text \<open>A table with one session, whose process turns once with nothing to read.\<close>

definition tcp_demo_penv :: aproc_env where
  "tcp_demo_penv = \<lparr>ae_tcp = tcp_demo_env\<lparr>en_guiSeqProcID := 0xffffffff\<rparr>, ae_APP_MENU = 1, ae_APP_DOWN = 2,
     ae_PI_TCP_TIMEOUT = 60, ae_PI_TCP_RSTWAIT = 5, ae_now = 999, ae_usec = 0, ae_raw = tcpsess_zero,
     ae_sess_bytes = (\<lambda>_. replicate 8 0), ae_key_bytes = (\<lambda>_. []), ae_malloc = (\<lambda>_. 0)\<rparr>"

definition tcp_demo_hash :: hasho where
  "tcp_demo_hash = hasho_made Map.empty (\<lambda>_. 0) 0 12 8 1 hasho_func_default"

definition tcp_demo_open :: tcpsess where
  "tcp_demo_open = fst (tcp_new_ctl tcp_demo_cap (snd (fin_demo_pkt 1 2 500 0)) 1 TCP_SYN
     (tcp_new_sess tcpsess_zero tcp_demo_cap (snd (fin_demo_pkt 1 2 500 0)) 7 999\<lparr>ts_offset_LOG := 8\<rparr>, tcplog_zero))"

lemma tcp_demo_rep: "hasho_rep tcp_demo_hash (\<lambda>_. [])" "hasho_nodes tcp_demo_hash = {}" "klen tcp_demo_hash = 12" "dlen tcp_demo_hash = 8"
    "hasho_cap tcp_demo_hash = 5"
proof -
  have t: "hash_total tcp_demo_hash"
    by (rule hasho_default_total) (simp_all add: tcp_demo_hash_def hasho_made_def)
  note r = hasho_made_rep [OF _ tcp_demo_hash_def t]
  show "hasho_rep tcp_demo_hash (\<lambda>_. [])" "hasho_cap tcp_demo_hash = 5" using r(1,3) by (simp_all add: hasho_const_defs)
  show "hasho_nodes tcp_demo_hash = {}" using r(2) by (simp add: hasho_nodes_def hasho_const_defs)
  show "klen tcp_demo_hash = 12" "dlen tcp_demo_hash = 8" by (simp_all add: klen_def dlen_def tcp_demo_hash_def hasho_made_def)
qed

lemma tcp_demo_start:
  obtains h p s where "ap_hash s = h" "hasho_find h (tcp_key_bytes tcp_demo_key) = Some (Some p)" "hasho_data_at h p = Some (hdata_at h p)"
    "ap_sess s (hdata_at h p) = Some tcp_demo_open" "ap_ok tcp_demo_penv s" "ap_tc s = tc"
proof -
  let ?start = "\<lparr>ap_tc = tc, ap_hash = tcp_demo_hash, ap_sess = Map.empty, ap_keyhash = tcp_demo_hash, ap_keydata = Map.empty,
    ap_keytbl = key_demo_raw, ap_call = Map.empty\<rparr>"
  obtain h bs p where a: "hasho_add 0 tcp_demo_hash (tcp_key_bytes tcp_demo_key) (ae_sess_bytes tcp_demo_penv tcp_demo_open) = Some (h, Some p)"
    "hasho_rep h bs" "hasho_nodes h = insert p (hasho_nodes tcp_demo_hash)" "hkey h p = tcp_key_bytes tcp_demo_key"
  proof (rule hasho_add_new [OF tcp_demo_rep(1), of "tcp_key_bytes tcp_demo_key" "replicate 8 0" 0])
    show "length (tcp_key_bytes tcp_demo_key) = klen tcp_demo_hash" "length (replicate 8 (0 :: u8)) = dlen tcp_demo_hash"
      "tcp_key_bytes tcp_demo_key \<notin> hkey tcp_demo_hash ` hasho_nodes tcp_demo_hash"
      "card (hasho_nodes tcp_demo_hash) \<noteq> hasho_cap tcp_demo_hash"
      by (simp_all add: tcp_demo_rep(2-5))
  qed (rule that, simp_all add: tcp_demo_penv_def)
  let ?s = "?start\<lparr>ap_hash := h, ap_sess := (ap_sess ?start)(hdata_at h p \<mapsto> tcp_demo_open)\<rparr>"
  have o0: "ap_all (\<lambda>a k x. sess_open x) tcp_demo_penv ?start"
    using ap_ok_empty [of ?start tcp_demo_penv] tcp_demo_rep by (auto simp: hasho_wf_def ap_ok_def tcp_demo_penv_def)
  have y: "sess_open tcp_demo_open" unfolding tcp_demo_open_def by (rule tcp_new_ctl_ok) simp
  have ok: "ap_ok tcp_demo_penv ?s"
    unfolding ap_ok_def using ap_all_add(3) [OF o0 _ refl, of 0 tcp_demo_key tcp_demo_open h p "\<lambda>a k x. sess_open x" tcp_demo_open] a(1) y by simp
  have "hasho_find h (tcp_key_bytes tcp_demo_key) = Some (Some p)" using hasho_find_hit [OF a(2), of p] a(3,4) by simp
  moreover have "hasho_data_at h p = Some (hdata_at h p)" using a(2,3) by (auto simp: hasho_wf_def intro!: hasho_data_node)
  ultimately show thesis using that [of ?s h p] ok by simp
qed

theorem tcp_sessions_open_witness:
  "\<exists>s t m key p sp sess. ap_ok tcp_demo_penv s \<and> tcp_main_turn tcp_demo_penv ((s, t), 0) = Some m \<and>
     hasho_find (ap_hash (fst (fst m))) (tcp_key_bytes key) = Some (Some p) \<and>
     hasho_data_at (ap_hash (fst (fst m))) p = Some sp \<and> ap_sess (fst (fst m)) sp = Some sess \<and> sess_open sess"
proof -
  obtain tc :: atcp where "tc = tc" by simp
  obtain h p s where s: "ap_hash s = h" "hasho_find h (tcp_key_bytes tcp_demo_key) = Some (Some p)" "ap_ok tcp_demo_penv s"
    using tcp_demo_start [of tc] by metis
  obtain t :: "tcp_timer_fn timerNinfo" where t: "timerN_init True True True 1000 100 16 = Some t" "tn_uiCurrentTime t = 1000"
    by (simp add: timerN_init_def hashg_init_def)
  let ?s' = "ap_sub tcp_clear_counters (s\<lparr>ap_tc := (ap_tc s)\<lparr>tc_nifo := tc_nifo (ap_tc s), tc_cifo := tc_cifo (ap_tc s)\<rparr>\<rparr>)"
  have read: "tcp_read_loop tcp_demo_penv (s, t) 300 = Some (s\<lparr>ap_tc := (ap_tc s)\<lparr>tc_nifo := tc_nifo (ap_tc s), tc_cifo := tc_cifo (ap_tc s)\<rparr>\<rparr>, t)"
    using tcp_read_loop.simps(2) [of tcp_demo_penv s t 299]
    by (simp add: gifo_read_def tcp_demo_penv_def MAX_SEQ_PROC_NUM_def)
  have inv: "timerN_invoke (tcp_call tcp_demo_penv) 999 (s, t) = Some (s, t)"
    unfolding timerN_invoke_def by (subst timerN_loop.simps) (simp add: t(2))
  have turn: "tcp_main_turn tcp_demo_penv ((s, t), 0) = Some ((?s', t), 999)"
    unfolding tcp_main_turn_def using read inv by (simp add: tcp_demo_penv_def)
  have e: "tcp_demo_penv\<lparr>ae_now := 999, ae_usec := 0, ae_raw := tcpsess_zero\<rparr> = tcp_demo_penv" by (simp add: tcp_demo_penv_def)
  have run: "tcp_run tcp_demo_penv ((s, t), 0) ((?s', t), 999)"
    using tcp_run.turn [OF tcp_run.start, where e = tcp_demo_penv and now = 999 and usec = 0 and raw = tcpsess_zero] turn by (simp only: e)
  have found: "hasho_find (ap_hash ?s') (tcp_key_bytes tcp_demo_key) = Some (Some p)" using s(1,2) by (simp add: ap_sub_def)
  obtain sp sess where "hasho_data_at (ap_hash ?s') p = Some sp" "ap_sess ?s' sp = Some sess" "sess_open sess"
    using tcp_sessions_open [OF s(3) run found] by (elim exE conjE) (rule that; assumption)
  then show ?thesis
    using s(3) turn found by (intro exI [of _ s] exI [of _ t] exI [of _ "((?s', t), 999)"] exI [of _ tcp_demo_key] exI [of _ p] exI [of _ sp] exI [of _ sess]) simp
qed

end
