(* ===== verification/TcpCoded.thy ===== *)
theory TcpCoded
  imports TcpRun
begin

text \<open>What the closes of a session write into its log (\<open>dCloseSession\<close> in
  \<^verbatim>\<open>A_TCP/tcp_func.c\<close> and everything that calls it). The data path leaves the logs alone;
  the branches of a packet leave the code and the end of a log alone; a close writes the code of the cause the
  session ended with. The invariant \<open>ap_coded\<close> - the sessions of the table are open and the logs are coded -
  is then carried through the timer (an interpretation of \<open>timer_world\<close>), the handling of a packet, in the
  middle of which the session may be closed, the messages and the turn of the process, and through runs in which
  other processes write in between.\<close>

section \<open>What the data path does to the logs\<close>

lemma on_nifo_log:
  "tc_log s = L \<Longrightarrow> (\<And>s'. tc_log s' = L \<Longrightarrow> Q s') \<Longrightarrow> ensures (tcp_on_nifo s f) Q"
  by (auto simp: tcp_on_nifo_def ensures_def bind_eq_Some_conv)

lemma send_log:
  "tc_log s = L \<Longrightarrow> (\<And>s' r. tc_log s' = L \<Longrightarrow> Q (s', r)) \<Longrightarrow> ensures (dSend_TCP_Data e s q p) Q"
  by (auto simp: dSend_TCP_Data_def Let_def tcp_on_nifo_def ensures_def bind_eq_Some_conv split: if_splits)

lemma tcp_log_simps [simp]:
  "tc_log (tcp_set_info s v ti) = tc_log s" "tc_log (tcp_count_diff sess d ti s) = tc_log s"
  by (simp_all add: tcp_set_info_def tcp_count_diff_def)

definition logs_same :: "(offset \<rightharpoonup> tcplog) \<Rightarrow> atcp \<times> 'a \<Rightarrow> bool" where
  "logs_same L y \<longleftrightarrow> tc_log (fst y) = L"

lemma logs_same_pair [simp]: "logs_same L (s, r) \<longleftrightarrow> tc_log s = L"
  by (simp add: logs_same_def)

lemma logs_rec:
  assumes "\<And>y. x = Some y \<Longrightarrow> logs_same (tc_log s) y" "tc_log s = L"
  shows "ensures x (logs_same L)"
  by (rule ensuresI) (use assms in simp)

lemma logs_then: "ensures x (logs_same L) \<Longrightarrow> (\<And>s r. tc_log s = L \<Longrightarrow> Q (s, r)) \<Longrightarrow> ensures x Q"
  by (force simp: ensures_def logs_same_def)

lemma tcp_ack_loop_log: "ensures (tcp_ack_loop e s sess b ack t m ph pd) (logs_same (tc_log s))"
proof (rule ensuresI)
  fix y assume ret: "tcp_ack_loop e s sess b ack t m ph pd = Some y"
  show "logs_same (tc_log s) y"
  proof (rule tcp_ack_loop.raw_induct [OF _ ret, where P = "\<lambda>e s sess b ack t m ph pd y. logs_same (tc_log s) y"], goal_cases)
    case (1 f e s sess b ack t m ph pd y)
    show ?case
      by (rule ensuresD [OF _ 1(2)])
        (rule ensures_flow logs_rec [OF 1(1)] | assumption | simp split del: if_split | rule ensures_any)+
  qed
qed

lemma dCheckAck_log: "ensures (dCheckAck e s sess cap eth d) (logs_same (tc_log s))"
  unfolding dCheckAck_def Let_def by (rule tcp_ack_loop_log)

lemma tcp_insert_loop_log: "ensures (tcp_insert_loop e s sess d pn v ph pp del) (logs_same (tc_log s))"
proof (rule ensuresI)
  fix y assume ret: "tcp_insert_loop e s sess d pn v ph pp del = Some y"
  show "logs_same (tc_log s) y"
  proof (rule tcp_insert_loop.raw_induct [OF _ ret, where P = "\<lambda>e s sess d pn v ph pp del y. logs_same (tc_log s) y"], goal_cases)
    case (1 f e s sess d pn v ph pp del y)
    show ?case
      by (rule ensuresD [OF _ 1(2)])
        (rule ensures_flow on_nifo_log [where L = "tc_log s"] logs_rec [OF 1(1)] | assumption | simp split del: if_split | rule ensures_any)+
  qed
qed

lemma dInsertTCPData_log: "ensures (dInsertTCPData e s k sess cap eth p) (logs_same (tc_log s))"
proof -
  have loop: "ensures (tcp_insert_loop e s' sess d pn v ph pp del) (logs_same (tc_log s))" if "tc_log s' = tc_log s" for s' d pn v ph pp del
    using tcp_insert_loop_log [of e s'] that by simp
  show ?thesis
    unfolding dInsertTCPData_def Let_def
    by (rule ensures_flow on_nifo_log [where L = "tc_log s"] loop | assumption | simp split del: if_split | rule ensures_any)+
qed

lemma tcp_send_loop_log: "ensures (tcp_send_loop e s sess d p) (logs_same (tc_log s))"
proof (rule ensuresI)
  fix y assume ret: "tcp_send_loop e s sess d p = Some y"
  show "logs_same (tc_log s) y"
  proof (rule tcp_send_loop.raw_induct [OF _ ret, where P = "\<lambda>e s sess d p y. logs_same (tc_log s) y"], goal_cases)
    case (1 f e s sess d p y)
    show ?case
      by (rule ensuresD [OF _ 1(2)])
        (rule ensures_flow on_nifo_log [where L = "tc_log s"] send_log [where L = "tc_log s"] logs_rec [OF 1(1)]
          | assumption | simp split del: if_split | rule ensures_any)+
  qed
qed

lemma dSendPayLoad_log: "ensures (dSendPayLoad e s sess) (logs_same (tc_log s))"
  unfolding dSendPayLoad_def
  by (rule ensures_bind, rule logs_then [OF tcp_send_loop_log]) (simp, metis tcp_send_loop_log)

lemma tcp_flush_loop_log: "ensures (tcp_flush_loop e s sess d p) (logs_same (tc_log s))"
proof (rule ensuresI)
  fix y assume ret: "tcp_flush_loop e s sess d p = Some y"
  show "logs_same (tc_log s) y"
  proof (rule tcp_flush_loop.raw_induct [OF _ ret, where P = "\<lambda>e s sess d p y. logs_same (tc_log s) y"], goal_cases)
    case (1 f e s sess d p y)
    show ?case
      by (rule ensuresD [OF _ 1(2)])
        (rule ensures_flow on_nifo_log [where L = "tc_log s"] send_log [where L = "tc_log s"] logs_rec [OF 1(1)]
          | assumption | simp split del: if_split | rule ensures_any)+
  qed
qed

lemma tcp_send_msg_log: "ensures (tcp_send_msg e now s sess fill r) (logs_same (tc_log s))"
  unfolding tcp_send_msg_def Let_def
  by (rule ensures_flow on_nifo_log [where L = "tc_log s"] send_log [where L = "tc_log s"] | assumption | simp split del: if_split | rule ensures_any)+

lemma dTCPStartMsg_log: "ensures (dTCPStartMsg e now s k sess) (logs_same (tc_log s))"
  and dTCPStopMsg_log: "ensures (dTCPStopMsg e now s k sess) (logs_same (tc_log s))"
  and dSessUpdataMsg_log: "ensures (dSessUpdataMsg e now s k sess) (logs_same (tc_log s))"
  unfolding dTCPStartMsg_def dTCPStopMsg_def dSessUpdataMsg_def by (rule tcp_send_msg_log)+

lemma dSendAllData_log: "ensures (dSendAllData e s k sess) (\<lambda>y. logs_same (tc_log s) y \<and> ts_offset_LOG (snd y) = 0)"
proof -
  have loop: "ensures (tcp_flush_loop e s' sess d p) Q" if "tc_log s' = tc_log s" "\<And>s'' r. tc_log s'' = tc_log s \<Longrightarrow> Q (s'', r)"
    for s' sess d p Q
    by (rule logs_then [OF tcp_flush_loop_log]) (use that in simp)
  show ?thesis
    unfolding dSendAllData_def Let_def
    by (rule ensures_flow loop on_nifo_log [where L = "tc_log s"] send_log [where L = "tc_log s"]
        | assumption | simp split del: if_split | rule ensures_any)+
qed

text \<open>The messages about a session leave its log where it is.\<close>

lemma tcp_send_msg_at:
  assumes "\<And>ti. ts_offset_LOG (fst (fill sess ti)) = ts_offset_LOG sess"
  shows "ensures (tcp_send_msg e now s sess fill r) (\<lambda>y. ts_offset_LOG (fst (snd y)) = ts_offset_LOG sess)"
proof -
  have f: "ts_offset_LOG a = ts_offset_LOG sess" if "fill sess ti = (a, b)" for ti a b
    using assms [of ti] that by simp
  show ?thesis
    unfolding tcp_send_msg_def Let_def
    by (rule ensures_flow | erule f | assumption | simp split del: if_split | rule ensures_any)+
qed

lemma tcp_msg_at:
  "ensures (dTCPStopMsg e now s k sess) (\<lambda>y. ts_offset_LOG (fst (snd y)) = ts_offset_LOG sess)"
  "ensures (dSessUpdataMsg e now s k sess) (\<lambda>y. ts_offset_LOG (fst (snd y)) = ts_offset_LOG sess)"
  unfolding dTCPStopMsg_def dSessUpdataMsg_def
  by (rule tcp_send_msg_at, simp add: tcp_fill_stop_def tcp_fill_update_def SetData_def)+

section \<open>What a close writes\<close>

text \<open>The log of a session that is closed gets the code of its cause and the time; the other logs stay, and
  the session has no log any more.\<close>

lemma ap_sub_simps [simp]:
  "ap_sess (ap_sub g s) = ap_sess s" "ap_hash (ap_sub g s) = ap_hash s" "tc_log (ap_tc (ap_sub g s)) = tc_log (ap_tc s)"
  "tcp_log_at (ap_tc (ap_sub g s)) = tcp_log_at (ap_tc s)"
  by (simp_all add: ap_sub_def tcp_log_at_def fun_eq_iff)

lemma dCloseSession_log:
  assumes "dCloseSession e s key sp = Some s'" "ap_sess s sp = Some sess"
  shows "\<exists>log sess'. tcp_log_at (ap_tc s) (ts_offset_LOG sess) = Some log \<and>
    tc_log (ap_tc s') = (tc_log (ap_tc s))(ts_offset_LOG sess \<mapsto>
      tcp_close_log (ae_now e) (ae_usec e) (sess\<lparr>ts_usL4FailCode := GetFailCode sess\<rparr>) log) \<and>
    ap_sess s' = (ap_sess s)(sp \<mapsto> sess') \<and> ts_offset_LOG sess' = 0"
proof -
  let ?x = "sess\<lparr>ts_usL4FailCode := GetFailCode sess\<rparr>" and ?s = "ap_sub (\<lambda>u. u\<lparr>as_curSessCnt := as_curSessCnt u - 1\<rparr>) s"
  obtain log tc3 sess3 tc4 sess4 n h where l: "tcp_log_at (ap_tc s) (ts_offset_LOG sess) = Some log"
    and a: "dSendAllData (ae_tcp e) (tcp_set_log (ap_tc ?s) (ts_offset_LOG sess)
        (tcp_close_log (ae_now e) (ae_usec e) ?x log)) key ?x = Some (tc3, sess3)"
    and m: "(if ts_ucStatus sess3 = DEF_STATUS_ACK then dTCPStopMsg (ae_tcp e) (ae_now e) tc3 key sess3 else Some (tc3, sess3, 0)) = Some (tc4, sess4, n)"
    and s': "s' = ?s\<lparr>ap_tc := tc4, ap_sess := (ap_sess s)(sp \<mapsto> sess4), ap_hash := h\<rparr>"
    using assms by (auto simp: dCloseSession_def Let_def bind_eq_Some_conv)
  have tc3: "tc_log tc3 = (tc_log (ap_tc s))(ts_offset_LOG sess \<mapsto> tcp_close_log (ae_now e) (ae_usec e) ?x log)" "ts_offset_LOG sess3 = 0"
    using ensuresD [OF dSendAllData_log a] by (simp_all add: tcp_set_log_def)
  have tc4: "tc_log tc4 = tc_log tc3" "ts_offset_LOG sess4 = ts_offset_LOG sess3"
    using m ensuresD [OF dTCPStopMsg_log, of "ae_tcp e" "ae_now e" tc3 key sess3 "(tc4, sess4, n)"]
      ensuresD [OF tcp_msg_at(1), of "ae_tcp e" "ae_now e" tc3 key sess3 "(tc4, sess4, n)"] by (auto split: if_splits)
  show ?thesis using l tc3 tc4 by (intro exI [of _ log] exI [of _ sess4]) (simp add: s')
qed

lemma tcp_close_log_code [simp]:
  "tl_usL4FailCode (tcp_close_log t m sess log) = ts_usL4FailCode sess"
  "tl_uiOpEndTime (tcp_close_log t m sess log) = s32 t"
  by (simp_all add: tcp_close_log_def Let_def)

lemma dCloseSession_coded:
  assumes "dCloseSession e s key sp = Some s'" "ap_sess s sp = Some sess" "tcp_ended sess"
  shows "\<exists>log. tc_log (ap_tc s') (ts_offset_LOG sess) = Some log \<and>
    tl_usL4FailCode log = cause_code (tcp_cause sess) \<and> tl_uiOpEndTime log = s32 (ae_now e)"
  using dCloseSession_log [OF assms(1,2)] GetFailCode_ended(1) [OF assms(3)] by auto

section \<open>Logs that are coded\<close>

text \<open>No log but one whose session was not closed yet is without one of the eighteen codes.\<close>

definition log_coded :: "tcplog \<Rightarrow> bool" where
  "log_coded log \<longleftrightarrow> tl_usL4FailCode log \<in> cause_code ` tcp_causes \<or>
     tl_usL4FailCode log = 0 \<and> tl_uiOpEndTime log = 0 \<and> tl_uiOpEndMTime log = 0"

definition logs_coded :: "atcp \<Rightarrow> bool" where
  "logs_coded tc \<longleftrightarrow> (\<forall>off log. tc_log tc off = Some log \<longrightarrow> log_coded log)"

lemma logs_coded_cong: "tc_log tc = tc_log tc' \<Longrightarrow> logs_coded tc = logs_coded tc'"
  by (simp add: logs_coded_def)

lemma logs_coded_set: "logs_coded tc \<Longrightarrow> log_coded log \<Longrightarrow> logs_coded (tcp_set_log tc off log)"
  by (simp add: logs_coded_def tcp_set_log_def)

lemma logs_coded_sub [simp]: "logs_coded (ap_tc (ap_sub g s)) = logs_coded (ap_tc s)"
  by (simp add: logs_coded_def ap_sub_def)

lemma log_coded_keep:
  "tl_usL4FailCode log' = tl_usL4FailCode log \<Longrightarrow> tl_uiOpEndTime log' = tl_uiOpEndTime log \<Longrightarrow>
   tl_uiOpEndMTime log' = tl_uiOpEndMTime log \<Longrightarrow> log_coded log \<Longrightarrow> log_coded log'"
  by (simp add: log_coded_def)

text \<open>The branches of a packet leave the code and the end alone.\<close>

definition log_end :: "tcppair \<Rightarrow> u16 \<times> int \<times> int" where
  "log_end p = (tl_usL4FailCode (snd p), tl_uiOpEndTime (snd p), tl_uiOpEndMTime (snd p))"

lemma log_end_coded: "log_end p' = log_end p \<Longrightarrow> log_coded (snd p) \<Longrightarrow> log_coded (snd p')"
  by (simp add: log_end_def log_coded_def)

lemma log_end_simps [simp]:
  "log_end (tcp_cnt_both f p) = log_end p" "log_end (tcp_set_server st p) = log_end p" "log_end (tcp_set_client st p) = log_end p"
  "log_end (tcp_set_fin d p) = log_end p"
  by (cases p; simp add: log_end_def tcp_cnt_both_def tcp_set_server_def tcp_set_client_def tcp_set_fin_def)+

lemma log_end_pair: "log_end (sess, log) = (tl_usL4FailCode log, tl_uiOpEndTime log, tl_uiOpEndMTime log)"
  by (simp add: log_end_def)

lemma tcp_count_fin_end [simp]:
  "tl_usL4FailCode (tcp_count_fin d log) = tl_usL4FailCode log" "tl_uiOpEndTime (tcp_count_fin d log) = tl_uiOpEndTime log"
  "tl_uiOpEndMTime (tcp_count_fin d log) = tl_uiOpEndMTime log"
  by (simp_all add: tcp_count_fin_def)

lemma tcp_branch_end:
  "log_end (tcp_count_pkt cap eth d p) = log_end p" "log_end (tcp_count_retrans d n p) = log_end p"
  "log_end (tcp_on_rst cap d p) = log_end p" "log_end (tcp_ack_start cap eth d p) = log_end p"
  "log_end (tcp_mark_data eth d p) = log_end p"
  by (cases p; simp add: tcp_count_pkt_def tcp_count_retrans_def tcp_on_rst_def tcp_ack_start_def tcp_mark_data_def
      tcp_cnt_both_def tcp_set_server_def tcp_set_client_def log_end_pair Let_def)+

lemma tcp_on_syn_end: "tcp_on_syn cap eth sess = Some f \<Longrightarrow> log_end (f p) = log_end p"
  by (cases p) (auto simp: tcp_on_syn_def tcp_syn_again_def tcp_syn_late_def log_end_pair split: if_splits)

lemma tcp_on_synack_end: "tcp_on_synack cap eth sess = Some f \<Longrightarrow> log_end (f p) = log_end p"
  by (cases p) (auto simp: tcp_on_synack_def tcp_synack_again_def tcp_synack_first_def log_end_pair Let_def split: if_splits)

lemma tcp_fin_acked_end: "tcp_fin_acked d eth p = Some (p', hit) \<Longrightarrow> log_end p' = log_end p"
  by (cases p) (auto simp: tcp_fin_acked_def Let_def bind_eq_Some_conv log_end_pair split: if_splits)

lemma tcp_on_fin_end: "tcp_on_fin cap eth d p = Some p' \<Longrightarrow> log_end p' = log_end p"
  by (cases p) (auto simp: tcp_on_fin_def Let_def bind_eq_Some_conv log_end_pair split: if_splits dest!: tcp_fin_acked_end)

lemma tcp_ack_fin_end: "tcp_ack_fin cap eth d p = Some p' \<Longrightarrow> log_end p' = log_end p"
  by (auto simp: tcp_ack_fin_def bind_eq_Some_conv log_end_pair split: if_splits dest!: tcp_fin_acked_end)

lemma tcp_new_ctl_end:
  "log_coded (snd (tcp_new_ctl cap eth d c (sess, tcp_new_log platform key cap eth d t m)))"
  by (simp add: log_coded_def tcp_new_ctl_def tcp_new_log_def tcplog_zero_def Let_def)

section \<open>Between two packets\<close>

definition ap_coded :: "aproc_env \<Rightarrow> aproc \<Rightarrow> bool" where
  "ap_coded e s \<longleftrightarrow> ap_ok e s \<and> logs_coded (ap_tc s)"

text \<open>What holds of the session at \<open>sp\<close>, in the table or not, unless \<open>lp\<close> is NULL.\<close>

definition ap_holds :: "(tcpsess \<Rightarrow> bool) \<Rightarrow> offset \<Rightarrow> aproc \<Rightarrow> bool" where
  "ap_holds Q sp s \<longleftrightarrow> (\<forall>x. ap_sess s sp = Some x \<longrightarrow> Q x)"

definition or_dead :: "(tcpsess \<Rightarrow> bool) \<Rightarrow> tcpsess \<Rightarrow> bool" where
  "or_dead Q x \<longleftrightarrow> Q x \<or> ts_offset_LOG x = 0"

lemma ensures_conj: "ensures x P \<Longrightarrow> ensures x Q \<Longrightarrow> ensures x (\<lambda>y. P y \<and> Q y)"
  by (simp add: ensures_def)

text \<open>A close needs a session that has ended, or it does not return.\<close>

lemma close_coded:
  assumes "logs_coded (ap_tc s)" "ap_holds (or_dead tcp_ended) sp s"
  shows "ensures (dCloseSession e s key sp) (\<lambda>s'. logs_coded (ap_tc s') \<and>
    (\<forall>sp' Q. ap_holds (or_dead Q) sp' s \<longrightarrow> ap_holds (or_dead Q) sp' s') \<and> ap_holds (or_dead (\<lambda>_. False)) sp s')"
proof (rule ensuresI)
  fix s' assume c: "dCloseSession e s key sp = Some s'"
  then obtain sess where sess: "ap_sess s sp = Some sess" by (auto simp: dCloseSession_def Let_def bind_eq_Some_conv)
  obtain log sess' where l: "tcp_log_at (ap_tc s) (ts_offset_LOG sess) = Some log"
    "tc_log (ap_tc s') = (tc_log (ap_tc s))(ts_offset_LOG sess \<mapsto>
      tcp_close_log (ae_now e) (ae_usec e) (sess\<lparr>ts_usL4FailCode := GetFailCode sess\<rparr>) log)"
    "ap_sess s' = (ap_sess s)(sp \<mapsto> sess')" "ts_offset_LOG sess' = 0"
    using dCloseSession_log [OF c sess] by blast
  have "ts_offset_LOG sess \<noteq> 0" using l(1) by (auto simp: tcp_log_at_def split: if_splits)
  then have "tcp_ended sess" using assms(2) sess by (auto simp: ap_holds_def or_dead_def)
  then have "GetFailCode sess \<in> cause_code ` tcp_causes" using GetFailCode_ended by simp
  then have "logs_coded (ap_tc s')" using assms(1) by (simp add: logs_coded_def l(2) log_coded_def)
  then show "logs_coded (ap_tc s') \<and> (\<forall>sp' Q. ap_holds (or_dead Q) sp' s \<longrightarrow> ap_holds (or_dead Q) sp' s') \<and>
      ap_holds (or_dead (\<lambda>_. False)) sp s'"
    using l(3,4) by (simp add: ap_holds_def or_dead_def)
qed

text \<open>Calls that touch neither logs nor sessions.\<close>

definition ap_quiet :: "aproc \<Rightarrow> aproc \<Rightarrow> bool" where
  "ap_quiet s s' \<longleftrightarrow> tc_log (ap_tc s') = tc_log (ap_tc s) \<and> ap_sess s' = ap_sess s"

lemma ap_quiet_keep:
  "ap_quiet s s' \<Longrightarrow> logs_coded (ap_tc s') = logs_coded (ap_tc s)" "ap_quiet s s' \<Longrightarrow> ap_holds Q sp s' = ap_holds Q sp s"
  by (simp_all add: ap_quiet_def logs_coded_def ap_holds_def)

lemma ap_quiet_simps [simp]:
  "ap_quiet s s" "ap_quiet s (s\<lparr>ap_keyhash := kh\<rparr>) = True" "ap_quiet s (ap_sub g s)"
  "ap_quiet s (s'\<lparr>ap_keyhash := kh\<rparr>) = ap_quiet s s'" "ap_quiet s (s'\<lparr>ap_keydata := kd\<rparr>) = ap_quiet s s'"
  "ap_quiet s (s'\<lparr>ap_keytbl := kt\<rparr>) = ap_quiet s s'" "ap_quiet s (s'\<lparr>ap_call := cl\<rparr>) = ap_quiet s s'"
  "ap_quiet s (s'\<lparr>ap_hash := h\<rparr>) = ap_quiet s s'"
  by (simp_all add: ap_quiet_def)

lemma ap_node_delete_quiet: "ensures (ap_node_delete s p) (ap_quiet s)"
  by (auto simp: ap_node_delete_def tcp_on_nifo_def ap_quiet_def ensures_def bind_eq_Some_conv)

lemma Delete_SessList_quiet: "ensures (Delete_SessList s key) (ap_quiet s)"
  unfolding Delete_SessList_def Let_def
  by (rule ensures_flow | assumption | simp split del: if_split | rule ensures_any)+

lemma dCheckSessKeyList_quiet: "ensures (dCheckSessKeyList e s key sp) (\<lambda>r. ap_quiet s (fst r))"
  unfolding dCheckSessKeyList_def Let_def
  by (rule ensures_flow | assumption | simp split del: if_split | rule ensures_any)+

lemma tcp_timer_del_quiet: "ensures (tcp_timer_del w sp) (\<lambda>w'. ap_quiet (fst w) (fst w'))"
  by (cases w) (auto simp: tcp_timer_del_def ensures_def bind_eq_Some_conv)

lemma ap_coded_quiet:
  assumes "ap_coded e s" "ensures x (ap_ok e)" "ensures x (ap_quiet s)"
  shows "ensures x (ap_coded e)"
  using assms ap_quiet_keep(1) by (fastforce simp: ensures_def ap_coded_def)

lemma ap_node_delete_coded: "ap_coded e s \<Longrightarrow> ensures (ap_node_delete s p) (ap_coded e)"
  by (rule ap_coded_quiet [OF _ ap_node_delete_ok ap_node_delete_quiet]) (simp_all add: ap_coded_def)

lemma Delete_SessList_coded: "ap_coded e s \<Longrightarrow> ensures (Delete_SessList s key) (ap_coded e)"
  by (rule ap_coded_quiet [OF _ Delete_SessList_ok Delete_SessList_quiet]) (simp_all add: ap_coded_def)

lemma tcp_timer_del_coded: "ap_coded e (fst w) \<Longrightarrow> ensures (tcp_timer_del w sp) (\<lambda>w'. ap_coded e (fst w'))"
  using tcp_timer_del_ok [of e w sp] tcp_timer_del_quiet [of w sp] ap_quiet_keep(1)
  by (fastforce simp: ensures_def ap_coded_def)

section \<open>The timer\<close>

lemma ap_ok_sess:
  assumes "ap_ok e s" "hasho_find (ap_hash s) (tcp_key_bytes key) = Some (Some p)" "hasho_data_at (ap_hash s) p = Some sp"
  obtains sess where "ap_sess s sp = Some sess" "sess_open sess"
  using ap_ok_found [OF assms(1,2)] assms(3) by auto

text \<open>The end of a session that the table has: the state \<open>f\<close> gives it is one that the codes know.\<close>

lemma close_found:
  assumes ok: "ap_ok e s" "logs_coded (ap_tc s)" and f: "hasho_find (ap_hash s) (tcp_key_bytes key) = Some (Some p)"
      "hasho_data_at (ap_hash s) p = Some sp"
    and ended: "\<And>x. sess_open x \<Longrightarrow> tcp_ended (f x)" and log: "\<And>x. ts_offset_LOG (f x) = ts_offset_LOG x"
  shows "ensures (ap_sess_upd s sp f \<bind> (\<lambda>s1. dCloseSession e s1 key sp))
    (\<lambda>s'. ap_coded e s' \<and> (\<forall>sp'. ap_holds (or_dead sess_open) sp' s \<longrightarrow> ap_holds (or_dead sess_open) sp' s'))"
proof (rule ensures_bindE)
  fix s1 assume s1: "ap_sess_upd s sp f = Some s1"
  obtain x where x: "ap_sess s sp = Some x" "sess_open x" using ap_ok_sess [OF ok(1) f] .
  have e1: "s1 = s\<lparr>ap_sess := (ap_sess s)(sp \<mapsto> f x)\<rparr>" using s1 x(1) by (simp add: ap_sess_upd_def)
  have "ap_all (but_at sp key (\<lambda>a k x. sess_open x)) e s1"
    using ensuresD [OF but_at_write [OF ap_but_at [OF ok(1) [unfolded ap_ok_def] f]] s1] .
  then have okc: "ensures (dCloseSession e s1 key sp) (ap_ok e)" unfolding ap_ok_def by (rule but_at_close)
  have "logs_coded (ap_tc s1)" "ap_holds (or_dead tcp_ended) sp s1"
    using ok(2) ended [OF x(2)] by (simp_all add: e1 ap_holds_def or_dead_def)
  note cl = close_coded [OF this, of e key]
  show "ensures (dCloseSession e s1 key sp)
      (\<lambda>s'. ap_coded e s' \<and> (\<forall>sp'. ap_holds (or_dead sess_open) sp' s \<longrightarrow> ap_holds (or_dead sess_open) sp' s'))"
  proof (rule ensures_mono [OF ensures_conj [OF okc cl]], elim conjE, intro conjI allI impI)
    fix s' assume a: "ap_ok e s'" "logs_coded (ap_tc s')"
      "\<forall>sp' Q. ap_holds (or_dead Q) sp' s1 \<longrightarrow> ap_holds (or_dead Q) sp' s'" "ap_holds (or_dead (\<lambda>_. False)) sp s'"
    show "ap_coded e s'" using a(1,2) by (simp add: ap_coded_def)
    fix sp' assume h: "ap_holds (or_dead sess_open) sp' s"
    show "ap_holds (or_dead sess_open) sp' s'"
    proof (cases "sp' = sp")
      case True
      then show ?thesis using a(4) by (simp add: ap_holds_def or_dead_def)
    next
      case False
      then have "ap_holds (or_dead sess_open) sp' s1" using h by (simp add: e1 ap_holds_def)
      then show ?thesis using a(3) by blast
    qed
  qed
qed

lemma invoke_del_coded:
  assumes "ap_ok e s" "logs_coded (ap_tc s)"
  shows "ensures (invoke_del e arg s)
    (\<lambda>s'. ap_coded e s' \<and> (\<forall>sp. ap_holds (or_dead sess_open) sp s \<longrightarrow> ap_holds (or_dead sess_open) sp s'))"
  unfolding invoke_del_def Let_def
proof (rule ensures_bind, rule ensuresI, rule ensures_option)
  show "ensures (Some s) (\<lambda>s'. ap_coded e s' \<and> (\<forall>sp. ap_holds (or_dead sess_open) sp s \<longrightarrow> ap_holds (or_dead sess_open) sp s'))"
    using assms by (intro ensures_Some) (simp add: ap_coded_def)
  let ?f = "\<lambda>sess. if ts_ucEndStatus sess \<noteq> DEF_END_RST then sess\<lparr>ts_ucEndStatus := DEF_END_LONGLAST\<rparr> else sess"
  fix r p assume "hasho_find (ap_hash s) (tcp_key_bytes (tcp_key_of arg)) = Some r" "r = Some p"
  then have f: "hasho_find (ap_hash s) (tcp_key_bytes (tcp_key_of arg)) = Some (Some p)" by simp
  show "ensures (hasho_data_at (ap_hash s) p \<bind> (\<lambda>sp. ap_sess_upd s sp ?f \<bind>
      (\<lambda>s1. dCloseSession e s1 (tcp_key_of arg) sp \<bind> (\<lambda>s2. Delete_SessList s2 (tcp_key_of arg)))))
      (\<lambda>s'. ap_coded e s' \<and> (\<forall>sp. ap_holds (or_dead sess_open) sp s \<longrightarrow> ap_holds (or_dead sess_open) sp s'))"
  proof (rule ensures_bindE)
    fix sp assume sp: "hasho_data_at (ap_hash s) p = Some sp"
    have c: "ensures (ap_sess_upd s sp ?f \<bind> (\<lambda>s1. dCloseSession e s1 (tcp_key_of arg) sp))
        (\<lambda>s'. ap_coded e s' \<and> (\<forall>sp'. ap_holds (or_dead sess_open) sp' s \<longrightarrow> ap_holds (or_dead sess_open) sp' s'))"
      by (rule close_found [OF assms f sp]) (use sess_open_ended in auto)
    have d: "ensures ((ap_sess_upd s sp ?f \<bind> (\<lambda>s1. dCloseSession e s1 (tcp_key_of arg) sp)) \<bind> (\<lambda>s2. Delete_SessList s2 (tcp_key_of arg)))
        (\<lambda>s'. ap_coded e s' \<and> (\<forall>sp. ap_holds (or_dead sess_open) sp s \<longrightarrow> ap_holds (or_dead sess_open) sp s'))"
    proof (rule ensures_bind, rule ensures_mono [OF c])
      fix s2 assume s2: "ap_coded e s2 \<and> (\<forall>sp'. ap_holds (or_dead sess_open) sp' s \<longrightarrow> ap_holds (or_dead sess_open) sp' s2)"
      show "ensures (Delete_SessList s2 (tcp_key_of arg))
          (\<lambda>s'. ap_coded e s' \<and> (\<forall>sp. ap_holds (or_dead sess_open) sp s \<longrightarrow> ap_holds (or_dead sess_open) sp s'))"
        by (rule ensures_mono [OF ensures_conj [OF Delete_SessList_coded Delete_SessList_quiet]]) (use s2 ap_quiet_keep(2) in auto)
    qed
    then show "ensures (ap_sess_upd s sp ?f \<bind>
      (\<lambda>s1. dCloseSession e s1 (tcp_key_of arg) sp \<bind> (\<lambda>s2. Delete_SessList s2 (tcp_key_of arg))))
      (\<lambda>s'. ap_coded e s' \<and> (\<forall>sp. ap_holds (or_dead sess_open) sp s \<longrightarrow> ap_holds (or_dead sess_open) sp s'))"
      by (simp only: bind_assoc)
  qed
qed

text \<open>The session of a packet while timers may run: it may be closed, and then has no log.\<close>

definition ap_ref :: "tcpsesskey \<Rightarrow> offset \<Rightarrow> aproc_env \<Rightarrow> aproc \<Rightarrow> bool" where
  "ap_ref key sp e s \<longleftrightarrow> ap_at sess_open key sp e s \<and> logs_coded (ap_tc s) \<and> ap_holds (or_dead sess_open) sp s"

lemma ap_ref_coded: "ap_ref key sp e s \<Longrightarrow> ap_coded e s"
  by (auto simp: ap_ref_def ap_coded_def intro: ap_at_ok)

interpretation twc: timer_world "tcp_call e" "ap_coded e" for e
proof
  show "ensures (tcp_call e f arg (w, t)) (\<lambda>r. ap_coded e (fst r))" if "ap_coded e w" for w f arg and t :: "tcp_timer_fn timerNinfo"
    using that invoke_del_coded [of e w arg] by (cases f) (auto simp: tcp_call_def ensures_def ap_coded_def)
qed

interpretation twr: timer_world "tcp_call e" "ap_ref key sp e" for key sp e
proof
  show "ensures (tcp_call e f arg (w, t)) (\<lambda>r. ap_ref key sp e (fst r))" if r: "ap_ref key sp e w" for w f arg and t :: "tcp_timer_fn timerNinfo"
  proof (cases f)
    case Invoke_del
    have at: "ensures (invoke_del e arg w) (ap_at sess_open key sp e)"
      using r unfolding ap_ref_def ap_at_def by (intro invoke_del_all) blast
    have "ensures (invoke_del e arg w) (\<lambda>s'. ap_coded e s' \<and> (\<forall>sp. ap_holds (or_dead sess_open) sp w \<longrightarrow> ap_holds (or_dead sess_open) sp s'))"
      using ap_ref_coded [OF r] by (intro invoke_del_coded) (simp_all add: ap_coded_def)
    then show ?thesis using at r by (auto simp: tcp_call_def ensures_def ap_coded_def ap_ref_def Invoke_del)
  qed
qed

section \<open>A packet\<close>

text \<open>The clearing of a call.\<close>

lemma tcp_clear_sess_coded:
  assumes "ap_coded e (fst w)"
  shows "ensures (tcp_clear_sess e key w) (\<lambda>w'. ap_coded e (fst w'))"
proof (cases w)
  case (Pair s t)
  have ok: "ap_ok e s" "logs_coded (ap_tc s)" using assms by (simp_all add: Pair ap_coded_def)
  show ?thesis
    unfolding tcp_clear_sess_def Pair prod.case
  proof (rule ensures_bind, rule ensuresI, rule ensures_option)
    show "ensures (Some (s, t)) (\<lambda>w'. ap_coded e (fst w'))" using assms by (intro ensures_Some) (simp add: Pair)
    fix r p assume "hasho_find (ap_hash s) (tcp_key_bytes key) = Some r" "r = Some p"
    then have f: "hasho_find (ap_hash s) (tcp_key_bytes key) = Some (Some p)" by simp
    let ?f = "\<lambda>sess. sess\<lparr>ts_ucEndStatus := DEF_END_LONGLAST\<rparr>"
    show "ensures (hasho_data_at (ap_hash s) p \<bind> (\<lambda>sp. ap_sess_upd s sp ?f \<bind>
        (\<lambda>s1. dCloseSession e s1 key sp \<bind> (\<lambda>s2. tcp_timer_del (s2, t) sp)))) (\<lambda>w'. ap_coded e (fst w'))"
    proof (rule ensures_bindE)
      fix sp assume sp: "hasho_data_at (ap_hash s) p = Some sp"
      have c: "ensures (ap_sess_upd s sp ?f \<bind> (\<lambda>s1. dCloseSession e s1 key sp))
          (\<lambda>s'. ap_coded e s' \<and> (\<forall>sp'. ap_holds (or_dead sess_open) sp' s \<longrightarrow> ap_holds (or_dead sess_open) sp' s'))"
        by (rule close_found [OF ok f sp]) (use sess_open_ended(2) in auto)
      have "ensures ((ap_sess_upd s sp ?f \<bind> (\<lambda>s1. dCloseSession e s1 key sp)) \<bind> (\<lambda>s2. tcp_timer_del (s2, t) sp)) (\<lambda>w'. ap_coded e (fst w'))"
        by (rule ensures_bind, rule ensures_mono [OF c], rule tcp_timer_del_coded) simp
      then show "ensures (ap_sess_upd s sp ?f \<bind>
        (\<lambda>s1. dCloseSession e s1 key sp \<bind> (\<lambda>s2. tcp_timer_del (s2, t) sp))) (\<lambda>w'. ap_coded e (fst w'))"
        by (simp only: bind_assoc)
    qed
  qed
qed

lemma ap_coded_frame [simp]:
  "ap_coded e (s\<lparr>ap_call := c\<rparr>) = ap_coded e s" "ap_coded e (ap_sub g s) = ap_coded e s"
  "ap_coded e (s\<lparr>ap_keytbl := kt, ap_keydata := kd\<rparr>) = ap_coded e s" "ap_coded e (s\<lparr>ap_keyhash := kh\<rparr>) = ap_coded e s"
  "ap_coded e (s\<lparr>ap_keytbl := kt, ap_keydata := kd, ap_keyhash := kh\<rparr>) = ap_coded e s"
  by (simp_all add: ap_coded_def ap_ok_def)

lemma ap_coded_nifo [simp]: "ap_coded e (s\<lparr>ap_tc := ap_tc s\<lparr>tc_nifo := nf, tc_cifo := cf\<rparr>\<rparr>) = ap_coded e s"
  by (simp add: ap_coded_def logs_coded_def)

lemma tcp_clear_call_coded:
  assumes "ap_coded e (fst w)"
  shows "ensures (tcp_clear_call e w ca) (\<lambda>w'. ap_coded e (fst w'))"
proof (cases w)
  case (Pair s t)
  have all: "ap_coded e s" using assms by (simp add: Pair)
  have del: "ensures (dDelSessKeyList (tcp_clear_sess e) n ((s1, t1), kt, h)) (\<lambda>r. ap_coded e (fst (fst (fst r))))"
    if "ap_coded e s1" for n s1 t1 kt h
    unfolding dDelSessKeyList_def
    by (rule key_del_keep [where I = "\<lambda>w. ap_coded e (fst w)"]) (use that tcp_clear_sess_coded in simp_all)
  have cont: "ensures (dDelSessKeyList (tcp_clear_sess e) n ((s1, t1), kt, h)) Q"
    if "ap_coded e s1" "\<And>s2 t2 kt h2 d. ap_coded e s2 \<Longrightarrow> Q (((s2, t2), kt, h2), d)" for n s1 t1 kt h Q
    using del [OF that(1), of n t1 kt h] that(2) by (force simp: ensures_def)
  show ?thesis
    unfolding tcp_clear_call_def Pair prod.case Let_def
    by (simp only: prod.case | rule ensures_if ensures_bind ensures_prod ensures_option cont ensures_Some | assumption | simp add: all split del: if_split | rule ensures_any)+
qed

lemma ap_sess_upd_coded:
  assumes "ap_coded e s" "\<And>x. sess_kind (f x) = sess_kind x"
  shows "ensures (ap_sess_upd s sp f) (ap_coded e)"
proof (rule ensuresI)
  fix s' assume u: "ap_sess_upd s sp f = Some s'"
  then have "ap_tc s' = ap_tc s" by (auto simp: ap_sess_upd_def bind_eq_Some_conv)
  moreover have "ap_all (\<lambda>a k x. sess_open x) e s'"
    by (rule ensuresD [OF ap_sess_upd_kind u]) (use assms in \<open>simp_all add: ap_coded_def ap_ok_def\<close>)
  ultimately show "ap_coded e s'" using assms(1) by (simp add: ap_coded_def ap_ok_def)
qed

text \<open>A new session.\<close>

lemma ap_ref_upd:
  assumes "ap_ref key sp e s" "\<And>x. sess_kind (f x) = sess_kind x" "\<And>x. ts_offset_LOG (f x) = ts_offset_LOG x"
  shows "ensures (ap_sess_upd s sp f) (ap_ref key sp e)"
proof (rule ensuresI)
  fix s' assume u: "ap_sess_upd s sp f = Some s'"
  then obtain x where x: "ap_sess s sp = Some x" "s' = s\<lparr>ap_sess := (ap_sess s)(sp \<mapsto> f x)\<rparr>"
    by (auto simp: ap_sess_upd_def bind_eq_Some_conv)
  have "ap_at sess_open key sp e s" using assms(1) by (simp add: ap_ref_def)
  then have "ap_at sess_open key sp e s'"
    unfolding ap_at_def using ensuresD [OF ap_sess_upd_kind u] assms(2) by simp
  moreover have "sess_open (f x) = sess_open x" by (rule sess_open_kind [OF assms(2)])
  ultimately show "ap_ref key sp e s'" using assms(1,3) x by (simp add: ap_ref_def ap_holds_def or_dead_def)
qed

lemma pCreateSession_made_coded:
  assumes ok: "ap_coded e s" and add: "hasho_add n (ap_hash s) (tcp_key_bytes key) (ae_sess_bytes e x) = Some (h, Some p)"
    and sp: "hasho_data_at h p = Some sp" and y: "sess_open y"
    and t: "timerN_add (tcp_call e) (ae_malloc e) (s\<lparr>ap_hash := h, ap_sess := (ap_sess s)(sp \<mapsto> y)\<rparr>, t) Invoke_del
        (tcp_key_bytes key) tm = Some ((s1, t1), nid)"
    and u: "ap_sess_upd s1 sp (\<lambda>sess. sess\<lparr>ts_timerNID := nid\<rparr>) = Some s2"
  shows "ap_ref key sp e s2"
proof -
  let ?R = "\<lambda>a k x. if a = sp then k = tcp_key_bytes key \<and> sess_open x else sess_open x"
  have all: "ap_all (\<lambda>a k x. sess_open x) e s" using ok by (simp add: ap_coded_def ap_ok_def)
  have "sp = hdata_at h p" using ap_all_add(2) [OF all add] sp by simp
  then have "ap_all ?R e (s\<lparr>ap_hash := h, ap_sess := (ap_sess s)(sp \<mapsto> y)\<rparr>)"
    using ap_all_add(3) [OF all add refl, of ?R y] y by simp
  then have "ap_ref key sp e (s\<lparr>ap_hash := h, ap_sess := (ap_sess s)(sp \<mapsto> y)\<rparr>)"
    using ok y by (simp add: ap_ref_def ap_at_def ap_coded_def ap_holds_def or_dead_def)
  then have "ap_ref key sp e s1" using ensuresD [OF twr.add_keep t] by simp
  then show ?thesis using ensuresD [OF ap_ref_upd u] by simp
qed

lemma pCreateSession_tail_coded:
  assumes ok: "ap_coded e s" and y: "sess_open y"
  shows "ensures (do {
      (h, r2) \<leftarrow> hasho_add n (ap_hash s) (tcp_key_bytes key) (ae_sess_bytes e x);
      case r2 of
        None \<Rightarrow> do { s6 \<leftarrow> ap_node_delete (s\<lparr>ap_hash := h\<rparr>) pLOGNODE; Some ((s6, t), None) }
      | Some p \<Rightarrow> do {
          sp \<leftarrow> hasho_data_at h p;
          ((s7, t1), nid) \<leftarrow> timerN_add (tcp_call e) (ae_malloc e)
            (s\<lparr>ap_hash := h, ap_sess := (ap_sess (s\<lparr>ap_hash := h\<rparr>))(sp \<mapsto> y)\<rparr>, t) Invoke_del (tcp_key_bytes key) tm;
          s8 \<leftarrow> ap_sess_upd s7 sp (\<lambda>sess. sess\<lparr>ts_timerNID := nid\<rparr>);
          Some ((s8, t1), Some sp)
        }
    }) (\<lambda>(w, r). case r of None \<Rightarrow> ap_coded e (fst w) | Some sp \<Rightarrow> ap_ref key sp e (fst w))"
proof (rule ensures_bindE, rule ensures_prod, rule ensures_option)
  have all: "ap_all (\<lambda>a k x. sess_open x) e s" using ok by (simp add: ap_coded_def ap_ok_def)
  fix z h r2 assume z: "hasho_add n (ap_hash s) (tcp_key_bytes key) (ae_sess_bytes e x) = Some z" "z = (h, r2)"
  show "ensures (ap_node_delete (s\<lparr>ap_hash := h\<rparr>) pLOGNODE \<bind> (\<lambda>s6. Some ((s6, t), None)))
      (\<lambda>(w, r). case r of None \<Rightarrow> ap_coded e (fst w) | Some sp \<Rightarrow> ap_ref key sp e (fst w))" if "r2 = None"
  proof -
    have "h = ap_hash s" using ap_all_add(1) [OF all] z that by simp
    then have "ap_coded e (s\<lparr>ap_hash := h\<rparr>)" using ok by simp
    then show ?thesis by (intro ensures_bind ensures_mono [OF ap_node_delete_coded] ensures_Some) simp_all
  qed
  show "ensures (hasho_data_at h p \<bind> (\<lambda>sp. timerN_add (tcp_call e) (ae_malloc e)
            (s\<lparr>ap_hash := h, ap_sess := (ap_sess (s\<lparr>ap_hash := h\<rparr>))(sp \<mapsto> y)\<rparr>, t) Invoke_del (tcp_key_bytes key) tm \<bind>
          (\<lambda>(a, nid). (case a of (s7, t1) \<Rightarrow> \<lambda>nid. ap_sess_upd s7 sp (\<lambda>sess. sess\<lparr>ts_timerNID := nid\<rparr>) \<bind>
            (\<lambda>s8. Some ((s8, t1), Some sp))) nid)))
      (\<lambda>(w, r). case r of None \<Rightarrow> ap_coded e (fst w) | Some sp \<Rightarrow> ap_ref key sp e (fst w))" if "r2 = Some p" for p
  proof (rule ensuresI, goal_cases)
    case (1 res)
    then show ?case
      using pCreateSession_made_coded [OF ok z(1) [unfolded z(2) that] _ y] by (auto simp: bind_eq_Some_conv)
  qed
qed

lemma ap_coded_log: "ap_coded e s \<Longrightarrow> log_coded log \<Longrightarrow> ap_coded e (s\<lparr>ap_tc := tcp_set_log (ap_tc s) off log\<rparr>)"
  using logs_coded_set by (simp add: ap_coded_def)

lemma pCreateSession_coded:
  assumes ok: "ap_coded e s" and c: "c = TCP_SYN \<or> c = TCP_SYNACK"
  shows "ensures (pCreateSession e (s, t) key cap eth d c)
    (\<lambda>(w, r). case r of None \<Rightarrow> ap_coded e (fst w) | Some sp \<Rightarrow> ap_ref key sp e (fst w))"
proof -
  have new: "sess_open y" if "tcp_new_ctl cap eth d c (tcp_new_sess raw cap eth q now\<lparr>ts_offset_LOG := lp\<rparr>, log) = (y, log1)"
    for raw q now lp log y log1
    using tcp_new_ctl_ok [OF c, of cap eth d lp raw q now log] that by simp
  have lg: "log_coded log1" if "tcp_new_ctl cap eth d c (sess, tcp_new_log platform key cap eth d tm um) = (y, log1)"
    for sess platform tm um y log1
    using tcp_new_ctl_end [of cap eth d c sess platform key tm um] that by simp
  have nf: "ap_coded e (s0\<lparr>ap_tc := ap_tc s0\<lparr>tc_nifo := nf\<rparr>\<rparr>) = ap_coded e s0" for s0 nf
    by (simp add: ap_coded_def logs_coded_def)
  have del: "ensures (ap_node_delete s0 p \<bind> (\<lambda>s'. Some ((s', t), None)))
      (\<lambda>(w, r). case r of None \<Rightarrow> ap_coded e (fst w) | Some sp \<Rightarrow> ap_ref key sp e (fst w))" if "ap_coded e s0" for s0 p
    by (rule ensures_bind, rule ensures_mono [OF ap_node_delete_coded [OF that]], rule ensures_Some) simp
  show ?thesis
    unfolding pCreateSession_def prod.case Let_def
    by (rule pCreateSession_tail_coded del ensures_bindE ensures_prod ensures_option ensures_Some | erule new
        | (rule ap_coded_log, (simp add: nf ok; fail), erule lg) | simp add: ok nf)+
qed

text \<open>The answer of a part that may go on with a session: the session there is one that \<open>Q\<close> allows, or its log is
  NULL.\<close>

definition ap_log :: "(tcpsess \<Rightarrow> bool) \<Rightarrow> tcpsesskey \<Rightarrow> offset \<Rightarrow> offset \<Rightarrow> aproc_env \<Rightarrow> aproc \<Rightarrow> bool" where
  "ap_log Q key sp lp e s \<longleftrightarrow> ap_at Q key sp e s \<and> logs_coded (ap_tc s) \<and> ap_holds (\<lambda>x. Q x \<or> lp = 0) sp s"

definition turn_coded :: "(tcpsess \<Rightarrow> bool) \<Rightarrow> tcpsesskey \<Rightarrow> aproc_env \<Rightarrow> tcpw \<times> tcp_turn \<Rightarrow> bool" where
  "turn_coded Q key e r \<longleftrightarrow> (case r of ((s, t), TGo sp lp) \<Rightarrow> ap_log Q key sp lp e s | ((s, t), TEnd d) \<Rightarrow> ap_coded e s)"

lemma turn_coded_simps [simp]:
  "turn_coded Q key e ((s, t), TGo sp lp) = ap_log Q key sp lp e s" "turn_coded Q key e ((s, t), TEnd d) = ap_coded e s"
  by (simp_all add: turn_coded_def)

lemma ap_log_mono: "ap_log Q key sp lp e s \<Longrightarrow> (\<And>x. Q x \<Longrightarrow> Q' x) \<Longrightarrow> ap_log Q' key sp lp e s"
  unfolding ap_log_def ap_holds_def using ap_at_mono [of Q key sp e s Q'] by blast

lemma turn_coded_mono: "turn_coded Q key e r \<Longrightarrow> (\<And>x. Q x \<Longrightarrow> Q' x) \<Longrightarrow> turn_coded Q' key e r"
  unfolding turn_coded_def by (auto split: prod.splits tcp_turn.splits intro: ap_log_mono)

lemma ap_ref_log: "ap_ref key sp e s \<Longrightarrow> ap_sess s sp = Some x \<Longrightarrow> ap_log sess_open key sp (ts_offset_LOG x) e s"
  by (auto simp: ap_ref_def ap_log_def ap_holds_def or_dead_def)

lemma ap_node_delete_end_coded:
  "ap_coded e s \<Longrightarrow> ensures (ap_node_delete s p \<bind> (\<lambda>s'. Some ((s', t), TEnd d))) (turn_coded Q key e)"
  by (intro ensures_bind ensures_mono [OF ap_node_delete_coded] ensures_Some) simp_all

lemma tcp_renew_coded:
  assumes "ap_coded e s" "c = TCP_SYN \<or> c = TCP_SYNACK"
  shows "ensures (tcp_renew e (s, t) key cap eth d c pNode) (turn_coded sess_open key e)"
  unfolding tcp_renew_def
proof (rule ensures_bind, rule ensures_mono [OF pCreateSession_coded [OF assms]], goal_cases)
  case (1 y)
  obtain s1 t1 r where y: "y = ((s1, t1), r)" by (cases y) auto
  show ?case
  proof (cases r)
    case None
    then show ?thesis using 1 ap_node_delete_end_coded by (simp add: y)
  next
    case (Some sp)
    have r1: "ap_ref key sp e s1" using 1 by (simp add: y Some)
    have at: "ap_at sess_open key sp e s1" using r1 by (simp add: ap_ref_def)
    have a: "ensures (dCheckSessKeyList e s1 key sp) (\<lambda>r. ap_at sess_open key sp e (fst r))"
      using at unfolding ap_at_def by (rule dCheckSessKeyList_all)
    have k: "ensures (dCheckSessKeyList e s1 key sp) (\<lambda>r. ap_ref key sp e (fst r))"
      by (rule ensures_mono [OF ensures_conj [OF a dCheckSessKeyList_quiet]]) (use r1 ap_quiet_keep in \<open>auto simp: ap_ref_def\<close>)
    show ?thesis
      unfolding y Some prod.case option.case
    proof (rule ensures_bind, rule ensures_mono [OF k], rule ensures_prod)
      fix y :: "aproc \<times> int" and s2 dRet assume "ap_ref key sp e (fst y)" "y = (s2, dRet)"
      then have r2: "ap_ref key sp e s2" by simp
      show "ensures (if dRet < 0 then Some ((s2, t1), TEnd (- 1))
          else ap_sess s2 sp \<bind> (\<lambda>sess. Some ((s2, t1), TGo sp (ts_offset_LOG sess)))) (turn_coded sess_open key e)"
        by (rule ensures_if ensures_bindE ensures_Some | simp add: ap_ref_coded [OF r2] ap_ref_log [OF r2])+
    qed
  qed
qed

lemma tcp_restart_coded:
  assumes r: "ap_ref key sp e s" and c: "c = TCP_SYN \<or> c = TCP_SYNACK"
  shows "ensures (tcp_restart e (s, t) key sp cap eth d c pNode) (turn_coded sess_open key e)"
  unfolding tcp_restart_def prod.case
proof (rule ensures_bindE)
  fix s1 assume "ap_sess_upd s sp (\<lambda>sess. sess\<lparr>ts_ucEndStatus := DEF_END_ABNORMAL\<rparr>) = Some s1"
  then obtain x where x: "ap_sess s sp = Some x" "s1 = s\<lparr>ap_sess := (ap_sess s)(sp \<mapsto> x\<lparr>ts_ucEndStatus := DEF_END_ABNORMAL\<rparr>)\<rparr>"
    by (auto simp: ap_sess_upd_def bind_eq_Some_conv)
  have at: "ap_at (\<lambda>_. True) key sp e s1"
    unfolding x(2) using r by (intro ap_at_write [of sess_open key sp e s x] x(1)) (simp_all add: ap_ref_def)
  have "ap_holds (or_dead tcp_ended) sp s1" "logs_coded (ap_tc s1)"
    using r x sess_open_ended(1) by (auto simp: ap_ref_def ap_holds_def or_dead_def)
  note cl = ensures_conj [OF ap_at_close [OF at] close_coded [OF this(2,1)]]
  have close: "ensures (dCloseSession e s1 key sp) (ap_coded e)"
    by (rule ensures_mono [OF cl]) (simp add: ap_coded_def)
  show "ensures (dCloseSession e s1 key sp \<bind> (\<lambda>s2. tcp_timer_del (s2, t) sp \<bind> (\<lambda>(s3, t3). Delete_SessList s3 key \<bind>
      (\<lambda>s4. tcp_renew e (s4, t3) key cap eth d c pNode)))) (turn_coded sess_open key e)"
  proof (rule ensures_bind, rule ensures_mono [OF close], rule ensures_bind, rule ensures_mono [OF tcp_timer_del_coded])
    fix s2 assume "ap_coded e s2" then show "ap_coded e (fst (s2, t))" by simp
  next
    fix y :: tcpw assume "ap_coded e (fst y)"
    then show "ensures (case y of (s3, t3) \<Rightarrow> Delete_SessList s3 key \<bind> (\<lambda>s4. tcp_renew e (s4, t3) key cap eth d c pNode))
        (turn_coded sess_open key e)"
      by (cases y) (simp, intro ensures_bind ensures_mono [OF Delete_SessList_coded] tcp_renew_coded, simp_all add: c)
  qed
qed

lemma tcp_refresh_coded:
  assumes r: "ap_ref key sp e s"
  shows "ensures (tcp_refresh e (s, t) key sp cap) (\<lambda>w. ap_ref key sp e (fst w))"
  unfolding tcp_refresh_def prod.case Let_def
proof (rule ensures_bindE, rule ensures_bind)
  fix sess assume sess: "ap_sess s sp = Some sess"
  let ?upd = "\<lambda>s1. ensures (ap_sess s1 sp \<bind> (\<lambda>sess1. timerN_update (tcp_call e) (s1, t) (ts_timerNID sess1) (ae_now e + ae_gv (ae_PI_TCP_TIMEOUT e)) \<bind>
      (\<lambda>(a, nid). (case a of (s2, t2) \<Rightarrow> \<lambda>nid. ap_sess_upd s2 sp (\<lambda>sess. sess\<lparr>ts_timerNID := nid\<rparr>) \<bind> (\<lambda>s3. Some (s3, t2))) nid)))
      (\<lambda>w. ap_ref key sp e (fst w))"
  have upd: "?upd s1" if "ap_ref key sp e s1" for s1
  proof -
    have u: "ensures (timerN_update (tcp_call e) (s1, t) i tm) (\<lambda>r. ap_ref key sp e (fst (fst r)))" for i tm
      using that by (intro twr.update_keep) simp
    have w: "ensures (ap_sess_upd s2 sp (\<lambda>sess. sess\<lparr>ts_timerNID := nid\<rparr>)) (ap_ref key sp e)" if "ap_ref key sp e s2" for s2 nid
      using that by (rule ap_ref_upd) simp_all
    show ?thesis
    proof (rule ensures_bind, rule ensures_any, rule ensures_bind, rule ensures_mono [OF u], goal_cases)
      case (1 sess1 y)
      obtain s2 t2 nid where y: "y = ((s2, t2), nid)" by (cases y) auto
      then show ?case using 1 by (simp, intro ensures_bind ensures_mono [OF w] ensures_Some) simp_all
    qed
  qed
  show "ensures (if ts_uiLastSessUpdateTime sess + ae_gv (ae_PI_TCP_TIMEOUT e) - 10 \<le> cp_curtime cap
      then dSessUpdataMsg (ae_tcp e) (ae_now e) (ap_tc s) key sess \<bind> (\<lambda>(tc, sess1, _).
        Some (ap_sub (\<lambda>u. u\<lparr>as_updateCnt := as_updateCnt u + 1\<rparr>)
          (s\<lparr>ap_tc := tc, ap_sess := (ap_sess s)(sp \<mapsto> sess1\<lparr>ts_uiLastSessUpdateTime := s32 (cp_curtime cap)\<rparr>)\<rparr>)))
      else Some s) ?upd"
  proof (rule ensures_if, rule ensures_bind,
      rule ensures_mono [OF ensures_conj [OF dSessUpdataMsg_kind ensures_conj [OF dSessUpdataMsg_log tcp_msg_at(2)]]])
    fix y :: "atcp \<times> tcpsess \<times> int"
    assume y: "kinds3 sess y \<and> logs_same (tc_log (ap_tc s)) y \<and> ts_offset_LOG (fst (snd y)) = ts_offset_LOG sess"
    obtain tc sess1 n where e: "y = (tc, sess1, n)" by (cases y)
    let ?x = "sess1\<lparr>ts_uiLastSessUpdateTime := s32 (cp_curtime cap)\<rparr>"
    have k: "sess_kind ?x = sess_kind sess" "tc_log tc = tc_log (ap_tc s)" "ts_offset_LOG ?x = ts_offset_LOG sess"
      using y by (simp_all add: e)
    have "ap_at sess_open key sp e (s\<lparr>ap_tc := tc, ap_sess := (ap_sess s)(sp \<mapsto> ?x)\<rparr>)"
      using ap_at_kind [of sess_open key sp e "s\<lparr>ap_tc := tc\<rparr>" sess, OF _ _ _ sess_open_kind] r sess k(1) by (simp add: ap_ref_def)
    moreover have "or_dead sess_open sess" using r sess by (simp add: ap_ref_def ap_holds_def)
    then have "or_dead sess_open ?x" unfolding or_dead_def using sess_open_kind [OF k(1)] k(3) by simp
    ultimately have "ap_ref key sp e (s\<lparr>ap_tc := tc, ap_sess := (ap_sess s)(sp \<mapsto> ?x)\<rparr>)"
      using r k(2) by (simp add: ap_ref_def ap_holds_def logs_coded_def)
    then have "ap_ref key sp e (ap_sub (\<lambda>u. u\<lparr>as_updateCnt := as_updateCnt u + 1\<rparr>)
        (s\<lparr>ap_tc := tc, ap_sess := (ap_sess s)(sp \<mapsto> ?x)\<rparr>))"
      by (simp add: ap_ref_def ap_holds_def)
    then show "ensures (case y of (tc, sess1, _) \<Rightarrow> Some (ap_sub (\<lambda>u. u\<lparr>as_updateCnt := as_updateCnt u + 1\<rparr>)
          (s\<lparr>ap_tc := tc, ap_sess := (ap_sess s)(sp \<mapsto> sess1\<lparr>ts_uiLastSessUpdateTime := s32 (cp_curtime cap)\<rparr>)\<rparr>))) ?upd"
      unfolding e prod.case by (intro ensures_Some upd)
  next
    show "ensures (Some s) ?upd" by (rule ensures_Some) (rule upd [OF r])
  qed
qed

text \<open>A branch on the session and its log: it runs only when the log is there, and from then on the session is
  one that \<open>Q\<close> allows.\<close>

definition ap_now :: "(tcpsess \<Rightarrow> bool) \<Rightarrow> tcpsesskey \<Rightarrow> offset \<Rightarrow> aproc_env \<Rightarrow> aproc \<Rightarrow> bool" where
  "ap_now Q key sp e s \<longleftrightarrow> ap_at Q key sp e s \<and> logs_coded (ap_tc s) \<and> ap_holds Q sp s"

lemma ap_now_log: "ap_now Q key sp e s \<Longrightarrow> ap_log Q key sp lp e s"
  by (simp add: ap_now_def ap_log_def ap_holds_def)

lemma ap_step_coded:
  assumes l: "ap_log Q key sp lp e s" and f: "\<And>p p'. Q (fst p) \<Longrightarrow> f p = Some p' \<Longrightarrow> Q' (fst p')"
    and g: "\<And>p p'. f p = Some p' \<Longrightarrow> log_end p' = log_end p"
  shows "ensures (ap_step s sp lp f) (ap_now Q' key sp e)"
proof (rule ensuresI)
  fix s' assume ret: "ap_step s sp lp f = Some s'"
  then obtain sess log sess1 log1 where r: "ap_sess s sp = Some sess" "tcp_log_at (ap_tc s) lp = Some log" "f (sess, log) = Some (sess1, log1)"
    "s' = s\<lparr>ap_sess := (ap_sess s)(sp \<mapsto> sess1), ap_tc := tcp_set_log (ap_tc s) lp log1\<rparr>"
    by (auto simp: ap_step_def bind_eq_Some_conv)
  have lp: "lp \<noteq> 0" "tc_log (ap_tc s) lp = Some log" using r(2) by (auto simp: tcp_log_at_def split: if_splits)
  have "ap_at Q' key sp e s'" using ensuresD [OF ap_step_at ret] l f unfolding ap_log_def by blast
  moreover have "log_coded log" using l lp(2) by (auto simp: ap_log_def logs_coded_def)
  then have "log_coded log1" using log_end_coded [OF g [OF r(3)]] by simp
  then have "logs_coded (ap_tc s')" using l logs_coded_set by (simp add: r(4) ap_log_def)
  moreover have "Q sess" using l r(1) lp(1) by (simp add: ap_log_def ap_holds_def)
  then have "ap_holds Q' sp s'" using f [of "(sess, log)"] r(3) by (simp add: r(4) ap_holds_def)
  ultimately show "ap_now Q' key sp e s'" by (simp add: ap_now_def)
qed

lemma ap_now_call:
  assumes n: "ap_now sess_ok key sp e s" and sess: "ap_sess s sp = Some sess"
  shows "ensures x (kinds sess) \<Longrightarrow> ensures x (logs_same (tc_log (ap_tc s))) \<Longrightarrow>
      (\<And>tc sess1. ap_now sess_ok key sp e (s\<lparr>ap_tc := tc, ap_sess := (ap_sess s)(sp \<mapsto> sess1)\<rparr>) \<Longrightarrow> P (tc, sess1)) \<Longrightarrow> ensures x P"
    "ensures y (kinds3 sess) \<Longrightarrow> ensures y (logs_same (tc_log (ap_tc s))) \<Longrightarrow>
      (\<And>tc sess1 r. ap_now sess_ok key sp e (s\<lparr>ap_tc := tc, ap_sess := (ap_sess s)(sp \<mapsto> sess1)\<rparr>) \<Longrightarrow> P' (tc, sess1, r)) \<Longrightarrow> ensures y P'"
proof -
  have k: "ap_now sess_ok key sp e (s\<lparr>ap_tc := tc, ap_sess := (ap_sess s)(sp \<mapsto> sess1)\<rparr>)"
    if k: "sess_kind sess1 = sess_kind sess" and l: "tc_log tc = tc_log (ap_tc s)" for tc sess1
  proof -
    have "ap_at sess_ok key sp e (s\<lparr>ap_tc := tc, ap_sess := (ap_sess s)(sp \<mapsto> sess1)\<rparr>)"
      using ap_at_kind [of sess_ok key sp e "s\<lparr>ap_tc := tc\<rparr>" sess sess1, OF _ _ k sess_ok_kind] n sess by (simp add: ap_now_def)
    moreover have "sess_ok sess1" using n sess sess_ok_kind [OF k] by (simp add: ap_now_def ap_holds_def)
    ultimately show ?thesis using n l by (simp add: ap_now_def ap_holds_def logs_coded_def)
  qed
  show "ensures x (kinds sess) \<Longrightarrow> ensures x (logs_same (tc_log (ap_tc s))) \<Longrightarrow>
      (\<And>tc sess1. ap_now sess_ok key sp e (s\<lparr>ap_tc := tc, ap_sess := (ap_sess s)(sp \<mapsto> sess1)\<rparr>) \<Longrightarrow> P (tc, sess1)) \<Longrightarrow> ensures x P"
    using k by (fastforce simp: ensures_def kinds_def logs_same_def)
  show "ensures y (kinds3 sess) \<Longrightarrow> ensures y (logs_same (tc_log (ap_tc s))) \<Longrightarrow>
      (\<And>tc sess1 r. ap_now sess_ok key sp e (s\<lparr>ap_tc := tc, ap_sess := (ap_sess s)(sp \<mapsto> sess1)\<rparr>) \<Longrightarrow> P' (tc, sess1, r)) \<Longrightarrow> ensures y P'"
    using k by (fastforce simp: ensures_def kinds3_def logs_same_def)
qed

lemma tcp_on_ack_coded:
  assumes l: "ap_log sess_open key sp lp e s"
  shows "ensures (tcp_on_ack e s key sp lp cap eth d) (ap_now sess_ok key sp e)"
  unfolding tcp_on_ack_def
proof (rule ensures_bind, rule ensures_any, rule ensures_if, rule ensures_bind)
  have a: "ensures (ap_step s sp lp (\<lambda>p. Some (tcp_ack_start cap eth d p))) (ap_now sess_ok key sp e)"
  proof (rule ap_step_coded [OF l])
    fix p p' assume "Some (tcp_ack_start cap eth d p) = Some p'"
    then show "sess_open (fst p) \<Longrightarrow> sess_ok (fst p')" "log_end p' = log_end p"
      using tcp_ack_start_ok [OF sess_open_ok, of p cap eth d] tcp_branch_end(4) [of cap eth d p] by auto
  qed
  show "ensures (ap_step s sp lp (\<lambda>p. Some (tcp_ack_start cap eth d p))) (\<lambda>s1. ensures (ap_sess s1 sp \<bind> (\<lambda>sess1.
      dTCPStartMsg (ae_tcp e) (ae_now e) (ap_tc s1) key sess1 \<bind> (\<lambda>(tc, sess2, _).
        Some (s1\<lparr>ap_tc := tc, ap_sess := (ap_sess s1)(sp \<mapsto> sess2)\<rparr>)))) (ap_now sess_ok key sp e))"
  proof (rule ensures_mono [OF a], rule ensures_bindE, rule ensures_bind)
    fix s1 sess1 assume s1: "ap_now sess_ok key sp e s1" "ap_sess s1 sp = Some sess1"
    show "ensures (dTCPStartMsg (ae_tcp e) (ae_now e) (ap_tc s1) key sess1) (\<lambda>y. ensures (case y of (tc, sess2, _) \<Rightarrow>
        Some (s1\<lparr>ap_tc := tc, ap_sess := (ap_sess s1)(sp \<mapsto> sess2)\<rparr>)) (ap_now sess_ok key sp e))"
      by (rule ap_now_call(2) [OF s1 dTCPStartMsg_kind dTCPStartMsg_log]) (simp add: ensures_Some)
  qed
next
  show "ensures (ap_step s sp lp (tcp_ack_fin cap eth d)) (ap_now sess_ok key sp e)"
    by (rule ap_step_coded [OF l]) (use tcp_ack_fin_ok tcp_ack_fin_end in blast)+
qed

lemma tcp_control_coded:
  assumes r: "ap_ref key sp e s"
  shows "ensures (tcp_control e (s, t) key sp cap eth ep d c pNode) (turn_coded sess_ok key e)"
  unfolding tcp_control_def prod.case Let_def
proof (rule ensures_bindE)
  fix sess assume sess: "ap_sess s sp = Some sess"
  let ?lp = "ts_offset_LOG sess"
  have l: "ap_log sess_open key sp ?lp e s" by (rule ap_ref_log [OF r sess])
  have go: "ensures (ap_step s sp ?lp f \<bind> (\<lambda>s1. Some ((s1, t), TGo sp ?lp))) (turn_coded sess_ok key e)"
    if "\<And>p p'. sess_open (fst p) \<Longrightarrow> f p = Some p' \<Longrightarrow> sess_ok (fst p')" "\<And>p p'. f p = Some p' \<Longrightarrow> log_end p' = log_end p" for f
  proof (rule ensures_bind, rule ensures_mono [OF ap_step_coded [OF l]])
    show "sess_ok (fst p')" if "sess_open (fst p)" "f p = Some p'" for p p' using \<open>\<And>p p'. sess_open (fst p) \<Longrightarrow> f p = Some p' \<Longrightarrow> sess_ok (fst p')\<close> that .
    show "log_end p' = log_end p" if "f p = Some p'" for p p' using \<open>\<And>p p'. f p = Some p' \<Longrightarrow> log_end p' = log_end p\<close> that .
  qed (simp add: ensures_Some ap_now_log)
  have re: "ensures (tcp_restart e (s, t) key sp cap eth d c pNode) (turn_coded sess_ok key e)" if "c = TCP_SYN \<or> c = TCP_SYNACK"
    by (rule ensures_mono [OF tcp_restart_coded [OF r that]]) (erule turn_coded_mono, rule sess_open_ok)
  have syn: "ensures (case tcp_on_syn cap eth sess of None \<Rightarrow> tcp_restart e (s, t) key sp cap eth d c pNode
      | Some f \<Rightarrow> ap_step s sp ?lp (\<lambda>p. Some (f p)) \<bind> (\<lambda>s1. Some ((s1, t), TGo sp ?lp))) (turn_coded sess_ok key e)" if "c = TCP_SYN"
  proof (rule ensures_option)
    show "ensures (tcp_restart e (s, t) key sp cap eth d c pNode) (turn_coded sess_ok key e)" using re that by blast
    fix f assume f: "tcp_on_syn cap eth sess = Some f"
    show "ensures (ap_step s sp ?lp (\<lambda>p. Some (f p)) \<bind> (\<lambda>s1. Some ((s1, t), TGo sp ?lp))) (turn_coded sess_ok key e)"
      by (rule go) (use tcp_on_syn_ok [OF f sess_open_ok] tcp_on_syn_end [OF f] in \<open>metis option.inject\<close>)+
  qed
  have synack: "ensures (case tcp_on_synack cap eth sess of None \<Rightarrow> tcp_restart e (s, t) key sp cap eth d c pNode
      | Some f \<Rightarrow> ap_step s sp ?lp (\<lambda>p. Some (f p)) \<bind> (\<lambda>s1. Some ((s1, t), TGo sp ?lp))) (turn_coded sess_ok key e)" if "c = TCP_SYNACK"
  proof (rule ensures_option)
    show "ensures (tcp_restart e (s, t) key sp cap eth d c pNode) (turn_coded sess_ok key e)" using re that by blast
    fix f assume f: "tcp_on_synack cap eth sess = Some f"
    show "ensures (ap_step s sp ?lp (\<lambda>p. Some (f p)) \<bind> (\<lambda>s1. Some ((s1, t), TGo sp ?lp))) (turn_coded sess_ok key e)"
      by (rule go) (use tcp_on_synack_ok [OF f sess_open_ok] tcp_on_synack_end [OF f] in \<open>metis option.inject\<close>)+
  qed
  have rst: "ensures (ap_step s sp ?lp (\<lambda>p. Some (tcp_on_rst cap d p)) \<bind> (\<lambda>s1. Some ((s1, t), TGo sp ?lp)) \<bind>
      (\<lambda>(a, r). (case a of (s1, t1) \<Rightarrow> \<lambda>r. Some ((s1\<lparr>ap_tc := (ap_tc s1)\<lparr>tc_eth := (tc_eth (ap_tc s1))(ep \<mapsto> eth')\<rparr>\<rparr>, t1), r)) r))
      (turn_coded sess_ok key e)" for eth'
  proof (rule ensures_bind, rule ensures_mono [OF go])
    fix y assume "turn_coded sess_ok key e y"
    then show "ensures (case y of (a, r) \<Rightarrow> (case a of (s1, t1) \<Rightarrow>
        \<lambda>r. Some ((s1\<lparr>ap_tc := (ap_tc s1)\<lparr>tc_eth := (tc_eth (ap_tc s1))(ep \<mapsto> eth')\<rparr>\<rparr>, t1), r)) r) (turn_coded sess_ok key e)"
      by (auto simp: turn_coded_def ap_log_def ap_holds_def ap_coded_def logs_coded_def intro!: ensures_Some split: prod.splits tcp_turn.splits)
  next
    fix p p' assume "Some (tcp_on_rst cap d p) = Some p'"
    then show "sess_open (fst p) \<Longrightarrow> sess_ok (fst p')" "log_end p' = log_end p"
      using tcp_on_rst_ok [of p cap d] tcp_branch_end(3) [of cap d p] by auto
  qed
  have ack: "ensures (tcp_on_ack e s key sp ?lp cap eth d \<bind> (\<lambda>s1. Some ((s1, t), TGo sp ?lp))) (turn_coded sess_ok key e)"
    by (rule ensures_bind, rule ensures_mono [OF tcp_on_ack_coded [OF l]]) (simp add: ensures_Some ap_now_log)
  have fin: "ensures (ap_step s sp ?lp (tcp_on_fin cap eth d) \<bind> (\<lambda>s1. Some ((s1, t), TGo sp ?lp))) (turn_coded sess_ok key e)"
    by (rule go) (use tcp_on_fin_ok sess_open_ok tcp_on_fin_end in blast)+
  have drop: "ensures (ap_node_delete s pNode \<bind> (\<lambda>s1. Some ((s1, t), TEnd 0))) (turn_coded sess_ok key e)"
    using ap_node_delete_end_coded [OF ap_ref_coded [OF r]] .
  show "ensures (if c = TCP_SYN then case tcp_on_syn cap eth sess of None \<Rightarrow> tcp_restart e (s, t) key sp cap eth d c pNode
          | Some f \<Rightarrow> ap_step s sp ?lp (\<lambda>p. Some (f p)) \<bind> (\<lambda>s1. Some ((s1, t), TGo sp ?lp))
      else if c = TCP_SYNACK then case tcp_on_synack cap eth sess of None \<Rightarrow> tcp_restart e (s, t) key sp cap eth d c pNode
          | Some f \<Rightarrow> ap_step s sp ?lp (\<lambda>p. Some (f p)) \<bind> (\<lambda>s1. Some ((s1, t), TGo sp ?lp))
      else if c = TCP_RST then ap_step s sp ?lp (\<lambda>p. Some (tcp_on_rst cap d p)) \<bind> (\<lambda>s1. Some ((s1, t), TGo sp ?lp)) \<bind>
          (\<lambda>(a, r). (case a of (s1, t1) \<Rightarrow> \<lambda>r. Some ((s1\<lparr>ap_tc := (ap_tc s1)\<lparr>tc_eth := (tc_eth (ap_tc s1))(ep \<mapsto>
            eth\<lparr>ie_stUDPTCP := (ie_stUDPTCP eth)\<lparr>ut_wDataLen := 0\<rparr>\<rparr>)\<rparr>\<rparr>, t1), r)) r)
      else if c = TCP_FIN then ap_step s sp ?lp (tcp_on_fin cap eth d) \<bind> (\<lambda>s1. Some ((s1, t), TGo sp ?lp))
      else if c = TCP_ACK then tcp_on_ack e s key sp ?lp cap eth d \<bind> (\<lambda>s1. Some ((s1, t), TGo sp ?lp))
      else ap_node_delete s pNode \<bind> (\<lambda>s1. Some ((s1, t), TEnd 0))) (turn_coded sess_ok key e)"
    by (intro ensures_if syn synack rst fin ack drop)
qed

lemma ap_now_step:
  assumes "ap_log sess_ok key sp lp e s" "\<And>p. sess_ok (fst p) \<Longrightarrow> sess_ok (fst (f p))" "\<And>p. log_end (f p) = log_end p"
  shows "ensures (ap_step s sp lp (\<lambda>p. Some (f p))) (ap_now sess_ok key sp e)"
  by (rule ap_step_coded [OF assms(1)]) (use assms(2,3) in \<open>metis option.inject\<close>)+

lemma tcp_insert_coded:
  assumes "ap_now sess_ok key sp e s"
  shows "ensures (tcp_insert e s key sp lp cap eth d pNode) (ap_now sess_ok key sp e)"
  unfolding tcp_insert_def Let_def
proof (rule ensures_bind, rule ensures_mono [OF ap_now_step [OF ap_now_log [OF assms] tcp_mark_data_ok tcp_branch_end(5)]],
    assumption, rule ensures_bindE, rule ensures_bind)
  fix s1 sess assume s1: "ap_now sess_ok key sp e s1" "ap_sess s1 sp = Some sess"
  show "ensures (dInsertTCPData (ae_tcp e) (ap_tc s1) key sess cap eth pNode) (\<lambda>y. ensures (case y of (tc, sess1, delFlag) \<Rightarrow>
      if 0 < delFlag then ap_step (s1\<lparr>ap_tc := tc, ap_sess := (ap_sess s1)(sp \<mapsto> sess1)\<rparr>) sp lp (\<lambda>p. Some (tcp_count_retrans d delFlag p))
      else Some (s1\<lparr>ap_tc := tc, ap_sess := (ap_sess s1)(sp \<mapsto> sess1)\<rparr>)) (ap_now sess_ok key sp e))"
  proof (rule ap_now_call(2) [OF s1 dInsertTCPData_kind dInsertTCPData_log])
    fix tc sess1 r assume n: "ap_now sess_ok key sp e (s1\<lparr>ap_tc := tc, ap_sess := (ap_sess s1)(sp \<mapsto> sess1)\<rparr>)"
    show "ensures (case (tc, sess1, r) of (tc, sess1, delFlag) \<Rightarrow>
      if 0 < delFlag then ap_step (s1\<lparr>ap_tc := tc, ap_sess := (ap_sess s1)(sp \<mapsto> sess1)\<rparr>) sp lp (\<lambda>p. Some (tcp_count_retrans d delFlag p))
      else Some (s1\<lparr>ap_tc := tc, ap_sess := (ap_sess s1)(sp \<mapsto> sess1)\<rparr>)) (ap_now sess_ok key sp e)"
      unfolding prod.case
      by (rule ensures_if, rule ap_now_step [OF ap_now_log [OF n]], erule sess_keeps(2), rule tcp_branch_end(2), rule ensures_Some, rule n)
  qed
qed

lemma ap_node_delete_now:
  assumes "ap_now Q key sp e s"
  shows "ensures (ap_node_delete s p) (ap_now Q key sp e)"
proof -
  have "ap_at Q key sp e s" using assms by (simp add: ap_now_def)
  note q = ensures_conj [OF ap_node_delete_at [OF this] ap_node_delete_quiet]
  show ?thesis by (rule ensures_mono [OF q]) (use assms ap_quiet_keep in \<open>auto simp: ap_now_def\<close>)
qed

lemma tcp_packet_coded:
  assumes "ap_log sess_ok key sp lp e s"
  shows "ensures (tcp_packet e s key sp lp cap eth d pNode) (ap_now sess_ok key sp e)"
  unfolding tcp_packet_def Let_def
proof (rule ensures_bind, rule ensures_mono [OF ap_now_step [OF assms sess_keeps(1) tcp_branch_end(1)]], assumption,
    rule ensures_bindE, rule ensures_bind)
  fix s1 sess assume s1: "ap_now sess_ok key sp e s1" "ap_sess s1 sp = Some sess"
  let ?rest = "\<lambda>s2. (if ut_wDataLen (ie_stUDPTCP eth) > 0 then tcp_insert e s2 key sp lp cap eth d pNode else ap_node_delete s2 pNode) \<bind>
      (\<lambda>s3. ap_sess s3 sp \<bind> (\<lambda>sess3. dSendPayLoad (ae_tcp e) (ap_tc s3) sess3 \<bind>
        (\<lambda>(tc4, sess4). Some (s3\<lparr>ap_tc := tc4, ap_sess := (ap_sess s3)(sp \<mapsto> sess4)\<rparr>))))"
  have rest: "ensures (?rest s2) (ap_now sess_ok key sp e)" if n: "ap_now sess_ok key sp e s2" for s2
  proof (rule ensures_bind, rule ensures_mono)
    show "ensures (if ut_wDataLen (ie_stUDPTCP eth) > 0 then tcp_insert e s2 key sp lp cap eth d pNode else ap_node_delete s2 pNode)
        (ap_now sess_ok key sp e)"
      by (rule ensures_if) (rule tcp_insert_coded [OF n] ap_node_delete_now [OF n])+
    fix s3 assume n3: "ap_now sess_ok key sp e s3"
    show "ensures (ap_sess s3 sp \<bind> (\<lambda>sess3. dSendPayLoad (ae_tcp e) (ap_tc s3) sess3 \<bind>
        (\<lambda>(tc4, sess4). Some (s3\<lparr>ap_tc := tc4, ap_sess := (ap_sess s3)(sp \<mapsto> sess4)\<rparr>)))) (ap_now sess_ok key sp e)"
    proof (rule ensures_bindE, rule ensures_bind)
      fix sess3 assume sess3: "ap_sess s3 sp = Some sess3"
      show "ensures (dSendPayLoad (ae_tcp e) (ap_tc s3) sess3) (\<lambda>y. ensures (case y of (tc4, sess4) \<Rightarrow>
          Some (s3\<lparr>ap_tc := tc4, ap_sess := (ap_sess s3)(sp \<mapsto> sess4)\<rparr>)) (ap_now sess_ok key sp e))"
        by (rule ap_now_call(1) [OF n3 sess3 dSendPayLoad_kind dSendPayLoad_log]) (simp add: ensures_Some)
    qed
  qed
  show "ensures (dCheckAck (ae_tcp e) (ap_tc s1) sess cap eth d) (\<lambda>y. ensures (case y of (tc, sess1) \<Rightarrow>
      ?rest (s1\<lparr>ap_tc := tc, ap_sess := (ap_sess s1)(sp \<mapsto> sess1)\<rparr>)) (ap_now sess_ok key sp e))"
    by (rule ap_now_call(1) [OF s1 dCheckAck_kind dCheckAck_log]) (simp only: prod.case, erule rest)
qed

lemma tcp_finish_coded:
  assumes n: "ap_now sess_ok key sp e s"
  shows "ensures (tcp_finish e (s, t) key sp) (\<lambda>w. ap_coded e (fst w))"
  unfolding tcp_finish_def prod.case
proof (rule ensures_bindE, rule ensures_if, goal_cases)
  case (1 sess)
  have at: "ap_at sess_ok key sp e s" using n by (simp add: ap_now_def)
  have "ap_holds (or_dead tcp_ended) sp s" "logs_coded (ap_tc s)"
    using n 1 sess_ok_ended by (auto simp: ap_now_def ap_holds_def or_dead_def)
  note cl = ensures_conj [OF ap_at_close [OF at] close_coded [OF this(2,1)]]
  have close: "ensures (dCloseSession e s key sp) (ap_coded e)"
    by (rule ensures_mono [OF cl]) (simp add: ap_coded_def)
  show ?case
    by (intro ensures_bind ensures_mono [OF close] ensures_mono [OF tcp_timer_del_coded] ensures_prod
        ensures_mono [OF Delete_SessList_coded] ensures_Some) simp_all
next
  case (2 sess)
  have at: "ap_at sess_ok key sp e s" using n by (simp add: ap_now_def)
  have "ap_at sess_open key sp e (s\<lparr>ap_sess := (ap_sess s)(sp \<mapsto> sess)\<rparr>)"
    using ap_at_write [OF at 2(1), of sess_open sess] 2(2) by (simp add: sess_open_def)
  moreover have "s\<lparr>ap_sess := (ap_sess s)(sp \<mapsto> sess)\<rparr> = s" using 2(1) by (simp add: fun_upd_idem)
  ultimately have ok: "ap_coded e s" using ap_at_ok n by (simp add: ap_coded_def ap_now_def)
  have u: "ensures (timerN_update (tcp_call e) (s, t) i tm) (\<lambda>r. ap_coded e (fst (fst r)))" for i tm
    using ok by (intro twc.update_keep) simp
  have w: "ensures (ap_sess_upd s2 sp (\<lambda>sess. sess\<lparr>ts_timerNID := nid\<rparr>)) (ap_coded e)" if "ap_coded e s2" for s2 nid
    by (rule ap_sess_upd_coded [OF that]) simp
  show ?case
  proof (rule ensures_if, rule ensures_bind, rule ensures_mono [OF u], goal_cases)
    case (1 y)
    obtain s2 t2 nid where y: "y = ((s2, t2), nid)" by (cases y) auto
    then show ?case using 1 by (simp, intro ensures_bind ensures_mono [OF w] ensures_Some) simp_all
  next
    case 2
    then show ?case using ok by (simp add: ensures_Some)
  qed
qed

lemma dProcTcpSess_coded:
  assumes ok: "ap_coded e s"
  shows "ensures (dProcTcpSess e (s, t) cp ep pNode) (\<lambda>r. ap_coded e (fst (fst r)))"
proof -
  let ?s1 = "\<lambda>eth. ap_sub (\<lambda>u. u\<lparr>as_rcvNodeCnt := as_rcvNodeCnt u + 1,
      as_rcvSize := as_rcvSize u + ucast (ut_wDataLen (ie_stUDPTCP eth))\<rparr>) s"
  have first: "ensures (case r of
         None \<Rightarrow> (if c = TCP_SYN \<or> c = TCP_SYNACK then tcp_renew e (?s1 eth, t) key cap eth d c pNode
                  else ap_node_delete (?s1 eth) pNode \<bind> (\<lambda>s2. Some ((s2, t), TEnd 0)))
       | Some p \<Rightarrow> hasho_data_at (ap_hash (?s1 eth)) p \<bind> (\<lambda>sp. tcp_refresh e (?s1 eth, t) key sp cap \<bind>
           (\<lambda>w1. tcp_control e w1 key sp cap eth ep d c pNode))) (turn_coded sess_ok key e)"
    if f: "hasho_find (ap_hash (?s1 eth)) (tcp_key_bytes key) = Some r" for r c eth key cap d
  proof -
    have ok1: "ap_coded e (?s1 eth)" using ok by simp
    then have ok2: "ap_ok e (?s1 eth)" by (simp add: ap_coded_def)
    show ?thesis
    proof (cases r)
      case None
      show ?thesis
        unfolding None option.case
        by (rule ensures_if, rule ensures_mono [OF tcp_renew_coded [OF ok1]], assumption, erule turn_coded_mono, erule sess_open_ok)
          (rule ap_node_delete_end_coded [OF ok1])
    next
      case (Some p)
      show ?thesis
        unfolding Some option.case
      proof (rule ensures_bindE, rule ensures_bind)
        fix sp assume sp: "hasho_data_at (ap_hash (?s1 eth)) p = Some sp"
        have f': "hasho_find (ap_hash (?s1 eth)) (tcp_key_bytes key) = Some (Some p)" using f Some by simp
        have at: "ap_at sess_open key sp e (?s1 eth)" by (rule ap_ok_at [OF ok2 f' sp])
        obtain x where "ap_sess (?s1 eth) sp = Some x" "sess_open x" by (rule ap_ok_sess [OF ok2 f' sp])
        then have r: "ap_ref key sp e (?s1 eth)" using at ok by (simp add: ap_ref_def ap_holds_def or_dead_def ap_coded_def)
        show "ensures (tcp_refresh e (?s1 eth, t) key sp cap)
            (\<lambda>y. ensures (tcp_control e y key sp cap eth ep d c pNode) (turn_coded sess_ok key e))"
        proof (rule ensures_mono [OF tcp_refresh_coded [OF r]])
          fix y :: tcpw assume "ap_ref key sp e (fst y)"
          then show "ensures (tcp_control e y key sp cap eth ep d c pNode) (turn_coded sess_ok key e)"
            using tcp_control_coded by (cases y) simp
        qed
      qed
    qed
  qed
  have second: "ensures (case turn of TGo sp lp \<Rightarrow> tc_eth (ap_tc s2) ep \<bind> (\<lambda>eth2. tcp_packet e s2 key sp lp cap eth2 d pNode \<bind>
        (\<lambda>s3. tcp_finish e (s3, t2) key sp \<bind> (\<lambda>w4. Some (w4, 0)))) | TEnd dRet \<Rightarrow> Some ((s2, t2), dRet))
      (\<lambda>r. ap_coded e (fst (fst r)))" if "turn_coded sess_ok key e ((s2, t2), turn)" for s2 t2 turn key cap d
  proof (cases turn)
    case (TGo sp lp)
    have at: "ap_log sess_ok key sp lp e s2" using that by (simp add: TGo)
    show ?thesis
      unfolding TGo tcp_turn.case
      by (rule ensures_bind, rule ensures_any, rule ensures_bind, rule ensures_mono [OF tcp_packet_coded [OF at]],
          rule ensures_bind, rule ensures_mono [OF tcp_finish_coded], assumption, rule ensures_Some, simp)
  next
    case (TEnd dRet)
    then show ?thesis using that by (simp add: ensures_Some)
  qed
  show ?thesis
    unfolding dProcTcpSess_def prod.case Let_def
  proof (rule ensures_bind, rule ensures_any, rule ensures_bind, rule ensures_any, rule ensures_bindE, rule ensures_bind,
      rule ensures_mono [OF first], assumption, goal_cases)
    case (1 cap eth r y)
    obtain s2 t2 turn where y: "y = ((s2, t2), turn)" by (cases y) auto
    show ?case unfolding y prod.case by (rule second) (use 1 y in simp)
  qed
qed

section \<open>The process\<close>

lemma ap_node_delete_pair_coded:
  "ap_coded e s \<Longrightarrow> ensures (ap_node_delete s p \<bind> (\<lambda>s'. Some (s', t))) (\<lambda>w. ap_coded e (fst w))"
  by (intro ensures_bind ensures_mono [OF ap_node_delete_coded] ensures_Some) simp_all

lemma tcp_pass_on_coded: "ap_coded e s \<Longrightarrow> ensures (tcp_pass_on e s q p \<bind> (\<lambda>s'. Some (s', t))) (\<lambda>w. ap_coded e (fst w))"
  unfolding tcp_pass_on_def
  by (rule ensures_bind, rule ensures_bind, rule send_log [OF refl])
    (simp add: ensures_Some ap_coded_def logs_coded_def)

lemma tcp_message_coded:
  assumes ok: "ap_coded e (fst w)"
  shows "ensures (tcp_message e w pNode) (\<lambda>w'. ap_coded e (fst w'))"
proof (cases w)
  case (Pair s t)
  have s: "ap_coded e s" using ok by (simp add: Pair)
  have clear: "ensures (tcp_clear_call e (s, t) ca \<bind> (\<lambda>(s1, t1). ap_node_delete s1 pNode \<bind> (\<lambda>s2. Some (s2, t1)))) (\<lambda>w. ap_coded e (fst w))" for ca
  proof (rule ensures_bind, rule ensures_mono [OF tcp_clear_call_coded])
    show "ap_coded e (fst (s, t))" using s by simp
    fix y :: tcpw assume "ap_coded e (fst y)"
    then show "ensures (case y of (s1, t1) \<Rightarrow> ap_node_delete s1 pNode \<bind> (\<lambda>s2. Some (s2, t1))) (\<lambda>w. ap_coded e (fst w))"
      using ap_node_delete_pair_coded by (cases y) simp
  qed
  have tcp: "ensures (dProcTcpSess e (s, t) cp ep pNode \<bind> (\<lambda>(a, dRet). (case a of (s1, t1) \<Rightarrow> \<lambda>dRet.
      if dRet < 0 then ap_node_delete s1 pNode \<bind> (\<lambda>s2. Some (s2, t1)) else Some (s1, t1)) dRet)) (\<lambda>w. ap_coded e (fst w))" for cp ep
  proof (rule ensures_bind, rule ensures_mono [OF dProcTcpSess_coded [OF s]])
    fix y :: "tcpw \<times> int" assume "ap_coded e (fst (fst y))"
    then show "ensures (case y of (a, dRet) \<Rightarrow> (case a of (s1, t1) \<Rightarrow> \<lambda>dRet.
        if dRet < 0 then ap_node_delete s1 pNode \<bind> (\<lambda>s2. Some (s2, t1)) else Some (s1, t1)) dRet) (\<lambda>w. ap_coded e (fst w))"
      using ap_node_delete_pair_coded by (auto split: prod.splits intro: ensures_Some)
  qed
  show ?thesis
    unfolding tcp_message_def Pair prod.case
    by (rule ensures_option ensures_prod ensures_if clear tcp tcp_pass_on_coded [OF s] ap_node_delete_pair_coded [OF s] ensures_bind | rule ensures_any)+
qed

lemma tcp_read_loop_coded: "ap_coded e (fst w) \<Longrightarrow> ensures (tcp_read_loop e w n) (\<lambda>w'. ap_coded e (fst w'))"
proof (induction n arbitrary: w)
  case 0
  then show ?case by (simp add: ensures_Some)
next
  case (Suc n)
  obtain s t where w: "w = (s, t)" by (cases w)
  show ?case
    unfolding w tcp_read_loop.simps Let_def
  proof (rule ensures_bind, rule ensures_any, rule ensures_prod, rule ensures_prod, rule ensures_if, rule ensures_bind,
      rule ensures_mono [OF tcp_message_coded])
    fix nf cf y and offset :: int
    show "ap_coded e (fst (s\<lparr>ap_tc := ap_tc s\<lparr>tc_nifo := nf, tc_cifo := cf\<rparr>\<rparr>, t))" using Suc.prems by (simp add: w)
    then show "ensures (Some (s\<lparr>ap_tc := ap_tc s\<lparr>tc_nifo := nf, tc_cifo := cf\<rparr>\<rparr>, t)) (\<lambda>w'. ap_coded e (fst w'))" by (rule ensures_Some)
    show "ensures (tcp_read_loop e y n) (\<lambda>w'. ap_coded e (fst w'))" if "ap_coded e (fst y)" for y using that by (rule Suc.IH)
  qed
qed

lemma tcp_main_turn_coded: "ap_coded e (fst w) \<Longrightarrow> ensures (tcp_main_turn e (w, oldTime)) (\<lambda>r. ap_coded e (fst (fst r)))"
  unfolding tcp_main_turn_def prod.case
proof (rule ensures_bind, rule ensures_mono [where P = "\<lambda>w. ap_coded e (fst w)"])
  show "ensures (timerN_invoke (tcp_call e) (ae_now e) w) (\<lambda>w. ap_coded e (fst w))" if "ap_coded e (fst w)"
    using that by (rule twc.invoke_keep)
  fix w1 :: tcpw assume w1: "ap_coded e (fst w1)"
  show "ensures (tcp_read_loop e w1 300 \<bind> (\<lambda>(s2, t2). if oldTime + 60 \<le> ae_now e
      then Some ((ap_sub tcp_clear_counters s2, t2), ae_now e) else Some ((s2, t2), oldTime))) (\<lambda>r. ap_coded e (fst (fst r)))"
    by (rule ensures_bind, rule ensures_mono [OF tcp_read_loop_coded [OF w1]]) (auto simp: ensures_def split: if_splits)
qed

lemma tcp_rebuild_chain_coded:
  "ap_coded e (fst w) \<Longrightarrow> ensures (tcp_rebuild_chain e w p) (\<lambda>w'. ap_coded e (fst w'))"
proof (rule ensuresI)
  fix y assume k: "ap_coded e (fst w)" and ret: "tcp_rebuild_chain e w p = Some y"
  have "ap_coded e (fst w) \<longrightarrow> ap_coded e (fst y)"
  proof (rule tcp_rebuild_chain.raw_induct [OF _ ret, where P = "\<lambda>e w p y. ap_coded e (fst w) \<longrightarrow> ap_coded e (fst y)"], goal_cases)
    case (1 f e w p y)
    have rec: "ensures (f e w' q) (\<lambda>y. ap_coded e (fst y))" if "ap_coded e (fst w')" for w' q
      using 1(1) that by (intro ensuresI) blast
    show ?case
    proof (intro impI, rule ensuresD [OF _ 1(2)], rule ensures_if)
      assume ok: "ap_coded e (fst w)"
      then show "ensures (Some w) (\<lambda>y. ap_coded e (fst y))" by (rule ensures_Some)
      have add: "ensures (timerN_add (tcp_call e) (ae_malloc e) w Invoke_del k tm) (\<lambda>r. ap_coded e (fst (fst r)))" for k tm
        using ok by (rule twc.add_keep)
      have upd: "ensures (ap_sess_upd s a (\<lambda>sess. sess\<lparr>ts_timerNID := nid\<rparr>)) (ap_coded e)" if "ap_coded e s" for s a nid
        by (rule ap_sess_upd_coded [OF that]) simp
      have step: "ensures (if b then timerN_add (tcp_call e) (ae_malloc e) w Invoke_del k tm \<bind> (\<lambda>(a, nid).
            (case a of (s1, t1) \<Rightarrow> \<lambda>nid. ap_sess_upd s1 d (\<lambda>sess. sess\<lparr>ts_timerNID := nid\<rparr>) \<bind> (\<lambda>s2. Some (s2, t1))) nid)
          else Some w) (\<lambda>y. ap_coded e (fst y))" for b k tm d
      proof (rule ensures_if, rule ensures_bind, rule ensures_mono [OF add], goal_cases)
        case (1 y)
        obtain s2 t2 nid where y: "y = ((s2, t2), nid)" by (cases y) auto
        then show ?case using 1 by (simp, intro ensures_bind ensures_mono [OF upd] ensures_Some) simp_all
      next
        case 2
        show ?case using ok by (rule ensures_Some)
      qed
      show "ensures (ho_node (ap_hash (fst w)) p \<bind> (\<lambda>n. gm_hdr (ho_memg (ap_hash (fst w)))
            (p + gi_offsetHeadRoom (ho_memg (ap_hash (fst w))) - stMEMGNODEHDR_SIZE) \<bind> (\<lambda>hdr.
          (if MEMG_ID = gh_uiID hdr \<and> MEMG_ALLOCED = gh_ucIsFree hdr
           then timerN_add (tcp_call e) (ae_malloc e) w Invoke_del (hasho_key_at (ap_hash (fst w)) n)
                  (ae_now e + ae_gv (ae_PI_TCP_TIMEOUT e)) \<bind> (\<lambda>(a, nid). (case a of (s1, t1) \<Rightarrow> \<lambda>nid.
                ap_sess_upd s1 (offset_Data n) (\<lambda>sess. sess\<lparr>ts_timerNID := nid\<rparr>) \<bind> (\<lambda>s2. Some (s2, t1))) nid)
           else Some w) \<bind> (\<lambda>(s1, t1). ho_node (ap_hash s1) p \<bind> (\<lambda>n1. f e (s1, t1) (offset_next n1))))))
          (\<lambda>y. ap_coded e (fst y))"
      proof (rule ensures_bind, rule ensures_any, rule ensures_bind, rule ensures_any, rule ensures_bind,
          rule ensures_mono [OF step], rule ensures_prod, rule ensures_bind, rule ensures_any, rule rec, goal_cases)
        case (1 n hdr y s1 t1 n1)
        then show ?case by simp
      qed
    qed
  qed
  with k show "ap_coded e (fst y)" by simp
qed

lemma tcp_rebuild_loop_coded: "ap_coded e (fst w) \<Longrightarrow> ensures (tcp_rebuild_loop e w i n) (\<lambda>w'. ap_coded e (fst w'))"
proof (induction n arbitrary: w i)
  case 0
  then show ?case by (simp add: ensures_Some)
next
  case (Suc n)
  show ?case
    unfolding tcp_rebuild_loop.simps
    by (rule ensures_bind, rule ensures_any, rule ensures_bind, rule ensures_mono [OF tcp_rebuild_chain_coded [OF Suc.prems]], rule Suc.IH)
qed

lemma vTCPTimerReConstruct_coded: "ap_coded e (fst w) \<Longrightarrow> ensures (vTCPTimerReConstruct e w) (\<lambda>w'. ap_coded e (fst w'))"
  unfolding vTCPTimerReConstruct_def by (rule tcp_rebuild_loop_coded)

text \<open>The life of the process as in \<open>tcp_run\<close>, where the others write what they want but no log with an end and
  without a code.\<close>

inductive tcp_log_run :: "aproc_env \<Rightarrow> tcpw \<times> int \<Rightarrow> tcpw \<times> int \<Rightarrow> bool" for e m where
  start: "tcp_log_run e m m"
| rebuild: "tcp_log_run e m (w, z) \<Longrightarrow> vTCPTimerReConstruct (e\<lparr>ae_now := now\<rparr>) w = Some w' \<Longrightarrow> tcp_log_run e m (w', z)"
| others: "tcp_log_run e m ((s, t), z) \<Longrightarrow> logs_coded tc \<Longrightarrow> tcp_log_run e m ((s\<lparr>ap_tc := tc, ap_call := calls\<rparr>, t), z)"
| turn: "tcp_log_run e m m1 \<Longrightarrow> tcp_main_turn (e\<lparr>ae_now := now, ae_usec := usec, ae_raw := raw\<rparr>) m1 = Some m2 \<Longrightarrow> tcp_log_run e m m2"

lemma ap_coded_clock [simp]:
  "ap_coded (e\<lparr>ae_now := now\<rparr>) s = ap_coded e s" "ap_coded (e\<lparr>ae_now := now, ae_usec := usec, ae_raw := raw\<rparr>) s = ap_coded e s"
  by (simp_all add: ap_coded_def)

lemma tcp_log_run_coded: "tcp_log_run e m m' \<Longrightarrow> ap_coded e (fst (fst m)) \<Longrightarrow> ap_coded e (fst (fst m'))"
proof (induction rule: tcp_log_run.induct)
  case start
  then show ?case .
next
  case (rebuild w z now w')
  then show ?case using ensuresD [OF vTCPTimerReConstruct_coded, of "e\<lparr>ae_now := now\<rparr>" w w'] by simp
next
  case (others s t z tc calls)
  then show ?case by (simp add: ap_coded_def)
next
  case (turn m1 raw usec now m2)
  then show ?case
    using ensuresD [OF tcp_main_turn_coded, of "e\<lparr>ae_now := now, ae_usec := usec, ae_raw := raw\<rparr>" "fst m1" "snd m1" m2] by simp
qed

section \<open>Properties\<close>

text \<open>C16: In whatever way the process closes a session - both ends acknowledged, a new handshake over it, its timer,
  the timer after a reset, the clearing of its call, also in the middle of a packet - the log gets the code of the
  cause. From logs that are coded the process, with whatever the other processes write that is coded, only comes to
  logs that have one of the eighteen codes, none of which is 0, or whose end was not written yet. And every close of
  a session that has ended, in any state, writes the code of that session's own cause and the time into the log of
  the session, and leaves the other logs alone. Of calls that return.\<close>

theorem tcp_sessions_coded:
  assumes "ap_ok e s" "logs_coded (ap_tc s)" "tcp_log_run e ((s, t), z) ((s', t'), z')"
  shows "(\<forall>off log. tc_log (ap_tc s') off = Some log \<longrightarrow>
      tl_usL4FailCode log \<noteq> 0 \<and> tl_usL4FailCode log \<in> cause_code ` tcp_causes \<or>
      tl_usL4FailCode log = 0 \<and> tl_uiOpEndTime log = 0 \<and> tl_uiOpEndMTime log = 0) \<and>
    (\<forall>e' s1 key sp sess s2. ap_sess s1 sp = Some sess \<longrightarrow> tcp_ended sess \<longrightarrow> dCloseSession e' s1 key sp = Some s2 \<longrightarrow>
      (\<exists>log. tc_log (ap_tc s2) = (tc_log (ap_tc s1))(ts_offset_LOG sess \<mapsto> log) \<and>
         tl_usL4FailCode log = cause_code (tcp_cause sess) \<and> tl_uiOpEndTime log = s32 (ae_now e')))"
proof (intro conjI allI impI)
  have "logs_coded (ap_tc s')" using tcp_log_run_coded [OF assms(3)] assms(1,2) by (simp add: ap_coded_def)
  then show "tl_usL4FailCode log \<noteq> 0 \<and> tl_usL4FailCode log \<in> cause_code ` tcp_causes \<or>
      tl_usL4FailCode log = 0 \<and> tl_uiOpEndTime log = 0 \<and> tl_uiOpEndMTime log = 0"
    if "tc_log (ap_tc s') off = Some log" for off log
    using that cause_code_nonzero unfolding logs_coded_def log_coded_def by (metis imageE)
  fix e' s1 key sp sess s2 assume "ap_sess s1 sp = Some sess" "tcp_ended sess" "dCloseSession e' s1 key sp = Some s2"
  then show "\<exists>log. tc_log (ap_tc s2) = (tc_log (ap_tc s1))(ts_offset_LOG sess \<mapsto> log) \<and>
      tl_usL4FailCode log = cause_code (tcp_cause sess) \<and> tl_uiOpEndTime log = s32 (ae_now e')"
    using dCloseSession_log [of e' s1 key sp s2 sess] GetFailCode_ended(1) [of sess] by auto
qed

text \<open>A block with one node, the log at 4900 in it, and no channel to send it on: the close after a reset.\<close>

definition tcp_close_nifo :: nifo where
  "tcp_close_nifo = \<lparr>nf_mems = \<lparr>mi_uiType = MEMS_SHARED_MEM, mi_uiShmKey = 0, mi_uiTotMemSize = 4996, mi_uiHeadRoomSize = 0,
       mi_uiMemNodeHdrSize = 36, mi_offsetHeadRoom = 4760, mi_uiZoneCnt = 1,
       mi_stMEMSZONE = [\<lparr>mz_uiSemFlag = 0, mz_uiSemKey = 0, mz_iSemID = 0, mz_uiZoneID = 0, mz_uiMemNodeBodySize = 200,
         mz_uiMemNodeAllocedCnt = 0, mz_uiMemNodeTotCnt = 1, mz_offsetNodeStart = 4760, mz_offsetFreeList = 4760,
         mz_offsetNodeEnd = 4996, mz_createCnt = 1, mz_delCnt = 0\<rparr>], mi_uiMatrixZoneID = [],
       mi_hdr = [4760 \<mapsto> mems_take_hdr (mems_free_hdr 0) 1], mi_sem = (\<lambda>_. 0)\<rparr>,
     nf_link = cinit_list_head Map.empty (4796 + NONT_OFF), nf_node = Map.empty, nf_mem = (\<lambda>_. 0), nf_procID = 39,
     nf_create = 1, nf_del = 0\<rparr>"

definition tcp_close_tc :: "u32 list \<Rightarrow> atcp \<Rightarrow> atcp" where
  "tcp_close_tc L tc = tc\<lparr>tc_nifo := tcp_close_nifo, tc_cifo := (tc_cifo tc)\<lparr>ci_uiChCnt := 0\<rparr>,
     tc_gifo := (tc_gifo tc)\<lparr>gi_uiMatrixChID := L\<rparr>, tc_log := [4900 \<mapsto> tcplog_zero]\<rparr>"

definition tcp_close_sess :: tcpsess where
  "tcp_close_sess = fst (tcp_on_rst tcp_demo_cap DEF_FROM_CLIENT (tcp_demo_open\<lparr>ts_offset_LOG := 4900\<rparr>, tcplog_zero))"

lemma tcp_close_sess_ok: "sess_open tcp_close_sess" "tcp_ended tcp_close_sess" "ts_offset_LOG tcp_close_sess = 4900"
    "tcp_cause tcp_close_sess = CRst DEF_STATUS_SYN False" "ts_offset_ReqData tcp_close_sess = 0" "ts_offset_ResData tcp_close_sess = 0"
    "ts_ucStatus tcp_close_sess = DEF_STATUS_SYN"
proof -
  have "sess_open tcp_demo_open" unfolding tcp_demo_open_def by (rule tcp_new_ctl_ok) simp
  moreover have "sess_kind (tcp_demo_open\<lparr>ts_offset_LOG := 4900\<rparr>) = sess_kind tcp_demo_open" by simp
  ultimately have "sess_open (tcp_demo_open\<lparr>ts_offset_LOG := 4900\<rparr>)" using sess_open_kind by blast
  then have "sess_ok tcp_close_sess" unfolding tcp_close_sess_def using tcp_on_rst_ok by simp
  moreover have r: "ts_ucEndStatus tcp_close_sess = DEF_END_RST"
    by (simp add: tcp_close_sess_def tcp_on_rst_def tcp_set_client_def sess_consts DEF_FROM_CLIENT_def DEF_FROM_SERVER_def Let_def)
  ultimately show o: "sess_open tcp_close_sess" by (simp add: sess_open_def sess_consts)
  show "tcp_ended tcp_close_sess" by (rule sess_open_ended(3) [OF o r])
  show "ts_offset_LOG tcp_close_sess = 4900" "tcp_cause tcp_close_sess = CRst DEF_STATUS_SYN False"
    "ts_offset_ReqData tcp_close_sess = 0" "ts_offset_ResData tcp_close_sess = 0" "ts_ucStatus tcp_close_sess = DEF_STATUS_SYN"
    by (simp_all add: tcp_close_sess_def tcp_demo_open_def tcp_on_rst_def tcp_set_client_def tcp_new_ctl_def tcp_new_sess_def
        tcp_cause_def end_consts sess_consts DEF_FROM_CLIENT_def DEF_FROM_SERVER_def TCP_SYN_def Let_def)
qed

definition tcp_close_penv :: aproc_env where
  "tcp_close_penv = tcp_demo_penv\<lparr>ae_tcp := tcp_demo_env\<rparr>"

lemma ap_ok_close_penv: "ap_ok tcp_close_penv s = ap_ok tcp_demo_penv s"
  by (simp add: ap_ok_def ap_all_def tcp_close_penv_def)

text \<open>All the data is sent, the log goes out, and as it cannot be sent its node is freed.\<close>

lemma tcp_close_nifo_steps:
  shows "nifo_get_offset_node (nf_mems tcp_close_nifo) 4900 = Some 4796"
    "\<exists>nf. nifo_node_unlink_nont tcp_close_nifo 4796 = Some nf \<and> nf_mems nf = nf_mems tcp_close_nifo"
    "\<exists>m. mems_free (nf_mems tcp_close_nifo) 4796 = Some (m, 0)"
proof -
  show "nifo_get_offset_node (nf_mems tcp_close_nifo) 4900 = Some 4796"
    by (simp add: nifo_get_offset_node_def tcp_close_nifo_def Let_def)
  show "\<exists>nf. nifo_node_unlink_nont tcp_close_nifo 4796 = Some nf \<and> nf_mems nf = nf_mems tcp_close_nifo"
    by (simp add: nifo_node_unlink_nont_def nifo_on_links_def tcp_close_nifo_def clist_del_init_def clist_del2_def
        clist_set_prev_def clist_set_next_def cinit_list_head_def)
  show "\<exists>m. mems_free (nf_mems tcp_close_nifo) 4796 = Some (m, 0)"
    by (simp add: mems_free_def tcp_close_nifo_def stMEMSNODEHDR_SIZE_def mems_take_hdr_def mems_free_hdr_def mems_zone_def)
qed

lemma tcp_close_send:
  assumes "tc_nifo tc = tcp_close_nifo" "ci_uiChCnt (tc_cifo tc) = 0" "length (gi_uiMatrixChID (tc_gifo tc)) = 1000000"
    "ts_offset_LOG x = 4900" "ts_offset_ReqData x = 0" "ts_offset_ResData x = 0"
  shows "\<exists>tc3 x3. dSendAllData tcp_demo_env tc tcp_demo_key x = Some (tc3, x3) \<and> ts_ucStatus x3 = ts_ucStatus x"
proof -
  let ?x = "x\<lparr>ts_uiReqCount := 0, ts_offset_ReqData := 0, ts_uiResCount := 0, ts_offset_ResData := 0\<rparr>"
  obtain nf where nf: "nifo_node_unlink_nont tcp_close_nifo 4796 = Some nf" "nf_mems nf = nf_mems tcp_close_nifo"
    using tcp_close_nifo_steps(2) by blast
  obtain m where m: "mems_free (nf_mems tcp_close_nifo) 4796 = Some (m, 0)" using tcp_close_nifo_steps(3) by blast
  have call: "dGetCALLProcID (en_gACALLCnt tcp_demo_env) (sk_uiSIP tcp_demo_key) = Some (SEQ_PROC_A_CALL + 1)"
    by (simp add: dGetCALLProcID_def tcp_demo_env_def tcp_demo_key_def)
  obtain tc1 where tc1: "dSend_TCP_Data tcp_demo_env (tc\<lparr>tc_nifo := nf\<rparr>) (SEQ_PROC_A_CALL + 1) 4796 = Some (tc1, -1)"
    "tc_nifo tc1 = nf"
    using assms(2,3) by (simp add: dSend_TCP_Data_def gifo_write_def gifo_matrix_def gifo_index_def cifo_write_def
        SEQ_PROC_A_CALL_def tcp_demo_env_def Let_def)
  have "nifo_node_free nf 4796 = Some (nf\<lparr>nf_mems := m, nf_del := nf_del nf + 1\<rparr>)"
    by (simp add: nifo_node_free_def nf(2) m)
  then have "tcp_on_nifo tc1 (\<lambda>nf. nifo_node_free nf 4796) = Some (tc1\<lparr>tc_nifo := nf\<lparr>nf_mems := m, nf_del := nf_del nf + 1\<rparr>\<rparr>)"
    by (simp add: tcp_on_nifo_def tc1(2))
  then have "dSendAllData tcp_demo_env tc tcp_demo_key x =
      Some (tc1\<lparr>tc_nifo := nf\<lparr>nf_mems := m, nf_del := nf_del nf + 1\<rparr>\<rparr>, ?x\<lparr>ts_offset_LOG := 0\<rparr>)"
    using assms tcp_close_nifo_steps(1) nf(1) call tc1(1)
    by (simp add: dSendAllData_def tcp_flush_loop.simps dir_defs tcp_on_nifo_def)
  then show ?thesis by simp
qed

theorem tcp_sessions_coded_witness:
  "\<exists>s sp sess s2 log. ap_ok tcp_close_penv s \<and> logs_coded (ap_tc s) \<and> ap_sess s sp = Some sess \<and>
     dCloseSession tcp_close_penv s tcp_demo_key sp = Some s2 \<and> tc_log (ap_tc s2) 4900 = Some log \<and> tl_usL4FailCode log = 41"
proof -
  obtain tc :: atcp where "tc = tc" by simp
  obtain L :: "u32 list" where L: "length L = 1000000" by (rule that [OF length_replicate])
  obtain h p s where s: "ap_hash s = h" "hasho_find h (tcp_key_bytes tcp_demo_key) = Some (Some p)"
    "hasho_data_at h p = Some (hdata_at h p)" "ap_sess s (hdata_at h p) = Some tcp_demo_open" "ap_ok tcp_demo_penv s"
    "ap_tc s = tcp_close_tc L tc"
    using tcp_demo_start [of "tcp_close_tc L tc"] by metis
  let ?sp = "hdata_at h p" and ?x = "tcp_close_sess"
  let ?s = "s\<lparr>ap_sess := (ap_sess s)(?sp \<mapsto> ?x)\<rparr>"
  have ok: "ap_ok tcp_close_penv ?s"
    unfolding ap_ok_close_penv unfolding ap_ok_def
    by (rule ap_all_write [of "\<lambda>a k x. sess_open x", OF _ s(4)]) (use s(5) tcp_close_sess_ok(1) in \<open>simp_all add: ap_ok_def\<close>)
  have coded: "logs_coded (ap_tc ?s)"
    by (simp add: s(6) tcp_close_tc_def logs_coded_def log_coded_def tcplog_zero_def)
  have rep: "hasho_wf h" "klen h = 12" using s(1,5) by (auto simp: ap_ok_def ap_all_def)
  have p: "p \<in> hasho_nodes h" "hkey h p = tcp_key_bytes tcp_demo_key"
    using ap_find [of "\<lambda>a k x. sess_open x" tcp_demo_penv s] s(1,2,5) by (simp_all add: ap_ok_def)
  obtain bs where bs: "hasho_rep h bs" using rep(1) by (auto simp: hasho_wf_def)
  obtain h' where del: "hasho_del h (tcp_key_bytes tcp_demo_key) = Some h'"
    using hasho_del_hit [OF bs p(1)] unfolding p(2) by metis
  let ?x1 = "?x\<lparr>ts_usL4FailCode := GetFailCode ?x\<rparr>"
  let ?tc = "tcp_set_log (ap_tc (ap_sub (\<lambda>u. u\<lparr>as_curSessCnt := as_curSessCnt u - 1\<rparr>) ?s)) 4900
    (tcp_close_log 999 0 ?x1 tcplog_zero)"
  have "\<exists>tc3 x3. dSendAllData tcp_demo_env ?tc tcp_demo_key ?x1 = Some (tc3, x3) \<and> ts_ucStatus x3 = ts_ucStatus ?x1"
    by (rule tcp_close_send)
      (simp_all add: tcp_set_log_def ap_sub_def s(6) tcp_close_tc_def tcp_close_sess_ok L)
  then obtain tc3 x3 where send: "dSendAllData tcp_demo_env ?tc tcp_demo_key ?x1 = Some (tc3, x3)" "ts_ucStatus x3 = DEF_STATUS_SYN"
    using tcp_close_sess_ok(7) by auto
  have "tcp_log_at (ap_tc ?s) 4900 = Some tcplog_zero" by (simp add: tcp_log_at_def s(6) tcp_close_tc_def)
  then have "\<exists>s2. dCloseSession tcp_close_penv ?s tcp_demo_key ?sp = Some s2"
    using send del tcp_close_sess_ok(3)
    by (simp add: dCloseSession_def tcp_close_penv_def tcp_demo_penv_def s(1) sess_consts Let_def)
  then obtain s2 where s2: "dCloseSession tcp_close_penv ?s tcp_demo_key ?sp = Some s2" by blast
  obtain t :: "tcp_timer_fn timerNinfo" where "timerN_init True True True 1000 100 16 = Some t"
    by (simp add: timerN_init_def hashg_init_def)
  have run: "tcp_log_run tcp_close_penv ((?s, t), 0) ((?s, t), 0)" by (rule tcp_log_run.start)
  have x: "ap_sess ?s ?sp = Some ?x" by simp
  obtain log where "tc_log (ap_tc s2) = (tc_log (ap_tc ?s))(ts_offset_LOG ?x \<mapsto> log)" "tl_usL4FailCode log = cause_code (tcp_cause ?x)"
    using tcp_sessions_coded [OF ok coded run, THEN conjunct2] x tcp_close_sess_ok(2) s2 by blast
  then have "tc_log (ap_tc s2) 4900 = Some log" "tl_usL4FailCode log = 41"
    using tcp_close_sess_ok(3,4) by (simp_all add: TCP_ERR_RST_E1_SYN_def)
  then show ?thesis using ok coded x s2 by blast
qed

end
