(* ===== verification/Frag.thy ===== *)
theory Frag
  imports TcpTypes Nifo Hasho TimerN
begin

unbundle bit_operations_syntax

text \<open>
  Reassembly of IP fragments in the capture process: \<^verbatim>\<open>proj/UPST_PROJECT/TAF/SRC/PRE_A/prea_frag.c\<close>, the timer
  function of \<^verbatim>\<open>prea_main.c\<close> and the restart of the timers in \<^verbatim>\<open>prea_init.c\<close>. The fragments of a datagram are
  messages of the \<open>nifo\<close> block, linked by \<open>nont\<close> in the order of their offsets. The table \<open>pIPFRAGHASH\<close> finds
  the first one by the addresses and the identification of the datagram; a timer of three seconds drops the
  group. The structures in the nodes and the data of the table are kept by their address, as in the TCP analysis;
  the captured frames are bytes of the block.
\<close>

section \<open>State\<close>

definition DEF_MAC_SIZE :: int where "DEF_MAC_SIZE = 14"
definition IP_FRAG_MORE :: u16 where "IP_FRAG_MORE = 0x2000"
definition IP_FRAG_OFFSET :: u16 where "IP_FRAG_OFFSET = 0x1FFF"
definition DEF_IP_FRAG_TIMEOUT :: int where "DEF_IP_FRAG_TIMEOUT = 3"
definition DEF_IPFRAG_NOT_FINISH :: u16 where "DEF_IPFRAG_NOT_FINISH = 0"
definition DEF_IPFRAG_FINISH :: u16 where "DEF_IPFRAG_FINISH = 1"

record ipfragkey =
  fk_sip :: u32
  fk_dip :: u32
  fk_identification :: u16

record ipfrag =
  fi_timerNID :: u64
  fi_cnt :: u16
  fi_finish :: u16
  fi_offset_NODE :: offset

datatype frag_timer_fn = Invoke_del_ipfrag

text \<open>The sizes of the two structures depend on the compiler. \<open>fe_raw\<close> is what the stack holds where \<open>ip_frag\<close>
  puts the data of a new group together.\<close>

record frag_env =
  fe_CAP_HRD_LEN :: u32
  fe_INFO_ETH_SIZE :: u32
  fe_now :: int
  fe_malloc :: "addr set \<Rightarrow> addr"
  fe_raw :: u64

record frag =
  fr_nifo :: nifo
  fr_hash :: hasho
  fr_frag :: "offset \<rightharpoonup> ipfrag"
  fr_cap :: "offset \<rightharpoonup> caphead"
  fr_eth :: "offset \<rightharpoonup> infoeth"

type_synonym fragw = "frag \<times> frag_timer_fn timerNinfo"

definition ip_frag_key_bytes :: "ipfragkey \<Rightarrow> u8 list" where
  "ip_frag_key_bytes k = le32_bytes (fk_sip k) @ le32_bytes (fk_dip k) @ le16_bytes (fk_identification k)"

text \<open>The bytes of the packed \<open>IP_FRAG\<close>, as \<open>hasho_add\<close> copies them.\<close>

definition ip_frag_bytes :: "ipfrag \<Rightarrow> u8 list" where
  "ip_frag_bytes f = le32_bytes (ucast (fi_timerNID f)) @ le32_bytes (ucast (drop_bit 32 (fi_timerNID f))) @
     le16_bytes (fi_cnt f) @ le16_bytes (fi_finish f) @
     le32_bytes (word_of_int (fi_offset_NODE f)) @ le32_bytes (word_of_int (fi_offset_NODE f div 2 ^ 32))"

definition ip_frag_key :: "infoeth \<Rightarrow> ipfragkey" where
  "ip_frag_key eth = \<lparr>fk_sip = ip_dwSrcIP (ie_stIP eth), fk_dip = ip_dwDestIP (ie_stIP eth),
     fk_identification = ip_usIdent (ie_stIP eth)\<rparr>"

definition ip_frag_offset :: "infoeth \<Rightarrow> u16" where
  "ip_frag_offset eth = (ip_usIPFrag (ie_stIP eth) AND IP_FRAG_OFFSET) * 8"

definition ip_frag_more :: "infoeth \<Rightarrow> u16" where
  "ip_frag_more eth = ip_usIPFrag (ie_stIP eth) AND IP_FRAG_MORE"

text \<open>The size of the payload of the IP packet, an \<open>int\<close>.\<close>

definition ip_frag_size :: "infoeth \<Rightarrow> int" where
  "ip_frag_size eth = uint (ip_wTotalLength (ie_stIP eth)) - uint (ip_wIPHeaderLen (ie_stIP eth))"

text \<open>The \<open>INFO_ETH\<close> of a node; NULL is dereferenced.\<close>

definition ip_frag_eth :: "frag \<Rightarrow> offset \<Rightarrow> infoeth option" where
  "ip_frag_eth s p = do { r \<leftarrow> nifo_get_value (fr_nifo s) INFO_ETH_NUM p; v \<leftarrow> r; fr_eth s v }"

definition frag_on_nifo :: "frag \<Rightarrow> (nifo \<Rightarrow> nifo option) \<Rightarrow> frag option" where
  "frag_on_nifo s f = do { nf \<leftarrow> f (fr_nifo s); Some (s\<lparr>fr_nifo := nf\<rparr>) }"

definition ip_frag_upd :: "frag \<Rightarrow> offset \<Rightarrow> (ipfrag \<Rightarrow> ipfrag) \<Rightarrow> frag option" where
  "ip_frag_upd s d f = do { x \<leftarrow> fr_frag s d; Some (s\<lparr>fr_frag := (fr_frag s)(d \<mapsto> f x)\<rparr>) }"

section \<open>The list of the fragments\<close>

text \<open>\<open>ip_frag_sort\<close> looks for the place of \<open>pNODE\<close> from the last fragment on, over \<open>node_cnt\<close> fragments, and
  answers the new first one.\<close>

fun ip_frag_sort_loop :: "frag \<Rightarrow> offset \<Rightarrow> offset \<Rightarrow> u16 \<Rightarrow> nat \<Rightarrow> offset \<Rightarrow> (frag \<times> offset) option" where
  "ip_frag_sort_loop s pHEAD pNODE ipfrag_offset 0 pPREV = do {
     s1 \<leftarrow> frag_on_nifo s (\<lambda>nf. nifo_node_link_nont_prev nf pHEAD pNODE);
     Some (s1, pNODE)
   }"
| "ip_frag_sort_loop s pHEAD pNODE ipfrag_offset (Suc left) pPREV = do {
     p \<leftarrow> nifo_nont_prev (fr_nifo s) pPREV;
     eth \<leftarrow> ip_frag_eth s p;
     if ipfrag_offset > ip_frag_offset eth then do {
       s1 \<leftarrow> frag_on_nifo s (\<lambda>nf. nifo_node_link_nont_next nf p pNODE);
       Some (s1, pHEAD)
     } else ip_frag_sort_loop s pHEAD pNODE ipfrag_offset left p
   }"

definition ip_frag_sort :: "frag \<Rightarrow> offset \<Rightarrow> u16 \<Rightarrow> offset \<Rightarrow> u16 \<Rightarrow> (frag \<times> offset) option" where
  "ip_frag_sort s pHEAD node_cnt pNODE ipfrag_offset =
     (if pHEAD = 0 then None
      else ip_frag_sort_loop s pHEAD pNODE ipfrag_offset (unat node_cnt) pHEAD)"

text \<open>\<open>ip_frag_check_finish\<close>: 1 when each fragment starts where the one before it ends.\<close>

fun ip_frag_check_loop :: "frag \<Rightarrow> offset \<Rightarrow> int \<Rightarrow> nat \<Rightarrow> int option" where
  "ip_frag_check_loop s pNEXT total_size 0 = Some 1"
| "ip_frag_check_loop s pNEXT total_size (Suc left) = do {
     p \<leftarrow> nifo_nont_next (fr_nifo s) pNEXT;
     eth \<leftarrow> ip_frag_eth s p;
     if uint (ip_frag_offset eth) \<noteq> total_size then Some (-2)
     else ip_frag_check_loop s p (total_size + ip_frag_size eth) left
   }"

definition ip_frag_check_finish :: "frag \<Rightarrow> offset \<Rightarrow> u16 \<Rightarrow> int option" where
  "ip_frag_check_finish s pHEAD node_cnt = do {
     eth \<leftarrow> ip_frag_eth s pHEAD;
     if ip_frag_offset eth \<noteq> 0 then Some (-1)
     else ip_frag_check_loop s pHEAD (ip_frag_size eth) (unat node_cnt - 1)
   }"

text \<open>\<open>ip_frag_merge\<close> copies the frame of the first fragment and the payloads of the others into \<open>pRST\<close>. The loop
  appends at \<open>tlv->len\<close> behind \<open>pTMP\<close>; \<open>memcpy\<close> of a negative size is a fault.\<close>

fun ip_frag_merge_loop :: "frag \<Rightarrow> offset \<Rightarrow> offset \<Rightarrow> offset \<Rightarrow> int \<Rightarrow> nat \<Rightarrow> (frag \<times> int + frag \<times> int) option" where
  "ip_frag_merge_loop s pRST pTMP pNEXT len 0 = Some (Inr (s, len))"
| "ip_frag_merge_loop s pRST pTMP pNEXT len (Suc left) = do {
     p \<leftarrow> nifo_nont_next (fr_nifo s) pNEXT;
     eth \<leftarrow> ip_frag_eth s p;
     d \<leftarrow> nifo_get_value (fr_nifo s) ETH_DATA_NUM p;
     n \<leftarrow> nf_node (fr_nifo s) pRST;
     let dataLen = ip_frag_size eth;
     if nn_maxoffset n < nn_lastoffset n + dataLen then Some (Inl (s, -4))
     else if dataLen < 0 then None
     else do {
       bs \<leftarrow> (if dataLen = 0 then Some []
              else do { v \<leftarrow> d; Some (rd_bytes (nf_mem (fr_nifo s))
                          (v + DEF_MAC_SIZE + uint (ip_wIPHeaderLen (ie_stIP eth))) (nat dataLen)) });
       let tlvlen = nifo_tlv_len (fr_nifo s) (pTMP - TLV_SIZE);
       let mem1 = wr_bytes (nf_mem (fr_nifo s)) (pTMP + uint tlvlen) bs;
       let mem2 = wr_bytes mem1 (pTMP - TLV_SIZE + 4) (le32_bytes (tlvlen + word_of_int dataLen));
       let nf1 = (fr_nifo s)\<lparr>nf_node := (nf_node (fr_nifo s))(pRST \<mapsto> n\<lparr>nn_lastoffset := nn_lastoffset n + dataLen\<rparr>),
                             nf_mem := mem2\<rparr>;
       ip_frag_merge_loop (s\<lparr>fr_nifo := nf1\<rparr>) pRST pTMP p (len + dataLen) left
     }
   }"

text \<open>A record of the result: NULL when the node has no room.\<close>

definition ip_frag_alloc :: "frag \<Rightarrow> offset \<Rightarrow> u32 \<Rightarrow> u32 \<Rightarrow> (frag \<times> offset option) option" where
  "ip_frag_alloc s pRST type len = do {
     (nf, r) \<leftarrow> nifo_tlv_alloc (fr_nifo s) pRST type len 0;
     Some (s\<lparr>fr_nifo := nf\<rparr>, r)
   }"

text \<open>The frame of the result, once its two structures are there.\<close>

definition ip_frag_merge_data ::
  "frag \<Rightarrow> offset \<Rightarrow> u16 \<Rightarrow> offset \<Rightarrow> offset \<Rightarrow> offset \<Rightarrow> offset option \<Rightarrow> caphead \<Rightarrow> infoeth \<Rightarrow> (frag \<times> int) option" where
  "ip_frag_merge_data s pHEAD node_cnt pRST pRCAPHEAD pRINFOETH pDATA cap eth = do {
     (s1, r) \<leftarrow> ip_frag_alloc s pRST ETH_DATA_NUM (word_of_int (cp_datalen cap));
     case r of
       None \<Rightarrow> Some (s1, -3)
     | Some pTMP \<Rightarrow> do {
         pd \<leftarrow> pDATA;
         let nf = fr_nifo s1;
         let s2 = s1\<lparr>fr_nifo := nf\<lparr>nf_mem := wr_bytes (nf_mem nf) pTMP (rd_bytes (nf_mem nf) pd (nat (cp_datalen cap)))\<rparr>\<rparr>;
         x \<leftarrow> ip_frag_merge_loop s2 pRST pTMP pHEAD (uint (ut_wDataLen (ie_stUDPTCP eth))) (unat node_cnt - 1);
         case x of
           Inl y \<Rightarrow> Some y
         | Inr (s3, len) \<Rightarrow> do {
             reth \<leftarrow> fr_eth s3 pRINFOETH;
             rcap \<leftarrow> fr_cap s3 pRCAPHEAD;
             Some (s3\<lparr>fr_eth := (fr_eth s3)(pRINFOETH \<mapsto>
                        reth\<lparr>ie_stUDPTCP := (ie_stUDPTCP reth)\<lparr>ut_wDataLen := word_of_int len\<rparr>\<rparr>),
                      fr_cap := (fr_cap s3)(pRCAPHEAD \<mapsto> rcap\<lparr>cp_datalen := len\<rparr>)\<rparr>, 0)
           }
       }
   }"

definition ip_frag_merge :: "frag_env \<Rightarrow> frag \<Rightarrow> offset \<Rightarrow> u16 \<Rightarrow> offset \<Rightarrow> (frag \<times> int) option" where
  "ip_frag_merge e s pHEAD node_cnt pRST = do {
     pCAPHEAD \<leftarrow> nifo_get_value (fr_nifo s) CAP_HEADER_NUM pHEAD;
     pINFOETH \<leftarrow> nifo_get_value (fr_nifo s) INFO_ETH_NUM pHEAD;
     pDATA \<leftarrow> nifo_get_value (fr_nifo s) ETH_DATA_NUM pHEAD;
     (s1, r1) \<leftarrow> ip_frag_alloc s pRST CAP_HEADER_NUM (fe_CAP_HRD_LEN e);
     case r1 of
       None \<Rightarrow> Some (s1, -1)
     | Some pRCAPHEAD \<Rightarrow> do {
         pc \<leftarrow> pCAPHEAD;
         cap \<leftarrow> fr_cap s1 pc;
         (s2, r2) \<leftarrow> ip_frag_alloc (s1\<lparr>fr_cap := (fr_cap s1)(pRCAPHEAD \<mapsto> cap)\<rparr>) pRST INFO_ETH_NUM (fe_INFO_ETH_SIZE e);
         case r2 of
           None \<Rightarrow> Some (s2, -2)
         | Some pRINFOETH \<Rightarrow> do {
             pe \<leftarrow> pINFOETH;
             eth \<leftarrow> fr_eth s2 pe;
             ip_frag_merge_data (s2\<lparr>fr_eth := (fr_eth s2)(pRINFOETH \<mapsto> eth)\<rparr>) pHEAD node_cnt pRST pRCAPHEAD pRINFOETH
               pDATA cap eth
           }
       }
   }"

section \<open>Groups\<close>

text \<open>The timer of a group fires: the group is dropped.\<close>

definition invoke_del_ipfrag :: "u8 list \<Rightarrow> frag \<Rightarrow> frag option" where
  "invoke_del_ipfrag arg s = do {
     let key = take 10 arg;
     r \<leftarrow> hasho_find (fr_hash s) key;
     case r of
       None \<Rightarrow> Some s
     | Some p \<Rightarrow> do {
         d \<leftarrow> hasho_data_at (fr_hash s) p;
         f \<leftarrow> fr_frag s d;
         if fi_offset_NODE f = 0 then None
         else do {
           s1 \<leftarrow> frag_on_nifo s (\<lambda>nf. nifo_node_delete nf (fi_offset_NODE f));
           h \<leftarrow> hasho_del (fr_hash s1) key;
           Some (s1\<lparr>fr_hash := h\<rparr>)
         }
       }
   }"

definition frag_call :: "frag_timer_fn \<Rightarrow> u8 list \<Rightarrow> fragw \<Rightarrow> fragw option" where
  "frag_call f arg w = (case w of (s, t) \<Rightarrow> case f of Invoke_del_ipfrag \<Rightarrow>
     map_option (\<lambda>s'. (s', t)) (invoke_del_ipfrag arg s))"

text \<open>The first fragment to arrive: where its data is, or NULL when the table takes no more.\<close>

definition ip_frag_new :: "frag_env \<Rightarrow> fragw \<Rightarrow> ipfragkey \<Rightarrow> infoeth \<Rightarrow> offset \<Rightarrow> (fragw \<times> (offset \<times> offset) option) option" where
  "ip_frag_new e w key eth pNODE = (case w of (s, t) \<Rightarrow> do {
     let f = \<lparr>fi_timerNID = fe_raw e, fi_cnt = 1,
              fi_finish = (if ip_frag_more eth = 0 then DEF_IPFRAG_FINISH else DEF_IPFRAG_NOT_FINISH),
              fi_offset_NODE = pNODE\<rparr>;
     (h, r) \<leftarrow> hasho_add (fe_now e) (fr_hash s) (ip_frag_key_bytes key) (ip_frag_bytes f);
     case r of
       None \<Rightarrow> do {
         s1 \<leftarrow> frag_on_nifo (s\<lparr>fr_hash := h\<rparr>) (\<lambda>nf. nifo_node_delete nf pNODE);
         Some ((s1, t), None)
       }
     | Some p \<Rightarrow> do {
         d \<leftarrow> hasho_data_at h p;
         let s1 = s\<lparr>fr_hash := h, fr_frag := (fr_frag s)(d \<mapsto> f)\<rparr>;
         ((s2, t2), nid) \<leftarrow> timerN_add frag_call (fe_malloc e) (s1, t) Invoke_del_ipfrag (ip_frag_key_bytes key)
                             (fe_now e + DEF_IP_FRAG_TIMEOUT);
         s3 \<leftarrow> ip_frag_upd s2 d (\<lambda>f. f\<lparr>fi_timerNID := nid\<rparr>);
         Some ((s3, t2), Some (d, pNODE))
       }
   })"

text \<open>A further fragment of the group whose data is at \<open>d\<close>.\<close>

definition ip_frag_have :: "frag_env \<Rightarrow> fragw \<Rightarrow> offset \<Rightarrow> infoeth \<Rightarrow> offset \<Rightarrow> (fragw \<times> (offset \<times> offset) option) option" where
  "ip_frag_have e w d eth pNODE = (case w of (s, t) \<Rightarrow> do {
     s1 \<leftarrow> ip_frag_upd s d (\<lambda>f. if ip_frag_more eth = 0 then f\<lparr>fi_finish := DEF_IPFRAG_FINISH\<rparr> else f);
     f \<leftarrow> fr_frag s1 d;
     (s2, pHEAD) \<leftarrow> ip_frag_sort s1 (fi_offset_NODE f) (fi_cnt f) pNODE (ip_frag_offset eth);
     s3 \<leftarrow> ip_frag_upd s2 d (\<lambda>f. f\<lparr>fi_offset_NODE := pHEAD, fi_cnt := fi_cnt f + 1\<rparr>);
     f3 \<leftarrow> fr_frag s3 d;
     ((s4, t4), nid) \<leftarrow> timerN_update frag_call (s3, t) (fi_timerNID f3) (fe_now e + DEF_IP_FRAG_TIMEOUT);
     s5 \<leftarrow> ip_frag_upd s4 d (\<lambda>f. f\<lparr>fi_timerNID := nid\<rparr>);
     Some ((s5, t4), Some (d, pHEAD))
   })"

text \<open>A complete group is merged into a new node, if one is left.\<close>

definition ip_frag_collect :: "frag_env \<Rightarrow> frag \<Rightarrow> offset \<Rightarrow> u16 \<Rightarrow> (frag \<times> offset option) option" where
  "ip_frag_collect e s pHEAD cnt = do {
     (nf, r) \<leftarrow> nifo_node_alloc (fr_nifo s) (fe_now e);
     let s1 = s\<lparr>fr_nifo := nf\<rparr>;
     case r of
       None \<Rightarrow> Some (s1, None)
     | Some q \<Rightarrow> do {
         (s2, rst) \<leftarrow> ip_frag_merge e s1 pHEAD cnt q;
         if rst < 0 then do {
           s3 \<leftarrow> frag_on_nifo s2 (\<lambda>nf. nifo_node_delete nf q);
           Some (s3, None)
         } else Some (s2, Some q)
       }
   }"

text \<open>The group is released in any case. Its timer is read from the data of the node that the table has just
  released.\<close>

definition ip_frag_finish :: "frag_env \<Rightarrow> fragw \<Rightarrow> ipfragkey \<Rightarrow> offset \<Rightarrow> offset \<Rightarrow> (fragw \<times> offset option) option" where
  "ip_frag_finish e w key d pHEAD = (case w of (s, t) \<Rightarrow> do {
     f \<leftarrow> fr_frag s d;
     (s2, pRST) \<leftarrow> ip_frag_collect e s pHEAD (fi_cnt f);
     s3 \<leftarrow> frag_on_nifo s2 (\<lambda>nf. nifo_node_delete nf pHEAD);
     h \<leftarrow> hasho_del (fr_hash s3) (ip_frag_key_bytes key);
     f3 \<leftarrow> fr_frag s3 d;
     t1 \<leftarrow> timerN_del t (fi_timerNID f3);
     Some ((s3\<lparr>fr_hash := h\<rparr>, t1), pRST)
   })"

text \<open>A fragment joins the group of its datagram.\<close>

definition ip_frag_join :: "frag_env \<Rightarrow> fragw \<Rightarrow> infoeth \<Rightarrow> offset \<Rightarrow> (fragw \<times> (offset \<times> offset) option) option" where
  "ip_frag_join e w eth pNODE = do {
     r \<leftarrow> hasho_find (fr_hash (fst w)) (ip_frag_key_bytes (ip_frag_key eth));
     case r of
       None \<Rightarrow> ip_frag_new e w (ip_frag_key eth) eth pNODE
     | Some p \<Rightarrow> do { d \<leftarrow> hasho_data_at (fr_hash (fst w)) p; ip_frag_have e w d eth pNODE }
   }"

definition ip_frag :: "frag_env \<Rightarrow> fragw \<Rightarrow> infoeth \<Rightarrow> offset \<Rightarrow> (fragw \<times> offset option) option" where
  "ip_frag e w eth pNODE = do {
     (w1, g) \<leftarrow> ip_frag_join e w eth pNODE;
     case g of
       None \<Rightarrow> Some (w1, None)
     | Some (d, pHEAD) \<Rightarrow> do {
         f \<leftarrow> fr_frag (fst w1) d;
         if fi_finish f = DEF_IPFRAG_FINISH \<and> fi_cnt f > 1 then do {
           rst \<leftarrow> ip_frag_check_finish (fst w1) pHEAD (fi_cnt f);
           if rst > 0 then ip_frag_finish e w1 (ip_frag_key eth) d pHEAD else Some (w1, None)
         } else Some (w1, None)
       }
   }"

section \<open>Restart\<close>

text \<open>After a restart the groups of the shared table get their timers again.\<close>

partial_function (option) ip_frag_rebuild_chain :: "frag_env \<Rightarrow> fragw \<Rightarrow> offset \<Rightarrow> fragw option" where
  "ip_frag_rebuild_chain e w offset =
     (if offset = 0 then Some w
      else do {
        n \<leftarrow> ho_node (fr_hash (fst w)) offset;
        hdr \<leftarrow> gm_hdr (ho_memg (fr_hash (fst w))) (offset + gi_offsetHeadRoom (ho_memg (fr_hash (fst w))) - stMEMGNODEHDR_SIZE);
        (s1, t1) \<leftarrow> (if MEMG_ID = gh_uiID hdr \<and> MEMG_ALLOCED = gh_ucIsFree hdr then do {
            ((s1, t1), nid) \<leftarrow> timerN_add frag_call (fe_malloc e) w Invoke_del_ipfrag (hasho_key_at (fr_hash (fst w)) n)
                                (fe_now e + DEF_IP_FRAG_TIMEOUT);
            s2 \<leftarrow> ip_frag_upd s1 (offset_Data n) (\<lambda>f. f\<lparr>fi_timerNID := nid\<rparr>);
            Some (s2, t1)
          } else Some w);
        n1 \<leftarrow> ho_node (fr_hash s1) offset;
        ip_frag_rebuild_chain e (s1, t1) (offset_next n1)
      })"

fun ip_frag_rebuild_loop :: "frag_env \<Rightarrow> fragw \<Rightarrow> nat \<Rightarrow> nat \<Rightarrow> fragw option" where
  "ip_frag_rebuild_loop e w i 0 = Some w"
| "ip_frag_rebuild_loop e w i (Suc left) = do {
     offset \<leftarrow> hasho_head (fr_hash (fst w)) (int i);
     w1 \<leftarrow> ip_frag_rebuild_chain e w offset;
     ip_frag_rebuild_loop e w1 (Suc i) left
   }"

definition vIPFRAGTimerReConstruct :: "frag_env \<Rightarrow> fragw \<Rightarrow> fragw option" where
  "vIPFRAGTimerReConstruct e w = ip_frag_rebuild_loop e w 0 (unat (ho_uiHashSize (fr_hash (fst w))))"

end
