(* ===== verification/FragOrder.thy ===== *)
theory FragOrder
  imports Frag NifoBatch
begin

text \<open>
  The list of the fragments of a datagram: \<open>ip_frag_sort\<close> inserts by the position in the datagram as \<open>insort_key\<close>
  does, and \<open>ip_frag_check_finish\<close> accepts a group in order exactly when it tiles the datagram.
\<close>

section \<open>Fragments in order\<close>

text \<open>The \<open>INFO_ETH\<close> of a message, where its payload starts in the datagram and how long it is.\<close>

definition frag_read :: "frag \<Rightarrow> offset list \<Rightarrow> bool" where
  "frag_read s c \<longleftrightarrow> ip_frag_eth s (hd c) \<noteq> None"

definition frag_info :: "frag \<Rightarrow> offset list \<Rightarrow> infoeth" where
  "frag_info s c = the (ip_frag_eth s (hd c))"

definition frag_pos :: "frag \<Rightarrow> offset list \<Rightarrow> int" where
  "frag_pos s c = uint (ip_frag_offset (frag_info s c))"

definition frag_size :: "frag \<Rightarrow> offset list \<Rightarrow> int" where
  "frag_size s c = ip_frag_size (frag_info s c)"

definition frag_links :: "frag \<Rightarrow> clists \<Rightarrow> frag" where
  "frag_links s h = s\<lparr>fr_nifo := (fr_nifo s)\<lparr>nf_link := h\<rparr>\<rparr>"

lemma frag_readD: "frag_read s c \<Longrightarrow> ip_frag_eth s (hd c) = Some (frag_info s c)"
  by (auto simp: frag_read_def frag_info_def)

text \<open>What is read from a fragment depends on the contents of its node only.\<close>

lemma ip_frag_eth_same:
  "nifo_same (fr_nifo s) (fr_nifo s') \<Longrightarrow> fr_eth s' = fr_eth s \<Longrightarrow> ip_frag_eth s' p = ip_frag_eth s p"
  using nifo_same_value [of "fr_nifo s" "fr_nifo s'" INFO_ETH_NUM p] by (simp add: ip_frag_eth_def)

lemma frag_links_simps [simp]:
  "fr_nifo (frag_links s h) = (fr_nifo s)\<lparr>nf_link := h\<rparr>" "fr_hash (frag_links s h) = fr_hash s"
  "fr_frag (frag_links s h) = fr_frag s" "fr_cap (frag_links s h) = fr_cap s" "fr_eth (frag_links s h) = fr_eth s"
  by (simp_all add: frag_links_def)

lemma frag_links_eth [simp]: "ip_frag_eth (frag_links s h) p = ip_frag_eth s p"
  by (rule ip_frag_eth_same) simp_all

lemma frag_links_info [simp]:
  "frag_read (frag_links s h) c = frag_read s c" "frag_info (frag_links s h) c = frag_info s c"
  "frag_pos (frag_links s h) c = frag_pos s c" "frag_size (frag_links s h) c = frag_size s c"
  by (simp_all add: frag_read_def frag_info_def frag_pos_def frag_size_def)

text \<open>The place that is found from the end is the one of \<open>insort_key\<close>.\<close>

lemma insort_key_mid:
  "sorted (map f xs) \<Longrightarrow> (xs \<noteq> [] \<Longrightarrow> f (last xs) < f x) \<Longrightarrow> \<forall>y \<in> set ys. f x \<le> f y \<Longrightarrow>
   insort_key f x (xs @ ys) = xs @ x # ys"
proof (induction xs)
  case Nil
  then show ?case by (cases ys) simp_all
next
  case (Cons a xs)
  have "f a \<le> f (last (a # xs))" using Cons.prems(1) by auto
  then have "f a < f x" using Cons.prems(2) by simp
  moreover have "insort_key f x (xs @ ys) = xs @ x # ys"
    by (rule Cons.IH) (use Cons.prems in \<open>auto split: if_splits\<close>)
  ultimately show ?case by auto
qed

lemma frag_prev:
  assumes "nifo_lists nf ((xs @ ys) # rest)" "xs \<noteq> []" "p = hd (hd (if ys = [] then xs else ys))"
  shows "nifo_nont_prev nf p = Some (hd (last xs))"
proof (cases ys)
  case Nil
  have "nifo_lists nf (([] @ hd xs # tl xs) # rest)" using assms(1,2) Nil by simp
  from nifo_nont_prev_ok [OF this] show ?thesis
    using assms(2,3) Nil by (auto simp: nifo_nont_prev_def)
next
  case (Cons y zs)
  have "nifo_lists nf ((xs @ y # zs) # rest)" using assms(1) Cons by simp
  from nifo_nont_prev_ok [OF this] show ?thesis
    using assms(2,3) Cons by (auto simp: nifo_nont_prev_def)
qed

lemma ip_frag_sort_loop_ok:
  assumes "nifo_lists (fr_nifo s) ((xs @ ys) # [n] # rest)" "xs @ ys \<noteq> []" "\<forall>c \<in> set (n # xs @ ys). frag_read s c"
    "sorted (map (frag_pos s) (xs @ ys))" "\<forall>c \<in> set ys. frag_pos s n \<le> frag_pos s c"
  shows "\<exists>h. ip_frag_sort_loop s (hd (hd (xs @ ys))) (hd n) (ip_frag_offset (frag_info s n)) (length xs)
       (hd (hd (if ys = [] then xs else ys))) = Some (frag_links s h, hd (hd (insort_key (frag_pos s) n (xs @ ys)))) \<and>
     nifo_lists (fr_nifo (frag_links s h)) (insort_key (frag_pos s) n (xs @ ys) # rest)"
  using assms
proof (induction xs arbitrary: ys rule: rev_induct)
  case Nil
  then obtain y zs where ys: "ys = y # zs" by (cases ys) auto
  have ins: "insort_key (frag_pos s) n ys = n # ys" using Nil(5) ys by simp
  obtain h where h: "nifo_node_link_nont_prev (fr_nifo s) (hd y) (hd n) = Some ((fr_nifo s)\<lparr>nf_link := h\<rparr>)"
    "nifo_lists ((fr_nifo s)\<lparr>nf_link := h\<rparr>) ((n # y # zs) # rest)"
    using nifo_link_nont_prev_ok [of "fr_nifo s" y zs n rest] Nil(1) ys by auto
  then show ?case
    using ins ys by (auto simp: frag_on_nifo_def frag_links_def)
next
  case (snoc x xs)
  have prev: "nifo_nont_prev (fr_nifo s) (hd (hd (if ys = [] then xs @ [x] else ys))) = Some (hd x)"
    using frag_prev [of "fr_nifo s" "xs @ [x]" ys "[n] # rest"] snoc.prems(1) by simp
  have x: "ip_frag_eth s (hd x) = Some (frag_info s x)" using snoc.prems(3) by (intro frag_readD) simp
  show ?case
  proof (cases "ip_frag_offset (frag_info s n) > ip_frag_offset (frag_info s x)")
    case True
    then have lt: "frag_pos s x < frag_pos s n" by (simp add: frag_pos_def word_less_def)
    have ins: "insort_key (frag_pos s) n ((xs @ [x]) @ ys) = (xs @ [x]) @ n # ys"
      using snoc.prems(4,5) lt by (intro insort_key_mid) (auto simp: sorted_append)
    obtain h where h: "nifo_node_link_nont_next (fr_nifo s) (hd x) (hd n) = Some ((fr_nifo s)\<lparr>nf_link := h\<rparr>)"
      "nifo_lists ((fr_nifo s)\<lparr>nf_link := h\<rparr>) ((xs @ x # n # ys) # rest)"
      using nifo_link_nont_next_ok [of "fr_nifo s" xs x ys n rest] snoc.prems(1) by auto
    have "hd (hd ((xs @ [x]) @ n # ys)) = hd (hd ((xs @ [x]) @ ys))" by (cases xs) simp_all
    then show ?thesis
      unfolding ins using h prev x True by (auto simp: frag_on_nifo_def frag_links_def)
  next
    case False
    then have ge: "frag_pos s n \<le> frag_pos s x" by (simp add: frag_pos_def word_less_def)
    have "\<exists>h. ip_frag_sort_loop s (hd (hd (xs @ x # ys))) (hd n) (ip_frag_offset (frag_info s n)) (length xs)
        (hd (hd (if x # ys = [] then xs else x # ys))) =
          Some (frag_links s h, hd (hd (insort_key (frag_pos s) n (xs @ x # ys)))) \<and>
        nifo_lists (fr_nifo (frag_links s h)) (insort_key (frag_pos s) n (xs @ x # ys) # rest)"
      by (rule snoc.IH) (use snoc.prems ge in auto)
    then show ?thesis using prev x False by simp
  qed
qed

lemma ip_frag_sort_ok:
  assumes "nifo_lists (fr_nifo s) (cs # [n] # rest)" "cs \<noteq> []" "\<forall>c \<in> set (n # cs). frag_read s c"
    "sorted (map (frag_pos s) cs)" "unat cnt = length cs" "hd (hd cs) \<noteq> 0"
  shows "\<exists>h. ip_frag_sort s (hd (hd cs)) cnt (hd n) (ip_frag_offset (frag_info s n)) =
       Some (frag_links s h, hd (hd (insort_key (frag_pos s) n cs))) \<and>
     nifo_lists (fr_nifo (frag_links s h)) (insort_key (frag_pos s) n cs # rest)"
  using ip_frag_sort_loop_ok [of s cs "[]" n rest] assms by (simp add: ip_frag_sort_def)

section \<open>The end of a group\<close>

text \<open>Each fragment starts where the one before it ends, the first one at \<open>tot\<close>.\<close>

fun frag_tiles :: "frag \<Rightarrow> int \<Rightarrow> offset list list \<Rightarrow> bool" where
  "frag_tiles s tot [] = True"
| "frag_tiles s tot (c # cs) = (frag_pos s c = tot \<and> frag_tiles s (tot + frag_size s c) cs)"

lemma ip_frag_check_loop_ok:
  assumes "nifo_lists (fr_nifo s) ((xs @ c # ys) # rest)" "\<forall>c \<in> set ys. frag_read s c"
  shows "ip_frag_check_loop s (hd c) tot (length ys) = Some (if frag_tiles s tot ys then 1 else -2)"
  using assms
proof (induction ys arbitrary: xs c tot)
  case (Cons y ys)
  have next1: "nifo_nont_next (fr_nifo s) (hd c) = Some (hd y)"
    using nifo_nont_next_ok [OF Cons.prems(1)] by simp
  have y: "ip_frag_eth s (hd y) = Some (frag_info s y)" using Cons.prems(2) by (intro frag_readD) simp
  have "ip_frag_check_loop s (hd y) (tot + frag_size s y) (length ys) =
      Some (if frag_tiles s (tot + frag_size s y) ys then 1 else -2)"
    by (rule Cons.IH [of "xs @ [c]"]) (use Cons.prems in simp_all)
  then show ?case using next1 y by (simp add: frag_pos_def frag_size_def)
qed simp

lemma ip_frag_check_ok:
  assumes "nifo_lists (fr_nifo s) (cs # rest)" "cs \<noteq> []" "\<forall>c \<in> set cs. frag_read s c" "unat cnt = length cs"
  shows "\<exists>r. ip_frag_check_finish s (hd (hd cs)) cnt = Some r \<and> (0 < r \<longleftrightarrow> frag_tiles s 0 cs)"
proof -
  obtain c ys where cs: "cs = c # ys" using assms(2) by (cases cs) auto
  have c: "ip_frag_eth s (hd c) = Some (frag_info s c)" using assms(3) cs by (intro frag_readD) simp
  have "ip_frag_check_loop s (hd c) (frag_size s c) (length ys) = Some (if frag_tiles s (frag_size s c) ys then 1 else -2)"
    by (rule ip_frag_check_loop_ok [where xs = "[]"]) (use assms cs in simp_all)
  then show ?thesis
    using c cs assms(4) by (auto simp: ip_frag_check_finish_def frag_pos_def frag_size_def uint_0_iff)
qed

text \<open>The fragments that have the byte at position \<open>x\<close> of the datagram.\<close>

definition frag_has :: "frag \<Rightarrow> offset list \<Rightarrow> int \<Rightarrow> bool" where
  "frag_has s c x \<longleftrightarrow> frag_pos s c \<le> x \<and> x < frag_pos s c + frag_size s c"

definition frag_hits :: "frag \<Rightarrow> offset list list \<Rightarrow> int \<Rightarrow> nat" where
  "frag_hits s cs x = length (filter (\<lambda>c. frag_has s c x) cs)"

lemma frag_hits_simps [simp]:
  "frag_hits s [] x = 0" "frag_hits s (c # cs) x = (if frag_has s c x then 1 else 0) + frag_hits s cs x"
  by (simp_all add: frag_hits_def)

lemma frag_hits_0: "frag_hits s cs x = 0 \<longleftrightarrow> (\<forall>c \<in> set cs. \<not> frag_has s c x)"
  by (simp add: frag_hits_def filter_empty_conv)

lemma frag_tiles_hits:
  assumes "\<forall>c \<in> set cs. 0 < frag_size s c" "frag_tiles s m cs"
  shows "\<exists>N \<ge> m. \<forall>x. frag_hits s cs x = (if m \<le> x \<and> x < N then 1 else 0)"
  using assms
proof (induction cs arbitrary: m)
  case (Cons c cs)
  have c: "frag_pos s c = m" "0 < frag_size s c" using Cons.prems by simp_all
  obtain N where N: "m + frag_size s c \<le> N"
    "\<forall>x. frag_hits s cs x = (if m + frag_size s c \<le> x \<and> x < N then 1 else 0)"
    using Cons.IH [of "m + frag_size s c"] Cons.prems by auto
  have "frag_hits s (c # cs) x = (if m \<le> x \<and> x < N then 1 else 0)" for x
    using N c by (auto simp: frag_has_def)
  then show ?case using N(1) c(2) by (intro exI [of _ N]) simp
qed auto

lemma frag_hits_tiles:
  assumes "\<forall>c \<in> set cs. 0 < frag_size s c" "sorted (map (frag_pos s) cs)"
    "\<forall>x. frag_hits s cs x = (if m \<le> x \<and> x < N then 1 else 0)"
  shows "frag_tiles s m cs"
  using assms
proof (induction cs arbitrary: m)
  case (Cons c cs)
  have size: "0 < frag_size s c" using Cons.prems(1) by simp
  have one: "m \<le> x \<and> x < N" "frag_hits s cs x = 0" if "frag_has s c x" for x
    using Cons.prems(3) [rule_format, of x] that by (auto split: if_splits)
  have "frag_has s c (frag_pos s c)" using size by (simp add: frag_has_def)
  note start = one [OF this]
  have pos: "frag_pos s c = m"
  proof (rule ccontr)
    assume "frag_pos s c \<noteq> m"
    then have "m < frag_pos s c" using start by simp
    then have "frag_hits s (c # cs) m = 0"
      unfolding frag_hits_0 using Cons.prems(2) by (fastforce simp: frag_has_def)
    then show False using Cons.prems(3) [rule_format, of m] start \<open>m < frag_pos s c\<close> by simp
  qed
  have "frag_tiles s (m + frag_size s c) cs"
  proof (rule Cons.IH)
    show "\<forall>x. frag_hits s cs x = (if m + frag_size s c \<le> x \<and> x < N then 1 else 0)"
    proof
      fix x
      show "frag_hits s cs x = (if m + frag_size s c \<le> x \<and> x < N then 1 else 0)"
        using Cons.prems(3) [rule_format, of x] one(2) [of x] pos size by (auto simp: frag_has_def split: if_splits)
    qed
  qed (use Cons.prems in auto)
  then show ?case using pos by simp
qed simp

text \<open>A group in order is gapless exactly when it has every byte of a datagram once and no other.\<close>

lemma frag_tiles_iff:
  assumes "\<forall>c \<in> set cs. 0 < frag_size s c" "sorted (map (frag_pos s) cs)"
  shows "frag_tiles s 0 cs \<longleftrightarrow> (\<exists>N. \<forall>x. frag_hits s cs x = (if 0 \<le> x \<and> x < N then 1 else 0))"
  using frag_tiles_hits [OF assms(1), of 0] frag_hits_tiles [OF assms] by blast

end
