(* ===== verification/FragMerge.thy ===== *)
theory FragMerge
  imports FragOrder HashoTable
begin

text \<open>
  The datagram put together: \<open>ip_frag_merge\<close> changes no more than the node of the result, and leaves there the
  frame of the first fragment followed by the payloads of the others, or fails when the node has no room for them.
\<close>

section \<open>Copying a group\<close>

definition frag_in :: "offset \<Rightarrow> frag \<Rightarrow> frag \<Rightarrow> bool" where
  "frag_in q s s' \<longleftrightarrow> nifo_in q (fr_nifo s) (fr_nifo s') \<and> fr_hash s' = fr_hash s \<and> fr_frag s' = fr_frag s \<and>
     (\<exists>n. nf_node (fr_nifo s) q = Some n \<and>
        (\<forall>a. a < q + NIFO_SIZE \<or> q + nn_maxoffset n \<le> a \<longrightarrow> fr_eth s' a = fr_eth s a \<and> fr_cap s' a = fr_cap s a))"

lemma frag_in_refl: "nifo_block (fr_nifo s) q \<Longrightarrow> frag_in q s s"
  by (auto simp: frag_in_def nifo_in_refl nifo_block_def)

lemma frag_in_trans: "frag_in q s t \<Longrightarrow> frag_in q t u \<Longrightarrow> frag_in q s u"
proof -
  assume a: "frag_in q s t" "frag_in q t u"
  have "nifo_in q (fr_nifo s) (fr_nifo u)" using a nifo_in_trans by (auto simp: frag_in_def)
  moreover obtain n n' where "nf_node (fr_nifo s) q = Some n" "nf_node (fr_nifo t) q = Some n'"
    "nn_maxoffset n' = nn_maxoffset n"
    using a(1) by (auto simp: frag_in_def nifo_in_def)
  ultimately show ?thesis using a by (simp add: frag_in_def)
qed

lemma frag_in_nifo: "frag_in q s s' \<Longrightarrow> nifo_in q (fr_nifo s) (fr_nifo s')"
  by (simp add: frag_in_def)

text \<open>A frame whose bytes are in the node, and the bytes of the payload that \<open>ip_frag_merge\<close> takes from it.\<close>

definition frag_data :: "frag \<Rightarrow> offset list \<Rightarrow> offset" where
  "frag_data s c = the (the (nifo_get_value (fr_nifo s) ETH_DATA_NUM (hd c)))"

definition frag_skip :: "frag \<Rightarrow> offset list \<Rightarrow> int" where
  "frag_skip s c = DEF_MAC_SIZE + uint (ip_wIPHeaderLen (ie_stIP (frag_info s c)))"

definition frag_bytes :: "frag \<Rightarrow> offset list \<Rightarrow> u8 list" where
  "frag_bytes s c = rd_bytes (nf_mem (fr_nifo s)) (frag_data s c + frag_skip s c) (nat (frag_size s c))"

definition frag_has_data :: "frag \<Rightarrow> offset list \<Rightarrow> int \<Rightarrow> bool" where
  "frag_has_data s c k \<longleftrightarrow> nifo_block (fr_nifo s) (hd c) \<and>
     nifo_get_value (fr_nifo s) ETH_DATA_NUM (hd c) = Some (Some (frag_data s c)) \<and> 0 \<le> k \<and>
     (\<exists>n. nf_node (fr_nifo s) (hd c) = Some n \<and> frag_data s c + k \<le> hd c + nn_maxoffset n)"

definition frag_frame :: "frag \<Rightarrow> offset list \<Rightarrow> bool" where
  "frag_frame s c \<longleftrightarrow> frag_read s c \<and> 0 \<le> frag_size s c \<and> frag_has_data s c (frag_skip s c + frag_size s c)"

lemma length_frag_bytes [simp]: "length (frag_bytes s c) = nat (frag_size s c)"
  by (simp add: frag_bytes_def)

lemma frag_skip_pos: "0 \<le> frag_skip s c"
  by (simp add: frag_skip_def DEF_MAC_SIZE_def)

text \<open>A message in another node is read as before.\<close>

lemma frag_in_addr:
  assumes "mems_wf (nf_mems (fr_nifo s))" "frag_in q s s'" "nifo_block (fr_nifo s) p" "p \<noteq> q"
    "nifo_get_value (fr_nifo s) t p = Some (Some v)"
  shows "nifo_get_value (fr_nifo s') t p = Some (Some v)" "fr_eth s' v = fr_eth s v" "fr_cap s' v = fr_cap s v"
proof -
  have q: "nifo_block (fr_nifo s) q" using assms(2) by (simp add: frag_in_def nifo_in_def)
  show "nifo_get_value (fr_nifo s') t p = Some (Some v)"
    using nifo_in_value(1) [OF assms(1) frag_in_nifo [OF assms(2)] assms(3,4)] assms(5) by simp
  obtain k n where k: "nf_node (fr_nifo s) p = Some k" "nf_node (fr_nifo s) q = Some n"
    "nn_lastoffset k \<le> nn_maxoffset k" "p + nn_maxoffset k + 36 \<le> q \<or> q + nn_maxoffset n + 36 \<le> p"
    by (rule nifo_blocks_apart [OF assms(1,3) q assms(4)]) (rule that)
  have "v < q + NIFO_SIZE \<or> q + nn_maxoffset n \<le> v"
    using nifo_value_range [OF k(1) assms(5)] k(3,4) by (auto simp: NIFO_SIZE_def)
  then show "fr_eth s' v = fr_eth s v" "fr_cap s' v = fr_cap s v" using assms(2) k(2) by (auto simp: frag_in_def)
qed

lemma frag_in_info:
  assumes "mems_wf (nf_mems (fr_nifo s))" "frag_in q s s'" "nifo_block (fr_nifo s) (hd c)" "hd c \<noteq> q" "frag_read s c"
  shows "ip_frag_eth s' (hd c) = ip_frag_eth s (hd c)" "frag_read s' c" "frag_info s' c = frag_info s c"
    "frag_pos s' c = frag_pos s c" "frag_size s' c = frag_size s c" "frag_skip s' c = frag_skip s c"
proof -
  obtain v where v: "nifo_get_value (fr_nifo s) INFO_ETH_NUM (hd c) = Some (Some v)"
    using assms(5) by (auto simp: frag_read_def ip_frag_eth_def bind_eq_Some_conv)
  show eth: "ip_frag_eth s' (hd c) = ip_frag_eth s (hd c)"
    using frag_in_addr [OF assms(1-4) v] v by (simp add: ip_frag_eth_def)
  then show "frag_read s' c" "frag_info s' c = frag_info s c"
    "frag_pos s' c = frag_pos s c" "frag_size s' c = frag_size s c" "frag_skip s' c = frag_skip s c"
    using assms(5) by (simp_all add: frag_read_def frag_info_def frag_pos_def frag_size_def frag_skip_def)
qed

lemma frag_in_data:
  assumes "mems_wf (nf_mems (fr_nifo s))" "frag_in q s s'" "hd c \<noteq> q" "frag_has_data s c k"
  shows "frag_has_data s' c k" "frag_data s' c = frag_data s c"
    "0 \<le> i \<Longrightarrow> i + int m \<le> k \<Longrightarrow>
       rd_bytes (nf_mem (fr_nifo s')) (frag_data s c + i) m = rd_bytes (nf_mem (fr_nifo s)) (frag_data s c + i) m"
proof -
  have blk: "nifo_block (fr_nifo s) (hd c)"
    and val: "nifo_get_value (fr_nifo s) ETH_DATA_NUM (hd c) = Some (Some (frag_data s c))"
    using assms(4) by (simp_all add: frag_has_data_def)
  show data: "frag_data s' c = frag_data s c"
    using frag_in_addr(1) [OF assms(1,2) blk assms(3) val] by (simp add: frag_data_def)
  obtain n where n: "nf_node (fr_nifo s) (hd c) = Some n" "nf_node (fr_nifo s') (hd c) = Some n"
    "\<And>a. hd c + NIFO_SIZE \<le> a \<Longrightarrow> a < hd c + nn_maxoffset n + 8 \<Longrightarrow> nf_mem (fr_nifo s') a = nf_mem (fr_nifo s) a"
    by (rule nifo_in_other [OF assms(1) frag_in_nifo [OF assms(2)] blk assms(3)]) (rule that)
  have end_c: "frag_data s c + k \<le> hd c + nn_maxoffset n" "hd c + NIFO_SIZE \<le> frag_data s c"
    using assms(4) n(1) nifo_value_range [OF n(1) val] by (auto simp: frag_has_data_def)
  show "frag_has_data s' c k"
    using assms(4) n(1,2) nifo_in_block [OF frag_in_nifo [OF assms(2)] blk] frag_in_addr(1) [OF assms(1,2) blk assms(3) val]
    by (auto simp: frag_has_data_def data)
  show "rd_bytes (nf_mem (fr_nifo s')) (frag_data s c + i) m = rd_bytes (nf_mem (fr_nifo s)) (frag_data s c + i) m"
    if "0 \<le> i" "i + int m \<le> k"
    by (rule rd_bytes_cong, rule n(3)) (use that end_c in linarith)+
qed

lemma frag_in_frame:
  assumes "mems_wf (nf_mems (fr_nifo s))" "frag_in q s s'" "hd c \<noteq> q" "frag_frame s c"
  shows "frag_frame s' c" "frag_bytes s' c = frag_bytes s c"
proof -
  have c: "frag_read s c" "0 \<le> frag_size s c" "frag_has_data s c (frag_skip s c + frag_size s c)"
    using assms(4) by (simp_all add: frag_frame_def)
  have "nifo_block (fr_nifo s) (hd c)" using c(3) by (simp add: frag_has_data_def)
  note i = frag_in_info [OF assms(1,2) this assms(3) c(1)] and d = frag_in_data [OF assms(1-3) c(3)]
  show "frag_frame s' c" using c i d(1) by (simp add: frag_frame_def)
  show "frag_bytes s' c = frag_bytes s c"
    unfolding frag_bytes_def i d(2) by (rule d(3)) (use c(2) frag_skip_pos in simp_all)
qed

definition frag_tail :: "frag \<Rightarrow> offset list list \<Rightarrow> u8 list" where
  "frag_tail s cs = concat (map (frag_bytes s) cs)"

lemma frag_tail_simps [simp]: "frag_tail s [] = []" "frag_tail s (c # cs) = frag_bytes s c @ frag_tail s cs"
  by (simp_all add: frag_tail_def)

lemma frag_tail_cong: "(\<And>c. c \<in> set cs \<Longrightarrow> frag_bytes s' c = frag_bytes s c) \<Longrightarrow> frag_tail s' cs = frag_tail s cs"
  by (induction cs) simp_all

definition frag_append :: "frag \<Rightarrow> offset \<Rightarrow> offset \<Rightarrow> nifonode \<Rightarrow> u8 list \<Rightarrow> frag" where
  "frag_append s q v n bs = s\<lparr>fr_nifo := nifo_extend_last (fr_nifo s) q v n bs\<rparr>"

lemma frag_append_simps [simp]:
  "fr_nifo (frag_append s q v n bs) = nifo_extend_last (fr_nifo s) q v n bs" "fr_hash (frag_append s q v n bs) = fr_hash s"
  "fr_frag (frag_append s q v n bs) = fr_frag s" "fr_cap (frag_append s q v n bs) = fr_cap s"
  "fr_eth (frag_append s q v n bs) = fr_eth s"
  by (simp_all add: frag_append_def)

text \<open>One turn of the loop.\<close>

lemma ip_frag_merge_loop_step:
  assumes "nifo_nont_next (fr_nifo s) (hd c) = Some (hd y)" "frag_frame s y" "nf_node (fr_nifo s) q = Some n"
  shows "ip_frag_merge_loop s q v (hd c) len (Suc k) =
    (if nn_maxoffset n < nn_lastoffset n + frag_size s y then Some (Inl (s, -4))
     else ip_frag_merge_loop (frag_append s q v n (frag_bytes s y)) q v (hd y) (len + frag_size s y) k)"
proof -
  have y: "ip_frag_eth s (hd y) = Some (frag_info s y)" "0 \<le> frag_size s y"
    and d: "nifo_get_value (fr_nifo s) ETH_DATA_NUM (hd y) = Some (Some (frag_data s y))"
    using assms(2) by (auto simp: frag_frame_def frag_has_data_def intro: frag_readD)
  have sz: "ip_frag_size (frag_info s y) = frag_size s y" by (simp add: frag_size_def)
  have int_len: "int (length (frag_bytes s y)) = frag_size s y" using y(2) by simp
  have word_len: "(of_nat (length (frag_bytes s y)) :: u32) = word_of_int (frag_size s y)"
    unfolding int_len [symmetric] by simp
  show ?thesis
  proof (cases "frag_size s y = 0")
    case True
    then have "frag_bytes s y = []" by (simp add: frag_bytes_def)
    then show ?thesis
      using assms(1,3) y d True by (simp add: sz frag_append_def nifo_extend_last_def Let_def)
  next
    case False
    have "rd_bytes (nf_mem (fr_nifo s)) (frag_data s y + DEF_MAC_SIZE + uint (ip_wIPHeaderLen (ie_stIP (frag_info s y))))
        (nat (frag_size s y)) = frag_bytes s y"
      by (simp add: frag_bytes_def frag_skip_def add.assoc)
    then show ?thesis
      using assms(1,3) y d False
      by (simp add: sz frag_append_def nifo_extend_last_def Let_def int_len word_len del: length_frag_bytes)
  qed
qed

text \<open>The loop appends the payloads as long as the node has room.\<close>

lemma ip_frag_merge_loop_ok:
  assumes "nifo_lists (fr_nifo s) ((xs @ c # ys) # rest)" "\<forall>y \<in> set ys. frag_frame s y \<and> hd y \<noteq> q"
    "nifo_block (fr_nifo s) q" "nf_node (fr_nifo s) q = Some n" "nn_maxoffset n = NIFO_SIZE + int cap" "cap < 2 ^ 31"
    "nifo_payload (fr_nifo s) q = A @ le32_bytes t @ le32_bytes (of_nat (length B)) @ B"
    "v = q + NIFO_SIZE + int (length A) + 8"
  shows "\<exists>r. ip_frag_merge_loop s q v (hd c) len (length ys) = Some r \<and>
    (case r of Inl (s', d) \<Rightarrow> d = -4 \<and> frag_in q s s' \<and> cap < nifo_fill (fr_nifo s) q + length (frag_tail s ys)
     | Inr (s', len') \<Rightarrow> frag_in q s s' \<and> nifo_fill (fr_nifo s) q + length (frag_tail s ys) \<le> cap \<and>
         len' = len + int (length (frag_tail s ys)) \<and> fr_eth s' = fr_eth s \<and> fr_cap s' = fr_cap s \<and>
         nifo_payload (fr_nifo s') q = A @ le32_bytes t @ le32_bytes (of_nat (length (B @ frag_tail s ys))) @ B @ frag_tail s ys)"
  using assms
proof (induction ys arbitrary: s xs c n B len)
  case Nil
  have "nifo_fill (fr_nifo s) q \<le> cap"
    using Nil.prems(3-5) by (auto simp: nifo_block_def nifo_fill_def)
  then show ?case using Nil.prems(3,7) by (simp add: frag_in_refl)
next
  case (Cons y ys)
  have wf: "mems_wf (nf_mems (fr_nifo s))" using nifo_listsD(1) [OF Cons.prems(1)] .
  have y: "frag_frame s y" "hd y \<noteq> q" "0 \<le> frag_size s y" using Cons.prems(2) by (auto simp: frag_frame_def)
  have next1: "nifo_nont_next (fr_nifo s) (hd c) = Some (hd y)" using nifo_nont_next_ok [OF Cons.prems(1)] by simp
  note step = ip_frag_merge_loop_step [OF next1 y(1) Cons.prems(4), of v len "length ys"]
  have last: "NIFO_SIZE \<le> nn_lastoffset n" "nn_lastoffset n \<le> nn_maxoffset n" "nn_lastoffset n = NIFO_SIZE + int (nifo_fill (fr_nifo s) q)"
    using Cons.prems(3,4) by (auto simp: nifo_block_def nifo_fill_def)
  show ?case
  proof (cases "nn_maxoffset n < nn_lastoffset n + frag_size s y")
    case True
    then show ?thesis
      using step last y(3) Cons.prems(5) frag_in_refl [OF Cons.prems(3)] by auto
  next
    case False
    let ?s = "frag_append s q v n (frag_bytes s y)"
    have len_y: "int (length (frag_bytes s y)) = frag_size s y" using y(3) by simp
    have room: "nn_lastoffset n + int (length (frag_bytes s y)) \<le> nn_maxoffset n" using False len_y by simp
    have fill: "nifo_fill (fr_nifo s) q = length A + 8 + length B" using arg_cong [OF Cons.prems(7), of length] by simp
    have B: "length B < 2 ^ 31" using Cons.prems(5,6) last fill by simp
    note ext = nifo_extend_last_ok [OF Cons.prems(3,4) room Cons.prems(7) B Cons.prems(8)]
    have frag_s: "frag_in q s ?s" using ext(1) Cons.prems(4) by (simp add: frag_in_def)
    have keep: "frag_frame ?s z \<and> frag_bytes ?s z = frag_bytes s z" if "z \<in> set (y # ys)" for z
    proof -
      have "frag_frame s z" "hd z \<noteq> q" using Cons.prems(2) that by blast+
      then show ?thesis using frag_in_frame [OF wf frag_s, of z] by blast
    qed
    then have tail: "frag_tail ?s ys = frag_tail s ys" by (intro frag_tail_cong) simp
    let ?n = "n\<lparr>nn_lastoffset := nn_lastoffset n + int (length (frag_bytes s y))\<rparr>"
    have node: "nf_node (fr_nifo ?s) q = Some ?n" by (simp add: nifo_extend_last_def)
    have fill': "nifo_fill (fr_nifo ?s) q = nifo_fill (fr_nifo s) q + length (frag_bytes s y)"
      unfolding nifo_fill_def [of "fr_nifo ?s"] node using last by (simp add: nat_add_distrib)
    have "\<exists>r. ip_frag_merge_loop ?s q v (hd y) (len + frag_size s y) (length ys) = Some r \<and>
      (case r of Inl (s', d) \<Rightarrow> d = -4 \<and> frag_in q ?s s' \<and> cap < nifo_fill (fr_nifo ?s) q + length (frag_tail ?s ys)
       | Inr (s', len') \<Rightarrow> frag_in q ?s s' \<and> nifo_fill (fr_nifo ?s) q + length (frag_tail ?s ys) \<le> cap \<and>
         len' = len + frag_size s y + int (length (frag_tail ?s ys)) \<and> fr_eth s' = fr_eth ?s \<and> fr_cap s' = fr_cap ?s \<and>
         nifo_payload (fr_nifo s') q = A @ le32_bytes t @ le32_bytes (of_nat (length ((B @ frag_bytes s y) @ frag_tail ?s ys))) @
           (B @ frag_bytes s y) @ frag_tail ?s ys)"
    proof (rule Cons.IH [where xs = "xs @ [c]" and n = ?n])
      show "nifo_lists (fr_nifo ?s) (((xs @ [c]) @ y # ys) # rest)"
        using nifo_in_lists [OF frag_in_nifo [OF frag_s]] Cons.prems(1) by simp
      show "\<forall>y \<in> set ys. frag_frame ?s y \<and> hd y \<noteq> q" using keep Cons.prems(2) by simp
      show "nifo_block (fr_nifo ?s) q" using ext(1) by (simp add: nifo_in_def)
      show "nn_maxoffset ?n = NIFO_SIZE + int cap" using Cons.prems(5) by simp
      show "nifo_payload (fr_nifo ?s) q = A @ le32_bytes t @ le32_bytes (of_nat (length (B @ frag_bytes s y))) @ B @ frag_bytes s y"
        using ext(2) by simp
    qed (use node Cons.prems(6,8) in simp_all)
    then obtain r where r: "ip_frag_merge_loop ?s q v (hd y) (len + frag_size s y) (length ys) = Some r"
      "case r of Inl (s', d) \<Rightarrow> d = -4 \<and> frag_in q ?s s' \<and> cap < nifo_fill (fr_nifo ?s) q + length (frag_tail ?s ys)
       | Inr (s', len') \<Rightarrow> frag_in q ?s s' \<and> nifo_fill (fr_nifo ?s) q + length (frag_tail ?s ys) \<le> cap \<and>
         len' = len + frag_size s y + int (length (frag_tail ?s ys)) \<and> fr_eth s' = fr_eth ?s \<and> fr_cap s' = fr_cap ?s \<and>
         nifo_payload (fr_nifo s') q = A @ le32_bytes t @ le32_bytes (of_nat (length ((B @ frag_bytes s y) @ frag_tail ?s ys))) @
           (B @ frag_bytes s y) @ frag_tail ?s ys" by blast
    have run: "ip_frag_merge_loop s q v (hd c) len (length (y # ys)) = Some r" using step False r(1) by simp
    show ?thesis
      unfolding run using r(2) frag_in_trans [OF frag_s] len_y
      by (cases r) (auto simp: tail fill' [unfolded frag_append_simps] simp del: length_frag_bytes)
  qed
qed

text \<open>The records of the result: where they are allocated and found again.\<close>

lemma nifo_value_at:
  assumes "nifo_block s q" "nifo_payload s q = nifo_encode rs @ le32_bytes t @ X" "t \<notin> fst ` set rs"
    "\<forall>(type, v) \<in> set rs. length v < 2 ^ 31"
  shows "nifo_get_value s t q = Some (Some (q + NIFO_SIZE + int (length (nifo_encode rs)) + 8))"
proof -
  obtain n where n: "nf_node s q = Some n" "nn_lastoffset n = NIFO_SIZE + int (nifo_fill s q)"
    using assms(1) by (auto simp: nifo_block_def nifo_fill_def)
  have lt: "length (nifo_encode rs) < nifo_fill s q" using arg_cong [OF assms(2), of length] by simp
  have ty: "nifo_tlv_type s (q + (NIFO_SIZE + int (length (nifo_encode rs)))) = t"
    using nifo_payload_slice [OF assms(2)] le32_of_bytes [of t "[]"] by (simp add: nifo_tlv_type_def add.assoc)
  have P: "nifo_payload s q = [] @ nifo_encode rs @ (le32_bytes t @ X)" using assms(2) by simp
  have "nifo_tlv_search s q (NIFO_SIZE + int (nifo_fill s q)) t NIFO_SIZE = Some (q + (NIFO_SIZE + int (length (nifo_encode rs))))"
    using nifo_search_skip [OF P assms(4,3)] lt ty by (simp, subst nifo_tlv_search.simps, simp)
  then show ?thesis using n by (simp add: nifo_get_value_def TLV_SIZE_def add.assoc)
qed

definition frag_room :: "frag \<Rightarrow> offset \<Rightarrow> nat \<Rightarrow> (u32 \<times> u8 list) list \<Rightarrow> bool" where
  "frag_room s q cap rs \<longleftrightarrow> nifo_block (fr_nifo s) q \<and> nifo_node_ok (fr_nifo s) cap q \<and>
     nifo_payload (fr_nifo s) q = nifo_encode rs \<and> (\<forall>(type, v) \<in> set rs. length v < 2 ^ 31)"

lemma frag_room_fill: "frag_room s q cap rs \<Longrightarrow> nifo_fill (fr_nifo s) q = length (nifo_encode rs)"
  using length_nifo_payload [of "fr_nifo s" q] by (simp add: frag_room_def)

lemma ip_frag_alloc_ok:
  assumes "frag_room s q cap rs" "cap < 2 ^ 31"
  shows "\<exists>nf r. ip_frag_alloc s q type len = Some (s\<lparr>fr_nifo := nf\<rparr>, r) \<and> frag_in q s (s\<lparr>fr_nifo := nf\<rparr>) \<and>
    (length (nifo_encode rs) + 8 + unat len \<le> cap \<longrightarrow> r = Some (q + NIFO_SIZE + int (length (nifo_encode rs)) + 8) \<and>
       (\<exists>w. length w = unat len \<and> frag_room (s\<lparr>fr_nifo := nf\<rparr>) q cap (rs @ [(type, w)]))) \<and>
    (cap < length (nifo_encode rs) + 8 + unat len \<longrightarrow> r = None)"
proof -
  note R = assms(1) [unfolded frag_room_def] and fill = frag_room_fill [OF assms(1)]
  obtain n where n: "nf_node (fr_nifo s) q = Some n" "nn_maxoffset n = NIFO_SIZE + int cap"
    "nn_lastoffset n = NIFO_SIZE + int (nifo_fill (fr_nifo s) q)"
    using R nifo_node_okD by metis
  have in_q: "frag_in q s (s\<lparr>fr_nifo := nf\<rparr>)" if "nifo_tlv_alloc (fr_nifo s) q type len 0 = Some (nf, r)" for nf r
    using nifo_in_alloc [OF _ that] R n(1) by (simp add: frag_in_def)
  show ?thesis
  proof (cases "length (nifo_encode rs) + 8 + unat len \<le> cap")
    case True
    then obtain nf old where a: "nifo_tlv_alloc (fr_nifo s) q type len 0 =
        Some (nf, Some (q + NIFO_SIZE + int (nifo_fill (fr_nifo s) q) + TLV_SIZE))"
      "nifo_node_ok nf cap q" "length old = unat len"
      "nifo_payload nf q = nifo_payload (fr_nifo s) q @ le32_bytes type @ le32_bytes len @ old"
      using nifo_tlv_alloc_ok [of "fr_nifo s" cap q len type 0] R fill by (auto simp: DEF_MEMSET_ON_def)
    have "frag_room (s\<lparr>fr_nifo := nf\<rparr>) q cap (rs @ [(type, old)])"
      using a(2-4) R True assms(2) in_q [OF a(1)] by (auto simp: frag_room_def nifo_encode_def frag_in_def nifo_in_def)
    then show ?thesis
      using a(1,3) in_q [OF a(1)] True fill
      by (intro exI [of _ nf] exI [of _ "Some (q + NIFO_SIZE + int (length (nifo_encode rs)) + 8)"])
        (auto simp: ip_frag_alloc_def TLV_SIZE_def)
  next
    case False
    have "uint len = int (unat len)" by (rule uint_nat)
    then have "nn_maxoffset n < nn_lastoffset n + TLV_SIZE + uint len"
      using False unfolding n(2,3) fill TLV_SIZE_def by linarith
    then have "nifo_tlv_alloc (fr_nifo s) q type len 0 = Some (fr_nifo s, None)"
      using n(1) by (simp add: nifo_tlv_alloc_def)
    then show ?thesis
      using in_q [of "fr_nifo s" None] False
      by (intro exI [of _ "fr_nifo s"] exI [of _ None]) (simp add: ip_frag_alloc_def)
  qed
qed

text \<open>Filling the last record.\<close>

lemma frag_fill_ok:
  assumes "frag_room s q cap (rs @ [(type, w)])" "length bs = length w" "v = q + NIFO_SIZE + int (length (nifo_encode rs)) + 8"
  shows "frag_room (s\<lparr>fr_nifo := (fr_nifo s)\<lparr>nf_mem := wr_bytes (nf_mem (fr_nifo s)) v bs\<rparr>\<rparr>) q cap (rs @ [(type, bs)])"
    "frag_in q s (s\<lparr>fr_nifo := (fr_nifo s)\<lparr>nf_mem := wr_bytes (nf_mem (fr_nifo s)) v bs\<rparr>\<rparr>)"
proof -
  let ?s' = "s\<lparr>fr_nifo := (fr_nifo s)\<lparr>nf_mem := wr_bytes (nf_mem (fr_nifo s)) v bs\<rparr>\<rparr>"
  note R = assms(1) [unfolded frag_room_def] and fill = frag_room_fill [OF assms(1)]
  let ?hdr = "nifo_encode rs @ le32_bytes type @ le32_bytes (of_nat (length w))"
  have P: "nifo_payload (fr_nifo s) q = ?hdr @ w" using R by (simp add: nifo_encode_def)
  have fill': "nifo_fill (fr_nifo s) q = length ?hdr + length w" using arg_cong [OF P, of length] by simp
  have fill_s': "nifo_fill (fr_nifo ?s') q = length ?hdr + length bs"
    using fill' assms(2) by (simp add: nifo_fill_def)
  have v: "v = q + NIFO_SIZE + int (length ?hdr)" using assms(3) by simp
  have blk: "nifo_block (fr_nifo ?s') q" using R by (simp add: nifo_block_def)
  have ok: "nifo_node_ok (fr_nifo ?s') cap q" using R by (simp add: nifo_node_ok_def)
  have "nifo_payload (fr_nifo s) q = [] @ ?hdr @ w" using P by simp
  from nifo_payload_slice [OF this]
  have "rd_bytes (nf_mem (fr_nifo s)) (q + NIFO_SIZE) (length ?hdr) = ?hdr" by simp
  then have "rd_bytes (nf_mem (fr_nifo ?s')) (q + NIFO_SIZE) (length ?hdr) = ?hdr"
    by (simp add: v rd_wr_other)
  moreover have "rd_bytes (nf_mem (fr_nifo ?s')) (q + NIFO_SIZE + int (length ?hdr)) (length bs) = bs"
    using rd_wr_same [of "nf_mem (fr_nifo s)" v bs] by (simp add: v)
  ultimately have "nifo_payload (fr_nifo ?s') q = ?hdr @ bs"
    unfolding nifo_payload_def fill_s' rd_bytes_add by simp
  then show "frag_room ?s' q cap (rs @ [(type, bs)])"
    using R blk ok assms(2) by (auto simp: frag_room_def nifo_encode_def)
  obtain n where n: "nf_node (fr_nifo s) q = Some n" "nn_lastoffset n = NIFO_SIZE + int (nifo_fill (fr_nifo s) q)"
    "nn_lastoffset n \<le> nn_maxoffset n" using R by (auto simp: nifo_block_def nifo_fill_def)
  have "wr_bytes (nf_mem (fr_nifo s)) v bs a = nf_mem (fr_nifo s) a" if "a < q + NIFO_SIZE \<or> q + nn_maxoffset n \<le> a" for a
    by (rule wr_bytes_other) (use that n(2,3) fill' assms(2) v in force)
  then show "frag_in q s ?s'" using R blk n(1) by (auto simp: frag_in_def nifo_in_def)
qed

text \<open>What \<open>ip_frag_merge\<close> needs of the first fragment, and the whole result.\<close>

definition frag_cap :: "frag \<Rightarrow> offset list \<Rightarrow> caphead" where
  "frag_cap s c = the (fr_cap s (the (the (nifo_get_value (fr_nifo s) CAP_HEADER_NUM (hd c)))))"

definition frag_first :: "frag \<Rightarrow> offset list \<Rightarrow> bool" where
  "frag_first s c \<longleftrightarrow> frag_read s c \<and> frag_has_data s c (cp_datalen (frag_cap s c)) \<and>
     (\<exists>a. nifo_get_value (fr_nifo s) CAP_HEADER_NUM (hd c) = Some (Some a) \<and> fr_cap s a = Some (frag_cap s c))"

definition frag_head :: "frag \<Rightarrow> offset list \<Rightarrow> u8 list" where
  "frag_head s c = rd_bytes (nf_mem (fr_nifo s)) (frag_data s c) (nat (cp_datalen (frag_cap s c)))"

definition frag_result :: "frag \<Rightarrow> offset \<Rightarrow> caphead \<Rightarrow> infoeth \<Rightarrow> u8 list \<Rightarrow> bool" where
  "frag_result s q cap eth bs \<longleftrightarrow>
     (\<exists>a. nifo_get_value (fr_nifo s) CAP_HEADER_NUM q = Some (Some a) \<and> fr_cap s a = Some cap) \<and>
     ip_frag_eth s q = Some eth \<and>
     (\<exists>w1 w2. nifo_payload (fr_nifo s) q = nifo_encode [(CAP_HEADER_NUM, w1), (INFO_ETH_NUM, w2), (ETH_DATA_NUM, bs)])"

definition frag_len :: "frag \<Rightarrow> infoeth \<Rightarrow> offset list list \<Rightarrow> int" where
  "frag_len s eth ys = uint (ut_wDataLen (ie_stUDPTCP eth)) + int (length (frag_tail s ys))"

definition frag_set_len :: "infoeth \<Rightarrow> int \<Rightarrow> infoeth" where
  "frag_set_len eth len = eth\<lparr>ie_stUDPTCP := (ie_stUDPTCP eth)\<lparr>ut_wDataLen := word_of_int len\<rparr>\<rparr>"

definition frag_merged_cap :: "frag \<Rightarrow> offset list list \<Rightarrow> caphead" where
  "frag_merged_cap s cs = (frag_cap s (hd cs))\<lparr>cp_datalen := frag_len s (frag_info s (hd cs)) (tl cs)\<rparr>"

definition frag_merged_eth :: "frag \<Rightarrow> offset list list \<Rightarrow> infoeth" where
  "frag_merged_eth s cs = frag_set_len (frag_info s (hd cs)) (frag_len s (frag_info s (hd cs)) (tl cs))"

definition frag_merged :: "frag \<Rightarrow> offset list list \<Rightarrow> u8 list" where
  "frag_merged s cs = frag_head s (hd cs) @ frag_tail s (tl cs)"

definition frag_fits :: "frag_env \<Rightarrow> frag \<Rightarrow> nat \<Rightarrow> offset list list \<Rightarrow> bool" where
  "frag_fits e s cap cs \<longleftrightarrow> 24 + unat (fe_CAP_HRD_LEN e) + unat (fe_INFO_ETH_SIZE e) + length (frag_merged s cs) \<le> cap"

lemma frag_nums [simp]: "CAP_HEADER_NUM \<noteq> INFO_ETH_NUM" "INFO_ETH_NUM \<noteq> CAP_HEADER_NUM" "CAP_HEADER_NUM \<noteq> ETH_DATA_NUM"
  "ETH_DATA_NUM \<noteq> CAP_HEADER_NUM" "INFO_ETH_NUM \<noteq> ETH_DATA_NUM" "ETH_DATA_NUM \<noteq> INFO_ETH_NUM"
  by (simp_all add: CAP_HEADER_NUM_def INFO_ETH_NUM_def ETH_DATA_NUM_def)

text \<open>A structure written at the start of a new record.\<close>

lemma frag_in_write:
  assumes "nifo_block (fr_nifo s) q" "nf_node (fr_nifo s) q = Some n" "q + NIFO_SIZE \<le> a" "a < q + nn_maxoffset n"
  shows "frag_in q s (s\<lparr>fr_cap := (fr_cap s)(a \<mapsto> x)\<rparr>)" "frag_in q s (s\<lparr>fr_eth := (fr_eth s)(a \<mapsto> y)\<rparr>)"
  using assms nifo_in_refl [OF assms(1)] by (auto simp: frag_in_def)

lemma frag_room_update [simp]:
  "frag_room (s\<lparr>fr_cap := x\<rparr>) q cap rs = frag_room s q cap rs" "frag_room (s\<lparr>fr_eth := y\<rparr>) q cap rs = frag_room s q cap rs"
  by (simp_all add: frag_room_def)

lemma frag_in_first:
  assumes "mems_wf (nf_mems (fr_nifo s))" "frag_in q s s'" "hd c \<noteq> q" "frag_first s c"
  shows "frag_first s' c" "frag_cap s' c = frag_cap s c" "frag_head s' c = frag_head s c" "frag_info s' c = frag_info s c"
proof -
  obtain a where a: "nifo_get_value (fr_nifo s) CAP_HEADER_NUM (hd c) = Some (Some a)" "fr_cap s a = Some (frag_cap s c)"
    "frag_read s c" "frag_has_data s c (cp_datalen (frag_cap s c))" using assms(4) by (auto simp: frag_first_def)
  have blk: "nifo_block (fr_nifo s) (hd c)" using a(4) by (simp add: frag_has_data_def)
  note v = frag_in_addr [OF assms(1,2) blk assms(3) a(1)] and d = frag_in_data [OF assms(1-3) a(4)]
  note i = frag_in_info [OF assms(1,2) blk assms(3) a(3)]
  show cap: "frag_cap s' c = frag_cap s c" unfolding frag_cap_def using v(1,3) a(1) by simp
  show "frag_first s' c" using v a i(2) d(1) cap by (simp add: frag_first_def)
  show "frag_info s' c = frag_info s c" by (rule i(3))
  show "frag_head s' c = frag_head s c"
    using d(3) [of 0 "nat (cp_datalen (frag_cap s c))"] a(4) by (simp add: frag_head_def cap d(2) frag_has_data_def)
qed

lemma frag_has_data_small:
  assumes "frag_has_data s c k"
  shows "unat (word_of_int k :: u32) = nat k"
proof -
  obtain n j where n: "nf_node (fr_nifo s) (hd c) = Some n" "frag_data s c + k \<le> hd c + nn_maxoffset n"
    "nn_maxoffset n = uint (mems_body (nf_mems (fr_nifo s)) j)"
    and v: "nifo_get_value (fr_nifo s) ETH_DATA_NUM (hd c) = Some (Some (frag_data s c))" "0 \<le> k"
    using assms by (auto simp: frag_has_data_def nifo_block_def)
  have "k < 2 ^ 32"
    using nifo_value_range [OF n(1) v(1)] n(2,3) uint_bounded [of "mems_body (nf_mems (fr_nifo s)) j"]
    by (simp add: NIFO_SIZE_def)
  then show ?thesis using v(2) by (simp add: unat_eq_nat_uint uint_word_of_int_small)
qed

lemma frag_in_max:
  assumes "frag_in q s t" "nf_node (fr_nifo s) q = Some n"
  obtains m where "nf_node (fr_nifo t) q = Some m" "nn_maxoffset m = nn_maxoffset n" "nifo_block (fr_nifo t) q"
  using assms by (auto simp: frag_in_def nifo_in_def)

text \<open>The payloads are copied behind the frame of the first fragment.\<close>

lemma ip_frag_merge_copy:
  assumes lists: "nifo_lists (fr_nifo s) ((c # ys) # rest)" and data: "frag_has_data s c (cp_datalen ch)"
    and frames: "\<forall>y \<in> set ys. frag_frame s y" and ne: "\<forall>y \<in> set (c # ys). hd y \<noteq> q" and cap: "cap < 2 ^ 31"
    and room: "frag_room s q cap (rs @ [(ETH_DATA_NUM, w)])" "length w = nat (cp_datalen ch)"
    and v: "v = q + NIFO_SIZE + int (length (nifo_encode rs)) + 8"
  defines "bs \<equiv> rd_bytes (nf_mem (fr_nifo s)) (frag_data s c) (nat (cp_datalen ch))"
  defines "s' \<equiv> s\<lparr>fr_nifo := (fr_nifo s)\<lparr>nf_mem := wr_bytes (nf_mem (fr_nifo s)) v bs\<rparr>\<rparr>"
  shows "\<exists>r. ip_frag_merge_loop s' q v (hd c) len (length ys) = Some r \<and>
    (case r of Inl (s1, d) \<Rightarrow> d = -4 \<and> frag_in q s s1 \<and>
         cap < length (nifo_encode rs) + 8 + nat (cp_datalen ch) + length (frag_tail s ys)
     | Inr (s1, len') \<Rightarrow> frag_in q s s1 \<and> length (nifo_encode rs) + 8 + nat (cp_datalen ch) + length (frag_tail s ys) \<le> cap \<and>
         len' = len + int (length (frag_tail s ys)) \<and> fr_eth s1 = fr_eth s \<and> fr_cap s1 = fr_cap s \<and>
         nifo_payload (fr_nifo s1) q = nifo_encode (rs @ [(ETH_DATA_NUM, bs @ frag_tail s ys)]))"
proof -
  have wf: "mems_wf (nf_mems (fr_nifo s))" by (rule nifo_listsD(1) [OF lists])
  have len_bs: "length bs = nat (cp_datalen ch)" by (simp add: bs_def)
  have room': "frag_room s' q cap (rs @ [(ETH_DATA_NUM, bs)])" and in': "frag_in q s s'"
    using frag_fill_ok [OF room(1) _ v, of bs] room(2) len_bs by (simp_all add: s'_def)
  have keep: "frag_frame s' y \<and> frag_bytes s' y = frag_bytes s y" if "y \<in> set ys" for y
  proof -
    have "frag_frame s y" "hd y \<noteq> q" using frames ne that by auto
    then show ?thesis using frag_in_frame [OF wf in', of y] by blast
  qed
  then have tail: "frag_tail s' ys = frag_tail s ys" by (intro frag_tail_cong) simp
  have fill: "nifo_fill (fr_nifo s') q = length (nifo_encode rs) + 8 + nat (cp_datalen ch)"
    using frag_room_fill [OF room'] len_bs by (simp add: nifo_encode_def)
  obtain n where n: "nf_node (fr_nifo s') q = Some n" "nn_maxoffset n = NIFO_SIZE + int cap"
    using room' by (auto simp: frag_room_def nifo_node_ok_def)
  have "\<exists>r. ip_frag_merge_loop s' q v (hd c) len (length ys) = Some r \<and>
    (case r of Inl (s1, d) \<Rightarrow> d = -4 \<and> frag_in q s' s1 \<and> cap < nifo_fill (fr_nifo s') q + length (frag_tail s' ys)
     | Inr (s1, len') \<Rightarrow> frag_in q s' s1 \<and> nifo_fill (fr_nifo s') q + length (frag_tail s' ys) \<le> cap \<and>
         len' = len + int (length (frag_tail s' ys)) \<and> fr_eth s1 = fr_eth s' \<and> fr_cap s1 = fr_cap s' \<and>
         nifo_payload (fr_nifo s1) q = nifo_encode rs @ le32_bytes ETH_DATA_NUM @
           le32_bytes (of_nat (length (bs @ frag_tail s' ys))) @ bs @ frag_tail s' ys)"
  proof (rule ip_frag_merge_loop_ok [where xs = "[]" and n = n])
    show "nifo_lists (fr_nifo s') (([] @ c # ys) # rest)" using nifo_in_lists [OF frag_in_nifo [OF in']] lists by simp
    show "\<forall>y \<in> set ys. frag_frame s' y \<and> hd y \<noteq> q" using keep ne by simp
    show "nifo_payload (fr_nifo s') q = nifo_encode rs @ le32_bytes ETH_DATA_NUM @ le32_bytes (of_nat (length bs)) @ bs"
      using room' by (simp add: frag_room_def nifo_encode_def)
  qed (use room' n cap v in \<open>simp_all add: frag_room_def\<close>)
  then obtain r where r: "ip_frag_merge_loop s' q v (hd c) len (length ys) = Some r"
    "case r of Inl (s1, d) \<Rightarrow> d = -4 \<and> frag_in q s' s1 \<and> cap < length (nifo_encode rs) + 8 + nat (cp_datalen ch) + length (frag_tail s ys)
     | Inr (s1, len') \<Rightarrow> frag_in q s' s1 \<and> length (nifo_encode rs) + 8 + nat (cp_datalen ch) + length (frag_tail s ys) \<le> cap \<and>
         len' = len + int (length (frag_tail s ys)) \<and> fr_eth s1 = fr_eth s' \<and> fr_cap s1 = fr_cap s' \<and>
         nifo_payload (fr_nifo s1) q = nifo_encode rs @ le32_bytes ETH_DATA_NUM @
           le32_bytes (of_nat (length (bs @ frag_tail s ys))) @ bs @ frag_tail s ys"
    unfolding tail fill by blast
  have same: "fr_eth s' = fr_eth s" "fr_cap s' = fr_cap s" by (simp_all add: s'_def)
  show ?thesis
    unfolding r(1) using r(2) frag_in_trans [OF in'] by (cases r) (auto simp: same nifo_encode_def)
qed

lemma ip_frag_merge_data_ok:
  assumes lists: "nifo_lists (fr_nifo s) ((c # ys) # rest)" and data: "frag_has_data s c (cp_datalen ch)"
    and frames: "\<forall>y \<in> set ys. frag_frame s y" and ne: "\<forall>y \<in> set (c # ys). hd y \<noteq> q" and cap: "cap < 2 ^ 31"
    and room: "frag_room s q cap rs" and cnt: "unat cnt = length (c # ys)"
    and pd: "pDATA = Some (frag_data s c)" and structs: "fr_eth s p2 = Some eth" "fr_cap s p1 = Some ch"
    and range: "q + NIFO_SIZE \<le> p1" "p1 < q + NIFO_SIZE + int cap" "q + NIFO_SIZE \<le> p2" "p2 < q + NIFO_SIZE + int cap"
  defines "bs \<equiv> rd_bytes (nf_mem (fr_nifo s)) (frag_data s c) (nat (cp_datalen ch)) @ frag_tail s ys"
  shows "\<exists>s' d. ip_frag_merge_data s (hd c) cnt q p1 p2 pDATA ch eth = Some (s', d) \<and> frag_in q s s' \<and>
    (if length (nifo_encode rs) + 8 + length bs \<le> cap
     then d = 0 \<and> nifo_payload (fr_nifo s') q = nifo_encode (rs @ [(ETH_DATA_NUM, bs)]) \<and>
       fr_cap s' p1 = Some (ch\<lparr>cp_datalen := frag_len s eth ys\<rparr>) \<and>
       fr_eth s' p2 = Some (frag_set_len eth (frag_len s eth ys))
     else d < 0)"
proof -
  have wf: "mems_wf (nf_mems (fr_nifo s))" by (rule nifo_listsD(1) [OF lists])
  have D: "unat (word_of_int (cp_datalen ch) :: u32) = nat (cp_datalen ch)" "0 \<le> cp_datalen ch"
    using frag_has_data_small [OF data] data by (simp_all add: frag_has_data_def)
  define v where "v = q + NIFO_SIZE + int (length (nifo_encode rs)) + 8"
  obtain n where n: "nf_node (fr_nifo s) q = Some n" "nn_maxoffset n = NIFO_SIZE + int cap"
    using room by (auto simp: frag_room_def nifo_node_ok_def)
  obtain nf r where a: "ip_frag_alloc s q ETH_DATA_NUM (word_of_int (cp_datalen ch)) = Some (s\<lparr>fr_nifo := nf\<rparr>, r)"
    "frag_in q s (s\<lparr>fr_nifo := nf\<rparr>)"
    "length (nifo_encode rs) + 8 + nat (cp_datalen ch) \<le> cap \<Longrightarrow> r = Some v \<and>
       (\<exists>w. length w = nat (cp_datalen ch) \<and> frag_room (s\<lparr>fr_nifo := nf\<rparr>) q cap (rs @ [(ETH_DATA_NUM, w)]))"
    "cap < length (nifo_encode rs) + 8 + nat (cp_datalen ch) \<Longrightarrow> r = None"
    using ip_frag_alloc_ok [OF room cap, of ETH_DATA_NUM "word_of_int (cp_datalen ch)"] by (auto simp: D(1) v_def)
  show ?thesis
  proof (cases "length (nifo_encode rs) + 8 + nat (cp_datalen ch) \<le> cap")
    case False
    then have "r = None" "\<not> length (nifo_encode rs) + 8 + length bs \<le> cap" using a(4) by (simp_all add: bs_def)
    then show ?thesis using a(1,2) by (simp add: ip_frag_merge_data_def)
  next
    case True
    define s1 where "s1 = s\<lparr>fr_nifo := nf\<rparr>"
    obtain w where w: "r = Some v" "length w = nat (cp_datalen ch)" "frag_room s1 q cap (rs @ [(ETH_DATA_NUM, w)])"
      using a(3) [OF True] by (auto simp: s1_def)
    have in1: "frag_in q s s1" using a(2) by (simp add: s1_def)
    have c: "hd c \<noteq> q" using ne by simp
    note d1 = frag_in_data [OF wf in1 c data]
    have keep: "frag_frame s1 y \<and> frag_bytes s1 y = frag_bytes s y" if "y \<in> set ys" for y
    proof -
      have "frag_frame s y" "hd y \<noteq> q" using frames ne that by auto
      then show ?thesis using frag_in_frame [OF wf in1, of y] by blast
    qed
    have tail: "frag_tail s1 ys = frag_tail s ys" by (rule frag_tail_cong) (simp add: keep)
    have frame: "rd_bytes (nf_mem (fr_nifo s1)) (frag_data s1 c) (nat (cp_datalen ch)) =
        rd_bytes (nf_mem (fr_nifo s)) (frag_data s c) (nat (cp_datalen ch))"
      using d1(3) [of 0 "nat (cp_datalen ch)"] D(2) by (simp add: d1(2))
    have bs_len: "length (nifo_encode rs) + 8 + nat (cp_datalen ch) + length (frag_tail s ys) = length (nifo_encode rs) + 8 + length bs"
      by (simp add: bs_def)
    have lists1: "nifo_lists (fr_nifo s1) ((c # ys) # rest)"
      using nifo_in_lists [OF frag_in_nifo [OF in1]] lists by simp
    have frames1: "\<forall>y \<in> set ys. frag_frame s1 y" using keep by simp
    obtain x where x: "ip_frag_merge_loop (s1\<lparr>fr_nifo := (fr_nifo s1)\<lparr>nf_mem := wr_bytes (nf_mem (fr_nifo s1)) v
           (rd_bytes (nf_mem (fr_nifo s1)) (frag_data s1 c) (nat (cp_datalen ch)))\<rparr>\<rparr>) q v (hd c)
           (uint (ut_wDataLen (ie_stUDPTCP eth))) (length ys) = Some x"
      "case x of Inl (s2, d) \<Rightarrow> d = -4 \<and> frag_in q s1 s2 \<and> cap < length (nifo_encode rs) + 8 + length bs
       | Inr (s2, len') \<Rightarrow> frag_in q s1 s2 \<and> length (nifo_encode rs) + 8 + length bs \<le> cap \<and>
           len' = frag_len s eth ys \<and> fr_eth s2 = fr_eth s1 \<and> fr_cap s2 = fr_cap s1 \<and>
           nifo_payload (fr_nifo s2) q = nifo_encode (rs @ [(ETH_DATA_NUM, bs)])"
      using ip_frag_merge_copy [OF lists1 d1(1) frames1 ne cap w(3,2) v_def, of "uint (ut_wDataLen (ie_stUDPTCP eth))"]
      unfolding tail frame bs_def [symmetric] frag_len_def [symmetric] bs_len by blast
    have run: "ip_frag_merge_data s (hd c) cnt q p1 p2 pDATA ch eth = (case x of
           Inl y \<Rightarrow> Some y
         | Inr (s3, len) \<Rightarrow> do {
             reth \<leftarrow> fr_eth s3 p2;
             rcap \<leftarrow> fr_cap s3 p1;
             Some (s3\<lparr>fr_eth := (fr_eth s3)(p2 \<mapsto> frag_set_len reth len), fr_cap := (fr_cap s3)(p1 \<mapsto> rcap\<lparr>cp_datalen := len\<rparr>)\<rparr>, 0)
           })"
      using a(1) w(1) x(1) cnt pd by (simp add: ip_frag_merge_data_def s1_def [symmetric] frame d1(2) frag_set_len_def Let_def cong: sum.case_cong)
    show ?thesis
    proof (cases x)
      case (Inl y)
      then show ?thesis using run x(2) frag_in_trans [OF in1] by (cases y) auto
    next
      case (Inr y)
      obtain s2 len where y: "y = (s2, len)" by (cases y)
      have s2: "frag_in q s1 s2" "length (nifo_encode rs) + 8 + length bs \<le> cap" "len = frag_len s eth ys"
        "fr_eth s2 = fr_eth s1" "fr_cap s2 = fr_cap s1" "nifo_payload (fr_nifo s2) q = nifo_encode (rs @ [(ETH_DATA_NUM, bs)])"
        using x(2) Inr y by simp_all
      let ?t = "s2\<lparr>fr_eth := (fr_eth s2)(p2 \<mapsto> frag_set_len eth len)\<rparr>"
      let ?u = "?t\<lparr>fr_cap := (fr_cap ?t)(p1 \<mapsto> ch\<lparr>cp_datalen := len\<rparr>)\<rparr>"
      have in2: "frag_in q s s2" by (rule frag_in_trans [OF in1 s2(1)])
      obtain m where m: "nf_node (fr_nifo s2) q = Some m" "nn_maxoffset m = NIFO_SIZE + int cap" "nifo_block (fr_nifo s2) q"
        using frag_in_max [OF in2 n(1)] n(2) by metis
      have "frag_in q s2 ?t" by (rule frag_in_write(2) [OF m(3,1)]) (use range m(2) in simp_all)
      moreover have "frag_in q ?t ?u" by (rule frag_in_write(1) [where n = m]) (use range m in simp_all)
      ultimately have "frag_in q s ?u" using frag_in_trans [OF in2] frag_in_trans by blast
      moreover have "ip_frag_merge_data s (hd c) cnt q p1 p2 pDATA ch eth = Some (?u, 0)"
        using run Inr y structs by (simp add: s2(4,5) s1_def)
      ultimately show ?thesis using s2(2,3,6) by auto
    qed
  qed
qed

lemma frag_alloc_write:
  assumes "frag_in q s (s\<lparr>fr_nifo := nf\<rparr>)" "frag_room (s\<lparr>fr_nifo := nf\<rparr>) q cap rs" "q + NIFO_SIZE \<le> p" "p < q + NIFO_SIZE + int cap"
  shows "frag_in q s (s\<lparr>fr_nifo := nf, fr_cap := (fr_cap s)(p \<mapsto> x)\<rparr>)" "frag_in q s (s\<lparr>fr_nifo := nf, fr_eth := (fr_eth s)(p \<mapsto> y)\<rparr>)"
proof -
  let ?s = "s\<lparr>fr_nifo := nf\<rparr>"
  obtain n where n: "nf_node nf q = Some n" "nn_maxoffset n = NIFO_SIZE + int cap" "nifo_block nf q"
    using assms(2) by (auto simp: frag_room_def nifo_node_ok_def)
  have "frag_in q ?s (?s\<lparr>fr_cap := (fr_cap ?s)(p \<mapsto> x)\<rparr>)" "frag_in q ?s (?s\<lparr>fr_eth := (fr_eth ?s)(p \<mapsto> y)\<rparr>)"
    using assms(3,4) n by (intro frag_in_write [where n = n]; simp)+
  then show "frag_in q s (s\<lparr>fr_nifo := nf, fr_cap := (fr_cap s)(p \<mapsto> x)\<rparr>)" "frag_in q s (s\<lparr>fr_nifo := nf, fr_eth := (fr_eth s)(p \<mapsto> y)\<rparr>)"
    using frag_in_trans [OF assms(1)] by simp_all
qed

text \<open>The two structures of the first fragment are copied; the result is complete when everything fits.\<close>

lemma ip_frag_merge_ok:
  assumes lists: "nifo_lists (fr_nifo s) ((c # ys) # rest)" and first: "frag_first s c"
    and frames: "\<forall>y \<in> set ys. frag_frame s y" and ne: "\<forall>y \<in> set (c # ys). hd y \<noteq> q"
    and room: "frag_room s q cap []" and cap: "cap < 2 ^ 31" and cnt: "unat cnt = length (c # ys)"
    and pos: "0 < fe_CAP_HRD_LEN e" "0 < fe_INFO_ETH_SIZE e"
  shows "\<exists>s' d. ip_frag_merge e s (hd c) cnt q = Some (s', d) \<and> frag_in q s s' \<and>
    (if frag_fits e s cap (c # ys)
     then d = 0 \<and> frag_result s' q (frag_merged_cap s (c # ys)) (frag_merged_eth s (c # ys)) (frag_merged s (c # ys))
     else d < 0)"
proof -
  have wf: "mems_wf (nf_mems (fr_nifo s))" and c: "hd c \<noteq> q" using nifo_listsD(1) [OF lists] ne by simp_all
  define ch where "ch = frag_cap s c"
  define eth where "eth = frag_info s c"
  define L1 where "L1 = unat (fe_CAP_HRD_LEN e)"
  define L2 where "L2 = unat (fe_INFO_ETH_SIZE e)"
  have L: "0 < L1" "0 < L2" using pos by (simp_all add: L1_def L2_def word_less_nat_alt)
  obtain pc where pc: "nifo_get_value (fr_nifo s) CAP_HEADER_NUM (hd c) = Some (Some pc)" "fr_cap s pc = Some ch"
    using first by (auto simp: frag_first_def ch_def)
  have hd_c: "frag_read s c" "frag_has_data s c (cp_datalen ch)" using first by (simp_all add: frag_first_def ch_def)
  have pd: "nifo_get_value (fr_nifo s) ETH_DATA_NUM (hd c) = Some (Some (frag_data s c))"
    using hd_c(2) by (simp add: frag_has_data_def)
  obtain pe where pe: "nifo_get_value (fr_nifo s) INFO_ETH_NUM (hd c) = Some (Some pe)" "fr_eth s pe = Some eth"
    using frag_readD [OF hd_c(1)] by (auto simp: ip_frag_eth_def eth_def bind_eq_Some_conv)
  have fits: "frag_fits e s cap (c # ys) \<longleftrightarrow> 24 + L1 + L2 + length (frag_merged s (c # ys)) \<le> cap"
    by (simp add: frag_fits_def L1_def L2_def)
  define p1 where "p1 = q + NIFO_SIZE + 8"
  obtain nf1 r1 where a1: "ip_frag_alloc s q CAP_HEADER_NUM (fe_CAP_HRD_LEN e) = Some (s\<lparr>fr_nifo := nf1\<rparr>, r1)"
    "frag_in q s (s\<lparr>fr_nifo := nf1\<rparr>)" "8 + L1 \<le> cap \<Longrightarrow> r1 = Some p1 \<and>
       (\<exists>w. length w = L1 \<and> frag_room (s\<lparr>fr_nifo := nf1\<rparr>) q cap [(CAP_HEADER_NUM, w)])" "cap < 8 + L1 \<Longrightarrow> r1 = None"
    using ip_frag_alloc_ok [OF room cap, of CAP_HEADER_NUM "fe_CAP_HRD_LEN e"] by (auto simp: L1_def p1_def)
  show ?thesis
  proof (cases "8 + L1 \<le> cap")
    case False
    then have "r1 = None" "\<not> frag_fits e s cap (c # ys)" using a1(4) fits by simp_all
    then show ?thesis using a1(1,2) pc pd pe by (simp add: ip_frag_merge_def)
  next
    case True
    obtain w1 where w1: "r1 = Some p1" "length w1 = L1" "frag_room (s\<lparr>fr_nifo := nf1\<rparr>) q cap [(CAP_HEADER_NUM, w1)]"
      using a1(3) [OF True] by auto
    define s1 where "s1 = s\<lparr>fr_nifo := nf1, fr_cap := (fr_cap s)(p1 \<mapsto> ch)\<rparr>"
    have room1: "frag_room s1 q cap [(CAP_HEADER_NUM, w1)]" using w1(3) by (simp add: s1_def frag_room_def)
    have in1: "frag_in q s s1"
      unfolding s1_def by (rule frag_alloc_write [OF a1(2) w1(3)]) (use True L in \<open>simp_all add: p1_def\<close>)
    define p2 where "p2 = p1 + int L1 + 8"
    obtain nf2 r2 where a2: "ip_frag_alloc s1 q INFO_ETH_NUM (fe_INFO_ETH_SIZE e) = Some (s1\<lparr>fr_nifo := nf2\<rparr>, r2)"
      "frag_in q s1 (s1\<lparr>fr_nifo := nf2\<rparr>)" "16 + L1 + L2 \<le> cap \<Longrightarrow> r2 = Some p2 \<and>
         (\<exists>w. length w = L2 \<and> frag_room (s1\<lparr>fr_nifo := nf2\<rparr>) q cap [(CAP_HEADER_NUM, w1), (INFO_ETH_NUM, w)])"
      "cap < 16 + L1 + L2 \<Longrightarrow> r2 = None"
      using ip_frag_alloc_ok [OF room1 cap, of INFO_ETH_NUM "fe_INFO_ETH_SIZE e"] w1(2)
      by (auto simp: L2_def p1_def p2_def)
    have run1: "ip_frag_merge e s (hd c) cnt q = (case r2 of None \<Rightarrow> Some (s1\<lparr>fr_nifo := nf2\<rparr>, -2)
        | Some p \<Rightarrow> do { eth \<leftarrow> fr_eth (s1\<lparr>fr_nifo := nf2\<rparr>) pe;
            ip_frag_merge_data ((s1\<lparr>fr_nifo := nf2\<rparr>)\<lparr>fr_eth := (fr_eth (s1\<lparr>fr_nifo := nf2\<rparr>))(p \<mapsto> eth)\<rparr>) (hd c) cnt q p1 p
              (Some (frag_data s c)) ch eth })"
      using a1(1) a2(1) w1(1) pc pd pe by (simp add: ip_frag_merge_def s1_def cong: option.case_cong)
    show ?thesis
    proof (cases "16 + L1 + L2 \<le> cap")
      case False
      then have "r2 = None" "\<not> frag_fits e s cap (c # ys)" using a2(4) fits by simp_all
      then show ?thesis using run1 frag_in_trans [OF in1 a2(2)] by simp
    next
      case True2: True
      obtain w2 where w2: "r2 = Some p2" "length w2 = L2"
        "frag_room (s1\<lparr>fr_nifo := nf2\<rparr>) q cap [(CAP_HEADER_NUM, w1), (INFO_ETH_NUM, w2)]"
        using a2(3) [OF True2] by auto
      define rs where "rs = [(CAP_HEADER_NUM, w1), (INFO_ETH_NUM, w2)]"
      define s2 where "s2 = s1\<lparr>fr_nifo := nf2, fr_eth := (fr_eth s1)(p2 \<mapsto> eth)\<rparr>"
      have range: "q + NIFO_SIZE \<le> p1" "p1 < q + NIFO_SIZE + int cap" "q + NIFO_SIZE \<le> p2" "p2 < q + NIFO_SIZE + int cap"
        using True2 L by (simp_all add: p1_def p2_def)
      have room2: "frag_room s2 q cap rs" using w2(3) by (simp add: s2_def rs_def frag_room_def)
      have in2: "frag_in q s s2"
        unfolding s2_def by (rule frag_in_trans [OF in1 frag_alloc_write(2) [OF a2(2) w2(3) range(3,4)]])
      note d2 = frag_in_data [OF wf in2 c hd_c(2)] and first2 = frag_in_first [OF wf in2 c first]
      have keep: "frag_frame s2 y \<and> frag_bytes s2 y = frag_bytes s y" if "y \<in> set ys" for y
      proof -
        have "frag_frame s y" "hd y \<noteq> q" using frames ne that by auto
        then show ?thesis using frag_in_frame [OF wf in2, of y] by blast
      qed
      have tail: "frag_tail s2 ys = frag_tail s ys" by (rule frag_tail_cong) (simp add: keep)
      have head: "rd_bytes (nf_mem (fr_nifo s2)) (frag_data s2 c) (nat (cp_datalen ch)) = frag_head s c"
        using first2(2,3) by (simp add: frag_head_def ch_def)
      have lists2: "nifo_lists (fr_nifo s2) ((c # ys) # rest)" using nifo_in_lists [OF frag_in_nifo [OF in2]] lists by simp
      have frames2: "\<forall>y \<in> set ys. frag_frame s2 y" using keep by simp
      have st2: "fr_eth s2 p2 = Some eth" "fr_cap s2 p1 = Some ch" by (simp_all add: s2_def s1_def)
      have "(s1\<lparr>fr_nifo := nf2\<rparr>)\<lparr>fr_eth := (fr_eth (s1\<lparr>fr_nifo := nf2\<rparr>))(p2 \<mapsto> eth)\<rparr> = s2"
        "fr_eth (s1\<lparr>fr_nifo := nf2\<rparr>) pe = Some eth" using pe(2) by (simp_all add: s2_def s1_def)
      then have run2: "ip_frag_merge e s (hd c) cnt q = ip_frag_merge_data s2 (hd c) cnt q p1 p2 (Some (frag_data s2 c)) ch eth"
        using run1 w2(1) d2(2) by simp
      have len2: "frag_len s2 eth ys = frag_len s eth ys" by (simp add: frag_len_def tail)
      obtain s3 d where s3: "ip_frag_merge e s (hd c) cnt q = Some (s3, d)" "frag_in q s2 s3"
        "if length (nifo_encode rs) + 8 + length (frag_merged s (c # ys)) \<le> cap
         then d = 0 \<and> nifo_payload (fr_nifo s3) q = nifo_encode (rs @ [(ETH_DATA_NUM, frag_merged s (c # ys))]) \<and>
           fr_cap s3 p1 = Some (frag_merged_cap s (c # ys)) \<and> fr_eth s3 p2 = Some (frag_merged_eth s (c # ys))
         else d < 0"
        using ip_frag_merge_data_ok [OF lists2 d2(1) frames2 ne cap room2 cnt refl st2 range]
        unfolding run2 head tail len2 frag_merged_def frag_merged_cap_def frag_merged_eth_def list.sel
        unfolding ch_def eth_def by blast
      have rs_len: "length (nifo_encode rs) = 16 + L1 + L2" using w1(2) w2(2) by (simp add: rs_def)
      have in3: "frag_in q s s3" by (rule frag_in_trans [OF in2 s3(2)])
      show ?thesis
      proof (cases "frag_fits e s cap (c # ys)")
        case False
        then show ?thesis using s3(1,3) in3 fits rs_len by auto
      next
        case True
        then have r: "d = 0" "nifo_payload (fr_nifo s3) q = nifo_encode (rs @ [(ETH_DATA_NUM, frag_merged s (c # ys))])"
          "fr_cap s3 p1 = Some (frag_merged_cap s (c # ys))" "fr_eth s3 p2 = Some (frag_merged_eth s (c # ys))"
          using s3(3) fits rs_len by simp_all
        have blk: "nifo_block (fr_nifo s3) q" using in3 by (simp add: frag_in_def nifo_in_def)
        have pay: "nifo_payload (fr_nifo s3) q = nifo_encode [] @ le32_bytes CAP_HEADER_NUM @ (le32_bytes (of_nat (length w1)) @ w1 @
             nifo_encode [(INFO_ETH_NUM, w2), (ETH_DATA_NUM, frag_merged s (c # ys))])"
          "nifo_payload (fr_nifo s3) q = nifo_encode [(CAP_HEADER_NUM, w1)] @ le32_bytes INFO_ETH_NUM @ (le32_bytes (of_nat (length w2)) @ w2 @
             nifo_encode [(ETH_DATA_NUM, frag_merged s (c # ys))])"
          unfolding r(2) rs_def by simp_all
        have "length w1 < 2 ^ 31" using w1(2) True2 cap by simp
        then have "nifo_get_value (fr_nifo s3) CAP_HEADER_NUM q = Some (Some p1)" "ip_frag_eth s3 q = Some (frag_merged_eth s (c # ys))"
          using nifo_value_at [OF blk pay(1)] nifo_value_at [OF blk pay(2)] w1(2) r(4)
          by (simp_all add: p1_def p2_def add.assoc ip_frag_eth_def)
        then have "frag_result s3 q (frag_merged_cap s (c # ys)) (frag_merged_eth s (c # ys)) (frag_merged s (c # ys))"
          using r(2,3) by (auto simp: frag_result_def rs_def)
        then show ?thesis using s3(1) in3 r(1) True by auto
      qed
    qed
  qed
qed

end
