(* ===== verification/FragStore.thy ===== *)
theory FragStore
  imports FragMerge "HOL-Library.AList"
begin

text \<open>
  The groups of fragments in memory: \<open>frag_store\<close> ties the table, the nodes and the structures to a list of groups,
  each one in the order of its offsets. What dropping a group, putting one and merging one do to it.
\<close>

section \<open>Fragments by value\<close>

text \<open>What \<open>ip_frag\<close> uses of a fragment: the two structures, the captured frame, the payload.\<close>

record fragment =
  fg_info :: infoeth
  fg_cap :: caphead
  fg_frame :: "u8 list"
  fg_data :: "u8 list"

definition fg_pos :: "fragment \<Rightarrow> int" where "fg_pos x = uint (ip_frag_offset (fg_info x))"

definition fg_size :: "fragment \<Rightarrow> int" where "fg_size x = ip_frag_size (fg_info x)"

definition fg_last :: "fragment \<Rightarrow> bool" where "fg_last x \<longleftrightarrow> ip_frag_more (fg_info x) = 0"

definition frag_of :: "frag \<Rightarrow> offset list \<Rightarrow> fragment" where
  "frag_of s c = \<lparr>fg_info = frag_info s c, fg_cap = frag_cap s c, fg_frame = frag_head s c, fg_data = frag_bytes s c\<rparr>"

text \<open>A message that can be a fragment.\<close>

definition frag_msg :: "frag \<Rightarrow> offset list \<Rightarrow> bool" where
  "frag_msg s c \<longleftrightarrow> frag_frame s c \<and> frag_first s c \<and> 0 < hd c"

lemma frag_of_simps [simp]:
  "fg_info (frag_of s c) = frag_info s c" "fg_pos (frag_of s c) = frag_pos s c" "fg_size (frag_of s c) = frag_size s c"
  "fg_frame (frag_of s c) = frag_head s c" "fg_data (frag_of s c) = frag_bytes s c" "fg_cap (frag_of s c) = frag_cap s c"
  by (simp_all add: frag_of_def fg_pos_def fg_size_def frag_pos_def frag_size_def)

lemma frag_msg_read: "frag_msg s c \<Longrightarrow> frag_read s c" "frag_msg s c \<Longrightarrow> nifo_block (fr_nifo s) (hd c)"
  by (auto simp: frag_msg_def frag_frame_def frag_has_data_def)

definition frag_keep :: "frag \<Rightarrow> frag \<Rightarrow> offset list \<Rightarrow> bool" where
  "frag_keep s s' c \<longleftrightarrow> (frag_msg s c \<longrightarrow> frag_msg s' c \<and> frag_of s' c = frag_of s c)"

lemma frag_keepD: "frag_keep s s' c \<Longrightarrow> frag_msg s c \<Longrightarrow> frag_msg s' c" "frag_keep s s' c \<Longrightarrow> frag_msg s c \<Longrightarrow> frag_of s' c = frag_of s c"
  by (simp_all add: frag_keep_def)

lemma frag_keep_refl [simp]: "frag_keep s s c"
  by (simp add: frag_keep_def)

lemma frag_keep_trans: "frag_keep s t c \<Longrightarrow> frag_keep t u c \<Longrightarrow> frag_keep s u c"
  by (simp add: frag_keep_def)

text \<open>Reading depends on the node of the message, its bytes and its structures.\<close>

lemma frag_keep_cong:
  assumes "\<And>t. nifo_get_value (fr_nifo s') t (hd c) = nifo_get_value (fr_nifo s) t (hd c)"
    "nf_node (fr_nifo s') (hd c) = nf_node (fr_nifo s) (hd c)" "nf_mem (fr_nifo s') = nf_mem (fr_nifo s)"
    "nifo_block (fr_nifo s) (hd c) \<Longrightarrow> nifo_block (fr_nifo s') (hd c)" "fr_eth s' = fr_eth s" "fr_cap s' = fr_cap s"
  shows "frag_keep s s' c"
proof -
  have e: "ip_frag_eth s' (hd c) = ip_frag_eth s (hd c)" by (simp add: ip_frag_eth_def assms(1,5))
  then have i: "frag_read s' c = frag_read s c" "frag_info s' c = frag_info s c" "frag_size s' c = frag_size s c"
    "frag_skip s' c = frag_skip s c" "frag_data s' c = frag_data s c" "frag_cap s' c = frag_cap s c"
    by (simp_all add: frag_read_def frag_info_def frag_size_def frag_skip_def frag_data_def frag_cap_def assms(1,6))
  have d: "frag_has_data s c k \<Longrightarrow> frag_has_data s' c k" for k
    using assms(4) by (auto simp: frag_has_data_def i assms(1,2))
  show ?thesis
    unfolding frag_keep_def frag_msg_def frag_frame_def frag_first_def frag_of_def
    using d by (auto simp: i assms(1,3,6) frag_head_def frag_bytes_def)
qed

lemma frag_keep_same:
  assumes "nifo_same (fr_nifo s) (fr_nifo s')" "fr_eth s' = fr_eth s" "fr_cap s' = fr_cap s"
  shows "frag_keep s s' c"
  using assms nifo_same_value [OF assms(1)] nifo_block_same [OF assms(1)]
  by (intro frag_keep_cong) (simp_all add: nifo_same_def)

lemma nifo_fresh_value:
  assumes "nifo_fresh s s' zid q" "p \<noteq> q"
  shows "nf_node s' p = nf_node s p" "nf_mem s' = nf_mem s" "nifo_get_value s' t p = nifo_get_value s t p"
proof -
  show n: "nf_node s' p = nf_node s p" and m: "nf_mem s' = nf_mem s" using assms by (simp_all add: nifo_fresh_def)
  show "nifo_get_value s' t p = nifo_get_value s t p"
    using nifo_tlv_search_cong [of s' s] by (simp add: nifo_get_value_def n m)
qed

lemma frag_keep_fresh:
  assumes "nifo_zone (fr_nifo s) zid" "nifo_fresh (fr_nifo s) (fr_nifo s') zid q" "hd c \<noteq> q" "fr_eth s' = fr_eth s" "fr_cap s' = fr_cap s"
  shows "frag_keep s s' c"
  using nifo_fresh_value [OF assms(2,3)] nifo_fresh_block(2) [OF assms(1,2,3)] assms(4,5) by (intro frag_keep_cong)

lemma frag_keep_in:
  assumes "mems_wf (nf_mems (fr_nifo s))" "frag_in q s s'" "hd c \<noteq> q"
  shows "frag_keep s s' c"
  unfolding frag_keep_def
proof (intro impI)
  assume m: "frag_msg s c"
  note f = frag_in_frame [OF assms] frag_in_first [OF assms]
  show "frag_msg s' c \<and> frag_of s' c = frag_of s c" using f m by (simp add: frag_msg_def frag_of_def)
qed

section \<open>The groups\<close>

text \<open>The groups of fragments are kept by key: the messages of each one in order.\<close>

type_synonym frag_groups = "(ipfragkey \<times> offset list list) list"

definition frag_entry :: "frag \<Rightarrow> ipfragkey \<Rightarrow> ipfrag option" where
  "frag_entry s k = do { d \<leftarrow> hasho_at (fr_hash s) (ip_frag_key_bytes k); fr_frag s d }"

definition frag_group :: "frag \<Rightarrow> ipfragkey \<Rightarrow> ipfrag \<Rightarrow> offset list list \<Rightarrow> bool" where
  "frag_group s k f cs \<longleftrightarrow> cs \<noteq> [] \<and> fi_offset_NODE f = hd (hd cs) \<and> unat (fi_cnt f) = length cs \<and>
     fi_finish f = (if \<exists>c \<in> set cs. fg_last (frag_of s c) then DEF_IPFRAG_FINISH else DEF_IPFRAG_NOT_FINISH) \<and>
     sorted (map (frag_pos s) cs) \<and> (\<forall>c \<in> set cs. frag_msg s c \<and> ip_frag_key (frag_info s c) = k)"

definition frag_store :: "u32 \<Rightarrow> frag \<Rightarrow> frag_groups \<Rightarrow> offset list list list \<Rightarrow> bool" where
  "frag_store zid s G rest \<longleftrightarrow> hasho_wf (fr_hash s) \<and> klen (fr_hash s) = 10 \<and> dlen (fr_hash s) = 20 \<and>
     distinct (map fst G) \<and> dom (hasho_at (fr_hash s)) = ip_frag_key_bytes ` dom (map_of G) \<and>
     (\<forall>k cs. map_of G k = Some cs \<longrightarrow> (\<exists>f. frag_entry s k = Some f \<and> frag_group s k f cs)) \<and>
     nifo_zone (fr_nifo s) zid \<and> nifo_full (fr_nifo s) (map snd G @ rest)"

lemma length_ip_frag_bytes [simp]: "length (ip_frag_key_bytes k) = 10" "length (ip_frag_bytes f) = 20"
  by (simp_all add: ip_frag_key_bytes_def ip_frag_bytes_def)

lemma ip_frag_key_bytes_inj: "ip_frag_key_bytes k = ip_frag_key_bytes k' \<longleftrightarrow> k = k'"
  by (cases k; cases k') (auto simp: ip_frag_key_bytes_def le32_bytes_inj le16_bytes_inj)

text \<open>A group goes to another state that keeps its messages.\<close>

lemma frag_group_keep:
  assumes "frag_group s k f cs" "\<forall>c \<in> set cs. frag_keep s s' c"
  shows "frag_group s' k f cs" "map (frag_of s') cs = map (frag_of s) cs"
proof -
  have m: "frag_msg s' c" "frag_of s' c = frag_of s c" if "c \<in> set cs" for c
    using assms that frag_keepD [of s s' c] by (auto simp: frag_group_def)
  show of: "map (frag_of s') cs = map (frag_of s) cs" using m(2) by simp
  have "map (frag_pos s') cs = map (frag_pos s) cs" using arg_cong [OF of, of "map fg_pos"] by (simp add: comp_def)
  moreover have "frag_info s' c = frag_info s c" if "c \<in> set cs" for c
    using arg_cong [OF m(2) [OF that], of fg_info] by simp
  ultimately show "frag_group s' k f cs"
    using assms(1) m unfolding frag_group_def by (metis (no_types, lifting))
qed

text \<open>Keys that are in the table, and keys that are not.\<close>

lemma frag_store_hit:
  assumes "frag_store zid s G rest" "map_of G k = Some cs"
  obtains d f where "hasho_at (fr_hash s) (ip_frag_key_bytes k) = Some d" "fr_frag s d = Some f" "frag_group s k f cs"
proof -
  obtain f where "frag_entry s k = Some f" "frag_group s k f cs" using assms unfolding frag_store_def by blast
  then show thesis using that by (auto simp: frag_entry_def bind_eq_Some_conv)
qed

lemma frag_store_miss:
  assumes "frag_store zid s G rest" "map_of G k = None"
  shows "hasho_at (fr_hash s) (ip_frag_key_bytes k) = None"
proof -
  have "k \<notin> dom (map_of G)" using assms(2) by (simp add: domIff)
  then have "ip_frag_key_bytes k \<notin> dom (hasho_at (fr_hash s))"
    using assms(1) unfolding frag_store_def by (auto simp: ip_frag_key_bytes_inj)
  then show ?thesis by (simp add: domIff)
qed

lemma frag_store_card:
  assumes "frag_store zid s G rest"
  shows "card (dom (hasho_at (fr_hash s))) = length G"
proof -
  have d: "distinct (map fst G)" and e: "dom (hasho_at (fr_hash s)) = ip_frag_key_bytes ` dom (map_of G)"
    using assms by (simp_all add: frag_store_def)
  have "card (dom (map_of G)) = length G" using d by (simp add: dom_map_of_conv_image_fst distinct_card flip: set_map)
  then show ?thesis unfolding e by (simp add: card_image inj_on_def ip_frag_key_bytes_inj)
qed

text \<open>The rings of the groups without one of them.\<close>

lemma alist_rings:
  assumes "distinct (map fst G)"
  shows "map_of G k = Some cs \<Longrightarrow> mset (map snd G) = mset (cs # map snd (AList.delete k G))"
    "mset (map snd (AList.update k v G)) = mset (v # map snd (AList.delete k G))"
    "map_of G k = None \<Longrightarrow> AList.delete k G = G"
  using assms by (induction G) (auto simp: delete_simps map_of_eq_None_iff split: if_splits)

text \<open>The rings alone change.\<close>

lemma frag_store_nifo:
  assumes "frag_store zid s G rest" "fr_hash s' = fr_hash s" "fr_frag s' = fr_frag s"
    "\<And>c. c \<in> set (concat (map snd G)) \<Longrightarrow> frag_keep s s' c"
    "nifo_zone (fr_nifo s') zid" "nifo_full (fr_nifo s') (map snd G @ rest')"
  shows "frag_store zid s' G rest'" "map_of G k = Some cs \<Longrightarrow> map (frag_of s') cs = map (frag_of s) cs"
proof -
  have k: "\<forall>c \<in> set cs. frag_keep s s' c" if "map_of G k = Some cs" for k cs
    using assms(4) map_of_SomeD [OF that] by force
  have e: "frag_entry s' k = frag_entry s k" for k by (simp add: frag_entry_def assms(2,3))
  show "frag_store zid s' G rest'"
    using assms(1) k frag_group_keep(1) unfolding frag_store_def assms(2) e by (fastforce simp: assms(5,6))
  show "map (frag_of s') cs = map (frag_of s) cs" if m: "map_of G k = Some cs"
    using assms(1) frag_group_keep(2) [OF _ k [OF m]] m unfolding frag_store_def by blast
qed

text \<open>A group is dropped.\<close>

lemma frag_store_drop:
  assumes st: "frag_store zid s G rest" and k: "map_of G k = Some cs"
  shows "\<exists>nf h. nifo_node_delete (fr_nifo s) (hd (hd cs)) = Some nf \<and> hasho_del (fr_hash s) (ip_frag_key_bytes k) = Some h \<and>
    frag_store zid (s\<lparr>fr_nifo := nf, fr_hash := h\<rparr>) (AList.delete k G) rest \<and>
    nifo_same (fr_nifo s) nf \<and> hasho_at h = (hasho_at (fr_hash s))(ip_frag_key_bytes k := None)"
proof -
  have D: "distinct (map fst G)" "nifo_full (fr_nifo s) (map snd G @ rest)" "hasho_wf (fr_hash s)" "nifo_zone (fr_nifo s) zid"
    using st by (simp_all add: frag_store_def)
  obtain d f where df: "hasho_at (fr_hash s) (ip_frag_key_bytes k) = Some d" "fr_frag s d = Some f" "frag_group s k f cs"
    by (rule frag_store_hit [OF st k])
  obtain c ys where cs: "cs = c # ys" using df(3) by (cases cs) (auto simp: frag_group_def)
  have "nifo_full (fr_nifo s) ((c # ys) # map snd (AList.delete k G) @ rest)"
    by (rule nifo_full_mset [OF D(2)]) (use alist_rings(1) [OF D(1) k] cs in simp)
  from nifo_full_delete [OF this] obtain nf where nf: "nifo_node_delete (fr_nifo s) (hd c) = Some nf"
    "nifo_full nf (map snd (AList.delete k G) @ rest)" "nifo_same (fr_nifo s) nf" by blast
  obtain h where h: "hasho_del (fr_hash s) (ip_frag_key_bytes k) = Some h" "hasho_wf h" "klen h = klen (fr_hash s)"
    "dlen h = dlen (fr_hash s)" "hasho_at h = (hasho_at (fr_hash s))(ip_frag_key_bytes k := None)"
    using hasho_at_del [OF D(3) df(1)] by blast
  let ?s = "s\<lparr>fr_nifo := nf, fr_hash := h\<rparr>"
  have "mems_wf (nf_mems nf)" using nf(2) by (auto simp: nifo_full_def dest: nifo_listsD(1))
  from nifo_same_zone(1) [OF nf(3) this D(4)] have zone: "nifo_zone nf zid" .
  have keep: "frag_keep s ?s x" for x by (rule frag_keep_same) (use nf(3) in simp_all)
  have "frag_store zid ?s (AList.delete k G) rest"
    unfolding frag_store_def
  proof (intro conjI allI impI)
    show "distinct (map fst (AList.delete k G))" using D(1) by (rule distinct_delete)
    show "dom (hasho_at (fr_hash ?s)) = ip_frag_key_bytes ` dom (map_of (AList.delete k G))"
      using st by (auto simp: h(5) frag_store_def delete_conv' ip_frag_key_bytes_inj)
    fix k' cs' assume "map_of (AList.delete k G) k' = Some cs'"
    then have k': "k' \<noteq> k" "map_of G k' = Some cs'" by (auto simp: delete_conv' split: if_splits)
    obtain f' where f': "frag_entry s k' = Some f'" "frag_group s k' f' cs'" using st k'(2) unfolding frag_store_def by blast
    have "frag_entry ?s k' = Some f'" using f'(1) k'(1) by (simp add: frag_entry_def h(5) ip_frag_key_bytes_inj)
    then show "\<exists>f. frag_entry ?s k' = Some f \<and> frag_group ?s k' f cs'"
      using frag_group_keep(1) [OF f'(2)] keep by blast
  qed (use h st nf(2) zone in \<open>simp_all add: frag_store_def\<close>)
  then show ?thesis using nf h(1,5) cs by auto
qed

text \<open>A group gets new messages, or is new.\<close>

lemma frag_store_put:
  assumes st: "frag_store zid s G rest0"
    and h: "hasho_wf (fr_hash s')" "klen (fr_hash s') = 10" "dlen (fr_hash s') = 20"
      "hasho_at (fr_hash s') = (hasho_at (fr_hash s))(ip_frag_key_bytes k \<mapsto> d)"
      "\<And>b. b \<noteq> ip_frag_key_bytes k \<Longrightarrow> hasho_at (fr_hash s) b \<noteq> Some d"
    and f: "fr_frag s' = (fr_frag s)(d \<mapsto> f)" and keep: "\<And>c. frag_keep s s' c"
    and nf: "nifo_zone (fr_nifo s') zid" "nifo_full (fr_nifo s') (cs # map snd (AList.delete k G) @ rest)"
    and g: "frag_group s' k f cs"
  shows "frag_store zid s' (AList.update k cs G) rest"
    "k' \<noteq> k \<Longrightarrow> frag_entry s' k' = frag_entry s k'" "frag_entry s' k = Some f"
proof -
  have D: "distinct (map fst G)" "dom (hasho_at (fr_hash s)) = ip_frag_key_bytes ` dom (map_of G)"
    using st by (simp_all add: frag_store_def)
  show e: "frag_entry s' k' = frag_entry s k'" if "k' \<noteq> k" for k'
  proof -
    have b: "ip_frag_key_bytes k' \<noteq> ip_frag_key_bytes k" using that by (simp add: ip_frag_key_bytes_inj)
    then show ?thesis using h(5) [OF b] by (cases "hasho_at (fr_hash s) (ip_frag_key_bytes k')") (auto simp: frag_entry_def h(4) f)
  qed
  show ek: "frag_entry s' k = Some f" by (simp add: frag_entry_def h(4) f)
  show "frag_store zid s' (AList.update k cs G) rest"
    unfolding frag_store_def
  proof (intro conjI allI impI)
    show "distinct (map fst (AList.update k cs G))" using D(1) by (rule distinct_update)
    show "dom (hasho_at (fr_hash s')) = ip_frag_key_bytes ` dom (map_of (AList.update k cs G))"
      by (simp add: h(4) D(2) update_conv')
    show "nifo_full (fr_nifo s') (map snd (AList.update k cs G) @ rest)"
      by (rule nifo_full_mset [OF nf(2)]) (use alist_rings(2) [OF D(1), of k cs] in simp)
    fix k' cs' assume m: "map_of (AList.update k cs G) k' = Some cs'"
    show "\<exists>f. frag_entry s' k' = Some f \<and> frag_group s' k' f cs'"
    proof (cases "k' = k")
      case True
      then show ?thesis using m ek g by (simp add: update_conv')
    next
      case False
      then have "map_of G k' = Some cs'" using m by (simp add: update_conv')
      then obtain f' where "frag_entry s k' = Some f'" "frag_group s k' f' cs'" using st unfolding frag_store_def by blast
      then show ?thesis using e [OF False] frag_group_keep(1) keep by auto
    qed
  qed (use h nf in simp_all)
qed

section \<open>A group ends\<close>

text \<open>The timer drops a group, or finds none.\<close>

lemma invoke_del_ipfrag_ok:
  assumes st: "frag_store zid s G rest" and arg: "take 10 arg = ip_frag_key_bytes k"
  shows "\<exists>s'. invoke_del_ipfrag arg s = Some s' \<and> frag_store zid s' (AList.delete k G) rest \<and>
    (\<forall>c. frag_keep s s' c) \<and> (\<forall>k'. k' \<noteq> k \<longrightarrow> frag_entry s' k' = frag_entry s k')"
proof -
  have wf: "hasho_wf (fr_hash s)" "length (ip_frag_key_bytes k) = klen (fr_hash s)" using st by (simp_all add: frag_store_def)
  show ?thesis
  proof (cases "map_of G k")
    case None
    have "AList.delete k G = G" using alist_rings(3) [OF _ None] st by (simp add: frag_store_def)
    then show ?thesis
      using hasho_at_find(2) [OF wf frag_store_miss [OF st None]] st arg by (intro exI [of _ s]) (simp add: invoke_del_ipfrag_def)
  next
    case (Some cs)
    obtain d f where df: "hasho_at (fr_hash s) (ip_frag_key_bytes k) = Some d" "fr_frag s d = Some f" "frag_group s k f cs"
      by (rule frag_store_hit [OF st Some])
    obtain p where p: "hasho_find (fr_hash s) (ip_frag_key_bytes k) = Some (Some p)" "hasho_data_at (fr_hash s) p = Some d"
      using hasho_at_find(1) [OF wf df(1)] by blast
    obtain nf h where a: "nifo_node_delete (fr_nifo s) (hd (hd cs)) = Some nf" "hasho_del (fr_hash s) (ip_frag_key_bytes k) = Some h"
      "frag_store zid (s\<lparr>fr_nifo := nf, fr_hash := h\<rparr>) (AList.delete k G) rest" "nifo_same (fr_nifo s) nf"
      "hasho_at h = (hasho_at (fr_hash s))(ip_frag_key_bytes k := None)"
      using frag_store_drop [OF st Some] by blast
    let ?s = "s\<lparr>fr_nifo := nf, fr_hash := h\<rparr>"
    have "hd cs \<in> set cs" "fi_offset_NODE f = hd (hd cs)" using df(3) by (simp_all add: frag_group_def)
    moreover have "0 < hd c" if "c \<in> set cs" for c using df(3) that by (simp add: frag_group_def frag_msg_def)
    ultimately have "fi_offset_NODE f \<noteq> 0" "fi_offset_NODE f = hd (hd cs)" by force+
    then have "invoke_del_ipfrag arg s = Some ?s"
      using arg p df(2) a(1,2) by (simp add: invoke_del_ipfrag_def frag_on_nifo_def)
    moreover have "frag_keep s ?s c" for c by (rule frag_keep_same) (use a(4) in simp_all)
    ultimately show ?thesis using a(3,5) by (auto simp: frag_entry_def ip_frag_key_bytes_inj)
  qed
qed

text \<open>A complete group is merged into a new node, if there is one and the datagram fits.\<close>

definition fg_merged :: "fragment list \<Rightarrow> u8 list" where
  "fg_merged xs = fg_frame (hd xs) @ concat (map fg_data (tl xs))"

definition fg_len :: "fragment list \<Rightarrow> int" where
  "fg_len xs = uint (ut_wDataLen (ie_stUDPTCP (fg_info (hd xs)))) + int (length (concat (map fg_data (tl xs))))"

definition frag_merged_into :: "frag \<Rightarrow> offset \<Rightarrow> fragment list \<Rightarrow> bool" where
  "frag_merged_into s q xs \<longleftrightarrow> frag_result s q ((fg_cap (hd xs))\<lparr>cp_datalen := fg_len xs\<rparr>)
     (frag_set_len (fg_info (hd xs)) (fg_len xs)) (fg_merged xs)"

definition fg_fits :: "frag_env \<Rightarrow> nat \<Rightarrow> fragment list \<Rightarrow> bool" where
  "fg_fits e cap xs \<longleftrightarrow> 24 + unat (fe_CAP_HRD_LEN e) + unat (fe_INFO_ETH_SIZE e) + length (fg_merged xs) \<le> cap"

lemma frag_merged_of:
  assumes "cs \<noteq> []"
  shows "frag_fits e s cap cs = fg_fits e cap (map (frag_of s) cs)"
    "frag_result s' q (frag_merged_cap s cs) (frag_merged_eth s cs) (frag_merged s cs) = frag_merged_into s' q (map (frag_of s) cs)"
proof -
  have "map fg_data (tl (map (frag_of s) cs)) = map (frag_bytes s) (tl cs)" by (simp add: map_tl comp_def)
  then have t: "concat (map fg_data (tl (map (frag_of s) cs))) = frag_tail s (tl cs)" by (simp add: frag_tail_def)
  have h: "hd (map (frag_of s) cs) = frag_of s (hd cs)" using assms by (simp add: hd_map)
  have m: "fg_merged (map (frag_of s) cs) = frag_merged s cs" by (simp only: fg_merged_def frag_merged_def t h frag_of_simps)
  have l: "fg_len (map (frag_of s) cs) = frag_len s (frag_info s (hd cs)) (tl cs)"
    by (simp only: fg_len_def frag_len_def t h frag_of_simps)
  show "frag_fits e s cap cs = fg_fits e cap (map (frag_of s) cs)" by (simp add: frag_fits_def fg_fits_def m)
  show "frag_result s' q (frag_merged_cap s cs) (frag_merged_eth s cs) (frag_merged s cs) = frag_merged_into s' q (map (frag_of s) cs)"
    by (simp add: frag_merged_into_def m l h frag_merged_cap_def frag_merged_eth_def)
qed

definition frag_free :: "u32 \<Rightarrow> frag \<Rightarrow> bool" where
  "frag_free zid s \<longleftrightarrow> mems_live (nf_mems (fr_nifo s)) zid \<noteq> mems_cells (nf_mems (fr_nifo s)) zid"

definition frag_env_ok :: "frag_env \<Rightarrow> bool" where
  "frag_env_ok e \<longleftrightarrow> 0 < fe_CAP_HRD_LEN e \<and> 0 < fe_INFO_ETH_SIZE e"

lemma frag_store_heads:
  assumes "nifo_full nf ([[q]] # css)" "c \<in> set (concat css)"
  shows "hd c \<noteq> q"
proof -
  have l: "nifo_lists nf ([[q]] # css)" using assms(1) by (simp add: nifo_full_def)
  then have "nifo_lists nf css" by (rule nifo_lists_perm) (use nifo_listsD(4) [OF l] in auto)
  from nifo_lists_hd [OF this assms(2)] show ?thesis using nifo_listsD(4) [OF l] by auto
qed

lemma nifo_full_blocks: "nifo_fresh s s' zid q \<Longrightarrow> nifo_zone s zid \<Longrightarrow> nifo_block s' q \<and> nifo_node_ok s' (nifo_cap s zid) q \<and> nifo_payload s' q = []"
  using nifo_fresh_block(1) [of s zid s' q] by (simp add: nifo_fresh_def nifo_node_ok_def nifo_payload_def nifo_fill_def)

lemma ip_frag_collect_ok:
  assumes st: "frag_store zid s G rest" and k: "map_of G k = Some cs" and cnt: "unat cnt = length cs"
    and env: "frag_env_ok e"
  defines "xs \<equiv> map (frag_of s) cs" and "cap \<equiv> nifo_cap (fr_nifo s) zid"
  shows "\<exists>s' r. ip_frag_collect e s (hd (hd cs)) cnt = Some (s', r) \<and> fr_hash s' = fr_hash s \<and> fr_frag s' = fr_frag s \<and>
    (\<forall>k' cs'. map_of G k' = Some cs' \<longrightarrow> map (frag_of s') cs' = map (frag_of s) cs') \<and>
    (if frag_free zid s \<and> fg_fits e cap xs
     then \<exists>q. r = Some q \<and> frag_store zid s' G ([[q]] # rest) \<and> frag_merged_into s' q xs
     else r = None \<and> frag_store zid s' G rest)"
proof -
  have D: "distinct (map fst G)" "nifo_full (fr_nifo s) (map snd G @ rest)" "nifo_zone (fr_nifo s) zid"
    using st by (simp_all add: frag_store_def)
  obtain f where g: "frag_group s k f cs" using frag_store_hit [OF st k] .
  then obtain c ys where cs: "cs = c # ys" by (cases cs) (auto simp: frag_group_def)
  show ?thesis
  proof (cases "frag_free zid s")
    case False
    then obtain nf where nf: "nifo_node_alloc (fr_nifo s) (fe_now e) = Some (nf, None)" "nifo_same (fr_nifo s) nf"
      "nifo_zone nf zid" "nifo_full nf (map snd G @ rest)"
      using nifo_full_alloc(2) [OF D(2,3)] unfolding frag_free_def by blast
    let ?s = "s\<lparr>fr_nifo := nf\<rparr>"
    have keep: "frag_keep s ?s x" for x by (rule frag_keep_same) (use nf(2) in simp_all)
    note n = frag_store_nifo [OF st, of ?s rest, simplified, OF keep nf(3,4)]
    show ?thesis using nf(1) n False by (simp add: ip_frag_collect_def)
  next
    case True
    then obtain nf q where nf: "nifo_node_alloc (fr_nifo s) (fe_now e) = Some (nf, Some q)" "nifo_fresh (fr_nifo s) nf zid q"
      "nifo_full nf ([[q]] # map snd G @ rest)"
      using nifo_full_alloc(1) [OF D(2,3)] unfolding frag_free_def by blast
    let ?s1 = "s\<lparr>fr_nifo := nf\<rparr>"
    have zone1: "nifo_zone nf zid" "nifo_cap nf zid = cap" using nf(2) by (simp_all add: nifo_fresh_def cap_def)
    have ne: "hd x \<noteq> q" if "x \<in> set (concat (map snd G))" for x
      by (rule frag_store_heads [OF nf(3)]) (use that in auto)
    have keep1: "frag_keep s ?s1 x" if "x \<in> set (concat (map snd G))" for x
      by (rule frag_keep_fresh [OF D(3) _ ne [OF that]]) (use nf(2) in simp_all)
    have full1: "nifo_full nf (map snd G @ [[q]] # rest)" by (rule nifo_full_mset [OF nf(3)]) simp
    note n1 = frag_store_nifo [OF st, of ?s1 "[[q]] # rest", simplified, OF keep1 zone1(1) full1, simplified]
    have g1: "frag_group ?s1 k f cs"
      by (rule frag_group_keep(1) [OF g]) (use keep1 map_of_SomeD [OF k] in force)
    have in_G: "x \<in> set (concat (map snd G))" if "x \<in> set (c # ys)" for x using that map_of_SomeD [OF k] cs by force
    have lists1: "nifo_lists nf ((c # ys) # map snd (AList.delete k G) @ [[q]] # rest)"
      by (rule nifo_lists_mset [of _ "map snd G @ [[q]] # rest"])
        (use full1 alist_rings(1) [OF D(1) k] cs in \<open>simp_all add: nifo_full_def\<close>)
    have msgs: "frag_first ?s1 c" "\<forall>y \<in> set ys. frag_frame ?s1 y" using g1 cs by (simp_all add: frag_group_def frag_msg_def)
    have room: "frag_room ?s1 q cap []" using nifo_full_blocks [OF nf(2) D(3)] by (simp add: frag_room_def cap_def)
    have small: "cap < 2 ^ 31" using D(3) nifo_cap_body(1) [OF D(3)] by (simp add: nifo_zone_def cap_def stMEMSNODEHDR_SIZE_def NIFO_SIZE_def)
    have len: "unat cnt = length (c # ys)" using cnt cs by simp
    have heads: "\<forall>y \<in> set (c # ys). hd y \<noteq> q" using ne in_G by blast
    have env': "0 < fe_CAP_HRD_LEN e" "0 < fe_INFO_ETH_SIZE e" using env by (simp_all add: frag_env_ok_def)
    have ne_cs: "c # ys \<noteq> []" by simp
    have xs1: "map (frag_of ?s1) cs = xs" using n1(2) [OF k] by (simp add: xs_def)
    obtain s2 d where m: "ip_frag_merge e ?s1 (hd c) cnt q = Some (s2, d)" "frag_in q ?s1 s2"
      "if fg_fits e cap xs then d = 0 \<and> frag_merged_into s2 q xs else d < 0"
      using ip_frag_merge_ok [OF _ msgs heads room small len env', of "map snd (AList.delete k G) @ [[q]] # rest"] lists1
      unfolding frag_merged_of [OF ne_cs] xs1 [unfolded cs] by auto
    have wf1: "mems_wf (nf_mems (fr_nifo ?s1))" using lists1 by (auto dest: nifo_listsD(1))
    have keep2: "frag_keep ?s1 s2 x" if "x \<in> set (concat (map snd G))" for x
      by (rule frag_keep_in [OF wf1 m(2) ne [OF that]])
    have same2: "fr_hash s2 = fr_hash s" "fr_frag s2 = fr_frag s" using m(2) by (simp_all add: frag_in_def)
    have in2: "nf_mems (fr_nifo s2) = nf_mems nf" "nf_procID (fr_nifo s2) = nf_procID nf" using m(2) by (simp_all add: frag_in_def nifo_in_def)
    have full2: "nifo_full (fr_nifo s2) (map snd G @ [[q]] # rest)"
      using full1 nifo_in_lists [OF frag_in_nifo [OF m(2)]] in2(1) by (simp add: nifo_full_def)
    have zone2: "nifo_zone (fr_nifo s2) zid" using zone1(1) in2 by (simp add: nifo_zone_def)
    note n2 = frag_store_nifo [OF n1(1), of s2 "[[q]] # rest", simplified, OF same2 keep2 zone2 full2, simplified]
    have keepG: "map (frag_of s2) cs' = map (frag_of s) cs'" if "map_of G k' = Some cs'" for k' cs'
      using n1(2) [OF that] n2(2) [OF that] by simp
    show ?thesis
    proof (cases "fg_fits e cap xs")
      case fits: True
      then have "d = 0" "frag_merged_into s2 q xs" using m(3) by simp_all
      then show ?thesis
        using nf(1) m(1) same2 keepG n2(1) cs True fits by (simp add: ip_frag_collect_def)
    next
      case unfit: False
      then have d: "d < 0" using m(3) by simp
      have "nifo_full (fr_nifo s2) ([[q]] # map snd G @ rest)" by (rule nifo_full_mset [OF full2]) simp
      from nifo_full_delete [OF this] obtain nf3 where nf3: "nifo_node_delete (fr_nifo s2) q = Some nf3"
        "nifo_full nf3 (map snd G @ rest)" "nifo_same (fr_nifo s2) nf3" by auto
      let ?s3 = "s2\<lparr>fr_nifo := nf3\<rparr>"
      have keep3: "frag_keep s2 ?s3 x" for x by (rule frag_keep_same) (use nf3(3) in simp_all)
      have "mems_wf (nf_mems nf3)" using nf3(2) by (auto simp: nifo_full_def dest: nifo_listsD(1))
      note n3 = frag_store_nifo [OF n2(1), of ?s3 rest, simplified, OF keep3 nifo_same_zone(1) [OF nf3(3) this zone2] nf3(2), simplified]
      show ?thesis
        using nf(1) m(1) d nf3(1) same2 keepG n3 cs unfit by (simp add: ip_frag_collect_def frag_on_nifo_def)
    qed
  qed
qed

end
