(* ===== verification/TimerNOwner.thy ===== *)
theory TimerNOwner
  imports TimerNFire
begin

text \<open>
  A client whose objects have one timer each: adding, moving and deleting the timer of an object, and what a turn of
  the wheel leaves, over the map from objects to timers.
\<close>

section \<open>Timers with owners\<close>

text \<open>The pending timers are those of the owners in \<open>T\<close>, one each: \<open>td\<close> is what an owner gives to the wheel. The
  numbers differ, and no number is above the last one that was given.\<close>

definition timerN_owned :: "('k \<Rightarrow> 'f timerNdata) \<Rightarrow> ('k \<rightharpoonup> timerNkey) \<Rightarrow> 'f timerNinfo \<Rightarrow> bool" where
  "timerN_owned td T t \<longleftrightarrow> timerN_wf t \<and>
     (\<forall>k. length (td_arg (td k)) + 16 \<le> TIMERN_BUF \<and> length (td_arg (td k)) + 16 \<le> unat (hg_usDataLen (tn_hash t))) \<and>
     dom (timerN_pending t) = ran T \<and>
     (\<forall>k i. T k = Some i \<longrightarrow> timerN_pending t i = Some (td k) \<and> tk_uiTimerNIdIndex i \<le> tn_uiTimerNIdIndex t) \<and>
     (\<forall>k k' i i'. T k = Some i \<longrightarrow> T k' = Some i' \<longrightarrow> tk_uiTimerNIdIndex i = tk_uiTimerNIdIndex i' \<longrightarrow> k = k')"

lemma timerN_ownedD:
  assumes "timerN_owned td T t"
  shows "timerN_wf t" "T k = Some i \<Longrightarrow> timerN_pending t i = Some (td k)"
    "T k = Some i \<Longrightarrow> T k' = Some i' \<Longrightarrow> tk_uiTimerNIdIndex i = tk_uiTimerNIdIndex i' \<Longrightarrow> k = k'"
    "dom (timerN_pending t) = ran T" "T k = Some i \<Longrightarrow> tk_uiTimerNIdIndex i \<le> tn_uiTimerNIdIndex t"
    "length (td_arg (td k)) + 16 \<le> TIMERN_BUF" "timerN_arg_copy t (td_arg (td k)) = td_arg (td k)"
proof -
  show "timerN_wf t" "T k = Some i \<Longrightarrow> timerN_pending t i = Some (td k)" "dom (timerN_pending t) = ran T"
    "length (td_arg (td k)) + 16 \<le> TIMERN_BUF" "T k = Some i \<Longrightarrow> tk_uiTimerNIdIndex i \<le> tn_uiTimerNIdIndex t"
    using assms by (simp_all add: timerN_owned_def)
  show "T k = Some i \<Longrightarrow> T k' = Some i' \<Longrightarrow> tk_uiTimerNIdIndex i = tk_uiTimerNIdIndex i' \<Longrightarrow> k = k'"
    using assms unfolding timerN_owned_def by blast
  have "length (td_arg (td k)) + 16 \<le> unat (hg_usDataLen (tn_hash t))" using assms by (simp add: timerN_owned_def)
  then show "timerN_arg_copy t (td_arg (td k)) = td_arg (td k)" by (simp add: timerN_arg_copy_def)
qed

lemma ran_del_unique:
  assumes "T k = Some i" "\<And>k'. k' \<noteq> k \<Longrightarrow> T k' \<noteq> Some i"
  shows "ran (T(k := None)) = ran T - {i}"
proof
  show "ran (T(k := None)) \<subseteq> ran T - {i}" using assms(2) by (auto simp: ran_def split: if_splits)
  show "ran T - {i} \<subseteq> ran (T(k := None))"
  proof
    fix j assume "j \<in> ran T - {i}"
    then obtain k' where "T k' = Some j" "j \<noteq> i" by (auto simp: ran_def)
    then have "(T(k := None)) k' = Some j" using assms(1) by auto
    then show "j \<in> ran (T(k := None))" by (rule ranI)
  qed
qed

lemma timerN_owned_add:
  assumes own: "timerN_owned td T t" and k: "T k = None"
    and time: "tn_uiCurrentTime t < timeout" "timeout \<le> tn_uiCurrentTime t + N_DAY - ONE_MINUTE"
    and room: "malloc_sound malloc" "hashg_room malloc (tn_hash t)" and idx: "tn_uiTimerNIdIndex t + 1 \<noteq> 0"
  shows "\<exists>t' i. timerN_add call malloc (w, t) (td_invoke_func (td k)) (td_arg (td k)) timeout = Some ((w, t'), timerN_id i) \<and>
    timerN_time i = timeout \<and> tn_uiCurrentTime t' = tn_uiCurrentTime t \<and> timerN_owned td (T(k \<mapsto> i)) t'"
proof -
  note D = timerN_ownedD [OF own]
  let ?i = "timerN_new_key t timeout"
  have data: "timerN_new_data t (td_invoke_func (td k)) (td_arg (td k)) = td k" by (simp add: timerN_new_data_def D(7))
  have "tn_uiTimerNIdIndex t \<noteq> -1" using idx by auto
  then have "unat (tn_uiTimerNIdIndex t) < unat (-1 :: u32)" by (simp only: word_order.not_eq_extremum word_less_nat_alt)
  from unat_Suc_bounded [OF this] have lt: "tn_uiTimerNIdIndex t < tn_uiTimerNIdIndex t + 1" unfolding word_less_nat_alt by simp
  have fresh: "tk_uiTimerNIdIndex i \<noteq> tk_uiTimerNIdIndex ?i" if "T k' = Some i" for k' i
    using order_le_less_trans [OF D(5) [OF that] lt] by (simp add: timerN_new_key_def)
  have "?i \<notin> ran T" using fresh by (auto simp: ran_def)
  then have new: "timerN_pending t ?i = None" using D(4) by (auto simp: domIff)
  obtain t' where a: "timerN_add call malloc (w, t) (td_invoke_func (td k)) (td_arg (td k)) timeout = Some ((w, t'), timerN_id ?i)"
    "timerN_wf t'" "tn_uiCurrentTime t' = tn_uiCurrentTime t" "timerN_pending t' = (timerN_pending t)(?i \<mapsto> td k)"
    by (rule timerN_add_accepted [OF D(1) time D(6) [of k] new room, of call w "td_invoke_func (td k)", unfolded data])
      (rule that; assumption)
  have g: "timerN_grow t t' 1" by (rule timerN_add_grow [OF a(1) time(1)])
  have "timerN_time ?i = timeout"
    using D(1) time by (intro timerN_new_key_time) (auto simp: timerN_wf_def timerN_const_defs)
  moreover have "timerN_owned td (T(k \<mapsto> ?i)) t'"
    unfolding timerN_owned_def
  proof (intro conjI allI impI)
    show "dom (timerN_pending t') = ran (T(k \<mapsto> ?i))" using a(4) D(4) k by simp
    show "timerN_pending t' i = Some (td k')" "tk_uiTimerNIdIndex i \<le> tn_uiTimerNIdIndex t'"
      if "(T(k \<mapsto> ?i)) k' = Some i" for k' i
      using that D(2) [of k' i] D(5) [of k' i] fresh [of k' i] lt g
      by (auto simp: a(4) timerN_grow_def timerN_new_key_def split: if_splits)
    show "k1 = k2" if "(T(k \<mapsto> ?i)) k1 = Some i1" "(T(k \<mapsto> ?i)) k2 = Some i2" "tk_uiTimerNIdIndex i1 = tk_uiTimerNIdIndex i2"
      for k1 k2 i1 i2
      using that fresh [of k1 i1] fresh [of k2 i2] D(3) [of k1 i1 k2 i2] by (auto split: if_splits)
  qed (use own a(2) g in \<open>simp_all add: timerN_owned_def timerN_grow_def\<close>)
  ultimately show ?thesis using a(1,3) by blast
qed

lemma timerN_owned_update:
  assumes own: "timerN_owned td T t" and k: "T k = Some i"
    and time: "tn_uiCurrentTime t < timeout" "timeout \<le> tn_uiCurrentTime t + N_DAY - ONE_MINUTE"
  shows "\<exists>t' i'. timerN_update call (w, t) (timerN_id i) timeout = Some ((w, t'), timerN_id i') \<and>
    timerN_time i' = timeout \<and> tn_uiCurrentTime t' = tn_uiCurrentTime t \<and> timerN_owned td (T(k \<mapsto> i')) t'"
proof -
  note D = timerN_ownedD [OF own]
  let ?i = "timerN_moved_key i timeout"
  have idx: "tk_uiTimerNIdIndex ?i = tk_uiTimerNIdIndex i" by (simp add: timerN_moved_key_def)
  have only: "k' = k" if "T k' = Some ?i" for k' by (rule D(3) [OF that k idx])
  have new: "timerN_pending t ?i = None \<or> ?i = i"
  proof (rule ccontr)
    assume "\<not> (timerN_pending t ?i = None \<or> ?i = i)"
    then have "?i \<in> ran T" "?i \<noteq> i" using D(4) by (auto simp: domIff)
    then show False using only k by (auto simp: ran_def)
  qed
  obtain t' where a: "timerN_update call (w, t) (timerN_id i) timeout = Some ((w, t'), timerN_id ?i)" "timerN_wf t'"
    "tn_uiCurrentTime t' = tn_uiCurrentTime t" "timerN_pending t' = (timerN_pending t)(i := None, ?i \<mapsto> td k)"
    by (rule timerN_update_in_range [OF D(1) D(2) [OF k] time new, of call w]) (rule that; assumption)
  have g: "timerN_grow t t' 0" by (rule timerN_update_grow [OF a(1) time(1)])
  have "timerN_time ?i = timeout"
    using D(1) time by (simp add: timerN_time_def timerN_moved_key_def timerN_wf_def timerN_params_def timerN_const_defs sint_word_of_int_small)
  moreover have "timerN_owned td (T(k \<mapsto> ?i)) t'"
    unfolding timerN_owned_def
  proof (intro conjI allI impI)
    have other: "T k' \<noteq> Some i" if "k' \<noteq> k" for k' using D(3) [of k' i k i] k that by blast
    have "ran (T(k \<mapsto> ?i)) = insert ?i (ran (T(k := None)))" using ran_map_upd [of "T(k := None)" k ?i] by simp
    moreover have "ran (T(k := None)) = ran T - {i}" by (rule ran_del_unique [of T, OF k]) (rule other)
    ultimately show "dom (timerN_pending t') = ran (T(k \<mapsto> ?i))" using a(4) D(4) by auto
    show "timerN_pending t' j = Some (td k')" "tk_uiTimerNIdIndex j \<le> tn_uiTimerNIdIndex t'"
      if "(T(k \<mapsto> ?i)) k' = Some j" for k' j
    proof -
      have n: "tn_uiTimerNIdIndex t' = tn_uiTimerNIdIndex t" using g by (simp add: timerN_grow_def)
      have "timerN_pending t' j = Some (td k') \<and> tk_uiTimerNIdIndex j \<le> tn_uiTimerNIdIndex t'"
      proof (cases "k' = k")
        case True
        then have "j = ?i" using that by simp
        then show ?thesis using True D(5) [OF k] idx n by (simp add: a(4))
      next
        case False
        then have j: "T k' = Some j" using that by simp
        then have "j \<noteq> i" "j \<noteq> ?i" using False other only by auto
        then show ?thesis using D(2,5) [OF j] n by (simp add: a(4))
      qed
      then show "timerN_pending t' j = Some (td k')" "tk_uiTimerNIdIndex j \<le> tn_uiTimerNIdIndex t'" by simp_all
    qed
    show "k1 = k2" if "(T(k \<mapsto> ?i)) k1 = Some i1" "(T(k \<mapsto> ?i)) k2 = Some i2" "tk_uiTimerNIdIndex i1 = tk_uiTimerNIdIndex i2"
      for k1 k2 i1 i2
    proof -
      have same: "\<exists>j. T x = Some j \<and> tk_uiTimerNIdIndex j = tk_uiTimerNIdIndex l" if "(T(k \<mapsto> ?i)) x = Some l" for x l
        using that k idx by (cases "x = k") auto
      show ?thesis using same [OF that(1)] same [OF that(2)] that(3) D(3) by metis
    qed
  qed (use own a(2) g in \<open>simp_all add: timerN_owned_def timerN_grow_def\<close>)
  ultimately show ?thesis using a(1,3) by blast
qed

lemma timerN_owned_del:
  assumes own: "timerN_owned td T t" and k: "T k = Some i"
  shows "\<exists>t'. timerN_del t (timerN_id i) = Some t' \<and> tn_uiCurrentTime t' = tn_uiCurrentTime t \<and> timerN_owned td (T(k := None)) t'"
proof -
  note D = timerN_ownedD [OF own]
  have "timerN_pending t i \<noteq> None" using D(2) [OF k] by simp
  then obtain t' where a: "timerN_del t (timerN_id i) = Some t'" "timerN_wf t'"
    "tn_uiCurrentTime t' = tn_uiCurrentTime t" "timerN_pending t' = (timerN_pending t)(i := None)"
    by (rule timerN_del_hit [OF D(1)]) (rule that; assumption)
  have g: "timerN_grow t t' 0" by (rule timerN_del_grow [OF a(1)])
  have other: "T k' \<noteq> Some i" if "k' \<noteq> k" for k' using D(3) [of k' i k i] k that by blast
  have "timerN_owned td (T(k := None)) t'"
    unfolding timerN_owned_def
  proof (intro conjI allI impI)
    have "ran (T(k := None)) = ran T - {i}" by (rule ran_del_unique [of T, OF k]) (rule other)
    then show "dom (timerN_pending t') = ran (T(k := None))" using a(4) D(4) by auto
    show "timerN_pending t' j = Some (td k')" "tk_uiTimerNIdIndex j \<le> tn_uiTimerNIdIndex t'"
      if "(T(k := None)) k' = Some j" for k' j
      using that D(2) [of k' j] D(5) [of k' j] other [of k'] g by (auto simp: a(4) timerN_grow_def split: if_splits)
    show "k1 = k2" if "(T(k := None)) k1 = Some i1" "(T(k := None)) k2 = Some i2" "tk_uiTimerNIdIndex i1 = tk_uiTimerNIdIndex i2"
      for k1 k2 i1 i2
      using that D(3) [of k1 i1 k2 i2] by (auto split: if_splits)
  qed (use own a(2) g in \<open>simp_all add: timerN_owned_def timerN_grow_def\<close>)
  then show ?thesis using a(1,3) by blast
qed

text \<open>The wheel turns: the owners whose time has come are called once each and own nothing any more.\<close>

definition timerN_left :: "('k \<rightharpoonup> timerNkey) \<Rightarrow> int \<Rightarrow> 'k \<rightharpoonup> timerNkey" where
  "timerN_left T now k = (case T k of Some i \<Rightarrow> if timerN_time i \<le> now then None else Some i | None \<Rightarrow> None)"

lemma timerN_left_Some [simp]: "timerN_left T now k = Some i \<longleftrightarrow> T k = Some i \<and> now < timerN_time i"
  by (auto simp: timerN_left_def split: option.splits)

lemma timerN_owned_invoke:
  assumes own: "timerN_owned td T t" and now: "0 \<le> now" "now + 1 + N_DAY < 2 ^ 31" "tn_uiCurrentTime t \<le> now + 1"
    and acts: "timerN_acts call act J (timerN_pending t)" "J w"
  shows "\<exists>ks t'. timerN_invoke call now (w, t) = Some (fold (\<lambda>k. act (td_invoke_func (td k)) (td_arg (td k))) ks w, t') \<and>
    distinct ks \<and> set ks = {k. \<exists>i. T k = Some i \<and> timerN_time i \<le> now} \<and> tn_uiCurrentTime t' = now + 1 \<and>
    timerN_owned td (timerN_left T now) t'"
proof -
  note D = timerN_ownedD [OF own]
  define own_of where "own_of i = (THE k. T k = Some i)" for i
  have uniq: "own_of i = k" if "T k = Some i" for k i
    unfolding own_of_def by (rule the_equality) (use that D(3) in blast)+
  obtain tks t' where r: "timerN_loop call (word_of_int now) (w, t) = Some (timerN_fire_all act (timerN_pending t) tks w, t')"
    "distinct tks" "set tks = {k \<in> dom (timerN_pending t). timerN_time k \<le> now}"
    "timerN_wf t'" "tn_uiCurrentTime t' = now + 1" "timerN_pending t' = timerN_pending t |` (- set tks)" "timerN_grow t t' 0"
    using timerN_loop_acts [OF D(1) refl now acts] by blast
  have own_tks: "T (own_of i) = Some i" if "i \<in> set tks" for i
  proof -
    have "i \<in> ran T" using that r(3) D(4) by auto
    then obtain k where "T k = Some i" by (auto simp: ran_def)
    then show ?thesis using uniq by simp
  qed
  have "timerN_fire_all act (timerN_pending t) tks w = fold (\<lambda>k. act (td_invoke_func (td k)) (td_arg (td k))) (map own_of tks) w"
    unfolding timerN_fire_all_def fold_map comp_def by (intro fold_cong refl) (simp add: D(2) [OF own_tks])
  moreover have "distinct (map own_of tks)"
    using r(2) own_tks by (auto simp: distinct_map inj_on_def) (metis option.inject)
  moreover have "set (map own_of tks) = {k. \<exists>i. T k = Some i \<and> timerN_time i \<le> now}"
  proof (intro equalityI subsetI)
    fix k assume "k \<in> set (map own_of tks)"
    then show "k \<in> {k. \<exists>i. T k = Some i \<and> timerN_time i \<le> now}" using own_tks r(3) by auto
  next
    fix k assume "k \<in> {k. \<exists>i. T k = Some i \<and> timerN_time i \<le> now}"
    then obtain i where i: "T k = Some i" "timerN_time i \<le> now" by blast
    have "i \<in> ran T" using i(1) by (rule ranI)
    then have "i \<in> set tks" using r(3) D(4) i(2) by auto
    then show "k \<in> set (map own_of tks)" using uniq [OF i(1)] by force
  qed
  moreover have "timerN_owned td (timerN_left T now) t'"
    unfolding timerN_owned_def
  proof (intro conjI allI impI)
    have ran: "ran (timerN_left T now) = {i \<in> ran T. now < timerN_time i}" by (auto simp: ran_def)
    show "dom (timerN_pending t') = ran (timerN_left T now)"
      unfolding ran r(6) dom_restrict r(3) D(4) by auto
    show "timerN_pending t' i = Some (td k)" "tk_uiTimerNIdIndex i \<le> tn_uiTimerNIdIndex t'" if "timerN_left T now k = Some i" for k i
      using that D(2,5) [of k i] r(7) unfolding r(6) r(3) by (simp_all add: restrict_map_def timerN_grow_def)
    show "k = k'" if "timerN_left T now k = Some i" "timerN_left T now k' = Some i'" "tk_uiTimerNIdIndex i = tk_uiTimerNIdIndex i'"
      for k k' i i'
      using that D(3) [of k i k' i'] by simp
  qed (use own r(4,7) in \<open>simp_all add: timerN_owned_def timerN_grow_def\<close>)
  ultimately show ?thesis
    using r(1,5) unfolding timerN_invoke_def by (intro exI [of _ "map own_of tks"] exI [of _ t']) simp
qed

end
