(* ===== verification/FragGroups.thy ===== *)
theory FragGroups
  imports FragStore TimerNOwner
begin

text \<open>
  A fragment arrives: \<open>frag_inv\<close> adds to the groups in memory that each of them has its own timer and that the wheel
  has no other. \<open>frag_step\<close> is what a fragment does to the groups by value, and \<open>ip_frag\<close> refines it.
\<close>

section \<open>Groups with timers\<close>

definition frag_td :: "ipfragkey \<Rightarrow> frag_timer_fn timerNdata" where
  "frag_td k = \<lparr>td_invoke_func = Invoke_del_ipfrag, td_arg = ip_frag_key_bytes k\<rparr>"

lemma frag_td_simps [simp]: "td_invoke_func (frag_td k) = Invoke_del_ipfrag" "td_arg (frag_td k) = ip_frag_key_bytes k"
  by (simp_all add: frag_td_def)

text \<open>The groups \<open>G\<close> are in memory, each one has its timer \<open>T\<close> in the wheel, and the wheel has no other.\<close>

definition frag_inv :: "u32 \<Rightarrow> fragw \<Rightarrow> frag_groups \<Rightarrow> (ipfragkey \<rightharpoonup> timerNkey) \<Rightarrow> offset list list list \<Rightarrow> bool" where
  "frag_inv zid w G T rest \<longleftrightarrow> frag_store zid (fst w) G rest \<and> timerN_owned frag_td T (snd w) \<and>
     (\<forall>k. map_option fi_timerNID (frag_entry (fst w) k) = map_option timerN_id (T k))"

lemma frag_inv_timer:
  assumes "frag_inv zid (s, t) G T rest"
  shows "T k = None \<longleftrightarrow> map_of G k = None" "frag_entry s k = Some f \<Longrightarrow> \<exists>i. T k = Some i \<and> fi_timerNID f = timerN_id i"
proof -
  have st: "frag_store zid s G rest" and e: "map_option fi_timerNID (frag_entry s k) = map_option timerN_id (T k)"
    using assms by (simp_all add: frag_inv_def)
  have "frag_entry s k = None \<longleftrightarrow> map_of G k = None"
  proof (cases "map_of G k")
    case None
    then show ?thesis using frag_store_miss [OF st None] by (simp add: frag_entry_def)
  next
    case (Some cs)
    then show ?thesis using st unfolding frag_store_def by fastforce
  qed
  then show "T k = None \<longleftrightarrow> map_of G k = None" using e by (metis map_option_is_None)
  show "frag_entry s k = Some f \<Longrightarrow> \<exists>i. T k = Some i \<and> fi_timerNID f = timerN_id i" using e by (cases "T k") auto
qed

text \<open>The clock of the wheel at a packet, and room for a new group.\<close>

definition frag_timely :: "frag_env \<Rightarrow> frag_timer_fn timerNinfo \<Rightarrow> bool" where
  "frag_timely e t \<longleftrightarrow> tn_uiCurrentTime t < fe_now e + DEF_IP_FRAG_TIMEOUT \<and>
     fe_now e + DEF_IP_FRAG_TIMEOUT \<le> tn_uiCurrentTime t + N_DAY - ONE_MINUTE"

definition frag_wheel_room :: "frag_env \<Rightarrow> frag_timer_fn timerNinfo \<Rightarrow> bool" where
  "frag_wheel_room e t \<longleftrightarrow> malloc_sound (fe_malloc e) \<and> hashg_room (fe_malloc e) (tn_hash t) \<and> tn_uiTimerNIdIndex t + 1 \<noteq> 0"

text \<open>The first fragment of a datagram.\<close>

lemma ip_frag_new_ok:
  assumes inv: "frag_inv zid (s, t) G T ([n] # rest)" and n: "frag_msg s n" "ip_frag_key (frag_info s n) = k"
    and k: "map_of G k = None" and time: "frag_timely e t"
  shows "length G \<noteq> hasho_cap (fr_hash s) \<Longrightarrow> frag_wheel_room e t \<Longrightarrow>
      \<exists>s' t' d i. ip_frag_new e (s, t) k (frag_info s n) (hd n) = Some ((s', t'), Some (d, hd n)) \<and>
        frag_inv zid (s', t') (AList.update k [n] G) (T(k \<mapsto> i)) rest \<and> timerN_time i = fe_now e + DEF_IP_FRAG_TIMEOUT \<and>
        tn_uiCurrentTime t' = tn_uiCurrentTime t \<and> hasho_at (fr_hash s') (ip_frag_key_bytes k) = Some d \<and> (\<forall>c. frag_keep s s' c) \<and>
        nf_mems (fr_nifo s') = nf_mems (fr_nifo s)"
    "length G = hasho_cap (fr_hash s) \<Longrightarrow>
      \<exists>s'. ip_frag_new e (s, t) k (frag_info s n) (hd n) = Some ((s', t), None) \<and> frag_inv zid (s', t) G T rest \<and>
        (\<forall>c. frag_keep s s' c)"
proof -
  have st: "frag_store zid s G ([n] # rest)" and own: "timerN_owned frag_td T t"
    and ids: "\<And>k. map_option fi_timerNID (frag_entry s k) = map_option timerN_id (T k)"
    using inv by (simp_all add: frag_inv_def)
  have D: "hasho_wf (fr_hash s)" "klen (fr_hash s) = 10" "dlen (fr_hash s) = 20" "nifo_zone (fr_nifo s) zid"
    "nifo_full (fr_nifo s) (map snd G @ [n] # rest)" "distinct (map fst G)"
    using st by (simp_all add: frag_store_def)
  define f where "f = \<lparr>fi_timerNID = fe_raw e, fi_cnt = 1,
    fi_finish = (if ip_frag_more (frag_info s n) = 0 then DEF_IPFRAG_FINISH else DEF_IPFRAG_NOT_FINISH), fi_offset_NODE = hd n\<rparr>"
  have l: "length (ip_frag_key_bytes k) = klen (fr_hash s)" "length (ip_frag_bytes f) = dlen (fr_hash s)" by (simp_all add: D)
  note add = hasho_at_add [OF D(1) l frag_store_miss [OF st k], of "fe_now e", unfolded frag_store_card [OF st]]
  show "\<exists>s'. ip_frag_new e (s, t) k (frag_info s n) (hd n) = Some ((s', t), None) \<and> frag_inv zid (s', t) G T rest \<and>
      (\<forall>c. frag_keep s s' c)" if full: "length G = hasho_cap (fr_hash s)"
  proof -
    have "nifo_full (fr_nifo s) ([n] # map snd G @ rest)" by (rule nifo_full_mset [OF D(5)]) simp
    from nifo_full_delete [OF this] obtain nf where nf: "nifo_node_delete (fr_nifo s) (hd n) = Some nf"
      "nifo_full nf (map snd G @ rest)" "nifo_same (fr_nifo s) nf" by auto
    let ?s = "s\<lparr>fr_nifo := nf\<rparr>"
    have keep: "frag_keep s ?s x" for x by (rule frag_keep_same) (use nf(3) in simp_all)
    have "mems_wf (nf_mems nf)" using nf(2) by (auto simp: nifo_full_def dest: nifo_listsD(1))
    note n1 = frag_store_nifo(1) [OF st, of ?s rest, simplified, OF keep nifo_same_zone(1) [OF nf(3) this D(4)] nf(2)]
    have "frag_inv zid (?s, t) G T rest" using n1 own ids by (simp add: frag_inv_def frag_entry_def)
    moreover have "ip_frag_new e (s, t) k (frag_info s n) (hd n) = Some ((?s, t), None)"
      using add(1) [OF full] nf(1) by (simp add: ip_frag_new_def f_def [symmetric] frag_on_nifo_def)
    ultimately show ?thesis using keep by blast
  qed
  assume room: "length G \<noteq> hasho_cap (fr_hash s)" and wheel: "frag_wheel_room e t"
  obtain h p d where h: "hasho_add (fe_now e) (fr_hash s) (ip_frag_key_bytes k) (ip_frag_bytes f) = Some (h, Some p)"
    "hasho_wf h" "klen h = klen (fr_hash s)" "dlen h = dlen (fr_hash s)" "hasho_data_at h p = Some d"
    "hasho_at h = (hasho_at (fr_hash s))(ip_frag_key_bytes k \<mapsto> d)" "d \<notin> ran (hasho_at (fr_hash s))"
    using add(2) [OF room] by blast
  have Tk: "T k = None" using frag_inv_timer(1) [OF inv, of k] k by simp
  let ?s1 = "s\<lparr>fr_hash := h, fr_frag := (fr_frag s)(d \<mapsto> f)\<rparr>"
  obtain t' i where t': "timerN_add frag_call (fe_malloc e) (?s1, t) Invoke_del_ipfrag (ip_frag_key_bytes k) (fe_now e + DEF_IP_FRAG_TIMEOUT) =
      Some ((?s1, t'), timerN_id i)" "timerN_time i = fe_now e + DEF_IP_FRAG_TIMEOUT" "tn_uiCurrentTime t' = tn_uiCurrentTime t"
    "timerN_owned frag_td (T(k \<mapsto> i)) t'"
    using timerN_owned_add [OF own Tk, of "fe_now e + DEF_IP_FRAG_TIMEOUT" "fe_malloc e" frag_call ?s1] time wheel
    by (auto simp: frag_timely_def frag_wheel_room_def)
  let ?f = "f\<lparr>fi_timerNID := timerN_id i\<rparr>"
  let ?s = "s\<lparr>fr_hash := h, fr_frag := (fr_frag s)(d \<mapsto> ?f)\<rparr>"
  have run: "ip_frag_new e (s, t) k (frag_info s n) (hd n) = Some ((?s, t'), Some (d, hd n))"
    using h(1,5) t'(1) by (simp add: ip_frag_new_def f_def [symmetric] ip_frag_upd_def)
  have keep: "frag_keep s ?s x" for x by (rule frag_keep_same) simp_all
  note m = frag_keepD [OF keep n(1)]
  have "fg_info (frag_of ?s n) = fg_info (frag_of s n)" using m(2) by simp
  then have grp: "frag_group ?s k ?f [n]"
    using m(1) n(2) by (simp add: frag_group_def f_def fg_last_def)
  have full: "nifo_full (fr_nifo ?s) ([n] # map snd (AList.delete k G) @ rest)"
    unfolding alist_rings(3) [OF D(6) k] by (simp, rule nifo_full_mset [OF D(5)]) simp
  have other: "hasho_at (fr_hash s) b \<noteq> Some d" for b using h(7) by (auto simp: ran_def)
  note put = frag_store_put [OF st, of ?s k d ?f "[n]" rest, simplified, OF h(2) _ _ h(6) other keep D(4) full [simplified] grp, simplified h(3,4) D(2,3), simplified]
  have "frag_inv zid (?s, t') (AList.update k [n] G) (T(k \<mapsto> i)) rest"
    unfolding frag_inv_def using put ids t'(4) by simp
  then show "\<exists>s' t' d i. ip_frag_new e (s, t) k (frag_info s n) (hd n) = Some ((s', t'), Some (d, hd n)) \<and>
        frag_inv zid (s', t') (AList.update k [n] G) (T(k \<mapsto> i)) rest \<and> timerN_time i = fe_now e + DEF_IP_FRAG_TIMEOUT \<and>
        tn_uiCurrentTime t' = tn_uiCurrentTime t \<and> hasho_at (fr_hash s') (ip_frag_key_bytes k) = Some d \<and> (\<forall>c. frag_keep s s' c) \<and>
        nf_mems (fr_nifo s') = nf_mems (fr_nifo s)"
    using run t'(2,3) h(6) keep by (intro exI [of _ ?s] exI [of _ t'] exI [of _ d] exI [of _ i]) simp
qed

text \<open>A further fragment goes to its place.\<close>

lemma ip_frag_have_ok:
  assumes inv: "frag_inv zid (s, t) G T ([n] # rest)" and n: "frag_msg s n" "ip_frag_key (frag_info s n) = k"
    and k: "map_of G k = Some cs" and d: "hasho_at (fr_hash s) (ip_frag_key_bytes k) = Some d"
    and time: "frag_timely e t" and len: "length cs + 1 < 2 ^ 16"
  defines "cs' \<equiv> insort_key (frag_pos s) n cs"
  shows "\<exists>s' t' i. ip_frag_have e (s, t) d (frag_info s n) (hd n) = Some ((s', t'), Some (d, hd (hd cs'))) \<and>
    frag_inv zid (s', t') (AList.update k cs' G) (T(k \<mapsto> i)) rest \<and> timerN_time i = fe_now e + DEF_IP_FRAG_TIMEOUT \<and>
    tn_uiCurrentTime t' = tn_uiCurrentTime t \<and> hasho_at (fr_hash s') (ip_frag_key_bytes k) = Some d \<and> (\<forall>c. frag_keep s s' c) \<and>
    nf_mems (fr_nifo s') = nf_mems (fr_nifo s)"
proof -
  have st: "frag_store zid s G ([n] # rest)" and own: "timerN_owned frag_td T t"
    and ids: "\<And>k. map_option fi_timerNID (frag_entry s k) = map_option timerN_id (T k)"
    using inv by (simp_all add: frag_inv_def)
  have D: "hasho_wf (fr_hash s)" "klen (fr_hash s) = 10" "dlen (fr_hash s) = 20" "nifo_zone (fr_nifo s) zid"
    "nifo_full (fr_nifo s) (map snd G @ [n] # rest)" "distinct (map fst G)"
    using st by (simp_all add: frag_store_def)
  obtain d0 f where "hasho_at (fr_hash s) (ip_frag_key_bytes k) = Some d0" "fr_frag s d0 = Some f" and g: "frag_group s k f cs"
    by (rule frag_store_hit [OF st k])
  then have f: "fr_frag s d = Some f" using d by simp
  then have ent: "frag_entry s k = Some f" using d by (simp add: frag_entry_def)
  obtain i where i: "T k = Some i" "fi_timerNID f = timerN_id i" using frag_inv_timer(2) [OF inv ent] by blast
  have cs: "cs \<noteq> []" "fi_offset_NODE f = hd (hd cs)" "unat (fi_cnt f) = length cs" "sorted (map (frag_pos s) cs)"
    "\<forall>c \<in> set cs. frag_msg s c \<and> ip_frag_key (frag_info s c) = k"
    "fi_finish f = (if \<exists>c \<in> set cs. fg_last (frag_of s c) then DEF_IPFRAG_FINISH else DEF_IPFRAG_NOT_FINISH)"
    using g by (simp_all add: frag_group_def)
  define f1 where "f1 = (if ip_frag_more (frag_info s n) = 0 then f\<lparr>fi_finish := DEF_IPFRAG_FINISH\<rparr> else f)"
  let ?s1 = "s\<lparr>fr_frag := (fr_frag s)(d \<mapsto> f1)\<rparr>"
  have keep1: "frag_keep s ?s1 x" for x by (rule frag_keep_same) simp_all
  have eth1: "ip_frag_eth ?s1 p = ip_frag_eth s p" for p by (simp add: ip_frag_eth_def)
  have info1: "frag_read ?s1 c = frag_read s c" "frag_info ?s1 c = frag_info s c" "frag_pos ?s1 c = frag_pos s c" for c
    by (simp_all add: frag_read_def frag_info_def frag_pos_def eth1)
  have pos1: "frag_pos ?s1 = frag_pos s" by (rule ext) (rule info1(3))
  have full1: "nifo_full (fr_nifo s) (cs # [n] # map snd (AList.delete k G) @ rest)"
    by (rule nifo_full_mset [OF D(5)]) (use alist_rings(1) [OF D(6) k] in simp)
  have lists1: "nifo_lists (fr_nifo ?s1) (cs # [n] # map snd (AList.delete k G) @ rest)" using full1 by (simp add: nifo_full_def)
  have "hd cs \<in> set cs" using cs(1) by simp
  then have "frag_msg s (hd cs)" using cs(5) by blast
  then have nz: "hd (hd cs) \<noteq> 0" by (simp add: frag_msg_def)
  have rd: "\<forall>c \<in> set (n # cs). frag_read ?s1 c" using n(1) cs(5) frag_msg_read(1) info1(1) by auto
  have f1: "fi_offset_NODE f1 = hd (hd cs)" "fi_cnt f1 = fi_cnt f" "fi_timerNID f1 = fi_timerNID f" using cs(2) by (simp_all add: f1_def)
  obtain h where h: "ip_frag_sort ?s1 (hd (hd cs)) (fi_cnt f) (hd n) (ip_frag_offset (frag_info s n)) = Some (frag_links ?s1 h, hd (hd cs'))"
    "nifo_lists (fr_nifo (frag_links ?s1 h)) (cs' # map snd (AList.delete k G) @ rest)"
    using ip_frag_sort_ok [OF lists1 cs(1) rd _ cs(3) nz] cs(4) unfolding pos1 info1(2) cs'_def by blast
  define f2 where "f2 = f1\<lparr>fi_offset_NODE := hd (hd cs'), fi_cnt := fi_cnt f + 1\<rparr>"
  let ?s3 = "(frag_links ?s1 h)\<lparr>fr_frag := (fr_frag s)(d \<mapsto> f2)\<rparr>"
  obtain t' j where t': "timerN_update frag_call (?s3, t) (timerN_id i) (fe_now e + DEF_IP_FRAG_TIMEOUT) = Some ((?s3, t'), timerN_id j)"
    "timerN_time j = fe_now e + DEF_IP_FRAG_TIMEOUT" "tn_uiCurrentTime t' = tn_uiCurrentTime t" "timerN_owned frag_td (T(k \<mapsto> j)) t'"
    using timerN_owned_update [OF own i(1), of "fe_now e + DEF_IP_FRAG_TIMEOUT" frag_call ?s3] time by (auto simp: frag_timely_def)
  let ?f = "f2\<lparr>fi_timerNID := timerN_id j\<rparr>"
  let ?s = "(frag_links ?s1 h)\<lparr>fr_frag := (fr_frag s)(d \<mapsto> ?f)\<rparr>"
  have run: "ip_frag_have e (s, t) d (frag_info s n) (hd n) = Some ((?s, t'), Some (d, hd (hd cs')))"
    using f h(1) t'(1) f1 i(2)
    by (simp add: ip_frag_have_def ip_frag_upd_def f1_def [symmetric] f2_def)
  have keep: "frag_keep s ?s x" for x by (rule frag_keep_same) (simp_all add: frag_links_def)
  have set_cs': "set cs' = insert n (set cs)" by (simp add: cs'_def set_insort_key)
  have of: "frag_msg ?s c" "frag_of ?s c = frag_of s c" if "c \<in> set cs'" for c
    using frag_keepD [OF keep] n(1) cs(5) that set_cs' by auto
  have info: "frag_info ?s c = frag_info s c" "frag_pos ?s c = frag_pos s c" if "c \<in> set cs'" for c
    using arg_cong [OF of(2) [OF that], of fg_info] arg_cong [OF of(2) [OF that], of fg_pos] by simp_all
  have grp: "frag_group ?s k ?f cs'"
    unfolding frag_group_def
  proof (intro conjI ballI)
    show "cs' \<noteq> []" using set_cs' by auto
    have "unat (fi_cnt f) < unat (0xFFFF :: u16)" using cs(3) len by simp
    from unat_Suc_bounded [OF this] show "unat (fi_cnt ?f) = length cs'"
      using cs(3) by (simp add: f2_def cs'_def)
    have pos: "map (frag_pos ?s) cs' = map (frag_pos s) cs'" using info(2) by simp
    show "sorted (map (frag_pos ?s) cs')" unfolding pos using cs(4) by (simp add: cs'_def sorted_insort_key)
    have "(\<exists>c \<in> set cs'. fg_last (frag_of ?s c)) = (\<exists>c \<in> set cs'. fg_last (frag_of s c))" using of(2) by simp
    moreover have "fg_last (frag_of s n) = (ip_frag_more (frag_info s n) = 0)" by (simp add: fg_last_def)
    ultimately show "fi_finish ?f = (if \<exists>c \<in> set cs'. fg_last (frag_of ?s c) then DEF_IPFRAG_FINISH else DEF_IPFRAG_NOT_FINISH)"
      using cs(6) set_cs' by (auto simp: f2_def f1_def)
    show "frag_msg ?s c" "ip_frag_key (frag_info ?s c) = k" if "c \<in> set cs'" for c
      using of(1) [OF that] info(1) [OF that] cs(5) n(2) that set_cs' by auto
  qed (simp add: f2_def)
  have lists: "nifo_lists (fr_nifo ?s) (cs' # map snd (AList.delete k G) @ rest)" using h(2) by simp
  have used: "nifo_used (nf_mems (fr_nifo ?s)) = set (concat (concat (cs' # map snd (AList.delete k G) @ rest)))"
    using full1 set_cs' by (simp add: nifo_full_def Un_assoc Un_left_commute)
  have full: "nifo_full (fr_nifo ?s) (cs' # map snd (AList.delete k G) @ rest)" using lists used by (simp only: nifo_full_def)
  have zone: "nifo_zone (fr_nifo ?s) zid" using D(4) by (simp add: nifo_zone_def)
  have other: "hasho_at (fr_hash s) b \<noteq> Some d" if "b \<noteq> ip_frag_key_bytes k" for b
    using hasho_at_inj [OF D(1) _ d, of b] that by blast
  have at: "hasho_at (fr_hash ?s) = (hasho_at (fr_hash s))(ip_frag_key_bytes k \<mapsto> d)" using d by (simp add: fun_upd_idem)
  have tab: "hasho_wf (fr_hash ?s)" "klen (fr_hash ?s) = 10" "dlen (fr_hash ?s) = 20" "fr_frag ?s = (fr_frag s)(d \<mapsto> ?f)"
    using D by simp_all
  note put = frag_store_put [OF st tab(1-3) at other tab(4) keep zone full grp]
  have "frag_inv zid (?s, t') (AList.update k cs' G) (T(k \<mapsto> j)) rest"
    unfolding frag_inv_def using put ids t'(4) by simp
  then show ?thesis
    using run t'(2,3) d keep by (intro exI [of _ ?s] exI [of _ t'] exI [of _ j]) simp
qed

section \<open>The specification\<close>

text \<open>The groups by value. A fragment joins its group in the order of the positions; when the last one of the datagram
  is there and each starts where the one before it ends, the group is taken out.\<close>

type_synonym fragstore = "ipfragkey \<rightharpoonup> fragment list"

fun fg_tiles :: "int \<Rightarrow> fragment list \<Rightarrow> bool" where
  "fg_tiles tot [] = True"
| "fg_tiles tot (x # xs) = (fg_pos x = tot \<and> fg_tiles (tot + fg_size x) xs)"

definition fg_complete :: "fragment list \<Rightarrow> bool" where
  "fg_complete xs \<longleftrightarrow> (\<exists>x \<in> set xs. fg_last x) \<and> 1 < length xs \<and> fg_tiles 0 xs"

definition fg_add :: "fragment \<Rightarrow> fragstore \<Rightarrow> fragment list" where
  "fg_add x M = insort_key fg_pos x (case M (ip_frag_key (fg_info x)) of None \<Rightarrow> [] | Some xs \<Rightarrow> xs)"

definition frag_step :: "fragment \<Rightarrow> fragstore \<Rightarrow> fragstore" where
  "frag_step x M = M(ip_frag_key (fg_info x) := (if fg_complete (fg_add x M) then None else Some (fg_add x M)))"

definition frag_abs :: "frag \<Rightarrow> frag_groups \<Rightarrow> fragstore" where
  "frag_abs s G k = map_option (map (frag_of s)) (map_of G k)"

lemma frag_tiles_of: "fg_tiles tot (map (frag_of s) cs) = frag_tiles s tot cs"
  by (induction cs arbitrary: tot) simp_all

lemma insort_key_map: "map f (insort_key (\<lambda>x. g (f x)) x xs) = insort_key g (f x) (map f xs)"
  by (induction xs) simp_all

lemma frag_result_same:
  assumes "nifo_same (fr_nifo s) (fr_nifo s')" "fr_eth s' = fr_eth s" "fr_cap s' = fr_cap s"
  shows "frag_result s' q cap eth bs = frag_result s q cap eth bs"
proof -
  have "ip_frag_eth s' q = ip_frag_eth s q" using ip_frag_eth_same [OF assms(1,2)] .
  moreover have "nifo_payload (fr_nifo s') q = nifo_payload (fr_nifo s) q"
    using assms(1) by (simp add: nifo_payload_def nifo_fill_def nifo_same_def)
  ultimately show ?thesis by (simp add: frag_result_def nifo_same_value [OF assms(1)] assms(3))
qed

text \<open>The end of a group.\<close>

lemma ip_frag_finish_ok:
  assumes inv: "frag_inv zid (s, t) G T rest" and k: "map_of G k = Some cs"
    and d: "hasho_at (fr_hash s) (ip_frag_key_bytes k) = Some d" and env: "frag_env_ok e"
  defines "xs \<equiv> map (frag_of s) cs"
  shows "\<exists>s' t' r. ip_frag_finish e (s, t) k d (hd (hd cs)) = Some ((s', t'), r) \<and> tn_uiCurrentTime t' = tn_uiCurrentTime t \<and>
    (\<forall>k' cs'. k' \<noteq> k \<longrightarrow> map_of G k' = Some cs' \<longrightarrow> map (frag_of s') cs' = map (frag_of s) cs') \<and>
    (if frag_free zid s \<and> fg_fits e (nifo_cap (fr_nifo s) zid) xs
     then \<exists>q. r = Some q \<and> frag_inv zid (s', t') (AList.delete k G) (T(k := None)) ([[q]] # rest) \<and> frag_merged_into s' q xs
     else r = None \<and> frag_inv zid (s', t') (AList.delete k G) (T(k := None)) rest)"
proof -
  have st: "frag_store zid s G rest" and own: "timerN_owned frag_td T t"
    and ids: "\<And>k. map_option fi_timerNID (frag_entry s k) = map_option timerN_id (T k)"
    using inv by (simp_all add: frag_inv_def)
  obtain d0 f where "hasho_at (fr_hash s) (ip_frag_key_bytes k) = Some d0" "fr_frag s d0 = Some f" and g: "frag_group s k f cs"
    by (rule frag_store_hit [OF st k])
  then have f: "fr_frag s d = Some f" and cnt: "unat (fi_cnt f) = length cs" using d by (simp_all add: frag_group_def)
  then have ent: "frag_entry s k = Some f" using d by (simp add: frag_entry_def)
  obtain i where i: "T k = Some i" "fi_timerNID f = timerN_id i" using frag_inv_timer(2) [OF inv ent] by blast
  obtain t' where t': "timerN_del t (timerN_id i) = Some t'" "tn_uiCurrentTime t' = tn_uiCurrentTime t"
    "timerN_owned frag_td (T(k := None)) t'" using timerN_owned_del [OF own i(1)] by blast
  obtain s2 r where c: "ip_frag_collect e s (hd (hd cs)) (fi_cnt f) = Some (s2, r)" "fr_hash s2 = fr_hash s" "fr_frag s2 = fr_frag s"
    "\<forall>k' cs'. map_of G k' = Some cs' \<longrightarrow> map (frag_of s2) cs' = map (frag_of s) cs'"
    "if frag_free zid s \<and> fg_fits e (nifo_cap (fr_nifo s) zid) xs
     then \<exists>q. r = Some q \<and> frag_store zid s2 G ([[q]] # rest) \<and> frag_merged_into s2 q xs
     else r = None \<and> frag_store zid s2 G rest"
    using ip_frag_collect_ok [OF st k cnt env] unfolding xs_def by blast
  have drop: "\<exists>s'. ip_frag_finish e (s, t) k d (hd (hd cs)) = Some ((s', t'), r) \<and>
      (\<forall>k' cs'. k' \<noteq> k \<longrightarrow> map_of G k' = Some cs' \<longrightarrow> map (frag_of s') cs' = map (frag_of s) cs') \<and>
      frag_inv zid (s', t') (AList.delete k G) (T(k := None)) R \<and> (frag_merged_into s2 q xs \<longrightarrow> frag_merged_into s' q xs)"
    if st2: "frag_store zid s2 G R" for R q
  proof -
    obtain nf h where a: "nifo_node_delete (fr_nifo s2) (hd (hd cs)) = Some nf" "hasho_del (fr_hash s2) (ip_frag_key_bytes k) = Some h"
      "frag_store zid (s2\<lparr>fr_nifo := nf, fr_hash := h\<rparr>) (AList.delete k G) R" "nifo_same (fr_nifo s2) nf"
      "hasho_at h = (hasho_at (fr_hash s2))(ip_frag_key_bytes k := None)"
      using frag_store_drop [OF st2 k] by blast
    let ?s = "s2\<lparr>fr_nifo := nf, fr_hash := h\<rparr>"
    have "ip_frag_finish e (s, t) k d (hd (hd cs)) = Some ((?s, t'), r)"
      using f c(1,2,3) a(1,2) t'(1) i(2) by (simp add: ip_frag_finish_def frag_on_nifo_def)
    moreover have keep: "frag_keep s2 ?s x" for x by (rule frag_keep_same) (use a(4) in simp_all)
    have "map (frag_of ?s) cs' = map (frag_of s) cs'" if k': "map_of G k' = Some cs'" for k' cs'
    proof -
      obtain f' where "frag_group s2 k' f' cs'" using frag_store_hit [OF st2 k'] .
      from frag_group_keep(2) [OF this] keep c(4) k' show ?thesis by metis
    qed
    moreover have "frag_entry ?s k' = (if k' = k then None else frag_entry s k')" for k'
      using a(5) c(2,3) by (simp add: frag_entry_def ip_frag_key_bytes_inj)
    then have "frag_inv zid (?s, t') (AList.delete k G) (T(k := None)) R"
      unfolding frag_inv_def using a(3) t'(3) ids by simp
    moreover have "frag_merged_into s2 q xs \<longrightarrow> frag_merged_into ?s q xs"
      unfolding frag_merged_into_def using frag_result_same [of s2 ?s] a(4) by simp
    ultimately show ?thesis by blast
  qed
  show ?thesis
  proof (cases "frag_free zid s \<and> fg_fits e (nifo_cap (fr_nifo s) zid) xs")
    case True
    then obtain q where q: "r = Some q" "frag_store zid s2 G ([[q]] # rest)" "frag_merged_into s2 q xs" using c(5) by auto
    show ?thesis using drop [OF q(2), of q] q(1,3) True t'(2) by auto
  next
    case False
    then have "r = None" "frag_store zid s2 G rest" using c(5) by auto
    then show ?thesis using drop [of rest 0] False t'(2) by auto
  qed
qed

section \<open>One fragment\<close>

lemma frag_abs_keep:
  assumes "frag_store zid s G rest" "\<forall>c. frag_keep s s' c"
  shows "frag_abs s' G = frag_abs s G"
proof
  fix k
  show "frag_abs s' G k = frag_abs s G k"
  proof (cases "map_of G k")
    case (Some cs)
    obtain f where "frag_group s k f cs" using frag_store_hit [OF assms(1) Some] .
    then show ?thesis using frag_group_keep(2) [of s k f cs s'] assms(2) Some by (simp add: frag_abs_def)
  qed (simp add: frag_abs_def)
qed

lemma alist_delete_update: "AList.delete k (AList.update k v G) = AList.delete k G"
  by (induction G) (auto simp: delete_simps)

definition frag_room_for :: "frag_env \<Rightarrow> fragw \<Rightarrow> frag_groups \<Rightarrow> ipfragkey \<Rightarrow> bool" where
  "frag_room_for e w G k \<longleftrightarrow> (case map_of G k of
     None \<Rightarrow> length G \<noteq> hasho_cap (fr_hash (fst w)) \<and> frag_wheel_room e (snd w) | Some cs \<Rightarrow> length cs + 1 < 2 ^ 16)"

lemma ip_frag_join_ok:
  assumes inv: "frag_inv zid (s, t) G T ([n] # rest)" and n: "frag_msg s n" and time: "frag_timely e t"
    and room: "frag_room_for e (s, t) G (ip_frag_key (frag_info s n))"
  defines "k \<equiv> ip_frag_key (frag_info s n)" and "xs \<equiv> fg_add (frag_of s n) (frag_abs s G)"
  shows "\<exists>s' t' d i cs. ip_frag_join e (s, t) (frag_info s n) (hd n) = Some ((s', t'), Some (d, hd (hd cs))) \<and>
    frag_inv zid (s', t') (AList.update k cs G) (T(k \<mapsto> i)) rest \<and> timerN_time i = fe_now e + DEF_IP_FRAG_TIMEOUT \<and>
    tn_uiCurrentTime t' = tn_uiCurrentTime t \<and> hasho_at (fr_hash s') (ip_frag_key_bytes k) = Some d \<and>
    map (frag_of s') cs = xs \<and> frag_abs s' (AList.update k cs G) = (frag_abs s G)(k \<mapsto> xs) \<and>
    nf_mems (fr_nifo s') = nf_mems (fr_nifo s) \<and> (\<forall>c. frag_keep s s' c)"
proof -
  have st: "frag_store zid s G ([n] # rest)" using inv by (simp add: frag_inv_def)
  have kk: "ip_frag_key (frag_info s n) = k" by (simp add: k_def)
  have wf: "hasho_wf (fr_hash s)" "length (ip_frag_key_bytes k) = klen (fr_hash s)" using st by (simp_all add: frag_store_def)
  have abs: "frag_abs s' (AList.update k cs G) = (frag_abs s G)(k \<mapsto> map (frag_of s') cs)" if "\<forall>c. frag_keep s s' c" for s' cs
    using frag_abs_keep [OF st that] by (auto simp: frag_abs_def update_conv' fun_eq_iff)
  show ?thesis
  proof (cases "map_of G k")
    case None
    then have "length G \<noteq> hasho_cap (fr_hash s)" "frag_wheel_room e t" using room by (simp_all add: frag_room_for_def k_def)
    then obtain s' t' d i where a: "ip_frag_new e (s, t) k (frag_info s n) (hd n) = Some ((s', t'), Some (d, hd n))"
      "frag_inv zid (s', t') (AList.update k [n] G) (T(k \<mapsto> i)) rest" "timerN_time i = fe_now e + DEF_IP_FRAG_TIMEOUT"
      "tn_uiCurrentTime t' = tn_uiCurrentTime t" "hasho_at (fr_hash s') (ip_frag_key_bytes k) = Some d" "\<forall>c. frag_keep s s' c"
      "nf_mems (fr_nifo s') = nf_mems (fr_nifo s)"
      using ip_frag_new_ok(1) [OF inv n kk None time] by blast
    have "hasho_find (fr_hash s) (ip_frag_key_bytes k) = Some None"
      using hasho_at_find(2) [OF wf frag_store_miss [OF st None]] .
    then have run: "ip_frag_join e (s, t) (frag_info s n) (hd n) = Some ((s', t'), Some (d, hd (hd [n])))"
      using a(1) by (simp add: ip_frag_join_def k_def)
    have xs: "xs = [frag_of s n]" using None by (simp add: xs_def fg_add_def frag_abs_def k_def)
    have "frag_keep s s' n" using a(6) by blast
    from frag_keepD(2) [OF this n] have of: "map (frag_of s') [n] = xs" by (simp add: xs)
    show ?thesis
      using run a(2-7) of abs [OF a(6), of "[n]", unfolded of] by blast
  next
    case (Some cs)
    then have len: "length cs + 1 < 2 ^ 16" using room by (simp add: frag_room_for_def k_def)
    obtain d where d: "hasho_at (fr_hash s) (ip_frag_key_bytes k) = Some d" using frag_store_hit [OF st Some] .
    obtain f where g: "frag_group s k f cs" using frag_store_hit [OF st Some] .
    define cs' where "cs' = insort_key (frag_pos s) n cs"
    obtain s' t' i where a: "ip_frag_have e (s, t) d (frag_info s n) (hd n) = Some ((s', t'), Some (d, hd (hd cs')))"
      "frag_inv zid (s', t') (AList.update k cs' G) (T(k \<mapsto> i)) rest" "timerN_time i = fe_now e + DEF_IP_FRAG_TIMEOUT"
      "tn_uiCurrentTime t' = tn_uiCurrentTime t" "hasho_at (fr_hash s') (ip_frag_key_bytes k) = Some d" "\<forall>c. frag_keep s s' c"
      "nf_mems (fr_nifo s') = nf_mems (fr_nifo s)"
      using ip_frag_have_ok [OF inv n kk Some d time len] unfolding cs'_def by blast
    obtain p where "hasho_find (fr_hash s) (ip_frag_key_bytes k) = Some (Some p)" "hasho_data_at (fr_hash s) p = Some d"
      using hasho_at_find(1) [OF wf d] by blast
    then have run: "ip_frag_join e (s, t) (frag_info s n) (hd n) = Some ((s', t'), Some (d, hd (hd cs')))"
      using a(1) by (simp add: ip_frag_join_def k_def)
    have "frag_of s' c = frag_of s c" if "c \<in> set cs'" for c
      using that frag_keepD(2) [of s s' c] a(6) n g by (auto simp: cs'_def set_insort_key frag_group_def)
    then have "map (frag_of s') cs' = map (frag_of s) cs'" by simp
    also have "\<dots> = insort_key fg_pos (frag_of s n) (map (frag_of s) cs)"
      unfolding cs'_def using insort_key_map [of "frag_of s" fg_pos n cs] by simp
    finally have of: "map (frag_of s') cs' = xs" using Some by (simp add: xs_def fg_add_def frag_abs_def k_def)
    show ?thesis
      using run a(2-7) of abs [OF a(6), of cs', unfolded of] by blast
  qed
qed

lemma ip_frag_ok:
  assumes inv: "frag_inv zid (s, t) G T ([n] # rest)" and n: "frag_msg s n" and time: "frag_timely e t"
    and room: "frag_room_for e (s, t) G (ip_frag_key (frag_info s n))" and env: "frag_env_ok e"
  defines "x \<equiv> frag_of s n"
  defines "k \<equiv> ip_frag_key (fg_info x)" and "xs \<equiv> fg_add x (frag_abs s G)"
  shows "\<exists>s' t' r G' T'. ip_frag e (s, t) (frag_info s n) (hd n) = Some ((s', t'), r) \<and>
    frag_abs s' G' = frag_step x (frag_abs s G) \<and> tn_uiCurrentTime t' = tn_uiCurrentTime t \<and>
    (if fg_complete xs then T' = T(k := None) else \<exists>i. T' = T(k \<mapsto> i) \<and> timerN_time i = fe_now e + DEF_IP_FRAG_TIMEOUT) \<and>
    (if fg_complete xs \<and> frag_free zid s \<and> fg_fits e (nifo_cap (fr_nifo s) zid) xs
     then \<exists>q. r = Some q \<and> frag_inv zid (s', t') G' T' ([[q]] # rest) \<and> frag_merged_into s' q xs
     else r = None \<and> frag_inv zid (s', t') G' T' rest) \<and>
    (\<not> fg_complete xs \<longrightarrow> nf_mems (fr_nifo s') = nf_mems (fr_nifo s) \<and> (\<forall>c. frag_keep s s' c))"
proof -
  have k_eq: "k = ip_frag_key (frag_info s n)" by (simp add: k_def x_def)
  obtain s1 t1 d i cs where j: "ip_frag_join e (s, t) (frag_info s n) (hd n) = Some ((s1, t1), Some (d, hd (hd cs)))"
    "frag_inv zid (s1, t1) (AList.update k cs G) (T(k \<mapsto> i)) rest" "timerN_time i = fe_now e + DEF_IP_FRAG_TIMEOUT"
    "tn_uiCurrentTime t1 = tn_uiCurrentTime t" "hasho_at (fr_hash s1) (ip_frag_key_bytes k) = Some d"
    "map (frag_of s1) cs = xs" "frag_abs s1 (AList.update k cs G) = (frag_abs s G)(k \<mapsto> xs)"
    "nf_mems (fr_nifo s1) = nf_mems (fr_nifo s)" "\<forall>c. frag_keep s s1 c"
    using ip_frag_join_ok [OF inv n time room] unfolding k_eq [symmetric] xs_def x_def by blast
  let ?G = "AList.update k cs G"
  have kG: "map_of ?G k = Some cs" by (simp add: update_conv')
  have st1: "frag_store zid s1 ?G rest" using j(2) by (simp add: frag_inv_def)
  obtain d0 f where "hasho_at (fr_hash s1) (ip_frag_key_bytes k) = Some d0" "fr_frag s1 d0 = Some f" and g: "frag_group s1 k f cs"
    by (rule frag_store_hit [OF st1 kG])
  then have f: "fr_frag s1 d = Some f" using j(5) by simp
  have cs: "cs \<noteq> []" "unat (fi_cnt f) = length cs" "\<forall>c \<in> set cs. frag_read s1 c"
    "fi_finish f = DEF_IPFRAG_FINISH \<longleftrightarrow> (\<exists>c \<in> set cs. fg_last (frag_of s1 c))"
    using g frag_msg_read(1) by (auto simp: frag_group_def DEF_IPFRAG_FINISH_def DEF_IPFRAG_NOT_FINISH_def)
  have "nifo_lists (fr_nifo s1) (cs # map snd (AList.delete k ?G) @ rest)"
  proof (rule nifo_lists_mset)
    show "nifo_lists (fr_nifo s1) (map snd ?G @ rest)" using st1 by (simp add: frag_store_def nifo_full_def)
    have "distinct (map fst ?G)" using st1 by (simp add: frag_store_def)
    from alist_rings(1) [OF this kG] show "mset (cs # map snd (AList.delete k ?G) @ rest) = mset (map snd ?G @ rest)" by simp
  qed
  from ip_frag_check_ok [OF this cs(1,3,2)] obtain rst where
    rst: "ip_frag_check_finish s1 (hd (hd cs)) (fi_cnt f) = Some rst" "0 < rst \<longleftrightarrow> fg_tiles 0 xs"
    unfolding frag_tiles_of [symmetric] j(6) by blast
  have len: "length xs = length cs" using j(6) by (metis length_map)
  have "fi_cnt f > 1 \<longleftrightarrow> 1 < length xs" using cs(2) len by (simp add: word_less_nat_alt)
  moreover have "fi_finish f = DEF_IPFRAG_FINISH \<longleftrightarrow> (\<exists>x \<in> set xs. fg_last x)" using cs(4) by (simp add: j(6) [symmetric])
  ultimately have complete: "fi_finish f = DEF_IPFRAG_FINISH \<and> fi_cnt f > 1 \<and> 0 < rst \<longleftrightarrow> fg_complete xs"
    using rst(2) by (auto simp: fg_complete_def)
  show ?thesis
  proof (cases "fg_complete xs")
    case False
    then have "ip_frag e (s, t) (frag_info s n) (hd n) = Some ((s1, t1), None)"
      using j(1) f rst(1) complete by (auto simp: ip_frag_def)
    moreover have "frag_abs s1 ?G = frag_step x (frag_abs s G)" using j(7) False by (simp add: frag_step_def xs_def k_def)
    ultimately show ?thesis using j(2,3,4,8,9) False by (intro exI [of _ s1] exI [of _ t1] exI [of _ None] exI [of _ ?G] exI [of _ "T(k \<mapsto> i)"]) auto
  next
    case True
    have same: "frag_free zid s1 = frag_free zid s" "nifo_cap (fr_nifo s1) zid = nifo_cap (fr_nifo s) zid"
      using j(8) by (simp_all add: frag_free_def nifo_cap_def)
    have del: "AList.delete k ?G = AList.delete k G" by (simp add: alist_delete_update)
    obtain s' t' r where r: "ip_frag_finish e (s1, t1) k d (hd (hd cs)) = Some ((s', t'), r)" "tn_uiCurrentTime t' = tn_uiCurrentTime t1"
      "\<forall>k' cs'. k' \<noteq> k \<longrightarrow> map_of ?G k' = Some cs' \<longrightarrow> map (frag_of s') cs' = map (frag_of s1) cs'"
      "if frag_free zid s \<and> fg_fits e (nifo_cap (fr_nifo s) zid) xs
       then \<exists>q. r = Some q \<and> frag_inv zid (s', t') (AList.delete k ?G) (T(k := None)) ([[q]] # rest) \<and> frag_merged_into s' q xs
       else r = None \<and> frag_inv zid (s', t') (AList.delete k ?G) (T(k := None)) rest"
      using ip_frag_finish_ok [OF j(2) kG j(5) env] unfolding same j(6) fun_upd_upd by blast
    have run: "ip_frag e (s, t) (frag_info s n) (hd n) = Some ((s', t'), r)"
      using j(1) f rst(1) complete True r(1) by (simp add: ip_frag_def k_eq)
    have "frag_abs s' (AList.delete k ?G) = (frag_abs s1 ?G)(k := None)"
    proof
      fix k'
      show "frag_abs s' (AList.delete k ?G) k' = ((frag_abs s1 ?G)(k := None)) k'"
        using r(3) [rule_format, of k'] by (cases "k' = k"; cases "map_of ?G k'") (simp_all add: frag_abs_def delete_conv')
    qed
    then have abs: "frag_abs s' (AList.delete k ?G) = frag_step x (frag_abs s G)"
      using j(7) True by (simp add: frag_step_def xs_def k_def)
    show ?thesis
      using run abs r(2,4) j(4) True
      by (intro exI [of _ s'] exI [of _ t'] exI [of _ r] exI [of _ "AList.delete k ?G"] exI [of _ "T(k := None)"]) auto
  qed
qed

end
