(* ===== verification/FragRun.thy ===== *)
theory FragRun
  imports FragGroups
begin

text \<open>
  Fragments over time: a whole datagram in any order, repeated fragments, the turn of the wheel, and runs
  (\<open>frag_run\<close>) in which messages are allocated, written and released while fragments arrive and timers fire. At the
  end a block with two messages, for the examples of \<open>FragProps\<close>.
\<close>

section \<open>A datagram in any order\<close>

text \<open>A set of fragments that is without gaps and has the last fragment of a gapless one has all of its fragments.\<close>

lemma fg_tiles_above:
  "fg_tiles m xs \<Longrightarrow> \<forall>x \<in> set xs. 0 \<le> fg_size x \<Longrightarrow> \<forall>x \<in> set xs. m \<le> fg_pos x"
  by (induction xs arbitrary: m) fastforce+

lemma fg_tiles_sorted:
  "fg_tiles m xs \<Longrightarrow> \<forall>x \<in> set xs. 0 < fg_size x \<Longrightarrow> sorted (map fg_pos xs) \<and> distinct (map fg_pos xs)"
proof (induction xs arbitrary: m)
  case (Cons x xs)
  have "\<forall>y \<in> set xs. m + fg_size x \<le> fg_pos y" using fg_tiles_above [of "m + fg_size x" xs] Cons.prems by (simp add: less_imp_le)
  then have "\<forall>y \<in> set xs. fg_pos x < fg_pos y" using Cons.prems by fastforce
  then show ?case using Cons.IH [of "m + fg_size x"] Cons.prems by fastforce
qed simp

lemma fg_tiles_part:
  assumes "fg_tiles m xs" "\<forall>x \<in> set xs. 0 < fg_size x" "fg_tiles m ys" "set ys \<subseteq> set xs" "xs \<noteq> []" "last xs \<in> set ys"
  shows "ys = xs"
  using assms
proof (induction xs arbitrary: m ys)
  case (Cons x xs)
  have above: "\<forall>z \<in> set xs. fg_pos x < fg_pos z"
    using fg_tiles_sorted [OF Cons.prems(1,2)] by (auto simp: less_le)
  obtain y ys' where ys: "ys = y # ys'" using Cons.prems(6) by (cases ys) auto
  have "fg_pos y = fg_pos x" using Cons.prems(1,3) ys by simp
  then have y: "y = x" using Cons.prems(4) ys above by auto
  have pos: "\<forall>z \<in> set ys'. fg_pos x < fg_pos z"
  proof -
    have "\<forall>z \<in> set ys. 0 < fg_size z" using Cons.prems(2,4) by blast
    from fg_tiles_sorted [OF Cons.prems(3) this] show ?thesis unfolding ys y by (auto simp: less_le)
  qed
  then have sub: "set ys' \<subseteq> set xs" using Cons.prems(4) ys by auto
  show ?case
  proof (cases "xs = []")
    case True
    then show ?thesis using sub ys y by simp
  next
    case False
    have "last xs \<noteq> x" using above False by (metis last_in_set less_irrefl)
    then have "last xs \<in> set ys'" using Cons.prems(6) ys y False by simp
    with Cons.IH [of "m + fg_size x" ys'] Cons.prems ys y sub False show ?thesis by simp
  qed
qed simp

text \<open>The fragments \<open>xs\<close> of a datagram, in order: only the last one has no more behind it.\<close>

definition fg_datagram :: "fragment list \<Rightarrow> bool" where
  "fg_datagram xs \<longleftrightarrow> 1 < length xs \<and> fg_tiles 0 xs \<and> (\<forall>x \<in> set xs. 0 < fg_size x) \<and>
     (\<forall>x \<in> set xs. fg_last x \<longleftrightarrow> x = last xs) \<and> (\<forall>x \<in> set xs. ip_frag_key (fg_info x) = ip_frag_key (fg_info (hd xs)))"

lemma fg_datagram_complete: "fg_datagram xs \<Longrightarrow> fg_complete xs"
  unfolding fg_datagram_def fg_complete_def by (metis last_in_set length_0_conv not_less_zero)

lemma fg_datagram_part:
  assumes "fg_datagram xs" "set ys \<subseteq> set xs" "fg_complete ys"
  shows "ys = xs"
proof -
  obtain y where "y \<in> set ys" "fg_last y" using assms(3) by (auto simp: fg_complete_def)
  then have "last xs \<in> set ys" using assms(1,2) by (auto simp: fg_datagram_def)
  then show ?thesis
    using assms by (intro fg_tiles_part [of 0]) (auto simp: fg_datagram_def fg_complete_def)
qed

text \<open>The fragments that have arrived, in order.\<close>

lemma fg_datagram_sort:
  assumes "fg_datagram xs" "set ys \<subseteq> set xs" "distinct ys"
  shows "set ys = set xs \<Longrightarrow> sort_key fg_pos ys = xs"
proof -
  assume eq: "set ys = set xs"
  have s: "sorted (map fg_pos xs)" "distinct (map fg_pos xs)" using fg_tiles_sorted [of 0 xs] assms(1) by (simp_all add: fg_datagram_def)
  show "sort_key fg_pos ys = xs"
  proof (rule map_sorted_distinct_set_unique [where f = fg_pos])
    show "inj_on fg_pos (set (sort_key fg_pos ys) \<union> set xs)" using s(2) eq by (simp add: distinct_map)
    show "distinct (map fg_pos (sort_key fg_pos ys))" using s(2) eq assms(3) by (simp add: distinct_map)
  qed (use s eq in simp_all)
qed

text \<open>The messages of a datagram, one after the other.\<close>

fun ip_frag_each :: "frag_env \<Rightarrow> fragw \<Rightarrow> offset list \<Rightarrow> (fragw \<times> offset option list) option" where
  "ip_frag_each e w [] = Some (w, [])"
| "ip_frag_each e w (p # ps) = do {
     eth \<leftarrow> ip_frag_eth (fst w) p;
     (w1, r) \<leftarrow> ip_frag e w eth p;
     (w2, rs) \<leftarrow> ip_frag_each e w1 ps;
     Some (w2, r # rs)
   }"

lemma insort_sort_key: "inj_on f (set (x # ys)) \<Longrightarrow> x \<notin> set ys \<Longrightarrow> insort_key f x (sort_key f ys) = sort_key f (ys @ [x])"
proof (induction ys)
  case (Cons y ys)
  have "f x \<noteq> f y" using inj_on_eq_iff [OF Cons.prems(1)] Cons.prems(2) by simp
  moreover have "insort_key f x (sort_key f ys) = sort_key f (ys @ [x])"
    using Cons.IH Cons.prems by (simp add: insert_commute)
  ultimately show ?case using insort_key_left_comm [of f x y "sort_key f ys"] by simp
qed simp

lemma ip_frag_each_ok:
  assumes inv: "frag_inv zid (s, t) G T (map (\<lambda>n. [n]) ns @ rest)" and msgs: "\<forall>n \<in> set ns. frag_msg s n"
    and dgram: "fg_datagram xs" and all: "set (ys @ map (frag_of s) ns) = set xs" "distinct (ys @ map (frag_of s) ns)" "ns \<noteq> []"
    and M: "frag_abs s G = M(k := if ys = [] then None else Some (sort_key fg_pos ys))" and k: "k = ip_frag_key (fg_info (hd xs))"
    and room: "length xs < 2 ^ 16" "ys = [] \<longrightarrow> length G \<noteq> hasho_cap (fr_hash s) \<and> frag_wheel_room e t"
    and time: "frag_timely e t" and env: "frag_env_ok e"
    and node: "frag_free zid s" "fg_fits e (nifo_cap (fr_nifo s) zid) xs" and M_k: "M k = None"
  shows "\<exists>s' t' G' T' q. ip_frag_each e (s, t) (map hd ns) = Some ((s', t'), replicate (length ns - 1) None @ [Some q]) \<and>
    frag_inv zid (s', t') G' T' ([[q]] # rest) \<and> frag_abs s' G' = M \<and> frag_merged_into s' q xs"
  using inv msgs all M room(2) time node
proof (induction ns arbitrary: s t G T ys)
  case (Cons n ns)
  let ?x = "frag_of s n"
  have inv: "frag_inv zid (s, t) G T ([n] # map (\<lambda>n. [n]) ns @ rest)" using Cons.prems(1) by simp
  have n: "frag_msg s n" using Cons.prems(2) by simp
  have x: "?x \<in> set xs" using Cons.prems(3) by auto
  have key: "ip_frag_key (frag_info s n) = k" using dgram x k by (auto simp: fg_datagram_def)
  have inj: "inj_on fg_pos (set xs)" using fg_tiles_sorted [of 0 xs] dgram by (simp add: fg_datagram_def distinct_map)
  have sub: "set (ys @ [?x]) \<subseteq> set xs" using Cons.prems(3) by auto
  have add: "fg_add ?x (frag_abs s G) = sort_key fg_pos (ys @ [?x])"
  proof -
    have "fg_add ?x (frag_abs s G) = insort_key fg_pos ?x (sort_key fg_pos ys)"
      using key Cons.prems(6) by (cases "ys = []") (simp_all add: fg_add_def)
    also have "\<dots> = sort_key fg_pos (ys @ [?x])"
      using inj_on_subset [OF inj, of "set (?x # ys)"] sub Cons.prems(4) by (intro insort_sort_key) auto
    finally show ?thesis .
  qed
  have st: "frag_store zid s G ([n] # map (\<lambda>n. [n]) ns @ rest)" using inv by (simp add: frag_inv_def)
  have rm: "frag_room_for e (s, t) G (ip_frag_key (frag_info s n))"
  proof (cases "map_of G k")
    case None
    then have "frag_abs s G k = None" by (simp add: frag_abs_def)
    then have "ys = []" using Cons.prems(6) by (auto split: if_splits)
    then show ?thesis using Cons.prems(7) None key by (simp add: frag_room_for_def)
  next
    case (Some cs)
    then have "Some (map (frag_of s) cs) = (if ys = [] then None else Some (sort_key fg_pos ys))"
      using arg_cong [OF Cons.prems(6), of "\<lambda>f. f k"] by (simp add: frag_abs_def)
    then have "map (frag_of s) cs = sort_key fg_pos ys" by (auto split: if_splits)
    from arg_cong [OF this, of length] have "length cs = length ys" by simp
    moreover have "length ys < length xs"
    proof -
      have "card (set (ys @ [?x])) \<le> card (set xs)" using sub by (intro card_mono) simp_all
      then have "length (ys @ [?x]) \<le> card (set xs)" using Cons.prems(4) distinct_card [of "ys @ [?x]"] by simp
      then show ?thesis using card_length [of xs] by simp
    qed
    ultimately show ?thesis using Some key room(1) by (simp add: frag_room_for_def)
  qed
  have eth: "ip_frag_eth s (hd n) = Some (frag_info s n)" by (rule frag_readD [OF frag_msg_read(1) [OF n]])
  obtain s1 t1 r G1 T1 where a: "ip_frag e (s, t) (frag_info s n) (hd n) = Some ((s1, t1), r)"
    "frag_abs s1 G1 = frag_step ?x (frag_abs s G)" "tn_uiCurrentTime t1 = tn_uiCurrentTime t"
    "if fg_complete (sort_key fg_pos (ys @ [?x])) \<and> frag_free zid s \<and> fg_fits e (nifo_cap (fr_nifo s) zid) (sort_key fg_pos (ys @ [?x]))
     then \<exists>q. r = Some q \<and> frag_inv zid (s1, t1) G1 T1 ([[q]] # map (\<lambda>n. [n]) ns @ rest) \<and>
       frag_merged_into s1 q (sort_key fg_pos (ys @ [?x]))
     else r = None \<and> frag_inv zid (s1, t1) G1 T1 (map (\<lambda>n. [n]) ns @ rest)"
    "\<not> fg_complete (sort_key fg_pos (ys @ [?x])) \<longrightarrow> nf_mems (fr_nifo s1) = nf_mems (fr_nifo s) \<and> (\<forall>c. frag_keep s s1 c)"
    using ip_frag_ok [OF inv n Cons.prems(8) rm env] unfolding add by metis
  have step: "frag_abs s1 G1 = M(k := if fg_complete (sort_key fg_pos (ys @ [?x])) then None else Some (sort_key fg_pos (ys @ [?x])))"
    using a(2) key unfolding frag_step_def add unfolding Cons.prems(6) fun_upd_upd by simp
  show ?case
  proof (cases "ns = []")
    case True
    have all: "sort_key fg_pos (ys @ [?x]) = xs"
      by (rule fg_datagram_sort [OF dgram]) (use Cons.prems(3,4) True in auto)
    then obtain q where "r = Some q" "frag_inv zid (s1, t1) G1 T1 ([[q]] # rest)" "frag_merged_into s1 q xs"
      using a(4) fg_datagram_complete [OF dgram] Cons.prems(9,10) True by auto
    moreover have "frag_abs s1 G1 = M" using step all fg_datagram_complete [OF dgram] M_k by (auto simp: fun_upd_idem)
    ultimately show ?thesis using a(1) eth True by auto
  next
    case False
    have part: "\<not> fg_complete (sort_key fg_pos (ys @ [?x]))"
    proof
      assume "fg_complete (sort_key fg_pos (ys @ [?x]))"
      with fg_datagram_part [OF dgram, of "sort_key fg_pos (ys @ [?x])"] sub have "sort_key fg_pos (ys @ [?x]) = xs" by simp
      then have "set (ys @ [?x]) = set xs" by (metis set_sort)
      moreover have "frag_of s (hd ns) \<in> set xs" "frag_of s (hd ns) \<notin> set (ys @ [?x])"
        using Cons.prems(3,4) False by (cases ns; force)+
      ultimately show False by blast
    qed
    then have keep: "nf_mems (fr_nifo s1) = nf_mems (fr_nifo s)" "\<And>c. frag_keep s s1 c" using a(5) by simp_all
    have of: "frag_of s1 c = frag_of s c" "frag_msg s1 c" if "c \<in> set ns" for c
      using frag_keepD [OF keep(2)] Cons.prems(2) that by auto
    then have map: "map (frag_of s1) ns = map (frag_of s) ns" by simp
    obtain s' t' G' T' q where IH: "ip_frag_each e (s1, t1) (map hd ns) = Some ((s', t'), replicate (length ns - 1) None @ [Some q])"
      "frag_inv zid (s', t') G' T' ([[q]] # rest)" "frag_abs s' G' = M" "frag_merged_into s' q xs"
    proof -
      have 1: "frag_inv zid (s1, t1) G1 T1 (map (\<lambda>n. [n]) ns @ rest)" using a(4) part by simp
      have 2: "\<forall>n \<in> set ns. frag_msg s1 n" using of(2) by blast
      have 3: "set ((ys @ [?x]) @ map (frag_of s1) ns) = set xs" unfolding map using Cons.prems(3) by auto
      have 4: "distinct ((ys @ [?x]) @ map (frag_of s1) ns)" unfolding map using Cons.prems(4) by simp
      have 6: "frag_abs s1 G1 = M(k := if ys @ [?x] = [] then None else Some (sort_key fg_pos (ys @ [?x])))" using step part by simp
      have 7: "ys @ [?x] = [] \<longrightarrow> length G1 \<noteq> hasho_cap (fr_hash s1) \<and> frag_wheel_room e t1" by simp
      have 8: "frag_timely e t1" using Cons.prems(8) a(3) by (simp add: frag_timely_def)
      have 9: "frag_free zid s1" "fg_fits e (nifo_cap (fr_nifo s1) zid) xs"
        using Cons.prems(9,10) keep(1) by (simp_all add: frag_free_def nifo_cap_def)
      from Cons.IH [OF 1 2 3 4 False 6 7 8 9] that show thesis by blast
    qed
    have "r = None" using a(4) part by simp
    moreover have "replicate (length ns) None = None # replicate (length ns - 1) (None :: offset option)"
      using False by (cases ns) simp_all
    ultimately show ?thesis using a(1) eth IH by auto
  qed
qed simp

section \<open>Repeated fragments\<close>

lemma fg_tiles_apart:
  "fg_tiles m zs \<Longrightarrow> \<forall>z \<in> set zs. 0 \<le> fg_size z \<Longrightarrow> {#x, y#} \<subseteq># mset zs \<Longrightarrow> 0 < fg_size x \<Longrightarrow> 0 < fg_size y \<Longrightarrow>
   fg_pos x \<noteq> fg_pos y"
proof (induction zs arbitrary: m)
  case (Cons a zs)
  have above: "\<forall>z \<in> set zs. fg_pos a + fg_size a \<le> fg_pos z" using fg_tiles_above [of "m + fg_size a" zs] Cons.prems(1,2) by simp
  consider "x = a" "y \<in> set zs" | "y = a" "x \<in> set zs" | "{#x, y#} \<subseteq># mset zs"
    using Cons.prems(3) by (cases "x = a"; cases "y = a") (auto simp: insert_subset_eq_iff subset_mset.diff_add_assoc2 dest: in_diffD)
  then show ?case
  proof cases
    case 3
    with Cons.IH [of "m + fg_size a"] Cons.prems show ?thesis by simp
  qed (use above Cons.prems(4,5) in fastforce)+
qed simp

lemma fg_repeat_incomplete:
  assumes "{#x, y#} \<subseteq># mset zs" "fg_pos x = fg_pos y" "0 < fg_size x" "0 < fg_size y" "\<forall>z \<in> set zs. 0 \<le> fg_size z"
  shows "\<not> fg_complete zs"
  using fg_tiles_apart [of 0 zs x y] assms by (auto simp: fg_complete_def)

section \<open>The wheel turns\<close>

text \<open>A turn of the wheel drops the groups whose time has come.\<close>

definition frag_act :: "frag_timer_fn \<Rightarrow> u8 list \<Rightarrow> frag \<Rightarrow> frag" where
  "frag_act f arg s = (case invoke_del_ipfrag arg s of Some s' \<Rightarrow> s' | None \<Rightarrow> s)"

lemma frag_act_ok:
  assumes "frag_store zid s G rest"
  shows "invoke_del_ipfrag (ip_frag_key_bytes k) s = Some (frag_act fn (ip_frag_key_bytes k) s)"
    "frag_store zid (frag_act fn (ip_frag_key_bytes k) s) (AList.delete k G) rest"
    "frag_keep s (frag_act fn (ip_frag_key_bytes k) s) c"
    "k' \<noteq> k \<Longrightarrow> frag_entry (frag_act fn (ip_frag_key_bytes k) s) k' = frag_entry s k'"
  using invoke_del_ipfrag_ok [OF assms, of "ip_frag_key_bytes k" k] by (auto simp: frag_act_def)

lemma frag_acts:
  assumes "timerN_owned frag_td T t"
  shows "timerN_acts frag_call frag_act (\<lambda>s. \<exists>G. frag_store zid s G rest) (timerN_pending t)"
  unfolding timerN_acts_def
proof (intro allI impI)
  fix s t' d assume J: "\<exists>G. frag_store zid s G rest" and d: "d \<in> ran (timerN_pending t)"
  obtain i where i: "timerN_pending t i = Some d" using d by (auto simp: ran_def)
  then have "i \<in> ran T" using timerN_ownedD(4) [OF assms] by (metis domI)
  then obtain k where "T k = Some i" by (auto simp: ran_def)
  then have d: "d = frag_td k" using timerN_ownedD(2) [OF assms] i by force
  obtain G where G: "frag_store zid s G rest" using J by blast
  show "frag_call (td_invoke_func d) (td_arg d) (s, t') = Some (frag_act (td_invoke_func d) (td_arg d) s, t') \<and>
    (\<exists>G. frag_store zid (frag_act (td_invoke_func d) (td_arg d) s) G rest)"
    using frag_act_ok(1,2) [OF G, where k = k and fn = Invoke_del_ipfrag] by (auto simp: d frag_call_def)
qed

lemma frag_act_all:
  "frag_store zid s G rest \<Longrightarrow> s' = fold (\<lambda>k. frag_act Invoke_del_ipfrag (ip_frag_key_bytes k)) ks s \<Longrightarrow>
   frag_store zid s' (fold AList.delete ks G) rest \<and> (\<forall>c. frag_keep s s' c) \<and>
    (\<forall>k. k \<notin> set ks \<longrightarrow> frag_entry s' k = frag_entry s k)"
proof (induction ks arbitrary: s G)
  case (Cons k ks)
  note a = frag_act_ok [OF Cons.prems(1), where k = k and fn = Invoke_del_ipfrag]
  have s': "s' = fold (\<lambda>k. frag_act Invoke_del_ipfrag (ip_frag_key_bytes k)) ks (frag_act Invoke_del_ipfrag (ip_frag_key_bytes k) s)"
    using Cons.prems(2) by simp
  note IH = Cons.IH [OF a(2) s']
  show ?case using IH a(4) frag_keep_trans [OF a(3)] by auto
qed auto

lemma map_of_delete_all: "map_of (fold AList.delete ks G) = map_of G |` (- set ks)"
proof (induction ks arbitrary: G)
  case (Cons k ks)
  show ?case unfolding fold.simps comp_def Cons.IH by (auto simp: delete_conv' restrict_map_def fun_eq_iff)
qed simp

lemma frag_turn_ok:
  assumes inv: "frag_inv zid (s, t) G T rest" and now: "0 \<le> now" "now + 1 + N_DAY < 2 ^ 31" "tn_uiCurrentTime t \<le> now + 1"
  shows "\<exists>s' t' G'. timerN_invoke frag_call now (s, t) = Some (s', t') \<and> tn_uiCurrentTime t' = now + 1 \<and>
    frag_inv zid (s', t') G' (timerN_left T now) rest \<and>
    frag_abs s' G' = frag_abs s G |` dom (timerN_left T now) \<and> (\<forall>c. frag_keep s s' c)"
proof -
  have st: "frag_store zid s G rest" and own: "timerN_owned frag_td T t"
    and ids: "\<And>k. map_option fi_timerNID (frag_entry s k) = map_option timerN_id (T k)"
    using inv by (simp_all add: frag_inv_def)
  obtain ks t' where r: "timerN_invoke frag_call now (s, t) = Some (fold (\<lambda>k. frag_act Invoke_del_ipfrag (ip_frag_key_bytes k)) ks s, t')"
    "set ks = {k. \<exists>i. T k = Some i \<and> timerN_time i \<le> now}" "tn_uiCurrentTime t' = now + 1"
    "timerN_owned frag_td (timerN_left T now) t'"
    using timerN_owned_invoke [OF own now frag_acts [OF own, of zid rest], of s] st by auto
  define s' where "s' = fold (\<lambda>k. frag_act Invoke_del_ipfrag (ip_frag_key_bytes k)) ks s"
  define G' where "G' = fold AList.delete ks G"
  have a: "frag_store zid s' G' rest" "\<And>c. frag_keep s s' c" "\<And>k. k \<notin> set ks \<Longrightarrow> frag_entry s' k = frag_entry s k"
    using frag_act_all [OF st s'_def] by (simp_all add: s'_def G'_def)
  have left: "timerN_left T now k = (if k \<in> set ks then None else T k)" for k
    using r(2) by (auto simp: timerN_left_def split: option.splits)
  have G': "map_of G' = map_of G |` (- set ks)" by (simp add: G'_def map_of_delete_all)
  have "map_option fi_timerNID (frag_entry s' k) = map_option timerN_id (timerN_left T now k)" for k
  proof (cases "k \<in> set ks")
    case True
    then have "map_of G' k = None" using G' by simp
    from frag_store_miss [OF a(1) this] True show ?thesis by (simp add: left frag_entry_def)
  next
    case False
    then show ?thesis using a(3) ids by (simp add: left)
  qed
  then have "frag_inv zid (s', t') G' (timerN_left T now) rest" using a(1) r(4) by (simp add: frag_inv_def)
  moreover have "frag_abs s' G' = frag_abs s G |` dom (timerN_left T now)"
  proof
    fix k
    have "frag_abs s' G = frag_abs s G" by (rule frag_abs_keep [OF st]) (use a(2) in blast)
    then have "frag_abs s' G' k = (if k \<in> set ks then None else frag_abs s G k)"
      using G' by (auto simp: frag_abs_def fun_eq_iff)
    moreover have "T k = None \<Longrightarrow> frag_abs s G k = None" using frag_inv_timer(1) [OF inv, of k] by (simp add: frag_abs_def)
    ultimately show "frag_abs s' G' k = (frag_abs s G |` dom (timerN_left T now)) k"
      by (simp add: restrict_map_def domIff left)
  qed
  ultimately show ?thesis using r(1,3) a(2) unfolding s'_def [symmetric] by blast
qed

section \<open>Runs\<close>

text \<open>Messages that are not in a group are given in any order.\<close>

lemma frag_store_perm: "frag_store zid s G rest \<Longrightarrow> mset rest' = mset rest \<Longrightarrow> frag_store zid s G rest'"
  unfolding frag_store_def by (metis nifo_full_mset mset_append)

lemma frag_inv_perm: "frag_inv zid w G T rest \<Longrightarrow> mset rest' = mset rest \<Longrightarrow> frag_inv zid w G T rest'"
  unfolding frag_inv_def using frag_store_perm by blast

lemma frag_inv_nifo:
  assumes "frag_inv zid (s, t) G T rest" "fr_hash s' = fr_hash s" "fr_frag s' = fr_frag s"
    "\<And>c. c \<in> set (concat (map snd G)) \<Longrightarrow> frag_keep s s' c"
    "nifo_zone (fr_nifo s') zid" "nifo_full (fr_nifo s') (map snd G @ rest')"
  shows "frag_inv zid (s', t) G T rest'" "frag_abs s' G = frag_abs s G"
proof -
  have st: "frag_store zid s G rest" using assms(1) by (simp add: frag_inv_def)
  note n = frag_store_nifo [OF st assms(2-6)]
  show "frag_inv zid (s', t) G T rest'" using assms(1-3) n(1) by (simp add: frag_inv_def frag_entry_def)
  have "map_option (map (frag_of s')) (map_of G k) = map_option (map (frag_of s)) (map_of G k)" for k
    using n(2) [of k] by (cases "map_of G k") simp_all
  then show "frag_abs s' G = frag_abs s G" by (simp add: frag_abs_def fun_eq_iff)
qed

text \<open>A message comes, is written and goes.\<close>

lemma frag_inv_alloc:
  assumes inv: "frag_inv zid (s, t) G T rest" and a: "nifo_node_alloc (fr_nifo s) now = Some (nf, Some q)"
  shows "frag_inv zid (s\<lparr>fr_nifo := nf\<rparr>, t) G T ([[q]] # rest)" "frag_abs (s\<lparr>fr_nifo := nf\<rparr>) G = frag_abs s G"
    "nifo_fresh (fr_nifo s) nf zid q" "hd c \<noteq> q \<Longrightarrow> frag_keep s (s\<lparr>fr_nifo := nf\<rparr>) c"
proof -
  have D: "nifo_full (fr_nifo s) (map snd G @ rest)" "nifo_zone (fr_nifo s) zid" using inv by (simp_all add: frag_inv_def frag_store_def)
  have "mems_live (nf_mems (fr_nifo s)) zid \<noteq> mems_cells (nf_mems (fr_nifo s)) zid"
    using nifo_full_alloc(2) [OF D, of now] a by auto
  then have n: "nifo_fresh (fr_nifo s) nf zid q" "nifo_full nf ([[q]] # map snd G @ rest)"
    using nifo_full_alloc(1) [OF D, of now] a by auto
  show "nifo_fresh (fr_nifo s) nf zid q" by (rule n(1))
  let ?s = "s\<lparr>fr_nifo := nf\<rparr>"
  show keep: "frag_keep s ?s c" if "hd c \<noteq> q" for c
    by (rule frag_keep_fresh [OF D(2) _ that]) (use n(1) in simp_all)
  have ne: "hd c \<noteq> q" if "c \<in> set (concat (map snd G))" for c by (rule frag_store_heads [OF n(2)]) (use that in auto)
  have full: "nifo_full nf (map snd G @ [[q]] # rest)" by (rule nifo_full_mset [OF n(2)]) simp
  have zone: "nifo_zone nf zid" using n(1) by (simp add: nifo_fresh_def)
  note r = frag_inv_nifo [OF inv, of ?s "[[q]] # rest", simplified, OF keep [OF ne] zone full, simplified]
  show "frag_inv zid (?s, t) G T ([[q]] # rest)" "frag_abs ?s G = frag_abs s G" using r by simp_all
qed

lemma frag_inv_full:
  assumes inv: "frag_inv zid (s, t) G T rest" and a: "nifo_node_alloc (fr_nifo s) now = Some (nf, None)"
  shows "frag_inv zid (s\<lparr>fr_nifo := nf\<rparr>, t) G T rest"
proof -
  have D: "nifo_full (fr_nifo s) (map snd G @ rest)" "nifo_zone (fr_nifo s) zid" using inv by (simp_all add: frag_inv_def frag_store_def)
  have "mems_live (nf_mems (fr_nifo s)) zid = mems_cells (nf_mems (fr_nifo s)) zid"
    using nifo_full_alloc(1) [OF D, of now] a by auto
  then have n: "nifo_same (fr_nifo s) nf" "nifo_zone nf zid" "nifo_full nf (map snd G @ rest)"
    using nifo_full_alloc(2) [OF D, of now] a by auto
  let ?s = "s\<lparr>fr_nifo := nf\<rparr>"
  have keep: "frag_keep s ?s x" for x by (rule frag_keep_same) (use n(1) in simp_all)
  show ?thesis using frag_inv_nifo(1) [OF inv, of ?s rest] keep n(2,3) by simp
qed

lemma frag_inv_write:
  assumes inv: "frag_inv zid (s, t) G T rest" and q: "[[q]] \<in> set rest" and w: "frag_in q s s'"
  shows "frag_inv zid (s', t) G T rest" "frag_abs s' G = frag_abs s G" "hd c \<noteq> q \<Longrightarrow> frag_keep s s' c"
proof -
  have D: "nifo_full (fr_nifo s) (map snd G @ rest)" "nifo_zone (fr_nifo s) zid" using inv by (simp_all add: frag_inv_def frag_store_def)
  have same: "fr_hash s' = fr_hash s" "fr_frag s' = fr_frag s" "nf_mems (fr_nifo s') = nf_mems (fr_nifo s)"
    "nf_procID (fr_nifo s') = nf_procID (fr_nifo s)" using w by (simp_all add: frag_in_def nifo_in_def)
  have wf: "mems_wf (nf_mems (fr_nifo s))" using D(1) by (auto simp: nifo_full_def dest: nifo_listsD(1))
  show keep: "frag_keep s s' c" if "hd c \<noteq> q" for c by (rule frag_keep_in [OF wf w that])
  obtain xs ys where r: "rest = xs @ [[q]] # ys" using q by (meson split_list)
  have "nifo_full (fr_nifo s) ([[q]] # map snd G @ xs @ ys)" by (rule nifo_full_mset [OF D(1)]) (simp add: r)
  then have ne: "hd c \<noteq> q" if "c \<in> set (concat (map snd G))" for c by (rule frag_store_heads) (use that in auto)
  have full: "nifo_full (fr_nifo s') (map snd G @ rest)"
    using D(1) nifo_in_lists [OF frag_in_nifo [OF w]] same(3) by (simp add: nifo_full_def)
  have zone: "nifo_zone (fr_nifo s') zid" using D(2) same(3,4) by (simp add: nifo_zone_def)
  note n = frag_inv_nifo [OF inv same(1,2) keep [OF ne] zone full]
  show "frag_inv zid (s', t) G T rest" "frag_abs s' G = frag_abs s G" using n by simp_all
qed

lemma frag_inv_delete:
  assumes inv: "frag_inv zid (s, t) G T ((c # cs) # rest)"
  shows "\<exists>nf. nifo_node_delete (fr_nifo s) (hd c) = Some nf \<and> frag_inv zid (s\<lparr>fr_nifo := nf\<rparr>, t) G T rest"
proof -
  have D: "nifo_full (fr_nifo s) (map snd G @ (c # cs) # rest)" "nifo_zone (fr_nifo s) zid"
    using inv by (simp_all add: frag_inv_def frag_store_def)
  have "nifo_full (fr_nifo s) ((c # cs) # map snd G @ rest)" by (rule nifo_full_mset [OF D(1)]) simp
  from nifo_full_delete [OF this] obtain nf where nf: "nifo_node_delete (fr_nifo s) (hd c) = Some nf"
    "nifo_full nf (map snd G @ rest)" "nifo_same (fr_nifo s) nf" by auto
  let ?s = "s\<lparr>fr_nifo := nf\<rparr>"
  have keep: "frag_keep s ?s x" for x by (rule frag_keep_same) (use nf(3) in simp_all)
  have "mems_wf (nf_mems nf)" using nf(2) by (auto simp: nifo_full_def dest: nifo_listsD(1))
  then show ?thesis
    using frag_inv_nifo(1) [OF inv, of ?s rest] keep nf nifo_same_zone(1) [OF nf(3) _ D(2)] by simp
qed

text \<open>A packet is handled whatever the table holds: it is full, or the fragment joins a group.\<close>

definition frag_ready :: "frag_env \<Rightarrow> fragw \<Rightarrow> ipfragkey \<Rightarrow> bool" where
  "frag_ready e w k \<longleftrightarrow> frag_env_ok e \<and> frag_timely e (snd w) \<and> frag_wheel_room e (snd w) \<and>
     (\<forall>f. frag_entry (fst w) k = Some f \<longrightarrow> unat (fi_cnt f) + 1 < 2 ^ 16)"

lemma ip_frag_full_ok:
  assumes inv: "frag_inv zid (s, t) G T ([n] # rest)" and n: "frag_msg s n" and time: "frag_timely e t"
    and k: "frag_abs s G (ip_frag_key (frag_info s n)) = None" and full: "length G = hasho_cap (fr_hash s)"
  shows "\<exists>s'. ip_frag e (s, t) (frag_info s n) (hd n) = Some ((s', t), None) \<and> frag_inv zid (s', t) G T rest \<and>
    frag_abs s' G = frag_abs s G"
proof -
  have st: "frag_store zid s G ([n] # rest)" using inv by (simp add: frag_inv_def)
  have wf: "hasho_wf (fr_hash s)" "length (ip_frag_key_bytes k) = klen (fr_hash s)" for k using st by (simp_all add: frag_store_def)
  have none: "map_of G (ip_frag_key (frag_info s n)) = None" using k by (simp add: frag_abs_def)
  obtain s' where a: "ip_frag_new e (s, t) (ip_frag_key (frag_info s n)) (frag_info s n) (hd n) = Some ((s', t), None)"
    "frag_inv zid (s', t) G T rest" "\<forall>c. frag_keep s s' c"
    using ip_frag_new_ok(2) [OF inv n refl none time full] by blast
  have "ip_frag e (s, t) (frag_info s n) (hd n) = Some ((s', t), None)"
    using a(1) hasho_at_find(2) [OF wf frag_store_miss [OF st none]] by (simp add: ip_frag_def ip_frag_join_def)
  then show ?thesis using a(2) frag_abs_keep [OF st a(3)] by blast
qed

lemma frag_ready_room:
  assumes inv: "frag_inv zid (s, t) G T rest" and r: "frag_ready e (s, t) k"
    and "map_of G k = None \<Longrightarrow> length G \<noteq> hasho_cap (fr_hash s)"
  shows "frag_room_for e (s, t) G k"
proof (cases "map_of G k")
  case None
  then show ?thesis using assms by (simp add: frag_room_for_def frag_ready_def)
next
  case (Some cs)
  obtain f where "frag_entry s k = Some f" "frag_group s k f cs" using inv Some unfolding frag_inv_def frag_store_def fst_conv by blast
  then show ?thesis using r Some by (simp add: frag_room_for_def frag_ready_def frag_group_def)
qed

lemma ip_frag_total:
  assumes inv: "frag_inv zid (s, t) G T ([n] # rest)" and n: "frag_msg s n"
    and ready: "frag_ready e (s, t) (ip_frag_key (frag_info s n))"
  shows "\<exists>w' r G' T'. ip_frag e (s, t) (frag_info s n) (hd n) = Some (w', r) \<and>
    frag_inv zid w' G' T' ((case r of None \<Rightarrow> [] | Some q \<Rightarrow> [[[q]]]) @ rest)"
proof (cases "map_of G (ip_frag_key (frag_info s n)) = None \<and> length G = hasho_cap (fr_hash s)")
  case True
  have "frag_abs s G (ip_frag_key (frag_info s n)) = None" using True by (simp add: frag_abs_def)
  from ip_frag_full_ok [OF inv n _ this] True ready obtain s' where
    "ip_frag e (s, t) (frag_info s n) (hd n) = Some ((s', t), None)" "frag_inv zid (s', t) G T rest" by (auto simp: frag_ready_def)
  then show ?thesis by (intro exI [of _ "(s', t)"] exI [of _ None] exI [of _ G] exI [of _ T]) simp
next
  case False
  have room: "frag_room_for e (s, t) G (ip_frag_key (frag_info s n))" by (rule frag_ready_room [OF inv ready]) (use False in blast)
  have e: "frag_timely e t" "frag_env_ok e" using ready by (simp_all add: frag_ready_def)
  obtain s' t' r G' T' where a: "ip_frag e (s, t) (frag_info s n) (hd n) = Some ((s', t'), r)"
    "(\<exists>q. r = Some q \<and> frag_inv zid (s', t') G' T' ([[q]] # rest)) \<or> r = None \<and> frag_inv zid (s', t') G' T' rest"
    using ip_frag_ok [OF inv n e(1) room e(2)] by (metis (full_types))
  then show ?thesis by (intro exI [of _ "(s', t')"] exI [of _ r] exI [of _ G'] exI [of _ T']) auto
qed

text \<open>The life of the block: messages are allocated, written and released, fragments are handed to \<open>ip_frag\<close> and the
  wheel turns. \<open>ns\<close> are the messages that the process holds itself.\<close>

inductive frag_run :: "u32 \<Rightarrow> fragw \<Rightarrow> offset list list \<Rightarrow> bool" for zid where
  frag_run_start: "frag_inv zid w [] Map.empty [] \<Longrightarrow> frag_run zid w []"
| frag_run_alloc: "frag_run zid (s, t) ns \<Longrightarrow> nifo_node_alloc (fr_nifo s) now = Some (nf, r) \<Longrightarrow>
    frag_run zid (s\<lparr>fr_nifo := nf\<rparr>, t) ((case r of None \<Rightarrow> [] | Some q \<Rightarrow> [[q]]) @ ns)"
| frag_run_write: "frag_run zid (s, t) ns \<Longrightarrow> [q] \<in> set ns \<Longrightarrow> frag_in q s s' \<Longrightarrow> frag_run zid (s', t) ns"
| frag_run_delete: "frag_run zid (s, t) ns \<Longrightarrow> n \<in> set ns \<Longrightarrow> nifo_node_delete (fr_nifo s) (hd n) = Some nf \<Longrightarrow>
    frag_run zid (s\<lparr>fr_nifo := nf\<rparr>, t) (remove1 n ns)"
| frag_run_packet: "frag_run zid (s, t) ns \<Longrightarrow> n \<in> set ns \<Longrightarrow> frag_msg s n \<Longrightarrow> frag_ready e (s, t) (ip_frag_key (frag_info s n)) \<Longrightarrow>
    ip_frag e (s, t) (frag_info s n) (hd n) = Some (w', r) \<Longrightarrow>
    frag_run zid w' ((case r of None \<Rightarrow> [] | Some q \<Rightarrow> [[q]]) @ remove1 n ns)"
| frag_run_turn: "frag_run zid (s, t) ns \<Longrightarrow> 0 \<le> now \<Longrightarrow> now + 1 + N_DAY < 2 ^ 31 \<Longrightarrow> tn_uiCurrentTime t \<le> now + 1 \<Longrightarrow>
    timerN_invoke frag_call now (s, t) = Some w' \<Longrightarrow> frag_run zid w' ns"

definition frag_rings :: "offset list list \<Rightarrow> offset list list list" where
  "frag_rings ns = map (\<lambda>n. [n]) ns"

lemma frag_rings_simps [simp]:
  "frag_rings [] = []" "frag_rings (n # ns) = [n] # frag_rings ns" "frag_rings (ms @ ns) = frag_rings ms @ frag_rings ns"
  by (simp_all add: frag_rings_def)

lemma frag_rings_remove1: "n \<in> set ns \<Longrightarrow> mset ([n] # frag_rings (remove1 n ns)) = mset (frag_rings ns)"
  by (induction ns) auto

lemma frag_run_inv:
  "frag_run zid w ns \<Longrightarrow> \<exists>G T. frag_inv zid w G T (frag_rings ns)"
proof (induction rule: frag_run.induct)
  case (frag_run_start w)
  then show ?case by (intro exI [of _ "[]"] exI [of _ Map.empty]) simp
next
  case (frag_run_alloc s t ns now nf r)
  then obtain G T where inv: "frag_inv zid (s, t) G T (frag_rings ns)" by blast
  show ?case
  proof (cases r)
    case None
    then show ?thesis using frag_inv_full [OF inv] frag_run_alloc.hyps(2) by (intro exI [of _ G] exI [of _ T]) simp
  next
    case (Some q)
    then show ?thesis using frag_inv_alloc(1) [OF inv] frag_run_alloc.hyps(2) by (intro exI [of _ G] exI [of _ T]) simp
  qed
next
  case (frag_run_write s t ns q s')
  then obtain G T where inv: "frag_inv zid (s, t) G T (frag_rings ns)" by blast
  have "[[q]] \<in> set (frag_rings ns)" using frag_run_write.hyps(2) by (simp add: frag_rings_def)
  from frag_inv_write(1) [OF inv this frag_run_write.hyps(3)] show ?case by blast
next
  case (frag_run_delete s t ns n nf)
  then obtain G T where "frag_inv zid (s, t) G T (frag_rings ns)" by blast
  then have inv: "frag_inv zid (s, t) G T ([n] # frag_rings (remove1 n ns))"
    using frag_inv_perm frag_rings_remove1 [OF frag_run_delete.hyps(2)] by blast
  from frag_inv_delete [OF inv] frag_run_delete.hyps(3) show ?case by auto
next
  case (frag_run_packet s t ns n e w' r)
  then obtain G T where "frag_inv zid (s, t) G T (frag_rings ns)" by blast
  then have inv: "frag_inv zid (s, t) G T ([n] # frag_rings (remove1 n ns))"
    using frag_inv_perm frag_rings_remove1 [OF frag_run_packet.hyps(2)] by blast
  obtain w1 r1 G' T' where a: "ip_frag e (s, t) (frag_info s n) (hd n) = Some (w1, r1)"
    "frag_inv zid w1 G' T' ((case r1 of None \<Rightarrow> [] | Some q \<Rightarrow> [[[q]]]) @ frag_rings (remove1 n ns))"
    using ip_frag_total [OF inv frag_run_packet.hyps(3,4)] by blast
  then show ?case using frag_run_packet.hyps(5) by (intro exI [of _ G'] exI [of _ T']) (cases r1, auto)
next
  case (frag_run_turn s t ns now w')
  then obtain G T where inv: "frag_inv zid (s, t) G T (frag_rings ns)" by blast
  from frag_turn_ok [OF inv frag_run_turn.hyps(2-4)] frag_run_turn.hyps(5) show ?case by auto
qed

section \<open>A message is written\<close>

text \<open>The capture process allocates the three records of a message and fills them: the message is a fragment.\<close>

lemma frag_room_add:
  assumes "frag_room s q cap rs" "cap < 2 ^ 31" "length (nifo_encode rs) + 8 + L \<le> cap"
  obtains s' w where "frag_in q s s'" "length w = L" "frag_room s' q cap (rs @ [(type, w)])"
proof -
  have "unat (of_nat L :: u32) = L" using assms(2,3) by (simp add: unat_of_nat take_bit_nat_eq_self)
  then show thesis using ip_frag_alloc_ok [OF assms(1,2), of type "of_nat L"] assms(3) that by auto
qed

lemma frag_write_ok:
  assumes room: "frag_room s q cap []" "cap < 2 ^ 31" "26 + length bs \<le> cap" and q: "0 < q"
    and cap_len: "0 \<le> cp_datalen ch" "cp_datalen ch \<le> int (length bs)"
    and size: "0 \<le> ip_frag_size eth" "DEF_MAC_SIZE + uint (ip_wIPHeaderLen (ie_stIP eth)) + ip_frag_size eth \<le> int (length bs)"
  obtains s' where "frag_in q s s'" "frag_msg s' [q]"
    "frag_of s' [q] = \<lparr>fg_info = eth, fg_cap = ch, fg_frame = take (nat (cp_datalen ch)) bs,
       fg_data = take (nat (ip_frag_size eth)) (drop (nat (DEF_MAC_SIZE + uint (ip_wIPHeaderLen (ie_stIP eth)))) bs)\<rparr>"
proof -
  obtain s1 w1 where 1: "frag_in q s s1" "length w1 = 1" "frag_room s1 q cap [(CAP_HEADER_NUM, w1)]"
    using frag_room_add [OF room(1,2), of 1 CAP_HEADER_NUM] room(3) by auto
  obtain s2 w2 where 2: "frag_in q s1 s2" "length w2 = 1" "frag_room s2 q cap [(CAP_HEADER_NUM, w1), (INFO_ETH_NUM, w2)]"
    using frag_room_add [OF 1(3) room(2), of 1 INFO_ETH_NUM] room(3) 1(2) by auto
  define rs where "rs = [(CAP_HEADER_NUM, w1), (INFO_ETH_NUM, w2)]"
  have rs_len: "length (nifo_encode rs) = 18" using 1(2) 2(2) by (simp add: rs_def)
  obtain s3 w3 where 3: "frag_in q s2 s3" "length w3 = length bs" "frag_room s3 q cap (rs @ [(ETH_DATA_NUM, w3)])"
    using frag_room_add [OF 2(3) [folded rs_def] room(2), of "length bs" ETH_DATA_NUM] room(3) rs_len by auto
  define v where "v = q + NIFO_SIZE + 26"
  define s4 where "s4 = s3\<lparr>fr_nifo := (fr_nifo s3)\<lparr>nf_mem := wr_bytes (nf_mem (fr_nifo s3)) v bs\<rparr>\<rparr>"
  have 4: "frag_in q s3 s4" "frag_room s4 q cap (rs @ [(ETH_DATA_NUM, bs)])"
    using frag_fill_ok [OF 3(3), of bs v] 3(2) rs_len by (simp_all add: s4_def v_def)
  define p1 where "p1 = q + NIFO_SIZE + 8"
  define p2 where "p2 = q + NIFO_SIZE + 17"
  define s' where "s' = s4\<lparr>fr_cap := (fr_cap s4)(p1 \<mapsto> ch), fr_eth := (fr_eth s4)(p2 \<mapsto> eth)\<rparr>"
  have room': "frag_room s' q cap (rs @ [(ETH_DATA_NUM, bs)])" using 4(2) by (simp add: s'_def)
  note R = room' [unfolded frag_room_def]
  obtain n where n: "nf_node (fr_nifo s') q = Some n" "nn_maxoffset n = NIFO_SIZE + int cap" using R nifo_node_okD by metis
  define s5 where "s5 = s4\<lparr>fr_cap := (fr_cap s4)(p1 \<mapsto> ch)\<rparr>"
  have n4: "nifo_block (fr_nifo s4) q" "nf_node (fr_nifo s4) q = Some n" using 4(2) n(1) by (simp_all add: s'_def frag_room_def)
  have "frag_in q s4 s5"
    unfolding s5_def by (rule frag_in_write(1) [OF n4]) (use n(2) room(3) in \<open>simp_all add: p1_def\<close>)
  moreover have "frag_in q s5 (s5\<lparr>fr_eth := (fr_eth s5)(p2 \<mapsto> eth)\<rparr>)"
    by (rule frag_in_write(2) [where n = n]) (use n4 n(2) room(3) in \<open>simp_all add: p2_def s5_def\<close>)
  ultimately have "frag_in q s4 s'" using frag_in_trans by (simp add: s5_def s'_def)
  then have in': "frag_in q s s'" using frag_in_trans 1(1) 2(1) 3(1) 4(1) by blast
  have pay: "nifo_payload (fr_nifo s') q = nifo_encode [] @ le32_bytes CAP_HEADER_NUM @
      (le32_bytes (of_nat (length w1)) @ w1 @ nifo_encode [(INFO_ETH_NUM, w2), (ETH_DATA_NUM, bs)])"
    "nifo_payload (fr_nifo s') q = nifo_encode [(CAP_HEADER_NUM, w1)] @ le32_bytes INFO_ETH_NUM @
      (le32_bytes (of_nat (length w2)) @ w2 @ nifo_encode [(ETH_DATA_NUM, bs)])"
    "nifo_payload (fr_nifo s') q = nifo_encode rs @ le32_bytes ETH_DATA_NUM @ (le32_bytes (of_nat (length bs)) @ bs)"
    using R by (simp_all add: rs_def)
  have small: "length w1 < 2 ^ 31" "length w2 < 2 ^ 31" using 1(2) 2(2) by simp_all
  have get: "nifo_get_value (fr_nifo s') CAP_HEADER_NUM q = Some (Some p1)"
    "nifo_get_value (fr_nifo s') INFO_ETH_NUM q = Some (Some p2)" "nifo_get_value (fr_nifo s') ETH_DATA_NUM q = Some (Some v)"
    using nifo_value_at [of "fr_nifo s'" q, OF _ pay(1)] nifo_value_at [of "fr_nifo s'" q, OF _ pay(2)]
      nifo_value_at [of "fr_nifo s'" q, OF _ pay(3)] R small 1(2) 2(2) rs_len
    by (simp_all add: p1_def p2_def v_def rs_def add.assoc)
  have st: "fr_cap s' p1 = Some ch" "fr_eth s' p2 = Some eth" by (simp_all add: s'_def)
  have eth: "ip_frag_eth s' q = Some eth" using get(2) st by (simp add: ip_frag_eth_def)
  then have i: "frag_read s' [q]" "frag_info s' [q] = eth" "frag_data s' [q] = v" "frag_cap s' [q] = ch"
    using get st by (simp_all add: frag_read_def frag_info_def frag_data_def frag_cap_def)
  have data: "frag_has_data s' [q] k" if "0 \<le> k" "k \<le> int (length bs)" for k
    using R n get(3) that room(3) by (simp add: frag_has_data_def i v_def)
  have "frag_msg s' [q]"
    unfolding frag_msg_def frag_frame_def frag_first_def i frag_size_def frag_skip_def
    using data cap_len size get(1) st(1) q i(1) by (simp add: DEF_MAC_SIZE_def)
  have slice: "rd_bytes (nf_mem (fr_nifo s')) (v + k) m = take m (drop (nat k) bs)" if "0 \<le> k" "k + int m \<le> int (length bs)" for k m
  proof -
    have "nifo_payload (fr_nifo s') q = (nifo_encode rs @ le32_bytes ETH_DATA_NUM @ le32_bytes (of_nat (length bs)) @ take (nat k) bs) @
        take m (drop (nat k) bs) @ drop m (drop (nat k) bs)"
      using pay(3) by (simp del: drop_drop)
    from nifo_payload_slice [OF this] that rs_len show ?thesis by (simp add: v_def add.assoc)
  qed
  have of: "frag_of s' [q] = \<lparr>fg_info = eth, fg_cap = ch, fg_frame = take (nat (cp_datalen ch)) bs,
       fg_data = take (nat (ip_frag_size eth)) (drop (nat (DEF_MAC_SIZE + uint (ip_wIPHeaderLen (ie_stIP eth)))) bs)\<rparr>"
    using slice [of 0 "nat (cp_datalen ch)"] slice [of "frag_skip s' [q]" "nat (ip_frag_size eth)"] cap_len size
    by (simp add: frag_of_def i frag_head_def frag_bytes_def frag_size_def frag_skip_def DEF_MAC_SIZE_def)
  show thesis by (rule that [OF in' \<open>frag_msg s' [q]\<close> of])
qed

section \<open>A block for the examples\<close>

definition frag_demo_conf :: memsconf where
  "frag_demo_conf = nifo_demo_conf\<lparr>mc_stMEMSZONECONF := [\<lparr>zc_uiZoneID = 0, zc_uiSemFlag = MEMS_SEMA_ON, zc_uiSemKey = 8100,
     zc_uiMemNodeBodySize = 256, zc_uiMemNodeTotCnt = 4\<rparr>]\<rparr>"

definition frag_demo :: frag where
  "frag_demo = \<lparr>fr_nifo = nifo_demo\<lparr>nf_mems := the (mems_fresh mems_demo_os frag_demo_conf)\<rparr>,
     fr_hash = hasho_made Map.empty (\<lambda>_. 0) 0 10 20 2 hasho_func_default,
     fr_frag = Map.empty, fr_cap = Map.empty, fr_eth = Map.empty\<rparr>"

definition frag_demo_wheel :: "frag_timer_fn timerNinfo" where
  "frag_demo_wheel = the (timerN_init True True True 1000 100 16)"

definition frag_demo_env :: frag_env where
  "frag_demo_env = \<lparr>fe_CAP_HRD_LEN = 1, fe_INFO_ETH_SIZE = 1, fe_now = 1000, fe_malloc = bump_malloc, fe_raw = 0\<rparr>"

lemma frag_demo_mems:
  "mems_wf (nf_mems (fr_nifo frag_demo))" "mems_live (nf_mems (fr_nifo frag_demo)) 0 = {}"
  "length (mi_stMEMSZONE (nf_mems (fr_nifo frag_demo))) = 1"
proof -
  have ok: "memsconf_ok mems_demo_os frag_demo_conf"
    by (simp add: memsconf_ok_def frag_demo_conf_def nifo_demo_conf_def mems_demo_os_def mems_sem_had_def
        mems_total_size_def zoneconf_size_def mems_const_defs less_Suc_eq)
  obtain m where m: "mems_fresh mems_demo_os frag_demo_conf = Some m" "mems_wf m"
    "\<forall>zid. unat zid < length (mi_stMEMSZONE m) \<longrightarrow> mems_live m zid = {}" "mi_uiZoneCnt m = mc_uiZoneCnt frag_demo_conf"
    using mems_fresh_wf [OF ok] by blast
  have "length (mi_stMEMSZONE m) = 1" using m(2,4) by (simp add: mems_wf_def frag_demo_conf_def nifo_demo_conf_def)
  then show "mems_wf (nf_mems (fr_nifo frag_demo))" "mems_live (nf_mems (fr_nifo frag_demo)) 0 = {}"
    "length (mi_stMEMSZONE (nf_mems (fr_nifo frag_demo))) = 1"
    using m(1-3) by (simp_all add: frag_demo_def)
qed

lemma frag_demo_zone:
  "nifo_zone (fr_nifo frag_demo) 0" "nifo_cap (fr_nifo frag_demo) 0 = 192" "card (mems_cells (nf_mems (fr_nifo frag_demo)) 0) = 4"
proof -
  note defs = frag_demo_def nifo_demo_def mems_fresh_def frag_demo_conf_def nifo_demo_conf_def mems_demo_os_def mems_sem_init_def
    mems_const_defs Let_def
  have z: "mz_uiMemNodeBodySize (mi_stMEMSZONE (nf_mems (fr_nifo frag_demo)) ! 0) = 256"
    "0 \<le> mz_offsetNodeStart (mi_stMEMSZONE (nf_mems (fr_nifo frag_demo)) ! 0)"
    "mz_uiMemNodeTotCnt (mi_stMEMSZONE (nf_mems (fr_nifo frag_demo)) ! 0) = 4"
    "mi_uiMatrixZoneID (nf_mems (fr_nifo frag_demo)) = [0]"
    "mi_uiMemNodeHdrSize (nf_mems (fr_nifo frag_demo)) = word_of_int stMEMSNODEHDR_SIZE" "nf_procID (fr_nifo frag_demo) = 0"
    by (simp_all add: defs)
  have pos: "\<forall>p \<in> mems_cells (nf_mems (fr_nifo frag_demo)) 0. 0 < p"
    using z(1,2) by (auto simp: mems_cells_def memszone_nodes_def slots_def slot_at_def memszone_stride_def stMEMSNODEHDR_SIZE_def)
  have body: "mems_body (nf_mems (fr_nifo frag_demo)) 0 = 256" using z(1) by (simp add: mems_body_def)
  show "nifo_zone (fr_nifo frag_demo) 0"
    unfolding nifo_zone_def body mems_valid_def
    using frag_demo_mems(1,3) z(4-6) pos by (simp add: INVALID_ID_def NIFO_SIZE_def TLV_SIZE_def stMEMSNODEHDR_SIZE_def)
  show "nifo_cap (fr_nifo frag_demo) 0 = 192" by (simp add: nifo_cap_def body NIFO_SIZE_def)
  have "card (memszone_nodes (mi_stMEMSZONE (nf_mems (fr_nifo frag_demo)) ! 0)) = 4"
    using z(3) by (simp add: memszone_nodes_def card_slots)
  then show "card (mems_cells (nf_mems (fr_nifo frag_demo)) 0) = 4" by (simp add: mems_cells_def card_image)
qed

lemma frag_demo_hash:
  "hasho_wf (fr_hash frag_demo)" "klen (fr_hash frag_demo) = 10" "dlen (fr_hash frag_demo) = 20" "hasho_cap (fr_hash frag_demo) = 10"
  "hasho_at (fr_hash frag_demo) = Map.empty"
proof -
  let ?h = "hasho_made Map.empty (\<lambda>_. 0) 0 10 20 2 hasho_func_default"
  have rep: "hasho_rep ?h (\<lambda>_. [])"
    by (rule hasho_made_rep [OF _ refl])
      (simp_all add: hasho_const_defs hasho_default_total, simp_all add: hasho_made_def hasho_default_total)
  then show wf: "hasho_wf (fr_hash frag_demo)" by (auto simp: hasho_wf_def frag_demo_def)
  show "klen (fr_hash frag_demo) = 10" "dlen (fr_hash frag_demo) = 20" "hasho_cap (fr_hash frag_demo) = 10"
    by (simp_all add: klen_def dlen_def hasho_cap_def frag_demo_def hasho_made_def)
  have none: "hasho_nodes ?h = {}" by (simp add: hasho_nodes_def hasho_made_def memg_fresh_wf)
  show "hasho_at (fr_hash frag_demo) = Map.empty"
  proof
    fix k
    show "hasho_at (fr_hash frag_demo) k = None"
      using hasho_find_miss [OF rep, of k] none by (simp add: hasho_at_def frag_demo_def)
  qed
qed

lemma frag_demo_wheel_ok:
  "timerN_owned frag_td Map.empty frag_demo_wheel" "frag_timely frag_demo_env frag_demo_wheel"
  "frag_wheel_room frag_demo_env frag_demo_wheel" "tn_uiCurrentTime frag_demo_wheel = 1000"
proof -
  have init: "timerN_init True True True 1000 100 16 = Some frag_demo_wheel"
    by (simp add: frag_demo_wheel_def timerN_init_def hashg_init_def)
  note w = timerN_init_wf [OF init]
  have wf: "timerN_wf frag_demo_wheel" "timerN_pending frag_demo_wheel = Map.empty" and now: "tn_uiCurrentTime frag_demo_wheel = 1000"
    using w by (simp_all add: N_DAY_def)
  show "tn_uiCurrentTime frag_demo_wheel = 1000" by (rule now)
  have len: "hg_usDataLen (tn_hash frag_demo_wheel) = 40" "tn_uiTimerNIdIndex frag_demo_wheel = 1"
    by (simp_all add: frag_demo_wheel_def timerN_init_def hashg_init_def stTIMERNDATA_SIZE_def)
  show "timerN_owned frag_td Map.empty frag_demo_wheel"
    using wf len by (simp add: timerN_owned_def TIMERN_BUF_def)
  show "frag_timely frag_demo_env frag_demo_wheel"
    using now by (simp add: frag_timely_def frag_demo_env_def DEF_IP_FRAG_TIMEOUT_def N_DAY_def ONE_MINUTE_def)
  have "hashg_room bump_malloc (tn_hash frag_demo_wheel)"
    by (simp add: hashg_room_def frag_demo_wheel_def timerN_init_def hashg_init_def bump_malloc_def N_DAY_def)
  then show "frag_wheel_room frag_demo_env frag_demo_wheel"
    using len bump_malloc_sound by (simp add: frag_wheel_room_def frag_demo_env_def)
qed

lemma frag_demo_inv: "frag_inv 0 (frag_demo, frag_demo_wheel) [] Map.empty []"
proof -
  have used: "nifo_used (nf_mems (fr_nifo frag_demo)) = {}"
    using frag_demo_mems(2,3) by (auto simp: nifo_used_def unat_eq_0)
  have "nifo_full (fr_nifo frag_demo) []" using frag_demo_mems(1) used by (simp add: nifo_full_def nifo_lists_def)
  then have "frag_store 0 frag_demo [] []"
    using frag_demo_hash frag_demo_zone(1) by (simp add: frag_store_def)
  then show ?thesis using frag_demo_wheel_ok(1) frag_demo_hash(5) by (simp add: frag_inv_def frag_entry_def)
qed

text \<open>Two fragments of eight bytes each; \<open>ipfrag\<close> is the flags and the offset of the fragment.\<close>

definition frag_demo_eth :: "u16 \<Rightarrow> infoeth" where
  "frag_demo_eth ipfrag = \<lparr>ie_usL4Code = 0, ie_usL7Code = 0, ie_usAppCode = 0,
     ie_stIP = \<lparr>ip_wTotalLength = 28, ip_wIPHeaderLen = 20, ip_ucProtocol = 17, ip_usIdent = 5, ip_usIPFrag = ipfrag,
       ip_dwSrcIP = 1, ip_dwDestIP = 2\<rparr>,
     ie_stUDPTCP = \<lparr>ut_nControlType = 0, ut_wDataLen = 0, ut_wSrcPort = 0, ut_wDestPort = 0, ut_seq = 0, ut_ack = 0,
       ut_window = 0, ut_mss = 0\<rparr>, ie_offset = 0\<rparr>"

definition frag_demo_cap :: caphead where
  "frag_demo_cap = \<lparr>cp_bRtxType = 0, cp_curtime = 0, cp_ucurtime = 0, cp_datalen = 42\<rparr>"

definition frag_demo_fg :: "u16 \<Rightarrow> fragment" where
  "frag_demo_fg ipfrag = \<lparr>fg_info = frag_demo_eth ipfrag, fg_cap = frag_demo_cap, fg_frame = replicate 42 (ucast ipfrag),
     fg_data = replicate 8 (ucast ipfrag)\<rparr>"

lemma frag_demo_key: "ip_frag_key (frag_demo_eth i) = \<lparr>fk_sip = 1, fk_dip = 2, fk_identification = 5\<rparr>"
  by (simp add: ip_frag_key_def frag_demo_eth_def)

lemma frag_demo_fg_simps:
  "fg_size (frag_demo_fg i) = 8" "fg_pos (frag_demo_fg i) = uint ((i AND 0x1FFF) * 8)" "fg_last (frag_demo_fg i) = (i AND 0x2000 = 0)"
  "ip_frag_key (fg_info (frag_demo_fg i)) = \<lparr>fk_sip = 1, fk_dip = 2, fk_identification = 5\<rparr>"
  "fg_frame (frag_demo_fg i) = replicate 42 (ucast i)" "fg_data (frag_demo_fg i) = replicate 8 (ucast i)"
  by (simp_all add: frag_demo_fg_def fg_size_def ip_frag_size_def frag_demo_eth_def fg_pos_def ip_frag_offset_def fg_last_def
      ip_frag_more_def IP_FRAG_OFFSET_def IP_FRAG_MORE_def ip_frag_key_def)

text \<open>One more message in the block.\<close>

lemma frag_demo_message:
  assumes run: "frag_run 0 (s, t) ns" and inv: "frag_inv 0 (s, t) [] Map.empty (frag_rings ns)"
    and cap: "nifo_cap (fr_nifo s) 0 = 192" "card (mems_cells (nf_mems (fr_nifo s)) 0) = 4"
    and live: "card (mems_live (nf_mems (fr_nifo s)) 0) = length ns" "length ns < 4"
  obtains s' n where "frag_run 0 (s', t) (n # ns)" "frag_inv 0 (s', t) [] Map.empty (frag_rings (n # ns))"
    "nifo_cap (fr_nifo s') 0 = 192" "card (mems_cells (nf_mems (fr_nifo s')) 0) = 4"
    "card (mems_live (nf_mems (fr_nifo s')) 0) = Suc (length ns)" "frag_msg s' n" "frag_of s' n = frag_demo_fg i"
    "\<forall>m \<in> set ns. frag_msg s m \<longrightarrow> frag_msg s' m \<and> frag_of s' m = frag_of s m" "fr_hash s' = fr_hash s" "fr_frag s' = fr_frag s"
proof -
  have D: "nifo_full (fr_nifo s) (frag_rings ns)" "nifo_zone (fr_nifo s) 0" using inv by (simp_all add: frag_inv_def frag_store_def)
  have "mems_live (nf_mems (fr_nifo s)) 0 \<noteq> mems_cells (nf_mems (fr_nifo s)) 0" using live cap(2) by auto
  then obtain nf q where a: "nifo_node_alloc (fr_nifo s) 1 = Some (nf, Some q)" "nifo_fresh (fr_nifo s) nf 0 q"
    "nifo_full nf ([[q]] # frag_rings ns)"
    using nifo_full_alloc(1) [OF D] by blast
  let ?s = "s\<lparr>fr_nifo := nf\<rparr>"
  note in1 = frag_inv_alloc [OF inv a(1)]
  have fin: "finite (mems_live (nf_mems (fr_nifo s)) 0)" by (rule finite_subset [OF mems_live_cells finite_mems_cells])
  have F: "nifo_cap nf 0 = 192" "card (mems_cells (nf_mems nf) 0) = 4" "card (mems_live (nf_mems nf) 0) = Suc (length ns)"
    "0 < q" using a(2) cap live D(2) fin by (auto simp: nifo_fresh_def nifo_zone_def)
  have room: "frag_room ?s q 192 []" using nifo_full_blocks [OF a(2) D(2)] cap(1) by (simp add: frag_room_def)
  have eth: "ip_frag_size (frag_demo_eth i) = 8" "DEF_MAC_SIZE + uint (ip_wIPHeaderLen (ie_stIP (frag_demo_eth i))) = 34"
    by (simp_all add: ip_frag_size_def frag_demo_eth_def DEF_MAC_SIZE_def)
  obtain s' where s': "frag_in q ?s s'" "frag_msg s' [q]" "frag_of s' [q] = frag_demo_fg i"
  proof -
    note fin_msg = that
    show thesis
    proof (rule frag_write_ok [OF room _ _ F(4), of "replicate 42 (ucast i)" frag_demo_cap "frag_demo_eth i"])
      show thesis if "frag_in q ?s s'" "frag_msg s' [q]"
      "frag_of s' [q] = \<lparr>fg_info = frag_demo_eth i, fg_cap = frag_demo_cap, fg_frame = take (nat (cp_datalen frag_demo_cap)) (replicate 42 (ucast i)),
         fg_data = take (nat (ip_frag_size (frag_demo_eth i)))
           (drop (nat (DEF_MAC_SIZE + uint (ip_wIPHeaderLen (ie_stIP (frag_demo_eth i))))) (replicate 42 (ucast i)))\<rparr>" for s'
      by (rule fin_msg [OF that(1,2)]) (use that(3) eth in \<open>simp add: frag_demo_fg_def frag_demo_cap_def\<close>)
    qed (use eth in \<open>simp_all add: frag_demo_cap_def\<close>)
  qed
  have "frag_run 0 (?s, t) ([q] # ns)" using frag_run_alloc [OF run a(1)] by simp
  then have run': "frag_run 0 (s', t) ([q] # ns)" by (rule frag_run_write) (use s'(1) in simp_all)
  have "frag_inv 0 (s', t) [] Map.empty (frag_rings ([q] # ns))" and keep: "\<And>c. hd c \<noteq> q \<Longrightarrow> frag_keep ?s s' c"
    using frag_inv_write [OF in1(1) _ s'(1)] by simp_all
  moreover have "\<forall>m \<in> set ns. frag_msg s m \<longrightarrow> frag_msg s' m \<and> frag_of s' m = frag_of s m"
  proof
    fix m assume "m \<in> set ns"
    then have "hd m \<noteq> q" by (intro frag_store_heads [OF a(3)]) (auto simp: frag_rings_def)
    from frag_keep_trans [OF in1(4) [OF this] keep [OF this]]
    show "frag_msg s m \<longrightarrow> frag_msg s' m \<and> frag_of s' m = frag_of s m" by (simp add: frag_keep_def)
  qed
  moreover have "nf_mems (fr_nifo s') = nf_mems nf" "fr_hash s' = fr_hash s" "fr_frag s' = fr_frag s"
    using s'(1) by (simp_all add: frag_in_def nifo_in_def)
  ultimately show thesis using that run' F s'(2,3) by (simp add: nifo_cap_def)
qed

lemma frag_demo_two:
  obtains s n1 n2 where "frag_run 0 (s, frag_demo_wheel) [n2, n1]" "frag_inv 0 (s, frag_demo_wheel) [] Map.empty [[n2], [n1]]"
    "frag_msg s n1" "frag_msg s n2" "frag_of s n1 = frag_demo_fg i1" "frag_of s n2 = frag_demo_fg i2" "frag_free 0 s"
    "nifo_cap (fr_nifo s) 0 = 192" "hasho_cap (fr_hash s) = 10"
proof -
  have run: "frag_run 0 (frag_demo, frag_demo_wheel) []" by (rule frag_run_start) (rule frag_demo_inv)
  obtain s1 n1 where 1: "frag_run 0 (s1, frag_demo_wheel) [n1]" "frag_inv 0 (s1, frag_demo_wheel) [] Map.empty (frag_rings [n1])"
    "nifo_cap (fr_nifo s1) 0 = 192" "card (mems_cells (nf_mems (fr_nifo s1)) 0) = 4"
    "card (mems_live (nf_mems (fr_nifo s1)) 0) = 1" "frag_msg s1 n1" "frag_of s1 n1 = frag_demo_fg i1" "fr_hash s1 = fr_hash frag_demo"
    by (rule frag_demo_message [OF run, of i1]) (use frag_demo_inv frag_demo_zone frag_demo_mems(2) in simp_all)
  obtain s n2 where "frag_run 0 (s, frag_demo_wheel) [n2, n1]" "frag_inv 0 (s, frag_demo_wheel) [] Map.empty (frag_rings [n2, n1])"
    "nifo_cap (fr_nifo s) 0 = 192" "card (mems_cells (nf_mems (fr_nifo s)) 0) = 4"
    "card (mems_live (nf_mems (fr_nifo s)) 0) = 2" "frag_msg s n2" "frag_of s n2 = frag_demo_fg i2" "fr_hash s = fr_hash s1"
    "frag_msg s n1" "frag_of s n1 = frag_of s1 n1"
    by (rule frag_demo_message [OF 1(1,2,3,4), of i2]) (use 1(5,6) in simp_all)
  moreover then have "frag_free 0 s" by (auto simp: frag_free_def)
  ultimately show thesis using that 1(7,8) frag_demo_hash(4) by simp
qed

end
