(* ===== verification/FragProps.thy ===== *)
theory FragProps
  imports FragRun
begin

text \<open>
  What the reassembly of IP fragments does, as properties with examples: one fragment, a datagram in any order, the
  turn of the wheel, repeated fragments, and whole runs.
\<close>

section \<open>Any order\<close>

text \<open>C5: The fragments of a datagram arrive one after the other in any order: \<open>ip_frag\<close> answers NULL to all but the
  last, and to the last one a new node with the merged datagram: the frame of the first fragment and the payloads of
  the others in the order of the offsets. The group is gone afterwards, and the other groups are what they were.\<close>

theorem ip_frag_any_order:
  assumes "frag_inv zid (s, t) G T (frag_rings ns @ rest)" "\<forall>n \<in> set ns. frag_msg s n"
    and "fg_datagram xs" "set (map (frag_of s) ns) = set xs" "distinct (map (frag_of s) ns)" "length xs < 2 ^ 16"
    and "frag_abs s G (ip_frag_key (fg_info (hd xs))) = None" "length G \<noteq> hasho_cap (fr_hash s)"
    and "frag_wheel_room e t" "frag_timely e t" "frag_env_ok e"
    and "frag_free zid s" "fg_fits e (nifo_cap (fr_nifo s) zid) xs"
  shows "\<exists>s' t' G' T' q. ip_frag_each e (s, t) (map hd ns) = Some ((s', t'), replicate (length ns - 1) None @ [Some q]) \<and>
    frag_inv zid (s', t') G' T' ([[q]] # rest) \<and> frag_abs s' G' = frag_abs s G \<and> frag_merged_into s' q xs"
proof -
  have ne: "ns \<noteq> []" using assms(3,4) by (auto simp: fg_datagram_def)
  have M: "frag_abs s G = (frag_abs s G)(ip_frag_key (fg_info (hd xs)) := None)" using assms(7) by (simp add: fun_upd_idem)
  show ?thesis
    using ip_frag_each_ok [OF assms(1) [unfolded frag_rings_def] assms(2,3), where ys = "[]" and M = "frag_abs s G" and e = e]
      assms(4-) ne M by simp
qed

lemma frag_demo_datagram: "fg_datagram [frag_demo_fg 0x2000, frag_demo_fg 1]"
proof -
  have "frag_demo_fg 0x2000 \<noteq> frag_demo_fg 1" using frag_demo_fg_simps(3) [of "0x2000"] frag_demo_fg_simps(3) [of 1] by (auto simp: and_numerals)
  then show ?thesis by (simp add: fg_datagram_def frag_demo_fg_simps)
qed

text \<open>The second of two fragments comes first.\<close>

theorem ip_frag_any_order_witness:
  "\<exists>s n1 n2 s' t' q. frag_of s n1 = frag_demo_fg 0x2000 \<and> frag_of s n2 = frag_demo_fg 1 \<and>
     ip_frag_each frag_demo_env (s, frag_demo_wheel) [hd n2, hd n1] = Some ((s', t'), [None, Some q]) \<and>
     frag_merged_into s' q [frag_demo_fg 0x2000, frag_demo_fg 1]"
proof -
  let ?x1 = "frag_demo_fg 0x2000" and ?x2 = "frag_demo_fg 1"
  obtain s n1 n2 where d: "frag_inv 0 (s, frag_demo_wheel) [] Map.empty [[n2], [n1]]" "frag_msg s n1" "frag_msg s n2"
    "frag_of s n1 = ?x1" "frag_of s n2 = ?x2" "frag_free 0 s" "nifo_cap (fr_nifo s) 0 = 192" "hasho_cap (fr_hash s) = 10"
    by (rule frag_demo_two [where ?i1.0 = "0x2000" and ?i2.0 = "1"])
  have fits: "fg_fits frag_demo_env 192 [?x1, ?x2]"
    by (simp add: fg_fits_def fg_merged_def frag_demo_fg_simps frag_demo_env_def)
  have ne: "?x1 \<noteq> ?x2" using frag_demo_datagram by (auto simp: fg_datagram_def frag_demo_fg_simps)
  have env: "frag_env_ok frag_demo_env" by (simp add: frag_env_ok_def frag_demo_env_def)
  have "\<exists>s' t' G' T' q. ip_frag_each frag_demo_env (s, frag_demo_wheel) (map hd [n2, n1]) =
      Some ((s', t'), replicate (length [n2, n1] - 1) None @ [Some q]) \<and>
    frag_inv 0 (s', t') G' T' ([[q]] # []) \<and> frag_abs s' G' = frag_abs s [] \<and> frag_merged_into s' q [?x1, ?x2]"
    by (rule ip_frag_any_order [OF _ _ frag_demo_datagram _ _ _ _ _ frag_demo_wheel_ok(3,2) env])
      (use d fits ne in \<open>auto simp: frag_abs_def\<close>)
  then obtain s' t' q where "ip_frag_each frag_demo_env (s, frag_demo_wheel) [hd n2, hd n1] = Some ((s', t'), [None, Some q])"
    "frag_merged_into s' q [?x1, ?x2]" by auto
  then show ?thesis using d(4,5) by blast
qed

section \<open>One fragment\<close>

text \<open>C12: \<open>ip_frag\<close> refines the groups by value. A fragment joins its group in the order of the offsets; when the last
  fragment of the datagram is there and each one starts where the one before it ends, the group and its timer are taken
  out, and its datagram is the answer if a node is left and takes it. Otherwise the answer is NULL and the timer of the
  group is due three seconds from now. The nodes, the table and the wheel keep their invariant on every path.\<close>

theorem ip_frag_refines_step:
  assumes "frag_inv zid (s, t) G T ([n] # rest)" "frag_msg s n" "frag_timely e t"
    and "frag_room_for e (s, t) G (ip_frag_key (frag_info s n))" "frag_env_ok e"
  defines "x \<equiv> frag_of s n"
  defines "k \<equiv> ip_frag_key (fg_info x)" and "xs \<equiv> fg_add x (frag_abs s G)"
  shows "\<exists>s' t' r G' T'. ip_frag e (s, t) (frag_info s n) (hd n) = Some ((s', t'), r) \<and>
    frag_abs s' G' = frag_step x (frag_abs s G) \<and>
    (if fg_complete xs then T' = T(k := None) else \<exists>i. T' = T(k \<mapsto> i) \<and> timerN_time i = fe_now e + DEF_IP_FRAG_TIMEOUT) \<and>
    (if fg_complete xs \<and> frag_free zid s \<and> fg_fits e (nifo_cap (fr_nifo s) zid) xs
     then \<exists>q. r = Some q \<and> frag_inv zid (s', t') G' T' ([[q]] # rest) \<and> frag_merged_into s' q xs
     else r = None \<and> frag_inv zid (s', t') G' T' rest)"
  using ip_frag_ok [OF assms(1-5)] unfolding x_def k_def xs_def by blast

text \<open>The first fragment waits: its timer is due at second 1003.\<close>

lemma frag_demo_alone: "\<not> fg_complete [x]"
  by (simp add: fg_complete_def)

lemma frag_demo_room:
  assumes "hasho_cap (fr_hash s) = 10"
  shows "frag_room_for frag_demo_env (s, frag_demo_wheel) [] k"
  using assms frag_demo_wheel_ok(3) by (simp add: frag_room_for_def)

lemma frag_demo_env_ok: "frag_env_ok frag_demo_env" "fe_now frag_demo_env + DEF_IP_FRAG_TIMEOUT = 1003"
  by (simp_all add: frag_env_ok_def frag_demo_env_def DEF_IP_FRAG_TIMEOUT_def)

theorem ip_frag_refines_step_witness:
  "\<exists>s n s' t' G' T' i. frag_of s n = frag_demo_fg 0x2000 \<and>
     ip_frag frag_demo_env (s, frag_demo_wheel) (frag_info s n) (hd n) = Some ((s', t'), None) \<and>
     frag_abs s' G' = [\<lparr>fk_sip = 1, fk_dip = 2, fk_identification = 5\<rparr> \<mapsto> [frag_demo_fg 0x2000]] \<and>
     T' = [\<lparr>fk_sip = 1, fk_dip = 2, fk_identification = 5\<rparr> \<mapsto> i] \<and> timerN_time i = 1003 \<and> (\<exists>rest. frag_inv 0 (s', t') G' T' rest)"
proof -
  let ?k = "\<lparr>fk_sip = 1, fk_dip = 2, fk_identification = 5\<rparr>"
  obtain s n n2 where d: "frag_inv 0 (s, frag_demo_wheel) [] Map.empty [[n2], [n]]" "frag_msg s n" "frag_of s n = frag_demo_fg 0x2000"
    "hasho_cap (fr_hash s) = 10"
    by (rule frag_demo_two [where ?i1.0 = "0x2000" and ?i2.0 = "1"])
  have inv: "frag_inv 0 (s, frag_demo_wheel) [] Map.empty ([n] # [[n2]])" by (rule frag_inv_perm [OF d(1)]) simp
  have xs: "fg_add (frag_of s n) (frag_abs s []) = [frag_demo_fg 0x2000]"
    "frag_step (frag_of s n) (frag_abs s []) = [?k \<mapsto> [frag_demo_fg 0x2000]]" "ip_frag_key (fg_info (frag_of s n)) = ?k"
    by (simp_all add: fg_add_def frag_step_def frag_abs_def d(3) frag_demo_fg_simps frag_demo_alone fun_eq_iff del: frag_of_simps)
  from ip_frag_refines_step [OF inv d(2) frag_demo_wheel_ok(2) frag_demo_room [OF d(4)] frag_demo_env_ok(1), unfolded xs frag_demo_env_ok(2)]
  obtain s' t' G' T' i where
    "ip_frag frag_demo_env (s, frag_demo_wheel) (frag_info s n) (hd n) = Some ((s', t'), None)"
    "frag_abs s' G' = [?k \<mapsto> [frag_demo_fg 0x2000]]" "T' = [?k \<mapsto> i]" "timerN_time i = 1003" "frag_inv 0 (s', t') G' T' [[n2]]"
    by (auto simp: frag_demo_alone)
  then show ?thesis using d(3) by blast
qed

section \<open>The timers\<close>

text \<open>The first of two messages waits for the rest of its datagram, the other one is still to come.\<close>

lemma frag_demo_pending:
  obtains s t G i n where "frag_inv 0 (s, t) G [\<lparr>fk_sip = 1, fk_dip = 2, fk_identification = 5\<rparr> \<mapsto> i] ([n] # [])"
    "frag_abs s G = [\<lparr>fk_sip = 1, fk_dip = 2, fk_identification = 5\<rparr> \<mapsto> [frag_demo_fg 0x2000]]"
    "timerN_time i = 1003" "tn_uiCurrentTime t = 1000" "frag_msg s n" "frag_of s n = frag_demo_fg j"
proof -
  let ?k = "\<lparr>fk_sip = 1, fk_dip = 2, fk_identification = 5\<rparr>"
  obtain s n n2 where d: "frag_inv 0 (s, frag_demo_wheel) [] Map.empty [[n2], [n]]" "frag_msg s n" "frag_of s n = frag_demo_fg 0x2000"
    "hasho_cap (fr_hash s) = 10" "frag_msg s n2" "frag_of s n2 = frag_demo_fg j"
    by (rule frag_demo_two [where ?i1.0 = "0x2000" and ?i2.0 = j])
  have inv: "frag_inv 0 (s, frag_demo_wheel) [] Map.empty ([n] # [[n2]])" by (rule frag_inv_perm [OF d(1)]) simp
  have xs: "fg_add (frag_of s n) (frag_abs s []) = [frag_demo_fg 0x2000]"
    "frag_step (frag_of s n) (frag_abs s []) = [?k \<mapsto> [frag_demo_fg 0x2000]]" "ip_frag_key (fg_info (frag_of s n)) = ?k"
    by (simp_all add: fg_add_def frag_step_def frag_abs_def d(3) frag_demo_fg_simps frag_demo_alone fun_eq_iff del: frag_of_simps)
  from ip_frag_ok [OF inv d(2) frag_demo_wheel_ok(2) frag_demo_room [OF d(4)] frag_demo_env_ok(1), unfolded xs frag_demo_env_ok(2)]
  obtain s' t' G' i where r: "frag_abs s' G' = [?k \<mapsto> [frag_demo_fg 0x2000]]" "frag_inv 0 (s', t') G' [?k \<mapsto> i] [[n2]]"
    "timerN_time i = 1003" "tn_uiCurrentTime t' = 1000" "\<forall>c. frag_keep s s' c"
    by (auto simp: frag_demo_alone frag_demo_wheel_ok(4))
  have "frag_keep s s' n2" using r(5) by blast
  from frag_keepD [OF this d(5)] show thesis using that r d(6) by simp
qed

text \<open>C13: A turn of the wheel calls \<open>invoke_del_ipfrag\<close> for each group whose timer is due and for no other: these
  groups are dropped with all of their messages, and every other group stays as it is, with its timer.\<close>

theorem frag_turn_drops:
  assumes "frag_inv zid (s, t) G T rest" "0 \<le> now" "now + 1 + N_DAY < 2 ^ 31" "tn_uiCurrentTime t \<le> now + 1"
  shows "\<exists>s' t' G'. timerN_invoke frag_call now (s, t) = Some (s', t') \<and> tn_uiCurrentTime t' = now + 1 \<and>
    frag_inv zid (s', t') G' (timerN_left T now) rest \<and>
    (\<forall>k. frag_abs s' G' k = (if \<exists>i. T k = Some i \<and> timerN_time i \<le> now then None else frag_abs s G k))"
proof -
  have none: "T k = None \<Longrightarrow> frag_abs s G k = None" for k using frag_inv_timer(1) [OF assms(1), of k] by (simp add: frag_abs_def)
  have "(frag_abs s G |` dom (timerN_left T now)) k = (if \<exists>i. T k = Some i \<and> timerN_time i \<le> now then None else frag_abs s G k)" for k
    using none [of k] by (cases "T k") (auto simp: restrict_map_def timerN_left_def domIff)
  then show ?thesis using frag_turn_ok [OF assms] by metis
qed

text \<open>The group is still there at second 1002 and gone at second 1003.\<close>

theorem frag_turn_drops_witness:
  "\<exists>s t G s1 t1 G1 s2 t2 G2. frag_abs s G = [\<lparr>fk_sip = 1, fk_dip = 2, fk_identification = 5\<rparr> \<mapsto> [frag_demo_fg 0x2000]] \<and>
     timerN_invoke frag_call 1002 (s, t) = Some (s1, t1) \<and> frag_abs s1 G1 = frag_abs s G \<and>
     timerN_invoke frag_call 1003 (s, t) = Some (s2, t2) \<and> frag_abs s2 G2 = Map.empty \<and> (\<exists>rest. frag_inv 0 (s2, t2) G2 Map.empty rest)"
proof -
  obtain s t G i n where d: "frag_inv 0 (s, t) G [\<lparr>fk_sip = 1, fk_dip = 2, fk_identification = 5\<rparr> \<mapsto> i] ([n] # [])"
    "frag_abs s G = [\<lparr>fk_sip = 1, fk_dip = 2, fk_identification = 5\<rparr> \<mapsto> [frag_demo_fg 0x2000]]"
    "timerN_time i = 1003" "tn_uiCurrentTime t = 1000"
    by (rule frag_demo_pending [where j = 1])
  let ?k = "\<lparr>fk_sip = 1, fk_dip = 2, fk_identification = 5\<rparr>" and ?T = "[\<lparr>fk_sip = 1, fk_dip = 2, fk_identification = 5\<rparr> \<mapsto> i]"
  have due: "(\<exists>j. ?T k = Some j \<and> timerN_time j \<le> now) \<longleftrightarrow> k = ?k \<and> 1003 \<le> now" for k now using d(3) by auto
  have left: "timerN_left ?T 1003 = Map.empty" using d(3) by (auto simp: timerN_left_def fun_eq_iff)
  have now: "1003 + 1 + N_DAY < 2 ^ 31" "1002 + 1 + N_DAY < 2 ^ 31" "tn_uiCurrentTime t \<le> 1002 + 1" "tn_uiCurrentTime t \<le> 1003 + 1"
    using d(4) by (simp_all add: N_DAY_def)
  obtain s1 t1 G1 where 1: "timerN_invoke frag_call 1002 (s, t) = Some (s1, t1)" "\<forall>k. frag_abs s1 G1 k = frag_abs s G k"
    using frag_turn_drops [OF d(1) _ now(2,3)] unfolding due by auto
  obtain s2 t2 G2 where 2: "timerN_invoke frag_call 1003 (s, t) = Some (s2, t2)" "frag_inv 0 (s2, t2) G2 Map.empty ([n] # [])"
    "\<forall>k. frag_abs s2 G2 k = (if k = ?k then None else frag_abs s G k)"
    using frag_turn_drops [OF d(1) _ now(1,4)] unfolding due left by auto
  have "frag_abs s1 G1 = frag_abs s G" "frag_abs s2 G2 = Map.empty" using 1(2) 2(3) d(2) by auto
  then show ?thesis using d(2) 1(1) 2(1,2) by blast
qed

section \<open>Repeated fragments\<close>

text \<open>C29: A fragment that repeats the position of one that waits is not recognised: it joins the group as well, and
  from then on the group is not complete, whatever else arrives. Only its timer ends it.\<close>

theorem ip_frag_repeat_blocks:
  assumes "frag_inv zid (s, t) G T ([n] # rest)" "frag_msg s n" "frag_timely e t"
    and "frag_room_for e (s, t) G (ip_frag_key (frag_info s n))" "frag_env_ok e"
    and "frag_abs s G (ip_frag_key (frag_info s n)) = Some xs" "y \<in> set xs" "fg_pos y = frag_pos s n"
    and "0 < fg_size y" "0 < frag_size s n"
  defines "zs \<equiv> insort_key fg_pos (frag_of s n) xs"
  shows "(\<exists>w' G' T'. ip_frag e (s, t) (frag_info s n) (hd n) = Some (w', None) \<and> frag_inv zid w' G' T' rest \<and>
      frag_abs (fst w') G' = (frag_abs s G)(ip_frag_key (frag_info s n) \<mapsto> zs)) \<and>
    (\<forall>more. mset zs \<subseteq># mset more \<longrightarrow> (\<forall>z \<in> set more. 0 \<le> fg_size z) \<longrightarrow> \<not> fg_complete more)"
proof -
  have twice: "{#y, frag_of s n#} \<subseteq># mset zs" using assms(7) by (simp add: zs_def)
  have never: "\<not> fg_complete more" if "mset zs \<subseteq># mset more" "\<forall>z \<in> set more. 0 \<le> fg_size z" for more
    using fg_repeat_incomplete [of y "frag_of s n" more] subset_mset.order_trans [OF twice that(1)] that(2) assms(8-10) by simp
  have add: "fg_add (frag_of s n) (frag_abs s G) = zs" using assms(6) by (simp add: fg_add_def zs_def)
  have "\<forall>x \<in> set xs. 0 \<le> fg_size x"
  proof -
    obtain cs where cs: "map_of G (ip_frag_key (frag_info s n)) = Some cs" "xs = map (frag_of s) cs"
      using assms(6) by (auto simp: frag_abs_def)
    have "frag_store zid s G ([n] # rest)" using assms(1) by (simp add: frag_inv_def)
    from frag_store_hit [OF this cs(1)] obtain f where "frag_group s (ip_frag_key (frag_info s n)) f cs" .
    then show ?thesis by (auto simp: cs(2) frag_group_def frag_msg_def frag_frame_def)
  qed
  then have "\<forall>z \<in> set zs. 0 \<le> fg_size z" using assms(10) by (simp add: zs_def set_insort_key)
  then have "\<not> fg_complete zs" using never by blast
  then have "\<exists>w' G' T'. ip_frag e (s, t) (frag_info s n) (hd n) = Some (w', None) \<and> frag_inv zid w' G' T' rest \<and>
      frag_abs (fst w') G' = (frag_abs s G)(ip_frag_key (frag_info s n) \<mapsto> zs)"
    using ip_frag_ok [OF assms(1-5)] unfolding add frag_step_def by fastforce
  then show ?thesis using never by blast
qed

text \<open>The first fragment comes twice.\<close>

theorem ip_frag_repeat_blocks_witness:
  "\<exists>s t n w'. frag_of s n = frag_demo_fg 0x2000 \<and> ip_frag frag_demo_env (s, t) (frag_info s n) (hd n) = Some (w', None) \<and>
     (\<exists>G'. frag_abs (fst w') G' = [\<lparr>fk_sip = 1, fk_dip = 2, fk_identification = 5\<rparr> \<mapsto> [frag_demo_fg 0x2000, frag_demo_fg 0x2000]]) \<and>
     \<not> fg_complete [frag_demo_fg 0x2000, frag_demo_fg 0x2000, frag_demo_fg 1]"
proof -
  let ?k = "\<lparr>fk_sip = 1, fk_dip = 2, fk_identification = 5\<rparr>" and ?x = "frag_demo_fg 0x2000"
  obtain s t G i n where d: "frag_inv 0 (s, t) G [?k \<mapsto> i] ([n] # [])" "frag_abs s G = [?k \<mapsto> [?x]]"
    "tn_uiCurrentTime t = 1000" "frag_msg s n" "frag_of s n = ?x"
    by (rule frag_demo_pending [where j = "0x2000"])
  have key: "ip_frag_key (frag_info s n) = ?k" "frag_pos s n = fg_pos ?x" "frag_size s n = 8"
    using arg_cong [OF d(5), of "\<lambda>x. ip_frag_key (fg_info x)"] arg_cong [OF d(5), of fg_pos] arg_cong [OF d(5), of fg_size]
    by (simp_all add: frag_demo_fg_simps)
  have time: "frag_timely frag_demo_env t" using frag_demo_wheel_ok(2,4) d(3) by (simp add: frag_timely_def)
  obtain cs where cs: "map_of G ?k = Some cs" "map (frag_of s) cs = [?x]"
    using arg_cong [OF d(2), of "\<lambda>f. f ?k"] by (auto simp: frag_abs_def)
  have "length cs = 1" using arg_cong [OF cs(2), of length] by simp
  then have room: "frag_room_for frag_demo_env (s, t) G (ip_frag_key (frag_info s n))" using cs(1) by (simp add: key(1) frag_room_for_def)
  have prems: "frag_abs s G (ip_frag_key (frag_info s n)) = Some [?x]" "?x \<in> set [?x]" "fg_pos ?x = frag_pos s n"
    "0 < fg_size ?x" "0 < frag_size s n"
    by (simp_all add: key d(2) frag_demo_fg_simps(1))
  note r = ip_frag_repeat_blocks [OF d(1,4) time room frag_demo_env_ok(1) prems, unfolded d(5) key(1) d(2)]
  have "\<not> fg_complete [?x, ?x, frag_demo_fg 1]" using r by (simp add: frag_demo_fg_simps(1))
  moreover obtain w' G' where "ip_frag frag_demo_env (s, t) (frag_info s n) (hd n) = Some (w', None)"
    "frag_abs (fst w') G' = [?k \<mapsto> [?x, ?x]]" using r by auto
  ultimately show ?thesis using d(5) by blast
qed

section \<open>Runs\<close>

text \<open>C19: Whatever messages have come and gone, whatever fragments have arrived and however the clock has advanced, no
  operation of the reassembly faults: \<open>ip_frag\<close> returns on each message, also when the table or the block is full, the
  wheel turns, a node is allocated or refused, and each message that the process holds can be released. The state
  is one that runs reach again.\<close>

theorem frag_run_never_faults:
  assumes "frag_run zid (s, t) ns"
  shows "(\<forall>n e. n \<in> set ns \<longrightarrow> frag_msg s n \<longrightarrow> frag_ready e (s, t) (ip_frag_key (frag_info s n)) \<longrightarrow>
      (\<exists>w' r. ip_frag e (s, t) (frag_info s n) (hd n) = Some (w', r) \<and>
         frag_run zid w' ((case r of None \<Rightarrow> [] | Some q \<Rightarrow> [[q]]) @ remove1 n ns))) \<and>
    (\<forall>now. 0 \<le> now \<longrightarrow> now + 1 + N_DAY < 2 ^ 31 \<longrightarrow> tn_uiCurrentTime t \<le> now + 1 \<longrightarrow>
      (\<exists>w'. timerN_invoke frag_call now (s, t) = Some w' \<and> frag_run zid w' ns)) \<and>
    (\<forall>now. \<exists>nf r. nifo_node_alloc (fr_nifo s) now = Some (nf, r) \<and>
      frag_run zid (s\<lparr>fr_nifo := nf\<rparr>, t) ((case r of None \<Rightarrow> [] | Some q \<Rightarrow> [[q]]) @ ns)) \<and>
    (\<forall>n \<in> set ns. \<exists>nf. nifo_node_delete (fr_nifo s) (hd n) = Some nf \<and> frag_run zid (s\<lparr>fr_nifo := nf\<rparr>, t) (remove1 n ns))"
proof -
  obtain G T where inv: "frag_inv zid (s, t) G T (frag_rings ns)" using frag_run_inv [OF assms] by blast
  have out: "frag_inv zid (s, t) G T ([n] # frag_rings (remove1 n ns))" if "n \<in> set ns" for n
    using frag_inv_perm [OF inv frag_rings_remove1 [OF that]] .
  have D: "nifo_full (fr_nifo s) (map snd G @ frag_rings ns)" "nifo_zone (fr_nifo s) zid"
    using inv by (simp_all add: frag_inv_def frag_store_def)
  have packet: "\<exists>w' r. ip_frag e (s, t) (frag_info s n) (hd n) = Some (w', r)"
    if "n \<in> set ns" "frag_msg s n" "frag_ready e (s, t) (ip_frag_key (frag_info s n))" for n e
    using ip_frag_total [OF out [OF that(1)] that(2,3)] by blast
  have turn: "\<exists>w'. timerN_invoke frag_call now (s, t) = Some w'"
    if "0 \<le> now" "now + 1 + N_DAY < 2 ^ 31" "tn_uiCurrentTime t \<le> now + 1" for now
    using frag_turn_ok [OF inv that] by blast
  have alloc: "\<exists>nf r. nifo_node_alloc (fr_nifo s) now = Some (nf, r)" for now using nifo_full_alloc [OF D, of now] by blast
  have delete: "\<exists>nf. nifo_node_delete (fr_nifo s) (hd n) = Some nf" if "n \<in> set ns" for n
    using frag_inv_delete [OF out [OF that]] by blast
  show ?thesis
    using packet frag_run_packet [OF assms] turn frag_run_turn [OF assms] alloc frag_run_alloc [OF assms] delete
      frag_run_delete [OF assms] by blast
qed

text \<open>The first fragment of two that have been written.\<close>

theorem frag_run_never_faults_witness:
  "\<exists>s n w' r ns. frag_of s n = frag_demo_fg 0x2000 \<and>
     ip_frag frag_demo_env (s, frag_demo_wheel) (frag_info s n) (hd n) = Some (w', r) \<and> frag_run 0 w' ns"
proof -
  obtain s n n2 where d: "frag_run 0 (s, frag_demo_wheel) [n2, n]" "frag_inv 0 (s, frag_demo_wheel) [] Map.empty [[n2], [n]]"
    "frag_msg s n" "frag_of s n = frag_demo_fg 0x2000"
    by (rule frag_demo_two [where ?i1.0 = "0x2000" and ?i2.0 = "1"])
  have "frag_store 0 s [] [[n2], [n]]" using d(2) by (simp add: frag_inv_def)
  from frag_store_miss [OF this] have "frag_ready frag_demo_env (s, frag_demo_wheel) k" for k
    using frag_demo_wheel_ok frag_demo_env_ok(1) by (simp add: frag_ready_def frag_entry_def)
  then show ?thesis using conjunct1 [OF frag_run_never_faults [OF d(1)]] d(3,4) by fastforce
qed

text \<open>C7: In every state of a run the nodes in use are exactly those of the groups and those that the process holds, each
  one once; the table has one entry for each group; each group has one timer, whose number is in its data, and the wheel
  has no other timer. So nothing leaks and no timer outlives its group.\<close>

theorem frag_run_accounts:
  assumes "frag_run zid (s, t) ns"
  shows "\<exists>G T. nifo_used (nf_mems (fr_nifo s)) = set (concat (concat (map snd G))) \<union> set (concat ns) \<and>
    distinct (concat (concat (map snd G)) @ concat ns) \<and>
    dom (hasho_at (fr_hash s)) = ip_frag_key_bytes ` dom (map_of G) \<and>
    (\<forall>k cs. map_of G k = Some cs \<longrightarrow> (\<exists>f. frag_entry s k = Some f \<and> frag_group s k f cs)) \<and>
    dom (timerN_pending t) = ran T \<and> dom T = dom (map_of G) \<and> inj_on T (dom T) \<and>
    (\<forall>k i. T k = Some i \<longrightarrow> timerN_pending t i = Some (frag_td k) \<and> map_option fi_timerNID (frag_entry s k) = Some (timerN_id i))"
proof -
  obtain G T where inv: "frag_inv zid (s, t) G T (frag_rings ns)" using frag_run_inv [OF assms] by blast
  have st: "frag_store zid s G (frag_rings ns)" and own: "timerN_owned frag_td T t"
    and ids: "\<forall>k. map_option fi_timerNID (frag_entry s k) = map_option timerN_id (T k)" using inv by (simp_all add: frag_inv_def)
  have full: "nifo_full (fr_nifo s) (map snd G @ frag_rings ns)" using st by (simp add: frag_store_def)
  have rings: "concat (frag_rings ns) = ns" by (induction ns) simp_all
  have "dom T = dom (map_of G)" using frag_inv_timer(1) [OF inv] by (simp add: dom_def)
  moreover have "inj_on T (dom T)" using timerN_ownedD(3) [OF own] by (auto simp: inj_on_def)
  moreover have "distinct (concat (concat (map snd G)) @ concat ns)"
    using full nifo_listsD(4) [of "fr_nifo s" "map snd G @ frag_rings ns"] by (simp add: nifo_full_def rings)
  moreover have "nifo_used (nf_mems (fr_nifo s)) = set (concat (concat (map snd G))) \<union> set (concat ns)"
    using full by (simp add: nifo_full_def rings)
  ultimately show ?thesis
    using st own ids by (intro exI [of _ G] exI [of _ T]) (simp add: frag_store_def timerN_ownedD(2,4) [OF own])
qed

text \<open>Two messages have been written, and no fragment has been handled.\<close>

theorem frag_run_accounts_witness:
  "\<exists>s n1 n2. frag_run 0 (s, frag_demo_wheel) [n2, n1] \<and>
     (\<exists>G :: frag_groups. nifo_used (nf_mems (fr_nifo s)) = set (concat (concat (map snd G))) \<union> set (n2 @ n1))"
proof -
  obtain s n n2 where d: "frag_run 0 (s, frag_demo_wheel) [n2, n]"
    by (rule frag_demo_two [where ?i1.0 = "0x2000" and ?i2.0 = "1"])
  from frag_run_accounts [OF d] obtain G :: frag_groups where
    "nifo_used (nf_mems (fr_nifo s)) = set (concat (concat (map snd G))) \<union> set (concat [n2, n])"
    by (elim exE conjE) (rule that)
  then show ?thesis using d by (intro exI [of _ s] exI [of _ n] exI [of _ n2] conjI exI [of _ G]) simp_all
qed

end
