(* ===== verification/Spec2Isabelle.thy ===== *)
theory Spec2Isabelle
  imports HashoTable TimerNFire GifoProps NifoBatch TcpKeysProps TcpCoded FragProps
begin

text \<open>
  A verification library for the messaging and analysis software of \<^verbatim>\<open>proj\<close>: the shared library
  \<^verbatim>\<open>proj/UPST_LIB\<close> (node pools, hash tables, timers, messages, channels), and the TCP session analysis
  \<^verbatim>\<open>proj/UPST_PROJECT/TAF/SRC/A_TCP\<close> and the reassembly of IP fragments in \<^verbatim>\<open>TAF/SRC/PRE_A\<close> that are built on it.

  \<^bold>\<open>The program.\<close> A system of processes on one machine shares blocks of memory. A packet that was
  captured is written into a node of a block as a sequence of records (type, length, value); its offset
  is passed from process to process through rings of cells. \<open>PRE_A\<close> puts the fragments of an IP packet together.
  \<open>A_TCP\<close> groups the packets by connection, puts
  their data into order, removes what was sent twice, and hands the data on when it is acknowledged.

  \<^bold>\<open>Theories and sources\<close> (file names are below \<^verbatim>\<open>proj/UPST_LIB/SRC\<close> unless said otherwise).
  \<^item> \<open>Prelude\<close>, \<open>Bytes\<close>: C integers, fallible calls as \<open>option\<close>, bytes by offset, little-endian words.
  \<^item> \<open>Pool\<close>: the interface of a node pool (locale \<open>node_pool\<close>); \<open>Memg\<close> models \<^verbatim>\<open>HASHO/memg.c\<close> and
    \<open>Mems\<close> models \<^verbatim>\<open>NIFO/mems.c\<close>, each with an interpretation (\<open>Memg\<close>, \<open>MemsProps\<close>); \<open>MemsGc\<close> is the
    garbage collector of \<^verbatim>\<open>mems.c\<close>.
  \<^item> \<open>Table\<close>: the interface of a bounded finite map (locales \<open>bounded_table\<close>, \<open>exact_table\<close>). \<open>Hasho\<close>
    models \<^verbatim>\<open>HASHO/hasho.c\<close>, \<open>Hashg\<close> models \<^verbatim>\<open>TIMERN/hashg.c\<close>, \<open>KeySum\<close> their hash functions; \<open>HashoProps\<close>,
    \<open>HashgProps\<close> hold the chains, \<open>HashoTable\<close>, \<open>HashgTable\<close> the views as maps and the interpretations.
  \<^item> \<open>TimerN\<close>: \<^verbatim>\<open>TIMERN/timerN.c\<close>, the wheel of the seconds of one day over \<open>hashg\<close>. \<open>TimerNProps\<close> has the
    invariant and the locale \<open>timer_client\<close> of what a fired function may do to the wheel, \<open>TimerNFire\<close>
    the firing and two interpretations.
  \<^item> \<open>Clist\<close>: \<^verbatim>\<open>INC/clisto.h\<close>, lists whose links are offsets. \<open>Nifo\<close>: \<^verbatim>\<open>NIFO/nifo.c\<close>, messages of several
    nodes. \<open>NifoProps\<close> (a message as a stream of bytes), \<open>NifoRead\<close> (reading back), \<open>NifoMsg\<close> (freeing;
    the properties), \<open>NifoBatch\<close> (lists of messages side by side and what a list operation leaves alone).
  \<^item> \<open>Channel\<close>: the interface of a message channel (locale \<open>msg_channel\<close>). \<open>Cifo\<close> models
    \<^verbatim>\<open>CIFO/cifo.c\<close>, a ring of cells; \<open>Gifo\<close> models \<^verbatim>\<open>GIFO/gifo.c\<close>, the routing; \<open>CifoProps\<close> and \<open>GifoProps\<close>
    interpret the interface on the model of a channel and of a pair of processes.
  \<^item> \<open>TcpTypes\<close>: the structures of \<^verbatim>\<open>UPST_PROJECT/CGALIB/common_stg.pstg\<close>. \<open>TcpUtil\<close>: \<^verbatim>\<open>A_TCP/tcp_util.c\<close>.
    \<open>TcpData\<close>: the messages of \<^verbatim>\<open>A_TCP/tcp_msgq.c\<close> and \<open>dInsertTCPData\<close>, \<open>dCheckAck\<close> of
    \<^verbatim>\<open>A_TCP/tcp_func.c\<close>. \<open>TcpSeq\<close> compares segments as intervals of positions, \<open>TcpPlace\<close> is the insertion of a
    segment into a list, \<open>TcpInsert\<close> shows that the pointer code does that insertion.
  \<^item> \<open>TcpKeys\<close>: \<^verbatim>\<open>A_TCP/tcp_sess.c\<close>, the lists of the sessions of each client in an array of nodes;
    \<open>TcpKeysProps\<close> has their invariant, what adding and removing do, and the clearing of a call.
  \<^item> \<open>TcpPlatform\<close>: \<^verbatim>\<open>TAF/LIBSRC/TOOLS/platform_type.c\<close>. \<open>TcpLife\<close>: the branches of \<open>pCreateSession\<close>,
    \<open>dProcTcpSess\<close> and \<open>dCloseSession\<close> (\<^verbatim>\<open>A_TCP/tcp_func.c\<close>) as functions of the session and its log, one for
    each branch. \<open>TcpProc\<close>: these functions composed with the tables, the timers and the messages, the timer
    function \<open>invoke_del\<close> and the loop of \<^verbatim>\<open>A_TCP/tcp_main.c\<close>, \<open>vTCPTimerReConstruct\<close> of
    \<^verbatim>\<open>A_TCP/tcp_init.c\<close>. \<open>TcpLifeProps\<close> relates the end of a session to a specification (what each side has
    announced and whether the other side has acknowledged it), shows that sessions end, and what the codes tell.
  \<^item> \<open>Ensures\<close> has the rules for invariants of fallible calls; \<open>TcpKeep\<close> shows what the handling of data leaves
    alone in a session, \<open>TcpOpen\<close> what holds of a session between two packets, branch by branch. \<open>TimerNWorld\<close> is
    the interface between the wheel and the state of its client (locale \<open>timer_world\<close>). \<open>TcpTable\<close> is the table
    of the sessions, with the interpretation for the timer function of \<open>A_TCP\<close>, \<open>TcpPacket\<close> the parts of
    \<open>dProcTcpSess\<close>, \<open>TcpRun\<close> the messages, the main loop and the process as a relation (\<open>tcp_run\<close>).
    \<open>TcpCoded\<close> carries a second invariant through all of them: what the closes write into the logs (\<open>logs_coded\<close>).
  \<^item> \<open>Frag\<close>: the reassembly of IP fragments in \<^verbatim>\<open>TAF/SRC/PRE_A\<close> (\<^verbatim>\<open>prea_frag.c\<close>, its timer function in
    \<^verbatim>\<open>prea_main.c\<close>, the restart of its timers in \<^verbatim>\<open>prea_init.c\<close>). \<open>FragOrder\<close> has the order of the fragments and
    when they are complete, \<open>FragMerge\<close> what is put together, \<open>FragStore\<close> the groups in memory. \<open>TimerNOwner\<close> is
    the view of the wheel of a client whose objects have one timer each. \<open>FragGroups\<close> has the groups with their timers
    (\<open>frag_inv\<close>), their specification by value (\<open>frag_step\<close>) and the refinement, \<open>FragRun\<close> what happens over time (whole
    datagrams, turns of the wheel, runs as a relation \<open>frag_run\<close>), \<open>FragProps\<close> the properties.

  \<^bold>\<open>How the code is read.\<close> A structure is a record with the names of its fields, a 32 bit counter a
  \<open>32 word\<close> that wraps, an \<open>OFFSET\<close> an \<open>int\<close>. A block is a map from offsets to structures (node
  headers, links, node descriptors) or to bytes (payloads, cells); a read outside of it is a fault. A call is
  a function of the state with result \<open>option\<close>: \<open>None\<close> is a fault or a call that never returns, error codes
  and NULL are values. Loops over linked structures are \<open>partial_function (option)\<close>, so there is no fuel: that
  a call returns is part of each property (the result is some \<open>Some\<close>). Loops with a counter recurse on it.

  \<^bold>\<open>What the lemmas show.\<close> Pools: invariant, exact set of nodes in use, nodes never overlap, release exactly
  once; the collector of the pools with zones releases exactly what is due at the addresses it looks at, which with
  several zones are not those of the nodes. Tables: every sequence of calls is answered as a bounded map answers it. Wheel: exactly the due
  timers fire, in order. Messages: what was written is read back, with the exact condition under which it is
  not; deletion frees exactly the nodes. Channels: first in, first out, for every sequence of calls; the read
  semaphore is never taken on a block that \<open>cifo_init\<close> has built. TCP:
  the comparisons of sequence numbers are those of intervals modulo \<open>2 ^ 32\<close> while the data of a session stays
  below \<open>2 ^ 31\<close> positions (beyond, signed gaps no longer order segments); the waiting packets
  stay apart and in order, and every position keeps its byte; the lists of a client are kept in order and
  cleared completely; a session ends when both sides have closed it, and its code tells why it ended; in every
  reachable state every session that the table finds is there, well typed and open, and every log has the code of a
  cause or an end that was not written yet. These two are invariants of the calls that return; that the messaging block is sound at each of them is not part of it. Fragments: handling one
  refines a step on groups by value, a datagram is put together whatever the order of its fragments, a group ends when
  it is complete or its timer is due, and in every state of a run the nodes, the entries of the table and the timers are
  exactly those of the groups and of the messages that the process holds; there the calls are shown to return. A
  fragment must have its three records inside its first node, and the wheel must take timers, as hypotheses say. The
  restart of the timers of the groups is modelled, without a property.

  \<^bold>\<open>Parameters.\<close> The operating system (allocation, shared memory, semaphores, clocks), the functions that a
  client registers with a timer, and the numbers and sizes that the code generator assigns to structures
  (\<open>tcp_env\<close>) are arguments of the definitions. \<open>aproc_env\<close> holds those of a process: the clock, which stands
  still while a packet is handled, the values of two codes that are defined outside the repository, the
  bytes of structures that are only stored, and what the stack holds where \<open>pCreateSession\<close> puts a session
  together. \<open>mems_raw\<close> is what the collector of \<^verbatim>\<open>mems.c\<close> reads where no node header is.

  \<^bold>\<open>Not modelled.\<close> Printing, drawing and dump functions; interleavings of several processes inside one
  call (semaphores are counted, calls are atomic); the readers of configuration files; the database, socket
  and log wrappers; the other analysers of \<^verbatim>\<open>TAF\<close> and the rest of \<^verbatim>\<open>PRE_A\<close> (filter, buffers and main loop, around decoders that are
  not in the repository), the operation and management processes and the older
  system \<^verbatim>\<open>proj/DSC_R2\<close>, which are separate programs.
\<close>

end
